(* ===== verification/Prelude.thy ===== *)
theory Prelude
  imports Main "HOL-Library.Word"
begin

text \<open>
  Shared vocabulary of the development: the types every component uses (identifiers, clock
  readings, JSON values), the JavaScript string and array operations the source calls
  (\<open>indexOf\<close>, \<open>split\<close>, \<open>find\<close>, \<open>findIndex\<close>, \<open>startsWith\<close>), the table operations behind the
  Drizzle queries (\<open>select\<close> is \<open>filter\<close>, \<open>update ... where\<close> is \<open>update_where\<close>, whose row count
  names the winner of a conditional update), and two interfaces as locales: a transition
  system with an inductive invariant, and a single-use claim.
\<close>

section \<open>Types\<close>

text \<open>Identifiers are strings. A \<open>Date\<close> is its \<open>getTime()\<close>, milliseconds since 1970.\<close>

type_synonym ident = string
type_synonym time = int

text \<open>
  The value \<open>unknown\<close> of a tool argument: JSON. Object entries are kept in insertion order,
  as \<open>Object.entries\<close> returns them.
\<close>

datatype json =
    JNull
  | JBool bool
  | JNum int
  | JStr string
  | JArr "json list"
  | JObj "(string \<times> json) list"

named_theorems str_simps \<open>facts that split and search strings\<close>
named_theorems table_simps \<open>facts about rows selected, updated and deleted\<close>

section \<open>Strings\<close>

text \<open>\<open>s.indexOf(c, i)\<close>: the first position at or after \<open>i\<close> that holds \<open>c\<close>.\<close>

function indexOf :: "char \<Rightarrow> string \<Rightarrow> nat \<Rightarrow> nat option" where
  "indexOf c s i =
     (if i < length s then (if s ! i = c then Some i else indexOf c s (Suc i)) else None)"
  by pat_completeness auto
termination
  by (relation "measure (\<lambda>(c, s, i). length s - i)") auto

declare indexOf.simps [simp del]

text \<open>\<open>s.split(c)\<close> for a one-character separator: never the empty list.\<close>

fun split_on :: "char \<Rightarrow> string \<Rightarrow> string list" where
  "split_on c [] = [[]]"
| "split_on c (x # xs) =
     (if x = c then [] # split_on c xs
      else (case split_on c xs of [] \<Rightarrow> [[x]] | seg # segs \<Rightarrow> (x # seg) # segs))"

text \<open>\<open>xs.join(c)\<close>, the inverse of \<open>split_on\<close>.\<close>

fun join_on :: "char \<Rightarrow> string list \<Rightarrow> string" where
  "join_on c [] = []"
| "join_on c [s] = s"
| "join_on c (s # t # ts) = s @ c # join_on c (t # ts)"

text \<open>\<open>s.startsWith(p)\<close>.\<close>

fun starts_with :: "string \<Rightarrow> string \<Rightarrow> bool" where
  "starts_with [] s = True"
| "starts_with (x # p) [] = False"
| "starts_with (x # p) (y # s) = (x = y \<and> starts_with p s)"

lemma starts_with_append [simp]: "starts_with p (p @ s)"
  by (induction p) auto

lemma starts_with_iff: "starts_with p s \<longleftrightarrow> (\<exists>t. s = p @ t)"
  by (induction p s rule: starts_with.induct) auto

lemma indexOf_SomeD:
  "indexOf c s i = Some k \<Longrightarrow> i \<le> k \<and> k < length s \<and> s ! k = c"
proof (induction c s i rule: indexOf.induct)
  case (1 c s i)
  then show ?case
    by (auto simp: indexOf.simps [of c s i] split: if_splits)
qed

lemma split_on_neq_Nil [simp]: "split_on c s \<noteq> []"
  by (induction s) (auto split: list.splits)

lemma split_on_unfold [str_simps]:
  "split_on c s = takeWhile (\<lambda>x. x \<noteq> c) s #
     (case dropWhile (\<lambda>x. x \<noteq> c) s of [] \<Rightarrow> [] | _ # t \<Rightarrow> split_on c t)"
  by (induction s) auto

lemma split_on_sep_free: "c \<notin> set s \<Longrightarrow> split_on c s = [s]"
  by (induction s) auto

lemma split_on_append_sep: "split_on c (s @ c # t) = split_on c s @ split_on c t"
  by (induction s) (auto split: list.splits)

lemma split_on_no_sep: "x \<in> set (split_on c s) \<Longrightarrow> c \<notin> set x"
proof (induction s arbitrary: x)
  case (Cons a s)
  then show ?case
    by (cases "split_on c s") (auto split: if_splits)
qed simp

lemma join_split [simp]: "join_on c (split_on c s) = s"
proof (induction s)
  case (Cons x xs)
  obtain seg segs where eq: "split_on c xs = seg # segs"
    by (cases "split_on c xs") auto
  with Cons show ?case
    by (cases segs) auto
qed simp

lemma split_join:
  "ss \<noteq> [] \<Longrightarrow> \<forall>s\<in>set ss. c \<notin> set s \<Longrightarrow> split_on c (join_on c ss) = ss"
  by (induction c ss rule: join_on.induct)
    (auto simp: split_on_sep_free split_on_append_sep)

lemma split_on_inject: "split_on c s = split_on c t \<longleftrightarrow> s = t"
  by (metis join_split)

lemma split_on_eq_single_iff: "split_on c s = [t] \<longleftrightarrow> s = t \<and> c \<notin> set t"
  by (metis join_on.simps(2) join_split list.set_intros(1) split_on_no_sep split_on_sep_free)

text \<open>\<open>indexOf\<close> walks to the end of the current segment.\<close>

lemma indexOf_takeWhile [str_simps]:
  "i \<le> length s \<Longrightarrow>
   indexOf c s i =
     (let n = length (takeWhile (\<lambda>x. x \<noteq> c) (drop i s))
      in if i + n < length s then Some (i + n) else None)"
proof (induction c s i rule: indexOf.induct)
  case (1 c s i)
  show ?case
  proof (cases "i < length s")
    case True
    then have d: "drop i s = s ! i # drop (Suc i) s"
      by (simp add: Cons_nth_drop_Suc)
    show ?thesis
    proof (cases "s ! i = c")
      case True
      with \<open>i < length s\<close> d show ?thesis
        by (simp add: indexOf.simps [of c s i])
    next
      case False
      with \<open>i < length s\<close> d "1.IH" show ?thesis
        by (simp add: indexOf.simps [of c s i] Let_def)
    qed
  next
    case False
    then show ?thesis by (simp add: indexOf.simps [of c s i])
  qed
qed

section \<open>Numbers as strings\<close>

text \<open>\<open>String(n)\<close> for an integer, in decimal.\<close>

definition digit_char :: "nat \<Rightarrow> char" where
  "digit_char d = char_of (48 + d)"

fun nat_str :: "nat \<Rightarrow> string" where
  "nat_str n = (if n < 10 then [digit_char n] else nat_str (n div 10) @ [digit_char (n mod 10)])"

declare nat_str.simps [simp del]

definition int_str :: "int \<Rightarrow> string" where
  "int_str i = (if i < 0 then CHR ''-'' # nat_str (nat (- i)) else nat_str (nat i))"

definition is_digit :: "char \<Rightarrow> bool" where
  "is_digit c \<longleftrightarrow> 48 \<le> (of_char c :: nat) \<and> (of_char c :: nat) \<le> 57"

definition digit_val :: "char \<Rightarrow> nat" where
  "digit_val c = of_char c - 48"

text \<open>The number a string of digits denotes, read from the left.\<close>

definition digits_val :: "string \<Rightarrow> nat" where
  "digits_val s = foldl (\<lambda>a c. a * 10 + digit_val c) 0 s"

lemma digit_val_char [simp]: "d < 10 \<Longrightarrow> digit_val (digit_char d) = d"
  by (simp add: digit_val_def digit_char_def)

lemma is_digit_char [simp]: "d < 10 \<Longrightarrow> is_digit (digit_char d)"
  by (simp add: is_digit_def digit_char_def)

lemma digits_val_nat_str [simp]: "digits_val (nat_str n) = n"
proof (induction n rule: nat_str.induct)
  case (1 n)
  then show ?case
    by (cases "n < 10") (simp_all add: nat_str.simps [of n] digits_val_def)
qed

lemma nat_str_digits: "c \<in> set (nat_str n) \<Longrightarrow> is_digit c"
proof (induction n rule: nat_str.induct)
  case (1 n)
  then show ?case
    by (cases "n < 10") (auto simp: nat_str.simps [of n])
qed

lemma nat_str_inj: "nat_str m = nat_str n \<Longrightarrow> m = n"
  by (metis digits_val_nat_str)

lemma nat_str_neq_Nil [simp]: "nat_str n \<noteq> []"
  by (simp add: nat_str.simps [of n])

lemma not_digit_sep: "\<not> is_digit CHR '':''" "\<not> is_digit CHR ''-''" "\<not> is_digit CHR ''.''"
  by (simp_all add: is_digit_def)

lemma int_str_inj: "int_str i = int_str j \<Longrightarrow> i = j"
proof -
  assume eq: "int_str i = int_str j"
  have neg: "nat_str m \<noteq> CHR ''-'' # s" for m s
    using nat_str_digits [of "CHR ''-''" m] not_digit_sep(2) by auto
  show "i = j"
    using eq neg by (auto simp: int_str_def dest: nat_str_inj split: if_splits) (metis neg)
qed

lemma int_str_sep_free: "CHR '':'' \<notin> set (int_str i)"
  using nat_str_digits not_digit_sep(1) by (auto simp: int_str_def)

text \<open>A separator that neither prefix holds splits two equal strings at the same place.\<close>

lemma append_sep_inject:
  assumes "a @ c # x = b @ c # y" and "c \<notin> set a" and "c \<notin> set b"
  shows "a = b \<and> x = y"
proof -
  have "takeWhile (\<lambda>z. z \<noteq> c) (s @ c # t) = s" if "c \<notin> set s" for s t
    using that by (induction s) auto
  with assms show ?thesis by (metis append_same_eq list.inject same_append_eq)
qed

lemma append_sep_inject_last:
  assumes "a @ c # x = b @ c # y" and "c \<notin> set x" and "c \<notin> set y"
  shows "a = b \<and> x = y"
proof -
  have "rev x @ c # rev a = rev y @ c # rev b"
    using arg_cong [OF assms(1), of rev] by simp
  from append_sep_inject [OF this] assms(2,3) show ?thesis by simp
qed

section \<open>Arrays\<close>

text \<open>\<open>xs.findIndex(p)\<close>; \<open>xs.find(p)\<close> is \<^const>\<open>List.find\<close>.\<close>

fun find_index :: "('a \<Rightarrow> bool) \<Rightarrow> 'a list \<Rightarrow> nat option" where
  "find_index P [] = None"
| "find_index P (x # xs) = (if P x then Some 0 else map_option Suc (find_index P xs))"

lemma find_index_SomeD:
  "find_index P xs = Some i \<Longrightarrow> i < length xs \<and> P (xs ! i) \<and> (\<forall>j<i. \<not> P (xs ! j))"
proof (induction xs arbitrary: i)
  case (Cons x xs)
  then show ?case
    by (auto simp: less_Suc_eq_0_disj split: if_splits)
qed simp

lemma find_index_None_iff: "find_index P xs = None \<longleftrightarrow> (\<forall>x\<in>set xs. \<not> P x)"
  by (induction xs) auto

lemma find_index_Some_iff:
  "find_index P xs = Some i \<longleftrightarrow> i < length xs \<and> P (xs ! i) \<and> (\<forall>j<i. \<not> P (xs ! j))"
proof
  assume "i < length xs \<and> P (xs ! i) \<and> (\<forall>j<i. \<not> P (xs ! j))"
  then show "find_index P xs = Some i"
  proof (induction xs arbitrary: i)
    case (Cons x xs)
    then show ?case by (cases i) (auto simp: All_less_Suc2)
  qed simp
qed (rule find_index_SomeD)

lemma find_SomeD: "List.find P xs = Some x \<Longrightarrow> x \<in> set xs \<and> P x"
  by (auto simp: find_Some_iff)

text \<open>\<open>new Set(xs)\<close> read back in insertion order: first occurrences only.\<close>

fun uniq :: "'a list \<Rightarrow> 'a list" where
  "uniq [] = []"
| "uniq (x # xs) = x # filter (\<lambda>y. y \<noteq> x) (uniq xs)"

lemma set_uniq [simp]: "set (uniq xs) = set xs"
  by (induction xs) auto

lemma distinct_uniq [simp]: "distinct (uniq xs)"
  by (induction xs) auto

section \<open>Tables\<close>

text \<open>
  A table is the list of its rows. \<open>update_where P f rows\<close> is \<open>UPDATE ... SET f WHERE P\<close>,
  \<open>count_where\<close> the number of rows it changed, \<open>delete_where\<close> is \<open>DELETE ... WHERE P\<close>.
\<close>

definition update_where :: "('r \<Rightarrow> bool) \<Rightarrow> ('r \<Rightarrow> 'r) \<Rightarrow> 'r list \<Rightarrow> 'r list" where
  "update_where P f rows = map (\<lambda>r. if P r then f r else r) rows"

definition count_where :: "('r \<Rightarrow> bool) \<Rightarrow> 'r list \<Rightarrow> nat" where
  "count_where P rows = length (filter P rows)"

definition delete_where :: "('r \<Rightarrow> bool) \<Rightarrow> 'r list \<Rightarrow> 'r list" where
  "delete_where P rows = filter (\<lambda>r. \<not> P r) rows"

lemma set_update_where [table_simps]:
  "set (update_where P f rows) = (\<lambda>r. if P r then f r else r) ` set rows"
  by (simp add: update_where_def)

lemma length_update_where [simp]: "length (update_where P f rows) = length rows"
  by (simp add: update_where_def)

lemma update_where_Nil [simp]: "update_where P f [] = []"
  by (simp add: update_where_def)

lemma update_where_Cons [simp]:
  "update_where P f (r # rows) = (if P r then f r else r) # update_where P f rows"
  by (simp add: update_where_def)

lemma map_update_where [table_simps]:
  "(\<And>r. P r \<Longrightarrow> g (f r) = g r) \<Longrightarrow> map g (update_where P f rows) = map g rows"
  by (induction rows) auto

lemma count_where_pos [table_simps]: "0 < count_where P rows \<longleftrightarrow> (\<exists>r\<in>set rows. P r)"
  by (auto simp: count_where_def filter_empty_conv)

lemma set_delete_where [table_simps]: "set (delete_where P rows) = {r \<in> set rows. \<not> P r}"
  by (auto simp: delete_where_def)

section \<open>Interfaces\<close>

text \<open>
  A state machine given by a step relation, with an invariant that holds initially and is
  kept by every step. The invariant then holds in every reachable state.
\<close>

inductive reaches :: "('s \<Rightarrow> bool) \<Rightarrow> ('s \<Rightarrow> 's \<Rightarrow> bool) \<Rightarrow> 's \<Rightarrow> bool"
  for init :: "'s \<Rightarrow> bool" and step :: "'s \<Rightarrow> 's \<Rightarrow> bool" where
  reaches_init: "init s \<Longrightarrow> reaches init step s"
| reaches_step: "reaches init step s \<Longrightarrow> step s t \<Longrightarrow> reaches init step t"

locale machine =
  fixes init :: "'s \<Rightarrow> bool"
    and step :: "'s \<Rightarrow> 's \<Rightarrow> bool"
    and inv :: "'s \<Rightarrow> bool"
  assumes inv_start: "init s \<Longrightarrow> inv s"
    and inv_kept: "inv s \<Longrightarrow> step s t \<Longrightarrow> inv t"
begin

lemma inv_reachable: "reaches init step s \<Longrightarrow> inv s"
  by (induction rule: reaches.induct) (auto intro: inv_start inv_kept)

end

text \<open>
  A single-use claim: a conditional update that reports whether it won, on the states where
  \<open>ok\<close> holds (a table whose keys are unique). A win needs an unspent token and leaves it spent,
  and no claim ever releases a token. Then, over any sequence of claims, each token is won at
  most once.
\<close>

fun run_claims :: "('k \<Rightarrow> 's \<Rightarrow> bool \<times> 's) \<Rightarrow> 'k list \<Rightarrow> 's \<Rightarrow> bool list" where
  "run_claims claim [] s = []"
| "run_claims claim (k # ks) s =
     (case claim k s of (won, s') \<Rightarrow> won # run_claims claim ks s')"

text \<open>How often a token was won.\<close>

definition wins :: "('k \<Rightarrow> 't) \<Rightarrow> 't \<Rightarrow> 'k list \<Rightarrow> bool list \<Rightarrow> nat" where
  "wins token t ks bs = length (filter (\<lambda>(k, b). token k = t \<and> b) (zip ks bs))"

lemma wins_Nil [simp]: "wins token t [] bs = 0"
  by (simp add: wins_def)

lemma wins_Cons [simp]:
  "wins token t (k # ks) (b # bs) = (if token k = t \<and> b then 1 else 0) + wins token t ks bs"
  by (simp add: wins_def)

locale single_use =
  fixes claim :: "'k \<Rightarrow> 's \<Rightarrow> bool \<times> 's"
    and token :: "'k \<Rightarrow> 't"
    and spent :: "'t \<Rightarrow> 's \<Rightarrow> bool"
    and ok :: "'s \<Rightarrow> bool"
  assumes ok_kept: "ok s \<Longrightarrow> claim k s = (b, s') \<Longrightarrow> ok s'"
    and win_unspent: "claim k s = (True, s') \<Longrightarrow> \<not> spent (token k) s"
    and win_spends: "ok s \<Longrightarrow> claim k s = (True, s') \<Longrightarrow> spent (token k) s'"
    and spent_kept: "claim k s = (b, s') \<Longrightarrow> spent t s \<Longrightarrow> spent t s'"
begin

lemma no_win_once_spent: "spent (token k) s \<Longrightarrow> claim k s = (b, s') \<Longrightarrow> \<not> b"
  by (cases b) (auto dest: win_unspent)

lemma spent_no_wins: "spent t s \<Longrightarrow> wins token t ks (run_claims claim ks s) = 0"
proof (induction ks arbitrary: s)
  case (Cons k ks)
  obtain b s' where c: "claim k s = (b, s')" by (cases "claim k s")
  with Cons.prems have "spent t s'" by (blast intro: spent_kept)
  moreover have "token k = t \<Longrightarrow> \<not> b" using no_win_once_spent Cons.prems c by blast
  ultimately show ?case using Cons.IH c by auto
qed simp

lemma at_most_one_win: "ok s \<Longrightarrow> wins token t ks (run_claims claim ks s) \<le> 1"
proof (induction ks arbitrary: s)
  case (Cons k ks)
  obtain b s' where c: "claim k s = (b, s')" by (cases "claim k s")
  show ?case
  proof (cases "token k = t \<and> b")
    case True
    with c Cons.prems have "spent t s'" by (auto dest: win_spends)
    from spent_no_wins [OF this] c True show ?thesis by simp
  next
    case False
    with c Cons.IH [OF ok_kept [OF Cons.prems c]] show ?thesis by auto
  qed
qed simp

end

end
