(* ===== verification/SingleUse.thy ===== *)
theory SingleUse
  imports Prelude
begin

text \<open>
  The single-use stores, \<open>packages/core/src/db/store/single-use.ts\<close>. Every method is one
  conditional statement and its row count names the winner: \<open>flip\<close> is a guarded update,
  \<open>remove\<close> a guarded delete, \<open>increment\<close> a guarded counter. Each store is a list of rows, and
  a method returns its answer with the new list. Interpretations of \<open>single_use\<close> show
  that a row is claimed once over any sequence of calls, and the rate limit store is proved to
  count exactly the calls it allows.
\<close>

section \<open>Statements\<close>

definition flip :: "('r \<Rightarrow> bool) \<Rightarrow> ('r \<Rightarrow> 'r) \<Rightarrow> 'r list \<Rightarrow> bool \<times> 'r list" where
  "flip P f rows = (0 < count_where P rows, update_where P f rows)"

definition remove :: "('r \<Rightarrow> bool) \<Rightarrow> 'r list \<Rightarrow> bool \<times> 'r list" where
  "remove P rows = (0 < count_where P rows, delete_where P rows)"

text \<open>\<open>kernel.increment(...) !== null\<close>: a row was selected and its guard held.\<close>

definition increment :: "('r \<Rightarrow> bool) \<Rightarrow> ('r \<Rightarrow> 'r) \<Rightarrow> 'r list \<Rightarrow> bool \<times> 'r list" where
  "increment P f rows = flip P f rows"

section \<open>Links, codes and tokens\<close>

record magic_link =
  ml_token :: ident
  ml_used :: bool
  ml_expiresAt :: time

definition magicLinks_markUsed :: "ident \<times> time \<Rightarrow> magic_link list \<Rightarrow> bool \<times> magic_link list" where
  "magicLinks_markUsed k =
     (case k of (token, now) \<Rightarrow>
        flip (\<lambda>r. ml_token r = token \<and> \<not> ml_used r \<and> now < ml_expiresAt r) (ml_used_update (\<lambda>_. True)))"

record email_otp =
  eo_id :: ident
  eo_attempts :: int

definition emailOtps_reserveAttempt :: "ident \<Rightarrow> int \<Rightarrow> email_otp list \<Rightarrow> bool \<times> email_otp list" where
  "emailOtps_reserveAttempt i cap =
     increment (\<lambda>r. eo_id r = i \<and> eo_attempts r < cap) (eo_attempts_update (\<lambda>n. n + 1))"

definition emailOtps_consume :: "ident \<Rightarrow> email_otp list \<Rightarrow> bool \<times> email_otp list" where
  "emailOtps_consume i = remove (\<lambda>r. eo_id r = i)"

text \<open>A row with an id and a \<open>used\<close> flag: one-time tokens, JWT refresh tokens, OIDC codes.\<close>

record used_row =
  ur_id :: ident
  ur_used :: bool

definition mark_used :: "ident \<Rightarrow> used_row list \<Rightarrow> bool \<times> used_row list" where
  "mark_used i = flip (\<lambda>r. ur_id r = i \<and> \<not> ur_used r) (ur_used_update (\<lambda>_. True))"

definition oneTimeTokens_markUsed :: "ident \<Rightarrow> used_row list \<Rightarrow> bool \<times> used_row list" where
  "oneTimeTokens_markUsed = mark_used"

definition jwtRefreshTokens_markUsed :: "ident \<Rightarrow> used_row list \<Rightarrow> bool \<times> used_row list" where
  "jwtRefreshTokens_markUsed = mark_used"

definition oidcAuthCodes_markUsed :: "ident \<Rightarrow> used_row list \<Rightarrow> bool \<times> used_row list" where
  "oidcAuthCodes_markUsed = mark_used"

text \<open>Rows that are consumed by their deletion are represented by their key.\<close>

definition consume_key :: "ident \<Rightarrow> ident list \<Rightarrow> bool \<times> ident list" where
  "consume_key i = remove (\<lambda>k. k = i)"

definition passkeyChallenges_consume :: "ident \<Rightarrow> ident list \<Rightarrow> bool \<times> ident list" where
  "passkeyChallenges_consume = consume_key"

definition oauthStates_consume :: "ident \<Rightarrow> ident list \<Rightarrow> bool \<times> ident list" where
  "oauthStates_consume = consume_key"

definition sessions_deleteOnce :: "ident \<Rightarrow> ident list \<Rightarrow> bool \<times> ident list" where
  "sessions_deleteOnce = consume_key"

record oidc_refresh =
  or_id :: ident
  or_revoked :: bool

definition oidcRefreshTokens_rotate :: "ident \<Rightarrow> oidc_refresh list \<Rightarrow> bool \<times> oidc_refresh list" where
  "oidcRefreshTokens_rotate i =
     flip (\<lambda>r. or_id r = i \<and> \<not> or_revoked r) (or_revoked_update (\<lambda>_. True))"

record org_invitation =
  oi_id :: ident
  oi_status :: string

definition orgInvitations_accept :: "ident \<Rightarrow> org_invitation list \<Rightarrow> bool \<times> org_invitation list" where
  "orgInvitations_accept i =
     flip (\<lambda>r. oi_id r = i \<and> oi_status r = ''pending'') (oi_status_update (\<lambda>_. ''accepted''))"

section \<open>Devices\<close>

record device_enrollment =
  de_id :: ident
  de_uses :: int
  de_maxUses :: int
  de_revokedAt :: "time option"
  de_expiresAt :: time

definition deviceEnrollments_revoke ::
  "ident \<times> time \<Rightarrow> device_enrollment list \<Rightarrow> bool \<times> device_enrollment list" where
  "deviceEnrollments_revoke k =
     (case k of (i, at) \<Rightarrow>
        flip (\<lambda>r. de_id r = i \<and> de_revokedAt r = None) (de_revokedAt_update (\<lambda>_. Some at)))"

definition deviceEnrollments_spendUse ::
  "ident \<Rightarrow> time \<Rightarrow> device_enrollment list \<Rightarrow> bool \<times> device_enrollment list" where
  "deviceEnrollments_spendUse i now =
     increment
       (\<lambda>r. de_id r = i \<and> de_uses r < de_maxUses r \<and> de_revokedAt r = None \<and> now < de_expiresAt r)
       (de_uses_update (\<lambda>n. n + 1))"

record device_counter =
  dc_id :: ident
  dc_appAttestCounter :: int

definition devices_advanceAppAttestCounter ::
  "ident \<Rightarrow> int \<Rightarrow> device_counter list \<Rightarrow> bool \<times> device_counter list" where
  "devices_advanceAppAttestCounter i counter =
     flip (\<lambda>r. dc_id r = i \<and> dc_appAttestCounter r < counter)
       (dc_appAttestCounter_update (\<lambda>_. counter))"

section \<open>Approvals\<close>

datatype approval_status = Pending | Approved | Denied | Expired

text \<open>A row of \<open>approvalRequests\<close>.\<close>

record approval_row =
  ap_id :: ident
  ap_agentId :: ident
  ap_userId :: ident
  ap_action :: string
  ap_resource :: string
  ap_arguments :: "(string \<times> json) list option"
  ap_status :: approval_status
  ap_expiresAt :: time
  ap_respondedAt :: "time option"
  ap_respondedBy :: "ident option"
  ap_consumedAt :: "time option"
  ap_requiredAcr :: "string option"
  ap_maxAuthAge :: "int option"
  ap_requiredApprovals :: "nat option"
  ap_createdAt :: time

record approval_decision =
  ad_status :: approval_status
  ad_respondedAt :: time
  ad_respondedBy :: "ident option"

definition approvals_decide ::
  "ident \<Rightarrow> approval_decision \<Rightarrow> time \<Rightarrow> approval_row list \<Rightarrow> bool \<times> approval_row list" where
  "approvals_decide i d now =
     flip (\<lambda>r. ap_id r = i \<and> ap_status r = Pending \<and> now < ap_expiresAt r)
       (\<lambda>r. r\<lparr>ap_status := ad_status d, ap_respondedAt := Some (ad_respondedAt d),
             ap_respondedBy := ad_respondedBy d\<rparr>)"

definition approvals_expire :: "ident \<Rightarrow> approval_row list \<Rightarrow> bool \<times> approval_row list" where
  "approvals_expire i =
     flip (\<lambda>r. ap_id r = i \<and> ap_status r = Pending) (ap_status_update (\<lambda>_. Expired))"

record approval_spend =
  as_id :: ident
  as_agentId :: ident
  as_action :: string
  as_resource :: string

definition spendable :: "approval_spend \<Rightarrow> time \<Rightarrow> approval_row \<Rightarrow> bool" where
  "spendable spend now r \<longleftrightarrow>
     ap_id r = as_id spend \<and> ap_status r = Approved \<and> ap_agentId r = as_agentId spend
     \<and> ap_action r = as_action spend \<and> ap_resource r = as_resource spend
     \<and> now < ap_expiresAt r \<and> ap_consumedAt r = None"

definition approvals_consume ::
  "approval_spend \<times> time \<Rightarrow> approval_row list \<Rightarrow> bool \<times> approval_row list" where
  "approvals_consume k =
     (case k of (spend, now) \<Rightarrow>
        flip (spendable spend now) (ap_consumedAt_update (\<lambda>_. Some now)))"

section \<open>Refresh tokens\<close>

text \<open>\<open>used\<close> is 0 or the time of consumption in seconds.\<close>

record refresh_token =
  rt_id :: ident
  rt_familyId :: ident
  rt_tokenHash :: string
  rt_used :: int
  rt_expiresAt :: time
  rt_createdAt :: time

definition refreshTokens_claim ::
  "string \<times> int \<Rightarrow> refresh_token list \<Rightarrow> bool \<times> refresh_token list" where
  "refreshTokens_claim k =
     (case k of (tokenHash, usedAt) \<Rightarrow>
        flip (\<lambda>r. rt_tokenHash r = tokenHash \<and> rt_used r = 0) (rt_used_update (\<lambda>_. usedAt)))"

section \<open>Rate limits\<close>

record rate_row =
  rr_id :: string
  rr_agentId :: ident
  rr_resource :: string
  rr_windowStart :: time
  rr_count :: int

record rate_request =
  rq_agentId :: ident
  rq_resource :: string
  rq_bucket :: time
  rq_since :: time
  rq_max :: int

text \<open>The key of a bucket: \<open>rl:agent:resource:seconds\<close>.\<close>

definition rate_id :: "ident \<Rightarrow> string \<Rightarrow> time \<Rightarrow> string" where
  "rate_id agentId resource bucket =
     ''rl:'' @ agentId @ '':'' @ resource @ '':'' @ int_str (bucket div 1000)"

definition add_count :: "int \<Rightarrow> rate_row \<Rightarrow> rate_row" where
  "add_count n = rr_count_update (\<lambda>c. c + n)"

text \<open>\<open>insert\<close> fails on the primary key; \<open>None\<close> is the conflict.\<close>

definition insert_rate :: "rate_row \<Rightarrow> rate_row list \<Rightarrow> rate_row list option" where
  "insert_rate r rows = (if list_ex (\<lambda>x. rr_id x = rr_id r) rows then None else Some (rows @ [r]))"

text \<open>The first step of \<open>reserve\<close>: bump the bucket, or create it, or bump it after losing the insert.\<close>

definition reserve_bump :: "rate_request \<Rightarrow> rate_row list \<Rightarrow> rate_row list" where
  "reserve_bump q rows =
     (let i = rate_id (rq_agentId q) (rq_resource q) (rq_bucket q);
          hit = (\<lambda>r. rr_id r = i)
      in (case increment hit (add_count 1) rows of
            (True, rows') \<Rightarrow> rows'
          | (False, _) \<Rightarrow>
              (case insert_rate \<lparr>rr_id = i, rr_agentId = rq_agentId q, rr_resource = rq_resource q,
                                rr_windowStart = rq_bucket q, rr_count = 1\<rparr> rows of
                 Some rows' \<Rightarrow> rows'
               | None \<Rightarrow> snd (increment hit (add_count 1) rows))))"

definition in_window :: "ident \<Rightarrow> string \<Rightarrow> time \<Rightarrow> rate_row \<Rightarrow> bool" where
  "in_window agentId resource since r \<longleftrightarrow>
     rr_agentId r = agentId \<and> rr_resource r = resource \<and> since \<le> rr_windowStart r"

definition window_total :: "ident \<Rightarrow> string \<Rightarrow> time \<Rightarrow> rate_row list \<Rightarrow> int" where
  "window_total agentId resource since rows =
     sum_list (map rr_count (filter (in_window agentId resource since) rows))"

definition rateLimits_reserve :: "rate_request \<Rightarrow> rate_row list \<Rightarrow> (bool \<times> int) \<times> rate_row list" where
  "rateLimits_reserve q rows =
     (let rows1 = reserve_bump q rows;
          total = window_total (rq_agentId q) (rq_resource q) (rq_since q) rows1
      in if total \<le> rq_max q then ((True, total), rows1)
         else ((False, total - 1),
               snd (increment
                      (\<lambda>r. rr_id r = rate_id (rq_agentId q) (rq_resource q) (rq_bucket q))
                      (add_count (- 1)) rows1)))"

section \<open>Claims are won once\<close>

text \<open>
  A flag flip: the update makes its own guard false, and keeps the key. A token is spent when
  no row of that key passes the state part of the guard.
\<close>

lemma flip_result: "flip P f rows = (b, rows') \<Longrightarrow>
   rows' = update_where P f rows \<and> (b \<longleftrightarrow> (\<exists>r\<in>set rows. P r))"
  by (auto simp: flip_def table_simps)

lemma remove_result: "remove P rows = (b, rows') \<Longrightarrow>
   set rows' = {r \<in> set rows. \<not> P r} \<and> (b \<longleftrightarrow> (\<exists>r\<in>set rows. P r))"
  by (auto simp: remove_def table_simps)

definition all_used :: "('r \<Rightarrow> 'k) \<Rightarrow> ('r \<Rightarrow> bool) \<Rightarrow> 'k \<Rightarrow> 'r list \<Rightarrow> bool" where
  "all_used key used k rows \<longleftrightarrow> (\<forall>r\<in>set rows. key r = k \<longrightarrow> used r)"

text \<open>
  Any flip whose guard needs the key and an unused row, and whose update keeps the key and leaves
  the row used, is a single-use claim on tables with unique keys.
\<close>

definition unique_keys :: "('r \<Rightarrow> 'k) \<Rightarrow> 'r list \<Rightarrow> bool" where
  "unique_keys key rows \<longleftrightarrow> distinct (map key rows)"

lemma unique_keysD:
  "unique_keys key rows \<Longrightarrow> r \<in> set rows \<Longrightarrow> s \<in> set rows \<Longrightarrow> key r = key s \<Longrightarrow> r = s"
  by (auto simp: unique_keys_def distinct_map inj_on_def)

lemma flip_single_use:
  assumes claim: "\<And>k. claim k = flip (P k) (f k)"
    and guard: "\<And>k r. P k r \<Longrightarrow> key r = token k \<and> \<not> used r"
    and key: "\<And>k r. key (f k r) = key r"
    and used: "\<And>k r. used (f k r)"
  shows "single_use claim token (all_used key used) (unique_keys key)"
proof
  fix s k b s'
  assume u: "unique_keys key s" and "claim k s = (b, s')"
  then have "s' = update_where (P k) (f k) s" using flip_result claim by metis
  moreover have "map key (update_where (P k) (f k) s) = map key s"
    by (rule map_update_where) (rule key)
  ultimately show "unique_keys key s'" using u by (simp add: unique_keys_def)
next
  fix s k s'
  assume "claim k s = (True, s')"
  then obtain r where "r \<in> set s" "P k r" using flip_result claim by metis
  with guard show "\<not> all_used key used (token k) s" by (auto simp: all_used_def)
next
  fix s k s'
  assume u: "unique_keys key s" and c: "claim k s = (True, s')"
  then have s': "s' = update_where (P k) (f k) s" and "\<exists>r\<in>set s. P k r"
    using flip_result claim by metis+
  then obtain r where r: "r \<in> set s" "P k r" by blast
  have "used (if P k x then f k x else x)" if x: "x \<in> set s" "key (if P k x then f k x else x) = token k" for x
  proof -
    have "key x = key r" using x(2) key guard [OF r(2)] by (auto split: if_splits)
    then have "x = r" using unique_keysD [OF u x(1) r(1)] by simp
    with r(2) used show ?thesis by simp
  qed
  then show "all_used key used (token k) s'"
    unfolding all_used_def s' set_update_where by blast
next
  fix s k b s' t
  assume c: "claim k s = (b, s')" and a: "all_used key used t s"
  have s': "s' = update_where (P k) (f k) s" using c flip_result claim by metis
  have "used (if P k x then f k x else x)" if "x \<in> set s" "key (if P k x then f k x else x) = t" for x
    using that a used key by (auto simp: all_used_def split: if_splits)
  then show "all_used key used t s'"
    unfolding all_used_def s' set_update_where by blast
qed

text \<open>So is any deletion by key.\<close>

definition gone :: "('r \<Rightarrow> 'k) \<Rightarrow> 'k \<Rightarrow> 'r list \<Rightarrow> bool" where
  "gone key k rows \<longleftrightarrow> k \<notin> key ` set rows"

lemma remove_single_use:
  assumes claim: "\<And>k. claim k = remove (\<lambda>r. key r = k)"
  shows "single_use claim id (gone key) (\<lambda>_. True)"
  by unfold_locales (auto simp: claim gone_def dest!: remove_result)

interpretation otp: single_use emailOtps_consume id "gone eo_id" "\<lambda>_. True"
  by (rule remove_single_use) (simp add: emailOtps_consume_def)

interpretation consume: single_use consume_key id "gone (\<lambda>k. k)" "\<lambda>_. True"
  by (rule remove_single_use) (simp add: consume_key_def)

interpretation link: single_use magicLinks_markUsed fst "all_used ml_token ml_used"
    "unique_keys ml_token"
  by (rule flip_single_use [where f = "\<lambda>k. ml_used_update (\<lambda>_. True)"
        and P = "\<lambda>k r. ml_token r = fst k \<and> \<not> ml_used r \<and> snd k < ml_expiresAt r"])
    (auto simp: magicLinks_markUsed_def split: prod.splits)

interpretation used_flag: single_use mark_used id "all_used ur_id ur_used" "unique_keys ur_id"
  by (rule flip_single_use [where f = "\<lambda>k. ur_used_update (\<lambda>_. True)"
        and P = "\<lambda>k r. ur_id r = k \<and> \<not> ur_used r"])
    (auto simp: mark_used_def)

interpretation rotate: single_use oidcRefreshTokens_rotate id "all_used or_id or_revoked"
    "unique_keys or_id"
  by (rule flip_single_use [where f = "\<lambda>k. or_revoked_update (\<lambda>_. True)"
        and P = "\<lambda>k r. or_id r = k \<and> \<not> or_revoked r"])
    (auto simp: oidcRefreshTokens_rotate_def)

interpretation invite: single_use orgInvitations_accept id
    "all_used oi_id (\<lambda>r. oi_status r \<noteq> ''pending'')" "unique_keys oi_id"
  by (rule flip_single_use [where f = "\<lambda>k. oi_status_update (\<lambda>_. ''accepted'')"
        and P = "\<lambda>k r. oi_id r = k \<and> oi_status r = ''pending''"])
    (auto simp: orgInvitations_accept_def)

interpretation revoke: single_use deviceEnrollments_revoke fst
    "all_used de_id (\<lambda>r. de_revokedAt r \<noteq> None)" "unique_keys de_id"
  by (rule flip_single_use [where f = "\<lambda>k. de_revokedAt_update (\<lambda>_. Some (snd k))"
        and P = "\<lambda>k r. de_id r = fst k \<and> de_revokedAt r = None"])
    (auto simp: deviceEnrollments_revoke_def split: prod.splits)

interpretation spend: single_use approvals_consume "\<lambda>k. as_id (fst k)"
    "all_used ap_id (\<lambda>r. ap_consumedAt r \<noteq> None)" "unique_keys ap_id"
  by (rule flip_single_use [where f = "\<lambda>k. ap_consumedAt_update (\<lambda>_. Some (snd k))"
        and P = "\<lambda>k. spendable (fst k) (snd k)"])
    (auto simp: approvals_consume_def spendable_def split: prod.splits)

text \<open>The reuse flag of refresh tokens is the time of use, which is never zero.\<close>

definition claim_at :: "string \<times> nat \<Rightarrow> refresh_token list \<Rightarrow> bool \<times> refresh_token list" where
  "claim_at k = refreshTokens_claim (fst k, 1 + int (snd k))"

interpretation refresh: single_use claim_at fst "all_used rt_tokenHash (\<lambda>r. rt_used r \<noteq> 0)"
    "unique_keys rt_tokenHash"
  by (rule flip_single_use [where f = "\<lambda>k. rt_used_update (\<lambda>_. 1 + int (snd k))"
        and P = "\<lambda>k r. rt_tokenHash r = fst k \<and> rt_used r = 0"])
    (auto simp: claim_at_def refreshTokens_claim_def)

text \<open>
  C24: an approval is spent at most once. Over any sequence of spends, whoever calls and whenever,
  at most one wins for each approval id, because the statement carries \<open>consumed_at IS NULL\<close>
  and the id is the primary key.
\<close>

theorem approvals_consume_once:
  "unique_keys ap_id rows \<Longrightarrow>
   wins (\<lambda>k. as_id (fst k)) i spends (run_claims approvals_consume spends rows) \<le> 1"
  by (rule spend.at_most_one_win)

definition sample_approval :: approval_row where
  "sample_approval =
     \<lparr>ap_id = ''apr_1'', ap_agentId = ''ag'', ap_userId = ''u'', ap_action = ''write'',
      ap_resource = ''file:a'', ap_arguments = None, ap_status = Approved, ap_expiresAt = 1000,
      ap_respondedAt = Some 5, ap_respondedBy = Some ''boss'', ap_consumedAt = None,
      ap_requiredAcr = None, ap_maxAuthAge = None, ap_requiredApprovals = None,
      ap_createdAt = 0\<rparr>"

definition sample_spend :: approval_spend where
  "sample_spend =
     \<lparr>as_id = ''apr_1'', as_agentId = ''ag'', as_action = ''write'', as_resource = ''file:a''\<rparr>"

theorem approvals_consume_once_witness:
  "run_claims approvals_consume [(sample_spend, 10), (sample_spend, 11)] [sample_approval]
     = [True, False]
   \<and> wins (\<lambda>k. as_id (fst k)) ''apr_1'' [(sample_spend, 10 :: int), (sample_spend, 11)]
       (run_claims approvals_consume [(sample_spend, 10), (sample_spend, 11)] [sample_approval]) \<le> 1"
proof
  show "run_claims approvals_consume [(sample_spend, 10), (sample_spend, 11)] [sample_approval]
     = [True, False]"
    by (simp add: approvals_consume_def flip_def count_where_def spendable_def sample_spend_def
        sample_approval_def)
  show "wins (\<lambda>k. as_id (fst k)) ''apr_1'' [(sample_spend, 10 :: int), (sample_spend, 11)]
       (run_claims approvals_consume [(sample_spend, 10), (sample_spend, 11)] [sample_approval]) \<le> 1"
    by (rule approvals_consume_once) (simp add: unique_keys_def)
qed

text \<open>
  A refresh token is claimed at most once over any sequence of claims. The later ones see
  the time of the first use, which starts the reuse handling.
\<close>

theorem refreshTokens_claim_once:
  "unique_keys rt_tokenHash rows \<Longrightarrow> wins fst h claims (run_claims claim_at claims rows) \<le> 1"
  by (rule refresh.at_most_one_win)

theorem refreshTokens_claim_once_witness:
  "wins fst ''h'' [(''h'', 4 :: nat), (''h'', 5)]
     (run_claims claim_at [(''h'', 4), (''h'', 5)]
        [\<lparr>rt_id = ''t'', rt_familyId = ''f'', rt_tokenHash = ''h'', rt_used = 0,
          rt_expiresAt = 9, rt_createdAt = 0\<rparr>]) \<le> 1"
  by (rule refreshTokens_claim_once) (simp add: unique_keys_def)

section \<open>Enrollment tokens\<close>

text \<open>The statements on the enrollment table as one step relation.\<close>

inductive enrollment_step :: "device_enrollment list \<Rightarrow> device_enrollment list \<Rightarrow> bool" where
  step_spend: "enrollment_step rows (snd (deviceEnrollments_spendUse i now rows))"
| step_revoke: "enrollment_step rows (snd (deviceEnrollments_revoke (i, at) rows))"

inductive_cases enrollment_stepE: "enrollment_step rows rows'"

definition enrollments_fresh :: "device_enrollment list \<Rightarrow> bool" where
  "enrollments_fresh rows \<longleftrightarrow> (\<forall>r\<in>set rows. de_uses r = 0 \<and> 0 < de_maxUses r)"

definition uses_capped :: "device_enrollment list \<Rightarrow> bool" where
  "uses_capped rows \<longleftrightarrow> (\<forall>r\<in>set rows. de_uses r \<le> de_maxUses r)"

interpretation enrollment: machine enrollments_fresh enrollment_step uses_capped
proof
  show "uses_capped rows" if "enrollments_fresh rows" for rows
    using that by (auto simp: enrollments_fresh_def uses_capped_def)
  show "uses_capped rows'" if "uses_capped rows" "enrollment_step rows rows'" for rows rows'
    using that(2,1)
    by (cases rule: enrollment_stepE)
      (auto simp: uses_capped_def deviceEnrollments_spendUse_def deviceEnrollments_revoke_def
        increment_def flip_def table_simps)
qed

text \<open>
  An enrollment token is never used more often than its cap, whatever the order of spends
  and revocations.
\<close>

theorem enrollment_uses_capped:
  "reaches enrollments_fresh enrollment_step rows \<Longrightarrow> r \<in> set rows \<Longrightarrow> de_uses r \<le> de_maxUses r"
  using enrollment.inv_reachable by (auto simp: uses_capped_def)

theorem enrollment_uses_capped_witness:
  "de_uses \<lparr>de_id = ''e'', de_uses = 0, de_maxUses = 2, de_revokedAt = None, de_expiresAt = 9\<rparr>
   \<le> de_maxUses \<lparr>de_id = ''e'', de_uses = 0, de_maxUses = 2, de_revokedAt = None, de_expiresAt = 9\<rparr>"
  by (rule enrollment_uses_capped
      [of "[\<lparr>de_id = ''e'', de_uses = 0, de_maxUses = 2, de_revokedAt = None, de_expiresAt = 9\<rparr>]"])
    (auto intro: reaches_init simp: enrollments_fresh_def)

text \<open>The App Attest counter only grows, and an advance is refused unless it grows.\<close>

lemma appAttestCounter_grows:
  "devices_advanceAppAttestCounter i c rows = (b, rows') \<Longrightarrow>
   list_all2 (\<lambda>r r'. dc_id r' = dc_id r \<and> dc_appAttestCounter r \<le> dc_appAttestCounter r') rows rows'
   \<and> (b \<longrightarrow> (\<exists>r\<in>set rows. dc_id r = i \<and> dc_appAttestCounter r < c))"
proof -
  assume h: "devices_advanceAppAttestCounter i c rows = (b, rows')"
  have "list_all2 (\<lambda>r r'. dc_id r' = dc_id r \<and> dc_appAttestCounter r \<le> dc_appAttestCounter r') rows
      (update_where (\<lambda>r. dc_id r = i \<and> dc_appAttestCounter r < c)
         (dc_appAttestCounter_update (\<lambda>_. c)) rows)"
    by (induction rows) auto
  with flip_result [OF h [unfolded devices_advanceAppAttestCounter_def]] show ?thesis by blast
qed

lemma emailOtps_attempts_capped:
  "emailOtps_reserveAttempt i cap rows = (b, rows') \<Longrightarrow> \<forall>r\<in>set rows. eo_attempts r \<le> cap \<Longrightarrow>
   \<forall>r\<in>set rows'. eo_attempts r \<le> cap"
  by (auto simp: emailOtps_reserveAttempt_def increment_def table_simps dest!: flip_result)

section \<open>Rate limits\<close>

text \<open>
  The rate table of agents whose id holds no colon: every row sits under the id of its own
  columns, once. Bucket starts are whole seconds.
\<close>

definition rate_table :: "rate_row list \<Rightarrow> bool" where
  "rate_table rows \<longleftrightarrow> distinct (map rr_id rows)
     \<and> (\<forall>r\<in>set rows. rr_id r = rate_id (rr_agentId r) (rr_resource r) (rr_windowStart r)
          \<and> CHR '':'' \<notin> set (rr_agentId r) \<and> 1000 dvd rr_windowStart r)"

lemma rate_id_inject:
  assumes "rate_id a r b = rate_id a' r' b'" and "CHR '':'' \<notin> set a" "CHR '':'' \<notin> set a'"
    and "1000 dvd b" "1000 dvd b'"
  shows "a = a' \<and> r = r' \<and> b = b'"
proof -
  have "a @ CHR '':'' # (r @ CHR '':'' # int_str (b div 1000))
      = a' @ CHR '':'' # (r' @ CHR '':'' # int_str (b' div 1000))"
    using assms(1) by (simp add: rate_id_def)
  from append_sep_inject [OF this assms(2,3)]
  have a: "a = a'" and rest: "r @ CHR '':'' # int_str (b div 1000) = r' @ CHR '':'' # int_str (b' div 1000)"
    by auto
  from append_sep_inject_last [OF rest int_str_sep_free int_str_sep_free]
  have "r = r'" "b div 1000 = b' div 1000" by (auto dest: int_str_inj)
  with a assms(4,5) show ?thesis by (metis dvd_mult_div_cancel)
qed

lemma in_window_add_count [simp]: "in_window a res s (add_count n r) = in_window a res s r"
  by (simp add: in_window_def add_count_def)

lemma add_count_simps [simp]:
  "rr_id (add_count n r) = rr_id r" "rr_agentId (add_count n r) = rr_agentId r"
  "rr_resource (add_count n r) = rr_resource r" "rr_windowStart (add_count n r) = rr_windowStart r"
  "rr_count (add_count n r) = rr_count r + n"
  by (simp_all add: add_count_def)

lemma window_total_Nil [simp]: "window_total a res s [] = 0"
  by (simp add: window_total_def)

lemma window_total_Cons [simp]:
  "window_total a res s (r # rows) =
     (if in_window a res s r then rr_count r else 0) + window_total a res s rows"
  by (simp add: window_total_def)

lemma window_total_append [simp]:
  "window_total a res s (xs @ ys) = window_total a res s xs + window_total a res s ys"
  by (simp add: window_total_def)

lemma window_total_miss:
  "\<forall>r\<in>set rows. rr_id r = i \<longrightarrow> \<not> in_window a res s r \<Longrightarrow>
   window_total a res s (update_where (\<lambda>r. rr_id r = i) (add_count n) rows) = window_total a res s rows"
  by (induction rows) auto

lemma window_total_hit:
  "distinct (map rr_id rows) \<Longrightarrow> \<forall>r\<in>set rows. rr_id r = i \<longrightarrow> in_window a res s r \<Longrightarrow>
   window_total a res s (update_where (\<lambda>r. rr_id r = i) (add_count n) rows) =
     window_total a res s rows + (if i \<in> rr_id ` set rows then n else 0)"
proof (induction rows)
  case (Cons r rows)
  show ?case
  proof (cases "rr_id r = i")
    case True
    with Cons.prems(1) have "i \<notin> rr_id ` set rows" by auto
    then have "update_where (\<lambda>r. rr_id r = i) (add_count n) rows = rows"
      by (induction rows) auto
    with True Cons.prems(2) show ?thesis by simp
  next
    case False
    with Cons show ?thesis by auto
  qed
qed simp

lemma rate_table_update:
  "rate_table rows \<Longrightarrow> rate_table (update_where (\<lambda>r. rr_id r = i) (add_count n) rows)"
  by (auto simp: rate_table_def table_simps map_update_where)

lemma ids_update:
  "rr_id ` set (update_where (\<lambda>r. rr_id r = i) (add_count n) rows) = rr_id ` set rows"
  by (metis (no_types, lifting) add_count_simps(1) list.set_map map_update_where)

lemma reserve_bump_total:
  assumes t: "rate_table rows" and c: "CHR '':'' \<notin> set (rq_agentId q)" and d: "1000 dvd rq_bucket q"
    and s: "rq_since q \<le> rq_bucket q"
  shows "rate_table (reserve_bump q rows)
    \<and> rate_id (rq_agentId q) (rq_resource q) (rq_bucket q) \<in> rr_id ` set (reserve_bump q rows)
    \<and> window_total (rq_agentId q) (rq_resource q) (rq_since q) (reserve_bump q rows)
        = window_total (rq_agentId q) (rq_resource q) (rq_since q) rows + 1"
proof -
  let ?i = "rate_id (rq_agentId q) (rq_resource q) (rq_bucket q)"
  let ?w = "window_total (rq_agentId q) (rq_resource q) (rq_since q)"
  let ?new = "\<lparr>rr_id = ?i, rr_agentId = rq_agentId q, rr_resource = rq_resource q,
               rr_windowStart = rq_bucket q, rr_count = 1\<rparr>"
  have win: "\<forall>r\<in>set rows. rr_id r = ?i \<longrightarrow> in_window (rq_agentId q) (rq_resource q) (rq_since q) r"
    using t c d s by (auto simp: rate_table_def in_window_def dest: rate_id_inject)
  show ?thesis
  proof (cases "?i \<in> rr_id ` set rows")
    case True
    then have "\<exists>r\<in>set rows. rr_id r = ?i" by auto
    then have b: "reserve_bump q rows = update_where (\<lambda>r. rr_id r = ?i) (add_count 1) rows"
      by (simp add: reserve_bump_def increment_def flip_def Let_def table_simps)
    have "?w (reserve_bump q rows) = ?w rows + 1"
      using window_total_hit [OF _ win, of 1] t True by (simp add: b rate_table_def)
    moreover have "?i \<in> rr_id ` set (reserve_bump q rows)"
      using True by (simp add: b ids_update)
    ultimately show ?thesis using rate_table_update [OF t, of ?i 1] by (simp add: b)
  next
    case False
    then have "\<not> (\<exists>r\<in>set rows. rr_id r = ?i)" by (metis imageI)
    then have b: "reserve_bump q rows = rows @ [?new]"
      by (simp add: reserve_bump_def increment_def flip_def Let_def table_simps insert_rate_def
          list_ex_iff)
    have "rate_table (reserve_bump q rows)"
      using t False c d by (auto simp: b rate_table_def)
    moreover have "?w (reserve_bump q rows) = ?w rows + 1"
      using s by (simp add: b in_window_def)
    ultimately show ?thesis by (simp add: b)
  qed
qed

text \<open>
  The rate limit counts exactly the calls it allows. A reserve is allowed if and only if fewer
  than \<open>max\<close> calls of this agent on this resource are recorded in the window. An allowed call adds
  one to the recorded calls, a refused one leaves them as they were, and the answer is the number
  recorded afterwards.
\<close>

lemma rateLimits_reserve_counts:
  assumes "rate_table rows" and "CHR '':'' \<notin> set (rq_agentId q)" and "1000 dvd rq_bucket q"
    and "rq_since q \<le> rq_bucket q"
    and "rateLimits_reserve q rows = ((allowed, n), rows')"
  shows "(allowed \<longleftrightarrow> window_total (rq_agentId q) (rq_resource q) (rq_since q) rows < rq_max q)
    \<and> n = window_total (rq_agentId q) (rq_resource q) (rq_since q) rows + (if allowed then 1 else 0)
    \<and> window_total (rq_agentId q) (rq_resource q) (rq_since q) rows' = n
    \<and> rate_table rows'"
proof -
  let ?i = "rate_id (rq_agentId q) (rq_resource q) (rq_bucket q)"
  let ?w = "window_total (rq_agentId q) (rq_resource q) (rq_since q)"
  note bump = reserve_bump_total [OF assms(1-4)]
  then have t1: "rate_table (reserve_bump q rows)" by blast
  have win: "\<forall>r\<in>set (reserve_bump q rows).
      rr_id r = ?i \<longrightarrow> in_window (rq_agentId q) (rq_resource q) (rq_since q) r"
    using t1 assms(2-4) by (auto simp: rate_table_def in_window_def dest: rate_id_inject)
  have "?w (update_where (\<lambda>r. rr_id r = ?i) (add_count (- 1)) (reserve_bump q rows)) = ?w rows"
    using window_total_hit [OF _ win, of "- 1"] bump by (simp add: rate_table_def)
  with assms(5) bump rate_table_update [OF t1, of ?i "- 1"] show ?thesis
    by (auto simp: rateLimits_reserve_def increment_def flip_def Let_def split: if_splits)
qed

text \<open>Calls of one agent and resource never move the totals of another.\<close>

lemma reserve_bump_other:
  assumes "rate_table rows" and "CHR '':'' \<notin> set (rq_agentId q)" and "1000 dvd rq_bucket q"
    and "a \<noteq> rq_agentId q \<or> res \<noteq> rq_resource q"
  shows "window_total a res s (reserve_bump q rows) = window_total a res s rows"
proof -
  let ?i = "rate_id (rq_agentId q) (rq_resource q) (rq_bucket q)"
  have miss: "\<forall>r\<in>set rows. rr_id r = ?i \<longrightarrow> \<not> in_window a res s r"
    using assms by (auto simp: rate_table_def in_window_def dest: rate_id_inject)
  show ?thesis
    using window_total_miss [OF miss, of 1] assms(4)
    by (auto simp: reserve_bump_def increment_def flip_def Let_def insert_rate_def in_window_def
        split: option.splits bool.splits)
qed

text \<open>
  Without the condition on colons the bucket key is ambiguous. The agent \<open>a:b\<close> on resource
  \<open>c\<close> shares its key with agent \<open>a\<close> on resource \<open>b:c\<close>: once that row exists, every call of
  \<open>a:b\<close> lands on it, whatever its count, and is allowed with a total of zero.
\<close>

theorem rate_key_collision:
  "rate_id ''a:b'' ''c'' 0 = rate_id ''a'' ''b:c'' 0
   \<and> fst (rateLimits_reserve
            \<lparr>rq_agentId = ''a:b'', rq_resource = ''c'', rq_bucket = 0, rq_since = 0, rq_max = 1\<rparr>
            [\<lparr>rr_id = rate_id ''a'' ''b:c'' 0, rr_agentId = ''a'', rr_resource = ''b:c'',
              rr_windowStart = 0, rr_count = n\<rparr>]) = (True, 0)"
proof
  show eq: "rate_id ''a:b'' ''c'' 0 = rate_id ''a'' ''b:c'' 0"
    by (simp add: rate_id_def)
  have bump: "reserve_bump
      \<lparr>rq_agentId = ''a:b'', rq_resource = ''c'', rq_bucket = 0, rq_since = 0, rq_max = 1\<rparr>
      [\<lparr>rr_id = rate_id ''a'' ''b:c'' 0, rr_agentId = ''a'', rr_resource = ''b:c'',
        rr_windowStart = 0, rr_count = n\<rparr>]
     = [\<lparr>rr_id = rate_id ''a'' ''b:c'' 0, rr_agentId = ''a'', rr_resource = ''b:c'',
        rr_windowStart = 0, rr_count = n + 1\<rparr>]"
    by (simp add: reserve_bump_def eq increment_def flip_def count_where_def add_count_def)
  show "fst (rateLimits_reserve
            \<lparr>rq_agentId = ''a:b'', rq_resource = ''c'', rq_bucket = 0, rq_since = 0, rq_max = 1\<rparr>
            [\<lparr>rr_id = rate_id ''a'' ''b:c'' 0, rr_agentId = ''a'', rr_resource = ''b:c'',
              rr_windowStart = 0, rr_count = n\<rparr>]) = (True, 0)"
    unfolding rateLimits_reserve_def bump by (simp add: in_window_def)
qed

end
