(* ===== verification/DecisionCodes.thy ===== *)
theory DecisionCodes
  imports Prelude
begin

text \<open>
  The closed set of decision codes, \<open>packages/core/src/permission/codes.ts\<close>, with the names
  of the constraints from \<open>policy/abac.ts\<close> and the codes their failures carry.
\<close>

section \<open>Definitions\<close>

datatype decision_code =
    Allowed | ApprovalConsumed | NoPermission | RateLimited | IpNotAllowed | TimeRestricted
  | ArgumentRejected | ApprovalRequired | ApprovalInvalid | ApprovalNotFound | ApprovalPending
  | ApprovalDenied | ApprovalExpired | ApprovalAlreadyUsed | ApprovalMismatch
  | ApprovalArgumentsMismatch | ApprovalStepUpInsufficient | ApprovalGranted
  | AgentNotFound | AgentRevoked | AgentExpired | InvalidToken
  | ConfirmationRequired | ConfirmationFailed
  | DeviceNotFound | DeviceSuspended | DeviceRevoked | DeviceExpired | OwnerMismatch
  | AttestationRequired | HookDenied | HookTimeout | HookError
  | TaintViolation | RiskEscalation | PolicyIndeterminate

text \<open>The string of each code, the object \<open>DECISION_CODES\<close>.\<close>

fun code_value :: "decision_code \<Rightarrow> string" where
  "code_value Allowed = ''allowed''"
| "code_value ApprovalConsumed = ''approval_consumed''"
| "code_value NoPermission = ''no_permission''"
| "code_value RateLimited = ''rate_limited''"
| "code_value IpNotAllowed = ''ip_not_allowed''"
| "code_value TimeRestricted = ''time_restricted''"
| "code_value ArgumentRejected = ''argument_rejected''"
| "code_value ApprovalRequired = ''approval_required''"
| "code_value ApprovalInvalid = ''approval_invalid''"
| "code_value ApprovalNotFound = ''approval_not_found''"
| "code_value ApprovalPending = ''approval_pending''"
| "code_value ApprovalDenied = ''approval_denied''"
| "code_value ApprovalExpired = ''approval_expired''"
| "code_value ApprovalAlreadyUsed = ''approval_already_used''"
| "code_value ApprovalMismatch = ''approval_mismatch''"
| "code_value ApprovalArgumentsMismatch = ''approval_arguments_mismatch''"
| "code_value ApprovalStepUpInsufficient = ''approval_step_up_insufficient''"
| "code_value ApprovalGranted = ''approval_granted''"
| "code_value AgentNotFound = ''agent_not_found''"
| "code_value AgentRevoked = ''agent_revoked''"
| "code_value AgentExpired = ''agent_expired''"
| "code_value InvalidToken = ''invalid_token''"
| "code_value ConfirmationRequired = ''confirmation_required''"
| "code_value ConfirmationFailed = ''confirmation_failed''"
| "code_value DeviceNotFound = ''device_not_found''"
| "code_value DeviceSuspended = ''device_suspended''"
| "code_value DeviceRevoked = ''device_revoked''"
| "code_value DeviceExpired = ''device_expired''"
| "code_value OwnerMismatch = ''owner_mismatch''"
| "code_value AttestationRequired = ''attestation_required''"
| "code_value HookDenied = ''hook_denied''"
| "code_value HookTimeout = ''hook_timeout''"
| "code_value HookError = ''hook_error''"
| "code_value TaintViolation = ''taint_violation''"
| "code_value RiskEscalation = ''risk_escalation''"
| "code_value PolicyIndeterminate = ''policy_indeterminate''"

text \<open>\<open>Object.values(DECISION_CODES)\<close> holds the strings of these codes.\<close>

definition decision_codes :: "decision_code list" where
  "decision_codes =
    [Allowed, ApprovalConsumed, NoPermission, RateLimited, IpNotAllowed, TimeRestricted,
     ArgumentRejected, ApprovalRequired, ApprovalInvalid, ApprovalNotFound, ApprovalPending,
     ApprovalDenied, ApprovalExpired, ApprovalAlreadyUsed, ApprovalMismatch,
     ApprovalArgumentsMismatch, ApprovalStepUpInsufficient, ApprovalGranted,
     AgentNotFound, AgentRevoked, AgentExpired, InvalidToken,
     ConfirmationRequired, ConfirmationFailed,
     DeviceNotFound, DeviceSuspended, DeviceRevoked, DeviceExpired, OwnerMismatch,
     AttestationRequired, HookDenied, HookTimeout, HookError,
     TaintViolation, RiskEscalation, PolicyIndeterminate]"

fun isDecisionCode :: "json \<Rightarrow> bool" where
  "isDecisionCode (JStr s) = (s \<in> set (map code_value decision_codes))"
| "isDecisionCode _ = False"

text \<open>The type \<open>DenialCode\<close> excludes these three codes.\<close>

definition is_denial :: "decision_code \<Rightarrow> bool" where
  "is_denial c \<longleftrightarrow> c \<notin> {Allowed, ApprovalConsumed, ApprovalGranted}"

datatype violation_type =
  PermissionDeniedV | RateLimitedV | IpBlockedV | TimeRestrictedV | ApprovalRequiredV

fun violationTypeOf :: "decision_code \<Rightarrow> violation_type" where
  "violationTypeOf RateLimited = RateLimitedV"
| "violationTypeOf IpNotAllowed = IpBlockedV"
| "violationTypeOf TimeRestricted = TimeRestrictedV"
| "violationTypeOf ApprovalRequired = ApprovalRequiredV"
| "violationTypeOf ApprovalInvalid = ApprovalRequiredV"
| "violationTypeOf ApprovalNotFound = ApprovalRequiredV"
| "violationTypeOf ApprovalPending = ApprovalRequiredV"
| "violationTypeOf ApprovalDenied = ApprovalRequiredV"
| "violationTypeOf ApprovalExpired = ApprovalRequiredV"
| "violationTypeOf ApprovalAlreadyUsed = ApprovalRequiredV"
| "violationTypeOf ApprovalMismatch = ApprovalRequiredV"
| "violationTypeOf ApprovalArgumentsMismatch = ApprovalRequiredV"
| "violationTypeOf ApprovalStepUpInsufficient = ApprovalRequiredV"
| "violationTypeOf _ = PermissionDeniedV"

definition isApprovalDenial :: "decision_code option \<Rightarrow> bool" where
  "isApprovalDenial code =
     (case code of None \<Rightarrow> False | Some c \<Rightarrow> violationTypeOf c = ApprovalRequiredV)"

datatype constraint_name =
    MaxCallsPerHour | AllowedArgPatterns | RequireApproval | TimeWindow | IpAllowlist
  | AttestationC

fun codeForConstraint :: "constraint_name \<Rightarrow> decision_code" where
  "codeForConstraint MaxCallsPerHour = RateLimited"
| "codeForConstraint AllowedArgPatterns = ArgumentRejected"
| "codeForConstraint RequireApproval = ApprovalRequired"
| "codeForConstraint TimeWindow = TimeRestricted"
| "codeForConstraint IpAllowlist = IpNotAllowed"
| "codeForConstraint AttestationC = AttestationRequired"

section \<open>Lemmas\<close>

lemma set_decision_codes: "c \<in> set decision_codes"
  by (cases c) (simp_all add: decision_codes_def)

lemma code_value_inj: "code_value c = code_value d \<Longrightarrow> c = d"
proof -
  have "distinct (map code_value decision_codes)"
    by (simp add: decision_codes_def)
  then show "code_value c = code_value d \<Longrightarrow> c = d"
    by (metis distinct_map inj_onD set_decision_codes)
qed

lemma isDecisionCode_iff: "isDecisionCode j \<longleftrightarrow> (\<exists>c. j = JStr (code_value c))"
  by (cases j) (auto simp: set_decision_codes)

lemma codeForConstraint_denial [simp]: "is_denial (codeForConstraint n)"
  by (cases n) (simp_all add: is_denial_def)

lemma codeForConstraint_inj: "codeForConstraint m = codeForConstraint n \<longleftrightarrow> m = n"
  by (cases m; cases n) simp_all

text \<open>Only denials are grouped as approval violations.\<close>

lemma isApprovalDenial_denial: "isApprovalDenial (Some c) \<Longrightarrow> is_denial c"
  by (cases c) (simp_all add: isApprovalDenial_def is_denial_def)

end
