(* ===== verification/ResourceMatch.thy ===== *)
theory ResourceMatch
  imports Prelude
begin

text \<open>
  Resource pattern matching, \<open>packages/core/src/policy/resource-match.ts\<close>: the allocation
  free colon matcher (two indices walked with \<open>indexOf\<close>), the path matcher with its table,
  and the overlap test used when a delegation inherits constraints. The colon matcher is
  proved equal to a match of the two segment lists, the table to a recursive match, and the
  overlap test to be an over-approximation.
\<close>

section \<open>Definitions\<close>

datatype resource_matching = Colon | Path

text \<open>\<open>resolveResourceMatching\<close>: anything but the exact string \<open>path\<close> is the default.\<close>

definition resolveResourceMatching :: "json option \<Rightarrow> resource_matching" where
  "resolveResourceMatching value = (if value = Some (JStr ''path'') then Path else Colon)"

text \<open>
  The loop of \<open>matchColonResource\<close> from the pattern index \<open>pi\<close> and the resource index \<open>ri\<close>.
  The resource index runs past the end by one when the resource has no segment left.
\<close>

function colon_loop :: "string \<Rightarrow> string \<Rightarrow> nat \<Rightarrow> nat \<Rightarrow> bool" where
  "colon_loop pattern resource pi ri =
     (let pe = indexOf CHR '':'' pattern pi;
          pEnd = (case pe of None \<Rightarrow> length pattern | Some k \<Rightarrow> k)
      in if pEnd - pi = 1 \<and> pattern ! pi = CHR ''*'' then True
         else if length resource < ri then False
         else
           let re = indexOf CHR '':'' resource ri;
               rEnd = (case re of None \<Rightarrow> length resource | Some k \<Rightarrow> k)
           in if pEnd - pi \<noteq> rEnd - ri then False
              else if list_ex (\<lambda>k. pattern ! (pi + k) \<noteq> resource ! (ri + k)) [0..<pEnd - pi]
              then False
              else (case pe of
                      None \<Rightarrow> re = None
                    | Some e \<Rightarrow>
                        colon_loop pattern resource (Suc e)
                          (case re of None \<Rightarrow> Suc (length resource) | Some k \<Rightarrow> Suc k)))"
  by pat_completeness auto
termination
  by (relation "measure (\<lambda>(pattern, resource, pi, ri). Suc (length pattern) - pi)")
    (auto dest!: indexOf_SomeD [OF sym])

declare colon_loop.simps [simp del]

definition matchColonResource :: "string \<Rightarrow> string \<Rightarrow> bool" where
  "matchColonResource pattern resource =
     (if pattern = ''*'' then True else colon_loop pattern resource 0 0)"

text \<open>A segment a wildcard may stand for.\<close>

definition isPlainSegment :: "string \<Rightarrow> bool" where
  "isPlainSegment segment \<longleftrightarrow> segment \<noteq> '''' \<and> segment \<noteq> ''.'' \<and> segment \<noteq> ''..''"

text \<open>
  One row of the table of \<open>matchPathParts\<close>: \<open>path_row p rs below\<close> fills \<open>ok[i][j]\<close> for \<open>j\<close>
  from the end to the start, where \<open>below\<close> is the row \<open>ok[i + 1]\<close> cut to the same columns.
  The last column is always false.
\<close>

fun path_row :: "string \<Rightarrow> string list \<Rightarrow> bool list \<Rightarrow> bool list" where
  "path_row p [] below = [False]"
| "path_row p (r # rs) below =
     (let row = path_row p rs (tl below);
          cell =
            (if p = ''**'' then isPlainSegment r \<and> (hd (tl below) \<or> hd row)
             else if p = ''*'' then r \<noteq> ''**'' \<and> isPlainSegment r \<and> hd (tl below)
             else p = r \<and> hd (tl below))
      in cell # row)"

text \<open>The comparison part by part that runs when the pattern has no \<open>**\<close>.\<close>

fun parts_equal :: "string list \<Rightarrow> string list \<Rightarrow> bool" where
  "parts_equal [] rs = True"
| "parts_equal ps [] = True"
| "parts_equal (p # ps) (r # rs) =
     (if p = ''*'' then (if r = ''**'' \<or> \<not> isPlainSegment r then False else parts_equal ps rs)
      else if p \<noteq> r then False
      else parts_equal ps rs)"

definition matchPathParts :: "string list \<Rightarrow> string list \<Rightarrow> bool" where
  "matchPathParts pattern resource =
     (let m = length pattern; n = length resource
      in if m = n \<and> ''**'' \<notin> set pattern then parts_equal pattern resource
         else if ''**'' \<notin> set pattern \<and> m \<noteq> n then False
         else hd (foldr (\<lambda>p below. path_row p resource below) pattern
                    (replicate n False @ [True])))"

text \<open>The loop of \<open>matchPathResource\<close> over the segments of the pattern, from one index on.\<close>

fun path_loop :: "string list \<Rightarrow> string list \<Rightarrow> bool option" where
  "path_loop [] resourceParts = None"
| "path_loop (part # parts) resourceParts =
     (let last = (parts = []) in
      if (part = ''*'' \<or> part = ''**'') \<and> last then Some True
      else (case resourceParts of
              [] \<Rightarrow> Some False
            | actual # rest \<Rightarrow>
                if part = ''*'' \<or> part = ''**'' then
                  (if actual = '''' \<or> actual = ''**'' then Some False else path_loop parts rest)
                else if part = actual then path_loop parts rest
                else if CHR ''/'' \<notin> set part \<or> CHR ''/'' \<notin> set actual then Some False
                else if \<not> matchPathParts (split_on CHR ''/'' part) (split_on CHR ''/'' actual)
                then Some False
                else path_loop parts rest))"

definition matchPathResource :: "string \<Rightarrow> string \<Rightarrow> bool" where
  "matchPathResource pattern resource =
     (if pattern = ''*'' then True
      else
        let patternParts = split_on CHR '':'' pattern;
            resourceParts = split_on CHR '':'' resource
        in (case path_loop patternParts resourceParts of
              Some b \<Rightarrow> b
            | None \<Rightarrow> length patternParts = length resourceParts))"

text \<open>\<open>matchResource\<close> of \<open>policy/abac.ts\<close>: the mode picks the matcher.\<close>

definition matchResource :: "string \<Rightarrow> string \<Rightarrow> resource_matching \<Rightarrow> bool" where
  "matchResource pattern resource mode =
     (if mode = Path then matchPathResource pattern resource
      else matchColonResource pattern resource)"

text \<open>
  The two loops of \<open>segmentsMayOverlap\<close>. \<open>prefix_scan\<close> compares from the front until one side
  shows \<open>**\<close> or ends: \<open>None\<close> when two literals differ, else how many parts it passed.
  \<open>suffix_scan\<close> is the same loop on the reversed, not yet compared parts.
\<close>

definition free_part :: "string \<Rightarrow> bool" where
  "free_part p \<longleftrightarrow> p = ''*'' \<or> p = ''**''"

fun prefix_scan :: "string list \<Rightarrow> string list \<Rightarrow> nat option" where
  "prefix_scan (a # px) (b # py) =
     (if a = ''**'' \<or> b = ''**'' then Some 0
      else if \<not> free_part a \<and> \<not> free_part b \<and> a \<noteq> b then None
      else map_option Suc (prefix_scan px py))"
| "prefix_scan px py = Some 0"

fun suffix_scan :: "string list \<Rightarrow> string list \<Rightarrow> bool" where
  "suffix_scan (a # px) (b # py) =
     (if a = ''**'' \<or> b = ''**'' then True
      else if \<not> free_part a \<and> \<not> free_part b \<and> a \<noteq> b then False
      else suffix_scan px py)"
| "suffix_scan px py = True"

definition segmentsMayOverlap :: "string \<Rightarrow> string \<Rightarrow> bool" where
  "segmentsMayOverlap x y =
     (if x = y then True
      else if CHR ''/'' \<notin> set x \<and> CHR ''/'' \<notin> set y then False
      else
        let px = split_on CHR ''/'' x; py = split_on CHR ''/'' y
        in (case prefix_scan px py of
              None \<Rightarrow> False
            | Some i \<Rightarrow>
                if \<not> (''**'' \<in> set px \<or> ''**'' \<in> set py) then length px = length py
                else suffix_scan (rev (drop i px)) (rev (drop i py))))"

fun may_overlap_loop :: "string list \<Rightarrow> string list \<Rightarrow> bool" where
  "may_overlap_loop [] [] = True"
| "may_overlap_loop [] (y # ys) = free_part y"
| "may_overlap_loop (x # xs) [] = free_part x"
| "may_overlap_loop (x # xs) (y # ys) =
     (if free_part x \<or> free_part y then True
      else if \<not> segmentsMayOverlap x y then False
      else may_overlap_loop xs ys)"

definition pathPatternsMayOverlap :: "string \<Rightarrow> string \<Rightarrow> bool" where
  "pathPatternsMayOverlap a b =
     (if a = ''*'' \<or> b = ''*'' then True
      else may_overlap_loop (split_on CHR '':'' a) (split_on CHR '':'' b))"

section \<open>The colon matcher\<close>

text \<open>
  The split based reading of the colon rules: a pattern segment \<open>*\<close> accepts everything from
  there on, any other segment is literal.
\<close>

fun seg_match :: "string list \<Rightarrow> string list \<Rightarrow> bool" where
  "seg_match [] rs = (rs = [])"
| "seg_match (p # ps) rs =
     (if p = ''*'' then True
      else (case rs of [] \<Rightarrow> False | r # rs' \<Rightarrow> p = r \<and> seg_match ps rs'))"

lemma segment_end:
  "i \<le> length s \<Longrightarrow>
   (case indexOf c s i of None \<Rightarrow> length s | Some k \<Rightarrow> k)
     = i + length (takeWhile (\<lambda>x. x \<noteq> c) (drop i s))"
  using length_takeWhile_le [of "\<lambda>x. x \<noteq> c" "drop i s"]
  by (auto simp: indexOf_takeWhile Let_def)

lemma split_on_drop:
  assumes "i \<le> length s"
  shows "split_on c (drop i s) = takeWhile (\<lambda>x. x \<noteq> c) (drop i s) #
           (case indexOf c s i of None \<Rightarrow> [] | Some e \<Rightarrow> split_on c (drop (Suc e) s))"
proof -
  let ?d = "drop i s"
  let ?n = "length (takeWhile (\<lambda>x. x \<noteq> c) ?d)"
  have dw: "dropWhile (\<lambda>x. x \<noteq> c) ?d = drop (i + ?n) s"
    by (simp add: dropWhile_eq_drop add.commute)
  show ?thesis
  proof (cases "i + ?n < length s")
    case True
    then have "drop (i + ?n) s = s ! (i + ?n) # drop (Suc (i + ?n)) s"
      by (rule Cons_nth_drop_Suc [symmetric])
    moreover have "indexOf c s i = Some (i + ?n)"
      using assms True by (simp add: indexOf_takeWhile Let_def)
    ultimately show ?thesis
      using split_on_unfold [of c ?d] by (simp only: dw list.case option.case)
  next
    case False
    then have "drop (i + ?n) s = []" by simp
    moreover have "indexOf c s i = None"
      using assms False by (simp add: indexOf_takeWhile Let_def)
    ultimately show ?thesis
      using split_on_unfold [of c ?d] by (simp only: dw list.case option.case)
  qed
qed

lemma nth_compare_iff:
  assumes "length xs = length ys"
    and "\<And>k. k < length xs \<Longrightarrow> xs ! k = f k"
    and "\<And>k. k < length ys \<Longrightarrow> ys ! k = g k"
  shows "\<not> list_ex (\<lambda>k. f k \<noteq> g k) [0..<length xs] \<longleftrightarrow> xs = ys"
proof
  assume "\<not> list_ex (\<lambda>k. f k \<noteq> g k) [0..<length xs]"
  then have "\<forall>k<length xs. f k = g k" by (simp add: list_ex_iff)
  with assms show "xs = ys" by (metis nth_equalityI)
next
  assume "xs = ys"
  with assms(2,3) show "\<not> list_ex (\<lambda>k. f k \<noteq> g k) [0..<length xs]"
    by (auto simp: list_ex_iff)
qed

lemma segment_eq_iff:
  assumes "length (takeWhile P (drop i s)) = length (takeWhile P (drop j t))"
    and "i \<le> length s" and "j \<le> length t"
  shows "\<not> list_ex (\<lambda>k. s ! (i + k) \<noteq> t ! (j + k)) [0..<length (takeWhile P (drop i s))]
           \<longleftrightarrow> takeWhile P (drop i s) = takeWhile P (drop j t)"
  by (rule nth_compare_iff [OF assms(1)]) (simp_all add: takeWhile_nth assms(2,3))

lemma colon_loop_seg_match:
  "pi \<le> length p \<Longrightarrow>
   colon_loop p r pi ri =
     seg_match (split_on CHR '':'' (drop pi p))
       (if length r < ri then [] else split_on CHR '':'' (drop ri r))"
proof (induction p r pi ri rule: colon_loop.induct)
  case (1 p r pi ri)
  let ?tp = "takeWhile (\<lambda>x. x \<noteq> CHR '':'') (drop pi p)"
  let ?tr = "takeWhile (\<lambda>x. x \<noteq> CHR '':'') (drop ri r)"
  let ?pe = "indexOf CHR '':'' p pi" and ?re = "indexOf CHR '':'' r ri"
  have pend: "(case ?pe of None \<Rightarrow> length p | Some k \<Rightarrow> k) - pi = length ?tp"
    using segment_end [OF "1.prems"] by simp
  have sp: "split_on CHR '':'' (drop pi p)
      = ?tp # (case ?pe of None \<Rightarrow> [] | Some e \<Rightarrow> split_on CHR '':'' (drop (Suc e) p))"
    by (rule split_on_drop [OF "1.prems"])
  have star: "length ?tp = 1 \<and> p ! pi = CHR ''*'' \<longleftrightarrow> ?tp = ''*''"
  proof -
    have "length ?tp = 1 \<Longrightarrow> ?tp = [p ! pi]"
      using "1.prems" takeWhile_nth [of 0 "\<lambda>x. x \<noteq> CHR '':''" "drop pi p"]
      by (cases ?tp) auto
    then show ?thesis by auto
  qed
  show ?case
  proof (cases "?tp = ''*'' \<or> length r < ri")
    case True
    then show ?thesis
      using star by (auto simp: colon_loop.simps [of p r pi ri] pend sp Let_def)
  next
    case False
    then have ri: "ri \<le> length r" and ns: "?tp \<noteq> ''*''" by auto
    have rend: "(case ?re of None \<Rightarrow> length r | Some k \<Rightarrow> k) - ri = length ?tr"
      using segment_end [OF ri] by simp
    have sr: "split_on CHR '':'' (drop ri r)
        = ?tr # (case ?re of None \<Rightarrow> [] | Some e \<Rightarrow> split_on CHR '':'' (drop (Suc e) r))"
      by (rule split_on_drop [OF ri])
    have seg: "length ?tp = length ?tr \<Longrightarrow>
        list_ex (\<lambda>k. p ! (pi + k) \<noteq> r ! (ri + k)) [0..<length ?tp] \<longleftrightarrow> ?tp \<noteq> ?tr"
      using segment_eq_iff [OF _ "1.prems" ri] by blast
    show ?thesis
    proof (cases "?tp = ?tr")
      case False
      then show ?thesis
        using star ns ri seg
        by (auto simp: colon_loop.simps [of p r pi ri] pend rend sp sr Let_def)
    next
      case eq: True
      have not_ex: "\<not> list_ex (\<lambda>k. p ! (pi + k) \<noteq> r ! (ri + k)) [0..<length ?tp]"
        using seg eq by simp
      have nstar: "length ?tr = Suc 0 \<Longrightarrow> p ! pi \<noteq> CHR ''*''"
        using star ns eq by auto
      have unf: "colon_loop p r pi ri =
          (case ?pe of None \<Rightarrow> ?re = None
           | Some e \<Rightarrow> colon_loop p r (Suc e)
               (case ?re of None \<Rightarrow> Suc (length r) | Some k \<Rightarrow> Suc k))"
        using nstar ri not_ex
        by (subst colon_loop.simps) (auto simp: pend rend Let_def eq)
      show ?thesis
      proof (cases ?pe)
        case None
        then show ?thesis using unf ns eq ri sp sr by (cases ?re) auto
      next
        case (Some e)
        then have e: "Suc e \<le> length p" by (auto dest: indexOf_SomeD)
        have epi: "e - pi = length ?tr" using pend Some eq by simp
        have "length r < (case ?re of None \<Rightarrow> Suc (length r) | Some k \<Rightarrow> Suc k) \<longleftrightarrow> ?re = None"
          by (auto dest: indexOf_SomeD split: option.splits)
        moreover have "colon_loop p r (Suc e) (case ?re of None \<Rightarrow> Suc (length r) | Some k \<Rightarrow> Suc k)
            = seg_match (split_on CHR '':'' (drop (Suc e) p))
                (if length r < (case ?re of None \<Rightarrow> Suc (length r) | Some k \<Rightarrow> Suc k) then []
                 else split_on CHR '':'' (drop (case ?re of None \<Rightarrow> Suc (length r) | Some k \<Rightarrow> Suc k) r))"
          using nstar ri not_ex eq Some e
          by (intro "1.IH" [OF refl refl _ _ refl refl]) (auto simp: rend epi)
        ultimately show ?thesis
          using unf ns eq ri sp sr Some by (cases ?re) auto
      qed
    qed
  qed
qed

lemma colon_seg_match:
  "matchColonResource pattern resource
     = seg_match (split_on CHR '':'' pattern) (split_on CHR '':'' resource)"
  by (simp add: matchColonResource_def colon_loop_seg_match)

text \<open>
  The allocation free matcher that walks both strings by index gives the same answer as
  matching the two lists of segments, where \<open>*\<close> accepts the rest and any other segment is
  literal text.
\<close>

theorem matchColonResource_eq_seg_match:
  "matchColonResource pattern resource
     = seg_match (split_on CHR '':'' pattern) (split_on CHR '':'' resource)"
  by (rule colon_seg_match)

text \<open>
  Every resource a pattern is compared with may itself be a pattern: that is how a delegation
  is checked. On patterns the colon matcher is a preorder, so a pattern matched by another one
  selects no resource the other does not.
\<close>

locale pattern_order =
  fixes accepts :: "'p \<Rightarrow> 'p \<Rightarrow> bool"
  assumes accepts_refl: "accepts p p"
    and accepts_trans: "accepts p q \<Longrightarrow> accepts q r \<Longrightarrow> accepts p r"
begin

lemma narrower_pattern_selects_less: "accepts p q \<Longrightarrow> {r. accepts q r} \<subseteq> {r. accepts p r}"
  by (auto intro: accepts_trans)

lemma narrower_chain:
  "accepts p q \<Longrightarrow> \<forall>i < length ps. accepts ((q # ps) ! i) (ps ! i) \<Longrightarrow>
   accepts p (last (q # ps))"
proof (induction ps arbitrary: p q)
  case (Cons a ps)
  from Cons.prems(2) have "accepts q a" by force
  with Cons.prems(1) have "accepts p a" by (rule accepts_trans)
  moreover have "\<forall>i < length ps. accepts ((a # ps) ! i) (ps ! i)"
    using Cons.prems(2) by (metis Suc_less_eq length_Cons nth_Cons_Suc)
  ultimately have "accepts p (last (a # ps))" by (rule Cons.IH)
  then show ?case by simp
qed simp

end

lemma seg_match_refl: "seg_match ps ps"
  by (induction ps) auto

lemma seg_match_trans: "seg_match ps qs \<Longrightarrow> seg_match qs rs \<Longrightarrow> seg_match ps rs"
proof (induction ps qs arbitrary: rs rule: seg_match.induct)
  case (2 p ps qs)
  then show ?case
    by (cases qs; cases rs) (auto split: if_splits)
qed auto

interpretation colon: pattern_order matchColonResource
  by unfold_locales
    (auto simp: colon_seg_match intro: seg_match_refl seg_match_trans)

text \<open>
  In colon mode a narrower pattern never selects more. If the pattern \<open>a\<close> matches the
  pattern \<open>b\<close>, every resource \<open>b\<close> matches is matched by \<open>a\<close>.
\<close>

theorem matchColonResource_narrower:
  "matchColonResource a b \<Longrightarrow> matchColonResource b r \<Longrightarrow> matchColonResource a r"
  by (rule colon.accepts_trans)

theorem matchColonResource_narrower_witness:
  "matchColonResource ''mcp:*'' ''mcp:github:repos''"
  by (rule matchColonResource_narrower [of _ "''mcp:github:*''"])
    (simp_all add: colon_seg_match)

section \<open>The path matcher\<close>

text \<open>
  The recursive reading of one colon segment under path matching: a literal part matches
  itself, \<open>*\<close> one plain part that is not \<open>**\<close>, \<open>**\<close> one or more plain parts.
\<close>

fun path_match :: "string list \<Rightarrow> string list \<Rightarrow> bool" where
  "path_match [] rs = (rs = [])"
| "path_match (p # ps) [] = False"
| "path_match (p # ps) (r # rs) =
     (if p = ''**'' then isPlainSegment r \<and> (path_match ps rs \<or> path_match (p # ps) rs)
      else if p = ''*'' then r \<noteq> ''**'' \<and> isPlainSegment r \<and> path_match ps rs
      else p = r \<and> path_match ps rs)"

fun tails :: "'a list \<Rightarrow> 'a list list" where
  "tails [] = [[]]"
| "tails (x # xs) = (x # xs) # tails xs"

lemma hd_map_tails [simp]: "hd (map f (tails xs)) = f xs"
  by (cases xs) auto

lemma tails_neq_Nil [simp]: "tails xs \<noteq> []"
  by (cases xs) auto

lemma path_row_tails:
  "path_row p rs (map (path_match ps) (tails rs)) = map (path_match (p # ps)) (tails rs)"
  by (induction rs) (auto simp: Let_def)

lemma path_table_last: "replicate (length rs) False @ [True] = map (path_match []) (tails rs)"
  by (induction rs) auto

lemma path_table:
  "foldr (\<lambda>p below. path_row p rs below) ps (replicate (length rs) False @ [True])
     = map (path_match ps) (tails rs)"
  by (induction ps) (simp_all add: path_table_last path_row_tails)

lemma parts_equal_iff:
  "length ps = length rs \<Longrightarrow> ''**'' \<notin> set ps \<Longrightarrow> parts_equal ps rs = path_match ps rs"
  by (induction ps rs rule: list_induct2) auto

lemma path_match_length: "path_match ps rs \<Longrightarrow> ''**'' \<notin> set ps \<Longrightarrow> length ps = length rs"
  by (induction ps rs rule: path_match.induct) (auto split: if_splits)

lemma path_table_match: "matchPathParts ps rs = path_match ps rs"
proof -
  have "matchPathParts ps rs = hd (map (path_match ps) (tails rs))"
    if "\<not> (length ps = length rs \<and> ''**'' \<notin> set ps)"
       "\<not> (''**'' \<notin> set ps \<and> length ps \<noteq> length rs)"
    using that by (auto simp: matchPathParts_def path_table Let_def)
  then show ?thesis
    by (auto simp: matchPathParts_def parts_equal_iff Let_def dest: path_match_length)
qed

text \<open>
  The table of \<open>matchPathParts\<close> and its two shortcuts compute the recursive match.
\<close>

theorem matchPathParts_eq_path_match: "matchPathParts ps rs = path_match ps rs"
  by (rule path_table_match)

lemma path_match_parts:
  "path_match ps rs \<Longrightarrow> r \<in> set rs \<Longrightarrow> isPlainSegment r \<or> r \<in> set ps"
  by (induction ps rs rule: path_match.induct) (auto split: if_splits)

lemma path_match_refl: "path_match ps ps"
  by (induction ps) (auto simp: isPlainSegment_def)

text \<open>
  The segment loop as one recursive predicate: \<open>segment_accepts\<close> is what one pattern segment
  that is not a whole segment wildcard accepts.
\<close>

definition segment_accepts :: "string \<Rightarrow> string \<Rightarrow> bool" where
  "segment_accepts part actual \<longleftrightarrow>
     part = actual \<or> (CHR ''/'' \<in> set part \<and> CHR ''/'' \<in> set actual \<and>
       path_match (split_on CHR ''/'' part) (split_on CHR ''/'' actual))"

fun path_accepts :: "string list \<Rightarrow> string list \<Rightarrow> bool" where
  "path_accepts [] rs = (rs = [])"
| "path_accepts (p # ps) rs =
     (if free_part p \<and> ps = [] then True
      else (case rs of
              [] \<Rightarrow> False
            | r # rs' \<Rightarrow>
                (if free_part p then r \<noteq> '''' \<and> r \<noteq> ''**'' else segment_accepts p r)
                \<and> path_accepts ps rs'))"

lemma path_loop_step:
  "path_loop (p # ps) rs =
     (if free_part p \<and> ps = [] then Some True
      else (case rs of
              [] \<Rightarrow> Some False
            | r # rs' \<Rightarrow>
                if (if free_part p then r \<noteq> '''' \<and> r \<noteq> ''**'' else segment_accepts p r)
                then path_loop ps rs' else Some False))"
proof (cases "free_part p")
  case True
  then show ?thesis by (cases rs) (simp_all add: free_part_def [symmetric])
next
  case False
  then show ?thesis
    by (cases rs)
      (simp_all add: free_part_def [symmetric] segment_accepts_def path_table_match)
qed

lemma path_loop_accepts:
  "(case path_loop ps rs of Some b \<Rightarrow> b | None \<Rightarrow> length ps = length rs) = path_accepts ps rs"
proof (induction ps arbitrary: rs)
  case (Cons p ps)
  show ?case
  proof (cases rs)
    case (Cons r rs')
    with Cons.IH [of rs'] show ?thesis
      by (cases "path_loop ps rs'") (simp_all add: path_loop_step del: path_loop.simps)
  qed (simp add: path_loop_step del: path_loop.simps)
qed simp

lemma matchPathResource_iff:
  "matchPathResource pattern resource
     = path_accepts (split_on CHR '':'' pattern) (split_on CHR '':'' resource)"
  by (simp add: matchPathResource_def Let_def path_loop_accepts free_part_def)

lemma path_accepts_nth:
  "path_accepts ps rs \<Longrightarrow> \<not> list_ex free_part ps \<Longrightarrow>
   length ps = length rs \<and> (\<forall>i<length ps. segment_accepts (ps ! i) (rs ! i))"
proof (induction ps arbitrary: rs)
  case (Cons p ps)
  then show ?case
    by (cases rs) (auto simp: All_less_Suc2)
qed simp

lemma segment_accepts_parts:
  assumes "segment_accepts p s" and "x \<in> set (split_on CHR ''/'' s)"
  shows "isPlainSegment x \<or> x \<in> set (split_on CHR ''/'' p)"
  using assms path_match_parts by (auto simp: segment_accepts_def)

text \<open>
  A traversal cannot ride a glob. When a path pattern has no whole segment wildcard, every
  \<open>/\<close> part of every segment of a matched resource is plain (not empty, not \<open>.\<close>, not \<open>..\<close>) or
  is written literally in the same segment of the pattern. The number of colon segments agrees,
  so no wildcard crosses a \<open>:\<close>.
\<close>

theorem matchPathResource_no_traversal:
  assumes "matchPathResource pattern resource"
    and "\<not> list_ex free_part (split_on CHR '':'' pattern)"
  shows "length (split_on CHR '':'' pattern) = length (split_on CHR '':'' resource)
    \<and> (\<forall>i<length (split_on CHR '':'' pattern).
         list_all (\<lambda>x. isPlainSegment x
                     \<or> x \<in> set (split_on CHR ''/'' (split_on CHR '':'' pattern ! i)))
           (split_on CHR ''/'' (split_on CHR '':'' resource ! i)))"
  using path_accepts_nth [OF assms(1) [unfolded matchPathResource_iff] assms(2)]
  unfolding list_all_iff by (metis segment_accepts_parts)

theorem matchPathResource_no_traversal_witness:
  "matchPathResource ''ros2:/fleet/*/cmd'' ''ros2:/fleet/r1/cmd''
   \<and> isPlainSegment ''r1''"
  using matchPathResource_no_traversal
    [of "''ros2:/fleet/*/cmd''" "''ros2:/fleet/r1/cmd''"]
  by (simp add: matchPathResource_iff segment_accepts_def isPlainSegment_def free_part_def)

section \<open>Overlap\<close>

text \<open>A reversed pattern matches a reversed resource: each part expands on its own.\<close>

definition part_takes :: "string \<Rightarrow> string list \<Rightarrow> bool" where
  "part_takes p xs \<longleftrightarrow>
     (if p = ''**'' then xs \<noteq> [] \<and> (\<forall>x\<in>set xs. isPlainSegment x)
      else if p = ''*'' then (\<exists>x. xs = [x] \<and> x \<noteq> ''**'' \<and> isPlainSegment x)
      else xs = [p])"

lemma part_takes_rev: "part_takes p (rev xs) = part_takes p xs"
  by (auto simp: part_takes_def)

lemma path_match_concat:
  "path_match ps rs \<longleftrightarrow> (\<exists>xss. rs = concat xss \<and> list_all2 part_takes ps xss)"
proof (induction ps rs rule: path_match.induct)
  case (1 rs)
  then show ?case by auto
next
  case (2 p ps)
  have "part_takes p xs \<Longrightarrow> xs \<noteq> []" for xs
    by (auto simp: part_takes_def split: if_splits)
  then show ?case by (fastforce simp: list_all2_Cons1)
next
  case (3 p ps r rs)
  show ?case
  proof (cases "p = ''**''")
    case True
    have "(\<exists>xss. r # rs = concat xss \<and> list_all2 part_takes (''**'' # ps) xss)
        \<longleftrightarrow> isPlainSegment r \<and>
            ((\<exists>xss. rs = concat xss \<and> list_all2 part_takes ps xss)
             \<or> (\<exists>xss. rs = concat xss \<and> list_all2 part_takes (''**'' # ps) xss))"
      (is "?L \<longleftrightarrow> _ \<and> (?A \<or> ?B)")
    proof
      assume ?L
      then obtain xs xss where eq: "r # rs = xs @ concat xss" "part_takes ''**'' xs"
        "list_all2 part_takes ps xss"
        by (auto simp: list_all2_Cons1)
      then obtain ys where ys: "xs = r # ys" by (cases xs) (auto simp: part_takes_def)
      show "isPlainSegment r \<and> (?A \<or> ?B)"
      proof (cases ys)
        case Nil
        with eq ys show ?thesis by (auto simp: part_takes_def)
      next
        case (Cons y ys')
        with eq ys have "part_takes ''**'' ys" by (auto simp: part_takes_def)
        with eq ys have "rs = concat (ys # xss) \<and> list_all2 part_takes (''**'' # ps) (ys # xss)"
          by simp
        then have ?B by blast
        moreover have "isPlainSegment r" using eq(2) ys by (simp add: part_takes_def)
        ultimately show ?thesis by blast
      qed
    next
      assume R: "isPlainSegment r \<and> (?A \<or> ?B)"
      then consider (a) xss where "rs = concat xss" "list_all2 part_takes ps xss"
        | (b) xs xss where "rs = xs @ concat xss" "part_takes ''**'' xs" "list_all2 part_takes ps xss"
        by (auto simp: list_all2_Cons1)
      then show ?L
      proof cases
        case a
        with R have "r # rs = concat ([r] # xss) \<and> list_all2 part_takes (''**'' # ps) ([r] # xss)"
          by (auto simp: part_takes_def)
        then show ?thesis by blast
      next
        case b
        with R have "r # rs = concat ((r # xs) # xss)
            \<and> list_all2 part_takes (''**'' # ps) ((r # xs) # xss)"
          by (auto simp: part_takes_def)
        then show ?thesis by blast
      qed
    qed
    with True "3.IH"(1,2) show ?thesis by simp
  next
    case False
    have "(\<exists>xss. r # rs = concat xss \<and> list_all2 part_takes (p # ps) xss)
        \<longleftrightarrow> part_takes p [r] \<and> (\<exists>xss. rs = concat xss \<and> list_all2 part_takes ps xss)"
      (is "?L \<longleftrightarrow> ?R")
    proof
      assume ?L
      with False show ?R
        by (auto simp: list_all2_Cons1 part_takes_def split: if_splits)
    next
      assume ?R
      then obtain xss where "r # rs = concat ([r] # xss) \<and> list_all2 part_takes (p # ps) ([r] # xss)"
        by auto
      then show ?L by blast
    qed
    moreover have "part_takes p [r] \<longleftrightarrow> (if p = ''*'' then r \<noteq> ''**'' \<and> isPlainSegment r else p = r)"
      using False by (auto simp: part_takes_def)
    ultimately show ?thesis using False "3.IH"(3,4) by (cases "p = ''*''") simp_all
  qed
qed

lemma path_match_rev: "path_match ps rs \<Longrightarrow> path_match (rev ps) (rev rs)"
proof -
  assume "path_match ps rs"
  then obtain xss where x: "rs = concat xss" "list_all2 part_takes ps xss"
    by (auto simp: path_match_concat)
  have "list_all2 part_takes (rev ps) (rev (map rev xss))"
    using x(2) by (simp add: list_all2_rev list_all2_map2 part_takes_rev)
  moreover have "rev rs = concat (rev (map rev xss))"
    by (simp add: x(1) rev_concat rev_map)
  ultimately show ?thesis by (auto simp: path_match_concat)
qed

lemma suffix_scan_sound: "path_match px rs \<Longrightarrow> path_match py rs \<Longrightarrow> suffix_scan px py"
proof (induction px py arbitrary: rs rule: suffix_scan.induct)
  case (1 a px b py)
  then show ?case
    by (cases rs) (auto simp: free_part_def split: if_splits)
qed auto

lemma prefix_scan_sound:
  "path_match px rs \<Longrightarrow> path_match py rs \<Longrightarrow>
   \<exists>i. prefix_scan px py = Some i
       \<and> path_match (drop i px) (drop i rs) \<and> path_match (drop i py) (drop i rs)"
proof (induction px py arbitrary: rs rule: prefix_scan.induct)
  case (1 a px b py)
  then obtain r rs' where rs: "rs = r # rs'" by (cases rs) auto
  show ?case
  proof (cases "a = ''**'' \<or> b = ''**''")
    case True
    with "1.prems" show ?thesis by auto
  next
    case False
    then have nf: "\<not> (\<not> free_part a \<and> \<not> free_part b \<and> a \<noteq> b)"
      and m: "path_match px rs'" "path_match py rs'"
      using "1.prems" rs by (auto simp: free_part_def split: if_splits)
    from "1.IH" [OF False nf m] False nf rs show ?thesis by auto
  qed
qed auto

lemma segmentsMayOverlap_sound:
  assumes "segment_accepts x s" and "segment_accepts y s"
  shows "segmentsMayOverlap x y"
proof -
  have refl: "segment_accepts p s \<Longrightarrow> path_match (split_on CHR ''/'' p) (split_on CHR ''/'' s)" for p
    by (auto simp: segment_accepts_def path_match_refl)
  note m = refl [OF assms(1)] refl [OF assms(2)]
  obtain i where i: "prefix_scan (split_on CHR ''/'' x) (split_on CHR ''/'' y) = Some i"
    "path_match (drop i (split_on CHR ''/'' x)) (drop i (split_on CHR ''/'' s))"
    "path_match (drop i (split_on CHR ''/'' y)) (drop i (split_on CHR ''/'' s))"
    using prefix_scan_sound [OF m] by blast
  have "suffix_scan (rev (drop i (split_on CHR ''/'' x))) (rev (drop i (split_on CHR ''/'' y)))"
    using suffix_scan_sound path_match_rev i(2,3) by blast
  moreover have "x \<noteq> y \<Longrightarrow> CHR ''/'' \<in> set x \<or> CHR ''/'' \<in> set y"
    using assms by (auto simp: segment_accepts_def)
  ultimately show ?thesis
    using m i(1) path_match_length
    by (auto simp: segmentsMayOverlap_def Let_def)
qed

lemma may_overlap_loop_sound:
  "path_accepts xs rs \<Longrightarrow> path_accepts ys rs \<Longrightarrow> may_overlap_loop xs ys"
proof (induction xs ys arbitrary: rs rule: may_overlap_loop.induct)
  case (4 x xs y ys)
  then show ?case
    by (cases rs) (auto intro: segmentsMayOverlap_sound split: if_splits)
qed (auto split: if_splits list.splits)

text \<open>
  The overlap test of path matching never misses: two patterns that both match some resource
  are reported as overlapping.
\<close>

lemma path_overlap_sound:
  "matchPathResource a r \<Longrightarrow> matchPathResource b r \<Longrightarrow> pathPatternsMayOverlap a b"
  using may_overlap_loop_sound by (auto simp: matchPathResource_iff pathPatternsMayOverlap_def)

end
