(* ===== verification/Attestation.thy ===== *)
theory Attestation
  imports Prelude
begin

text \<open>
  Hardware attestation facts and rules, \<open>packages/core/src/policy/attestation-constraint.ts\<close>:
  the projection of verified claims into facts, the check of a rule, and the narrowing of two
  rules when a permission is delegated.
\<close>

section \<open>Definitions\<close>

datatype attestation_level = Software | Hardware | Strongbox

datatype boot_state = Verified | SelfSigned | Unverified | Failed | Unlocked

record attestation_facts =
  af_format :: string
  af_securityLevel :: attestation_level
  af_bootState :: "boot_state option"
  af_appIds :: "string list option"

text \<open>
  A rule on \<open>PermissionConstraints.attestation\<close>. It can come from JSON that no schema checked,
  so each field holds the JSON that stands there, \<open>None\<close> when it is undefined.
\<close>

record attestation_rule =
  ar_minSecurityLevel :: "json option"
  ar_bootState :: "json option"
  ar_appIds :: "json option"

fun level_rank :: "attestation_level \<Rightarrow> nat" where
  "level_rank Software = 0"
| "level_rank Hardware = 1"
| "level_rank Strongbox = 2"

fun level_name :: "attestation_level \<Rightarrow> string" where
  "level_name Software = ''software''"
| "level_name Hardware = ''hardware''"
| "level_name Strongbox = ''strongbox''"

definition level_of :: "string \<Rightarrow> attestation_level option" where
  "level_of s = List.find (\<lambda>l. level_name l = s) [Software, Hardware, Strongbox]"

fun boot_name :: "boot_state \<Rightarrow> string" where
  "boot_name Verified = ''verified''"
| "boot_name SelfSigned = ''self_signed''"
| "boot_name Unverified = ''unverified''"
| "boot_name Failed = ''failed''"
| "boot_name Unlocked = ''unlocked''"

definition boot_of :: "boot_state list \<Rightarrow> string \<Rightarrow> boot_state option" where
  "boot_of states s = List.find (\<lambda>b. boot_name b = s) states"

text \<open>\<open>ANDROID_BOOT_STATES\<close> and \<open>BOOT_STATES\<close>.\<close>

definition android_boot_states :: "boot_state list" where
  "android_boot_states = [Verified, SelfSigned, Unverified, Failed]"

definition all_boot_states :: "boot_state list" where
  "all_boot_states = [Verified, SelfSigned, Unverified, Failed, Unlocked]"

text \<open>A member of a claims object, \<open>None\<close> when it is undefined.\<close>

definition field :: "(string \<times> json) list \<Rightarrow> string \<Rightarrow> json option" where
  "field obj k = map_of obj k"

definition str :: "json option \<Rightarrow> string option" where
  "str v = (case v of Some (JStr s) \<Rightarrow> (if s \<noteq> '''' then Some s else None) | _ \<Rightarrow> None)"

definition strList :: "json option \<Rightarrow> string list" where
  "strList v =
     (case v of
        Some (JArr xs) \<Rightarrow> List.map_filter (\<lambda>x. str (Some x)) xs
      | _ \<Rightarrow> [])"

definition android_rank :: "json option \<Rightarrow> nat" where
  "android_rank v =
     (if v = Some (JStr ''strongbox'') then 2
      else if v = Some (JStr ''trusted_environment'') then 1 else 0)"

definition androidLevel :: "json option \<Rightarrow> json option \<Rightarrow> attestation_level" where
  "androidLevel a k =
     (let low = min (android_rank a) (if k = None then android_rank a else android_rank k)
      in if low = 2 then Strongbox else if low = 1 then Hardware else Software)"

text \<open>\<open>...(xs.length > 0 && { xs })\<close>\<close>

definition nonempty :: "'a list \<Rightarrow> 'a list option" where
  "nonempty xs = (if xs = [] then None else Some xs)"

text \<open>The facts of each known format.\<close>

definition android_facts :: "(string \<times> json) list \<Rightarrow> attestation_facts" where
  "android_facts c =
     (let bs = str (field c ''verifiedBootState'');
          bootState =
            (if field c ''deviceLocked'' = Some (JBool False) then Some Unlocked
             else Option.bind bs (boot_of android_boot_states));
          appIds = strList (field c ''packages'')
      in \<lparr>af_format = ''android-key-attestation'',
          af_securityLevel =
            androidLevel (field c ''securityLevel'') (field c ''keySecurityLevel''),
          af_bootState = bootState, af_appIds = nonempty appIds\<rparr>)"

definition apple_facts :: "(string \<times> json) list \<Rightarrow> attestation_facts" where
  "apple_facts c =
     \<lparr>af_format = ''apple-app-attest'', af_securityLevel = Hardware, af_bootState = None,
      af_appIds = map_option (\<lambda>a. [a]) (str (field c ''appId''))\<rparr>"

definition tpm_quote_facts :: "(string \<times> json) list \<Rightarrow> attestation_facts" where
  "tpm_quote_facts c =
     \<lparr>af_format = ''tpm2-quote'',
      af_securityLevel =
        (if field c ''akVerified'' = Some (JBool True) then Hardware else Software),
      af_bootState = None, af_appIds = None\<rparr>"

definition tpm_certify_facts :: "(string \<times> json) list \<Rightarrow> attestation_facts" where
  "tpm_certify_facts c =
     \<lparr>af_format = ''tpm2-certify'',
      af_securityLevel =
        (if field c ''activated'' = Some (JBool True) \<and> field c ''ekVerified'' = Some (JBool True)
         then Hardware else Software),
      af_bootState = None, af_appIds = None\<rparr>"

definition attestationFacts :: "(string \<times> json) list option \<Rightarrow> attestation_facts option" where
  "attestationFacts claims =
     (case claims of
        None \<Rightarrow> None
      | Some c \<Rightarrow>
          if field c ''format'' = Some (JStr ''android-key-attestation'') then Some (android_facts c)
          else if field c ''format'' = Some (JStr ''apple-app-attest'') then Some (apple_facts c)
          else if field c ''format'' = Some (JStr ''tpm2-quote'') then Some (tpm_quote_facts c)
          else if field c ''format'' = Some (JStr ''tpm2-certify'') then Some (tpm_certify_facts c)
          else None)"

definition parseAttestationFacts :: "json \<Rightarrow> attestation_facts option" where
  "parseAttestationFacts value =
     (case value of
        JObj v \<Rightarrow>
          (case (str (field v ''format''), field v ''securityLevel'') of
             (Some format, Some (JStr l)) \<Rightarrow>
               (case level_of l of
                  None \<Rightarrow> None
                | Some level \<Rightarrow>
                    Some \<lparr>af_format = format, af_securityLevel = level,
                          af_bootState =
                            Option.bind (str (field v ''bootState'')) (boot_of all_boot_states),
                          af_appIds = nonempty (strList (field v ''appIds''))\<rparr>)
           | _ \<Rightarrow> None)
      | _ \<Rightarrow> None)"

datatype attestation_check =
    AttestationOk
  | NoFacts
  | MalformedRule
  | LevelTooLow attestation_level attestation_level
  | BootNotAccepted "boot_state option"
  | AppNotAllowed

definition is_array :: "json \<Rightarrow> bool" where
  "is_array v = (case v of JArr _ \<Rightarrow> True | _ \<Rightarrow> False)"

definition array_has :: "json \<Rightarrow> string \<Rightarrow> bool" where
  "array_has v s = (case v of JArr xs \<Rightarrow> JStr s \<in> set xs | _ \<Rightarrow> False)"

definition rule_level :: "json option \<Rightarrow> attestation_level option" where
  "rule_level v = (case v of Some (JStr s) \<Rightarrow> level_of s | _ \<Rightarrow> None)"

definition malformed_rule :: "attestation_rule \<Rightarrow> bool" where
  "malformed_rule rule \<longleftrightarrow>
     (ar_minSecurityLevel rule \<noteq> None \<and> rule_level (ar_minSecurityLevel rule) = None)
     \<or> (case ar_bootState rule of None \<Rightarrow> False | Some v \<Rightarrow> \<not> is_array v)
     \<or> (case ar_appIds rule of None \<Rightarrow> False | Some v \<Rightarrow> \<not> is_array v)"

text \<open>The three tests of the rule after its shape was checked, each \<open>None\<close> when it holds.\<close>

definition level_fails :: "attestation_rule \<Rightarrow> attestation_facts \<Rightarrow> attestation_check option" where
  "level_fails rule facts =
     (case rule_level (ar_minSecurityLevel rule) of
        None \<Rightarrow> None
      | Some l \<Rightarrow>
          if level_rank (af_securityLevel facts) < level_rank l
          then Some (LevelTooLow (af_securityLevel facts) l) else None)"

definition boot_fails :: "attestation_rule \<Rightarrow> attestation_facts \<Rightarrow> attestation_check option" where
  "boot_fails rule facts =
     (case ar_bootState rule of
        None \<Rightarrow> None
      | Some states \<Rightarrow>
          (case af_bootState facts of
             None \<Rightarrow> Some (BootNotAccepted None)
           | Some b \<Rightarrow>
               if array_has states (boot_name b) then None else Some (BootNotAccepted (Some b))))"

definition app_fails :: "attestation_rule \<Rightarrow> attestation_facts \<Rightarrow> attestation_check option" where
  "app_fails rule facts =
     (case ar_appIds rule of
        None \<Rightarrow> None
      | Some allowed \<Rightarrow>
          if list_ex (array_has allowed) (case af_appIds facts of None \<Rightarrow> [] | Some ids \<Rightarrow> ids)
          then None else Some AppNotAllowed)"

definition checkAttestationConstraint ::
  "attestation_rule \<Rightarrow> attestation_facts option \<Rightarrow> attestation_check" where
  "checkAttestationConstraint rule facts =
     (case facts of
        None \<Rightarrow> NoFacts
      | Some f \<Rightarrow>
          if malformed_rule rule then MalformedRule
          else (case level_fails rule f of
                  Some c \<Rightarrow> c
                | None \<Rightarrow>
                    (case boot_fails rule f of
                       Some c \<Rightarrow> c
                     | None \<Rightarrow> (case app_fails rule f of Some c \<Rightarrow> c | None \<Rightarrow> AttestationOk))))"

text \<open>
  The typed rule a schema checked permission carries, and the JSON it stands for.
\<close>

record attestation_constraint =
  ac_minSecurityLevel :: "attestation_level option"
  ac_bootState :: "boot_state list option"
  ac_appIds :: "string list option"

definition rule_json :: "attestation_constraint \<Rightarrow> attestation_rule" where
  "rule_json c =
     \<lparr>ar_minSecurityLevel = map_option (\<lambda>l. JStr (level_name l)) (ac_minSecurityLevel c),
      ar_bootState = map_option (\<lambda>bs. JArr (map (\<lambda>b. JStr (boot_name b)) bs)) (ac_bootState c),
      ar_appIds = map_option (\<lambda>ids. JArr (map JStr ids)) (ac_appIds c)\<rparr>"

text \<open>
  One list field of the narrowed rule: the elements of \<open>b\<close> that \<open>a\<close> has too, when both are
  set, else a copy of the one that is.
\<close>

fun narrow_list :: "'a list option \<Rightarrow> 'a list option \<Rightarrow> 'a list option" where
  "narrow_list None None = None"
| "narrow_list (Some xs) None = Some xs"
| "narrow_list None (Some ys) = Some ys"
| "narrow_list (Some xs) (Some ys) = Some (filter (\<lambda>y. y \<in> set xs) ys)"

definition narrow_both ::
  "attestation_constraint \<Rightarrow> attestation_constraint \<Rightarrow> attestation_constraint" where
  "narrow_both a b =
     \<lparr>ac_minSecurityLevel =
        (if ac_minSecurityLevel a \<noteq> None \<or> ac_minSecurityLevel b \<noteq> None then
           Some (if ac_minSecurityLevel a = Some Strongbox \<or> ac_minSecurityLevel b = Some Strongbox
                 then Strongbox else Hardware)
         else None),
      ac_bootState = narrow_list (ac_bootState a) (ac_bootState b),
      ac_appIds = narrow_list (ac_appIds a) (ac_appIds b)\<rparr>"

definition narrowAttestationConstraint ::
  "attestation_constraint option \<Rightarrow> attestation_constraint option
     \<Rightarrow> attestation_constraint option" where
  "narrowAttestationConstraint a b =
     (case (a, b) of
        (None, _) \<Rightarrow> b
      | (_, None) \<Rightarrow> a
      | (Some x, Some y) \<Rightarrow> Some (narrow_both x y))"

section \<open>Levels\<close>

text \<open>The levels are ordered by their rank.\<close>

instantiation attestation_level :: linorder
begin

definition less_eq_attestation_level :: "attestation_level \<Rightarrow> attestation_level \<Rightarrow> bool" where
  "less_eq_attestation_level a b \<longleftrightarrow> level_rank a \<le> level_rank b"

definition less_attestation_level :: "attestation_level \<Rightarrow> attestation_level \<Rightarrow> bool" where
  "less_attestation_level a b \<longleftrightarrow> level_rank a < level_rank b"

lemma level_rank_inj: "level_rank a = level_rank b \<Longrightarrow> a = b"
  by (cases a; cases b) simp_all

instance
  by intro_classes
    (auto simp: less_eq_attestation_level_def less_attestation_level_def intro: level_rank_inj)

end

lemma level_of_name [simp]: "level_of (level_name l) = Some l"
  by (cases l) (simp_all add: level_of_def)

lemma level_of_SomeD: "level_of s = Some l \<Longrightarrow> s = level_name l"
  unfolding level_of_def by (drule find_SomeD) simp

lemma boot_name_inj [simp]: "boot_name a = boot_name b \<longleftrightarrow> a = b"
  by (cases a; cases b) simp_all

section \<open>Facts\<close>

lemma only_android_strongbox:
  "af_securityLevel (apple_facts c) \<noteq> Strongbox"
  "af_securityLevel (tpm_quote_facts c) \<noteq> Strongbox"
  "af_securityLevel (tpm_certify_facts c) \<noteq> Strongbox"
  by (simp_all add: apple_facts_def tpm_quote_facts_def tpm_certify_facts_def)

lemma android_facts_simps:
  "af_format (android_facts c) = ''android-key-attestation''"
  "af_securityLevel (android_facts c) =
     androidLevel (field c ''securityLevel'') (field c ''keySecurityLevel'')"
  by (simp_all add: android_facts_def Let_def)

lemma androidLevel_strongbox:
  "androidLevel a k = Strongbox \<Longrightarrow>
   a = Some (JStr ''strongbox'') \<and> k \<in> {None, Some (JStr ''strongbox'')}"
  by (auto simp: androidLevel_def android_rank_def Let_def split: if_split_asm)

text \<open>
  Facts claim a strongbox key only for Android claims whose own level is strongbox and
  whose key level, when reported, is strongbox too.
\<close>

theorem attestationFacts_strongbox:
  assumes "attestationFacts (Some c) = Some f" and "af_securityLevel f = Strongbox"
  shows "af_format f = ''android-key-attestation''
   \<and> field c ''securityLevel'' = Some (JStr ''strongbox'')
   \<and> field c ''keySecurityLevel'' \<in> {None, Some (JStr ''strongbox'')}"
proof -
  have "f \<in> {android_facts c, apple_facts c, tpm_quote_facts c, tpm_certify_facts c}"
    using assms(1) unfolding attestationFacts_def option.case
    by (metis insertCI option.distinct(1) option.inject)
  then have f: "f = android_facts c" using assms(2) only_android_strongbox by blast
  with assms(2) have "androidLevel (field c ''securityLevel'') (field c ''keySecurityLevel'') = Strongbox"
    by (simp only: android_facts_simps)
  from androidLevel_strongbox [OF this] f show ?thesis
    by (simp only: android_facts_simps)
qed

theorem attestationFacts_strongbox_witness:
  "field [(''format'', JStr ''android-key-attestation''),
          (''securityLevel'', JStr ''strongbox'')] ''securityLevel'' = Some (JStr ''strongbox'')"
  (is "field ?c _ = _")
proof -
  have "attestationFacts (Some ?c) = Some (android_facts ?c)"
    by (simp add: attestationFacts_def field_def)
  moreover have "af_securityLevel (android_facts ?c) = Strongbox"
    by (simp add: android_facts_simps androidLevel_def android_rank_def field_def)
  ultimately show ?thesis
    using attestationFacts_strongbox by blast
qed

section \<open>The check\<close>

lemma level_fails_None [simp]:
  "level_fails rule f = None \<longleftrightarrow>
     (\<forall>l. rule_level (ar_minSecurityLevel rule) = Some l \<longrightarrow> l \<le> af_securityLevel f)"
  by (auto simp: level_fails_def less_eq_attestation_level_def split: option.splits)

lemma boot_fails_None [simp]:
  "boot_fails rule f = None \<longleftrightarrow>
     (\<forall>v. ar_bootState rule = Some v \<longrightarrow>
        (\<exists>b. af_bootState f = Some b \<and> array_has v (boot_name b)))"
  by (auto simp: boot_fails_def split: option.splits)

lemma app_fails_None [simp]:
  "app_fails rule f = None \<longleftrightarrow>
     (\<forall>v. ar_appIds rule = Some v \<longrightarrow>
        (\<exists>ids i. af_appIds f = Some ids \<and> i \<in> set ids \<and> array_has v i))"
  by (cases "af_appIds f") (auto simp: app_fails_def list_ex_iff split: option.splits)

lemma fails_not_Ok:
  "level_fails rule f \<noteq> Some AttestationOk" "boot_fails rule f \<noteq> Some AttestationOk"
  "app_fails rule f \<noteq> Some AttestationOk"
  by (auto simp: level_fails_def boot_fails_def app_fails_def split: option.splits)

text \<open>
  A rule is met exactly when there are facts, the rule is well formed, the key level reaches
  the required one, and the boot state and one app id are listed where the rule lists any.
  No facts and malformed rules fail closed.
\<close>

theorem checkAttestationConstraint_iff:
  "checkAttestationConstraint rule facts = AttestationOk \<longleftrightarrow>
     (\<exists>f. facts = Some f \<and> \<not> malformed_rule rule
        \<and> (\<forall>l. rule_level (ar_minSecurityLevel rule) = Some l \<longrightarrow> l \<le> af_securityLevel f)
        \<and> (\<forall>v. ar_bootState rule = Some v \<longrightarrow>
              (\<exists>b. af_bootState f = Some b \<and> array_has v (boot_name b)))
        \<and> (\<forall>v. ar_appIds rule = Some v \<longrightarrow>
              (\<exists>ids i. af_appIds f = Some ids \<and> i \<in> set ids \<and> array_has v i)))"
proof (cases facts)
  case (Some f)
  then have "checkAttestationConstraint rule facts = AttestationOk \<longleftrightarrow>
      \<not> malformed_rule rule
      \<and> level_fails rule f = None \<and> boot_fails rule f = None \<and> app_fails rule f = None"
    using fails_not_Ok
    by (auto simp: checkAttestationConstraint_def simp del: level_fails_None boot_fails_None
        app_fails_None split: option.splits)
  with Some show ?thesis by simp
qed (simp add: checkAttestationConstraint_def)

theorem checkAttestationConstraint_witness:
  "checkAttestationConstraint
     \<lparr>ar_minSecurityLevel = Some (JStr ''hardware''), ar_bootState = None,
      ar_appIds = Some (JArr [JStr ''com.acme''])\<rparr>
     (Some \<lparr>af_format = ''apple-app-attest'', af_securityLevel = Hardware,
            af_bootState = None, af_appIds = Some [''com.acme'']\<rparr>) = AttestationOk"
  by (subst checkAttestationConstraint_iff)
    (simp add: malformed_rule_def rule_level_def level_of_def is_array_def array_has_def)

section \<open>Narrowing\<close>

lemma rule_json_ok_iff:
  "checkAttestationConstraint (rule_json c) (Some f) = AttestationOk \<longleftrightarrow>
     (\<forall>l. ac_minSecurityLevel c = Some l \<longrightarrow> l \<le> af_securityLevel f)
     \<and> (\<forall>bs. ac_bootState c = Some bs \<longrightarrow> (\<exists>b\<in>set bs. af_bootState f = Some b))
     \<and> (\<forall>ids. ac_appIds c = Some ids \<longrightarrow> (\<exists>i\<in>set ids. \<exists>as. af_appIds f = Some as \<and> i \<in> set as))"
proof -
  have rl: "rule_level (map_option (\<lambda>l. JStr (level_name l)) m) = m" for m
    by (cases m) (simp_all add: rule_level_def)
  have "checkAttestationConstraint (rule_json c) (Some f) = AttestationOk \<longleftrightarrow>
      \<not> malformed_rule (rule_json c)
      \<and> level_fails (rule_json c) f = None \<and> boot_fails (rule_json c) f = None
      \<and> app_fails (rule_json c) f = None"
    using fails_not_Ok
    by (auto simp: checkAttestationConstraint_def simp del: level_fails_None boot_fails_None
        app_fails_None split: option.splits)
  then show ?thesis
    by (auto simp: rule_json_def malformed_rule_def is_array_def array_has_def rl
        split: option.splits)
qed

lemma narrow_list_Some:
  "narrow_list a b = Some zs \<Longrightarrow>
     (\<forall>xs. a = Some xs \<longrightarrow> set zs \<subseteq> set xs) \<and> (\<forall>ys. b = Some ys \<longrightarrow> set zs \<subseteq> set ys)"
  by (cases a; cases b) auto

lemma narrow_list_None [simp]: "narrow_list a b = None \<longleftrightarrow> a = None \<and> b = None"
  by (cases a; cases b) auto

lemma narrow_level:
  assumes "z = x \<or> z = y" and "ac_minSecurityLevel z = Some l"
  shows "\<exists>m. ac_minSecurityLevel (narrow_both x y) = Some m \<and> l \<le> m"
proof (cases "l = Strongbox")
  case True
  with assms show ?thesis by (auto simp: narrow_both_def)
next
  case False
  then have "l \<le> Hardware" "l \<le> Strongbox"
    by (cases l; simp add: less_eq_attestation_level_def)+
  moreover have "ac_minSecurityLevel (narrow_both x y) \<in> {Some Hardware, Some Strongbox}"
    using assms by (auto simp: narrow_both_def)
  ultimately show ?thesis by blast
qed

lemma narrowed_holds:
  assumes "checkAttestationConstraint (rule_json (narrow_both x y)) (Some f) = AttestationOk"
    and z: "z = x \<or> z = y"
  shows "checkAttestationConstraint (rule_json z) (Some f) = AttestationOk"
proof -
  note h = assms(1) [unfolded rule_json_ok_iff]
  have "l \<le> af_securityLevel f" if l: "ac_minSecurityLevel z = Some l" for l
  proof -
    obtain m where "ac_minSecurityLevel (narrow_both x y) = Some m" "l \<le> m"
      using narrow_level [OF z l] by blast
    with h show ?thesis by fastforce
  qed
  moreover have "\<exists>b\<in>set bs. af_bootState f = Some b" if "ac_bootState z = Some bs" for bs
  proof -
    have "narrow_list (ac_bootState x) (ac_bootState y) \<noteq> None" using that z by auto
    then obtain cs where cs: "narrow_list (ac_bootState x) (ac_bootState y) = Some cs" by blast
    with h have "\<exists>b\<in>set cs. af_bootState f = Some b" by (simp add: narrow_both_def)
    with narrow_list_Some [OF cs] that z show ?thesis by blast
  qed
  moreover have "\<exists>i\<in>set ids. \<exists>as. af_appIds f = Some as \<and> i \<in> set as"
    if "ac_appIds z = Some ids" for ids
  proof -
    have "narrow_list (ac_appIds x) (ac_appIds y) \<noteq> None" using that z by auto
    then obtain cs where cs: "narrow_list (ac_appIds x) (ac_appIds y) = Some cs" by blast
    with h have "\<exists>i\<in>set cs. \<exists>as. af_appIds f = Some as \<and> i \<in> set as" by (simp add: narrow_both_def)
    with narrow_list_Some [OF cs] that z show ?thesis by blast
  qed
  ultimately show ?thesis by (simp add: rule_json_ok_iff)
qed

lemma narrow_rule_sound:
  assumes "narrowAttestationConstraint a b = Some n"
    and "checkAttestationConstraint (rule_json n) facts = AttestationOk"
    and "a = Some z \<or> b = Some z"
  shows "checkAttestationConstraint (rule_json z) facts = AttestationOk"
proof -
  from assms(2) obtain f where f: "facts = Some f"
    by (cases facts) (auto simp: checkAttestationConstraint_def)
  show ?thesis
  proof (cases "a = None \<or> b = None")
    case True
    with assms(1,3) have "z = n" by (auto simp: narrowAttestationConstraint_def)
    with assms(2) show ?thesis by simp
  next
    case False
    then obtain x y where xy: "a = Some x" "b = Some y" by auto
    with assms(1) have "n = narrow_both x y" by (simp add: narrowAttestationConstraint_def)
    moreover have "z = x \<or> z = y" using assms(3) xy by auto
    ultimately show ?thesis using narrowed_holds assms(2) f by blast
  qed
qed

text \<open>
  A narrowed attestation rule is never looser than either of its two sources. Whatever
  facts satisfy the combination satisfy the parent rule and the child rule.
\<close>

theorem narrowAttestationConstraint_sound:
  assumes "narrowAttestationConstraint a b = Some n"
    and "checkAttestationConstraint (rule_json n) facts = AttestationOk"
    and "a = Some z \<or> b = Some z"
  shows "checkAttestationConstraint (rule_json z) facts = AttestationOk"
  using assms by (rule narrow_rule_sound)

lemma narrowAttestationConstraint_None [simp]:
  "narrowAttestationConstraint a b = None \<longleftrightarrow> a = None \<and> b = None"
  by (cases a; cases b) (auto simp: narrowAttestationConstraint_def)

theorem narrowAttestationConstraint_witness:
  "checkAttestationConstraint
     (rule_json \<lparr>ac_minSecurityLevel = None, ac_bootState = Some [Verified, Unlocked],
                 ac_appIds = None\<rparr>)
     (Some \<lparr>af_format = ''f'', af_securityLevel = Strongbox, af_bootState = Some Verified,
            af_appIds = None\<rparr>) = AttestationOk"
proof (rule narrowAttestationConstraint_sound [OF _ _ disjI1 [OF refl]])
  let ?b = "\<lparr>ac_minSecurityLevel = Some Hardware, ac_bootState = Some [Verified], ac_appIds = None\<rparr>"
  show "narrowAttestationConstraint
      (Some \<lparr>ac_minSecurityLevel = None, ac_bootState = Some [Verified, Unlocked],
             ac_appIds = None\<rparr>) (Some ?b) = Some ?b"
    by (simp add: narrowAttestationConstraint_def narrow_both_def)
  show "checkAttestationConstraint (rule_json ?b)
      (Some \<lparr>af_format = ''f'', af_securityLevel = Strongbox, af_bootState = Some Verified,
             af_appIds = None\<rparr>) = AttestationOk"
    by (simp add: rule_json_ok_iff less_eq_attestation_level_def)
qed

end
