(* ===== verification/Abac.thy ===== *)
theory Abac
  imports ResourceMatch DecisionCodes Attestation SingleUse
begin

text \<open>
  Attribute based constraints, \<open>packages/core/src/policy/abac.ts\<close>: matching of a permission,
  IPv4 allowlists, clock windows, argument patterns, the hourly call limit, and the walk over
  all constraints of a permission that stops at the first failure.
\<close>

unbundle bit_operations_syntax

section \<open>Permissions\<close>

record time_window =
  tw_start :: string
  tw_end :: string

text \<open>\<open>PermissionConstraints\<close> and \<open>Permission\<close> of \<open>types.ts\<close>; \<open>None\<close> is undefined.\<close>

record permission_constraints =
  pc_maxCallsPerHour :: "int option"
  pc_allowedArgPatterns :: "string list option"
  pc_requireApproval :: bool
  pc_timeWindow :: "time_window option"
  pc_ipAllowlist :: "string list option"
  pc_attestation :: "attestation_constraint option"

record permission =
  pm_resource :: string
  pm_actions :: "string list"
  pm_constraints :: "permission_constraints option"
  pm_relation :: "string option"

definition no_constraints :: permission_constraints where
  "no_constraints =
     \<lparr>pc_maxCallsPerHour = None, pc_allowedArgPatterns = None, pc_requireApproval = False,
      pc_timeWindow = None, pc_ipAllowlist = None, pc_attestation = None\<rparr>"

definition matchAction :: "string list \<Rightarrow> string \<Rightarrow> bool" where
  "matchAction allowedActions requestedAction \<longleftrightarrow>
     requestedAction \<in> set allowedActions \<or> ''*'' \<in> set allowedActions"

definition grants :: "resource_matching \<Rightarrow> string \<Rightarrow> string \<Rightarrow> permission \<Rightarrow> bool" where
  "grants mode action resource p \<longleftrightarrow>
     matchResource (pm_resource p) resource mode \<and> matchAction (pm_actions p) action"

definition findMatchingPermission ::
  "permission list \<Rightarrow> string \<Rightarrow> string \<Rightarrow> resource_matching \<Rightarrow> (permission \<times> nat) option" where
  "findMatchingPermission permissions action resource mode =
     (case find_index (grants mode action resource) permissions of
        None \<Rightarrow> None
      | Some index \<Rightarrow> Some (permissions ! index, index))"

section \<open>IP allowlist\<close>

text \<open>One octet, \<open>/^\d{1,3}$/\<close> and at most 255.\<close>

definition parse_octet :: "string \<Rightarrow> nat option" where
  "parse_octet part =
     (if part = [] \<or> 3 < length part \<or> \<not> list_all is_digit part then None
      else if 255 < digits_val part then None
      else Some (digits_val part))"

text \<open>The loop over the parts: \<open>(result << 8) | num\<close>.\<close>

fun octets_loop :: "string list \<Rightarrow> 32 word \<Rightarrow> 32 word option" where
  "octets_loop [] result = Some result"
| "octets_loop (part # parts) result =
     (case parse_octet part of
        None \<Rightarrow> None
      | Some num \<Rightarrow> octets_loop parts (push_bit 8 result OR of_nat num))"

definition parseIPv4 :: "string \<Rightarrow> 32 word option" where
  "parseIPv4 ip =
     (let parts = split_on CHR ''.'' ip
      in if length parts \<noteq> 4 then None else octets_loop parts 0)"

text \<open>\<open>parseInt(s, 10)\<close>: leading white space, a sign, then the digits there are.\<close>

definition is_space :: "char \<Rightarrow> bool" where
  "is_space c \<longleftrightarrow> (let n = (of_char c :: nat) in (9 \<le> n \<and> n \<le> 13) \<or> n = 32 \<or> n = 160)"

definition parseInt10 :: "string \<Rightarrow> int option" where
  "parseInt10 s =
     (let t = dropWhile is_space s;
          neg = (t \<noteq> [] \<and> hd t = CHR ''-'');
          u = (if t \<noteq> [] \<and> (hd t = CHR ''-'' \<or> hd t = CHR ''+'') then tl t else t);
          ds = takeWhile is_digit u
      in if ds = [] then None
         else Some (if neg then - int (digits_val ds) else int (digits_val ds)))"

text \<open>The mask \<open>(~0 << (32 - prefixLen)) >>> 0\<close>, zero for an empty prefix.\<close>

definition cidr_mask :: "nat \<Rightarrow> 32 word" where
  "cidr_mask prefixLen = (if prefixLen = 0 then 0 else push_bit (32 - prefixLen) (- 1))"

definition matchesIPEntry :: "string \<Rightarrow> string \<Rightarrow> bool" where
  "matchesIPEntry entry ip =
     (case indexOf CHR ''/'' entry 0 of
        None \<Rightarrow> entry = ip
      | Some slashIndex \<Rightarrow>
          let cidrIp = take slashIndex entry
          in (case parseInt10 (drop (Suc slashIndex) entry) of
                None \<Rightarrow> False
              | Some prefixLen \<Rightarrow>
                  if prefixLen < 0 \<or> 32 < prefixLen then False
                  else (case (parseIPv4 cidrIp, parseIPv4 ip) of
                          (Some entryNum, Some ipNum) \<Rightarrow>
                            entryNum AND cidr_mask (nat prefixLen)
                              = ipNum AND cidr_mask (nat prefixLen)
                        | _ \<Rightarrow> False)))"

definition isIPAllowed :: "string list \<Rightarrow> string \<Rightarrow> bool" where
  "isIPAllowed allowlist ip = list_ex (\<lambda>entry. matchesIPEntry entry ip) allowlist"

section \<open>Clock windows\<close>

text \<open>\<open>/^([01]\d|2[0-3]):([0-5]\d)$/\<close>, as minutes of the day.\<close>

definition parseClock :: "json \<Rightarrow> nat option" where
  "parseClock value =
     (case value of
        JStr [a, b, c, d, e] \<Rightarrow>
          if ((a = CHR ''0'' \<or> a = CHR ''1'') \<and> is_digit b
               \<or> a = CHR ''2'' \<and> is_digit b \<and> digit_val b \<le> 3)
             \<and> c = CHR '':'' \<and> is_digit d \<and> digit_val d \<le> 5 \<and> is_digit e
          then Some ((digit_val a * 10 + digit_val b) * 60 + (digit_val d * 10 + digit_val e))
          else None
      | _ \<Rightarrow> None)"

text \<open>\<open>String(n).padStart(2, "0")\<close> and the text of the current time.\<close>

definition pad2 :: "nat \<Rightarrow> string" where
  "pad2 n = (let s = nat_str n in replicate (2 - length s) CHR ''0'' @ s)"

definition clock_text :: "nat \<Rightarrow> nat \<Rightarrow> string" where
  "clock_text hours minutes = pad2 hours @ CHR '':'' # pad2 minutes"

definition inWindow :: "time_window \<Rightarrow> nat \<Rightarrow> bool" where
  "inWindow w nowMin =
     (case (parseClock (JStr (tw_start w)), parseClock (JStr (tw_end w))) of
        (Some startMin, Some endMin) \<Rightarrow>
          if startMin \<le> endMin then startMin \<le> nowMin \<and> nowMin \<le> endMin
          else startMin \<le> nowMin \<or> nowMin \<le> endMin
      | _ \<Rightarrow> False)"

section \<open>Argument patterns\<close>

text \<open>
  The regular expression engine is a parameter: \<open>compile p\<close> is the test of \<open>new RegExp(p)\<close>, or
  \<open>None\<close> when the constructor throws.
\<close>

type_synonym regex_engine = "string \<Rightarrow> (string \<Rightarrow> bool) option"

datatype arg_failure =
    InvalidPattern string
  | PatternMismatch string string string
  | NestedTooDeeply string

definition max_arg_depth :: nat where
  "max_arg_depth = 32"

definition member_path :: "string \<Rightarrow> string \<Rightarrow> string" where
  "member_path path k = (if path = [] then k else path @ CHR ''.'' # k)"

definition index_path :: "string \<Rightarrow> nat \<Rightarrow> string" where
  "index_path path i = path @ CHR ''['' # nat_str i @ '']''"

text \<open>The patterns with their tests; the first one a string fails.\<close>

fun first_mismatch :: "(string \<times> (string \<Rightarrow> bool)) list \<Rightarrow> string \<Rightarrow> string option" where
  "first_mismatch [] value = None"
| "first_mismatch ((pattern, test) # regexes) value =
     (if \<not> test value then Some pattern else first_mismatch regexes value)"

text \<open>\<open>walkArgs\<close>, with its loop over the children of an array and of an object.\<close>

fun walkArgs ::
    "(string \<times> (string \<Rightarrow> bool)) list \<Rightarrow> json \<Rightarrow> string \<Rightarrow> nat \<Rightarrow> arg_failure option"
  and walk_array ::
    "(string \<times> (string \<Rightarrow> bool)) list \<Rightarrow> json list \<Rightarrow> string \<Rightarrow> nat \<Rightarrow> nat \<Rightarrow> arg_failure option"
  and walk_object ::
    "(string \<times> (string \<Rightarrow> bool)) list \<Rightarrow> (string \<times> json) list \<Rightarrow> string \<Rightarrow> nat \<Rightarrow> arg_failure option"
where
  "walkArgs regexes (JStr value) path depth =
     map_option (PatternMismatch path value) (first_mismatch regexes value)"
| "walkArgs regexes (JArr xs) path depth =
     (if max_arg_depth \<le> depth then Some (NestedTooDeeply path)
      else walk_array regexes xs path 0 (depth + 1))"
| "walkArgs regexes (JObj kvs) path depth =
     (if max_arg_depth \<le> depth then Some (NestedTooDeeply path)
      else walk_object regexes kvs path (depth + 1))"
| "walkArgs regexes JNull path depth = None"
| "walkArgs regexes (JBool b) path depth = None"
| "walkArgs regexes (JNum n) path depth = None"
| "walk_array regexes [] path i depth = None"
| "walk_array regexes (x # xs) path i depth =
     (case walkArgs regexes x (index_path path i) depth of
        Some e \<Rightarrow> Some e
      | None \<Rightarrow> walk_array regexes xs path (Suc i) depth)"
| "walk_object regexes [] path depth = None"
| "walk_object regexes ((k, v) # kvs) path depth =
     (case walkArgs regexes v (member_path path k) depth of
        Some e \<Rightarrow> Some e
      | None \<Rightarrow> walk_object regexes kvs path depth)"

fun compile_all ::
  "regex_engine \<Rightarrow> string list \<Rightarrow> arg_failure + (string \<times> (string \<Rightarrow> bool)) list" where
  "compile_all compile [] = Inr []"
| "compile_all compile (pattern # patterns) =
     (case compile pattern of
        None \<Rightarrow> Inl (InvalidPattern pattern)
      | Some test \<Rightarrow>
          (case compile_all compile patterns of
             Inl e \<Rightarrow> Inl e
           | Inr regexes \<Rightarrow> Inr ((pattern, test) # regexes)))"

text \<open>\<open>None\<close> is \<open>{ valid: true }\<close>.\<close>

definition validateArgPatterns :: "regex_engine \<Rightarrow> string list \<Rightarrow> json \<Rightarrow> arg_failure option" where
  "validateArgPatterns compile patterns args =
     (case compile_all compile patterns of
        Inl e \<Rightarrow> Some e
      | Inr regexes \<Rightarrow> walkArgs regexes args [] 0)"

section \<open>The constraint walk\<close>

record constraint_input =
  in_subjectId :: ident
  in_resource :: string
  in_arguments :: "json option"
  in_ip :: "string option"
  in_attestation :: "attestation_facts option"

datatype constraint_failure =
    RateExceeded int int string
  | ArgsRejected arg_failure
  | NotAttested attestation_check
  | HumanNeeded
  | OutsideWindow string string
  | NoIpProvided
  | IpNotListed string

datatype step_outcome = PassO | FailO | ApprovalO

text \<open>What one block of \<open>inspectConstraints\<close> does: nothing, push a passed step, or stop.\<close>

datatype step_result = Skip | Pass | Stop constraint_failure

text \<open>The options: the local clock and, unless it is left undefined, the calls of this hour.\<close>

record inspect_options =
  io_hours :: nat
  io_minutes :: nat
  io_rateUsage :: "int option"

record constraint_inspection =
  ci_allowed :: bool
  ci_needsApproval :: bool
  ci_reason :: "constraint_failure option"
  ci_code :: "decision_code option"
  ci_steps :: "(constraint_name \<times> step_outcome) list"

definition rate_step ::
  "constraint_input \<Rightarrow> permission_constraints \<Rightarrow> inspect_options \<Rightarrow> step_result" where
  "rate_step input cs options =
     (case (pc_maxCallsPerHour cs, io_rateUsage options) of
        (Some limit, Some used) \<Rightarrow>
          if limit \<le> used then Stop (RateExceeded used limit (in_resource input)) else Pass
      | _ \<Rightarrow> Skip)"

definition args_step ::
  "regex_engine \<Rightarrow> constraint_input \<Rightarrow> permission_constraints \<Rightarrow> step_result" where
  "args_step compile input cs =
     (case (pc_allowedArgPatterns cs, in_arguments input) of
        (Some patterns, Some args) \<Rightarrow>
          (case validateArgPatterns compile patterns args of
             Some e \<Rightarrow> Stop (ArgsRejected e)
           | None \<Rightarrow> Pass)
      | _ \<Rightarrow> Skip)"

definition attestation_step :: "constraint_input \<Rightarrow> permission_constraints \<Rightarrow> step_result" where
  "attestation_step input cs =
     (case pc_attestation cs of
        None \<Rightarrow> Skip
      | Some rule \<Rightarrow>
          let check = checkAttestationConstraint (rule_json rule) (in_attestation input)
          in if check \<noteq> AttestationOk then Stop (NotAttested check) else Pass)"

definition approval_step :: "permission_constraints \<Rightarrow> step_result" where
  "approval_step cs = (if pc_requireApproval cs then Stop HumanNeeded else Skip)"

definition window_step :: "permission_constraints \<Rightarrow> inspect_options \<Rightarrow> step_result" where
  "window_step cs options =
     (case pc_timeWindow cs of
        None \<Rightarrow> Skip
      | Some w \<Rightarrow>
          if \<not> inWindow w (io_hours options * 60 + io_minutes options)
          then Stop (OutsideWindow (tw_start w) (tw_end w)) else Pass)"

definition ip_step :: "constraint_input \<Rightarrow> permission_constraints \<Rightarrow> step_result" where
  "ip_step input cs =
     (case pc_ipAllowlist cs of
        None \<Rightarrow> Skip
      | Some allowlist \<Rightarrow>
          if allowlist = [] then Skip
          else (case in_ip input of
                  None \<Rightarrow> Stop NoIpProvided
                | Some ip \<Rightarrow>
                    if ip = '''' then Stop NoIpProvided
                    else if \<not> isIPAllowed allowlist ip then Stop (IpNotListed ip) else Pass))"

text \<open>The blocks run in order; the first that stops decides.\<close>

fun run_steps ::
  "(constraint_name \<times> step_result) list \<Rightarrow> (constraint_name \<times> step_outcome) list
     \<Rightarrow> constraint_inspection" where
  "run_steps [] steps =
     \<lparr>ci_allowed = True, ci_needsApproval = False, ci_reason = None, ci_code = None,
      ci_steps = steps\<rparr>"
| "run_steps ((name, Skip) # rest) steps = run_steps rest steps"
| "run_steps ((name, Pass) # rest) steps = run_steps rest (steps @ [(name, PassO)])"
| "run_steps ((name, Stop reason) # rest) steps =
     \<lparr>ci_allowed = False, ci_needsApproval = (reason = HumanNeeded), ci_reason = Some reason,
      ci_code = Some (codeForConstraint name),
      ci_steps = steps @ [(name, if reason = HumanNeeded then ApprovalO else FailO)]\<rparr>"

definition constraint_blocks ::
  "regex_engine \<Rightarrow> constraint_input \<Rightarrow> permission_constraints \<Rightarrow> inspect_options
     \<Rightarrow> (constraint_name \<times> step_result) list" where
  "constraint_blocks compile input cs options =
     [(MaxCallsPerHour, rate_step input cs options),
      (AllowedArgPatterns, args_step compile input cs),
      (AttestationC, attestation_step input cs),
      (RequireApproval, approval_step cs),
      (TimeWindow, window_step cs options),
      (IpAllowlist, ip_step input cs)]"

definition inspectConstraints ::
  "regex_engine \<Rightarrow> constraint_input \<Rightarrow> permission_constraints \<Rightarrow> inspect_options
     \<Rightarrow> constraint_inspection" where
  "inspectConstraints compile input cs options =
     run_steps (constraint_blocks compile input cs options) []"

section \<open>The hourly limit\<close>

record constraint_result =
  cr_allowed :: bool
  cr_reason :: "constraint_failure option"
  cr_code :: "decision_code option"
  cr_needsApproval :: bool

definition allow_result :: constraint_result where
  "allow_result =
     \<lparr>cr_allowed = True, cr_reason = None, cr_code = None, cr_needsApproval = False\<rparr>"

definition five_minutes :: int where
  "five_minutes = 5 * 60 * 1000"

definition one_hour :: int where
  "one_hour = 60 * 60 * 1000"

definition checkRateLimit ::
  "rate_row list \<Rightarrow> time \<Rightarrow> ident \<Rightarrow> string \<Rightarrow> int \<Rightarrow> constraint_result \<times> rate_row list" where
  "checkRateLimit rows now agentId resource maxCallsPerHour =
     (if agentId = '''' then (allow_result, rows)
      else
        let bucket = now div five_minutes * five_minutes
        in (case rateLimits_reserve
                   \<lparr>rq_agentId = agentId, rq_resource = resource, rq_bucket = bucket,
                    rq_since = now - one_hour, rq_max = maxCallsPerHour\<rparr> rows of
              ((allowed, count), rows') \<Rightarrow>
                if \<not> allowed then
                  (\<lparr>cr_allowed = False,
                    cr_reason = Some (RateExceeded count maxCallsPerHour resource),
                    cr_code = Some RateLimited, cr_needsApproval = False\<rparr>, rows')
                else (allow_result, rows')))"

definition readRateUsage :: "rate_row list \<Rightarrow> ident \<Rightarrow> string \<Rightarrow> time \<Rightarrow> int" where
  "readRateUsage rows agentId resource now =
     (if agentId = '''' then 0 else window_total agentId resource (now - one_hour) rows)"

text \<open>
  \<open>evaluateConstraints\<close> reads the clock twice: \<open>now\<close> is the reading of the rate limit, \<open>hours\<close>
  and \<open>minutes\<close> the local time of the later one.
\<close>

definition evaluateConstraints ::
  "regex_engine \<Rightarrow> rate_row list \<Rightarrow> time \<Rightarrow> nat \<Rightarrow> nat \<Rightarrow> constraint_input
     \<Rightarrow> permission_constraints \<Rightarrow> constraint_result \<times> rate_row list" where
  "evaluateConstraints compile rows now hours minutes input cs =
     (let (rateResult, rows') =
            (case pc_maxCallsPerHour cs of
               None \<Rightarrow> (allow_result, rows)
             | Some limit \<Rightarrow>
                 checkRateLimit rows now (in_subjectId input) (in_resource input) limit)
      in if \<not> cr_allowed rateResult then (rateResult, rows')
         else
           let inspection =
                 inspectConstraints compile input cs
                   \<lparr>io_hours = hours, io_minutes = minutes, io_rateUsage = None\<rparr>
           in if ci_allowed inspection then (allow_result, rows')
              else (\<lparr>cr_allowed = False, cr_reason = ci_reason inspection,
                     cr_code = ci_code inspection,
                     cr_needsApproval = ci_needsApproval inspection\<rparr>, rows'))"

definition isCacheUnsafe :: "permission_constraints option \<Rightarrow> bool" where
  "isCacheUnsafe constraints =
     (case constraints of
        None \<Rightarrow> False
      | Some cs \<Rightarrow>
          pc_maxCallsPerHour cs \<noteq> None \<or> pc_timeWindow cs \<noteq> None \<or> pc_attestation cs \<noteq> None
          \<or> (case pc_allowedArgPatterns cs of None \<Rightarrow> False | Some ps \<Rightarrow> 0 < length ps))"

section \<open>Lemmas\<close>

lemma findMatchingPermission_SomeD:
  "findMatchingPermission ps action resource mode = Some (p, i) \<Longrightarrow>
   i < length ps \<and> p = ps ! i \<and> grants mode action resource p
   \<and> (\<forall>j<i. \<not> grants mode action resource (ps ! j))"
  by (auto simp: findMatchingPermission_def split: option.splits dest: find_index_SomeD)

lemma findMatchingPermission_None_iff:
  "findMatchingPermission ps action resource mode = None \<longleftrightarrow>
   (\<forall>p\<in>set ps. \<not> grants mode action resource p)"
  by (simp add: findMatchingPermission_def find_index_None_iff [symmetric] split: option.splits)

subsection \<open>Addresses\<close>

lemma mask_eq_iff:
  fixes x y :: "32 word"
  assumes "n \<le> 32"
  shows "x AND cidr_mask n = y AND cidr_mask n \<longleftrightarrow> drop_bit (32 - n) x = drop_bit (32 - n) y"
proof (cases "n = 0")
  case True
  have "drop_bit 32 z = 0" for z :: "32 word"
    by (rule bit_word_eqI) (simp add: bit_drop_bit_eq bit_imp_le_length)
  with True show ?thesis by (simp add: cidr_mask_def)
next
  case False
  have bits: "bit (cidr_mask n) k \<longleftrightarrow> 32 - n \<le> k \<and> k < 32" for k
    using False by (auto simp: cidr_mask_def bit_not_iff bit_mask_iff)
  show ?thesis
  proof
    assume h: "x AND cidr_mask n = y AND cidr_mask n"
    show "drop_bit (32 - n) x = drop_bit (32 - n) y"
    proof (rule bit_word_eqI)
      fix k assume "k < LENGTH(32)"
      have "bit (x AND cidr_mask n) (32 - n + k) = bit (y AND cidr_mask n) (32 - n + k)"
        using h by simp
      then show "bit (drop_bit (32 - n) x) k = bit (drop_bit (32 - n) y) k"
        by (auto simp: bit_and_iff bits bit_drop_bit_eq dest: bit_imp_le_length)
    qed
  next
    assume h: "drop_bit (32 - n) x = drop_bit (32 - n) y"
    show "x AND cidr_mask n = y AND cidr_mask n"
    proof (rule bit_word_eqI)
      fix k assume "k < LENGTH(32)"
      have "bit (drop_bit (32 - n) x) (k - (32 - n)) = bit (drop_bit (32 - n) y) (k - (32 - n))"
        using h by simp
      then show "bit (x AND cidr_mask n) k = bit (y AND cidr_mask n) k"
        by (auto simp: bit_and_iff bits bit_drop_bit_eq)
    qed
  qed
qed

text \<open>
  A CIDR entry selects exactly the addresses that agree with it on the first \<open>n\<close> bits.
  An entry \<open>a/n\<close> with a readable address and a prefix length from 0 to 32 matches an address
  exactly when the two 32 bit numbers are equal after their last \<open>32 - n\<close> bits are dropped.
\<close>

theorem matchesIPEntry_cidr:
  assumes "CHR ''/'' \<notin> set a" and "parseInt10 len = Some (int n)" and "n \<le> 32"
    and "parseIPv4 a = Some e" and "parseIPv4 ip = Some i"
  shows "matchesIPEntry (a @ CHR ''/'' # len) ip \<longleftrightarrow> drop_bit (32 - n) e = drop_bit (32 - n) i"
proof -
  have tw: "takeWhile (\<lambda>x. x \<noteq> CHR ''/'') (a @ CHR ''/'' # len) = a"
    using assms(1) by (induction a) auto
  have "indexOf CHR ''/'' (a @ CHR ''/'' # len) 0 = Some (length a)"
    by (simp add: indexOf_takeWhile tw Let_def)
  then show ?thesis
    using assms(2-5) mask_eq_iff [of n e i] by (simp add: matchesIPEntry_def)
qed

lemma digits_val_simps [simp]:
  "digits_val [] = 0" "digits_val [c] = digit_val c"
  "digits_val [c, d] = digit_val c * 10 + digit_val d"
  "digits_val [c, d, e] = (digit_val c * 10 + digit_val d) * 10 + digit_val e"
  by (simp_all add: digits_val_def)

theorem matchesIPEntry_cidr_witness:
  "matchesIPEntry ''10.1.0.0/16'' ''10.1.7.9''"
proof -
  have "parseIPv4 ''10.1.0.0'' = Some 167837696" "parseIPv4 ''10.1.7.9'' = Some 167839497"
    by (simp_all add: parseIPv4_def parse_octet_def is_digit_def digit_val_def)
  moreover have "parseInt10 ''16'' = Some (int 16)"
    by (simp add: parseInt10_def is_space_def is_digit_def digit_val_def)
  ultimately show ?thesis
    using matchesIPEntry_cidr [of "''10.1.0.0''" "''16''" 16 167837696 "''10.1.7.9''" 167839497]
    by (simp add: drop_bit_eq_div)
qed

text \<open>An unreadable address or a prefix length out of range matches nothing.\<close>

lemma matchesIPEntry_unreadable:
  "indexOf CHR ''/'' entry 0 \<noteq> None \<Longrightarrow> parseIPv4 ip = None \<Longrightarrow> \<not> matchesIPEntry entry ip"
  by (auto simp: matchesIPEntry_def split: option.splits)

subsection \<open>Clocks\<close>

lemma parseClock_bound: "parseClock v = Some m \<Longrightarrow> m < 1440"
  by (auto simp: parseClock_def is_digit_def digit_val_def split: json.splits list.splits if_splits)

lemma nat_str_digit: "n < 10 \<Longrightarrow> nat_str n = [digit_char n]"
  by (simp add: nat_str.simps [of n])

lemma nat_str_two: "10 \<le> n \<Longrightarrow> n < 100 \<Longrightarrow> nat_str n = [digit_char (n div 10), digit_char (n mod 10)]"
  by (simp add: nat_str.simps [of n] nat_str_digit)

lemma char_of_digits:
  "char_of (48 :: nat) = CHR ''0''" "char_of (49 :: nat) = CHR ''1''" "char_of (50 :: nat) = CHR ''2''"
  using char_of_char [where 'a = nat, of "CHR ''0''"] char_of_char [where 'a = nat, of "CHR ''1''"]
    char_of_char [where 'a = nat, of "CHR ''2''"]
  by simp_all

lemma pad2_digits: "n < 100 \<Longrightarrow> pad2 n = [digit_char (n div 10), digit_char (n mod 10)]"
  by (cases "n < 10") (simp_all add: pad2_def nat_str_digit nat_str_two digit_char_def char_of_digits)

lemma digit_char_eqs:
  "d < 10 \<Longrightarrow> digit_char d = CHR ''0'' \<longleftrightarrow> d = 0"
  "d < 10 \<Longrightarrow> digit_char d = CHR ''1'' \<longleftrightarrow> d = 1"
  "d < 10 \<Longrightarrow> digit_char d = CHR ''2'' \<longleftrightarrow> d = 2"
  by (auto simp: digit_char_def char_of_digits
      dest: arg_cong [of _ _ "of_char :: char \<Rightarrow> nat"])

text \<open>
  The clock text the walk prints for the current time reads back as that time. For every
  hour and minute of a day, \<open>parseClock\<close> of the padded text is the minute of the day the window
  test compares with.
\<close>

theorem parseClock_clock_text:
  assumes "h < 24" and "m < 60"
  shows "parseClock (JStr (clock_text h m)) = Some (h * 60 + m)"
proof -
  have "h div 10 < 3" "m div 10 < 6" using assms by auto
  then have d: "h div 10 < 10" "h mod 10 < 10" "m div 10 < 10" "m mod 10 < 10"
    by (auto intro: less_trans)
  have h: "h div 10 = 2 \<Longrightarrow> h mod 10 \<le> 3" using assms(1) by presburger
  have split: "(h div 10 * 10 + h mod 10) * 60 + (m div 10 * 10 + m mod 10) = h * 60 + m"
    by simp
  have "h div 10 = 0 \<or> h div 10 = 1 \<or> h div 10 = 2 \<and> h mod 10 \<le> 3"
    using \<open>h div 10 < 3\<close> h by auto
  then show ?thesis
    using assms d \<open>m div 10 < 6\<close> split
    by (auto simp: clock_text_def pad2_digits parseClock_def digit_char_eqs)
qed

theorem parseClock_clock_text_witness: "parseClock (JStr (clock_text 22 5)) = Some 1325"
  using parseClock_clock_text [of 22 5] by simp

subsection \<open>Argument patterns\<close>

text \<open>How deep a value is nested, and the strings in it.\<close>

fun nesting :: "json \<Rightarrow> nat" where
  "nesting (JArr xs) = Suc (fold max (map nesting xs) 0)"
| "nesting (JObj kvs) = Suc (fold max (map (\<lambda>kv. nesting (snd kv)) kvs) 0)"
| "nesting _ = 0"

fun leaves :: "json \<Rightarrow> string list" where
  "leaves (JStr s) = [s]"
| "leaves (JArr xs) = concat (map leaves xs)"
| "leaves (JObj kvs) = concat (map (\<lambda>kv. leaves (snd kv)) kvs)"
| "leaves _ = []"

lemma fold_max_le: "fold max ns (a :: nat) \<le> b \<longleftrightarrow> a \<le> b \<and> (\<forall>n\<in>set ns. n \<le> b)"
  by (induction ns arbitrary: a) auto

lemma depth_step:
  "d < k \<Longrightarrow> Suc (fold max ns 0) \<le> k - d \<longleftrightarrow> (\<forall>n\<in>set ns. n \<le> k - Suc d)"
proof -
  assume "d < k"
  then have "Suc (fold max ns 0) \<le> k - d \<longleftrightarrow> fold max ns 0 \<le> k - Suc d" by linarith
  then show ?thesis by (simp add: fold_max_le)
qed

lemma first_mismatch_None: "first_mismatch regexes s = None \<longleftrightarrow> (\<forall>(p, t)\<in>set regexes. t s)"
  by (induction regexes s rule: first_mismatch.induct) auto

lemma walkArgs_None_iff:
  "walkArgs regexes v path d = None \<longleftrightarrow>
     nesting v \<le> max_arg_depth - d \<and> (\<forall>s\<in>set (leaves v). first_mismatch regexes s = None)"
  "walk_array regexes xs path i d = None \<longleftrightarrow>
     (\<forall>v\<in>set xs. nesting v \<le> max_arg_depth - d
        \<and> (\<forall>s\<in>set (leaves v). first_mismatch regexes s = None))"
  "walk_object regexes kvs path d = None \<longleftrightarrow>
     (\<forall>kv\<in>set kvs. nesting (snd kv) \<le> max_arg_depth - d
        \<and> (\<forall>s\<in>set (leaves (snd kv)). first_mismatch regexes s = None))"
proof (induction regexes v path d and regexes xs path i d and regexes kvs path d
    rule: walkArgs_walk_array_walk_object.induct)
  case (2 regexes xs path depth)
  then show ?case by (cases "max_arg_depth \<le> depth") (simp_all add: depth_step, auto)
next
  case (3 regexes kvs path depth)
  then show ?case by (cases "max_arg_depth \<le> depth") (simp_all add: depth_step, auto)
next
  case (8 regexes x xs path i depth)
  then show ?case by (cases "walkArgs regexes x (index_path path i) depth") auto
next
  case (10 regexes k v kvs path depth)
  then show ?case by (cases "walkArgs regexes v (member_path path k) depth") auto
qed auto

lemma compile_all_Inr:
  "compile_all compile ps = Inr regexes \<Longrightarrow> map fst regexes = ps \<and> (\<forall>(p, t)\<in>set regexes. compile p = Some t)"
  by (induction ps arbitrary: regexes) (auto split: option.splits sum.splits)

lemma compile_all_Inl:
  "compile_all compile ps = Inl e \<Longrightarrow> \<exists>p\<in>set ps. compile p = None"
  by (induction ps) (auto split: option.splits sum.splits)

text \<open>
  Patterns are conjunctive over every string. The arguments are valid exactly when every
  pattern compiles, no value is nested deeper than 32 containers, and every string anywhere in
  the arguments passes every pattern. An invalid pattern or too deep a nesting fails closed.
\<close>

theorem validateArgPatterns_iff:
  "validateArgPatterns compile patterns args = None \<longleftrightarrow>
     (\<forall>p\<in>set patterns. compile p \<noteq> None) \<and> nesting args \<le> 32
     \<and> (\<forall>s\<in>set (leaves args). \<forall>p\<in>set patterns. \<forall>t. compile p = Some t \<longrightarrow> t s)"
proof (cases "compile_all compile patterns")
  case (Inl e)
  then show ?thesis by (auto simp: validateArgPatterns_def dest: compile_all_Inl)
next
  case (Inr regexes)
  note c = compile_all_Inr [OF Inr]
  then have ps: "set patterns = fst ` set regexes" by (metis list.set_map)
  have "(\<forall>(p, t)\<in>set regexes. t s) \<longleftrightarrow> (\<forall>p\<in>set patterns. \<forall>t. compile p = Some t \<longrightarrow> t s)" for s
    using c unfolding ps by fastforce
  moreover have "\<forall>p\<in>set patterns. compile p \<noteq> None"
    using c unfolding ps by fastforce
  ultimately show ?thesis
    using Inr by (simp add: validateArgPatterns_def walkArgs_None_iff first_mismatch_None
        max_arg_depth_def)
qed

theorem validateArgPatterns_witness:
  "validateArgPatterns (\<lambda>p. Some (starts_with p)) [''re'']
     (JObj [(''path'', JStr ''report''), (''n'', JNum 1)]) = None"
  by (subst validateArgPatterns_iff) simp

subsection \<open>The walk\<close>

lemma run_steps_allowed:
  "ci_allowed (run_steps blocks steps) \<longleftrightarrow> (\<forall>(n, r)\<in>set blocks. \<forall>f. r \<noteq> Stop f)"
  by (induction blocks steps rule: run_steps.induct) auto

lemma run_steps_acc:
  "ci_needsApproval (run_steps blocks steps) = ci_needsApproval (run_steps blocks [])"
  "ci_code (run_steps blocks steps) = ci_code (run_steps blocks [])"
proof (induction blocks arbitrary: steps)
  case (Cons b blocks)
  obtain n r where b: "b = (n, r)" by (cases b)
  case 1
  show ?case using Cons [of steps] Cons [of "steps @ [(n, PassO)]"] Cons [of "[(n, PassO)]"]
    by (cases r) (simp_all add: b)
  case 2
  show ?case using Cons [of steps] Cons [of "steps @ [(n, PassO)]"] Cons [of "[(n, PassO)]"]
    by (cases r) (simp_all add: b)
qed simp_all

lemma needs_Cons:
  "ci_needsApproval (run_steps ((n, r) # rest) steps) \<longleftrightarrow>
     r = Stop HumanNeeded \<or> (\<forall>f. r \<noteq> Stop f) \<and> ci_needsApproval (run_steps rest [])"
  using run_steps_acc(1) [of rest steps] run_steps_acc(1) [of rest "steps @ [(n, PassO)]"]
  by (cases r) auto

lemma code_Cons:
  "\<forall>f. r \<noteq> Stop f \<Longrightarrow> ci_code (run_steps ((n, r) # rest) steps) = ci_code (run_steps rest [])"
  using run_steps_acc(2) [of rest steps] run_steps_acc(2) [of rest "steps @ [(n, PassO)]"]
  by (cases r) auto

text \<open>What each constraint demands of a call.\<close>

definition rate_ok :: "permission_constraints \<Rightarrow> int option \<Rightarrow> bool" where
  "rate_ok cs usage \<longleftrightarrow>
     (\<forall>limit used. pc_maxCallsPerHour cs = Some limit \<longrightarrow> usage = Some used \<longrightarrow> used < limit)"

definition args_ok :: "regex_engine \<Rightarrow> permission_constraints \<Rightarrow> json option \<Rightarrow> bool" where
  "args_ok compile cs args \<longleftrightarrow>
     (\<forall>ps a. pc_allowedArgPatterns cs = Some ps \<longrightarrow> args = Some a \<longrightarrow>
        validateArgPatterns compile ps a = None)"

definition attestation_ok :: "permission_constraints \<Rightarrow> attestation_facts option \<Rightarrow> bool" where
  "attestation_ok cs facts \<longleftrightarrow>
     (\<forall>rule. pc_attestation cs = Some rule \<longrightarrow>
        checkAttestationConstraint (rule_json rule) facts = AttestationOk)"

definition window_ok :: "permission_constraints \<Rightarrow> nat \<Rightarrow> bool" where
  "window_ok cs nowMin \<longleftrightarrow> (\<forall>w. pc_timeWindow cs = Some w \<longrightarrow> inWindow w nowMin)"

definition ip_ok :: "permission_constraints \<Rightarrow> string option \<Rightarrow> bool" where
  "ip_ok cs ip \<longleftrightarrow>
     (\<forall>allowlist. pc_ipAllowlist cs = Some allowlist \<longrightarrow> allowlist \<noteq> [] \<longrightarrow>
        (\<exists>a. ip = Some a \<and> a \<noteq> '''' \<and> isIPAllowed allowlist a))"

lemma step_stops:
  "(\<forall>f. rate_step input cs options \<noteq> Stop f) \<longleftrightarrow> rate_ok cs (io_rateUsage options)"
  "(\<forall>f. args_step compile input cs \<noteq> Stop f) \<longleftrightarrow> args_ok compile cs (in_arguments input)"
  "(\<forall>f. attestation_step input cs \<noteq> Stop f) \<longleftrightarrow> attestation_ok cs (in_attestation input)"
  "(\<forall>f. approval_step cs \<noteq> Stop f) \<longleftrightarrow> \<not> pc_requireApproval cs"
  "(\<forall>f. window_step cs options \<noteq> Stop f)
     \<longleftrightarrow> window_ok cs (io_hours options * 60 + io_minutes options)"
  "(\<forall>f. ip_step input cs \<noteq> Stop f) \<longleftrightarrow> ip_ok cs (in_ip input)"
       apply (auto simp: rate_step_def rate_ok_def split: option.splits if_splits) [1]
      apply (auto simp: args_step_def args_ok_def split: option.splits) [1]
     apply (auto simp: attestation_step_def attestation_ok_def Let_def split: option.splits) [1]
    apply (simp add: approval_step_def)
   apply (auto simp: window_step_def window_ok_def split: option.splits) [1]
  apply (auto simp: ip_step_def ip_ok_def split: option.splits) [1]
  done

lemma inspect_allowed_iff:
  "ci_allowed (inspectConstraints compile input cs options) \<longleftrightarrow>
     rate_ok cs (io_rateUsage options)
     \<and> args_ok compile cs (in_arguments input)
     \<and> attestation_ok cs (in_attestation input)
     \<and> \<not> pc_requireApproval cs
     \<and> window_ok cs (io_hours options * 60 + io_minutes options)
     \<and> ip_ok cs (in_ip input)"
  by (simp add: inspectConstraints_def run_steps_allowed constraint_blocks_def step_stops)

text \<open>
  C25: the walk allows a call exactly when every configured constraint holds, and in particular
  never while an approval is required.
\<close>

theorem inspectConstraints_allowed_iff:
  "ci_allowed (inspectConstraints compile input cs options) \<longleftrightarrow>
     rate_ok cs (io_rateUsage options)
     \<and> args_ok compile cs (in_arguments input)
     \<and> attestation_ok cs (in_attestation input)
     \<and> \<not> pc_requireApproval cs
     \<and> window_ok cs (io_hours options * 60 + io_minutes options)
     \<and> ip_ok cs (in_ip input)"
  by (rule inspect_allowed_iff)

lemma only_approval_asks:
  "rate_step input cs options \<noteq> Stop HumanNeeded" "args_step compile input cs \<noteq> Stop HumanNeeded"
  "attestation_step input cs \<noteq> Stop HumanNeeded" "window_step cs options \<noteq> Stop HumanNeeded"
  "ip_step input cs \<noteq> Stop HumanNeeded"
  by (auto simp: rate_step_def args_step_def attestation_step_def window_step_def ip_step_def Let_def
      split: option.splits)

lemma needs_approval_facts:
  assumes "ci_needsApproval (inspectConstraints compile input cs options)"
  shows "pc_requireApproval cs \<and> rate_ok cs (io_rateUsage options)
    \<and> args_ok compile cs (in_arguments input) \<and> attestation_ok cs (in_attestation input)
    \<and> ci_code (inspectConstraints compile input cs options) = Some ApprovalRequired"
proof -
  have nostop: "rate_ok cs (io_rateUsage options)" "args_ok compile cs (in_arguments input)"
    "attestation_ok cs (in_attestation input)" and req: "approval_step cs = Stop HumanNeeded"
    using assms only_approval_asks
    by (auto simp: inspectConstraints_def constraint_blocks_def needs_Cons step_stops)
  then show ?thesis
    by (auto simp: inspectConstraints_def constraint_blocks_def code_Cons step_stops
        approval_step_def split: if_splits)
qed

text \<open>
  A human is asked only for what could go through. When the walk reports that an approval is
  needed, the constraint asks for it, and the rate, argument and attestation constraints have
  passed already.
\<close>

theorem inspectConstraints_needsApproval:
  assumes "ci_needsApproval (inspectConstraints compile input cs options)"
  shows "pc_requireApproval cs \<and> rate_ok cs (io_rateUsage options)
    \<and> args_ok compile cs (in_arguments input) \<and> attestation_ok cs (in_attestation input)
    \<and> ci_code (inspectConstraints compile input cs options) = Some ApprovalRequired"
  using assms by (rule needs_approval_facts)

theorem inspectConstraints_needsApproval_witness:
  "ci_code (inspectConstraints (\<lambda>_. None)
      \<lparr>in_subjectId = ''a'', in_resource = ''r'', in_arguments = None, in_ip = None,
       in_attestation = None\<rparr>
      (no_constraints\<lparr>pc_requireApproval := True\<rparr>)
      \<lparr>io_hours = 1, io_minutes = 2, io_rateUsage = None\<rparr>) = Some ApprovalRequired"
  using inspectConstraints_needsApproval
    [of "\<lambda>_. None" "\<lparr>in_subjectId = ''a'', in_resource = ''r'', in_arguments = None, in_ip = None,
       in_attestation = None\<rparr>" "no_constraints\<lparr>pc_requireApproval := True\<rparr>"
       "\<lparr>io_hours = 1, io_minutes = 2, io_rateUsage = None\<rparr>"]
  by (simp add: inspectConstraints_def constraint_blocks_def rate_step_def args_step_def
      attestation_step_def approval_step_def no_constraints_def)

text \<open>
  A decision that may be cached does not depend on what the cache key leaves out. When
  \<open>isCacheUnsafe\<close> is false, the walk gives the same answer for any time, any recorded calls, any
  arguments and any attestation facts, as long as the address is the same. The empty pattern
  list is left out: there the depth check alone still depends on the arguments.
\<close>

theorem isCacheUnsafe_sound:
  assumes "\<not> isCacheUnsafe (Some cs)" and "pc_allowedArgPatterns cs \<noteq> Some []"
    and "in_ip i1 = in_ip i2"
  shows "ci_allowed (inspectConstraints compile i1 cs o1)
    = ci_allowed (inspectConstraints compile i2 cs o2)"
  using assms
  by (cases "pc_allowedArgPatterns cs")
    (auto simp: inspect_allowed_iff isCacheUnsafe_def rate_ok_def args_ok_def
      attestation_ok_def window_ok_def)

theorem isCacheUnsafe_sound_witness:
  "ci_allowed (inspectConstraints (\<lambda>_. None)
      \<lparr>in_subjectId = ''a'', in_resource = ''r'', in_arguments = None, in_ip = None,
       in_attestation = None\<rparr> no_constraints \<lparr>io_hours = 1, io_minutes = 2, io_rateUsage = None\<rparr>)
   = ci_allowed (inspectConstraints (\<lambda>_. None)
      \<lparr>in_subjectId = ''b'', in_resource = ''r'', in_arguments = Some (JStr ''x''), in_ip = None,
       in_attestation = None\<rparr> no_constraints \<lparr>io_hours = 9, io_minutes = 0, io_rateUsage = Some 7\<rparr>)"
  by (rule isCacheUnsafe_sound) (simp_all add: no_constraints_def isCacheUnsafe_def)

section \<open>The hourly limit is exact\<close>

lemma bucket_facts:
  "1000 dvd now div five_minutes * five_minutes" "now - one_hour \<le> now div five_minutes * five_minutes"
proof -
  show "1000 dvd now div five_minutes * five_minutes" by (simp add: five_minutes_def)
  have "now = now div five_minutes * five_minutes + now mod five_minutes" by simp
  moreover have "now mod five_minutes < five_minutes" by (simp add: five_minutes_def)
  ultimately show "now - one_hour \<le> now div five_minutes * five_minutes"
    by (simp add: five_minutes_def one_hour_def)
qed

lemma checkRateLimit_counts:
  assumes t: "rate_table rows" and c: "CHR '':'' \<notin> set a" and "a \<noteq> ''''"
    and e: "checkRateLimit rows now a res limit = (r, rows')"
  shows "(cr_allowed r \<longleftrightarrow> readRateUsage rows a res now < limit)
    \<and> (\<not> cr_allowed r \<longrightarrow> cr_code r = Some RateLimited)
    \<and> readRateUsage rows' a res now = readRateUsage rows a res now + (if cr_allowed r then 1 else 0)
    \<and> rate_table rows'"
proof -
  let ?q = "\<lparr>rq_agentId = a, rq_resource = res, rq_bucket = now div five_minutes * five_minutes,
             rq_since = now - one_hour, rq_max = limit\<rparr>"
  obtain ok n rs where r: "rateLimits_reserve ?q rows = ((ok, n), rs)" by (metis prod.collapse)
  have "(ok \<longleftrightarrow> window_total a res (now - one_hour) rows < limit)
      \<and> n = window_total a res (now - one_hour) rows + (if ok then 1 else 0)
      \<and> window_total a res (now - one_hour) rs = n \<and> rate_table rs"
    using rateLimits_reserve_counts [OF t _ _ _ r] c bucket_facts [of now] by simp
  moreover have "r = (if ok then allow_result else
      \<lparr>cr_allowed = False, cr_reason = Some (RateExceeded n limit res),
       cr_code = Some RateLimited, cr_needsApproval = False\<rparr>)" "rows' = rs"
    using e r assms(3) by (auto simp: checkRateLimit_def Let_def split: if_splits)
  ultimately show ?thesis
    using assms(3) by (auto simp: readRateUsage_def allow_result_def)
qed

text \<open>
  A permission with an hourly limit. An allowed call was below the limit and is recorded,
  exactly once; at the limit the call is denied with \<open>rate_limited\<close> and nothing is recorded.
\<close>

theorem evaluateConstraints_rate:
  assumes "rate_table rows" and "CHR '':'' \<notin> set (in_subjectId input)" and "in_subjectId input \<noteq> ''''"
    and "pc_maxCallsPerHour cs = Some limit"
    and "evaluateConstraints compile rows now h m input cs = (r, rows')"
  shows "(cr_allowed r \<longrightarrow>
           readRateUsage rows (in_subjectId input) (in_resource input) now < limit
           \<and> readRateUsage rows' (in_subjectId input) (in_resource input) now
              = readRateUsage rows (in_subjectId input) (in_resource input) now + 1)
    \<and> (limit \<le> readRateUsage rows (in_subjectId input) (in_resource input) now \<longrightarrow>
           \<not> cr_allowed r \<and> cr_code r = Some RateLimited
           \<and> readRateUsage rows' (in_subjectId input) (in_resource input) now
              = readRateUsage rows (in_subjectId input) (in_resource input) now)
    \<and> rate_table rows'"
proof -
  obtain rr rs where c: "checkRateLimit rows now (in_subjectId input) (in_resource input) limit = (rr, rs)"
    by (metis prod.collapse)
  note counts = checkRateLimit_counts [OF assms(1-3) c]
  show ?thesis
  proof (cases "cr_allowed rr")
    case True
    with assms(4,5) c have "rows' = rs"
      by (auto simp: evaluateConstraints_def Let_def split: if_splits)
    with True counts show ?thesis by auto
  next
    case False
    with assms(4,5) c have "r = rr \<and> rows' = rs" by (simp add: evaluateConstraints_def)
    with False counts show ?thesis by auto
  qed
qed

theorem evaluateConstraints_rate_witness:
  "\<not> cr_allowed (fst (evaluateConstraints (\<lambda>_. None) [] 900000 1 2
      \<lparr>in_subjectId = ''a'', in_resource = ''r'', in_arguments = None, in_ip = None,
       in_attestation = None\<rparr> (no_constraints\<lparr>pc_maxCallsPerHour := Some 0\<rparr>)))"
proof -
  let ?i = "\<lparr>in_subjectId = ''a'', in_resource = ''r'', in_arguments = None, in_ip = None,
       in_attestation = None\<rparr>"
  let ?c = "no_constraints\<lparr>pc_maxCallsPerHour := Some 0\<rparr>"
  obtain r rs where e: "evaluateConstraints (\<lambda>_. None) [] 900000 1 2 ?i ?c = (r, rs)"
    by (metis prod.collapse)
  have "rate_table []" by (simp add: rate_table_def)
  from evaluateConstraints_rate [OF this _ _ _ e, of 0]
  have "\<not> cr_allowed r" by (simp add: readRateUsage_def)
  with e show ?thesis by simp
qed

end
