(* ===== verification/AuthContext.thy ===== *)
theory AuthContext
  imports Abac "HOL-Library.List_Lexorder" "HOL-Library.Char_ord"
begin

text \<open>
  The authentication context of a session, \<open>session/auth-context.ts\<close>: events that prove who the
  user is, the class and methods they add up to, the decision whether an assertion meets a
  requirement (RFC 9470), and the challenge sent when it does not.
\<close>

section \<open>Methods and classes\<close>

datatype auth_method = Password | Totp | Otp | Passkey | PasskeyPresence | Federated

datatype factor = Knowledge | Possession | FederatedF

fun method_name :: "auth_method \<Rightarrow> string" where
  "method_name Password = ''password''"
| "method_name Totp = ''totp''"
| "method_name Otp = ''otp''"
| "method_name Passkey = ''passkey''"
| "method_name PasskeyPresence = ''passkey_presence''"
| "method_name Federated = ''federated''"

record auth_event =
  ev_method :: auth_method
  ev_at :: int
  ev_idpAmr :: "string list option"

record method_traits =
  tr_amr :: "string list"
  tr_factor :: factor
  tr_tier :: nat
  tr_multi :: bool

fun traits :: "auth_method \<Rightarrow> method_traits" where
  "traits Password = \<lparr>tr_amr = [''pwd''], tr_factor = Knowledge, tr_tier = 1, tr_multi = False\<rparr>"
| "traits Otp = \<lparr>tr_amr = [''otp''], tr_factor = Possession, tr_tier = 1, tr_multi = False\<rparr>"
| "traits Totp = \<lparr>tr_amr = [''otp''], tr_factor = Possession, tr_tier = 2, tr_multi = False\<rparr>"
| "traits PasskeyPresence =
     \<lparr>tr_amr = [''swk'', ''user''], tr_factor = Possession, tr_tier = 1, tr_multi = False\<rparr>"
| "traits Passkey =
     \<lparr>tr_amr = [''swk'', ''user''], tr_factor = Possession, tr_tier = 3, tr_multi = True\<rparr>"
| "traits Federated =
     \<lparr>tr_amr = [''fed''], tr_factor = FederatedF, tr_tier = 1, tr_multi = False\<rparr>"

definition acr_order :: "string list" where
  "acr_order =
     [''urn:theauth:acr:none'', ''urn:theauth:acr:single-factor'', ''urn:theauth:acr:mfa'',
      ''urn:theauth:acr:phishing-resistant'']"

definition idp_amr_allowed :: "string list" where
  "idp_amr_allowed =
     [''face'', ''fpt'', ''geo'', ''hwk'', ''iris'', ''kba'', ''mca'', ''otp'', ''pin'', ''pwd'', ''rba'',
      ''retina'', ''sc'', ''sms'', ''swk'', ''tel'', ''user'', ''vbm'', ''wia'']"

definition max_idp_amr :: nat where
  "max_idp_amr = 8"

definition max_events :: nat where
  "max_events = 8"

section \<open>Events\<close>

text \<open>\<open>set.add(x)\<close> on a set kept in insertion order.\<close>

definition set_add :: "'a \<Rightarrow> 'a list \<Rightarrow> 'a list" where
  "set_add x xs = (if x \<in> set xs then xs else xs @ [x])"

fun idp_loop :: "json list \<Rightarrow> string list \<Rightarrow> string list" where
  "idp_loop [] out = out"
| "idp_loop (value # raw) out =
     (let out' = (case value of
                    JStr s \<Rightarrow> (if s \<in> set idp_amr_allowed then set_add s out else out)
                  | _ \<Rightarrow> out)
      in if max_idp_amr \<le> length out' then out' else idp_loop raw out')"

definition sanitizeIdpAmr :: "json option \<Rightarrow> string list" where
  "sanitizeIdpAmr raw = (case raw of Some (JArr xs) \<Rightarrow> sort (idp_loop xs []) | _ \<Rightarrow> [])"

definition authMethodsForSignIn :: "string \<Rightarrow> auth_method list" where
  "authMethodsForSignIn signIn =
     (if signIn = ''password'' then [Password]
      else if signIn \<in> {''magic_link'', ''email_otp'', ''phone''} then [Otp]
      else if signIn = ''passkey'' then [PasskeyPresence]
      else if signIn = ''social'' then [Federated]
      else [])"

definition method_of :: "json option \<Rightarrow> auth_method option" where
  "method_of v =
     (case v of
        Some (JStr s) \<Rightarrow>
          List.find (\<lambda>m. method_name m = s)
            [Password, Otp, Totp, PasskeyPresence, Passkey, Federated]
      | _ \<Rightarrow> None)"

definition isAuthMethod :: "json option \<Rightarrow> bool" where
  "isAuthMethod v \<longleftrightarrow> method_of v \<noteq> None"

text \<open>A well formed item, read as an event.\<close>

definition read_event :: "json \<Rightarrow> auth_event option" where
  "read_event item =
     (case item of
        JObj o' \<Rightarrow>
          (case (method_of (map_of o' ''method''), map_of o' ''at'') of
             (Some m, Some (JNum at)) \<Rightarrow>
               let amr = (if m = Federated then sanitizeIdpAmr (map_of o' ''idpAmr'') else [])
               in Some \<lparr>ev_method = m, ev_at = at, ev_idpAmr = nonempty amr\<rparr>
           | _ \<Rightarrow> None)
      | _ \<Rightarrow> None)"

text \<open>\<open>latest\<close>, a map in insertion order: an item replaces the one of its method only if newer.\<close>

fun latest_add :: "auth_event \<Rightarrow> auth_event list \<Rightarrow> auth_event list" where
  "latest_add e [] = [e]"
| "latest_add e (x # xs) =
     (if ev_method x = ev_method e then (if ev_at e \<le> ev_at x then x else e) # xs
      else x # latest_add e xs)"

definition latest_events :: "json list \<Rightarrow> auth_event list" where
  "latest_events items =
     foldl (\<lambda>latest item. case read_event item of None \<Rightarrow> latest | Some e \<Rightarrow> latest_add e latest)
       [] items"

definition normalizeEvents :: "json \<Rightarrow> auth_event list" where
  "normalizeEvents raw =
     (case raw of
        JArr items \<Rightarrow> take max_events (sort_key (\<lambda>e. - ev_at e) (latest_events items))
      | _ \<Rightarrow> [])"

definition event_json :: "auth_event \<Rightarrow> json" where
  "event_json e =
     JObj ([(''method'', JStr (method_name (ev_method e))), (''at'', JNum (ev_at e))]
       @ (case ev_idpAmr e of None \<Rightarrow> [] | Some amr \<Rightarrow> [(''idpAmr'', JArr (map JStr amr))]))"

definition recordAuthEvent ::
  "auth_event list \<Rightarrow> auth_method \<Rightarrow> int \<Rightarrow> string list option \<Rightarrow> auth_event list" where
  "recordAuthEvent events method at idpAmr =
     normalizeEvents
       (JArr (map event_json (events @ [\<lparr>ev_method = method, ev_at = at, ev_idpAmr = idpAmr\<rparr>])))"

section \<open>The derived context\<close>

definition achievedRank :: "auth_event list \<Rightarrow> nat" where
  "achievedRank events =
     (if events = [] then 0
      else
        let rank = (if list_ex (\<lambda>e. tr_multi (traits (ev_method e))) events then 3 else 1);
            factors = uniq (map (\<lambda>e. tr_factor (traits (ev_method e))) events)
        in if 2 \<le> length factors then max rank 2 else rank)"

record auth_context =
  ac_amr :: "string list"
  ac_acr :: string
  ac_authTime :: int
  ac_events :: "auth_event list"

definition event_amr :: "auth_event \<Rightarrow> string list" where
  "event_amr e =
     tr_amr (traits (ev_method e)) @ (case ev_idpAmr e of None \<Rightarrow> [] | Some amr \<Rightarrow> amr)"

definition resolveAuthContext :: "auth_event list \<Rightarrow> int \<Rightarrow> auth_context" where
  "resolveAuthContext events sessionStart =
     (let clean = normalizeEvents (JArr (map event_json events));
          amr = uniq (concat (map event_amr clean));
          rank = achievedRank clean;
          amr' = (if 2 \<le> rank then set_add ''mfa'' amr else amr)
      in \<lparr>ac_amr = sort amr',
          ac_acr = (if rank < length acr_order then acr_order ! rank else hd acr_order),
          ac_authTime = (case clean of e # _ \<Rightarrow> ev_at e | [] \<Rightarrow> sessionStart),
          ac_events = clean\<rparr>)"

section \<open>Requirements\<close>

datatype acr_value = AcrString string | AcrList "string list"

record auth_requirement =
  rq_acr :: "acr_value option"
  rq_maxAge :: "int option"

record auth_assertion =
  aa_acr :: "string option"
  aa_authTime :: "int option"
  aa_amr :: "string list option"
  aa_events :: "auth_event list option"

datatype requirement_result =
    Met
  | UnmetAcr "string list" "int option"
  | Stale int "string list option"

definition trim :: "string \<Rightarrow> string" where
  "trim s = rev (dropWhile is_space (rev (dropWhile is_space s)))"

definition acrList :: "acr_value option \<Rightarrow> string list" where
  "acrList acr =
     filter (\<lambda>s. s \<noteq> [])
       (map trim
         (case acr of
            None \<Rightarrow> []
          | Some (AcrString s) \<Rightarrow> split_on CHR '' '' s
          | Some (AcrList l) \<Rightarrow> l))"

text \<open>\<open>rankOf\<close>: \<open>indexOf\<close> in the order, \<open>None\<close> for -1.\<close>

definition rankOf :: "string \<Rightarrow> nat option" where
  "rankOf acr = find_index (\<lambda>a. a = acr) acr_order"

definition requiredRank :: "string list \<Rightarrow> nat option" where
  "requiredRank list =
     (case List.map_filter rankOf list of [] \<Rightarrow> None | r # rs \<Rightarrow> Some (fold min rs r))"

definition fresh_event :: "nat \<Rightarrow> int \<Rightarrow> int \<Rightarrow> auth_event \<Rightarrow> bool" where
  "fresh_event neededRank maxAge nowSeconds e \<longleftrightarrow>
     neededRank \<le> tr_tier (traits (ev_method e)) \<and> nowSeconds - maxAge \<le> ev_at e
     \<and> (0 < maxAge \<or> nowSeconds \<le> ev_at e)"

text \<open>The second half of \<open>evaluateAuthRequirement\<close>: freshness for the rank the first half needs.\<close>

definition evaluate_age ::
  "auth_assertion option \<Rightarrow> int option \<Rightarrow> string list \<Rightarrow> nat \<Rightarrow> int \<Rightarrow> requirement_result" where
  "evaluate_age assertion maxAge wanted neededRank nowSeconds =
     (case maxAge of
        None \<Rightarrow> Met
      | Some age \<Rightarrow>
          let stale = Stale age (nonempty wanted) in
          if age < 0 then stale
          else
            (case Option.bind assertion aa_events of
               Some (e # es) \<Rightarrow>
                 if list_ex (fresh_event neededRank age nowSeconds) (e # es) then Met else stale
             | _ \<Rightarrow>
                 (case Option.bind assertion aa_authTime of
                    None \<Rightarrow> stale
                  | Some authTime \<Rightarrow>
                      if authTime < nowSeconds - age \<or> (age = 0 \<and> authTime < nowSeconds)
                      then stale else Met)))"

definition evaluateAuthRequirement ::
  "auth_assertion option \<Rightarrow> auth_requirement \<Rightarrow> int \<Rightarrow> requirement_result" where
  "evaluateAuthRequirement assertion requirement nowSeconds =
     (let wanted = acrList (rq_acr requirement);
          unmet = UnmetAcr wanted (rq_maxAge requirement)
      in if wanted = [] then evaluate_age assertion (rq_maxAge requirement) wanted 0 nowSeconds
         else (case requiredRank wanted of
                 None \<Rightarrow> unmet
               | Some neededRank \<Rightarrow>
                   (case Option.bind (Option.bind assertion aa_acr) rankOf of
                      None \<Rightarrow> unmet
                    | Some have \<Rightarrow>
                        if have < neededRank then unmet
                        else evaluate_age assertion (rq_maxAge requirement) wanted neededRank nowSeconds)))"

section \<open>Challenges\<close>

datatype challenge_scheme = Bearer | DPoP

text \<open>\<open>s.replace(/["\\\r\n]/g, r)\<close>.\<close>

definition header_breaker :: "char \<Rightarrow> bool" where
  "header_breaker c \<longleftrightarrow> c = CHR 0x22 \<or> c = CHR 0x5C \<or> c = CHR 0x0D \<or> c = CHR 0x0A"

definition replace_breakers :: "string \<Rightarrow> string \<Rightarrow> string" where
  "replace_breakers r s = concat (map (\<lambda>c. if header_breaker c then r else [c]) s)"

definition quoted :: "string \<Rightarrow> string \<Rightarrow> string" where
  "quoted name value = name @ ''='' @ [CHR 0x22] @ value @ [CHR 0x22]"

fun join_with :: "string \<Rightarrow> string list \<Rightarrow> string" where
  "join_with sep [] = []"
| "join_with sep [s] = s"
| "join_with sep (s # t # ts) = s @ sep @ join_with sep (t # ts)"

definition challenge_parts ::
  "requirement_result \<Rightarrow> string option \<Rightarrow> string option \<Rightarrow> string list" where
  "challenge_parts failure resourceMetadata description =
     (let desc =
            (case description of
               Some d \<Rightarrow> d
             | None \<Rightarrow>
                 (case failure of
                    Stale _ _ \<Rightarrow> ''A more recent authentication is required''
                  | _ \<Rightarrow> ''A stronger authentication is required''));
          acr = (case failure of UnmetAcr l _ \<Rightarrow> l | Stale _ (Some l) \<Rightarrow> l | _ \<Rightarrow> []);
          age = (case failure of UnmetAcr _ a \<Rightarrow> a | Stale a _ \<Rightarrow> Some a | Met \<Rightarrow> None)
      in [quoted ''error'' ''insufficient_user_authentication'',
          quoted ''error_description'' (replace_breakers '' '' desc)]
         @ (if acr \<noteq> [] then [quoted ''acr_values'' (replace_breakers [] (join_on CHR '' '' acr))] else [])
         @ (case age of None \<Rightarrow> [] | Some a \<Rightarrow> [quoted ''max_age'' (int_str (max 0 a))])
         @ (case resourceMetadata of
              Some m \<Rightarrow> (if m \<noteq> [] then [quoted ''resource_metadata'' (replace_breakers [] m)] else [])
            | None \<Rightarrow> []))"

definition buildStepUpChallenge ::
  "challenge_scheme \<Rightarrow> requirement_result \<Rightarrow> string option \<Rightarrow> string option \<Rightarrow> string" where
  "buildStepUpChallenge scheme failure resourceMetadata description =
     (case scheme of Bearer \<Rightarrow> ''Bearer'' | DPoP \<Rightarrow> ''DPoP'') @ '' ''
     @ join_with '', '' (challenge_parts failure resourceMetadata description)"

section \<open>Stored events\<close>

lemma latest_add_methods:
  "distinct (map ev_method xs) \<Longrightarrow> distinct (map ev_method (latest_add e xs))
   \<and> ev_method ` set (latest_add e xs) = insert (ev_method e) (ev_method ` set xs)"
  by (induction e xs rule: latest_add.induct) auto

lemma latest_add_keeps:
  "x \<in> set (e # xs) \<Longrightarrow> \<exists>y\<in>set (latest_add e xs). ev_method y = ev_method x \<and> ev_at x \<le> ev_at y"
proof (induction e xs rule: latest_add.induct)
  case (2 e y ys)
  then show ?case by (cases "ev_method y = ev_method e"; cases "ev_at e \<le> ev_at y") auto
qed simp

lemma latest_add_from: "set (latest_add e xs) \<subseteq> insert e (set xs)"
  by (induction e xs rule: latest_add.induct) auto

definition latest_fold :: "auth_event list \<Rightarrow> json list \<Rightarrow> auth_event list" where
  "latest_fold =
     foldl (\<lambda>latest item. case read_event item of None \<Rightarrow> latest | Some e \<Rightarrow> latest_add e latest)"

lemma latest_fold_simps:
  "latest_fold xs [] = xs"
  "latest_fold xs (i # is) =
     latest_fold (case read_event i of None \<Rightarrow> xs | Some e \<Rightarrow> latest_add e xs) is"
  by (simp_all add: latest_fold_def)

lemma latest_fold_inv:
  "distinct (map ev_method xs) \<Longrightarrow> distinct (map ev_method (latest_fold xs items))
   \<and> (\<forall>x\<in>set xs. \<exists>y\<in>set (latest_fold xs items). ev_method y = ev_method x \<and> ev_at x \<le> ev_at y)
   \<and> (\<forall>i\<in>set items. \<forall>e. read_event i = Some e \<longrightarrow>
        (\<exists>y\<in>set (latest_fold xs items). ev_method y = ev_method e \<and> ev_at e \<le> ev_at y))
   \<and> (\<forall>y\<in>set (latest_fold xs items). y \<in> set xs \<or> (\<exists>i\<in>set items. read_event i = Some y))"
proof (induction items arbitrary: xs)
  case Nil
  then show ?case by (auto simp: latest_fold_simps)
next
  case (Cons i items)
  show ?case
  proof (cases "read_event i")
    case None
    with Cons show ?thesis by (simp add: latest_fold_simps)
  next
    case (Some e)
    have d: "distinct (map ev_method (latest_add e xs))" using latest_add_methods Cons.prems by blast
    note ih = Cons.IH [OF d]
    have keep: "\<exists>y\<in>set (latest_fold (latest_add e xs) items). ev_method y = ev_method x \<and> ev_at x \<le> ev_at y"
      if "x \<in> set (e # xs)" for x
      using ih latest_add_keeps [OF that] by (metis order_trans)
    show ?thesis
      using ih keep latest_add_from [of e xs] Some by (fastforce simp: latest_fold_simps)
  qed
qed

lemma methods_card: "distinct (map ev_method es) \<Longrightarrow> length es \<le> 6"
proof -
  assume "distinct (map ev_method es)"
  then have "length es = card (set (map ev_method es))" by (metis distinct_card length_map)
  also have "\<dots> \<le> card {Password, Totp, Otp, Passkey, PasskeyPresence, Federated}"
    by (rule card_mono) (auto intro: auth_method.exhaust)
  finally show ?thesis by simp
qed

lemma normalizeEvents_JArr:
  "normalizeEvents (JArr items) = sort_key (\<lambda>e. - ev_at e) (latest_events items)"
  and latest_events_distinct: "distinct (map ev_method (latest_events items))"
proof -
  show "distinct (map ev_method (latest_events items))"
    using latest_fold_inv [of "[]" items] by (simp add: latest_events_def latest_fold_def)
  from methods_card [OF this] show
    "normalizeEvents (JArr items) = sort_key (\<lambda>e. - ev_at e) (latest_events items)"
    by (simp add: normalizeEvents_def max_events_def)
qed

text \<open>
  Stored events are read as one event per method, the newest one. The methods are distinct,
  the events are ordered newest first, every well formed item is represented by an event of its
  method at least as new, and every event is one of the items.
\<close>

theorem normalizeEvents_newest:
  "distinct (map ev_method (normalizeEvents (JArr items)))
   \<and> sorted_wrt (\<lambda>x y. ev_at y \<le> ev_at x) (normalizeEvents (JArr items))
   \<and> (\<forall>i\<in>set items. \<forall>e. read_event i = Some e \<longrightarrow>
        (\<exists>y\<in>set (normalizeEvents (JArr items)). ev_method y = ev_method e \<and> ev_at e \<le> ev_at y))
   \<and> (\<forall>y\<in>set (normalizeEvents (JArr items)). \<exists>i\<in>set items. read_event i = Some y)"
proof -
  have "distinct (map ev_method (sort_key k es)) = distinct (map ev_method es)"
    for k :: "auth_event \<Rightarrow> int" and es
    by (simp add: distinct_map)
  moreover have "sorted_wrt (\<lambda>x y. ev_at y \<le> ev_at x) (sort_key (\<lambda>e. - ev_at e) es)" for es
    using sorted_sort_key [of "\<lambda>e. - ev_at e" es] by (simp add: sorted_map)
  ultimately show ?thesis
    using latest_fold_inv [of "[]" items]
    by (simp add: normalizeEvents_JArr latest_events_distinct) (simp add: latest_events_def latest_fold_def)
qed

theorem normalizeEvents_newest_witness:
  "ev_at (hd (normalizeEvents (JArr [event_json \<lparr>ev_method = Totp, ev_at = 5, ev_idpAmr = None\<rparr>,
      event_json \<lparr>ev_method = Totp, ev_at = 9, ev_idpAmr = None\<rparr>]))) = 9"
proof -
  let ?items = "[event_json \<lparr>ev_method = Totp, ev_at = 5, ev_idpAmr = None\<rparr>,
      event_json \<lparr>ev_method = Totp, ev_at = 9, ev_idpAmr = None\<rparr>]"
  have r: "read_event (event_json \<lparr>ev_method = Totp, ev_at = n, ev_idpAmr = None\<rparr>)
      = Some \<lparr>ev_method = Totp, ev_at = n, ev_idpAmr = None\<rparr>" for n
    by (simp add: event_json_def read_event_def method_of_def nonempty_def)
  note h = normalizeEvents_newest [of ?items]
  then obtain y where y: "y \<in> set (normalizeEvents (JArr ?items))" "ev_method y = Totp" "9 \<le> ev_at y"
    using r [of 9] by fastforce
  have all: "\<forall>z\<in>set (normalizeEvents (JArr ?items)). ev_method z = Totp \<and> ev_at z \<le> 9"
    using h by (auto simp: r)
  from y(1) have ne: "normalizeEvents (JArr ?items) \<noteq> []" by auto
  then have "hd (normalizeEvents (JArr ?items)) \<in> set (normalizeEvents (JArr ?items))" by simp
  with h all y have "hd (normalizeEvents (JArr ?items)) = y"
    by (metis distinct_map inj_on_eq_iff)
  with all y show ?thesis by force
qed

section \<open>Provider claims\<close>

definition strip :: "auth_event \<Rightarrow> auth_event" where
  "strip e = e\<lparr>ev_idpAmr := None\<rparr>"

lemma strip_simps [simp]:
  "ev_method (strip e) = ev_method e" "ev_at (strip e) = ev_at e" "strip (strip e) = strip e"
  by (simp_all add: strip_def)

lemma method_of_name [simp]: "method_of (Some (JStr (method_name m))) = Some m"
  by (cases m) (simp_all add: method_of_def)

lemma read_event_json: "\<exists>e'. read_event (event_json e) = Some e' \<and> strip e' = strip e"
  by (cases e) (auto simp: event_json_def read_event_def strip_def Let_def)

lemma map_strip_latest_add: "map strip (latest_add e xs) = latest_add (strip e) (map strip xs)"
  by (induction e xs rule: latest_add.induct) auto

lemma latest_add_strip_cong:
  "strip e = strip e' \<Longrightarrow> map strip xs = map strip ys \<Longrightarrow>
   map strip (latest_add e xs) = map strip (latest_add e' ys)"
  by (simp add: map_strip_latest_add)

lemma latest_fold_strip:
  "map strip es = map strip es' \<Longrightarrow> map strip xs = map strip ys \<Longrightarrow>
   map strip (latest_fold xs (map event_json es)) = map strip (latest_fold ys (map event_json es'))"
proof (induction es arbitrary: es' xs ys)
  case Nil
  then show ?case by (simp add: latest_fold_simps)
next
  case (Cons e es)
  then obtain d ds where es': "es' = d # ds" by (cases es') auto
  obtain e1 d1 where r: "read_event (event_json e) = Some e1" "strip e1 = strip e"
    "read_event (event_json d) = Some d1" "strip d1 = strip d"
    using read_event_json by metis
  have "map strip (latest_add e1 xs) = map strip (latest_add d1 ys)"
    using Cons.prems r by (intro latest_add_strip_cong) (simp_all add: es')
  with Cons show ?case by (simp add: latest_fold_simps es' r)
qed

lemma map_strip_insort:
  "map strip (insort_key (\<lambda>e. - ev_at e) x xs) = insort_key (\<lambda>e. - ev_at e) (strip x) (map strip xs)"
  by (induction xs) auto

lemma map_strip_sort:
  "map strip (sort_key (\<lambda>e. - ev_at e) xs) = sort_key (\<lambda>e. - ev_at e) (map strip xs)"
  by (induction xs) (simp_all add: map_strip_insort)

lemma achievedRank_strip: "achievedRank es = achievedRank (map strip es)"
  by (simp add: achievedRank_def list_ex_iff o_def)

text \<open>
  What an identity provider reports never raises the class. Two event lists that differ only
  in the provider's methods have the same \<open>acr\<close> and the same \<open>auth_time\<close>.
\<close>

theorem provider_claims_never_raise_acr:
  assumes "map strip events = map strip events'"
  shows "ac_acr (resolveAuthContext events start) = ac_acr (resolveAuthContext events' start)
    \<and> ac_authTime (resolveAuthContext events start) = ac_authTime (resolveAuthContext events' start)"
proof -
  let ?n = "\<lambda>es. normalizeEvents (JArr (map event_json es))"
  have m: "map strip (?n events) = map strip (?n events')"
    using latest_fold_strip [OF assms, of "[]" "[]"]
    by (simp add: normalizeEvents_JArr map_strip_sort latest_events_def latest_fold_def)
  then have "achievedRank (?n events) = achievedRank (?n events')"
    by (metis achievedRank_strip)
  moreover have "(case ?n events of e # _ \<Rightarrow> ev_at e | [] \<Rightarrow> start)
      = (case ?n events' of e # _ \<Rightarrow> ev_at e | [] \<Rightarrow> start)"
    using m by (cases "?n events"; cases "?n events'") (auto dest: arg_cong [of _ _ ev_at])
  ultimately show ?thesis by (simp add: resolveAuthContext_def Let_def)
qed

theorem provider_claims_never_raise_acr_witness:
  "ac_acr (resolveAuthContext [\<lparr>ev_method = Federated, ev_at = 1, ev_idpAmr = Some [''pwd'', ''otp'']\<rparr>] 0)
   = ac_acr (resolveAuthContext [\<lparr>ev_method = Federated, ev_at = 1, ev_idpAmr = None\<rparr>] 0)"
  using provider_claims_never_raise_acr
    [of "[\<lparr>ev_method = Federated, ev_at = 1, ev_idpAmr = Some [''pwd'', ''otp'']\<rparr>]"
        "[\<lparr>ev_method = Federated, ev_at = 1, ev_idpAmr = None\<rparr>]" 0]
  by (simp add: strip_def)

section \<open>Meeting a requirement\<close>

definition age_met :: "auth_assertion option \<Rightarrow> int option \<Rightarrow> nat \<Rightarrow> int \<Rightarrow> bool" where
  "age_met assertion maxAge needed now \<longleftrightarrow>
     (case maxAge of
        None \<Rightarrow> True
      | Some age \<Rightarrow>
          0 \<le> age \<and>
          (case Option.bind assertion aa_events of
             Some (e # es) \<Rightarrow> (\<exists>x\<in>set (e # es). fresh_event needed age now x)
           | _ \<Rightarrow>
               (\<exists>t. Option.bind assertion aa_authTime = Some t \<and> now - age \<le> t \<and> (age = 0 \<longrightarrow> now \<le> t))))"

lemma evaluate_age_Met: "evaluate_age a m w n now = Met \<longleftrightarrow> age_met a m n now"
  by (auto simp: evaluate_age_def age_met_def Let_def list_ex_iff split: option.splits list.splits)

lemma requirement_Met_iff:
  "evaluateAuthRequirement assertion r now = Met \<longleftrightarrow>
     (if acrList (rq_acr r) = [] then age_met assertion (rq_maxAge r) 0 now
      else (\<exists>needed have. requiredRank (acrList (rq_acr r)) = Some needed
              \<and> Option.bind (Option.bind assertion aa_acr) rankOf = Some have \<and> needed \<le> have
              \<and> age_met assertion (rq_maxAge r) needed now))"
  by (auto simp: evaluateAuthRequirement_def Let_def evaluate_age_Met split: option.splits)

lemma fold_min_nat: "fold min ns (a :: nat) \<le> a \<and> (\<forall>n\<in>set ns. fold min ns a \<le> n)
    \<and> fold min ns a \<in> set (a # ns)"
proof (induction ns arbitrary: a)
  case (Cons n ns)
  from Cons [of "min n a"] show ?case by (auto simp: min_def split: if_splits)
qed simp

lemma set_map_filter_rank: "set (List.map_filter rankOf l) = {r. \<exists>s\<in>set l. rankOf s = Some r}"
  by (induction l) (auto simp: map_filter_simps split: option.splits)

lemma requiredRank_SomeD:
  "requiredRank l = Some n \<Longrightarrow>
   (\<exists>s\<in>set l. rankOf s = Some n) \<and> (\<forall>s\<in>set l. \<forall>r. rankOf s = Some r \<longrightarrow> n \<le> r)"
proof -
  assume r: "requiredRank l = Some n"
  then obtain x xs where m: "List.map_filter rankOf l = x # xs" "n = fold min xs x"
    by (auto simp: requiredRank_def split: list.splits)
  with fold_min_nat [of xs x] have "n \<in> set (List.map_filter rankOf l)"
    "\<forall>r\<in>set (List.map_filter rankOf l). n \<le> r" by auto
  then show ?thesis by (auto simp: set_map_filter_rank)
qed

text \<open>
  Step-up fails closed and judges freshness per class. A requirement that names classes is
  met only if one of them is known, the assertion carries a known class at least as strong as the
  weakest of them, and, with a maximum age, the assertion has a fresh event whose method can
  vouch for that class (or, without events, a fresh \<open>auth_time\<close>).
\<close>

theorem evaluateAuthRequirement_met:
  assumes "evaluateAuthRequirement assertion r now = Met"
    and "acrList (rq_acr r) \<noteq> [] \<or> rq_maxAge r \<noteq> None"
  shows "\<exists>a. assertion = Some a
    \<and> (acrList (rq_acr r) \<noteq> [] \<longrightarrow>
         (\<exists>s\<in>set (acrList (rq_acr r)). \<exists>n have. rankOf s = Some n
            \<and> Option.bind (aa_acr a) rankOf = Some have \<and> n \<le> have
            \<and> (\<forall>age es. rq_maxAge r = Some age \<longrightarrow> aa_events a = Some es \<longrightarrow> es \<noteq> [] \<longrightarrow>
                 (\<exists>e\<in>set es. n \<le> tr_tier (traits (ev_method e)) \<and> now - age \<le> ev_at e))))
    \<and> (\<forall>age. rq_maxAge r = Some age \<longrightarrow>
         (aa_events a = None \<or> aa_events a = Some []) \<longrightarrow>
         (\<exists>t. aa_authTime a = Some t \<and> now - age \<le> t))"
proof -
  have m: "\<exists>n. age_met assertion (rq_maxAge r) n now"
    using assms(1) by (auto simp: requirement_Met_iff split: if_splits)
  obtain a where a: "assertion = Some a"
  proof (cases assertion)
    case None
    with assms m show ?thesis
      by (auto simp: requirement_Met_iff age_met_def split: if_splits option.splits)
  qed simp
  have "acrList (rq_acr r) \<noteq> [] \<longrightarrow>
         (\<exists>s\<in>set (acrList (rq_acr r)). \<exists>n have. rankOf s = Some n
            \<and> Option.bind (aa_acr a) rankOf = Some have \<and> n \<le> have
            \<and> (\<forall>age es. rq_maxAge r = Some age \<longrightarrow> aa_events a = Some es \<longrightarrow> es \<noteq> [] \<longrightarrow>
                 (\<exists>e\<in>set es. n \<le> tr_tier (traits (ev_method e)) \<and> now - age \<le> ev_at e)))"
  proof
    assume ne: "acrList (rq_acr r) \<noteq> []"
    with assms(1) obtain n h where n: "requiredRank (acrList (rq_acr r)) = Some n"
      "Option.bind (aa_acr a) rankOf = Some h" "n \<le> h" "age_met assertion (rq_maxAge r) n now"
      by (auto simp: requirement_Met_iff a)
    from requiredRank_SomeD [OF n(1)] obtain s where "s \<in> set (acrList (rq_acr r))" "rankOf s = Some n"
      by blast
    moreover have "\<forall>age es. rq_maxAge r = Some age \<longrightarrow> aa_events a = Some es \<longrightarrow> es \<noteq> [] \<longrightarrow>
                 (\<exists>e\<in>set es. n \<le> tr_tier (traits (ev_method e)) \<and> now - age \<le> ev_at e)"
    proof (intro allI impI)
      fix age es assume "rq_maxAge r = Some age" "aa_events a = Some es" "es \<noteq> []"
      with n(4) show "\<exists>e\<in>set es. n \<le> tr_tier (traits (ev_method e)) \<and> now - age \<le> ev_at e"
        by (cases es) (auto simp: age_met_def a fresh_event_def)
    qed
    ultimately show "\<exists>s\<in>set (acrList (rq_acr r)). \<exists>n have. rankOf s = Some n
            \<and> Option.bind (aa_acr a) rankOf = Some have \<and> n \<le> have
            \<and> (\<forall>age es. rq_maxAge r = Some age \<longrightarrow> aa_events a = Some es \<longrightarrow> es \<noteq> [] \<longrightarrow>
                 (\<exists>e\<in>set es. n \<le> tr_tier (traits (ev_method e)) \<and> now - age \<le> ev_at e))"
      using n(2,3) by blast
  qed
  moreover have "\<forall>age. rq_maxAge r = Some age \<longrightarrow>
         (aa_events a = None \<or> aa_events a = Some []) \<longrightarrow>
         (\<exists>t. aa_authTime a = Some t \<and> now - age \<le> t)"
    using m by (auto simp: age_met_def a)
  ultimately show ?thesis using a by blast
qed

theorem evaluateAuthRequirement_met_witness:
  "\<exists>t. aa_authTime \<lparr>aa_acr = None, aa_authTime = Some 95, aa_amr = None, aa_events = None\<rparr> = Some t
     \<and> 100 - 10 \<le> (t :: int)"
  using evaluateAuthRequirement_met
    [of "Some \<lparr>aa_acr = None, aa_authTime = Some 95, aa_amr = None, aa_events = None\<rparr>"
        "\<lparr>rq_acr = None, rq_maxAge = Some 10\<rparr>" 100]
  by (simp add: requirement_Met_iff age_met_def acrList_def)

section \<open>Challenges cannot break the header\<close>

definition clean :: "string \<Rightarrow> bool" where
  "clean s \<longleftrightarrow> (\<forall>c\<in>set s. c \<noteq> CHR 0x0D \<and> c \<noteq> CHR 0x0A)"

lemma clean_simps [simp]:
  "clean []" "clean (s @ t) \<longleftrightarrow> clean s \<and> clean t"
  "clean (c # s) \<longleftrightarrow> c \<noteq> CHR 0x0D \<and> c \<noteq> CHR 0x0A \<and> clean s"
  by (auto simp: clean_def)

lemma clean_replace: "clean r \<Longrightarrow> clean (replace_breakers r s)"
  by (induction s) (auto simp: replace_breakers_def header_breaker_def)

lemma clean_int_str: "clean (int_str i)"
proof -
  have "is_digit c \<Longrightarrow> c \<noteq> CHR 0x0D \<and> c \<noteq> CHR 0x0A" for c
    by (auto simp: is_digit_def)
  then have "clean (nat_str n)" for n using nat_str_digits by (auto simp: clean_def)
  then show ?thesis by (simp add: int_str_def)
qed

lemma clean_quoted: "clean n \<Longrightarrow> clean v \<Longrightarrow> clean (quoted n v)"
  by (simp add: quoted_def)

lemma clean_join: "clean sep \<Longrightarrow> (\<forall>s\<in>set ss. clean s) \<Longrightarrow> clean (join_with sep ss)"
  by (induction sep ss rule: join_with.induct) auto

text \<open>
  A step-up challenge cannot inject a header line. Whatever the description, the class names
  or the resource metadata hold, the challenge has no carriage return and no line feed.
\<close>

theorem buildStepUpChallenge_clean:
  "CHR 0x0D \<notin> set (buildStepUpChallenge scheme failure resourceMetadata description)
   \<and> CHR 0x0A \<notin> set (buildStepUpChallenge scheme failure resourceMetadata description)"
proof -
  have "\<forall>s\<in>set (challenge_parts failure resourceMetadata description). clean s"
    by (auto simp: challenge_parts_def Let_def intro!: clean_quoted clean_replace clean_int_str
        split: option.splits if_splits)
  then have "clean (buildStepUpChallenge scheme failure resourceMetadata description)"
    by (auto simp: buildStepUpChallenge_def intro!: clean_join split: challenge_scheme.splits)
  then show ?thesis by (auto simp: clean_def)
qed

end
