(* ===== verification/CanonicalJson.thy ===== *)
theory CanonicalJson
  imports Abac "HOL-Library.List_Lexorder" "HOL-Library.Char_ord"
begin

text \<open>
  Canonical JSON for the approval hash: \<open>approval/canonical.ts\<close>, the string encoding
  \<open>goJsonString\<close> of \<open>audit/go-chain-verify.ts\<close>, the reserved keys of
  \<open>audit/reserved.ts\<close>, and \<open>canonicalJson\<close> of \<open>audit/chain.ts\<close>. The two encodings differ in how
  strings are escaped, so the proofs are made once over any code for strings. Characters are code units up to 255, numbers are integers, and values
  are trees, so the branches for surrogates, U+2028, non-finite numbers, dates and cycles do not
  arise. The encoding is proved to determine the value up to the order of object keys.
\<close>

section \<open>Definitions\<close>

definition hex_digit :: "nat \<Rightarrow> char" where
  "hex_digit d = (if d < 10 then digit_char d else char_of (87 + d))"

text \<open>\<open>c.toString(16).padStart(4, "0")\<close> for a code unit below 256.\<close>

definition hex4 :: "nat \<Rightarrow> string" where
  "hex4 n = ''00'' @ [hex_digit (n div 16), hex_digit (n mod 16)]"

definition escape_char :: "char \<Rightarrow> string" where
  "escape_char c =
     (if c = CHR 0x22 then [CHR 0x5C, CHR 0x22]
      else if c = CHR 0x5C then [CHR 0x5C, CHR 0x5C]
      else if c = CHR 0x0A then [CHR 0x5C, CHR ''n'']
      else if c = CHR 0x0D then [CHR 0x5C, CHR ''r'']
      else if c = CHR 0x09 then [CHR 0x5C, CHR ''t'']
      else if c = CHR 0x08 then [CHR 0x5C, CHR ''b'']
      else if c = CHR 0x0C then [CHR 0x5C, CHR ''f'']
      else if c = CHR ''<'' \<or> c = CHR ''>'' \<or> c = CHR ''&'' \<or> (of_char c :: nat) < 32
      then CHR 0x5C # CHR ''u'' # hex4 (of_char c)
      else [c])"

definition goJsonString :: "string \<Rightarrow> string" where
  "goJsonString s = CHR 0x22 # concat (map escape_char s) @ [CHR 0x22]"

text \<open>Object keys are sorted by bytes at every depth.\<close>

function canonical_with :: "(string \<Rightarrow> string) \<Rightarrow> json \<Rightarrow> string" where
  "canonical_with enc JNull = ''null''"
| "canonical_with enc (JBool b) = (if b then ''true'' else ''false'')"
| "canonical_with enc (JNum n) = int_str n"
| "canonical_with enc (JStr s) = enc s"
| "canonical_with enc (JArr xs) =
     CHR ''['' # join_on CHR '','' (map (canonical_with enc) xs) @ '']''"
| "canonical_with enc (JObj kvs) =
     CHR ''{'' # join_on CHR '',''
       (map (\<lambda>kv. enc (fst kv) @ CHR '':'' # canonical_with enc (snd kv)) (sort_key fst kvs)) @ ''}''"
  by pat_completeness auto
termination
proof (relation "measure (\<lambda>(enc, j). size j)", goal_cases)
  case (3 enc kvs kv)
  then have "kv \<in> set kvs" by simp
  then have "size (snd kv) < Suc (size_list (size_prod (\<lambda>_. 0) size) kvs)"
    by (induction kvs) (auto simp: size_prod_def split: prod.splits)
  moreover have "size_list (size_prod (\<lambda>_. 0) size) kvs \<le> size (JObj kvs)"
    by (induction kvs) (auto simp: size_prod_def split: prod.splits)
  ultimately show ?case by (induction kvs) auto
qed (auto simp: less_Suc_eq_le size_list_estimation')

definition canonicalApprovalJson :: "json \<Rightarrow> string" where
  "canonicalApprovalJson = canonical_with goJsonString"

text \<open>\<open>JSON.stringify\<close> of a string, and the canonical JSON of the audit chain.\<close>

definition js_escape_char :: "char \<Rightarrow> string" where
  "js_escape_char c =
     (if c = CHR 0x22 then [CHR 0x5C, CHR 0x22]
      else if c = CHR 0x5C then [CHR 0x5C, CHR 0x5C]
      else if c = CHR 0x0A then [CHR 0x5C, CHR ''n'']
      else if c = CHR 0x0D then [CHR 0x5C, CHR ''r'']
      else if c = CHR 0x09 then [CHR 0x5C, CHR ''t'']
      else if c = CHR 0x08 then [CHR 0x5C, CHR ''b'']
      else if c = CHR 0x0C then [CHR 0x5C, CHR ''f'']
      else if (of_char c :: nat) < 32 then CHR 0x5C # CHR ''u'' # hex4 (of_char c)
      else [c])"

definition jsonString :: "string \<Rightarrow> string" where
  "jsonString s = CHR 0x22 # concat (map js_escape_char s) @ [CHR 0x22]"

definition canonicalJson :: "json \<Rightarrow> string" where
  "canonicalJson = canonical_with jsonString"

definition to_lower :: "char \<Rightarrow> char" where
  "to_lower c =
     (let n = (of_char c :: nat) in if 65 \<le> n \<and> n \<le> 90 then char_of (n + 32) else c)"

definition isReservedAuditKey :: "string \<Rightarrow> bool" where
  "isReservedAuditKey key \<longleftrightarrow>
     key \<in> {''approvalId'', ''inputProvenance''} \<or> starts_with ''theauth'' (map to_lower key)"

definition stripReservedAuditKeys :: "(string \<times> json) list option \<Rightarrow> (string \<times> json) list option" where
  "stripReservedAuditKeys args = map_option (filter (\<lambda>kv. \<not> isReservedAuditKey (fst kv))) args"

text \<open>\<open>hashApprovalAction\<close>; SHA-256 is a parameter.\<close>

definition approval_text :: "string \<Rightarrow> string \<Rightarrow> (string \<times> json) list option \<Rightarrow> json" where
  "approval_text action resource args =
     JObj [(''action'', JStr action), (''resource'', JStr resource),
           (''arguments'', JObj (case stripReservedAuditKeys args of Some a \<Rightarrow> a | None \<Rightarrow> []))]"

definition hashApprovalAction ::
  "(string \<Rightarrow> 'h) \<Rightarrow> string \<Rightarrow> string \<Rightarrow> (string \<times> json) list option \<Rightarrow> 'h" where
  "hashApprovalAction sha256 action resource args =
     sha256 (canonicalApprovalJson (approval_text action resource args))"

section \<open>Strings are recovered\<close>

definition hex_val :: "char \<Rightarrow> nat" where
  "hex_val h = (if is_digit h then digit_val h else of_char h - 87)"

lemma hex_val_digit: "d < 16 \<Longrightarrow> hex_val (hex_digit d) = d"
  by (cases "d < 10") (simp add: hex_val_def hex_digit_def, auto simp: hex_val_def hex_digit_def is_digit_def)

fun unescape :: "string \<Rightarrow> (char \<times> string) option" where
  "unescape [] = None"
| "unescape (c # xs) =
     (if c \<noteq> CHR 0x5C then Some (c, xs)
      else (case xs of
              [] \<Rightarrow> None
            | e # ys \<Rightarrow>
                if e = CHR ''u'' then
                  (case ys of
                     a # b # h # l # zs \<Rightarrow> Some (char_of (16 * hex_val h + hex_val l), zs)
                   | _ \<Rightarrow> None)
                else if e = CHR ''n'' then Some (CHR 0x0A, ys)
                else if e = CHR ''r'' then Some (CHR 0x0D, ys)
                else if e = CHR ''t'' then Some (CHR 0x09, ys)
                else if e = CHR ''b'' then Some (CHR 0x08, ys)
                else if e = CHR ''f'' then Some (CHR 0x0C, ys)
                else Some (e, ys)))"

text \<open>A code for characters that \<open>unescape\<close> reads back and that never starts with a quote.\<close>

locale char_code =
  fixes esc :: "char \<Rightarrow> string"
  assumes unescape_esc: "unescape (esc c @ x) = Some (c, x)"
    and esc_shape: "\<exists>a s. esc c = a # s \<and> a \<noteq> CHR 0x22"
begin

lemma body_inject:
  "concat (map esc s) @ CHR 0x22 # r = concat (map esc t) @ CHR 0x22 # u \<Longrightarrow> s = t \<and> r = u"
proof (induction s arbitrary: t)
  case Nil
  then show ?case using esc_shape by (cases t) (auto, metis append_Cons list.inject)
next
  case (Cons c s)
  show ?case
  proof (cases t)
    case Nil
    with Cons.prems esc_shape [of c] show ?thesis by auto
  next
    case t: (Cons d t')
    from Cons.prems have e: "esc c @ (concat (map esc s) @ CHR 0x22 # r)
        = esc d @ (concat (map esc t') @ CHR 0x22 # u)" by (simp add: t)
    have "Some (c, concat (map esc s) @ CHR 0x22 # r) = Some (d, concat (map esc t') @ CHR 0x22 # u)"
      by (simp only: unescape_esc [symmetric] e)
    with Cons.IH [of t'] show ?thesis by (simp add: t)
  qed
qed

end

lemma hex_pair:
  "char_of (16 * hex_val (hex_digit (of_char c div 16)) + hex_val (hex_digit (of_char c mod 16))) = c"
proof -
  have "(of_char c :: nat) < 256" by simp
  then have "(of_char c :: nat) div 16 < 16" by (simp add: div_less_iff_less_mult)
  then show ?thesis by (simp add: hex_val_digit)
qed

interpretation go_chars: char_code escape_char
proof
  fix c x
  show "unescape (escape_char c @ x) = Some (c, x)"
    by (cases "c \<in> {CHR 0x22, CHR 0x5C, CHR 0x0A, CHR 0x0D, CHR 0x09, CHR 0x08, CHR 0x0C}")
      (auto simp: escape_char_def hex4_def hex_pair)
  show "\<exists>a s. escape_char c = a # s \<and> a \<noteq> CHR 0x22" by (auto simp: escape_char_def hex4_def)
qed

interpretation js_chars: char_code js_escape_char
proof
  fix c x
  show "unescape (js_escape_char c @ x) = Some (c, x)"
    by (cases "c \<in> {CHR 0x22, CHR 0x5C, CHR 0x0A, CHR 0x0D, CHR 0x09, CHR 0x08, CHR 0x0C}")
      (auto simp: js_escape_char_def hex4_def hex_pair)
  show "\<exists>a s. js_escape_char c = a # s \<and> a \<noteq> CHR 0x22" by (auto simp: js_escape_char_def hex4_def)
qed

text \<open>A code for strings: quoted, and recovered from the front of any text.\<close>

locale string_code =
  fixes enc :: "string \<Rightarrow> string"
  assumes enc_quoted: "\<exists>t. enc s = CHR 0x22 # t"
    and enc_inject: "enc s @ r = enc t @ u \<Longrightarrow> s = t \<and> r = u"

lemma goJsonString_inject: "goJsonString s @ r = goJsonString t @ u \<Longrightarrow> s = t \<and> r = u"
  by (auto simp: goJsonString_def dest: go_chars.body_inject)

section \<open>Values are recovered\<close>

text \<open>A value with the keys of its objects sorted.\<close>

fun sort_keys :: "json \<Rightarrow> json" where
  "sort_keys (JArr xs) = JArr (map sort_keys xs)"
| "sort_keys (JObj kvs) = JObj (sort_key fst (map (\<lambda>kv. (fst kv, sort_keys (snd kv))) kvs))"
| "sort_keys j = j"

definition stops :: "string \<Rightarrow> bool" where
  "stops r \<longleftrightarrow> (case r of [] \<Rightarrow> True | c # _ \<Rightarrow> c \<in> {CHR '','', CHR '']'', CHR ''}''})"

lemma stops_simps [simp]: "stops []" "stops (CHR '','' # r)" "stops (CHR '']'' # r)" "stops (CHR ''}'' # r)"
  by (simp_all add: stops_def)

definition num_char :: "char \<Rightarrow> bool" where
  "num_char c \<longleftrightarrow> is_digit c \<or> c = CHR ''-''"

lemma int_str_chars: "c \<in> set (int_str i) \<Longrightarrow> num_char c"
  using nat_str_digits by (auto simp: int_str_def num_char_def split: if_splits)

lemma int_str_neq_Nil [simp]: "int_str i \<noteq> []"
  by (simp add: int_str_def)

lemma stops_not_num: "stops r \<Longrightarrow> takeWhile num_char r = []"
  by (cases r) (auto simp: stops_def num_char_def is_digit_def)

lemma int_str_inject_stop:
  assumes "int_str i @ r = int_str j @ s" and "stops r" and "stops s"
  shows "i = j \<and> r = s"
proof -
  have "takeWhile num_char (int_str n @ q) = int_str n" if "stops q" for n q
    using int_str_chars stops_not_num [OF that] by (simp add: takeWhile_append2)
  with assms have "int_str i = int_str j" by metis
  with assms(1) show ?thesis by (auto dest: int_str_inj)
qed

text \<open>The first character tells the kind of value.\<close>

fun kind :: "json \<Rightarrow> char set" where
  "kind JNull = {CHR ''n''}"
| "kind (JBool b) = (if b then {CHR ''t''} else {CHR ''f''})"
| "kind (JNum n) = {c. num_char c}"
| "kind (JStr s) = {CHR 0x22}"
| "kind (JArr xs) = {CHR ''[''}"
| "kind (JObj kvs) = {CHR ''{''}"

lemma join_on_Cons: "join_on c (s # ss) = s @ (if ss = [] then [] else c # join_on c ss)"
  by (cases ss) auto

text \<open>Lists of encoded parts that end in a closing bracket are recovered part by part.\<close>

lemma join_inject:
  assumes parts: "\<And>a b r s. a \<in> set xs \<Longrightarrow> b \<in> set ys \<Longrightarrow> f a @ r = f b @ s \<Longrightarrow> stops r \<Longrightarrow> stops s \<Longrightarrow>
      g a = g b \<and> r = s"
    and start: "\<And>a r s. f a @ r \<noteq> close # s"
    and close: "close \<in> {CHR '']'', CHR ''}''}"
    and eq: "join_on CHR '','' (map f xs) @ close # r = join_on CHR '','' (map f ys) @ close # s"
  shows "map g xs = map g ys \<and> r = s"
  using parts eq
proof (induction xs arbitrary: ys)
  case Nil
  show ?case
  proof (cases ys)
    case (Cons b ys')
    with Nil.prems(2) start [of b] start [of b, symmetric] show ?thesis by (auto simp: join_on_Cons split: if_splits)
  qed (use Nil.prems(2) in simp)
next
  case (Cons a xs)
  show ?case
  proof (cases ys)
    case Nil
    with Cons.prems(2) start [of a] show ?thesis by (auto simp: join_on_Cons split: if_splits)
  next
    case ys: (Cons b ys')
    let ?tail = "\<lambda>zs q. (if zs = [] then [] else CHR '','' # join_on CHR '','' (map f zs)) @ close # q"
    have e: "f a @ ?tail xs r = f b @ ?tail ys' s"
      using Cons.prems(2) by (simp add: ys join_on_Cons)
    have st: "stops (?tail zs q)" for zs q
      using close by (auto simp: stops_def)
    have gab: "g a = g b" and t: "?tail xs r = ?tail ys' s"
      using Cons.prems(1) [OF _ _ e st st] by (auto simp: ys)
    from t close have "xs = [] \<longleftrightarrow> ys' = []" by (auto split: if_splits)
    with t have "join_on CHR '','' (map f xs) @ close # r = join_on CHR '','' (map f ys') @ close # s"
      by (auto split: if_splits)
    then have "map g xs = map g ys' \<and> r = s"
      by (intro Cons.IH [of ys'] Cons.prems(1)) (simp_all add: ys)
    with gab show ?thesis by (simp add: ys)
  qed
qed

lemma kind_eqs:
  "kind JNull \<inter> kind k \<noteq> {} \<Longrightarrow> k = JNull"
  "kind (JBool b) \<inter> kind k \<noteq> {} \<Longrightarrow> k = JBool b"
  "kind (JNum n) \<inter> kind k \<noteq> {} \<Longrightarrow> \<exists>m. k = JNum m"
  "kind (JStr t) \<inter> kind k \<noteq> {} \<Longrightarrow> \<exists>u. k = JStr u"
  "kind (JArr xs) \<inter> kind k \<noteq> {} \<Longrightarrow> \<exists>ys. k = JArr ys"
  "kind (JObj kvs) \<inter> kind k \<noteq> {} \<Longrightarrow> \<exists>kws. k = JObj kws"
  by (cases k; auto simp: num_char_def is_digit_def split: if_splits)+

lemma insort_key_map: "insort_key f (h x) (map h xs) = map h (insort_key (\<lambda>y. f (h y)) x xs)"
  by (induction xs) auto

lemma sort_key_map: "sort_key f (map h xs) = map h (sort_key (\<lambda>y. f (h y)) xs)"
  by (induction xs) (simp_all add: insort_key_map)

lemma sort_map_values: "map (\<lambda>kv. (fst kv, h (snd kv))) (sort_key fst kvs) =
    sort_key fst (map (\<lambda>kv. (fst kv, h (snd kv))) (kvs :: (string \<times> 'v) list))"
  by (simp add: sort_key_map)

lemma sort_key_idem [simp]: "sort_key f (sort_key f xs) = sort_key f xs"
  by (rule sort_key_id_if_sorted) simp

lemma json_induct [case_names 1 2 3 4 5 6]:
  assumes "P JNull" and "\<And>b. P (JBool b)" and "\<And>n. P (JNum n)" and "\<And>s. P (JStr s)"
    and "\<And>xs. (\<And>x. x \<in> set xs \<Longrightarrow> P x) \<Longrightarrow> P (JArr xs)"
    and "\<And>kvs. (\<And>kv. kv \<in> set (sort_key fst kvs) \<Longrightarrow> P (snd kv)) \<Longrightarrow> P (JObj kvs)"
  shows "P j"
  by (rule canonical_with.induct [of "\<lambda>enc. P" id]) (use assms in auto)

context string_code
begin

lemma canonical_kind: "\<exists>c s. canonical_with enc j = c # s \<and> c \<in> kind j"
proof (cases j)
  case (JNum n)
  obtain c s where "int_str n = c # s" using int_str_neq_Nil by (cases "int_str n") auto
  with JNum int_str_chars [of c n] show ?thesis by auto
next
  case (JStr s)
  then show ?thesis using enc_quoted [of s] by auto
qed auto

lemma canonical_not_stop: "canonical_with enc j @ r \<noteq> CHR '']'' # s"
proof -
  obtain c t where "canonical_with enc j = c # t" "c \<in> kind j" using canonical_kind by blast
  moreover have "CHR '']'' \<notin> kind j" by (cases j) (auto simp: num_char_def is_digit_def)
  ultimately show ?thesis by auto
qed

lemma kind_disjoint:
  assumes "canonical_with enc j @ r = canonical_with enc k @ s"
  shows "kind j \<inter> kind k \<noteq> {}"
proof -
  obtain c t d u where "canonical_with enc j = c # t" "c \<in> kind j"
    "canonical_with enc k = d # u" "d \<in> kind k"
    using canonical_kind by metis
  with assms show ?thesis by auto
qed

lemma canonical_inject_aux:
  "canonical_with enc j @ r = canonical_with enc k @ s \<Longrightarrow> stops r \<Longrightarrow> stops s \<Longrightarrow>
   sort_keys j = sort_keys k \<and> r = s"
proof (induction j arbitrary: k r s rule: json_induct)
  case 1
  then show ?case using kind_eqs(1) [OF kind_disjoint] by fastforce
next
  case (2 b)
  then show ?case using kind_eqs(2) [OF kind_disjoint] by fastforce
next
  case (3 n)
  with kind_eqs(3) [OF kind_disjoint] obtain m where "k = JNum m" by blast
  with 3 int_str_inject_stop [of n r m s] show ?case by simp
next
  case (4 t)
  with kind_eqs(4) [OF kind_disjoint] obtain u where "k = JStr u" by blast
  with 4 enc_inject [of t r u s] show ?case by simp
next
  case (5 xs)
  with kind_eqs(5) [OF kind_disjoint] obtain ys where k: "k = JArr ys" by blast
  have "map sort_keys xs = map sort_keys ys \<and> r = s"
  proof (rule join_inject)
    show "join_on CHR '','' (map (canonical_with enc) xs) @ CHR '']'' # r =
        join_on CHR '','' (map (canonical_with enc) ys) @ CHR '']'' # s"
      using 5(2) by (simp add: k)
    show "\<And>a b r s. a \<in> set xs \<Longrightarrow> b \<in> set ys \<Longrightarrow>
        canonical_with enc a @ r = canonical_with enc b @ s \<Longrightarrow> stops r \<Longrightarrow> stops s \<Longrightarrow>
        sort_keys a = sort_keys b \<and> r = s"
      by (rule 5(1))
    show "\<And>a r s. canonical_with enc a @ r \<noteq> CHR '']'' # s"
      by (rule canonical_not_stop)
  qed simp
  with k show ?case by simp
next
  case (6 kvs)
  with kind_eqs(6) [OF kind_disjoint] obtain kws where k: "k = JObj kws" by blast
  let ?f = "\<lambda>kv. enc (fst kv) @ CHR '':'' # canonical_with enc (snd kv)"
  let ?g = "\<lambda>kv. (fst kv, sort_keys (snd kv))"
  have "map ?g (sort_key fst kvs) = map ?g (sort_key fst kws) \<and> r = s"
  proof (rule join_inject)
    show "join_on CHR '','' (map ?f (sort_key fst kvs)) @ CHR ''}'' # r =
        join_on CHR '','' (map ?f (sort_key fst kws)) @ CHR ''}'' # s"
      using 6(2) by (simp add: k)
    fix a b q u
    assume a: "a \<in> set (sort_key fst kvs)" and eq: "?f a @ q = ?f b @ u" and st: "stops q" "stops u"
    have "enc (fst a) @ (CHR '':'' # canonical_with enc (snd a)) @ q =
        enc (fst b) @ (CHR '':'' # canonical_with enc (snd b)) @ u"
      using eq by simp
    from enc_inject [OF this] have "fst a = fst b"
      and "canonical_with enc (snd a) @ q = canonical_with enc (snd b) @ u"
      by simp_all
    with 6(1) [OF a _ st] show "?g a = ?g b \<and> q = u" by simp
  next
    fix a q u
    show "?f a @ q \<noteq> CHR ''}'' # u" using enc_quoted [of "fst a"] by auto
  qed simp
  with k show ?case by (simp add: sort_map_values [symmetric])
qed

lemma canonical_sort_keys: "canonical_with enc (sort_keys j) = canonical_with enc j"
proof (induction j rule: json_induct)
  case (5 xs)
  then have "map (canonical_with enc) (map sort_keys xs) = map (canonical_with enc) xs" by simp
  then show ?case by (simp only: sort_keys.simps canonical_with.simps)
next
  case (6 kvs)
  let ?f = "\<lambda>kv. enc (fst kv) @ CHR '':'' # canonical_with enc (snd kv)"
  let ?h = "\<lambda>kv. (fst kv, sort_keys (snd kv))"
  have "map ?f (sort_key fst (sort_key fst (map ?h kvs))) = map ?f (map ?h (sort_key fst kvs))"
    by (simp only: sort_key_idem sort_map_values)
  also have "\<dots> = map ?f (sort_key fst kvs)"
    using 6 by simp
  finally show ?case by (simp only: sort_keys.simps canonical_with.simps)
qed simp_all

text \<open>
  Values have the same canonical text exactly when they differ only in the order of the keys of
  their objects, so no two calls that differ in an argument share the text that is hashed.
\<close>

lemma canonical_eq_iff: "canonical_with enc j = canonical_with enc k \<longleftrightarrow> sort_keys j = sort_keys k"
proof
  assume "canonical_with enc j = canonical_with enc k"
  then have "canonical_with enc j @ [] = canonical_with enc k @ []" by simp
  from canonical_inject_aux [OF this] show "sort_keys j = sort_keys k" by simp
next
  assume "sort_keys j = sort_keys k"
  then show "canonical_with enc j = canonical_with enc k"
    by (metis canonical_sort_keys)
qed

end

interpretation go_strings: string_code goJsonString
  by unfold_locales (simp add: goJsonString_def, rule goJsonString_inject)

interpretation js_strings: string_code jsonString
  by unfold_locales (simp add: jsonString_def, auto simp: jsonString_def dest: js_chars.body_inject)

text \<open>C26: The canonical text of the approval hash is unambiguous: two values have the same text
  exactly when they are equal up to the order of object keys at every depth.\<close>

theorem canonicalApprovalJson_inject:
  "canonicalApprovalJson j = canonicalApprovalJson k \<longleftrightarrow> sort_keys j = sort_keys k"
  unfolding canonicalApprovalJson_def by (rule go_strings.canonical_eq_iff)

lemma approval_text_sort_keys:
  "sort_keys (approval_text a r args) = sort_keys (approval_text b s brgs) \<longleftrightarrow>
   a = b \<and> r = s \<and>
   sort_keys (JObj (case stripReservedAuditKeys args of Some x \<Rightarrow> x | None \<Rightarrow> [])) =
   sort_keys (JObj (case stripReservedAuditKeys brgs of Some x \<Rightarrow> x | None \<Rightarrow> []))"
  by (auto simp: approval_text_def)

text \<open>The hash an approval stores stands for one call. If two calls have the same hash, they
  have the same action and resource and, reserved keys left out, the same arguments up to key
  order, unless two texts that collide under the hash function have been found.\<close>

theorem hashApprovalAction_binds:
  assumes "hashApprovalAction sha256 action resource args = hashApprovalAction sha256 action' resource' args'"
  shows "action = action' \<and> resource = resource' \<and>
      sort_keys (JObj (case stripReservedAuditKeys args of Some x \<Rightarrow> x | None \<Rightarrow> [])) =
      sort_keys (JObj (case stripReservedAuditKeys args' of Some x \<Rightarrow> x | None \<Rightarrow> []))
    \<or> (let s = canonicalApprovalJson (approval_text action resource args);
           t = canonicalApprovalJson (approval_text action' resource' args')
       in s \<noteq> t \<and> sha256 s = sha256 t)"
proof (cases "canonicalApprovalJson (approval_text action resource args) =
    canonicalApprovalJson (approval_text action' resource' args')")
  case True
  then show ?thesis by (simp only: canonicalApprovalJson_def go_strings.canonical_eq_iff approval_text_sort_keys simp_thms)
next
  case False
  with assms show ?thesis unfolding hashApprovalAction_def Let_def by blast
qed

lemma strip_example:
  "stripReservedAuditKeys (Some [(''approvalId'', v), (''a'', w)]) = Some [(''a'', w)]"
  by (simp add: stripReservedAuditKeys_def isReservedAuditKey_def to_lower_def)

theorem hashApprovalAction_binds_witness:
  "sort_keys (JObj [(''a'', JNum 1)]) = sort_keys (JObj [(''a'', JNum 1)])
    \<or> (let s = canonicalApprovalJson (approval_text ''x'' ''y'' (Some [(''approvalId'', JNull), (''a'', JNum 1)]));
           t = canonicalApprovalJson (approval_text ''x'' ''y'' (Some [(''approvalId'', JStr ''p''), (''a'', JNum 1)]))
       in s \<noteq> t \<and> id s = (id t :: string))"
proof -
  let ?args = "Some [(''approvalId'', JNull), (''a'', JNum 1)]"
  have "hashApprovalAction id ''x'' ''y'' ?args
      = hashApprovalAction id ''x'' ''y'' (Some [(''approvalId'', JStr ''p''), (''a'', JNum 1)])"
    by (simp only: hashApprovalAction_def approval_text_def strip_example)
  from hashApprovalAction_binds [OF this] show ?thesis
    by (simp only: strip_example option.case simp_thms)
qed

end
