(* ===== verification/ApprovalSpend.thy ===== *)
theory ApprovalSpend
  imports SingleUse DecisionCodes AuthContext CanonicalJson
begin

text \<open>
  Spending an approval: \<open>approval/consume.ts\<close> and the stored step-up rule of
  \<open>approval/shared.ts\<close>. A spend reads the request, checks it, and issues one conditional
  update; between the read and the update other callers may change the table, so the model takes
  the table as it is at the read, at the update and at the second read.
\<close>

section \<open>Definitions\<close>

datatype approval_denial =
    NotFoundD | PendingD | DeniedD | MismatchD | ExpiredD | AlreadyUsedD
  | ArgumentsMismatchD | StepUpInsufficientD

fun approval_code :: "approval_denial \<Rightarrow> string" where
  "approval_code NotFoundD = ''APPROVAL_NOT_FOUND''"
| "approval_code PendingD = ''APPROVAL_PENDING''"
| "approval_code DeniedD = ''APPROVAL_DENIED''"
| "approval_code MismatchD = ''APPROVAL_MISMATCH''"
| "approval_code ExpiredD = ''APPROVAL_EXPIRED''"
| "approval_code AlreadyUsedD = ''APPROVAL_ALREADY_USED''"
| "approval_code ArgumentsMismatchD = ''APPROVAL_ARGUMENTS_MISMATCH''"
| "approval_code StepUpInsufficientD = ''APPROVAL_STEP_UP_INSUFFICIENT''"

fun decisionCodeOfApproval :: "approval_denial \<Rightarrow> decision_code" where
  "decisionCodeOfApproval NotFoundD = ApprovalNotFound"
| "decisionCodeOfApproval PendingD = ApprovalPending"
| "decisionCodeOfApproval DeniedD = ApprovalDenied"
| "decisionCodeOfApproval MismatchD = ApprovalMismatch"
| "decisionCodeOfApproval ExpiredD = ApprovalExpired"
| "decisionCodeOfApproval AlreadyUsedD = ApprovalAlreadyUsed"
| "decisionCodeOfApproval ArgumentsMismatchD = ApprovalArgumentsMismatch"
| "decisionCodeOfApproval StepUpInsufficientD = ApprovalStepUpInsufficient"

record consume_input =
  ci_approvalId :: ident
  ci_agentId :: ident
  ci_action :: string
  ci_resource :: string
  ci_arguments :: "(string \<times> json) list option"
  ci_minStepUp :: "auth_requirement option"

text \<open>The rule stored on a row. \<open>requirementOf\<close> reads it as a requirement.\<close>

definition requirementOf :: "string option \<Rightarrow> int option \<Rightarrow> auth_requirement option" where
  "requirementOf requiredAcr maxAuthAge =
     (if requiredAcr = None \<and> maxAuthAge = None then None
      else Some \<lparr>rq_acr = map_option AcrString requiredAcr, rq_maxAge = maxAuthAge\<rparr>)"

text \<open>
  The least rank of the known classes is \<^const>\<open>requiredRank\<close>; no known class is
  \<open>Math.min()\<close>, which is infinite and fails.
\<close>

definition stepUpCovers :: "string option \<Rightarrow> int option \<Rightarrow> auth_requirement \<Rightarrow> bool" where
  "stepUpCovers requiredAcr maxAuthAge needed \<longleftrightarrow>
     (let wanted = acrList (rq_acr needed)
      in wanted = [] \<or>
         (case (requiredRank wanted,
                requiredRank (acrList (Some (AcrString (case requiredAcr of Some a \<Rightarrow> a | None \<Rightarrow> []))))) of
            (Some need, Some have) \<Rightarrow> need \<le> have
          | _ \<Rightarrow> False))
     \<and> (case rq_maxAge needed of
          None \<Rightarrow> True
        | Some age \<Rightarrow> (case maxAuthAge of None \<Rightarrow> False | Some own \<Rightarrow> own \<le> age))"

text \<open>\<open>safeHash\<close>. A tree has no cycles, so the canonical text always exists.\<close>

definition safeHash ::
  "(string \<Rightarrow> 'h) \<Rightarrow> string \<Rightarrow> string \<Rightarrow> (string \<times> json) list option \<Rightarrow> 'h option" where
  "safeHash sha256 action resource args = Some (hashApprovalAction sha256 action resource args)"

definition classify ::
  "(string \<Rightarrow> 'h) \<Rightarrow> approval_row option \<Rightarrow> consume_input \<Rightarrow> time \<Rightarrow> approval_denial option" where
  "classify sha256 found input now =
     (case found of
        None \<Rightarrow> Some NotFoundD
      | Some row \<Rightarrow>
          if ap_agentId row \<noteq> ci_agentId input \<or> ap_action row \<noteq> ci_action input
             \<or> ap_resource row \<noteq> ci_resource input
          then Some MismatchD
          else if ap_status row = Denied then Some DeniedD
          else if ap_status row = Expired then Some ExpiredD
          else if ap_status row = Pending then
            (if ap_expiresAt row \<le> now then Some ExpiredD else Some PendingD)
          else if ap_consumedAt row \<noteq> None then Some AlreadyUsedD
          else if ap_expiresAt row \<le> now then Some ExpiredD
          else if (case ci_minStepUp input of
                     None \<Rightarrow> False
                   | Some needed \<Rightarrow> \<not> stepUpCovers (ap_requiredAcr row) (ap_maxAuthAge row) needed)
          then Some StepUpInsufficientD
          else
            let approved = safeHash sha256 (ap_action row) (ap_resource row) (ap_arguments row);
                presented = safeHash sha256 (ci_action input) (ci_resource input) (ci_arguments input)
            in if approved = None \<or> presented = None \<or> approved \<noteq> presented
               then Some ArgumentsMismatchD else None)"

definition load_approval :: "approval_row list \<Rightarrow> ident \<Rightarrow> approval_row option" where
  "load_approval rows i = List.find (\<lambda>r. ap_id r = i) rows"

definition spend_of :: "consume_input \<Rightarrow> approval_spend" where
  "spend_of input =
     \<lparr>as_id = ci_approvalId input, as_agentId = ci_agentId input, as_action = ci_action input,
      as_resource = ci_resource input\<rparr>"

text \<open>
  \<open>consumeApproval\<close>: the table at the first read, at the update and at the second read (made
  only when the update changed no row). The answer is a denial, or the approval id with the
  approver; the second component is the table after the update.
\<close>

definition consumeApproval ::
  "(string \<Rightarrow> 'h) \<Rightarrow> consume_input \<Rightarrow> time \<Rightarrow> approval_row list \<Rightarrow> approval_row list
     \<Rightarrow> approval_row list \<Rightarrow> time
     \<Rightarrow> (approval_denial + ident \<times> ident option) \<times> approval_row list" where
  "consumeApproval sha256 input now at_read at_update at_reread later =
     (let row = load_approval at_read (ci_approvalId input)
      in case classify sha256 row input now of
           Some early \<Rightarrow> (Inl early, at_update)
         | None \<Rightarrow>
             (case approvals_consume (spend_of input, now) at_update of
                (True, rows) \<Rightarrow> (Inr (ci_approvalId input, Option.bind row ap_respondedBy), rows)
              | (False, rows) \<Rightarrow>
                  (Inl (case classify sha256 (load_approval at_reread (ci_approvalId input)) input later of
                          Some code \<Rightarrow> code
                        | None \<Rightarrow> AlreadyUsedD),
                   rows)))"

section \<open>What every statement keeps\<close>

text \<open>The fields of a request no statement of the store ever writes.\<close>

definition request_fields ::
  "approval_row \<Rightarrow> ident \<times> ident \<times> ident \<times> string \<times> string \<times> (string \<times> json) list option
     \<times> string option \<times> int option \<times> nat option \<times> time" where
  "request_fields r =
     (ap_id r, ap_agentId r, ap_userId r, ap_action r, ap_resource r, ap_arguments r,
      ap_requiredAcr r, ap_maxAuthAge r, ap_requiredApprovals r, ap_expiresAt r)"

lemma approvals_keep_fields [table_simps]:
  "map request_fields (snd (approvals_decide i d now rows)) = map request_fields rows"
  "map request_fields (snd (approvals_expire i rows)) = map request_fields rows"
  "map request_fields (snd (approvals_consume k rows)) = map request_fields rows"
  by (simp_all add: approvals_decide_def approvals_expire_def approvals_consume_def flip_def
      map_update_where request_fields_def split: prod.splits)

text \<open>The table at the update is a later version of the one read.\<close>

definition later_version :: "approval_row list \<Rightarrow> approval_row list \<Rightarrow> bool" where
  "later_version rows rows' \<longleftrightarrow>
     (\<forall>r\<in>set rows. \<forall>r'\<in>set rows'. ap_id r = ap_id r' \<longrightarrow> request_fields r = request_fields r')"

lemma later_version_same_fields:
  assumes "unique_keys ap_id rows" and "map request_fields rows' = map request_fields rows"
  shows "later_version rows rows'"
  unfolding later_version_def
proof (intro ballI impI)
  fix r r' assume r: "r \<in> set rows" and r': "r' \<in> set rows'" and id: "ap_id r = ap_id r'"
  from r' have "request_fields r' \<in> set (map request_fields rows')" by simp
  then obtain q where q: "q \<in> set rows" "request_fields q = request_fields r'"
    using assms(2) by auto
  then have "ap_id q = ap_id r" using id by (simp add: request_fields_def)
  with q r unique_keysD [OF assms(1)] show "request_fields r = request_fields r'" by metis
qed

lemma load_SomeD: "load_approval rows i = Some r \<Longrightarrow> r \<in> set rows \<and> ap_id r = i"
  by (auto simp: load_approval_def dest: find_SomeD)

lemma classify_None:
  "classify sha256 (Some row) input now = None \<longleftrightarrow>
     ap_agentId row = ci_agentId input \<and> ap_action row = ci_action input
     \<and> ap_resource row = ci_resource input \<and> ap_status row = Approved
     \<and> ap_consumedAt row = None \<and> now < ap_expiresAt row
     \<and> (\<forall>needed. ci_minStepUp input = Some needed \<longrightarrow>
          stepUpCovers (ap_requiredAcr row) (ap_maxAuthAge row) needed)
     \<and> hashApprovalAction sha256 (ap_action row) (ap_resource row) (ap_arguments row) =
       hashApprovalAction sha256 (ci_action input) (ci_resource input) (ci_arguments input)"
  by (cases "ap_status row")
    (auto simp: classify_def safeHash_def Let_def split: option.splits if_splits)

lemma consume_result: "approvals_consume (s, now) rows = (b, rows') \<Longrightarrow>
   (b \<longleftrightarrow> (\<exists>r\<in>set rows. spendable s now r))
   \<and> rows' = update_where (spendable s now) (ap_consumedAt_update (\<lambda>_. Some now)) rows"
  by (auto simp: approvals_consume_def dest: flip_result)

section \<open>A spend that succeeds\<close>

lemma consume_ok_facts:
  assumes "consumeApproval sha256 input now at_read at_update at_reread later = (Inr (i, approver), rows')"
    and "later_version at_read at_update"
  shows "i = ci_approvalId input \<and>
    (\<exists>r\<in>set at_update. ap_id r = i \<and> ap_status r = Approved \<and> ap_consumedAt r = None
      \<and> now < ap_expiresAt r \<and> ap_agentId r = ci_agentId input \<and> ap_action r = ci_action input
      \<and> ap_resource r = ci_resource input
      \<and> hashApprovalAction sha256 (ap_action r) (ap_resource r) (ap_arguments r) =
          hashApprovalAction sha256 (ci_action input) (ci_resource input) (ci_arguments input)
      \<and> (\<forall>needed. ci_minStepUp input = Some needed \<longrightarrow>
            stepUpCovers (ap_requiredAcr r) (ap_maxAuthAge r) needed)
      \<and> r\<lparr>ap_consumedAt := Some now\<rparr> \<in> set rows')"
proof -
  let ?i = "ci_approvalId input" and ?s = "spend_of input"
  from assms(1) have c: "classify sha256 (load_approval at_read ?i) input now = None"
    and u: "approvals_consume (?s, now) at_update = (True, rows')" and i: "i = ?i"
    by (auto simp: consumeApproval_def Let_def split: option.splits prod.splits bool.splits)
  from c obtain row where row: "load_approval at_read ?i = Some row"
    by (cases "load_approval at_read ?i") (auto simp: classify_def)
  from load_SomeD [OF row] have in_read: "row \<in> set at_read" "ap_id row = ?i" by auto
  from consume_result [OF u] obtain r where r: "r \<in> set at_update" "spendable ?s now r"
    and rows': "rows' = update_where (spendable ?s now) (ap_consumedAt_update (\<lambda>_. Some now)) at_update"
    by auto
  then have "request_fields row = request_fields r"
    using assms(2) in_read by (simp add: later_version_def spendable_def spend_of_def)
  with c row r(2) have "ap_id r = i \<and> ap_status r = Approved \<and> ap_consumedAt r = None
      \<and> now < ap_expiresAt r \<and> ap_agentId r = ci_agentId input \<and> ap_action r = ci_action input
      \<and> ap_resource r = ci_resource input
      \<and> hashApprovalAction sha256 (ap_action r) (ap_resource r) (ap_arguments r) =
          hashApprovalAction sha256 (ci_action input) (ci_resource input) (ci_arguments input)
      \<and> (\<forall>needed. ci_minStepUp input = Some needed \<longrightarrow>
            stepUpCovers (ap_requiredAcr r) (ap_maxAuthAge r) needed)"
    by (clarsimp simp: classify_None request_fields_def spendable_def spend_of_def i)
  moreover have "r\<lparr>ap_consumedAt := Some now\<rparr> \<in> set rows'"
    using r unfolding rows' set_update_where by (force simp: image_iff)
  ultimately show ?thesis using r(1) i by blast
qed

text \<open>
  C15: an approval is spent only for the call the human approved. However the table changed between
  the read and the update, a successful spend names a request that is approved, unexpired and
  unspent at the update, for this agent, action and resource, whose stored arguments have the hash
  of the presented ones, and whose stored step-up rule covers the one the policy demands; the
  update marks it spent.
\<close>

theorem consumeApproval_ok:
  assumes "consumeApproval sha256 input now at_read at_update at_reread later = (Inr (i, approver), rows')"
    and "later_version at_read at_update"
  shows "i = ci_approvalId input \<and>
    (\<exists>r\<in>set at_update. ap_id r = i \<and> ap_status r = Approved \<and> ap_consumedAt r = None
      \<and> now < ap_expiresAt r \<and> ap_agentId r = ci_agentId input \<and> ap_action r = ci_action input
      \<and> ap_resource r = ci_resource input
      \<and> hashApprovalAction sha256 (ap_action r) (ap_resource r) (ap_arguments r) =
          hashApprovalAction sha256 (ci_action input) (ci_resource input) (ci_arguments input)
      \<and> (\<forall>needed. ci_minStepUp input = Some needed \<longrightarrow>
            stepUpCovers (ap_requiredAcr r) (ap_maxAuthAge r) needed)
      \<and> r\<lparr>ap_consumedAt := Some now\<rparr> \<in> set rows')"
  using assms by (rule consume_ok_facts)

definition sample_consume :: consume_input where
  "sample_consume =
     \<lparr>ci_approvalId = ''apr_1'', ci_agentId = ''ag'', ci_action = ''write'', ci_resource = ''file:a'',
      ci_arguments = None, ci_minStepUp = None\<rparr>"

lemma sample_consume_run:
  "consumeApproval id sample_consume 10 [sample_approval] [sample_approval] [] 10 =
     (Inr (''apr_1'', Some ''boss''), [sample_approval\<lparr>ap_consumedAt := Some 10\<rparr>])"
proof -
  have "load_approval [sample_approval] ''apr_1'' = Some sample_approval"
    by (simp add: load_approval_def sample_approval_def)
  moreover have "classify id (Some sample_approval) sample_consume 10 = None"
    unfolding classify_None by (simp add: sample_approval_def sample_consume_def)
  moreover have "approvals_consume (spend_of sample_consume, 10) [sample_approval] =
      (True, [sample_approval\<lparr>ap_consumedAt := Some 10\<rparr>])"
    by (simp add: approvals_consume_def flip_def count_where_def spendable_def spend_of_def
        sample_approval_def sample_consume_def)
  moreover have "ci_approvalId sample_consume = ''apr_1''" "ap_respondedBy sample_approval = Some ''boss''"
    by (simp_all add: sample_consume_def sample_approval_def)
  ultimately show ?thesis by (simp add: consumeApproval_def)
qed

theorem consumeApproval_ok_witness:
  "\<exists>r\<in>set [sample_approval]. ap_status r = Approved \<and> ap_agentId r = ''ag''
     \<and> r\<lparr>ap_consumedAt := Some 10\<rparr> \<in> set [sample_approval\<lparr>ap_consumedAt := Some 10\<rparr>]"
proof -
  have "later_version [sample_approval] [sample_approval]" by (simp add: later_version_def)
  from consumeApproval_ok [OF sample_consume_run this] show ?thesis
    by (auto simp: sample_consume_def)
qed

section \<open>A spend alone\<close>

lemma load_unique:
  "unique_keys ap_id rows \<Longrightarrow> load_approval rows i = Some row \<Longrightarrow> r \<in> set rows \<Longrightarrow> ap_id r = i \<Longrightarrow> r = row"
  using load_SomeD unique_keysD by metis

lemma quiet_facts:
  assumes "unique_keys ap_id rows"
  shows "consumeApproval sha256 input now rows rows rows' later =
    (case classify sha256 (load_approval rows (ci_approvalId input)) input now of
       Some code \<Rightarrow> (Inl code, rows)
     | None \<Rightarrow>
         (Inr (ci_approvalId input, Option.bind (load_approval rows (ci_approvalId input)) ap_respondedBy),
          update_where (\<lambda>r. ap_id r = ci_approvalId input) (ap_consumedAt_update (\<lambda>_. Some now)) rows))"
proof (cases "classify sha256 (load_approval rows (ci_approvalId input)) input now")
  case (Some code)
  then show ?thesis by (simp add: consumeApproval_def)
next
  case None
  let ?i = "ci_approvalId input" and ?s = "spend_of input"
  from None obtain row where row: "load_approval rows ?i = Some row"
    by (cases "load_approval rows ?i") (auto simp: classify_def)
  note in_rows = load_SomeD [OF row]
  have sp: "spendable ?s now row"
    using None row in_rows by (simp add: classify_None spendable_def spend_of_def)
  have "spendable ?s now r \<longleftrightarrow> ap_id r = ?i" if "r \<in> set rows" for r
    using sp that load_unique [OF assms row that] by (auto simp: spendable_def spend_of_def)
  then have eq: "update_where (spendable ?s now) f rows = update_where (\<lambda>r. ap_id r = ?i) f rows" for f
    by (simp add: update_where_def)
  obtain b rows1 where u: "approvals_consume (?s, now) rows = (b, rows1)" by fastforce
  from consume_result [OF u] have "b" "rows1 = update_where (\<lambda>r. ap_id r = ?i) (ap_consumedAt_update (\<lambda>_. Some now)) rows"
    using sp in_rows eq by auto
  with u None show ?thesis by (simp add: consumeApproval_def)
qed

text \<open>
  Without interference a spend is exactly its check. On a table with unique ids a spend
  succeeds if and only if the check of the row passes, and then it changes that row only, by
  marking it spent; otherwise it reports the code of the check and leaves the table as it is.
\<close>

theorem consumeApproval_quiet:
  assumes "unique_keys ap_id rows"
  shows "consumeApproval sha256 input now rows rows rows' later =
    (case classify sha256 (load_approval rows (ci_approvalId input)) input now of
       Some code \<Rightarrow> (Inl code, rows)
     | None \<Rightarrow>
         (Inr (ci_approvalId input, Option.bind (load_approval rows (ci_approvalId input)) ap_respondedBy),
          update_where (\<lambda>r. ap_id r = ci_approvalId input) (ap_consumedAt_update (\<lambda>_. Some now)) rows))"
  using assms by (rule quiet_facts)

theorem consumeApproval_quiet_witness:
  "consumeApproval id (sample_consume\<lparr>ci_agentId := ''other''\<rparr>) 10 [sample_approval] [sample_approval] [] 10 =
     (Inl MismatchD, [sample_approval])"
proof -
  have "unique_keys ap_id [sample_approval]" by (simp add: unique_keys_def)
  moreover have "load_approval [sample_approval] ''apr_1'' = Some sample_approval"
    by (simp add: load_approval_def sample_approval_def)
  moreover have "classify id (Some sample_approval) (sample_consume\<lparr>ci_agentId := ''other''\<rparr>) 10 = Some MismatchD"
    by (simp add: classify_def sample_approval_def sample_consume_def)
  ultimately show ?thesis
    using consumeApproval_quiet [of "[sample_approval]" id "sample_consume\<lparr>ci_agentId := ''other''\<rparr>" 10 "[]" 10]
    by (simp add: sample_consume_def)
qed

section \<open>Step-up rules\<close>

lemma fresh_event_weaker:
  "fresh_event n age now e \<Longrightarrow> m \<le> n \<Longrightarrow> age \<le> age' \<Longrightarrow> 0 \<le> age \<Longrightarrow> fresh_event m age' now e"
  by (auto simp: fresh_event_def)

lemma age_met_weaker:
  assumes met: "age_met a (Some own) n now" and "m \<le> n" and "own \<le> age"
  shows "age_met a (Some age) m now"
proof -
  from met have own: "0 \<le> own" by (simp add: age_met_def)
  have ev: "fresh_event n own now e \<Longrightarrow> fresh_event m age now e" for e
    using fresh_event_weaker assms(2,3) own by blast
  show ?thesis
    using met own assms(3) ev
    by (fastforce simp: age_met_def split: option.splits list.splits)
qed

lemma covers_met:
  assumes "stepUpCovers requiredAcr maxAuthAge needed"
    and "\<And>rule. requirementOf requiredAcr maxAuthAge = Some rule \<Longrightarrow>
      evaluateAuthRequirement assertion rule now = Met"
  shows "evaluateAuthRequirement assertion needed now = Met"
proof (cases "requirementOf requiredAcr maxAuthAge")
  case None
  then have "requiredAcr = None" "maxAuthAge = None" by (auto simp: requirementOf_def split: if_splits)
  with assms(1) show ?thesis
    by (auto simp: stepUpCovers_def Let_def requirement_Met_iff age_met_def acrList_def requiredRank_def
        trim_def map_filter_simps split: option.splits)
next
  case (Some rule)
  then have rule: "rule = \<lparr>rq_acr = map_option AcrString requiredAcr, rq_maxAge = maxAuthAge\<rparr>"
    by (auto simp: requirementOf_def split: if_splits)
  let ?own = "acrList (map_option AcrString requiredAcr)"
  note met = assms(2) [OF Some, unfolded rule requirement_Met_iff, simplified]
  have stored: "acrList (Some (AcrString (case requiredAcr of Some a \<Rightarrow> a | None \<Rightarrow> []))) = ?own"
    by (auto simp: acrList_def trim_def split: option.splits)
  obtain n where n: "age_met assertion maxAuthAge n now"
    "?own = [] \<and> n = 0 \<or> ?own \<noteq> [] \<and> requiredRank ?own = Some n
       \<and> (\<exists>h. Option.bind (Option.bind assertion aa_acr) rankOf = Some h \<and> n \<le> h)"
    using met by (auto split: if_splits)
  have age: "age_met assertion (rq_maxAge needed) m now" if "m \<le> n" for m
  proof (cases "rq_maxAge needed")
    case (Some age)
    with assms(1) obtain own where "maxAuthAge = Some own" "own \<le> age"
      by (auto simp: stepUpCovers_def split: option.splits)
    with n(1) that Some age_met_weaker show ?thesis by metis
  qed (simp add: age_met_def)
  show ?thesis
  proof (cases "acrList (rq_acr needed) = []")
    case True
    with age show ?thesis by (simp add: requirement_Met_iff)
  next
    case False
    with assms(1) obtain need have' where r: "requiredRank (acrList (rq_acr needed)) = Some need"
      "requiredRank ?own = Some have'" "need \<le> have'"
      by (auto simp: stepUpCovers_def Let_def stored split: option.splits)
    then have "?own \<noteq> []" by (auto simp: requiredRank_def map_filter_simps)
    with n(2) r obtain h where "Option.bind (Option.bind assertion aa_acr) rankOf = Some h" "need \<le> n" "n \<le> h"
      by auto
    with False r age show ?thesis by (fastforce simp: requirement_Met_iff)
  qed
qed

text \<open>
  Covering is sound. Whoever met the rule stored on the approval meets every rule that
  \<open>stepUpCovers\<close> accepts it for, at the same moment, so an approval granted under the stored rule
  was granted by someone who satisfied the policy's.
\<close>

theorem stepUpCovers_sound:
  assumes "stepUpCovers requiredAcr maxAuthAge needed"
    and "\<And>rule. requirementOf requiredAcr maxAuthAge = Some rule \<Longrightarrow>
      evaluateAuthRequirement assertion rule now = Met"
  shows "evaluateAuthRequirement assertion needed now = Met"
  using assms by (rule covers_met)

theorem stepUpCovers_sound_witness:
  "evaluateAuthRequirement
     (Some \<lparr>aa_acr = None, aa_authTime = Some 95, aa_amr = None, aa_events = None\<rparr>)
     \<lparr>rq_acr = None, rq_maxAge = Some 30\<rparr> 100 = Met"
proof (rule stepUpCovers_sound)
  show "stepUpCovers None (Some 10) \<lparr>rq_acr = None, rq_maxAge = Some 30\<rparr>"
    by (simp add: stepUpCovers_def acrList_def)
  fix rule assume "requirementOf None (Some 10) = Some rule"
  then have "rule = \<lparr>rq_acr = None, rq_maxAge = Some 10\<rparr>" by (auto simp: requirementOf_def)
  then show "evaluateAuthRequirement
      (Some \<lparr>aa_acr = None, aa_authTime = Some 95, aa_amr = None, aa_events = None\<rparr>) rule 100 = Met"
    by (simp add: requirement_Met_iff age_met_def acrList_def)
qed

end
