(* ===== verification/PermissionEngine.thy ===== *)
theory PermissionEngine
  imports ApprovalSpend
begin

text \<open>
  The permission engine: \<open>permission/engine.ts\<close>. One call finds the permission that grants the
  action, evaluates its constraints (the rate limit counts the call), lets an approval stand in for
  \<open>requireApproval\<close>, and writes one audit row. An audit write may fail, which is the argument
  \<open>fault\<close>; it never changes the decision. Durations and the captured input provenance of an audit
  row are not modelled.
\<close>

section \<open>Data\<close>

record agent_identity =
  ag_id :: ident
  ag_name :: string
  ag_ownerId :: ident
  ag_permissions :: "permission list"

record authorize_request =
  zr_action :: string
  zr_resource :: string
  zr_arguments :: "(string \<times> json) list option"
  zr_approvalId :: "ident option"
  zr_contextIp :: "string option"
  zr_ip :: "string option"
  zr_userAgent :: "string option"

record authorize_options =
  zo_deferDenialAudit :: bool
  zo_auditParameters :: "(string \<times> json) list option"
  zo_attestation :: "attestation_facts option"

datatype authorize_reason =
    NotGranted string string string
  | ConstraintFailed "constraint_failure option"
  | ApprovalRefused approval_denial
  | ApprovalSpent
  | CodeAsReason decision_code
  | GivenReason string
  | NoReason

record authorize_result =
  zs_allowed :: bool
  zs_reason :: authorize_reason
  zs_auditId :: ident
  zs_code :: decision_code

datatype audit_result = AllowedRes | DeniedRes | EscalatedRes

record engine_audit =
  ea_id :: ident
  ea_agentId :: ident
  ea_userId :: ident
  ea_action :: string
  ea_resource :: string
  ea_parameters :: "(string \<times> json) list"
  ea_result :: audit_result
  ea_reason :: authorize_reason
  ea_decisionCode :: decision_code
  ea_approverId :: "ident option"
  ea_subjectId :: "ident option"
  ea_actorId :: "ident option"
  ea_delegationChain :: "ident list option"
  ea_ip :: "string option"
  ea_userAgent :: "string option"

record engine_db =
  en_approvals :: "approval_row list"
  en_rates :: "rate_row list"
  en_audit :: "engine_audit list"

record engine_config =
  ec_auditAll :: bool
  ec_resourceMatching :: "resource_matching option"

text \<open>A reading of the clock: the instant and the local hour and minute.\<close>

record clock =
  ck_now :: time
  ck_hours :: nat
  ck_minutes :: nat

section \<open>Audit rows\<close>

text \<open>Spreading objects: a later entry replaces an earlier one of its key, in its place.\<close>

fun put_entry :: "string \<times> 'v \<Rightarrow> (string \<times> 'v) list \<Rightarrow> (string \<times> 'v) list" where
  "put_entry kv [] = [kv]"
| "put_entry kv (x # xs) = (if fst x = fst kv then kv # xs else x # put_entry kv xs)"

definition spread :: "(string \<times> json) list \<Rightarrow> (string \<times> json) list \<Rightarrow> (string \<times> json) list" where
  "spread entries out = fold put_entry entries out"

definition request_ip :: "authorize_request \<Rightarrow> string option" where
  "request_ip req = (case zr_contextIp req of Some ip \<Rightarrow> Some ip | None \<Rightarrow> zr_ip req)"

definition writeAuditLog ::
  "bool \<Rightarrow> agent_identity \<Rightarrow> authorize_request \<Rightarrow> authorize_result \<Rightarrow> (ident \<times> ident option) option
     \<Rightarrow> (string \<times> json) list option \<Rightarrow> engine_db \<Rightarrow> engine_db" where
  "writeAuditLog fault agent req result consumed auditParameters db =
     (if fault then db
      else db\<lparr>en_audit := en_audit db @
        [\<lparr>ea_id = zs_auditId result, ea_agentId = ag_id agent, ea_userId = ag_ownerId agent,
          ea_action = zr_action req, ea_resource = zr_resource req,
          ea_parameters =
            spread (case auditParameters of Some ps \<Rightarrow> ps | None \<Rightarrow> [])
              (spread (case consumed of Some (i, _) \<Rightarrow> [(''approvalId'', JStr i)] | None \<Rightarrow> [])
                (case stripReservedAuditKeys (zr_arguments req) of Some args \<Rightarrow> args | None \<Rightarrow> [])),
          ea_result = (if zs_allowed result then AllowedRes else DeniedRes), ea_reason = zs_reason result,
          ea_decisionCode = zs_code result, ea_approverId = Option.bind consumed snd,
          ea_subjectId = None, ea_actorId = None, ea_delegationChain = None,
          ea_ip = request_ip req, ea_userAgent = zr_userAgent req\<rparr>]\<rparr>)"

section \<open>Authorization\<close>

text \<open>The constraint part of \<open>authorize\<close>: the verdict, the approval spent, the new tables.\<close>

datatype verdict = Granted "(ident \<times> ident option) option" | Refused authorize_reason "decision_code option"

definition spend_approval ::
  "(string \<Rightarrow> 'h) \<Rightarrow> agent_identity \<Rightarrow> authorize_request \<Rightarrow> ident \<Rightarrow> time \<Rightarrow> engine_db \<Rightarrow> verdict \<times> engine_db" where
  "spend_approval sha256 agent req i now db =
     (case consumeApproval sha256
             \<lparr>ci_approvalId = i, ci_agentId = ag_id agent, ci_action = zr_action req,
              ci_resource = zr_resource req, ci_arguments = zr_arguments req, ci_minStepUp = None\<rparr>
             now (en_approvals db) (en_approvals db) (en_approvals db) now of
        (Inr spent, rows) \<Rightarrow> (Granted (Some spent), db\<lparr>en_approvals := rows\<rparr>)
      | (Inl code, rows) \<Rightarrow>
          (Refused (ApprovalRefused code) (Some (decisionCodeOfApproval code)), db\<lparr>en_approvals := rows\<rparr>))"

definition constraint_verdict ::
  "(string \<Rightarrow> 'h) \<Rightarrow> regex_engine \<Rightarrow> clock \<Rightarrow> clock \<Rightarrow> agent_identity \<Rightarrow> authorize_request
     \<Rightarrow> authorize_options \<Rightarrow> permission_constraints \<Rightarrow> engine_db \<Rightarrow> verdict \<times> engine_db" where
  "constraint_verdict sha256 compile c1 c2 agent req options cs db =
     (let input = \<lparr>in_subjectId = ag_id agent, in_resource = zr_resource req,
                   in_arguments = map_option JObj (zr_arguments req), in_ip = request_ip req,
                   in_attestation = zo_attestation options\<rparr>
      in case evaluateConstraints compile (en_rates db) (ck_now c1) (ck_hours c1) (ck_minutes c1) input cs of
           (result, rates) \<Rightarrow>
             (let db1 = db\<lparr>en_rates := rates\<rparr>
              in if cr_allowed result then (Granted None, db1)
                 else if cr_needsApproval result \<and> zr_approvalId req \<notin> {None, Some []} then
                   (let rest = inspectConstraints compile input
                                 (cs\<lparr>pc_requireApproval := False, pc_maxCallsPerHour := None\<rparr>)
                                 \<lparr>io_hours = ck_hours c2, io_minutes = ck_minutes c2, io_rateUsage = None\<rparr>
                    in if ci_allowed rest
                       then spend_approval sha256 agent req (the (zr_approvalId req)) (ck_now c2) db1
                       else (Refused (ConstraintFailed (ci_reason rest)) (ci_code rest), db1))
                 else (Refused (ConstraintFailed (cr_reason result)) (cr_code result), db1)))"

definition authorize ::
  "engine_config \<Rightarrow> (string \<Rightarrow> 'h) \<Rightarrow> regex_engine \<Rightarrow> bool \<Rightarrow> clock \<Rightarrow> clock \<Rightarrow> ident
     \<Rightarrow> agent_identity \<Rightarrow> authorize_request \<Rightarrow> authorize_options \<Rightarrow> engine_db
     \<Rightarrow> authorize_result \<times> engine_db" where
  "authorize config sha256 compile fault c1 c2 auditId agent req options db =
     (let auditDenials = (ec_auditAll config \<and> \<not> zo_deferDenialAudit options);
          deny = (\<lambda>reason code db.
            (let result = \<lparr>zs_allowed = False, zs_reason = reason, zs_auditId = auditId, zs_code = code\<rparr>
             in (result, if auditDenials
                         then writeAuditLog fault agent req result None (zo_auditParameters options) db else db)));
          allow = (\<lambda>consumed db.
            (let result =
                   (if consumed \<noteq> None
                    then \<lparr>zs_allowed = True, zs_reason = ApprovalSpent, zs_auditId = auditId, zs_code = ApprovalConsumed\<rparr>
                    else \<lparr>zs_allowed = True, zs_reason = NoReason, zs_auditId = auditId, zs_code = Allowed\<rparr>)
             in (result, if ec_auditAll config
                         then writeAuditLog fault agent req result consumed (zo_auditParameters options) db else db)))
      in case findMatchingPermission (ag_permissions agent) (zr_action req) (zr_resource req)
                (case ec_resourceMatching config of Some m \<Rightarrow> m | None \<Rightarrow> Colon) of
           None \<Rightarrow> deny (NotGranted (ag_name agent) (zr_action req) (zr_resource req)) NoPermission db
         | Some (p, _) \<Rightarrow>
             (case pm_constraints p of
                None \<Rightarrow> allow None db
              | Some cs \<Rightarrow>
                  (case constraint_verdict sha256 compile c1 c2 agent req options cs db of
                     (Granted consumed, db1) \<Rightarrow> allow consumed db1
                   | (Refused reason code, db1) \<Rightarrow>
                       deny reason (case code of Some c \<Rightarrow> c | None \<Rightarrow> NoPermission) db1)))"

section \<open>Denials recorded by callers\<close>

record denial_extra =
  dx_parameters :: "(string \<times> json) list option"
  dx_subjectId :: "ident option"
  dx_actorId :: "ident option"
  dx_delegationChain :: "ident list option"
  dx_result :: "audit_result option"
  dx_reason :: "string option"

text \<open>\<open>recordDenial\<close>: the id of the row, empty when none was written.\<close>

definition recordDenial ::
  "engine_config \<Rightarrow> bool \<Rightarrow> ident \<Rightarrow> ident \<times> ident \<Rightarrow> authorize_request \<Rightarrow> decision_code \<Rightarrow> denial_extra option
     \<Rightarrow> engine_db \<Rightarrow> ident \<times> engine_db" where
  "recordDenial config fault auditId target req code extra db =
     (if \<not> ec_auditAll config then ([], db)
      else if fault then ([], db)
      else (auditId,
        db\<lparr>en_audit := en_audit db @
          [\<lparr>ea_id = auditId, ea_agentId = fst target, ea_userId = snd target, ea_action = zr_action req,
            ea_resource = zr_resource req,
            ea_parameters =
              (case Option.bind extra dx_parameters of
                 Some ps \<Rightarrow> ps
               | None \<Rightarrow> (case stripReservedAuditKeys (zr_arguments req) of Some args \<Rightarrow> args | None \<Rightarrow> [])),
            ea_result = (case Option.bind extra dx_result of Some r \<Rightarrow> r | None \<Rightarrow> DeniedRes),
            ea_reason = (case Option.bind extra dx_reason of Some r \<Rightarrow> GivenReason r | None \<Rightarrow> CodeAsReason code),
            ea_decisionCode = code, ea_approverId = None,
            ea_subjectId = Option.bind extra dx_subjectId, ea_actorId = Option.bind extra dx_actorId,
            ea_delegationChain = Option.bind extra dx_delegationChain, ea_ip = request_ip req,
            ea_userAgent = zr_userAgent req\<rparr>]\<rparr>))"

definition auditDenial ::
  "engine_config \<Rightarrow> bool \<Rightarrow> agent_identity \<Rightarrow> authorize_request \<Rightarrow> authorize_result
     \<Rightarrow> (string \<times> json) list option \<Rightarrow> engine_db \<Rightarrow> engine_db" where
  "auditDenial config fault agent req result auditParameters db =
     (if \<not> ec_auditAll config \<or> zs_allowed result \<or> zs_auditId result = [] then db
      else writeAuditLog fault agent req result None auditParameters db)"

section \<open>What an allow means\<close>

lemma writeAuditLog_keeps [simp]:
  "en_approvals (writeAuditLog fault agent req result consumed ps db) = en_approvals db"
  "en_rates (writeAuditLog fault agent req result consumed ps db) = en_rates db"
  by (simp_all add: writeAuditLog_def)

lemma later_version_refl: "unique_keys ap_id rows \<Longrightarrow> later_version rows rows"
  by (rule later_version_same_fields) simp_all

lemma spend_approval_Granted:
  assumes "spend_approval sha256 agent req i now db = (Granted consumed, db')"
    and "unique_keys ap_id (en_approvals db)"
  shows "\<exists>r\<in>set (en_approvals db). ap_id r = i \<and> ap_status r = Approved \<and> ap_consumedAt r = None
    \<and> now < ap_expiresAt r \<and> ap_agentId r = ag_id agent \<and> ap_action r = zr_action req
    \<and> ap_resource r = zr_resource req
    \<and> hashApprovalAction sha256 (ap_action r) (ap_resource r) (ap_arguments r) =
        hashApprovalAction sha256 (zr_action req) (zr_resource req) (zr_arguments req)
    \<and> r\<lparr>ap_consumedAt := Some now\<rparr> \<in> set (en_approvals db')"
proof -
  let ?in = "\<lparr>ci_approvalId = i, ci_agentId = ag_id agent, ci_action = zr_action req,
              ci_resource = zr_resource req, ci_arguments = zr_arguments req, ci_minStepUp = None\<rparr>"
  let ?rows = "en_approvals db"
  obtain res rows' where c: "consumeApproval sha256 ?in now ?rows ?rows ?rows now = (res, rows')" by fastforce
  with assms obtain j approver where "res = Inr (j, approver)" and db': "db' = db\<lparr>en_approvals := rows'\<rparr>"
    by (cases res) (auto simp: spend_approval_def)
  with c consume_ok_facts [OF _ later_version_refl [OF assms(2)], of sha256 ?in now ?rows now j approver rows']
  show ?thesis by fastforce
qed

lemma constraints_allowed_facts:
  assumes "evaluateConstraints compile rows now h m input cs = (r, rows')" and "cr_allowed r"
  shows "args_ok compile cs (in_arguments input) \<and> attestation_ok cs (in_attestation input)
    \<and> \<not> pc_requireApproval cs \<and> window_ok cs (h * 60 + m) \<and> ip_ok cs (in_ip input)"
  using assms by (auto simp: evaluateConstraints_def Let_def inspect_allowed_iff split: prod.splits if_splits)

lemma evaluate_needs:
  assumes "evaluateConstraints compile rows now h m input cs = (r, rows')"
    and "\<not> cr_allowed r" and "cr_needsApproval r"
  shows "pc_requireApproval cs \<and> args_ok compile cs (in_arguments input)
    \<and> attestation_ok cs (in_attestation input)"
proof -
  have rate: "cr_allowed rr \<or> \<not> cr_needsApproval rr" if "checkRateLimit rows now a res limit = (rr, rs)" for a res limit rr rs
    using that by (auto simp: checkRateLimit_def Let_def allow_result_def split: if_splits prod.splits bool.splits)
  have "ci_needsApproval (inspectConstraints compile input cs \<lparr>io_hours = h, io_minutes = m, io_rateUsage = None\<rparr>)"
    using assms by (auto simp: evaluateConstraints_def Let_def allow_result_def dest: rate
        split: prod.splits if_splits option.splits)
  from needs_approval_facts [OF this] show ?thesis by simp
qed

lemma evaluate_keeps_rates_without_limit:
  "pc_maxCallsPerHour cs = None \<Longrightarrow>
   snd (evaluateConstraints compile rows now h m input cs) = rows"
  by (auto simp: evaluateConstraints_def Let_def allow_result_def)

text \<open>
  The hourly limit of a permission, when it has one and the subject has an id: the calls of the last
  hour recorded after the call are within it. On a table with well-formed rows the calls recorded
  before it were below the limit, and this call was added to them.
\<close>

definition rate_passed ::
  "permission_constraints \<Rightarrow> ident \<Rightarrow> string \<Rightarrow> time \<Rightarrow> rate_row list \<Rightarrow> rate_row list \<Rightarrow> bool" where
  "rate_passed cs a resource now rates rates' \<longleftrightarrow>
     (case pc_maxCallsPerHour cs of
        None \<Rightarrow> rates' = rates
      | Some limit \<Rightarrow> a \<noteq> [] \<longrightarrow>
          readRateUsage rates' a resource now \<le> limit
          \<and> (rate_table rates \<and> CHR '':'' \<notin> set a \<longrightarrow>
               readRateUsage rates a resource now < limit
               \<and> readRateUsage rates' a resource now = readRateUsage rates a resource now + 1))"

lemma checkRateLimit_within:
  assumes "checkRateLimit rows now a res limit = (r, rows')" and "cr_allowed r" and "a \<noteq> []"
  shows "readRateUsage rows' a res now \<le> limit"
  using assms
  by (auto simp: checkRateLimit_def rateLimits_reserve_def readRateUsage_def Let_def split: if_splits prod.splits)

lemma checkRateLimit_passed:
  assumes "checkRateLimit rates now a res limit = (r, rates')" and "cr_allowed r"
    and "pc_maxCallsPerHour cs = Some limit"
  shows "rate_passed cs a res now rates rates'"
  using checkRateLimit_within [OF assms(1,2)] checkRateLimit_counts [OF _ _ _ assms(1)] assms(2,3)
  by (auto simp: rate_passed_def)

lemma evaluate_rate_passed:
  assumes "evaluateConstraints compile rates now h m input cs = (r, rates')"
    and "cr_allowed r \<or> cr_needsApproval r"
  shows "rate_passed cs (in_subjectId input) (in_resource input) now rates rates'"
proof (cases "pc_maxCallsPerHour cs")
  case None
  with assms(1) show ?thesis
    using evaluate_keeps_rates_without_limit [OF None, of compile rates now h m input] by (simp add: rate_passed_def)
next
  case (Some limit)
  obtain rr rs where c: "checkRateLimit rates now (in_subjectId input) (in_resource input) limit = (rr, rs)"
    by fastforce
  then have "cr_allowed rr \<or> \<not> cr_needsApproval rr"
    by (auto simp: checkRateLimit_def Let_def allow_result_def split: if_splits prod.splits bool.splits)
  with assms Some c have "cr_allowed rr" "rates' = rs"
    by (auto simp: evaluateConstraints_def Let_def split: if_splits)
  with checkRateLimit_passed [OF c _ Some] show ?thesis by simp
qed

lemma spend_approval_rates [simp]: "en_rates (snd (spend_approval sha256 agent req i now db)) = en_rates db"
  by (simp add: spend_approval_def split: prod.splits sum.splits)

definition spent_for ::
  "(string \<Rightarrow> 'h) \<Rightarrow> agent_identity \<Rightarrow> authorize_request \<Rightarrow> time \<Rightarrow> approval_row list \<Rightarrow> approval_row list \<Rightarrow> bool" where
  "spent_for sha256 agent req now rows rows' \<longleftrightarrow>
     (\<exists>r\<in>set rows. Some (ap_id r) = zr_approvalId req \<and> ap_status r = Approved \<and> ap_consumedAt r = None
        \<and> now < ap_expiresAt r \<and> ap_agentId r = ag_id agent \<and> ap_action r = zr_action req
        \<and> ap_resource r = zr_resource req
        \<and> hashApprovalAction sha256 (ap_action r) (ap_resource r) (ap_arguments r) =
            hashApprovalAction sha256 (zr_action req) (zr_resource req) (zr_arguments req)
        \<and> r\<lparr>ap_consumedAt := Some now\<rparr> \<in> set rows')"

lemma verdict_Granted:
  assumes "constraint_verdict sha256 compile c1 c2 agent req options cs db = (Granted consumed, db')"
    and "unique_keys ap_id (en_approvals db)"
  shows "args_ok compile cs (map_option JObj (zr_arguments req))
    \<and> attestation_ok cs (zo_attestation options) \<and> ip_ok cs (request_ip req)
    \<and> rate_passed cs (ag_id agent) (zr_resource req) (ck_now c1) (en_rates db) (en_rates db')
    \<and> (if pc_requireApproval cs
       then window_ok cs (ck_hours c2 * 60 + ck_minutes c2)
          \<and> spent_for sha256 agent req (ck_now c2) (en_approvals db) (en_approvals db')
       else window_ok cs (ck_hours c1 * 60 + ck_minutes c1) \<and> en_approvals db' = en_approvals db)"
proof -
  let ?input = "\<lparr>in_subjectId = ag_id agent, in_resource = zr_resource req,
      in_arguments = map_option JObj (zr_arguments req), in_ip = request_ip req,
      in_attestation = zo_attestation options\<rparr>"
  obtain r rates where e: "evaluateConstraints compile (en_rates db) (ck_now c1) (ck_hours c1) (ck_minutes c1) ?input cs = (r, rates)"
    by fastforce
  show ?thesis
  proof (cases "cr_allowed r")
    case True
    from constraints_allowed_facts [OF e True] evaluate_rate_passed [OF e] e True assms(1) show ?thesis
      by (auto simp: constraint_verdict_def Let_def)
  next
    case False
    let ?rest = "inspectConstraints compile ?input (cs\<lparr>pc_requireApproval := False, pc_maxCallsPerHour := None\<rparr>)
        \<lparr>io_hours = ck_hours c2, io_minutes = ck_minutes c2, io_rateUsage = None\<rparr>"
    from False e assms(1) have n: "cr_needsApproval r" "zr_approvalId req \<noteq> None" "ci_allowed ?rest"
      and s: "spend_approval sha256 agent req (the (zr_approvalId req)) (ck_now c2) (db\<lparr>en_rates := rates\<rparr>) = (Granted consumed, db')"
      by (auto simp: constraint_verdict_def Let_def split: if_splits)
    have "pc_requireApproval cs" using evaluate_needs [OF e False n(1)] by (rule conjunct1)
    moreover have "rate_passed cs (ag_id agent) (zr_resource req) (ck_now c1) (en_rates db) (en_rates db')"
      using evaluate_rate_passed [OF e] n(1) arg_cong [OF s, of "\<lambda>x. en_rates (snd x)"] by simp
    moreover have "unique_keys ap_id (en_approvals (db\<lparr>en_rates := rates\<rparr>))" using assms(2) by simp
    from spend_approval_Granted [OF s this] n(2)
    have "spent_for sha256 agent req (ck_now c2) (en_approvals db) (en_approvals db')"
      by (auto simp: spent_for_def)
    moreover have "args_ok compile cs (map_option JObj (zr_arguments req))
      \<and> attestation_ok cs (zo_attestation options) \<and> ip_ok cs (request_ip req)
      \<and> window_ok cs (ck_hours c2 * 60 + ck_minutes c2)"
      using n(3) by (simp add: inspect_allowed_iff args_ok_def attestation_ok_def ip_ok_def window_ok_def)
    ultimately show ?thesis by simp
  qed
qed

abbreviation engine_matching :: "engine_config \<Rightarrow> resource_matching" where
  "engine_matching config \<equiv> (case ec_resourceMatching config of Some m \<Rightarrow> m | None \<Rightarrow> Colon)"

lemma engine_allowed:
  assumes "authorize config sha256 compile fault c1 c2 auditId agent req options db = (result, db')"
    and "zs_allowed result" and "unique_keys ap_id (en_approvals db)"
  shows "\<exists>p\<in>set (ag_permissions agent). grants (engine_matching config) (zr_action req) (zr_resource req) p
    \<and> (\<forall>cs. pm_constraints p = Some cs \<longrightarrow>
         args_ok compile cs (map_option JObj (zr_arguments req))
         \<and> attestation_ok cs (zo_attestation options) \<and> ip_ok cs (request_ip req)
         \<and> rate_passed cs (ag_id agent) (zr_resource req) (ck_now c1) (en_rates db) (en_rates db')
         \<and> (if pc_requireApproval cs
            then window_ok cs (ck_hours c2 * 60 + ck_minutes c2)
               \<and> spent_for sha256 agent req (ck_now c2) (en_approvals db) (en_approvals db')
            else window_ok cs (ck_hours c1 * 60 + ck_minutes c1) \<and> en_approvals db' = en_approvals db))"
proof -
  obtain p k where f: "findMatchingPermission (ag_permissions agent) (zr_action req) (zr_resource req)
      (engine_matching config) = Some (p, k)"
    using assms(1,2) by (auto simp: authorize_def Let_def split: option.splits)
  from findMatchingPermission_SomeD [OF f] have p: "p \<in> set (ag_permissions agent)"
    "grants (engine_matching config) (zr_action req) (zr_resource req) p"
    by (auto simp: in_set_conv_nth)
  have "args_ok compile cs (map_option JObj (zr_arguments req))
         \<and> attestation_ok cs (zo_attestation options) \<and> ip_ok cs (request_ip req)
         \<and> rate_passed cs (ag_id agent) (zr_resource req) (ck_now c1) (en_rates db) (en_rates db')
         \<and> (if pc_requireApproval cs
            then window_ok cs (ck_hours c2 * 60 + ck_minutes c2)
               \<and> spent_for sha256 agent req (ck_now c2) (en_approvals db) (en_approvals db')
            else window_ok cs (ck_hours c1 * 60 + ck_minutes c1) \<and> en_approvals db' = en_approvals db)"
    if cs: "pm_constraints p = Some cs" for cs
  proof -
    obtain v db1 where v: "constraint_verdict sha256 compile c1 c2 agent req options cs db = (v, db1)" by fastforce
    with assms(1,2) f cs obtain consumed where g: "v = Granted consumed"
      and a: "en_approvals db' = en_approvals db1" "en_rates db' = en_rates db1"
      by (cases v) (auto simp: authorize_def Let_def split: if_splits)
    from verdict_Granted [OF v [unfolded g] assms(3)] show ?thesis by (simp add: a)
  qed
  with p show ?thesis by blast
qed

text \<open>
  C3: nothing is allowed that is not granted. If the engine allows a call, some permission of the
  agent grants the action on the resource, and every constraint it carries holds: arguments,
  attestation, address, time window, the hourly limit (the calls recorded for this agent and resource
  in the last hour, this one included, are within it; on a table of well-formed rows the calls before
  it were below the limit and this one was counted), and, when it demands approval, an approved, unexpired and
  unspent approval for exactly this agent, action, resource and arguments, which is spent by the call.
\<close>

theorem authorize_allowed:
  assumes "authorize config sha256 compile fault c1 c2 auditId agent req options db = (result, db')"
    and "zs_allowed result" and "unique_keys ap_id (en_approvals db)"
  shows "\<exists>p\<in>set (ag_permissions agent). grants (engine_matching config) (zr_action req) (zr_resource req) p
    \<and> (\<forall>cs. pm_constraints p = Some cs \<longrightarrow>
         args_ok compile cs (map_option JObj (zr_arguments req))
         \<and> attestation_ok cs (zo_attestation options) \<and> ip_ok cs (request_ip req)
         \<and> rate_passed cs (ag_id agent) (zr_resource req) (ck_now c1) (en_rates db) (en_rates db')
         \<and> (if pc_requireApproval cs
            then window_ok cs (ck_hours c2 * 60 + ck_minutes c2)
               \<and> spent_for sha256 agent req (ck_now c2) (en_approvals db) (en_approvals db')
            else window_ok cs (ck_hours c1 * 60 + ck_minutes c1) \<and> en_approvals db' = en_approvals db))"
  using assms by (rule engine_allowed)

definition sample_agent :: agent_identity where
  "sample_agent =
     \<lparr>ag_id = ''ag'', ag_name = ''n'', ag_ownerId = ''o'',
      ag_permissions = [\<lparr>pm_resource = ''a'', pm_actions = [''write''],
        pm_constraints = Some no_constraints, pm_relation = None\<rparr>]\<rparr>"

definition sample_request :: authorize_request where
  "sample_request =
     \<lparr>zr_action = ''write'', zr_resource = ''a'', zr_arguments = None, zr_approvalId = None,
      zr_contextIp = None, zr_ip = None, zr_userAgent = None\<rparr>"

definition no_options :: authorize_options where
  "no_options = \<lparr>zo_deferDenialAudit = False, zo_auditParameters = None, zo_attestation = None\<rparr>"

definition noon :: clock where
  "noon = \<lparr>ck_now = 0, ck_hours = 12, ck_minutes = 0\<rparr>"

theorem authorize_allowed_witness:
  "\<exists>p\<in>set (ag_permissions sample_agent). grants Colon ''write'' ''a'' p"
proof -
  let ?config = "\<lparr>ec_auditAll = False, ec_resourceMatching = None\<rparr>"
  let ?db = "\<lparr>en_approvals = [], en_rates = [], en_audit = []\<rparr>"
  have m: "matchColonResource ''a'' ''a''" by code_simp
  have f: "findMatchingPermission (ag_permissions sample_agent) ''write'' ''a'' Colon =
      Some (hd (ag_permissions sample_agent), 0)"
    by (simp add: findMatchingPermission_def sample_agent_def grants_def matchResource_def m matchAction_def)
  have r: "rate_ok no_constraints u" "args_ok c no_constraints args" "attestation_ok no_constraints att"
    "\<not> pc_requireApproval no_constraints" "window_ok no_constraints n" "ip_ok no_constraints ip" for u c args att n ip
    by (simp_all add: no_constraints_def rate_ok_def args_ok_def attestation_ok_def window_ok_def ip_ok_def)
  have "pc_maxCallsPerHour no_constraints = None" by (simp add: no_constraints_def)
  then have "evaluateConstraints (\<lambda>_. None) [] 0 12 0 input no_constraints = (allow_result, [])" for input
    using r by (simp add: evaluateConstraints_def Let_def inspect_allowed_iff allow_result_def)
  then have v: "\<exists>db1. constraint_verdict id (\<lambda>_. None) noon noon sample_agent sample_request no_options no_constraints ?db
      = (Granted None, db1)"
    by (simp add: constraint_verdict_def Let_def noon_def) (simp add: allow_result_def)
  have "\<exists>result db'. authorize ?config id (\<lambda>_. None) False noon noon ''x'' sample_agent sample_request no_options ?db
      = (result, db') \<and> zs_allowed result"
    using v f by (auto simp: authorize_def Let_def sample_request_def sample_agent_def)
  then obtain result db' where a: "authorize ?config id (\<lambda>_. None) False noon noon ''x'' sample_agent sample_request no_options ?db
      = (result, db')" "zs_allowed result" by blast
  from authorize_allowed [OF a] show ?thesis
    by (auto simp: unique_keys_def sample_request_def)
qed

section \<open>What a denial means\<close>

lemma spend_approval_Refused:
  assumes "spend_approval sha256 agent req i now db = (Refused reason code, db')"
    and u: "unique_keys ap_id (en_approvals db)"
  shows "en_approvals db' = en_approvals db"
proof -
  let ?in = "\<lparr>ci_approvalId = i, ci_agentId = ag_id agent, ci_action = zr_action req,
              ci_resource = zr_resource req, ci_arguments = zr_arguments req, ci_minStepUp = None\<rparr>"
  show ?thesis
    using assms(1) quiet_facts [OF u, of sha256 ?in now "en_approvals db" now]
    by (auto simp: spend_approval_def split: option.splits prod.splits sum.splits)
qed

lemma engine_denied:
  assumes "authorize config sha256 compile fault c1 c2 auditId agent req options db = (result, db')"
    and "\<not> zs_allowed result" and u: "unique_keys ap_id (en_approvals db)"
  shows "en_approvals db' = en_approvals db
    \<and> ((\<forall>p\<in>set (ag_permissions agent). \<not> grants (engine_matching config) (zr_action req) (zr_resource req) p) \<longrightarrow>
         zs_code result = NoPermission \<and> en_rates db' = en_rates db)"
proof (cases "findMatchingPermission (ag_permissions agent) (zr_action req) (zr_resource req) (engine_matching config)")
  case None
  with assms(1) show ?thesis by (auto simp: authorize_def Let_def)
next
  case (Some pk)
  obtain p k where f: "findMatchingPermission (ag_permissions agent) (zr_action req) (zr_resource req)
      (engine_matching config) = Some (p, k)"
    using Some by (cases pk) simp
  from findMatchingPermission_SomeD [OF f] nth_mem [of k "ag_permissions agent"]
  have g: "\<exists>p\<in>set (ag_permissions agent). grants (engine_matching config) (zr_action req) (zr_resource req) p"
    by blast
  from assms(1,2) f obtain cs where cs: "pm_constraints p = Some cs"
    by (cases "pm_constraints p") (auto simp: authorize_def Let_def split: if_splits)
  obtain v db1 where v: "constraint_verdict sha256 compile c1 c2 agent req options cs db = (v, db1)" by fastforce
  with assms(1,2) f cs obtain reason code where r: "v = Refused reason code" and a: "en_approvals db' = en_approvals db1"
    by (cases v) (auto simp: authorize_def Let_def split: if_splits)
  have "en_approvals db1 = en_approvals db"
    using v spend_approval_Refused [of sha256 agent req] u unfolding r
    by (auto simp: constraint_verdict_def Let_def split: prod.splits if_splits)
  then have "en_approvals db' = en_approvals db" using a by simp
  with g show ?thesis by blast
qed

text \<open>
  A denied call burns nothing. When the engine denies, no approval has been spent, and a call
  that no permission grants is denied as such, leaving approvals and rate counters as they were.
\<close>

theorem authorize_denied:
  assumes "authorize config sha256 compile fault c1 c2 auditId agent req options db = (result, db')"
    and "\<not> zs_allowed result" and u: "unique_keys ap_id (en_approvals db)"
  shows "en_approvals db' = en_approvals db
    \<and> ((\<forall>p\<in>set (ag_permissions agent). \<not> grants (engine_matching config) (zr_action req) (zr_resource req) p) \<longrightarrow>
         zs_code result = NoPermission \<and> en_rates db' = en_rates db)"
  using assms by (rule engine_denied)

theorem authorize_denied_witness:
  "zs_code (fst (authorize \<lparr>ec_auditAll = True, ec_resourceMatching = None\<rparr> id (\<lambda>_. None) True noon noon ''x''
     (sample_agent\<lparr>ag_permissions := []\<rparr>) sample_request no_options
     \<lparr>en_approvals = [], en_rates = [], en_audit = []\<rparr>)) = NoPermission"
proof -
  let ?config = "\<lparr>ec_auditAll = True, ec_resourceMatching = None\<rparr>"
  let ?agent = "sample_agent\<lparr>ag_permissions := []\<rparr>"
  let ?db = "\<lparr>en_approvals = [], en_rates = [], en_audit = []\<rparr>"
  obtain result db' where a: "authorize ?config id (\<lambda>_. None) True noon noon ''x'' ?agent sample_request no_options ?db
      = (result, db')" by fastforce
  have "\<not> zs_allowed result" using a by (auto simp: authorize_def Let_def findMatchingPermission_def)
  from authorize_denied [OF a this] a show ?thesis by (simp add: unique_keys_def)
qed

section \<open>Auditing\<close>

text \<open>The decision without any auditing.\<close>

definition authorize_core where
  "authorize_core config sha256 compile c1 c2 auditId agent req options db =
     authorize (config\<lparr>ec_auditAll := False\<rparr>) sha256 compile False c1 c2 auditId agent req options db"

text \<open>
  Audit writes never decide. The decision and the tables are the same whether or not the audit
  write fails; when it works, an allowed call leaves exactly one row, a denied one exactly one unless
  the caller deferred it, and the row has the outcome and the code that were returned.
\<close>

theorem authorize_audit:
  assumes "authorize config sha256 compile fault c1 c2 auditId agent req options db = (result, db')"
  shows "result = fst (authorize_core config sha256 compile c1 c2 auditId agent req options db)
    \<and> en_approvals db' = en_approvals (snd (authorize_core config sha256 compile c1 c2 auditId agent req options db))
    \<and> en_rates db' = en_rates (snd (authorize_core config sha256 compile c1 c2 auditId agent req options db))
    \<and> (if ec_auditAll config \<and> \<not> fault \<and> (zs_allowed result \<or> \<not> zo_deferDenialAudit options)
       then \<exists>row. en_audit db' = en_audit db @ [row] \<and> ea_id row = auditId
              \<and> ea_result row = (if zs_allowed result then AllowedRes else DeniedRes)
              \<and> ea_decisionCode row = zs_code result \<and> ea_agentId row = ag_id agent
       else en_audit db' = en_audit db)"
proof -
  have keep: "en_audit db1 = en_audit db"
    if "constraint_verdict sha256 compile c1 c2 agent req options cs db = (v, db1)" for cs v db1
    using that
    by (auto simp: constraint_verdict_def Let_def spend_approval_def split: prod.splits if_splits sum.splits)
  show ?thesis
  proof (cases "findMatchingPermission (ag_permissions agent) (zr_action req) (zr_resource req) (engine_matching config)")
    case None
    with assms show ?thesis
      by (auto simp: authorize_core_def authorize_def Let_def writeAuditLog_def split: if_splits)
  next
    case (Some pk)
    then obtain p k where f: "findMatchingPermission (ag_permissions agent) (zr_action req) (zr_resource req)
        (engine_matching config) = Some (p, k)" by (cases pk) simp
    show ?thesis
    proof (cases "pm_constraints p")
      case None
      with assms f show ?thesis
        by (auto simp: authorize_core_def authorize_def Let_def writeAuditLog_def split: if_splits)
    next
      case (Some cs)
      obtain v db1 where v: "constraint_verdict sha256 compile c1 c2 agent req options cs db = (v, db1)" by fastforce
      from keep [OF v] assms f Some v show ?thesis
        by (cases v) (auto simp: authorize_core_def authorize_def Let_def writeAuditLog_def split: if_splits)
    qed
  qed
qed

theorem authorize_audit_witness:
  "\<exists>row. en_audit (snd (authorize \<lparr>ec_auditAll = True, ec_resourceMatching = None\<rparr> id (\<lambda>_. None) False noon noon ''x''
     (sample_agent\<lparr>ag_permissions := []\<rparr>) sample_request no_options
     \<lparr>en_approvals = [], en_rates = [], en_audit = []\<rparr>)) = [row] \<and> ea_result row = DeniedRes"
proof -
  let ?config = "\<lparr>ec_auditAll = True, ec_resourceMatching = None\<rparr>"
  let ?agent = "sample_agent\<lparr>ag_permissions := []\<rparr>"
  let ?db = "\<lparr>en_approvals = [], en_rates = [], en_audit = []\<rparr>"
  obtain result db' where a: "authorize ?config id (\<lambda>_. None) False noon noon ''x'' ?agent sample_request no_options ?db
      = (result, db')" by fastforce
  have "\<not> zs_allowed result" using a by (auto simp: authorize_def Let_def findMatchingPermission_def)
  with authorize_audit [OF a] a show ?thesis by (auto simp: no_options_def)
qed

end
