(* ===== verification/Rebac.thy ===== *)
theory Rebac
  imports Prelude
begin

text \<open>
  Relationship based access: \<open>auth/rebac.ts\<close>, \<open>auth/rebac-helpers.ts\<close> and the bridge
  \<open>policy/rebac-bridge.ts\<close>. Resources form a tree through their parent, relationships tie
  subjects to objects, and a permission may be implied by a relation or inherited from the parent.
  \<open>check\<close> is proved to find exactly the grants on ancestors up to its depth limit, and
  \<open>deleteResource\<close> to end and to remove exactly a subtree.
\<close>

section \<open>Data\<close>

datatype inherit_rule = InheritBool bool | InheritOnly "string list"

record rule_set =
  ru_implies :: "(string \<times> string list) list option"
  ru_inheritFromParent :: "inherit_rule option"

type_synonym rule_table = "(string \<times> rule_set) list"

record rebac_resource =
  rb_id :: ident
  rb_type :: string
  rb_parentId :: "ident option"
  rb_parentType :: "string option"

record relationship =
  rl_id :: ident
  rl_subjectType :: string
  rl_subjectId :: ident
  rl_relation :: string
  rl_objectType :: string
  rl_objectId :: ident
  rl_createdAt :: time

record rebac_db =
  rd_resources :: "rebac_resource list"
  rd_relationships :: "relationship list"

record rebac_config =
  rc_maxDepth :: "nat option"
  rc_permissionRules :: "rule_table option"

datatype rebac_error = ParentNotFound | ResourceExists | RelationshipExists

definition default_permission_rules :: rule_table where
  "default_permission_rules =
     (let group =
            [(''owner'', [''admin'', ''editor'', ''viewer'', ''member'']),
             (''admin'', [''editor'', ''viewer'', ''member'']),
             (''editor'', [''viewer'']), (''member'', [''viewer''])];
          item = [(''owner'', [''editor'', ''viewer'']), (''editor'', [''viewer''])]
      in [(''org'', \<lparr>ru_implies = Some group, ru_inheritFromParent = None\<rparr>),
          (''workspace'', \<lparr>ru_implies = Some group, ru_inheritFromParent = Some (InheritBool True)\<rparr>),
          (''project'', \<lparr>ru_implies = Some group, ru_inheritFromParent = Some (InheritBool True)\<rparr>),
          (''document'', \<lparr>ru_implies = Some item, ru_inheritFromParent = Some (InheritBool True)\<rparr>),
          (''resource'', \<lparr>ru_implies = Some item, ru_inheritFromParent = Some (InheritBool True)\<rparr>)])"

text \<open>\<open>{...DEFAULT_PERMISSION_RULES, ...config.permissionRules}[objectType]\<close>.\<close>

definition rule_for :: "rebac_config \<Rightarrow> string \<Rightarrow> rule_set option" where
  "rule_for cf objectType =
     (case Option.bind (rc_permissionRules cf) (\<lambda>rules. map_of rules objectType) of
        Some rs \<Rightarrow> Some rs
      | None \<Rightarrow> map_of default_permission_rules objectType)"

definition max_depth :: "rebac_config \<Rightarrow> nat" where
  "max_depth cf = (case rc_maxDepth cf of Some d \<Rightarrow> d | None \<Rightarrow> 10)"

definition getGrantingRelations :: "rebac_config \<Rightarrow> string \<Rightarrow> string \<Rightarrow> string list" where
  "getGrantingRelations cf objectType permission =
     (case Option.bind (rule_for cf objectType) ru_implies of
        None \<Rightarrow> [permission]
      | Some implied_by \<Rightarrow>
          uniq (permission # map fst (filter (\<lambda>(relation, implied). permission \<in> set implied) implied_by)))"

definition shouldInherit :: "rebac_config \<Rightarrow> string \<Rightarrow> string \<Rightarrow> bool" where
  "shouldInherit cf objectType permission =
     (case Option.bind (rule_for cf objectType) ru_inheritFromParent of
        None \<Rightarrow> False
      | Some (InheritBool b) \<Rightarrow> b
      | Some (InheritOnly l) \<Rightarrow> permission \<in> set l)"

section \<open>Checking\<close>

definition is_tuple :: "string \<Rightarrow> ident \<Rightarrow> string \<Rightarrow> string \<Rightarrow> ident \<Rightarrow> relationship \<Rightarrow> bool" where
  "is_tuple st si rel ot oi r \<longleftrightarrow>
     rl_subjectType r = st \<and> rl_subjectId r = si \<and> rl_relation r = rel
     \<and> rl_objectType r = ot \<and> rl_objectId r = oi"

definition find_resource :: "rebac_db \<Rightarrow> string \<Rightarrow> ident \<Rightarrow> rebac_resource option" where
  "find_resource db t i = List.find (\<lambda>r. rb_id r = i \<and> rb_type r = t) (rd_resources db)"

text \<open>\<open>resource?.parentId && resource.parentType\<close>: both set and not empty.\<close>

definition parent_key :: "rebac_resource \<Rightarrow> (string \<times> ident) option" where
  "parent_key r =
     (case (rb_parentId r, rb_parentType r) of
        (Some i, Some t) \<Rightarrow> if i \<noteq> [] \<and> t \<noteq> [] then Some (t, i) else None
      | _ \<Rightarrow> None)"

definition visit_key :: "string \<Rightarrow> ident \<Rightarrow> string \<Rightarrow> string" where
  "visit_key t i permission = t @ CHR '':'' # i @ CHR '':'' # permission"

definition direct_step :: "string \<Rightarrow> ident \<Rightarrow> string \<Rightarrow> string \<Rightarrow> ident \<Rightarrow> string" where
  "direct_step st si rel ot oi = st @ '':'' @ si @ ''#'' @ rel @ ''@'' @ ot @ '':'' @ oi"

definition inherit_step :: "string \<times> ident \<Rightarrow> string \<Rightarrow> ident \<Rightarrow> string" where
  "inherit_step parent ot oi = ''inherit:'' @ fst parent @ '':'' @ snd parent @ ''->'' @ ot @ '':'' @ oi"

text \<open>\<open>checkAccess\<close>: \<open>None\<close> for denied, the path of steps when allowed.\<close>

function checkAccess ::
  "rebac_config \<Rightarrow> rebac_db \<Rightarrow> string \<Rightarrow> ident \<Rightarrow> string \<Rightarrow> string \<Rightarrow> ident \<Rightarrow> nat \<Rightarrow> string list
     \<Rightarrow> string list option" where
  "checkAccess cf db st si permission ot oi depth visited =
     (if max_depth cf < depth then None
      else if visit_key ot oi permission \<in> set visited then None
      else
        (case List.find (\<lambda>rel. list_ex (is_tuple st si rel ot oi) (rd_relationships db))
                (getGrantingRelations cf ot permission) of
           Some rel \<Rightarrow> Some [direct_step st si rel ot oi]
         | None \<Rightarrow>
             if shouldInherit cf ot permission then
               (case Option.bind (find_resource db ot oi) parent_key of
                  None \<Rightarrow> None
                | Some parent \<Rightarrow>
                    map_option (\<lambda>path. path @ [inherit_step parent ot oi])
                      (checkAccess cf db st si permission (fst parent) (snd parent) (Suc depth)
                         (visit_key ot oi permission # visited)))
             else None))"
  by pat_completeness auto
termination
  by (relation "measure (\<lambda>(cf, db, st, si, permission, ot, oi, depth, visited). Suc (max_depth cf) - depth)") auto

declare checkAccess.simps [simp del]

definition check where
  "check cf db st si permission ot oi = checkAccess cf db st si permission ot oi 0 []"

section \<open>Changing the graph\<close>

definition createResource :: "rebac_resource \<Rightarrow> rebac_db \<Rightarrow> (rebac_error + rebac_resource) \<times> rebac_db" where
  "createResource node db =
     (if (case parent_key node of Some (t, i) \<Rightarrow> find_resource db t i = None | None \<Rightarrow> False)
      then (Inl ParentNotFound, db)
      else if list_ex (\<lambda>r. rb_id r = rb_id node) (rd_resources db) then (Inl ResourceExists, db)
      else (Inr node, db\<lparr>rd_resources := rd_resources db @ [node]\<rparr>))"

definition touches :: "string \<times> ident \<Rightarrow> relationship \<Rightarrow> bool" where
  "touches k r \<longleftrightarrow> (rl_objectType r, rl_objectId r) = k \<or> (rl_subjectType r, rl_subjectId r) = k"

definition res_key :: "rebac_resource \<Rightarrow> string \<times> ident" where
  "res_key r = (rb_type r, rb_id r)"

definition child_of :: "string \<times> ident \<Rightarrow> rebac_resource \<Rightarrow> bool" where
  "child_of k r \<longleftrightarrow> rb_parentId r = Some (snd k) \<and> rb_parentType r = Some (fst k)"

text \<open>
  \<open>deleteResource\<close>: relationships first (each row by its id), then the children one after
  the other, then the row. The recursion has no bound in the code; \<open>None\<close> is running out of fuel.
\<close>

fun deleteResource :: "nat \<Rightarrow> string \<times> ident \<Rightarrow> rebac_db \<Rightarrow> rebac_db option"
  and delete_children :: "nat \<Rightarrow> rebac_resource list \<Rightarrow> rebac_db \<Rightarrow> rebac_db option"
where
  "deleteResource 0 k db = None"
| "deleteResource (Suc fuel) k db =
     (let ids = map rl_id (filter (touches k) (rd_relationships db));
          db1 = db\<lparr>rd_relationships := delete_where (\<lambda>r. rl_id r \<in> set ids) (rd_relationships db)\<rparr>
      in case delete_children fuel (filter (child_of k) (rd_resources db1)) db1 of
           None \<Rightarrow> None
         | Some db2 \<Rightarrow>
             Some (db2\<lparr>rd_resources := delete_where (\<lambda>r. res_key r = k) (rd_resources db2)\<rparr>))"
| "delete_children fuel [] db = Some db"
| "delete_children fuel (child # children) db =
     (case deleteResource fuel (res_key child) db of
        None \<Rightarrow> None
      | Some db1 \<Rightarrow> delete_children fuel children db1)"

definition getResource :: "rebac_db \<Rightarrow> string \<Rightarrow> ident \<Rightarrow> rebac_resource option" where
  "getResource db t i =
     map_option
       (\<lambda>r. r\<lparr>rb_parentId := (if rb_parentId r = Some [] then None else rb_parentId r),
              rb_parentType := (if rb_parentType r = Some [] then None else rb_parentType r)\<rparr>)
       (find_resource db t i)"

definition addRelationship ::
  "relationship \<Rightarrow> rebac_db \<Rightarrow> (rebac_error + relationship) \<times> rebac_db" where
  "addRelationship r db =
     (if list_ex (is_tuple (rl_subjectType r) (rl_subjectId r) (rl_relation r) (rl_objectType r) (rl_objectId r))
           (rd_relationships db)
      then (Inl RelationshipExists, db)
      else (Inr r, db\<lparr>rd_relationships := rd_relationships db @ [r]\<rparr>))"

definition removeRelationship ::
  "string \<Rightarrow> ident \<Rightarrow> string \<Rightarrow> string \<Rightarrow> ident \<Rightarrow> rebac_db \<Rightarrow> rebac_db" where
  "removeRelationship st si rel ot oi db =
     db\<lparr>rd_relationships := delete_where (is_tuple st si rel ot oi) (rd_relationships db)\<rparr>"

section \<open>Queries\<close>

definition listObjects :: "rebac_config \<Rightarrow> rebac_db \<Rightarrow> string \<Rightarrow> ident \<Rightarrow> string \<Rightarrow> string \<Rightarrow> ident list" where
  "listObjects cf db st si permission ot =
     (let direct = uniq (concat (map (\<lambda>rel. map rl_objectId
              (filter (\<lambda>r. rl_subjectType r = st \<and> rl_subjectId r = si \<and> rl_relation r = rel \<and> rl_objectType r = ot)
                 (rd_relationships db)))
            (getGrantingRelations cf ot permission)))
      in if shouldInherit cf ot permission then
           foldl (\<lambda>ids r.
               if rb_id r \<in> set ids then ids
               else if parent_key r = None then ids
               else if check cf db st si permission ot (rb_id r) \<noteq> None then ids @ [rb_id r] else ids)
             direct (filter (\<lambda>r. rb_type r = ot) (rd_resources db))
         else direct)"

text \<open>\<open>listSubjects\<close> climbs without a limit; \<open>None\<close> is running out of fuel.\<close>

fun listSubjects ::
  "nat \<Rightarrow> rebac_config \<Rightarrow> rebac_db \<Rightarrow> string \<Rightarrow> ident \<Rightarrow> string \<Rightarrow> string \<Rightarrow> ident list option" where
  "listSubjects 0 cf db ot oi permission st = None"
| "listSubjects (Suc fuel) cf db ot oi permission st =
     (let direct = uniq (concat (map (\<lambda>rel. map rl_subjectId
              (filter (\<lambda>r. rl_objectType r = ot \<and> rl_objectId r = oi \<and> rl_relation r = rel \<and> rl_subjectType r = st)
                 (rd_relationships db)))
            (getGrantingRelations cf ot permission)))
      in if shouldInherit cf ot permission then
           (case Option.bind (find_resource db ot oi) parent_key of
              None \<Rightarrow> Some direct
            | Some parent \<Rightarrow>
                map_option (\<lambda>above. uniq (direct @ above))
                  (listSubjects fuel cf db (fst parent) (snd parent) permission st))
         else Some direct)"

text \<open>Both lists are first occurrences by id.\<close>

fun uniq_by_id :: "relationship list \<Rightarrow> ident list \<Rightarrow> relationship list" where
  "uniq_by_id [] seen = []"
| "uniq_by_id (r # rs) seen =
     (if rl_id r \<in> set seen then uniq_by_id rs seen else r # uniq_by_id rs (rl_id r # seen))"

definition expand :: "rebac_db \<Rightarrow> string \<Rightarrow> ident \<Rightarrow> relationship list" where
  "expand db t i =
     uniq_by_id
       (filter (\<lambda>r. rl_subjectType r = t \<and> rl_subjectId r = i) (rd_relationships db)
        @ filter (\<lambda>r. rl_objectType r = t \<and> rl_objectId r = i) (rd_relationships db)) []"

section \<open>The policy bridge\<close>

record policy_subject =
  ps_userId :: "ident option"
  ps_agentId :: "ident option"
  ps_orgId :: "ident option"

datatype bridge_reason = WildcardResource | InvalidSubject | Matched | NoTuple

definition parse_object :: "string \<Rightarrow> (string \<times> ident) option" where
  "parse_object resource =
     (if CHR ''*'' \<in> set resource then None
      else (case indexOf CHR '':'' resource 0 of
              None \<Rightarrow> None
            | Some k \<Rightarrow>
                let ot = take k resource; oi = drop (k + 1) resource
                in if ot = [] \<or> oi = [] then None else Some (ot, oi)))"

definition parseSubject :: "policy_subject \<Rightarrow> (string \<times> ident) option" where
  "parseSubject s =
     (case (ps_agentId s, ps_userId s, ps_orgId s) of
        (Some _, Some _, _) \<Rightarrow> None
      | (Some a, None, _) \<Rightarrow> Some (''agent'', a)
      | (None, Some u, _) \<Rightarrow> Some (''user'', u)
      | (None, None, Some org) \<Rightarrow> Some (''org'', org)
      | (None, None, None) \<Rightarrow> None)"

definition checkRelation :: "rebac_db \<Rightarrow> policy_subject \<Rightarrow> string \<Rightarrow> string \<Rightarrow> bool \<times> bridge_reason" where
  "checkRelation db s relation resource =
     (case parse_object resource of
        None \<Rightarrow> (False, WildcardResource)
      | Some (ot, oi) \<Rightarrow>
          (case parseSubject s of
             None \<Rightarrow> (False, InvalidSubject)
           | Some (st, si) \<Rightarrow>
               if check \<lparr>rc_maxDepth = None, rc_permissionRules = None\<rparr> db st si relation ot oi \<noteq> None
               then (True, Matched) else (False, NoTuple)))"

section \<open>The tree\<close>

text \<open>
  A well formed store: ids are unique and not empty, types are not empty, a resource that names a
  parent comes after it in the table, and the parent is there.
\<close>

definition forest :: "rebac_resource list \<Rightarrow> bool" where
  "forest rows \<longleftrightarrow>
     distinct (map rb_id rows) \<and> (\<forall>r\<in>set rows. rb_id r \<noteq> [] \<and> rb_type r \<noteq> [])
     \<and> (\<forall>b<length rows. \<forall>k. parent_key (rows ! b) = Some k \<longrightarrow> (\<exists>a<b. res_key (rows ! a) = k))"

lemma parent_key_child: "parent_key r = Some k \<Longrightarrow> child_of k r"
  by (auto simp: parent_key_def child_of_def split: option.splits if_splits)

lemma child_parent_key: "child_of k r \<Longrightarrow> fst k \<noteq> [] \<Longrightarrow> snd k \<noteq> [] \<Longrightarrow> parent_key r = Some k"
  by (cases k) (simp add: parent_key_def child_of_def)

lemma forest_key_inj:
  "forest rows \<Longrightarrow> a < length rows \<Longrightarrow> b < length rows \<Longrightarrow> res_key (rows ! a) = res_key (rows ! b) \<Longrightarrow> a = b"
  unfolding forest_def res_key_def
  by (metis Pair_inject length_map nth_eq_iff_index_eq nth_map)

lemma forest_child_after:
  assumes f: "forest rows" and a: "a < length rows" and b: "b < length rows"
    and c: "child_of (res_key (rows ! a)) (rows ! b)"
  shows "a < b"
proof -
  have "rb_id (rows ! a) \<noteq> [] \<and> rb_type (rows ! a) \<noteq> []" using f nth_mem [OF a] by (simp add: forest_def)
  then have "parent_key (rows ! b) = Some (res_key (rows ! a))"
    using child_parent_key [OF c] by (simp add: res_key_def)
  then obtain a' where "a' < b" "res_key (rows ! a') = res_key (rows ! a)"
    using f b unfolding forest_def by blast
  moreover from this b have "a' = a" by (intro forest_key_inj [OF f _ a]) auto
  ultimately show ?thesis by simp
qed

text \<open>How far down in the table a key is; 0 for a key without a resource.\<close>

definition height :: "rebac_resource list \<Rightarrow> string \<times> ident \<Rightarrow> nat" where
  "height rows k = (case find_index (\<lambda>r. res_key r = k) rows of None \<Rightarrow> 0 | Some j \<Rightarrow> Suc j)"

lemma height_nth: "forest rows \<Longrightarrow> b < length rows \<Longrightarrow> height rows (res_key (rows ! b)) = Suc b"
proof -
  assume f: "forest rows" and b: "b < length rows"
  have "\<forall>j<b. res_key (rows ! j) \<noteq> res_key (rows ! b)"
    using forest_key_inj [OF f _ b] b by (metis less_trans nat_neq_iff)
  with b have "find_index (\<lambda>r. res_key r = res_key (rows ! b)) rows = Some b"
    by (simp add: find_index_Some_iff)
  then show ?thesis by (simp add: height_def)
qed

lemma height_none: "\<forall>r\<in>set rows. res_key r \<noteq> k \<Longrightarrow> height rows k = 0"
  by (simp add: height_def find_index_None_iff [THEN iffD2])

lemma height_le: "height rows k \<le> length rows"
  by (auto simp: height_def dest!: find_index_SomeD split: option.splits)

lemma parent_height:
  assumes f: "forest rows" and r: "r \<in> set rows" and p: "parent_key r = Some k"
  shows "height rows k < height rows (res_key r)"
proof -
  from r obtain b where b: "b < length rows" "r = rows ! b" by (auto simp: in_set_conv_nth)
  with f p obtain a where "a < b" "res_key (rows ! a) = k" unfolding forest_def by blast
  with height_nth [OF f] b show ?thesis by (metis Suc_less_eq less_trans)
qed

lemma find_resource_key: "find_resource db t i = Some r \<Longrightarrow> r \<in> set (rd_resources db) \<and> res_key r = (t, i)"
  by (auto simp: find_resource_def res_key_def dest: find_SomeD)

section \<open>Checks find the grants on ancestors\<close>

definition granted_at :: "rebac_config \<Rightarrow> rebac_db \<Rightarrow> string \<Rightarrow> ident \<Rightarrow> string \<Rightarrow> string \<times> ident \<Rightarrow> bool" where
  "granted_at cf db st si permission k \<longleftrightarrow>
     (\<exists>rel\<in>set (getGrantingRelations cf (fst k) permission).
        \<exists>r\<in>set (rd_relationships db). is_tuple st si rel (fst k) (snd k) r)"

text \<open>The resource a permission is inherited from.\<close>

definition up :: "rebac_config \<Rightarrow> rebac_db \<Rightarrow> string \<Rightarrow> string \<times> ident \<Rightarrow> (string \<times> ident) option" where
  "up cf db permission k =
     (if shouldInherit cf (fst k) permission
      then Option.bind (find_resource db (fst k) (snd k)) parent_key else None)"

fun climb :: "rebac_config \<Rightarrow> rebac_db \<Rightarrow> string \<Rightarrow> nat \<Rightarrow> string \<times> ident \<Rightarrow> (string \<times> ident) option" where
  "climb cf db permission 0 k = Some k"
| "climb cf db permission (Suc n) k = Option.bind (up cf db permission k) (climb cf db permission n)"

lemma up_SomeD:
  assumes "up cf db permission k = Some k'"
  shows "shouldInherit cf (fst k) permission
    \<and> (\<exists>r\<in>set (rd_resources db). find_resource db (fst k) (snd k) = Some r \<and> res_key r = k \<and> parent_key r = Some k')"
proof -
  from assms have s: "shouldInherit cf (fst k) permission"
    and "Option.bind (find_resource db (fst k) (snd k)) parent_key = Some k'"
    by (simp_all add: up_def split: if_splits)
  then obtain r where "find_resource db (fst k) (snd k) = Some r" "parent_key r = Some k'"
    by (auto simp: bind_eq_Some_conv)
  with s find_resource_key [of db "fst k" "snd k" r] show ?thesis by auto
qed

lemma up_lower: "forest (rd_resources db) \<Longrightarrow> up cf db permission k = Some k' \<Longrightarrow>
   height (rd_resources db) k' < height (rd_resources db) k"
  using up_SomeD parent_height by metis

definition plain_types :: "rebac_db \<Rightarrow> bool" where
  "plain_types db \<longleftrightarrow> (\<forall>r\<in>set (rd_resources db). \<forall>t. rb_parentType r = Some t \<longrightarrow> CHR '':'' \<notin> set t)"

lemma up_plain:
  assumes "plain_types db" and "up cf db permission k = Some k'"
  shows "CHR '':'' \<notin> set (fst k')"
proof -
  from up_SomeD [OF assms(2)] obtain r where "r \<in> set (rd_resources db)" "parent_key r = Some k'" by blast
  with assms(1) parent_key_child [of r k'] show ?thesis by (auto simp: plain_types_def child_of_def)
qed

lemma visit_key_inject:
  assumes "visit_key t i p = visit_key u j p" and "CHR '':'' \<notin> set t" and "CHR '':'' \<notin> set u"
  shows "t = u \<and> i = j"
proof -
  from append_sep_inject [OF assms(1) [unfolded visit_key_def] assms(2,3)]
  have "t = u" "i @ CHR '':'' # p = j @ CHR '':'' # p" by simp_all
  then show ?thesis by simp
qed

lemma direct_found:
  "(\<exists>rel. List.find (\<lambda>rel. list_ex (is_tuple st si rel ot oi) (rd_relationships db))
      (getGrantingRelations cf ot permission) = Some rel) \<longleftrightarrow> granted_at cf db st si permission (ot, oi)"
proof -
  have "List.find P xs = None \<longleftrightarrow> (\<forall>x\<in>set xs. \<not> P x)" for P and xs :: "string list"
    by (auto simp: find_None_iff)
  then show ?thesis
    by (auto simp: granted_at_def list_ex_iff simp flip: not_None_eq)
qed

lemma checkAccess_iff:
  assumes "forest (rd_resources db)" and "plain_types db" and "CHR '':'' \<notin> set ot"
    and "\<forall>v\<in>set visited. \<exists>u j. v = visit_key u j permission \<and> CHR '':'' \<notin> set u
      \<and> height (rd_resources db) (ot, oi) < height (rd_resources db) (u, j)"
  shows "checkAccess cf db st si permission ot oi depth visited \<noteq> None \<longleftrightarrow>
      (\<exists>n. depth + n \<le> max_depth cf \<and>
        (\<exists>k. climb cf db permission n (ot, oi) = Some k \<and> granted_at cf db st si permission k))"
  using assms
proof (induction cf db st si permission ot oi depth visited rule: checkAccess.induct)
  case (1 cf db st si permission ot oi depth visited)
  let ?goal = "\<lambda>d key. \<exists>n. d + n \<le> max_depth cf \<and>
        (\<exists>k. climb cf db permission n key = Some k \<and> granted_at cf db st si permission k)"
  let ?find = "List.find (\<lambda>rel. list_ex (is_tuple st si rel ot oi) (rd_relationships db))
                (getGrantingRelations cf ot permission)"
  have fresh: "visit_key ot oi permission \<notin> set visited"
  proof
    assume "visit_key ot oi permission \<in> set visited"
    with "1.prems"(4) obtain u j where "visit_key ot oi permission = visit_key u j permission" "CHR '':'' \<notin> set u"
      and h: "height (rd_resources db) (ot, oi) < height (rd_resources db) (u, j)" by blast
    with visit_key_inject "1.prems"(3) have "ot = u \<and> oi = j" by blast
    with h show False by simp
  qed
  note unf = checkAccess.simps [of cf db st si permission ot oi depth visited]
  have zero: "?goal d key \<longleftrightarrow> d \<le> max_depth cf \<and> granted_at cf db st si permission key
      \<or> (\<exists>k'. up cf db permission key = Some k' \<and> ?goal (Suc d) k')" for d key
  proof -
    have nat: "(\<exists>n. P n) \<longleftrightarrow> P 0 \<or> (\<exists>m. P (Suc m))" for P :: "nat \<Rightarrow> bool"
      by (metis not0_implies_Suc)
    show ?thesis by (subst nat) (cases key, auto simp: bind_eq_Some_conv)
  qed
  show ?case
  proof (cases "depth \<le> max_depth cf")
    case False
    then show ?thesis by (simp add: unf)
  next
    case d: True
    show ?thesis
    proof (cases ?find)
      case (Some rel)
      with direct_found have "granted_at cf db st si permission (ot, oi)" by blast
      with zero [of depth "(ot, oi)"] d have "?goal depth (ot, oi)" by blast
      with Some d fresh show ?thesis by (simp add: unf)
    next
      case None
      with direct_found have nd: "\<not> granted_at cf db st si permission (ot, oi)" by (metis option.distinct(1))
      show ?thesis
      proof (cases "up cf db permission (ot, oi)")
        case up: None
        with zero [of depth "(ot, oi)"] nd have "\<not> ?goal depth (ot, oi)" by simp
        moreover have "checkAccess cf db st si permission ot oi depth visited = None"
          using up None d fresh by (simp add: unf up_def split: if_splits option.split)
        ultimately show ?thesis by simp
      next
        case (Some k')
        from up_SomeD [OF this] have s: "shouldInherit cf ot permission"
          and p: "Option.bind (find_resource db ot oi) parent_key = Some k'" by auto
        have "checkAccess cf db st si permission (fst k') (snd k') (Suc depth) (visit_key ot oi permission # visited) \<noteq> None
            \<longleftrightarrow> ?goal (Suc depth) (fst k', snd k')"
        proof (rule "1.IH" [OF _ fresh None s p])
          show "\<not> max_depth cf < depth" using d by simp
          show "CHR '':'' \<notin> set (fst k')" using up_plain [OF "1.prems"(2) Some] .
          have lower: "height (rd_resources db) k' < height (rd_resources db) (ot, oi)"
            by (rule up_lower [OF "1.prems"(1) Some])
          show "\<forall>v\<in>set (visit_key ot oi permission # visited). \<exists>u j. v = visit_key u j permission \<and> CHR '':'' \<notin> set u
              \<and> height (rd_resources db) (fst k', snd k') < height (rd_resources db) (u, j)"
          proof
            fix v assume "v \<in> set (visit_key ot oi permission # visited)"
            then consider "v = visit_key ot oi permission" | "v \<in> set visited" by auto
            then show "\<exists>u j. v = visit_key u j permission \<and> CHR '':'' \<notin> set u
              \<and> height (rd_resources db) (fst k', snd k') < height (rd_resources db) (u, j)"
            proof cases
              case 1
              with lower "1.prems"(3) show ?thesis by auto
            next
              case 2
              with "1.prems"(4) lower show ?thesis by (metis less_trans prod.collapse)
            qed
          qed
        qed (use "1.prems" in auto)
        then have "checkAccess cf db st si permission ot oi depth visited \<noteq> None \<longleftrightarrow> ?goal (Suc depth) k'"
          using d fresh None s p by (simp add: unf)
        with zero [of depth "(ot, oi)"] nd Some show ?thesis by simp
      qed
    qed
  qed
qed

lemma check_facts:
  assumes "forest (rd_resources db)" and "plain_types db" and "CHR '':'' \<notin> set ot"
  shows "check cf db st si permission ot oi \<noteq> None \<longleftrightarrow>
    (\<exists>n\<le>max_depth cf. \<exists>k. climb cf db permission n (ot, oi) = Some k \<and> granted_at cf db st si permission k)"
  using checkAccess_iff [OF assms, where visited = "[]" and depth = 0] by (simp add: check_def)

text \<open>
  C29: A relationship check finds exactly the grants on the object and on its ancestors. On a well
  formed store whose types hold no colon, \<open>check\<close> allows if and only if within the depth limit some
  ancestor, reached by resource types that inherit the permission, carries a relationship of
  the subject whose relation grants it.
\<close>

theorem check_iff_ancestor_grant:
  assumes "forest (rd_resources db)" and "plain_types db" and "CHR '':'' \<notin> set ot"
  shows "check cf db st si permission ot oi \<noteq> None \<longleftrightarrow>
    (\<exists>n\<le>max_depth cf. \<exists>k. climb cf db permission n (ot, oi) = Some k \<and> granted_at cf db st si permission k)"
  using assms by (rule check_facts)

definition plain_rebac :: rebac_config where
  "plain_rebac = \<lparr>rc_maxDepth = None, rc_permissionRules = None\<rparr>"

definition sample_tree :: rebac_db where
  "sample_tree =
     \<lparr>rd_resources = [\<lparr>rb_id = ''o'', rb_type = ''org'', rb_parentId = None, rb_parentType = None\<rparr>,
        \<lparr>rb_id = ''d'', rb_type = ''document'', rb_parentId = Some ''o'', rb_parentType = Some ''org''\<rparr>],
      rd_relationships = [\<lparr>rl_id = ''r'', rl_subjectType = ''user'', rl_subjectId = ''u'',
        rl_relation = ''viewer'', rl_objectType = ''org'', rl_objectId = ''o'', rl_createdAt = 0\<rparr>]\<rparr>"

lemma sample_forest: "forest (rd_resources sample_tree)" "plain_types sample_tree"
  by (auto simp: forest_def plain_types_def sample_tree_def parent_key_def res_key_def less_Suc_eq)

theorem check_iff_ancestor_grant_witness:
  "check plain_rebac sample_tree ''user'' ''u'' ''viewer'' ''document'' ''d'' \<noteq> None"
proof -
  have up: "up plain_rebac sample_tree ''viewer'' (''document'', ''d'') = Some (''org'', ''o'')"
    by (simp add: up_def shouldInherit_def rule_for_def plain_rebac_def default_permission_rules_def
        find_resource_def sample_tree_def parent_key_def Let_def)
  have "permission \<in> set (getGrantingRelations cf ot permission)" for cf ot permission
    by (simp add: getGrantingRelations_def split: option.split)
  then have "granted_at plain_rebac sample_tree ''user'' ''u'' ''viewer'' (''org'', ''o'')"
    by (auto simp: granted_at_def is_tuple_def sample_tree_def)
  moreover have "climb plain_rebac sample_tree ''viewer'' (Suc 0) (''document'', ''d'') = Some (''org'', ''o'')"
    by (simp add: up)
  moreover have "Suc 0 \<le> max_depth plain_rebac" by (simp add: max_depth_def plain_rebac_def)
  moreover have "CHR '':'' \<notin> set ''document''" by simp
  ultimately show ?thesis
    using check_iff_ancestor_grant [OF sample_forest] by blast
qed

section \<open>Listing agrees with checking\<close>

lemma fold_objects:
  "set (foldl (\<lambda>ids r. if rb_id r \<in> set ids then ids else if parent_key r = None then ids
       else if P (rb_id r) then ids @ [rb_id r] else ids) ids rows)
   = set ids \<union> {rb_id r | r. r \<in> set rows \<and> parent_key r \<noteq> None \<and> P (rb_id r)}"
proof (induction rows arbitrary: ids)
  case (Cons r rows)
  show ?case unfolding foldl.simps Cons by auto
qed simp

lemma listObjects_inherit:
  assumes "shouldInherit cf ot permission"
  shows "oi \<in> set (listObjects cf db st si permission ot) \<longleftrightarrow>
    granted_at cf db st si permission (ot, oi)
    \<or> (\<exists>r\<in>set (rd_resources db). rb_type r = ot \<and> oi = rb_id r \<and> parent_key r \<noteq> None
         \<and> check cf db st si permission ot oi \<noteq> None)"
  using assms unfolding listObjects_def Let_def
  by (simp only: if_True fold_objects [where P = "\<lambda>i. check cf db st si permission ot i \<noteq> None"])
    (auto simp: granted_at_def is_tuple_def)

lemma up_None_climb: "up cf db permission k = None \<Longrightarrow> climb cf db permission n k = Some k' \<Longrightarrow> n = 0 \<and> k' = k"
  by (cases n) auto

text \<open>
  Listing objects is checking them. An object id is listed for a subject exactly when the check
  of that object allows, on a well formed store.
\<close>

theorem listObjects_iff_check:
  assumes "forest (rd_resources db)" and "plain_types db" and "CHR '':'' \<notin> set ot"
  shows "oi \<in> set (listObjects cf db st si permission ot) \<longleftrightarrow> check cf db st si permission ot oi \<noteq> None"
proof -
  let ?direct = "{i. granted_at cf db st si permission (ot, i)}"
  have d: "set (uniq (concat (map (\<lambda>rel. map rl_objectId
              (filter (\<lambda>r. rl_subjectType r = st \<and> rl_subjectId r = si \<and> rl_relation r = rel \<and> rl_objectType r = ot)
                 (rd_relationships db)))
            (getGrantingRelations cf ot permission)))) = ?direct"
    by (auto simp: granted_at_def is_tuple_def)
  note c = check_facts [OF assms]
  have direct: "granted_at cf db st si permission (ot, oi) \<Longrightarrow> check cf db st si permission ot oi \<noteq> None"
    unfolding c by (rule exI [of _ 0]) simp
  have step: "\<exists>r. r \<in> set (rd_resources db) \<and> rb_type r = ot \<and> parent_key r \<noteq> None \<and> rb_id r = oi"
    if "check cf db st si permission ot oi \<noteq> None" "\<not> granted_at cf db st si permission (ot, oi)"
  proof -
    from that obtain n k where "climb cf db permission n (ot, oi) = Some k" "n \<noteq> 0"
      unfolding c by (metis climb.simps(1) option.inject)
    then obtain k' where "up cf db permission (ot, oi) = Some k'" by (cases n) (auto simp: bind_eq_Some_conv)
    from up_SomeD [OF this] show ?thesis by (auto simp: res_key_def)
  qed
  show ?thesis
  proof (cases "shouldInherit cf ot permission")
    case True
    from listObjects_inherit [OF this, of oi db st si] direct step show ?thesis by blast
  next
    case False
    then have "up cf db permission (ot, oi) = None" by (simp add: up_def)
    then have "check cf db st si permission ot oi \<noteq> None \<longleftrightarrow> granted_at cf db st si permission (ot, oi)"
      using up_None_climb direct unfolding c by blast
    with False show ?thesis unfolding listObjects_def Let_def by (simp only: if_False d) simp
  qed
qed

theorem listObjects_iff_check_witness:
  "''d'' \<in> set (listObjects plain_rebac sample_tree ''user'' ''u'' ''viewer'' ''document'') \<longleftrightarrow>
   check plain_rebac sample_tree ''user'' ''u'' ''viewer'' ''document'' ''d'' \<noteq> None"
  by (rule listObjects_iff_check [OF sample_forest]) simp

lemma climb_ex:
  "(\<exists>n k. climb cf db permission n key = Some k \<and> P k) \<longleftrightarrow>
   P key \<or> (\<exists>k'. up cf db permission key = Some k' \<and> (\<exists>n k. climb cf db permission n k' = Some k \<and> P k))"
proof -
  have nat: "(\<exists>n. Q n) \<longleftrightarrow> Q 0 \<or> (\<exists>m. Q (Suc m))" for Q :: "nat \<Rightarrow> bool"
    by (metis not0_implies_Suc)
  show ?thesis by (subst nat) (cases key, auto simp: bind_eq_Some_conv)
qed

lemma listSubjects_facts:
  assumes "forest (rd_resources db)"
  shows "height (rd_resources db) (ot, oi) < fuel \<Longrightarrow>
    \<exists>l. listSubjects fuel cf db ot oi permission st = Some l
      \<and> (\<forall>si. si \<in> set l \<longleftrightarrow> (\<exists>n k. climb cf db permission n (ot, oi) = Some k \<and> granted_at cf db st si permission k))"
proof (induction fuel arbitrary: ot oi)
  case (Suc fuel)
  let ?direct = "uniq (concat (map (\<lambda>rel. map rl_subjectId
              (filter (\<lambda>r. rl_objectType r = ot \<and> rl_objectId r = oi \<and> rl_relation r = rel \<and> rl_subjectType r = st)
                 (rd_relationships db)))
            (getGrantingRelations cf ot permission)))"
  have d: "si \<in> set ?direct \<longleftrightarrow> granted_at cf db st si permission (ot, oi)" for si
    by (auto simp: granted_at_def is_tuple_def)
  note nat = climb_ex [of cf db permission "(ot, oi)"]
  show ?case
  proof (cases "up cf db permission (ot, oi)")
    case None
    then have "listSubjects (Suc fuel) cf db ot oi permission st = Some ?direct"
      by (auto simp: up_def Let_def split: if_splits option.splits)
    with d nat None show ?thesis by auto
  next
    case (Some k')
    from up_SomeD [OF this] have s: "shouldInherit cf ot permission"
      and p: "Option.bind (find_resource db ot oi) parent_key = Some k'" by auto
    have "height (rd_resources db) (fst k', snd k') < fuel"
      using up_lower [OF assms Some] Suc.prems by simp
    from Suc.IH [OF this] obtain l where l: "listSubjects fuel cf db (fst k') (snd k') permission st = Some l"
      "\<forall>si. si \<in> set l \<longleftrightarrow> (\<exists>n k. climb cf db permission n k' = Some k \<and> granted_at cf db st si permission k)"
      by auto
    have "listSubjects (Suc fuel) cf db ot oi permission st = Some (uniq (?direct @ l))"
      using s p l(1) by (simp add: Let_def)
    moreover have "si \<in> set (uniq (?direct @ l)) \<longleftrightarrow>
        (\<exists>n k. climb cf db permission n (ot, oi) = Some k \<and> granted_at cf db st si permission k)" for si
      using d [of si] l(2) nat [of "granted_at cf db st si permission"] Some by simp
    ultimately show ?thesis by blast
  qed
qed simp

text \<open>
  Listing subjects ends and covers every check. On a well formed store \<open>listSubjects\<close> returns,
  and every subject the check allows is listed; the list also holds subjects with a grant beyond
  the depth limit of the check.
\<close>

theorem listSubjects_covers_check:
  assumes "forest (rd_resources db)" and "plain_types db" and "CHR '':'' \<notin> set ot"
  shows "\<exists>l. listSubjects (Suc (length (rd_resources db))) cf db ot oi permission st = Some l
    \<and> (\<forall>si. check cf db st si permission ot oi \<noteq> None \<longrightarrow> si \<in> set l)
    \<and> (\<forall>si\<in>set l. \<exists>n k. climb cf db permission n (ot, oi) = Some k \<and> granted_at cf db st si permission k)"
proof -
  have "height (rd_resources db) (ot, oi) < Suc (length (rd_resources db))"
    using height_le by (simp add: less_Suc_eq_le)
  from listSubjects_facts [OF assms(1) this, of cf permission st] obtain l where
    "listSubjects (Suc (length (rd_resources db))) cf db ot oi permission st = Some l"
    "\<forall>si. si \<in> set l \<longleftrightarrow> (\<exists>n k. climb cf db permission n (ot, oi) = Some k \<and> granted_at cf db st si permission k)"
    by blast
  with check_facts [OF assms] show ?thesis by blast
qed

theorem listSubjects_covers_check_witness:
  "\<exists>l. listSubjects (Suc (length (rd_resources sample_tree))) plain_rebac sample_tree ''document'' ''d'' ''viewer'' ''user'' = Some l"
  using listSubjects_covers_check [OF sample_forest, of "''document''" plain_rebac "''d''" "''viewer''" "''user''"] by auto

text \<open>
  Listing subjects ignores the depth limit. With a limit of 0 the subject of a grant on the
  parent is listed for the child, and the check denies.
\<close>

theorem listSubjects_beyond_check:
  "\<exists>cf db l. listSubjects 3 cf db ''document'' ''d'' ''viewer'' ''user'' = Some l \<and> ''u'' \<in> set l
     \<and> check cf db ''user'' ''u'' ''viewer'' ''document'' ''d'' = None"
proof -
  let ?cf = "\<lparr>rc_maxDepth = Some 0, rc_permissionRules = None\<rparr>"
  have g: "getGrantingRelations ?cf ''document'' ''viewer'' = [''viewer'', ''owner'', ''editor'']"
    "getGrantingRelations ?cf ''org'' ''viewer'' = [''viewer'', ''owner'', ''admin'', ''editor'', ''member'']"
    and s: "shouldInherit ?cf ''document'' ''viewer''" "\<not> shouldInherit ?cf ''org'' ''viewer''"
    by (simp_all add: getGrantingRelations_def shouldInherit_def rule_for_def default_permission_rules_def Let_def)
  have p: "Option.bind (find_resource sample_tree ''document'' ''d'') parent_key = Some (''org'', ''o'')"
    by (simp add: find_resource_def sample_tree_def parent_key_def)
  have three: "3 = Suc (Suc (Suc 0))" by simp
  have "listSubjects 3 ?cf sample_tree ''document'' ''d'' ''viewer'' ''user'' = Some [''u'']"
    unfolding three by (simp add: Let_def g s p) (simp add: sample_tree_def)
  moreover have "check ?cf sample_tree ''user'' ''u'' ''viewer'' ''document'' ''d'' = None"
    unfolding check_def
    by (subst checkAccess.simps, subst checkAccess.simps)
      (simp add: g s p max_depth_def, simp add: sample_tree_def is_tuple_def)
  ultimately show ?thesis by (intro exI conjI) (assumption, simp, assumption)
qed

section \<open>Deleting a subtree\<close>

text \<open>The resources at or below a set of keys.\<close>

inductive below :: "rebac_resource set \<Rightarrow> (string \<times> ident) set \<Rightarrow> rebac_resource \<Rightarrow> bool"
  for rows :: "rebac_resource set" and keys :: "(string \<times> ident) set" where
  at: "r \<in> rows \<Longrightarrow> res_key r \<in> keys \<Longrightarrow> below rows keys r"
| orphan: "r \<in> rows \<Longrightarrow> k \<in> keys \<Longrightarrow> child_of k r \<Longrightarrow> below rows keys r"
| child: "r \<in> rows \<Longrightarrow> below rows keys p \<Longrightarrow> child_of (res_key p) r \<Longrightarrow> below rows keys r"

definition rest :: "rebac_resource set \<Rightarrow> (string \<times> ident) set \<Rightarrow> rebac_resource \<Rightarrow> bool" where
  "rest rows keys r \<longleftrightarrow> r \<in> rows \<and> \<not> below rows keys r"

lemma below_in: "below rows keys r \<Longrightarrow> r \<in> rows"
  by (induction rule: below.induct) auto

lemma below_mono: "below rows keys r \<Longrightarrow> rows \<subseteq> rows' \<Longrightarrow> keys \<subseteq> keys' \<Longrightarrow> below rows' keys' r"
  by (induction rule: below.induct) (auto intro: below.intros)

lemma child_of_unique: "child_of k r \<Longrightarrow> child_of k' r \<Longrightarrow> k = k'"
  by (auto simp: child_of_def prod_eq_iff)

text \<open>Deleting one set of subtrees after another is deleting both.\<close>

lemma below_rest:
  assumes "below rows (J \<union> K) r" and "\<not> below rows J r"
  shows "below (Collect (rest rows J)) K r"
  using assms
proof (induction rule: below.induct)
  case (at r)
  then have "res_key r \<in> K" using below.at by blast
  moreover have "rest rows J r" using at by (simp add: rest_def)
  ultimately show ?case by (intro below.at) auto
next
  case (orphan r k)
  then have "k \<in> K" using below.orphan by blast
  moreover have "rest rows J r" using orphan by (simp add: rest_def)
  ultimately show ?case using orphan(3) by (intro below.orphan) auto
next
  case (child r p)
  have "\<not> below rows J p" using child.hyps(1,3) child.prems below.child by blast
  with child.IH have "below (Collect (rest rows J)) K p" .
  moreover have "r \<in> Collect (rest rows J)" using child by (simp add: rest_def)
  ultimately show ?case using child.hyps(3) by (blast intro: below.child)
qed

lemma below_rest_iff:
  "below rows (J \<union> K) r \<longleftrightarrow> below rows J r \<or> below (Collect (rest rows J)) K r"
proof
  assume "below rows J r \<or> below (Collect (rest rows J)) K r"
  moreover have "Collect (rest rows J) \<subseteq> rows" by (auto simp: rest_def)
  ultimately show "below rows (J \<union> K) r" using below_mono by (metis Un_upper1 Un_upper2 order_refl)
qed (use below_rest in blast)

lemma rest_rest: "rest (Collect (rest rows J)) K r \<longleftrightarrow> rest rows (J \<union> K) r"
  by (auto simp: rest_def below_rest_iff)

lemma rest_UnD: "rest rows (J \<union> K) r \<Longrightarrow> rest rows J r"
  unfolding rest_def below_rest_iff by blast

lemma below_children:
  assumes "inj_on res_key rows"
  shows "below rows {k} r \<longleftrightarrow> r \<in> rows \<and> res_key r = k \<or> below rows (res_key ` {c \<in> rows. child_of k c}) r"
proof
  assume "below rows {k} r"
  then show "r \<in> rows \<and> res_key r = k \<or> below rows (res_key ` {c \<in> rows. child_of k c}) r"
  proof (induction rule: below.induct)
    case (orphan r k')
    then have "res_key r \<in> res_key ` {c \<in> rows. child_of k c}" by blast
    with below.at [OF orphan.hyps(1) this] show ?case by simp
  next
    case (child r p)
    from child.IH show ?case
    proof
      assume "p \<in> rows \<and> res_key p = k"
      with child.hyps have "res_key r \<in> res_key ` {c \<in> rows. child_of k c}" by blast
      with below.at [OF child.hyps(1) this] show ?thesis by simp
    next
      assume "below rows (res_key ` {c \<in> rows. child_of k c}) p"
      with below.child [OF child.hyps(1) this child.hyps(3)] show ?thesis by blast
    qed
  qed simp
next
  assume "r \<in> rows \<and> res_key r = k \<or> below rows (res_key ` {c \<in> rows. child_of k c}) r"
  then show "below rows {k} r"
  proof
    assume "below rows (res_key ` {c \<in> rows. child_of k c}) r"
    then show ?thesis
    proof (induction rule: below.induct)
      case (at r)
      then obtain c where c: "c \<in> rows" "child_of k c" "res_key r = res_key c" by auto
      then have "r = c" using assms at(1) by (auto dest: inj_onD)
      with c show ?case using below.orphan [of c rows k "{k}"] by simp
    next
      case (orphan r k')
      then obtain c where c: "c \<in> rows" "child_of k c" "k' = res_key c" by auto
      have "below rows {k} c" by (rule below.orphan [OF c(1) _ c(2)]) simp
      with orphan c show ?case by (auto intro: below.child)
    qed (auto intro: below.child)
  qed (auto intro: below.at)
qed

definition gone :: "rebac_resource set \<Rightarrow> (string \<times> ident) set \<Rightarrow> (string \<times> ident) set" where
  "gone rows keys = keys \<union> res_key ` Collect (below rows keys)"

lemma gone_Un: "gone rows (J \<union> K) = gone rows J \<union> gone (Collect (rest rows J)) K"
  by (auto simp: gone_def below_rest_iff)

lemma gone_children:
  assumes "inj_on res_key rows"
  shows "gone rows {k} = insert k (gone rows (res_key ` {c \<in> rows. child_of k c}))"
  unfolding gone_def using below_children [OF assms, of k]
  by (auto intro: below.intros)

definition untouched :: "(string \<times> ident) set \<Rightarrow> relationship \<Rightarrow> bool" where
  "untouched keys r \<longleftrightarrow> (\<forall>k\<in>keys. \<not> touches k r)"

lemma untouched_Un: "untouched (J \<union> K) r \<longleftrightarrow> untouched J r \<and> untouched K r"
  by (auto simp: untouched_def)

lemma untouched_insert: "untouched (insert k K) r \<longleftrightarrow> \<not> touches k r \<and> untouched K r"
  by (auto simp: untouched_def)

lemma delete_by_id:
  assumes "distinct (map rl_id rels)"
  shows "delete_where (\<lambda>r. rl_id r \<in> set (map rl_id (filter P rels))) rels = filter (\<lambda>r. \<not> P r) rels"
  unfolding delete_where_def
proof (rule filter_cong [OF refl])
  fix r assume r: "r \<in> set rels"
  have "P r" if s: "s \<in> set rels" "P s" "rl_id s = rl_id r" for s
    using assms r s by (auto simp: distinct_map dest: inj_onD)
  then have "rl_id r \<in> set (map rl_id (filter P rels)) \<Longrightarrow> P r" by (force simp: image_iff)
  moreover have "P r \<Longrightarrow> rl_id r \<in> set (map rl_id (filter P rels))" using r by auto
  ultimately show "(rl_id r \<notin> set (map rl_id (filter P rels))) = (\<not> P r)" by blast
qed

definition deletable :: "(string \<times> ident \<Rightarrow> nat) \<Rightarrow> nat \<Rightarrow> rebac_db \<Rightarrow> bool" where
  "deletable h n db \<longleftrightarrow>
     inj_on res_key (set (rd_resources db)) \<and> distinct (map rl_id (rd_relationships db))
     \<and> (\<forall>c\<in>set (rd_resources db). h (res_key c) \<le> n \<and> (\<forall>k. child_of k c \<longrightarrow> h k < h (res_key c)))"

lemma deletable_sub:
  "deletable h n db \<Longrightarrow> set (rd_resources db') \<subseteq> set (rd_resources db) \<Longrightarrow>
   rd_relationships db' = filter P (rd_relationships db) \<Longrightarrow> deletable h n db'"
  by (auto simp: deletable_def distinct_map_filter intro: inj_on_subset)

lemma delete_exact:
  "deletable h n db \<Longrightarrow> n - h k < fuel \<Longrightarrow> \<exists>db'. deleteResource fuel k db = Some db'
     \<and> rd_resources db' = filter (rest (set (rd_resources db)) {k}) (rd_resources db)
     \<and> rd_relationships db' = filter (untouched (gone (set (rd_resources db)) {k})) (rd_relationships db)"
  "deletable h n db \<Longrightarrow> \<forall>c\<in>set cs. n - h (res_key c) < fuel \<Longrightarrow>
   \<exists>db'. delete_children fuel cs db = Some db'
     \<and> rd_resources db' = filter (rest (set (rd_resources db)) (res_key ` set cs)) (rd_resources db)
     \<and> rd_relationships db' =
          filter (untouched (gone (set (rd_resources db)) (res_key ` set cs))) (rd_relationships db)"
proof (induction fuel k db and fuel cs db rule: deleteResource_delete_children.induct)
  case (2 fuel k db)
  let ?res = "rd_resources db"
  define db1 where "db1 = db\<lparr>rd_relationships :=
      delete_where (\<lambda>r. rl_id r \<in> set (map rl_id (filter (touches k) (rd_relationships db)))) (rd_relationships db)\<rparr>"
  let ?cs = "filter (child_of k) (rd_resources db1)"
  have r1: "rd_resources db1 = ?res" by (simp add: db1_def)
  have inj: "inj_on res_key (set ?res)" and dist: "distinct (map rl_id (rd_relationships db))"
    using 2(2) by (simp_all add: deletable_def)
  have rel1: "rd_relationships db1 = filter (\<lambda>r. \<not> touches k r) (rd_relationships db)"
    unfolding db1_def using delete_by_id [OF dist] by simp
  have d1: "deletable h n db1" by (rule deletable_sub [OF 2(2) _ rel1]) (simp add: r1)
  have fuel: "\<forall>c\<in>set ?cs. n - h (res_key c) < fuel"
  proof
    fix c assume "c \<in> set ?cs"
    then have "c \<in> set ?res" "child_of k c" by (simp_all add: r1)
    then have "h (res_key c) \<le> n" "h k < h (res_key c)" using 2(2) unfolding deletable_def by blast+
    with 2(3) show "n - h (res_key c) < fuel" by linarith
  qed
  from 2(1) [OF refl db1_def d1 fuel] obtain db2 where db2: "delete_children fuel ?cs db1 = Some db2"
    "rd_resources db2 = filter (rest (set ?res) (res_key ` set ?cs)) ?res"
    "rd_relationships db2 = filter (untouched (gone (set ?res) (res_key ` set ?cs))) (rd_relationships db1)"
    unfolding r1 by blast
  have cs: "res_key ` set ?cs = res_key ` {c \<in> set ?res. child_of k c}" by (auto simp: r1)
  have "deleteResource (Suc fuel) k db = Some (db2\<lparr>rd_resources := delete_where (\<lambda>r. res_key r = k) (rd_resources db2)\<rparr>)"
    using db2(1) by (simp add: Let_def db1_def)
  moreover have "delete_where (\<lambda>r. res_key r = k) (rd_resources db2) = filter (rest (set ?res) {k}) ?res"
    unfolding db2(2) delete_where_def filter_filter cs
    by (rule filter_cong [OF refl]) (auto simp: rest_def below_children [OF inj])
  moreover have "rd_relationships db2 = filter (untouched (gone (set ?res) {k})) (rd_relationships db)"
    unfolding db2(3) rel1 filter_filter cs gone_children [OF inj]
    by (rule filter_cong [OF refl]) (auto simp: untouched_insert)
  ultimately show ?case by simp
next
  case (3 fuel db)
  have "\<not> below rows {} r" for rows r
    by (rule notI, induction rule: below.induct) auto
  then have "filter (rest (set (rd_resources db)) {}) (rd_resources db) = rd_resources db"
    "filter (untouched (gone (set (rd_resources db)) {})) (rd_relationships db) = rd_relationships db"
    by (auto simp: rest_def gone_def untouched_def intro!: filter_True)
  then show ?case by simp
next
  case (4 fuel child children db)
  let ?res = "set (rd_resources db)" and ?K = "res_key ` set children"
  have "n - h (res_key child) < fuel" using 4(4) by simp
  from 4(1) [OF 4(3) this] obtain db1 where db1: "deleteResource fuel (res_key child) db = Some db1"
    "rd_resources db1 = filter (rest ?res {res_key child}) (rd_resources db)"
    "rd_relationships db1 = filter (untouched (gone ?res {res_key child})) (rd_relationships db)"
    by blast
  have "deletable h n db1" by (rule deletable_sub [OF 4(3) _ db1(3)]) (auto simp: db1(2))
  moreover have "\<forall>c\<in>set children. n - h (res_key c) < fuel" using 4(4) by simp
  ultimately obtain db2 where db2: "delete_children fuel children db1 = Some db2"
    "rd_resources db2 = filter (rest (set (rd_resources db1)) ?K) (rd_resources db1)"
    "rd_relationships db2 = filter (untouched (gone (set (rd_resources db1)) ?K)) (rd_relationships db1)"
    using 4(2) [OF db1(1)] by blast
  have s: "set (rd_resources db1) = Collect (rest ?res {res_key child})"
    unfolding db1(2) by (auto simp: rest_def)
  have u: "res_key ` set (child # children) = {res_key child} \<union> ?K" by simp
  have "rd_resources db2 = filter (rest ?res ({res_key child} \<union> ?K)) (rd_resources db)"
    unfolding db2(2) s unfolding db1(2) filter_filter rest_rest
    by (rule filter_cong [OF refl]) (use rest_UnD in blast)
  moreover have "rd_relationships db2 = filter (untouched (gone ?res ({res_key child} \<union> ?K))) (rd_relationships db)"
    unfolding db2(3) s unfolding db1(3) filter_filter gone_Un
    by (rule filter_cong [OF refl]) (auto simp: untouched_Un)
  ultimately show ?case using db1(1) db2(1) unfolding u by simp
qed simp


text \<open>A well formed store: the resources are, and relationships have unique ids.\<close>

definition rebac_store :: "rebac_db \<Rightarrow> bool" where
  "rebac_store db \<longleftrightarrow> forest (rd_resources db) \<and> distinct (map rl_id (rd_relationships db))"

lemma child_height:
  assumes f: "forest rows" and c: "c \<in> set rows" and k: "child_of k c"
  shows "height rows k < height rows (res_key c)"
proof (cases "fst k \<noteq> [] \<and> snd k \<noteq> []")
  case True
  with parent_height [OF f c] child_parent_key [OF k] show ?thesis by blast
next
  case False
  have "\<forall>r\<in>set rows. res_key r \<noteq> k" using f False by (auto simp: forest_def res_key_def)
  moreover obtain b where "b < length rows" "c = rows ! b" using c by (auto simp: in_set_conv_nth)
  ultimately show ?thesis using height_none height_nth [OF f] by simp
qed

lemma store_deletable: "rebac_store db \<Longrightarrow> deletable (height (rd_resources db)) (length (rd_resources db)) db"
proof -
  assume s: "rebac_store db"
  then have f: "forest (rd_resources db)" by (simp add: rebac_store_def)
  have "inj_on res_key (set (rd_resources db))"
    using f by (auto simp: forest_def inj_on_def distinct_map res_key_def)
  with s child_height [OF f] height_le show ?thesis by (auto simp: deletable_def rebac_store_def)
qed

lemma delete_store:
  assumes "rebac_store db"
  shows "\<exists>db'. deleteResource (Suc (length (rd_resources db))) k db = Some db'
    \<and> rd_resources db' = filter (rest (set (rd_resources db)) {k}) (rd_resources db)
    \<and> rd_relationships db' = filter (untouched (gone (set (rd_resources db)) {k})) (rd_relationships db)"
  by (rule delete_exact(1) [OF store_deletable [OF assms]]) simp

text \<open>
  Deleting a resource ends and removes exactly its subtree. On a well formed store, with fuel
  one more than the number of resources, \<open>deleteResource\<close> returns; the resources left are those
  not at or below the key, in the same order, and the relationships left are those that touch neither
  the key nor a resource removed.
\<close>

theorem deleteResource_exact:
  assumes "rebac_store db"
  shows "\<exists>db'. deleteResource (Suc (length (rd_resources db))) k db = Some db'
    \<and> rd_resources db' = filter (\<lambda>r. \<not> below (set (rd_resources db)) {k} r) (rd_resources db)
    \<and> rd_relationships db' =
        filter (\<lambda>rel. \<not> touches k rel \<and> (\<forall>r. below (set (rd_resources db)) {k} r \<longrightarrow> \<not> touches (res_key r) rel))
          (rd_relationships db)"
proof -
  have 1: "filter (rest (set (rd_resources db)) {k}) (rd_resources db) =
      filter (\<lambda>r. \<not> below (set (rd_resources db)) {k} r) (rd_resources db)"
    by (rule filter_cong [OF refl]) (simp add: rest_def)
  have 2: "filter (untouched (gone (set (rd_resources db)) {k})) (rd_relationships db) =
      filter (\<lambda>rel. \<not> touches k rel \<and> (\<forall>r. below (set (rd_resources db)) {k} r \<longrightarrow> \<not> touches (res_key r) rel))
        (rd_relationships db)"
    by (rule filter_cong [OF refl]) (auto simp: untouched_def gone_def)
  show ?thesis using delete_store [OF assms, of k] by (simp only: 1 2)
qed

theorem deleteResource_exact_witness:
  "\<exists>db'. deleteResource 3 (''org'', ''o'') sample_tree = Some db' \<and> rd_resources db' = []"
proof -
  let ?rows = "set (rd_resources sample_tree)"
  have s: "rebac_store sample_tree" using sample_forest(1) by (simp add: rebac_store_def sample_tree_def)
  have three: "Suc (length (rd_resources sample_tree)) = 3" by (simp add: sample_tree_def)
  have all: "below ?rows {(''org'', ''o'')} r" if r: "r \<in> ?rows" for r
  proof -
    from r consider "res_key r = (''org'', ''o'')" | "child_of (''org'', ''o'') r"
      by (auto simp: sample_tree_def res_key_def child_of_def)
    then show ?thesis using r by cases (auto intro: below.intros)
  qed
  then have "filter (\<lambda>r. \<not> below ?rows {(''org'', ''o'')} r) (rd_resources sample_tree) = []"
    by (simp add: filter_empty_conv)
  with deleteResource_exact [OF s, of "(''org'', ''o'')"] show ?thesis by (auto simp: three)
qed

section \<open>The store stays well formed\<close>

lemma forest_Nil: "forest []"
  by (simp add: forest_def)

lemma forest_snoc:
  "forest (rows @ [r]) \<longleftrightarrow>
     forest rows \<and> rb_id r \<notin> rb_id ` set rows \<and> rb_id r \<noteq> [] \<and> rb_type r \<noteq> []
     \<and> (\<forall>k. parent_key r = Some k \<longrightarrow> k \<in> res_key ` set rows)"
proof -
  have last: "(\<exists>a<length rows. res_key (rows ! a) = k) \<longleftrightarrow> k \<in> res_key ` set rows" for k
    by (metis image_iff in_set_conv_nth)
  let ?ok = "\<lambda>rs b. \<forall>k. parent_key (rs ! b) = Some k \<longrightarrow> (\<exists>a<b. res_key (rs ! a) = k)"
  have same: "?ok (rows @ [r]) b = ?ok rows b" if b: "b < length rows" for b
  proof -
    have "(\<exists>a<b. res_key ((rows @ [r]) ! a) = k) = (\<exists>a<b. res_key (rows ! a) = k)" for k
      using b by (intro ex_cong1 conj_cong refl) (simp add: nth_append)
    then show ?thesis using b by (simp add: nth_append)
  qed
  have last_ok: "?ok (rows @ [r]) (length rows) \<longleftrightarrow>
      (\<forall>k. parent_key r = Some k \<longrightarrow> (\<exists>a<length rows. res_key (rows ! a) = k))"
    by (auto simp: nth_append)
  have "(\<forall>b<length (rows @ [r]). ?ok (rows @ [r]) b) \<longleftrightarrow>
      (\<forall>b<length rows. ?ok rows b) \<and> ?ok (rows @ [r]) (length rows)"
    using same by (simp only: length_append list.size add_0_right add_Suc_right All_less_Suc) blast
  then have "(\<forall>b<length (rows @ [r]). ?ok (rows @ [r]) b) \<longleftrightarrow>
      (\<forall>b<length rows. ?ok rows b) \<and> (\<forall>k. parent_key r = Some k \<longrightarrow> k \<in> res_key ` set rows)"
    unfolding last_ok last .
  moreover have "distinct (map rb_id (rows @ [r])) \<longleftrightarrow> distinct (map rb_id rows) \<and> rb_id r \<notin> rb_id ` set rows"
    by auto
  moreover have "(\<forall>x\<in>set (rows @ [r]). rb_id x \<noteq> [] \<and> rb_type x \<noteq> []) \<longleftrightarrow>
      (\<forall>x\<in>set rows. rb_id x \<noteq> [] \<and> rb_type x \<noteq> []) \<and> rb_id r \<noteq> [] \<and> rb_type r \<noteq> []"
    by auto
  ultimately show ?thesis unfolding forest_def by blast

qed

lemma forest_filter:
  "forest rows \<Longrightarrow> \<forall>r\<in>set rows. P r \<longrightarrow> (\<forall>p\<in>set rows. parent_key r = Some (res_key p) \<longrightarrow> P p) \<Longrightarrow>
   forest (filter P rows)"
proof (induction rows rule: rev_induct)
  case (snoc r rows)
  from snoc.prems(1) have f: "forest rows" and r: "rb_id r \<notin> rb_id ` set rows" "rb_id r \<noteq> []" "rb_type r \<noteq> []"
    and p: "\<And>k. parent_key r = Some k \<Longrightarrow> k \<in> res_key ` set rows"
    unfolding forest_snoc by blast+
  have "\<forall>r\<in>set rows. P r \<longrightarrow> (\<forall>p\<in>set rows. parent_key r = Some (res_key p) \<longrightarrow> P p)"
    using snoc.prems(2) unfolding set_append by blast
  with snoc.IH [OF f] have ih: "forest (filter P rows)" by blast
  show ?case
  proof (cases "P r")
    case True
    have "k \<in> res_key ` set (filter P rows)" if k: "parent_key r = Some k" for k
    proof -
      from p [OF k] obtain q where "q \<in> set rows" "k = res_key q" by blast
      moreover from this k True have "P q" using snoc.prems(2) unfolding set_append by (metis UnCI list.set_intros(1))
      ultimately show ?thesis by simp
    qed
    moreover have "rb_id r \<notin> rb_id ` set (filter P rows)" using r(1) by auto
    ultimately show ?thesis using True ih r(2,3) by (simp add: forest_snoc)
  qed (simp add: ih)
qed (simp add: forest_Nil)

inductive rebac_step :: "rebac_db \<Rightarrow> rebac_db \<Rightarrow> bool" where
  create: "createResource node db = (Inr node', db') \<Longrightarrow> rb_id node \<noteq> [] \<Longrightarrow> rb_type node \<noteq> [] \<Longrightarrow>
    rebac_step db db'"
| delete: "deleteResource fuel k db = Some db' \<Longrightarrow> Suc (length (rd_resources db)) = fuel \<Longrightarrow> rebac_step db db'"
| relate: "addRelationship r db = (Inr r', db') \<Longrightarrow> rl_id r \<notin> rl_id ` set (rd_relationships db) \<Longrightarrow>
    rebac_step db db'"
| unrelate: "rebac_step db (removeRelationship st si rel ot oi db)"

lemma rebac_store_step:
  assumes s: "rebac_store db" and "rebac_step db db'"
  shows "rebac_store db'"
  using assms(2)
proof cases
  case (create node node')
  have "k \<in> res_key ` set (rd_resources db)" if "parent_key node = Some k" for k
  proof -
    obtain t i where k: "k = (t, i)" by (cases k)
    with create(1) that have "find_resource db t i \<noteq> None" by (auto simp: createResource_def split: if_splits)
    then obtain p where "find_resource db t i = Some p" by blast
    from find_resource_key [OF this] k show ?thesis by force
  qed
  moreover have "rb_id node \<notin> rb_id ` set (rd_resources db)" "db' = db\<lparr>rd_resources := rd_resources db @ [node]\<rparr>"
    using create(1) by (auto simp: createResource_def list_ex_iff split: if_splits)
  ultimately show ?thesis using create(2,3) s by (simp add: rebac_store_def forest_snoc)
next
  case (delete fuel k)
  with delete_store [OF s, of k] have d: "rd_resources db' = filter (rest (set (rd_resources db)) {k}) (rd_resources db)"
    "rd_relationships db' = filter (untouched (gone (set (rd_resources db)) {k})) (rd_relationships db)"
    by auto
  have "forest (filter (rest (set (rd_resources db)) {k}) (rd_resources db))"
  proof (rule forest_filter)
    show "\<forall>r\<in>set (rd_resources db). rest (set (rd_resources db)) {k} r \<longrightarrow>
        (\<forall>p\<in>set (rd_resources db). parent_key r = Some (res_key p) \<longrightarrow> rest (set (rd_resources db)) {k} p)"
    proof (intro ballI impI)
      fix r p assume r: "r \<in> set (rd_resources db)" "rest (set (rd_resources db)) {k} r"
        and p: "p \<in> set (rd_resources db)" "parent_key r = Some (res_key p)"
      have "\<not> below (set (rd_resources db)) {k} p"
        using below.child [OF r(1) _ parent_key_child [OF p(2)]] r(2) by (auto simp: rest_def)
      with p(1) show "rest (set (rd_resources db)) {k} p" by (simp add: rest_def)
    qed
  qed (use s in \<open>simp add: rebac_store_def\<close>)
  with s show ?thesis by (simp add: rebac_store_def d distinct_map_filter)
next
  case (relate r r')
  with s show ?thesis by (auto simp: addRelationship_def rebac_store_def split: if_splits)
next
  case (unrelate st si rel ot oi)
  with s show ?thesis
    by (simp add: removeRelationship_def rebac_store_def delete_where_def distinct_map_filter)
qed

definition rebac_empty :: "rebac_db \<Rightarrow> bool" where
  "rebac_empty db \<longleftrightarrow> rd_resources db = [] \<and> rd_relationships db = []"

interpretation rebac: machine rebac_empty rebac_step rebac_store
  by unfold_locales (simp add: rebac_empty_def rebac_store_def forest_Nil, rule rebac_store_step)

text \<open>
  The hierarchy is always a forest. Whatever resources with a name and a type are created or deleted and
  whatever relationships come and go, ids stay unique, every parent named is present and was
  created before its child, so no resource is its own ancestor.
\<close>

theorem rebac_store_reachable:
  assumes "reaches rebac_empty rebac_step db"
  shows "forest (rd_resources db)
    \<and> (\<forall>r\<in>set (rd_resources db). \<forall>k. parent_key r = Some k \<longrightarrow>
         k \<noteq> res_key r \<and> (\<exists>p\<in>set (rd_resources db). res_key p = k))"
proof -
  have f: "forest (rd_resources db)" using rebac.inv_reachable [OF assms] by (simp add: rebac_store_def)
  have "k \<noteq> res_key r \<and> (\<exists>p\<in>set (rd_resources db). res_key p = k)"
    if r: "r \<in> set (rd_resources db)" "parent_key r = Some k" for r k
  proof
    show "k \<noteq> res_key r" using parent_height [OF f r] by auto
    from r(1) obtain b where b: "b < length (rd_resources db)" "r = rd_resources db ! b"
      by (auto simp: in_set_conv_nth)
    with f r(2) obtain a where "a < b" "res_key (rd_resources db ! a) = k" unfolding forest_def by blast
    with b(1) show "\<exists>p\<in>set (rd_resources db). res_key p = k" by (auto intro: nth_mem)
  qed
  with f show ?thesis by blast
qed

theorem rebac_store_reachable_witness:
  "forest (rd_resources \<lparr>rd_resources = [\<lparr>rb_id = ''o'', rb_type = ''org'', rb_parentId = None, rb_parentType = None\<rparr>],
     rd_relationships = []\<rparr>)"
proof -
  let ?node = "\<lparr>rb_id = ''o'', rb_type = ''org'', rb_parentId = None, rb_parentType = None\<rparr>"
  let ?empty = "\<lparr>rd_resources = [], rd_relationships = []\<rparr> :: rebac_db"
  have "reaches rebac_empty rebac_step ?empty" by (rule reaches_init) (simp add: rebac_empty_def)
  moreover have "rebac_step ?empty \<lparr>rd_resources = [?node], rd_relationships = []\<rparr>"
    by (rule rebac_step.create [of ?node _ ?node]) (simp_all add: createResource_def parent_key_def)
  ultimately have "reaches rebac_empty rebac_step \<lparr>rd_resources = [?node], rd_relationships = []\<rparr>"
    by (rule reaches_step)
  from rebac_store_reachable [OF this] show ?thesis by blast
qed

text \<open>
  An unnamed resource defeats deletion. A resource with an empty id may name itself as its parent,
  because the check for the parent is skipped for an empty id; deleting it never ends.
\<close>

theorem delete_empty_id_loops:
  "\<exists>node db. createResource node \<lparr>rd_resources = [], rd_relationships = []\<rparr> = (Inr node, db)
     \<and> (\<forall>fuel. deleteResource fuel (res_key node) db = None)"
proof -
  let ?node = "\<lparr>rb_id = [], rb_type = ''t'', rb_parentId = Some [], rb_parentType = Some ''t''\<rparr>"
  let ?db = "\<lparr>rd_resources = [?node], rd_relationships = []\<rparr>"
  have "createResource ?node \<lparr>rd_resources = [], rd_relationships = []\<rparr> = (Inr ?node, ?db)"
    by (simp add: createResource_def parent_key_def)
  moreover have "deleteResource fuel (res_key ?node) ?db = None" for fuel
  proof (induction fuel)
    case (Suc fuel)
    have "delete_children fuel [?node] ?db = None" using Suc by simp
    then show ?case by (simp add: child_of_def res_key_def delete_where_def)
  qed simp
  ultimately show ?thesis by blast
qed

end
