(* ===== verification/PolicyDecision.thy ===== *)
theory PolicyDecision
  imports PermissionEngine Rebac
begin

text \<open>
  The decisions of the policy engine: \<open>policy/decision.ts\<close>, \<open>policy/combiner.ts\<close>,
  \<open>policy/risk.ts\<close>, \<open>policy/taint.ts\<close> and \<open>matchLabel\<close> of \<open>taint/labels.ts\<close>. A decision starts
  as the combination of what the matching permissions say and passes through the risk tiers and
  the taint rules; neither may ever turn a refusal into an allow. Texts of reasons are
  constructors.
\<close>

section \<open>Decisions\<close>

datatype effect = Permit | Deny | Indeterminate | Escalate

datatype outcome = AllowOut | DenyOut | EscalateOut

datatype approval_requirement = RequireNone | RequireApprovalTier | RequireStepUp

datatype policy_error =
    InvalidInput | SubjectNotFound | GraphQueryFailed | AuditWriteFailed | NoMatchingPermission
  | ConstraintUnmet | EscalationRequired | PolicyOwnerMismatch | AgentInactive | PolicyAgentNotFound
  | TaintFailure

datatype policy_reason =
    PolicyError policy_error
  | MatchedReason
  | ConstraintReason constraint_failure
  | ApprovalReason approval_denial
  | ConsumedReason
  | HookReason string

datatype taint_effect = EscalateT | DenyT

datatype match_kind = ForbidK | RequireK

record taint_match =
  tm_rule :: string
  tm_kind :: match_kind
  tm_arg :: string
  tm_labels :: "string list"
  tm_effect :: taint_effect
  tm_ruleIndex :: nat

datatype taint_status = CleanV | EscalateV | DenyV

type_synonym provenance_map = "(string \<times> string list) list"

record taint_verdict =
  tv_verdict :: taint_status
  tv_matches :: "taint_match list"
  tv_labels :: provenance_map

datatype escalation_reason =
    TierRequires string approval_requirement
  | TaintFound "taint_match list"
  | DecisionReason policy_reason

record escalation_info =
  es_tier :: string
  es_requirement :: approval_requirement
  es_reason :: escalation_reason
  es_stepUp :: "auth_requirement option"
  es_approvalRequestId :: "ident option"

record principal =
  pp_actorId :: ident
  pp_subjectId :: "ident option"
  pp_delegationChain :: "ident list"

record policy_decision =
  pd_allowed :: bool
  pd_decision :: outcome
  pd_effect :: effect
  pd_reason :: policy_reason
  pd_code :: decision_code
  pd_escalation :: "escalation_info option"
  pd_principal :: "principal option"
  pd_matchedPermissionId :: "ident option"
  pd_matchedRelation :: "string option"
  pd_cacheHit :: bool
  pd_auditId :: "ident option"
  pd_taint :: "taint_verdict option"

definition outcomeOf :: "effect \<Rightarrow> outcome" where
  "outcomeOf e = (if e = Permit then AllowOut else if e = Escalate then EscalateOut else DenyOut)"

definition defaultCodeOf :: "effect \<Rightarrow> decision_code" where
  "defaultCodeOf e =
     (if e = Permit then Allowed
      else if e = Indeterminate then PolicyIndeterminate
      else if e = Escalate then ApprovalRequired
      else NoPermission)"

text \<open>
  \<open>makeDecision\<close>: the optional \<open>code\<close> of the input is the second argument, and the derived fields
  of the first are recomputed whatever they hold.
\<close>

definition makeDecision :: "policy_decision \<Rightarrow> decision_code option \<Rightarrow> policy_decision" where
  "makeDecision input code =
     input\<lparr>pd_code := (case code of Some c \<Rightarrow> c | None \<Rightarrow> defaultCodeOf (pd_effect input)),
           pd_decision := outcomeOf (pd_effect input),
           pd_allowed := (outcomeOf (pd_effect input) = AllowOut)\<rparr>"

definition withEffect :: "policy_decision \<Rightarrow> effect \<Rightarrow> decision_code option \<Rightarrow> policy_decision" where
  "withEffect decision e code = makeDecision (decision\<lparr>pd_effect := e\<rparr>) code"

text \<open>A decision of the given effect and reason that leaves every optional field out.\<close>

definition bare :: "effect \<Rightarrow> policy_reason \<Rightarrow> policy_decision" where
  "bare e reason =
     \<lparr>pd_allowed = False, pd_decision = DenyOut, pd_effect = e, pd_reason = reason,
      pd_code = NoPermission, pd_escalation = None, pd_principal = None,
      pd_matchedPermissionId = None, pd_matchedRelation = None, pd_cacheHit = False,
      pd_auditId = None, pd_taint = None\<rparr>"

text \<open>The derived fields agree with the effect.\<close>

definition consistent :: "policy_decision \<Rightarrow> bool" where
  "consistent d \<longleftrightarrow> pd_decision d = outcomeOf (pd_effect d) \<and> (pd_allowed d \<longleftrightarrow> pd_decision d = AllowOut)"

lemma consistent_makeDecision [simp]: "consistent (makeDecision d code)"
  by (simp add: consistent_def makeDecision_def)

lemma makeDecision_fields [simp]:
  "pd_effect (makeDecision d code) = pd_effect d" "pd_reason (makeDecision d code) = pd_reason d"
  "pd_escalation (makeDecision d code) = pd_escalation d" "pd_taint (makeDecision d code) = pd_taint d"
  "pd_decision (makeDecision d code) = outcomeOf (pd_effect d)"
  "pd_allowed (makeDecision d code) \<longleftrightarrow> pd_effect d = Permit"
  "pd_auditId (makeDecision d code) = pd_auditId d" "pd_principal (makeDecision d code) = pd_principal d"
  "pd_cacheHit (makeDecision d code) = pd_cacheHit d"
  by (simp_all add: makeDecision_def outcomeOf_def)

lemma withEffect_fields [simp]:
  "pd_effect (withEffect d e code) = e" "pd_decision (withEffect d e code) = outcomeOf e"
  "pd_allowed (withEffect d e code) \<longleftrightarrow> e = Permit" "pd_taint (withEffect d e code) = pd_taint d"
  "pd_escalation (withEffect d e code) = pd_escalation d" "pd_auditId (withEffect d e code) = pd_auditId d"
  "pd_principal (withEffect d e code) = pd_principal d" "pd_cacheHit (withEffect d e code) = pd_cacheHit d"
  by (simp_all add: withEffect_def)

lemma outcomeOf_simps [simp]:
  "outcomeOf Permit = AllowOut" "outcomeOf Escalate = EscalateOut" "outcomeOf Deny = DenyOut"
  "outcomeOf Indeterminate = DenyOut" "outcomeOf e = AllowOut \<longleftrightarrow> e = Permit"
  "outcomeOf e = EscalateOut \<longleftrightarrow> e = Escalate"
  by (cases e; simp add: outcomeOf_def)+

lemma consistent_update [simp]:
  "consistent (d\<lparr>pd_reason := r\<rparr>) = consistent d" "consistent (d\<lparr>pd_escalation := x\<rparr>) = consistent d"
  "consistent (d\<lparr>pd_taint := t\<rparr>) = consistent d" "consistent (d\<lparr>pd_auditId := a\<rparr>) = consistent d"
  "consistent (d\<lparr>pd_cacheHit := h\<rparr>) = consistent d" "consistent (d\<lparr>pd_principal := p\<rparr>) = consistent d"
  by (simp_all add: consistent_def)

lemma consistent_withEffect [simp]: "consistent (withEffect d e code)"
  by (simp add: withEffect_def)

section \<open>Combining partial decisions\<close>

datatype combine_strategy = DenyOverrides | PermitOverrides

record partial_decision =
  pa_effect :: effect
  pa_reason :: policy_reason
  pa_code :: "decision_code option"
  pa_matchedPermissionId :: "ident option"
  pa_matchedRelation :: "string option"

fun precedence :: "combine_strategy \<Rightarrow> effect list" where
  "precedence DenyOverrides = [Deny, Escalate, Permit]"
| "precedence PermitOverrides = [Permit, Escalate, Deny]"

definition pick ::
  "effect \<Rightarrow> policy_reason \<Rightarrow> decision_code option \<Rightarrow> ident option \<Rightarrow> string option \<Rightarrow> policy_decision" where
  "pick e reason code permissionId relation =
     (makeDecision (bare e reason) code)
       \<lparr>pd_matchedPermissionId := permissionId, pd_matchedRelation := relation\<rparr>"

fun combine_loop :: "effect list \<Rightarrow> partial_decision list \<Rightarrow> policy_decision" where
  "combine_loop [] partials = pick Indeterminate (PolicyError NoMatchingPermission) (Some NoPermission) None None"
| "combine_loop (e # es) partials =
     (case List.find (\<lambda>p. pa_effect p = e) partials of
        None \<Rightarrow> combine_loop es partials
      | Some hit \<Rightarrow>
          pick e (pa_reason hit) (pa_code hit) (pa_matchedPermissionId hit) (pa_matchedRelation hit))"

definition combine :: "partial_decision list \<Rightarrow> combine_strategy \<Rightarrow> policy_decision" where
  "combine partials strategy = combine_loop (precedence strategy) partials"

lemma pick_fields [simp]:
  "pd_effect (pick e r c i rel) = e" "pd_reason (pick e r c i rel) = r" "consistent (pick e r c i rel)"
  "pd_code (pick e r c i rel) = (case c of Some x \<Rightarrow> x | None \<Rightarrow> defaultCodeOf e)"
  "pd_escalation (pick e r c i rel) = None" "pd_taint (pick e r c i rel) = None"
  "pd_cacheHit (pick e r c i rel) = False"
  by (simp_all add: pick_def bare_def makeDecision_def consistent_def split: option.split)

lemma consistent_combine [simp]: "consistent (combine partials strategy)"
proof -
  have "consistent (combine_loop es partials)" for es
    by (induction es) (simp_all split: option.split)
  then show ?thesis by (simp add: combine_def)
qed

lemma find_effect_None: "List.find (\<lambda>p. pa_effect p = e) ps = None \<longleftrightarrow> e \<notin> pa_effect ` set ps"
  by (auto simp: find_None_iff)

lemma combine_effect:
  "pd_effect (combine_loop es partials) =
     (case List.find (\<lambda>e. e \<in> pa_effect ` set partials) es of Some e \<Rightarrow> e | None \<Rightarrow> Indeterminate)"
proof (induction es)
  case (Cons e es)
  show ?case
  proof (cases "List.find (\<lambda>p. pa_effect p = e) partials")
    case None
    with Cons find_effect_None show ?thesis by fastforce
  next
    case (Some p)
    then have "e \<in> pa_effect ` set partials" by (auto simp: find_Some_iff)
    with Some show ?thesis by simp
  qed
qed simp

text \<open>
  Combining is deny-overrides or permit-overrides. Under the first a call is allowed exactly
  when something permits it and nothing denies or escalates it, and any deny denies; under the
  second any permit allows. With no partial decision at all the result is indeterminate, which
  does not allow.
\<close>

theorem combine_overrides:
  "(pd_allowed (combine ps DenyOverrides) \<longleftrightarrow>
      Permit \<in> pa_effect ` set ps \<and> Deny \<notin> pa_effect ` set ps \<and> Escalate \<notin> pa_effect ` set ps)
   \<and> (pd_effect (combine ps DenyOverrides) = Deny \<longleftrightarrow> Deny \<in> pa_effect ` set ps)
   \<and> (pd_allowed (combine ps PermitOverrides) \<longleftrightarrow> Permit \<in> pa_effect ` set ps)
   \<and> pd_effect (combine [] strategy) = Indeterminate"
proof -
  have a: "pd_allowed (combine ps s) \<longleftrightarrow> pd_effect (combine ps s) = Permit" for s
    using consistent_combine [of ps s] by (simp add: consistent_def)
  have "pd_effect (combine [] strategy) = Indeterminate" by (cases strategy) (simp_all add: combine_def)
  then show ?thesis unfolding a by (simp add: combine_def combine_effect del: combine_loop.simps)
qed

section \<open>Risk tiers\<close>

record risk_context =
  rk_amount :: "int option"
  rk_currency :: "string option"
  rk_dataClass :: "string option"
  rk_irreversible :: "bool option"

record risk_condition =
  rw_minAmount :: "int option"
  rw_currency :: "string option"
  rw_dataClasses :: "string list option"
  rw_irreversible :: "bool option"

record risk_rule =
  rr_tier :: string
  rr_when :: risk_condition
  rr_require :: approval_requirement
  rr_stepUp :: "auth_requirement option"

definition default_step_up :: auth_requirement where
  "default_step_up = \<lparr>rq_acr = Some (AcrString (acr_order ! 2)), rq_maxAge = Some 300\<rparr>"

fun strength :: "approval_requirement \<Rightarrow> nat" where
  "strength RequireNone = 0"
| "strength RequireApprovalTier = 1"
| "strength RequireStepUp = 2"

definition ruleMatches :: "risk_rule \<Rightarrow> risk_context \<Rightarrow> bool" where
  "ruleMatches rule risk =
     (let w = rr_when rule
      in if (case rw_minAmount w of
               None \<Rightarrow> False
             | Some m \<Rightarrow> (case rk_amount risk of None \<Rightarrow> True | Some a \<Rightarrow> a < m)) then False
         else if rw_currency w \<noteq> None \<and> rk_currency risk \<noteq> rw_currency w then False
         else if (case rw_dataClasses w of
                    None \<Rightarrow> False
                  | Some cs \<Rightarrow> (case rk_dataClass risk of None \<Rightarrow> True | Some c \<Rightarrow> c \<notin> set cs)) then False
         else if (case rw_irreversible w of
                    None \<Rightarrow> False | Some b \<Rightarrow> (rk_irreversible risk = Some True) \<noteq> b) then False
         else True)"

fun classify_loop :: "risk_context \<Rightarrow> risk_rule list \<Rightarrow> risk_rule option \<Rightarrow> risk_rule option" where
  "classify_loop risk [] best = best"
| "classify_loop risk (rule # rules) best =
     (if \<not> ruleMatches rule risk then classify_loop risk rules best
      else classify_loop risk rules
        (case best of
           None \<Rightarrow> Some rule
         | Some b \<Rightarrow> if strength (rr_require b) < strength (rr_require rule) then Some rule else best))"

definition classifyRisk :: "risk_rule list option \<Rightarrow> risk_context option \<Rightarrow> risk_rule option" where
  "classifyRisk config risk =
     (case (config, risk) of
        (Some tiers, Some r) \<Rightarrow> classify_loop r tiers None
      | _ \<Rightarrow> None)"

definition applyRisk ::
  "policy_decision \<Rightarrow> risk_rule list option \<Rightarrow> risk_context option \<Rightarrow> policy_decision" where
  "applyRisk decision config risk =
     (if pd_decision decision \<noteq> AllowOut then decision
      else (case classifyRisk config risk of
              None \<Rightarrow> decision
            | Some rule \<Rightarrow>
                if rr_require rule = RequireNone then decision
                else (withEffect decision Escalate (Some RiskEscalation))
                  \<lparr>pd_reason := PolicyError EscalationRequired,
                   pd_escalation := Some
                     \<lparr>es_tier = rr_tier rule, es_requirement = rr_require rule,
                      es_reason = TierRequires (rr_tier rule) (rr_require rule),
                      es_stepUp =
                        (case rr_stepUp rule of
                           Some s \<Rightarrow> Some s
                         | None \<Rightarrow> if rr_require rule = RequireStepUp then Some default_step_up else None),
                      es_approvalRequestId = None\<rparr>\<rparr>))"

text \<open>The strongest matching rule, the first of its strength.\<close>

definition strongest :: "risk_rule list \<Rightarrow> risk_context \<Rightarrow> risk_rule \<Rightarrow> bool" where
  "strongest rules risk rule \<longleftrightarrow>
     (\<exists>as bs. rules = as @ rule # bs \<and> ruleMatches rule risk
        \<and> (\<forall>r\<in>set as. ruleMatches r risk \<longrightarrow> strength (rr_require r) < strength (rr_require rule))
        \<and> (\<forall>r\<in>set bs. ruleMatches r risk \<longrightarrow> strength (rr_require r) \<le> strength (rr_require rule)))"

lemma classify_loop_keeps:
  "(\<forall>r\<in>set rules. ruleMatches r risk \<longrightarrow> strength (rr_require r) \<le> strength (rr_require b)) \<Longrightarrow>
   classify_loop risk rules (Some b) = Some b"
  by (induction rules) auto

lemma classify_loop_result:
  "classify_loop risk rules best = Some rule \<Longrightarrow>
   (best = Some rule \<and> (\<forall>r\<in>set rules. ruleMatches r risk \<longrightarrow> strength (rr_require r) \<le> strength (rr_require rule)))
   \<or> (strongest rules risk rule
      \<and> (\<forall>b. best = Some b \<longrightarrow> strength (rr_require b) < strength (rr_require rule)))"
proof (induction rules arbitrary: best)
  case (Cons r rules)
  let ?next = "(case best of None \<Rightarrow> Some r
      | Some b \<Rightarrow> if strength (rr_require b) < strength (rr_require r) then Some r else best)"
  show ?case
  proof (cases "ruleMatches r risk")
    case False
    then have "strongest (r # rules) risk rule" if "strongest rules risk rule"
      using that unfolding strongest_def by (metis append_Cons set_ConsD)
    with Cons False show ?thesis by auto
  next
    case True
    have up: "strongest (r # rules) risk rule"
      if "strongest rules risk rule" "strength (rr_require r) < strength (rr_require rule)"
      using that unfolding strongest_def by (metis append_Cons set_ConsD)
    have here: "strongest (r # rules) risk r"
      if "\<forall>x\<in>set rules. ruleMatches x risk \<longrightarrow> strength (rr_require x) \<le> strength (rr_require r)"
      unfolding strongest_def using that True by (intro exI [of _ "[]"] exI [of _ rules]) simp
    have "classify_loop risk rules ?next = Some rule" using Cons.prems True by simp
    from Cons.IH [OF this] show ?thesis using up here True
      by (cases best) (auto split: if_splits)
  qed
qed simp

lemma classify_loop_None: "classify_loop risk rules best = None \<longleftrightarrow>
   best = None \<and> (\<forall>r\<in>set rules. \<not> ruleMatches r risk)"
  by (induction rules arbitrary: best) (auto split: option.splits)

text \<open>
  The tier of an action is that of the strongest matching rule, the first one on ties, and
  there is none exactly when no rule matches.
\<close>

theorem classifyRisk_strongest:
  "(classifyRisk (Some rules) (Some risk) = Some rule \<longrightarrow> strongest rules risk rule)
   \<and> (classifyRisk (Some rules) (Some risk) = None \<longleftrightarrow> (\<forall>r\<in>set rules. \<not> ruleMatches r risk))"
  using classify_loop_result [of risk rules None rule] classify_loop_None [of risk rules None]
  by (auto simp: classifyRisk_def)

theorem classifyRisk_strongest_witness:
  "strongest
     [\<lparr>rr_tier = ''low'', rr_when = \<lparr>rw_minAmount = Some 10, rw_currency = None, rw_dataClasses = None, rw_irreversible = None\<rparr>,
       rr_require = RequireApprovalTier, rr_stepUp = None\<rparr>,
      \<lparr>rr_tier = ''high'', rr_when = \<lparr>rw_minAmount = Some 100, rw_currency = None, rw_dataClasses = None, rw_irreversible = None\<rparr>,
       rr_require = RequireStepUp, rr_stepUp = None\<rparr>]
     \<lparr>rk_amount = Some 500, rk_currency = None, rk_dataClass = None, rk_irreversible = None\<rparr>
     \<lparr>rr_tier = ''high'', rr_when = \<lparr>rw_minAmount = Some 100, rw_currency = None, rw_dataClasses = None, rw_irreversible = None\<rparr>,
       rr_require = RequireStepUp, rr_stepUp = None\<rparr>"
  by (rule conjunct1 [OF classifyRisk_strongest, rule_format])
    (simp add: classifyRisk_def ruleMatches_def)

text \<open>A tier demands a human: some matching rule requires more than nothing.\<close>

definition risk_demands :: "risk_rule list option \<Rightarrow> risk_context option \<Rightarrow> bool" where
  "risk_demands config risk \<longleftrightarrow>
     (\<exists>rules r rule. config = Some rules \<and> risk = Some r \<and> rule \<in> set rules \<and> ruleMatches rule r
        \<and> rr_require rule \<noteq> RequireNone)"

lemma strength_pos: "0 < strength q \<longleftrightarrow> q \<noteq> RequireNone"
  by (cases q) simp_all

lemma risk_demands_iff:
  "risk_demands config risk \<longleftrightarrow> (\<exists>rule. classifyRisk config risk = Some rule \<and> rr_require rule \<noteq> RequireNone)"
proof (cases "config = None \<or> risk = None")
  case True
  then show ?thesis by (auto simp: risk_demands_def classifyRisk_def split: option.splits)
next
  case False
  then obtain rules r where c: "config = Some rules" "risk = Some r" by auto
  show ?thesis
  proof (cases "classify_loop r rules None")
    case None
    then have "\<forall>x\<in>set rules. \<not> ruleMatches x r" by (simp add: classify_loop_None)
    with None c show ?thesis by (auto simp: risk_demands_def classifyRisk_def)
  next
    case (Some rule)
    with classify_loop_result [OF Some] have st: "strongest rules r rule" by simp
    then have le: "strength (rr_require x) \<le> strength (rr_require rule)" if "x \<in> set rules" "ruleMatches x r" for x
      using that unfolding strongest_def by (fastforce intro: less_imp_le)
    have "rule \<in> set rules \<and> ruleMatches rule r" using st by (auto simp: strongest_def)
    then show ?thesis
      using Some c le by (auto simp: risk_demands_def classifyRisk_def strength_pos [symmetric]) (metis less_le_trans)
  qed
qed

lemma applyRisk_consistent [simp]: "consistent d \<Longrightarrow> consistent (applyRisk d config risk)"
  by (simp add: applyRisk_def split: option.split)

lemma applyRisk_allowed:
  "consistent d \<Longrightarrow> pd_allowed (applyRisk d config risk) \<longleftrightarrow> pd_allowed d \<and> \<not> risk_demands config risk"
  by (auto simp: applyRisk_def risk_demands_iff consistent_def split: option.split)

section \<open>Provenance labels\<close>

text \<open>\<open>matchLabel\<close>: \<open>*\<close> matches anything and a trailing \<open>*\<close> is a prefix wildcard.\<close>

definition matchLabel :: "string \<Rightarrow> string \<Rightarrow> bool" where
  "matchLabel pattern label =
     (if pattern = ''*'' then True
      else if pattern \<noteq> [] \<and> last pattern = CHR ''*'' then starts_with (butlast pattern) label
      else pattern = label)"

definition call_labels_key :: string where
  "call_labels_key = ''*''"

text \<open>\<open>Object.entries\<close> of an unchecked value: no entries for a scalar, indices for an array.\<close>

definition entries_of :: "json \<Rightarrow> (string \<times> json) list" where
  "entries_of raw =
     (case raw of
        JObj kvs \<Rightarrow> kvs
      | JArr xs \<Rightarrow> map (\<lambda>(i, x). (nat_str i, x)) (enumerate 0 xs)
      | _ \<Rightarrow> [])"

fun label_of :: "json \<Rightarrow> string option" where
  "label_of (JStr l) = (if l = [] then None else Some l)"
| "label_of _ = None"

definition clean_labels :: "json list \<Rightarrow> string list" where
  "clean_labels labels = sort (uniq (List.map_filter label_of labels))"

fun provenance_loop :: "(string \<times> json) list \<Rightarrow> provenance_map \<Rightarrow> provenance_map" where
  "provenance_loop [] out = out"
| "provenance_loop ((arg, labels) # entries) out =
     (case labels of
        JArr xs \<Rightarrow>
          let clean = clean_labels xs
          in provenance_loop entries (if clean = [] then out else put_entry (arg, clean) out)
      | _ \<Rightarrow> provenance_loop entries out)"

definition normalizeProvenance :: "json option \<Rightarrow> provenance_map option" where
  "normalizeProvenance raw =
     (case raw of
        None \<Rightarrow> None
      | Some j \<Rightarrow> let out = provenance_loop (entries_of j) [] in if out = [] then None else Some out)"

definition input_source_kinds :: "string list" where
  "input_source_kinds = [''user_message'', ''tool_output'', ''retrieved_document'', ''agent'']"

definition input_kind :: "json \<Rightarrow> string option" where
  "input_kind input =
     (case input of
        JObj kvs \<Rightarrow>
          (case map_of kvs ''kind'' of
             Some (JStr k) \<Rightarrow> if k \<in> set input_source_kinds then Some k else None
           | _ \<Rightarrow> None)
      | _ \<Rightarrow> None)"

definition provenance_json :: "provenance_map \<Rightarrow> json" where
  "provenance_json p = JObj (map (\<lambda>(k, ls). (k, JArr (map JStr ls))) p)"

definition withInputLabels :: "provenance_map option \<Rightarrow> json option \<Rightarrow> provenance_map option" where
  "withInputLabels provenance inputs =
     (case inputs of
        Some (JArr xs) \<Rightarrow>
          (let kinds = uniq (map (\<lambda>k. ''input:'' @ k) (List.map_filter input_kind xs));
               given = (case provenance of None \<Rightarrow> [] | Some p \<Rightarrow> p);
               call = (case map_of given call_labels_key of None \<Rightarrow> [] | Some ls \<Rightarrow> ls)
           in if kinds = [] then provenance
              else normalizeProvenance
                (Some (provenance_json (put_entry (call_labels_key, call @ kinds) given))))
      | _ \<Rightarrow> provenance)"

section \<open>Taint rules\<close>

record label_rule =
  lr_forbid :: "string list option"
  lr_require :: "string list option"

record taint_rule = label_rule +
  tr_id :: "string option"
  tr_resource :: string
  tr_actions :: "string list option"
  tr_args :: "(string \<times> label_rule) list option"
  tr_effect :: "taint_effect option"
  tr_tier :: "string option"
  tr_violateUnlabeled :: bool

record tainted_call =
  tc_resource :: string
  tc_action :: string
  tc_provenance :: "provenance_map option"

text \<open>\<open>check\<close> of one argument: what it appends to \<open>out\<close>.\<close>

definition check_forbid :: "label_rule \<Rightarrow> string list \<Rightarrow> string list" where
  "check_forbid spec labels =
     (case lr_forbid spec of
        None \<Rightarrow> []
      | Some ps \<Rightarrow> filter (\<lambda>l. list_ex (\<lambda>p. matchLabel p l) ps) labels)"

definition check_require :: "bool \<Rightarrow> label_rule \<Rightarrow> string list \<Rightarrow> string list" where
  "check_require violate spec labels =
     (case lr_require spec of
        None \<Rightarrow> []
      | Some ps \<Rightarrow>
          if labels = [] \<and> \<not> violate then []
          else filter (\<lambda>p. \<not> list_ex (matchLabel p) labels) ps)"

definition check_taint ::
  "bool \<Rightarrow> string \<Rightarrow> nat \<Rightarrow> taint_effect \<Rightarrow> string \<Rightarrow> string list \<Rightarrow> label_rule \<Rightarrow> taint_match list" where
  "check_taint violate ruleId ruleIndex eff arg labels spec =
     (let bad = check_forbid spec labels; missing = check_require violate spec labels;
          found = (\<lambda>k ls. if ls = [] then []
            else [\<lparr>tm_rule = ruleId, tm_kind = k, tm_arg = arg, tm_labels = ls, tm_effect = eff,
                   tm_ruleIndex = ruleIndex\<rparr>])
      in found ForbidK bad @ found RequireK missing)"

text \<open>The labels of an argument: its own and those of the whole call.\<close>

definition arg_labels :: "provenance_map option \<Rightarrow> string \<Rightarrow> string list" where
  "arg_labels provenance arg =
     (let own = (\<lambda>k. case Option.bind provenance (\<lambda>p. map_of p k) of None \<Rightarrow> [] | Some ls \<Rightarrow> ls)
      in uniq (own arg @ own call_labels_key))"

definition all_labels :: "provenance_map option \<Rightarrow> string list" where
  "all_labels provenance = (case provenance of None \<Rightarrow> [] | Some p \<Rightarrow> uniq (concat (map snd p)))"

definition rule_applies :: "resource_matching \<Rightarrow> tainted_call \<Rightarrow> taint_rule \<Rightarrow> bool" where
  "rule_applies matching call rule =
     (if \<not> matchResource (tr_resource rule) (tc_resource call) matching then False
      else if (case tr_actions rule of None \<Rightarrow> False | Some as \<Rightarrow> \<not> matchAction as (tc_action call)) then False
      else if tc_provenance call = None \<and> \<not> tr_violateUnlabeled rule then False
      else True)"

definition rule_matches :: "tainted_call \<Rightarrow> nat \<Rightarrow> taint_rule \<Rightarrow> taint_match list" where
  "rule_matches call index rule =
     (let ruleId = (case tr_id rule of Some i \<Rightarrow> i | None \<Rightarrow> nat_str index);
          eff = (case tr_effect rule of Some e \<Rightarrow> e | None \<Rightarrow> EscalateT);
          run = check_taint (tr_violateUnlabeled rule) ruleId index eff
      in run call_labels_key (all_labels (tc_provenance call)) (label_rule.truncate rule)
         @ concat (map (\<lambda>(arg, spec). run arg (arg_labels (tc_provenance call) arg) spec)
             (case tr_args rule of None \<Rightarrow> [] | Some as \<Rightarrow> as)))"

definition taint_matches :: "taint_rule list \<Rightarrow> tainted_call \<Rightarrow> resource_matching \<Rightarrow> taint_match list" where
  "taint_matches rules call matching =
     concat (map (\<lambda>(i, rule). if rule_applies matching call rule then rule_matches call i rule else [])
       (enumerate 0 rules))"

definition evaluateTaint ::
  "taint_rule list option \<Rightarrow> tainted_call \<Rightarrow> resource_matching \<Rightarrow> taint_verdict option" where
  "evaluateTaint config call matching =
     (let matches = taint_matches (case config of None \<Rightarrow> [] | Some rules \<Rightarrow> rules) call matching
      in if tc_provenance call = None \<and> matches = [] then None
         else Some
           \<lparr>tv_verdict =
              (if list_ex (\<lambda>m. tm_effect m = DenyT) matches then DenyV
               else if matches \<noteq> [] then EscalateV else CleanV),
            tv_matches = matches,
            tv_labels = (case tc_provenance call of None \<Rightarrow> [] | Some p \<Rightarrow> p)\<rparr>)"

text \<open>\<open>tierOf\<close> is asked for a verdict that escalates, so it looks for the first such match.\<close>

definition tierOf :: "taint_rule list option \<Rightarrow> taint_verdict \<Rightarrow> string" where
  "tierOf config verdict =
     (case List.find (\<lambda>m. (tv_verdict verdict = DenyV \<and> tm_effect m = DenyT)
                        \<or> (tv_verdict verdict = EscalateV \<and> tm_effect m = EscalateT)) (tv_matches verdict) of
        None \<Rightarrow> ''taint''
      | Some m \<Rightarrow>
          (case config of
             None \<Rightarrow> ''taint''
           | Some rules \<Rightarrow>
               if tm_ruleIndex m < length rules
               then (case tr_tier (rules ! tm_ruleIndex m) of Some t \<Rightarrow> t | None \<Rightarrow> ''taint'')
               else ''taint''))"

definition applyTaint ::
  "policy_decision \<Rightarrow> taint_rule list option \<Rightarrow> tainted_call \<Rightarrow> resource_matching \<Rightarrow> policy_decision" where
  "applyTaint decision config call matching =
     (if pd_decision decision = DenyOut then decision
      else (case evaluateTaint config call matching of
              None \<Rightarrow> decision
            | Some verdict \<Rightarrow>
                let withVerdict = decision\<lparr>pd_taint := Some verdict\<rparr>
                in if tv_verdict verdict = CleanV then withVerdict
                   else if tv_verdict verdict = DenyV then
                     (withEffect withVerdict Deny (Some TaintViolation))
                       \<lparr>pd_reason := PolicyError TaintFailure, pd_escalation := None\<rparr>
                   else if pd_decision decision = EscalateOut then withVerdict
                   else (withEffect withVerdict Escalate (Some TaintViolation))
                     \<lparr>pd_reason := PolicyError EscalationRequired,
                      pd_escalation := Some
                        \<lparr>es_tier = tierOf config verdict, es_requirement = RequireApprovalTier,
                         es_reason = TaintFound (tv_matches verdict), es_stepUp = None,
                         es_approvalRequestId = None\<rparr>\<rparr>))"

section \<open>What taint rules guarantee\<close>

text \<open>The labels break a rule: one is forbidden, or a required one is missing.\<close>

definition violates :: "bool \<Rightarrow> label_rule \<Rightarrow> string list \<Rightarrow> bool" where
  "violates strict spec labels \<longleftrightarrow>
     (\<exists>ps p l. lr_forbid spec = Some ps \<and> p \<in> set ps \<and> l \<in> set labels \<and> matchLabel p l)
     \<or> (\<exists>ps p. lr_require spec = Some ps \<and> p \<in> set ps \<and> (labels \<noteq> [] \<or> strict)
           \<and> (\<forall>l\<in>set labels. \<not> matchLabel p l))"

definition call_violates :: "resource_matching \<Rightarrow> tainted_call \<Rightarrow> taint_rule \<Rightarrow> bool" where
  "call_violates matching call rule \<longleftrightarrow>
     rule_applies matching call rule
     \<and> (violates (tr_violateUnlabeled rule) (label_rule.truncate rule) (all_labels (tc_provenance call))
        \<or> (\<exists>as arg spec. tr_args rule = Some as \<and> (arg, spec) \<in> set as
             \<and> violates (tr_violateUnlabeled rule) spec (arg_labels (tc_provenance call) arg)))"

lemma check_taint_Nil: "check_taint v i n e arg labels spec = [] \<longleftrightarrow> \<not> violates v spec labels"
  by (auto simp: check_taint_def check_forbid_def check_require_def violates_def Let_def filter_empty_conv
      list_ex_iff split: option.splits)

lemma check_taint_effect: "m \<in> set (check_taint v i n e arg labels spec) \<Longrightarrow> tm_effect m = e"
  by (auto simp: check_taint_def Let_def split: if_splits)

lemma rule_matches_Nil:
  "rule_applies matching call rule \<Longrightarrow> rule_matches call i rule = [] \<longleftrightarrow> \<not> call_violates matching call rule"
  by (cases "tr_args rule") (auto simp: rule_matches_def call_violates_def Let_def check_taint_Nil)

lemma rule_matches_effect:
  "m \<in> set (rule_matches call i rule) \<Longrightarrow>
   tm_effect m = (case tr_effect rule of Some e \<Rightarrow> e | None \<Rightarrow> EscalateT)"
  by (auto simp: rule_matches_def Let_def dest!: check_taint_effect split: option.splits)

lemma taint_matches_effect:
  "(\<exists>m\<in>set (taint_matches rules call matching). P (tm_effect m)) \<longleftrightarrow>
   (\<exists>rule\<in>set rules. call_violates matching call rule
      \<and> P (case tr_effect rule of Some e \<Rightarrow> e | None \<Rightarrow> EscalateT))" (is "?L \<longleftrightarrow> ?R")
proof
  assume ?L
  then obtain m i rule where m: "(i, rule) \<in> set (enumerate 0 rules)" "rule_applies matching call rule"
    "m \<in> set (rule_matches call i rule)" "P (tm_effect m)"
    by (auto simp: taint_matches_def split: if_splits)
  then have "rule \<in> set rules" by (metis enumerate_eq_zip in_set_zipE)
  moreover have "call_violates matching call rule" using m(3) rule_matches_Nil [OF m(2), of i] by auto
  ultimately show ?R using m rule_matches_effect by fastforce
next
  assume ?R
  then obtain rule where r: "rule \<in> set rules" "call_violates matching call rule"
    "P (case tr_effect rule of Some e \<Rightarrow> e | None \<Rightarrow> EscalateT)" by blast
  then have a: "rule_applies matching call rule" by (simp add: call_violates_def)
  obtain i where i: "i < length rules" "rules ! i = rule" using r by (auto simp: in_set_conv_nth)
  then have "(i, rule) \<in> set (enumerate 0 rules)"
    by (auto simp: set_conv_nth enumerate_eq_zip intro!: exI [of _ i])
  moreover obtain m where "m \<in> set (rule_matches call i rule)"
    using rule_matches_Nil [OF a] r by (metis list.set_sel(1))
  ultimately have "m \<in> set (taint_matches rules call matching)" using a by (force simp: taint_matches_def)
  with r \<open>m \<in> set (rule_matches call i rule)\<close> show ?L by (metis rule_matches_effect)
qed

lemma applyTaint_consistent [simp]: "consistent d \<Longrightarrow> consistent (applyTaint d config call matching)"
  by (auto simp: applyTaint_def Let_def split: option.split)

lemma matches_nonempty: "xs \<noteq> [] \<longleftrightarrow> (\<exists>m\<in>set xs. True)"
  by (cases xs) auto

lemma applyTaint_outcome:
  assumes "consistent d"
  shows "(pd_decision (applyTaint d (Some rules) call matching) = DenyOut \<longleftrightarrow>
            pd_decision d = DenyOut
            \<or> (\<exists>rule\<in>set rules. call_violates matching call rule \<and> tr_effect rule = Some DenyT))
   \<and> (pd_allowed (applyTaint d (Some rules) call matching) \<longleftrightarrow>
        pd_allowed d \<and> (\<forall>rule\<in>set rules. \<not> call_violates matching call rule))"
proof -
  let ?ms = "taint_matches rules call matching"
  have deny: "list_ex (\<lambda>m. tm_effect m = DenyT) ?ms \<longleftrightarrow>
      (\<exists>rule\<in>set rules. call_violates matching call rule \<and> tr_effect rule = Some DenyT)"
    using taint_matches_effect [of rules call matching "\<lambda>e. e = DenyT"]
    by (auto simp: list_ex_iff split: option.splits)
  have any: "?ms \<noteq> [] \<longleftrightarrow> (\<exists>rule\<in>set rules. call_violates matching call rule)"
    using taint_matches_effect [of rules call matching "\<lambda>_. True"] by (simp add: matches_nonempty)
  have out: "pd_decision d = AllowOut \<or> pd_decision d = DenyOut \<or> pd_decision d = EscalateOut"
    by (cases "pd_decision d") auto
  have al: "pd_allowed d \<longleftrightarrow> pd_decision d = AllowOut" using assms by (simp add: consistent_def)
  have ex: "list_ex (\<lambda>m. tm_effect m = DenyT) ?ms \<Longrightarrow> ?ms \<noteq> []" by auto
  show ?thesis
    unfolding deny [symmetric] using out any ex
    by (auto simp: applyTaint_def evaluateTaint_def Let_def al split: if_splits)
qed

text \<open>
  A tainted call does not pass. Under taint rules a call stays allowed exactly when it was
  allowed and no applicable rule is broken by its labels: no label matches a forbidden pattern and
  no required one is missing. It is denied when it was denied or a broken rule says deny, so the
  rules never turn a refusal into an allow.
\<close>

theorem applyTaint_sound:
  assumes "consistent d"
  shows "(pd_decision (applyTaint d (Some rules) call matching) = DenyOut \<longleftrightarrow>
            pd_decision d = DenyOut
            \<or> (\<exists>rule\<in>set rules. call_violates matching call rule \<and> tr_effect rule = Some DenyT))
   \<and> (pd_allowed (applyTaint d (Some rules) call matching) \<longleftrightarrow>
        pd_allowed d \<and> (\<forall>rule\<in>set rules. \<not> call_violates matching call rule))"
  using assms by (rule applyTaint_outcome)

definition send_rule :: taint_rule where
  "send_rule = \<lparr>lr_forbid = Some [''tool_output:*''], lr_require = None, tr_id = None,
     tr_resource = ''tool:send'', tr_actions = None, tr_args = None, tr_effect = Some DenyT,
     tr_tier = None, tr_violateUnlabeled = False\<rparr>"

definition send_call :: tainted_call where
  "send_call = \<lparr>tc_resource = ''tool:send'', tc_action = ''x'',
     tc_provenance = Some [(''body'', [''tool_output:web''])]\<rparr>"

theorem applyTaint_sound_witness:
  "pd_decision (applyTaint (makeDecision (bare Permit MatchedReason) None) (Some [send_rule]) send_call Colon)
   = DenyOut"
proof -
  have "matchLabel ''tool_output:*'' ''tool_output:web''" by (simp add: matchLabel_def)
  moreover have "matchColonResource ''tool:send'' ''tool:send''" by code_simp
  ultimately have "call_violates Colon send_call send_rule"
    by (simp add: call_violates_def violates_def rule_applies_def send_rule_def send_call_def
        matchResource_def all_labels_def label_rule.truncate_def)
  moreover have "tr_effect send_rule = Some DenyT" by (simp add: send_rule_def)
  ultimately show ?thesis
    using applyTaint_sound [of "makeDecision (bare Permit MatchedReason) None" "[send_rule]" send_call Colon]
    by simp
qed

end
