(* ===== verification/PolicyCache.thy ===== *)
theory PolicyCache
  imports CanonicalJson
begin

text \<open>
  The decision cache: \<open>policy/cache.ts\<close>, a map in insertion order whose first entry is the least
  recently used one, with a time to live and prefix invalidation. It is proved to stay within its
  size, to return only what was written last for a key and is not expired or dropped since, and to
  keep an entry while fewer than its capacity of other keys are used.
\<close>

section \<open>Settings\<close>

definition readEnvBool :: "string option \<Rightarrow> bool option" where
  "readEnvBool raw =
     (case raw of
        None \<Rightarrow> None
      | Some s \<Rightarrow>
          if s = [] then None else Some (map to_lower s \<noteq> ''false'' \<and> s \<noteq> ''0''))"

record cache_config =
  cg_maxEntries :: "int option"
  cg_ttlMs :: "int option"
  cg_enabled :: "bool option"

text \<open>The environment: the two numbers as \<open>readEnvNumber\<close> returns them, and the raw switch.\<close>

record cache_env =
  ce_max :: "int option"
  ce_ttl :: "int option"
  ce_enabled :: "string option"

record cache_settings =
  cs_maxEntries :: int
  cs_ttlMs :: int
  cs_enabled :: bool

definition first_of :: "'a option \<Rightarrow> 'a option \<Rightarrow> 'a \<Rightarrow> 'a" where
  "first_of a b c = (case a of Some x \<Rightarrow> x | None \<Rightarrow> (case b of Some x \<Rightarrow> x | None \<Rightarrow> c))"

definition default_max_entries :: int where
  "default_max_entries = 10000"

definition default_ttl_ms :: int where
  "default_ttl_ms = 60000"

definition cache_settings_of :: "cache_config \<Rightarrow> cache_env \<Rightarrow> cache_settings" where
  "cache_settings_of config env =
     (let rawMax = first_of (cg_maxEntries config) (ce_max env) default_max_entries
      in \<lparr>cs_maxEntries = (if 0 < rawMax then rawMax else default_max_entries),
          cs_ttlMs = first_of (cg_ttlMs config) (ce_ttl env) default_ttl_ms,
          cs_enabled = first_of (cg_enabled config) (readEnvBool (ce_enabled env)) True\<rparr>)"

section \<open>Operations\<close>

record 'v cache_entry =
  en_value :: 'v
  en_expiresAt :: time

record 'v policy_cache =
  pc_store :: "(string \<times> 'v cache_entry) list"
  pc_hits :: nat
  pc_misses :: nat
  pc_evictions :: nat

definition empty_cache :: "'v policy_cache" where
  "empty_cache = \<lparr>pc_store = [], pc_hits = 0, pc_misses = 0, pc_evictions = 0\<rparr>"

text \<open>\<open>Map.delete\<close>, and \<open>Map.set\<close> of a key that is not there.\<close>

definition store_delete :: "string \<Rightarrow> (string \<times> 'e) list \<Rightarrow> (string \<times> 'e) list" where
  "store_delete k st = filter (\<lambda>(k', _). k' \<noteq> k) st"

definition isExpired :: "time \<Rightarrow> 'v cache_entry \<Rightarrow> bool" where
  "isExpired now e \<longleftrightarrow> en_expiresAt e \<le> now"

definition cache_get ::
  "cache_settings \<Rightarrow> time \<Rightarrow> string \<Rightarrow> 'v policy_cache \<Rightarrow> 'v option \<times> 'v policy_cache" where
  "cache_get cs now key c =
     (if \<not> cs_enabled cs then (None, c\<lparr>pc_misses := pc_misses c + 1\<rparr>)
      else (case map_of (pc_store c) key of
              None \<Rightarrow> (None, c\<lparr>pc_misses := pc_misses c + 1\<rparr>)
            | Some e \<Rightarrow>
                if isExpired now e
                then (None, c\<lparr>pc_store := store_delete key (pc_store c),
                              pc_evictions := pc_evictions c + 1, pc_misses := pc_misses c + 1\<rparr>)
                else (Some (en_value e),
                      c\<lparr>pc_store := store_delete key (pc_store c) @ [(key, e)],
                        pc_hits := pc_hits c + 1\<rparr>)))"

text \<open>
  The eviction loop: \<open>while (store.size >= maxEntries) evictOldest()\<close>. On an empty store it
  removes nothing, so with a limit below one it would not end; that is \<open>None\<close>.
\<close>

fun make_room :: "int \<Rightarrow> (string \<times> 'e) list \<Rightarrow> nat \<Rightarrow> ((string \<times> 'e) list \<times> nat) option" where
  "make_room limit [] n = (if 0 < limit then Some ([], n) else None)"
| "make_room limit (x # st) n =
     (if limit \<le> int (length (x # st)) then make_room limit st (n + 1) else Some (x # st, n))"

definition cache_set ::
  "cache_settings \<Rightarrow> time \<Rightarrow> string \<Rightarrow> 'v \<Rightarrow> bool \<Rightarrow> 'v policy_cache \<Rightarrow> 'v policy_cache option" where
  "cache_set cs now key v skipCache c =
     (if \<not> cs_enabled cs \<or> skipCache then Some c
      else (case make_room (cs_maxEntries cs) (store_delete key (pc_store c)) (pc_evictions c) of
              None \<Rightarrow> None
            | Some (st, n) \<Rightarrow>
                Some (c\<lparr>pc_store := st @ [(key, \<lparr>en_value = v, en_expiresAt = now + cs_ttlMs cs\<rparr>)],
                        pc_evictions := n\<rparr>)))"

definition cache_delete :: "string \<Rightarrow> 'v policy_cache \<Rightarrow> bool \<times> 'v policy_cache" where
  "cache_delete key c =
     (map_of (pc_store c) key \<noteq> None, c\<lparr>pc_store := store_delete key (pc_store c)\<rparr>)"

definition cache_clear :: "'v policy_cache \<Rightarrow> 'v policy_cache" where
  "cache_clear c = c\<lparr>pc_store := []\<rparr>"

definition invalidatePrefix :: "string \<Rightarrow> 'v policy_cache \<Rightarrow> nat \<times> 'v policy_cache" where
  "invalidatePrefix prefix c =
     (length (filter (\<lambda>(k, _). starts_with prefix k) (pc_store c)),
      c\<lparr>pc_store := filter (\<lambda>(k, _). \<not> starts_with prefix k) (pc_store c)\<rparr>)"

record cache_stats =
  st_hits :: nat
  st_misses :: nat
  st_size :: nat
  st_evictions :: nat

definition cache_stats_of :: "'v policy_cache \<Rightarrow> cache_stats" where
  "cache_stats_of c =
     \<lparr>st_hits = pc_hits c, st_misses = pc_misses c, st_size = length (pc_store c),
      st_evictions = pc_evictions c\<rparr>"

section \<open>Size and keys\<close>

definition cache_ok :: "cache_settings \<Rightarrow> 'v policy_cache \<Rightarrow> bool" where
  "cache_ok cs c \<longleftrightarrow> distinct (map fst (pc_store c)) \<and> int (length (pc_store c)) \<le> cs_maxEntries cs"

lemma settings_positive: "1 \<le> cs_maxEntries (cache_settings_of config env)"
  by (simp add: cache_settings_of_def default_max_entries_def Let_def)

lemma store_delete_simps [simp]:
  "store_delete k [] = []" "store_delete k ((k', e) # st) = (if k' = k then store_delete k st else (k', e) # store_delete k st)"
  "fst ` set (store_delete k st) = fst ` set st - {k}"
  "(k', e') \<in> set (store_delete k st) \<longleftrightarrow> k' \<noteq> k \<and> (k', e') \<in> set st"
  by (auto simp: store_delete_def)

lemma store_delete_le [simp]: "length (store_delete k st) \<le> length st"
  by (simp add: store_delete_def)

lemma distinct_store_delete [simp]: "distinct (map fst st) \<Longrightarrow> distinct (map fst (store_delete k st))"
  by (simp add: store_delete_def distinct_map_filter)

lemma length_store_delete: "k \<in> fst ` set st \<Longrightarrow> length (store_delete k st) < length st"
proof (induction st)
  case (Cons x st)
  show ?case
  proof (cases "fst x = k")
    case True
    then show ?thesis by (cases x) (simp add: less_Suc_eq_le)
  next
    case False
    with Cons show ?thesis by (cases x) simp
  qed
qed simp

lemma make_room_result:
  "1 \<le> limit \<Longrightarrow> \<exists>n'. make_room limit st n = Some (drop (nat (int (length st) - limit + 1)) st, n')"
proof (induction st arbitrary: n)
  case (Cons x st)
  show ?case
  proof (cases "limit \<le> int (length (x # st))")
    case True
    then have "nat (int (length (x # st)) - limit + 1) = Suc (nat (int (length st) - limit + 1))"
      by (simp add: nat_eq_iff) 
    with Cons True show ?thesis by simp
  next
    case False
    then show ?thesis by simp
  qed
qed simp

lemma make_room_bound:
  assumes "1 \<le> limit" and "make_room limit st n = Some (st', n')"
  shows "int (length st') < limit \<and> (\<exists>d. st' = drop d st)"
proof -
  obtain d where "d = nat (int (length st) - limit + 1)" "st' = drop d st"
    using make_room_result [OF assms(1), of st n] assms(2) by auto
  moreover from this have "int (length st') < limit" using assms(1) by simp
  ultimately show ?thesis by blast
qed

lemma map_of_keys: "map_of st k = Some e \<Longrightarrow> (k, e) \<in> set st"
  by (rule map_of_SomeD)

lemma cache_get_ok: "cache_ok cs c \<Longrightarrow> cache_ok cs (snd (cache_get cs now k c))"
  using length_store_delete [of k "pc_store c"]
  by (force simp: cache_ok_def cache_get_def dest: map_of_SomeD split: option.split
      intro: order.trans [OF of_nat_mono [OF store_delete_le]])

lemma cache_set_ok:
  assumes "cache_ok cs c" and "1 \<le> cs_maxEntries cs"
  shows "\<exists>c'. cache_set cs now k v skip c = Some c' \<and> cache_ok cs c'"
proof (cases "\<not> cs_enabled cs \<or> skip")
  case False
  obtain st n where m: "make_room (cs_maxEntries cs) (store_delete k (pc_store c)) (pc_evictions c) = Some (st, n)"
    using make_room_result [OF assms(2)] by blast
  with make_room_bound [OF assms(2)] obtain d where b: "int (length st) < cs_maxEntries cs"
    and d: "st = drop d (store_delete k (pc_store c))" by blast
  have "distinct (map fst st)" using assms(1) by (simp add: d cache_ok_def drop_map [symmetric] distinct_drop)
  moreover have "k \<notin> fst ` set st" using d by (metis DiffE image_mono insertI1 set_drop_subset store_delete_simps(3) subsetD)
  ultimately show ?thesis using False m b by (auto simp: cache_set_def cache_ok_def)
qed (use assms in \<open>auto simp: cache_set_def\<close>)

section \<open>Runs of the cache\<close>

text \<open>The calls on one cache, each with its reading of the clock.\<close>

datatype 'v cache_op =
    GetOp time string
  | SetOp time string 'v bool
  | DeleteOp string
  | ClearOp
  | InvalidateOp string

fun cache_apply :: "cache_settings \<Rightarrow> 'v cache_op \<Rightarrow> 'v policy_cache \<Rightarrow> 'v policy_cache option" where
  "cache_apply cs (GetOp now k) c = Some (snd (cache_get cs now k c))"
| "cache_apply cs (SetOp now k v skip) c = cache_set cs now k v skip c"
| "cache_apply cs (DeleteOp k) c = Some (snd (cache_delete k c))"
| "cache_apply cs ClearOp c = Some (cache_clear c)"
| "cache_apply cs (InvalidateOp p) c = Some (snd (invalidatePrefix p c))"

fun cache_run :: "cache_settings \<Rightarrow> 'v cache_op list \<Rightarrow> 'v policy_cache \<Rightarrow> 'v policy_cache option" where
  "cache_run cs [] c = Some c"
| "cache_run cs (op # ops) c = Option.bind (cache_apply cs op c) (cache_run cs ops)"

text \<open>
  The contract: a map that remembers everything. What a \<open>set\<close> wrote stays until it is written
  again or dropped.
\<close>

type_synonym 'v remembered = "string \<Rightarrow> 'v cache_entry option"

fun remember :: "cache_settings \<Rightarrow> 'v cache_op \<Rightarrow> 'v remembered \<Rightarrow> 'v remembered" where
  "remember cs (GetOp now k) m = m"
| "remember cs (SetOp now k v skip) m =
     (if skip then m else m(k \<mapsto> \<lparr>en_value = v, en_expiresAt = now + cs_ttlMs cs\<rparr>))"
| "remember cs (DeleteOp k) m = m(k := None)"
| "remember cs ClearOp m = Map.empty"
| "remember cs (InvalidateOp p) m = (\<lambda>k. if starts_with p k then None else m k)"

definition cached_in :: "'v policy_cache \<Rightarrow> 'v remembered \<Rightarrow> bool" where
  "cached_in c m \<longleftrightarrow> (\<forall>(k, e)\<in>set (pc_store c). m k = Some e)"

lemma cache_apply_ok:
  assumes "cache_ok cs c" and "1 \<le> cs_maxEntries cs"
  shows "\<exists>c'. cache_apply cs op c = Some c' \<and> cache_ok cs c'"
proof (cases op)
  case (SetOp now k v skip)
  with cache_set_ok [OF assms] show ?thesis by simp
next
  case (GetOp now k)
  with cache_get_ok [OF assms(1)] show ?thesis by simp
next
  case (DeleteOp k)
  then show ?thesis using assms(1)
    by (auto simp: cache_ok_def cache_delete_def intro: order.trans [OF of_nat_mono [OF store_delete_le]])
next
  case ClearOp
  then show ?thesis using assms by (simp add: cache_ok_def cache_clear_def)
next
  case (InvalidateOp p)
  have "int (length (filter P (pc_store c))) \<le> cs_maxEntries cs" for P
    using length_filter_le [of P "pc_store c"] assms(1) unfolding cache_ok_def by linarith
  with InvalidateOp assms(1) show ?thesis
    by (simp add: cache_ok_def invalidatePrefix_def distinct_map_filter)
qed

lemma cache_get_cached:
  "cached_in c m \<Longrightarrow> cached_in (snd (cache_get cs now k c)) m"
  by (auto simp: cached_in_def cache_get_def dest: map_of_SomeD split: option.split)

lemma cache_set_cached:
  assumes "cached_in c m" and "cache_set cs now k v skip c = Some c'" and "1 \<le> cs_maxEntries cs"
    and "cs_enabled cs \<or> pc_store c = []"
  shows "cached_in c' (remember cs (SetOp now k v skip) m)"
proof (cases "\<not> cs_enabled cs \<or> skip")
  case True
  then show ?thesis using assms by (auto simp: cache_set_def cached_in_def)
next
  case False
  then obtain st n where m: "make_room (cs_maxEntries cs) (store_delete k (pc_store c)) (pc_evictions c) = Some (st, n)"
    and c': "c' = c\<lparr>pc_store := st @ [(k, \<lparr>en_value = v, en_expiresAt = now + cs_ttlMs cs\<rparr>)], pc_evictions := n\<rparr>"
    using assms(2) by (auto simp: cache_set_def split: option.splits)
  then have "set st \<subseteq> set (store_delete k (pc_store c))"
    using make_room_bound [OF assms(3)] by (metis set_drop_subset)
  then show ?thesis using False assms(1) by (auto simp: c' cached_in_def dest!: subsetD)
qed

lemma disabled_stays_empty:
  "\<not> cs_enabled cs \<Longrightarrow> pc_store c = [] \<Longrightarrow> cache_apply cs op c = Some c' \<Longrightarrow> pc_store c' = []"
  by (cases op) (auto simp: cache_get_def cache_set_def cache_delete_def cache_clear_def invalidatePrefix_def)

lemma cache_apply_cached:
  assumes "cached_in c m" and "cache_apply cs op c = Some c'" and "1 \<le> cs_maxEntries cs"
    and "cs_enabled cs \<or> pc_store c = []"
  shows "cached_in c' (remember cs op m)"
proof (cases op)
  case (SetOp now k v skip)
  with assms cache_set_cached show ?thesis by (metis cache_apply.simps(2))
next
  case (GetOp now k)
  with assms cache_get_cached show ?thesis by fastforce
qed (use assms in \<open>auto simp: cached_in_def cache_delete_def cache_clear_def invalidatePrefix_def\<close>)

lemma cache_run_invariant:
  assumes "cache_ok cs c" and "1 \<le> cs_maxEntries cs" and "cached_in c m"
    and "cs_enabled cs \<or> pc_store c = []"
  shows "\<exists>c'. cache_run cs ops c = Some c' \<and> cache_ok cs c' \<and> cached_in c' (fold (remember cs) ops m)
    \<and> (cs_enabled cs \<or> pc_store c' = [])"
  using assms
proof (induction ops arbitrary: c m)
  case (Cons op ops)
  from cache_apply_ok [OF Cons.prems(1,2)] obtain c1
    where c1: "cache_apply cs op c = Some c1" "cache_ok cs c1" by blast
  have e: "cs_enabled cs \<or> pc_store c1 = []" using disabled_stays_empty [OF _ _ c1(1)] Cons.prems(4) by blast
  from Cons.IH [OF c1(2) Cons.prems(2) cache_apply_cached [OF Cons.prems(3) c1(1) Cons.prems(2,4)] e] c1(1)
  show ?case by simp
qed simp

lemma cached_get:
  assumes "cached_in c m" and "fst (cache_get cs now k c) = Some v"
  shows "\<exists>e. m k = Some e \<and> en_value e = v \<and> now < en_expiresAt e"
  using assms
  by (auto simp: cached_in_def cache_get_def isExpired_def dest!: map_of_SomeD split: option.splits if_splits)

text \<open>
  C35: the cache is a bounded memory of what was written. For any configuration and environment and
  any sequence of calls, every call returns (the eviction loop ends), the cache holds at most the
  configured number of entries with distinct keys, and what a later \<open>get\<close> returns is the value the
  last \<open>set\<close> wrote for that key, not expired and not deleted, cleared or invalidated since.
\<close>

theorem cache_refines_memory:
  "\<exists>c. cache_run (cache_settings_of config env) ops empty_cache = Some c
     \<and> distinct (map fst (pc_store c))
     \<and> int (length (pc_store c)) \<le> cs_maxEntries (cache_settings_of config env)
     \<and> (\<forall>now k v. fst (cache_get (cache_settings_of config env) now k c) = Some v \<longrightarrow>
          (\<exists>e. fold (remember (cache_settings_of config env)) ops Map.empty k = Some e
             \<and> en_value e = v \<and> now < en_expiresAt e))"
proof -
  let ?cs = "cache_settings_of config env"
  have "cache_ok ?cs empty_cache" "cached_in empty_cache Map.empty" "pc_store empty_cache = []"
    using settings_positive [of config env] by (simp_all add: cache_ok_def empty_cache_def cached_in_def)
  from cache_run_invariant [OF this(1) settings_positive this(2)] this(3)
  obtain c where c: "cache_run ?cs ops empty_cache = Some c" "cache_ok ?cs c"
    "cached_in c (fold (remember ?cs) ops Map.empty)" by blast
  with cached_get [OF c(3)] show ?thesis by (auto simp: cache_ok_def)
qed

theorem cache_refines_memory_witness:
  "\<exists>e. fold (remember (cache_settings_of \<lparr>cg_maxEntries = Some 1, cg_ttlMs = Some 10, cg_enabled = None\<rparr>
         \<lparr>ce_max = None, ce_ttl = None, ce_enabled = None\<rparr>))
       [SetOp 0 ''a'' (1::int) False, SetOp 1 ''b'' 2 False] Map.empty ''b'' = Some e
     \<and> en_value e = 2 \<and> 5 < en_expiresAt e"
proof -
  let ?cf = "\<lparr>cg_maxEntries = Some 1, cg_ttlMs = Some 10, cg_enabled = None\<rparr>"
  let ?env = "\<lparr>ce_max = None, ce_ttl = None, ce_enabled = None\<rparr>"
  let ?ops = "[SetOp 0 ''a'' (1::int) False, SetOp 1 ''b'' 2 False]"
  let ?c = "\<lparr>pc_store = [(''b'', \<lparr>en_value = 2::int, en_expiresAt = 11\<rparr>)], pc_hits = 0, pc_misses = 0, pc_evictions = 1\<rparr>"
  have st: "cache_settings_of ?cf ?env = \<lparr>cs_maxEntries = 1, cs_ttlMs = 10, cs_enabled = True\<rparr>"
    by (simp add: cache_settings_of_def first_of_def readEnvBool_def)
  have run: "cache_run (cache_settings_of ?cf ?env) ?ops empty_cache = Some ?c"
    unfolding st by (simp add: cache_set_def empty_cache_def)
  have get: "fst (cache_get (cache_settings_of ?cf ?env) 5 ''b'' ?c) = Some 2"
    unfolding st by (simp add: cache_get_def isExpired_def)
  from cache_refines_memory [of ?cf ?env ?ops] run get show ?thesis by (metis option.inject)
qed

section \<open>Least recently used\<close>

text \<open>Calls that use other keys only, before the entry expires.\<close>

fun uses :: "'v cache_op \<Rightarrow> string set" where
  "uses (GetOp now k) = {k}"
| "uses (SetOp now k v skip) = (if skip then {} else {k})"
| "uses _ = {}"

fun plain_op :: "'v cache_op \<Rightarrow> bool" where
  "plain_op (GetOp now k) = True"
| "plain_op (SetOp now k v skip) = True"
| "plain_op _ = False"

text \<open>The entries behind the one of \<open>k\<close> have keys in \<open>T\<close>.\<close>

definition recent :: "string \<Rightarrow> 'v cache_entry \<Rightarrow> string set \<Rightarrow> 'v policy_cache \<Rightarrow> bool" where
  "recent k e T c \<longleftrightarrow>
     (\<exists>as bs. pc_store c = as @ (k, e) # bs \<and> fst ` set bs \<subseteq> T \<and> distinct (map fst (pc_store c)))"

lemma recentI:
  "pc_store c = as @ (k, e) # bs \<Longrightarrow> fst ` set bs \<subseteq> T \<Longrightarrow> distinct (map fst (pc_store c)) \<Longrightarrow> recent k e T c"
  unfolding recent_def by blast

lemma store_delete_append [simp]: "store_delete k (as @ bs) = store_delete k as @ store_delete k bs"
  by (simp add: store_delete_def)

lemma recent_get:
  assumes "recent k e T c" and "k' \<noteq> k"
  shows "recent k e (insert k' T) (snd (cache_get cs now k' c))"
proof -
  obtain as bs where st: "pc_store c = as @ (k, e) # bs" and b: "fst ` set bs \<subseteq> T"
    and d: "distinct (map fst (pc_store c))" using assms(1) by (auto simp: recent_def)
  have e1: "store_delete k' (pc_store c) = store_delete k' as @ (k, e) # store_delete k' bs"
    using st assms(2) by simp
  have d1: "distinct (map fst (store_delete k' (pc_store c)))" using d by simp
  have d2: "distinct (map fst (store_delete k' (pc_store c) @ [(k', x)]))" for x using d1 by simp
  have b1: "fst ` set (store_delete k' bs) \<subseteq> insert k' T" using b by auto
  have "recent k e (insert k' T) (c\<lparr>pc_store := store_delete k' (pc_store c), pc_evictions := n, pc_misses := m\<rparr>)" for n m
    by (rule recentI [where as = "store_delete k' as" and bs = "store_delete k' bs"]) (use e1 b1 d1 in auto)
  moreover have "recent k e (insert k' T) (c\<lparr>pc_store := store_delete k' (pc_store c) @ [(k', x)], pc_hits := n\<rparr>)" for x n
    by (rule recentI [where as = "store_delete k' as" and bs = "store_delete k' bs @ [(k', x)]"]) (use e1 b1 d2 [of x] in auto)
  moreover have "recent k e (insert k' T) (c\<lparr>pc_misses := n\<rparr>)" for n
    by (rule recentI [where as = "as" and bs = bs]) (use st b d in auto)
  ultimately show ?thesis by (auto simp: cache_get_def split: option.split)
qed

lemma recent_set:
  assumes "recent k e T c" and "k' \<noteq> k" and "cache_set cs now k' v skip c = Some c'"
    and "finite T" and "k \<notin> T" and "int (card (insert k' T)) < cs_maxEntries cs"
  shows "recent k e (insert k' T) c'"
proof (cases "\<not> cs_enabled cs \<or> skip")
  case True
  with assms show ?thesis by (auto simp: cache_set_def recent_def)
next
  case False
  obtain as bs where st: "pc_store c = as @ (k, e) # bs" and b: "fst ` set bs \<subseteq> T"
    and d: "distinct (map fst (pc_store c))" using assms(1) by (auto simp: recent_def)
  let ?A = "store_delete k' as" and ?B = "store_delete k' bs"
  have e1: "store_delete k' (pc_store c) = ?A @ (k, e) # ?B" using st assms(2) by simp
  have d1: "distinct (map fst (?A @ (k, e) # ?B))" using d e1 by (metis distinct_store_delete)
  have pos: "1 \<le> cs_maxEntries cs" using assms(4,6) by (simp add: card_insert_if split: if_splits)
  define j where "j = nat (int (length (?A @ (k, e) # ?B)) - cs_maxEntries cs + 1)"
  obtain n where c': "c' = c\<lparr>pc_store := drop j (?A @ (k, e) # ?B) @ [(k', \<lparr>en_value = v, en_expiresAt = now + cs_ttlMs cs\<rparr>)],
      pc_evictions := n\<rparr>"
    using assms(3) False make_room_result [OF pos, of "store_delete k' (pc_store c)" "pc_evictions c"]
    by (auto simp: cache_set_def e1 j_def)
  have "length ?B = card (fst ` set ?B)" using distinct_card [of "map fst ?B"] d1 by simp
  also have "\<dots> \<le> card (T - {k'})" using b assms(4) by (intro card_mono) auto
  also have "Suc \<dots> \<le> card (insert k' T)" using assms(4) by (simp add: card.insert_remove)
  finally have "length ?B + 1 < nat (cs_maxEntries cs)" using assms(6) by linarith
  then have j: "j \<le> length ?A" using pos by (simp add: j_def nat_le_iff)
  then have dr: "drop j (?A @ (k, e) # ?B) = drop j ?A @ (k, e) # ?B" by simp
  have d2: "distinct (map fst (drop j ?A @ (k, e) # ?B))" using d1 dr by (metis distinct_drop drop_map)
  have k2: "k' \<notin> fst ` set (drop j ?A @ (k, e) # ?B)"
    using assms(2) by (auto dest!: in_set_dropD)
  show ?thesis
    unfolding c' dr
    by (rule recentI [where as = "drop j ?A" and bs = "?B @ [(k', \<lparr>en_value = v, en_expiresAt = now + cs_ttlMs cs\<rparr>)]"])
      (use b d2 k2 in \<open>auto simp: image_iff\<close>)
qed

lemma recent_run:
  assumes "recent k e T c" and "finite T" and "\<forall>op\<in>set ops. plain_op op \<and> k \<notin> uses op"
    and "k \<notin> T" and "int (card (T \<union> (\<Union>op\<in>set ops. uses op))) < cs_maxEntries cs"
    and "cache_run cs ops c = Some c'"
  shows "\<exists>T'. recent k e T' c'"
  using assms
proof (induction ops arbitrary: T c)
  case (Cons op ops)
  from Cons.prems(6) obtain c1 where c1: "cache_apply cs op c = Some c1" "cache_run cs ops c1 = Some c'"
    by (auto simp: bind_eq_Some_conv)
  have op: "plain_op op" "k \<notin> uses op" using Cons.prems(3) by auto
  have fin: "finite (uses op)" by (cases op) auto
  have fin2: "finite (\<Union>o'\<in>set ops. uses o')"
  proof (intro finite_UN_I)
    show "finite (uses o')" for o' :: "'a cache_op" by (cases o') auto
  qed simp
  have "card (T \<union> uses op) \<le> card (T \<union> (\<Union>o'\<in>set (op # ops). uses o'))"
    using Cons.prems(2) fin fin2 by (intro card_mono) auto
  then have small: "int (card (T \<union> uses op)) < cs_maxEntries cs" using Cons.prems(5) by linarith
  have "recent k e (T \<union> uses op) c1"
  proof (cases op)
    case (GetOp now k')
    with op recent_get [OF Cons.prems(1), of k' cs now] c1(1) show ?thesis by auto
  next
    case (SetOp now k' v skip)
    show ?thesis
    proof (cases skip)
      case True
      with SetOp c1(1) Cons.prems(1) show ?thesis by (simp add: cache_set_def)
    next
      case False
      with SetOp op small c1(1) recent_set [OF Cons.prems(1), of k' cs now v skip c1] Cons.prems(2,4)
      show ?thesis by simp
    qed
  qed (use op in auto)
  moreover have "T \<union> uses op \<union> (\<Union>o'\<in>set ops. uses o') = T \<union> (\<Union>o'\<in>set (op # ops). uses o')" by auto
  ultimately show ?case
    using Cons.IH [of "T \<union> uses op" c1] Cons.prems op fin c1(2) by simp
qed auto

lemma recent_found: "recent k e T c \<Longrightarrow> map_of (pc_store c) k = Some e"
  unfolding recent_def by (metis in_set_conv_decomp map_of_is_SomeI)

text \<open>
  C36: the cache evicts the least recently used entry. After a \<open>set\<close>, a \<open>get\<close> of the key before it
  expires finds the value as long as only gets and sets of other keys happened in between, fewer
  distinct keys than the cache has entries.
\<close>

theorem cache_keeps_recent:
  assumes "cache_ok cs c" and "1 \<le> cs_maxEntries cs" and "cs_enabled cs"
    and "cache_set cs t k v False c = Some c1" and "cache_run cs ops c1 = Some c2"
    and "\<forall>op\<in>set ops. plain_op op \<and> k \<notin> uses op"
    and "int (card (\<Union>op\<in>set ops. uses op)) < cs_maxEntries cs"
    and "now < t + cs_ttlMs cs"
  shows "fst (cache_get cs now k c2) = Some v"
proof -
  let ?e = "\<lparr>en_value = v, en_expiresAt = t + cs_ttlMs cs\<rparr>"
  have ok: "cache_ok cs c1" using cache_set_ok [OF assms(1,2), of t k v False] assms(4) by auto
  obtain st n where "c1 = c\<lparr>pc_store := st @ [(k, ?e)], pc_evictions := n\<rparr>"
    using assms(3,4) by (auto simp: cache_set_def split: option.splits)
  with ok have "recent k ?e {} c1" by (intro recentI [where as = st and bs = "[]"]) (auto simp: cache_ok_def)
  from recent_run [OF this _ assms(6), of cs c2] assms(5,7) obtain T where "recent k ?e T c2" by auto
  from recent_found [OF this] show ?thesis using assms(3,8) by (simp add: cache_get_def isExpired_def)
qed

theorem cache_keeps_recent_witness:
  "fst (cache_get \<lparr>cs_maxEntries = 2, cs_ttlMs = 10, cs_enabled = True\<rparr> 5 ''a''
     \<lparr>pc_store = [(''a'', \<lparr>en_value = 1, en_expiresAt = 10\<rparr>), (''b'', \<lparr>en_value = (2::int), en_expiresAt = 11\<rparr>)],
      pc_hits = 0, pc_misses = 0, pc_evictions = 0\<rparr>) = Some 1"
proof -
  let ?cs = "\<lparr>cs_maxEntries = 2, cs_ttlMs = 10, cs_enabled = True\<rparr>"
  let ?c1 = "\<lparr>pc_store = [(''a'', \<lparr>en_value = 1::int, en_expiresAt = 10\<rparr>)], pc_hits = 0, pc_misses = 0, pc_evictions = 0\<rparr>"
  let ?c2 = "\<lparr>pc_store = [(''a'', \<lparr>en_value = 1, en_expiresAt = 10\<rparr>), (''b'', \<lparr>en_value = (2::int), en_expiresAt = 11\<rparr>)],
      pc_hits = 0, pc_misses = 0, pc_evictions = 0\<rparr>"
  show ?thesis
  proof (rule cache_keeps_recent [of ?cs empty_cache 0 "''a''" 1 ?c1 "[SetOp 1 ''b'' 2 False]" ?c2 5])
    show "cache_set ?cs 0 ''a'' 1 False empty_cache = Some ?c1"
      by (simp add: cache_set_def empty_cache_def)
    show "cache_run ?cs [SetOp 1 ''b'' 2 False] ?c1 = Some ?c2" by (simp add: cache_set_def)
  qed (simp_all add: cache_ok_def empty_cache_def)
qed

text \<open>
  Invalidation removes exactly the entries whose key starts with the prefix and counts them.
\<close>

theorem invalidatePrefix_exact:
  "invalidatePrefix p c = (n, c') \<Longrightarrow>
     n = card {i. i < length (pc_store c) \<and> starts_with p (fst (pc_store c ! i))}
     \<and> (\<forall>k now cs. starts_with p k \<longrightarrow> fst (cache_get cs now k c') = None)
     \<and> (\<forall>k. \<not> starts_with p k \<longrightarrow> map_of (pc_store c') k = map_of (pc_store c) k)"
proof -
  have gone: "map_of (filter (\<lambda>(k, _). \<not> starts_with p k) st) k = None" if "starts_with p k" for k and st :: "(string \<times> 'a cache_entry) list"
    using that by (induction st) auto
  have stays: "map_of (filter (\<lambda>(k, _). \<not> starts_with p k) st) k = map_of st k" if "\<not> starts_with p k" for k and st :: "(string \<times> 'a cache_entry) list"
    using that by (induction st) auto
  assume "invalidatePrefix p c = (n, c')"
  then have "n = length (filter (\<lambda>(k, _). starts_with p k) (pc_store c))"
    and c': "c' = c\<lparr>pc_store := filter (\<lambda>(k, _). \<not> starts_with p k) (pc_store c)\<rparr>"
    by (auto simp: invalidatePrefix_def)
  then have "n = card {i. i < length (pc_store c) \<and> starts_with p (fst (pc_store c ! i))}"
    by (simp add: length_filter_conv_card case_prod_beta)
  with gone stays show ?thesis by (simp add: c' cache_get_def)
qed

theorem invalidatePrefix_exact_witness:
  "fst (cache_get \<lparr>cs_maxEntries = 2, cs_ttlMs = 10, cs_enabled = True\<rparr> 5 ''a|x''
     (snd (invalidatePrefix ''a|'' \<lparr>pc_store = [(''a|x'', \<lparr>en_value = 1::int, en_expiresAt = 10\<rparr>)], pc_hits = 0,
       pc_misses = 0, pc_evictions = 0\<rparr>))) = None"
  using invalidatePrefix_exact [OF surjective_pairing, of "''a|''"
      "\<lparr>pc_store = [(''a|x'', \<lparr>en_value = 1::int, en_expiresAt = 10\<rparr>)], pc_hits = 0, pc_misses = 0, pc_evictions = 0\<rparr>"]
  by simp

end
