(* ===== verification/HookRunner.thy ===== *)
theory HookRunner
  imports PermissionEngine
begin

text \<open>
  The \<open>beforeAuthorize\<close> hook: \<open>hooks/safety.ts\<close> (how its timeout and failure modes resolve),
  \<open>hooks/run.ts\<close> (what its result means) and \<open>authorize/hook-outcome.ts\<close> (what is audited). The
  hook itself is code of the host; what it did in one call is an argument: it returned a value,
  threw, or did not settle in time. Elapsed times are not modelled.
\<close>

section \<open>Safety settings\<close>

datatype fail_mode = FailDeny | FailAllow | FailThrow

datatype hook_name = BeforeAuthorize | BeforeAgentCreate

text \<open>\<open>HookGuardOptions\<close> as given, unchecked.\<close>

record guard_options =
  go_timeoutMs :: "json option"
  go_onTimeout :: "json option"
  go_onError :: "json option"

record hook_safety_config =
  hs_top :: guard_options
  hs_beforeAuthorize :: "guard_options option"
  hs_beforeAgentCreate :: "guard_options option"

record hook_guard =
  hg_timeoutMs :: int
  hg_onTimeout :: fail_mode
  hg_onError :: fail_mode

definition default_hook_timeout :: int where
  "default_hook_timeout = 2000"

definition max_hook_timeout :: int where
  "max_hook_timeout = 60000"

text \<open>\<open>Number(s)\<close> of a string is a parameter; \<open>None\<close> is a result that is not finite.\<close>

definition parseTimeout :: "(string \<Rightarrow> int option) \<Rightarrow> json option \<Rightarrow> int option" where
  "parseTimeout number v =
     (let n = (case v of
                 Some (JNum i) \<Rightarrow> Some i
               | Some (JStr s) \<Rightarrow> if trim s = [] then None else number s
               | _ \<Rightarrow> None)
      in map_option (\<lambda>i. min max_hook_timeout (max 0 i)) n)"

definition parseMode :: "json option \<Rightarrow> fail_mode option" where
  "parseMode v =
     (if v = Some (JStr ''deny'') then Some FailDeny
      else if v = Some (JStr ''allow'') then Some FailAllow
      else if v = Some (JStr ''throw'') then Some FailThrow
      else None)"

text \<open>\<open>a ?? b\<close>.\<close>

definition or_else :: "'a option \<Rightarrow> 'a option \<Rightarrow> 'a option" where
  "or_else a b = (case a of Some x \<Rightarrow> Some x | None \<Rightarrow> b)"

definition own_options :: "hook_name \<Rightarrow> hook_safety_config \<Rightarrow> guard_options option" where
  "own_options hook config =
     (case hook of BeforeAuthorize \<Rightarrow> hs_beforeAuthorize config
                 | BeforeAgentCreate \<Rightarrow> hs_beforeAgentCreate config)"

definition resolveGuard ::
  "(string \<Rightarrow> int option) \<Rightarrow> hook_name \<Rightarrow> hook_safety_config option \<Rightarrow> (string \<Rightarrow> string option) \<Rightarrow> hook_guard" where
  "resolveGuard number hook config env =
     (let own = Option.bind config (own_options hook);
          top = map_option hs_top config;
          defaultMode = (if hook = BeforeAuthorize then FailDeny else FailThrow);
          from_env = (\<lambda>v. map_option JStr (env v));
          mode = (\<lambda>field v. case or_else (parseMode (Option.bind own field))
                     (or_else (parseMode (Option.bind top field)) (parseMode (from_env v))) of
                   Some m \<Rightarrow> m | None \<Rightarrow> defaultMode)
      in \<lparr>hg_timeoutMs =
            (case or_else (parseTimeout number (Option.bind own go_timeoutMs))
                    (or_else (parseTimeout number (Option.bind top go_timeoutMs))
                       (parseTimeout number (from_env ''THEAUTH_HOOK_TIMEOUT_MS''))) of
               Some t \<Rightarrow> t | None \<Rightarrow> default_hook_timeout),
          hg_onTimeout = mode go_onTimeout ''THEAUTH_HOOK_ON_TIMEOUT'',
          hg_onError = mode go_onError ''THEAUTH_HOOK_ON_ERROR''\<rparr>)"

section \<open>Verdicts\<close>

datatype verdict_decision = VAllow | VDeny | VEscalate

record verdict_meta =
  vm_guard :: "string option"
  vm_ruleId :: "string option"
  vm_metadata :: "(string \<times> json) list option"

record hook_verdict = verdict_meta +
  hv_decision :: verdict_decision
  hv_reason :: "string option"

definition max_metadata_keys :: nat where
  "max_metadata_keys = 16"

definition max_value_chars :: nat where
  "max_value_chars = 256"

definition clip :: "string \<Rightarrow> string" where
  "clip v = (if max_value_chars < length v then take max_value_chars v else v)"

text \<open>\<open>out[key] = value\<close> for a scalar; on \<open>__proto__\<close> such an assignment has no effect.\<close>

definition assign :: "string \<Rightarrow> json \<Rightarrow> (string \<times> json) list \<Rightarrow> (string \<times> json) list" where
  "assign key v out = (if key = ''__proto__'' then out else put_entry (key, v) out)"

fun metadata_loop :: "(string \<times> json) list \<Rightarrow> (string \<times> json) list \<Rightarrow> (string \<times> json) list" where
  "metadata_loop [] out = out"
| "metadata_loop ((key, v) # entries) out =
     (if max_metadata_keys \<le> length out then out
      else metadata_loop entries
        (case v of
           JStr s \<Rightarrow> assign (clip key) (JStr (clip s)) out
         | JNum n \<Rightarrow> assign (clip key) (JNum n) out
         | JBool b \<Rightarrow> assign (clip key) (JBool b) out
         | _ \<Rightarrow> out))"

definition sanitizeMetadata :: "(string \<times> json) list \<Rightarrow> (string \<times> json) list" where
  "sanitizeMetadata raw = metadata_loop raw []"

definition as_string :: "json option \<Rightarrow> string option" where
  "as_string v = (case v of Some (JStr s) \<Rightarrow> Some s | _ \<Rightarrow> None)"

definition plain_verdict :: "verdict_decision \<Rightarrow> string option \<Rightarrow> hook_verdict" where
  "plain_verdict d reason =
     \<lparr>vm_guard = None, vm_ruleId = None, vm_metadata = None, hv_decision = d, hv_reason = reason\<rparr>"

definition verdict_word :: "json option \<Rightarrow> verdict_decision option" where
  "verdict_word d =
     (if d = Some (JStr ''allow'') then Some VAllow
      else if d = Some (JStr ''deny'') then Some VDeny
      else if d = Some (JStr ''escalate'') then Some VEscalate
      else None)"

text \<open>The value a hook returned: \<open>None\<close> is \<open>undefined\<close>. No result means a malformed verdict.\<close>

definition normalizeVerdict :: "json option \<Rightarrow> hook_verdict option" where
  "normalizeVerdict result =
     (case result of
        None \<Rightarrow> Some (plain_verdict VAllow None)
      | Some JNull \<Rightarrow> Some (plain_verdict VAllow None)
      | Some (JObj kvs) \<Rightarrow>
          (let reason = as_string (map_of kvs ''reason'')
           in case verdict_word (map_of kvs ''decision'') of
                Some d \<Rightarrow>
                  Some \<lparr>vm_guard = map_option clip (as_string (map_of kvs ''guard'')),
                        vm_ruleId = map_option clip (as_string (map_of kvs ''ruleId'')),
                        vm_metadata =
                          (case map_of kvs ''metadata'' of
                             Some (JObj m) \<Rightarrow> Some (sanitizeMetadata m) | _ \<Rightarrow> None),
                        hv_decision = d, hv_reason = reason\<rparr>
              | None \<Rightarrow>
                  (case map_of kvs ''allow'' of
                     Some (JBool b) \<Rightarrow> Some (plain_verdict (if b then VAllow else VDeny) reason)
                   | _ \<Rightarrow> None))
      | _ \<Rightarrow> None)"

section \<open>Running the hook\<close>

datatype hook_run = Returned "json option" | Threw | TimedOut

datatype hook_failure = TimeoutF | ErrorF | MalformedF

datatype hook_text =
  HookSays string | HookNeedsApproval | HookBlocks | HookTimedOut int | HookFailedText

datatype hook_outcome =
    HookAllow
  | HookDeny decision_code hook_text verdict_meta
  | HookEscalate decision_code hook_text verdict_meta
  | FailOpen decision_code

fun text_of :: "hook_text \<Rightarrow> string" where
  "text_of (HookSays s) = s"
| "text_of HookNeedsApproval = ''beforeAuthorize hook requires approval''"
| "text_of HookBlocks = ''Blocked by beforeAuthorize hook''"
| "text_of (HookTimedOut ms) = ''beforeAuthorize hook timed out after '' @ int_str ms @ ''ms''"
| "text_of HookFailedText = ''beforeAuthorize hook failed''"

definition no_meta :: verdict_meta where
  "no_meta = \<lparr>vm_guard = None, vm_ruleId = None, vm_metadata = None\<rparr>"

text \<open>\<open>failure\<close>: the left side is a thrown error.\<close>

definition hook_failure_outcome :: "hook_failure \<Rightarrow> hook_guard \<Rightarrow> hook_failure + hook_outcome" where
  "hook_failure_outcome why guard =
     (let mode = (if why = TimeoutF then hg_onTimeout guard else hg_onError guard);
          code = (if why = TimeoutF then HookTimeout else HookError)
      in if mode = FailThrow then Inl why
         else if mode = FailAllow then Inr (FailOpen code)
         else Inr (HookDeny code
                (if why = TimeoutF then HookTimedOut (hg_timeoutMs guard) else HookFailedText) no_meta))"

definition verdict_outcome :: "hook_verdict \<Rightarrow> hook_outcome" where
  "verdict_outcome v =
     (case hv_decision v of
        VAllow \<Rightarrow> HookAllow
      | VEscalate \<Rightarrow>
          HookEscalate ApprovalRequired
            (case hv_reason v of Some r \<Rightarrow> HookSays r | None \<Rightarrow> HookNeedsApproval) (verdict_meta.truncate v)
      | VDeny \<Rightarrow>
          HookDeny HookDenied
            (case hv_reason v of Some r \<Rightarrow> HookSays r | None \<Rightarrow> HookBlocks) (verdict_meta.truncate v))"

text \<open>
  The runner: \<open>None\<close> as its first argument means no hook is configured. With a timeout of zero the
  hook is waited for and \<open>TimedOut\<close> does not occur.
\<close>

definition runBeforeAuthorize ::
  "hook_run option \<Rightarrow> hook_guard \<Rightarrow> hook_failure + hook_outcome option" where
  "runBeforeAuthorize hook guard =
     (case hook of
        None \<Rightarrow> Inr None
      | Some run \<Rightarrow>
          (case run of
             TimedOut \<Rightarrow> map_sum id Some (hook_failure_outcome TimeoutF guard)
           | Threw \<Rightarrow> map_sum id Some (hook_failure_outcome ErrorF guard)
           | Returned v \<Rightarrow>
               (case normalizeVerdict v of
                  None \<Rightarrow> map_sum id Some (hook_failure_outcome MalformedF guard)
                | Some verdict \<Rightarrow> Inr (Some (verdict_outcome verdict)))))"

definition isHookBlock :: "hook_outcome option \<Rightarrow> bool" where
  "isHookBlock outcome = (case outcome of Some (HookDeny _ _ _) \<Rightarrow> True | Some (HookEscalate _ _ _) \<Rightarrow> True | _ \<Rightarrow> False)"

section \<open>The audit detail\<close>

definition auditOutcomeOf :: "hook_outcome \<Rightarrow> string" where
  "auditOutcomeOf outcome =
     (case outcome of
        FailOpen _ \<Rightarrow> ''fail_open''
      | HookDeny code _ _ \<Rightarrow>
          if code = HookTimeout then ''timeout'' else if code = HookError then ''error'' else ''deny''
      | HookEscalate code _ _ \<Rightarrow>
          if code = HookTimeout then ''timeout'' else if code = HookError then ''error'' else ''escalate''
      | HookAllow \<Rightarrow> ''allow'')"

definition truthy :: "string option \<Rightarrow> bool" where
  "truthy s = (case s of None \<Rightarrow> False | Some t \<Rightarrow> t \<noteq> [])"

definition meta_detail :: "verdict_meta \<Rightarrow> (string \<times> json) list" where
  "meta_detail m =
     (if truthy (vm_guard m) then [(''guard'', JStr (the (vm_guard m)))] else [])
     @ (if truthy (vm_ruleId m) then [(''ruleId'', JStr (the (vm_ruleId m)))] else [])
     @ (case vm_metadata m of None \<Rightarrow> [] | Some md \<Rightarrow> [(''metadata'', JObj md)])"

definition hookAuditDetail :: "hook_outcome option \<Rightarrow> (string \<times> json) list option" where
  "hookAuditDetail outcome =
     (case outcome of
        None \<Rightarrow> None
      | Some HookAllow \<Rightarrow> None
      | Some out \<Rightarrow>
          Some ([(''hook'', JStr ''beforeAuthorize''), (''outcome'', JStr (auditOutcomeOf out))]
            @ (case out of
                 FailOpen code \<Rightarrow> [(''failure'', JStr (code_value code))]
               | HookDeny _ _ m \<Rightarrow> meta_detail m
               | HookEscalate _ _ m \<Rightarrow> meta_detail m
               | HookAllow \<Rightarrow> [])))"

definition withHookDetail ::
  "(string \<times> json) list \<Rightarrow> (string \<times> json) list option \<Rightarrow> (string \<times> json) list" where
  "withHookDetail args detail =
     (case detail of None \<Rightarrow> args | Some d \<Rightarrow> put_entry (''theauthHook'', JObj d) args)"

section \<open>What is guaranteed\<close>

lemma parseTimeout_range: "parseTimeout number v = Some t \<Longrightarrow> 0 \<le> t \<and> t \<le> max_hook_timeout"
  by (auto simp: parseTimeout_def max_hook_timeout_def Let_def)

text \<open>
  The settings always resolve. Whatever the configuration and the environment hold, the
  timeout is within 0 and 60000, and without a valid mode anywhere the authorization hook denies.
\<close>

theorem resolveGuard_bounds:
  "0 \<le> hg_timeoutMs (resolveGuard number hook config env)
   \<and> hg_timeoutMs (resolveGuard number hook config env) \<le> max_hook_timeout
   \<and> hg_onError (resolveGuard number BeforeAuthorize None (\<lambda>_. None)) = FailDeny
   \<and> hg_onTimeout (resolveGuard number BeforeAuthorize None (\<lambda>_. None)) = FailDeny"
proof -
  have r: "0 \<le> (case x of Some t \<Rightarrow> t | None \<Rightarrow> default_hook_timeout)
      \<and> (case x of Some t \<Rightarrow> t | None \<Rightarrow> default_hook_timeout) \<le> max_hook_timeout"
    if "\<forall>t. x = Some t \<longrightarrow> 0 \<le> t \<and> t \<le> max_hook_timeout" for x :: "int option"
    using that by (cases x) (auto simp: default_hook_timeout_def max_hook_timeout_def)
  have o: "or_else a b = Some t \<Longrightarrow> a = Some t \<or> b = Some t" for a b :: "int option" and t
    by (cases a) (auto simp: or_else_def)
  have "\<forall>t. or_else (parseTimeout number a) (or_else (parseTimeout number b) (parseTimeout number c)) = Some t
      \<longrightarrow> 0 \<le> t \<and> t \<le> max_hook_timeout" for a b c
    using o parseTimeout_range by metis
  from r [OF this] show ?thesis
    by (simp add: resolveGuard_def Let_def) (simp add: parseMode_def or_else_def)
qed

text \<open>
  The hook fails closed. A call goes on past a configured hook only if the hook returned
  nothing or an explicit allow, or if it failed and the mode for that failure is allow; a malformed
  value never allows by itself.
\<close>

theorem runBeforeAuthorize_closed:
  assumes "runBeforeAuthorize (Some run) guard = Inr out" and "\<not> isHookBlock out"
  shows "(\<exists>v. run = Returned v \<and> (v = None \<or> v = Some JNull
            \<or> (\<exists>kvs. v = Some (JObj kvs) \<and>
                 (map_of kvs ''decision'' = Some (JStr ''allow'') \<or> map_of kvs ''allow'' = Some (JBool True)))))
    \<or> (run = TimedOut \<and> hg_onTimeout guard = FailAllow)
    \<or> (run \<noteq> TimedOut \<and> hg_onError guard = FailAllow)"
proof (cases run)
  case (Returned v)
  show ?thesis
  proof (cases "normalizeVerdict v")
    case None
    with assms Returned show ?thesis
      by (auto simp: runBeforeAuthorize_def hook_failure_outcome_def isHookBlock_def Let_def split: if_splits)
  next
    case (Some verdict)
    with assms Returned have "hv_decision verdict = VAllow"
      by (auto simp: runBeforeAuthorize_def verdict_outcome_def isHookBlock_def split: verdict_decision.splits)
    with Some show ?thesis
      unfolding Returned
      by (auto simp: normalizeVerdict_def Let_def plain_verdict_def verdict_word_def
          split: option.splits json.splits if_splits)
  qed
qed (use assms in \<open>auto simp: runBeforeAuthorize_def hook_failure_outcome_def isHookBlock_def Let_def split: if_splits\<close>)

theorem runBeforeAuthorize_closed_witness:
  "hg_onTimeout \<lparr>hg_timeoutMs = 5, hg_onTimeout = FailAllow, hg_onError = FailDeny\<rparr> = FailAllow"
  using runBeforeAuthorize_closed
    [of TimedOut "\<lparr>hg_timeoutMs = 5, hg_onTimeout = FailAllow, hg_onError = FailDeny\<rparr>" "Some (FailOpen HookTimeout)"]
  by (simp add: runBeforeAuthorize_def hook_failure_outcome_def isHookBlock_def)

lemma put_entry_length: "length (put_entry kv out) \<le> Suc (length out)"
  by (induction out) auto

lemma set_put_entry: "set (put_entry kv out) \<subseteq> insert kv (set out)"
  by (induction out) auto

lemma assign_bound: "length (assign k v out) \<le> Suc (length out)" "set (assign k v out) \<subseteq> insert (k, v) (set out)"
  using put_entry_length [of "(k, v)" out] set_put_entry [of "(k, v)" out] by (auto simp: assign_def)

definition small_entry :: "string \<times> json \<Rightarrow> bool" where
  "small_entry kv \<longleftrightarrow> length (fst kv) \<le> max_value_chars
     \<and> (case snd kv of JStr s \<Rightarrow> length s \<le> max_value_chars | JNum _ \<Rightarrow> True | JBool _ \<Rightarrow> True | _ \<Rightarrow> False)"

lemma clip_le: "length (clip s) \<le> max_value_chars"
  by (simp add: clip_def)

lemma small_entry_clip [simp]:
  "small_entry (clip k, JStr (clip s))" "small_entry (clip k, JNum n)" "small_entry (clip k, JBool b)"
  by (simp_all add: small_entry_def clip_le)

lemma metadata_loop_small:
  assumes "length out \<le> max_metadata_keys" and "\<forall>kv\<in>set out. small_entry kv"
  shows "length (metadata_loop entries out) \<le> max_metadata_keys
    \<and> (\<forall>kv\<in>set (metadata_loop entries out). small_entry kv)"
  using assms
proof (induction entries arbitrary: out)
  case (Cons kv entries)
  obtain k v where kv: "kv = (k, v)" by force
  have step: "length (assign (clip k) w out) \<le> max_metadata_keys \<and> (\<forall>x\<in>set (assign (clip k) w out). small_entry x)"
    if "length out < max_metadata_keys" "small_entry (clip k, w)" for w
    using that Cons.prems assign_bound [of "clip k" w out] by (fastforce dest: subsetD)
  show ?case
  proof (cases "max_metadata_keys \<le> length out")
    case True
    with Cons.prems kv show ?thesis by simp
  next
    case False
    have next_step: "length (metadata_loop entries (assign (clip k) w out)) \<le> max_metadata_keys
        \<and> (\<forall>x\<in>set (metadata_loop entries (assign (clip k) w out)). small_entry x)"
      if "small_entry (clip k, w)" for w
      using Cons.IH step [of w] that False by (meson not_le)
    from False show ?thesis
      using Cons.IH [OF Cons.prems] next_step [OF small_entry_clip(1)]
        next_step [OF small_entry_clip(2)] next_step [OF small_entry_clip(3)]
      by (cases v) (simp_all add: kv)
  qed
qed simp

text \<open>
  What a hook can write into the audit row is bounded: at most 16 entries of scalars, keys and
  strings of at most 256 characters, whatever the hook returned.
\<close>

theorem sanitizeMetadata_bounds:
  "length (sanitizeMetadata raw) \<le> 16
   \<and> (\<forall>kv\<in>set (sanitizeMetadata raw). length (fst kv) \<le> 256
        \<and> (case snd kv of JStr s \<Rightarrow> length s \<le> 256 | JNum _ \<Rightarrow> True | JBool _ \<Rightarrow> True | _ \<Rightarrow> False))"
  using metadata_loop_small [of "[]" raw]
  unfolding sanitizeMetadata_def max_metadata_keys_def max_value_chars_def small_entry_def by simp

theorem sanitizeMetadata_bounds_witness:
  "length (fst (''k'', JNum 1)) \<le> 256"
proof -
  have "(''k'', JNum 1) \<in> set (sanitizeMetadata [(''k'', JNum 1)])"
    by (simp add: sanitizeMetadata_def assign_def clip_def max_value_chars_def max_metadata_keys_def)
  then show ?thesis using sanitizeMetadata_bounds [of "[(''k'', JNum 1)]"] by blast
qed

end
