(* ===== verification/RoleResolver.thy ===== *)
theory RoleResolver
  imports Abac "HOL-Library.List_Lexorder" "HOL-Library.Char_ord"
begin

text \<open>
  Role expansion: \<open>policy/rbac.ts\<close>. A user holds roles in organizations, a role holds strings
  \<open>resource:action\<close>, and \<open>resolveRolePermissions\<close> turns them into permissions, one per resource.
  It is proved to grant exactly what the strings of the held roles say.
\<close>

record org_member =
  om_userId :: ident
  om_orgId :: ident
  om_role :: string

record org_role =
  og_orgId :: ident
  og_name :: string
  og_permissions :: "string list"

text \<open>\<open>lastIndexOf(':')\<close> and the two slices around it.\<close>

definition last_colon :: "string \<Rightarrow> nat option" where
  "last_colon s = map_option (\<lambda>i. length s - Suc i) (find_index (\<lambda>c. c = CHR '':'') (rev s))"

definition parsePermissionString :: "string \<Rightarrow> (string \<times> string) option" where
  "parsePermissionString raw =
     (case last_colon raw of
        None \<Rightarrow> None
      | Some idx \<Rightarrow>
          let resource = take idx raw; action = drop (idx + 1) raw
          in if resource = [] \<or> action = [] then None else Some (resource, action))"

text \<open>The map from resources to sets of actions, both in insertion order.\<close>

fun add_action :: "string \<Rightarrow> string \<Rightarrow> (string \<times> string list) list \<Rightarrow> (string \<times> string list) list" where
  "add_action resource action [] = [(resource, [action])]"
| "add_action resource action ((r, as) # m) =
     (if r = resource then (r, if action \<in> set as then as else as @ [action]) # m
      else (r, as) # add_action resource action m)"

fun permissions_loop :: "string list \<Rightarrow> (string \<times> string list) list \<Rightarrow> (string \<times> string list) list" where
  "permissions_loop [] m = m"
| "permissions_loop (raw # raws) m =
     (case parsePermissionString raw of
        None \<Rightarrow> permissions_loop raws m
      | Some (resource, action) \<Rightarrow> permissions_loop raws (add_action resource action m))"

definition toPermissions :: "string list \<Rightarrow> permission list" where
  "toPermissions rawStrings =
     map (\<lambda>(resource, actions).
            \<lparr>pm_resource = resource, pm_actions = sort actions, pm_constraints = None, pm_relation = None\<rparr>)
       (permissions_loop rawStrings [])"

definition permission_key :: "permission \<Rightarrow> string" where
  "permission_key p = pm_resource p @ CHR ''|'' # join_on CHR '','' (sort (pm_actions p))"

fun dedupe_loop :: "permission list \<Rightarrow> string list \<Rightarrow> permission list" where
  "dedupe_loop [] seen = []"
| "dedupe_loop (p # ps) seen =
     (if permission_key p \<in> set seen then dedupe_loop ps seen
      else p # dedupe_loop ps (permission_key p # seen))"

definition deduplicate :: "permission list \<Rightarrow> permission list" where
  "deduplicate permissions = dedupe_loop permissions []"

text \<open>The join of memberships and roles, and the whole expansion. An empty \<open>orgId\<close> is none.\<close>

definition role_rows :: "org_member list \<Rightarrow> org_role list \<Rightarrow> ident \<Rightarrow> ident option \<Rightarrow> org_role list" where
  "role_rows members roles userId orgId =
     concat (map (\<lambda>m. filter (\<lambda>r. og_orgId r = om_orgId m \<and> og_name r = om_role m) roles)
       (filter (\<lambda>m. om_userId m = userId \<and> (orgId \<in> {None, Some []} \<or> orgId = Some (om_orgId m))) members))"

definition resolveRolePermissions ::
  "org_member list \<Rightarrow> org_role list \<Rightarrow> ident \<Rightarrow> ident option \<Rightarrow> permission list" where
  "resolveRolePermissions members roles userId orgId =
     (let roleRows = role_rows members roles userId orgId
      in if roleRows = [] then []
         else let allRaw = concat (map og_permissions roleRows)
              in if allRaw = [] then [] else deduplicate (toPermissions allRaw))"

section \<open>Exactness\<close>

lemma find_index_None_set: "find_index P xs = None \<longleftrightarrow> (\<forall>x\<in>set xs. \<not> P x)"
  by (rule find_index_None_iff)

lemma last_colon_Some:
  assumes "last_colon s = Some i"
  shows "i < length s \<and> s = take i s @ CHR '':'' # drop (Suc i) s \<and> CHR '':'' \<notin> set (drop (Suc i) s)"
proof -
  obtain j where j: "find_index (\<lambda>c. c = CHR '':'') (rev s) = Some j" and i: "i = length s - Suc j"
    using assms by (auto simp: last_colon_def)
  from find_index_SomeD [OF j] have js: "j < length s" "rev s ! j = CHR '':''"
    "\<forall>k<j. rev s ! k \<noteq> CHR '':''" by auto
  then have il: "i < length s" "s ! i = CHR '':''" by (auto simp: i rev_nth)
  have "drop (Suc i) s = rev (take j (rev s))" using js(1) by (simp add: i take_rev Suc_diff_Suc)
  then have "CHR '':'' \<notin> set (drop (Suc i) s)" using js by (auto simp: in_set_conv_nth)
  with il id_take_nth_drop [OF il(1)] show ?thesis by simp
qed

text \<open>The grants of a table of actions.\<close>

definition table_grants :: "(string \<times> string list) list \<Rightarrow> string \<Rightarrow> string \<Rightarrow> bool" where
  "table_grants m r a \<longleftrightarrow> (\<exists>as. (r, as) \<in> set m \<and> a \<in> set as)"

lemma add_action_grants:
  "table_grants (add_action r a m) r' a' \<longleftrightarrow> table_grants m r' a' \<or> (r' = r \<and> a' = a)"
  by (induction r a m rule: add_action.induct) (auto simp: table_grants_def)

lemma add_action_keys: "distinct (map fst m) \<Longrightarrow> distinct (map fst (add_action r a m))"
proof -
  have "fst ` set (add_action r a m) = insert r (fst ` set m)"
    by (induction r a m rule: add_action.induct) auto
  note this [simp]
  show "distinct (map fst m) \<Longrightarrow> distinct (map fst (add_action r a m))"
  proof (induction r a m rule: add_action.induct)
    case (2 resource action r as m)
    have "fst ` set (add_action resource action m) = insert resource (fst ` set m)"
      by (induction resource action m rule: add_action.induct) auto
    with 2 show ?case by auto
  qed simp
qed

lemma permissions_loop_grants:
  "table_grants (permissions_loop raws m) r a \<longleftrightarrow>
     table_grants m r a \<or> (\<exists>raw\<in>set raws. parsePermissionString raw = Some (r, a))"
  by (induction raws arbitrary: m) (auto simp: add_action_grants split: option.splits)

lemma permissions_loop_keys: "distinct (map fst m) \<Longrightarrow> distinct (map fst (permissions_loop raws m))"
  by (induction raws arbitrary: m) (auto simp: add_action_keys split: option.split)

lemma dedupe_loop_set: "set (dedupe_loop ps seen) \<subseteq> set ps"
  by (induction ps seen rule: dedupe_loop.induct) auto

lemma dedupe_loop_all:
  assumes "distinct (map permission_key ps)" and "set (map permission_key ps) \<inter> set seen = {}"
  shows "dedupe_loop ps seen = ps"
  using assms by (induction ps seen rule: dedupe_loop.induct) auto

text \<open>Some permission of the list grants the action on the resource, as written.\<close>

definition grants_pair :: "permission list \<Rightarrow> string \<Rightarrow> string \<Rightarrow> bool" where
  "grants_pair ps r a \<longleftrightarrow> (\<exists>p\<in>set ps. pm_resource p = r \<and> a \<in> set (pm_actions p))"

lemma toPermissions_grants:
  "grants_pair (toPermissions raws) r a \<longleftrightarrow> (\<exists>raw\<in>set raws. parsePermissionString raw = Some (r, a))"
proof -
  have "grants_pair (toPermissions raws) r a \<longleftrightarrow> table_grants (permissions_loop raws []) r a"
    by (force simp: grants_pair_def toPermissions_def table_grants_def)
  then show ?thesis by (simp add: permissions_loop_grants) (simp add: table_grants_def)
qed

lemma toPermissions_resources: "distinct (map pm_resource (toPermissions raws))"
  using permissions_loop_keys [of "[]" raws]
  by (simp add: toPermissions_def comp_def case_prod_beta)

lemma parse_parts:
  assumes "parsePermissionString raw = Some (r, a)"
  shows "raw = r @ CHR '':'' # a \<and> CHR '':'' \<notin> set a \<and> r \<noteq> [] \<and> a \<noteq> []"
  using assms last_colon_Some
  by (fastforce simp: parsePermissionString_def Let_def split: option.splits if_splits)

lemma parse_joined:
  assumes "CHR '':'' \<notin> set a" and "r \<noteq> []" and "a \<noteq> []"
  shows "parsePermissionString (r @ CHR '':'' # a) = Some (r, a)"
proof -
  have "find_index (\<lambda>c. c = CHR '':'') (rev (r @ CHR '':'' # a)) = Some (length a)"
    using assms by (auto simp: find_index_Some_iff nth_append rev_nth in_set_conv_nth)
  then have "last_colon (r @ CHR '':'' # a) = Some (length r)" by (simp add: last_colon_def)
  with assms show ?thesis by (simp add: parsePermissionString_def)
qed

lemma role_rows_iff:
  "row \<in> set (role_rows members roles userId orgId) \<longleftrightarrow>
     row \<in> set roles \<and> (\<exists>m\<in>set members. om_userId m = userId \<and> om_orgId m = og_orgId row
        \<and> om_role m = og_name row \<and> (orgId \<in> {None, Some []} \<or> orgId = Some (om_orgId m)))"
  by (auto simp: role_rows_def)

lemma role_rows_ex:
  "(\<exists>row\<in>set (role_rows members roles userId orgId). Q row) \<longleftrightarrow>
     (\<exists>m\<in>set members. \<exists>row\<in>set roles. om_userId m = userId \<and> om_orgId m = og_orgId row
        \<and> om_role m = og_name row \<and> (orgId \<in> {None, Some []} \<or> orgId = Some (og_orgId row)) \<and> Q row)"
  unfolding role_rows_def by (auto; metis)

definition no_bar :: "org_role list \<Rightarrow> bool" where
  "no_bar roles \<longleftrightarrow> (\<forall>row\<in>set roles. \<forall>raw\<in>set (og_permissions row). CHR ''|'' \<notin> set raw)"

definition no_empty :: "(string \<times> string list) list \<Rightarrow> bool" where
  "no_empty m \<longleftrightarrow> (\<forall>x\<in>set m. snd x \<noteq> [])"

lemma add_action_no_empty: "no_empty m \<Longrightarrow> no_empty (add_action r a m)"
  by (induction r a m rule: add_action.induct) (auto simp: no_empty_def)

lemma permissions_loop_no_empty: "no_empty m \<Longrightarrow> no_empty (permissions_loop raws m)"
  by (induction raws arbitrary: m) (auto simp: add_action_no_empty split: option.split)

lemma toPermissions_actions: "p \<in> set (toPermissions raws) \<Longrightarrow> pm_actions p \<noteq> []"
proof -
  assume "p \<in> set (toPermissions raws)"
  then obtain x where x: "x \<in> set (permissions_loop raws [])" "pm_actions p = sort (snd x)"
    by (auto simp: toPermissions_def)
  have "snd x \<noteq> []" using permissions_loop_no_empty [of "[]" raws] x(1) by (simp add: no_empty_def)
  then have "set (pm_actions p) \<noteq> {}" by (simp add: x(2))
  then show ?thesis by auto
qed

lemma toPermissions_no_bar:
  assumes "\<forall>raw\<in>set raws. CHR ''|'' \<notin> set raw" and "p \<in> set (toPermissions raws)"
  shows "CHR ''|'' \<notin> set (pm_resource p)"
proof -
  obtain a where "a \<in> set (pm_actions p)" using toPermissions_actions [OF assms(2)] by (cases "pm_actions p") auto
  with assms(2) have "grants_pair (toPermissions raws) (pm_resource p) a" by (auto simp: grants_pair_def)
  then obtain raw where r: "raw \<in> set raws" "parsePermissionString raw = Some (pm_resource p, a)"
    using toPermissions_grants by blast
  from parse_parts [OF r(2)] have "set (pm_resource p) \<subseteq> set raw" by (metis set_append Un_upper1)
  with assms(1) r(1) show ?thesis by blast
qed

lemma keys_distinct:
  assumes "\<forall>raw\<in>set raws. CHR ''|'' \<notin> set raw"
  shows "distinct (map permission_key (toPermissions raws))"
proof -
  have "inj_on permission_key (set (toPermissions raws))"
  proof (rule inj_onI)
    fix p q assume p: "p \<in> set (toPermissions raws)" and q: "q \<in> set (toPermissions raws)"
      and k: "permission_key p = permission_key q"
    have "pm_resource p = pm_resource q"
      using append_sep_inject [OF k [unfolded permission_key_def] toPermissions_no_bar [OF assms p]
          toPermissions_no_bar [OF assms q]] by (rule conjunct1)
    with p q toPermissions_resources [of raws] show "p = q" unfolding distinct_map by (blast dest: inj_onD)
  qed
  moreover have "distinct (toPermissions raws)" using toPermissions_resources by (simp add: distinct_map)
  ultimately show ?thesis by (simp add: distinct_map)
qed

lemma resolve_cases:
  "grants_pair (resolveRolePermissions members roles userId orgId) r a \<longleftrightarrow>
   grants_pair (deduplicate (toPermissions (concat (map og_permissions (role_rows members roles userId orgId))))) r a"
proof -
  define rows where "rows = role_rows members roles userId orgId"
  define raws where "raws = concat (map og_permissions rows)"
  have "rows = [] \<Longrightarrow> raws = []" by (simp add: raws_def)
  moreover have "deduplicate (toPermissions []) = []" by (simp add: deduplicate_def toPermissions_def)
  ultimately show ?thesis
    unfolding resolveRolePermissions_def Let_def rows_def [symmetric] raws_def [symmetric] by simp
qed

text \<open>
  Role expansion is exact. As long as no permission string contains a bar, a user is granted an
  action on a resource exactly when some role the user holds, in the organization asked about if
  one is, has a string that reads as that resource and action.
\<close>

theorem resolveRolePermissions_exact:
  assumes "no_bar roles"
  shows "grants_pair (resolveRolePermissions members roles userId orgId) r a \<longleftrightarrow>
    (\<exists>m\<in>set members. \<exists>row\<in>set roles. om_userId m = userId \<and> om_orgId m = og_orgId row
        \<and> om_role m = og_name row \<and> (orgId \<in> {None, Some []} \<or> orgId = Some (og_orgId row))
        \<and> (\<exists>raw\<in>set (og_permissions row). parsePermissionString raw = Some (r, a)))"
proof -
  let ?raws = "concat (map og_permissions (role_rows members roles userId orgId))"
  have "\<forall>raw\<in>set ?raws. CHR ''|'' \<notin> set raw" using assms by (auto simp: no_bar_def role_rows_iff)
  then have "deduplicate (toPermissions ?raws) = toPermissions ?raws"
    by (simp add: deduplicate_def dedupe_loop_all keys_distinct)
  then have "grants_pair (resolveRolePermissions members roles userId orgId) r a \<longleftrightarrow>
      (\<exists>raw\<in>set ?raws. parsePermissionString raw = Some (r, a))"
    by (simp only: resolve_cases toPermissions_grants)
  also have "\<dots> \<longleftrightarrow> (\<exists>row\<in>set (role_rows members roles userId orgId). \<exists>raw\<in>set (og_permissions row).
      parsePermissionString raw = Some (r, a))" by auto
  finally show ?thesis unfolding role_rows_ex .
qed

definition sample_roles :: "org_role list" where
  "sample_roles = [\<lparr>og_orgId = ''o'', og_name = ''dev'', og_permissions = [''mcp:gh:read'']\<rparr>]"

theorem resolveRolePermissions_exact_witness:
  "grants_pair (resolveRolePermissions [\<lparr>om_userId = ''u'', om_orgId = ''o'', om_role = ''dev''\<rparr>]
     sample_roles ''u'' (Some ''o'')) ''mcp:gh'' ''read''"
proof -
  have n: "no_bar sample_roles" by (simp add: no_bar_def sample_roles_def)
  have p: "parsePermissionString ''mcp:gh:read'' = Some (''mcp:gh'', ''read'')"
    using parse_joined [of "''read''" "''mcp:gh''"] by simp
  show ?thesis
    unfolding resolveRolePermissions_exact [OF n] by (simp add: sample_roles_def p)
qed

text \<open>
  Two strings with a bar can share the fingerprint: the second permission is then lost. Of
  \<open>a|b:c\<close> and \<open>a:b|c\<close> only the first is granted.
\<close>

theorem role_grant_dropped:
  "\<exists>members roles.
     grants_pair (toPermissions (concat (map og_permissions roles))) ''a'' ''b|c''
     \<and> \<not> grants_pair (resolveRolePermissions members roles ''u'' None) ''a'' ''b|c''
     \<and> grants_pair (resolveRolePermissions members roles ''u'' None) ''a|b'' ''c''"
proof (intro exI conjI)
  let ?roles = "[\<lparr>og_orgId = ''o'', og_name = ''dev'', og_permissions = [''a|b:c'', ''a:b|c'']\<rparr>]"
  let ?members = "[\<lparr>om_userId = ''u'', om_orgId = ''o'', om_role = ''dev''\<rparr>]"
  have p: "parsePermissionString ''a|b:c'' = Some (''a|b'', ''c'')" "parsePermissionString ''a:b|c'' = Some (''a'', ''b|c'')"
    using parse_joined [of "''c''" "''a|b''"] parse_joined [of "''b|c''" "''a''"] by simp_all
  note d = grants_pair_def resolveRolePermissions_def role_rows_def toPermissions_def p deduplicate_def permission_key_def
  show "grants_pair (toPermissions (concat (map og_permissions ?roles))) ''a'' ''b|c''" by (simp add: d)
  show "\<not> grants_pair (resolveRolePermissions ?members ?roles ''u'' None) ''a'' ''b|c''" by (simp add: d)
  show "grants_pair (resolveRolePermissions ?members ?roles ''u'' None) ''a|b'' ''c''" by (simp add: d)
qed

end
