(* ===== verification/DelegationRules.thy ===== *)
theory DelegationRules
  imports Abac
begin

text \<open>
  The pure rules of delegation: \<open>delegation/subset.ts\<close> (what a child may ask for),
  \<open>delegation/constraints.ts\<close> (how constraints narrow) and \<open>inheritConstraints\<close> of
  \<open>delegation/delegation.ts\<close>. In colon mode a subset never grants more than the parent
  holds, and narrowed constraints imply the constraints of both sides, with the exceptions that
  are proved as such.
\<close>

section \<open>Subsets\<close>

definition isResourceSubset :: "string \<Rightarrow> string \<Rightarrow> resource_matching \<Rightarrow> bool" where
  "isResourceSubset parentResource childResource mode =
     (if parentResource = ''*'' then True
      else if parentResource = childResource then True
      else matchResource parentResource childResource mode)"

definition covers_permission :: "resource_matching \<Rightarrow> permission \<Rightarrow> permission \<Rightarrow> bool" where
  "covers_permission mode childPerm p \<longleftrightarrow>
     isResourceSubset (pm_resource p) (pm_resource childPerm) mode
     \<and> list_all (\<lambda>action. action \<in> set (pm_actions p) \<or> ''*'' \<in> set (pm_actions p))
         (pm_actions childPerm)"

definition isPermissionSubset ::
  "permission list \<Rightarrow> permission list \<Rightarrow> resource_matching \<Rightarrow> bool" where
  "isPermissionSubset parentPerms childPerms mode =
     list_all (\<lambda>childPerm. List.find (covers_permission mode childPerm) parentPerms \<noteq> None)
       childPerms"

fun legacy_loop :: "string list \<Rightarrow> string list \<Rightarrow> bool option" where
  "legacy_loop [] childParts = None"
| "legacy_loop (p # parentParts) childParts =
     (if p = ''*'' then Some True
      else (case childParts of
              [] \<Rightarrow> Some False
            | c # rest \<Rightarrow> if p \<noteq> c then Some False else legacy_loop parentParts rest))"

definition legacyContains :: "string \<Rightarrow> string \<Rightarrow> bool" where
  "legacyContains parentResource childResource =
     (if parentResource = ''*'' then True
      else if parentResource = childResource then True
      else
        let parentParts = split_on CHR '':'' parentResource;
            childParts = split_on CHR '':'' childResource
        in (case legacy_loop parentParts childParts of
              Some b \<Rightarrow> b
            | None \<Rightarrow> length parentParts \<le> length childParts))"

definition resourcesOverlap :: "string \<Rightarrow> string \<Rightarrow> resource_matching \<Rightarrow> bool" where
  "resourcesOverlap parent child mode =
     (if legacyContains parent child \<or> legacyContains child parent then True
      else mode = Path \<and> pathPatternsMayOverlap parent child)"

section \<open>Constraints\<close>

definition deny_all_arg_pattern :: string where
  "deny_all_arg_pattern = ''(?!)''"

definition deny_all_ip_entry :: string where
  "deny_all_ip_entry = ''0.0.0.0/33''"

definition deny_all_window :: time_window where
  "deny_all_window = \<lparr>tw_start = ''24:00'', tw_end = ''24:00''\<rparr>"

text \<open>
  \<open>Number(s)\<close> on the decimal integers a clock string holds: white space is trimmed, the empty
  string is 0. Any other text is NaN, \<open>None\<close>; fractions, exponents and prefixed bases are
  not distinguished from it.
\<close>

definition js_number :: "string \<Rightarrow> int option" where
  "js_number s =
     (let t = rev (dropWhile is_space (rev (dropWhile is_space s)));
          neg = (t \<noteq> [] \<and> hd t = CHR ''-'');
          ds = (if t \<noteq> [] \<and> (hd t = CHR ''-'' \<or> hd t = CHR ''+'') then tl t else t)
      in if t = [] then Some 0
         else if ds = [] \<or> \<not> list_all is_digit ds then None
         else Some (if neg then - int (digits_val ds) else int (digits_val ds)))"

definition hhmm :: "string \<Rightarrow> int option" where
  "hhmm value =
     (case split_on CHR '':'' value of
        h # m # _ \<Rightarrow>
          (case (js_number h, js_number m) of (Some a, Some b) \<Rightarrow> Some (a * 60 + b) | _ \<Rightarrow> None)
      | _ \<Rightarrow> None)"

text \<open>\<open>x <= y\<close> on numbers that may be NaN.\<close>

fun num_le :: "int option \<Rightarrow> int option \<Rightarrow> bool" where
  "num_le (Some x) (Some y) = (x \<le> y)"
| "num_le _ _ = False"

definition narrow_window :: "time_window \<Rightarrow> time_window \<Rightarrow> time_window" where
  "narrow_window aw bw =
     (let sameDay = (num_le (hhmm (tw_start aw)) (hhmm (tw_end aw))
                     \<and> num_le (hhmm (tw_start bw)) (hhmm (tw_end bw)));
          start = (if num_le (hhmm (tw_start bw)) (hhmm (tw_start aw)) then tw_start aw else tw_start bw);
          fin = (if num_le (hhmm (tw_end aw)) (hhmm (tw_end bw)) then tw_end aw else tw_end bw)
      in if sameDay then
           (if num_le (hhmm start) (hhmm fin) then \<lparr>tw_start = start, tw_end = fin\<rparr>
            else deny_all_window)
         else if tw_start aw = tw_start bw \<and> tw_end aw = tw_end bw then
           \<lparr>tw_start = tw_start aw, tw_end = tw_end aw\<rparr>
         else deny_all_window)"

text \<open>Both set: combine; one set: that one; none: undefined.\<close>

fun merge_option :: "('a \<Rightarrow> 'a \<Rightarrow> 'a) \<Rightarrow> 'a option \<Rightarrow> 'a option \<Rightarrow> 'a option" where
  "merge_option f (Some a) (Some b) = Some (f a b)"
| "merge_option f (Some a) None = Some a"
| "merge_option f None b = b"

definition common_or :: "'a \<Rightarrow> 'a list \<Rightarrow> 'a list \<Rightarrow> 'a list" where
  "common_or deny xs ys =
     (let common = filter (\<lambda>y. y \<in> set xs) ys in if common \<noteq> [] then common else [deny])"

text \<open>An empty allowlist counts as unset.\<close>

definition set_list :: "'a list option \<Rightarrow> 'a list option" where
  "set_list xs = (case xs of Some (y # ys) \<Rightarrow> Some (y # ys) | _ \<Rightarrow> None)"

definition narrow_fields ::
  "permission_constraints \<Rightarrow> permission_constraints \<Rightarrow> permission_constraints" where
  "narrow_fields a b =
     \<lparr>pc_maxCallsPerHour = merge_option min (pc_maxCallsPerHour a) (pc_maxCallsPerHour b),
      pc_allowedArgPatterns =
        merge_option (common_or deny_all_arg_pattern) (pc_allowedArgPatterns a) (pc_allowedArgPatterns b),
      pc_requireApproval = (pc_requireApproval a \<or> pc_requireApproval b),
      pc_timeWindow = merge_option narrow_window (pc_timeWindow a) (pc_timeWindow b),
      pc_ipAllowlist =
        merge_option (common_or deny_all_ip_entry) (set_list (pc_ipAllowlist a)) (set_list (pc_ipAllowlist b)),
      pc_attestation = narrowAttestationConstraint (pc_attestation a) (pc_attestation b)\<rparr>"

definition narrowConstraints ::
  "permission_constraints option \<Rightarrow> permission_constraints option \<Rightarrow> permission_constraints option" where
  "narrowConstraints parent child =
     (if parent = None \<and> child = None then None
      else
        let a = (case parent of Some c \<Rightarrow> c | None \<Rightarrow> no_constraints);
            b = (case child of Some c \<Rightarrow> c | None \<Rightarrow> no_constraints);
            out = narrow_fields a b
        in if out \<noteq> no_constraints then Some out else None)"

section \<open>Inheritance\<close>

text \<open>
  The groups of one requested permission, in insertion order. The map key is the canonical JSON
  of the narrowed constraints, so two actions share a group exactly when these are equal.
\<close>

type_synonym constraint_group = "permission_constraints option \<times> string list"

fun add_to_group ::
  "permission_constraints option \<Rightarrow> string \<Rightarrow> constraint_group list \<Rightarrow> constraint_group list" where
  "add_to_group key action [] = [(key, [action])]"
| "add_to_group key action ((k, actions) # groups) =
     (if k = key then (k, actions @ [action]) # groups
      else (k, actions) # add_to_group key action groups)"

definition inherited ::
  "permission list \<Rightarrow> permission \<Rightarrow> resource_matching \<Rightarrow> string \<Rightarrow> permission_constraints option" where
  "inherited parentPerms child mode action =
     narrowConstraints
       (Option.bind
          (List.find (\<lambda>p. resourcesOverlap (pm_resource p) (pm_resource child) mode
                          \<and> (action \<in> set (pm_actions p) \<or> ''*'' \<in> set (pm_actions p)))
             parentPerms)
          pm_constraints)
       (pm_constraints child)"

definition child_groups ::
  "permission list \<Rightarrow> permission \<Rightarrow> resource_matching \<Rightarrow> constraint_group list" where
  "child_groups parentPerms child mode =
     foldl (\<lambda>groups action. add_to_group (inherited parentPerms child mode action) action groups)
       [] (pm_actions child)"

definition inheritConstraints ::
  "permission list \<Rightarrow> permission list \<Rightarrow> resource_matching \<Rightarrow> permission list" where
  "inheritConstraints parentPerms requested mode =
     concat (map (\<lambda>child.
         map (\<lambda>(constraints, actions). child\<lparr>pm_actions := actions, pm_constraints := constraints\<rparr>)
           (child_groups parentPerms child mode))
       requested)"

section \<open>A subset grants no more\<close>

lemma isPermissionSubset_iff:
  "isPermissionSubset parents children mode \<longleftrightarrow>
     (\<forall>c\<in>set children. \<exists>p\<in>set parents. covers_permission mode c p)"
  by (auto simp: isPermissionSubset_def list_all_iff find_None_iff)

lemma isResourceSubset_colon:
  assumes "isResourceSubset a b Colon" and "matchColonResource b r"
  shows "matchColonResource a r"
proof -
  have "matchColonResource a b"
    using assms(1) colon.accepts_refl
    by (auto simp: isResourceSubset_def matchResource_def matchColonResource_def split: if_splits)
  with assms(2) show ?thesis by (blast intro: colon.accepts_trans)
qed

lemma covers_grants:
  assumes "covers_permission Colon c p" and "grants Colon action resource c"
  shows "grants Colon action resource p"
  using assms isResourceSubset_colon
  by (auto simp: covers_permission_def grants_def matchResource_def matchAction_def list_all_iff)

text \<open>
  A delegated permission set never grants what the parent set does not. In colon mode,
  whatever action and resource the child permissions grant, the parent permissions grant too.
\<close>

theorem isPermissionSubset_no_escalation:
  assumes "isPermissionSubset parents children Colon"
    and "findMatchingPermission children action resource Colon \<noteq> None"
  shows "findMatchingPermission parents action resource Colon \<noteq> None"
  using assms covers_grants
  by (simp add: findMatchingPermission_None_iff isPermissionSubset_iff) blast

definition perm :: "string \<Rightarrow> string list \<Rightarrow> permission" where
  "perm r actions = \<lparr>pm_resource = r, pm_actions = actions, pm_constraints = None, pm_relation = None\<rparr>"

theorem isPermissionSubset_no_escalation_witness:
  "findMatchingPermission [perm ''mcp:*'' [''*'']] ''read'' ''mcp:github'' Colon \<noteq> None"
  by (rule isPermissionSubset_no_escalation [of _ "[perm ''mcp:github'' [''read'']]"])
    (simp_all add: isPermissionSubset_def covers_permission_def isResourceSubset_def
      matchResource_def colon_seg_match perm_def findMatchingPermission_def grants_def matchAction_def)

text \<open>
  Under path matching the subset test is weaker than what it is meant to ensure. The parent
  pattern \<open>x:*:*\<close> accepts the child pattern \<open>x:*\<close>, and then the child may use \<open>x\<close> and
  \<open>x::secret\<close>, which the parent may not.
\<close>

theorem path_subset_escalates:
  "isPermissionSubset [perm ''x:*:*'' [''read'']] [perm ''x:*'' [''read'']] Path
   \<and> findMatchingPermission [perm ''x:*'' [''read'']] ''read'' ''x::secret'' Path \<noteq> None
   \<and> findMatchingPermission [perm ''x:*:*'' [''read'']] ''read'' ''x::secret'' Path = None"
  by (simp add: isPermissionSubset_def covers_permission_def isResourceSubset_def matchResource_def
      matchPathResource_iff free_part_def segment_accepts_def perm_def findMatchingPermission_def
      grants_def matchAction_def)

section \<open>Overlap never misses\<close>

definition legacy_parts :: "string list \<Rightarrow> string list \<Rightarrow> bool" where
  "legacy_parts ps qs =
     (case legacy_loop ps qs of Some b \<Rightarrow> b | None \<Rightarrow> length ps \<le> length qs)"

lemma legacy_parts_simps [simp]:
  "legacy_parts [] qs"
  "legacy_parts (p # ps) [] = (p = ''*'')"
  "legacy_parts (p # ps) (q # qs) = (p = ''*'' \<or> (p = q \<and> legacy_parts ps qs))"
  by (auto simp: legacy_parts_def split: option.splits)

lemma legacyContains_iff:
  "legacyContains a b \<longleftrightarrow>
     a = ''*'' \<or> a = b \<or> legacy_parts (split_on CHR '':'' a) (split_on CHR '':'' b)"
  by (simp add: legacyContains_def legacy_parts_def Let_def)

lemma seg_match_overlap:
  "seg_match ps rs \<Longrightarrow> seg_match qs rs \<Longrightarrow> legacy_parts ps qs \<or> legacy_parts qs ps"
proof (induction ps arbitrary: qs rs)
  case (Cons p ps)
  then show ?case
    by (cases qs; cases rs) (auto split: if_splits)
qed simp

text \<open>
  A parent rule that can gate a child is never overlooked. Whenever some resource is matched
  by both patterns, in either mode, \<open>resourcesOverlap\<close> says so.
\<close>

theorem resourcesOverlap_sound:
  assumes "matchResource a r mode" and "matchResource b r mode"
  shows "resourcesOverlap a b mode"
proof (cases mode)
  case Colon
  then have "seg_match (split_on CHR '':'' a) (split_on CHR '':'' r)"
    "seg_match (split_on CHR '':'' b) (split_on CHR '':'' r)"
    using assms by (simp_all add: matchResource_def colon_seg_match)
  from seg_match_overlap [OF this] show ?thesis
    by (auto simp: resourcesOverlap_def legacyContains_iff)
next
  case Path
  with assms path_overlap_sound show ?thesis
    by (auto simp: resourcesOverlap_def matchResource_def)
qed

theorem resourcesOverlap_sound_witness: "resourcesOverlap ''mcp:*'' ''mcp:github'' Colon"
  by (rule resourcesOverlap_sound [of _ "''mcp:github''"]) (simp_all add: matchResource_def colon_seg_match)

section \<open>Narrowed constraints\<close>

lemma common_or_sub:
  "x \<in> set (common_or deny xs ys) \<Longrightarrow> common_or deny xs ys \<noteq> [deny] \<Longrightarrow> x \<in> set xs \<and> x \<in> set ys"
  by (auto simp: common_or_def Let_def split: if_splits)

lemma deny_ip_matches_nothing: "\<not> isIPAllowed [deny_all_ip_entry] ip"
proof -
  have "parseInt10 ''33'' = Some 33"
    by (simp add: parseInt10_def is_space_def is_digit_def digit_val_def)
  then show ?thesis
    by (simp add: isIPAllowed_def deny_all_ip_entry_def matchesIPEntry_def indexOf.simps)
qed

lemma isIPAllowed_mono: "isIPAllowed xs ip \<Longrightarrow> set xs \<subseteq> set ys \<Longrightarrow> isIPAllowed ys ip"
  by (auto simp: isIPAllowed_def list_ex_iff)

lemma ip_ok_set_list: "ip_ok cs ip \<longleftrightarrow>
   (\<forall>xs. set_list (pc_ipAllowlist cs) = Some xs \<longrightarrow> (\<exists>a. ip = Some a \<and> a \<noteq> '''' \<and> isIPAllowed xs a))"
  by (auto simp: ip_ok_def set_list_def split: option.splits list.splits)

lemma narrow_ip_ok:
  assumes "ip_ok (narrow_fields a b) ip" and "z = a \<or> z = b"
  shows "ip_ok z ip"
proof -
  let ?n = "merge_option (common_or deny_all_ip_entry) (set_list (pc_ipAllowlist a)) (set_list (pc_ipAllowlist b))"
  have sl: "set_list ?n = ?n"
    by (cases "set_list (pc_ipAllowlist a)"; cases "set_list (pc_ipAllowlist b)")
      (auto simp: set_list_def common_or_def Let_def split: option.splits list.splits)
  have n: "\<forall>xs. ?n = Some xs \<longrightarrow> (\<exists>a. ip = Some a \<and> a \<noteq> '''' \<and> isIPAllowed xs a)"
    using assms(1) sl by (simp add: ip_ok_set_list narrow_fields_def)
  show ?thesis
    unfolding ip_ok_set_list
  proof (intro allI impI)
    fix xs assume xs: "set_list (pc_ipAllowlist z) = Some xs"
    then obtain ns where ns: "?n = Some ns" using assms(2)
      by (cases "set_list (pc_ipAllowlist a)"; cases "set_list (pc_ipAllowlist b)") auto
    then obtain ad where ad: "ip = Some ad" "ad \<noteq> ''''" "isIPAllowed ns ad" using n by blast
    have "set ns \<subseteq> set xs \<or> ns = [deny_all_ip_entry]"
      using ns xs assms(2)
      by (cases "set_list (pc_ipAllowlist a)"; cases "set_list (pc_ipAllowlist b)")
        (auto dest: common_or_sub)
    with ad deny_ip_matches_nothing isIPAllowed_mono
    show "\<exists>a. ip = Some a \<and> a \<noteq> '''' \<and> isIPAllowed xs a" by blast
  qed
qed

subsection \<open>Windows\<close>

lemma parseClock_JStr_SomeD:
  assumes "parseClock (JStr s) = Some n"
  obtains a b d e where "s = [a, b, CHR '':'', d, e]" "is_digit a" "is_digit b" "is_digit d" "is_digit e"
    "n = (digit_val a * 10 + digit_val b) * 60 + (digit_val d * 10 + digit_val e)"
proof -
  have "is_digit CHR ''0''" "is_digit CHR ''1''" "is_digit CHR ''2''" by (simp_all add: is_digit_def)
  with assms that show ?thesis
    by (auto simp: parseClock_def split: list.splits if_splits)
qed

lemma digit_no_sign: "is_digit c \<Longrightarrow> c \<noteq> CHR '':'' \<and> c \<noteq> CHR ''-'' \<and> c \<noteq> CHR ''+'' \<and> \<not> is_space c"
  by (auto simp: is_digit_def is_space_def Let_def)

lemma js_number_two: "is_digit a \<Longrightarrow> is_digit b \<Longrightarrow> js_number [a, b] = Some (int (digit_val a * 10 + digit_val b))"
  using digit_no_sign [of a] digit_no_sign [of b] by (simp add: js_number_def)

lemma hhmm_parseClock: "parseClock (JStr s) = Some n \<Longrightarrow> hhmm s = Some (int n)"
proof -
  assume "parseClock (JStr s) = Some n"
  then obtain a b d e where s: "s = [a, b, CHR '':'', d, e]" and
    d: "is_digit a" "is_digit b" "is_digit d" "is_digit e"
    and n: "n = (digit_val a * 10 + digit_val b) * 60 + (digit_val d * 10 + digit_val e)"
    by (rule parseClock_JStr_SomeD)
  have "split_on CHR '':'' s = [[a, b], [d, e]]"
    using d [THEN digit_no_sign] by (simp add: s)
  then show ?thesis using d by (simp add: hhmm_def js_number_two n)
qed

lemma deny_window_never: "\<not> inWindow deny_all_window n"
  by (simp add: inWindow_def deny_all_window_def parseClock_def digit_val_def is_digit_def)

definition window_wf :: "time_window option \<Rightarrow> bool" where
  "window_wf w \<longleftrightarrow>
     (\<forall>x. w = Some x \<longrightarrow> parseClock (JStr (tw_start x)) \<noteq> None \<and> parseClock (JStr (tw_end x)) \<noteq> None)"

lemma narrow_window_sound:
  assumes wf: "window_wf (Some a)" "window_wf (Some b)"
    and i: "inWindow (narrow_window a b) n"
  shows "inWindow a n \<and> inWindow b n"
proof -
  obtain as ae bs be where c: "parseClock (JStr (tw_start a)) = Some as"
    "parseClock (JStr (tw_end a)) = Some ae" "parseClock (JStr (tw_start b)) = Some bs"
    "parseClock (JStr (tw_end b)) = Some be"
    using wf by (auto simp: window_wf_def)
  note h = c [THEN hhmm_parseClock]
  consider (same) "as \<le> ae" "bs \<le> be"
    | (equal) "\<not> (as \<le> ae \<and> bs \<le> be)" "tw_start a = tw_start b" "tw_end a = tw_end b"
    | (deny) "\<not> (as \<le> ae \<and> bs \<le> be)" "\<not> (tw_start a = tw_start b \<and> tw_end a = tw_end b)"
    by blast
  then show ?thesis
  proof cases
    case same
    then show ?thesis
      using i deny_window_never
      by (auto simp: narrow_window_def Let_def h inWindow_def c split: if_splits)
  next
    case equal
    then have "narrow_window a b = \<lparr>tw_start = tw_start a, tw_end = tw_end a\<rparr>"
      by (auto simp: narrow_window_def Let_def h)
    with i equal show ?thesis by (simp add: inWindow_def)
  next
    case deny
    then have "narrow_window a b = deny_all_window"
      by (auto simp: narrow_window_def Let_def h)
    with i deny_window_never show ?thesis by simp
  qed
qed

lemma narrow_window_ok:
  assumes "window_ok (narrow_fields a b) n" and "window_wf (pc_timeWindow a)" "window_wf (pc_timeWindow b)"
  shows "window_ok a n \<and> window_ok b n"
  using assms narrow_window_sound
  by (cases "pc_timeWindow a"; cases "pc_timeWindow b") (auto simp: window_ok_def narrow_fields_def)

subsection \<open>All constraints\<close>

lemma narrow_rate_ok: "rate_ok (narrow_fields a b) u \<Longrightarrow> rate_ok a u \<and> rate_ok b u"
  by (cases "pc_maxCallsPerHour a"; cases "pc_maxCallsPerHour b")
    (auto simp: rate_ok_def narrow_fields_def)

lemma narrow_attestation_ok:
  assumes "attestation_ok (narrow_fields a b) f" and "z = a \<or> z = b"
  shows "attestation_ok z f"
  unfolding attestation_ok_def
proof (intro allI impI)
  fix rule assume r: "pc_attestation z = Some rule"
  with assms(2) obtain n where n: "narrowAttestationConstraint (pc_attestation a) (pc_attestation b) = Some n"
    by (cases "narrowAttestationConstraint (pc_attestation a) (pc_attestation b)") auto
  with assms(1) have "checkAttestationConstraint (rule_json n) f = AttestationOk"
    by (simp add: attestation_ok_def narrow_fields_def)
  from narrow_rule_sound [OF n this] r assms(2)
  show "checkAttestationConstraint (rule_json rule) f = AttestationOk" by auto
qed

lemma narrow_args_ok:
  assumes "args_ok compile (narrow_fields a b) x"
    and "pc_allowedArgPatterns a = None \<or> pc_allowedArgPatterns b = None"
  shows "args_ok compile a x \<and> args_ok compile b x"
  using assms
  by (cases "pc_allowedArgPatterns a"; cases "pc_allowedArgPatterns b")
    (auto simp: args_ok_def narrow_fields_def)

text \<open>What the engine enforces for constraints that may be absent.\<close>

definition effective :: "permission_constraints option \<Rightarrow> permission_constraints" where
  "effective c = (case c of Some x \<Rightarrow> x | None \<Rightarrow> no_constraints)"

lemma effective_narrow: "effective (narrowConstraints p c) = narrow_fields (effective p) (effective c)"
proof (cases "p = None \<and> c = None")
  case True
  then show ?thesis
    by (simp add: narrowConstraints_def effective_def narrow_fields_def no_constraints_def
        set_list_def narrowAttestationConstraint_def)
next
  case False
  then have "narrowConstraints p c =
      (let out = narrow_fields (effective p) (effective c)
       in if out \<noteq> no_constraints then Some out else None)"
    unfolding narrowConstraints_def effective_def Let_def if_not_P [OF False] by simp
  then show ?thesis by (simp add: effective_def [of "if _ then _ else _"] effective_def [of None]
        effective_def [of "Some _"] Let_def)
qed

text \<open>
  C23: what a call that passes the narrowed constraints passes of the parent's and of the child's. Always:
  both hourly limits, both attestation rules, both address lists, and neither side demands an approval.
  Everything else too, when both clock windows are readable and not both sides set argument patterns.
  Beyond these two conditions the result can be looser than the parent, whatever the comment on
  \<open>narrowConstraints\<close> says: \<open>narrowed_patterns_looser\<close> and \<open>narrowed_window_looser\<close> below.
\<close>

theorem narrowConstraints_sound:
  assumes "ci_allowed (inspectConstraints compile input (effective (narrowConstraints p c)) options)"
  shows "(\<forall>side\<in>{effective p, effective c}.
      rate_ok side (io_rateUsage options) \<and> attestation_ok side (in_attestation input)
      \<and> \<not> pc_requireApproval side \<and> ip_ok side (in_ip input))
    \<and> (window_wf (pc_timeWindow (effective p)) \<and> window_wf (pc_timeWindow (effective c))
        \<and> (pc_allowedArgPatterns (effective p) = None \<or> pc_allowedArgPatterns (effective c) = None) \<longrightarrow>
         ci_allowed (inspectConstraints compile input (effective p) options)
         \<and> ci_allowed (inspectConstraints compile input (effective c) options))"
proof -
  let ?a = "effective p" and ?b = "effective c"
  have h: "rate_ok (narrow_fields ?a ?b) (io_rateUsage options)"
    "args_ok compile (narrow_fields ?a ?b) (in_arguments input)"
    "attestation_ok (narrow_fields ?a ?b) (in_attestation input)"
    "\<not> pc_requireApproval (narrow_fields ?a ?b)"
    "window_ok (narrow_fields ?a ?b) (io_hours options * 60 + io_minutes options)"
    "ip_ok (narrow_fields ?a ?b) (in_ip input)"
    using assms by (simp_all add: inspect_allowed_iff effective_narrow)
  have always: "rate_ok side (io_rateUsage options) \<and> attestation_ok side (in_attestation input)
      \<and> \<not> pc_requireApproval side \<and> ip_ok side (in_ip input)" if "side \<in> {?a, ?b}" for side
    using that narrow_rate_ok [OF h(1)] narrow_attestation_ok [OF h(3)] h(4) narrow_ip_ok [OF h(6)]
    by (auto simp: narrow_fields_def)
  moreover have "args_ok compile ?a (in_arguments input) \<and> args_ok compile ?b (in_arguments input)"
    if "pc_allowedArgPatterns ?a = None \<or> pc_allowedArgPatterns ?b = None"
    using narrow_args_ok [OF h(2) that] .
  moreover have "window_ok ?a (io_hours options * 60 + io_minutes options)
      \<and> window_ok ?b (io_hours options * 60 + io_minutes options)"
    if "window_wf (pc_timeWindow ?a)" "window_wf (pc_timeWindow ?b)"
    using narrow_window_ok [OF h(5) that] .
  ultimately show ?thesis by (auto simp: inspect_allowed_iff)
qed

theorem narrowConstraints_sound_witness:
  "ci_allowed (inspectConstraints (\<lambda>_. None)
      \<lparr>in_subjectId = ''a'', in_resource = ''r'', in_arguments = None, in_ip = None,
       in_attestation = None\<rparr> (no_constraints\<lparr>pc_maxCallsPerHour := Some 5\<rparr>)
      \<lparr>io_hours = 1, io_minutes = 2, io_rateUsage = Some 2\<rparr>)"
  using narrowConstraints_sound [of "\<lambda>_. None" "\<lparr>in_subjectId = ''a'', in_resource = ''r'', in_arguments = None, in_ip = None,
       in_attestation = None\<rparr>" "Some (no_constraints\<lparr>pc_maxCallsPerHour := Some 5\<rparr>)"
       "Some (no_constraints\<lparr>pc_maxCallsPerHour := Some 3\<rparr>)"
       "\<lparr>io_hours = 1, io_minutes = 2, io_rateUsage = Some 2\<rparr>"]
  by (simp add: effective_narrow inspect_allowed_iff effective_def narrow_fields_def
      no_constraints_def rate_ok_def args_ok_def attestation_ok_def window_ok_def ip_ok_def
      window_wf_def set_list_def)

text \<open>
  Two pattern lists narrow to their common patterns, which is looser than either. A string
  must match every pattern of a list, so keeping only the common ones drops demands of the parent:
  a parent that demands \<open>a\<close> and \<open>ab\<close> delegates to a child that asks for \<open>a\<close>, and the child may pass
  \<open>axe\<close>, which the parent may not. The engine of the example tests prefixes.
\<close>

theorem narrowed_patterns_looser:
  "let compile = (\<lambda>p. Some (starts_with p));
       parent = no_constraints\<lparr>pc_allowedArgPatterns := Some [''a'', ''ab'']\<rparr>;
       child = no_constraints\<lparr>pc_allowedArgPatterns := Some [''a'']\<rparr>;
       args = Some (JObj [(''path'', JStr ''axe'')])
   in \<not> args_ok compile parent args
      \<and> args_ok compile (effective (narrowConstraints (Some parent) (Some child))) args"
proof -
  let ?parent = "no_constraints\<lparr>pc_allowedArgPatterns := Some [''a'', ''ab'']\<rparr>"
  let ?child = "no_constraints\<lparr>pc_allowedArgPatterns := Some [''a'']\<rparr>"
  have "pc_allowedArgPatterns (narrow_fields ?parent ?child) = Some [''a'']"
    by (simp add: narrow_fields_def common_or_def)
  then show ?thesis
    by (simp add: Let_def effective_narrow effective_def [of "Some _"] args_ok_def
        validateArgPatterns_def max_arg_depth_def)
qed

text \<open>
  An unreadable parent window is widened. The parent window ends at \<open>25:00\<close>, which the walk
  cannot read, so the parent is denied at every time. Narrowed with a readable child window it
  becomes a window that allows noon.
\<close>

theorem narrowed_window_looser:
  "\<not> inWindow \<lparr>tw_start = ''09:00'', tw_end = ''25:00''\<rparr> n
   \<and> inWindow (narrow_window \<lparr>tw_start = ''09:00'', tw_end = ''25:00''\<rparr>
        \<lparr>tw_start = ''10:00'', tw_end = ''17:00''\<rparr>) 720"
proof
  have d: "is_digit CHR ''0''" "is_digit CHR ''1''" "is_digit CHR ''2''" "is_digit CHR ''5''"
    "is_digit CHR ''7''" "is_digit CHR ''9''" by (simp_all add: is_digit_def)
  have v: "digit_val CHR ''0'' = 0" "digit_val CHR ''1'' = 1" "digit_val CHR ''2'' = 2"
    "digit_val CHR ''5'' = 5" "digit_val CHR ''7'' = 7" "digit_val CHR ''9'' = 9"
    by (simp_all add: digit_val_def)
  have h: "hhmm ''09:00'' = Some 540" "hhmm ''25:00'' = Some 1500" "hhmm ''10:00'' = Some 600"
    "hhmm ''17:00'' = Some 1020"
    by (simp_all add: hhmm_def js_number_two d v)
  show "\<not> inWindow \<lparr>tw_start = ''09:00'', tw_end = ''25:00''\<rparr> n"
    by (simp add: inWindow_def parseClock_def v split: option.splits)
  have "narrow_window \<lparr>tw_start = ''09:00'', tw_end = ''25:00''\<rparr>
      \<lparr>tw_start = ''10:00'', tw_end = ''17:00''\<rparr> = \<lparr>tw_start = ''10:00'', tw_end = ''17:00''\<rparr>"
    by (simp add: narrow_window_def Let_def h)
  then show "inWindow (narrow_window \<lparr>tw_start = ''09:00'', tw_end = ''25:00''\<rparr>
        \<lparr>tw_start = ''10:00'', tw_end = ''17:00''\<rparr>) 720"
    by (simp add: inWindow_def parseClock_def d v)
qed

section \<open>Inherited constraints\<close>

lemma add_to_group_mem:
  "(k, as) \<in> set (add_to_group key action groups) \<Longrightarrow> a \<in> set as \<Longrightarrow>
   (a = action \<and> k = key) \<or> (\<exists>bs. (k, bs) \<in> set groups \<and> a \<in> set bs)"
  by (induction key action groups arbitrary: rule: add_to_group.induct) (auto split: if_splits)

lemma add_to_group_adds:
  "\<exists>as. (key, as) \<in> set (add_to_group key action groups) \<and> action \<in> set as"
  by (induction key action groups rule: add_to_group.induct) auto

lemma add_to_group_keeps:
  "(k, bs) \<in> set groups \<Longrightarrow> a \<in> set bs \<Longrightarrow>
   \<exists>as. (k, as) \<in> set (add_to_group key action groups) \<and> a \<in> set as"
  by (induction key action groups rule: add_to_group.induct) (auto split: if_splits)

lemma foldl_groups:
  "(\<exists>as. (k, as) \<in> set (foldl (\<lambda>gs a. add_to_group (f a) a gs) groups actions) \<and> a \<in> set as)
   \<longleftrightarrow> (\<exists>as. (k, as) \<in> set groups \<and> a \<in> set as) \<or> (a \<in> set actions \<and> k = f a)"
proof (induction actions arbitrary: groups)
  case (Cons x xs)
  have "(\<exists>as. (k, as) \<in> set (add_to_group (f x) x groups) \<and> a \<in> set as)
      \<longleftrightarrow> (\<exists>as. (k, as) \<in> set groups \<and> a \<in> set as) \<or> (a = x \<and> k = f x)"
    using add_to_group_mem [of k _ "f x" x groups a] add_to_group_adds [of "f x" x groups]
      add_to_group_keeps [of k _ groups a "f x" x] by blast
  with Cons show ?case by auto
qed simp

text \<open>The granted permissions in terms of the requested ones.\<close>

lemma inherit_iff:
  "(\<exists>g\<in>set (inheritConstraints parents requested mode).
      pm_resource g = r \<and> a \<in> set (pm_actions g) \<and> pm_constraints g = c)
   \<longleftrightarrow> (\<exists>child\<in>set requested. pm_resource child = r \<and> a \<in> set (pm_actions child)
          \<and> c = inherited parents child mode a)"
proof -
  have g: "(\<exists>as. (c, as) \<in> set (child_groups parents child mode) \<and> a \<in> set as)
      \<longleftrightarrow> a \<in> set (pm_actions child) \<and> c = inherited parents child mode a" for child
    using foldl_groups [of c "inherited parents child mode" "[]" "pm_actions child" a]
    by (simp add: child_groups_def)
  have "(\<exists>g\<in>set (inheritConstraints parents requested mode).
      pm_resource g = r \<and> a \<in> set (pm_actions g) \<and> pm_constraints g = c)
    \<longleftrightarrow> (\<exists>child\<in>set requested. pm_resource child = r
          \<and> (\<exists>as. (c, as) \<in> set (child_groups parents child mode) \<and> a \<in> set as))"
  proof -
    have "(\<exists>g\<in>set (inheritConstraints parents requested mode). P g) \<longleftrightarrow>
        (\<exists>child\<in>set requested. \<exists>(k, as)\<in>set (child_groups parents child mode).
           P (child\<lparr>pm_actions := as, pm_constraints := k\<rparr>))" for P
      by (simp add: inheritConstraints_def case_prod_beta)
    then show ?thesis by (simp add: case_prod_beta) (metis fst_conv snd_conv prod.collapse)
  qed
  then show ?thesis using g by simp
qed

text \<open>
  Every granted action carries the constraints of the first parent rule that overlaps the
  resource and grants the action, narrowed by what was asked for, and nothing else is granted.
\<close>

theorem inheritConstraints_spec:
  "(\<exists>g\<in>set (inheritConstraints parents requested mode).
      pm_resource g = r \<and> a \<in> set (pm_actions g) \<and> pm_constraints g = c)
   \<longleftrightarrow> (\<exists>child\<in>set requested. pm_resource child = r \<and> a \<in> set (pm_actions child)
          \<and> c = narrowConstraints
              (Option.bind
                (List.find (\<lambda>p. resourcesOverlap (pm_resource p) r mode
                              \<and> matchAction (pm_actions p) a) parents)
                pm_constraints)
              (pm_constraints child))"
  unfolding inherit_iff inherited_def matchAction_def by (rule bex_cong [OF refl]) auto

text \<open>
  Only the first overlapping parent rule counts. A parent that holds \<open>x:a\<close> freely and
  \<open>x:*\<close> with human approval passes the whole of \<open>x:*\<close> on without any constraint, because the
  narrow rule comes first and overlaps. On \<open>x:b\<close> the parent needs approval, the child does not.
\<close>

theorem inherited_constraints_escape:
  "let free = perm ''x:a'' [''read''];
       gated = (perm ''x:*'' [''read''])\<lparr>pm_constraints := Some (no_constraints\<lparr>pc_requireApproval := True\<rparr>)\<rparr>;
       parents = [free, gated];
       asked = [perm ''x:*'' [''read'']]
   in isPermissionSubset parents asked Colon
      \<and> findMatchingPermission parents ''read'' ''x:b'' Colon = Some (gated, 1)
      \<and> findMatchingPermission (inheritConstraints parents asked Colon) ''read'' ''x:b'' Colon
          = Some (perm ''x:*'' [''read''], 0)"
proof -
  let ?free = "perm ''x:a'' [''read'']"
  let ?gated = "(perm ''x:*'' [''read''])\<lparr>pm_constraints := Some (no_constraints\<lparr>pc_requireApproval := True\<rparr>)\<rparr>"
  let ?asked = "perm ''x:*'' [''read'']"
  have p [simp]: "pm_resource (perm r as) = r" "pm_actions (perm r as) = as"
    "pm_constraints (perm r as) = None" for r as
    by (simp_all add: perm_def)
  have m: "\<not> matchColonResource ''x:a'' ''x:b''" "matchColonResource ''x:*'' ''x:b''"
    "\<not> matchColonResource ''x:a'' ''x:*''"
    by (simp_all add: colon_seg_match)
  have g: "\<not> grants Colon ''read'' ''x:b'' ?free" "grants Colon ''read'' ''x:b'' ?gated"
    "grants Colon ''read'' ''x:b'' ?asked"
    by (simp_all add: grants_def matchResource_def m matchAction_def)
  have "resourcesOverlap ''x:a'' ''x:*'' Colon"
    by (simp add: resourcesOverlap_def legacyContains_iff)
  then have "inherited [?free, ?gated] ?asked Colon ''read'' = None"
    by (simp add: inherited_def narrowConstraints_def)
  moreover have "?asked\<lparr>pm_actions := [''read''], pm_constraints := None\<rparr> = ?asked"
    by (simp add: perm_def)
  ultimately have i: "inheritConstraints [?free, ?gated] [?asked] Colon = [?asked]"
    by (simp add: inheritConstraints_def child_groups_def)
  have "covers_permission Colon ?asked ?gated" "\<not> covers_permission Colon ?asked ?free"
    by (simp_all add: covers_permission_def isResourceSubset_def matchResource_def m)
  then show ?thesis
    unfolding Let_def i by (simp add: isPermissionSubset_iff findMatchingPermission_def g)
qed

text \<open>
  The subset test does not look at the relation of a permission: a permission gated by a relation
  covers its own copy without the gate, so what is delegated may be wider than what is held.
\<close>

theorem relation_gate_dropped:
  "pm_relation p = Some r \<Longrightarrow>
   isPermissionSubset [p] [p\<lparr>pm_relation := None\<rparr>] mode \<and> pm_relation (p\<lparr>pm_relation := None\<rparr>) = None"
  by (simp add: isPermissionSubset_def covers_permission_def isResourceSubset_def list_all_iff)

theorem relation_gate_dropped_witness:
  "isPermissionSubset
     [\<lparr>pm_resource = ''doc:1'', pm_actions = [''read''], pm_constraints = None, pm_relation = Some ''editor''\<rparr>]
     [\<lparr>pm_resource = ''doc:1'', pm_actions = [''read''], pm_constraints = None, pm_relation = None\<rparr>] Colon"
  using relation_gate_dropped
    [of "\<lparr>pm_resource = ''doc:1'', pm_actions = [''read''], pm_constraints = None, pm_relation = Some ''editor''\<rparr>"
        "''editor''" Colon] by simp

end
