(* ===== verification/DelegationStore.thy ===== *)
theory DelegationStore
  imports DelegationRules
begin

text \<open>
  Delegation chains as a store: \<open>delegation/liveness.ts\<close> (which delegators lend authority),
  \<open>delegation/lineage.ts\<close> (who stands behind an agent) and \<open>delegation/delegation.ts\<close>
  (creating and revoking links). One liveness question reads one snapshot of the tables, as
  its caches do. \<open>delegate\<close> is split at its awaits, with what other callers do in between as
  two arguments.
\<close>

section \<open>Tables\<close>

datatype row_status = RowActive | RowRevoked | RowExpired

record agent_row =
  ag_id :: ident
  ag_ownerId :: ident
  ag_status :: row_status
  ag_expiresAt :: "time option"

record permission_row =
  pr_agentId :: ident
  pr_permission :: permission

record chain_row =
  ch_id :: ident
  ch_from :: ident
  ch_to :: ident
  ch_permissions :: "permission list"
  ch_depth :: int
  ch_maxDepth :: int
  ch_status :: row_status
  ch_expiresAt :: time
  ch_createdAt :: time

datatype delegation_audit =
    CreatedA ident ident ident
  | RevokedA ident "ident option" "ident option" ident

record deleg_db =
  dd_agents :: "agent_row list"
  dd_permissions :: "permission_row list"
  dd_chains :: "chain_row list"
  dd_audit :: "delegation_audit list"

definition agentRow :: "deleg_db \<Rightarrow> ident \<Rightarrow> agent_row option" where
  "agentRow db i = List.find (\<lambda>r. ag_id r = i) (dd_agents db)"

definition ownPermissions :: "deleg_db \<Rightarrow> ident \<Rightarrow> permission list" where
  "ownPermissions db i =
     map (\<lambda>r. (pr_permission r)\<lparr>pm_relation := None\<rparr>)
       (filter (\<lambda>r. pr_agentId r = i) (dd_permissions db))"

definition anyInboundRows :: "deleg_db \<Rightarrow> ident \<Rightarrow> chain_row list" where
  "anyInboundRows db i = filter (\<lambda>c. ch_to c = i) (dd_chains db)"

definition inboundRows :: "deleg_db \<Rightarrow> time \<Rightarrow> ident \<Rightarrow> chain_row list" where
  "inboundRows db now i =
     filter (\<lambda>c. ch_status c = RowActive \<and> now < ch_expiresAt c) (anyInboundRows db i)"

section \<open>Liveness\<close>

datatype delegator_state = Live | RevokedD | ExpiredD

definition max_walk :: nat where
  "max_walk = 16"

definition past_expiry :: "time option \<Rightarrow> time \<Rightarrow> bool" where
  "past_expiry e now = (case e of None \<Rightarrow> False | Some t \<Rightarrow> t \<le> now)"

text \<open>
  \<open>stateOfLink\<close> once the state of its delegator is known: a dead delegator still carries what
  its own rows cover while it is itself active and unexpired.
\<close>

definition link_state_of ::
  "deleg_db \<Rightarrow> time \<Rightarrow> resource_matching \<Rightarrow> chain_row \<Rightarrow> delegator_state \<Rightarrow> delegator_state" where
  "link_state_of db now mode link state =
     (if state = Live then Live
      else (case agentRow db (ch_from link) of
              None \<Rightarrow> state
            | Some row \<Rightarrow>
                if ag_status row \<noteq> RowActive \<or> past_expiry (ag_expiresAt row) now then state
                else if isPermissionSubset (ownPermissions db (ch_from link)) (ch_permissions link) mode
                then Live else state))"

text \<open>The loop over the inbound links: live if one is, else the state of the first.\<close>

definition first_live :: "delegator_state list \<Rightarrow> delegator_state" where
  "first_live states = (if Live \<in> set states then Live else hd states)"

function stateOf ::
  "deleg_db \<Rightarrow> time \<Rightarrow> resource_matching \<Rightarrow> ident \<Rightarrow> ident list \<Rightarrow> delegator_state" where
  "stateOf db now mode i trail =
     (case agentRow db i of
        None \<Rightarrow> Live
      | Some row \<Rightarrow>
          if ag_status row = RowExpired then ExpiredD
          else if ag_status row \<noteq> RowActive then RevokedD
          else if past_expiry (ag_expiresAt row) now then ExpiredD
          else if i \<in> set trail \<or> max_walk \<le> length trail then RevokedD
          else
            let inbound = inboundRows db now i
            in if inbound = [] then
                 (let past = anyInboundRows db i
                  in if past = [] then Live
                     else if list_ex (\<lambda>c. ch_status c = RowRevoked) past then RevokedD else ExpiredD)
               else first_live
                      (map (\<lambda>link. link_state_of db now mode link
                                     (stateOf db now mode (ch_from link) (i # trail))) inbound))"
  by pat_completeness auto
termination
  by (relation "measure (\<lambda>(db, now, mode, i, trail). max_walk - length trail)") auto

declare stateOf.simps [simp del]

definition stateOfLink ::
  "deleg_db \<Rightarrow> time \<Rightarrow> resource_matching \<Rightarrow> chain_row \<Rightarrow> ident list \<Rightarrow> delegator_state" where
  "stateOfLink db now mode link trail =
     link_state_of db now mode link (stateOf db now mode (ch_from link) trail)"

definition linkState :: "deleg_db \<Rightarrow> time \<Rightarrow> resource_matching \<Rightarrow> chain_row \<Rightarrow> delegator_state" where
  "linkState db now mode link = stateOfLink db now mode link [ch_to link]"

definition delegatorState :: "deleg_db \<Rightarrow> time \<Rightarrow> resource_matching \<Rightarrow> ident \<Rightarrow> delegator_state" where
  "delegatorState db now mode agentId = stateOf db now mode agentId []"

definition liveInboundRows :: "deleg_db \<Rightarrow> time \<Rightarrow> resource_matching \<Rightarrow> ident \<Rightarrow> chain_row list" where
  "liveInboundRows db now mode agentId =
     filter (\<lambda>row. stateOfLink db now mode row [agentId] = Live) (inboundRows db now agentId)"

definition getDelegatedPermissions ::
  "deleg_db \<Rightarrow> time \<Rightarrow> resource_matching \<Rightarrow> ident \<Rightarrow> permission list" where
  "getDelegatedPermissions db now mode agentId =
     concat (map ch_permissions (liveInboundRows db now mode agentId))"

section \<open>Lineage\<close>

text \<open>\<open>loadInboundGrants\<close>: oldest first, always with colon matching.\<close>

definition loadInboundGrants :: "deleg_db \<Rightarrow> time \<Rightarrow> ident \<Rightarrow> chain_row list" where
  "loadInboundGrants db now agentId = sort_key ch_createdAt (liveInboundRows db now Colon agentId)"

record lineage =
  ln_rootOwnerId :: "ident option"
  ln_path :: "ident list"
  ln_hops :: "chain_row list"

text \<open>The walk upwards: \<open>fuel\<close> counts the rounds left of the loop.\<close>

fun lineage_walk ::
  "deleg_db \<Rightarrow> time \<Rightarrow> nat \<Rightarrow> ident \<Rightarrow> ident list \<Rightarrow> chain_row list \<Rightarrow> ident \<times> ident list \<times> chain_row list"
where
  "lineage_walk db now 0 current path hops = (current, path, hops)"
| "lineage_walk db now (Suc fuel) current path hops =
     (case List.find (\<lambda>l. ch_from l \<notin> set path) (loadInboundGrants db now current) of
        None \<Rightarrow> (current, path, hops)
      | Some next \<Rightarrow>
          lineage_walk db now fuel (ch_from next) (ch_from next # path) (next # hops))"

definition resolveLineage :: "deleg_db \<Rightarrow> time \<Rightarrow> ident \<Rightarrow> lineage" where
  "resolveLineage db now agentId =
     (case lineage_walk db now max_walk agentId [agentId] [] of
        (current, path, hops) \<Rightarrow>
          \<lparr>ln_rootOwnerId = map_option ag_ownerId (agentRow db current), ln_path = path,
           ln_hops = hops\<rparr>)"

record hook_chain =
  hc_rootOwnerId :: "ident option"
  hc_path :: "ident list"
  hc_links :: "chain_row list"
  hc_inbound :: "chain_row list"

text \<open>\<open>resolveHookChain\<close> reads the clock a second time for the inbound grants.\<close>

definition resolveHookChain :: "deleg_db \<Rightarrow> time \<Rightarrow> time \<Rightarrow> ident \<Rightarrow> hook_chain" where
  "resolveHookChain db now later agentId =
     (let l = resolveLineage db now agentId
      in \<lparr>hc_rootOwnerId = ln_rootOwnerId l, hc_path = ln_path l, hc_links = ln_hops l,
          hc_inbound = loadInboundGrants db later agentId\<rparr>)"

section \<open>Creating a link\<close>

record delegate_input =
  di_fromAgent :: ident
  di_toAgent :: ident
  di_permissions :: "permission list"
  di_expiresAt :: "time option"
  di_maxDepth :: "int option"

datatype delegation_error =
  InvalidExpiresAt | PermissionSubset | DepthExceeded int int | ParentRevoked | ChainNotFound | OutOfFuel

text \<open>What the reads before the insert decide.\<close>

record delegate_plan =
  dp_row :: chain_row
  dp_inbound :: "chain_row list"
  dp_ownCovers :: bool

definition parent_permissions ::
  "deleg_db \<Rightarrow> time \<Rightarrow> resource_matching \<Rightarrow> ident \<Rightarrow> permission list" where
  "parent_permissions db now mode i =
     ownPermissions db i @ concat (map ch_permissions (liveInboundRows db now mode i))"

definition delegate_read ::
  "deleg_db \<Rightarrow> time \<Rightarrow> resource_matching \<Rightarrow> ident \<Rightarrow> delegate_input
     \<Rightarrow> delegation_error + delegate_plan" where
  "delegate_read db now mode i input =
     (case di_expiresAt input of
        None \<Rightarrow> Inl InvalidExpiresAt
      | Some asked \<Rightarrow>
          let own = ownPermissions db (di_fromAgent input);
              inbound = liveInboundRows db now mode (di_fromAgent input);
              inboundPermissions = concat (map ch_permissions inbound)
          in if \<not> isPermissionSubset (own @ inboundPermissions) (di_permissions input) mode
             then Inl PermissionSubset
             else
               let ownCovers = isPermissionSubset own (di_permissions input) mode;
                   expiresAt =
                     (if inbound \<noteq> [] \<and> \<not> ownCovers then
                        min asked (Min (set (map ch_expiresAt inbound)))
                      else asked);
                   currentDepth =
                     (if inbound \<noteq> [] then fold max (map ch_depth inbound) 0 + 1 else 1);
                   maxDepth =
                     fold min (map ch_maxDepth inbound)
                       (case di_maxDepth input of Some d \<Rightarrow> d | None \<Rightarrow> 3)
               in if maxDepth < currentDepth then Inl (DepthExceeded currentDepth maxDepth)
                  else Inr
                    \<lparr>dp_row =
                       \<lparr>ch_id = i, ch_from = di_fromAgent input, ch_to = di_toAgent input,
                        ch_permissions =
                          inheritConstraints (own @ inboundPermissions) (di_permissions input) mode,
                        ch_depth = currentDepth, ch_maxDepth = maxDepth, ch_status = RowActive,
                        ch_expiresAt = expiresAt, ch_createdAt = now\<rparr>,
                     dp_inbound = inbound, dp_ownCovers = ownCovers\<rparr>)"

definition add_chain :: "chain_row \<Rightarrow> deleg_db \<Rightarrow> deleg_db" where
  "add_chain row db = db\<lparr>dd_chains := dd_chains db @ [row]\<rparr>"

definition add_audit :: "delegation_audit \<Rightarrow> deleg_db \<Rightarrow> deleg_db" where
  "add_audit e db = db\<lparr>dd_audit := dd_audit db @ [e]\<rparr>"

text \<open>The check after the insert: was every inbound link revoked meanwhile?\<close>

definition delegate_recheck ::
  "delegate_plan \<Rightarrow> deleg_db \<Rightarrow> (delegation_error + chain_row) \<times> deleg_db" where
  "delegate_recheck plan db =
     (let row = dp_row plan;
          liveIds = map ch_id (filter (\<lambda>c. ch_to c = ch_from row \<and> ch_status c = RowActive) (dd_chains db))
      in if dp_inbound plan \<noteq> [] \<and> \<not> dp_ownCovers plan
            \<and> \<not> list_ex (\<lambda>c. ch_id c \<in> set liveIds) (dp_inbound plan)
         then (Inl ParentRevoked, db\<lparr>dd_chains := delete_where (\<lambda>c. ch_id c = ch_id row) (dd_chains db)\<rparr>)
         else (Inr row, add_audit (CreatedA (ch_id row) (ch_from row) (ch_to row)) db))"

text \<open>
  \<open>delegate\<close>: \<open>e1\<close> is what other callers do between the reads and the insert, \<open>e2\<close> what they do
  between the insert and the check.
\<close>

definition delegate ::
  "(deleg_db \<Rightarrow> deleg_db) \<Rightarrow> (deleg_db \<Rightarrow> deleg_db) \<Rightarrow> time \<Rightarrow> resource_matching \<Rightarrow> ident
     \<Rightarrow> delegate_input \<Rightarrow> deleg_db \<Rightarrow> (delegation_error + chain_row) \<times> deleg_db" where
  "delegate e1 e2 now mode i input db =
     (case delegate_read db now mode i input of
        Inl err \<Rightarrow> (Inl err, db)
      | Inr plan \<Rightarrow> delegate_recheck plan (e2 (add_chain (dp_row plan) (e1 db))))"

section \<open>Revoking links\<close>

definition chain_by_id :: "deleg_db \<Rightarrow> ident \<Rightarrow> chain_row option" where
  "chain_by_id db i = List.find (\<lambda>c. ch_id c = i) (dd_chains db)"

definition revokeAuditExists :: "deleg_db \<Rightarrow> ident \<Rightarrow> bool" where
  "revokeAuditExists db i =
     list_ex (\<lambda>e. case e of RevokedA c _ _ _ \<Rightarrow> c = i | _ \<Rightarrow> False) (dd_audit db)"

definition set_revoked :: "ident \<Rightarrow> deleg_db \<Rightarrow> deleg_db" where
  "set_revoked i db =
     db\<lparr>dd_chains := update_where (\<lambda>c. ch_id c = i) (ch_status_update (\<lambda>_. RowRevoked)) (dd_chains db)\<rparr>"

definition child_chains :: "deleg_db \<Rightarrow> chain_row \<Rightarrow> chain_row list" where
  "child_chains db c = filter (\<lambda>d. ch_from d = ch_to c \<and> ch_status d = RowActive) (dd_chains db)"

text \<open>
  \<open>revokeLink\<close> with its loop over the children. Each call spends one unit of fuel;
  \<open>revoke_fuel\<close> is always enough.
\<close>

fun revokeLink ::
    "nat \<Rightarrow> ident option \<Rightarrow> ident \<Rightarrow> ident option \<Rightarrow> ident \<Rightarrow> deleg_db
       \<Rightarrow> (delegation_error + ident list) \<times> deleg_db"
  and revoke_children ::
    "nat \<Rightarrow> ident option \<Rightarrow> ident \<Rightarrow> ident \<Rightarrow> chain_row list \<Rightarrow> deleg_db
       \<Rightarrow> (delegation_error + ident list) \<times> deleg_db"
where
  "revokeLink 0 revokedBy root parent chainId db = (Inl OutOfFuel, db)"
| "revokeLink (Suc fuel) revokedBy root parent chainId db =
     (case chain_by_id db chainId of
        None \<Rightarrow> (Inl ChainNotFound, db)
      | Some chain \<Rightarrow>
          let wasActive = (ch_status chain = RowActive);
              db1 = (if wasActive \<and> \<not> revokeAuditExists db chainId
                     then add_audit (RevokedA chainId revokedBy parent root) db else db);
              db2 = set_revoked chainId db1
          in (case revoke_children fuel revokedBy root chainId (child_chains db2 chain) db2 of
                (Inl err, db3) \<Rightarrow> (Inl err, db3)
              | (Inr ids, db3) \<Rightarrow> (Inr ((if wasActive then [chainId] else []) @ ids), db3)))"
| "revoke_children fuel revokedBy root parent [] db = (Inr [], db)"
| "revoke_children fuel revokedBy root parent (child # children) db =
     (case revokeLink fuel revokedBy root (Some parent) (ch_id child) db of
        (Inl err, db1) \<Rightarrow> (Inl err, db1)
      | (Inr ids, db1) \<Rightarrow>
          (case revoke_children fuel revokedBy root parent children db1 of
             (Inl err, db2) \<Rightarrow> (Inl err, db2)
           | (Inr ids', db2) \<Rightarrow> (Inr (ids @ ids'), db2)))"

definition active_count :: "deleg_db \<Rightarrow> nat" where
  "active_count db = count_where (\<lambda>c. ch_status c = RowActive) (dd_chains db)"

definition revoke_fuel :: "deleg_db \<Rightarrow> nat" where
  "revoke_fuel db = 2 * active_count db + 2"

definition revokeDelegation ::
  "ident \<Rightarrow> ident option \<Rightarrow> deleg_db \<Rightarrow> (delegation_error + ident list) \<times> deleg_db" where
  "revokeDelegation chainId revokedBy db =
     revokeLink (revoke_fuel db) revokedBy chainId None chainId db"

fun revoke_rows ::
  "chain_row list \<Rightarrow> ident option \<Rightarrow> deleg_db \<Rightarrow> (delegation_error + ident list) \<times> deleg_db" where
  "revoke_rows [] revokedBy db = (Inr [], db)"
| "revoke_rows (row # rows) revokedBy db =
     (if map_option ch_status (chain_by_id db (ch_id row)) = Some RowExpired
      then revoke_rows rows revokedBy db
      else (case revokeDelegation (ch_id row) revokedBy db of
              (Inl err, db1) \<Rightarrow> (Inl err, db1)
            | (Inr ids, db1) \<Rightarrow>
                (case revoke_rows rows revokedBy db1 of
                   (Inl err, db2) \<Rightarrow> (Inl err, db2)
                 | (Inr ids', db2) \<Rightarrow> (Inr (ids @ ids'), db2))))"

definition revokeAllForAgent ::
  "ident \<Rightarrow> ident option \<Rightarrow> deleg_db \<Rightarrow> (delegation_error + ident list) \<times> deleg_db" where
  "revokeAllForAgent agentId revokedBy db =
     revoke_rows
       (filter (\<lambda>c. ch_status c \<in> {RowActive, RowRevoked} \<and> (ch_from c = agentId \<or> ch_to c = agentId))
          (dd_chains db))
       revokedBy db"

definition listChains :: "deleg_db \<Rightarrow> ident \<Rightarrow> chain_row list" where
  "listChains db agentId = filter (\<lambda>c. ch_from c = agentId) (dd_chains db)"

section \<open>Authority is grounded\<close>

definition standing :: "deleg_db \<Rightarrow> time \<Rightarrow> ident \<Rightarrow> bool" where
  "standing db now i \<longleftrightarrow>
     (\<exists>row. agentRow db i = Some row \<and> ag_status row = RowActive \<and> \<not> past_expiry (ag_expiresAt row) now)"

definition covers_link :: "deleg_db \<Rightarrow> resource_matching \<Rightarrow> chain_row \<Rightarrow> bool" where
  "covers_link db mode link \<longleftrightarrow>
     isPermissionSubset (ownPermissions db (ch_from link)) (ch_permissions link) mode"

text \<open>
  The specification: authority comes from a principal without an agent row, from an active agent
  that never received a link, or to an active agent over an active unexpired link whose
  delegator has authority itself or is active and holds the permissions of the link directly.
\<close>

inductive grounded :: "deleg_db \<Rightarrow> time \<Rightarrow> resource_matching \<Rightarrow> ident \<Rightarrow> bool"
  for db :: deleg_db and now :: time and mode :: resource_matching where
  ground_root: "agentRow db i = None \<Longrightarrow> grounded db now mode i"
| ground_self: "standing db now i \<Longrightarrow> anyInboundRows db i = [] \<Longrightarrow> grounded db now mode i"
| ground_link: "standing db now i \<Longrightarrow> link \<in> set (inboundRows db now i) \<Longrightarrow>
    grounded db now mode (ch_from link) \<Longrightarrow> grounded db now mode i"
| ground_own: "standing db now i \<Longrightarrow> link \<in> set (inboundRows db now i) \<Longrightarrow>
    standing db now (ch_from link) \<Longrightarrow> covers_link db mode link \<Longrightarrow> grounded db now mode i"

inductive_cases groundedE: "grounded db now mode i"

lemma first_live_Live: "states \<noteq> [] \<Longrightarrow> first_live states = Live \<longleftrightarrow> Live \<in> set states"
  by (cases states) (auto simp: first_live_def)

lemma link_state_of_Live:
  "link_state_of db now mode link s = Live \<longleftrightarrow>
     s = Live \<or> standing db now (ch_from link) \<and> covers_link db mode link"
  by (auto simp: link_state_of_def standing_def covers_link_def split: option.splits)

lemma stateOf_grounded: "stateOf db now mode i trail = Live \<Longrightarrow> grounded db now mode i"
proof (induction db now mode i trail rule: stateOf.induct)
  case (1 db now mode i trail)
  show ?case
  proof (cases "agentRow db i")
    case None
    then show ?thesis by (rule ground_root)
  next
    case (Some row)
    let ?inb = "inboundRows db now i"
    from Some "1.prems" have row: "ag_status row = RowActive" "\<not> past_expiry (ag_expiresAt row) now"
      "\<not> (i \<in> set trail \<or> max_walk \<le> length trail)"
      by (auto simp: stateOf.simps [of db now mode i trail] split: if_splits)
    then have st: "standing db now i" using Some by (simp add: standing_def)
    show ?thesis
    proof (cases "?inb = []")
      case True
      with Some row "1.prems" have "anyInboundRows db i = []"
        by (auto simp: stateOf.simps [of db now mode i trail] Let_def split: if_splits)
      with st show ?thesis by (rule ground_self)
    next
      case False
      with Some row "1.prems" obtain link where l: "link \<in> set ?inb"
        "link_state_of db now mode link (stateOf db now mode (ch_from link) (i # trail)) = Live"
        by (auto simp: stateOf.simps [of db now mode i trail] Let_def first_live_Live)
      from l(2) show ?thesis
        unfolding link_state_of_Live
      proof (elim disjE conjE)
        assume "stateOf db now mode (ch_from link) (i # trail) = Live"
        with "1.IH" Some row False l(1) have "grounded db now mode (ch_from link)" by simp
        with st l(1) show ?thesis by (rule ground_link)
      next
        assume "standing db now (ch_from link)" "covers_link db mode link"
        with st l(1) show ?thesis by (rule ground_own)
      qed
    qed
  qed
qed

lemma live_rows_grounded:
  assumes "link \<in> set (liveInboundRows db now mode i)"
  shows "ch_to link = i \<and> ch_status link = RowActive \<and> now < ch_expiresAt link
    \<and> (grounded db now mode (ch_from link)
        \<or> standing db now (ch_from link) \<and> covers_link db mode link)
    \<and> (agentRow db (ch_from link) \<noteq> None \<longrightarrow> standing db now (ch_from link))"
proof -
  from assms have l: "ch_to link = i" "ch_status link = RowActive" "now < ch_expiresAt link"
    and s: "stateOfLink db now mode link [i] = Live"
    by (auto simp: liveInboundRows_def inboundRows_def anyInboundRows_def)
  from s have g: "grounded db now mode (ch_from link)
      \<or> standing db now (ch_from link) \<and> covers_link db mode link"
    using stateOf_grounded by (auto simp: stateOfLink_def link_state_of_Live)
  moreover have "grounded db now mode (ch_from link) \<Longrightarrow> agentRow db (ch_from link) \<noteq> None \<Longrightarrow>
      standing db now (ch_from link)"
    by (erule groundedE) auto
  ultimately show ?thesis using l by blast
qed

text \<open>
  C21: every link that counts traces back to live authority. A link that \<open>loadLiveInboundRows\<close>
  returns is active and unexpired, and its delegator is grounded or active with rows of its own
  that cover the link. In particular a revoked or expired agent delegator lends nothing.
\<close>

theorem liveInboundRows_grounded:
  assumes "link \<in> set (liveInboundRows db now mode i)"
  shows "ch_to link = i \<and> ch_status link = RowActive \<and> now < ch_expiresAt link
    \<and> (grounded db now mode (ch_from link)
        \<or> standing db now (ch_from link) \<and> covers_link db mode link)
    \<and> (agentRow db (ch_from link) \<noteq> None \<longrightarrow> standing db now (ch_from link))"
  using assms by (rule live_rows_grounded)

definition sample_agent :: "ident \<Rightarrow> row_status \<Rightarrow> agent_row" where
  "sample_agent i st = \<lparr>ag_id = i, ag_ownerId = ''owner'', ag_status = st, ag_expiresAt = None\<rparr>"

definition sample_chain :: "ident \<Rightarrow> ident \<Rightarrow> ident \<Rightarrow> string \<Rightarrow> chain_row" where
  "sample_chain i from to r =
     \<lparr>ch_id = i, ch_from = from, ch_to = to, ch_permissions = [perm r [''read'']], ch_depth = 1,
      ch_maxDepth = 3, ch_status = RowActive, ch_expiresAt = 1000, ch_createdAt = 0\<rparr>"

theorem liveInboundRows_grounded_witness:
  "standing \<lparr>dd_agents = [sample_agent ''m'' RowActive], dd_permissions = [],
             dd_chains = [sample_chain ''c1'' ''m'' ''a'' ''x''], dd_audit = []\<rparr> 5 ''m''"
proof -
  let ?db = "\<lparr>dd_agents = [sample_agent ''m'' RowActive], dd_permissions = [],
              dd_chains = [sample_chain ''c1'' ''m'' ''a'' ''x''], dd_audit = []\<rparr>"
  have "sample_chain ''c1'' ''m'' ''a'' ''x'' \<in> set (liveInboundRows ?db 5 Colon ''a'')"
    by (simp add: liveInboundRows_def inboundRows_def anyInboundRows_def stateOfLink_def
        link_state_of_def stateOf.simps agentRow_def sample_agent_def sample_chain_def
        past_expiry_def max_walk_def)
  from liveInboundRows_grounded [OF this] show ?thesis
    by (simp add: agentRow_def sample_agent_def sample_chain_def)
qed

text \<open>
  Liveness is judged per agent, not per permission. Agent \<open>m\<close> holds \<open>x\<close> from the live
  \<open>r1\<close> and held \<open>y\<close> from \<open>r2\<close>, which is revoked, and has passed \<open>y\<close> on to \<open>c\<close>. The store no
  longer gives \<open>y\<close> to \<open>m\<close>, but still gives it to \<open>c\<close>.
\<close>

theorem child_keeps_what_the_delegator_lost:
  "let db = \<lparr>dd_agents = [sample_agent ''r1'' RowActive, sample_agent ''r2'' RowRevoked,
                          sample_agent ''m'' RowActive, sample_agent ''c'' RowActive],
             dd_permissions = [],
             dd_chains = [sample_chain ''c1'' ''r1'' ''m'' ''x'', sample_chain ''c2'' ''r2'' ''m'' ''y'',
                          sample_chain ''c3'' ''m'' ''c'' ''y''],
             dd_audit = []\<rparr>
   in getDelegatedPermissions db 5 Colon ''m'' = [perm ''x'' [''read'']]
      \<and> getDelegatedPermissions db 5 Colon ''c'' = [perm ''y'' [''read'']]"
proof -
  let ?db = "\<lparr>dd_agents = [sample_agent ''r1'' RowActive, sample_agent ''r2'' RowRevoked,
                          sample_agent ''m'' RowActive, sample_agent ''c'' RowActive],
             dd_permissions = [],
             dd_chains = [sample_chain ''c1'' ''r1'' ''m'' ''x'', sample_chain ''c2'' ''r2'' ''m'' ''y'',
                          sample_chain ''c3'' ''m'' ''c'' ''y''],
             dd_audit = []\<rparr>"
  have s1: "stateOf ?db 5 Colon ''r1'' [''m''] = Live"
    "stateOf ?db 5 Colon ''r1'' [''m'', ''c''] = Live"
    by (simp_all add: stateOf.simps agentRow_def sample_agent_def past_expiry_def max_walk_def
        inboundRows_def anyInboundRows_def sample_chain_def)
  have s2: "stateOf ?db 5 Colon ''r2'' trail = RevokedD" for trail
    by (simp add: stateOf.simps agentRow_def sample_agent_def)
  have i: "inboundRows ?db 5 ''m'' = [sample_chain ''c1'' ''r1'' ''m'' ''x'', sample_chain ''c2'' ''r2'' ''m'' ''y'']"
    "inboundRows ?db 5 ''c'' = [sample_chain ''c3'' ''m'' ''c'' ''y'']"
    by (simp_all add: inboundRows_def anyInboundRows_def sample_chain_def)
  have f: "ch_from (sample_chain a b c d) = b" "ch_permissions (sample_chain a b c d) = [perm d [''read'']]"
    for a b c d by (simp_all add: sample_chain_def)
  have r2: "agentRow ?db ''r2'' = Some (sample_agent ''r2'' RowRevoked)"
    and m: "agentRow ?db ''m'' = Some (sample_agent ''m'' RowActive)"
    by (simp_all add: agentRow_def sample_agent_def)
  have ag: "ag_status (sample_agent j st) = st" "ag_expiresAt (sample_agent j st) = None" for j st
    by (simp_all add: sample_agent_def)
  have sm: "stateOf ?db 5 Colon ''m'' [''c''] = Live"
    unfolding stateOf.simps [of ?db 5 Colon "''m''"] m option.case ag i
    by (simp add: f s1 link_state_of_def first_live_def past_expiry_def max_walk_def)
  show ?thesis
    unfolding Let_def getDelegatedPermissions_def liveInboundRows_def i
    by (simp add: stateOfLink_def f s1 s2 sm link_state_of_def r2 ag)
qed

section \<open>New links stay within their authority\<close>

lemma fold_max_bounds: "\<forall>n\<in>set ns. n \<le> fold max ns (a :: int)" "a \<le> fold max ns a"
proof -
  have "a \<le> fold max ns a \<and> (\<forall>n\<in>set ns. n \<le> fold max ns a)"
  proof (induction ns arbitrary: a)
    case (Cons n ns)
    from Cons [of "max n a"] show ?case by auto
  qed simp
  then show "\<forall>n\<in>set ns. n \<le> fold max ns a" "a \<le> fold max ns a" by auto
qed

lemma fold_min_bounds: "\<forall>n\<in>set ns. fold min ns (a :: int) \<le> n" "fold min ns a \<le> a"
proof -
  have "fold min ns a \<le> a \<and> (\<forall>n\<in>set ns. fold min ns a \<le> n)"
  proof (induction ns arbitrary: a)
    case (Cons n ns)
    from Cons [of "min n a"] show ?case by auto
  qed simp
  then show "\<forall>n\<in>set ns. fold min ns a \<le> n" "fold min ns a \<le> a" by auto
qed

lemma delegate_read_InrD:
  assumes "delegate_read db now mode i input = Inr plan"
  defines "inbound \<equiv> liveInboundRows db now mode (di_fromAgent input)"
    and "own \<equiv> ownPermissions db (di_fromAgent input)"
  obtains asked where "di_expiresAt input = Some asked"
    "isPermissionSubset (own @ concat (map ch_permissions inbound)) (di_permissions input) mode"
    "dp_inbound plan = inbound" "dp_ownCovers plan = isPermissionSubset own (di_permissions input) mode"
    "ch_permissions (dp_row plan) =
       inheritConstraints (own @ concat (map ch_permissions inbound)) (di_permissions input) mode"
    "ch_depth (dp_row plan) = (if inbound \<noteq> [] then fold max (map ch_depth inbound) 0 + 1 else 1)"
    "ch_maxDepth (dp_row plan) = fold min (map ch_maxDepth inbound)
       (case di_maxDepth input of Some d \<Rightarrow> d | None \<Rightarrow> 3)"
    "ch_depth (dp_row plan) \<le> ch_maxDepth (dp_row plan)"
    "ch_expiresAt (dp_row plan) =
       (if inbound \<noteq> [] \<and> \<not> dp_ownCovers plan then min asked (Min (set (map ch_expiresAt inbound)))
        else asked)"
    "ch_id (dp_row plan) = i" "ch_from (dp_row plan) = di_fromAgent input"
    "ch_to (dp_row plan) = di_toAgent input" "ch_status (dp_row plan) = RowActive"
  using assms(1) that
  by (auto simp: delegate_read_def inbound_def own_def Let_def not_less
      split: option.splits if_split_asm)

lemma delegate_InrD:
  assumes "delegate e1 e2 now mode i input db = (Inr row, db')"
  obtains plan where "delegate_read db now mode i input = Inr plan" "row = dp_row plan"
    "db' = add_audit (CreatedA (ch_id row) (ch_from row) (ch_to row)) (e2 (add_chain row (e1 db)))"
  using assms that
  by (auto simp: delegate_def delegate_recheck_def Let_def split: sum.splits if_split_asm)

text \<open>
  A new link stays within the limits it was derived from, whatever other callers do while it
  is created. It is deeper than every live inbound link of its delegator, within its own and all
  inherited depth limits, does not outlive what was asked for, and, unless the delegator's own
  rows cover the request, does not outlive any of the live inbound links.
\<close>

theorem delegate_within_limits:
  assumes "delegate e1 e2 now mode i input db = (Inr row, db')"
  shows "1 \<le> ch_depth row \<and> ch_depth row \<le> ch_maxDepth row
    \<and> (\<exists>asked. di_expiresAt input = Some asked \<and> ch_expiresAt row \<le> asked)
    \<and> (\<forall>c\<in>set (liveInboundRows db now mode (di_fromAgent input)).
         ch_depth c < ch_depth row \<and> ch_maxDepth row \<le> ch_maxDepth c
         \<and> (isPermissionSubset (ownPermissions db (di_fromAgent input)) (di_permissions input) mode
            \<or> ch_expiresAt row \<le> ch_expiresAt c))"
proof -
  let ?in = "liveInboundRows db now mode (di_fromAgent input)"
  from assms obtain plan where p: "delegate_read db now mode i input = Inr plan" "row = dp_row plan"
    by (rule delegate_InrD)
  from p(1) obtain asked where a: "di_expiresAt input = Some asked"
    "dp_ownCovers plan = isPermissionSubset (ownPermissions db (di_fromAgent input)) (di_permissions input) mode"
    and d: "ch_depth row = (if ?in \<noteq> [] then fold max (map ch_depth ?in) 0 + 1 else 1)"
    and m: "ch_maxDepth row = fold min (map ch_maxDepth ?in)
       (case di_maxDepth input of Some d \<Rightarrow> d | None \<Rightarrow> 3)"
    and le: "ch_depth row \<le> ch_maxDepth row"
    and e: "ch_expiresAt row =
       (if ?in \<noteq> [] \<and> \<not> dp_ownCovers plan then min asked (Min (set (map ch_expiresAt ?in))) else asked)"
    unfolding p(2) [symmetric] by (rule delegate_read_InrD) (simp add: p(2))
  have "1 \<le> ch_depth row" using fold_max_bounds(2) [where ns = "map ch_depth ?in" and a = 0] by (simp add: d)
  moreover have "ch_expiresAt row \<le> asked" by (simp add: e)
  moreover have "ch_depth c < ch_depth row \<and> ch_maxDepth row \<le> ch_maxDepth c
      \<and> (dp_ownCovers plan \<or> ch_expiresAt row \<le> ch_expiresAt c)" if c: "c \<in> set ?in" for c
  proof -
    have ne: "?in \<noteq> []" using c by auto
    have "ch_depth c < ch_depth row"
      using fold_max_bounds(1) [where ns = "map ch_depth ?in" and a = 0] c ne by (auto simp: d)
    moreover have "ch_maxDepth row \<le> ch_maxDepth c"
      using fold_min_bounds(1) [where ns = "map ch_maxDepth ?in"] c by (auto simp: m)
    moreover have "Min (set (map ch_expiresAt ?in)) \<le> ch_expiresAt c"
      using c by (intro Min_le) auto
    ultimately show ?thesis using ne by (auto simp: e)
  qed
  ultimately show ?thesis using a le by auto
qed

definition sample_db :: deleg_db where
  "sample_db =
     \<lparr>dd_agents = [], dd_permissions = [\<lparr>pr_agentId = ''m'', pr_permission = perm ''x:*'' [''read'']\<rparr>],
      dd_chains = [], dd_audit = []\<rparr>"

definition sample_input :: delegate_input where
  "sample_input =
     \<lparr>di_fromAgent = ''m'', di_toAgent = ''c'', di_permissions = [perm ''x:a'' [''read'']],
      di_expiresAt = Some 900, di_maxDepth = None\<rparr>"

lemma sample_delegate: "\<exists>row db'. delegate id id 5 Colon ''c1'' sample_input sample_db = (Inr row, db')"
proof -
  have own: "ownPermissions sample_db ''m'' = [perm ''x:*'' [''read'']]"
    by (simp add: ownPermissions_def sample_db_def perm_def)
  have inb: "liveInboundRows sample_db 5 Colon ''m'' = []"
    by (simp add: liveInboundRows_def inboundRows_def anyInboundRows_def sample_db_def)
  have sub: "isPermissionSubset [perm ''x:*'' [''read'']] [perm ''x:a'' [''read'']] Colon"
    by (simp add: isPermissionSubset_def covers_permission_def isResourceSubset_def perm_def
        matchResource_def colon_seg_match)
  show ?thesis
    by (simp add: delegate_def delegate_read_def sample_input_def own inb sub delegate_recheck_def
        Let_def)
qed

theorem delegate_within_limits_witness:
  "\<exists>row db'. delegate id id 5 Colon ''c1'' sample_input sample_db = (Inr row, db')
     \<and> ch_depth row \<le> ch_maxDepth row"
  using sample_delegate delegate_within_limits by blast

lemma inherit_grants:
  assumes "g \<in> set (inheritConstraints parents requested mode)" and "grants m action resource g"
  shows "\<exists>child\<in>set requested. grants m action resource child"
proof -
  have "\<exists>child\<in>set requested. pm_resource child = pm_resource g \<and> a \<in> set (pm_actions child)"
    if "a \<in> set (pm_actions g)" for a
    using inherit_iff [of parents requested mode "pm_resource g" a "pm_constraints g"] assms(1) that
    by blast
  with assms(2) show ?thesis by (auto simp: grants_def matchAction_def) metis+
qed

text \<open>
  C6: no privilege escalation through delegation, in colon mode. Whatever a created link grants,
  the delegator held, by its own rows or by live links to it, when the link was created.
\<close>

theorem delegate_no_escalation:
  assumes "delegate e1 e2 now Colon i input db = (Inr row, db')"
    and "findMatchingPermission (ch_permissions row) action resource Colon \<noteq> None"
  shows "findMatchingPermission (parent_permissions db now Colon (di_fromAgent input)) action resource Colon
    \<noteq> None"
proof -
  from assms(1) obtain plan where p: "delegate_read db now Colon i input = Inr plan" "row = dp_row plan"
    by (rule delegate_InrD)
  from p(1) have sub: "isPermissionSubset (parent_permissions db now Colon (di_fromAgent input))
      (di_permissions input) Colon"
    and r: "ch_permissions row =
      inheritConstraints (parent_permissions db now Colon (di_fromAgent input)) (di_permissions input) Colon"
    unfolding p(2) parent_permissions_def by (auto elim: delegate_read_InrD)
  from assms(2) obtain g where "g \<in> set (ch_permissions row)" "grants Colon action resource g"
    by (auto simp: findMatchingPermission_None_iff)
  then obtain child where "child \<in> set (di_permissions input)" "grants Colon action resource child"
    using inherit_grants unfolding r by blast
  with sub obtain p where "p \<in> set (parent_permissions db now Colon (di_fromAgent input))"
    "grants Colon action resource p"
    using covers_grants unfolding isPermissionSubset_iff by blast
  then show ?thesis by (auto simp: findMatchingPermission_None_iff)
qed

theorem delegate_no_escalation_witness:
  "findMatchingPermission (parent_permissions sample_db 5 Colon ''m'') ''read'' ''x:a'' Colon \<noteq> None"
proof -
  obtain row db' where d: "delegate id id 5 Colon ''c1'' sample_input sample_db = (Inr row, db')"
    using sample_delegate by blast
  then obtain plan where p: "delegate_read sample_db 5 Colon ''c1'' sample_input = Inr plan" "row = dp_row plan"
    by (rule delegate_InrD)
  from p(1) have "ch_permissions row = inheritConstraints
      (ownPermissions sample_db ''m'' @ concat (map ch_permissions (liveInboundRows sample_db 5 Colon ''m'')))
      [perm ''x:a'' [''read'']] Colon"
    unfolding p(2) by (rule delegate_read_InrD) (simp add: sample_input_def)
  moreover have "\<exists>g\<in>set (inheritConstraints P [perm ''x:a'' [''read'']] Colon).
      pm_resource g = ''x:a'' \<and> ''read'' \<in> set (pm_actions g)
      \<and> pm_constraints g = inherited P (perm ''x:a'' [''read'']) Colon ''read''" for P
    by (rule inherit_iff [THEN iffD2]) (simp add: perm_def)
  ultimately have "\<exists>g\<in>set (ch_permissions row). pm_resource g = ''x:a'' \<and> ''read'' \<in> set (pm_actions g)"
    by metis
  then obtain g where "g \<in> set (ch_permissions row)" "grants Colon ''read'' ''x:a'' g"
    using colon.accepts_refl [of "''x:a''"]
    by (auto simp: grants_def matchAction_def matchResource_def)
  then have "findMatchingPermission (ch_permissions row) ''read'' ''x:a'' Colon \<noteq> None"
    by (auto simp: findMatchingPermission_None_iff)
  from delegate_no_escalation [OF d this] show ?thesis by (simp add: sample_input_def)
qed

section \<open>The cascade of a revocation\<close>

lemma chain_by_id_SomeD: "chain_by_id db i = Some c \<Longrightarrow> c \<in> set (dd_chains db) \<and> ch_id c = i"
  unfolding chain_by_id_def by (drule find_SomeD) simp

lemma chain_by_id_None: "chain_by_id db i = None \<longleftrightarrow> (\<forall>c\<in>set (dd_chains db). ch_id c \<noteq> i)"
  by (auto simp: chain_by_id_def find_None_iff)

lemma dd_chains_add_audit [simp]: "dd_chains (add_audit e db) = dd_chains db"
  by (simp add: add_audit_def)

text \<open>What a revocation may do to the table: turn links revoked, and nothing else.\<close>

definition only_revokes :: "chain_row list \<Rightarrow> chain_row list \<Rightarrow> bool" where
  "only_revokes cs cs' \<longleftrightarrow>
     list_all2 (\<lambda>c c'. c' = c \<or> c' = c\<lparr>ch_status := RowRevoked\<rparr>) cs cs'"

lemma only_revokes_refl [simp]: "only_revokes cs cs"
  by (simp add: only_revokes_def list_all2_same)

lemma only_revokes_trans: "only_revokes cs ds \<Longrightarrow> only_revokes ds es \<Longrightarrow> only_revokes cs es"
  unfolding only_revokes_def by (rule list_all2_trans) auto

lemma only_revokes_set_revoked: "only_revokes (dd_chains db) (dd_chains (set_revoked i db))"
proof -
  have "only_revokes cs (update_where (\<lambda>c. ch_id c = i) (ch_status_update (\<lambda>_. RowRevoked)) cs)" for cs
    by (induction cs) (auto simp: only_revokes_def)
  then show ?thesis by (simp add: set_revoked_def)
qed

lemma only_revokes_count:
  "only_revokes cs ds \<Longrightarrow>
   count_where (\<lambda>c. ch_status c = RowActive) ds \<le> count_where (\<lambda>c. ch_status c = RowActive) cs"
  unfolding only_revokes_def
  by (induction rule: list_all2_induct) (auto simp: count_where_def)

lemma only_revokes_ids: "only_revokes cs ds \<Longrightarrow> map ch_id ds = map ch_id cs"
  unfolding only_revokes_def by (induction rule: list_all2_induct) auto

lemma only_revokes_bwd:
  "only_revokes cs ds \<Longrightarrow> d \<in> set ds \<Longrightarrow>
   \<exists>c\<in>set cs. ch_id c = ch_id d \<and> ch_from c = ch_from d \<and> ch_to c = ch_to d
     \<and> (d = c \<or> ch_status d = RowRevoked)"
  unfolding only_revokes_def by (induction rule: list_all2_induct) auto

lemma only_revokes_fwd:
  "only_revokes cs ds \<Longrightarrow> c \<in> set cs \<Longrightarrow>
   \<exists>d\<in>set ds. ch_id c = ch_id d \<and> ch_from c = ch_from d \<and> ch_to c = ch_to d
     \<and> (d = c \<or> ch_status d = RowRevoked)"
  unfolding only_revokes_def by (induction rule: list_all2_induct) auto

lemma revoke_only_revokes:
  "revokeLink f by root p i db = (r, db') \<Longrightarrow> only_revokes (dd_chains db) (dd_chains db')"
  "revoke_children f by root q cs db = (r, db') \<Longrightarrow> only_revokes (dd_chains db) (dd_chains db')"
proof (induction f "by" root p i db and f "by" root q cs db arbitrary: r db' and r db'
    rule: revokeLink_revoke_children.induct)
  case (2 fuel by' root parent chainId db)
  show ?case
  proof (cases "chain_by_id db chainId")
    case None
    with "2.prems" show ?thesis by simp
  next
    case (Some chain)
    let ?db1 = "if ch_status chain = RowActive \<and> \<not> revokeAuditExists db chainId
                then add_audit (RevokedA chainId by' parent root) db else db"
    obtain r2 db3 where c: "revoke_children fuel by' root chainId
        (child_chains (set_revoked chainId ?db1) chain) (set_revoked chainId ?db1) = (r2, db3)"
      by (metis prod.collapse)
    from "2.IH" [OF Some refl refl refl c] have "only_revokes (dd_chains (set_revoked chainId ?db1)) (dd_chains db3)" .
    moreover have "dd_chains ?db1 = dd_chains db" by simp
    then have "only_revokes (dd_chains db) (dd_chains (set_revoked chainId ?db1))"
      using only_revokes_set_revoked [of ?db1 chainId] by metis
    moreover have "db' = db3"
      using "2.prems" Some c by (auto simp: Let_def split: sum.splits)
    ultimately show ?thesis by (metis only_revokes_trans)
  qed
next
  case (4 fuel by' root parent child children db)
  obtain r1 db1 where l: "revokeLink fuel by' root (Some parent) (ch_id child) db = (r1, db1)"
    by (metis prod.collapse)
  obtain r2 db2 where c: "revoke_children fuel by' root parent children db1 = (r2, db2)"
    by (metis prod.collapse)
  from "4.IH"(1) [OF l] have o1: "only_revokes (dd_chains db) (dd_chains db1)" .
  show ?case
  proof (cases r1)
    case (Inl e)
    with "4.prems" l o1 show ?thesis by simp
  next
    case (Inr ids)
    with l have l': "revokeLink fuel by' root (Some parent) (ch_id child) db = (Inr ids, db1)" by simp
    have "only_revokes (dd_chains db1) (dd_chains db2)"
      using "4.IH"(2) [OF l' [symmetric] refl c] by simp
    moreover have "db' = db2" using "4.prems" l' c by (auto split: sum.splits)
    ultimately show ?thesis using o1 by (metis only_revokes_trans)
  qed
qed auto

definition act :: "deleg_db \<Rightarrow> chain_row set" where
  "act db = {c \<in> set (dd_chains db). ch_status c = RowActive}"

lemma act_mono: "only_revokes (dd_chains db) (dd_chains db') \<Longrightarrow> act db' \<subseteq> act db"
  using only_revokes_bwd by (fastforce simp: act_def)

lemma act_add_audit [simp]: "act (add_audit e db) = act db"
  by (simp add: act_def)

lemma act_set_revoked: "act (set_revoked i db) = {c \<in> act db. ch_id c \<noteq> i}"
  by (auto simp: act_def set_revoked_def table_simps)

lemma set_child_chains: "set (child_chains db c) = {d \<in> act db. ch_from d = ch_to c}"
  by (auto simp: child_chains_def act_def)

text \<open>Every link that turned inactive has no active child left.\<close>

definition cascaded :: "deleg_db \<Rightarrow> deleg_db \<Rightarrow> bool" where
  "cascaded db db' \<longleftrightarrow> (\<forall>y\<in>act db. y \<notin> act db' \<longrightarrow> (\<forall>d\<in>act db'. ch_from d \<noteq> ch_to y))"

lemma cascaded_refl [simp]: "cascaded db db"
  by (simp add: cascaded_def)

lemma cascaded_trans:
  "cascaded a b \<Longrightarrow> cascaded b c \<Longrightarrow> act c \<subseteq> act b \<Longrightarrow> cascaded a c"
  unfolding cascaded_def by blast

lemma act_unique: "unique_keys ch_id (dd_chains db) \<Longrightarrow> chain_by_id db i = Some c \<Longrightarrow>
   d \<in> act db \<Longrightarrow> ch_id d = i \<Longrightarrow> d = c"
  using chain_by_id_SomeD [of db i c] unique_keysD [of ch_id "dd_chains db" d c] by (auto simp: act_def)

lemma revoke_cascades:
  "revokeLink f by root p i db = (Inr ids, db') \<Longrightarrow> unique_keys ch_id (dd_chains db) \<Longrightarrow>
   cascaded db db' \<and> (\<forall>d\<in>act db'. ch_id d \<noteq> i)
   \<and> (\<forall>c. chain_by_id db i = Some c \<longrightarrow> (\<forall>d\<in>act db'. ch_from d \<noteq> ch_to c))"
  "revoke_children f by root q cs db = (Inr ids, db') \<Longrightarrow> unique_keys ch_id (dd_chains db) \<Longrightarrow>
   cascaded db db' \<and> (\<forall>d\<in>act db'. ch_id d \<notin> ch_id ` set cs)"
proof (induction f "by" root p i db and f "by" root q cs db arbitrary: ids db' and ids db'
    rule: revokeLink_revoke_children.induct)
  case (2 fuel by' root parent chainId db)
  from "2.prems"(1) obtain chain where s: "chain_by_id db chainId = Some chain"
    by (cases "chain_by_id db chainId") auto
  define db1 where "db1 = (if ch_status chain = RowActive \<and> \<not> revokeAuditExists db chainId
                then add_audit (RevokedA chainId by' parent root) db else db)"
  define db2 where "db2 = set_revoked chainId db1"
  have d1: "dd_chains db1 = dd_chains db" "act db1 = act db" by (auto simp: db1_def)
  from "2.prems"(1) s obtain ids2 where
    c: "revoke_children fuel by' root chainId (child_chains db2 chain) db2 = (Inr ids2, db')"
    by (auto simp: Let_def db1_def [symmetric] db2_def [symmetric] split: sum.splits prod.splits)
  have o: "only_revokes (dd_chains db) (dd_chains db2)"
    using only_revokes_set_revoked [of db1 chainId] by (simp add: db2_def d1)
  have u2: "unique_keys ch_id (dd_chains db2)"
    using "2.prems"(2) only_revokes_ids [OF o] by (simp add: unique_keys_def)
  note ih = "2.IH" [OF s refl db1_def db2_def c u2]
  have a2: "act db2 = {c \<in> act db. ch_id c \<noteq> chainId}" by (simp add: db2_def act_set_revoked d1)
  have a': "act db' \<subseteq> act db2" by (rule act_mono [OF revoke_only_revokes(2) [OF c]])
  have kids: "\<forall>d\<in>act db'. ch_from d \<noteq> ch_to chain"
    using ih a' by (fastforce simp: set_child_chains)
  have "cascaded db db'"
    unfolding cascaded_def
  proof (intro ballI impI)
    fix y d assume y: "y \<in> act db" "y \<notin> act db'" and d: "d \<in> act db'"
    show "ch_from d \<noteq> ch_to y"
    proof (cases "ch_id y = chainId")
      case True
      with act_unique [OF "2.prems"(2) s y(1)] kids d show ?thesis by blast
    next
      case False
      with y(1) a2 have "y \<in> act db2" by simp
      with ih y(2) d show ?thesis unfolding cascaded_def by blast
    qed
  qed
  with kids a' a2 s show ?case by auto
next
  case (4 fuel by' root parent child children db)
  from "4.prems"(1) obtain ids1 db1 ids2 where
    l: "revokeLink fuel by' root (Some parent) (ch_id child) db = (Inr ids1, db1)"
    and c: "revoke_children fuel by' root parent children db1 = (Inr ids2, db')"
    by (auto split: sum.splits prod.splits)
  have o: "only_revokes (dd_chains db) (dd_chains db1)" by (rule revoke_only_revokes(1) [OF l])
  have u1: "unique_keys ch_id (dd_chains db1)"
    using "4.prems"(2) only_revokes_ids [OF o] by (simp add: unique_keys_def)
  have a: "act db' \<subseteq> act db1" by (rule act_mono [OF revoke_only_revokes(2) [OF c]])
  from "4.IH"(1) [OF l "4.prems"(2)] have i1: "cascaded db db1" "\<forall>d\<in>act db1. ch_id d \<noteq> ch_id child"
    by blast+
  from "4.IH"(2) [OF l [symmetric] refl c u1]
  have i2: "cascaded db1 db'" "\<forall>d\<in>act db'. ch_id d \<notin> ch_id ` set children" by blast+
  show ?case using cascaded_trans [OF i1(1) i2(1) a] i1(2) i2(2) a by auto
qed auto

lemma active_count_mono:
  "only_revokes (dd_chains db) (dd_chains db') \<Longrightarrow> active_count db' \<le> active_count db"
  unfolding active_count_def by (rule only_revokes_count)

lemma active_count_add_audit [simp]: "active_count (add_audit e db) = active_count db"
  by (simp add: active_count_def)

lemma active_count_set_revoked:
  assumes "c \<in> act db" and "ch_id c = i"
  shows "active_count (set_revoked i db) < active_count db"
proof -
  have step: "count_where (\<lambda>c. ch_status c = RowActive)
      (update_where (\<lambda>c. ch_id c = i) (ch_status_update (\<lambda>_. RowRevoked)) cs)
    = count_where (\<lambda>c. ch_status c = RowActive \<and> ch_id c \<noteq> i) cs" for cs
    by (induction cs) (auto simp: count_where_def)
  have le: "length (filter (\<lambda>c. ch_status c = RowActive \<and> ch_id c \<noteq> i) cs)
      \<le> length (filter (\<lambda>c. ch_status c = RowActive) cs)" for cs :: "chain_row list"
    by (induction cs) auto
  have "c \<in> set cs \<Longrightarrow> length (filter (\<lambda>c. ch_status c = RowActive \<and> ch_id c \<noteq> i) cs)
      < length (filter (\<lambda>c. ch_status c = RowActive) cs)" for cs
  proof (induction cs)
    case (Cons d cs)
    with le [of cs] assms show ?case by (auto simp: act_def less_Suc_eq_le)
  qed simp
  with assms(1) show ?thesis
    by (simp add: active_count_def set_revoked_def step) (simp add: count_where_def act_def)
qed

lemma only_revokes_strict:
  assumes "only_revokes (dd_chains db) (dd_chains db')" and "c \<in> act db" and "c \<notin> act db'"
  shows "active_count db' < active_count db"
proof -
  have le: "list_all2 (\<lambda>c c'. c' = c \<or> c' = c\<lparr>ch_status := RowRevoked\<rparr>) cs ds \<Longrightarrow>
      length (filter (\<lambda>c. ch_status c = RowActive) ds) \<le> length (filter (\<lambda>c. ch_status c = RowActive) cs)"
    for cs ds by (induction rule: list_all2_induct) auto
  have "list_all2 (\<lambda>c c'. c' = c \<or> c' = c\<lparr>ch_status := RowRevoked\<rparr>) cs ds \<Longrightarrow>
      c \<in> set cs \<Longrightarrow> c \<notin> set ds \<Longrightarrow> ch_status c = RowActive \<Longrightarrow>
      length (filter (\<lambda>c. ch_status c = RowActive) ds) < length (filter (\<lambda>c. ch_status c = RowActive) cs)"
    for cs ds
  proof (induction rule: list_all2_induct)
    case (Cons x xs y ys)
    with le [of xs ys] show ?case by (auto simp: less_Suc_eq_le)
  qed simp
  with assms show ?thesis
    by (auto simp: only_revokes_def active_count_def count_where_def act_def)
qed

definition present :: "deleg_db \<Rightarrow> ident \<Rightarrow> bool" where
  "present db i \<longleftrightarrow> (\<exists>c. chain_by_id db i = Some c)"

lemma present_iff: "present db i \<longleftrightarrow> i \<in> ch_id ` set (dd_chains db)"
  using chain_by_id_None [of db i] by (cases "chain_by_id db i") (auto simp: present_def)

lemma present_kept: "only_revokes (dd_chains db) (dd_chains db') \<Longrightarrow> present db i \<Longrightarrow> present db' i"
  using only_revokes_ids by (metis list.set_map present_iff)

text \<open>
  Fuel: twice the number of active links, plus one for a call on an active link and two for a call
  on an inactive one. A call on an active link makes one link less active, and the first child
  of any call is active.
\<close>

lemma revoke_returns:
  "present db i \<Longrightarrow> unique_keys ch_id (dd_chains db) \<Longrightarrow>
   2 * active_count db + 2 \<le> f \<or> ((\<exists>c\<in>act db. ch_id c = i) \<and> 2 * active_count db + 1 \<le> f) \<Longrightarrow>
   \<exists>ids db'. revokeLink f by root p i db = (Inr ids, db')"
  "\<forall>c\<in>set cs. present db (ch_id c) \<Longrightarrow> unique_keys ch_id (dd_chains db) \<Longrightarrow>
   cs = [] \<or> 2 * active_count db + 2 \<le> f
     \<or> ((\<exists>c\<in>act db. ch_id c = ch_id (hd cs)) \<and> 2 * active_count db + 1 \<le> f) \<Longrightarrow>
   \<exists>ids db'. revoke_children f by root q cs db = (Inr ids, db')"
proof (induction f "by" root p i db and f "by" root q cs db rule: revokeLink_revoke_children.induct)
  case (2 fuel by' root parent chainId db)
  from "2.prems"(1) obtain chain where s: "chain_by_id db chainId = Some chain"
    by (auto simp: present_def)
  define db1 where "db1 = (if ch_status chain = RowActive \<and> \<not> revokeAuditExists db chainId
                then add_audit (RevokedA chainId by' parent root) db else db)"
  define db2 where "db2 = set_revoked chainId db1"
  have d1: "dd_chains db1 = dd_chains db" "act db1 = act db" "active_count db1 = active_count db"
    by (auto simp: db1_def)
  have o: "only_revokes (dd_chains db) (dd_chains db2)"
    using only_revokes_set_revoked [of db1 chainId] by (simp add: db2_def d1)
  have u2: "unique_keys ch_id (dd_chains db2)"
    using "2.prems"(2) only_revokes_ids [OF o] by (simp add: unique_keys_def)
  let ?cs = "child_chains db2 chain"
  have kids: "\<forall>c\<in>set ?cs. c \<in> act db2" by (auto simp: set_child_chains)
  then have pres: "\<forall>c\<in>set ?cs. present db2 (ch_id c)" by (auto simp: present_iff act_def)
  have fuel: "?cs = [] \<or> 2 * active_count db2 + 2 \<le> fuel
      \<or> ((\<exists>c\<in>act db2. ch_id c = ch_id (hd ?cs)) \<and> 2 * active_count db2 + 1 \<le> fuel)"
  proof (cases "\<exists>c\<in>act db. ch_id c = chainId")
    case True
    then have "active_count db2 < active_count db"
      using active_count_set_revoked [of _ db1 chainId] by (auto simp: db2_def d1)
    with "2.prems"(3) show ?thesis by auto
  next
    case False
    with "2.prems"(3) active_count_mono [OF o] have "2 * active_count db2 + 1 \<le> fuel" by auto
    with kids show ?thesis by (metis hd_in_set)
  qed
  from "2.IH" [OF s refl db1_def db2_def pres u2 fuel]
  obtain ids db' where "revoke_children fuel by' root chainId ?cs db2 = (Inr ids, db')" by blast
  with s show ?case by (auto simp: Let_def db1_def [symmetric] db2_def [symmetric])
next
  case (4 fuel by' root parent child children db)
  from "4.prems"(1) have p: "present db (ch_id child)" by simp
  from "4.prems"(3) have "2 * active_count db + 2 \<le> fuel
      \<or> ((\<exists>c\<in>act db. ch_id c = ch_id child) \<and> 2 * active_count db + 1 \<le> fuel)" by simp
  from "4.IH"(1) [OF p "4.prems"(2) this] obtain ids1 db1 where
    l: "revokeLink fuel by' root (Some parent) (ch_id child) db = (Inr ids1, db1)" by blast
  have o: "only_revokes (dd_chains db) (dd_chains db1)" by (rule revoke_only_revokes(1) [OF l])
  have u1: "unique_keys ch_id (dd_chains db1)"
    using "4.prems"(2) only_revokes_ids [OF o] by (simp add: unique_keys_def)
  have "2 * active_count db1 + 2 \<le> fuel"
  proof (cases "2 * active_count db + 2 \<le> fuel")
    case True
    with active_count_mono [OF o] show ?thesis by simp
  next
    case False
    with "4.prems"(3) obtain c where c: "c \<in> act db" "ch_id c = ch_id child"
      "2 * active_count db + 1 \<le> fuel" by auto
    have "c \<notin> act db1" using revoke_cascades(1) [OF l "4.prems"(2)] c(2) by auto
    then have "active_count db1 < active_count db"
      using only_revokes_strict [OF o c(1)] by simp
    with c(3) show ?thesis by simp
  qed
  moreover have "\<forall>c\<in>set children. present db1 (ch_id c)"
    using "4.prems"(1) present_kept [OF o] by simp
  ultimately obtain ids2 db2 where "revoke_children fuel by' root parent children db1 = (Inr ids2, db2)"
    using "4.IH"(2) [OF l [symmetric] refl _ u1] by blast
  with l show ?case by auto
qed auto

text \<open>
  The links below one link, reached over links that are active.
\<close>

inductive below :: "deleg_db \<Rightarrow> chain_row \<Rightarrow> chain_row \<Rightarrow> bool" for db :: deleg_db and c :: chain_row where
  below_child: "d \<in> act db \<Longrightarrow> ch_from d = ch_to c \<Longrightarrow> below db c d"
| below_step: "below db c d \<Longrightarrow> e \<in> act db \<Longrightarrow> ch_from e = ch_to d \<Longrightarrow> below db c e"

lemma revocation_cascades:
  assumes "unique_keys ch_id (dd_chains db)" and "chain_by_id db i = Some c"
  shows "\<exists>ids db'. revokeDelegation i by db = (Inr ids, db')
    \<and> c \<notin> act db' \<and> (\<forall>d. below db c d \<longrightarrow> d \<notin> act db')
    \<and> only_revokes (dd_chains db) (dd_chains db')"
proof -
  from assms(2) have "present db i" by (simp add: present_def)
  then obtain ids db' where r: "revokeDelegation i by db = (Inr ids, db')"
    using revoke_returns(1) [OF _ assms(1), of i "revoke_fuel db" "by" i None]
    by (auto simp: revokeDelegation_def revoke_fuel_def)
  note l = r [unfolded revokeDelegation_def]
  have o: "only_revokes (dd_chains db) (dd_chains db')" by (rule revoke_only_revokes(1) [OF l])
  from revoke_cascades(1) [OF l assms(1)] assms(2) have
    k: "cascaded db db'" "\<forall>d\<in>act db'. ch_id d \<noteq> i" "\<forall>d\<in>act db'. ch_from d \<noteq> ch_to c" by blast+
  have "below db c d \<Longrightarrow> d \<in> act db \<and> d \<notin> act db'" for d
  proof (induction rule: below.induct)
    case (below_child d)
    with k(3) show ?case by blast
  next
    case (below_step d e)
    with k(1) show ?case unfolding cascaded_def by blast
  qed
  with r o k(2) chain_by_id_SomeD [OF assms(2)] show ?thesis by blast
qed

text \<open>
  C7: revoking a link returns and takes everything below it out, also when the delegations form
  a cycle. On a table with unique ids, revoking an existing link succeeds; afterwards neither it
  nor any link reachable below it over active links is active, no other link got active, and
  apart from their status the links are unchanged.
\<close>

theorem revokeDelegation_cascade:
  assumes "unique_keys ch_id (dd_chains db)" and "chain_by_id db i = Some c"
  shows "\<exists>ids db'. revokeDelegation i by db = (Inr ids, db')
    \<and> c \<notin> act db' \<and> (\<forall>d. below db c d \<longrightarrow> d \<notin> act db')
    \<and> only_revokes (dd_chains db) (dd_chains db')"
  using assms by (rule revocation_cascades)

theorem revokeDelegation_cascade_witness:
  "\<exists>ids db'. revokeDelegation ''c1'' None
      \<lparr>dd_agents = [], dd_permissions = [],
       dd_chains = [sample_chain ''c1'' ''a'' ''b'' ''x'', sample_chain ''c2'' ''b'' ''a'' ''x''],
       dd_audit = []\<rparr> = (Inr ids, db')
     \<and> sample_chain ''c2'' ''b'' ''a'' ''x'' \<notin> act db'"
proof -
  let ?db = "\<lparr>dd_agents = [], dd_permissions = [],
       dd_chains = [sample_chain ''c1'' ''a'' ''b'' ''x'', sample_chain ''c2'' ''b'' ''a'' ''x''],
       dd_audit = []\<rparr>"
  have "unique_keys ch_id (dd_chains ?db)" by (simp add: unique_keys_def sample_chain_def)
  moreover have "chain_by_id ?db ''c1'' = Some (sample_chain ''c1'' ''a'' ''b'' ''x'')"
    by (simp add: chain_by_id_def sample_chain_def)
  moreover have "below ?db (sample_chain ''c1'' ''a'' ''b'' ''x'') (sample_chain ''c2'' ''b'' ''a'' ''x'')"
    by (rule below_child) (simp_all add: act_def sample_chain_def)
  ultimately show ?thesis using revokeDelegation_cascade by blast
qed

section \<open>Lineage\<close>

text \<open>The hops join the neighbours of the path.\<close>

fun linked :: "ident list \<Rightarrow> chain_row list \<Rightarrow> bool" where
  "linked [p] [] = True"
| "linked (p # q # ps) (h # hs) = (ch_from h = p \<and> ch_to h = q \<and> linked (q # ps) hs)"
| "linked _ _ = False"

lemma loadInboundGrants_to: "l \<in> set (loadInboundGrants db now i) \<Longrightarrow> ch_to l = i"
  by (auto simp: loadInboundGrants_def liveInboundRows_def inboundRows_def anyInboundRows_def)

lemma lineage_walk_inv:
  "lineage_walk db now n current path hops = (current', path', hops') \<Longrightarrow>
   path \<noteq> [] \<Longrightarrow> hd path = current \<Longrightarrow> distinct path \<Longrightarrow> linked path hops \<Longrightarrow>
   path' \<noteq> [] \<and> hd path' = current' \<and> distinct path' \<and> linked path' hops'
   \<and> last path' = last path \<and> length path' \<le> length path + n"
proof (induction db now n current path hops arbitrary: current' path' hops' rule: lineage_walk.induct)
  case (2 db now fuel current path hops)
  show ?case
  proof (cases "List.find (\<lambda>l. ch_from l \<notin> set path) (loadInboundGrants db now current)")
    case None
    with 2 show ?thesis by simp
  next
    case (Some l)
    then have l: "l \<in> set (loadInboundGrants db now current)" "ch_from l \<notin> set path"
      by (auto dest: find_SomeD)
    obtain ps where ps: "path = current # ps" using "2.prems"(2,3) by (cases path) auto
    have "linked (ch_from l # path) (l # hops)"
      using "2.prems"(5) loadInboundGrants_to [OF l(1)] by (simp add: ps)
    with "2.IH" [OF Some] "2.prems" Some l(2) show ?thesis by (auto simp: ps)
  qed
qed auto

text \<open>
  The lineage is a chain of live links without repetition. The path ends in the agent, names
  nobody twice, has at most 16 hops, and every hop is a link from one name of the path to the
  next. The loop stops in cycles.
\<close>

theorem resolveLineage_chain:
  "distinct (ln_path (resolveLineage db now i)) \<and> last (ln_path (resolveLineage db now i)) = i
   \<and> linked (ln_path (resolveLineage db now i)) (ln_hops (resolveLineage db now i))
   \<and> length (ln_path (resolveLineage db now i)) \<le> 17"
proof -
  obtain c p h where w: "lineage_walk db now max_walk i [i] [] = (c, p, h)" by (metis prod.collapse)
  from lineage_walk_inv [OF w] show ?thesis
    unfolding resolveLineage_def w by (simp add: max_walk_def)
qed

section \<open>Reachable tables\<close>

inductive delegation_step :: "deleg_db \<Rightarrow> deleg_db \<Rightarrow> bool" where
  step_delegate: "delegation_step db (snd (delegate id id now mode i input db))"
| step_revoke_chain: "delegation_step db (snd (revokeDelegation i by db))"
| step_revoke_agent: "delegation_step db (snd (revokeAllForAgent i by db))"

definition depths_ok :: "deleg_db \<Rightarrow> bool" where
  "depths_ok db \<longleftrightarrow> (\<forall>c\<in>set (dd_chains db). 1 \<le> ch_depth c \<and> ch_depth c \<le> ch_maxDepth c)"

lemma depths_only_revokes:
  "only_revokes (dd_chains db) (dd_chains db') \<Longrightarrow> depths_ok db \<Longrightarrow> depths_ok db'"
proof -
  have "list_all2 (\<lambda>c c'. c' = c \<or> c' = c\<lparr>ch_status := RowRevoked\<rparr>) cs ds \<Longrightarrow>
      \<forall>c\<in>set cs. 1 \<le> ch_depth c \<and> ch_depth c \<le> ch_maxDepth c \<Longrightarrow>
      \<forall>c\<in>set ds. 1 \<le> ch_depth c \<and> ch_depth c \<le> ch_maxDepth c" for cs ds
    by (induction rule: list_all2_induct) auto
  then show "only_revokes (dd_chains db) (dd_chains db') \<Longrightarrow> depths_ok db \<Longrightarrow> depths_ok db'"
    by (simp add: only_revokes_def depths_ok_def)
qed

lemma delegate_limits:
  assumes "delegate_read db now mode i input = Inr plan"
  shows "1 \<le> ch_depth (dp_row plan) \<and> ch_depth (dp_row plan) \<le> ch_maxDepth (dp_row plan)"
proof -
  have "0 \<le> fold max ns (0 :: int)" for ns by (rule fold_max_bounds(2))
  with assms show ?thesis by (auto elim!: delegate_read_InrD)
qed

lemma revoke_rows_only_revokes:
  "revoke_rows rows by db = (r, db') \<Longrightarrow> only_revokes (dd_chains db) (dd_chains db')"
proof (induction rows "by" db arbitrary: r db' rule: revoke_rows.induct)
  case (2 row rows by' db)
  show ?case
  proof (cases "map_option ch_status (chain_by_id db (ch_id row)) = Some RowExpired")
    case True
    with 2 show ?thesis by simp
  next
    case False
    note prem = "2.prems" [unfolded revoke_rows.simps if_not_P [OF False]]
    obtain r1 db1 where l: "revokeDelegation (ch_id row) by' db = (r1, db1)" by (metis prod.collapse)
    have o: "only_revokes (dd_chains db) (dd_chains db1)"
      by (rule revoke_only_revokes(1) [OF l [unfolded revokeDelegation_def]])
    obtain r2 db2 where c: "revoke_rows rows by' db1 = (r2, db2)" by (metis prod.collapse)
    show ?thesis
    proof (cases r1)
      case (Inl e)
      with prem l o show ?thesis by simp
    next
      case (Inr ids)
      with l have l': "revokeDelegation (ch_id row) by' db = (Inr ids, db1)" by simp
      have "only_revokes (dd_chains db1) (dd_chains db2)"
        using "2.IH"(2) [OF False l' [symmetric] refl c] by simp
      moreover have "db' = db2" using prem l' c by (auto split: sum.splits)
      ultimately show ?thesis using o by (metis only_revokes_trans)
    qed
  qed
qed simp

interpretation delegation: machine "\<lambda>db. dd_chains db = []" delegation_step depths_ok
proof
  show "depths_ok db" if "dd_chains db = []" for db
    using that by (simp add: depths_ok_def)
  show "depths_ok db'" if inv: "depths_ok db" and step: "delegation_step db db'" for db db'
    using step
  proof cases
    case (step_delegate now mode i input)
    show ?thesis
    proof (cases "delegate_read db now mode i input")
      case (Inl e)
      with inv step_delegate show ?thesis by (simp add: delegate_def)
    next
      case (Inr plan)
      with inv step_delegate delegate_limits [OF Inr] show ?thesis
        by (auto simp: delegate_def delegate_recheck_def add_chain_def add_audit_def depths_ok_def
            delete_where_def Let_def)
    qed
  next
    case (step_revoke_chain i revoker)
    have "only_revokes (dd_chains db) (dd_chains (snd (revokeDelegation i revoker db)))"
      unfolding revokeDelegation_def
      by (rule revoke_only_revokes(1)) (rule prod.collapse [symmetric])
    with inv step_revoke_chain show ?thesis by (blast intro: depths_only_revokes)
  next
    case (step_revoke_agent i revoker)
    have "only_revokes (dd_chains db) (dd_chains (snd (revokeAllForAgent i revoker db)))"
      unfolding revokeAllForAgent_def
      by (rule revoke_rows_only_revokes) (rule prod.collapse [symmetric])
    with inv step_revoke_agent show ?thesis by (blast intro: depths_only_revokes)
  qed
qed

text \<open>
  Over any sequence of delegations and revocations from an empty table, every link lies
  between depth one and its own depth limit.
\<close>

theorem delegation_depth_bounded:
  "reaches (\<lambda>db. dd_chains db = []) delegation_step db \<Longrightarrow> c \<in> set (dd_chains db) \<Longrightarrow>
   1 \<le> ch_depth c \<and> ch_depth c \<le> ch_maxDepth c"
  using delegation.inv_reachable by (auto simp: depths_ok_def)

theorem delegation_depth_bounded_witness:
  "\<exists>(db :: deleg_db) c. c \<in> set (dd_chains db) \<and> ch_depth c \<le> (ch_maxDepth c :: int)"
proof -
  obtain row db' where d: "delegate id id 5 Colon ''c1'' sample_input sample_db = (Inr row, db')"
    using sample_delegate by blast
  have "reaches (\<lambda>db. dd_chains db = []) delegation_step sample_db"
    by (rule reaches_init) (simp add: sample_db_def)
  from reaches_step [OF this step_delegate [of _ 5 Colon "''c1''" sample_input]]
  have "reaches (\<lambda>db. dd_chains db = []) delegation_step db'" by (simp add: d)
  moreover have "row \<in> set (dd_chains db')"
    using d by (auto elim!: delegate_InrD simp: add_audit_def add_chain_def)
  ultimately have "ch_depth row \<le> ch_maxDepth row" using delegation_depth_bounded by blast
  with \<open>row \<in> set (dd_chains db')\<close> show ?thesis by blast
qed

end
