(* ===== verification/ApprovalQuorum.thy ===== *)
theory ApprovalQuorum
  imports ApprovalSpend "HOL-Library.Product_Lexorder"
begin

text \<open>
  Approvals that need several approvers: \<open>approval/quorum.ts\<close>. A vote is a row of
  \<open>theauth_approval_votes\<close>, keyed by request and approver. \<open>castApproval\<close> makes up to six
  statements with other callers in between, so it is a small program with a program counter, and a
  system of any number of callers and of the other statements of the store is proved to approve a
  request only after enough distinct people voted for it.
\<close>

section \<open>Votes\<close>

record vote =
  vo_approvalId :: ident
  vo_approverId :: ident
  vo_decidedAt :: time
  vo_approverAcr :: "string option"

definition max_required_approvals :: int where
  "max_required_approvals = 10"

datatype quorum_error = SelfApproval | DuplicateApprover | ApproverRequired

definition requiredApprovalsOf :: "approval_row \<Rightarrow> nat" where
  "requiredApprovalsOf row = (case ap_requiredApprovals row of Some n \<Rightarrow> n | None \<Rightarrow> 1)"

text \<open>\<open>assertValidQuorum\<close> does not throw.\<close>

definition valid_quorum :: "int \<Rightarrow> bool" where
  "valid_quorum n \<longleftrightarrow> 1 \<le> n \<and> n \<le> max_required_approvals"

definition vote_order :: "vote \<Rightarrow> time \<times> ident" where
  "vote_order v = (vo_decidedAt v, vo_approverId v)"

definition listApprovers :: "vote list \<Rightarrow> ident \<Rightarrow> ident list" where
  "listApprovers votes i =
     map vo_approverId (sort_key vote_order (filter (\<lambda>v. vo_approvalId v = i) votes))"

text \<open>\<open>listApproversMany\<close>: the map starts with an empty list per id, and each row is pushed.\<close>

definition push_vote :: "(ident \<rightharpoonup> ident list) \<Rightarrow> vote \<Rightarrow> (ident \<rightharpoonup> ident list)" where
  "push_vote out v =
     (case out (vo_approvalId v) of
        None \<Rightarrow> out
      | Some l \<Rightarrow> out(vo_approvalId v \<mapsto> l @ [vo_approverId v]))"

definition listApproversMany :: "vote list \<Rightarrow> ident list \<Rightarrow> (ident \<rightharpoonup> ident list)" where
  "listApproversMany votes ids =
     (let out = map_of (map (\<lambda>i. (i, [])) ids)
      in if ids = [] then out
         else foldl push_vote out
                (sort_key vote_order (filter (\<lambda>v. vo_approvalId v \<in> set ids) votes)))"

lemma push_vote_apply:
  "push_vote out v i =
     (if vo_approvalId v = i then map_option (\<lambda>l. l @ [vo_approverId v]) (out i) else out i)"
  by (auto simp: push_vote_def split: option.splits)

lemma foldl_push_vote:
  "foldl push_vote out vs i =
     map_option (\<lambda>l. l @ map vo_approverId (filter (\<lambda>v. vo_approvalId v = i) vs)) (out i)"
proof (induction vs arbitrary: out)
  case (Cons v vs)
  have "foldl push_vote out (v # vs) i =
      map_option (\<lambda>l. l @ map vo_approverId (filter (\<lambda>v. vo_approvalId v = i) vs)) (push_vote out v i)"
    by (simp only: foldl.simps Cons)
  also have "\<dots> = map_option (\<lambda>l. l @ map vo_approverId (filter (\<lambda>v. vo_approvalId v = i) (v # vs))) (out i)"
    by (cases "out i") (simp_all add: push_vote_apply)
  finally show ?case .
qed (simp add: option.map_ident)

lemma map_of_empty_lists: "map_of (map (\<lambda>i. (i, [])) ids) i = (if i \<in> set ids then Some [] else None)"
  by (induction ids) auto

lemma filter_sort_key: "filter P (sort_key f xs) = sort_key f (filter P xs)"
  by (simp add: filter_sort)

text \<open>The batched lookup of approvers returns for every id asked for what the single lookup
  returns, in the same order, and nothing for other ids.\<close>

theorem listApproversMany_single:
  "listApproversMany votes ids i = (if i \<in> set ids then Some (listApprovers votes i) else None)"
proof -
  have "filter (\<lambda>v. vo_approvalId v = i) (filter (\<lambda>v. vo_approvalId v \<in> set ids) votes) =
      filter (\<lambda>v. vo_approvalId v = i) votes" if "i \<in> set ids"
    unfolding filter_filter using that by (intro filter_cong) auto
  then show ?thesis
    by (auto simp: listApproversMany_def listApprovers_def Let_def foldl_push_vote map_of_empty_lists
        filter_sort_key)
qed

section \<open>Casting one vote\<close>

datatype cast_result = PendingVote "ident list" | ApprovedVote "ident list" | LostVote

text \<open>Where a caller of \<open>castApproval\<close> stands; each state is followed by one statement.\<close>

datatype cast_pc =
    AtStart
  | AtInsert
  | AtCount
  | AtFresh "ident list"
  | AtDecide "ident list"
  | AtAfter "ident list"
  | AtWithdraw
  | CastDone cast_result
  | CastFailed quorum_error

record cast_input =
  ca_row :: approval_row
  ca_approverId :: ident
  ca_now :: time
  ca_acr :: "string option"

type_synonym approval_tables = "approval_row list \<times> vote list"

definition has_vote :: "ident \<Rightarrow> ident \<Rightarrow> vote \<Rightarrow> bool" where
  "has_vote i a v \<longleftrightarrow> vo_approvalId v = i \<and> vo_approverId v = a"

text \<open>The insert fails on the primary key; \<open>None\<close> is the conflict.\<close>

definition insert_vote :: "vote \<Rightarrow> vote list \<Rightarrow> vote list option" where
  "insert_vote v votes =
     (if list_ex (has_vote (vo_approvalId v) (vo_approverId v)) votes then None else Some (votes @ [v]))"

definition withdraw :: "vote list \<Rightarrow> ident \<Rightarrow> ident \<Rightarrow> vote list" where
  "withdraw votes i a = delete_where (has_vote i a) votes"

fun cast_step :: "cast_input \<Rightarrow> cast_pc \<Rightarrow> approval_tables \<Rightarrow> cast_pc \<times> approval_tables" where
  "cast_step q AtStart (rows, votes) =
     (if ca_approverId q = ap_userId (ca_row q) \<or> ca_approverId q = ap_agentId (ca_row q)
      then (CastFailed SelfApproval, rows, votes)
      else if ca_approverId q \<in> set (listApprovers votes (ap_id (ca_row q)))
      then (CastFailed DuplicateApprover, rows, votes)
      else (AtInsert, rows, votes))"
| "cast_step q AtInsert (rows, votes) =
     (case insert_vote \<lparr>vo_approvalId = ap_id (ca_row q), vo_approverId = ca_approverId q,
                        vo_decidedAt = ca_now q, vo_approverAcr = ca_acr q\<rparr> votes of
        None \<Rightarrow> (CastFailed DuplicateApprover, rows, votes)
      | Some votes' \<Rightarrow> (AtCount, rows, votes'))"
| "cast_step q AtCount (rows, votes) =
     (let approvers = listApprovers votes (ap_id (ca_row q));
          required = requiredApprovalsOf (ca_row q)
      in (if length approvers < required then AtFresh approvers
          else AtDecide (take required approvers), rows, votes))"
| "cast_step q (AtFresh approvers) (rows, votes) =
     (case load_approval rows (ap_id (ca_row q)) of
        Some fresh \<Rightarrow>
          if ap_status fresh \<noteq> Pending \<or> ap_expiresAt fresh \<le> ca_now q then (AtWithdraw, rows, votes)
          else (CastDone (PendingVote approvers), rows, votes)
      | None \<Rightarrow> (AtWithdraw, rows, votes))"
| "cast_step q (AtDecide quorum) (rows, votes) =
     (let by' = (if quorum = [] then ca_approverId q else last quorum)
      in case approvals_decide (ap_id (ca_row q))
             \<lparr>ad_status = Approved, ad_respondedAt = ca_now q, ad_respondedBy = Some by'\<rparr> (ca_now q) rows of
           (True, rows') \<Rightarrow> (CastDone (ApprovedVote quorum), rows', votes)
         | (False, rows') \<Rightarrow> (AtAfter quorum, rows', votes))"
| "cast_step q (AtAfter quorum) (rows, votes) =
     (case load_approval rows (ap_id (ca_row q)) of
        Some after \<Rightarrow>
          if ap_status after = Approved \<and> ca_approverId q \<in> set quorum
          then (CastDone (ApprovedVote quorum), rows, votes)
          else (AtWithdraw, rows, votes)
      | None \<Rightarrow> (AtWithdraw, rows, votes))"
| "cast_step q AtWithdraw (rows, votes) =
     (CastDone LostVote, rows, withdraw votes (ap_id (ca_row q)) (ca_approverId q))"
| "cast_step q (CastDone r) tables = (CastDone r, tables)"
| "cast_step q (CastFailed e) tables = (CastFailed e, tables)"

fun cast_steps :: "nat \<Rightarrow> cast_input \<Rightarrow> cast_pc \<Rightarrow> approval_tables \<Rightarrow> cast_pc \<times> approval_tables" where
  "cast_steps 0 q pc tables = (pc, tables)"
| "cast_steps (Suc n) q pc tables = (case cast_step q pc tables of (pc', tables') \<Rightarrow> cast_steps n q pc' tables')"

text \<open>The call run without interference: six statements always suffice.\<close>

definition castApproval ::
  "cast_input \<Rightarrow> approval_tables \<Rightarrow> (quorum_error + cast_result) \<times> approval_tables" where
  "castApproval q tables =
     (case cast_steps 6 q AtStart tables of
        (CastDone r, tables') \<Rightarrow> (Inr r, tables')
      | (CastFailed e, tables') \<Rightarrow> (Inl e, tables')
      | (_, tables') \<Rightarrow> (Inr LostVote, tables'))"

section \<open>A vote cast alone\<close>

lemma cast_steps_final [simp]:
  "cast_steps n q (CastDone r) tables = (CastDone r, tables)"
  "cast_steps n q (CastFailed e) tables = (CastFailed e, tables)"
  by (induction n) (cases tables, simp_all)+

fun steps_left :: "cast_pc \<Rightarrow> nat" where
  "steps_left AtStart = 6"
| "steps_left AtInsert = 5"
| "steps_left AtCount = 4"
| "steps_left (AtDecide l) = 3"
| "steps_left (AtFresh l) = 2"
| "steps_left (AtAfter l) = 2"
| "steps_left AtWithdraw = 1"
| "steps_left _ = 0"

lemma cast_step_progress:
  "cast_step q pc tables = (pc', tables') \<Longrightarrow> steps_left pc \<noteq> 0 \<Longrightarrow> steps_left pc' < steps_left pc"
  by (cases pc; cases tables)
    (auto simp: Let_def split: if_splits option.splits prod.splits bool.splits)

lemma cast_steps_end:
  "steps_left pc \<le> n \<Longrightarrow> cast_steps n q pc tables = (pc', tables') \<Longrightarrow> steps_left pc' = 0"
proof (induction n arbitrary: pc tables)
  case (Suc n)
  obtain pc1 t1 where s: "cast_step q pc tables = (pc1, t1)" by (meson surj_pair)
  have "steps_left pc1 \<le> n"
  proof (cases "steps_left pc = 0")
    case True
    then have "pc1 = pc" using s by (cases pc; cases tables) auto
    with True show ?thesis by simp
  next
    case False
    with cast_step_progress [OF s] Suc.prems(1) show ?thesis by simp
  qed
  with Suc s show ?case by simp
qed simp

lemma sorted_approvers_set: "set (listApprovers votes i) = vo_approverId ` {v \<in> set votes. vo_approvalId v = i}"
  by (auto simp: listApprovers_def)

definition unique_votes :: "vote list \<Rightarrow> bool" where
  "unique_votes votes \<longleftrightarrow> distinct (map (\<lambda>v. (vo_approvalId v, vo_approverId v)) votes)"

lemma approvers_distinct: "unique_votes votes \<Longrightarrow> distinct (listApprovers votes i)"
  by (auto simp: unique_votes_def listApprovers_def distinct_map inj_on_def)

lemma insert_vote_unique: "unique_votes votes \<Longrightarrow> insert_vote v votes = Some votes' \<Longrightarrow> unique_votes votes'"
  by (fastforce simp: unique_votes_def insert_vote_def list_ex_iff has_vote_def split: if_splits)

lemma withdraw_unique: "unique_votes votes \<Longrightarrow> unique_votes (withdraw votes i a)"
  by (simp add: unique_votes_def withdraw_def delete_where_def distinct_map_filter)

section \<open>Any number of callers\<close>

record quorum_system =
  qs_rows :: "approval_row list"
  qs_votes :: "vote list"
  qs_callers :: "(cast_input \<times> cast_pc) list"

text \<open>A caller whose vote was inserted.\<close>

fun voted :: "cast_pc \<Rightarrow> bool" where
  "voted AtStart = False"
| "voted AtInsert = False"
| "voted (CastFailed e) = False"
| "voted _ = True"

definition voters :: "(cast_input \<times> cast_pc) list \<Rightarrow> ident \<Rightarrow> ident set" where
  "voters callers i =
     {ca_approverId q | q pc. (q, pc) \<in> set callers \<and> ap_id (ca_row q) = i \<and> voted pc}"

text \<open>
  The steps of the system: a request is created; a caller read a pending request that needs a quorum
  and starts to vote; a caller runs its next statement; a request that needs one approver is
  approved; a request is denied, expires or is spent.
\<close>

inductive quorum_step :: "quorum_system \<Rightarrow> quorum_system \<Rightarrow> bool" where
  create: "ap_id r \<notin> ap_id ` set (qs_rows s) \<Longrightarrow> ap_status r = Pending \<Longrightarrow> ap_consumedAt r = None \<Longrightarrow>
    quorum_step s (s\<lparr>qs_rows := qs_rows s @ [r]\<rparr>)"
| join: "ca_row q \<in> set (qs_rows s) \<Longrightarrow> ap_status (ca_row q) = Pending \<Longrightarrow>
    1 < requiredApprovalsOf (ca_row q) \<Longrightarrow>
    quorum_step s (s\<lparr>qs_callers := qs_callers s @ [(q, AtStart)]\<rparr>)"
| move: "k < length (qs_callers s) \<Longrightarrow> qs_callers s ! k = (q, pc) \<Longrightarrow>
    cast_step q pc (qs_rows s, qs_votes s) = (pc', rows', votes') \<Longrightarrow>
    quorum_step s \<lparr>qs_rows = rows', qs_votes = votes', qs_callers = (qs_callers s)[k := (q, pc')]\<rparr>"
| single: "load_approval (qs_rows s) i = Some r \<Longrightarrow> requiredApprovalsOf r \<le> 1 \<Longrightarrow>
    ad_status d = Approved \<Longrightarrow>
    quorum_step s (s\<lparr>qs_rows := snd (approvals_decide i d now (qs_rows s))\<rparr>)"
| deny: "ad_status d = Denied \<Longrightarrow>
    quorum_step s (s\<lparr>qs_rows := snd (approvals_decide i d now (qs_rows s))\<rparr>)"
| expire: "quorum_step s (s\<lparr>qs_rows := snd (approvals_expire i (qs_rows s))\<rparr>)"
| spend: "quorum_step s (s\<lparr>qs_rows := snd (approvals_consume k (qs_rows s))\<rparr>)"

definition quorum_start :: "quorum_system \<Rightarrow> bool" where
  "quorum_start s \<longleftrightarrow> s = \<lparr>qs_rows = [], qs_votes = [], qs_callers = []\<rparr>"

definition requester :: "approval_row \<Rightarrow> ident set" where
  "requester r = {ap_userId r, ap_agentId r}"

definition enough :: "quorum_system \<Rightarrow> approval_row \<Rightarrow> bool" where
  "enough s r \<longleftrightarrow> requiredApprovalsOf r \<le> card (voters (qs_callers s) (ap_id r))"

definition caller_ok :: "quorum_system \<Rightarrow> cast_input \<times> cast_pc \<Rightarrow> bool" where
  "caller_ok s c \<longleftrightarrow>
     (case c of (q, pc) \<Rightarrow>
        1 < requiredApprovalsOf (ca_row q)
        \<and> request_fields (ca_row q) \<in> request_fields ` set (qs_rows s)
        \<and> (voted pc \<or> pc = AtInsert \<longrightarrow> ca_approverId q \<notin> requester (ca_row q))
        \<and> (\<forall>l. pc = AtDecide l \<longrightarrow> enough s (ca_row q)))"

definition quorum_inv :: "quorum_system \<Rightarrow> bool" where
  "quorum_inv s \<longleftrightarrow>
     unique_keys ap_id (qs_rows s) \<and> unique_votes (qs_votes s)
     \<and> (\<forall>v\<in>set (qs_votes s). vo_approverId v \<in> voters (qs_callers s) (vo_approvalId v))
     \<and> (\<forall>c\<in>set (qs_callers s). caller_ok s c)
     \<and> (\<forall>r\<in>set (qs_rows s). ap_status r = Approved \<longrightarrow> 1 < requiredApprovalsOf r \<longrightarrow> enough s r)"

lemma finite_voters [simp]: "finite (voters callers i)"
proof -
  have "voters callers i \<subseteq> (ca_approverId \<circ> fst) ` set callers"
    by (force simp: voters_def)
  then show ?thesis by (rule finite_subset) simp
qed

lemma request_fields_eqD:
  "request_fields r = request_fields r' \<Longrightarrow>
   ap_id r = ap_id r' \<and> requiredApprovalsOf r = requiredApprovalsOf r' \<and> requester r = requester r'
   \<and> ap_expiresAt r = ap_expiresAt r'"
  by (simp add: request_fields_def requiredApprovalsOf_def requester_def)

text \<open>The parts of the invariant follow from what a step keeps and adds.\<close>

lemma enough_mono:
  "(\<And>i. voters (qs_callers s) i \<subseteq> voters (qs_callers s') i) \<Longrightarrow> enough s r \<Longrightarrow> enough s' r"
  unfolding enough_def by (rule order_trans [OF _ card_mono [OF finite_voters]])

lemma enough_fields: "request_fields r = request_fields r' \<Longrightarrow> enough s r = enough s r'"
  using request_fields_eqD [of r r'] by (simp add: enough_def)

lemma voters_append: "voters callers i \<subseteq> voters (callers @ cs) i"
  by (auto simp: voters_def)

lemma in_list_update: "x \<in> set xs \<Longrightarrow> x \<in> set (xs[k := y]) \<or> x = xs ! k"
  by (metis in_set_conv_nth length_list_update nth_list_update_neq)

lemma votersI: "(q, pc) \<in> set callers \<Longrightarrow> voted pc \<Longrightarrow> ca_approverId q \<in> voters callers (ap_id (ca_row q))"
  by (auto simp: voters_def)

lemma voters_update:
  assumes k: "k < length callers" "callers ! k = (q, pc)" and v: "voted pc \<Longrightarrow> voted pc'"
  shows "voters callers i \<subseteq> voters (callers[k := (q, pc')]) i"
proof
  fix a assume "a \<in> voters callers i"
  then obtain q' pc'' where m: "(q', pc'') \<in> set callers" "ap_id (ca_row q') = i" "voted pc''"
    "a = ca_approverId q'" by (auto simp: voters_def)
  from in_list_update [OF m(1), of k "(q, pc')"] show "a \<in> voters (callers[k := (q, pc')]) i"
  proof
    assume "(q', pc'') = callers ! k"
    with k v m(3) have "q' = q" "voted pc'" by auto
    then show ?thesis using votersI [OF set_update_memI [OF k(1)], of pc' q] m(2,4) by simp
  qed (use m votersI in blast)
qed

lemma decide_rows:
  "r' \<in> set (snd (approvals_decide i d now rows)) \<Longrightarrow>
   r' \<in> set rows \<or> (\<exists>r\<in>set rows. ap_id r = i \<and> ap_status r = Pending \<and> now < ap_expiresAt r
      \<and> request_fields r' = request_fields r \<and> ap_status r' = ad_status d)"
  by (auto simp: approvals_decide_def flip_def set_update_where request_fields_def)

lemma expire_rows:
  "r' \<in> set (snd (approvals_expire i rows)) \<Longrightarrow> r' \<in> set rows \<or> ap_status r' = Expired"
  by (auto simp: approvals_expire_def flip_def set_update_where)

lemma spend_rows:
  "r' \<in> set (snd (approvals_consume k rows)) \<Longrightarrow>
   \<exists>r\<in>set rows. request_fields r' = request_fields r \<and> ap_status r' = ap_status r"
  by (cases k) (auto simp: approvals_consume_def flip_def set_update_where request_fields_def)

lemma quorum_inv_rows:
  assumes inv: "quorum_inv s" and fields: "map request_fields rows' = map request_fields (qs_rows s)"
    and approved: "\<And>r. r \<in> set rows' \<Longrightarrow> ap_status r = Approved \<Longrightarrow> 1 < requiredApprovalsOf r \<Longrightarrow> enough s r"
  shows "quorum_inv (s\<lparr>qs_rows := rows'\<rparr>)"
proof -
  have ids: "map ap_id rows' = map ap_id (qs_rows s)"
    using arg_cong [OF fields, of "map fst"] by (simp add: request_fields_def o_def)
  have img: "request_fields ` set rows' = request_fields ` set (qs_rows s)"
    using arg_cong [OF fields, of set] by simp
  have e: "enough (s\<lparr>qs_rows := rows'\<rparr>) r = enough s r" for r by (simp add: enough_def)
  have c: "caller_ok (s\<lparr>qs_rows := rows'\<rparr>) c = caller_ok s c" for c
    by (simp add: caller_ok_def img e)
  from inv show ?thesis
    unfolding quorum_inv_def by (simp add: unique_keys_def ids c e approved)
qed

text \<open>What one statement of a caller does to the tables and to its counter.\<close>

lemma decide_eq_fields:
  "approvals_decide i d now rows = (b, rows') \<Longrightarrow> map request_fields rows' = map request_fields rows"
  using approvals_keep_fields(1) by (metis snd_conv)

lemma decide_eq_approved:
  "approvals_decide i d now rows = (b, rows') \<Longrightarrow> r \<in> set rows' \<Longrightarrow>
   r \<in> set rows \<or> ap_id r = i"
  using decide_rows request_fields_eqD by (metis snd_conv)

lemmas cast_splits = if_splits option.splits prod.splits bool.splits

lemma cast_step_fields:
  "cast_step q pc (rows, votes) = (pc', rows', votes') \<Longrightarrow> map request_fields rows' = map request_fields rows"
  by (cases pc) (auto simp: Let_def dest: decide_eq_fields split: cast_splits)

lemma cast_step_voted: "cast_step q pc (rows, votes) = (pc', rows', votes') \<Longrightarrow> voted pc \<Longrightarrow> voted pc'"
  by (cases pc) (auto simp: Let_def split: cast_splits)

lemma cast_step_unique:
  "cast_step q pc (rows, votes) = (pc', rows', votes') \<Longrightarrow> unique_votes votes \<Longrightarrow> unique_votes votes'"
  by (cases pc) (auto simp: Let_def insert_vote_unique withdraw_unique split: cast_splits)

lemma cast_step_votes:
  "cast_step q pc (rows, votes) = (pc', rows', votes') \<Longrightarrow> v \<in> set votes' \<Longrightarrow>
   v \<in> set votes \<or> vo_approvalId v = ap_id (ca_row q) \<and> vo_approverId v = ca_approverId q \<and> voted pc'"
  by (cases pc) (auto simp: Let_def insert_vote_def withdraw_def table_simps split: cast_splits)

lemma cast_step_other:
  "cast_step q pc (rows, votes) = (pc', rows', votes') \<Longrightarrow> voted pc' \<or> pc' = AtInsert \<Longrightarrow>
   (voted pc \<or> pc = AtInsert \<longrightarrow> ca_approverId q \<notin> requester (ca_row q)) \<Longrightarrow>
   ca_approverId q \<notin> requester (ca_row q)"
  by (cases pc) (auto simp: Let_def requester_def split: cast_splits)

lemma cast_step_counted:
  "cast_step q pc (rows, votes) = (AtDecide l, rows', votes') \<Longrightarrow>
   requiredApprovalsOf (ca_row q) \<le> length (listApprovers votes (ap_id (ca_row q)))"
  by (cases pc) (auto simp: Let_def split: cast_splits)

lemma cast_step_approved:
  "cast_step q pc (rows, votes) = (pc', rows', votes') \<Longrightarrow> r \<in> set rows' \<Longrightarrow>
   r \<in> set rows \<or> (\<exists>l. pc = AtDecide l) \<and> ap_id r = ap_id (ca_row q)"
  by (cases pc) (auto simp: Let_def dest: decide_eq_approved split: cast_splits)

lemma quorum_inv_move:
  assumes inv: "quorum_inv s" and k: "k < length (qs_callers s)" "qs_callers s ! k = (q, pc)"
    and step: "cast_step q pc (qs_rows s, qs_votes s) = (pc', rows', votes')"
  shows "quorum_inv \<lparr>qs_rows = rows', qs_votes = votes', qs_callers = (qs_callers s)[k := (q, pc')]\<rparr>"
    (is "quorum_inv ?s'")
proof -
  let ?i = "ap_id (ca_row q)" and ?callers = "(qs_callers s)[k := (q, pc')]"
  have q: "caller_ok s (q, pc)" using inv k by (metis nth_mem quorum_inv_def)
  have mono: "voters (qs_callers s) i \<subseteq> voters (qs_callers ?s') i" for i
    using voters_update [OF k cast_step_voted [OF step]] by simp
  have enough: "enough s r \<Longrightarrow> enough ?s' r" for r by (rule enough_mono [OF mono])
  note fields = cast_step_fields [OF step]
  have ids: "map ap_id rows' = map ap_id (qs_rows s)"
    using arg_cong [OF fields, of "map fst"] by (simp add: request_fields_def o_def)
  have img: "request_fields ` set rows' = request_fields ` set (qs_rows s)"
    using arg_cong [OF fields, of set] by simp
  have votes: "vo_approverId v \<in> voters ?callers (vo_approvalId v)" if v: "v \<in> set votes'" for v
    using cast_step_votes [OF step v]
  proof
    assume "v \<in> set (qs_votes s)"
    then have "vo_approverId v \<in> voters (qs_callers s) (vo_approvalId v)"
      using inv by (simp add: quorum_inv_def)
    with mono show ?thesis by auto
  next
    assume a: "vo_approvalId v = ?i \<and> vo_approverId v = ca_approverId q \<and> voted pc'"
    with votersI [OF set_update_memI [OF k(1)], of pc' q] show ?thesis by simp
  qed
  have counted: "enough s (ca_row q)" if "pc' = AtDecide l" for l
  proof -
    have "requiredApprovalsOf (ca_row q) \<le> length (listApprovers (qs_votes s) ?i)"
      using cast_step_counted step that by blast
    also have "\<dots> = card (set (listApprovers (qs_votes s) ?i))"
      using approvers_distinct inv by (simp add: distinct_card quorum_inv_def)
    also have "\<dots> \<le> card (voters (qs_callers s) ?i)"
      using inv by (intro card_mono) (auto simp: sorted_approvers_set quorum_inv_def)
    finally show ?thesis by (simp add: enough_def)
  qed
  have "caller_ok ?s' (q, pc')"
    using q cast_step_other [OF step] counted enough img by (auto simp: caller_ok_def)
  moreover have "caller_ok ?s' c" if "c \<in> set (qs_callers s)" for c
    using that inv enough by (fastforce simp: caller_ok_def quorum_inv_def img split: prod.splits)
  ultimately have callers: "\<forall>c\<in>set ?callers. caller_ok ?s' c"
    using set_update_subset_insert by fastforce
  have approved: "enough ?s' r"
    if r: "r \<in> set rows'" "ap_status r = Approved" "1 < requiredApprovalsOf r" for r
    using cast_step_approved [OF step r(1)]
  proof
    assume "r \<in> set (qs_rows s)"
    with r inv enough show ?thesis by (auto simp: quorum_inv_def)
  next
    assume a: "(\<exists>l. pc = AtDecide l) \<and> ap_id r = ?i"
    then have e: "enough s (ca_row q)" using q by (auto simp: caller_ok_def)
    from q have "request_fields (ca_row q) \<in> request_fields ` set (qs_rows s)"
      by (simp add: caller_ok_def)
    then obtain row where row: "row \<in> set (qs_rows s)" "request_fields row = request_fields (ca_row q)"
      by (metis image_iff)
    from r(1) have "request_fields r \<in> request_fields ` set (qs_rows s)" by (simp flip: img)
    then obtain row' where row': "row' \<in> set (qs_rows s)" "request_fields row' = request_fields r"
      by (metis image_iff)
    have "ap_id row = ap_id row'"
      using a request_fields_eqD [OF row(2)] request_fields_eqD [OF row'(2)] by simp
    moreover have "unique_keys ap_id (qs_rows s)" using inv by (simp add: quorum_inv_def)
    ultimately have "row = row'" using unique_keysD [OF _ row(1) row'(1)] by blast
    with row row' have "request_fields r = request_fields (ca_row q)" by simp
    then have "enough ?s' r = enough ?s' (ca_row q)" by (rule enough_fields)
    with enough [OF e] show ?thesis by blast
  qed
  show ?thesis
    using inv votes callers approved cast_step_unique [OF step]
    by (simp add: quorum_inv_def unique_keys_def ids)
qed

lemma quorum_inv_step:
  assumes inv: "quorum_inv s" and "quorum_step s t"
  shows "quorum_inv t"
  using assms(2)
proof cases
  case (create r)
  have "enough t x = enough s x" for x by (simp add: enough_def create(1))
  moreover have "caller_ok s c \<Longrightarrow> caller_ok t c" for c
    using calculation by (auto simp: caller_ok_def create(1) split: prod.splits)
  ultimately show ?thesis
    using inv create by (auto simp: quorum_inv_def unique_keys_def)
next
  case (join q)
  have mono: "voters (qs_callers s) i \<subseteq> voters (qs_callers t) i" for i
    using voters_append join(1) by simp
  have e: "enough s r \<Longrightarrow> enough t r" for r by (rule enough_mono [OF mono])
  have "caller_ok t c" if "c \<in> set (qs_callers s)" for c
    using that inv e by (fastforce simp: caller_ok_def quorum_inv_def join(1) split: prod.splits)
  moreover have "caller_ok t (q, AtStart)" using join by (auto simp: caller_ok_def)
  moreover have "vo_approverId v \<in> voters (qs_callers t) (vo_approvalId v)" if "v \<in> set (qs_votes s)" for v
    using that inv mono by (auto simp: quorum_inv_def)
  ultimately show ?thesis using inv e join(1) by (auto simp: quorum_inv_def)
next
  case (move k q pc pc' rows' votes')
  with quorum_inv_move inv show ?thesis by blast
next
  case (single i r d now)
  from load_SomeD [OF single(2)] have r: "r \<in> set (qs_rows s)" "ap_id r = i" by auto
  show ?thesis unfolding single(1)
  proof (rule quorum_inv_rows [OF inv])
    show "map request_fields (snd (approvals_decide i d now (qs_rows s))) = map request_fields (qs_rows s)"
      by (rule approvals_keep_fields)
    fix x assume x: "x \<in> set (snd (approvals_decide i d now (qs_rows s)))" "ap_status x = Approved"
      "1 < requiredApprovalsOf x"
    from decide_rows [OF x(1)] show "enough s x"
    proof
      assume "\<exists>r\<in>set (qs_rows s). ap_id r = i \<and> ap_status r = Pending \<and> now < ap_expiresAt r
        \<and> request_fields x = request_fields r \<and> ap_status x = ad_status d"
      then obtain y where y: "y \<in> set (qs_rows s)" "ap_id y = i" "request_fields x = request_fields y" by blast
      have "unique_keys ap_id (qs_rows s)" using inv by (simp add: quorum_inv_def)
      with r y have "y = r" using unique_keysD by fastforce
      with request_fields_eqD [OF y(3)] x(3) single(3) show ?thesis by simp
    qed (use x inv in \<open>auto simp: quorum_inv_def\<close>)
  qed
next
  case (deny d i now)
  show ?thesis unfolding deny(1)
  proof (rule quorum_inv_rows [OF inv])
    fix x assume x: "x \<in> set (snd (approvals_decide i d now (qs_rows s)))" "ap_status x = Approved"
      "1 < requiredApprovalsOf x"
    from decide_rows [OF x(1)] show "enough s x" using x(2,3) deny(2) inv by (auto simp: quorum_inv_def)
  qed (rule approvals_keep_fields)
next
  case (expire i)
  show ?thesis unfolding expire(1)
  proof (rule quorum_inv_rows [OF inv])
    fix x assume x: "x \<in> set (snd (approvals_expire i (qs_rows s)))" "ap_status x = Approved"
      "1 < requiredApprovalsOf x"
    from expire_rows [OF x(1)] show "enough s x" using x(2,3) inv by (auto simp: quorum_inv_def)
  qed (rule approvals_keep_fields)
next
  case (spend k)
  show ?thesis unfolding spend(1)
  proof (rule quorum_inv_rows [OF inv])
    fix x assume x: "x \<in> set (snd (approvals_consume k (qs_rows s)))" "ap_status x = Approved"
      "1 < requiredApprovalsOf x"
    from spend_rows [OF x(1)] obtain y where y: "y \<in> set (qs_rows s)" "request_fields x = request_fields y"
      "ap_status x = ap_status y" by blast
    with x inv request_fields_eqD [OF y(2)] have "enough s y" by (auto simp: quorum_inv_def)
    then show "enough s x" using enough_fields [OF y(2)] by simp
  qed (rule approvals_keep_fields)
qed

interpretation quorum: machine quorum_start quorum_step quorum_inv
proof
  fix s assume "quorum_start s"
  then show "quorum_inv s" by (simp add: quorum_start_def quorum_inv_def unique_keys_def unique_votes_def)
qed (rule quorum_inv_step)

text \<open>The requester is never among the voters.\<close>

lemma voters_not_requester:
  assumes "quorum_inv s" and "r \<in> set (qs_rows s)"
  shows "voters (qs_callers s) (ap_id r) \<inter> requester r = {}"
proof -
  have "ca_approverId q \<notin> requester r"
    if c: "(q, pc) \<in> set (qs_callers s)" "ap_id (ca_row q) = ap_id r" "voted pc" for q pc
  proof -
    from c assms(1) have ok: "caller_ok s (q, pc)" by (auto simp: quorum_inv_def)
    then have "request_fields (ca_row q) \<in> request_fields ` set (qs_rows s)" by (simp add: caller_ok_def)
    then obtain y where y: "y \<in> set (qs_rows s)" "request_fields (ca_row q) = request_fields y"
      by (metis image_iff)
    have u: "unique_keys ap_id (qs_rows s)" using assms(1) by (simp add: quorum_inv_def)
    have "y = r" using unique_keysD [OF u y(1) assms(2)] c(2) request_fields_eqD [OF y(2)] by simp
    with y(2) ok c(3) request_fields_eqD [OF y(2)] show ?thesis by (simp add: caller_ok_def)
  qed
  then show ?thesis by (auto simp: voters_def)
qed

text \<open>
  C14: nobody approves alone what needs several people. In every reachable state, whatever the
  interleaving of voters, denials, expiries and spends, an approved request that needs a quorum
  has at least that many distinct people whose vote was inserted, and neither its user nor its
  agent is one of them.
\<close>

theorem quorum_needs_distinct_approvers:
  assumes "reaches quorum_start quorum_step s"
    and "r \<in> set (qs_rows s)" and "ap_status r = Approved" and "1 < requiredApprovalsOf r"
  shows "requiredApprovalsOf r \<le> card (voters (qs_callers s) (ap_id r))
    \<and> ap_userId r \<notin> voters (qs_callers s) (ap_id r)
    \<and> ap_agentId r \<notin> voters (qs_callers s) (ap_id r)"
  using quorum.inv_reachable [OF assms(1)] voters_not_requester assms(2-4)
  by (fastforce simp: quorum_inv_def enough_def requester_def)

section \<open>Running callers in a given order\<close>

definition move_caller :: "nat \<Rightarrow> quorum_system \<Rightarrow> quorum_system" where
  "move_caller k s =
     (case qs_callers s ! k of (q, pc) \<Rightarrow>
        (case cast_step q pc (qs_rows s, qs_votes s) of (pc', rows', votes') \<Rightarrow>
           \<lparr>qs_rows = rows', qs_votes = votes', qs_callers = (qs_callers s)[k := (q, pc')]\<rparr>))"

fun move_callers :: "nat list \<Rightarrow> quorum_system \<Rightarrow> quorum_system" where
  "move_callers [] s = s"
| "move_callers (k # ks) s = move_callers ks (move_caller k s)"

lemma move_caller_length [simp]: "length (qs_callers (move_caller k s)) = length (qs_callers s)"
  by (simp add: move_caller_def split: prod.splits)

lemma move_callers_reaches:
  "reaches quorum_start quorum_step s \<Longrightarrow> \<forall>k\<in>set ks. k < length (qs_callers s) \<Longrightarrow>
   reaches quorum_start quorum_step (move_callers ks s)"
proof (induction ks arbitrary: s)
  case (Cons k ks)
  obtain q pc where c: "qs_callers s ! k = (q, pc)" by fastforce
  obtain pc' rows' votes' where st: "cast_step q pc (qs_rows s, qs_votes s) = (pc', rows', votes')"
    by (rule prod_cases3)
  have "quorum_step s (move_caller k s)"
    using quorum_step.move [OF _ c st] Cons.prems(2) by (simp add: move_caller_def c st)
  with Cons.prems(1) have "reaches quorum_start quorum_step (move_caller k s)" by (rule reaches_step)
  with Cons show ?case by simp
qed simp

definition pair_request :: approval_row where
  "pair_request =
     \<lparr>ap_id = ''r'', ap_agentId = ''g'', ap_userId = ''u'', ap_action = ''w'', ap_resource = ''x'',
      ap_arguments = None, ap_status = Pending, ap_expiresAt = 9, ap_respondedAt = None,
      ap_respondedBy = None, ap_consumedAt = None, ap_requiredAcr = None, ap_maxAuthAge = None,
      ap_requiredApprovals = Some 2, ap_createdAt = 0\<rparr>"

definition vote_by :: "ident \<Rightarrow> time \<Rightarrow> cast_input" where
  "vote_by a t = \<lparr>ca_row = pair_request, ca_approverId = a, ca_now = t, ca_acr = None\<rparr>"

definition two_callers :: quorum_system where
  "two_callers =
     \<lparr>qs_rows = [pair_request], qs_votes = [],
      qs_callers = [(vote_by ''A'' 1, AtStart), (vote_by ''B'' 2, AtStart)]\<rparr>"

lemma two_callers_reaches: "reaches quorum_start quorum_step two_callers"
proof -
  let ?s = "\<lparr>qs_rows = [], qs_votes = [], qs_callers = []\<rparr>"
  let ?r = "?s\<lparr>qs_rows := [] @ [pair_request]\<rparr>"
  have "reaches quorum_start quorum_step ?s" by (rule reaches_init) (simp add: quorum_start_def)
  moreover have "quorum_step ?s ?r"
    using quorum_step.create [of pair_request ?s] by (simp add: pair_request_def)
  ultimately have r: "reaches quorum_start quorum_step ?r" by (rule reaches_step)
  have join: "quorum_step t (t\<lparr>qs_callers := qs_callers t @ [(vote_by a n, AtStart)]\<rparr>)"
    if "qs_rows t = [pair_request]" for t a n
    by (rule quorum_step.join) (simp_all add: that vote_by_def pair_request_def requiredApprovalsOf_def)
  from reaches_step [OF reaches_step [OF r join [of _ "''A''" 1]] join [of _ "''B''" 2]]
  show ?thesis by (simp add: two_callers_def)
qed

text \<open>Caller A inserts its vote and counts one; B inserts, counts two, approves; A looks again.\<close>

definition race_order :: "nat list" where
  "race_order = [0, 0, 0, 1, 1, 1, 1, 0, 0]"

lemmas race_simps = move_caller_def two_callers_def vote_by_def pair_request_def listApprovers_def
  insert_vote_def has_vote_def requiredApprovalsOf_def vote_order_def load_approval_def
  approvals_decide_def flip_def count_where_def withdraw_def delete_where_def Let_def

lemma race_run:
  "move_callers race_order two_callers =
     \<lparr>qs_rows = [pair_request\<lparr>ap_status := Approved, ap_respondedAt := Some 2, ap_respondedBy := Some ''B''\<rparr>],
      qs_votes = [\<lparr>vo_approvalId = ''r'', vo_approverId = ''B'', vo_decidedAt = 2, vo_approverAcr = None\<rparr>],
      qs_callers = [(vote_by ''A'' 1, CastDone LostVote), (vote_by ''B'' 2, CastDone (ApprovedVote [''A'', ''B'']))]\<rparr>"
  by (simp add: race_order_def race_simps)

text \<open>
  A counted vote can be withdrawn. There is an interleaving of two approvers of a request that
  needs two in which B's call counts A's vote and approves the request with the quorum A, B, and
  A's call then finds the request no longer pending, deletes A's vote and reports it lost: the
  request is approved with one vote left of the two it needs.
\<close>

theorem counted_vote_withdrawn:
  "\<exists>s. reaches quorum_start quorum_step s
     \<and> map ap_status (qs_rows s) = [Approved] \<and> map requiredApprovalsOf (qs_rows s) = [2]
     \<and> listApprovers (qs_votes s) ''r'' = [''B'']
     \<and> map snd (qs_callers s) = [CastDone LostVote, CastDone (ApprovedVote [''A'', ''B''])]"
proof (intro exI conjI)
  let ?s = "move_callers race_order two_callers"
  show "reaches quorum_start quorum_step ?s"
    by (rule move_callers_reaches [OF two_callers_reaches]) (simp add: race_order_def two_callers_def)
  show "map ap_status (qs_rows ?s) = [Approved]" "map requiredApprovalsOf (qs_rows ?s) = [2]"
    "map snd (qs_callers ?s) = [CastDone LostVote, CastDone (ApprovedVote [''A'', ''B''])]"
    unfolding race_run by (simp_all add: requiredApprovalsOf_def pair_request_def)
  show "listApprovers (qs_votes ?s) ''r'' = [''B'']"
    unfolding race_run by (simp add: listApprovers_def)
qed

theorem quorum_needs_distinct_approvers_witness:
  "2 \<le> card (voters (qs_callers (move_callers race_order two_callers)) ''r'')
   \<and> ''u'' \<notin> voters (qs_callers (move_callers race_order two_callers)) ''r''"
proof -
  let ?s = "move_callers race_order two_callers"
  let ?r = "pair_request\<lparr>ap_status := Approved, ap_respondedAt := Some 2, ap_respondedBy := Some ''B''\<rparr>"
  have "reaches quorum_start quorum_step ?s"
    by (rule move_callers_reaches [OF two_callers_reaches]) (simp add: race_order_def two_callers_def)
  moreover have "?r \<in> set (qs_rows ?s)" unfolding race_run by simp
  moreover have "ap_status ?r = Approved" "1 < requiredApprovalsOf ?r"
    by (simp_all add: requiredApprovalsOf_def pair_request_def)
  ultimately show ?thesis
    using quorum_needs_distinct_approvers [of ?s ?r]
    by (simp add: requiredApprovalsOf_def pair_request_def)
qed

lemma decide_final:
  "approvals_decide i d now rows = (b, rows') \<Longrightarrow> r \<in> set rows \<Longrightarrow> ap_status r \<noteq> Pending \<Longrightarrow> r \<in> set rows'"
  unfolding approvals_decide_def flip_def
  by (clarsimp simp: set_update_where image_iff)

lemma cast_step_final:
  "cast_step q pc (rows, votes) = (pc', rows', votes') \<Longrightarrow> r \<in> set rows \<Longrightarrow> ap_status r \<noteq> Pending \<Longrightarrow>
   r \<in> set rows'"
  by (cases pc) (auto simp: Let_def dest: decide_final split: cast_splits)

text \<open>
  Decisions are final. No step of the system changes the status of a request that is not
  pending, and no request disappears.
\<close>

theorem decisions_final:
  assumes "quorum_step s t" and "r \<in> set (qs_rows s)" and "ap_status r \<noteq> Pending"
  shows "\<exists>r'\<in>set (qs_rows t). request_fields r' = request_fields r \<and> ap_status r' = ap_status r
    \<and> (ap_consumedAt r \<noteq> None \<longrightarrow> ap_consumedAt r' = ap_consumedAt r)"
  using assms
proof cases
  case (move k q pc pc' rows' votes')
  with cast_step_final assms(2,3) show ?thesis by auto
next
  case (single i x d now)
  with decide_final [OF surjective_pairing] assms(2,3) show ?thesis by auto
next
  case (deny d i now)
  with decide_final [OF surjective_pairing] assms(2,3) show ?thesis by auto
next
  case (expire i)
  have "r \<in> set (qs_rows t)"
    using assms(2,3) unfolding expire(1) approvals_expire_def flip_def
    by (clarsimp simp: set_update_where image_iff)
  then show ?thesis by blast
next
  case (spend k)
  obtain sp now where k: "k = (sp, now)" by fastforce
  let ?f = "\<lambda>x. if spendable sp now x then ap_consumedAt_update (\<lambda>_. Some now) x else x"
  have "?f r \<in> set (qs_rows t)"
    using assms(2) unfolding spend(1) k approvals_consume_def flip_def
    by (simp add: set_update_where)
  moreover have "request_fields (?f r) = request_fields r" "ap_status (?f r) = ap_status r"
    "ap_consumedAt r \<noteq> None \<longrightarrow> ap_consumedAt (?f r) = ap_consumedAt r"
    by (auto simp: request_fields_def spendable_def)
  ultimately show ?thesis by blast
qed auto

theorem decisions_final_witness:
  "\<exists>r'\<in>set (snd (approvals_expire ''r'' (qs_rows (move_callers race_order two_callers)))).
     ap_status r' = Approved"
proof -
  let ?s = "move_callers race_order two_callers"
  let ?r = "pair_request\<lparr>ap_status := Approved, ap_respondedAt := Some 2, ap_respondedBy := Some ''B''\<rparr>"
  have "quorum_step ?s (?s\<lparr>qs_rows := snd (approvals_expire ''r'' (qs_rows ?s))\<rparr>)"
    by (rule quorum_step.expire)
  moreover have "?r \<in> set (qs_rows ?s)" unfolding race_run by simp
  moreover have "ap_status ?r \<noteq> Pending" by simp
  ultimately have "\<exists>r'\<in>set (qs_rows (?s\<lparr>qs_rows := snd (approvals_expire ''r'' (qs_rows ?s))\<rparr>)).
      request_fields r' = request_fields ?r \<and> ap_status r' = ap_status ?r
      \<and> (ap_consumedAt ?r \<noteq> None \<longrightarrow> ap_consumedAt r' = ap_consumedAt ?r)"
    by (rule decisions_final)
  then show ?thesis by auto
qed

end
