(* ===== verification/ApprovalModule.thy ===== *)
theory ApprovalModule
  imports ApprovalQuorum
begin

text \<open>
  The approval module: \<open>approval/approval.ts\<close>, \<open>approval/events.ts\<close> and the rest of
  \<open>approval/shared.ts\<close>. A module call takes the tables and returns its answer with the new
  tables; audit rows and decision events are lists in the tables. Calls that read before they
  write take the tables of the read and the tables of the write, because other callers may act in
  between.
\<close>

section \<open>Data\<close>

record approval_input =
  rx_agentId :: ident
  rx_userId :: ident
  rx_action :: string
  rx_resource :: string
  rx_arguments :: "(string \<times> json) list option"

record request_input =
  ri_input :: approval_input
  ri_stepUp :: "auth_requirement option"
  ri_requiredApprovals :: "int option"

text \<open>\<open>ApprovalConfig\<close>; the per-request callbacks are functions, absent when not configured.\<close>

record approval_config =
  cf_ttl :: "int option"
  cf_requireAcr :: "string option"
  cf_maxAuthAge :: "int option"
  cf_stepUp :: "(approval_input \<Rightarrow> auth_requirement option) option"
  cf_requiredApprovals :: "int option"
  cf_quorum :: "(approval_input \<Rightarrow> int option) option"

text \<open>\<open>ApprovalRequest\<close>, what callers see of a row.\<close>

record approval_view =
  av_id :: ident
  av_agentId :: ident
  av_userId :: ident
  av_action :: string
  av_resource :: string
  av_arguments :: "(string \<times> json) list option"
  av_status :: approval_status
  av_expiresAt :: time
  av_respondedAt :: "time option"
  av_respondedBy :: "ident option"
  av_requiredAcr :: "string option"
  av_maxAuthAge :: "int option"
  av_requiredApprovals :: nat
  av_approvers :: "ident list option"
  av_createdAt :: time

record approval_audit =
  au_agentId :: ident
  au_userId :: ident
  au_action :: string
  au_resource :: string
  au_allowed :: bool
  au_approverId :: "ident option"
  au_parameters :: "(string \<times> json) list"

text \<open>A lifecycle step is a status. \<open>SHAPE\<close> gives its decision.\<close>

datatype policy_decision = Allow | Deny | Escalate

fun shape :: "approval_status \<Rightarrow> bool \<times> policy_decision \<times> decision_code" where
  "shape Pending = (False, Escalate, ApprovalPending)"
| "shape Approved = (True, Allow, ApprovalGranted)"
| "shape Denied = (False, Deny, ApprovalDenied)"
| "shape Expired = (False, Deny, ApprovalExpired)"

record approval_event =
  ev_agentId :: ident
  ev_ownerId :: ident
  ev_action :: string
  ev_resource :: string
  ev_shape :: "bool \<times> policy_decision \<times> decision_code"

record approval_db =
  db_requests :: "approval_row list"
  db_votes :: "vote list"
  db_audit :: "approval_audit list"
  db_events :: "approval_event list"

datatype approval_error =
    RequestNotFound ident
  | AlreadyResolved ident approval_status
  | RequestExpired ident
  | NoLongerPending ident
  | StepUpRequired requirement_result
  | QuorumRefused quorum_error
  | UnknownAcr string
  | BadMaxAge
  | BadQuorum

definition emitApprovalEvent :: "approval_view \<Rightarrow> approval_status \<Rightarrow> approval_db \<Rightarrow> approval_db" where
  "emitApprovalEvent v step db =
     db\<lparr>db_events := db_events db @
          [\<lparr>ev_agentId = av_agentId v, ev_ownerId = av_userId v, ev_action = av_action v,
            ev_resource = av_resource v, ev_shape = shape step\<rparr>]\<rparr>"

definition record_audit :: "approval_audit \<Rightarrow> approval_db \<Rightarrow> approval_db" where
  "record_audit a db = db\<lparr>db_audit := db_audit db @ [a]\<rparr>"

definition rowToApproval :: "approval_row \<Rightarrow> ident list option \<Rightarrow> approval_view" where
  "rowToApproval row approvers =
     \<lparr>av_id = ap_id row, av_agentId = ap_agentId row, av_userId = ap_userId row,
      av_action = ap_action row, av_resource = ap_resource row, av_arguments = ap_arguments row,
      av_status = ap_status row, av_expiresAt = ap_expiresAt row,
      av_respondedAt = ap_respondedAt row, av_respondedBy = ap_respondedBy row,
      av_requiredAcr = ap_requiredAcr row, av_maxAuthAge = ap_maxAuthAge row,
      av_requiredApprovals = requiredApprovalsOf row,
      av_approvers =
        (if 1 < requiredApprovalsOf row
         then Some (case approvers of Some l \<Rightarrow> l | None \<Rightarrow> []) else None),
      av_createdAt = ap_createdAt row\<rparr>"

text \<open>\<open>assertValidStepUp\<close>: the error it throws, if any.\<close>

definition assertValidStepUp :: "auth_requirement \<Rightarrow> approval_error option" where
  "assertValidStepUp rule =
     (case List.find (\<lambda>v. v \<notin> set acr_order) (acrList (rq_acr rule)) of
        Some value \<Rightarrow> Some (UnknownAcr value)
      | None \<Rightarrow>
          (case rq_maxAge rule of
             Some age \<Rightarrow> if age < 0 then Some BadMaxAge else None
           | None \<Rightarrow> None))"

definition approverEvidence :: "auth_assertion \<Rightarrow> (string \<times> json) list" where
  "approverEvidence auth =
     (case aa_acr auth of None \<Rightarrow> [] | Some acr \<Rightarrow> [(''approverAcr'', JStr acr)])
     @ (case aa_amr auth of None \<Rightarrow> [] | Some amr \<Rightarrow> [(''approverAmr'', JArr (map JStr amr))])
     @ (case aa_authTime auth of None \<Rightarrow> [] | Some t \<Rightarrow> [(''approverAuthTime'', JNum t)])"

definition row_audit :: "approval_row \<Rightarrow> string \<Rightarrow> bool \<Rightarrow> ident option \<Rightarrow> (string \<times> json) list \<Rightarrow> approval_audit" where
  "row_audit row act allowed approver extra =
     \<lparr>au_agentId = ap_agentId row, au_userId = ap_userId row, au_action = ''approval.'' @ act,
      au_resource = ''approval:'' @ ap_id row, au_allowed = allowed, au_approverId = approver,
      au_parameters =
        [(''approvalId'', JStr (ap_id row)), (''action'', JStr (ap_action row)),
         (''resource'', JStr (ap_resource row))] @ extra\<rparr>"

section \<open>Creating a request\<close>

definition request_rule :: "approval_config \<Rightarrow> request_input \<Rightarrow> auth_requirement option" where
  "request_rule cf input =
     (case ri_stepUp input of
        Some rule \<Rightarrow> Some rule
      | None \<Rightarrow>
          (case Option.bind (cf_stepUp cf) (\<lambda>f. f (ri_input input)) of
             Some rule \<Rightarrow> Some rule
           | None \<Rightarrow>
               (if cf_requireAcr cf \<noteq> None \<or> cf_maxAuthAge cf \<noteq> None
                then Some \<lparr>rq_acr = map_option AcrString (cf_requireAcr cf), rq_maxAge = cf_maxAuthAge cf\<rparr>
                else None)))"

definition request_quorum :: "approval_config \<Rightarrow> request_input \<Rightarrow> int" where
  "request_quorum cf input =
     (case ri_requiredApprovals input of
        Some n \<Rightarrow> n
      | None \<Rightarrow>
          (case Option.bind (cf_quorum cf) (\<lambda>f. f (ri_input input)) of
             Some n \<Rightarrow> n
           | None \<Rightarrow> (case cf_requiredApprovals cf of Some n \<Rightarrow> n | None \<Rightarrow> 1)))"

definition new_request ::
  "approval_config \<Rightarrow> request_input \<Rightarrow> ident \<Rightarrow> time \<Rightarrow> auth_requirement option \<Rightarrow> int \<Rightarrow> approval_row" where
  "new_request cf input i now rule quorum =
     \<lparr>ap_id = i, ap_agentId = rx_agentId (ri_input input), ap_userId = rx_userId (ri_input input),
      ap_action = rx_action (ri_input input), ap_resource = rx_resource (ri_input input),
      ap_arguments = rx_arguments (ri_input input), ap_status = Pending,
      ap_expiresAt = now + (case cf_ttl cf of Some s \<Rightarrow> s | None \<Rightarrow> 300) * 1000,
      ap_respondedAt = None, ap_respondedBy = None, ap_consumedAt = None,
      ap_requiredAcr =
        (case rule of
           Some r \<Rightarrow> nonempty (join_on CHR '' '' (acrList (rq_acr r)))
         | None \<Rightarrow> None),
      ap_maxAuthAge = Option.bind rule rq_maxAge,
      ap_requiredApprovals = (if 1 < quorum then Some (nat quorum) else None),
      ap_createdAt = now\<rparr>"

text \<open>\<open>generated\<close> is the value of \<open>generateId()\<close>, random and so assumed fresh where it matters.\<close>

definition request ::
  "approval_config \<Rightarrow> request_input \<Rightarrow> ident \<Rightarrow> time \<Rightarrow> approval_db
     \<Rightarrow> (approval_error + approval_view) \<times> approval_db" where
  "request cf input generated now db =
     (let i = ''apr_'' @ generated;
          rule = request_rule cf input;
          quorum = request_quorum cf input
      in case Option.bind rule assertValidStepUp of
           Some e \<Rightarrow> (Inl e, db)
         | None \<Rightarrow>
             if \<not> valid_quorum quorum then (Inl BadQuorum, db)
             else
               (let row = new_request cf input i now rule quorum;
                    view = rowToApproval row (Some []);
                    audit = row_audit row ''request'' True None
                      (if 1 < quorum then [(''requiredApprovals'', JNum quorum)] else [])
                in (Inr view,
                    emitApprovalEvent view Pending
                      (record_audit audit (db\<lparr>db_requests := db_requests db @ [row]\<rparr>)))))"

section \<open>Expiry\<close>

fun markExpired :: "approval_row list \<Rightarrow> approval_db \<Rightarrow> nat \<times> approval_db" where
  "markExpired [] db = (0, db)"
| "markExpired (row # rows) db =
     (case approvals_expire (ap_id row) (db_requests db) of
        (False, _) \<Rightarrow> markExpired rows db
      | (True, requests) \<Rightarrow>
          (let db1 = record_audit (row_audit row ''expire'' False None []) (db\<lparr>db_requests := requests\<rparr>);
               db2 = emitApprovalEvent (rowToApproval (row\<lparr>ap_status := Expired\<rparr>) None) Expired db1
           in case markExpired rows db2 of (n, db3) \<Rightarrow> (Suc n, db3)))"

definition cleanup :: "time \<Rightarrow> approval_db \<Rightarrow> nat \<times> approval_db" where
  "cleanup now db =
     markExpired (filter (\<lambda>r. ap_status r = Pending \<and> ap_expiresAt r < now) (db_requests db)) db"

section \<open>Decisions\<close>

definition evidence_of :: "auth_requirement option \<Rightarrow> auth_assertion option \<Rightarrow> (string \<times> json) list" where
  "evidence_of requirement authContext =
     (case (requirement, authContext) of (Some _, Some auth) \<Rightarrow> approverEvidence auth | _ \<Rightarrow> [])"

text \<open>\<open>castQuorumApproval\<close>, its vote cast without interference.\<close>

definition castQuorumApproval ::
  "approval_row \<Rightarrow> nat \<Rightarrow> ident option \<Rightarrow> auth_assertion option \<Rightarrow> auth_requirement option \<Rightarrow> time
     \<Rightarrow> approval_db \<Rightarrow> (approval_error + approval_view) \<times> approval_db" where
  "castQuorumApproval row required respondedBy authContext requirement now db =
     (case respondedBy of
        None \<Rightarrow> (Inl (QuorumRefused ApproverRequired), db)
      | Some approver \<Rightarrow>
          if approver = [] then (Inl (QuorumRefused ApproverRequired), db)
          else
            (let q = \<lparr>ca_row = row, ca_approverId = approver, ca_now = now,
                      ca_acr = (if requirement = None then None else Option.bind authContext aa_acr)\<rparr>
             in case castApproval q (db_requests db, db_votes db) of
                  (cast, requests, votes) \<Rightarrow>
                    (let db1 = db\<lparr>db_requests := requests, db_votes := votes\<rparr>;
                         finish = (\<lambda>done' approvers.
                           (let db2 = record_audit (row_audit row ''approve'' True (Some approver)
                                  ([(''approvalsReceived'', JNum (int (length approvers))),
                                    (''approvalsRequired'', JNum (int required)),
                                    (''quorumComplete'', JBool done')]
                                   @ evidence_of requirement authContext)) db1;
                                view = rowToApproval
                                  (if done' then row\<lparr>ap_status := Approved, ap_respondedAt := Some now,
                                                    ap_respondedBy := Some approver\<rparr> else row)
                                  (Some approvers)
                            in (Inr view, if done' then emitApprovalEvent view Approved db2 else db2)))
                     in case cast of
                          Inl e \<Rightarrow> (Inl (QuorumRefused e), db1)
                        | Inr LostVote \<Rightarrow> (Inl (NoLongerPending (ap_id row)), db1)
                        | Inr (PendingVote approvers) \<Rightarrow> finish False approvers
                        | Inr (ApprovedVote approvers) \<Rightarrow> finish True approvers)))"

text \<open>
  \<open>resolve\<close>: the row is read in \<open>at_read\<close>, the writes are applied to \<open>db\<close>. \<open>later\<close> is the
  clock of \<open>castQuorumApproval\<close>.
\<close>

definition resolve ::
  "ident \<Rightarrow> bool \<Rightarrow> ident option \<Rightarrow> auth_assertion option \<Rightarrow> time \<Rightarrow> time \<Rightarrow> approval_row list
     \<Rightarrow> approval_db \<Rightarrow> (approval_error + approval_view) \<times> approval_db" where
  "resolve requestId approving respondedBy authContext now later at_read db =
     (case load_approval at_read requestId of
        None \<Rightarrow> (Inl (RequestNotFound requestId), db)
      | Some row \<Rightarrow>
          if ap_status row \<noteq> Pending then (Inl (AlreadyResolved requestId (ap_status row)), db)
          else if ap_expiresAt row \<le> now then (Inl (RequestExpired requestId), snd (markExpired [row] db))
          else
            (let requirement = (if approving then requirementOf (ap_requiredAcr row) (ap_maxAuthAge row) else None);
                 verdict = (case requirement of
                              Some rule \<Rightarrow> evaluateAuthRequirement authContext rule (now div 1000)
                            | None \<Rightarrow> Met);
                 required = requiredApprovalsOf row
             in if verdict \<noteq> Met then (Inl (StepUpRequired verdict), db)
                else if approving \<and> 1 < required
                then castQuorumApproval row required respondedBy authContext requirement later db
                else
                  (let newStatus = (if approving then Approved else Denied)
                   in case approvals_decide requestId
                            \<lparr>ad_status = newStatus, ad_respondedAt = now, ad_respondedBy = respondedBy\<rparr> now
                            (db_requests db) of
                        (False, _) \<Rightarrow> (Inl (NoLongerPending requestId), db)
                      | (True, requests) \<Rightarrow>
                          (let db1 = record_audit
                                 (row_audit row (if approving then ''approve'' else ''deny'') approving respondedBy
                                    (evidence_of requirement authContext))
                                 (db\<lparr>db_requests := requests\<rparr>);
                               view = rowToApproval
                                 (row\<lparr>ap_status := newStatus, ap_respondedAt := Some now, ap_respondedBy := respondedBy\<rparr>)
                                 (if 1 < required then Some (listApprovers (db_votes db1) (ap_id row)) else None)
                           in (Inr view, emitApprovalEvent view newStatus db1)))))"

definition approve where
  "approve requestId respondedBy authContext = resolve requestId True respondedBy authContext"

definition deny where
  "deny requestId respondedBy = resolve requestId False respondedBy None"

definition decide where
  "decide requestId approving decidedBy authContext = resolve requestId approving (Some decidedBy) authContext"

section \<open>Queries\<close>

definition view_of :: "approval_db \<Rightarrow> approval_row \<Rightarrow> approval_view" where
  "view_of db row =
     rowToApproval row (if 1 < requiredApprovalsOf row then Some (listApprovers (db_votes db) (ap_id row)) else None)"

definition get_request :: "ident \<Rightarrow> approval_db \<Rightarrow> approval_view option" where
  "get_request requestId db = map_option (view_of db) (load_approval (db_requests db) requestId)"

definition listPending :: "ident option \<Rightarrow> time \<Rightarrow> approval_db \<Rightarrow> approval_view list" where
  "listPending userId now db =
     map (view_of db)
       (filter (\<lambda>r. ap_status r = Pending \<and> now < ap_expiresAt r
                    \<and> (case userId of Some u \<Rightarrow> u = [] \<or> ap_userId r = u | None \<Rightarrow> True))
          (db_requests db))"

section \<open>Requests are stored as answered\<close>

lemma load_append_new:
  "i \<notin> ap_id ` set rows \<Longrightarrow> ap_id r = i \<Longrightarrow> load_approval (rows @ [r]) i = Some r"
  by (induction rows) (auto simp: load_approval_def)

lemma request_InrD:
  assumes "request cf input generated now db = (Inr view, db')"
  shows "\<exists>row. row = new_request cf input (''apr_'' @ generated) now (request_rule cf input) (request_quorum cf input)
    \<and> view = rowToApproval row (Some []) \<and> db_requests db' = db_requests db @ [row]
    \<and> db_votes db' = db_votes db \<and> valid_quorum (request_quorum cf input)
    \<and> Option.bind (request_rule cf input) assertValidStepUp = None"
  using assms
  by (auto simp: request_def Let_def emitApprovalEvent_def record_audit_def split: option.splits if_splits)

text \<open>
  What \<open>request\<close> answers is what \<open>get\<close> reads back. With a fresh id, the request is stored
  pending with an expiry the configured time ahead, a quorum from 1 to 10 and a step-up rule that
  passed the check, every other row is kept, and looking it up returns the view the caller got.
\<close>

theorem request_get:
  assumes "request cf input generated now db = (Inr view, db')"
    and "''apr_'' @ generated \<notin> ap_id ` set (db_requests db)"
    and "listApprovers (db_votes db) (''apr_'' @ generated) = []"
  shows "get_request (av_id view) db' = Some view
    \<and> av_status view = Pending \<and> 1 \<le> av_requiredApprovals view \<and> av_requiredApprovals view \<le> 10
    \<and> av_expiresAt view = now + (case cf_ttl cf of Some s \<Rightarrow> s | None \<Rightarrow> 300) * 1000
    \<and> (\<forall>r\<in>set (db_requests db). r \<in> set (db_requests db'))"
proof -
  from request_InrD [OF assms(1)] obtain row where
    row: "row = new_request cf input (''apr_'' @ generated) now (request_rule cf input) (request_quorum cf input)"
    and view: "view = rowToApproval row (Some [])" and rows: "db_requests db' = db_requests db @ [row]"
    and votes: "db_votes db' = db_votes db" and q: "valid_quorum (request_quorum cf input)" by blast
  have i: "ap_id row = ''apr_'' @ generated" by (simp only: row new_request_def approval_row.simps)
  have "load_approval (db_requests db') (''apr_'' @ generated) = Some row"
    unfolding rows by (rule load_append_new [OF assms(2) i])
  then have "get_request (av_id view) db' = Some view"
    using assms(3) by (simp add: get_request_def view_of_def view rowToApproval_def i votes)
  moreover have "1 \<le> requiredApprovalsOf row \<and> requiredApprovalsOf row \<le> 10"
    using q by (auto simp: row new_request_def requiredApprovalsOf_def valid_quorum_def max_required_approvals_def)
  ultimately show ?thesis
    by (simp add: view rowToApproval_def rows row new_request_def)
qed

definition plain_config :: approval_config where
  "plain_config =
     \<lparr>cf_ttl = None, cf_requireAcr = None, cf_maxAuthAge = None, cf_stepUp = None,
      cf_requiredApprovals = Some 2, cf_quorum = None\<rparr>"

definition plain_input :: request_input where
  "plain_input =
     \<lparr>ri_input = \<lparr>rx_agentId = ''g'', rx_userId = ''u'', rx_action = ''w'', rx_resource = ''x'', rx_arguments = None\<rparr>,
      ri_stepUp = None, ri_requiredApprovals = None\<rparr>"

definition empty_approvals :: approval_db where
  "empty_approvals = \<lparr>db_requests = [], db_votes = [], db_audit = [], db_events = []\<rparr>"

theorem request_get_witness:
  "av_status (rowToApproval (new_request plain_config plain_input ''apr_1'' 0 None 2) (Some [])) = Pending
   \<and> av_requiredApprovals (rowToApproval (new_request plain_config plain_input ''apr_1'' 0 None 2) (Some [])) \<le> 10"
proof -
  have "request_rule plain_config plain_input = None" "request_quorum plain_config plain_input = 2"
    by (simp_all add: request_rule_def request_quorum_def plain_config_def plain_input_def)
  then have "\<exists>db'. request plain_config plain_input ''1'' 0 empty_approvals =
      (Inr (rowToApproval (new_request plain_config plain_input ''apr_1'' 0 None 2) (Some [])), db')"
    by (simp add: request_def Let_def valid_quorum_def max_required_approvals_def)
  then obtain db' where r: "request plain_config plain_input ''1'' 0 empty_approvals =
      (Inr (rowToApproval (new_request plain_config plain_input ''apr_1'' 0 None 2) (Some [])), db')" ..
  from request_get [OF r] show ?thesis
    by (simp add: empty_approvals_def listApprovers_def)
qed

section \<open>Expiry of overdue requests\<close>

definition expire_ids :: "ident set \<Rightarrow> approval_row list \<Rightarrow> approval_row list" where
  "expire_ids is = update_where (\<lambda>r. ap_id r \<in> is \<and> ap_status r = Pending) (ap_status_update (\<lambda>_. Expired))"

lemma expire_ids_insert:
  "i \<notin> is \<Longrightarrow> expire_ids is (expire_ids {i} rows) = expire_ids (insert i is) rows"
  by (induction rows) (auto simp: expire_ids_def)

lemma expire_result:
  "approvals_expire i rows = (b, rows') \<Longrightarrow>
   rows' = expire_ids {i} rows \<and> (b \<longleftrightarrow> (\<exists>r\<in>set rows. ap_id r = i \<and> ap_status r = Pending))"
  by (auto simp: approvals_expire_def expire_ids_def dest: flip_result)

lemma markExpired_all:
  assumes "distinct (map ap_id rows)"
    and "\<And>row. row \<in> set rows \<Longrightarrow> \<exists>r\<in>set (db_requests db). ap_id r = ap_id row \<and> ap_status r = Pending"
  shows "fst (markExpired rows db) = length rows
    \<and> db_requests (snd (markExpired rows db)) = expire_ids (ap_id ` set rows) (db_requests db)
    \<and> db_audit (snd (markExpired rows db)) =
        db_audit db @ map (\<lambda>row. row_audit row ''expire'' False None []) rows
    \<and> db_votes (snd (markExpired rows db)) = db_votes db"
  using assms
proof (induction rows arbitrary: db)
  case Nil
  have "update_where (\<lambda>r. False) f rs = rs" for f and rs :: "approval_row list"
    by (induction rs) auto
  then show ?case by (simp add: expire_ids_def)
next
  case (Cons row rows)
  obtain b requests where e: "approvals_expire (ap_id row) (db_requests db) = (b, requests)" by fastforce
  from expire_result [OF e] Cons.prems(2) [of row]
  have b: "b" and requests: "requests = expire_ids {ap_id row} (db_requests db)" by auto
  define db2 where "db2 = emitApprovalEvent (rowToApproval (row\<lparr>ap_status := Expired\<rparr>) None) Expired
    (record_audit (row_audit row ''expire'' False None []) (db\<lparr>db_requests := requests\<rparr>))"
  have db2: "db_requests db2 = requests" "db_votes db2 = db_votes db"
    "db_audit db2 = db_audit db @ [row_audit row ''expire'' False None []]"
    by (simp_all add: db2_def emitApprovalEvent_def record_audit_def)
  have m: "markExpired (row # rows) db = (case markExpired rows db2 of (n, db3) \<Rightarrow> (Suc n, db3))"
    using e b by (simp add: db2_def Let_def)
  have "\<exists>r\<in>set (db_requests db2). ap_id r = ap_id x \<and> ap_status r = Pending" if x: "x \<in> set rows" for x
  proof -
    from Cons.prems(2) [of x] x obtain r where r: "r \<in> set (db_requests db)" "ap_id r = ap_id x" "ap_status r = Pending"
      by auto
    moreover have "ap_id x \<noteq> ap_id row" using Cons.prems(1) imageI [OF x, of ap_id] by auto
    ultimately have "r \<in> set requests" unfolding requests expire_ids_def set_update_where by force
    with r show ?thesis unfolding db2(1) by blast
  qed
  moreover have "distinct (map ap_id rows)" using Cons.prems(1) by simp
  ultimately have ih: "fst (markExpired rows db2) = length rows
    \<and> db_requests (snd (markExpired rows db2)) = expire_ids (ap_id ` set rows) (db_requests db2)
    \<and> db_audit (snd (markExpired rows db2)) =
        db_audit db2 @ map (\<lambda>row. row_audit row ''expire'' False None []) rows
    \<and> db_votes (snd (markExpired rows db2)) = db_votes db2" by (rule Cons.IH [rotated])
  have "ap_id row \<notin> ap_id ` set rows" using Cons.prems(1) by auto
  from expire_ids_insert [OF this] ih show ?case
    unfolding m by (auto simp: db2 requests split: prod.splits)
qed

text \<open>
  C38: \<open>cleanup\<close> expires exactly the overdue requests. On a table with unique ids it turns every
  pending request whose time is over into an expired one, touches no other row and no vote, returns
  their number and writes one audit row for each, in table order.
\<close>

theorem cleanup_exact:
  assumes "unique_keys ap_id (db_requests db)"
  shows "let overdue = filter (\<lambda>r. ap_status r = Pending \<and> ap_expiresAt r < now) (db_requests db);
             db' = snd (cleanup now db)
    in fst (cleanup now db) = length overdue
     \<and> db_requests db' = update_where (\<lambda>r. ap_status r = Pending \<and> ap_expiresAt r < now)
                             (ap_status_update (\<lambda>_. Expired)) (db_requests db)
     \<and> db_audit db' = db_audit db @ map (\<lambda>row. row_audit row ''expire'' False None []) overdue
     \<and> db_votes db' = db_votes db"
proof -
  let ?P = "\<lambda>r. ap_status r = Pending \<and> ap_expiresAt r < now"
  let ?rows = "db_requests db"
  have d: "distinct (map ap_id (filter ?P ?rows))"
    using assms by (simp add: unique_keys_def distinct_map_filter)
  have p: "\<exists>r\<in>set ?rows. ap_id r = ap_id row \<and> ap_status r = Pending" if "row \<in> set (filter ?P ?rows)" for row
    using that by auto
  have "ap_id r \<in> ap_id ` set (filter ?P ?rows) \<and> ap_status r = Pending \<longleftrightarrow> ?P r" if r: "r \<in> set ?rows" for r
  proof
    assume a: "ap_id r \<in> ap_id ` set (filter ?P ?rows) \<and> ap_status r = Pending"
    then obtain s where "s \<in> set ?rows" "?P s" "ap_id s = ap_id r" by auto
    with unique_keysD [OF assms _ r] show "?P r" by blast
  qed (use r in auto)
  then have "expire_ids (ap_id ` set (filter ?P ?rows)) ?rows = update_where ?P (ap_status_update (\<lambda>_. Expired)) ?rows"
    unfolding expire_ids_def update_where_def by (intro map_cong) auto
  with markExpired_all [OF d p] show ?thesis by (simp add: cleanup_def Let_def)
qed

theorem cleanup_exact_witness:
  "fst (cleanup 10 (empty_approvals\<lparr>db_requests := [pair_request]\<rparr>)) = 1"
  using cleanup_exact [of "empty_approvals\<lparr>db_requests := [pair_request]\<rparr>" 10]
  by (simp add: unique_keys_def Let_def pair_request_def)

section \<open>Decisions\<close>

text \<open>A vote cast alone that returns leaves the row's fields as they were read.\<close>

lemma castQuorum_InrD:
  assumes "castQuorumApproval row required respondedBy authContext requirement now db = (Inr view, db')"
  shows "av_requiredAcr view = ap_requiredAcr row \<and> av_maxAuthAge view = ap_maxAuthAge row
    \<and> (\<exists>approver. respondedBy = Some approver \<and> approver \<noteq> [] \<and> approver \<notin> requester row)"
proof -
  from assms obtain approver where a: "respondedBy = Some approver" "approver \<noteq> []"
    by (auto simp: castQuorumApproval_def split: option.splits if_splits)
  let ?q = "\<lparr>ca_row = row, ca_approverId = approver, ca_now = now,
      ca_acr = (if requirement = None then None else Option.bind authContext aa_acr)\<rparr>"
  obtain cast requests votes where c: "castApproval ?q (db_requests db, db_votes db) = (cast, requests, votes)"
    by (rule prod_cases3)
  have "cast \<noteq> Inl SelfApproval"
    using assms a c by (auto simp: castQuorumApproval_def Let_def)
  moreover have "cast = Inl SelfApproval" if "approver \<in> requester row"
  proof -
    have s: "cast_step ?q AtStart (db_requests db, db_votes db) = (CastFailed SelfApproval, db_requests db, db_votes db)"
      using that by (auto simp: requester_def)
    have six: "6 = Suc 5" by simp
    have "cast_steps 6 ?q AtStart (db_requests db, db_votes db) = (CastFailed SelfApproval, db_requests db, db_votes db)"
      unfolding six cast_steps.simps s by simp
    with c show ?thesis by (simp add: castApproval_def)
  qed
  ultimately have "approver \<notin> requester row" by blast
  moreover have "av_requiredAcr view = ap_requiredAcr row \<and> av_maxAuthAge view = ap_maxAuthAge row"
    using assms a c
    by (auto simp: castQuorumApproval_def Let_def rowToApproval_def split: sum.splits cast_result.splits)
  ultimately show ?thesis using a by blast
qed

lemma resolve_InrD:
  assumes "resolve requestId approving respondedBy authContext now later at_read db = (Inr view, db')"
  obtains row where "load_approval at_read requestId = Some row" "ap_status row = Pending"
    "now < ap_expiresAt row"
    "\<And>rule. approving \<Longrightarrow> requirementOf (ap_requiredAcr row) (ap_maxAuthAge row) = Some rule \<Longrightarrow>
       evaluateAuthRequirement authContext rule (now div 1000) = Met"
    "av_requiredAcr view = ap_requiredAcr row" "av_maxAuthAge view = ap_maxAuthAge row"
    "approving \<Longrightarrow> 1 < requiredApprovalsOf row \<Longrightarrow>
       \<exists>approver. respondedBy = Some approver \<and> approver \<noteq> [] \<and> approver \<notin> requester row"
    "\<not> (approving \<and> 1 < requiredApprovalsOf row) \<Longrightarrow>
       (\<exists>r\<in>set (db_requests db). ap_id r = requestId \<and> ap_status r = Pending \<and> now < ap_expiresAt r)
       \<and> (\<exists>r\<in>set (db_requests db'). ap_id r = requestId \<and> ap_respondedBy r = respondedBy
            \<and> ap_status r = (if approving then Approved else Denied))
       \<and> av_status view = (if approving then Approved else Denied)"
proof -
  from assms obtain row where row: "load_approval at_read requestId = Some row" "ap_status row = Pending"
    "now < ap_expiresAt row"
    by (auto simp: resolve_def split: option.splits if_splits)
  define requirement where
    "requirement = (if approving then requirementOf (ap_requiredAcr row) (ap_maxAuthAge row) else None)"
  have met: "(case requirement of Some rule \<Rightarrow> evaluateAuthRequirement authContext rule (now div 1000) | None \<Rightarrow> Met) = Met"
    using assms row by (auto simp: resolve_def Let_def requirement_def split: if_splits)
  then have m: "evaluateAuthRequirement authContext rule (now div 1000) = Met"
    if "approving" "requirementOf (ap_requiredAcr row) (ap_maxAuthAge row) = Some rule" for rule
    using that by (simp add: requirement_def)
  show ?thesis
  proof (cases "approving \<and> 1 < requiredApprovalsOf row")
    case True
    then have c: "castQuorumApproval row (requiredApprovalsOf row) respondedBy authContext requirement later db = (Inr view, db')"
      using assms row met by (simp add: resolve_def Let_def requirement_def)
    from castQuorum_InrD [OF this] that [OF row m] True show ?thesis by blast
  next
    case False
    let ?d = "\<lparr>ad_status = if approving then Approved else Denied, ad_respondedAt = now, ad_respondedBy = respondedBy\<rparr>"
    obtain b requests where d: "approvals_decide requestId ?d now (db_requests db) = (b, requests)" by fastforce
    have res: "resolve requestId approving respondedBy authContext now later at_read db =
      (if b then
         (let db1 = record_audit
                (row_audit row (if approving then ''approve'' else ''deny'') approving respondedBy
                   (evidence_of requirement authContext))
                (db\<lparr>db_requests := requests\<rparr>);
              view = rowToApproval
                (row\<lparr>ap_status := (if approving then Approved else Denied), ap_respondedAt := Some now, ap_respondedBy := respondedBy\<rparr>)
                (if 1 < requiredApprovalsOf row then Some (listApprovers (db_votes db1) (ap_id row)) else None)
          in (Inr view, emitApprovalEvent view (if approving then Approved else Denied) db1))
       else (Inl (NoLongerPending requestId), db))"
      unfolding resolve_def row(1) option.case Let_def requirement_def [symmetric]
      using row met False d by (cases b) auto
    with assms have b: b by (auto split: if_splits)
    with assms res have v: "av_requiredAcr view = ap_requiredAcr row" "av_maxAuthAge view = ap_maxAuthAge row"
      "av_status view = (if approving then Approved else Denied)" "db_requests db' = requests"
      by (auto simp: Let_def rowToApproval_def emitApprovalEvent_def record_audit_def)
    from d b obtain r where r: "r \<in> set (db_requests db)" "ap_id r = requestId" "ap_status r = Pending"
      "now < ap_expiresAt r" and req: "requests = update_where (\<lambda>r. ap_id r = requestId \<and> ap_status r = Pending \<and> now < ap_expiresAt r)
        (\<lambda>r. r\<lparr>ap_status := ad_status ?d, ap_respondedAt := Some (ad_respondedAt ?d), ap_respondedBy := ad_respondedBy ?d\<rparr>) (db_requests db)"
      unfolding approvals_decide_def by (auto dest: flip_result)
    have "\<exists>x\<in>set requests. ap_id x = requestId \<and> ap_respondedBy x = respondedBy
            \<and> ap_status x = (if approving then Approved else Denied)"
    proof (rule bexI)
      let ?x = "r\<lparr>ap_status := (if approving then Approved else Denied), ap_respondedAt := Some now,
        ap_respondedBy := respondedBy\<rparr>"
      show "?x \<in> set requests"
        unfolding req set_update_where by (rule image_eqI [OF _ r(1)]) (simp add: r)
      show "ap_id ?x = requestId \<and> ap_respondedBy ?x = respondedBy
          \<and> ap_status ?x = (if approving then Approved else Denied)"
        by (simp add: r)
    qed
    with that [OF row m] v r False show ?thesis by blast
  qed
qed

text \<open>
  C22: an approval proves its approver. If approving succeeds, the request was pending and unexpired
  when read, the approver met its step-up rule at that moment and so meets every rule the stored one
  covers, and a request that needs a quorum was approved by a named person who is neither its
  user nor its agent; with a single approver the update found the row still pending and unexpired and
  the table now holds it approved by that person.
\<close>

theorem approve_proves_approver:
  assumes "approve requestId respondedBy authContext now later at_read db = (Inr view, db')"
  shows "\<exists>row. load_approval at_read requestId = Some row \<and> ap_status row = Pending \<and> now < ap_expiresAt row
    \<and> (\<forall>needed. stepUpCovers (av_requiredAcr view) (av_maxAuthAge view) needed \<longrightarrow>
         evaluateAuthRequirement authContext needed (now div 1000) = Met)
    \<and> (if 1 < requiredApprovalsOf row
       then \<exists>approver. respondedBy = Some approver \<and> approver \<noteq> [] \<and> approver \<notin> requester row
       else (\<exists>r\<in>set (db_requests db). ap_id r = requestId \<and> ap_status r = Pending \<and> now < ap_expiresAt r)
          \<and> (\<exists>r\<in>set (db_requests db'). ap_id r = requestId \<and> ap_status r = Approved \<and> ap_respondedBy r = respondedBy))"
  using assms unfolding approve_def
proof (rule resolve_InrD)
  fix row assume row: "load_approval at_read requestId = Some row" "ap_status row = Pending"
    "now < ap_expiresAt row"
    and met: "\<And>rule. True \<Longrightarrow> requirementOf (ap_requiredAcr row) (ap_maxAuthAge row) = Some rule \<Longrightarrow>
       evaluateAuthRequirement authContext rule (now div 1000) = Met"
    and v: "av_requiredAcr view = ap_requiredAcr row" "av_maxAuthAge view = ap_maxAuthAge row"
    and quorum: "True \<Longrightarrow> 1 < requiredApprovalsOf row \<Longrightarrow>
       \<exists>approver. respondedBy = Some approver \<and> approver \<noteq> [] \<and> approver \<notin> requester row"
    and single: "\<not> (True \<and> 1 < requiredApprovalsOf row) \<Longrightarrow>
       (\<exists>r\<in>set (db_requests db). ap_id r = requestId \<and> ap_status r = Pending \<and> now < ap_expiresAt r)
       \<and> (\<exists>r\<in>set (db_requests db'). ap_id r = requestId \<and> ap_respondedBy r = respondedBy
            \<and> ap_status r = (if True then Approved else Denied))
       \<and> av_status view = (if True then Approved else Denied)"
  have "\<forall>needed. stepUpCovers (av_requiredAcr view) (av_maxAuthAge view) needed \<longrightarrow>
         evaluateAuthRequirement authContext needed (now div 1000) = Met"
    using covers_met met unfolding v by blast
  with row quorum single show ?thesis by (auto split: if_splits)
qed

definition one_request :: approval_db where
  "one_request = empty_approvals\<lparr>db_requests := [pair_request\<lparr>ap_requiredApprovals := None\<rparr>]\<rparr>"

theorem approve_proves_approver_witness:
  "\<exists>r\<in>set (db_requests (snd (approve ''r'' (Some ''boss'') None 5 5 (db_requests one_request) one_request))).
     ap_id r = ''r'' \<and> ap_status r = Approved \<and> ap_respondedBy r = Some ''boss''"
proof -
  have l: "load_approval (db_requests one_request) ''r'' = Some (pair_request\<lparr>ap_requiredApprovals := None\<rparr>)"
    by (simp add: one_request_def load_approval_def pair_request_def)
  have "\<exists>view db'. approve ''r'' (Some ''boss'') None 5 5 (db_requests one_request) one_request = (Inr view, db')"
    unfolding approve_def resolve_def l
    by (simp add: Let_def pair_request_def requirementOf_def requiredApprovalsOf_def one_request_def
        approvals_decide_def flip_def count_where_def)
  then obtain view db' where a:
    "approve ''r'' (Some ''boss'') None 5 5 (db_requests one_request) one_request = (Inr view, db')" by blast
  from approve_proves_approver [OF a] l show ?thesis
    by (simp add: a requiredApprovalsOf_def split: if_splits)
qed

text \<open>
  A refused decision changes nothing but an overdue request. When denying, or approving a
  request with a single approver, throws, votes and requests are as before, except that a request
  read pending after its time is marked expired.
\<close>

theorem resolve_refused:
  assumes "resolve requestId approving respondedBy authContext now later at_read db = (Inl e, db')"
    and "\<And>row. load_approval at_read requestId = Some row \<Longrightarrow> approving \<Longrightarrow> requiredApprovalsOf row \<le> 1"
  shows "db_votes db' = db_votes db \<and>
    db_requests db' =
      (if e = RequestExpired requestId \<and>
          (\<exists>row. load_approval at_read requestId = Some row \<and> ap_status row = Pending \<and> ap_expiresAt row \<le> now)
       then expire_ids {requestId} (db_requests db) else db_requests db)"
proof (cases "load_approval at_read requestId")
  case None
  with assms(1) show ?thesis by (simp add: resolve_def)
next
  case (Some row)
  then have id: "ap_id row = requestId" using load_SomeD by blast
  have expire_none: "\<not> (\<exists>r\<in>set (db_requests db). ap_id r = requestId \<and> ap_status r = Pending) \<Longrightarrow>
      expire_ids {requestId} (db_requests db) = db_requests db"
    unfolding expire_ids_def update_where_def by (intro map_idI) auto
  obtain b requests where e: "approvals_expire requestId (db_requests db) = (b, requests)" by fastforce
  have me: "db_votes (snd (markExpired [row] db)) = db_votes db
    \<and> db_requests (snd (markExpired [row] db)) = expire_ids {requestId} (db_requests db)"
    using expire_result [OF e] e expire_none
    by (cases b) (auto simp: id Let_def emitApprovalEvent_def record_audit_def)
  from assms Some me show ?thesis
    unfolding resolve_def by (auto simp: Let_def split: if_splits prod.splits bool.splits)
qed

theorem resolve_refused_witness:
  "db_requests (snd (resolve ''r'' True None None 50 50 (db_requests one_request) one_request)) =
     expire_ids {''r''} (db_requests one_request)"
proof -
  let ?row = "pair_request\<lparr>ap_requiredApprovals := None\<rparr>"
  have l: "load_approval (db_requests one_request) ''r'' = Some ?row"
    by (simp add: one_request_def load_approval_def pair_request_def)
  have r: "ap_status ?row = Pending" "ap_expiresAt ?row \<le> 50" "requiredApprovalsOf ?row \<le> 1"
    by (simp_all add: pair_request_def requiredApprovalsOf_def)
  then have "\<exists>db'. resolve ''r'' True None None 50 50 (db_requests one_request) one_request = (Inl (RequestExpired ''r''), db')"
    unfolding resolve_def l by (simp del: markExpired.simps)
  then obtain db' where e:
    "resolve ''r'' True None None 50 50 (db_requests one_request) one_request = (Inl (RequestExpired ''r''), db')" ..
  from resolve_refused [OF e] l r show ?thesis by (simp add: e)
qed

end
