(* ===== verification/PolicyEngine.thy ===== *)
theory PolicyEngine
  imports PolicyDecision PolicyCache HookRunner RoleResolver DelegationStore ApprovalModule
begin

text \<open>
  The policy engine: \<open>policy/engine.ts\<close>, \<open>policy/engine-support.ts\<close> and \<open>policy/hook-gate.ts\<close>. One
  \<open>evaluate\<close> gates the agent, runs the hook, asks the cache, evaluates every matching permission
  (direct, delegated and from roles), combines the verdicts, applies risk and taint, spends an
  approval if the result escalates and one is presented, writes an audit row and may open an
  approval request. What the environment contributes to one call (clock readings, faults, fresh
  ids, the draw of the audit sample, what the hook did) is a record. The call sees one state of
  the tables; decision events for monitoring and the captured input provenance are not modelled.
\<close>

section \<open>Inputs\<close>

record eval_subject = policy_subject +
  sb_ownerId :: "ident option"

record eval_input =
  vi_subject :: eval_subject
  vi_action :: string
  vi_resource :: string
  vi_approvalId :: "ident option"
  vi_ip :: "string option"
  vi_userAgent :: "string option"
  vi_arguments :: "(string \<times> json) list option"
  vi_risk :: "risk_context option"
  vi_provenance :: "json option"
  vi_inputs :: "json option"

record taint_config =
  tg_inputLabels :: bool
  tg_rules :: "taint_rule list"

record engine_settings =
  eg_cache :: cache_settings
  eg_combineStrategy :: "combine_strategy option"
  eg_audit :: bool
  eg_risk :: "risk_rule list option"
  eg_taint :: "taint_config option"
  eg_policyVersion :: "string option"
  eg_resourceMatching :: "resource_matching option"
  eg_hook :: "hook_guard option"
  eg_approval :: "approval_config option"

text \<open>
  What the environment contributes. \<open>vn_lineage = None\<close> is a lineage query that failed, and the
  clock of the constraints of the n-th permission is \<open>vn_clock n\<close>. \<open>vn_sampled\<close> is the outcome
  of comparing the draw with the sample rate.
\<close>

record eval_env =
  vn_gate :: time
  vn_hookRun :: hook_run
  vn_hookLineage :: time
  vn_hookSpend :: time
  vn_cacheGet :: time
  vn_delegated :: time
  vn_clock :: "nat \<Rightarrow> clock"
  vn_lineage :: "time option"
  vn_cacheSet :: time
  vn_spend :: time
  vn_open :: time
  vn_sampled :: bool
  vn_auditId :: ident
  vn_requestId :: ident
  vn_permissionFault :: bool
  vn_graphFault :: "string \<Rightarrow> bool"
  vn_openFault :: bool
  vn_auditFault :: bool

record policy_audit =
  va_id :: ident
  va_agentId :: ident
  va_userId :: "ident option"
  va_action :: string
  va_resource :: string
  va_parameters :: "(string \<times> json) list"
  va_approverId :: "ident option"
  va_result :: audit_result
  va_reason :: policy_reason
  va_decisionCode :: decision_code
  va_ip :: "string option"
  va_userAgent :: "string option"
  va_cacheHit :: bool
  va_subjectId :: "ident option"
  va_actorId :: "ident option"
  va_policyVersion :: "string option"
  va_delegationChain :: "ident list option"

record policy_db =
  po_deleg :: deleg_db
  po_rebac :: rebac_db
  po_members :: "org_member list"
  po_roles :: "org_role list"
  po_rates :: "rate_row list"
  po_approval :: approval_db
  po_audit :: "policy_audit list"

type_synonym consumed_approval = "ident \<times> ident option"

record hook_trace =
  ht_detail :: "(string \<times> json) list option"
  ht_consumed :: "consumed_approval option"

definition no_trace :: hook_trace where
  "no_trace = \<lparr>ht_detail = None, ht_consumed = None\<rparr>"

section \<open>Support\<close>

definition agent_of :: "eval_input \<Rightarrow> ident option" where
  "agent_of input = (if truthy (ps_agentId (vi_subject input)) then ps_agentId (vi_subject input) else None)"

definition buildCacheKey :: "eval_input \<Rightarrow> string" where
  "buildCacheKey input =
     (let subjectKey = (case ps_agentId (vi_subject input) of
                          Some a \<Rightarrow> a
                        | None \<Rightarrow> (case ps_userId (vi_subject input) of Some u \<Rightarrow> u | None \<Rightarrow> []));
          orgKey = (case ps_orgId (vi_subject input) of Some org \<Rightarrow> org | None \<Rightarrow> ''__noorg__'');
          ipKey = (case vi_ip input of Some ip \<Rightarrow> ip | None \<Rightarrow> [])
      in subjectKey @ CHR ''|'' # orgKey @ CHR ''|'' # vi_action input @ CHR ''|'' # vi_resource input
         @ CHR ''|'' # ipKey)"

definition validateInput :: "eval_input \<Rightarrow> policy_error option" where
  "validateInput input =
     (if vi_action input = [] \<or> vi_resource input = [] then Some InvalidInput
      else if \<not> truthy (ps_agentId (vi_subject input)) \<and> \<not> truthy (ps_userId (vi_subject input))
      then Some InvalidInput
      else None)"

definition matching_of :: "engine_settings \<Rightarrow> resource_matching" where
  "matching_of cf = (case eg_resourceMatching cf of Some m \<Rightarrow> m | None \<Rightarrow> Colon)"

definition fetchDirectPermissions :: "deleg_db \<Rightarrow> ident \<Rightarrow> permission list" where
  "fetchDirectPermissions db agentId =
     map pr_permission (filter (\<lambda>r. pr_agentId r = agentId) (dd_permissions db))"

definition resolveEffectivePermissions ::
  "policy_db \<Rightarrow> time \<Rightarrow> resource_matching \<Rightarrow> eval_input \<Rightarrow> permission list" where
  "resolveEffectivePermissions db now matching input =
     (let direct = (case agent_of input of None \<Rightarrow> [] | Some a \<Rightarrow> fetchDirectPermissions (po_deleg db) a);
          delegated = (case agent_of input of
                         None \<Rightarrow> [] | Some a \<Rightarrow> getDelegatedPermissions (po_deleg db) now matching a);
          roles = (if truthy (ps_userId (vi_subject input))
                   then resolveRolePermissions (po_members db) (po_roles db)
                          (the (ps_userId (vi_subject input))) (ps_orgId (vi_subject input))
                   else [])
      in direct @ delegated @ roles)"

text \<open>\<open>willEmitAudit\<close>; the id of the audit row when one will be written.\<close>

definition willEmitAudit :: "engine_settings \<Rightarrow> eval_env \<Rightarrow> eval_input \<Rightarrow> bool" where
  "willEmitAudit cf env input = (eg_audit cf \<and> agent_of input \<noteq> None \<and> vn_sampled env)"

definition audit_id_for :: "engine_settings \<Rightarrow> eval_env \<Rightarrow> eval_input \<Rightarrow> ident option" where
  "audit_id_for cf env input = (if willEmitAudit cf env input then Some (vn_auditId env) else None)"

definition checkAgent ::
  "deleg_db \<Rightarrow> time \<Rightarrow> ident \<Rightarrow> ident option \<Rightarrow> (policy_error \<times> decision_code) + agent_row" where
  "checkAgent db now agentId ownerId =
     (case agentRow db agentId of
        None \<Rightarrow>
          (if ownerId \<noteq> None then Inl (PolicyOwnerMismatch, OwnerMismatch)
           else Inl (PolicyAgentNotFound, AgentNotFound))
      | Some row \<Rightarrow>
          if ag_status row \<noteq> RowActive
          then Inl (AgentInactive, if ag_status row = RowExpired then AgentExpired else AgentRevoked)
          else if past_expiry (ag_expiresAt row) now then Inl (AgentInactive, AgentExpired)
          else if (case ownerId of None \<Rightarrow> False | Some ow \<Rightarrow> ag_ownerId row \<noteq> ow)
          then Inl (PolicyOwnerMismatch, OwnerMismatch)
          else Inr row)"

definition resolvePrincipal :: "deleg_db \<Rightarrow> eval_env \<Rightarrow> eval_input \<Rightarrow> principal option" where
  "resolvePrincipal db env input =
     (case agent_of input of
        None \<Rightarrow> None
      | Some a \<Rightarrow>
          (case vn_lineage env of
             None \<Rightarrow> Some \<lparr>pp_actorId = a, pp_subjectId = None, pp_delegationChain = [a]\<rparr>
           | Some now \<Rightarrow>
               let l = resolveLineage db now a
               in Some \<lparr>pp_actorId = a, pp_subjectId = ln_rootOwnerId l, pp_delegationChain = ln_path l\<rparr>))"

section \<open>Approvals\<close>

definition consume_for ::
  "eval_input \<Rightarrow> ident \<Rightarrow> ident \<Rightarrow> auth_requirement option \<Rightarrow> consume_input" where
  "consume_for input i agentId minStepUp =
     \<lparr>ci_approvalId = i, ci_agentId = agentId, ci_action = vi_action input,
      ci_resource = vi_resource input, ci_arguments = vi_arguments input, ci_minStepUp = minStepUp\<rparr>"

definition spend ::
  "(string \<Rightarrow> 'h) \<Rightarrow> consume_input \<Rightarrow> time \<Rightarrow> policy_db \<Rightarrow> (approval_denial + consumed_approval) \<times> policy_db" where
  "spend sha256 ci now db =
     (let rows = db_requests (po_approval db)
      in case consumeApproval sha256 ci now rows rows rows now of
           (res, rows') \<Rightarrow> (res, db\<lparr>po_approval := (po_approval db)\<lparr>db_requests := rows'\<rparr>\<rparr>))"

definition applyApproval ::
  "(string \<Rightarrow> 'h) \<Rightarrow> time \<Rightarrow> PolicyDecision.policy_decision \<Rightarrow> eval_input \<Rightarrow> policy_db
     \<Rightarrow> (PolicyDecision.policy_decision \<times> consumed_approval option) \<times> policy_db" where
  "applyApproval sha256 now decision input db =
     (case (pd_escalation decision, vi_approvalId input, agent_of input) of
        (Some esc, Some i, Some agentId) \<Rightarrow>
          if pd_decision decision \<noteq> EscalateOut \<or> i = [] then ((decision, None), db)
          else
            (case spend sha256 (consume_for input i agentId (es_stepUp esc)) now db of
               (Inl code, db1) \<Rightarrow>
                 (((withEffect decision effect.Deny (Some (decisionCodeOfApproval code)))
                     \<lparr>pd_reason := ApprovalReason code\<rparr>, None), db1)
             | (Inr consumed, db1) \<Rightarrow>
                 (((withEffect decision effect.Permit (Some ApprovalConsumed))
                     \<lparr>pd_reason := ConsumedReason, pd_escalation := None\<rparr>, Some consumed), db1))
      | _ \<Rightarrow> ((decision, None), db))"

definition openApprovalFor ::
  "engine_settings \<Rightarrow> eval_env \<Rightarrow> PolicyDecision.policy_decision \<Rightarrow> eval_input \<Rightarrow> policy_db \<Rightarrow> PolicyDecision.policy_decision \<times> policy_db" where
  "openApprovalFor cf env decision input db =
     (case (eg_approval cf, agent_of input) of
        (Some acf, Some agentId) \<Rightarrow>
          (let userId = (if truthy (ps_userId (vi_subject input)) then ps_userId (vi_subject input)
                         else map_option ag_ownerId (agentRow (po_deleg db) agentId))
           in if \<not> truthy userId \<or> vn_openFault env then (decision, db)
              else
                (case request acf
                        \<lparr>ri_input = \<lparr>rx_agentId = agentId, rx_userId = the userId, rx_action = vi_action input,
                                    rx_resource = vi_resource input, rx_arguments = vi_arguments input\<rparr>,
                         ri_stepUp = Option.bind (pd_escalation decision) es_stepUp,
                         ri_requiredApprovals = None\<rparr>
                        (vn_requestId env) (vn_open env) (po_approval db) of
                   (Inl _, _) \<Rightarrow> (decision, db)
                 | (Inr view, approval) \<Rightarrow>
                     (let esc = (case pd_escalation decision of
                                   Some e \<Rightarrow> e
                                 | None \<Rightarrow> \<lparr>es_tier = ''constraint'', es_requirement = RequireApprovalTier,
                                            es_reason = DecisionReason (pd_reason decision), es_stepUp = None,
                                            es_approvalRequestId = None\<rparr>)
                      in (decision\<lparr>pd_escalation := Some (esc\<lparr>es_approvalRequestId := Some (av_id view)\<rparr>)\<rparr>,
                          db\<lparr>po_approval := approval\<rparr>))))
      | _ \<Rightarrow> (decision, db))"

section \<open>The hook gate\<close>

datatype hook_gate =
    Proceed principal hook_trace
  | Blocked effect decision_code policy_reason "escalation_info option" principal hook_trace

datatype policy_hook_error = HookThrew hook_failure

definition runPolicyHook ::
  "(string \<Rightarrow> 'h) \<Rightarrow> hook_guard \<Rightarrow> eval_env \<Rightarrow> eval_input \<Rightarrow> agent_row \<Rightarrow> policy_db
     \<Rightarrow> (policy_hook_error + hook_gate) \<times> policy_db" where
  "runPolicyHook sha256 guard env input row db =
     (case runBeforeAuthorize (Some (vn_hookRun env)) guard of
        Inl e \<Rightarrow> (Inl (HookThrew e), db)
      | Inr None \<Rightarrow>
          (Inr (Proceed \<lparr>pp_actorId = ag_id row, pp_subjectId = Some (ag_ownerId row),
                         pp_delegationChain = [ag_id row]\<rparr> no_trace), db)
      | Inr (Some outcome) \<Rightarrow>
          (let l = resolveLineage (po_deleg db) (vn_hookLineage env) (ag_id row);
               who = \<lparr>pp_actorId = ag_id row, pp_subjectId = ln_rootOwnerId l, pp_delegationChain = ln_path l\<rparr>;
               trace = \<lparr>ht_detail = hookAuditDetail (Some outcome), ht_consumed = None\<rparr>
           in case outcome of
                HookDeny code txt _ \<Rightarrow> (Inr (Blocked effect.Deny code (HookReason (text_of txt)) None who trace), db)
              | HookEscalate code txt _ \<Rightarrow>
                  if truthy (vi_approvalId input) then
                    (case spend sha256 (consume_for input (the (vi_approvalId input)) (ag_id row) None)
                            (vn_hookSpend env) db of
                       (Inr consumed, db1) \<Rightarrow> (Inr (Proceed who (trace\<lparr>ht_consumed := Some consumed\<rparr>)), db1)
                     | (Inl d, db1) \<Rightarrow>
                         (Inr (Blocked effect.Deny (decisionCodeOfApproval d) (ApprovalReason d) None who trace), db1))
                  else
                    (Inr (Blocked effect.Escalate code (HookReason (text_of txt))
                       (Some \<lparr>es_tier = ''hook'', es_requirement = RequireApprovalTier,
                              es_reason = DecisionReason (HookReason (text_of txt)), es_stepUp = None,
                              es_approvalRequestId = None\<rparr>) who trace), db)
              | _ \<Rightarrow> (Inr (Proceed who trace), db)))"

section \<open>Evaluating the permissions\<close>

datatype relation_answer = RelationYes | RelationNo | RelationFailed

definition relation_check :: "eval_env \<Rightarrow> policy_db \<Rightarrow> eval_input \<Rightarrow> permission \<Rightarrow> relation_answer" where
  "relation_check env db input granted =
     (if \<not> truthy (pm_relation granted) then RelationYes
      else
        (case checkRelation (po_rebac db) (policy_subject.truncate (vi_subject input))
                (the (pm_relation granted)) (vi_resource input) of
           (matched, reason) \<Rightarrow>
             if reason \<notin> {WildcardResource, InvalidSubject} \<and> vn_graphFault env (the (pm_relation granted))
             then RelationFailed
             else if matched then RelationYes else RelationNo))"

definition constraint_input_of :: "eval_input \<Rightarrow> constraint_input" where
  "constraint_input_of input =
     \<lparr>in_subjectId = (case ps_agentId (vi_subject input) of Some a \<Rightarrow> a | None \<Rightarrow> []),
      in_resource = vi_resource input, in_arguments = map_option JObj (vi_arguments input),
      in_ip = vi_ip input, in_attestation = None\<rparr>"

definition permit_partial :: "permission \<Rightarrow> partial_decision" where
  "permit_partial granted =
     \<lparr>pa_effect = effect.Permit, pa_reason = MatchedReason, pa_code = Some Allowed,
      pa_matchedPermissionId = None, pa_matchedRelation = pm_relation granted\<rparr>"

definition refused_partial :: "permission \<Rightarrow> constraint_result \<Rightarrow> partial_decision" where
  "refused_partial granted r =
     \<lparr>pa_effect = (if cr_needsApproval r then effect.Escalate else effect.Deny),
      pa_reason = (case cr_reason r of Some f \<Rightarrow> ConstraintReason f | None \<Rightarrow> PolicyError ConstraintUnmet),
      pa_code = Some (case cr_code r of
                        Some c \<Rightarrow> c
                      | None \<Rightarrow> if cr_needsApproval r then ApprovalRequired else NoPermission),
      pa_matchedPermissionId = None, pa_matchedRelation = pm_relation granted\<rparr>"

text \<open>
  The loop over the effective permissions. \<open>None\<close> is the failed graph query that stops it; the
  rate table is what the constraints left behind. \<open>n\<close> counts the permissions, \<open>unsafe\<close> is
  \<open>cacheUnsafeSeen\<close>.
\<close>

fun permission_loop ::
  "regex_engine \<Rightarrow> resource_matching \<Rightarrow> eval_env \<Rightarrow> policy_db \<Rightarrow> eval_input \<Rightarrow> nat \<Rightarrow> permission list
     \<Rightarrow> rate_row list \<Rightarrow> partial_decision list \<Rightarrow> bool
     \<Rightarrow> (partial_decision list \<times> bool) option \<times> rate_row list" where
  "permission_loop compile matching env db input n [] rates partials unsafe = (Some (partials, unsafe), rates)"
| "permission_loop compile matching env db input n (granted # others) rates partials unsafe =
     (if \<not> matchResource (pm_resource granted) (vi_resource input) matching
         \<or> \<not> matchAction (pm_actions granted) (vi_action input)
      then permission_loop compile matching env db input (n + 1) others rates partials unsafe
      else
        (case relation_check env db input granted of
           RelationFailed \<Rightarrow> (None, rates)
         | RelationNo \<Rightarrow> permission_loop compile matching env db input (n + 1) others rates partials unsafe
         | RelationYes \<Rightarrow>
             (case pm_constraints granted of
                None \<Rightarrow>
                  permission_loop compile matching env db input (n + 1) others rates
                    (partials @ [permit_partial granted]) unsafe
              | Some cs \<Rightarrow>
                  (case evaluateConstraints compile rates (ck_now (vn_clock env n)) (ck_hours (vn_clock env n))
                          (ck_minutes (vn_clock env n)) (constraint_input_of input) cs of
                     (r, rates') \<Rightarrow>
                       permission_loop compile matching env db input (n + 1) others rates'
                         (partials @ [if cr_allowed r then permit_partial granted else refused_partial granted r])
                         (unsafe \<or> isCacheUnsafe (Some cs))))))"

section \<open>Evaluation\<close>

type_synonym engine_cache = "PolicyDecision.policy_decision policy_cache"

definition early :: "effect \<Rightarrow> policy_error \<Rightarrow> decision_code option \<Rightarrow> ident option \<Rightarrow> PolicyDecision.policy_decision" where
  "early e err code auditId = (makeDecision (bare e (PolicyError err)) code)\<lparr>pd_auditId := auditId\<rparr>"

text \<open>The part of \<open>evaluateBase\<close> after a cache miss.\<close>

definition decide_fresh ::
  "regex_engine \<Rightarrow> engine_settings \<Rightarrow> eval_env \<Rightarrow> eval_input \<Rightarrow> principal option \<Rightarrow> policy_db \<Rightarrow> engine_cache
     \<Rightarrow> PolicyDecision.policy_decision \<times> policy_db \<times> engine_cache" where
  "decide_fresh compile cf env input hookPrincipal db cache =
     (if vn_permissionFault env then (early Indeterminate SubjectNotFound None None, db, cache)
      else
        (case permission_loop compile (matching_of cf) env db input 0
                (resolveEffectivePermissions db (vn_delegated env) (matching_of cf) input)
                (po_rates db) [] False of
           (None, rates) \<Rightarrow> (early Indeterminate GraphQueryFailed None None, db\<lparr>po_rates := rates\<rparr>, cache)
         | (Some (partials, unsafe), rates) \<Rightarrow>
             (let db1 = db\<lparr>po_rates := rates\<rparr>;
                  combined = combine partials
                    (case eg_combineStrategy cf of Some s \<Rightarrow> s | None \<Rightarrow> DenyOverrides);
                  decision = combined
                    \<lparr>pd_principal := (case hookPrincipal of
                                        Some p \<Rightarrow> Some p | None \<Rightarrow> resolvePrincipal (po_deleg db) env input),
                     pd_escalation :=
                       (if pd_decision combined = EscalateOut
                        then Some \<lparr>es_tier = ''constraint'', es_requirement = RequireApprovalTier,
                                   es_reason = DecisionReason (pd_reason combined), es_stepUp = None,
                                   es_approvalRequestId = None\<rparr>
                        else None),
                     pd_auditId := audit_id_for cf env input, pd_cacheHit := False\<rparr>
              in (decision, db1,
                  if unsafe then cache
                  else (case cache_set (eg_cache cf) (vn_cacheSet env) (buildCacheKey input) decision False cache of
                          Some c \<Rightarrow> c | None \<Rightarrow> cache)))))"

definition decide_cached ::
  "regex_engine \<Rightarrow> engine_settings \<Rightarrow> eval_env \<Rightarrow> eval_input \<Rightarrow> principal option \<Rightarrow> policy_db \<Rightarrow> engine_cache
     \<Rightarrow> PolicyDecision.policy_decision \<times> policy_db \<times> engine_cache" where
  "decide_cached compile cf env input hookPrincipal db cache =
     (case cache_get (eg_cache cf) (vn_cacheGet env) (buildCacheKey input) cache of
        (Some cached, cache1) \<Rightarrow>
          (cached\<lparr>pd_auditId := audit_id_for cf env input, pd_cacheHit := True\<rparr>, db, cache1)
      | (None, cache1) \<Rightarrow> decide_fresh compile cf env input hookPrincipal db cache1)"

definition evaluateBase ::
  "(string \<Rightarrow> 'h) \<Rightarrow> regex_engine \<Rightarrow> engine_settings \<Rightarrow> eval_env \<Rightarrow> eval_input \<Rightarrow> policy_db \<Rightarrow> engine_cache
     \<Rightarrow> (policy_hook_error + PolicyDecision.policy_decision \<times> hook_trace) \<times> policy_db \<times> engine_cache" where
  "evaluateBase sha256 compile cf env input db cache =
     (case validateInput input of
        Some err \<Rightarrow> (Inr (early Indeterminate err None None, no_trace), db, cache)
      | None \<Rightarrow>
          (case map_option (\<lambda>a. checkAgent (po_deleg db) (vn_gate env) a (sb_ownerId (vi_subject input)))
                  (agent_of input) of
             Some (Inl (err, code)) \<Rightarrow>
               (Inr (early effect.Deny err (Some code) (audit_id_for cf env input), no_trace), db, cache)
           | None \<Rightarrow>
               (case decide_cached compile cf env input None db cache of
                  (d, db1, cache1) \<Rightarrow> (Inr (d, no_trace), db1, cache1))
           | Some (Inr row) \<Rightarrow>
               (case eg_hook cf of
                  None \<Rightarrow>
                    (case decide_cached compile cf env input None db cache of
                       (d, db1, cache1) \<Rightarrow> (Inr (d, no_trace), db1, cache1))
                | Some guard \<Rightarrow>
                    (case runPolicyHook sha256 guard env input row db of
                       (Inl e, db1) \<Rightarrow> (Inl e, db1, cache)
                     | (Inr (Blocked e code reason esc who trace), db1) \<Rightarrow>
                         (Inr ((makeDecision (bare e reason) (Some code))
                                 \<lparr>pd_escalation := esc, pd_principal := Some who,
                                  pd_auditId := audit_id_for cf env input\<rparr>, trace), db1, cache)
                     | (Inr (Proceed who trace), db1) \<Rightarrow>
                         (case decide_cached compile cf env input (Some who) db1 cache of
                            (d, db2, cache1) \<Rightarrow> (Inr (d, trace), db2, cache1))))))"

text \<open>\<open>emitAudit\<close>: one row when there is an id; a failed write changes nothing.\<close>

definition emitAudit ::
  "engine_settings \<Rightarrow> bool \<Rightarrow> PolicyDecision.policy_decision \<Rightarrow> eval_input \<Rightarrow> ident option \<Rightarrow> consumed_approval option
     \<Rightarrow> (string \<times> json) list option \<Rightarrow> policy_db \<Rightarrow> policy_db" where
  "emitAudit cf fault decision input auditId consumed hookDetail db =
     (if \<not> truthy auditId \<or> agent_of input = None \<or> fault then db
      else
        (let args = (case stripReservedAuditKeys (vi_arguments input) of Some a \<Rightarrow> a | None \<Rightarrow> []);
             chain = (case pd_principal decision of Some p \<Rightarrow> pp_delegationChain p | None \<Rightarrow> [])
         in db\<lparr>po_audit := po_audit db @
              [\<lparr>va_id = the auditId, va_agentId = the (agent_of input),
                va_userId = ps_userId (vi_subject input), va_action = vi_action input,
                va_resource = vi_resource input,
                va_parameters = withHookDetail
                  (case consumed of
                     Some (i, _) \<Rightarrow> put_entry (''approvalId'', JStr i) args | None \<Rightarrow> args) hookDetail,
                va_approverId = Option.bind consumed snd,
                va_result = (if pd_allowed decision then AllowedRes
                             else if pd_decision decision = EscalateOut then EscalatedRes else DeniedRes),
                va_reason = pd_reason decision, va_decisionCode = pd_code decision, va_ip = vi_ip input,
                va_userAgent = vi_userAgent input, va_cacheHit = pd_cacheHit decision,
                va_subjectId = Option.bind (pd_principal decision) pp_subjectId,
                va_actorId = map_option pp_actorId (pd_principal decision),
                va_policyVersion = eg_policyVersion cf,
                va_delegationChain = (if 1 < length chain then Some chain else None)\<rparr>]\<rparr>))"

text \<open>What follows \<open>evaluateBase\<close>: risk, taint, the approval, the audit row, the request.\<close>

definition call_provenance :: "engine_settings \<Rightarrow> eval_input \<Rightarrow> provenance_map option" where
  "call_provenance cf input =
     (let supplied = normalizeProvenance (vi_provenance input)
      in case eg_taint cf of
           Some tc \<Rightarrow> if tg_inputLabels tc then withInputLabels supplied (vi_inputs input) else supplied
         | None \<Rightarrow> supplied)"

definition call_of :: "engine_settings \<Rightarrow> eval_input \<Rightarrow> tainted_call" where
  "call_of cf input =
     \<lparr>tc_resource = vi_resource input, tc_action = vi_action input, tc_provenance = call_provenance cf input\<rparr>"

definition guarded :: "engine_settings \<Rightarrow> eval_input \<Rightarrow> PolicyDecision.policy_decision \<Rightarrow> PolicyDecision.policy_decision" where
  "guarded cf input base =
     applyTaint (applyRisk base (eg_risk cf) (vi_risk input)) (map_option tg_rules (eg_taint cf))
       (call_of cf input) (matching_of cf)"

definition finish ::
  "(string \<Rightarrow> 'h) \<Rightarrow> engine_settings \<Rightarrow> eval_env \<Rightarrow> bool \<Rightarrow> eval_input \<Rightarrow> PolicyDecision.policy_decision \<Rightarrow> hook_trace \<Rightarrow> policy_db
     \<Rightarrow> PolicyDecision.policy_decision \<times> policy_db" where
  "finish sha256 cf env openApproval input base trace db =
     (case applyApproval sha256 (vn_spend env) (guarded cf input base)
             (if ht_consumed trace \<noteq> None then input\<lparr>vi_approvalId := None\<rparr> else input) db of
        ((decision, spent), db1) \<Rightarrow>
          (let consumed = or_else spent (ht_consumed trace);
               auditId = or_else (pd_auditId decision)
                 (if consumed \<noteq> None \<and> eg_audit cf then Some (vn_auditId env) else None);
               finalDecision = decision\<lparr>pd_auditId := auditId\<rparr>;
               db2 = emitAudit cf (vn_auditFault env) finalDecision input auditId consumed (ht_detail trace) db1
           in if pd_decision finalDecision \<noteq> EscalateOut \<or> \<not> openApproval then (finalDecision, db2)
              else openApprovalFor cf env finalDecision input db2))"

definition evaluate ::
  "(string \<Rightarrow> 'h) \<Rightarrow> regex_engine \<Rightarrow> engine_settings \<Rightarrow> eval_env \<Rightarrow> bool \<Rightarrow> eval_input \<Rightarrow> policy_db \<Rightarrow> engine_cache
     \<Rightarrow> (policy_hook_error + PolicyDecision.policy_decision) \<times> policy_db \<times> engine_cache" where
  "evaluate sha256 compile cf env openApproval input db cache =
     (case evaluateBase sha256 compile cf env input db cache of
        (Inl e, db1, cache1) \<Rightarrow> (Inl e, db1, cache1)
      | (Inr (base, trace), db1, cache1) \<Rightarrow>
          (case finish sha256 cf env openApproval input base trace db1 of
             (d, db2) \<Rightarrow> (Inr d, db2, cache1)))"

text \<open>Dropping cached decisions.\<close>

record invalidate_scope =
  is_agentId :: "ident option"
  is_userId :: "ident option"
  is_resource :: "string option"

definition invalidate :: "invalidate_scope \<Rightarrow> engine_cache \<Rightarrow> engine_cache" where
  "invalidate scope c =
     (let drop_prefix = (\<lambda>i c. if truthy i then snd (invalidatePrefix (the i @ ''|'') c) else c);
          c1 = drop_prefix (is_agentId scope) c;
          c2 = drop_prefix (is_userId scope) c1
      in if truthy (is_resource scope) then cache_clear c2 else c2)"

section \<open>The loop over the permissions\<close>

text \<open>
  What a permission contributes: it names the call, and its constraints hold or at least do not
  deny (they may still ask for an approval, and then say nothing about the window and the address).
\<close>

definition applicable :: "resource_matching \<Rightarrow> eval_input \<Rightarrow> permission \<Rightarrow> bool" where
  "applicable matching input g \<longleftrightarrow>
     matchResource (pm_resource g) (vi_resource input) matching \<and> matchAction (pm_actions g) (vi_action input)"

definition minute_of_day :: "clock \<Rightarrow> nat" where
  "minute_of_day c = ck_hours c * 60 + ck_minutes c"

definition holds :: "regex_engine \<Rightarrow> eval_env \<Rightarrow> eval_input \<Rightarrow> permission \<Rightarrow> bool" where
  "holds compile env input g \<longleftrightarrow>
     (\<forall>cs. pm_constraints g = Some cs \<longrightarrow>
        args_ok compile cs (map_option JObj (vi_arguments input)) \<and> attestation_ok cs None
        \<and> \<not> pc_requireApproval cs \<and> ip_ok cs (vi_ip input)
        \<and> (\<exists>n. window_ok cs (minute_of_day (vn_clock env n))))"

definition not_denied :: "regex_engine \<Rightarrow> eval_env \<Rightarrow> eval_input \<Rightarrow> permission \<Rightarrow> bool" where
  "not_denied compile env input g \<longleftrightarrow>
     (\<forall>cs. pm_constraints g = Some cs \<longrightarrow>
        args_ok compile cs (map_option JObj (vi_arguments input)) \<and> attestation_ok cs None
        \<and> (\<not> pc_requireApproval cs \<longrightarrow>
             ip_ok cs (vi_ip input) \<and> (\<exists>n. window_ok cs (minute_of_day (vn_clock env n)))))"

lemma holds_not_denied: "holds compile env input g \<Longrightarrow> not_denied compile env input g"
  by (simp add: holds_def not_denied_def)

lemma partial_of_constraints:
  assumes "pm_constraints g = Some cs"
    and "evaluateConstraints compile rates now (ck_hours (vn_clock env n)) (ck_minutes (vn_clock env n))
           (constraint_input_of input) cs = (r, rates')"
  shows "(cr_allowed r \<longrightarrow> holds compile env input g)
    \<and> (pa_effect (refused_partial g r) \<noteq> effect.Deny \<and> \<not> cr_allowed r \<longrightarrow> not_denied compile env input g)"
proof -
  have i: "in_arguments (constraint_input_of input) = map_option JObj (vi_arguments input)"
    "in_attestation (constraint_input_of input) = None" "in_ip (constraint_input_of input) = vi_ip input"
    by (simp_all add: constraint_input_of_def)
  show ?thesis
    using constraints_allowed_facts [OF assms(2)] evaluate_needs [OF assms(2)] assms(1)
    by (auto simp: holds_def not_denied_def i minute_of_day_def refused_partial_def)
qed

text \<open>The permissions that count: applicable, with their relation found.\<close>

definition counted :: "resource_matching \<Rightarrow> eval_env \<Rightarrow> policy_db \<Rightarrow> eval_input \<Rightarrow> permission \<Rightarrow> bool" where
  "counted matching env db input g \<longleftrightarrow>
     applicable matching input g \<and> relation_check env db input g = RelationYes"

lemma permission_loop_facts:
  assumes "permission_loop compile matching env db input n others rates partials unsafe = (Some (ps, u), rates')"
  shows "set partials \<subseteq> set ps
    \<and> (\<forall>p\<in>set ps - set partials. \<exists>g\<in>set others. counted matching env db input g
          \<and> (pa_effect p = Permit \<longrightarrow> holds compile env input g)
          \<and> (pa_effect p \<noteq> effect.Deny \<longrightarrow> not_denied compile env input g))
    \<and> (\<forall>g\<in>set others. counted matching env db input g \<longrightarrow>
          (effect.Deny \<in> pa_effect ` set ps \<or> not_denied compile env input g)
          \<and> (effect.Deny \<in> pa_effect ` set ps \<or> effect.Escalate \<in> pa_effect ` set ps \<or> holds compile env input g))
    \<and> (\<forall>g\<in>set others. applicable matching input g \<longrightarrow> relation_check env db input g \<noteq> RelationFailed)"
  using assms
proof (induction others arbitrary: n rates partials unsafe)
  case (Cons g others)
  show ?case
  proof (cases "applicable matching input g")
    case False
    then have "permission_loop compile matching env db input (n + 1) others rates partials unsafe = (Some (ps, u), rates')"
      using Cons.prems by (auto simp: applicable_def)
    from Cons.IH [OF this] False show ?thesis by (auto simp: counted_def)
  next
    case app: True
    show ?thesis
    proof (cases "relation_check env db input g")
      case RelationFailed
      with app Cons.prems show ?thesis by (simp add: applicable_def)
    next
      case RelationNo
      then have "permission_loop compile matching env db input (n + 1) others rates partials unsafe = (Some (ps, u), rates')"
        using Cons.prems app by (simp add: applicable_def)
      from Cons.IH [OF this] RelationNo show ?thesis by (auto simp: counted_def)
    next
      case RelationYes
      have c: "counted matching env db input g" using app RelationYes by (simp add: counted_def)
      show ?thesis
      proof (cases "pm_constraints g")
        case None
        then have h: "holds compile env input g" by (simp add: holds_def)
        from None have "permission_loop compile matching env db input (n + 1) others rates
            (partials @ [permit_partial g]) unsafe = (Some (ps, u), rates')"
          using Cons.prems app RelationYes by (simp add: applicable_def)
        from Cons.IH [OF this] c h holds_not_denied [OF h] RelationYes show ?thesis
          by (auto simp: permit_partial_def)
      next
        case (Some cs)
        obtain r rates1 where e: "evaluateConstraints compile rates (ck_now (vn_clock env n)) (ck_hours (vn_clock env n))
            (ck_minutes (vn_clock env n)) (constraint_input_of input) cs = (r, rates1)" by fastforce
        define q where "q = (if cr_allowed r then permit_partial g else refused_partial g r)"
        have "permission_loop compile matching env db input (n + 1) others rates1
            (partials @ [q]) (unsafe \<or> isCacheUnsafe (Some cs)) = (Some (ps, u), rates')"
          using Cons.prems app RelationYes Some e by (simp add: applicable_def q_def)
        note IH = Cons.IH [OF this]
        have eff: "pa_effect q \<in> {effect.Permit, effect.Deny, effect.Escalate}"
          by (simp add: q_def permit_partial_def refused_partial_def)
        have allow: "pa_effect q = effect.Permit \<longrightarrow> cr_allowed r"
          by (simp add: q_def refused_partial_def)
        have f: "(pa_effect q = effect.Permit \<longrightarrow> holds compile env input g)
            \<and> (pa_effect q \<noteq> effect.Deny \<longrightarrow> not_denied compile env input g)"
          using partial_of_constraints [OF Some e] allow holds_not_denied
          by (cases "cr_allowed r") (auto simp: q_def)
        have sub: "set (partials @ [q]) \<subseteq> set ps" using IH by (rule conjunct1)
        then have "pa_effect q \<in> pa_effect ` set ps" by auto
        with f eff have here: "(effect.Deny \<in> pa_effect ` set ps \<or> not_denied compile env input g)
          \<and> (effect.Deny \<in> pa_effect ` set ps \<or> effect.Escalate \<in> pa_effect ` set ps \<or> holds compile env input g)"
          by auto
        have "\<exists>x\<in>set (g # others). counted matching env db input x
            \<and> (pa_effect p = effect.Permit \<longrightarrow> holds compile env input x)
            \<and> (pa_effect p \<noteq> effect.Deny \<longrightarrow> not_denied compile env input x)"
          if "p \<in> set ps - set partials" for p
        proof (cases "p = q")
          case True
          with c f show ?thesis by auto
        next
          case False
          with that have "p \<in> set ps - set (partials @ [q])" by simp
          with IH show ?thesis by (meson list.set_intros(2))
        qed
        moreover have "\<forall>x\<in>set (g # others). counted matching env db input x \<longrightarrow>
            (effect.Deny \<in> pa_effect ` set ps \<or> not_denied compile env input x)
          \<and> (effect.Deny \<in> pa_effect ` set ps \<or> effect.Escalate \<in> pa_effect ` set ps \<or> holds compile env input x)"
          using IH here by (metis set_ConsD)
        moreover have "\<forall>x\<in>set (g # others). applicable matching input x \<longrightarrow>
            relation_check env db input x \<noteq> RelationFailed"
          using IH RelationYes by (metis set_ConsD relation_answer.distinct(3))
        moreover have "set partials \<subseteq> set ps" using sub by simp
        ultimately show ?thesis by blast
      qed
    qed
  qed
qed simp

section \<open>What a decision means\<close>

definition deny_overrides :: "engine_settings \<Rightarrow> bool" where
  "deny_overrides cf \<longleftrightarrow> eg_combineStrategy cf \<in> {None, Some DenyOverrides}"

definition effective_of :: "engine_settings \<Rightarrow> eval_env \<Rightarrow> policy_db \<Rightarrow> eval_input \<Rightarrow> permission list" where
  "effective_of cf env db input =
     resolveEffectivePermissions db (vn_delegated env) (matching_of cf) input"

text \<open>No counted permission denies, there is one, and (unless \<open>ask\<close>) all of them hold.\<close>

definition supported ::
  "bool \<Rightarrow> regex_engine \<Rightarrow> engine_settings \<Rightarrow> eval_env \<Rightarrow> policy_db \<Rightarrow> eval_input \<Rightarrow> bool" where
  "supported ask compile cf env db input \<longleftrightarrow>
     \<not> vn_permissionFault env
     \<and> (\<exists>g\<in>set (effective_of cf env db input). counted (matching_of cf) env db input g)
     \<and> (\<forall>g\<in>set (effective_of cf env db input).
          (applicable (matching_of cf) input g \<longrightarrow> relation_check env db input g \<noteq> RelationFailed)
          \<and> (counted (matching_of cf) env db input g \<longrightarrow>
               (if ask then not_denied compile env input g else holds compile env input g)))"

lemma early_fields [simp]:
  "consistent (early e err c a)" "pd_effect (early e err c a) = e" "pd_allowed (early e err c a) \<longleftrightarrow> e = effect.Permit"
  "pd_decision (early e err c a) = outcomeOf e" "pd_cacheHit (early e err c a) = False"
  "pd_escalation (early e err c a) = None"
  by (simp_all add: early_def bare_def)

lemma combine_deny_overrides:
  "pd_effect (combine ps DenyOverrides) =
     (if effect.Deny \<in> pa_effect ` set ps then effect.Deny
      else if effect.Escalate \<in> pa_effect ` set ps then effect.Escalate
      else if effect.Permit \<in> pa_effect ` set ps then effect.Permit else Indeterminate)"
  by (simp add: combine_def combine_effect del: combine_loop.simps)

lemma combine_decision: "pd_decision (combine ps s) = outcomeOf (pd_effect (combine ps s))"
  "pd_allowed (combine ps s) \<longleftrightarrow> pd_effect (combine ps s) = effect.Permit"
  using consistent_combine [of ps s] by (simp_all add: consistent_def)

lemma decide_fresh_frame:
  assumes "decide_fresh compile cf env input hp db cache = (d, db', cache')"
  shows "db' = db\<lparr>po_rates := po_rates db'\<rparr> \<and> consistent d \<and> pd_cacheHit d = False
    \<and> (pd_decision d = EscalateOut \<longleftrightarrow> pd_escalation d \<noteq> None)"
  using assms
  by (auto simp: decide_fresh_def Let_def combine_decision consistent_def split: if_splits prod.splits option.splits)

lemma loop_supported:
  assumes "permission_loop compile (matching_of cf) env db input 0 (effective_of cf env db input) rates [] False
      = (Some (ps, u), rates')" and "\<not> vn_permissionFault env"
    and "effect.Deny \<notin> pa_effect ` set ps"
    and "effect.Permit \<in> pa_effect ` set ps \<or> effect.Escalate \<in> pa_effect ` set ps"
  shows "supported (effect.Escalate \<in> pa_effect ` set ps) compile cf env db input"
proof -
  note f = permission_loop_facts [OF assms(1)]
  obtain p where "p \<in> set ps - set []" using assms(4) by auto
  with f have "\<exists>g\<in>set (effective_of cf env db input). counted (matching_of cf) env db input g" by blast
  with f assms(2,3) show ?thesis by (auto simp: supported_def)
qed

lemma supported_mono: "supported False compile cf env db input \<Longrightarrow> supported ask compile cf env db input"
  by (cases ask) (auto simp: supported_def holds_not_denied)

lemma decide_fresh_supported:
  assumes "decide_fresh compile cf env input hp db cache = (d, db', cache')"
    and "deny_overrides cf" and "pd_decision d \<noteq> DenyOut"
  shows "supported (pd_decision d = EscalateOut) compile cf env db input"
proof (cases "vn_permissionFault env")
  case True
  with assms show ?thesis by (auto simp: decide_fresh_def)
next
  case False
  obtain res rates where l: "permission_loop compile (matching_of cf) env db input 0 (effective_of cf env db input)
      (po_rates db) [] False = (res, rates)" by fastforce
  show ?thesis
  proof (cases res)
    case None
    with assms False l show ?thesis by (auto simp: decide_fresh_def effective_of_def)
  next
    case (Some r)
    then obtain ps u where r: "res = Some (ps, u)" by (cases r) simp
    have s: "(case eg_combineStrategy cf of Some s \<Rightarrow> s | None \<Rightarrow> DenyOverrides) = DenyOverrides"
      using assms(2) by (auto simp: deny_overrides_def)
    have d: "pd_decision d = outcomeOf (pd_effect (combine ps DenyOverrides))"
      using assms(1) False l r s
      by (auto simp: decide_fresh_def effective_of_def Let_def combine_decision)
    have e: "effect.Deny \<notin> pa_effect ` set ps"
      "effect.Permit \<in> pa_effect ` set ps \<or> effect.Escalate \<in> pa_effect ` set ps"
      using assms(3) unfolding d combine_deny_overrides by (auto split: if_splits)
    have esc: "pd_decision d = EscalateOut \<longleftrightarrow> effect.Escalate \<in> pa_effect ` set ps"
      using e unfolding d combine_deny_overrides by auto
    show ?thesis using loop_supported [OF l [unfolded r] False e] by (simp add: esc)
  qed
qed

lemma decide_cached_miss:
  assumes "fst (cache_get (eg_cache cf) (vn_cacheGet env) (buildCacheKey input) cache) = None"
  shows "\<exists>cache1. decide_cached compile cf env input hp db cache = decide_fresh compile cf env input hp db cache1"
  using assms by (auto simp: decide_cached_def split: prod.split)

section \<open>Spending an approval\<close>

text \<open>An approved, unspent, unexpired row of the tables for this very call is spent.\<close>

definition spent_row ::
  "(string \<Rightarrow> 'h) \<Rightarrow> eval_input \<Rightarrow> ident \<Rightarrow> time \<Rightarrow> policy_db \<Rightarrow> policy_db \<Rightarrow> bool" where
  "spent_row sha256 input agentId now db db' \<longleftrightarrow>
     (\<exists>r\<in>set (db_requests (po_approval db)).
        vi_approvalId input = Some (ap_id r) \<and> ap_status r = Approved \<and> ap_consumedAt r = None
        \<and> now < ap_expiresAt r \<and> ap_agentId r = agentId \<and> ap_action r = vi_action input
        \<and> ap_resource r = vi_resource input
        \<and> hashApprovalAction sha256 (ap_action r) (ap_resource r) (ap_arguments r) =
            hashApprovalAction sha256 (vi_action input) (vi_resource input) (vi_arguments input)
        \<and> r\<lparr>ap_consumedAt := Some now\<rparr> \<in> set (db_requests (po_approval db')))"

lemma spend_ok:
  assumes "spend sha256 (consume_for input i a m) now db = (Inr c, db')" and "vi_approvalId input = Some i"
    and "unique_keys ap_id (db_requests (po_approval db))"
  shows "spent_row sha256 input a now db db'"
proof -
  let ?rows = "db_requests (po_approval db)" and ?in = "consume_for input i a m"
  obtain rows' where c: "consumeApproval sha256 ?in now ?rows ?rows ?rows now = (Inr c, rows')"
    and db': "db' = db\<lparr>po_approval := (po_approval db)\<lparr>db_requests := rows'\<rparr>\<rparr>"
    using assms(1) by (auto simp: spend_def Let_def split: prod.splits)
  obtain j ap where "c = (j, ap)" by fastforce
  with c consume_ok_facts [OF _ later_version_refl [OF assms(3)], of sha256 ?in now ?rows now j ap rows']
  show ?thesis by (fastforce simp: spent_row_def db' consume_for_def assms(2))
qed

lemma spend_refused:
  assumes "spend sha256 ci now db = (Inl code, db')" and "unique_keys ap_id (db_requests (po_approval db))"
  shows "db' = db"
  using assms(1) quiet_facts [OF assms(2), of sha256 ci now]
  by (auto simp: spend_def Let_def split: option.splits prod.splits)

section \<open>Risk, taint and approvals\<close>

definition taint_ok :: "engine_settings \<Rightarrow> eval_input \<Rightarrow> bool" where
  "taint_ok cf input \<longleftrightarrow>
     (\<forall>tc. eg_taint cf = Some tc \<longrightarrow>
        (\<forall>rule\<in>set (tg_rules tc). \<not> call_violates (matching_of cf) (call_of cf input) rule))"

definition taint_not_denied :: "engine_settings \<Rightarrow> eval_input \<Rightarrow> bool" where
  "taint_not_denied cf input \<longleftrightarrow>
     (\<forall>tc. eg_taint cf = Some tc \<longrightarrow>
        (\<forall>rule\<in>set (tg_rules tc).
           call_violates (matching_of cf) (call_of cf input) rule \<longrightarrow> tr_effect rule \<noteq> Some DenyT))"

lemma applyRisk_outcome:
  "consistent d \<Longrightarrow> pd_decision (applyRisk d config risk) = DenyOut \<longleftrightarrow> pd_decision d = DenyOut"
  by (auto simp: applyRisk_def split: option.split)

lemma applyTaint_none: "pd_decision (applyTaint d None call matching) = pd_decision d"
  "pd_allowed (applyTaint d None call matching) = pd_allowed d"
  by (auto simp: applyTaint_def evaluateTaint_def taint_matches_def Let_def)

lemma guarded_facts:
  assumes "consistent base"
  shows "consistent (guarded cf input base)
    \<and> (pd_allowed (guarded cf input base) \<longleftrightarrow>
         pd_allowed base \<and> \<not> risk_demands (eg_risk cf) (vi_risk input) \<and> taint_ok cf input)
    \<and> (pd_decision (guarded cf input base) \<noteq> DenyOut \<longleftrightarrow>
         pd_decision base \<noteq> DenyOut \<and> taint_not_denied cf input)"
proof (cases "eg_taint cf")
  case None
  with assms show ?thesis
    by (simp add: guarded_def taint_ok_def taint_not_denied_def applyTaint_none applyRisk_allowed applyRisk_outcome)
next
  case (Some tc)
  have c: "consistent (applyRisk base (eg_risk cf) (vi_risk input))" using assms by simp
  from applyTaint_outcome [OF c, of "tg_rules tc" "call_of cf input" "matching_of cf"] Some assms c
  show ?thesis
    by (auto simp: guarded_def taint_ok_def taint_not_denied_def applyRisk_allowed applyRisk_outcome)
qed

lemma applyApproval_facts:
  assumes "applyApproval sha256 now decision input db = ((d, c), db')"
    and "consistent decision" and "vi_approvalId input \<noteq> None \<longrightarrow> unique_keys ap_id (db_requests (po_approval db))"
  shows "consistent d
    \<and> (c = None \<longrightarrow> db' = db \<and> (pd_allowed d \<longrightarrow> pd_allowed decision))
    \<and> (c \<noteq> None \<longrightarrow> pd_allowed d \<and> pd_decision decision = EscalateOut
         \<and> (\<exists>a. agent_of input = Some a \<and> spent_row sha256 input a now db db'))
    \<and> (pd_decision d \<noteq> DenyOut \<longrightarrow> pd_decision decision \<noteq> DenyOut)"
proof (cases "\<exists>esc i a. pd_escalation decision = Some esc \<and> vi_approvalId input = Some i \<and> agent_of input = Some a
    \<and> pd_decision decision = EscalateOut \<and> i \<noteq> []")
  case False
  then have "d = decision \<and> c = None \<and> db' = db"
    using assms(1) by (auto simp: applyApproval_def split: option.splits if_splits)
  with assms(2) show ?thesis by simp
next
  case True
  then obtain esc i a where e: "pd_escalation decision = Some esc" "vi_approvalId input = Some i"
    "agent_of input = Some a" "pd_decision decision = EscalateOut" "i \<noteq> []" by blast
  have u: "unique_keys ap_id (db_requests (po_approval db))" using assms(3) e(2) by simp
  obtain res db1 where sp: "spend sha256 (consume_for input i a (es_stepUp esc)) now db = (res, db1)" by fastforce
  show ?thesis
  proof (cases res)
    case (Inl code)
    with spend_refused [OF sp [unfolded Inl] u] assms(1) e sp show ?thesis
      by (auto simp: applyApproval_def)
  next
    case (Inr consumed)
    with spend_ok [OF sp [unfolded Inr] e(2) u] assms(1) e sp show ?thesis
      by (auto simp: applyApproval_def)
  qed
qed

section \<open>What an allowed call passed\<close>

definition gate_passed :: "eval_env \<Rightarrow> policy_db \<Rightarrow> eval_input \<Rightarrow> bool" where
  "gate_passed env db input \<longleftrightarrow>
     (\<forall>a. agent_of input = Some a \<longrightarrow>
        (\<exists>row. agentRow (po_deleg db) a = Some row \<and> ag_status row = RowActive
           \<and> \<not> past_expiry (ag_expiresAt row) (vn_gate env)
           \<and> (\<forall>ow. sb_ownerId (vi_subject input) = Some ow \<longrightarrow> ag_ownerId row = ow)))"

definition hook_passed ::
  "(string \<Rightarrow> 'h) \<Rightarrow> engine_settings \<Rightarrow> eval_env \<Rightarrow> eval_input \<Rightarrow> policy_db \<Rightarrow> policy_db \<Rightarrow> bool" where
  "hook_passed sha256 cf env input db db' \<longleftrightarrow>
     (\<forall>a guard. agent_of input = Some a \<longrightarrow> eg_hook cf = Some guard \<longrightarrow>
        (\<exists>out. runBeforeAuthorize (Some (vn_hookRun env)) guard = Inr out
           \<and> (\<not> isHookBlock out
              \<or> (\<exists>c t m. out = Some (HookEscalate c t m)) \<and> spent_row sha256 input a (vn_hookSpend env) db db')))"

lemma agentRow_id: "agentRow db a = Some row \<Longrightarrow> agent_row.ag_id row = a"
  by (auto simp: agentRow_def dest: find_SomeD)

lemma gate_passed_iff:
  "gate_passed env db input \<longleftrightarrow>
     (\<forall>a. agent_of input = Some a \<longrightarrow>
        (\<exists>row. checkAgent (po_deleg db) (vn_gate env) a (sb_ownerId (vi_subject input)) = Inr row))"
  by (fastforce simp: gate_passed_def checkAgent_def split: option.splits if_splits)

lemma checkAgent_id: "checkAgent db now a ow = Inr row \<Longrightarrow> agent_row.ag_id row = a"
  by (auto simp: checkAgent_def agentRow_id split: option.splits if_splits)

lemma supported_frame [simp]:
  "supported ask compile cf env (db\<lparr>po_approval := x\<rparr>) input = supported ask compile cf env db input"
  by (simp add: supported_def effective_of_def resolveEffectivePermissions_def counted_def relation_check_def
      cong: if_cong)

lemma spend_frame: "spend sha256 ci now db = (r, db') \<Longrightarrow> \<exists>x. db' = db\<lparr>po_approval := x\<rparr>"
  by (auto simp: spend_def Let_def split: prod.splits)

definition base_ok ::
  "(string \<Rightarrow> 'h) \<Rightarrow> regex_engine \<Rightarrow> engine_settings \<Rightarrow> eval_env \<Rightarrow> eval_input \<Rightarrow> policy_db
     \<Rightarrow> PolicyDecision.policy_decision \<Rightarrow> hook_trace \<Rightarrow> policy_db \<Rightarrow> bool" where
  "base_ok sha256 compile cf env input db base trace db1 \<longleftrightarrow>
     consistent base
     \<and> (ht_consumed trace = None \<longrightarrow> po_approval db1 = po_approval db)
     \<and> (pd_decision base \<noteq> DenyOut \<longrightarrow>
          (supported (pd_decision base = EscalateOut) compile cf env db input
             \<and> hook_passed sha256 cf env input db db1)
          \<or> (pd_decision base = EscalateOut \<and> \<not> truthy (vi_approvalId input) \<and> ht_consumed trace = None))"

lemma base_ok_deny:
  "consistent d \<Longrightarrow> pd_decision d = DenyOut \<Longrightarrow> base_ok sha256 compile cf env input db d no_trace db"
  by (simp add: base_ok_def)

lemma fresh_ok:
  assumes "decide_fresh compile cf env input hp db1 cache = (d, db2, cache')" and "deny_overrides cf"
    and "db1 = db\<lparr>po_approval := x\<rparr>" and "ht_consumed trace = None \<longrightarrow> po_approval db1 = po_approval db"
    and "hook_passed sha256 cf env input db db1"
  shows "base_ok sha256 compile cf env input db d trace db2"
proof -
  from decide_fresh_frame [OF assms(1)] obtain r where "db2 = db1\<lparr>po_rates := r\<rparr>" and c: "consistent d" by blast
  then have f: "po_approval db2 = po_approval db1" "consistent d" by simp_all
  then have h: "hook_passed sha256 cf env input db db2" using assms(5)
    by (simp add: hook_passed_def spent_row_def)
  show ?thesis
    using decide_fresh_supported [OF assms(1,2)] assms(3,4) f h by (auto simp: base_ok_def)
qed

lemma runPolicyHook_cases:
  assumes "runPolicyHook sha256 guard env input row db = (Inr gate, db1)"
    and "unique_keys ap_id (db_requests (po_approval db))"
    and "agent_of input = Some (agent_row.ag_id row)" and "eg_hook cf = Some guard"
  shows "(\<exists>who trace x. gate = Proceed who trace \<and> db1 = db\<lparr>po_approval := x\<rparr>
            \<and> (ht_consumed trace = None \<longrightarrow> po_approval db1 = po_approval db)
            \<and> hook_passed sha256 cf env input db db1)
    \<or> (\<exists>e code reason esc who trace. gate = Blocked e code reason esc who trace \<and> db1 = db
         \<and> ht_consumed trace = None
         \<and> (e = effect.Deny \<or> e = effect.Escalate \<and> \<not> truthy (vi_approvalId input)))"
proof -
  let ?a = "agent_row.ag_id row"
  obtain out where run: "runBeforeAuthorize (Some (vn_hookRun env)) guard = Inr out"
    using assms(1) by (cases "runBeforeAuthorize (Some (vn_hookRun env)) guard") (auto simp: runPolicyHook_def)
  have passed: "hook_passed sha256 cf env input db db'" if "\<not> isHookBlock out" for db'
    using that run assms(4) by (simp add: hook_passed_def)
  have same: "\<exists>x. db = db\<lparr>po_approval := x\<rparr>" by (rule exI [of _ "po_approval db"]) simp
  show ?thesis
  proof (cases "isHookBlock out")
    case False
    then have "out = None \<or> out = Some HookAllow \<or> (\<exists>c. out = Some (FailOpen c))"
      unfolding isHookBlock_def by (auto split: option.splits hook_outcome.splits)
    with assms(1) run have "(\<exists>who trace. gate = Proceed who trace) \<and> db1 = db"
      by (auto simp: runPolicyHook_def Let_def)
    with passed [OF False] same show ?thesis by blast
  next
    case True
    then consider (deny) c t m where "out = Some (HookDeny c t m)" | (esc) c t m where "out = Some (HookEscalate c t m)"
      unfolding isHookBlock_def by (auto split: option.splits hook_outcome.splits)
    then show ?thesis
    proof cases
      case deny
      with assms(1) run show ?thesis by (auto simp: runPolicyHook_def Let_def)
    next
      case esc
      show ?thesis
      proof (cases "truthy (vi_approvalId input)")
        case False
        with assms(1) run esc show ?thesis by (auto simp: runPolicyHook_def Let_def)
      next
        case True
        then obtain i where i: "vi_approvalId input = Some i" by (auto simp: truthy_def split: option.splits)
        obtain res db2 where sp: "spend sha256 (consume_for input i ?a None) (vn_hookSpend env) db = (res, db2)" by fastforce
        show ?thesis
        proof (cases res)
          case (Inl code)
          with spend_refused [OF sp [unfolded Inl] assms(2)] assms(1) run esc True i sp show ?thesis
            by (auto simp: runPolicyHook_def Let_def)
        next
          case (Inr c)
          have "spent_row sha256 input ?a (vn_hookSpend env) db db2"
            by (rule spend_ok [OF sp [unfolded Inr] i assms(2)])
          then have "hook_passed sha256 cf env input db db2" using run esc assms(3,4) by (simp add: hook_passed_def)
          moreover have "\<exists>x. db2 = db\<lparr>po_approval := x\<rparr>" by (rule spend_frame [OF sp])
          ultimately show ?thesis using assms(1) run esc True i sp Inr by (auto simp: runPolicyHook_def Let_def)
        qed
      qed
    qed
  qed
qed

lemma evaluateBase_ok:
  assumes "evaluateBase sha256 compile cf env input db cache = (Inr (base, trace), db1, cache1)"
    and "fst (cache_get (eg_cache cf) (vn_cacheGet env) (buildCacheKey input) cache) = None"
    and "deny_overrides cf" and "unique_keys ap_id (db_requests (po_approval db))"
  shows "base_ok sha256 compile cf env input db base trace db1
    \<and> (pd_decision base \<noteq> DenyOut \<longrightarrow> validateInput input = None \<and> gate_passed env db input)"
proof (cases "validateInput input")
  case (Some err)
  with assms(1) have "base = early Indeterminate err None None" "trace = no_trace" "db1 = db"
    by (auto simp: evaluateBase_def)
  then show ?thesis by (simp add: base_ok_deny)
next
  case valid: None
  have same: "\<exists>x. db = db\<lparr>po_approval := x\<rparr>" by (rule exI [of _ "po_approval db"]) simp
  have direct: ?thesis
    if dc: "decide_cached compile cf env input None db cache = (base, db1, cache1)" "trace = no_trace"
      and hg: "hook_passed sha256 cf env input db db" "gate_passed env db input"
  proof -
    obtain c where "decide_fresh compile cf env input None db c = (base, db1, cache1)"
      using decide_cached_miss [OF assms(2), of compile None db] dc(1) by auto
    from fresh_ok [OF this assms(3) _ _ hg(1), of "po_approval db" trace] valid hg(2) show ?thesis by simp
  qed
  show ?thesis
  proof (cases "agent_of input")
    case None
    then have "hook_passed sha256 cf env input db db" "gate_passed env db input"
      by (simp_all add: hook_passed_def gate_passed_def)
    with assms(1) None valid direct show ?thesis by (auto simp: evaluateBase_def split: prod.splits)
  next
    case (Some a)
    show ?thesis
    proof (cases "checkAgent (po_deleg db) (vn_gate env) a (sb_ownerId (vi_subject input))")
      case (Inl e)
      with assms(1) Some valid have "base = early effect.Deny (fst e) (Some (snd e)) (audit_id_for cf env input)"
        "trace = no_trace" "db1 = db"
        by (auto simp: evaluateBase_def split: prod.splits)
      then show ?thesis by (simp add: base_ok_deny)
    next
      case (Inr row)
      have id: "agent_of input = Some (agent_row.ag_id row)" using checkAgent_id [OF Inr] Some by simp
      have gate: "gate_passed env db input" using Inr Some by (simp add: gate_passed_iff)
      show ?thesis
      proof (cases "eg_hook cf")
        case None
        then have "hook_passed sha256 cf env input db db" by (simp add: hook_passed_def)
        with assms(1) None Some Inr valid direct gate show ?thesis by (auto simp: evaluateBase_def split: prod.splits)
      next
        case (Some guard)
        obtain res db2 where h: "runPolicyHook sha256 guard env input row db = (res, db2)" by fastforce
        with assms(1) Some Inr valid \<open>agent_of input = Some a\<close> obtain g where g: "res = Inr g"
          by (cases res) (auto simp: evaluateBase_def)
        from runPolicyHook_cases [OF h [unfolded g] assms(4) id Some] show ?thesis
        proof (elim disjE exE conjE)
          fix who trace' x
          assume p: "g = Proceed who trace'" "db2 = db\<lparr>po_approval := x\<rparr>"
            "ht_consumed trace' = None \<longrightarrow> po_approval db2 = po_approval db"
            "hook_passed sha256 cf env input db db2"
          have "decide_cached compile cf env input (Some who) db2 cache = (base, db1, cache1)" "trace = trace'"
            using assms(1) Some Inr valid \<open>agent_of input = Some a\<close> h g p(1)
            by (auto simp: evaluateBase_def split: prod.splits)
          moreover obtain c where "decide_cached compile cf env input (Some who) db2 cache
              = decide_fresh compile cf env input (Some who) db2 c"
            using decide_cached_miss [OF assms(2)] by blast
          ultimately show ?thesis using fresh_ok [OF _ assms(3) p(2) p(3) p(4)] valid gate by simp
        next
          fix e code reason esc who trace'
          assume p: "g = Blocked e code reason esc who trace'" "db2 = db" "ht_consumed trace' = None"
            "e = effect.Deny"
          with assms(1) Some Inr valid \<open>agent_of input = Some a\<close> h g show ?thesis
            by (auto simp: evaluateBase_def base_ok_def bare_def)
        next
          fix e code reason esc who trace'
          assume p: "g = Blocked e code reason esc who trace'" "db2 = db" "ht_consumed trace' = None"
            "e = effect.Escalate" "\<not> truthy (vi_approvalId input)"
          with assms(1) Some Inr valid \<open>agent_of input = Some a\<close> h g gate show ?thesis
            by (auto simp: evaluateBase_def base_ok_def bare_def)
        qed
      qed
    qed
  qed
qed

lemma emitAudit_frame [simp]: "po_approval (emitAudit cf fault d input i c h db) = po_approval db"
  by (simp add: emitAudit_def Let_def)

lemma consistent_allowed: "consistent d \<Longrightarrow> pd_allowed d \<longleftrightarrow> pd_decision d = AllowOut"
  by (simp add: consistent_def)

lemma openApprovalFor_decision:
  "openApprovalFor cf env d input db = (d', db') \<Longrightarrow> pd_decision d' = pd_decision d \<and> pd_allowed d' = pd_allowed d"
  by (auto simp: openApprovalFor_def Let_def split: option.splits if_splits prod.splits sum.splits)

lemma finish_facts:
  assumes "finish sha256 cf env openApproval input base trace db = (d, db')"
    and "consistent base" and "ht_consumed trace = None \<longrightarrow> unique_keys ap_id (db_requests (po_approval db))"
  shows "(pd_allowed d \<longrightarrow>
      pd_decision base \<noteq> DenyOut \<and> taint_not_denied cf input
      \<and> ((pd_allowed base \<and> \<not> risk_demands (eg_risk cf) (vi_risk input) \<and> taint_ok cf input
            \<and> po_approval db' = po_approval db)
         \<or> (truthy (vi_approvalId input) \<and> ht_consumed trace = None
            \<and> (\<exists>a. agent_of input = Some a \<and> spent_row sha256 input a (vn_spend env) db db'))))
    \<and> (pd_decision d = DenyOut \<longrightarrow> po_approval db' = po_approval db)"
proof -
  let ?in = "if ht_consumed trace \<noteq> None then input\<lparr>vi_approvalId := None\<rparr> else input"
  obtain d1 c db1 where a: "applyApproval sha256 (vn_spend env) (guarded cf input base) ?in db = ((d1, c), db1)"
    by (metis prod.exhaust)
  have g: "consistent (guarded cf input base)" using guarded_facts [OF assms(2)] by blast
  have u: "vi_approvalId ?in \<noteq> None \<longrightarrow> unique_keys ap_id (db_requests (po_approval db))"
    using assms(3) by (cases "ht_consumed trace") auto
  note f = applyApproval_facts [OF a g u]
  define consumed where "consumed = or_else c (ht_consumed trace)"
  define auditId where "auditId = or_else (pd_auditId d1) (if consumed \<noteq> None \<and> eg_audit cf then Some (vn_auditId env) else None)"
  define db2 where "db2 = emitAudit cf (vn_auditFault env) (d1\<lparr>pd_auditId := auditId\<rparr>) input auditId consumed (ht_detail trace) db1"
  have d: "(d, db') = (if pd_decision d1 \<noteq> EscalateOut \<or> \<not> openApproval then (d1\<lparr>pd_auditId := auditId\<rparr>, db2)
      else openApprovalFor cf env (d1\<lparr>pd_auditId := auditId\<rparr>) input db2)"
    unfolding assms(1) [symmetric] finish_def a consumed_def auditId_def db2_def Let_def prod.case
    by simp
  have e: "pd_decision d = pd_decision d1 \<and> pd_allowed d = pd_allowed d1
      \<and> (pd_decision d1 \<noteq> EscalateOut \<longrightarrow> db' = db2)"
    using d openApprovalFor_decision [of cf env "d1\<lparr>pd_auditId := auditId\<rparr>" input db2 d db']
    by (auto split: if_splits)
  have db2: "po_approval db2 = po_approval db1" by (simp add: db2_def)
  have cd: "pd_allowed d1 \<longleftrightarrow> pd_decision d1 = AllowOut" using f consistent_allowed by blast
  have idIn: "agent_of ?in = agent_of input" by (simp add: agent_of_def)
  show ?thesis
  proof (cases c)
    case None
    with f have k: "db1 = db" "pd_allowed d1 \<longrightarrow> pd_allowed (guarded cf input base)" by auto
    have "pd_allowed base \<longrightarrow> pd_decision base \<noteq> DenyOut" using assms(2) by (simp add: consistent_allowed)
    moreover have "pd_allowed (guarded cf input base) \<longrightarrow> taint_not_denied cf input"
      using guarded_facts [OF assms(2), of cf input] g by (auto simp: consistent_allowed)
    ultimately show ?thesis using k e cd db2 guarded_facts [OF assms(2), of cf input] by auto
  next
    case (Some s)
    with f have k: "pd_allowed d1" "pd_decision (guarded cf input base) = EscalateOut"
      and r: "\<exists>a. agent_of ?in = Some a \<and> spent_row sha256 ?in a (vn_spend env) db db1" by auto
    have no: "ht_consumed trace = None"
    proof (rule ccontr)
      assume "ht_consumed trace \<noteq> None"
      then have "vi_approvalId ?in = None" by simp
      with r show False by (simp add: spent_row_def)
    qed
    have tr: "truthy (vi_approvalId input)"
    proof (rule ccontr)
      assume "\<not> truthy (vi_approvalId input)"
      then have "applyApproval sha256 (vn_spend env) (guarded cf input base) ?in db = ((guarded cf input base, None), db)"
        using no by (auto simp: applyApproval_def truthy_def split: option.splits)
      with a Some show False by simp
    qed
    have "spent_row sha256 input x (vn_spend env) db db'" if "spent_row sha256 input x (vn_spend env) db db1" for x
      using that e k cd db2 by (simp add: spent_row_def)
    with r no tr k e cd guarded_facts [OF assms(2), of cf input] show ?thesis by auto
  qed
qed

lemma not_spent_in_place:
  assumes "spent_row sha256 input a now db db1" and "po_approval db1 = po_approval db"
    and "unique_keys ap_id (db_requests (po_approval db))"
  shows False
proof -
  obtain r where r: "r \<in> set (db_requests (po_approval db))" "ap_consumedAt r = None"
    "r\<lparr>ap_consumedAt := Some now\<rparr> \<in> set (db_requests (po_approval db))"
    using assms(1,2) by (auto simp: spent_row_def)
  have "r\<lparr>ap_consumedAt := Some now\<rparr> = r" by (rule unique_keysD [OF assms(3) r(3) r(1)]) simp
  then have "ap_consumedAt (r\<lparr>ap_consumedAt := Some now\<rparr>) = ap_consumedAt r" by (rule arg_cong)
  with r(2) show False by simp
qed

lemma hook_passed_unspent:
  assumes "hook_passed sha256 cf env input db db1" and "po_approval db1 = po_approval db"
    and "unique_keys ap_id (db_requests (po_approval db))"
  shows "hook_passed sha256 cf env input db db'"
  using assms(1) not_spent_in_place [OF _ assms(2,3)] unfolding hook_passed_def by blast

section \<open>Runs on a small state\<close>

definition sample_settings :: engine_settings where
  "sample_settings =
     \<lparr>eg_cache = \<lparr>cs_maxEntries = 10, cs_ttlMs = 60000, cs_enabled = True\<rparr>, eg_combineStrategy = None,
      eg_audit = False, eg_risk = None, eg_taint = None, eg_policyVersion = None,
      eg_resourceMatching = None, eg_hook = None, eg_approval = None\<rparr>"

definition sample_env :: eval_env where
  "sample_env =
     \<lparr>vn_gate = 100, vn_hookRun = Threw, vn_hookLineage = 100, vn_hookSpend = 100, vn_cacheGet = 100,
      vn_delegated = 100, vn_clock = (\<lambda>_. \<lparr>ck_now = 100, ck_hours = 1, ck_minutes = 2\<rparr>),
      vn_lineage = None, vn_cacheSet = 100, vn_spend = 100, vn_open = 100, vn_sampled = False,
      vn_auditId = ''aud'', vn_requestId = ''req'', vn_permissionFault = False,
      vn_graphFault = (\<lambda>_. False), vn_openFault = False, vn_auditFault = False\<rparr>"

definition sample_db :: "permission_row list \<Rightarrow> org_member list \<Rightarrow> org_role list \<Rightarrow> approval_row list \<Rightarrow> policy_db" where
  "sample_db permissions members roles approvals =
     \<lparr>po_deleg =
        \<lparr>dd_agents = [\<lparr>agent_row.ag_id = ''ag'', agent_row.ag_ownerId = ''u'', ag_status = RowActive, ag_expiresAt = None\<rparr>],
         dd_permissions = permissions, dd_chains = [], dd_audit = []\<rparr>,
      po_rebac = \<lparr>rd_resources = [], rd_relationships = []\<rparr>, po_members = members, po_roles = roles,
      po_rates = [],
      po_approval = \<lparr>db_requests = approvals, db_votes = [], db_audit = [], db_events = []\<rparr>,
      po_audit = []\<rparr>"

definition sample_input :: "ident option \<Rightarrow> ident option \<Rightarrow> string option \<Rightarrow> eval_input" where
  "sample_input userId approvalId ip =
     \<lparr>vi_subject = \<lparr>ps_userId = userId, ps_agentId = Some ''ag'', ps_orgId = None, sb_ownerId = None\<rparr>,
      vi_action = ''read'', vi_resource = ''doc'', vi_approvalId = approvalId, vi_ip = ip,
      vi_userAgent = None, vi_arguments = None, vi_risk = None, vi_provenance = None, vi_inputs = None\<rparr>"

definition run_sample ::
  "policy_db \<Rightarrow> eval_input \<Rightarrow> engine_cache
     \<Rightarrow> (policy_hook_error + PolicyDecision.policy_decision) \<times> policy_db \<times> engine_cache" where
  "run_sample db input cache =
     evaluate (\<lambda>t. t) (\<lambda>_. None) sample_settings sample_env False input db cache"

definition allowed_in :: "(policy_hook_error + PolicyDecision.policy_decision) \<times> policy_db \<times> engine_cache \<Rightarrow> bool" where
  "allowed_in res = (case fst res of Inr d \<Rightarrow> pd_allowed d | Inl _ \<Rightarrow> False)"

definition read_doc :: "permission_constraints option \<Rightarrow> permission_row" where
  "read_doc cs =
     \<lparr>pr_agentId = ''ag'',
      pr_permission = \<lparr>pm_resource = ''doc'', pm_actions = [''read''], pm_constraints = cs, pm_relation = None\<rparr>\<rparr>"

lemma sample_allowed: "allowed_in (run_sample (sample_db [read_doc None] [] [] []) (sample_input None None None) empty_cache)"
  by code_simp

text \<open>
  C4: what an allowed call passed. When \<open>evaluate\<close> allows a call that was not answered from the
  cache, under deny-overrides, the input was valid, the agent exists, is active, not expired and
  belongs to the claimed owner, the hook let it pass (or an approval was spent for its escalation),
  and no taint rule that denies is broken. Moreover either every permission that names the call and
  whose relation was found holds with all its constraints, there is one, no risk tier demands a
  human and no taint rule is broken; or no such permission denies, there is one, and an approved,
  unspent, unexpired approval for exactly this call was spent.
\<close>

theorem evaluate_allowed:
  assumes "evaluate sha256 compile cf env openApproval input db cache = (Inr d, db', cache')"
    and "pd_allowed d"
    and "fst (cache_get (eg_cache cf) (vn_cacheGet env) (buildCacheKey input) cache) = None"
    and "deny_overrides cf" and "unique_keys ap_id (db_requests (po_approval db))"
  shows "validateInput input = None \<and> gate_passed env db input
    \<and> hook_passed sha256 cf env input db db' \<and> taint_not_denied cf input
    \<and> ((supported False compile cf env db input \<and> \<not> risk_demands (eg_risk cf) (vi_risk input)
          \<and> taint_ok cf input)
       \<or> (supported True compile cf env db input
          \<and> (\<exists>a. agent_of input = Some a \<and> spent_row sha256 input a (vn_spend env) db db')))"
proof -
  obtain base trace db1 cache1 where b: "evaluateBase sha256 compile cf env input db cache = (Inr (base, trace), db1, cache1)"
    and fi: "finish sha256 cf env openApproval input base trace db1 = (d, db')"
    using assms(1) by (auto simp: evaluate_def split: prod.splits sum.splits)
  from evaluateBase_ok [OF b assms(3,4,5)] have ok: "base_ok sha256 compile cf env input db base trace db1"
    and vg: "pd_decision base \<noteq> DenyOut \<longrightarrow> validateInput input = None \<and> gate_passed env db input" by simp_all
  have c: "consistent base" using ok by (simp add: base_ok_def)
  have same: "ht_consumed trace = None \<longrightarrow> po_approval db1 = po_approval db" using ok by (simp add: base_ok_def)
  then have u: "ht_consumed trace = None \<longrightarrow> unique_keys ap_id (db_requests (po_approval db1))" using assms(5) by simp
  from finish_facts [OF fi c u] assms(2) have f: "pd_decision base \<noteq> DenyOut" "taint_not_denied cf input"
    and how: "(pd_allowed base \<and> \<not> risk_demands (eg_risk cf) (vi_risk input) \<and> taint_ok cf input
            \<and> po_approval db' = po_approval db1)
         \<or> (truthy (vi_approvalId input) \<and> ht_consumed trace = None
            \<and> (\<exists>a. agent_of input = Some a \<and> spent_row sha256 input a (vn_spend env) db1 db'))" by auto
  have base: "(supported (pd_decision base = EscalateOut) compile cf env db input
             \<and> hook_passed sha256 cf env input db db1)
          \<or> (pd_decision base = EscalateOut \<and> \<not> truthy (vi_approvalId input) \<and> ht_consumed trace = None)"
    using ok f(1) by (simp add: base_ok_def)
  have al: "pd_allowed base \<longleftrightarrow> pd_decision base = AllowOut" using c by (rule consistent_allowed)
  from how show ?thesis
  proof (elim disjE conjE)
    assume h: "pd_allowed base" "\<not> risk_demands (eg_risk cf) (vi_risk input)" "taint_ok cf input"
      "po_approval db' = po_approval db1"
    then have "supported False compile cf env db input" "hook_passed sha256 cf env input db db1" using base al by auto
    moreover from this(2) h(4) have "hook_passed sha256 cf env input db db'" by (simp add: hook_passed_def spent_row_def)
    ultimately show ?thesis using h vg f by blast
  next
    assume h: "truthy (vi_approvalId input)" "ht_consumed trace = None"
      "\<exists>a. agent_of input = Some a \<and> spent_row sha256 input a (vn_spend env) db1 db'"
    then have s: "supported (pd_decision base = EscalateOut) compile cf env db input"
      and hp: "hook_passed sha256 cf env input db db1" using base by auto
    have "supported True compile cf env db input"
      using s supported_mono [of compile cf env db input True] by (cases "pd_decision base = EscalateOut") simp_all
    moreover have "spent_row sha256 input a (vn_spend env) db db'" if "spent_row sha256 input a (vn_spend env) db1 db'" for a
      using that same h(2) by (simp add: spent_row_def)
    moreover have "hook_passed sha256 cf env input db db'"
      by (rule hook_passed_unspent [OF hp _ assms(5)]) (simp add: same h(2))
    ultimately show ?thesis using h vg f by blast
  qed
qed

theorem evaluate_allowed_witness:
  "supported False (\<lambda>_. None) sample_settings sample_env
     (sample_db [read_doc None] [] [] []) (sample_input None None None)"
proof -
  let ?db = "sample_db [read_doc None] [] [] []" and ?in = "sample_input None None None"
  obtain res db' cache' where r: "run_sample ?db ?in empty_cache = (res, db', cache')" by (metis prod.exhaust)
  with sample_allowed obtain d where d: "res = Inr d" "pd_allowed d"
    by (auto simp: allowed_in_def split: sum.splits)
  have "evaluate (\<lambda>t. t) (\<lambda>_. None) sample_settings sample_env False ?in ?db empty_cache = (Inr d, db', cache')"
    using r d(1) by (simp add: run_sample_def)
  from evaluate_allowed [OF this d(2)] show ?thesis
    by (simp add: sample_settings_def deny_overrides_def unique_keys_def sample_db_def cache_get_def empty_cache_def
        spent_row_def)
qed

section \<open>Consistency and frames\<close>

definition cached_consistent :: "engine_cache \<Rightarrow> bool" where
  "cached_consistent cache \<longleftrightarrow> (\<forall>(k, e)\<in>set (pc_store cache). consistent (en_value e))"

lemma cache_get_values:
  assumes "cached_consistent cache" and "cache_get cs now k cache = (r, cache')"
  shows "cached_consistent cache' \<and> (\<forall>d. r = Some d \<longrightarrow> consistent d)"
  using assms
  by (auto simp: cached_consistent_def cache_get_def dest!: map_of_SomeD split: if_splits option.splits)

lemma cache_set_values:
  assumes "cached_consistent cache" and "consistent d" and "1 \<le> cs_maxEntries cs"
    and "cache_set cs now k d skip cache = Some cache'"
  shows "cached_consistent cache'"
proof (cases "\<not> cs_enabled cs \<or> skip")
  case False
  then obtain st n where m: "make_room (cs_maxEntries cs) (store_delete k (pc_store cache)) (pc_evictions cache) = Some (st, n)"
    and c': "cache' = cache\<lparr>pc_store := st @ [(k, \<lparr>en_value = d, en_expiresAt = now + cs_ttlMs cs\<rparr>)], pc_evictions := n\<rparr>"
    using assms(4) by (auto simp: cache_set_def split: option.splits)
  have "set st \<subseteq> set (store_delete k (pc_store cache))"
    using make_room_bound [OF assms(3) m] by (metis set_drop_subset)
  then show ?thesis using assms(1,2) by (auto simp: c' cached_consistent_def dest!: subsetD)
qed (use assms in \<open>auto simp: cache_set_def\<close>)

lemma decide_fresh_cache:
  assumes "decide_fresh compile cf env input hp db cache = (d, db', cache')" and "cached_consistent cache"
    and "cache_ok (eg_cache cf) cache" and "1 \<le> cs_maxEntries (eg_cache cf)"
  shows "cached_consistent cache' \<and> cache_ok (eg_cache cf) cache'"
proof -
  have "cache' = cache \<or> cache_set (eg_cache cf) (vn_cacheSet env) (buildCacheKey input) d False cache = Some cache'"
    using assms(1)
    by (auto simp: decide_fresh_def Let_def split: if_splits prod.splits option.splits)
  then show ?thesis
    using assms(2,3) decide_fresh_frame [OF assms(1)] cache_set_values [OF assms(2) _ assms(4)]
      cache_set_ok [OF assms(3,4), of "vn_cacheSet env" "buildCacheKey input" d False] by auto
qed

lemma decide_cached_facts:
  assumes "decide_cached compile cf env input hp db cache = (d, db', cache')" and "cached_consistent cache"
    and "cache_ok (eg_cache cf) cache" and "1 \<le> cs_maxEntries (eg_cache cf)"
  shows "consistent d \<and> cached_consistent cache' \<and> cache_ok (eg_cache cf) cache'
    \<and> po_approval db' = po_approval db"
proof -
  obtain r c where g: "cache_get (eg_cache cf) (vn_cacheGet env) (buildCacheKey input) cache = (r, c)" by fastforce
  note v = cache_get_values [OF assms(2) g]
  have ok: "cache_ok (eg_cache cf) c"
    using cache_get_ok [OF assms(3), of "vn_cacheGet env" "buildCacheKey input"] g by simp
  show ?thesis
  proof (cases r)
    case (Some x)
    with assms(1) g v ok show ?thesis by (auto simp: decide_cached_def)
  next
    case None
    then have f: "decide_fresh compile cf env input hp db c = (d, db', cache')"
      using assms(1) g by (simp add: decide_cached_def)
    obtain rates where "db' = db\<lparr>po_rates := rates\<rparr>" using decide_fresh_frame [OF f] by blast
    with decide_fresh_cache [OF f _ ok assms(4)] decide_fresh_frame [OF f] v show ?thesis by simp
  qed
qed

lemma evaluateBase_facts:
  assumes "evaluateBase sha256 compile cf env input db cache = (res, db1, cache1)" and "cached_consistent cache"
    and "cache_ok (eg_cache cf) cache" and "1 \<le> cs_maxEntries (eg_cache cf)"
  shows "(\<forall>d t. res = Inr (d, t) \<longrightarrow> consistent d) \<and> cached_consistent cache1 \<and> cache_ok (eg_cache cf) cache1
    \<and> (eg_hook cf = None \<longrightarrow> po_approval db1 = po_approval db \<and> (\<exists>d. res = Inr (d, no_trace)))"
  using assms decide_cached_facts
  by (auto simp: evaluateBase_def split: option.splits sum.splits prod.splits hook_gate.splits)

lemma openApprovalFor_consistent:
  "openApprovalFor cf env d input db = (d', db') \<Longrightarrow> consistent d \<Longrightarrow> consistent d'"
  by (auto simp: openApprovalFor_def Let_def split: option.splits if_splits prod.splits sum.splits)

lemma finish_consistent:
  assumes "finish sha256 cf env openApproval input base trace db = (d, db')" and "consistent base"
  shows "consistent d"
proof -
  have g: "consistent (guarded cf input base)" using guarded_facts [OF assms(2)] by blast
  have a: "consistent d1" if "applyApproval sha256 now (guarded cf input base) inp db = ((d1, c), db1)" for now inp d1 c db1
    using that g by (auto simp: applyApproval_def split: option.splits if_splits prod.splits sum.splits)
  show ?thesis
    using assms(1) a openApprovalFor_consistent
    by (auto simp: finish_def Let_def split: prod.splits if_splits)
qed

text \<open>
  C38: decisions and the cache are well formed after any call. Whatever \<open>evaluate\<close> answers, the flag,
  the outcome and the effect of the decision agree, and the cache keeps its size, its distinct keys
  and the same agreement in every cached decision.
\<close>

theorem evaluate_consistent:
  assumes "evaluate sha256 compile cf env openApproval input db cache = (res, db', cache')"
    and "cached_consistent cache" and "cache_ok (eg_cache cf) cache"
    and "eg_cache cf = cache_settings_of config envir"
  shows "(\<forall>d. res = Inr d \<longrightarrow> pd_allowed d = (pd_decision d = AllowOut) \<and> pd_decision d = outcomeOf (pd_effect d))
    \<and> cached_consistent cache' \<and> cache_ok (eg_cache cf) cache'"
proof -
  have one: "1 \<le> cs_maxEntries (eg_cache cf)" using settings_positive assms(4) by simp
  obtain res1 db1 cache1 where b: "evaluateBase sha256 compile cf env input db cache = (res1, db1, cache1)"
    by (metis prod.exhaust)
  note f = evaluateBase_facts [OF b assms(2,3) one]
  show ?thesis
  proof (cases res1)
    case (Inl e)
    with assms(1) b f show ?thesis by (auto simp: evaluate_def)
  next
    case (Inr r)
    obtain base trace where r: "r = (base, trace)" by fastforce
    obtain d db2 where fi: "finish sha256 cf env openApproval input base trace db1 = (d, db2)" by fastforce
    have "consistent d" using finish_consistent [OF fi] f Inr r by blast
    with assms(1) b Inr r fi f show ?thesis by (auto simp: evaluate_def consistent_def)
  qed
qed

theorem evaluate_consistent_witness:
  "cached_consistent (snd (snd (run_sample (sample_db [read_doc None] [] [] []) (sample_input None None None) empty_cache)))"
proof -
  let ?r = "run_sample (sample_db [read_doc None] [] [] []) (sample_input None None None) empty_cache"
  have "cs_maxEntries (eg_cache sample_settings) = 10" by (simp add: sample_settings_def)
  then have ok: "cache_ok (eg_cache sample_settings) empty_cache" by (simp add: cache_ok_def empty_cache_def)
  have e: "evaluate (\<lambda>t. t) (\<lambda>_. None) sample_settings sample_env False (sample_input None None None)
      (sample_db [read_doc None] [] [] []) empty_cache = (fst ?r, fst (snd ?r), snd (snd ?r))"
    by (simp add: run_sample_def)
  have cc: "cached_consistent empty_cache" by (simp add: cached_consistent_def empty_cache_def)
  have st: "eg_cache sample_settings = cache_settings_of \<lparr>cg_maxEntries = Some 10, cg_ttlMs = None, cg_enabled = None\<rparr>
      \<lparr>ce_max = None, ce_ttl = None, ce_enabled = None\<rparr>"
    by (simp add: sample_settings_def cache_settings_of_def first_of_def default_ttl_ms_def readEnvBool_def)
  from evaluate_consistent [OF e cc ok st] show ?thesis by blast
qed

text \<open>
  A denied call burns no approval. Without a hook, whatever the cache holds, an evaluation
  that ends in a denial leaves the approvals as they were.
\<close>

theorem evaluate_denied:
  assumes "evaluate sha256 compile cf env openApproval input db cache = (Inr d, db', cache')"
    and "pd_decision d = DenyOut" and "eg_hook cf = None"
    and "cached_consistent cache" and "cache_ok (eg_cache cf) cache" and "1 \<le> cs_maxEntries (eg_cache cf)"
    and "unique_keys ap_id (db_requests (po_approval db))"
  shows "po_approval db' = po_approval db"
proof -
  obtain base trace db1 cache1 where b: "evaluateBase sha256 compile cf env input db cache = (Inr (base, trace), db1, cache1)"
    and fi: "finish sha256 cf env openApproval input base trace db1 = (d, db')"
    using assms(1) by (auto simp: evaluate_def split: prod.splits sum.splits)
  from evaluateBase_facts [OF b assms(4-6)] assms(3)
  have f: "consistent base" "po_approval db1 = po_approval db" "trace = no_trace" by auto
  have u: "ht_consumed trace = None \<longrightarrow> unique_keys ap_id (db_requests (po_approval db1))"
    using f(2) assms(7) by simp
  from finish_facts [OF fi f(1) u] assms(2) f(2) show ?thesis by simp
qed

theorem evaluate_denied_witness:
  "po_approval (fst (snd (run_sample (sample_db [] [] [] []) (sample_input None None None) empty_cache)))
   = po_approval (sample_db [] [] [] [])"
proof -
  let ?r = "run_sample (sample_db [] [] [] []) (sample_input None None None) empty_cache"
  have "case fst ?r of Inr d \<Rightarrow> pd_decision d = DenyOut | Inl _ \<Rightarrow> False" by code_simp
  then obtain d where d: "fst ?r = Inr d" "pd_decision d = DenyOut" by (auto split: sum.splits)
  then have e: "evaluate (\<lambda>t. t) (\<lambda>_. None) sample_settings sample_env False (sample_input None None None)
      (sample_db [] [] [] []) empty_cache = (Inr d, fst (snd ?r), snd (snd ?r))"
    by (simp add: run_sample_def prod_eq_iff)
  show ?thesis
    by (rule evaluate_denied [OF e d(2)])
      (simp_all add: sample_settings_def cached_consistent_def empty_cache_def cache_ok_def sample_db_def unique_keys_def)
qed

section \<open>Invalidation\<close>

lemma key_prefix: "buildCacheKey input = s @ CHR ''|'' # t \<Longrightarrow> starts_with (s @ ''|'') (buildCacheKey input)"
  by (simp add: starts_with_iff)

lemma buildCacheKey_agent:
  "ps_agentId (vi_subject input) = Some a \<Longrightarrow> starts_with (a @ ''|'') (buildCacheKey input)"
  by (auto simp: buildCacheKey_def starts_with_iff)

lemma buildCacheKey_user:
  "ps_agentId (vi_subject input) = None \<Longrightarrow> ps_userId (vi_subject input) = Some u \<Longrightarrow>
   starts_with (u @ ''|'') (buildCacheKey input)"
  by (auto simp: buildCacheKey_def starts_with_iff)

definition gone_key :: "string \<Rightarrow> engine_cache \<Rightarrow> bool" where
  "gone_key k c \<longleftrightarrow> map_of (pc_store c) k = None"

lemma map_of_filter_None: "map_of st k = None \<Longrightarrow> map_of (filter P st) k = None"
  by (induction st) (auto split: if_splits)

lemma invalidatePrefix_gone:
  "gone_key k c \<or> starts_with p k \<Longrightarrow> gone_key k (snd (invalidatePrefix p c))"
proof -
  have "map_of (filter (\<lambda>(k, _). \<not> starts_with p k) st) k = None" if "starts_with p k"
    for st :: "(string \<times> PolicyDecision.policy_decision cache_entry) list"
    using that by (induction st) auto
  then show "gone_key k c \<or> starts_with p k \<Longrightarrow> gone_key k (snd (invalidatePrefix p c))"
    by (auto simp: gone_key_def invalidatePrefix_def map_of_filter_None)
qed

lemma gone_get: "gone_key k c \<Longrightarrow> fst (cache_get cs now k c) = None"
  by (simp add: gone_key_def cache_get_def)

text \<open>
  Invalidation takes effect at once. After \<open>invalidate\<close> names an agent, no evaluation for that
  agent is answered from the cache, and the same holds for evaluations without an agent for a user
  it names, and for all evaluations when it names a resource.
\<close>

theorem invalidate_fresh:
  assumes "(\<exists>a. is_agentId scope = Some a \<and> a \<noteq> [] \<and> ps_agentId (vi_subject input) = Some a)
    \<or> (\<exists>u. is_userId scope = Some u \<and> u \<noteq> [] \<and> ps_agentId (vi_subject input) = None
         \<and> ps_userId (vi_subject input) = Some u)
    \<or> (\<exists>r. is_resource scope = Some r \<and> r \<noteq> [])"
  shows "fst (cache_get cs now (buildCacheKey input) (invalidate scope cache)) = None"
proof -
  let ?k = "buildCacheKey input"
  have keep: "gone_key ?k c \<Longrightarrow> gone_key ?k (if b then snd (invalidatePrefix p c) else c)" for b p c
    using invalidatePrefix_gone by simp
  have last: "gone_key ?k c \<Longrightarrow> gone_key ?k (if b then cache_clear c else c)" for b c
    by (simp add: gone_key_def cache_clear_def)
  have clear: "gone_key ?k (cache_clear c)" for c by (simp add: gone_key_def cache_clear_def)
  from assms have "gone_key ?k (invalidate scope cache)"
  proof (elim disjE exE conjE)
    fix a assume a: "is_agentId scope = Some a" "a \<noteq> []" "ps_agentId (vi_subject input) = Some a"
    have "gone_key ?k (snd (invalidatePrefix (a @ ''|'') cache))"
      using invalidatePrefix_gone buildCacheKey_agent [OF a(3)] by blast
    with a(1,2) show ?thesis
      unfolding invalidate_def Let_def by - (rule last, rule keep, simp add: truthy_def)
  next
    fix u assume u: "is_userId scope = Some u" "u \<noteq> []" "ps_agentId (vi_subject input) = None"
      "ps_userId (vi_subject input) = Some u"
    have "gone_key ?k (snd (invalidatePrefix (u @ ''|'') c))" for c
      using invalidatePrefix_gone buildCacheKey_user [OF u(3,4)] by blast
    with u(1,2) show ?thesis unfolding invalidate_def Let_def by - (rule last, simp add: truthy_def)
  next
    fix r assume "is_resource scope = Some r" "r \<noteq> []"
    then show ?thesis unfolding invalidate_def Let_def using clear by (simp add: truthy_def)
  qed
  then show ?thesis by (rule gone_get)
qed

theorem invalidate_fresh_witness:
  "fst (cache_get (eg_cache sample_settings) 100 (buildCacheKey (sample_input None None None))
     (invalidate \<lparr>is_agentId = Some ''ag'', is_userId = None, is_resource = None\<rparr>
        (snd (snd (run_sample (sample_db [read_doc None] [] [] []) (sample_input None None None) empty_cache))))) = None"
  by (rule invalidate_fresh) (simp add: sample_input_def)

section \<open>Where the cache and approvals go wrong\<close>

definition admin_roles :: "org_role list" where
  "admin_roles = [\<lparr>og_orgId = ''o'', og_name = ''admin'', og_permissions = [''doc:read'']\<rparr>]"

definition admin_db :: policy_db where
  "admin_db = sample_db [] [\<lparr>om_userId = ''boss'', om_orgId = ''o'', om_role = ''admin''\<rparr>] admin_roles []"

definition after_boss :: engine_cache where
  "after_boss = snd (snd (run_sample admin_db (sample_input (Some ''boss'') None None) empty_cache))"

text \<open>
  The cache key holds the agent but not the user, while the roles of the user are part of the
  answer. After a call for an administrator, the same call of the same agent for another user is
  allowed from the cache; without the cache it is denied. Taking the role away and
  invalidating the administrator does not help either, because the entry is stored under the agent.
\<close>

theorem cached_role_leak:
  "allowed_in (run_sample admin_db (sample_input (Some ''guest'') None None) after_boss)
   \<and> \<not> allowed_in (run_sample admin_db (sample_input (Some ''guest'') None None) empty_cache)
   \<and> allowed_in (run_sample (admin_db\<lparr>po_members := []\<rparr>) (sample_input (Some ''boss'') None None)
        (invalidate \<lparr>is_agentId = None, is_userId = Some ''boss'', is_resource = None\<rparr> after_boss))"
proof (intro conjI)
  show "allowed_in (run_sample admin_db (sample_input (Some ''guest'') None None) after_boss)" by code_simp
  show "\<not> allowed_in (run_sample admin_db (sample_input (Some ''guest'') None None) empty_cache)" by code_simp
  show "allowed_in (run_sample (admin_db\<lparr>po_members := []\<rparr>) (sample_input (Some ''boss'') None None)
        (invalidate \<lparr>is_agentId = None, is_userId = Some ''boss'', is_resource = None\<rparr> after_boss))" by code_simp
qed

definition office_only :: permission_constraints where
  "office_only = no_constraints\<lparr>pc_requireApproval := True, pc_ipAllowlist := Some [''10.0.0.1'']\<rparr>"

text \<open>
  C17: \<open>requireApproval\<close> is checked before the time window and the address list, and \<open>evaluate\<close> does
  not check them when it spends the approval. So an approved call passes from an address that the
  list forbids, while \<open>authorize\<close> of the other engine checks the rest of the constraints first.
\<close>

theorem approval_skips_allowlist:
  "allowed_in (run_sample
       (sample_db [read_doc (Some office_only)] [] []
          [sample_approval\<lparr>ap_action := ''read'', ap_resource := ''doc''\<rparr>])
       (sample_input None (Some ''apr_1'') (Some ''6.6.6.6'')) empty_cache)
   \<and> \<not> ip_ok office_only (Some ''6.6.6.6'')"
proof
  show "allowed_in (run_sample
       (sample_db [read_doc (Some office_only)] [] []
          [sample_approval\<lparr>ap_action := ''read'', ap_resource := ''doc''\<rparr>])
       (sample_input None (Some ''apr_1'') (Some ''6.6.6.6'')) empty_cache)" by code_simp
  have "\<not> isIPAllowed [''10.0.0.1''] ''6.6.6.6''" by code_simp
  then show "\<not> ip_ok office_only (Some ''6.6.6.6'')" by (simp add: ip_ok_def office_only_def)
qed

end
