(* ===== verification/TokenFamily.thy ===== *)
theory TokenFamily
  imports SingleUse
begin

text \<open>
  Refresh tokens: \<open>session/token-family.ts\<close> and the token part of \<open>session/refresh.ts\<close>. A family is
  the chain of tokens of one login; consuming a used token revokes the family. \<open>consumeToken\<close> is a
  program with a counter, one database statement per step, so that several consumers interleave.
  The first claim says what presenting a token twice leads to under any interleaving.
\<close>

section \<open>Tables\<close>

record token_family =
  tf_id :: ident
  tf_userId :: ident
  tf_absoluteExpiresAt :: time
  tf_revoked :: bool
  tf_createdAt :: time

record family_db =
  fd_families :: "token_family list"
  fd_tokens :: "refresh_token list"

datatype consume_status = OkS | ExpiredS | RevokedS | ReuseS | NotFoundS

definition max_reuse_grace_ms :: int where
  "max_reuse_grace_ms = 5 * 60000"

definition clampGrace :: "int \<Rightarrow> int" where
  "clampGrace ms = (if ms \<le> 0 then 0 else min ms max_reuse_grace_ms)"

definition withinGrace :: "int \<Rightarrow> time \<Rightarrow> int \<Rightarrow> bool" where
  "withinGrace usedValue nowMs graceMs \<longleftrightarrow> 0 < graceMs \<and> nowMs - usedValue * 1000 \<le> graceMs"

definition createFamily :: "ident \<Rightarrow> ident \<Rightarrow> time \<Rightarrow> time \<Rightarrow> family_db \<Rightarrow> token_family \<times> family_db" where
  "createFamily i userId absoluteExpiresAt now db =
     (let f = \<lparr>tf_id = i, tf_userId = userId, tf_absoluteExpiresAt = absoluteExpiresAt,
               tf_revoked = False, tf_createdAt = now\<rparr>
      in (f, db\<lparr>fd_families := fd_families db @ [f]\<rparr>))"

text \<open>\<open>issueToken\<close>: the raw token and the row id are drawn outside; the expiry is returned.\<close>

definition issueToken ::
  "(string \<Rightarrow> string) \<Rightarrow> string \<Rightarrow> ident \<Rightarrow> ident \<Rightarrow> int \<Rightarrow> time \<Rightarrow> family_db \<Rightarrow> time \<times> family_db" where
  "issueToken sha256 raw i familyId ttlMs now db =
     (now + ttlMs,
      db\<lparr>fd_tokens := fd_tokens db @
        [\<lparr>rt_id = i, rt_familyId = familyId, rt_tokenHash = sha256 raw, rt_used = 0,
          rt_expiresAt = now + ttlMs, rt_createdAt = now\<rparr>]\<rparr>)"

definition revokeFamiliesForUser :: "ident \<Rightarrow> family_db \<Rightarrow> family_db" where
  "revokeFamiliesForUser userId db =
     db\<lparr>fd_families := update_where (\<lambda>f. tf_userId f = userId) (tf_revoked_update (\<lambda>_. True)) (fd_families db)\<rparr>"

definition revokeFamily :: "ident \<Rightarrow> family_db \<Rightarrow> family_db" where
  "revokeFamily i db =
     db\<lparr>fd_families := update_where (\<lambda>f. tf_id f = i) (tf_revoked_update (\<lambda>_. True)) (fd_families db)\<rparr>"

definition isFamilyActive :: "token_family \<Rightarrow> time \<Rightarrow> bool" where
  "isFamilyActive f now \<longleftrightarrow> \<not> tf_revoked f \<and> now < tf_absoluteExpiresAt f"

section \<open>Consuming a token\<close>

text \<open>Where a consumer stands: the next statement of \<open>consumeToken\<close> and what it has read.\<close>

datatype consume_pc =
    AtToken
  | AtFamily refresh_token
  | AtExpire token_family
  | AtClaim token_family
  | AtReread token_family
  | AtRevoke token_family
  | Consumed consume_status "token_family option" bool

definition token_row :: "string \<Rightarrow> family_db \<Rightarrow> refresh_token option" where
  "token_row tokenHash db = List.find (\<lambda>r. rt_tokenHash r = tokenHash) (fd_tokens db)"

definition family_row :: "ident \<Rightarrow> family_db \<Rightarrow> token_family option" where
  "family_row i db = List.find (\<lambda>f. tf_id f = i) (fd_families db)"

text \<open>The checks between reading the family and the claim.\<close>

definition after_family :: "int \<Rightarrow> time \<Rightarrow> refresh_token \<Rightarrow> token_family \<Rightarrow> consume_pc" where
  "after_family graceMs now row f =
     (if tf_revoked f then Consumed RevokedS (Some f) False
      else if tf_absoluteExpiresAt f \<le> now then AtExpire f
      else if rt_expiresAt row \<le> now then Consumed ExpiredS (Some f) False
      else if rt_used row \<noteq> 0 then
        (if withinGrace (rt_used row) now graceMs then Consumed OkS (Some f) True else AtRevoke f)
      else AtClaim f)"

fun consume_step ::
  "int \<Rightarrow> string \<Rightarrow> time \<Rightarrow> consume_pc \<Rightarrow> family_db \<Rightarrow> consume_pc \<times> family_db" where
  "consume_step graceMs h now AtToken db =
     (case token_row h db of None \<Rightarrow> Consumed NotFoundS None False | Some row \<Rightarrow> AtFamily row, db)"
| "consume_step graceMs h now (AtFamily row) db =
     (case family_row (rt_familyId row) db of
        None \<Rightarrow> Consumed NotFoundS None False
      | Some f \<Rightarrow> after_family graceMs now row f, db)"
| "consume_step graceMs h now (AtExpire f) db = (Consumed ExpiredS (Some f) False, revokeFamily (tf_id f) db)"
| "consume_step graceMs h now (AtClaim f) db =
     (case refreshTokens_claim (h, max 1 (now div 1000)) (fd_tokens db) of
        (claimed, tokens) \<Rightarrow>
          (if claimed then Consumed OkS (Some f) False
           else if 0 < graceMs then AtReread f else AtRevoke f,
           db\<lparr>fd_tokens := tokens\<rparr>))"
| "consume_step graceMs h now (AtReread f) db =
     (case token_row h db of
        None \<Rightarrow> AtRevoke f
      | Some fresh \<Rightarrow>
          if rt_used fresh \<noteq> 0 \<and> withinGrace (rt_used fresh) now graceMs
          then Consumed OkS (Some f) True else AtRevoke f, db)"
| "consume_step graceMs h now (AtRevoke f) db = (Consumed ReuseS (Some f) False, revokeFamily (tf_id f) db)"
| "consume_step graceMs h now (Consumed st f g) db = (Consumed st f g, db)"

fun consume_steps ::
  "int \<Rightarrow> string \<Rightarrow> time \<Rightarrow> nat \<Rightarrow> consume_pc \<times> family_db \<Rightarrow> consume_pc \<times> family_db" where
  "consume_steps graceMs h now 0 s = s"
| "consume_steps graceMs h now (Suc n) (pc, db) = consume_steps graceMs h now n (consume_step graceMs h now pc db)"

text \<open>A consumer alone: it makes at most five statements.\<close>

definition consumeToken ::
  "(string \<Rightarrow> string) \<Rightarrow> int \<Rightarrow> int option \<Rightarrow> string \<Rightarrow> time \<Rightarrow> family_db
     \<Rightarrow> (consume_status \<times> token_family option \<times> bool) \<times> family_db" where
  "consumeToken sha256 reuseGraceMs graceOption raw now db =
     (let graceMs = (case graceOption of None \<Rightarrow> clampGrace reuseGraceMs | Some ms \<Rightarrow> clampGrace ms)
      in case consume_steps graceMs (sha256 raw) now 5 (AtToken, db) of
           (Consumed st f g, db') \<Rightarrow> ((st, f, g), db')
         | (_, db') \<Rightarrow> ((NotFoundS, None, False), db'))"

fun steps_left :: "consume_pc \<Rightarrow> nat" where
  "steps_left AtToken = 5"
| "steps_left (AtFamily row) = 4"
| "steps_left (AtClaim f) = 3"
| "steps_left (AtReread f) = 2"
| "steps_left (AtExpire f) = 1"
| "steps_left (AtRevoke f) = 1"
| "steps_left (Consumed st f g) = 0"

lemma consume_step_progress:
  "consume_step g h now pc db = (pc', db') \<Longrightarrow> steps_left pc' \<le> steps_left pc - 1"
  by (cases pc) (auto simp: after_family_def split: option.splits prod.splits if_splits)

lemma consume_steps_end:
  "consume_steps g h now n (pc, db) = (pc', db') \<Longrightarrow> steps_left pc \<le> n \<Longrightarrow> steps_left pc' = 0"
proof (induction n arbitrary: pc db)
  case (Suc n)
  obtain pc1 db1 where s: "consume_step g h now pc db = (pc1, db1)" by fastforce
  from consume_step_progress [OF s] Suc show ?case by (simp add: s)
qed simp

lemma steps_left_0: "steps_left pc = 0 \<Longrightarrow> \<exists>st f g. pc = Consumed st f g"
  by (cases pc) auto

section \<open>What a statement keeps\<close>

text \<open>Families stay and are never un-revoked; tokens stay and are never un-used.\<close>

definition family_revoked :: "ident \<Rightarrow> family_db \<Rightarrow> bool" where
  "family_revoked i db \<longleftrightarrow> (\<exists>f. family_row i db = Some f \<and> tf_revoked f)"

definition token_used :: "string \<Rightarrow> family_db \<Rightarrow> bool" where
  "token_used h db \<longleftrightarrow> (\<forall>r\<in>set (fd_tokens db). rt_tokenHash r = h \<longrightarrow> rt_used r \<noteq> 0)"

definition has_family :: "ident \<Rightarrow> family_db \<Rightarrow> bool" where
  "has_family i db \<longleftrightarrow> i \<in> tf_id ` set (fd_families db)"

definition has_token :: "string \<Rightarrow> family_db \<Rightarrow> bool" where
  "has_token h db \<longleftrightarrow> h \<in> rt_tokenHash ` set (fd_tokens db)"

definition grows :: "family_db \<Rightarrow> family_db \<Rightarrow> bool" where
  "grows db db' \<longleftrightarrow>
     (\<forall>i. has_family i db \<longrightarrow> has_family i db' \<and> (family_revoked i db \<longrightarrow> family_revoked i db'))
     \<and> (\<forall>h. has_token h db \<longrightarrow> has_token h db' \<and> (token_used h db \<longrightarrow> token_used h db'))"

lemma has_family_map [simp]:
  "has_family i (db\<lparr>fd_families := update_where P (tf_revoked_update g) (fd_families db)\<rparr>) = has_family i db"
  by (simp add: has_family_def set_map [symmetric] map_update_where del: set_map)

lemma has_token_map [simp]:
  "has_token h (db\<lparr>fd_tokens := update_where P (rt_used_update g) (fd_tokens db)\<rparr>) = has_token h db"
  by (simp add: has_token_def set_map [symmetric] map_update_where del: set_map)

lemma other_table [simp]:
  "has_family i (db\<lparr>fd_tokens := ts\<rparr>) = has_family i db"
  "has_token h (db\<lparr>fd_families := fs\<rparr>) = has_token h db"
  "family_revoked i (db\<lparr>fd_tokens := ts\<rparr>) = family_revoked i db"
  "token_used h (db\<lparr>fd_families := fs\<rparr>) = token_used h db"
  by (simp_all add: has_family_def has_token_def family_revoked_def family_row_def token_used_def)

lemma find_family:
  "List.find (\<lambda>f. tf_id f = i) (update_where P (tf_revoked_update (\<lambda>_. True)) fs)
     = map_option (\<lambda>f. f\<lparr>tf_revoked := P f \<or> tf_revoked f\<rparr>) (List.find (\<lambda>f. tf_id f = i) fs)"
  by (induction fs) auto

lemma family_revoked_map:
  "family_revoked i db \<Longrightarrow>
   family_revoked i (db\<lparr>fd_families := update_where P (tf_revoked_update (\<lambda>_. True)) (fd_families db)\<rparr>)"
  by (auto simp: family_revoked_def family_row_def find_family)

lemma grows_refl [simp]: "grows db db"
  by (simp add: grows_def)



lemma fd_families_revokeFamily:
  "fd_families (revokeFamily i db)
     = update_where (\<lambda>f. tf_id f = i) (tf_revoked_update (\<lambda>_. True)) (fd_families db)"
  by (simp add: revokeFamily_def)

lemma family_found: "List.find (\<lambda>f. tf_id f = i) fs = Some f \<Longrightarrow> f \<in> set fs \<and> tf_id f = i"
  by (auto simp: find_Some_iff)

lemma has_family_row: "has_family i db \<longleftrightarrow> (\<exists>f. family_row i db = Some f)"
  by (cases "family_row i db") (auto simp: has_family_def family_row_def find_None_iff dest: family_found)

lemma revokeFamily_revoked: "has_family i db \<Longrightarrow> family_revoked i (revokeFamily i db)"
  by (auto simp: has_family_row family_revoked_def family_row_def fd_families_revokeFamily find_family
      dest: family_found)

lemma grows_revokeFamily [simp]: "grows db (revokeFamily i db)"
  by (simp add: grows_def revokeFamily_def family_revoked_map)

lemma grows_revokeUser [simp]: "grows db (revokeFamiliesForUser u db)"
  by (simp add: grows_def revokeFamiliesForUser_def family_revoked_map)

lemma claim_result:
  assumes "refreshTokens_claim (h, u) ts = (b, ts')"
  shows "ts' = update_where (\<lambda>r. rt_tokenHash r = h \<and> rt_used r = 0) (rt_used_update (\<lambda>_. u)) ts"
    and "b \<longleftrightarrow> (\<exists>r\<in>set ts. rt_tokenHash r = h \<and> rt_used r = 0)"
proof -
  have f: "flip (\<lambda>r. rt_tokenHash r = h \<and> rt_used r = 0) (rt_used_update (\<lambda>_. u)) ts = (b, ts')"
    using assms by (simp add: refreshTokens_claim_def)
  show "ts' = update_where (\<lambda>r. rt_tokenHash r = h \<and> rt_used r = 0) (rt_used_update (\<lambda>_. u)) ts"
    and "b \<longleftrightarrow> (\<exists>r\<in>set ts. rt_tokenHash r = h \<and> rt_used r = 0)"
    using flip_result [OF f] by blast+
qed

lemma token_usedD: "token_used h db \<Longrightarrow> r \<in> set (fd_tokens db) \<Longrightarrow> rt_tokenHash r = h \<Longrightarrow> rt_used r \<noteq> 0"
  by (simp add: token_used_def)

lemma token_used_map:
  "u \<noteq> 0 \<Longrightarrow> token_used h (db\<lparr>fd_tokens := update_where P (rt_used_update (\<lambda>_. u)) (fd_tokens db)\<rparr>)
    \<longleftrightarrow> (\<forall>r\<in>set (fd_tokens db). rt_tokenHash r = h \<longrightarrow> rt_used r \<noteq> 0 \<or> P r)"
  by (auto simp: token_used_def set_update_where)

lemma grows_claim:
  assumes claim: "refreshTokens_claim (h, u) (fd_tokens db) = (b, ts')" and u: "u \<noteq> 0"
  shows "grows db (db\<lparr>fd_tokens := ts'\<rparr>)" and "token_used h (db\<lparr>fd_tokens := ts'\<rparr>)"
    and "b \<longleftrightarrow> \<not> token_used h db"
proof -
  note ts' = claim_result(1) [OF claim]
  show "grows db (db\<lparr>fd_tokens := ts'\<rparr>)" unfolding ts'
    by (auto simp: grows_def token_used_map [OF u] dest: token_usedD)
  show "token_used h (db\<lparr>fd_tokens := ts'\<rparr>)" unfolding ts' by (simp add: token_used_map [OF u])
  show "b \<longleftrightarrow> \<not> token_used h db"
    using claim_result(2) [OF claim] by (auto simp: token_used_def)
qed

lemma consumed_at_nonzero [simp]: "max 1 (n :: int) \<noteq> 0"
  by (simp add: max_def)

lemma grows_step: "consume_step g h now pc db = (pc', db') \<Longrightarrow> grows db db'"
  by (cases pc) (auto split: prod.splits dest: grows_claim(1) [OF _ consumed_at_nonzero])

text \<open>A hash that has a row keeps its family, and a row once found stays found.\<close>

definition token_family_id :: "string \<Rightarrow> family_db \<Rightarrow> ident option" where
  "token_family_id h db = map_option rt_familyId (token_row h db)"

lemma find_update_keeps:
  "(\<And>x. P (f x) = P x) \<Longrightarrow> (\<And>x. g (f x) = g x) \<Longrightarrow>
   map_option g (List.find P (update_where Q f xs)) = map_option g (List.find P xs)"
  by (induction xs) auto

lemma find_update_where:
  "(\<And>x. rt_tokenHash (f x) = rt_tokenHash x \<and> rt_familyId (f x) = rt_familyId x) \<Longrightarrow>
   map_option rt_familyId (List.find (\<lambda>r. rt_tokenHash r = h) (update_where P f ts))
     = map_option rt_familyId (List.find (\<lambda>r. rt_tokenHash r = h) ts)"
  by (rule find_update_keeps) simp_all

lemma token_family_id_step:
  "consume_step g k now pc db = (pc', db') \<Longrightarrow> token_family_id h db' = token_family_id h db"
  by (cases pc)
    (auto simp: token_family_id_def token_row_def revokeFamily_def find_update_where split: prod.splits
      dest!: claim_result(1))

lemma find_append: "List.find P xs = Some x \<Longrightarrow> List.find P (xs @ ys) = Some x"
  by (induction xs) auto

lemma token_row_Some:
  "token_row h db = Some r \<Longrightarrow> r \<in> set (fd_tokens db) \<and> rt_tokenHash r = h \<and> has_token h db"
  by (auto simp: token_row_def find_Some_iff has_token_def)

lemma family_row_Some:
  "family_row i db = Some f \<Longrightarrow> f \<in> set (fd_families db) \<and> tf_id f = i \<and> has_family i db"
  by (auto simp: family_row_def find_Some_iff has_family_def)

lemma token_family_id_has: "token_family_id h db = Some i \<Longrightarrow> has_token h db"
  by (auto simp: token_family_id_def dest: token_row_Some)

section \<open>Interleaved consumers\<close>

text \<open>
  The table is shared by any number of consumers. A run is any interleaving of their statements with
  the issue of a token, the creation of a family and the revocation of a user's families. A fresh
  token hash or family id is one that has no row: both are 256-bit random values.
\<close>

record consumer =
  co_hash :: string
  co_now :: time
  co_pc :: consume_pc

record family_system =
  fs_db :: family_db
  fs_consumers :: "consumer list"

inductive family_step :: "int \<Rightarrow> family_system \<Rightarrow> family_system \<Rightarrow> bool" for graceMs :: int where
  fam_arrive:
  "family_step graceMs s (s\<lparr>fs_consumers := fs_consumers s @ [\<lparr>co_hash = h, co_now = now, co_pc = AtToken\<rparr>]\<rparr>)"
| fam_run:
  "j < length (fs_consumers s) \<Longrightarrow> fs_consumers s ! j = c \<Longrightarrow>
   consume_step graceMs (co_hash c) (co_now c) (co_pc c) (fs_db s) = (pc, db) \<Longrightarrow>
   family_step graceMs s (s\<lparr>fs_db := db, fs_consumers := (fs_consumers s)[j := c\<lparr>co_pc := pc\<rparr>]\<rparr>)"
| fam_issue:
  "\<not> has_token (sha256 raw) (fs_db s) \<Longrightarrow> issueToken sha256 raw i familyId ttl now (fs_db s) = (t, db) \<Longrightarrow>
   family_step graceMs s (s\<lparr>fs_db := db\<rparr>)"
| fam_create:
  "\<not> has_family i (fs_db s) \<Longrightarrow> createFamily i u expires now (fs_db s) = (f, db) \<Longrightarrow>
   family_step graceMs s (s\<lparr>fs_db := db\<rparr>)"
| fam_revoke_user:
  "family_step graceMs s (s\<lparr>fs_db := revokeFamiliesForUser u (fs_db s)\<rparr>)"

inductive_cases family_stepE: "family_step graceMs s t"

definition family_start :: "family_system \<Rightarrow> bool" where
  "family_start s \<longleftrightarrow> fs_db s = \<lparr>fd_families = [], fd_tokens = []\<rparr> \<and> fs_consumers s = []"

text \<open>What a consumer's place in the program says of the tables.\<close>

fun pc_ok :: "string \<Rightarrow> family_db \<Rightarrow> consume_pc \<Rightarrow> bool" where
  "pc_ok h db AtToken = True"
| "pc_ok h db (AtFamily row) =
     (token_family_id h db = Some (rt_familyId row))"
| "pc_ok h db (AtExpire f) = (token_family_id h db = Some (tf_id f) \<and> has_family (tf_id f) db)"
| "pc_ok h db (AtClaim f) = (token_family_id h db = Some (tf_id f) \<and> has_family (tf_id f) db)"
| "pc_ok h db (AtReread f) = (token_family_id h db = Some (tf_id f) \<and> has_family (tf_id f) db)"
| "pc_ok h db (AtRevoke f) = (token_family_id h db = Some (tf_id f) \<and> has_family (tf_id f) db)"
| "pc_ok h db (Consumed st f g) =
     (case f of
        None \<Rightarrow> st = NotFoundS
      | Some fam \<Rightarrow> token_family_id h db = Some (tf_id fam) \<and> has_family (tf_id fam) db \<and> st \<noteq> NotFoundS
          \<and> (st = ReuseS \<or> st = RevokedS \<longrightarrow> family_revoked (tf_id fam) db)
          \<and> (st = OkS \<and> \<not> g \<longrightarrow> token_used h db))"

lemma pc_ok_grows:
  "pc_ok h db pc \<Longrightarrow> grows db db' \<Longrightarrow>
   (\<And>i. token_family_id h db = Some i \<Longrightarrow> token_family_id h db' = Some i) \<Longrightarrow> pc_ok h db' pc"
  by (cases pc) (auto simp: grows_def split: option.splits dest: token_family_id_has)

lemma after_family_ok:
  "token_family_id h db = Some (rt_familyId row) \<Longrightarrow> family_row (rt_familyId row) db = Some f \<Longrightarrow>
   pc_ok h db (after_family g now row f)"
  using family_row_Some [of "rt_familyId row" db f]
  by (auto simp: after_family_def family_revoked_def)

lemma pc_ok_step:
  assumes ok: "pc_ok h db pc" and s: "consume_step g h now pc db = (pc', db')"
  shows "pc_ok h db' pc'"
proof -
  have ids: "token_family_id h db' = token_family_id h db" by (rule token_family_id_step [OF s])
  have gr: "grows db db'" by (rule grows_step [OF s])
  show ?thesis
  proof (cases pc)
    case AtToken
    then show ?thesis using s by (auto simp: token_family_id_def split: option.splits)
  next
    case (AtFamily row)
    then show ?thesis using s ok by (auto intro: after_family_ok split: option.splits)
  next
    case (AtClaim f)
    obtain b ts where c: "refreshTokens_claim (h, max 1 (now div 1000)) (fd_tokens db) = (b, ts)" by fastforce
    have "token_used h db'" using s grows_claim(2) [OF c consumed_at_nonzero] by (simp add: AtClaim c split: if_splits)
    then show ?thesis using s ok ids gr by (auto simp: AtClaim c grows_def split: if_splits)
  next
    case (AtReread f)
    then show ?thesis using s ok by (auto split: option.splits if_splits)
  next
    case (AtExpire f)
    then show ?thesis using s ok ids gr by (auto simp: grows_def)
  next
    case (AtRevoke f)
    then show ?thesis using s ok ids gr by (auto simp: grows_def revokeFamily_revoked)
  next
    case (Consumed st f gr)
    then show ?thesis using s ok by auto
  qed
qed

definition won :: "consume_pc \<Rightarrow> bool" where
  "won pc \<longleftrightarrow> (case pc of Consumed OkS f g \<Rightarrow> \<not> g | _ \<Rightarrow> False)"

lemma step_wins:
  "consume_step g h now pc db = (pc', db') \<Longrightarrow> won pc' \<Longrightarrow> won pc \<or> \<not> token_used h db"
  by (cases pc)
    (auto simp: won_def after_family_def split: option.splits prod.splits if_splits
      dest: grows_claim(3) [OF _ consumed_at_nonzero])

lemma won_used: "pc_ok h db pc \<Longrightarrow> won pc \<Longrightarrow> token_used h db"
  by (auto simp: won_def split: consume_pc.splits consume_status.splits option.splits)

definition fam_inv :: "family_system \<Rightarrow> bool" where
  "fam_inv s \<longleftrightarrow>
     (\<forall>c\<in>set (fs_consumers s). pc_ok (co_hash c) (fs_db s) (co_pc c))
     \<and> (\<forall>i<length (fs_consumers s). \<forall>j<length (fs_consumers s).
          co_hash (fs_consumers s ! i) = co_hash (fs_consumers s ! j)
          \<and> won (co_pc (fs_consumers s ! i)) \<and> won (co_pc (fs_consumers s ! j)) \<longrightarrow> i = j)"

lemma fam_inv_db:
  assumes inv: "fam_inv s" and g: "grows (fs_db s) db"
    and ids: "\<And>h i. token_family_id h (fs_db s) = Some i \<Longrightarrow> token_family_id h db = Some i"
  shows "fam_inv (s\<lparr>fs_db := db\<rparr>)"
  using inv unfolding fam_inv_def by (auto intro: pc_ok_grows [OF _ g ids])

lemma grows_issue:
  assumes fresh: "\<not> has_token (sha256 raw) db" and i: "issueToken sha256 raw i familyId ttl now db = (t, db')"
  shows "grows db db'" and "token_family_id h db = Some k \<Longrightarrow> token_family_id h db' = Some k"
  using i fresh
  by (auto simp: issueToken_def grows_def has_family_def has_token_def token_used_def family_revoked_def
      family_row_def token_family_id_def token_row_def find_append)

lemma grows_create:
  assumes i: "createFamily i u expires now db = (f, db')"
  shows "grows db db'" and "token_family_id h db = Some k \<Longrightarrow> token_family_id h db' = Some k"
  using i [unfolded createFamily_def Let_def, symmetric]
  by (auto simp: grows_def has_family_def has_token_def token_used_def family_revoked_def
      family_row_def token_family_id_def token_row_def find_append)

lemma fam_inv_run:
  assumes inv: "fam_inv s" and j: "j < length (fs_consumers s)"
    and s: "consume_step g (co_hash c) (co_now c) (co_pc c) (fs_db s) = (pc, db)"
    and c: "fs_consumers s ! j = c"
  shows "fam_inv (s\<lparr>fs_db := db, fs_consumers := (fs_consumers s)[j := c\<lparr>co_pc := pc\<rparr>]\<rparr>)"
proof -
  have ok: "pc_ok (co_hash x) (fs_db s) (co_pc x)" if "x \<in> set (fs_consumers s)" for x
    using inv that by (simp add: fam_inv_def)
  have old: "pc_ok (co_hash x) db (co_pc x)" if "x \<in> set (fs_consumers s)" for x
    using ok [OF that] pc_ok_grows [OF _ grows_step [OF s]] token_family_id_step [OF s] by simp
  have cin: "c \<in> set (fs_consumers s)" using j c by auto
  have uniq: "k = j" if "won pc" "k < length (fs_consumers s)" "co_hash (fs_consumers s ! k) = co_hash c"
    "won (co_pc (fs_consumers s ! k))" for k
  proof (cases "won (co_pc c)")
    case True
    then show ?thesis using that inv j c by (auto simp: fam_inv_def)
  next
    case False
    then have "\<not> token_used (co_hash c) (fs_db s)" using step_wins [OF s \<open>won pc\<close>] by blast
    moreover have "pc_ok (co_hash c) (fs_db s) (co_pc (fs_consumers s ! k))"
      using ok [OF nth_mem [OF that(2)]] that(3) by simp
    ultimately show ?thesis using won_used that(4) by blast
  qed
  have new: "pc_ok (co_hash c) db pc" by (rule pc_ok_step [OF ok [OF cin] s])
  show ?thesis
    unfolding fam_inv_def
  proof (intro conjI ballI allI impI, goal_cases)
    case (1 x)
    then have "x \<in> insert (c\<lparr>co_pc := pc\<rparr>) (set (fs_consumers s))"
      using set_update_subset_insert by force
    then show ?case using old new by auto
  next
    case (2 i k)
    then have "i < length (fs_consumers s)" "k < length (fs_consumers s)" by simp_all
    moreover have "i = k" if "i \<noteq> j" "k \<noteq> j"
      using inv that 2 by (simp add: fam_inv_def)
    moreover have "k = j" if "i = j" "k \<noteq> j"
      by (rule uniq) (use 2 j that in simp_all)
    moreover have "i = j" if "k = j" "i \<noteq> j"
      by (rule uniq) (use 2 j that in simp_all)
    ultimately show ?case by blast
  qed
qed

lemma fam_inv_step:
  assumes inv: "fam_inv s" and step: "family_step g s t"
  shows "fam_inv t"
  using step
proof cases
  case (fam_arrive h now)
  then show ?thesis using inv by (auto simp: fam_inv_def nth_append less_Suc_eq won_def)
next
  case (fam_run j c pc db)
  then show ?thesis using fam_inv_run [OF inv] by simp
next
  case (fam_issue sha256 raw i familyId ttl now k db)
  then show ?thesis using fam_inv_db [OF inv] grows_issue by simp
next
  case (fam_create i u expires now f db)
  then show ?thesis using fam_inv_db [OF inv] grows_create by simp
next
  case (fam_revoke_user u)
  have "token_family_id h (revokeFamiliesForUser u (fs_db s)) = token_family_id h (fs_db s)" for h
    by (simp add: token_family_id_def token_row_def revokeFamiliesForUser_def)
  then show ?thesis using fam_inv_db [OF inv grows_revokeUser] fam_revoke_user by simp
qed

lemma fam_inv_start: "family_start s \<Longrightarrow> fam_inv s"
  by (simp add: family_start_def fam_inv_def)

interpretation families: machine family_start "family_step g" fam_inv
  by unfold_locales (fact fam_inv_start, fact fam_inv_step)

text \<open>A replay is accepted only where a grace window is configured.\<close>

definition grace_inv :: "int \<Rightarrow> family_system \<Rightarrow> bool" where
  "grace_inv g s \<longleftrightarrow> (\<forall>c\<in>set (fs_consumers s). \<forall>st f. co_pc c = Consumed st f True \<longrightarrow> 0 < g)"

lemma grace_step:
  "consume_step g h now pc db = (Consumed st f True, db') \<Longrightarrow> 0 < g \<or> pc = Consumed st f True"
  by (cases pc) (auto simp: after_family_def withinGrace_def split: option.splits prod.splits if_splits)

lemma grace_inv_step:
  assumes inv: "grace_inv g s" and step: "family_step g s t"
  shows "grace_inv g t"
  using step
proof cases
  case (fam_run j c pc db)
  then have "\<forall>st f. pc = Consumed st f True \<longrightarrow> 0 < g"
    using grace_step inv nth_mem unfolding grace_inv_def by blast
  moreover have "set (fs_consumers t) \<subseteq> insert (c\<lparr>co_pc := pc\<rparr>) (set (fs_consumers s))"
    using fam_run set_update_subset_insert by simp
  ultimately show ?thesis using inv unfolding grace_inv_def by (auto dest: subsetD)
qed (use inv in \<open>auto simp: grace_inv_def\<close>)

lemma grace_inv_start: "family_start s \<Longrightarrow> grace_inv g s"
  by (simp add: family_start_def grace_inv_def)

interpretation grace: machine family_start "family_step g" "grace_inv g"
  by unfold_locales (fact grace_inv_start, fact grace_inv_step)

lemma reachable_facts:
  assumes "reaches family_start (family_step g) s"
  shows "fam_inv s" and "grace_inv g s"
  using families.inv_reachable [OF assms] grace.inv_reachable [OF assms] by simp_all

text \<open>
  C10: a refresh token that is presented twice is detected. Whatever the interleaving, when two consumers of
  one token have both finished in strict mode, and neither was turned away because the token is unknown or
  expired, then they did not both succeed and the token's family is revoked.
\<close>

theorem reuse_detected:
  assumes reach: "reaches family_start (family_step 0) s"
    and i: "i < length (fs_consumers s)" "co_hash (fs_consumers s ! i) = h"
      "co_pc (fs_consumers s ! i) = Consumed st fi gi" "st \<noteq> ExpiredS" "st \<noteq> NotFoundS"
    and j: "j < length (fs_consumers s)" "co_hash (fs_consumers s ! j) = h"
      "co_pc (fs_consumers s ! j) = Consumed st' fj gj" "st' \<noteq> ExpiredS" "st' \<noteq> NotFoundS"
    and ij: "i \<noteq> j"
  shows "\<not> (st = OkS \<and> st' = OkS)
    \<and> (\<exists>k. token_family_id h (fs_db s) = Some k \<and> family_revoked k (fs_db s))"
proof -
  note inv = reachable_facts [OF reach]
  have flags: "\<not> gi" "\<not> gj"
    using inv(2) nth_mem [OF i(1)] nth_mem [OF j(1)] i(3) j(3) unfolding grace_inv_def by fastforce+
  have two: "\<not> (st = OkS \<and> st' = OkS)"
  proof
    assume "st = OkS \<and> st' = OkS"
    then have "won (co_pc (fs_consumers s ! i))" "won (co_pc (fs_consumers s ! j))"
      using i(3) j(3) flags by (simp_all add: won_def)
    then have "i = j" using inv(1) i(1,2) j(1,2) unfolding fam_inv_def by metis
    then show False using ij by contradiction
  qed
  have ok: "pc_ok h (fs_db s) (Consumed st fi gi)" "pc_ok h (fs_db s) (Consumed st' fj gj)"
    using inv(1) nth_mem [OF i(1)] nth_mem [OF j(1)] i(2,3) j(2,3) unfolding fam_inv_def by metis+
  have "\<exists>k. token_family_id h (fs_db s) = Some k \<and> family_revoked k (fs_db s)"
  proof (cases "st = OkS")
    case True
    with two have "st' \<noteq> OkS" by simp
    then show ?thesis using ok(2) j(4,5) by (cases st'; cases fj) auto
  next
    case False
    then show ?thesis using ok(1) i(4,5) by (cases st; cases fi) auto
  qed
  with two show ?thesis by simp
qed

text \<open>Runs given as a list of moves.\<close>

datatype fam_move =
    MArrive string time
  | MRun nat
  | MIssue string ident ident int time
  | MCreate ident ident time time

definition fam_do :: "int \<Rightarrow> fam_move \<Rightarrow> family_system \<Rightarrow> family_system" where
  "fam_do graceMs m s =
     (case m of
        MArrive h now \<Rightarrow> s\<lparr>fs_consumers := fs_consumers s @ [\<lparr>co_hash = h, co_now = now, co_pc = AtToken\<rparr>]\<rparr>
      | MRun j \<Rightarrow>
          if j < length (fs_consumers s) then
            (let c = fs_consumers s ! j in
             case consume_step graceMs (co_hash c) (co_now c) (co_pc c) (fs_db s) of
               (pc, db) \<Rightarrow> s\<lparr>fs_db := db, fs_consumers := (fs_consumers s)[j := c\<lparr>co_pc := pc\<rparr>]\<rparr>)
          else s
      | MIssue raw i familyId ttl now \<Rightarrow>
          if has_token raw (fs_db s) then s
          else s\<lparr>fs_db := snd (issueToken (\<lambda>x. x) raw i familyId ttl now (fs_db s))\<rparr>
      | MCreate i u expires now \<Rightarrow>
          if has_family i (fs_db s) then s
          else s\<lparr>fs_db := snd (createFamily i u expires now (fs_db s))\<rparr>)"

lemma fam_do_step: "fam_do g m s = s \<or> family_step g s (fam_do g m s)"
proof (cases m)
  case (MRun j)
  then show ?thesis
    by (auto simp: fam_do_def Let_def split: prod.splits intro: fam_run)
next
  case (MIssue raw i familyId ttl now)
  then show ?thesis
    using fam_issue [of "\<lambda>x. x" raw s i familyId ttl now]
    by (auto simp: fam_do_def) (metis prod.collapse)
next
  case (MCreate i u expires now)
  then show ?thesis
    using fam_create [of i s u expires now] by (auto simp: fam_do_def) (metis prod.collapse)
qed (auto simp: fam_do_def intro: fam_arrive)

lemma fam_do_reaches:
  "reaches family_start (family_step g) s \<Longrightarrow> reaches family_start (family_step g) (fold (fam_do g) ms s)"
proof (induction ms arbitrary: s)
  case (Cons m ms)
  have "reaches family_start (family_step g) (fam_do g m s)"
    using fam_do_step [of g m s] Cons.prems by (auto intro: reaches_step)
  then show ?case using Cons.IH by simp
qed simp

definition empty_families :: family_system where
  "empty_families = \<lparr>fs_db = \<lparr>fd_families = [], fd_tokens = []\<rparr>, fs_consumers = []\<rparr>"

lemma empty_families_reaches: "reaches family_start (family_step g) empty_families"
  by (rule reaches_init) (simp add: family_start_def empty_families_def)

definition race_moves :: "fam_move list" where
  "race_moves =
     [MCreate ''f'' ''u'' 9000000 0, MIssue ''h'' ''t'' ''f'' 5000000 0, MArrive ''h'' 1000, MArrive ''h'' 2000,
      MRun 0, MRun 1, MRun 0, MRun 1, MRun 0, MRun 1, MRun 1]"

definition race_end :: family_system where
  "race_end = fold (fam_do 0) race_moves empty_families"

definition race_family :: token_family where
  "race_family = \<lparr>tf_id = ''f'', tf_userId = ''u'', tf_absoluteExpiresAt = 9000000, tf_revoked = False, tf_createdAt = 0\<rparr>"

lemma race_result:
  "length (fs_consumers race_end) = 2"
  "co_hash (fs_consumers race_end ! 0) = ''h''" "co_hash (fs_consumers race_end ! 1) = ''h''"
  "co_pc (fs_consumers race_end ! 0) = Consumed OkS (Some race_family) False"
  "co_pc (fs_consumers race_end ! 1) = Consumed ReuseS (Some race_family) False"
  by code_simp+

lemma race_reaches: "reaches family_start (family_step 0) race_end"
  unfolding race_end_def by (rule fam_do_reaches [OF empty_families_reaches])

theorem reuse_detected_witness:
  "\<exists>k. token_family_id ''h'' (fs_db race_end) = Some k \<and> family_revoked k (fs_db race_end)"
  using reuse_detected [OF race_reaches _ race_result(2) race_result(4) _ _ _ race_result(3) race_result(5)]
  by (simp add: race_result(1))

section \<open>Refresh\<close>

text \<open>\<open>parseDurationMs\<close>: digits and a unit, as \<open>DURATION_RE\<close> matches them.\<close>

definition parseDurationMs :: "string \<Rightarrow> int option" where
  "parseDurationMs duration =
     (let ds = takeWhile is_digit duration; unit = dropWhile is_digit duration; v = int (digits_val ds)
      in if ds = [] then None
         else if unit = ''ms'' then Some v
         else if unit = ''s'' then Some (v * 1000)
         else if unit = ''m'' then Some (v * 60000)
         else if unit = ''h'' then Some (v * 3600000)
         else if unit = ''d'' then Some (v * 86400000)
         else None)"

record refresh_session_config =
  sc_accessTokenTTL :: "string option"
  sc_refreshTokenTTL :: "string option"
  sc_rotateRefreshTokens :: "bool option"
  sc_absoluteTimeout :: "string option"
  sc_reuseDetection :: "bool option"
  sc_reuseGracePeriod :: "string option"

record refresher =
  rf_accessTtlMs :: int
  rf_refreshTtlMs :: int
  rf_absoluteTtlMs :: int
  rf_rotate :: bool
  rf_reuseDetect :: bool
  rf_graceMs :: int

fun or_default :: "'a option \<Rightarrow> 'a \<Rightarrow> 'a" where
  "or_default None d = d"
| "or_default (Some x) d = x"

text \<open>\<open>createSessionRefresher\<close>: \<open>None\<close> is a throw, on a short secret or a malformed duration.\<close>

definition createSessionRefresher :: "string \<Rightarrow> refresh_session_config \<Rightarrow> refresher option" where
  "createSessionRefresher secret c =
     (if length secret < 32 then None
      else case (parseDurationMs (or_default (sc_accessTokenTTL c) ''15m''),
                 parseDurationMs (or_default (sc_refreshTokenTTL c) ''30d''),
                 parseDurationMs (or_default (sc_absoluteTimeout c) ''90d''),
                 (case sc_reuseGracePeriod c of None \<Rightarrow> Some 0
                  | Some p \<Rightarrow> if p = [] then Some 0 else parseDurationMs p)) of
             (Some a, Some r, Some t, Some g) \<Rightarrow>
               Some \<lparr>rf_accessTtlMs = a, rf_refreshTtlMs = r, rf_absoluteTtlMs = t,
                     rf_rotate = or_default (sc_rotateRefreshTokens c) True,
                     rf_reuseDetect = or_default (sc_reuseDetection c) True, rf_graceMs = g\<rparr>
           | _ \<Rightarrow> None)"

datatype refresh_error =
  Token_missing | Token_not_found | Token_expired | Token_reuse | Family_revoked | Absolute_timeout

record refresh_result =
  rs_accessToken :: string
  rs_refreshToken :: string
  rs_accessTokenExpiresAt :: time
  rs_refreshTokenExpiresAt :: time
  rs_family :: token_family

text \<open>
  What a call draws from outside: the raw token, the row id, and the clock as it is read in turn. The
  signer of access tokens (\<open>jose\<close>) takes the subject, the family and the expiry.
\<close>

record refresh_draw =
  dr_raw :: string
  dr_id :: ident
  dr_consume :: time
  dr_active :: time
  dr_build :: time
  dr_issue :: time

type_synonym signer = "ident \<Rightarrow> ident \<Rightarrow> int \<Rightarrow> string"

definition buildRefreshResult ::
  "(string \<Rightarrow> string) \<Rightarrow> signer \<Rightarrow> refresher \<Rightarrow> refresh_draw \<Rightarrow> token_family \<Rightarrow> family_db
     \<Rightarrow> refresh_result \<times> family_db" where
  "buildRefreshResult sha256 sign rf d family db =
     (let now = dr_build d;
          accessExpiresAt = now + rf_accessTtlMs rf;
          rawRefreshExpiry = now + rf_refreshTtlMs rf;
          refreshExpiresAt = (if tf_absoluteExpiresAt family < rawRefreshExpiry
                              then tf_absoluteExpiresAt family else rawRefreshExpiry);
          accessToken = sign (tf_userId family) (tf_id family) (accessExpiresAt div 1000);
          (_, db') = issueToken sha256 (dr_raw d) (dr_id d) (tf_id family) (refreshExpiresAt - now) (dr_issue d) db
      in (\<lparr>rs_accessToken = accessToken, rs_refreshToken = dr_raw d,
           rs_accessTokenExpiresAt = accessExpiresAt, rs_refreshTokenExpiresAt = refreshExpiresAt,
           rs_family = family\<rparr>, db'))"

definition issueInitial ::
  "(string \<Rightarrow> string) \<Rightarrow> signer \<Rightarrow> refresher \<Rightarrow> ident \<Rightarrow> refresh_draw \<Rightarrow> ident \<Rightarrow> family_db
     \<Rightarrow> refresh_result \<times> family_db" where
  "issueInitial sha256 sign rf familyId d userId db =
     (let absoluteExpiresAt = dr_consume d + rf_absoluteTtlMs rf;
          (family, db1) = createFamily familyId userId absoluteExpiresAt (dr_active d) db
      in buildRefreshResult sha256 sign rf d family db1)"

definition refresh ::
  "(string \<Rightarrow> string) \<Rightarrow> signer \<Rightarrow> refresher \<Rightarrow> refresh_draw \<Rightarrow> string \<Rightarrow> family_db
     \<Rightarrow> (refresh_error + refresh_result) \<times> family_db" where
  "refresh sha256 sign rf d raw db =
     (case consumeToken sha256 (rf_graceMs rf) None raw (dr_consume d) db of
        ((NotFoundS, _, _), db1) \<Rightarrow> (Inl Token_not_found, db1)
      | ((ExpiredS, _, _), db1) \<Rightarrow> (Inl Token_expired, db1)
      | ((RevokedS, _, _), db1) \<Rightarrow> (Inl Family_revoked, db1)
      | ((ReuseS, _, _), db1) \<Rightarrow> (Inl (if rf_reuseDetect rf then Token_reuse else Token_expired), db1)
      | ((OkS, None, _), db1) \<Rightarrow> (Inl Token_not_found, db1)
      | ((OkS, Some family, _), db1) \<Rightarrow>
          if \<not> isFamilyActive family (dr_active d) then (Inl Absolute_timeout, db1)
          else if \<not> rf_rotate rf then
            map_prod Inr (\<lambda>x. x) (buildRefreshResult sha256 sign rf d family db1)
          else map_prod Inr (\<lambda>x. x) (buildRefreshResult sha256 sign rf d family db1))"

definition revokeAll :: "ident \<Rightarrow> family_db \<Rightarrow> family_db" where
  "revokeAll userId db = revokeFamiliesForUser userId db"

text \<open>
  \<open>handleRequest\<close>, on the parsed request: the refresh cookie and the \<open>refreshToken\<close> string of the JSON
  body. The answer is the status, the error, whether the refresh cookie is deleted, and the result.
\<close>

record refresh_response =
  rp_status :: nat
  rp_error :: "refresh_error option"
  rp_deletesCookie :: bool
  rp_result :: "refresh_result option"

definition handleRequest ::
  "(string \<Rightarrow> string) \<Rightarrow> signer \<Rightarrow> refresher \<Rightarrow> refresh_draw \<Rightarrow> string option \<Rightarrow> string option \<Rightarrow> family_db
     \<Rightarrow> refresh_response \<times> family_db" where
  "handleRequest sha256 sign rf d cookie body db =
     (let rawToken = (case cookie of
            Some t \<Rightarrow> if t = [] then (case body of Some b \<Rightarrow> b | None \<Rightarrow> t) else t
          | None \<Rightarrow> (case body of Some b \<Rightarrow> b | None \<Rightarrow> []))
      in if rawToken = [] then
           (\<lparr>rp_status = 401, rp_error = Some Token_missing, rp_deletesCookie = False, rp_result = None\<rparr>, db)
         else case refresh sha256 sign rf d rawToken db of
           (Inl code, db') \<Rightarrow>
             (\<lparr>rp_status = 401, rp_error = Some code,
               rp_deletesCookie = (code = Token_reuse \<or> code = Family_revoked \<or> code = Absolute_timeout),
               rp_result = None\<rparr>, db')
         | (Inr r, db') \<Rightarrow>
             (\<lparr>rp_status = 200, rp_error = None, rp_deletesCookie = False, rp_result = Some r\<rparr>, db'))"

section \<open>A consumer on its own\<close>

definition markUsed :: "string \<Rightarrow> time \<Rightarrow> family_db \<Rightarrow> family_db" where
  "markUsed h now db =
     db\<lparr>fd_tokens := update_where (\<lambda>r. rt_tokenHash r = h \<and> rt_used r = 0)
                       (rt_used_update (\<lambda>_. max 1 (now div 1000))) (fd_tokens db)\<rparr>"

definition consume_alone ::
  "int \<Rightarrow> string \<Rightarrow> time \<Rightarrow> family_db \<Rightarrow> (consume_status \<times> token_family option \<times> bool) \<times> family_db" where
  "consume_alone g h now db =
     (case token_row h db of
        None \<Rightarrow> ((NotFoundS, None, False), db)
      | Some row \<Rightarrow>
          (case family_row (rt_familyId row) db of
             None \<Rightarrow> ((NotFoundS, None, False), db)
           | Some f \<Rightarrow>
               if tf_revoked f then ((RevokedS, Some f, False), db)
               else if tf_absoluteExpiresAt f \<le> now then ((ExpiredS, Some f, False), revokeFamily (tf_id f) db)
               else if rt_expiresAt row \<le> now then ((ExpiredS, Some f, False), db)
               else if rt_used row = 0 then ((OkS, Some f, False), markUsed h now db)
               else if withinGrace (rt_used row) now g then ((OkS, Some f, True), db)
               else ((ReuseS, Some f, False), revokeFamily (tf_id f) db)))"

lemma consume_steps_done [simp]: "consume_steps g h now n (Consumed st f b, db) = (Consumed st f b, db)"
  by (induction n) auto

lemma claim_unused:
  "token_row h db = Some row \<Longrightarrow> rt_used row = 0 \<Longrightarrow>
   refreshTokens_claim (h, u) (fd_tokens db)
     = (True, update_where (\<lambda>r. rt_tokenHash r = h \<and> rt_used r = 0) (rt_used_update (\<lambda>_. u)) (fd_tokens db))"
proof -
  assume r: "token_row h db = Some row" "rt_used row = 0"
  obtain b ts where c: "refreshTokens_claim (h, u) (fd_tokens db) = (b, ts)" by fastforce
  have "b" using claim_result(2) [OF c] token_row_Some [OF r(1)] r(2) by blast
  then show ?thesis using c claim_result(1) [OF c] by simp
qed

lemma consume_steps_alone:
  "consume_steps g h now 5 (AtToken, db)
     = (case consume_alone g h now db of ((st, f, b), db') \<Rightarrow> (Consumed st f b, db'))"
proof (cases "token_row h db")
  case None
  then show ?thesis by (simp add: consume_alone_def eval_nat_numeral)
next
  case (Some row)
  note row = Some
  show ?thesis
  proof (cases "family_row (rt_familyId row) db")
    case None
    then show ?thesis using row by (simp add: consume_alone_def eval_nat_numeral)
  next
    case (Some f)
    show ?thesis
    proof (cases "rt_used row = 0")
      case True
      then show ?thesis
        using row Some claim_unused [OF row True]
        by (simp add: consume_alone_def eval_nat_numeral after_family_def markUsed_def)
    qed (use row Some in \<open>simp add: consume_alone_def eval_nat_numeral after_family_def\<close>)
  qed
qed

lemma consumeToken_alone:
  "consumeToken sha256 reuseGraceMs opt raw now db
     = consume_alone (clampGrace (case opt of None \<Rightarrow> reuseGraceMs | Some ms \<Rightarrow> ms)) (sha256 raw) now db"
  by (simp add: consumeToken_def consume_steps_alone split: option.splits prod.splits)

lemma timeout_kept_simps [simp]:
  "map_option tf_absoluteExpiresAt (family_row k (revokeFamily i db)) = map_option tf_absoluteExpiresAt (family_row k db)"
  "family_row k (markUsed h now db) = family_row k db"
  "family_row k (snd (issueToken sha256 raw i j ttl now db)) = family_row k db"
  by (simp_all add: family_row_def revokeFamily_def markUsed_def issueToken_def Let_def find_update_keeps)

lemma consume_keeps_timeout:
  "map_option tf_absoluteExpiresAt (family_row k (snd (consume_alone g h now db)))
     = map_option tf_absoluteExpiresAt (family_row k db)"
  by (simp add: consume_alone_def split: option.split)

text \<open>No refresh, successful or not, moves the absolute timeout of a family.\<close>

lemma refresh_keeps_timeout:
  "map_option tf_absoluteExpiresAt (family_row k (snd (refresh sha256 sign rf d raw db)))
     = map_option tf_absoluteExpiresAt (family_row k db)"
proof -
  obtain st f g db1 where c: "consumeToken sha256 (rf_graceMs rf) None raw (dr_consume d) db = ((st, f, g), db1)"
    by (metis prod.collapse)
  then have "map_option tf_absoluteExpiresAt (family_row k db1) = map_option tf_absoluteExpiresAt (family_row k db)"
    using consume_keeps_timeout [of k] by (metis consumeToken_alone snd_conv)
  then show ?thesis
    by (auto simp: refresh_def c buildRefreshResult_def Let_def split: consume_status.splits option.splits prod.splits
        dest: arg_cong [of _ _ "\<lambda>x. family_row k (snd x)"])
qed

text \<open>
  C40: What the absolute timeout of a session bounds. A successful refresh happens strictly before the
  family's absolute timeout, on a known family that is not revoked and with a token that has not
  expired; the refresh token it hands out expires no later than the absolute timeout, and no refresh moves
  that timeout for any family. The access token is not clamped: it is only bounded by its own lifetime,
  counted from the timeout (plus what passes between the check of the family and the reading of the clock).
  So a session outlives its absolute timeout by less than one access token, and it can
  (\<open>access_outlives_session\<close>).
\<close>

theorem refresh_bounds:
  assumes r: "refresh sha256 sign rf d raw db = (Inr r, db')"
  shows "\<exists>row. token_row (sha256 raw) db = Some row \<and> family_row (rt_familyId row) db = Some (rs_family r)
    \<and> \<not> tf_revoked (rs_family r) \<and> dr_consume d < rt_expiresAt row
    \<and> dr_consume d < tf_absoluteExpiresAt (rs_family r) \<and> dr_active d < tf_absoluteExpiresAt (rs_family r)
    \<and> rs_refreshTokenExpiresAt r \<le> tf_absoluteExpiresAt (rs_family r)
    \<and> rs_accessTokenExpiresAt r < tf_absoluteExpiresAt (rs_family r) + rf_accessTtlMs rf + (dr_build d - dr_active d)
    \<and> (\<forall>k. map_option tf_absoluteExpiresAt (family_row k db') = map_option tf_absoluteExpiresAt (family_row k db))"
proof -
  have "map_option tf_absoluteExpiresAt (family_row k db') = map_option tf_absoluteExpiresAt (family_row k db)" for k
    using refresh_keeps_timeout [of k sha256 sign rf d raw db] r by simp
  with r show ?thesis
    by (auto simp: refresh_def consumeToken_alone consume_alone_def buildRefreshResult_def isFamilyActive_def
        Let_def issueToken_def split: option.splits if_splits)
qed


lemma build_ignores_rotate:
  "buildRefreshResult sha256 sign (rf\<lparr>rf_rotate := b\<rparr>) d f db = buildRefreshResult sha256 sign rf d f db"
  by (simp add: buildRefreshResult_def Let_def)

lemma refresh_ignores_rotate:
  "refresh sha256 sign (rf\<lparr>rf_rotate := b\<rparr>) d raw db = refresh sha256 sign rf d raw db"
  by (simp add: refresh_def build_ignores_rotate split: prod.splits consume_status.splits option.splits)







section \<open>Runs with the defaults\<close>

definition default_refresher :: refresher where
  "default_refresher = \<lparr>rf_accessTtlMs = 900000, rf_refreshTtlMs = 2592000000, rf_absoluteTtlMs = 7776000000,
     rf_rotate = True, rf_reuseDetect = True, rf_graceMs = 0\<rparr>"

lemma createSessionRefresher_defaults:
  "createSessionRefresher (replicate 32 CHR ''s'')
     \<lparr>sc_accessTokenTTL = None, sc_refreshTokenTTL = None, sc_rotateRefreshTokens = None,
      sc_absoluteTimeout = None, sc_reuseDetection = None, sc_reuseGracePeriod = None\<rparr>
   = Some default_refresher"
  by code_simp

definition at_time :: "string \<Rightarrow> time \<Rightarrow> refresh_draw" where
  "at_time raw t = \<lparr>dr_raw = raw, dr_id = raw, dr_consume = t, dr_active = t, dr_build = t, dr_issue = t\<rparr>"

definition jwt_of :: signer where
  "jwt_of u f e = u @ f"

definition login_db :: family_db where
  "login_db = snd (issueInitial (\<lambda>x. x) jwt_of default_refresher ''f'' (at_time ''r0'' 1000) ''u''
                     \<lparr>fd_families = [], fd_tokens = []\<rparr>)"


definition first_refresh :: refresh_result where
  "first_refresh = \<lparr>rs_accessToken = ''uf'', rs_refreshToken = ''r1'', rs_accessTokenExpiresAt = 1900000,
     rs_refreshTokenExpiresAt = 2593000000,
     rs_family = \<lparr>tf_id = ''f'', tf_userId = ''u'', tf_absoluteExpiresAt = 7776001000, tf_revoked = False,
                   tf_createdAt = 1000\<rparr>\<rparr>"

lemma first_refresh_run:
  "fst (refresh (\<lambda>x. x) jwt_of default_refresher (at_time ''r1'' 1000000) ''r0'' login_db) = Inr first_refresh"
  by code_simp

definition refreshed_db :: family_db where
  "refreshed_db = snd (refresh (\<lambda>x. x) jwt_of default_refresher (at_time ''r1'' 1000000) ''r0'' login_db)"

lemma first_refresh_eq:
  "refresh (\<lambda>x. x) jwt_of default_refresher (at_time ''r1'' 1000000) ''r0'' login_db = (Inr first_refresh, refreshed_db)"
  by (simp add: refreshed_db_def prod_eq_iff first_refresh_run)

theorem refresh_bounds_witness:
  "rs_refreshTokenExpiresAt first_refresh \<le> tf_absoluteExpiresAt (rs_family first_refresh)"
  using refresh_bounds [OF first_refresh_eq] by blast

text \<open>
  An access token that outlives its session. The configured maximum of the session is its lifetime
  across all refreshes; a refresh one second before it ends hands out an access token that is valid
  for almost its full lifetime after it.
\<close>

theorem access_outlives_session:
  "\<exists>rf r db db'. rf = default_refresher\<lparr>rf_absoluteTtlMs := 1000000\<rparr>
     \<and> db = snd (issueInitial (\<lambda>x. x) jwt_of rf ''f'' (at_time ''r0'' 1000) ''u'' \<lparr>fd_families = [], fd_tokens = []\<rparr>)
     \<and> refresh (\<lambda>x. x) jwt_of rf (at_time ''r1'' 1000000) ''r0'' db = (Inr r, db')
     \<and> rs_accessTokenExpiresAt r = tf_absoluteExpiresAt (rs_family r) + rf_accessTtlMs rf - 1000"
proof -
  let ?rf = "default_refresher\<lparr>rf_absoluteTtlMs := 1000000\<rparr>"
  let ?db = "snd (issueInitial (\<lambda>x. x) jwt_of ?rf ''f'' (at_time ''r0'' 1000) ''u'' \<lparr>fd_families = [], fd_tokens = []\<rparr>)"
  have "case fst (refresh (\<lambda>x. x) jwt_of ?rf (at_time ''r1'' 1000000) ''r0'' ?db) of
      Inr r \<Rightarrow> rs_accessTokenExpiresAt r = tf_absoluteExpiresAt (rs_family r) + rf_accessTtlMs ?rf - 1000
    | Inl _ \<Rightarrow> False"
    by code_simp
  then show ?thesis by (fastforce split: sum.splits simp: prod_eq_iff)
qed



lemma handleRequest_status:
  "handleRequest sha256 sign rf d cookie body db = (p, db') \<Longrightarrow>
   (rp_status p = 200) = (rp_error p = None) \<and> (rp_status p = 200) = (rp_result p \<noteq> None)
   \<and> (rp_status p \<noteq> 200 \<longrightarrow> rp_status p = 401)"
  by (auto simp: handleRequest_def Let_def split: if_splits sum.splits prod.splits)

end
