(* ===== verification/MerkleTree.thy ===== *)
theory MerkleTree
  imports Prelude "HOL-Library.Monad_Syntax"
begin

text \<open>
  The Merkle tree of audit checkpoints, \<open>audit/checkpoint-merkle.ts\<close>: hashing, the levels that are
  built once, the roots of ranges, inclusion and consistency paths, and the two verification loops.
  SHA-256 is the argument \<open>sha\<close>. The tree is proved to be the one of RFC 6962, paths verify, and a
  path that verifies is the genuine one unless two byte strings that were hashed collide. Sizes and
  indices are natural numbers; the code computes with them below \<open>2 ^ 31\<close>.
\<close>

unbundle bit_operations_syntax

section \<open>Hashing\<close>

type_synonym byte = "8 word"
type_synonym bytes = "byte list"

definition leaf_prefix :: byte where "leaf_prefix = 0"
definition node_prefix :: byte where "node_prefix = 1"
definition hash_bytes :: nat where "hash_bytes = 32"

definition prefixed :: "byte \<Rightarrow> bytes list \<Rightarrow> bytes" where
  "prefixed p parts = p # concat parts"

definition merkleLeafHash :: "(bytes \<Rightarrow> bytes) \<Rightarrow> bytes \<Rightarrow> bytes" where
  "merkleLeafHash sha d = sha (prefixed leaf_prefix [d])"

definition merkleNodeHash :: "(bytes \<Rightarrow> bytes) \<Rightarrow> bytes \<Rightarrow> bytes \<Rightarrow> bytes" where
  "merkleNodeHash sha l r = sha (prefixed node_prefix [l, r])"

definition isPowerOfTwo :: "nat \<Rightarrow> bool" where
  "isPowerOfTwo n \<longleftrightarrow> 0 < n \<and> n AND (n - 1) = 0"

text \<open>\<open>constantTimeEqual\<close>: the differences of all bytes are collected before they are looked at.\<close>

definition constantTimeEqual :: "bytes \<Rightarrow> bytes \<Rightarrow> bool" where
  "constantTimeEqual a b \<longleftrightarrow>
     length a = length b \<and> foldl (\<lambda>d (x, y). d OR (x XOR y)) 0 (zip a b) = 0"

section \<open>Building the tree\<close>

definition level_above :: "(bytes \<Rightarrow> bytes) \<Rightarrow> bytes list \<Rightarrow> bytes list" where
  "level_above sha below =
     map (\<lambda>i. merkleNodeHash sha (below ! (2 * i)) (below ! (2 * i + 1))) [0..<length below div 2]
     @ (if length below mod 2 = 1 then [below ! (length below - 1)] else [])"

lemma length_level_above: "length (level_above sha xs) = (length xs + 1) div 2"
  by (auto simp: level_above_def) presburger+

function buildLevels :: "(bytes \<Rightarrow> bytes) \<Rightarrow> bytes list \<Rightarrow> bytes list list" where
  "buildLevels sha current =
     (if 1 < length current then current # buildLevels sha (level_above sha current) else [current])"
  by pat_completeness auto
termination
  by (relation "measure (\<lambda>(sha, xs). length xs)") (auto simp: length_level_above)

declare buildLevels.simps [simp del]

text \<open>The span of the source is \<open>2 ^ h\<close>, and \<open>k\<close> in \<open>splitPoint\<close> is \<open>2 ^ j\<close>.\<close>

function ceilLog2_loop :: "nat \<Rightarrow> nat \<Rightarrow> nat" where
  "ceilLog2_loop n h = (if 2 ^ h < n then ceilLog2_loop n (Suc h) else h)"
  by pat_completeness auto
termination
  by (relation "measure (\<lambda>(n, h). n - h)") (auto intro: diff_less_mono2 less_trans [OF less_exp])

declare ceilLog2_loop.simps [simp del]

definition ceilLog2 :: "nat \<Rightarrow> nat" where
  "ceilLog2 n = ceilLog2_loop n 0"

function splitPoint_loop :: "nat \<Rightarrow> nat \<Rightarrow> nat" where
  "splitPoint_loop n j = (if 2 ^ j * 2 < n then splitPoint_loop n (Suc j) else 2 ^ j)"
  by pat_completeness auto
termination
proof (relation "measure (\<lambda>(n, j). n - j)")
  fix n j :: nat assume "2 ^ j * 2 < n"
  moreover have "j < 2 ^ j" by (rule less_exp)
  ultimately have "j < n" by linarith
  then show "((n, Suc j), (n, j)) \<in> measure (\<lambda>(n, j). n - j)" by simp
qed simp

declare splitPoint_loop.simps [simp del]

definition splitPoint :: "nat \<Rightarrow> nat" where
  "splitPoint n = splitPoint_loop n 0"

text \<open>\<open>levels[h]?.[i]\<close>.\<close>

definition node_at :: "bytes list list \<Rightarrow> nat \<Rightarrow> nat \<Rightarrow> bytes option" where
  "node_at levels h i = (if h < length levels \<and> i < length (levels ! h) then Some (levels ! h ! i) else None)"

text \<open>
  The root of the leaves from \<open>start\<close> up to \<open>stop\<close>; \<open>None\<close> is a recursion that does not end.
\<close>

partial_function (option) rangeRoot ::
  "(bytes \<Rightarrow> bytes) \<Rightarrow> nat \<Rightarrow> bytes list list \<Rightarrow> nat \<Rightarrow> nat \<Rightarrow> bytes option" where
  "rangeRoot sha n levels start stop =
     (if stop \<le> start then Some (sha [])
      else let len = stop - start; h = ceilLog2 len;
               stored = (if start mod 2 ^ h = 0 \<and> (len = 2 ^ h \<or> stop = n)
                         then node_at levels h (start div 2 ^ h) else None)
           in case stored of
                Some node \<Rightarrow> Some node
              | None \<Rightarrow>
                  let k = splitPoint len in
                  do { l \<leftarrow> rangeRoot sha n levels start (start + k);
                       r \<leftarrow> rangeRoot sha n levels (start + k) stop;
                       Some (merkleNodeHash sha l r) })"

partial_function (option) subProof ::
  "(bytes \<Rightarrow> bytes) \<Rightarrow> nat \<Rightarrow> bytes list list \<Rightarrow> nat \<Rightarrow> nat \<Rightarrow> nat \<Rightarrow> bool \<Rightarrow> bytes list option" where
  "subProof sha n levels m start stop complete =
     (let len = stop - start in
      if m = len then
        (if complete then Some [] else do { r \<leftarrow> rangeRoot sha n levels start stop; Some [r] })
      else let k = splitPoint len in
        if m \<le> k then
          do { sub \<leftarrow> subProof sha n levels m start (start + k) complete;
               r \<leftarrow> rangeRoot sha n levels (start + k) stop;
               Some (sub @ [r]) }
        else
          do { sub \<leftarrow> subProof sha n levels (m - k) (start + k) stop False;
               r \<leftarrow> rangeRoot sha n levels start (start + k);
               Some (sub @ [r]) })"

fun inclusion_loop :: "bytes list list \<Rightarrow> nat \<Rightarrow> bytes list" where
  "inclusion_loop [] pos = []"
| "inclusion_loop [row] pos = []"
| "inclusion_loop (row # row' # rows) pos =
     (if pos XOR 1 < length row then [row ! (pos XOR 1)] else [])
     @ inclusion_loop (row' # rows) (pos div 2)"

text \<open>The operations on a list of leaf hashes; the left side is a \<open>RangeError\<close>.\<close>

datatype merkle_error = Merkle_range_error

definition levels_of :: "(bytes \<Rightarrow> bytes) \<Rightarrow> bytes list \<Rightarrow> bytes list list" where
  "levels_of sha leafHashes = (if length leafHashes = 0 then [] else buildLevels sha leafHashes)"

definition prefixRoot :: "(bytes \<Rightarrow> bytes) \<Rightarrow> bytes list \<Rightarrow> nat \<Rightarrow> bytes option" where
  "prefixRoot sha leafHashes count =
     rangeRoot sha (length leafHashes) (levels_of sha leafHashes) 0 count"

definition merkleRoot :: "(bytes \<Rightarrow> bytes) \<Rightarrow> bytes list \<Rightarrow> bytes option" where
  "merkleRoot sha leafHashes = prefixRoot sha leafHashes (length leafHashes)"

definition inclusionPath :: "(bytes \<Rightarrow> bytes) \<Rightarrow> bytes list \<Rightarrow> nat \<Rightarrow> merkle_error + bytes list" where
  "inclusionPath sha leafHashes index =
     (if length leafHashes \<le> index then Inl Merkle_range_error
      else Inr (inclusion_loop (levels_of sha leafHashes) index))"

definition consistencyPath ::
  "(bytes \<Rightarrow> bytes) \<Rightarrow> bytes list \<Rightarrow> nat \<Rightarrow> (merkle_error + bytes list) option" where
  "consistencyPath sha leafHashes oldSize =
     (let n = length leafHashes in
      if n < oldSize then Some (Inl Merkle_range_error)
      else if oldSize = 0 \<or> oldSize = n then Some (Inr [])
      else do { path \<leftarrow> subProof sha n (levels_of sha leafHashes) oldSize 0 n True; Some (Inr path) })"

section \<open>Verification\<close>

text \<open>\<open>while ((fn & 1) === 0 && fn !== 0)\<close> and \<open>while ((fn & 1) === 1)\<close>.\<close>

fun skip_even :: "nat \<Rightarrow> nat \<Rightarrow> nat \<times> nat" where
  "skip_even fn sn = (if fn AND 1 = 0 \<and> fn \<noteq> 0 then skip_even (fn div 2) (sn div 2) else (fn, sn))"

declare skip_even.simps [simp del]

function skip_odd :: "nat \<Rightarrow> nat \<Rightarrow> nat \<times> nat" where
  "skip_odd fn sn = (if fn AND 1 = 1 then skip_odd (fn div 2) (sn div 2) else (fn, sn))"
  by pat_completeness auto
termination
  by (relation "measure fst") (auto simp: and_one_eq elim: oddE)

declare skip_odd.simps [simp del]

fun inclusion_fold :: "(bytes \<Rightarrow> bytes) \<Rightarrow> nat \<Rightarrow> nat \<Rightarrow> bytes \<Rightarrow> bytes list \<Rightarrow> bytes option" where
  "inclusion_fold sha fn sn r [] = (if sn = 0 then Some r else None)"
| "inclusion_fold sha fn sn r (p # path) =
     (if sn = 0 then None
      else if fn AND 1 = 1 \<or> fn = sn then
        (let (fn', sn') = (if fn AND 1 = 0 then skip_even fn sn else (fn, sn))
         in inclusion_fold sha (fn' div 2) (sn' div 2) (merkleNodeHash sha p r) path)
      else inclusion_fold sha (fn div 2) (sn div 2) (merkleNodeHash sha r p) path)"

definition rootFromInclusion ::
  "(bytes \<Rightarrow> bytes) \<Rightarrow> bytes \<Rightarrow> nat \<Rightarrow> nat \<Rightarrow> bytes list \<Rightarrow> bytes option" where
  "rootFromInclusion sha leafHash index treeSize path =
     (if treeSize \<le> index then None else inclusion_fold sha index (treeSize - 1) leafHash path)"

definition verifyInclusionPath ::
  "(bytes \<Rightarrow> bytes) \<Rightarrow> bytes \<Rightarrow> nat \<Rightarrow> nat \<Rightarrow> bytes list \<Rightarrow> bytes \<Rightarrow> bool" where
  "verifyInclusionPath sha leafHash index treeSize path root =
     (if length leafHash \<noteq> hash_bytes \<or> length root \<noteq> hash_bytes then False
      else if \<exists>p\<in>set path. length p \<noteq> hash_bytes then False
      else case rootFromInclusion sha leafHash index treeSize path of
             None \<Rightarrow> False
           | Some computed \<Rightarrow> constantTimeEqual computed root)"

fun consistency_fold ::
  "(bytes \<Rightarrow> bytes) \<Rightarrow> nat \<Rightarrow> nat \<Rightarrow> bytes \<Rightarrow> bytes \<Rightarrow> bytes list \<Rightarrow> (bytes \<times> bytes) option" where
  "consistency_fold sha fn sn fr sr [] = (if sn = 0 then Some (fr, sr) else None)"
| "consistency_fold sha fn sn fr sr (c # path) =
     (if sn = 0 then None
      else if fn AND 1 = 1 \<or> fn = sn then
        (let (fn', sn') = (if fn AND 1 = 0 then skip_even fn sn else (fn, sn))
         in consistency_fold sha (fn' div 2) (sn' div 2) (merkleNodeHash sha c fr) (merkleNodeHash sha c sr) path)
      else consistency_fold sha (fn div 2) (sn div 2) fr (merkleNodeHash sha sr c) path)"

definition verifyConsistencyPath ::
  "(bytes \<Rightarrow> bytes) \<Rightarrow> nat \<Rightarrow> nat \<Rightarrow> bytes \<Rightarrow> bytes \<Rightarrow> bytes list \<Rightarrow> bool" where
  "verifyConsistencyPath sha oldSize newSize oldRoot newRoot path =
     (if newSize < oldSize then False
      else if length oldRoot \<noteq> hash_bytes \<or> length newRoot \<noteq> hash_bytes then False
      else if \<exists>p\<in>set path. length p \<noteq> hash_bytes then False
      else if oldSize = newSize then path = [] \<and> constantTimeEqual oldRoot newRoot
      else if oldSize = 0 then path = [] \<and> constantTimeEqual oldRoot (sha [])
      else case (if isPowerOfTwo oldSize then oldRoot # path else path) of
             [] \<Rightarrow> False
           | seed # nodes \<Rightarrow>
               (case skip_odd (oldSize - 1) (newSize - 1) of (fn, sn) \<Rightarrow>
                  case consistency_fold sha fn sn seed seed nodes of
                    None \<Rightarrow> False
                  | Some (fr, sr) \<Rightarrow> constantTimeEqual fr oldRoot \<and> constantTimeEqual sr newRoot))"

section \<open>Levels\<close>

lemma nth_level_above:
  assumes i: "i < (length xs + 1) div 2"
  shows "level_above sha xs ! i
     = (if 2 * i + 1 < length xs then merkleNodeHash sha (xs ! (2 * i)) (xs ! (2 * i + 1)) else xs ! (2 * i))"
proof (cases "i < length xs div 2")
  case True
  then have "2 * i + 1 < length xs" by linarith
  with True show ?thesis by (simp add: level_above_def nth_append)
next
  case False
  with i have o: "length xs mod 2 = 1" and l: "length xs - 1 = 2 * i" by presburger+
  then have "length xs div 2 = i" and n: "\<not> 2 * i + 1 < length xs" by presburger+
  then have "level_above sha xs ! i = xs ! (length xs - 1)" using o by (simp add: level_above_def nth_append)
  with n l show ?thesis by simp
qed

lemma level_above_Nil [simp]: "level_above sha [] = []"
  by (simp add: level_above_def)

lemma level_above_eq_Nil [simp]: "level_above sha xs = [] \<longleftrightarrow> xs = []"
  using length_level_above [of sha xs] by (cases xs) auto

lemma level_above_single [simp]: "level_above sha [x] = [x]"
  by (simp add: level_above_def)

lemma level_above_take:
  "even k \<Longrightarrow> k \<le> length xs \<Longrightarrow> level_above sha (take k xs) = take (k div 2) (level_above sha xs)"
proof (rule nth_equalityI, goal_cases)
  case 1
  then show ?case by (auto simp: length_level_above min_def elim!: evenE)
next
  case (2 i)
  then have "i < (k + 1) div 2" by (simp add: length_level_above min_def split: if_splits)
  then have "i < k div 2" using 2 by (auto elim!: evenE)
  with 2 show ?case by (auto simp: nth_level_above elim!: evenE)
qed

lemma level_above_drop:
  "even k \<Longrightarrow> k \<le> length xs \<Longrightarrow> level_above sha (drop k xs) = drop (k div 2) (level_above sha xs)"
proof (rule nth_equalityI, goal_cases)
  case 1
  then show ?case by (auto simp: length_level_above elim!: evenE)
next
  case (2 i)
  then have i: "i < (length xs - k + 1) div 2" by (simp add: length_level_above)
  then have "k div 2 + i < (length xs + 1) div 2" using 2 by (auto elim!: evenE)
  then show ?case using 2 i by (auto simp: nth_level_above length_level_above elim!: evenE)
qed

text \<open>The level \<open>h\<close> steps up.\<close>

fun level_up :: "(bytes \<Rightarrow> bytes) \<Rightarrow> nat \<Rightarrow> bytes list \<Rightarrow> bytes list" where
  "level_up sha 0 xs = xs"
| "level_up sha (Suc h) xs = level_up sha h (level_above sha xs)"

lemma level_up_Nil [simp]: "level_up sha h [] = []"
  by (induction h) auto

lemma level_up_eq_Nil [simp]: "level_up sha h xs = [] \<longleftrightarrow> xs = []"
  by (induction h arbitrary: xs) auto

lemma level_up_single [simp]: "level_up sha h [x] = [x]"
  by (induction h) auto

lemma length_level_up_pred: "length (level_up sha h xs) - 1 = (length xs - 1) div 2 ^ h"
proof (induction h arbitrary: xs)
  case (Suc h)
  have "length (level_above sha xs) - 1 = (length xs - 1) div 2"
    by (simp add: length_level_above)
  then show ?case using Suc by (simp add: div_mult2_eq)
qed simp

lemma length_level_up: "xs \<noteq> [] \<Longrightarrow> length (level_up sha h xs) = (length xs - 1) div 2 ^ h + 1"
  using length_level_up_pred [of sha h xs] by (cases "level_up sha h xs") auto

lemma level_up_take:
  "2 ^ h dvd k \<Longrightarrow> k \<le> length xs \<Longrightarrow> level_up sha h (take k xs) = take (k div 2 ^ h) (level_up sha h xs)"
proof (induction h arbitrary: k xs)
  case (Suc h)
  then have "even k" by (auto elim: dvdE)
  moreover have "2 ^ h dvd k div 2" using Suc.prems(1) by (auto elim!: dvdE)
  moreover have "k div 2 \<le> length (level_above sha xs)" using Suc.prems(2) by (simp add: length_level_above)
  ultimately show ?case using Suc.IH Suc.prems(2) by (simp add: level_above_take div_mult2_eq)
qed simp

lemma level_up_drop:
  "2 ^ h dvd k \<Longrightarrow> k \<le> length xs \<Longrightarrow> level_up sha h (drop k xs) = drop (k div 2 ^ h) (level_up sha h xs)"
proof (induction h arbitrary: k xs)
  case (Suc h)
  then have "even k" by (auto elim: dvdE)
  moreover have "2 ^ h dvd k div 2" using Suc.prems(1) by (auto elim!: dvdE)
  moreover have "k div 2 \<le> length (level_above sha xs)" using Suc.prems(2) by (simp add: length_level_above)
  ultimately show ?case using Suc.IH Suc.prems(2) by (simp add: level_above_drop div_mult2_eq)
qed simp

lemma buildLevels_nth: "h < length (buildLevels sha xs) \<Longrightarrow> buildLevels sha xs ! h = level_up sha h xs"
proof (induction sha xs arbitrary: h rule: buildLevels.induct)
  case (1 sha xs)
  then show ?case
    by (cases h) (auto simp: buildLevels.simps [of sha xs] split: if_splits)
qed

lemma buildLevels_last: "xs \<noteq> [] \<Longrightarrow> length (last (buildLevels sha xs)) = 1"
proof (induction sha xs rule: buildLevels.induct)
  case (1 sha xs)
  show ?case
  proof (cases "1 < length xs")
    case True
    then have "buildLevels sha (level_above sha xs) \<noteq> []" by (simp add: buildLevels.simps)
    with True 1 show ?thesis by (simp add: buildLevels.simps [of sha xs])
  next
    case False
    then show ?thesis using 1 by (cases xs) (auto simp: buildLevels.simps)
  qed
qed

lemma buildLevels_high:
  "h < length (buildLevels sha xs) \<or> length (level_up sha h xs) \<le> 1"
proof (induction sha xs arbitrary: h rule: buildLevels.induct)
  case (1 sha xs)
  show ?case
  proof (cases h)
    case 0
    then show ?thesis by (simp add: buildLevels.simps [of sha xs])
  next
    case (Suc k)
    show ?thesis
    proof (cases "1 < length xs")
      case True
      then show ?thesis using 1 [of k] Suc by (simp add: buildLevels.simps [of sha xs])
    next
      case False
      then show ?thesis by (cases xs) (auto simp: Suc)
    qed
  qed
qed

section \<open>The root\<close>

function tree_root :: "(bytes \<Rightarrow> bytes) \<Rightarrow> bytes list \<Rightarrow> bytes" where
  "tree_root sha xs =
     (if 1 < length xs then tree_root sha (level_above sha xs) else if xs = [] then sha [] else hd xs)"
  by pat_completeness auto
termination
  by (relation "measure (\<lambda>(sha, xs). length xs)") (auto simp: length_level_above)

declare tree_root.simps [simp del]

lemma tree_root_Nil [simp]: "tree_root sha [] = sha []"
  and tree_root_single [simp]: "tree_root sha [x] = x"
  by (simp_all add: tree_root.simps)

lemma tree_root_level_above: "tree_root sha (level_above sha xs) = tree_root sha xs"
proof (cases "1 < length xs")
  case False
  then show ?thesis by (cases xs) auto
qed (simp add: tree_root.simps [of sha xs])

lemma tree_root_level_up: "tree_root sha (level_up sha h xs) = tree_root sha xs"
  by (induction h arbitrary: xs) (auto simp: tree_root_level_above)

lemma tree_root_split:
  "2 ^ K < length xs \<Longrightarrow> length xs \<le> 2 * 2 ^ K \<Longrightarrow>
   tree_root sha xs = merkleNodeHash sha (tree_root sha (take (2 ^ K) xs)) (tree_root sha (drop (2 ^ K) xs))"
proof (induction K arbitrary: xs)
  case 0
  then obtain a b where "xs = [a, b]" by (cases xs; cases "tl xs") auto
  then show ?case by (simp add: tree_root.simps level_above_def)
next
  case (Suc K)
  let ?ys = "level_above sha xs"
  have len: "length ?ys = (length xs + 1) div 2" by (rule length_level_above)
  have k: "2 ^ K = 2 ^ Suc K div (2 :: nat)" "even (2 ^ Suc K :: nat)" "2 ^ Suc K \<le> length xs"
    using Suc.prems by auto
  have "2 ^ K < length ?ys" "length ?ys \<le> 2 * 2 ^ K" using Suc.prems len by auto
  note IH = Suc.IH [OF this]
  have "tree_root sha xs = tree_root sha ?ys" by (simp add: tree_root_level_above)
  also have "\<dots> = merkleNodeHash sha (tree_root sha (level_above sha (take (2 ^ Suc K) xs)))
                                   (tree_root sha (level_above sha (drop (2 ^ Suc K) xs)))"
    using k level_above_take [of "2 ^ Suc K" xs sha] level_above_drop [of "2 ^ Suc K" xs sha] IH by simp
  finally show ?case by (simp only: tree_root_level_above)
qed

lemma ceilLog2_loop_spec:
  "h = 0 \<or> 2 ^ (h - 1) < n \<Longrightarrow>
   n \<le> 2 ^ ceilLog2_loop n h \<and> (ceilLog2_loop n h = 0 \<or> 2 ^ (ceilLog2_loop n h - 1) < n)"
proof (induction n h rule: ceilLog2_loop.induct)
  case (1 n h)
  then show ?case by (cases "2 ^ h < n") (simp_all add: ceilLog2_loop.simps [of n h])
qed

lemma ceilLog2_le: "n \<le> 2 ^ ceilLog2 n"
  using ceilLog2_loop_spec [of 0 n] by (simp add: ceilLog2_def)

lemma splitPoint_loop_spec:
  "2 ^ j < n \<Longrightarrow> \<exists>K. splitPoint_loop n j = 2 ^ K \<and> 2 ^ K < n \<and> n \<le> 2 * 2 ^ K"
proof (induction n j rule: splitPoint_loop.induct)
  case (1 n j)
  then show ?case
    by (cases "2 ^ j * 2 < n") (auto simp: splitPoint_loop.simps [of n j] mult.commute)
qed

lemma splitPoint_spec: "1 < n \<Longrightarrow> \<exists>K. splitPoint n = 2 ^ K \<and> 2 ^ K < n \<and> n \<le> 2 * 2 ^ K"
  using splitPoint_loop_spec [of 0 n] by (simp add: splitPoint_def)

lemma splitPoint_bounds: "1 < n \<Longrightarrow> 0 < splitPoint n \<and> splitPoint n < n"
  using splitPoint_spec [of n] by auto

lemma tree_root_splitPoint:
  "1 < length xs \<Longrightarrow> tree_root sha xs
     = merkleNodeHash sha (tree_root sha (take (splitPoint (length xs)) xs))
                          (tree_root sha (drop (splitPoint (length xs)) xs))"
  using splitPoint_spec [of "length xs"] tree_root_split by metis

text \<open>The Merkle tree hash of RFC 6962, section 2.1.\<close>

function rfc_root :: "(bytes \<Rightarrow> bytes) \<Rightarrow> bytes list \<Rightarrow> bytes" where
  "rfc_root sha xs =
     (if xs = [] then sha []
      else if length xs = 1 then hd xs
      else let k = splitPoint (length xs)
           in merkleNodeHash sha (rfc_root sha (take k xs)) (rfc_root sha (drop k xs)))"
  by pat_completeness auto
termination
proof (relation "measure (\<lambda>(sha, xs). length xs)", goal_cases)
  case (2 sha xs k)
  then have "1 < length xs" by (cases xs) auto
  with 2 splitPoint_bounds [of "length xs"] show ?case by simp
next
  case (3 sha xs k)
  then have "1 < length xs" by (cases xs) auto
  with 3 splitPoint_bounds [of "length xs"] show ?case by simp
qed simp

declare rfc_root.simps [simp del]

lemma rfc_root_eq: "rfc_root sha xs = tree_root sha xs"
proof (induction sha xs rule: rfc_root.induct)
  case (1 sha xs)
  consider "xs = []" | x where "xs = [x]" | "1 < length xs" by (cases xs; cases "tl xs") auto
  then show ?case
  proof cases
    case 3
    then have "xs \<noteq> []" by auto
    with 3 show ?thesis
      using 1 by (simp add: rfc_root.simps [of sha xs] tree_root_splitPoint [of xs sha] Let_def)
  qed (simp_all add: rfc_root.simps)
qed

lemma slice_root:
  assumes s: "start < stop" "stop \<le> length xs" and a: "2 ^ h dvd start"
    and e: "stop - start = 2 ^ h \<or> stop = length xs \<and> stop - start \<le> 2 ^ h"
  shows "tree_root sha (take (stop - start) (drop start xs)) = level_up sha h xs ! (start div 2 ^ h)"
proof -
  let ?ys = "drop start xs" and ?len = "stop - start"
  have up: "level_up sha h ?ys = drop (start div 2 ^ h) (level_up sha h xs)"
    using a s by (intro level_up_drop) auto
  have ne: "?ys \<noteq> []" using s by simp
  have "level_up sha h (take ?len ?ys) = take 1 (level_up sha h ?ys)"
    using e
  proof
    assume l: "?len = 2 ^ h"
    then have "level_up sha h (take ?len ?ys) = take (?len div 2 ^ h) (level_up sha h ?ys)"
      using s by (intro level_up_take) auto
    with l show ?thesis by simp
  next
    assume l: "stop = length xs \<and> ?len \<le> 2 ^ h"
    then have "length ?ys - 1 < 2 ^ h" using s by auto
    then have "(length ?ys - 1) div 2 ^ h = 0" by simp
    then have "length (level_up sha h ?ys) = 1" using length_level_up [OF ne, of sha h] by simp
    then show ?thesis using l by (simp add: take_all)
  qed
  then have "tree_root sha (take ?len ?ys) = tree_root sha (take 1 (level_up sha h ?ys))"
    by (metis tree_root_level_up)
  also have "\<dots> = hd (level_up sha h ?ys)"
    using ne by (cases "level_up sha h ?ys") (auto simp del: level_up_eq_Nil dest: level_up_eq_Nil [THEN iffD1])
  finally show ?thesis using ne up by (metis hd_drop_conv_nth drop_eq_Nil level_up_eq_Nil not_le)
qed

lemma rangeRoot_eq:
  "start < stop \<Longrightarrow> stop \<le> length xs \<Longrightarrow>
   rangeRoot sha (length xs) (levels_of sha xs) start stop = Some (tree_root sha (take (stop - start) (drop start xs)))"
proof (induction "stop - start" arbitrary: start stop rule: less_induct)
  case less
  let ?len = "stop - start" and ?L = "levels_of sha xs"
  let ?h = "ceilLog2 ?len"
  have xs: "?L = buildLevels sha xs" using less.prems by (auto simp: levels_of_def)
  let ?stored = "if start mod 2 ^ ?h = 0 \<and> (?len = 2 ^ ?h \<or> stop = length xs)
                 then node_at ?L ?h (start div 2 ^ ?h) else None"
  have stored: "node = tree_root sha (take ?len (drop start xs))" if "?stored = Some node" for node
  proof -
    have a: "start mod 2 ^ ?h = 0" "?len = 2 ^ ?h \<or> stop = length xs"
      and n: "node_at ?L ?h (start div 2 ^ ?h) = Some node"
      using that by (auto split: if_splits)
    have "node = level_up sha ?h xs ! (start div 2 ^ ?h)"
      using n by (auto simp: node_at_def xs buildLevels_nth split: if_splits)
    then show ?thesis
      using slice_root [OF less.prems, of ?h sha] a ceilLog2_le [of ?len] by (auto simp: mod_eq_0_iff_dvd)
  qed
  show ?case
  proof (cases ?stored)
    case (Some node)
    then show ?thesis using less.prems stored [OF Some] by (simp add: rangeRoot.simps [of sha _ _ start stop] Let_def)
  next
    case None
    have big: "1 < ?len"
    proof (rule ccontr)
      assume "\<not> 1 < ?len"
      then have "?len = 1" using less.prems by simp
      then have "?h = 0" by (simp add: ceilLog2_def ceilLog2_loop.simps)
      moreover have "node_at ?L 0 start = Some (xs ! start)"
        using less.prems by (simp add: node_at_def xs buildLevels.simps)
      ultimately show False using None \<open>?len = 1\<close> by simp
    qed
    let ?k = "splitPoint ?len"
    have k: "0 < ?k" "?k < ?len" using splitPoint_bounds [OF big] by auto
    have l: "rangeRoot sha (length xs) ?L start (start + ?k) = Some (tree_root sha (take ?k (drop start xs)))"
      using less.hyps [of "start + ?k" start] k less.prems by simp
    have r: "rangeRoot sha (length xs) ?L (start + ?k) stop
        = Some (tree_root sha (take (?len - ?k) (drop (start + ?k) xs)))"
      using less.hyps [of stop "start + ?k"] k less.prems by simp
    have slice: "length (take ?len (drop start xs)) = ?len" using less.prems by simp
    have "tree_root sha (take ?len (drop start xs))
        = merkleNodeHash sha (tree_root sha (take ?k (drop start xs)))
            (tree_root sha (take (?len - ?k) (drop (start + ?k) xs)))"
    proof -
      have "take ?k (take ?len (drop start xs)) = take ?k (drop start xs)" using k by (simp add: min_def)
      moreover have "drop ?k (take ?len (drop start xs)) = take (?len - ?k) (drop (start + ?k) xs)"
        by (simp only: drop_take drop_drop add.commute)
      ultimately show ?thesis
        using tree_root_splitPoint [of "take ?len (drop start xs)" sha] big by (simp only: slice)
    qed
    then show ?thesis
      using None l r less.prems by (simp add: rangeRoot.simps [of sha _ _ start stop] Let_def)
  qed
qed

text \<open>
  C20: the tree is the one of RFC 6962: the root of any prefix of the leaves, computed from the stored
  levels, always returns and equals the recursive Merkle tree hash of the RFC.
\<close>

theorem prefixRoot_rfc6962:
  "count \<le> length leaves \<Longrightarrow> prefixRoot sha leaves count = Some (rfc_root sha (take count leaves))"
  using rangeRoot_eq [of 0 count leaves sha]
  by (cases "count = 0") (simp_all add: prefixRoot_def rfc_root_eq rangeRoot.simps [of sha _ _ 0 0])

lemma merkleRoot_eq: "merkleRoot sha leaves = Some (tree_root sha leaves)"
  using rangeRoot_eq [of 0 "length leaves" leaves sha]
  by (cases "leaves = []") (simp_all add: merkleRoot_def prefixRoot_def rangeRoot.simps [of sha _ _ 0 0])

section \<open>Inclusion\<close>

text \<open>The audit path of position \<open>i\<close>, level by level.\<close>

function audit_path :: "(bytes \<Rightarrow> bytes) \<Rightarrow> bytes list \<Rightarrow> nat \<Rightarrow> bytes list" where
  "audit_path sha xs i =
     (if 1 < length xs then
        (if odd i then [xs ! (i - 1)] else if i + 1 < length xs then [xs ! (i + 1)] else [])
        @ audit_path sha (level_above sha xs) (i div 2)
      else [])"
  by pat_completeness auto
termination
  by (relation "measure (\<lambda>(sha, xs, i). length xs)") (auto simp: length_level_above)

declare audit_path.simps [simp del]

lemma audit_path_short [simp]: "length xs \<le> 1 \<Longrightarrow> audit_path sha xs i = []"
  by (simp add: audit_path.simps)

lemma flip_last_bit: "i XOR Suc 0 = (if odd i then i - 1 else i + 1)" for i :: nat
  by (cases "odd i") (auto simp: xor_Suc_0_eq)

lemma inclusion_loop_eq: "i < length xs \<Longrightarrow> inclusion_loop (buildLevels sha xs) i = audit_path sha xs i"
proof (induction sha xs arbitrary: i rule: buildLevels.induct)
  case (1 sha xs)
  show ?case
  proof (cases "1 < length xs")
    case True
    have i2: "i div 2 < length (level_above sha xs)" using 1(2) by (simp add: length_level_above)
    obtain row rows where "buildLevels sha (level_above sha xs) = row # rows"
      by (cases "buildLevels sha (level_above sha xs)") (auto simp: buildLevels.simps split: if_splits)
    then show ?thesis
      using True 1(1) [OF True i2] 1(2)
      by (auto simp: buildLevels.simps [of sha xs] audit_path.simps [of sha xs i] flip_last_bit)
  next
    case False
    then show ?thesis by (simp add: buildLevels.simps audit_path.simps)
  qed
qed

text \<open>The verification loop, level by level; \<open>hashed\<close> are the pairs it hashes.\<close>

fun climb :: "(bytes \<Rightarrow> bytes) \<Rightarrow> nat \<Rightarrow> nat \<Rightarrow> bytes \<Rightarrow> bytes list \<Rightarrow> bytes option" where
  "climb sha fn sn r path =
     (if sn = 0 then (if path = [] then Some r else None)
      else if even fn \<and> fn = sn then climb sha (fn div 2) (sn div 2) r path
      else case path of
             [] \<Rightarrow> None
           | p # ps \<Rightarrow> climb sha (fn div 2) (sn div 2)
                        (if odd fn then merkleNodeHash sha p r else merkleNodeHash sha r p) ps)"

declare climb.simps [simp del]

lemma and_1_parity: "(n AND 1 = 1) = odd n" "(n AND 1 = 0) = even n" for n :: nat
  by (simp_all add: and_one_eq odd_iff_mod_2_eq_one even_iff_mod_2_eq_zero)

lemma climb_skip:
  "skip_even fn fn = (fn', sn') \<Longrightarrow> fn \<noteq> 0 \<Longrightarrow>
   sn' = fn' \<and> odd fn' \<and> climb sha fn' fn' r path = climb sha fn fn r path"
proof (induction fn arbitrary: fn' sn' rule: less_induct)
  case (less fn)
  show ?case
  proof (cases "even fn")
    case True
    then have "0 < fn div 2" "fn div 2 < fn" using less.prems(2) by (auto elim: evenE)
    moreover have "skip_even (fn div 2) (fn div 2) = (fn', sn')"
      using less.prems True by (simp add: skip_even.simps [of fn] and_1_parity)
    ultimately show ?thesis
      using less.IH [of "fn div 2"] True less.prems(2) by (simp add: climb.simps [of sha fn fn])
  next
    case False
    then have "skip_even fn fn = (fn, fn)" by (subst skip_even.simps) (simp only: and_1_parity, simp)
    then show ?thesis using less.prems(1) False by simp
  qed
qed

lemma inclusion_fold_eq: "fn \<le> sn \<Longrightarrow> inclusion_fold sha fn sn r path = climb sha fn sn r path"
proof (induction path arbitrary: fn sn r)
  case Nil
  then show ?case
  proof (induction sn arbitrary: fn rule: less_induct)
    case (less sn)
    have "climb sha fn sn r [] = None" if "sn \<noteq> 0"
    proof (cases "even fn \<and> fn = sn")
      case True
      then have "sn div 2 < sn" "sn div 2 \<noteq> 0" using that by (auto elim: evenE)
      with less.IH [of "sn div 2" "sn div 2"] True that show ?thesis by (simp add: climb.simps [of sha sn sn])
    next
      case False
      then show ?thesis using that by (subst climb.simps) auto
    qed
    then show ?case by (cases "sn = 0") (simp_all add: climb.simps)
  qed
next
  case (Cons p path)
  show ?case
  proof (cases "sn = 0")
    case True
    then show ?thesis by (simp add: climb.simps)
  next
    case sn: False
    show ?thesis
    proof (cases "even fn \<and> fn = sn")
      case True
      obtain fn' sn' where sk: "skip_even fn fn = (fn', sn')" by fastforce
      have s: "sn' = fn'" "odd fn'" and c: "climb sha fn' fn' r (p # path) = climb sha fn fn r (p # path)"
        using climb_skip [OF sk] True sn by auto
      have "inclusion_fold sha fn sn r (p # path)
          = inclusion_fold sha (fn' div 2) (fn' div 2) (merkleNodeHash sha p r) path"
        using True sn sk s by (simp only: inclusion_fold.simps and_1_parity) auto
      also have "\<dots> = climb sha (fn' div 2) (fn' div 2) (merkleNodeHash sha p r) path" by (rule Cons.IH) simp
      also have "\<dots> = climb sha fn' fn' r (p # path)"
        using s(2) by (auto simp: climb.simps [of sha fn' fn'] elim: oddE)
      finally show ?thesis using c True by simp
    next
      case False
      then show ?thesis
        using Cons sn by (auto simp: and_1_parity climb.simps [of sha fn sn] div_le_mono)
    qed
  qed
qed

lemma climb_audit_path:
  "i < length xs \<Longrightarrow> climb sha i (length xs - 1) (xs ! i) (audit_path sha xs i) = Some (tree_root sha xs)"
proof (induction sha xs i rule: audit_path.induct)
  case (1 sha xs i)
  show ?case
  proof (cases "1 < length xs")
    case True
    let ?ys = "level_above sha xs"
    have len: "(length xs - 1) div 2 = length ?ys - 1" "i div 2 < length ?ys"
      using 1(2) True by (auto simp: length_level_above)
    have "climb sha (i div 2) (length ?ys - 1) (?ys ! (i div 2)) (audit_path sha ?ys (i div 2))
        = Some (tree_root sha ?ys)"
      by (rule "1.IH") (use True len in auto)
    moreover have "?ys ! (i div 2)
        = (if odd i then merkleNodeHash sha (xs ! (i - 1)) (xs ! i)
           else if i + 1 < length xs then merkleNodeHash sha (xs ! i) (xs ! (i + 1)) else xs ! i)"
      using len(2) 1(2) by (auto simp: nth_level_above length_level_above elim!: oddE evenE)
    ultimately show ?thesis
      using True len 1(2)
      by (auto simp: climb.simps [of sha i] audit_path.simps [of sha xs i] tree_root_level_above)
  next
    case False
    then obtain x where "xs = [x]" using 1(2) by (cases xs) auto
    with 1(2) show ?thesis by (simp add: climb.simps)
  qed
qed

lemma constantTimeEqual_iff [simp]: "constantTimeEqual a b \<longleftrightarrow> a = b"
proof -
  have "foldl (\<lambda>d (x, y). d OR (x XOR y)) d (zip a b) = 0 \<longleftrightarrow> d = 0 \<and> a = b"
    if "length a = length b" for d
    using that
  proof (induction a b arbitrary: d rule: list_induct2)
    case (Cons x xs y ys)
    have "(d OR (x XOR y)) = 0 \<longleftrightarrow> d = 0 \<and> x = y"
      by (metis or_eq_0_iff xor.assoc xor.left_neutral xor.right_neutral xor_self_eq)
    with Cons show ?case by auto
  qed simp
  from this [of 0] show ?thesis by (auto simp: constantTimeEqual_def)
qed

definition hash_sized :: "bytes list \<Rightarrow> bool" where
  "hash_sized xs \<longleftrightarrow> (\<forall>x\<in>set xs. length x = hash_bytes)"

lemma hash_sized_simps [simp]:
  "hash_sized []" "hash_sized (x # xs) \<longleftrightarrow> length x = hash_bytes \<and> hash_sized xs"
  "hash_sized (xs @ ys) \<longleftrightarrow> hash_sized xs \<and> hash_sized ys"
  by (auto simp: hash_sized_def)

lemma hash_sized_nth: "hash_sized xs \<Longrightarrow> i < length xs \<Longrightarrow> length (xs ! i) = hash_bytes"
  by (simp add: hash_sized_def)

text \<open>SHA-256 returns 32 bytes.\<close>

definition hash_sized_function :: "(bytes \<Rightarrow> bytes) \<Rightarrow> bool" where
  "hash_sized_function sha \<longleftrightarrow> (\<forall>x. length (sha x) = hash_bytes)"

lemma hash_sized_node [simp]: "hash_sized_function sha \<Longrightarrow> length (merkleNodeHash sha l r) = hash_bytes"
  by (simp add: hash_sized_function_def merkleNodeHash_def)

lemma hash_sized_level_above: "hash_sized_function sha \<Longrightarrow> hash_sized xs \<Longrightarrow> hash_sized (level_above sha xs)"
  by (auto simp: level_above_def hash_sized_def)

lemma hash_sized_level_up: "hash_sized_function sha \<Longrightarrow> hash_sized xs \<Longrightarrow> hash_sized (level_up sha h xs)"
  by (induction h arbitrary: xs) (auto intro: hash_sized_level_above)

lemma tree_root_size:
  "hash_sized_function sha \<Longrightarrow> hash_sized xs \<Longrightarrow> length (tree_root sha xs) = hash_bytes"
proof (induction sha xs rule: tree_root.induct)
  case (1 sha xs)
  show ?case
  proof (cases "1 < length xs")
    case True
    then show ?thesis using 1 hash_sized_level_above by (simp add: tree_root.simps [of sha xs])
  next
    case False
    then show ?thesis using 1(2,3) by (cases xs) (auto simp: hash_sized_function_def)
  qed
qed

lemma audit_path_size:
  "hash_sized_function sha \<Longrightarrow> hash_sized xs \<Longrightarrow> i < length xs \<Longrightarrow> hash_sized (audit_path sha xs i)"
proof (induction sha xs i rule: audit_path.induct)
  case (1 sha xs i)
  show ?case
  proof (cases "1 < length xs")
    case True
    have "hash_sized (audit_path sha (level_above sha xs) (i div 2))"
      by (rule "1.IH" [OF True]) (use 1 hash_sized_level_above in \<open>simp_all add: length_level_above\<close>)
    then show ?thesis
      using True 1(3,4) by (simp add: audit_path.simps [of sha xs i] hash_sized_nth)
  qed simp
qed

text \<open>What is hashed: by the tree, and by the verification of a path.\<close>

function tree_inputs :: "(bytes \<Rightarrow> bytes) \<Rightarrow> bytes list \<Rightarrow> bytes list" where
  "tree_inputs sha xs =
     (if 1 < length xs then
        map (\<lambda>i. prefixed node_prefix [xs ! (2 * i), xs ! (2 * i + 1)]) [0..<length xs div 2]
        @ tree_inputs sha (level_above sha xs)
      else [])"
  by pat_completeness auto
termination
  by (relation "measure (\<lambda>(sha, xs). length xs)") (auto simp: length_level_above)

declare tree_inputs.simps [simp del]

fun path_inputs :: "(bytes \<Rightarrow> bytes) \<Rightarrow> nat \<Rightarrow> nat \<Rightarrow> bytes \<Rightarrow> bytes list \<Rightarrow> bytes list" where
  "path_inputs sha fn sn r path =
     (if sn = 0 then []
      else if even fn \<and> fn = sn then path_inputs sha (fn div 2) (sn div 2) r path
      else case path of
             [] \<Rightarrow> []
           | p # ps \<Rightarrow>
               (let pair = (if odd fn then [p, r] else [r, p])
                in prefixed node_prefix pair # path_inputs sha (fn div 2) (sn div 2) (sha (prefixed node_prefix pair)) ps))"

declare path_inputs.simps [simp del]

definition collision :: "(bytes \<Rightarrow> bytes) \<Rightarrow> bytes list \<Rightarrow> bytes list \<Rightarrow> bool" where
  "collision sha as bs \<longleftrightarrow> (\<exists>a\<in>set as. \<exists>b\<in>set bs. a \<noteq> b \<and> sha a = sha b)"

lemma collision_mono: "collision sha as bs \<Longrightarrow> set as \<subseteq> set as' \<Longrightarrow> set bs \<subseteq> set bs' \<Longrightarrow> collision sha as' bs'"
  unfolding collision_def by blast

lemma pair_inject:
  "length l = length l' \<Longrightarrow> prefixed p [l, r] = prefixed p [l', r'] \<longleftrightarrow> l = l' \<and> r = r'"
  by (auto simp: prefixed_def)

lemma node_inputs:
  "2 * j + 1 < length xs \<Longrightarrow> prefixed node_prefix [xs ! (2 * j), xs ! (2 * j + 1)] \<in> set (tree_inputs sha xs)"
  by (subst tree_inputs.simps) force

lemma climb_sound:
  "hash_sized_function sha \<Longrightarrow> hash_sized xs \<Longrightarrow> length r = hash_bytes \<Longrightarrow> hash_sized path \<Longrightarrow> i < length xs \<Longrightarrow>
   climb sha i (length xs - 1) r path = Some (tree_root sha xs) \<Longrightarrow>
   r = xs ! i \<and> path = audit_path sha xs i
   \<or> collision sha (path_inputs sha i (length xs - 1) r path) (tree_inputs sha xs)"
proof (induction sha xs i arbitrary: r path rule: audit_path.induct)
  case (1 sha xs i)
  note sized = 1(2,3)
  show ?case
  proof (cases "1 < length xs")
    case False
    then obtain x where "xs = [x]" using "1.prems"(5) by (cases xs) auto
    then show ?thesis using "1.prems" by (auto simp: climb.simps split: if_splits)
  next
    case True
    let ?ys = "level_above sha xs" and ?n = "length xs - 1" and ?j = "i div 2"
    have sn: "?n \<noteq> 0" "?n div 2 = length ?ys - 1" and j: "?j < length ?ys"
      using True "1.prems"(5) by (auto simp: length_level_above)
    have sub: "set (tree_inputs sha ?ys) \<subseteq> set (tree_inputs sha xs)"
      using True by (simp add: tree_inputs.simps [of sha xs])
    note IH = "1.IH" [OF True sized(1) hash_sized_level_above [OF sized] _ _ j]
    show ?thesis
    proof (cases "even i \<and> i = ?n")
      case skip: True
      have "climb sha ?j (length ?ys - 1) r path = Some (tree_root sha ?ys)"
        using "1.prems"(6) skip sn by (subst (asm) climb.simps) (auto simp: tree_root_level_above)
      then have "r = ?ys ! ?j \<and> path = audit_path sha ?ys ?j
          \<or> collision sha (path_inputs sha ?j (length ?ys - 1) r path) (tree_inputs sha ?ys)"
        using IH "1.prems"(3,4) by blast
      moreover have "?ys ! ?j = xs ! i"
        using skip j by (auto simp: nth_level_above length_level_above elim!: evenE)
      moreover have "audit_path sha xs i = audit_path sha ?ys ?j"
        using True skip by (subst audit_path.simps) auto
      moreover have "path_inputs sha i ?n r path = path_inputs sha ?j (length ?ys - 1) r path"
        using skip sn by (subst path_inputs.simps) auto
      ultimately show ?thesis using collision_mono [OF _ _ sub] by auto
    next
      case False
      let ?pair = "\<lambda>p. if odd i then [p, r] else [r, p]"
      let ?r' = "\<lambda>p. sha (prefixed node_prefix (?pair p))"
      have node: "(if odd i then merkleNodeHash sha p r else merkleNodeHash sha r p) = ?r' p" for p
        by (simp add: merkleNodeHash_def)
      note top = climb.simps [of sha i "length xs - 1"]
      obtain p ps where path: "path = p # ps"
        using "1.prems"(6) False sn unfolding top by (cases path) auto
      have up: "climb sha ?j (length ?ys - 1) (?r' p) ps = Some (tree_root sha ?ys)"
        using "1.prems"(6) False sn unfolding top path node by (auto simp: tree_root_level_above)
      have inputs: "path_inputs sha i ?n r path
          = prefixed node_prefix (?pair p) # path_inputs sha ?j (length ?ys - 1) (?r' p) ps"
        using False sn path by (subst path_inputs.simps) (auto simp: Let_def)
      have rp: "length (?r' p) = hash_bytes" "hash_sized ps" "length p = hash_bytes"
        using sized(1) "1.prems"(4) path by (auto simp: hash_sized_function_def)
      from IH [OF rp(1,2) up] show ?thesis
      proof
        assume "collision sha (path_inputs sha ?j (length ?ys - 1) (?r' p) ps) (tree_inputs sha ?ys)"
        then have "collision sha (path_inputs sha i ?n r path) (tree_inputs sha xs)"
          by (rule collision_mono) (use inputs sub in auto)
        then show ?thesis ..
      next
        assume eq: "?r' p = ?ys ! ?j \<and> ps = audit_path sha ?ys ?j"
        have "2 * ?j + 1 < length xs"
          using False "1.prems"(5) by (auto elim!: oddE evenE)
        then have yj: "?ys ! ?j = sha (prefixed node_prefix [xs ! (2 * ?j), xs ! (2 * ?j + 1)])"
          and mem: "prefixed node_prefix [xs ! (2 * ?j), xs ! (2 * ?j + 1)] \<in> set (tree_inputs sha xs)"
          using j node_inputs by (simp_all add: nth_level_above length_level_above merkleNodeHash_def)
        show ?thesis
        proof (cases "prefixed node_prefix (?pair p) = prefixed node_prefix [xs ! (2 * ?j), xs ! (2 * ?j + 1)]")
          case same: True
          have "length (xs ! (2 * ?j)) = hash_bytes"
            using hash_sized_nth [OF sized(2)] \<open>2 * ?j + 1 < length xs\<close> by simp
          then have "?pair p = [xs ! (2 * ?j), xs ! (2 * ?j + 1)]"
            using same rp(3) "1.prems"(3) by (auto simp: pair_inject split: if_splits)
          then show ?thesis
            using eq path True False "1.prems"(5)
            by (auto simp: audit_path.simps [of sha xs i] elim!: oddE evenE split: if_splits)
        next
          case False
          then show ?thesis using eq yj mem inputs unfolding collision_def by auto
        qed
      qed
    qed
  qed
qed

text \<open>Operations on the leaves of a tree.\<close>

lemma inclusionPath_eq: "i < length leaves \<Longrightarrow> inclusionPath sha leaves i = Inr (audit_path sha leaves i)"
  by (auto simp: inclusionPath_def levels_of_def inclusion_loop_eq)

lemma rootFromInclusion_eq: "i < n \<Longrightarrow> rootFromInclusion sha leaf i n path = climb sha i (n - 1) leaf path"
  by (simp add: rootFromInclusion_def inclusion_fold_eq)

text \<open>
  Every leaf can be proved: the inclusion path the tree hands out for any index verifies against the
  root of the tree, for every number of leaves.
\<close>

theorem inclusion_complete:
  assumes "hash_sized_function sha" and "hash_sized leaves" and "i < length leaves"
  shows "\<exists>path root. inclusionPath sha leaves i = Inr path \<and> merkleRoot sha leaves = Some root
    \<and> verifyInclusionPath sha (leaves ! i) i (length leaves) path root"
proof -
  note climb_audit_path [OF assms(3), of sha, simplified One_nat_def]
  moreover have "hash_sized (audit_path sha leaves i)" by (rule audit_path_size [OF assms])
  ultimately have "verifyInclusionPath sha (leaves ! i) i (length leaves) (audit_path sha leaves i) (tree_root sha leaves)"
    using assms
    by (auto simp: verifyInclusionPath_def rootFromInclusion_eq tree_root_size hash_sized_def)
  then show ?thesis using inclusionPath_eq [OF assms(3)] merkleRoot_eq by blast
qed

text \<open>
  C16: Nothing else can be proved: a path that verifies against the root of the tree is the genuine path of
  the leaf at that index, or the verification and the tree have hashed two different strings with the same
  digest, a collision of SHA-256 that is then in hand.
\<close>

theorem inclusion_sound:
  assumes "hash_sized_function sha" and "hash_sized leaves" and "merkleRoot sha leaves = Some root"
    and ok: "verifyInclusionPath sha leaf i (length leaves) path root"
  shows "i < length leaves \<and> (leaf = leaves ! i \<and> inclusionPath sha leaves i = Inr path
    \<or> collision sha (path_inputs sha i (length leaves - 1) leaf path) (tree_inputs sha leaves))"
proof -
  have root: "root = tree_root sha leaves" using assms(3) by (simp add: merkleRoot_eq)
  have i: "i < length leaves" and sized: "length leaf = hash_bytes" "hash_sized path"
    and r: "rootFromInclusion sha leaf i (length leaves) path = Some root"
    using ok by (auto simp: verifyInclusionPath_def rootFromInclusion_def hash_sized_def split: if_splits option.splits)
  have "climb sha i (length leaves - 1) leaf path = Some (tree_root sha leaves)"
    using r i by (simp add: rootFromInclusion_eq root)
  from climb_sound [OF assms(1,2) sized i this] i show ?thesis
    by (auto simp: inclusionPath_eq)
qed

section \<open>Consistency\<close>

lemma audit_path_split:
  "2 ^ K < length xs \<Longrightarrow> length xs \<le> 2 * 2 ^ K \<Longrightarrow> i < length xs \<Longrightarrow>
   audit_path sha xs i
     = (if i < 2 ^ K then audit_path sha (take (2 ^ K) xs) i @ [tree_root sha (drop (2 ^ K) xs)]
        else audit_path sha (drop (2 ^ K) xs) (i - 2 ^ K) @ [tree_root sha (take (2 ^ K) xs)])"
proof (induction K arbitrary: xs i)
  case 0
  then obtain a b where "xs = [a, b]" by (cases xs; cases "tl xs") auto
  moreover have "i = 0 \<or> i = 1" using 0 by auto
  ultimately show ?case by (auto simp: audit_path.simps [of sha "[a, b]"] level_above_def)
next
  case (Suc K)
  let ?ys = "level_above sha xs" and ?j = "i div 2" and ?k = "2 ^ Suc K :: nat"
  have len: "length ?ys = (length xs + 1) div 2" by (rule length_level_above)
  have k: "?k div 2 = 2 ^ K" "even ?k" "?k \<le> length xs" "1 < length xs" "1 < ?k" using Suc.prems one_less_power [of "2::nat" "Suc K"] by auto
  have up: "take (2 ^ K) ?ys = level_above sha (take ?k xs)" "drop (2 ^ K) ?ys = level_above sha (drop ?k xs)"
    using level_above_take [of ?k xs sha] level_above_drop [of ?k xs sha] k by simp_all
  have IH: "audit_path sha ?ys ?j
     = (if ?j < 2 ^ K then audit_path sha (level_above sha (take ?k xs)) ?j @ [tree_root sha (drop ?k xs)]
        else audit_path sha (level_above sha (drop ?k xs)) (?j - 2 ^ K) @ [tree_root sha (take ?k xs)])"
    using Suc.IH [of ?ys ?j] Suc.prems len by (simp add: up tree_root_level_above)
  let ?sib = "if odd i then [xs ! (i - 1)] else if i + 1 < length xs then [xs ! (i + 1)] else []"
  have top: "audit_path sha xs i = ?sib @ audit_path sha ?ys ?j"
    using k(4) by (simp add: audit_path.simps [of sha xs i])
  have j: "?j < 2 ^ K \<longleftrightarrow> i < ?k" by auto
  show ?case
  proof (cases "i < ?k")
    case True
    then have "i + 1 < ?k" if "even i" using that k(2) by (metis Suc_eq_plus1 Suc_lessI even_Suc)
    then have "audit_path sha (take ?k xs) i = ?sib @ audit_path sha (level_above sha (take ?k xs)) ?j"
      using True k Suc.prems(1) by (subst audit_path.simps) auto
    then show ?thesis using top IH j True by simp
  next
    case False
    have odd: "odd (i - ?k) = odd i" using False k(2) by simp
    have jk: "?j - 2 ^ K = (i - ?k) div 2" using False by auto
    have "audit_path sha (drop ?k xs) (i - ?k)
        = ?sib @ audit_path sha (level_above sha (drop ?k xs)) (?j - 2 ^ K)"
    proof (cases "length (drop ?k xs) \<le> 1")
      case True
      then have "i = ?k" "length xs = ?k + 1" using False Suc.prems by auto
      moreover have "length (level_above sha (drop ?k xs)) \<le> 1" using True by (simp add: length_level_above)
      ultimately show ?thesis using True k(2) by simp
    next
      case big: False
      have "odd i \<Longrightarrow> ?k \<le> i - 1" using False k(2) by (metis Suc_diff_1 Suc_leI le_neq_implies_less not_le odd_pos less_Suc_eq_le)
      then show ?thesis
        using big False Suc.prems by (subst audit_path.simps) (auto simp: odd jk)
    qed
    then show ?thesis using top IH j False by simp
  qed
qed

fun old_fold :: "(bytes \<Rightarrow> bytes) \<Rightarrow> nat \<Rightarrow> nat \<Rightarrow> bytes \<Rightarrow> bytes list \<Rightarrow> bytes" where
  "old_fold sha fn sn fr [] = fr"
| "old_fold sha fn sn fr (c # path) =
     (if odd fn \<or> fn = sn then
        (let (fn', sn') = (if even fn then skip_even fn sn else (fn, sn))
         in old_fold sha (fn' div 2) (sn' div 2) (merkleNodeHash sha c fr) path)
      else old_fold sha (fn div 2) (sn div 2) fr path)"

lemma consistency_fold_eq:
  "consistency_fold sha fn sn fr sr path
     = map_option (Pair (old_fold sha fn sn fr path)) (inclusion_fold sha fn sn sr path)"
proof (induction path arbitrary: fn sn fr sr)
  case (Cons c path)
  show ?case
    unfolding consistency_fold.simps inclusion_fold.simps old_fold.simps and_1_parity
    by (simp add: Cons split: prod.split)
qed simp

lemma old_fold_skip: "even i \<Longrightarrow> i \<noteq> 0 \<Longrightarrow> old_fold sha i i r path = old_fold sha (i div 2) (i div 2) r path"
proof (cases path)
  case (Cons c ps)
  assume i: "even i" "i \<noteq> 0"
  then have "(i AND 1 = 0 \<and> i \<noteq> 0) = True" by (simp only: and_1_parity simp_thms)
  then have "skip_even i i = skip_even (i div 2) (i div 2)" by (subst skip_even.simps) (simp only: if_True)
  moreover have "skip_even (i div 2) (i div 2) = (i div 2, i div 2)" if "odd (i div 2)"
    using that by (subst skip_even.simps) (simp only: and_1_parity, simp)
  ultimately show ?thesis using i Cons by simp
qed simp

lemma old_fold_audit_path:
  "i < length xs \<Longrightarrow> old_fold sha i (length xs - 1) r (audit_path sha xs i) = tree_root sha (take i xs @ [r])"
proof (induction sha xs i arbitrary: r rule: audit_path.induct)
  case (1 sha xs i)
  show ?case
  proof (cases "1 < length xs")
    case False
    then have "i = 0" using 1(2) by simp
    with False show ?thesis by simp
  next
    case True
    let ?ys = "level_above sha xs" and ?j = "i div 2"
    have sn: "(length xs - 1) div 2 = length ?ys - 1" and j: "?j < length ?ys"
      using True 1(2) by (auto simp: length_level_above)
    note IH = "1.IH" [OF True j]
    have up: "level_above sha (take i xs @ [r])
        = take ?j ?ys @ [if odd i then merkleNodeHash sha (xs ! (i - 1)) r else r]"
    proof (rule nth_equalityI, goal_cases)
      case 1
      then show ?case using j \<open>i < length xs\<close> by (simp add: length_level_above min_def)
    next
      case (2 m)
      then have "m \<le> ?j" using \<open>i < length xs\<close> by (auto simp: length_level_above)
      then show ?case using \<open>i < length xs\<close> j
        by (auto simp: nth_level_above length_level_above nth_append min_def elim!: evenE oddE)
    qed
    have "tree_root sha (take i xs @ [r]) = tree_root sha (level_above sha (take i xs @ [r]))"
      by (simp add: tree_root_level_above)
    then have goal: "tree_root sha (take i xs @ [r])
        = old_fold sha ?j (length ?ys - 1) (if odd i then merkleNodeHash sha (xs ! (i - 1)) r else r) (audit_path sha ?ys ?j)"
      by (simp only: up IH)
    show ?thesis
    proof (cases "even i \<and> i = length xs - 1")
      case skip: True
      then have "audit_path sha xs i = audit_path sha ?ys ?j" using True by (subst audit_path.simps) auto
      moreover have "old_fold sha i (length xs - 1) r path = old_fold sha ?j (length ?ys - 1) r path" for path
        using skip True sn old_fold_skip [of i sha r path] by auto
      moreover have "even i" by (rule conjunct1 [OF skip])
      ultimately show ?thesis using goal by (simp only: not_not if_False simp_thms)
    next
      case False
      then show ?thesis using goal sn True 1(2)
        by (subst audit_path.simps) auto
    qed
  qed
qed

text \<open>The path of \<open>subProof\<close>: the level at which the old tree is complete, and the way up from there.\<close>

definition level_path :: "(bytes \<Rightarrow> bytes) \<Rightarrow> nat \<Rightarrow> nat \<Rightarrow> bytes list \<Rightarrow> bool \<Rightarrow> bytes list" where
  "level_path sha h q xs complete =
     (if complete \<and> q = 0 then [] else [level_up sha h xs ! (2 * q)]) @ audit_path sha (level_up sha h xs) (2 * q)"

lemma pow_split_left:
  assumes K: "2 ^ K < length xs" "length xs \<le> 2 * 2 ^ K" and m: "2 ^ h * (2 * q + 1) \<le> 2 ^ K"
  shows "level_path sha h q xs b = level_path sha h q (take (2 ^ K) xs) b @ [tree_root sha (drop (2 ^ K) xs)]"
proof -
  let ?k = "2 ^ K :: nat" and ?ys = "level_up sha h xs"
  have "2 ^ h \<le> (2 :: nat) ^ K" using m by (metis One_nat_def add_gr_0 le_trans less_one mult_le_mono2 mult.right_neutral not_less le_add2)
  then have hK: "h \<le> K" by simp
  have dvd: "2 ^ h dvd ?k" using hK by (simp add: le_imp_power_dvd)
  have kd: "?k div 2 ^ h = 2 ^ (K - h)" using hK by (simp add: power_diff)
  have up: "level_up sha h (take ?k xs) = take (2 ^ (K - h)) ?ys" "level_up sha h (drop ?k xs) = drop (2 ^ (K - h)) ?ys"
    using level_up_take [OF dvd] level_up_drop [OF dvd] K kd by simp_all
  have kk: "2 ^ h * 2 ^ (K - h) = ?k" using hK by (simp add: power_add [symmetric])
  have q: "2 * q < 2 ^ (K - h)" using m kk by (metis Suc_eq_plus1 Suc_le_lessD mult_le_cancel1 zero_less_numeral zero_less_power)
  have len: "length ?ys = (length xs - 1) div 2 ^ h + 1" by (rule length_level_up) (use K in auto)
  have "2 ^ (K - h) \<le> (length xs - 1) div 2 ^ h"
    using K kk by (simp add: less_eq_div_iff_mult_less_eq mult.commute)
  moreover have "(length xs - 1) div 2 ^ h < 2 * 2 ^ (K - h)"
    using K kk by (simp add: div_less_iff_less_mult mult.commute mult.left_commute)
  ultimately have L: "2 ^ (K - h) < length ?ys" "length ?ys \<le> 2 * 2 ^ (K - h)" using len by auto
  have "audit_path sha ?ys (2 * q)
      = audit_path sha (take (2 ^ (K - h)) ?ys) (2 * q) @ [tree_root sha (drop (2 ^ (K - h)) ?ys)]"
    using audit_path_split [OF L, of "2 * q" sha] q L by simp
  then show ?thesis
    using q by (simp add: level_path_def up tree_root_level_up [of sha h "drop ?k xs", unfolded up, symmetric])
qed

lemma pow_split_right:
  assumes K: "2 ^ K < length xs" "length xs \<le> 2 * 2 ^ K"
    and m: "2 ^ K < 2 ^ h * (2 * q + 1)" "2 ^ h * (2 * q + 1) < length xs"
  shows "\<exists>p. 2 ^ h * (2 * q + 1) - 2 ^ K = 2 ^ h * (2 * p + 1)
    \<and> level_path sha h q xs b = level_path sha h p (drop (2 ^ K) xs) False @ [tree_root sha (take (2 ^ K) xs)]"
proof -
  let ?k = "2 ^ K :: nat" and ?ys = "level_up sha h xs"
  have hK: "h < K"
  proof (rule ccontr)
    assume "\<not> h < K"
    then have e: "2 ^ h = ?k * 2 ^ (h - K)" by (simp add: power_add [symmetric])
    let ?c = "2 ^ (h - K) * (2 * q + 1)"
    have c: "2 ^ h * (2 * q + 1) = ?k * ?c" by (simp only: e mult.assoc)
    have "?k * ?c < ?k * 2" "?k * 1 < ?k * ?c" using m K unfolding c by linarith+
    then have "?c < 2" "1 < ?c" by (simp_all only: mult_less_cancel1)
    then show False by linarith
  qed
  then obtain d where d: "K = h + Suc d" by (metis add_Suc_right less_imp_Suc_add)
  have kk: "?k = 2 ^ h * (2 * 2 ^ d)" using d by (simp add: power_add)
  have kd: "?k div 2 ^ h = 2 ^ (K - h)" "2 ^ (K - h) = (2 * 2 ^ d :: nat)" using d by (simp_all add: power_add)
  have kk2: "2 ^ h * 2 ^ (K - h) = ?k" using kk kd(2) by simp
  have dvd: "2 ^ h dvd ?k" using kk by simp
  have q: "2 ^ d \<le> q"
  proof -
    have "2 * 2 ^ d < 2 * q + 1" using m(1) unfolding kk by (simp only: mult_less_cancel1)
    then show ?thesis by linarith
  qed
  have num: "2 ^ h * (2 * q + 1) - ?k = 2 ^ h * (2 * (q - 2 ^ d) + 1)"
    using q kk by (simp add: diff_mult_distrib2 [symmetric] algebra_simps)
  have up: "level_up sha h (take ?k xs) = take (2 ^ (K - h)) ?ys" "level_up sha h (drop ?k xs) = drop (2 ^ (K - h)) ?ys"
    using level_up_take [OF dvd] level_up_drop [OF dvd] K kd by simp_all
  have len: "length ?ys = (length xs - 1) div 2 ^ h + 1" by (rule length_level_up) (use K in auto)
  have "2 ^ (K - h) \<le> (length xs - 1) div 2 ^ h"
    using K kk2 by (simp add: less_eq_div_iff_mult_less_eq mult.commute)
  moreover have "(length xs - 1) div 2 ^ h < 2 * 2 ^ (K - h)"
    using K kk2 by (simp add: div_less_iff_less_mult mult.commute mult.left_commute)
  moreover have "2 * q < (length xs - 1) div 2 ^ h + 1"
    using m(2) by (simp add: less_Suc_eq_le less_eq_div_iff_mult_less_eq mult.commute)
  ultimately have L: "2 ^ (K - h) < length ?ys" "length ?ys \<le> 2 * 2 ^ (K - h)" "2 * q < length ?ys" using len by auto
  have "audit_path sha ?ys (2 * q)
      = audit_path sha (drop (2 ^ (K - h)) ?ys) (2 * (q - 2 ^ d)) @ [tree_root sha (take (2 ^ (K - h)) ?ys)]"
    using audit_path_split [OF L, of sha] q kd(2) by (simp add: diff_mult_distrib2)
  moreover have "0 < q" using q by (metis not_gr_zero le_zero_eq power_not_zero zero_neq_numeral)
  moreover have "2 * 2 ^ d + 2 * (q - 2 ^ d) = 2 * q" using q by simp
  ultimately have "level_path sha h q xs b
      = level_path sha h (q - 2 ^ d) (drop ?k xs) False @ [tree_root sha (take ?k xs)]"
    using q kd(2) L(3)
    by (simp add: level_path_def up tree_root_level_up [of sha h "take ?k xs", unfolded up, symmetric])
  with num show ?thesis by blast
qed

lemma odd_dvd_power: "2 * q + 1 dvd (2 :: nat) ^ K \<Longrightarrow> q = 0"
proof -
  assume d: "2 * q + 1 dvd (2 :: nat) ^ K"
  have "coprime (2 * q + 1) ((2 :: nat) ^ K)" by simp
  with d have "is_unit (2 * q + 1)" by (metis coprime_absorb_left)
  then show "q = 0" by simp
qed

lemma subProof_eq:
  "start < stop \<Longrightarrow> stop \<le> length xs \<Longrightarrow> m = 2 ^ h * (2 * q + 1) \<Longrightarrow>
   m < stop - start \<or> m = stop - start \<and> q = 0 \<Longrightarrow>
   subProof sha (length xs) (levels_of sha xs) m start stop b
     = Some (level_path sha h q (take (stop - start) (drop start xs)) b)"
proof (induction "stop - start" arbitrary: start stop m q b rule: less_induct)
  case less
  let ?len = "stop - start" and ?L = "levels_of sha xs"
  let ?s = "take ?len (drop start xs)"
  have slen: "length ?s = ?len" using less.prems(2) by simp
  note unfold = subProof.simps [of sha _ _ m start stop b]
  show ?case
  proof (cases "m = ?len")
    case True
    then have q: "q = 0" and l: "?len = 2 ^ h" using less.prems by auto
    have up: "level_up sha h ?s = [tree_root sha ?s]"
    proof -
      have "length (level_up sha h ?s) = (2 ^ h - 1) div 2 ^ h + 1"
        using length_level_up [of ?s sha h] slen l less.prems(1) by (metis length_greater_0_conv zero_less_diff)
      then have "length (level_up sha h ?s) = 1" by simp
      then obtain r where r: "level_up sha h ?s = [r]" by (auto simp: length_Suc_conv)
      with tree_root_level_up [of sha h ?s] show ?thesis by simp
    qed
    show ?thesis
      using True q rangeRoot_eq [OF less.prems(1,2), of sha] by (subst unfold) (simp add: level_path_def up)
  next
    case False
    then have m: "m < ?len" using less.prems(4) by simp
    moreover have "0 < m" using less.prems(3) by simp
    ultimately have big: "1 < ?len" by linarith
    obtain K where K: "splitPoint ?len = 2 ^ K" "2 ^ K < ?len" "?len \<le> 2 * 2 ^ K"
      using splitPoint_spec [OF big] by blast
    let ?k = "2 ^ K :: nat"
    have tk: "take ?k ?s = take (start + ?k - start) (drop start xs)" using K(2) by (simp add: min_def)
    have dk: "drop ?k ?s = take (stop - (start + ?k)) (drop (start + ?k) xs)"
      by (simp add: drop_take add.commute)
    have sK: "?k < length ?s" "length ?s \<le> 2 * ?k" using K slen by simp_all
    have right: "rangeRoot sha (length xs) ?L (start + ?k) stop = Some (tree_root sha (drop ?k ?s))"
      unfolding dk by (rule rangeRoot_eq) (use K(2) less.prems(2) in auto)
    have left: "rangeRoot sha (length xs) ?L start (start + ?k) = Some (tree_root sha (take ?k ?s))"
      unfolding tk by (rule rangeRoot_eq) (use K(2) less.prems(2) in auto)
    show ?thesis
    proof (cases "m \<le> ?k")
      case True
      have full: "m < ?k \<or> m = ?k \<and> q = 0"
      proof (cases "m = ?k")
        case True
        then have "2 * q + 1 dvd 2 ^ K" using less.prems(3) by (metis dvd_triv_right)
        then have "q = 0" by (rule odd_dvd_power)
        with True show ?thesis by simp
      qed (use True in simp)
      have IH: "subProof sha (length xs) ?L m start (start + ?k) b = Some (level_path sha h q (take ?k ?s) b)"
        unfolding tk by (rule less.hyps) (use K less.prems full in auto)
      have "level_path sha h q ?s b = level_path sha h q (take ?k ?s) b @ [tree_root sha (drop ?k ?s)]"
        by (rule pow_split_left [OF sK]) (use True less.prems(3) in simp)
      then show ?thesis using False True IH right K(1) by (simp add: unfold Let_def)
    next
      case gt: False
      have "2 ^ K < 2 ^ h * (2 * q + 1)" "2 ^ h * (2 * q + 1) < length ?s"
        unfolding slen less.prems(3) [symmetric] using gt m by simp_all
      then obtain p where p: "m - ?k = 2 ^ h * (2 * p + 1)"
        and path: "level_path sha h q ?s b = level_path sha h p (drop ?k ?s) False @ [tree_root sha (take ?k ?s)]"
        using pow_split_right [OF sK, of h q sha b] unfolding less.prems(3) by blast
      have IH: "subProof sha (length xs) ?L (m - ?k) (start + ?k) stop False
          = Some (level_path sha h p (drop ?k ?s) False)"
        unfolding dk by (rule less.hyps [OF _ _ _ p]) (use K less.prems(1,2) m gt in auto)
      show ?thesis using False gt IH left path K(1) by (simp add: unfold Let_def)
    qed
  qed
qed

lemma odd_part: "0 < m \<Longrightarrow> \<exists>h q. m = 2 ^ h * (2 * q + 1)" for m :: nat
proof (induction m rule: less_induct)
  case (less m)
  show ?case
  proof (cases "even m")
    case True
    then obtain n where n: "m = 2 * n" by (elim evenE)
    with less.prems have "n < m" "0 < n" by simp_all
    from less.IH [OF this] obtain h q where "n = 2 ^ h * (2 * q + 1)" by blast
    with n have "m = 2 ^ Suc h * (2 * q + 1)" by simp
    then show ?thesis by blast
  next
    case False
    then obtain q where "m = 2 ^ 0 * (2 * q + 1)" by (auto elim: oddE)
    then show ?thesis by blast
  qed
qed

lemma double_pred: "m = 2 * n \<Longrightarrow> 0 < n \<Longrightarrow> m - 1 = 2 * (n - 1) + 1" for m n :: nat
  by simp

lemma skip_odd_eq: "skip_odd (2 ^ h * (2 * q + 1) - 1) sn = (2 * q, sn div 2 ^ h)"
proof (induction h arbitrary: sn)
  case 0
  then show ?case by (subst skip_odd.simps) (simp only: and_1_parity, simp)
next
  case (Suc h)
  let ?n = "2 ^ h * (2 * q + 1) :: nat"
  have n: "2 ^ Suc h * (2 * q + 1) - 1 = 2 * (?n - 1) + 1" by (rule double_pred) simp_all
  have "odd (2 * (?n - 1) + 1)" "(2 * (?n - 1) + 1) div 2 = ?n - 1" by simp_all
  then have "skip_odd (2 ^ Suc h * (2 * q + 1) - 1) sn = skip_odd (?n - 1) (sn div 2)"
    unfolding n by (subst skip_odd.simps) (simp only: and_1_parity simp_thms if_True)
  then show ?case using Suc by (simp add: div_mult2_eq)
qed

lemma isPowerOfTwo_eq: "isPowerOfTwo (2 ^ h * (2 * q + 1)) \<longleftrightarrow> q = 0"
proof -
  have "(2 ^ h * (2 * q + 1)) AND (2 ^ h * (2 * q + 1) - 1) = 2 ^ h * (2 * q)"
  proof (induction h)
    case 0
    have "Suc (2 * q) AND 2 * q = 2 * (q AND q)" by (subst and_rec) simp
    then show ?case by simp
  next
    case (Suc h)
    let ?n = "2 ^ h * (2 * q + 1) :: nat"
    have n: "2 ^ Suc h * (2 * q + 1) = 2 * ?n" "2 ^ Suc h * (2 * q + 1) - 1 = Suc (2 * (?n - 1))"
      by (simp, unfold Suc_eq_plus1, rule double_pred) simp_all
    have "2 * ?n AND Suc (2 * (?n - 1)) = 2 * (?n AND (?n - 1))"
      by (subst and_rec) (simp del: mult_Suc_right)
    then show ?case unfolding n(2) unfolding n(1) using Suc by simp
  qed
  then show ?thesis by (simp add: isPowerOfTwo_def)
qed

text \<open>The digest of a tree determines its leaves, up to a collision.\<close>

lemma tree_root_binding:
  "hash_sized xs \<Longrightarrow> hash_sized ys \<Longrightarrow> hash_sized_function sha \<Longrightarrow> length xs = length ys \<Longrightarrow>
   tree_root sha xs = tree_root sha ys \<Longrightarrow> xs = ys \<or> collision sha (tree_inputs sha xs) (tree_inputs sha ys)"
proof (induction sha xs arbitrary: ys rule: tree_root.induct)
  case (1 sha xs)
  show ?case
  proof (cases "1 < length xs")
    case False
    then show ?thesis using "1.prems"(4,5) by (cases xs; cases ys) auto
  next
    case True
    let ?x = "level_above sha xs" and ?y = "level_above sha ys"
    have sub: "set (tree_inputs sha ?x) \<subseteq> set (tree_inputs sha xs)" "set (tree_inputs sha ?y) \<subseteq> set (tree_inputs sha ys)"
      using True "1.prems"(4) by (simp_all add: tree_inputs.simps [of sha xs] tree_inputs.simps [of sha ys])
    have "?x = ?y \<or> collision sha (tree_inputs sha ?x) (tree_inputs sha ?y)"
      by (rule "1.IH" [OF True])
        (use "1.prems" in \<open>simp_all add: hash_sized_level_above length_level_above tree_root_level_above\<close>)
    then show ?thesis
    proof
      assume "collision sha (tree_inputs sha ?x) (tree_inputs sha ?y)"
      then show ?thesis using collision_mono sub by blast
    next
      assume eq: "?x = ?y"
      show ?thesis
      proof (rule ccontr)
        assume c: "\<not> ?thesis"
        have "xs ! i = ys ! i" if i: "i < length xs" for i
        proof -
          let ?j = "i div 2"
          have j: "?j < (length xs + 1) div 2" "?j < (length ys + 1) div 2" using i "1.prems"(4) by auto
          have at: "?x ! ?j = ?y ! ?j" using eq by simp
          show ?thesis
          proof (cases "2 * ?j + 1 < length xs")
            case False
            then have "2 * ?j = i" using i by auto
            then show ?thesis using at False "1.prems"(4) j by (simp add: nth_level_above)
          next
            case pair: True
            let ?a = "prefixed node_prefix [xs ! (2 * ?j), xs ! (2 * ?j + 1)]"
            let ?b = "prefixed node_prefix [ys ! (2 * ?j), ys ! (2 * ?j + 1)]"
            have "sha ?a = sha ?b" using at pair "1.prems"(4) j by (simp add: nth_level_above merkleNodeHash_def)
            moreover have "?a \<in> set (tree_inputs sha xs)" "?b \<in> set (tree_inputs sha ys)"
              using node_inputs pair "1.prems"(4) by auto
            ultimately have "?a = ?b" using c unfolding collision_def by blast
            moreover have "length (xs ! (2 * ?j)) = length (ys ! (2 * ?j))"
              using hash_sized_nth "1.prems" pair by simp
            ultimately have "xs ! (2 * ?j) = ys ! (2 * ?j)" "xs ! (2 * ?j + 1) = ys ! (2 * ?j + 1)"
              by (simp_all add: pair_inject)
            then show ?thesis by (cases "even i") (auto elim: evenE oddE)
          qed
        qed
        then show False using c "1.prems"(4) by (simp add: nth_equalityI)
      qed
    qed
  qed
qed

text \<open>What the verification of a consistency path hashes.\<close>

definition consistency_inputs :: "(bytes \<Rightarrow> bytes) \<Rightarrow> nat \<Rightarrow> nat \<Rightarrow> bytes \<Rightarrow> bytes list \<Rightarrow> bytes list" where
  "consistency_inputs sha oldSize newSize oldRoot path =
     (if oldSize = 0 \<or> oldSize = newSize then []
      else case (if isPowerOfTwo oldSize then oldRoot # path else path) of
             [] \<Rightarrow> []
           | seed # nodes \<Rightarrow>
               (case skip_odd (oldSize - 1) (newSize - 1) of (fn, sn) \<Rightarrow> path_inputs sha fn sn seed nodes))"

lemma tree_inputs_up: "set (tree_inputs sha (level_up sha h xs)) \<subseteq> set (tree_inputs sha xs)"
proof (induction h arbitrary: xs)
  case (Suc h)
  have "set (tree_inputs sha (level_above sha xs)) \<subseteq> set (tree_inputs sha xs)"
  proof (cases "1 < length xs")
    case True
    then show ?thesis by (simp add: tree_inputs.simps [of sha xs])
  next
    case False
    then show ?thesis by (cases xs) auto
  qed
  with Suc [of "level_above sha xs"] show ?case by auto
qed simp

text \<open>The data of a proper extension: old size \<open>m\<close>, its level \<open>h\<close> and position \<open>2 * q\<close> there.\<close>

lemma extension_facts:
  assumes m: "m = 2 ^ h * (2 * q + 1)" "m < length xs"
  shows "skip_odd (m - 1) (length xs - 1) = (2 * q, length (level_up sha h xs) - 1)"
    and "2 * q < length (level_up sha h xs)"
    and "tree_root sha (take (2 * q) (level_up sha h xs) @ [level_up sha h xs ! (2 * q)]) = tree_root sha (take m xs)"
    and "q = 0 \<Longrightarrow> level_up sha h xs ! 0 = tree_root sha (take m xs)"
proof -
  let ?ys = "level_up sha h xs"
  have ne: "xs \<noteq> []" using m by auto
  show "skip_odd (m - 1) (length xs - 1) = (2 * q, length ?ys - 1)"
    unfolding m(1) skip_odd_eq length_level_up_pred ..
  have dvd: "2 ^ h dvd m" and md: "m div 2 ^ h = 2 * q + 1" using m(1) by simp_all
  have "length (level_up sha h (take m xs)) = (m - 1) div 2 ^ h + 1"
    using length_level_up [of "take m xs" sha h] m ne by (simp add: min_def)
  have up: "level_up sha h (take m xs) = take (2 * q + 1) ?ys"
    using level_up_take [OF dvd, of xs sha] m(2) md by simp
  have "2 * q \<le> (length xs - 1) div 2 ^ h"
    using m by (simp add: less_eq_div_iff_mult_less_eq algebra_simps)
  then show q: "2 * q < length ?ys" by (simp add: length_level_up [OF ne])
  then have "take (2 * q) ?ys @ [?ys ! (2 * q)] = take (2 * q + 1) ?ys" by (simp add: take_Suc_conv_app_nth)
  then show eq: "tree_root sha (take (2 * q) ?ys @ [?ys ! (2 * q)]) = tree_root sha (take m xs)"
    by (metis tree_root_level_up up)
  show "q = 0 \<Longrightarrow> ?ys ! 0 = tree_root sha (take m xs)" using eq by simp
qed

lemma consistency_eq:
  assumes m: "m = 2 ^ h * (2 * q + 1)" "m < length xs" and sized: "hash_sized path"
    "length oldRoot = hash_bytes" "length newRoot = hash_bytes"
  shows "verifyConsistencyPath sha m (length xs) oldRoot newRoot path \<longleftrightarrow>
    (\<exists>seed nodes. (if q = 0 then oldRoot # path else path) = seed # nodes
      \<and> old_fold sha (2 * q) (length (level_up sha h xs) - 1) seed nodes = oldRoot
      \<and> climb sha (2 * q) (length (level_up sha h xs) - 1) seed nodes = Some newRoot)"
proof -
  note f = extension_facts [OF m, of sha]
  have "m \<noteq> 0" using m(1) by simp
  moreover have "2 * q \<le> length (level_up sha h xs) - 1" using f(2) by simp
  note fold = consistency_fold_eq inclusion_fold_eq [OF this]
  have pow: "isPowerOfTwo m \<longleftrightarrow> q = 0" unfolding m(1) by (rule isPowerOfTwo_eq)
  have "(\<exists>p\<in>set path. length p \<noteq> hash_bytes) = False" using sized(1) by (simp add: hash_sized_def)
  with \<open>m \<noteq> 0\<close> m(2) sized(2,3)
  have "verifyConsistencyPath sha m (length xs) oldRoot newRoot path =
    (case (if q = 0 then oldRoot # path else path) of
       [] \<Rightarrow> False
     | seed # nodes \<Rightarrow>
         (case consistency_fold sha (2 * q) (length (level_up sha h xs) - 1) seed seed nodes of
            None \<Rightarrow> False
          | Some (fr, sr) \<Rightarrow> constantTimeEqual fr oldRoot \<and> constantTimeEqual sr newRoot))"
    unfolding verifyConsistencyPath_def f(1) pow by (simp cong: list.case_cong)
  then show ?thesis
    by (cases "if q = 0 then oldRoot # path else path"; simp only: fold list.case)
      (auto split: option.splits)
qed

text \<open>
  The log can show that it only grew: for every size of an older tree, the consistency path the tree
  hands out verifies between the older root and the current one.
\<close>

theorem consistency_complete:
  assumes H: "hash_sized_function sha" and xs: "hash_sized leaves" and m: "oldSize \<le> length leaves"
  shows "\<exists>path oldRoot newRoot. consistencyPath sha leaves oldSize = Some (Inr path)
    \<and> merkleRoot sha (take oldSize leaves) = Some oldRoot \<and> merkleRoot sha leaves = Some newRoot
    \<and> verifyConsistencyPath sha oldSize (length leaves) oldRoot newRoot path"
proof -
  let ?old = "tree_root sha (take oldSize leaves)" and ?new = "tree_root sha leaves"
  have tk: "hash_sized (take oldSize leaves)" using xs by (auto simp: hash_sized_def dest: in_set_takeD)
  have sizes: "length ?old = hash_bytes" "length ?new = hash_bytes" using tree_root_size [OF H] xs tk by simp_all
  have "\<exists>path. consistencyPath sha leaves oldSize = Some (Inr path)
      \<and> verifyConsistencyPath sha oldSize (length leaves) ?old ?new path"
  proof (cases "oldSize = 0 \<or> oldSize = length leaves")
    case True
    then show ?thesis
      using sizes by (auto simp: consistencyPath_def verifyConsistencyPath_def)
  next
    case False
    then have l: "oldSize < length leaves" "0 < oldSize" using m by auto
    obtain h q where hq: "oldSize = 2 ^ h * (2 * q + 1)" using odd_part [OF l(2)] by blast
    let ?ys = "level_up sha h leaves" and ?path = "level_path sha h q leaves True"
    note f = extension_facts [OF hq l(1), of sha]
    have path: "consistencyPath sha leaves oldSize = Some (Inr ?path)"
    proof -
      have "subProof sha (length leaves) (levels_of sha leaves) oldSize 0 (length leaves) True
          = Some (level_path sha h q (take (length leaves - 0) (drop 0 leaves)) True)"
        by (rule subProof_eq [OF _ _ hq]) (use l in auto)
      then show ?thesis using False l by (simp add: consistencyPath_def)
    qed
    have up: "hash_sized ?ys" by (rule hash_sized_level_up [OF H xs])
    have sp: "hash_sized ?path"
      using audit_path_size [OF H up f(2)] hash_sized_nth [OF up f(2)] by (simp add: level_path_def)
    have "(if q = 0 then ?old # ?path else ?path) = ?ys ! (2 * q) # audit_path sha ?ys (2 * q)"
      using f(4) by (simp add: level_path_def)
    moreover have "old_fold sha (2 * q) (length ?ys - 1) (?ys ! (2 * q)) (audit_path sha ?ys (2 * q)) = ?old"
      unfolding old_fold_audit_path [OF f(2)] by (rule f(3))
    moreover have "climb sha (2 * q) (length ?ys - 1) (?ys ! (2 * q)) (audit_path sha ?ys (2 * q)) = Some ?new"
      unfolding climb_audit_path [OF f(2)] tree_root_level_up ..
    ultimately have "verifyConsistencyPath sha oldSize (length leaves) ?old ?new ?path"
      unfolding consistency_eq [OF hq l(1) sp sizes] by blast
    with path show ?thesis by blast
  qed
  then show ?thesis by (auto simp: merkleRoot_eq)
qed

text \<open>
  C18: the log cannot rewrite its past: if a consistency path verifies between the root of an older tree and
  the root of a newer one, then the older leaves are a prefix of the newer ones, or two different strings that
  were hashed by the trees and by the verification have the same digest.
\<close>

theorem consistency_sound:
  assumes H: "hash_sized_function sha" and old: "hash_sized older" and new: "hash_sized newer"
    and roots: "merkleRoot sha older = Some oldRoot" "merkleRoot sha newer = Some newRoot"
    and ok: "verifyConsistencyPath sha (length older) (length newer) oldRoot newRoot path"
  shows "older = take (length older) newer
    \<or> collision sha (tree_inputs sha older @ consistency_inputs sha (length older) (length newer) oldRoot path)
        (tree_inputs sha newer @ tree_inputs sha (take (length older) newer))"
proof -
  let ?m = "length older" and ?pre = "take (length older) newer"
  let ?A = "tree_inputs sha older @ consistency_inputs sha ?m (length newer) oldRoot path"
  let ?B = "tree_inputs sha newer @ tree_inputs sha ?pre"
  have r: "oldRoot = tree_root sha older" "newRoot = tree_root sha newer" using roots by (simp_all add: merkleRoot_eq)
  have le: "?m \<le> length newer" and sp: "hash_sized path"
    using ok by (auto simp: verifyConsistencyPath_def hash_sized_def split: if_splits)
  have spre: "hash_sized ?pre" using new by (auto simp: hash_sized_def dest: in_set_takeD)
  have "oldRoot = tree_root sha ?pre \<or> collision sha ?A ?B"
  proof (cases "?m = 0 \<or> ?m = length newer")
    case True
    then show ?thesis using ok r by (auto simp: verifyConsistencyPath_def split: if_splits)
  next
    case False
    then have l: "?m < length newer" "0 < ?m" using le by auto
    obtain h q where hq: "?m = 2 ^ h * (2 * q + 1)" using odd_part [OF l(2)] by blast
    let ?ys = "level_up sha h newer"
    note f = extension_facts [OF hq l(1), of sha]
    have sizes: "length oldRoot = hash_bytes" "length newRoot = hash_bytes"
      using tree_root_size [OF H] old new by (simp_all add: r)
    obtain seed nodes where s: "(if q = 0 then oldRoot # path else path) = seed # nodes"
      and fo: "old_fold sha (2 * q) (length ?ys - 1) seed nodes = oldRoot"
      and cl: "climb sha (2 * q) (length ?ys - 1) seed nodes = Some newRoot"
      using ok unfolding consistency_eq [OF hq l(1) sp sizes] by blast
    have sz: "length seed = hash_bytes" "hash_sized nodes" using s sp sizes by (auto split: if_splits)
    have inputs: "consistency_inputs sha ?m (length newer) oldRoot path = path_inputs sha (2 * q) (length ?ys - 1) seed nodes"
      using False s f(1) isPowerOfTwo_eq [of h q] hq by (simp add: consistency_inputs_def)
    from climb_sound [OF H hash_sized_level_up [OF H new] sz f(2)] cl
    have "seed = ?ys ! (2 * q) \<and> nodes = audit_path sha ?ys (2 * q)
      \<or> collision sha (path_inputs sha (2 * q) (length ?ys - 1) seed nodes) (tree_inputs sha ?ys)"
      by (simp add: r tree_root_level_up)
    then show ?thesis
    proof
      assume "seed = ?ys ! (2 * q) \<and> nodes = audit_path sha ?ys (2 * q)"
      then have "oldRoot = tree_root sha ?pre"
        using fo old_fold_audit_path [OF f(2)] f(3) by metis
      then show ?thesis ..
    next
      assume "collision sha (path_inputs sha (2 * q) (length ?ys - 1) seed nodes) (tree_inputs sha ?ys)"
      then have "collision sha ?A ?B"
        by (rule collision_mono) (use inputs tree_inputs_up [of sha h newer] in auto)
      then show ?thesis ..
    qed
  qed
  then show ?thesis
  proof
    assume "oldRoot = tree_root sha ?pre"
    then have "older = ?pre \<or> collision sha (tree_inputs sha older) (tree_inputs sha ?pre)"
      using le by (intro tree_root_binding [OF old spre H]) (simp_all add: r)
    then show ?thesis by (auto intro: collision_mono)
  qed simp
qed

section \<open>A small tree\<close>

definition pad_hash :: "bytes \<Rightarrow> bytes" where
  "pad_hash x = take 32 (rev x @ replicate 32 0)"

definition small_leaves :: "bytes list" where
  "small_leaves = [replicate 32 7, replicate 32 8, replicate 32 9]"

definition small_root :: bytes where
  "small_root = tree_root pad_hash small_leaves"

lemma pad_hash_sized: "hash_sized_function pad_hash"
  by (auto simp: hash_sized_function_def pad_hash_def hash_bytes_def min_def)

lemma small_facts:
  "hash_sized small_leaves" "length small_leaves = 3" "1 < length small_leaves"
  "merkleRoot pad_hash small_leaves = Some small_root"
  "merkleRoot pad_hash (take 2 small_leaves) = Some (tree_root pad_hash (take 2 small_leaves))"
  by (simp_all add: small_leaves_def hash_bytes_def small_root_def merkleRoot_eq)

theorem prefixRoot_rfc6962_witness:
  "prefixRoot pad_hash small_leaves 2 = Some (rfc_root pad_hash (take 2 small_leaves))"
  by (rule prefixRoot_rfc6962) (simp add: small_facts)

theorem inclusion_complete_witness:
  "\<exists>path root. inclusionPath pad_hash small_leaves 1 = Inr path \<and> merkleRoot pad_hash small_leaves = Some root
    \<and> verifyInclusionPath pad_hash (small_leaves ! 1) 1 (length small_leaves) path root"
  by (rule inclusion_complete [OF pad_hash_sized small_facts(1,3)])

lemma small_inclusion:
  "verifyInclusionPath pad_hash (small_leaves ! 1) 1 3 [small_leaves ! 0, small_leaves ! 2] small_root"
  by code_simp

theorem inclusion_sound_witness:
  "1 < length small_leaves \<and> (small_leaves ! 1 = small_leaves ! 1
     \<and> inclusionPath pad_hash small_leaves 1 = Inr [small_leaves ! 0, small_leaves ! 2]
    \<or> collision pad_hash (path_inputs pad_hash 1 (length small_leaves - 1) (small_leaves ! 1) [small_leaves ! 0, small_leaves ! 2])
        (tree_inputs pad_hash small_leaves))"
  by (rule inclusion_sound [OF pad_hash_sized small_facts(1,4)]) (simp only: small_facts(2) small_inclusion)

theorem consistency_complete_witness:
  "\<exists>path oldRoot newRoot. consistencyPath pad_hash small_leaves 2 = Some (Inr path)
    \<and> merkleRoot pad_hash (take 2 small_leaves) = Some oldRoot \<and> merkleRoot pad_hash small_leaves = Some newRoot
    \<and> verifyConsistencyPath pad_hash 2 (length small_leaves) oldRoot newRoot path"
  by (rule consistency_complete [OF pad_hash_sized small_facts(1)]) (simp add: small_facts)

lemma small_consistency:
  "verifyConsistencyPath pad_hash 2 3 (tree_root pad_hash (take 2 small_leaves)) small_root [small_leaves ! 2]"
  by code_simp

lemma small_older: "hash_sized (take 2 small_leaves)" "length (take 2 small_leaves) = 2"
  by (simp_all add: small_leaves_def hash_bytes_def)

theorem consistency_sound_witness:
  "take 2 small_leaves = take (length (take 2 small_leaves)) small_leaves
    \<or> collision pad_hash
        (tree_inputs pad_hash (take 2 small_leaves)
          @ consistency_inputs pad_hash (length (take 2 small_leaves)) (length small_leaves)
              (tree_root pad_hash (take 2 small_leaves)) [small_leaves ! 2])
        (tree_inputs pad_hash small_leaves @ tree_inputs pad_hash (take (length (take 2 small_leaves)) small_leaves))"
  by (rule consistency_sound [OF pad_hash_sized small_older(1) small_facts(1,5,4)])
    (simp only: small_older(2) small_facts(2) small_consistency)

end
