(* ===== verification/AuditChain.thy ===== *)
theory AuditChain
  imports CanonicalJson
begin

text \<open>
  The hash chain of the audit log: \<open>audit/chain.ts\<close>, \<open>audit/integrity.ts\<close>, the pseudonyms of
  \<open>audit/pseudonym.ts\<close> and \<open>pseudonym-rotation.ts\<close>, and the repository \<open>db/store/audit-repo.ts\<close>.
  A writer is a program that reads the head of its chain and inserts, retrying on a conflict, so
  writers of several processes interleave. SHA-256 and HMAC are arguments. Strings are free of NUL, so
  \<open>scrubNul\<close> returns its row.
\<close>

section \<open>Rows\<close>

record audit_log =
  al_id :: ident
  al_agentId :: ident
  al_userId :: ident
  al_action :: string
  al_resource :: string
  al_parameters :: "json option"
  al_result :: string
  al_reason :: "string option"
  al_event :: "string option"
  al_durationMs :: int
  al_tokensCost :: "int option"
  al_ip :: "string option"
  al_userAgent :: "string option"
  al_cacheHit :: "bool option"
  al_timestamp :: time
  al_recordedAtMs :: "int option"
  al_chainSeq :: "int option"
  al_prevHash :: "string option"
  al_hash :: "string option"
  al_hashVersion :: "int option"
  al_subjectId :: "string option"
  al_actorId :: "string option"
  al_policyVersion :: "string option"
  al_approverId :: "string option"
  al_delegationChain :: "json option"
  al_inputProvenance :: "json option"
  al_idPseudonyms :: "(string \<times> string) list option"

record hashes =
  hs_sha256 :: "string \<Rightarrow> string"
  hs_hmac :: "string \<Rightarrow> string \<Rightarrow> string"

definition current_hash_version :: int where "current_hash_version = 2"
definition checkpoint_action :: string where "checkpoint_action = ''audit.checkpoint''"
definition erasure_action :: string where "erasure_action = ''audit.erasure''"
definition max_append_attempts :: nat where "max_append_attempts = 30"

fun json_str :: "string option \<Rightarrow> json" where
  "json_str None = JNull"
| "json_str (Some s) = JStr s"

fun json_int :: "int option \<Rightarrow> json" where
  "json_int None = JNull"
| "json_int (Some n) = JNum n"

fun json_or_null :: "json option \<Rightarrow> json" where
  "json_or_null None = JNull"
| "json_or_null (Some j) = j"

definition commonFields :: "audit_log \<Rightarrow> (string \<times> json) list" where
  "commonFields row =
     [(''id'', JStr (al_id row)), (''action'', JStr (al_action row)), (''resource'', JStr (al_resource row)),
      (''parameters'', json_or_null (al_parameters row)), (''result'', JStr (al_result row)),
      (''reason'', json_str (al_reason row)), (''durationMs'', JNum (al_durationMs row)),
      (''tokensCost'', json_int (al_tokensCost row)), (''ip'', json_str (al_ip row)),
      (''userAgent'', json_str (al_userAgent row)),
      (''cacheHit'', JBool (al_cacheHit row = Some True)), (''timestamp'', JNum (al_timestamp row))]"

definition hashedFieldsV1 :: "audit_log \<Rightarrow> (string \<times> json) list" where
  "hashedFieldsV1 row = commonFields row @ [(''agentId'', JStr (al_agentId row)), (''userId'', JStr (al_userId row))]"

definition hashedFieldsV2 :: "audit_log \<Rightarrow> (string \<times> json) list" where
  "hashedFieldsV2 row = commonFields row @
     [(''policyVersion'', json_str (al_policyVersion row)),
      (''delegationChain'', json_or_null (al_delegationChain row)),
      (''inputProvenance'', json_or_null (al_inputProvenance row)),
      (''idPseudonyms'', case al_idPseudonyms row of None \<Rightarrow> JNull
                         | Some ps \<Rightarrow> JObj (map (\<lambda>kv. (fst kv, JStr (snd kv))) ps))]"

definition versionOf :: "audit_log \<Rightarrow> int" where
  "versionOf row = (case al_hashVersion row of None \<Rightarrow> 1 | Some v \<Rightarrow> v)"

definition chain_value :: "audit_log \<Rightarrow> int \<Rightarrow> string option \<Rightarrow> json" where
  "chain_value row chainSeq prevHash =
     JObj [(''v'', JNum (versionOf row)), (''seq'', JNum chainSeq), (''prev'', json_str prevHash),
           (''row'', JObj (if 2 \<le> versionOf row then hashedFieldsV2 row else hashedFieldsV1 row))]"

definition chainPayload :: "audit_log \<Rightarrow> int \<Rightarrow> string option \<Rightarrow> string" where
  "chainPayload row chainSeq prevHash = canonicalJson (chain_value row chainSeq prevHash)"

definition keyed :: "hashes \<Rightarrow> string option \<Rightarrow> string \<Rightarrow> string" where
  "keyed H hmacKey payload =
     (case hmacKey of None \<Rightarrow> hs_sha256 H payload
      | Some k \<Rightarrow> if k = [] then hs_sha256 H payload else hs_hmac H k payload)"

definition computeRowHash :: "hashes \<Rightarrow> audit_log \<Rightarrow> int \<Rightarrow> string option \<Rightarrow> string option \<Rightarrow> string" where
  "computeRowHash H row chainSeq prevHash hmacKey = keyed H hmacKey (chainPayload row chainSeq prevHash)"

text \<open>The stamp of the process, strictly increasing: the last stamp, the clock, the floor.\<close>

definition nextRecordedAtMs :: "int \<Rightarrow> time \<Rightarrow> int \<Rightarrow> int" where
  "nextRecordedAtMs lastRecordedMs now floorMs = max now (max (lastRecordedMs + 1) (floorMs + 1))"

definition eventForAction :: "string \<Rightarrow> string option" where
  "eventForAction action =
     (if action \<in> {''agent.cascade.revoked'', ''approval.request'', ''approval.approve'', ''approval.deny'',
                    ''vault.read'', ''audit.checkpoint'', ''audit.write_failed'', ''audit.erasure''}
      then Some action else None)"

section \<open>Pseudonyms\<close>

definition erased_id_prefix :: string where "erased_id_prefix = ''[deleted-''"
definition period_key :: string where "period_key = ''period''"

text \<open>The \<open>PSEUDONYM_FIELDS\<close> with the value a row has for each.\<close>

definition pseudonym_fields :: "audit_log \<Rightarrow> (string \<times> string option) list" where
  "pseudonym_fields row =
     [(''userId'', Some (al_userId row)), (''agentId'', Some (al_agentId row)), (''subjectId'', al_subjectId row),
      (''actorId'', al_actorId row), (''approverId'', al_approverId row)]"

definition isErasedId :: "string option \<Rightarrow> bool" where
  "isErasedId v = (case v of None \<Rightarrow> False | Some s \<Rightarrow> starts_with erased_id_prefix s)"

definition present_id :: "string option \<Rightarrow> bool" where
  "present_id v \<longleftrightarrow> v \<noteq> None \<and> v \<noteq> Some []"

definition pseudonymize :: "hashes \<Rightarrow> string \<Rightarrow> string \<Rightarrow> string" where
  "pseudonymize H key i = hs_hmac H key (''theauth.audit.pseudonym.v1:'' @ i)"

definition rotatingPseudonym :: "hashes \<Rightarrow> string \<Rightarrow> int \<Rightarrow> string \<Rightarrow> string" where
  "rotatingPseudonym H secret period i =
     hs_hmac H secret (''theauth.audit.pseudonym.v1:p'' @ int_str period @ '':'' @ i)"

definition pseudonyms_by :: "(string \<Rightarrow> string) \<Rightarrow> audit_log \<Rightarrow> (string \<times> string) list" where
  "pseudonyms_by f row = [(k, f (the v)). (k, v) \<leftarrow> pseudonym_fields row, present_id v]"

definition computePseudonyms :: "hashes \<Rightarrow> audit_log \<Rightarrow> string \<Rightarrow> (string \<times> string) list" where
  "computePseudonyms H row key = pseudonyms_by (pseudonymize H key) row"

definition computeRotatingPseudonyms :: "hashes \<Rightarrow> audit_log \<Rightarrow> string \<Rightarrow> int \<Rightarrow> (string \<times> string) list" where
  "computeRotatingPseudonyms H row secret period =
     (period_key, int_str period) # pseudonyms_by (rotatingPseudonym H secret period) row"

definition stored_of :: "audit_log \<Rightarrow> (string \<times> string) list" where
  "stored_of row = (case al_idPseudonyms row of None \<Rightarrow> [] | Some ps \<Rightarrow> ps)"

definition mismatches_by :: "(string \<Rightarrow> string) \<Rightarrow> audit_log \<Rightarrow> string list" where
  "mismatches_by f row =
     [k. (k, v) \<leftarrow> pseudonym_fields row, present_id v \<and> \<not> isErasedId v \<and> map_of (stored_of row) k \<noteq> Some (f (the v))]"

definition pseudonymMismatches :: "hashes \<Rightarrow> audit_log \<Rightarrow> string \<Rightarrow> string list" where
  "pseudonymMismatches H row key = mismatches_by (pseudonymize H key) row"

definition rotatingMismatches :: "hashes \<Rightarrow> audit_log \<Rightarrow> string \<Rightarrow> int \<Rightarrow> string list" where
  "rotatingMismatches H row secret period = mismatches_by (rotatingPseudonym H secret period) row"

text \<open>\<open>/^-?\d+$/\<close> and \<open>Number\<close>.\<close>

definition parse_period :: "string \<Rightarrow> int option" where
  "parse_period s =
     (case s of
        [] \<Rightarrow> None
      | c # ds \<Rightarrow>
          if c = CHR ''-'' then (if ds \<noteq> [] \<and> list_all is_digit ds then Some (- int (digits_val ds)) else None)
          else if list_all is_digit s then Some (int (digits_val s)) else None)"

definition storedPeriod :: "audit_log \<Rightarrow> int option" where
  "storedPeriod row = (case map_of (stored_of row) period_key of None \<Rightarrow> None | Some raw \<Rightarrow> parse_period raw)"

section \<open>Signed records\<close>

definition erasure_tag :: string where "erasure_tag = ''theauth.audit.erasure.v1:''"
definition anchor_tag :: string where "anchor_tag = ''theauth.audit.anchor.v1:''"

datatype erasure_kind = Anonymized | Deleted

fun erasure_kind_name :: "erasure_kind \<Rightarrow> string" where
  "erasure_kind_name Anonymized = ''anonymized''"
| "erasure_kind_name Deleted = ''deleted''"

record erasure_entry =
  ee_id :: ident
  ee_agentId :: ident
  ee_seq :: int
  ee_hash :: string
  ee_prevHash :: "string option"
  ee_hashVersion :: int
  ee_reason :: erasure_kind
  ee_erasedHash :: "string option"
  ee_mac :: string

definition erasurePayload :: "erasure_entry \<Rightarrow> string" where
  "erasurePayload e = erasure_tag @ canonicalJson (JObj
     [(''id'', JStr (ee_id e)), (''agentId'', JStr (ee_agentId e)), (''seq'', JNum (ee_seq e)),
      (''hash'', JStr (ee_hash e)), (''prevHash'', json_str (ee_prevHash e)),
      (''hashVersion'', JNum (ee_hashVersion e)), (''reason'', JStr (erasure_kind_name (ee_reason e))),
      (''erasedHash'', json_str (ee_erasedHash e))])"

definition signErasureEntry :: "hashes \<Rightarrow> string \<Rightarrow> erasure_entry \<Rightarrow> erasure_entry" where
  "signErasureEntry H key e = e\<lparr>ee_mac := hs_hmac H key (erasurePayload e)\<rparr>"

definition erasureEntryValid :: "hashes \<Rightarrow> string \<Rightarrow> erasure_entry \<Rightarrow> bool" where
  "erasureEntryValid H key e \<longleftrightarrow> hs_hmac H key (erasurePayload e) = ee_mac e"

fun as_str :: "json option \<Rightarrow> string option" where
  "as_str (Some (JStr s)) = Some s"
| "as_str _ = None"

fun as_num :: "json option \<Rightarrow> int option" where
  "as_num (Some (JNum n)) = Some n"
| "as_num _ = None"

fun str_or_null :: "json option \<Rightarrow> string option option" where
  "str_or_null (Some JNull) = Some None"
| "str_or_null (Some (JStr s)) = Some (Some s)"
| "str_or_null _ = None"

definition parseErasureEntry :: "json \<Rightarrow> erasure_entry option" where
  "parseErasureEntry item =
     (case item of
        JObj kvs \<Rightarrow>
          let e = map_of kvs in
          (case (as_str (e ''id''), as_str (e ''agentId''), as_str (e ''hash''), as_str (e ''mac'')) of
             (Some i, Some agentId, Some hash, Some mac) \<Rightarrow>
               (case (as_num (e ''seq''), as_num (e ''hashVersion''), str_or_null (e ''prevHash''),
                      str_or_null (e ''erasedHash''), as_str (e ''reason'')) of
                  (Some seq, Some v, Some prevHash, Some erasedHash, Some reason) \<Rightarrow>
                    if reason \<noteq> ''anonymized'' \<and> reason \<noteq> ''deleted'' then None
                    else Some \<lparr>ee_id = i, ee_agentId = agentId, ee_seq = seq, ee_hash = hash,
                           ee_prevHash = prevHash, ee_hashVersion = v,
                           ee_reason = (if reason = ''deleted'' then Deleted else Anonymized),
                           ee_erasedHash = erasedHash, ee_mac = mac\<rparr>
                | _ \<Rightarrow> None)
           | _ \<Rightarrow> None)
      | _ \<Rightarrow> None)"

datatype anchor_fields =
    Retention ident int string
  | Anchor ident int ident string

definition anchor_json :: "anchor_fields \<Rightarrow> json" where
  "anchor_json f =
     (case f of
        Retention agentId throughSeq lastHash \<Rightarrow>
          JObj [(''kind'', JStr ''retention''), (''agentId'', JStr agentId), (''throughSeq'', JNum throughSeq),
                (''lastHash'', JStr lastHash)]
      | Anchor agentId firstSeq firstId firstHash \<Rightarrow>
          JObj [(''kind'', JStr ''anchor''), (''agentId'', JStr agentId), (''firstSeq'', JNum firstSeq),
                (''firstId'', JStr firstId), (''firstHash'', JStr firstHash)])"

definition signAnchor :: "hashes \<Rightarrow> string \<Rightarrow> anchor_fields \<Rightarrow> string" where
  "signAnchor H key f = hs_hmac H key (anchor_tag @ canonicalJson (anchor_json f))"

definition anchorMacValid :: "hashes \<Rightarrow> string \<Rightarrow> anchor_fields \<Rightarrow> json option \<Rightarrow> bool" where
  "anchorMacValid H key f mac = (case as_str mac of None \<Rightarrow> False | Some m \<Rightarrow> signAnchor H key f = m)"

section \<open>Writers\<close>

record audit_head =
  ah_seq :: int
  ah_hash :: string
  ah_recordedAtMs :: int

text \<open>The row with the greatest sequence number of an agent.\<close>

definition later :: "audit_log option \<Rightarrow> audit_log \<Rightarrow> audit_log option" where
  "later m r = (case m of None \<Rightarrow> Some r
     | Some x \<Rightarrow> if the (al_chainSeq x) < the (al_chainSeq r) then Some r else Some x)"

definition chained_of :: "ident \<Rightarrow> audit_log list \<Rightarrow> audit_log list" where
  "chained_of agentId rows = filter (\<lambda>r. al_agentId r = agentId \<and> al_chainSeq r \<noteq> None) rows"

definition readHead :: "ident \<Rightarrow> audit_log list \<Rightarrow> audit_head option" where
  "readHead agentId rows =
     (case foldl later None (chained_of agentId rows) of
        None \<Rightarrow> None
      | Some r \<Rightarrow>
          (case (al_chainSeq r, al_hash r) of
             (Some seq, Some hash) \<Rightarrow>
               Some \<lparr>ah_seq = seq, ah_hash = hash,
                     ah_recordedAtMs = (case al_recordedAtMs r of None \<Rightarrow> 0 | Some t \<Rightarrow> t)\<rparr>
           | _ \<Rightarrow> None))"

text \<open>One insert under the unique index on agent and sequence number; \<open>None\<close> is a conflict.\<close>

definition appendAt :: "audit_log \<Rightarrow> audit_log list \<Rightarrow> audit_log list option" where
  "appendAt row rows =
     (if \<exists>r\<in>set rows. al_agentId r = al_agentId row \<and> al_chainSeq r \<noteq> None \<and> al_chainSeq r = al_chainSeq row
      then None else Some (rows @ [row]))"

text \<open>
  What \<open>insertAuditRow\<close> and \<open>appendChained\<close> make of a row before it is linked. The pseudonyms are those
  of the stable key, or of a period secret where rotation is configured.
\<close>

datatype pseudonym_scheme = Stable string | Rotating string int

definition pseudonyms_under :: "hashes \<Rightarrow> pseudonym_scheme \<Rightarrow> audit_log \<Rightarrow> (string \<times> string) list" where
  "pseudonyms_under H scheme row =
     (case scheme of Stable key \<Rightarrow> computePseudonyms H row key
      | Rotating secret period \<Rightarrow> computeRotatingPseudonyms H row secret period)"

definition stamp_row :: "hashes \<Rightarrow> pseudonym_scheme \<Rightarrow> audit_log \<Rightarrow> audit_log" where
  "stamp_row H scheme input =
     (let values = input\<lparr>al_event := (case al_event input of None \<Rightarrow> eventForAction (al_action input) | e \<Rightarrow> e)\<rparr>;
          stamped = values\<lparr>al_hashVersion := Some current_hash_version,
                           al_timestamp := al_timestamp values div 1000 * 1000\<rparr>
      in stamped\<lparr>al_idPseudonyms := Some (pseudonyms_under H scheme stamped)\<rparr>)"

datatype append_pc =
    AtHead nat
  | AtInsert nat "audit_head option"
  | Appended
  | GaveUp

record append_writer =
  aw_row :: audit_log
  aw_pc :: append_pc

record audit_db =
  ad_rows :: "audit_log list"
  ad_last :: int

definition link_row :: "hashes \<Rightarrow> string option \<Rightarrow> audit_log \<Rightarrow> audit_head option \<Rightarrow> int \<Rightarrow> audit_log" where
  "link_row H hmacKey stamped head recordedAt =
     (let chainSeq = (case head of None \<Rightarrow> 1 | Some h \<Rightarrow> ah_seq h + 1);
          prevHash = map_option ah_hash head
      in stamped\<lparr>al_chainSeq := Some chainSeq, al_prevHash := prevHash,
                 al_hash := Some (computeRowHash H stamped chainSeq prevHash hmacKey),
                 al_recordedAtMs := Some recordedAt\<rparr>)"

fun append_step ::
  "hashes \<Rightarrow> string option \<Rightarrow> time \<Rightarrow> audit_log \<Rightarrow> append_pc \<Rightarrow> audit_db \<Rightarrow> append_pc \<times> audit_db" where
  "append_step H hmacKey now stamped (AtHead attempt) db =
     (if attempt < max_append_attempts
      then (AtInsert attempt (readHead (al_agentId stamped) (ad_rows db)), db) else (GaveUp, db))"
| "append_step H hmacKey now stamped (AtInsert attempt head) db =
     (let recordedAt = nextRecordedAtMs (ad_last db) now (case head of None \<Rightarrow> 0 | Some h \<Rightarrow> ah_recordedAtMs h);
          db' = db\<lparr>ad_last := recordedAt\<rparr>
      in case appendAt (link_row H hmacKey stamped head recordedAt) (ad_rows db) of
           None \<Rightarrow> (AtHead (Suc attempt), db')
         | Some rows \<Rightarrow> (Appended, db'\<lparr>ad_rows := rows\<rparr>))"
| "append_step H hmacKey now stamped Appended db = (Appended, db)"
| "append_step H hmacKey now stamped GaveUp db = (GaveUp, db)"

text \<open>\<open>insertAuditRow\<close> without a chain.\<close>

definition insertUnchained :: "time \<Rightarrow> audit_log \<Rightarrow> audit_db \<Rightarrow> audit_db" where
  "insertUnchained now input db =
     (let recordedAt = (case al_recordedAtMs input of Some t \<Rightarrow> t | None \<Rightarrow> nextRecordedAtMs (ad_last db) now 0)
      in db\<lparr>ad_rows := ad_rows db @
              [input\<lparr>al_event := (case al_event input of None \<Rightarrow> eventForAction (al_action input) | e \<Rightarrow> e),
                     al_recordedAtMs := Some recordedAt\<rparr>],
            ad_last := (case al_recordedAtMs input of Some t \<Rightarrow> ad_last db | None \<Rightarrow> recordedAt)\<rparr>)"

section \<open>Interleaved writers\<close>

text \<open>Any number of writers, each with a row that was stamped on arrival, in any interleaving.\<close>

record audit_world =
  wd_db :: audit_db
  wd_writers :: "append_writer list"

inductive audit_step ::
  "hashes \<Rightarrow> string option \<Rightarrow> pseudonym_scheme set \<Rightarrow> audit_world \<Rightarrow> audit_world \<Rightarrow> bool"
  for H :: hashes and hmacKey :: "string option" and schemes :: "pseudonym_scheme set" where
  aud_arrive:
  "scheme \<in> schemes \<Longrightarrow>
   audit_step H hmacKey schemes s
     (s\<lparr>wd_writers := wd_writers s @ [\<lparr>aw_row = stamp_row H scheme input, aw_pc = AtHead 0\<rparr>]\<rparr>)"
| aud_run:
  "j < length (wd_writers s) \<Longrightarrow> wd_writers s ! j = w \<Longrightarrow>
   append_step H hmacKey now (aw_row w) (aw_pc w) (wd_db s) = (pc, db) \<Longrightarrow>
   audit_step H hmacKey schemes s (s\<lparr>wd_db := db, wd_writers := (wd_writers s)[j := w\<lparr>aw_pc := pc\<rparr>]\<rparr>)"

definition audit_start :: "audit_world \<Rightarrow> bool" where
  "audit_start s \<longleftrightarrow> ad_rows (wd_db s) = [] \<and> wd_writers s = []"

text \<open>A row is linked after the row before it.\<close>

definition link_ok :: "hashes \<Rightarrow> string option \<Rightarrow> int \<Rightarrow> audit_log option \<Rightarrow> audit_log \<Rightarrow> bool" where
  "link_ok H hmacKey seq before r \<longleftrightarrow>
     al_chainSeq r = Some seq \<and> al_hashVersion r = Some current_hash_version
     \<and> al_prevHash r = (case before of None \<Rightarrow> None | Some b \<Rightarrow> al_hash b)
     \<and> al_hash r = Some (computeRowHash H r seq (al_prevHash r) hmacKey)
     \<and> (\<exists>t. al_recordedAtMs r = Some t \<and> 0 < t
          \<and> (case before of None \<Rightarrow> True | Some b \<Rightarrow> the (al_recordedAtMs b) < t))"

definition linked :: "hashes \<Rightarrow> string option \<Rightarrow> audit_log list \<Rightarrow> bool" where
  "linked H hmacKey rs \<longleftrightarrow>
     (\<forall>i<length rs. link_ok H hmacKey (int i + 1) (if i = 0 then None else Some (rs ! (i - 1))) (rs ! i))"

lemma linked_Nil [simp]: "linked H k []"
  by (simp add: linked_def)

lemma linked_snoc:
  "linked H k (rs @ [r]) \<longleftrightarrow>
   linked H k rs \<and> link_ok H k (int (length rs) + 1) (if rs = [] then None else Some (last rs)) r"
  by (auto simp: linked_def nth_append less_Suc_eq last_conv_nth)

lemma linked_single: "linked H k [r] \<longleftrightarrow> link_ok H k 1 None r"
  by (simp add: linked_def)

lemma linked_seq: "linked H k rs \<Longrightarrow> i < length rs \<Longrightarrow> al_chainSeq (rs ! i) = Some (int i + 1)"
  by (simp add: linked_def link_ok_def)

definition head_of :: "audit_log \<Rightarrow> audit_head" where
  "head_of r = \<lparr>ah_seq = the (al_chainSeq r), ah_hash = the (al_hash r), ah_recordedAtMs = the (al_recordedAtMs r)\<rparr>"

lemma foldl_later_linked:
  "linked H k rs \<Longrightarrow> foldl later None rs = (if rs = [] then None else Some (last rs))"
proof (induction rs rule: rev_induct)
  case (snoc r rs)
  then have l: "linked H k rs" "al_chainSeq r = Some (int (length rs) + 1)"
    by (simp_all add: linked_snoc link_ok_def)
  show ?case
  proof (cases rs rule: rev_cases)
    case (snoc rs' x)
    then have "al_chainSeq x = Some (int (length rs))"
      using linked_seq [OF l(1), of "length rs'"] by simp
    then show ?thesis using snoc.IH [OF l(1)] snoc l(2) by (simp add: later_def)
  qed (simp add: later_def)
qed simp

lemma linked_hash: "linked H k rs \<Longrightarrow> r \<in> set rs \<Longrightarrow> \<exists>h t. al_hash r = Some h \<and> al_recordedAtMs r = Some t \<and> 0 < t"
  by (auto simp: linked_def link_ok_def in_set_conv_nth)

lemma readHead_linked:
  assumes "linked H k (chained_of a rows)"
  shows "readHead a rows = (if chained_of a rows = [] then None else Some (head_of (last (chained_of a rows))))"
proof (cases "chained_of a rows = []")
  case False
  then have m: "last (chained_of a rows) \<in> set (chained_of a rows)" by simp
  obtain h t where "al_hash (last (chained_of a rows)) = Some h" "al_recordedAtMs (last (chained_of a rows)) = Some t"
    using linked_hash [OF assms m] by blast
  moreover obtain q where "al_chainSeq (last (chained_of a rows)) = Some q"
    using m by (auto simp: chained_of_def)
  ultimately show ?thesis
    using False foldl_later_linked [OF assms] by (simp add: readHead_def head_of_def)
qed (simp add: readHead_def)

text \<open>What a writer remembers of the head: that of some earlier state of its chain.\<close>

definition head_known :: "audit_log list \<Rightarrow> audit_head option \<Rightarrow> bool" where
  "head_known rs head \<longleftrightarrow>
     (case head of None \<Rightarrow> True | Some h \<Rightarrow> \<exists>r\<in>set rs. h = head_of r)"

definition world_inv :: "hashes \<Rightarrow> string option \<Rightarrow> pseudonym_scheme set \<Rightarrow> audit_world \<Rightarrow> bool" where
  "world_inv H hmacKey schemes s \<longleftrightarrow>
     (\<forall>a. linked H hmacKey (chained_of a (ad_rows (wd_db s))))
     \<and> (\<forall>r\<in>set (ad_rows (wd_db s)). \<exists>scheme\<in>schemes. al_idPseudonyms r = Some (pseudonyms_under H scheme r))
     \<and> (\<forall>w\<in>set (wd_writers s). al_hashVersion (aw_row w) = Some current_hash_version
          \<and> (\<exists>scheme\<in>schemes. al_idPseudonyms (aw_row w) = Some (pseudonyms_under H scheme (aw_row w)))
          \<and> (\<forall>n head. aw_pc w = AtInsert n head \<longrightarrow>
               head_known (chained_of (al_agentId (aw_row w)) (ad_rows (wd_db s))) head))"

lemma pseudonyms_by_cong:
  "pseudonym_fields r = pseudonym_fields r' \<Longrightarrow> pseudonyms_under H scheme r = pseudonyms_under H scheme r'"
  by (cases scheme)
    (simp_all add: pseudonyms_under_def computePseudonyms_def computeRotatingPseudonyms_def pseudonyms_by_def)

lemma stamp_row_facts:
  "al_hashVersion (stamp_row H scheme input) = Some current_hash_version"
  "al_idPseudonyms (stamp_row H scheme input) = Some (pseudonyms_under H scheme (stamp_row H scheme input))"
  by (simp_all add: stamp_row_def Let_def, rule pseudonyms_by_cong, simp add: pseudonym_fields_def)

lemma link_row_facts:
  "al_agentId (link_row H k r head t) = al_agentId r"
  "al_hashVersion (link_row H k r head t) = al_hashVersion r"
  "al_idPseudonyms (link_row H k r head t) = al_idPseudonyms r"
  "pseudonym_fields (link_row H k r head t) = pseudonym_fields r"
  "al_chainSeq (link_row H k r head t) = Some (case head of None \<Rightarrow> 1 | Some h \<Rightarrow> ah_seq h + 1)"
  "al_prevHash (link_row H k r head t) = map_option ah_hash head"
  "al_recordedAtMs (link_row H k r head t) = Some t"
  "al_hash (link_row H k r head t) = Some (computeRowHash H (link_row H k r head t)
     (case head of None \<Rightarrow> 1 | Some h \<Rightarrow> ah_seq h + 1) (map_option ah_hash head) k)"
  by (simp_all add: link_row_def Let_def pseudonym_fields_def computeRowHash_def chainPayload_def chain_value_def
      versionOf_def hashedFieldsV1_def hashedFieldsV2_def commonFields_def)

text \<open>An insert that does not conflict extends the chain of its agent.\<close>

lemma append_linked:
  assumes l: "linked H k (chained_of (al_agentId r) rows)" and known: "head_known (chained_of (al_agentId r) rows) head"
    and v: "al_hashVersion r = Some current_hash_version"
    and ins: "appendAt (link_row H k r head t) rows = Some rows'"
    and t: "t = nextRecordedAtMs lastMs now (case head of None \<Rightarrow> 0 | Some h \<Rightarrow> ah_recordedAtMs h)"
  shows "rows' = rows @ [link_row H k r head t]"
    and "linked H k (chained_of (al_agentId r) rows @ [link_row H k r head t])"
proof -
  let ?new = "link_row H k r head t" and ?rs = "chained_of (al_agentId r) rows"
  show rows': "rows' = rows @ [?new]" using ins by (auto simp: appendAt_def split: if_splits)
  have free: "al_chainSeq x \<noteq> al_chainSeq ?new" if "x \<in> set ?rs" for x
    using ins that by (auto simp: appendAt_def chained_of_def link_row_facts split: if_splits)
  have pos: "0 < t" and above: "head = Some h \<Longrightarrow> ah_recordedAtMs h < t" for h
  proof -
    have "ah_recordedAtMs h < t" if "head = Some h" for h
      using that t by (simp add: nextRecordedAtMs_def)
    then show "head = Some h \<Longrightarrow> ah_recordedAtMs h < t" by blast
    show "0 < t"
    proof (cases head)
      case None
      then show ?thesis using t by (simp add: nextRecordedAtMs_def)
    next
      case (Some h)
      then obtain x where "x \<in> set ?rs" "h = head_of x" using known by (auto simp: head_known_def)
      then have "0 < ah_recordedAtMs h" using linked_hash [OF l] by (force simp: head_of_def)
      then show ?thesis using t Some by (simp add: nextRecordedAtMs_def)
    qed
  qed
  show "linked H k (?rs @ [?new])"
  proof (cases head)
    case None
    have "?rs = []"
    proof (rule ccontr)
      assume "?rs \<noteq> []"
      then have "al_chainSeq (?rs ! 0) = Some 1" "?rs ! 0 \<in> set ?rs" using linked_seq [OF l, of 0] by simp_all
      with free None show False by (metis link_row_facts(5) option.case(1))
    qed
    then show ?thesis
      using None v pos link_row_facts(8) [of H k r None t]
      by (simp add: linked_single link_ok_def link_row_facts)
  next
    case (Some h)
    then obtain x where x: "x \<in> set ?rs" "h = head_of x" using known by (auto simp: head_known_def)
    then obtain i where i: "i < length ?rs" "?rs ! i = x" by (auto simp: in_set_conv_nth)
    have seq: "ah_seq h = int i + 1" using linked_seq [OF l i(1)] x(2) i(2) by (simp add: head_of_def)
    have "Suc i = length ?rs"
    proof (rule ccontr)
      assume "Suc i \<noteq> length ?rs"
      then have n: "Suc i < length ?rs" using i by simp
      then have "al_chainSeq (?rs ! Suc i) = al_chainSeq ?new"
        using linked_seq [OF l n] seq Some by (simp add: link_row_facts)
      with free n show False by (metis nth_mem)
    qed
    then have len: "int (length ?rs) = int i + 1" and ne: "?rs \<noteq> []" and "length ?rs - 1 = i"
      using i by auto
    then have last: "last ?rs = x" using i(2) by (simp add: last_conv_nth)
    obtain hx where hx: "al_hash x = Some hx" using linked_hash [OF l x(1)] by blast
    show ?thesis
      using l v pos above [OF Some] Some seq len last ne hx x(2) link_row_facts(8) [of H k r head t]
      by (simp add: linked_snoc link_ok_def link_row_facts head_of_def)
  qed
qed

lemma chained_of_append: "chained_of a (rows @ [r]) = chained_of a rows @ (if al_agentId r = a \<and> al_chainSeq r \<noteq> None then [r] else [])"
  by (simp add: chained_of_def)

lemma head_known_mono: "head_known rs head \<Longrightarrow> set rs \<subseteq> set rs' \<Longrightarrow> head_known rs' head"
  by (auto simp: head_known_def split: option.splits)

lemma world_inv_run:
  assumes inv: "world_inv H k schemes s" and w: "w \<in> set (wd_writers s)"
    and step: "append_step H k now (aw_row w) (aw_pc w) (wd_db s) = (pc, db)"
  shows "world_inv H k schemes (s\<lparr>wd_db := db, wd_writers := (wd_writers s)[j := w\<lparr>aw_pc := pc\<rparr>]\<rparr>)"
proof -
  let ?r = "aw_row w" and ?rows = "ad_rows (wd_db s)" and ?rows' = "ad_rows db"
  have linked: "linked H k (chained_of a ?rows)" for a using inv by (simp add: world_inv_def)
  have ps: "\<exists>scheme\<in>schemes. al_idPseudonyms x = Some (pseudonyms_under H scheme x)" if "x \<in> set ?rows" for x
    using inv that unfolding world_inv_def by blast
  have wfacts: "al_hashVersion (aw_row x) = Some current_hash_version"
    "\<exists>scheme\<in>schemes. al_idPseudonyms (aw_row x) = Some (pseudonyms_under H scheme (aw_row x))"
    "\<And>n head. aw_pc x = AtInsert n head \<Longrightarrow> head_known (chained_of (al_agentId (aw_row x)) ?rows) head"
    if "x \<in> set (wd_writers s)" for x
    using inv that unfolding world_inv_def by blast+
  have goal: "(\<forall>a. linked H k (chained_of a ?rows')) \<and> (\<forall>a. set (chained_of a ?rows) \<subseteq> set (chained_of a ?rows'))
      \<and> (\<forall>r\<in>set ?rows'. \<exists>scheme\<in>schemes. al_idPseudonyms r = Some (pseudonyms_under H scheme r))
      \<and> (\<forall>n head. pc = AtInsert n head \<longrightarrow> head_known (chained_of (al_agentId ?r) ?rows') head)"
  proof (cases "aw_pc w")
    case (AtHead n)
    have "head_known (chained_of (al_agentId ?r) ?rows) (readHead (al_agentId ?r) ?rows)"
      by (auto simp: readHead_linked [OF linked] head_known_def)
    then show ?thesis using step linked ps by (auto simp: AtHead split: if_splits)
  next
    case (AtInsert n head)
    let ?t = "nextRecordedAtMs (ad_last (wd_db s)) now (case head of None \<Rightarrow> 0 | Some h \<Rightarrow> ah_recordedAtMs h)"
    show ?thesis
    proof (cases "appendAt (link_row H k ?r head ?t) ?rows")
      case None
      then show ?thesis using step linked ps by (auto simp: AtInsert Let_def)
    next
      case (Some rows')
      let ?new = "link_row H k ?r head ?t"
      have eq: "?rows' = rows'" "pc = Appended" using step Some by (auto simp: AtInsert Let_def)
      note app = append_linked [OF linked wfacts(3) [OF w AtInsert] wfacts(1) [OF w] Some refl]
      have "linked H k (chained_of a ?rows')" for a
        using linked [of a] app(2) by (auto simp: eq(1) app(1) chained_of_append link_row_facts)
      moreover have "\<exists>scheme\<in>schemes. al_idPseudonyms ?new = Some (pseudonyms_under H scheme ?new)"
        using wfacts(2) [OF w] pseudonyms_by_cong [of ?new ?r] by (simp add: link_row_facts)
      ultimately show ?thesis using ps by (auto simp: eq app(1) chained_of_append)
    qed
  next
    case Appended
    then show ?thesis using step linked ps by auto
  next
    case GaveUp
    then show ?thesis using step linked ps by auto
  qed
  have sub: "set ((wd_writers s)[j := w\<lparr>aw_pc := pc\<rparr>]) \<subseteq> insert (w\<lparr>aw_pc := pc\<rparr>) (set (wd_writers s))"
    by (rule set_update_subset_insert)
  have "al_hashVersion (aw_row x) = Some current_hash_version
      \<and> (\<exists>scheme\<in>schemes. al_idPseudonyms (aw_row x) = Some (pseudonyms_under H scheme (aw_row x)))
      \<and> (\<forall>n head. aw_pc x = AtInsert n head \<longrightarrow> head_known (chained_of (al_agentId (aw_row x)) ?rows') head)"
    if x: "x \<in> insert (w\<lparr>aw_pc := pc\<rparr>) (set (wd_writers s))" for x
  proof (cases "x = w\<lparr>aw_pc := pc\<rparr>")
    case True
    then show ?thesis using wfacts(1,2) [OF w] goal by simp
  next
    case False
    then have "x \<in> set (wd_writers s)" using x by simp
    then show ?thesis using wfacts [of x] goal head_known_mono by blast
  qed
  with goal sub show ?thesis unfolding world_inv_def by auto
qed

lemma world_inv_step:
  assumes inv: "world_inv H k schemes s" and step: "audit_step H k schemes s t"
  shows "world_inv H k schemes t"
  using step
proof cases
  case (aud_arrive scheme input)
  then show ?thesis using inv by (auto simp: world_inv_def stamp_row_facts)
next
  case (aud_run j w now pc db)
  then show ?thesis using world_inv_run [OF inv] nth_mem by blast
qed

lemma world_inv_start: "audit_start s \<Longrightarrow> world_inv H k schemes s"
  by (simp add: audit_start_def world_inv_def chained_of_def)

interpretation audit: machine audit_start "audit_step H k schemes" "world_inv H k schemes"
  by unfold_locales (fact world_inv_start, fact world_inv_step)

text \<open>
  C9: writers never fork or break a chain. Whatever processes append and however their reads and inserts
  interleave, the chained rows of every agent are numbered one, two, three and so on, each carries the hash
  of the row before it and the hash of its own content, and their stamps increase.
\<close>

theorem chains_stay_linked:
  "reaches audit_start (audit_step H hmacKey schemes) s \<Longrightarrow> linked H hmacKey (chained_of agentId (ad_rows (wd_db s)))"
  using audit.inv_reachable [of H hmacKey schemes s] by (simp add: world_inv_def)

section \<open>The hash covers the row\<close>

text \<open>Rows whose hashed content is the same: version, fields, and JSON values up to key order.\<close>

definition same_content :: "audit_log \<Rightarrow> audit_log \<Rightarrow> bool" where
  "same_content r r' \<longleftrightarrow>
     versionOf r = versionOf r' \<and> al_id r = al_id r' \<and> al_action r = al_action r' \<and> al_resource r = al_resource r'
     \<and> sort_keys (json_or_null (al_parameters r)) = sort_keys (json_or_null (al_parameters r'))
     \<and> al_result r = al_result r' \<and> al_reason r = al_reason r' \<and> al_durationMs r = al_durationMs r'
     \<and> al_tokensCost r = al_tokensCost r' \<and> al_ip r = al_ip r' \<and> al_userAgent r = al_userAgent r'
     \<and> (al_cacheHit r = Some True \<longleftrightarrow> al_cacheHit r' = Some True) \<and> al_timestamp r = al_timestamp r'
     \<and> (if 2 \<le> versionOf r
        then al_policyVersion r = al_policyVersion r'
          \<and> sort_keys (json_or_null (al_delegationChain r)) = sort_keys (json_or_null (al_delegationChain r'))
          \<and> sort_keys (json_or_null (al_inputProvenance r)) = sort_keys (json_or_null (al_inputProvenance r'))
        else al_agentId r = al_agentId r' \<and> al_userId r = al_userId r')"

lemma json_str_inj [simp]: "json_str a = json_str b \<longleftrightarrow> a = b"
  by (cases a; cases b) auto

lemma json_int_inj [simp]: "json_int a = json_int b \<longleftrightarrow> a = b"
  by (cases a; cases b) auto

lemma sort_keys_scalar [simp]: "sort_keys (json_str a) = json_str a" "sort_keys (json_int b) = json_int b"
  by (cases a; simp) (cases b; simp)

lemma sort_key_same_keys:
  "map fst xs = map fst ys \<Longrightarrow> distinct (map fst xs) \<Longrightarrow> sort_key fst xs = sort_key fst ys \<Longrightarrow> xs = ys"
  for xs ys :: "(string \<times> json) list"
proof -
  assume k: "map fst xs = map fst ys" and d: "distinct (map fst xs)" and s: "sort_key fst xs = sort_key fst ys"
  have "set xs = set ys" using s by (metis set_sort)
  then have m: "map_of xs = map_of ys" using d k by (metis map_of_inject_set)
  have len: "length xs = length ys" using k by (metis length_map)
  show "xs = ys"
  proof (rule nth_equalityI [OF len])
    fix i assume i: "i < length xs"
    then have f: "fst (xs ! i) = fst (ys ! i)" using k len by (metis nth_map)
    have "map_of xs (fst (xs ! i)) = Some (snd (xs ! i))" "map_of ys (fst (ys ! i)) = Some (snd (ys ! i))"
      using i len d k by (simp_all add: map_of_eq_Some_iff)
    with f m show "xs ! i = ys ! i" by (simp add: prod_eq_iff)
  qed
qed

lemma sort_keys_fields:
  "map fst xs = map fst ys \<Longrightarrow> distinct (map fst xs) \<Longrightarrow>
   sort_keys (JObj xs) = sort_keys (JObj ys) \<longleftrightarrow> map (sort_keys \<circ> snd) xs = map (sort_keys \<circ> snd) ys"
proof -
  assume k: "map fst xs = map fst ys" and d: "distinct (map fst xs)"
  let ?f = "map (\<lambda>kv. (fst kv, sort_keys (snd kv)))"
  have fst: "map fst (?f zs) = map fst zs" for zs by (simp add: comp_def)
  have "sort_keys (JObj xs) = sort_keys (JObj ys) \<longleftrightarrow> ?f xs = ?f ys"
  proof -
    have "?f xs = ?f ys" if "sort_key fst (?f xs) = sort_key fst (?f ys)"
      by (rule sort_key_same_keys [OF _ _ that]) (use k d in \<open>simp_all only: fst\<close>)
    then show ?thesis by auto
  qed
  also have "\<dots> \<longleftrightarrow> map (sort_keys \<circ> snd) xs = map (sort_keys \<circ> snd) ys"
    using k by (induction xs ys rule: list_induct2') auto
  finally show ?thesis .
qed

lemma payload_inject:
  assumes eq: "chainPayload r seq prev = chainPayload r' seq' prev'"
  shows "seq = seq' \<and> prev = prev' \<and> same_content r r'"
proof -
  let ?row = "\<lambda>r. if 2 \<le> versionOf r then hashedFieldsV2 r else hashedFieldsV1 r"
  have "sort_keys (chain_value r seq prev) = sort_keys (chain_value r' seq' prev')"
    using eq by (simp add: chainPayload_def canonicalJson_def js_strings.canonical_eq_iff)
  then have v: "versionOf r = versionOf r'" and s: "seq = seq'" and p: "prev = prev'"
    and row: "sort_keys (JObj (?row r)) = sort_keys (JObj (?row r'))"
    unfolding chain_value_def by (subst (asm) sort_keys_fields; simp)+
  have "map fst (?row r) = map fst (?row r')" "distinct (map fst (?row r))"
    using v by (simp_all add: hashedFieldsV1_def hashedFieldsV2_def commonFields_def)
  with row have "map (sort_keys \<circ> snd) (?row r) = map (sort_keys \<circ> snd) (?row r')"
    using sort_keys_fields by blast
  then have "same_content r r'"
    using v by (auto simp: same_content_def hashedFieldsV1_def hashedFieldsV2_def commonFields_def split: if_splits)
  with s p show ?thesis by simp
qed

text \<open>An instance: the identity for the hash functions, and one row written to an empty log.\<close>

definition plain_hashes :: hashes where
  "plain_hashes = \<lparr>hs_sha256 = (\<lambda>s. s), hs_hmac = (\<lambda>k s. k @ s)\<rparr>"

definition sample_input :: audit_log where
  "sample_input =
     \<lparr>al_id = ''r1'', al_agentId = ''a'', al_userId = ''u'', al_action = ''read'', al_resource = ''doc'',
      al_parameters = None, al_result = ''allowed'', al_reason = None, al_event = None, al_durationMs = 3,
      al_tokensCost = None, al_ip = None, al_userAgent = None, al_cacheHit = None, al_timestamp = 5000,
      al_recordedAtMs = None, al_chainSeq = None, al_prevHash = None, al_hash = None, al_hashVersion = None,
      al_subjectId = None, al_actorId = None, al_policyVersion = None, al_approverId = None,
      al_delegationChain = None, al_inputProvenance = None, al_idPseudonyms = None\<rparr>"

definition first_row :: "hashes \<Rightarrow> string option \<Rightarrow> pseudonym_scheme \<Rightarrow> audit_log \<Rightarrow> audit_log" where
  "first_row H hmacKey scheme input = link_row H hmacKey (stamp_row H scheme input) None (nextRecordedAtMs 0 5000 0)"

definition first_world :: "hashes \<Rightarrow> string option \<Rightarrow> pseudonym_scheme \<Rightarrow> audit_log \<Rightarrow> audit_world" where
  "first_world H hmacKey scheme input =
     \<lparr>wd_db = \<lparr>ad_rows = [first_row H hmacKey scheme input], ad_last = nextRecordedAtMs 0 5000 0\<rparr>,
      wd_writers = [\<lparr>aw_row = stamp_row H scheme input, aw_pc = Appended\<rparr>]\<rparr>"

lemma first_world_reached: "reaches audit_start (audit_step H k {scheme}) (first_world H k scheme input)"
proof -
  let ?w = "\<lambda>pc. \<lparr>aw_row = stamp_row H scheme input, aw_pc = pc\<rparr>" and ?db = "\<lparr>ad_rows = [], ad_last = 0\<rparr>"
  have s0: "reaches audit_start (audit_step H k {scheme}) \<lparr>wd_db = ?db, wd_writers = []\<rparr>"
    by (rule reaches_init) (simp add: audit_start_def)
  have s1: "reaches audit_start (audit_step H k {scheme}) \<lparr>wd_db = ?db, wd_writers = [?w (AtHead 0)]\<rparr>"
    using reaches_step [OF s0 aud_arrive [of scheme]] by simp
  have s2: "reaches audit_start (audit_step H k {scheme}) \<lparr>wd_db = ?db, wd_writers = [?w (AtInsert 0 None)]\<rparr>"
    using reaches_step [OF s1 aud_run [of 0 _ _ H k 0 "AtInsert 0 None" ?db]]
    by (simp add: readHead_def chained_of_def max_append_attempts_def)
  show ?thesis
    using reaches_step [OF s2 aud_run [of 0 _ _ H k 5000 Appended
        "\<lparr>ad_rows = [first_row H k scheme input], ad_last = nextRecordedAtMs 0 5000 0\<rparr>"]]
    by (simp add: first_world_def first_row_def appendAt_def Let_def)
qed

lemma first_world_chain:
  "al_agentId input = a \<Longrightarrow> chained_of a (ad_rows (wd_db (first_world H k scheme input))) = [first_row H k scheme input]"
  by (simp add: first_world_def chained_of_def first_row_def link_row_facts stamp_row_def Let_def)

lemma linked_first: "linked H k [first_row H k scheme input]"
  using link_row_facts(8) [of H k "stamp_row H scheme input" None "nextRecordedAtMs 0 5000 0"]
  by (simp add: linked_single link_ok_def first_row_def link_row_facts stamp_row_facts nextRecordedAtMs_def)

lemma chains_stay_linked_witness:
  "linked plain_hashes None (chained_of ''a'' (ad_rows (wd_db (first_world plain_hashes None (Stable ''k'') sample_input))))
   \<and> map al_chainSeq (chained_of ''a'' (ad_rows (wd_db (first_world plain_hashes None (Stable ''k'') sample_input)))) = [Some 1]"
proof
  show "linked plain_hashes None (chained_of ''a'' (ad_rows (wd_db (first_world plain_hashes None (Stable ''k'') sample_input))))"
    by (rule chains_stay_linked) (rule first_world_reached)
  have "al_agentId sample_input = ''a''" by (simp add: sample_input_def)
  then show "map al_chainSeq (chained_of ''a'' (ad_rows (wd_db (first_world plain_hashes None (Stable ''k'') sample_input)))) = [Some 1]"
    by (simp add: first_world_chain first_row_def link_row_facts)
qed

end
