(* ===== verification/AuditVerify.thy ===== *)
theory AuditVerify
  imports AuditChain
begin

text \<open>
  The verifier of the audit chain: \<open>audit/verify.ts\<close> and \<open>audit/verify-anchors.ts\<close>. A verification
  reads one state of the table; its pages of 500 rows are one walk, and a database failure is outside the
  model. Erasure records, anchors and pseudonyms are checked as the code does.
\<close>

section \<open>Results\<close>

record chain_head =
  ch_agentId :: ident
  ch_seq :: int
  ch_hash :: string

record chain_anchor = chain_head +
  ca_id :: "ident option"

record verify_options =
  vo_from :: "time option"
  vo_to :: "time option"
  vo_agentId :: "ident option"
  vo_expectedHeads :: "chain_head list"
  vo_anchors :: "chain_anchor list"
  vo_allowUnanchoredPrefix :: bool

datatype chain_break_reason =
    Hash_mismatch | Prev_hash_mismatch | Seq_gap | Missing_hash | Pseudonym_mismatch | Truncated
  | Truncated_prefix | Anchor_mismatch | Erasure_unchained | Erasure_forged | Version_downgrade

record chain_break =
  cb_agentId :: ident
  cb_rowId :: ident
  cb_seq :: int
  cb_reason :: chain_break_reason
  cb_rowIds :: "ident list"
  cb_expected :: "string option"
  cb_actual :: "string option"

record verify_result =
  vr_ok :: bool
  vr_checked :: nat
  vr_unchained :: nat
  vr_erased :: nat
  vr_firstBreak :: "chain_break option"
  vr_heads :: "chain_head list"

definition break_at :: "audit_log \<Rightarrow> int \<Rightarrow> chain_break_reason \<Rightarrow> ident list \<Rightarrow> chain_break" where
  "break_at row seq reason rowIds =
     \<lparr>cb_agentId = al_agentId row, cb_rowId = al_id row, cb_seq = seq, cb_reason = reason,
      cb_rowIds = rowIds, cb_expected = None, cb_actual = None\<rparr>"

fun first_of :: "'a option \<Rightarrow> 'a option \<Rightarrow> 'a option" where
  "first_of None y = y"
| "first_of (Some x) y = Some x"

section \<open>Erasure records\<close>

text \<open>The authenticated entries in the order they were indexed; \<open>bySeq\<close> keeps the last one of a key.\<close>

definition byId :: "erasure_entry list \<Rightarrow> ident \<Rightarrow> erasure_entry list" where
  "byId index i = filter (\<lambda>e. ee_id e = i) index"

definition bySeq :: "erasure_entry list \<Rightarrow> ident \<Rightarrow> int \<Rightarrow> erasure_entry option" where
  "bySeq index agentId seq =
     List.find (\<lambda>e. ee_reason e = Deleted \<and> ee_agentId e = agentId \<and> ee_seq e = seq) (rev index)"

definition seq_or_0 :: "audit_log \<Rightarrow> int" where
  "seq_or_0 row = (case al_chainSeq row of None \<Rightarrow> 0 | Some s \<Rightarrow> s)"

definition erasureBreak :: "audit_log \<Rightarrow> chain_break_reason \<Rightarrow> chain_break" where
  "erasureBreak rec reason = break_at rec (seq_or_0 rec) reason [al_id rec]"

definition record_list :: "audit_log \<Rightarrow> json list option" where
  "record_list rec =
     (case al_parameters rec of
        Some (JObj kvs) \<Rightarrow> (case map_of kvs ''rows'' of Some (JArr xs) \<Rightarrow> Some xs | _ \<Rightarrow> None)
      | _ \<Rightarrow> None)"

fun record_entries :: "hashes \<Rightarrow> string \<Rightarrow> ident \<Rightarrow> json list \<Rightarrow> erasure_entry list option" where
  "record_entries H key agentId [] = Some []"
| "record_entries H key agentId (item # items) =
     (case parseErasureEntry item of
        None \<Rightarrow> None
      | Some e \<Rightarrow>
          if ee_agentId e \<noteq> agentId \<or> \<not> erasureEntryValid H key e then None
          else map_option ((#) e) (record_entries H key agentId items))"

definition load_record ::
  "hashes \<Rightarrow> string option \<Rightarrow> audit_log \<Rightarrow> erasure_entry list \<times> chain_break option \<Rightarrow> erasure_entry list \<times> chain_break option" where
  "load_record H key rec st =
     (case st of (index, brk) \<Rightarrow>
        if al_hash rec = None \<or> al_chainSeq rec = None
        then (index, first_of brk (Some (erasureBreak rec Erasure_unchained)))
        else case (case (record_list rec, key) of
                     (Some items, Some k) \<Rightarrow> if k = [] \<and> items \<noteq> [] then None else record_entries H k (al_agentId rec) items
                   | _ \<Rightarrow> None) of
               None \<Rightarrow> (index, first_of brk (Some (erasureBreak rec Erasure_forged)))
             | Some entries \<Rightarrow> (index @ entries, brk))"

definition loadErasures ::
  "hashes \<Rightarrow> audit_log list \<Rightarrow> string option \<Rightarrow> ident option \<Rightarrow> erasure_entry list \<times> chain_break option" where
  "loadErasures H rows key agentId =
     fold (load_record H key)
       (filter (\<lambda>r. al_action r = erasure_action
                 \<and> (case agentId of None \<Rightarrow> True | Some a \<Rightarrow> a = [] \<or> al_agentId r = a)) rows)
       ([], None)"

section \<open>Anchors\<close>

definition ownHashValid :: "hashes \<Rightarrow> audit_log \<Rightarrow> string option \<Rightarrow> bool" where
  "ownHashValid H row hmacKey =
     (case (al_chainSeq row, al_hash row) of
        (Some seq, Some hash) \<Rightarrow> computeRowHash H row seq (al_prevHash row) hmacKey = hash
      | _ \<Rightarrow> False)"

text \<open>
  \<open>Number(x)\<close> of a JSON value and \<open>String(x)\<close>; strings that hold anything but an optional sign and digits
  count as \<open>NaN\<close>.
\<close>

fun js_number :: "json option \<Rightarrow> int option" where
  "js_number (Some (JNum n)) = Some n"
| "js_number (Some JNull) = Some 0"
| "js_number (Some (JBool b)) = Some (if b then 1 else 0)"
| "js_number (Some (JStr s)) = (if s = [] then Some 0 else parse_period s)"
| "js_number _ = None"

fun js_text :: "json \<Rightarrow> string" where
  "js_text JNull = ''null''"
| "js_text (JBool b) = (if b then ''true'' else ''false'')"
| "js_text (JNum n) = int_str n"
| "js_text (JStr s) = s"
| "js_text (JArr xs) = join_on CHR '','' (map (\<lambda>x. if x = JNull then [] else js_text x) xs)"
| "js_text (JObj kvs) = ''[object Object]''"

fun js_string :: "json option \<Rightarrow> string" where
  "js_string None = ''undefined''"
| "js_string (Some j) = js_text j"

datatype anchor_verdict = Explained | Refuted chain_break | Unrelated

definition info_of :: "audit_log \<Rightarrow> string \<Rightarrow> json option" where
  "info_of cp k = (case al_parameters cp of Some (JObj kvs) \<Rightarrow> map_of kvs k | _ \<Rightarrow> None)"

definition anchor_row ::
  "hashes \<Rightarrow> string option \<Rightarrow> string option \<Rightarrow> audit_log \<Rightarrow> audit_log \<Rightarrow> anchor_verdict" where
  "anchor_row H hmacKey macKey first cp =
     (let startSeq = seq_or_0 first; agentId = al_agentId first; info = info_of cp in
      if macKey = None \<or> macKey = Some [] \<or> \<not> ownHashValid H cp hmacKey then Unrelated
      else if info ''kind'' = Some (JStr ''anchor'') then
        (let f = Anchor agentId startSeq (js_string (info ''firstId'')) (js_string (info ''firstHash''))
         in if js_number (info ''firstSeq'') \<noteq> Some startSeq \<or> js_string (info ''firstId'') \<noteq> al_id first then Unrelated
            else if Some (js_string (info ''firstHash'')) \<noteq> al_hash first then Unrelated
            else if anchorMacValid H (the macKey) f (info ''mac'') then Explained else Unrelated)
      else (case info ''lastHash'' of
              Some (JStr lastHash) \<Rightarrow>
                if info ''throughSeq'' \<noteq> Some (JNum (startSeq - 1)) then Unrelated
                else if info ''mac'' \<noteq> None
                     \<and> \<not> anchorMacValid H (the macKey) (Retention agentId (startSeq - 1) lastHash) (info ''mac'') then Unrelated
                else if al_prevHash first \<noteq> Some lastHash then
                  Refuted \<lparr>cb_agentId = agentId, cb_rowId = al_id first, cb_seq = startSeq,
                           cb_reason = Prev_hash_mismatch, cb_rowIds = [al_id cp, al_id first],
                           cb_expected = Some lastHash, cb_actual = al_prevHash first\<rparr>
                else Explained
            | _ \<Rightarrow> Unrelated))"

fun anchor_loop :: "(audit_log \<Rightarrow> anchor_verdict) \<Rightarrow> audit_log list \<Rightarrow> anchor_verdict" where
  "anchor_loop f [] = Unrelated"
| "anchor_loop f (cp # cps) = (case f cp of Unrelated \<Rightarrow> anchor_loop f cps | v \<Rightarrow> v)"

definition checkPrefixAnchor ::
  "hashes \<Rightarrow> audit_log list \<Rightarrow> audit_log \<Rightarrow> string option \<Rightarrow> string option \<Rightarrow> chain_break option" where
  "checkPrefixAnchor H rows first hmacKey macKey =
     (case anchor_loop (anchor_row H hmacKey macKey first)
             (filter (\<lambda>r. al_agentId r = al_agentId first \<and> al_action r = checkpoint_action \<and> al_chainSeq r \<noteq> None) rows) of
        Explained \<Rightarrow> None
      | Refuted b \<Rightarrow> Some b
      | Unrelated \<Rightarrow> Some (break_at first (seq_or_0 first) Truncated_prefix [al_id first]))"

definition row_at :: "audit_log list \<Rightarrow> ident \<Rightarrow> int \<Rightarrow> audit_log option" where
  "row_at rows agentId seq = List.find (\<lambda>r. al_agentId r = agentId \<and> al_chainSeq r = Some seq) rows"

definition checkAnchor :: "audit_log list \<Rightarrow> chain_head \<Rightarrow> chain_break option" where
  "checkAnchor rows anchor =
     (let base = \<lparr>cb_agentId = ch_agentId anchor, cb_rowId = [], cb_seq = ch_seq anchor, cb_reason = Truncated,
                  cb_rowIds = [], cb_expected = Some (ch_hash anchor), cb_actual = None\<rparr>
      in case row_at rows (ch_agentId anchor) (ch_seq anchor) of
           None \<Rightarrow> Some base
         | Some row \<Rightarrow>
             if al_hash row \<noteq> Some (ch_hash anchor)
             then Some (base\<lparr>cb_rowId := al_id row, cb_reason := Hash_mismatch, cb_rowIds := [al_id row],
                             cb_actual := al_hash row\<rparr>)
             else None)"

definition checkPinnedAnchor :: "audit_log list \<Rightarrow> chain_anchor \<Rightarrow> chain_break option" where
  "checkPinnedAnchor rows anchor =
     (let base = \<lparr>cb_agentId = ch_agentId anchor, cb_rowId = [], cb_seq = ch_seq anchor, cb_reason = Truncated_prefix,
                  cb_rowIds = [], cb_expected = Some (ch_hash anchor), cb_actual = None\<rparr>
      in case row_at rows (ch_agentId anchor) (ch_seq anchor) of
           None \<Rightarrow> Some base
         | Some row \<Rightarrow>
             if al_hash row \<noteq> Some (ch_hash anchor) \<or> (ca_id anchor \<noteq> None \<and> ca_id anchor \<noteq> Some (al_id row))
             then Some (base\<lparr>cb_rowId := al_id row, cb_reason := Anchor_mismatch, cb_rowIds := [al_id row],
                             cb_actual := al_hash row\<rparr>)
             else None)"

section \<open>The walk\<close>

record verify_context =
  vc_hmacKey :: "string option"
  vc_pseudonymKey :: "string option"
  vc_periodSecret :: "int \<Rightarrow> string option"
  vc_erasures :: "erasure_entry list"
  vc_allowUnanchoredPrefix :: bool

text \<open>The deleted rows from \<open>seq\<close> up to \<open>stop\<close>, each linking to the one before.\<close>

fun bridge_loop :: "erasure_entry list \<Rightarrow> ident \<Rightarrow> int \<Rightarrow> nat \<Rightarrow> string option \<Rightarrow> string option option" where
  "bridge_loop index agentId seq 0 expectedPrev = Some expectedPrev"
| "bridge_loop index agentId seq (Suc n) expectedPrev =
     (case bySeq index agentId seq of
        None \<Rightarrow> None
      | Some dead \<Rightarrow>
          if ee_prevHash dead \<noteq> expectedPrev then None
          else bridge_loop index agentId (seq + 1) n (Some (ee_hash dead)))"

definition bridgeErased :: "audit_log \<Rightarrow> audit_log \<Rightarrow> verify_context \<Rightarrow> nat option" where
  "bridgeErased prev row ctx =
     (case al_chainSeq prev of
        None \<Rightarrow> None
      | Some p \<Rightarrow>
          let count = nat (seq_or_0 row - (p + 1))
          in case bridge_loop (vc_erasures ctx) (al_agentId row) (p + 1) count (al_hash prev) of
               None \<Rightarrow> None
             | Some expectedPrev \<Rightarrow> if al_prevHash row = expectedPrev then Some count else None)"

definition idMismatches :: "hashes \<Rightarrow> audit_log \<Rightarrow> verify_context \<Rightarrow> string list" where
  "idMismatches H row ctx =
     (case storedPeriod row of
        None \<Rightarrow> (case vc_pseudonymKey ctx of None \<Rightarrow> []
                 | Some key \<Rightarrow> if key = [] then [] else pseudonymMismatches H row key)
      | Some period \<Rightarrow> (case vc_periodSecret ctx period of None \<Rightarrow> []
                        | Some secret \<Rightarrow> if secret = [] then [] else rotatingMismatches H row secret period))"

definition hasErasedIds :: "audit_log \<Rightarrow> bool" where
  "hasErasedIds row \<longleftrightarrow>
     (\<exists>(k, v)\<in>set (pseudonym_fields row). isErasedId v \<or> \<not> present_id v \<and> map_of (stored_of row) k \<noteq> None)"

definition excused :: "audit_log \<Rightarrow> int \<Rightarrow> string \<Rightarrow> erasure_entry list \<Rightarrow> bool" where
  "excused row seq expected entries \<longleftrightarrow>
     (\<exists>e\<in>set entries. versionOf row < 2 \<and> ee_hashVersion e < 2 \<and> ee_reason e = Anonymized \<and> ee_seq e = seq
        \<and> Some (ee_hash e) = al_hash row \<and> ee_erasedHash e = Some expected)"

text \<open>The answer of \<open>checkRow\<close>: a break, or the number of erased rows it accounts for.\<close>

definition check_hash :: "hashes \<Rightarrow> audit_log \<Rightarrow> verify_context \<Rightarrow> nat \<Rightarrow> chain_break option \<times> nat" where
  "check_hash H row ctx erased =
     (let seq = seq_or_0 row; expected = computeRowHash H row seq (al_prevHash row) (vc_hmacKey ctx) in
      if Some expected \<noteq> al_hash row then
        (if excused row seq expected (byId (vc_erasures ctx) (al_id row)) then (None, erased + 1)
         else (Some ((break_at row seq Hash_mismatch [al_id row])\<lparr>cb_expected := Some expected, cb_actual := al_hash row\<rparr>), erased))
      else if 2 \<le> versionOf row then
        (if idMismatches H row ctx \<noteq> [] then (Some (break_at row seq Pseudonym_mismatch [al_id row]), erased)
         else (None, if al_action row \<noteq> erasure_action \<and> hasErasedIds row then erased + 1 else erased))
      else (None, erased))"

definition checkRow :: "hashes \<Rightarrow> audit_log \<Rightarrow> audit_log option \<Rightarrow> verify_context \<Rightarrow> chain_break option \<times> nat" where
  "checkRow H row prev ctx =
     (let seq = seq_or_0 row in
      if al_hash row = None then (Some (break_at row seq Missing_hash [al_id row]), 0)
      else if versionOf row < 2
           \<and> (al_idPseudonyms row \<noteq> None \<or> (case prev of None \<Rightarrow> False | Some p \<Rightarrow> 2 \<le> versionOf p))
      then (Some (break_at row seq Version_downgrade [al_id row]), 0)
      else case prev of
        None \<Rightarrow> check_hash H row ctx 0
      | Some p \<Rightarrow>
          if al_chainSeq p \<noteq> None \<and> seq \<noteq> the (al_chainSeq p) + 1 then
            (case (if the (al_chainSeq p) < seq then bridgeErased p row ctx else None) of
               None \<Rightarrow> (Some (break_at row seq Seq_gap [al_id p, al_id row]), 0)
             | Some bridged \<Rightarrow> check_hash H row ctx bridged)
          else if al_prevHash row \<noteq> al_hash p then
            (Some ((break_at row seq Prev_hash_mismatch [al_id p, al_id row])
                     \<lparr>cb_expected := al_hash p, cb_actual := al_prevHash row\<rparr>), 0)
          else check_hash H row ctx 0)"

record agent_result =
  ar_checked :: nat
  ar_erased :: nat
  ar_head :: "chain_head option"
  ar_brk :: "chain_break option"

fun walk_rows :: "hashes \<Rightarrow> verify_context \<Rightarrow> ident \<Rightarrow> audit_log option \<Rightarrow> audit_log list \<Rightarrow> agent_result \<Rightarrow> agent_result" where
  "walk_rows H ctx agentId prev [] acc = acc"
| "walk_rows H ctx agentId prev (row # rows) acc =
     (case checkRow H row prev ctx of
        (brk, erased) \<Rightarrow>
          let acc' = acc\<lparr>ar_checked := ar_checked acc + 1, ar_erased := ar_erased acc + erased\<rparr>
          in case brk of
               Some b \<Rightarrow> acc'\<lparr>ar_brk := Some b\<rparr>
             | None \<Rightarrow>
                 walk_rows H ctx agentId (Some row) rows
                   (case (al_chainSeq row, al_hash row) of
                      (Some seq, Some hash) \<Rightarrow>
                        acc'\<lparr>ar_head := Some \<lparr>ch_agentId = agentId, ch_seq = seq, ch_hash = hash\<rparr>\<rparr>
                    | _ \<Rightarrow> acc'))"

text \<open>Walking back from the start over rows that were deleted: the sequence and the link reached.\<close>

fun walk_back :: "erasure_entry list \<Rightarrow> ident \<Rightarrow> nat \<Rightarrow> string option \<Rightarrow> nat \<times> string option" where
  "walk_back index agentId 0 expectedPrev = (0, expectedPrev)"
| "walk_back index agentId (Suc 0) expectedPrev = (1, expectedPrev)"
| "walk_back index agentId (Suc (Suc n)) expectedPrev =
     (case bySeq index agentId (int (Suc n)) of
        None \<Rightarrow> (Suc (Suc n), expectedPrev)
      | Some dead \<Rightarrow>
          if Some (ee_hash dead) \<noteq> expectedPrev then (Suc (Suc n), expectedPrev)
          else walk_back index agentId (Suc n) (ee_prevHash dead))"

definition checkStart ::
  "hashes \<Rightarrow> audit_log list \<Rightarrow> ident \<Rightarrow> int \<Rightarrow> verify_context \<Rightarrow> chain_break option \<times> nat" where
  "checkStart H rows agentId startSeq ctx =
     (case row_at rows agentId startSeq of
        None \<Rightarrow> (None, 0)
      | Some firstRow \<Rightarrow>
          (case walk_back (vc_erasures ctx) agentId (nat startSeq) (al_prevHash firstRow) of
             (seq, expectedPrev) \<Rightarrow>
               let erased = nat startSeq - seq in
               if seq = 1 \<and> expectedPrev = None then (None, erased)
               else if 0 < erased \<and> (case row_at rows agentId (int seq - 1) of
                                       None \<Rightarrow> False | Some before \<Rightarrow> al_hash before = expectedPrev) then (None, erased)
               else (case checkPrefixAnchor H rows (firstRow\<lparr>al_chainSeq := Some (int seq), al_prevHash := expectedPrev\<rparr>)
                            (vc_hmacKey ctx) (vc_pseudonymKey ctx) of
                       Some brk \<Rightarrow> (Some (brk\<lparr>cb_rowId := al_id firstRow, cb_seq := startSeq\<rparr>), 0)
                     | None \<Rightarrow> (None, erased))))"

definition in_range :: "verify_options \<Rightarrow> audit_log \<Rightarrow> bool" where
  "in_range opts r \<longleftrightarrow>
     (case vo_from opts of None \<Rightarrow> True | Some t \<Rightarrow> t \<le> al_timestamp r)
     \<and> (case vo_to opts of None \<Rightarrow> True | Some t \<Rightarrow> al_timestamp r \<le> t)"

definition verifyAgentChain ::
  "hashes \<Rightarrow> audit_log list \<Rightarrow> ident \<Rightarrow> verify_options \<Rightarrow> verify_context \<Rightarrow> agent_result" where
  "verifyAgentChain H rows agentId opts ctx =
     (let none = \<lparr>ar_checked = 0, ar_erased = 0, ar_head = None, ar_brk = None\<rparr>;
          seqs = map (\<lambda>r. the (al_chainSeq r)) (filter (in_range opts) (chained_of agentId rows))
      in if seqs = [] then none
         else let startSeq = Min (set seqs); endSeq = Max (set seqs);
                  prev = (if 1 < startSeq then row_at rows agentId (startSeq - 1) else None);
                  start = (if 1 < startSeq \<and> prev = None \<and> \<not> vc_allowUnanchoredPrefix ctx
                           then checkStart H rows agentId startSeq ctx else (None, 0));
                  span = filter (\<lambda>r. startSeq \<le> the (al_chainSeq r) \<and> the (al_chainSeq r) \<le> endSeq) (chained_of agentId rows)
              in case start of
                   (Some b, _) \<Rightarrow> none\<lparr>ar_brk := Some b\<rparr>
                 | (None, prefixErased) \<Rightarrow>
                     walk_rows H ctx agentId prev (sort_key (\<lambda>r. the (al_chainSeq r)) span)
                       (none\<lparr>ar_erased := prefixErased\<rparr>))"

definition wanted :: "verify_options \<Rightarrow> ident \<Rightarrow> bool" where
  "wanted opts agentId \<longleftrightarrow> (case vo_agentId opts of None \<Rightarrow> True | Some a \<Rightarrow> a = [] \<or> agentId = a)"

definition agents_in :: "verify_options \<Rightarrow> audit_log list \<Rightarrow> ident list" where
  "agents_in opts rows =
     sort (uniq (map al_agentId (filter (\<lambda>r. al_chainSeq r \<noteq> None \<and> in_range opts r \<and> wanted opts (al_agentId r)) rows)))"

definition unchained_in :: "verify_options \<Rightarrow> audit_log list \<Rightarrow> nat" where
  "unchained_in opts rows =
     length (filter (\<lambda>r. al_hash r = None \<and> al_action r \<noteq> erasure_action \<and> in_range opts r \<and> wanted opts (al_agentId r)) rows)"

definition pick_key :: "string option \<Rightarrow> string option \<Rightarrow> string option" where
  "pick_key hmacKey secret = (case hmacKey of Some k \<Rightarrow> if k = [] then secret else Some k | None \<Rightarrow> secret)"

text \<open>\<open>secret\<close> is the stored pseudonym secret, read where no HMAC key is configured.\<close>

definition verifyAuditChain ::
  "hashes \<Rightarrow> audit_log list \<Rightarrow> string option \<Rightarrow> (int \<Rightarrow> string option) \<Rightarrow> verify_options \<Rightarrow> string option \<Rightarrow> verify_result" where
  "verifyAuditChain H rows secret periodSecret opts hmacKey =
     (let key = pick_key hmacKey secret;
          (index, brk0) = loadErasures H rows key (vo_agentId opts);
          ctx = \<lparr>vc_hmacKey = hmacKey, vc_pseudonymKey = key, vc_periodSecret = periodSecret,
                 vc_erasures = index, vc_allowUnanchoredPrefix = vo_allowUnanchoredPrefix opts\<rparr>;
          results = map (\<lambda>a. verifyAgentChain H rows a opts ctx) (agents_in opts rows);
          brk1 = foldl first_of brk0 (map ar_brk results);
          brk2 = foldl first_of brk1 (map (checkAnchor rows) (filter (\<lambda>a. wanted opts (ch_agentId a)) (vo_expectedHeads opts)));
          firstBreak = foldl first_of brk2
             (map (checkPinnedAnchor rows) (filter (\<lambda>a. wanted opts (ch_agentId a)) (vo_anchors opts)))
      in \<lparr>vr_ok = (firstBreak = None), vr_checked = sum_list (map ar_checked results),
          vr_unchained = unchained_in opts rows, vr_erased = sum_list (map ar_erased results),
          vr_firstBreak = firstBreak,
          vr_heads = concat (map (\<lambda>r. case ar_head r of None \<Rightarrow> [] | Some h \<Rightarrow> [h]) results)\<rparr>)"

section \<open>What a successful walk says\<close>

lemma first_of_None: "first_of x y = None \<longleftrightarrow> x = None \<and> y = None"
  by (cases x) auto

lemma foldl_first_of_None: "foldl first_of x ys = None \<longleftrightarrow> x = None \<and> (\<forall>y\<in>set ys. y = None)"
  by (induction ys arbitrary: x) (auto simp: first_of_None)

lemma walk_rows_brk: "ar_brk acc \<noteq> None \<Longrightarrow> ar_brk (walk_rows H ctx a prev rs acc) \<noteq> None"
proof (induction rs arbitrary: prev acc)
  case (Cons r rs)
  then show ?case by (auto simp: Let_def split: option.splits prod.splits)
qed simp

lemma walk_rows_ok:
  "ar_brk (walk_rows H ctx a prev rs acc) = None \<Longrightarrow> i < length rs \<Longrightarrow>
   fst (checkRow H (rs ! i) (if i = 0 then prev else Some (rs ! (i - 1))) ctx) = None"
proof (induction rs arbitrary: prev acc i)
  case (Cons r rs)
  obtain brk er where c: "checkRow H r prev ctx = (brk, er)" by fastforce
  have brk: "brk = None"
    using Cons.prems(1) c by (cases brk) (auto simp: Let_def)
  show ?case
  proof (cases i)
    case 0
    then show ?thesis using c brk by simp
  next
    case (Suc k)
    then have "fst (checkRow H (rs ! k) (if k = 0 then Some r else Some (rs ! (k - 1))) ctx) = None"
      using Cons.IH [of "Some r" _ k] Cons.prems c brk by (simp add: Let_def)
    then show ?thesis using Suc by (auto split: if_splits)
  qed
qed simp

lemma bySeq_Nil [simp]: "bySeq [] a s = None"
  by (simp add: bySeq_def)

lemma check_hash_ok:
  "fst (check_hash H row ctx n) = None \<Longrightarrow> vc_erasures ctx = [] \<Longrightarrow>
   al_hash row = Some (computeRowHash H row (seq_or_0 row) (al_prevHash row) (vc_hmacKey ctx))"
  by (auto simp: check_hash_def Let_def excused_def byId_def split: if_splits)

lemma bridge_Nil: "vc_erasures ctx = [] \<Longrightarrow> al_chainSeq p = Some q \<Longrightarrow> q + 1 < seq_or_0 row \<Longrightarrow> bridgeErased p row ctx = None"
proof -
  assume a: "vc_erasures ctx = []" "al_chainSeq p = Some q" "q + 1 < seq_or_0 row"
  then obtain n where "nat (seq_or_0 row - (q + 1)) = Suc n" by (metis gr0_conv_Suc zero_less_nat_eq diff_gt_0_iff_gt)
  with a show "bridgeErased p row ctx = None" by (simp add: bridgeErased_def)
qed

lemma checkRow_ok:
  assumes ok: "fst (checkRow H row prev ctx) = None" and e: "vc_erasures ctx = []"
  shows "al_hash row = Some (computeRowHash H row (seq_or_0 row) (al_prevHash row) (vc_hmacKey ctx))"
    and "prev = Some p \<Longrightarrow> al_chainSeq p = Some q \<Longrightarrow> seq_or_0 row = q + 1 \<and> al_prevHash row = al_hash p"
proof -
  have "\<exists>n. fst (check_hash H row ctx n) = None"
    using ok by (auto simp: checkRow_def Let_def split: if_splits option.splits)
  then show "al_hash row = Some (computeRowHash H row (seq_or_0 row) (al_prevHash row) (vc_hmacKey ctx))"
    using check_hash_ok [OF _ e] by blast
  assume p: "prev = Some p" "al_chainSeq p = Some q"
  show "seq_or_0 row = q + 1 \<and> al_prevHash row = al_hash p"
  proof (cases "seq_or_0 row = q + 1")
    case False
    then have "(if q < seq_or_0 row then bridgeErased p row ctx else None) = None"
      using bridge_Nil [OF e p(2), of row] by auto
    then show ?thesis using ok p False by (auto simp: checkRow_def Let_def split: if_splits)
  next
    case True
    then show ?thesis using ok p by (auto simp: checkRow_def Let_def split: if_splits)
  qed
qed

text \<open>The rows of an agent by sequence number.\<close>

definition chain_rows :: "ident \<Rightarrow> audit_log list \<Rightarrow> audit_log list" where
  "chain_rows agentId rows = sort_key (\<lambda>r. the (al_chainSeq r)) (chained_of agentId rows)"

lemma set_chain_rows: "set (chain_rows a rows) = {r \<in> set rows. al_agentId r = a \<and> al_chainSeq r \<noteq> None}"
  by (simp add: chain_rows_def chained_of_def)

lemma loadErasures_none: "\<forall>r\<in>set rows. al_action r \<noteq> erasure_action \<Longrightarrow> loadErasures H rows key a = ([], None)"
proof -
  assume "\<forall>r\<in>set rows. al_action r \<noteq> erasure_action"
  then have "filter (\<lambda>r. al_action r = erasure_action \<and> (case a of None \<Rightarrow> True | Some b \<Rightarrow> b = [] \<or> al_agentId r = b)) rows = []"
    by (auto simp: filter_empty_conv)
  then show "loadErasures H rows key a = ([], None)" by (simp add: loadErasures_def)
qed

lemma row_at_SomeD:
  "row_at rows a q = Some r \<Longrightarrow> r \<in> set rows \<and> al_agentId r = a \<and> al_chainSeq r = Some q"
  unfolding row_at_def by (drule find_SomeD) simp

lemma full_span:
  assumes "vo_from opts = None" and "vo_to opts = None"
  shows "filter (in_range opts) rs = rs"
  using assms by (simp add: in_range_def)

lemma walk_back_Nil: "walk_back [] a n pv = (n, pv)"
  by (cases n rule: nat.exhaust; cases "n - 1") simp_all

lemma checkStart_truncated:
  assumes first: "row_at rows a q = Some first" and q: "1 < q" and e: "vc_erasures ctx = []"
    and cp: "\<forall>r\<in>set rows. al_agentId r = a \<and> al_chainSeq r \<noteq> None \<longrightarrow> al_action r \<noteq> checkpoint_action"
  shows "fst (checkStart H rows a q ctx) \<noteq> None"
proof -
  have fa: "al_agentId first = a" using row_at_SomeD [OF first] by simp
  have wb: "walk_back (vc_erasures ctx) a (nat q) pv = (nat q, pv)" for pv
    unfolding e by (rule walk_back_Nil)
  have q1: "nat q \<noteq> Suc 0" "int (nat q) = q" using q by linarith+
  have "filter (\<lambda>r. al_agentId r = a \<and> al_action r = checkpoint_action \<and> al_chainSeq r \<noteq> None) rows = []"
    using cp by (auto simp: filter_empty_conv)
  then show ?thesis
    using q1 by (simp add: checkStart_def first wb Let_def checkPrefixAnchor_def fa)
qed

text \<open>A whole chain that verifies without erasures or anchors starts at one and has no gap.\<close>

lemma verified_chain:
  assumes ok: "ar_brk (verifyAgentChain H rows a opts ctx) = None"
    and range: "vo_from opts = None" "vo_to opts = None"
    and ctx: "vc_erasures ctx = []" "\<not> vc_allowUnanchoredPrefix ctx"
    and cp: "\<forall>r\<in>set rows. al_agentId r = a \<and> al_chainSeq r \<noteq> None \<longrightarrow> al_action r \<noteq> checkpoint_action"
    and ne: "chain_rows a rows \<noteq> []"
  shows "\<exists>start\<le>1. \<forall>i<length (chain_rows a rows).
      al_chainSeq (chain_rows a rows ! i) = Some (start + int i)
      \<and> al_hash (chain_rows a rows ! i) = Some (computeRowHash H (chain_rows a rows ! i) (start + int i)
            (al_prevHash (chain_rows a rows ! i)) (vc_hmacKey ctx))
      \<and> (0 < i \<longrightarrow> al_prevHash (chain_rows a rows ! i) = al_hash (chain_rows a rows ! (i - 1)))"
proof -
  let ?cs = "chained_of a rows" and ?S = "chain_rows a rows"
  let ?seqs = "map (\<lambda>r. the (al_chainSeq r)) ?cs"
  let ?start = "Min (set ?seqs)"
  have cne: "?cs \<noteq> []" using ne by (auto simp: chain_rows_def)
  have bounds: "?start \<le> the (al_chainSeq r) \<and> the (al_chainSeq r) \<le> Max (set ?seqs)" if "r \<in> set ?cs" for r
    using that by auto
  have span: "filter (\<lambda>r. ?start \<le> the (al_chainSeq r) \<and> the (al_chainSeq r) \<le> Max (set ?seqs)) ?cs = ?cs"
    using bounds by simp
  have some: "al_chainSeq (?S ! i) = Some (the (al_chainSeq (?S ! i)))" if "i < length ?S" for i
    using nth_mem [OF that] by (simp add: set_chain_rows)
  have minrow: "\<exists>r\<in>set ?cs. the (al_chainSeq r) = ?start"
  proof -
    have "?start \<in> set ?seqs" by (rule Min_in) (use cne in auto)
    then show ?thesis by auto
  qed
  have le1: "?start \<le> 1"
  proof (rule ccontr)
    assume big: "\<not> ?start \<le> 1"
    have noprev: "row_at rows a (?start - 1) = None"
    proof (rule ccontr)
      assume "row_at rows a (?start - 1) \<noteq> None"
      then obtain r where "r \<in> set rows" "al_agentId r = a" "al_chainSeq r = Some (?start - 1)"
        using row_at_SomeD by blast
      then have "r \<in> set ?cs" "the (al_chainSeq r) = ?start - 1" by (simp_all add: chained_of_def)
      with bounds [of r] show False by linarith
    qed
    obtain r0 where "r0 \<in> set ?cs" "the (al_chainSeq r0) = ?start" using minrow by blast
    then have r0: "r0 \<in> set rows" "al_agentId r0 = a" "al_chainSeq r0 = Some ?start" by (auto simp: chained_of_def)
    have "row_at rows a ?start \<noteq> None" using r0 by (auto simp: row_at_def find_None_iff)
    then obtain first where first: "row_at rows a ?start = Some first" by blast
    have "fst (checkStart H rows a ?start ctx) \<noteq> None"
      by (rule checkStart_truncated [OF first _ ctx(1) cp]) (use big in linarith)
    then obtain b n where cs: "checkStart H rows a ?start ctx = (Some b, n)" by (metis not_None_eq prod.collapse)
    have "ar_brk (verifyAgentChain H rows a opts ctx) = Some b"
      unfolding verifyAgentChain_def Let_def full_span [OF range]
      using big noprev ctx(2) cne cs by (simp del: set_map Min_gr_iff Min_le_iff)
    then show False using ok by simp
  qed
  have walk: "ar_brk (walk_rows H ctx a None ?S \<lparr>ar_checked = 0, ar_erased = 0, ar_head = None, ar_brk = None\<rparr>) = None"
  proof -
    have low: "\<not> 1 < ?start" using le1 by linarith
    show ?thesis
      using ok cne unfolding verifyAgentChain_def Let_def full_span [OF range]
      by (simp add: low span chain_rows_def del: set_map Min_gr_iff Min_le_iff)
  qed
  note row = checkRow_ok [OF walk_rows_ok [OF walk] ctx(1)]
  have first: "al_chainSeq (?S ! 0) = Some ?start"
  proof -
    have s: "sorted (map (\<lambda>r. the (al_chainSeq r)) ?S)" by (simp add: chain_rows_def)
    obtain r0 where "r0 \<in> set ?S" "the (al_chainSeq r0) = ?start" using minrow by (auto simp: chain_rows_def)
    then obtain i where i: "i < length ?S" "the (al_chainSeq (?S ! i)) = ?start" by (auto simp: in_set_conv_nth)
    have "0 < length ?S" using ne by simp
    then have "the (al_chainSeq (?S ! 0)) \<le> ?start"
      using sorted_nth_mono [OF s, of 0 i] i nth_map [of 0 ?S "\<lambda>r. the (al_chainSeq r)"] by (simp del: set_map)
    moreover have "?S ! 0 \<in> set ?cs" using ne by (metis chain_rows_def length_greater_0_conv nth_mem set_sort)
    ultimately have "the (al_chainSeq (?S ! 0)) = ?start" using bounds [of "?S ! 0"] by linarith
    then show ?thesis using some [of 0] ne by simp
  qed
  have seq: "al_chainSeq (?S ! i) = Some (?start + int i)" if "i < length ?S" for i
    using that
  proof (induction i)
    case (Suc i)
    then have "al_chainSeq (?S ! i) = Some (?start + int i)" by simp
    with row(2) [OF Suc.prems, of "?S ! i"] have "seq_or_0 (?S ! Suc i) = ?start + int i + 1" by simp
    then show ?case using some [OF Suc.prems] by (simp add: seq_or_0_def split: option.splits)
  qed (use first in simp)
  have "al_hash (?S ! i) = Some (computeRowHash H (?S ! i) (?start + int i) (al_prevHash (?S ! i)) (vc_hmacKey ctx))"
    and "0 < i \<longrightarrow> al_prevHash (?S ! i) = al_hash (?S ! (i - 1))" if "i < length ?S" for i
    using row(1) [OF that] row(2) [OF that, of "?S ! (i - 1)"] seq [OF that] seq [of "i - 1"] that
    by (auto simp: seq_or_0_def)
  with seq le1 show ?thesis by blast
qed

lemma verified_parts:
  assumes ok: "vr_ok (verifyAuditChain H rows secret periodSecret opts hmacKey)"
    and plain: "\<forall>r\<in>set rows. al_action r \<noteq> erasure_action"
  defines "ctx \<equiv> \<lparr>vc_hmacKey = hmacKey, vc_pseudonymKey = pick_key hmacKey secret, vc_periodSecret = periodSecret,
                   vc_erasures = [], vc_allowUnanchoredPrefix = vo_allowUnanchoredPrefix opts\<rparr>"
  shows "a \<in> set (agents_in opts rows) \<Longrightarrow> ar_brk (verifyAgentChain H rows a opts ctx) = None"
    and "h \<in> set (vo_expectedHeads opts) \<Longrightarrow> wanted opts (ch_agentId h) \<Longrightarrow> checkAnchor rows h = None"
  using ok unfolding ctx_def
  by (auto simp: verifyAuditChain_def loadErasures_none [OF plain] Let_def foldl_first_of_None)

lemma checkAnchor_None: "checkAnchor rows h = None \<longleftrightarrow>
   (\<exists>r. row_at rows (ch_agentId h) (ch_seq h) = Some r \<and> al_hash r = Some (ch_hash h))"
  by (auto simp: checkAnchor_def Let_def split: option.splits if_splits)

lemma row_at_numbered:
  assumes all: "set cs = {r \<in> set rows. al_agentId r = a \<and> al_chainSeq r \<noteq> None}"
    and seqs: "\<forall>i<length cs. al_chainSeq (cs ! i) = Some (start + int i)"
    and i: "i < length cs"
  shows "row_at rows a (start + int i) = Some (cs ! i)"
proof -
  have m: "cs ! i \<in> set rows" "al_agentId (cs ! i) = a"
    using nth_mem [OF i] all by simp_all
  with seqs i have "row_at rows a (start + int i) \<noteq> None" by (auto simp: row_at_def find_None_iff)
  then obtain r where r: "row_at rows a (start + int i) = Some r" by blast
  then have "r \<in> set cs" and q: "al_chainSeq r = Some (start + int i)"
    using row_at_SomeD [OF r] all by simp_all
  then obtain j where j: "j < length cs" "cs ! j = r" by (auto simp: in_set_conv_nth)
  with seqs q have "j = i" by auto
  with j r show ?thesis by simp
qed

lemmas row_at_chain = row_at_numbered [OF set_chain_rows]

lemma row_at_linked:
  assumes "linked H k (chained_of a rows)" and "i < length (chained_of a rows)"
  shows "row_at rows a (int i + 1) = Some (chained_of a rows ! i)"
  using row_at_numbered [of "chained_of a rows" rows a 1 i] assms linked_seq [OF assms(1)]
  by (auto simp: chained_of_def add.commute)

text \<open>
  From a row with the hash the chain had, the hashes below are those of the chain, or two payloads clash.
\<close>

lemma hashes_downward:
  assumes no_clash: "\<And>k. k < length orig \<Longrightarrow> computeRowHash H (r k) (int k + 1) (al_prevHash (r k)) hmacKey
        = computeRowHash H (orig ! k) (int k + 1) (al_prevHash (orig ! k)) hmacKey \<Longrightarrow>
      chainPayload (r k) (int k + 1) (al_prevHash (r k)) = chainPayload (orig ! k) (int k + 1) (al_prevHash (orig ! k))"
    and own: "\<And>k. k < length orig \<Longrightarrow> al_hash (r k) = Some (computeRowHash H (r k) (int k + 1) (al_prevHash (r k)) hmacKey)"
    and links: "\<And>k. Suc k < length orig \<Longrightarrow> al_prevHash (r (Suc k)) = al_hash (r k)"
    and orig: "linked H hmacKey orig"
    and top: "al_hash (r (length orig - 1)) = al_hash (last orig)"
    and k: "k < length orig"
  shows "al_hash (r k) = al_hash (orig ! k) \<and> same_content (r k) (orig ! k)"
proof -
  have ownO: "al_hash (orig ! k) = Some (computeRowHash H (orig ! k) (int k + 1) (al_prevHash (orig ! k)) hmacKey)"
    and linkO: "0 < k \<Longrightarrow> al_prevHash (orig ! k) = al_hash (orig ! (k - 1))" if "k < length orig" for k
    using orig that by (auto simp: linked_def link_ok_def)
  have same: "al_prevHash (r k) = al_prevHash (orig ! k) \<and> same_content (r k) (orig ! k)"
    if "k < length orig" "al_hash (r k) = al_hash (orig ! k)" for k
    using payload_inject [OF no_clash [OF that(1)]] own [OF that(1)] ownO [OF that(1)] that(2) by simp
  have "al_hash (r k) = al_hash (orig ! k)"
  proof (rule inc_induct [of k "length orig - 1"])
    show "k \<le> length orig - 1" using k by linarith
    have "last orig = orig ! (length orig - 1)" using k by (intro last_conv_nth) auto
    then show "al_hash (r (length orig - 1)) = al_hash (orig ! (length orig - 1))" using top by simp
  next
    fix n assume n: "n < length orig - 1" and ih: "al_hash (r (Suc n)) = al_hash (orig ! Suc n)"
    then have "Suc n < length orig" by linarith
    then show "al_hash (r n) = al_hash (orig ! n)" using same [OF _ ih] links [of n] linkO [of "Suc n"] by simp
  qed
  with same [OF k] show ?thesis by blast
qed

section \<open>Tampering\<close>

text \<open>
  C8: a chain that verifies against a remembered head is the chain that was written. Let \<open>orig\<close> be the chain an
  agent had when its head was noted, and let the table now hold any rows at all, none of them an erasure
  record or a checkpoint of that agent. If \<open>verifyAuditChain\<close> accepts the whole table with that head, then
  every row of \<open>orig\<close> is still there, at its place, with the content that was hashed; else two different
  payloads with one hash are exhibited. So a row that was edited, removed, inserted or moved breaks the
  verification.
\<close>

theorem tamper_evident:
  assumes ok: "vr_ok (verifyAuditChain H rows secret periodSecret opts hmacKey)"
    and whole: "vo_from opts = None" "vo_to opts = None" "\<not> vo_allowUnanchoredPrefix opts" "wanted opts a"
    and plain: "\<forall>r\<in>set rows. al_action r \<noteq> erasure_action"
    and no_cp: "\<forall>r\<in>set rows. al_agentId r = a \<and> al_chainSeq r \<noteq> None \<longrightarrow> al_action r \<noteq> checkpoint_action"
    and orig: "linked H hmacKey orig" "orig \<noteq> []" "al_hash (last orig) = Some hh"
    and head: "\<lparr>ch_agentId = a, ch_seq = int (length orig), ch_hash = hh\<rparr> \<in> set (vo_expectedHeads opts)"
  shows "(\<forall>k<length orig. \<exists>r. row_at rows a (int k + 1) = Some r \<and> al_hash r = al_hash (orig ! k) \<and> same_content r (orig ! k))
    \<or> (\<exists>k<length orig. \<exists>r. row_at rows a (int k + 1) = Some r
         \<and> chainPayload r (int k + 1) (al_prevHash r) \<noteq> chainPayload (orig ! k) (int k + 1) (al_prevHash (orig ! k))
         \<and> keyed H hmacKey (chainPayload r (int k + 1) (al_prevHash r))
           = keyed H hmacKey (chainPayload (orig ! k) (int k + 1) (al_prevHash (orig ! k))))"
proof -
  let ?S = "chain_rows a rows" and ?n = "length orig"
  obtain top where top: "row_at rows a (int ?n) = Some top" "al_hash top = Some hh"
    using verified_parts(2) [OF ok plain head] whole(4) by (auto simp: checkAnchor_None)
  have topS: "top \<in> set ?S" and topseq: "al_chainSeq top = Some (int ?n)"
    using row_at_SomeD [OF top(1)] by (simp_all add: set_chain_rows)
  have agent: "a \<in> set (agents_in opts rows)"
    using row_at_SomeD [OF top(1)] whole by (auto simp: agents_in_def in_range_def)
  obtain start where start: "start \<le> 1" and S: "\<And>i. i < length ?S \<Longrightarrow> al_chainSeq (?S ! i) = Some (start + int i)
      \<and> al_hash (?S ! i) = Some (computeRowHash H (?S ! i) (start + int i) (al_prevHash (?S ! i)) hmacKey)
      \<and> (0 < i \<longrightarrow> al_prevHash (?S ! i) = al_hash (?S ! (i - 1)))"
    using verified_chain [OF verified_parts(1) [OF ok plain agent] whole(1,2)] whole(3) no_cp topS by fastforce
  obtain m where m: "m < length ?S" "?S ! m = top" using topS by (auto simp: in_set_conv_nth)
  define off where "off = nat (1 - start)"
  have off: "start + int (off + k) = int k + 1" for k using start by (simp add: off_def)
  have "off + ?n = Suc m" using S [OF m(1)] m(2) topseq off [of "?n"] by simp
  then have len: "off + k < length ?S" if "k < ?n" for k using that m(1) by linarith
  have at: "row_at rows a (int k + 1) = Some (?S ! (off + k))" if "k < ?n" for k
    using row_at_chain [of a rows start, OF _ len [OF that]] S unfolding off by blast
  show ?thesis
  proof (rule disjCI)
    assume no: "\<not> (\<exists>k<length orig. \<exists>r. row_at rows a (int k + 1) = Some r
         \<and> chainPayload r (int k + 1) (al_prevHash r) \<noteq> chainPayload (orig ! k) (int k + 1) (al_prevHash (orig ! k))
         \<and> keyed H hmacKey (chainPayload r (int k + 1) (al_prevHash r))
           = keyed H hmacKey (chainPayload (orig ! k) (int k + 1) (al_prevHash (orig ! k))))"
    have "al_hash (?S ! (off + k)) = al_hash (orig ! k) \<and> same_content (?S ! (off + k)) (orig ! k)" if "k < ?n" for k
    proof (rule hashes_downward [of orig H "\<lambda>k. ?S ! (off + k)" hmacKey, OF _ _ _ orig(1) _ that])
      fix k assume k: "k < ?n"
      show "al_hash (?S ! (off + k)) = Some (computeRowHash H (?S ! (off + k)) (int k + 1) (al_prevHash (?S ! (off + k))) hmacKey)"
        using S [OF len [OF k]] unfolding off by blast
      assume "computeRowHash H (?S ! (off + k)) (int k + 1) (al_prevHash (?S ! (off + k))) hmacKey
          = computeRowHash H (orig ! k) (int k + 1) (al_prevHash (orig ! k)) hmacKey"
      then show "chainPayload (?S ! (off + k)) (int k + 1) (al_prevHash (?S ! (off + k)))
          = chainPayload (orig ! k) (int k + 1) (al_prevHash (orig ! k))"
        using no k at [OF k] unfolding computeRowHash_def by blast
    next
      fix k assume "Suc k < ?n"
      then show "al_prevHash (?S ! (off + Suc k)) = al_hash (?S ! (off + k))"
        using S [OF len [of "Suc k"]] by simp
    next
      have "off + (?n - 1) = m" using \<open>off + ?n = Suc m\<close> orig(2) by (cases orig) simp_all
      then show "al_hash (?S ! (off + (?n - 1))) = al_hash (last orig)" using m(2) top(2) orig(3) by simp
    qed
    then show "\<forall>k<length orig. \<exists>r. row_at rows a (int k + 1) = Some r \<and> al_hash r = al_hash (orig ! k) \<and> same_content r (orig ! k)"
      using at by blast
  qed
qed

section \<open>No false alarm\<close>

lemma is_digit_not_minus: "is_digit c \<Longrightarrow> c \<noteq> CHR ''-''"
  by (auto simp: is_digit_def)

lemma nat_str_all_digits: "list_all is_digit (nat_str n)"
  using nat_str_digits by (auto simp: list_all_iff)

lemma parse_period_int_str: "parse_period (int_str n) = Some n"
proof (cases "n < 0")
  case True
  then have "int_str n = CHR ''-'' # nat_str (nat (- n))" by (simp only: int_str_def if_True)
  then show ?thesis
    using True nat_str_all_digits [of "nat (- n)"] by (simp add: parse_period_def)
next
  case False
  then have eq: "int_str n = nat_str (nat n)" by (simp only: int_str_def if_False)
  have digits: "list_all is_digit (nat_str (nat n))" by (rule nat_str_all_digits)
  have "parse_period s = Some (int (digits_val s))" if "list_all is_digit s" "s \<noteq> []" for s
    using that is_digit_not_minus by (cases s) (auto simp: parse_period_def)
  from this [OF digits] False show ?thesis unfolding eq by simp
qed

lemma map_of_comprehension:
  "distinct (map fst xs) \<Longrightarrow>
   map_of [(k, f v). (k, v) \<leftarrow> xs, P v] k = (case map_of xs k of Some v \<Rightarrow> if P v then Some (f v) else None | None \<Rightarrow> None)"
proof (induction xs)
  case (Cons x xs)
  then have "fst x \<notin> dom (map_of xs)" by (simp add: dom_map_of_conv_image_fst)
  then have "map_of xs (fst x) = None" by blast
  with Cons show ?case by (cases x) (auto split: option.splits)
qed simp

lemma field_keys: "map fst (pseudonym_fields r) = [''userId'', ''agentId'', ''subjectId'', ''actorId'', ''approverId'']"
  by (simp add: pseudonym_fields_def)

lemma field_keys_distinct: "distinct (map fst (pseudonym_fields r))"
  by (simp add: field_keys)

lemma pseudonyms_lookup:
  "(k, v) \<in> set (pseudonym_fields r) \<Longrightarrow> present_id v \<Longrightarrow> map_of (pseudonyms_by f r) k = Some (f (the v))"
  unfolding pseudonyms_by_def
  by (simp add: map_of_comprehension [OF field_keys_distinct] map_of_is_SomeI [OF field_keys_distinct])

lemma period_not_field: "map_of (pseudonym_fields r) period_key = None"
proof -
  have "period_key \<notin> set (map fst (pseudonym_fields r))" by (simp add: field_keys period_key_def)
  then show ?thesis by (simp add: map_of_eq_None_iff)
qed

lemma pseudonyms_period: "map_of (pseudonyms_by f r) period_key = None"
  unfolding pseudonyms_by_def by (simp add: map_of_comprehension [OF field_keys_distinct] period_not_field)

lemma field_not_period: "(k, v) \<in> set (pseudonym_fields r) \<Longrightarrow> k \<noteq> period_key"
  using period_not_field [of r] by (force simp: map_of_eq_None_iff)

lemma no_mismatches:
  assumes "\<And>k v. (k, v) \<in> set (pseudonym_fields r) \<Longrightarrow> present_id v \<Longrightarrow> map_of (stored_of r) k = Some (f (the v))"
  shows "mismatches_by f r = []"
  unfolding mismatches_by_def by (rule concat_eq_Nil_conv [THEN iffD2]) (use assms in \<open>auto split: prod.splits\<close>)

text \<open>The secrets the verifier resolves are those the writers used.\<close>

definition scheme_known :: "string option \<Rightarrow> (int \<Rightarrow> string option) \<Rightarrow> pseudonym_scheme \<Rightarrow> bool" where
  "scheme_known key periodSecret scheme \<longleftrightarrow>
     (case scheme of Stable k \<Rightarrow> key = Some k \<and> k \<noteq> []
      | Rotating secret period \<Rightarrow> periodSecret period = Some secret \<or> periodSecret period = None)"

lemma idMismatches_none:
  assumes p: "al_idPseudonyms r = Some (pseudonyms_under H scheme r)"
    and s: "scheme_known (vc_pseudonymKey ctx) (vc_periodSecret ctx) scheme"
  shows "idMismatches H r ctx = []"
proof (cases scheme)
  case (Stable k)
  then have st: "stored_of r = pseudonyms_by (pseudonymize H k) r"
    using p by (simp add: stored_of_def pseudonyms_under_def computePseudonyms_def)
  then have "storedPeriod r = None" by (simp add: storedPeriod_def pseudonyms_period)
  moreover have "mismatches_by (pseudonymize H k) r = []"
    by (rule no_mismatches) (simp add: st pseudonyms_lookup)
  ultimately show ?thesis
    using s Stable by (simp add: idMismatches_def scheme_known_def pseudonymMismatches_def)
next
  case (Rotating secret period)
  then have st: "stored_of r = (period_key, int_str period) # pseudonyms_by (rotatingPseudonym H secret period) r"
    using p by (simp add: stored_of_def pseudonyms_under_def computeRotatingPseudonyms_def)
  then have "storedPeriod r = Some period" by (simp add: storedPeriod_def parse_period_int_str)
  moreover have "mismatches_by (rotatingPseudonym H secret period) r = []"
    by (rule no_mismatches) (use field_not_period in \<open>auto simp: st pseudonyms_lookup\<close>)
  ultimately show ?thesis
    using s Rotating by (auto simp: idMismatches_def scheme_known_def rotatingMismatches_def)
qed

lemma checkRow_linked:
  assumes l: "link_ok H (vc_hmacKey ctx) seq before r" and m: "idMismatches H r ctx = []"
    and b: "\<And>p. before = Some p \<Longrightarrow> al_chainSeq p = Some (seq - 1)"
  shows "fst (checkRow H r before ctx) = None"
proof -
  have s: "seq_or_0 r = seq" "versionOf r = 2" and h: "al_hash r \<noteq> None"
    using l by (auto simp: link_ok_def seq_or_0_def versionOf_def current_hash_version_def)
  have "fst (check_hash H r ctx n) = None" for n
    using l m s by (simp add: check_hash_def Let_def link_ok_def)
  then show ?thesis
    using l s h b by (auto simp: checkRow_def Let_def link_ok_def split: option.splits)
qed

lemma walk_rows_all_ok:
  "ar_brk acc = None \<Longrightarrow>
   (\<And>i. i < length rs \<Longrightarrow> fst (checkRow H (rs ! i) (if i = 0 then prev else Some (rs ! (i - 1))) ctx) = None) \<Longrightarrow>
   ar_brk (walk_rows H ctx a prev rs acc) = None"
proof (induction rs arbitrary: prev acc)
  case (Cons r rs)
  obtain er where c: "checkRow H r prev ctx = (None, er)"
    using Cons.prems(2) [of 0] by (cases "checkRow H r prev ctx") simp
  have "fst (checkRow H (rs ! i) (if i = 0 then Some r else Some (rs ! (i - 1))) ctx) = None" if "i < length rs" for i
    using Cons.prems(2) [of "Suc i"] that by (cases i) simp_all
  then show ?case using c Cons.prems(1) by (auto simp: Let_def split: option.splits intro!: Cons.IH)
qed simp

lemma linked_span:
  "linked H k rs \<Longrightarrow>
   filter (\<lambda>r. int l + 1 \<le> the (al_chainSeq r) \<and> the (al_chainSeq r) \<le> int h) rs = drop l (take h rs)"
proof (induction rs rule: rev_induct)
  case (snoc r rs)
  then have "linked H k rs" "al_chainSeq r = Some (int (length rs) + 1)" by (simp_all add: linked_snoc link_ok_def)
  with snoc.IH show ?case by (cases "length rs < h") auto
qed simp

lemma linked_sorted: "linked H k rs \<Longrightarrow> sorted (map (\<lambda>r. the (al_chainSeq r)) rs)"
  by (simp add: sorted_iff_nth_mono linked_seq)

lemma agent_verifies:
  assumes l: "linked H (vc_hmacKey ctx) (chained_of a rows)"
    and m: "\<forall>r\<in>set rows. idMismatches H r ctx = []"
  shows "ar_brk (verifyAgentChain H rows a opts ctx) = None"
proof -
  let ?cs = "chained_of a rows" and ?seq = "\<lambda>r. the (al_chainSeq r)"
  let ?sel = "filter (in_range opts) ?cs"
  let ?seqs = "map ?seq ?sel"
  show ?thesis
  proof (cases "?seqs = []")
    case False
    have pick: "\<exists>j<length ?cs. x = int j + 1" if "x \<in> set ?seqs" for x
    proof -
      obtain r where r: "r \<in> set ?cs" "x = the (al_chainSeq r)" using \<open>x \<in> set ?seqs\<close> by auto
      then obtain j where "j < length ?cs" "?cs ! j = r" by (auto simp: in_set_conv_nth)
      with r(2) linked_seq [OF l] show ?thesis by auto
    qed
    have ne: "finite (set ?seqs)" "set ?seqs \<noteq> {}"
      by (fact finite_set) (simp only: set_empty False not_False_eq_True)
    obtain j where j: "j < length ?cs" "Min (set ?seqs) = int j + 1" using pick [OF Min_in [OF ne]] by blast
    obtain h' where "Max (set ?seqs) = int h' + 1" using pick [OF Max_in [OF ne]] by blast
    then obtain h where h: "Max (set ?seqs) = int h" by (metis of_nat_Suc add.commute)
    let ?span = "drop j (take h ?cs)"
    have span: "filter (\<lambda>r. int j + 1 \<le> the (al_chainSeq r) \<and> the (al_chainSeq r) \<le> int h) ?cs = ?span"
      by (rule linked_span [OF l])
    have sorted: "sort_key ?seq ?span = ?span"
      by (rule sort_key_id_if_sorted) (simp add: linked_sorted [OF l] take_map [symmetric] drop_map [symmetric] sorted_wrt_drop sorted_wrt_take)
    define prev where "prev = (if 1 < int j + 1 then row_at rows a (int j + 1 - 1) else None)"
    have prev: "prev = (if j = 0 then None else Some (?cs ! (j - 1)))"
      using row_at_linked [OF l, of "j - 1"] j(1) by (auto simp: prev_def of_nat_diff)
    have walk: "ar_brk (walk_rows H ctx a prev ?span \<lparr>ar_checked = 0, ar_erased = 0, ar_head = None, ar_brk = None\<rparr>) = None"
    proof (rule walk_rows_all_ok)
      fix i assume "i < length ?span"
      then have i: "j + i < length ?cs" "j + i < h" by simp_all
      have at: "?span ! i = ?cs ! (j + i)" using i by simp
      have before: "(if i = 0 then prev else Some (?span ! (i - 1)))
          = (if j + i = 0 then None else Some (?cs ! (j + i - 1)))"
        using i prev by (auto simp: nth_drop)
      have "fst (checkRow H (?cs ! (j + i)) (if j + i = 0 then None else Some (?cs ! (j + i - 1))) ctx) = None"
      proof (rule checkRow_linked)
        show "link_ok H (vc_hmacKey ctx) (int (j + i) + 1) (if j + i = 0 then None else Some (?cs ! (j + i - 1))) (?cs ! (j + i))"
          using l i(1) unfolding linked_def by blast
        show "idMismatches H (?cs ! (j + i)) ctx = []"
          using m nth_mem [OF i(1)] by (simp add: chained_of_def)
        show "al_chainSeq p = Some (int (j + i) + 1 - 1)" if "(if j + i = 0 then None else Some (?cs ! (j + i - 1))) = Some p" for p
          using linked_seq [OF l, of "j + i - 1"] that i(1) by (auto split: if_splits)
      qed
      then show "fst (checkRow H (?span ! i) (if i = 0 then prev else Some (?span ! (i - 1))) ctx) = None"
        unfolding at before .
    qed simp
    have "\<not> (1 < int j + 1 \<and> prev = None)" using prev by auto
    then have no_start: "(if 1 < int j + 1 \<and> prev = None \<and> \<not> vc_allowUnanchoredPrefix ctx
        then checkStart H rows a (int j + 1) ctx else (None, 0)) = (None, 0)" by auto
    show ?thesis
      using False walk unfolding verifyAgentChain_def Let_def j(2) h span sorted prev_def [symmetric] no_start
      by (simp del: set_map)
  qed (simp add: verifyAgentChain_def Let_def)
qed

lemma verify_accepts:
  assumes reach: "reaches audit_start (audit_step H hmacKey schemes) s"
    and plain: "\<forall>r\<in>set (ad_rows (wd_db s)). al_action r \<noteq> erasure_action"
    and secrets: "\<forall>scheme\<in>schemes. scheme_known (pick_key hmacKey secret) periodSecret scheme"
    and heads: "\<forall>h\<in>set (vo_expectedHeads opts).
        \<exists>r. row_at (ad_rows (wd_db s)) (ch_agentId h) (ch_seq h) = Some r \<and> al_hash r = Some (ch_hash h)"
    and anchors: "\<forall>h\<in>set (vo_anchors opts).
        \<exists>r. row_at (ad_rows (wd_db s)) (ch_agentId h) (ch_seq h) = Some r \<and> al_hash r = Some (ch_hash h)
          \<and> (ca_id h = None \<or> ca_id h = Some (al_id r))"
  shows "vr_ok (verifyAuditChain H (ad_rows (wd_db s)) secret periodSecret opts hmacKey)"
proof -
  let ?rows = "ad_rows (wd_db s)"
  have inv: "world_inv H hmacKey schemes s" by (rule audit.inv_reachable [OF reach])
  have ps: "\<forall>r\<in>set ?rows. \<exists>scheme\<in>schemes. al_idPseudonyms r = Some (pseudonyms_under H scheme r)"
    using inv unfolding world_inv_def by (elim conjE)
  let ?ctx = "\<lparr>vc_hmacKey = hmacKey, vc_pseudonymKey = pick_key hmacKey secret, vc_periodSecret = periodSecret,
                   vc_erasures = [], vc_allowUnanchoredPrefix = vo_allowUnanchoredPrefix opts\<rparr>"
  have "idMismatches H r ?ctx = []" if "r \<in> set ?rows" for r
  proof -
    from bspec [OF ps that] obtain scheme where
      scheme: "scheme \<in> schemes" "al_idPseudonyms r = Some (pseudonyms_under H scheme r)" by (rule bexE)
    have "scheme_known (vc_pseudonymKey ?ctx) (vc_periodSecret ?ctx) scheme" using secrets scheme(1) by simp
    then show ?thesis by (rule idMismatches_none [OF scheme(2)])
  qed
  moreover have "linked H hmacKey (chained_of a ?rows)" for a using inv by (simp add: world_inv_def)
  ultimately have agents: "ar_brk (verifyAgentChain H ?rows a opts ?ctx) = None" for a
    by (intro agent_verifies) simp_all
  have pinned: "checkPinnedAnchor ?rows h = None" if h: "h \<in> set (vo_anchors opts)" for h
  proof -
    obtain r where "row_at ?rows (ch_agentId h) (ch_seq h) = Some r" "al_hash r = Some (ch_hash h)"
      "ca_id h = None \<or> ca_id h = Some (al_id r)" using anchors h by blast
    then show ?thesis by (simp add: checkPinnedAnchor_def Let_def)
  qed
  have seen: "checkAnchor ?rows h = None" if "h \<in> set (vo_expectedHeads opts)" for h
    unfolding checkAnchor_None using heads that by blast
  show ?thesis
    by (simp add: verifyAuditChain_def loadErasures_none [OF plain] Let_def foldl_first_of_None agents pinned seen)
qed

text \<open>
  C27: the verifier raises no false alarm. Take any state that interleaved writers can reach, with no erasure
  record in it, and any range, agent filter and limit on the prefix. With the key of the writers and the
  pseudonym secrets they used (or shredded ones), and with heads and anchors that name rows of the table,
  \<open>verifyAuditChain\<close> answers that the log is intact.
\<close>

theorem verify_accepts_written:
  assumes reach: "reaches audit_start (audit_step H hmacKey schemes) s"
    and plain: "\<forall>r\<in>set (ad_rows (wd_db s)). al_action r \<noteq> erasure_action"
    and secrets: "\<forall>scheme\<in>schemes. scheme_known (pick_key hmacKey secret) periodSecret scheme"
    and heads: "\<forall>h\<in>set (vo_expectedHeads opts).
        \<exists>r. row_at (ad_rows (wd_db s)) (ch_agentId h) (ch_seq h) = Some r \<and> al_hash r = Some (ch_hash h)"
    and anchors: "\<forall>h\<in>set (vo_anchors opts).
        \<exists>r. row_at (ad_rows (wd_db s)) (ch_agentId h) (ch_seq h) = Some r \<and> al_hash r = Some (ch_hash h)
          \<and> (ca_id h = None \<or> ca_id h = Some (al_id r))"
  shows "vr_ok (verifyAuditChain H (ad_rows (wd_db s)) secret periodSecret opts hmacKey)"
  using assms by (rule verify_accepts)

text \<open>An instance: the log of one row, verified with the head it had.\<close>

definition head_options :: "ident \<Rightarrow> int \<Rightarrow> string \<Rightarrow> verify_options" where
  "head_options agentId seq hash =
     \<lparr>vo_from = None, vo_to = None, vo_agentId = None,
      vo_expectedHeads = [\<lparr>ch_agentId = agentId, ch_seq = seq, ch_hash = hash\<rparr>], vo_anchors = [],
      vo_allowUnanchoredPrefix = False\<rparr>"

abbreviation sample_log :: "audit_log list" where
  "sample_log \<equiv> ad_rows (wd_db (first_world plain_hashes None (Stable ''k'') sample_input))"

abbreviation sample_row :: audit_log where
  "sample_row \<equiv> first_row plain_hashes None (Stable ''k'') sample_input"

lemma sample_log_rows: "sample_log = [sample_row]"
  by (simp add: first_world_def)

lemma sample_row_facts: "al_agentId sample_row = ''a''" "al_action sample_row = ''read''" "al_chainSeq sample_row = Some 1"
  by (simp_all add: first_row_def link_row_facts stamp_row_def Let_def sample_input_def link_row_def)

lemma sample_at: "row_at sample_log ''a'' 1 = Some sample_row"
  by (simp add: sample_log_rows row_at_def sample_row_facts)

lemma sample_plain: "\<forall>r\<in>set sample_log. al_action r \<noteq> erasure_action \<and> al_action r \<noteq> checkpoint_action"
  by (simp add: sample_log_rows sample_row_facts erasure_action_def checkpoint_action_def)

lemma sample_hash: "\<exists>h. al_hash sample_row = Some h"
  by (simp add: first_row_def link_row_facts)

lemma verify_accepts_written_witness:
  "vr_ok (verifyAuditChain plain_hashes sample_log (Some ''k'') (\<lambda>_. None) (head_options ''a'' 1 (the (al_hash sample_row))) None)"
  by (rule verify_accepts_written [OF first_world_reached])
    (use sample_at sample_plain sample_hash in \<open>auto simp: head_options_def scheme_known_def pick_key_def\<close>)

lemma tamper_evident_witness:
  "\<exists>r. row_at sample_log ''a'' 1 = Some r \<and> al_hash r = al_hash sample_row \<and> same_content r sample_row"
proof -
  obtain h where h: "al_hash sample_row = Some h" using sample_hash by blast
  have l: "linked plain_hashes None [sample_row]"
    using linked_first [of plain_hashes None "Stable ''k''" sample_input] .
  have ok: "vr_ok (verifyAuditChain plain_hashes sample_log (Some ''k'') (\<lambda>_. None) (head_options ''a'' 1 h) None)"
    by (rule verify_accepts [OF first_world_reached])
      (use sample_at sample_plain h in \<open>auto simp: head_options_def scheme_known_def pick_key_def\<close>)
  note d = tamper_evident [OF ok _ _ _ _ _ _ l, of "''a''" h]
  have "(\<forall>k<1. \<exists>r. row_at sample_log ''a'' (int k + 1) = Some r \<and> al_hash r = al_hash ([sample_row] ! k)
      \<and> same_content r ([sample_row] ! k))"
    using d sample_plain h by (auto simp: head_options_def wanted_def keyed_def plain_hashes_def)
  then show ?thesis by simp
qed

end
