(* ===== verification/AgentStore.thy ===== *)
theory AgentStore
  imports PermissionEngine DelegationStore "HOL-Library.Word"
begin

unbundle bit_operations_syntax

text \<open>
  Agents: \<open>agent/agent.ts\<close> (creating, changing, revoking and resolving agents), \<open>agent/confirmation.ts\<close>
  (tokens bound to a key) and \<open>agent/token-format.ts\<close>. SHA-256, random secrets and ids are arguments. The
  denylist of the MCP server that a revocation also publishes to is output only. Agents come with the
  delegation tables, since revoking an agent revokes its links.
\<close>

section \<open>Token format\<close>

definition agent_token_prefix :: string where "agent_token_prefix = ''ta_''"
definition legacy_agent_token_prefixes :: "string list" where "legacy_agent_token_prefixes = [''kv_'']"
definition agent_token_lookup_prefix_length :: nat where
  "agent_token_lookup_prefix_length = length agent_token_prefix + 8"

definition isAgentToken :: "string \<Rightarrow> bool" where
  "isAgentToken token \<longleftrightarrow>
     starts_with agent_token_prefix token \<or> list_ex (\<lambda>p. starts_with p token) legacy_agent_token_prefixes"

definition agentTokenLookupPrefix :: "string \<Rightarrow> string" where
  "agentTokenLookupPrefix token = take agent_token_lookup_prefix_length token"

section \<open>Constant-time comparison\<close>

text \<open>\<open>TextEncoder\<close> on the code units of the model.\<close>

fun utf8 :: "string \<Rightarrow> nat list" where
  "utf8 [] = []"
| "utf8 (c # s) =
     (let n = of_char c in (if n < 128 then [n] else [192 + n div 64, 128 + n mod 64]) @ utf8 s)"

definition at_or_0 :: "nat list \<Rightarrow> nat \<Rightarrow> nat" where
  "at_or_0 bs i = (if i < length bs then bs ! i else 0)"

text \<open>Every position of the longer text is looked at; the differences are collected in one number.\<close>

definition timingSafeEqual :: "string \<Rightarrow> string \<Rightarrow> bool" where
  "timingSafeEqual a b \<longleftrightarrow>
     (let x = utf8 a; y = utf8 b
      in foldl (\<lambda>diff i. diff OR (at_or_0 x i XOR at_or_0 y i)) (length x XOR length y)
           [0..<max (length x) (length y)] = 0)"

lemma foldl_or_zero: "foldl (\<lambda>d i. d OR f i) d is = 0 \<longleftrightarrow> d = 0 \<and> (\<forall>i\<in>set is. f i = 0)"
  for d :: nat and f :: "nat \<Rightarrow> nat"
  by (induction "is" arbitrary: d) (auto simp: or_eq_0_iff)

lemma xor_zero_iff: "a XOR b = 0 \<longleftrightarrow> a = b" for a b :: nat
proof
  assume "a XOR b = 0"
  then have "(a XOR b) XOR b = 0 XOR b" by simp
  then show "a = b" by (simp add: xor.assoc)
qed simp

definition utf8_char :: "nat \<Rightarrow> nat list" where
  "utf8_char n = (if n < 128 then [n] else [192 + n div 64, 128 + n mod 64])"

lemma utf8_char_inject: "utf8_char n @ xs = utf8_char m @ ys \<Longrightarrow> n = m \<and> xs = ys"
proof -
  assume eq: "utf8_char n @ xs = utf8_char m @ ys"
  have split: "n = m" if "n div 64 = m div 64" "n mod 64 = m mod 64" using that by (metis div_mult_mod_eq)
  show ?thesis
  proof (cases "n < 128"; cases "m < 128")
    assume "\<not> n < 128" "\<not> m < 128"
    with eq split show ?thesis by (simp add: utf8_char_def)
  qed (use eq in \<open>auto simp: utf8_char_def\<close>)
qed

lemma utf8_Cons: "utf8 (c # s) = utf8_char (of_char c) @ utf8 s"
  by (simp add: utf8_char_def Let_def)

lemma utf8_Nil_iff: "utf8 s = [] \<longleftrightarrow> s = []"
  by (cases s) (auto simp: Let_def)

lemma utf8_inject: "utf8 a = utf8 b \<Longrightarrow> a = b"
proof (induction a arbitrary: b)
  case Nil
  then show ?case using utf8_Nil_iff [of b] by simp
next
  case (Cons c a)
  then obtain d b' where b: "b = d # b'" using utf8_Nil_iff by (metis list.exhaust)
  then have "of_char c = (of_char d :: nat) \<and> utf8 a = utf8 b'"
    using utf8_char_inject Cons.prems by (simp only: utf8_Cons)
  then show ?case using Cons.IH b by simp
qed

lemma timingSafeEqual_iff: "timingSafeEqual a b \<longleftrightarrow> a = b"
proof
  assume t: "timingSafeEqual a b"
  let ?x = "utf8 a" and ?y = "utf8 b"
  have len: "length ?x = length ?y"
    and same: "i < max (length ?x) (length ?y) \<Longrightarrow> at_or_0 ?x i = at_or_0 ?y i" for i
    using t by (simp_all add: timingSafeEqual_def Let_def foldl_or_zero xor_zero_iff)
  have "?x = ?y" by (rule nth_equalityI [OF len]) (use len same in \<open>auto simp: at_or_0_def\<close>)
  then show "a = b" by (rule utf8_inject)
qed (simp add: timingSafeEqual_def Let_def foldl_or_zero)

section \<open>Confirmation\<close>

type_synonym confirmation = "(string \<times> string) list"

definition alnum :: "char \<Rightarrow> bool" where
  "alnum c \<longleftrightarrow>
     (let n = (of_char c :: nat) in (65 \<le> n \<and> n \<le> 90) \<or> (97 \<le> n \<and> n \<le> 122) \<or> (48 \<le> n \<and> n \<le> 57))"

definition member_name :: "string \<Rightarrow> bool" where
  "member_name s \<longleftrightarrow> 1 \<le> length s \<and> length s \<le> 32 \<and> list_all (\<lambda>c. alnum c \<or> c \<in> set ''#_-'') s"

definition thumbprint :: "string \<Rightarrow> bool" where
  "thumbprint s \<longleftrightarrow> 16 \<le> length s \<and> length s \<le> 128 \<and> list_all (\<lambda>c. alnum c \<or> c \<in> set ''_-'') s"

definition max_members :: nat where "max_members = 4"

fun member_entries :: "(string \<times> json) list \<Rightarrow> confirmation option" where
  "member_entries [] = Some []"
| "member_entries ((k, v) # kvs) =
     (case v of
        JStr s \<Rightarrow> if member_name k \<and> thumbprint s then map_option ((#) (k, s)) (member_entries kvs) else None
      | _ \<Rightarrow> None)"

text \<open>\<open>AgentConfirmationSchema\<close>: \<open>None\<close> is a failed parse. No member is called \<open>__proto__\<close>.\<close>

definition parseConfirmation :: "json \<Rightarrow> confirmation option" where
  "parseConfirmation input =
     (case input of
        JObj kvs \<Rightarrow> (if 1 \<le> length kvs \<and> length kvs \<le> max_members then member_entries kvs else None)
      | _ \<Rightarrow> None)"

definition readStoredConfirmation :: "json option \<Rightarrow> confirmation option" where
  "readStoredConfirmation raw =
     (if raw = None \<or> raw = Some JNull then None
      else Some (case parseConfirmation (the raw) of
                   Some c \<Rightarrow> c | None \<Rightarrow> [(''unreadable'', ''unreadable-binding'')]))"

datatype confirmation_verdict = Confirmed | Required | Failed

definition confirmationVerdict :: "confirmation option \<Rightarrow> confirmation option \<Rightarrow> confirmation_verdict" where
  "confirmationVerdict bound presented =
     (case bound of
        None \<Rightarrow> Confirmed
      | Some b \<Rightarrow>
          if b = [] then Confirmed
          else case presented of
                 None \<Rightarrow> Required
               | Some p \<Rightarrow>
                   if p = [] then Required
                   else if list_all (\<lambda>(member, expected).
                          case map_of p member of None \<Rightarrow> False | Some actual \<Rightarrow> timingSafeEqual expected actual) b
                   then Confirmed else Failed)"

lemma confirmation_iff:
  "confirmationVerdict bound presented = Confirmed \<longleftrightarrow>
     bound = None \<or> (\<exists>b. bound = Some b \<and> (b = [] \<or>
       (\<exists>p. presented = Some p \<and> p \<noteq> [] \<and> (\<forall>(m, t)\<in>set b. map_of p m = Some t))))"
proof -
  have "list_all (\<lambda>(m, t). case map_of p m of None \<Rightarrow> False | Some a \<Rightarrow> timingSafeEqual t a) b
      \<longleftrightarrow> (\<forall>(m, t)\<in>set b. map_of p m = Some t)" for p b :: confirmation
    unfolding list_all_iff timingSafeEqual_iff by (intro ball_cong refl) (auto split: option.splits)
  then show ?thesis unfolding confirmationVerdict_def by (cases bound; cases presented) auto
qed

section \<open>Agents\<close>

datatype agent_type = Autonomous | DelegatedAgent | Service | Device

record full_agent = agent_row +
  fa_tenantId :: "ident option"
  fa_name :: string
  fa_type :: agent_type
  fa_tokenHash :: string
  fa_tokenPrefix :: string
  fa_cnf :: "json option"
  fa_metadata :: "json option"
  fa_lastActiveAt :: "time option"
  fa_createdAt :: time
  fa_updatedAt :: time

record cascade_audit =
  ca_agentId :: ident
  ca_userId :: ident
  ca_revoked :: "ident list"

record agent_db =
  at_agents :: "full_agent list"
  at_permissions :: "permission_row list"
  at_chains :: "chain_row list"
  at_delegationAudit :: "delegation_audit list"
  at_cascades :: "cascade_audit list"

text \<open>The tables as the delegation module sees them.\<close>

definition deleg_of :: "agent_db \<Rightarrow> deleg_db" where
  "deleg_of db =
     \<lparr>dd_agents = map agent_row.truncate (at_agents db), dd_permissions = at_permissions db,
      dd_chains = at_chains db, dd_audit = at_delegationAudit db\<rparr>"

record agent_view = agent_identity +
  av_tenantId :: "ident option"
  av_type :: agent_type
  av_status :: row_status
  av_expiresAt :: "time option"
  av_cnf :: "confirmation option"
  av_createdAt :: time
  av_updatedAt :: time

definition identity_of :: "full_agent \<Rightarrow> permission list \<Rightarrow> row_status \<Rightarrow> agent_view" where
  "identity_of a perms status =
     \<lparr>agent_identity.ag_id = agent_row.ag_id a, agent_identity.ag_name = fa_name a,
      agent_identity.ag_ownerId = agent_row.ag_ownerId a, agent_identity.ag_permissions = perms,
      av_tenantId = fa_tenantId a, av_type = fa_type a, av_status = status, av_expiresAt = ag_expiresAt a,
      av_cnf = readStoredConfirmation (fa_cnf a), av_createdAt = fa_createdAt a, av_updatedAt = fa_updatedAt a\<rparr>"

record create_agent_input =
  ci_ownerId :: ident
  ci_tenantId :: "ident option"
  ci_name :: string
  ci_type :: agent_type
  ci_permissions :: "permission list"
  ci_expiresAt :: "time option option"
  ci_metadata :: "json option"
  ci_cnf :: "json option"

record update_agent_input =
  ui_name :: "string option"
  ui_permissions :: "permission list option"
  ui_expiresAt :: "time option option"
  ui_metadata :: "json option"

datatype agent_error =
    InvalidExpiresAt
  | DeviceRefused
  | TooManyAgents nat
  | InvalidConfirmation
  | InvalidTokenExpiry string
  | AgentMissing ident
  | RotateInactive row_status
  | RotateDevice
  | CascadeFailed delegation_error

text \<open>What a call draws: the id, the secret, and the clock, read again for the expiry.\<close>

record agent_draw =
  dw_id :: ident
  dw_secret :: string
  dw_now :: time
  dw_later :: time

record agent_config =
  ag_maxPerUser :: nat
  ag_tokenExpiry :: string

text \<open>\<open>assertValidExpiry\<close>: an expiry that is given is \<open>Some None\<close> when it is not a finite date.\<close>

definition expiry_invalid :: "time option option \<Rightarrow> bool" where
  "expiry_invalid e \<longleftrightarrow> e = Some None"

definition parseTokenExpiry :: "string \<Rightarrow> time \<Rightarrow> time option" where
  "parseTokenExpiry expiry now =
     (let ds = takeWhile is_digit expiry; unit = dropWhile is_digit expiry; v = int (digits_val ds)
      in if ds = [] then None
         else if unit = ''s'' then Some (now + v * 1000)
         else if unit = ''m'' then Some (now + v * 60000)
         else if unit = ''h'' then Some (now + v * 3600000)
         else if unit = ''d'' then Some (now + v * 86400000)
         else None)"

text \<open>The insert of permissions does not write the \<open>relation\<close> of a permission.\<close>

definition permission_rows :: "ident \<Rightarrow> permission list \<Rightarrow> permission_row list" where
  "permission_rows agentId perms =
     map (\<lambda>p. \<lparr>pr_agentId = agentId, pr_permission = p\<lparr>pm_relation := None\<rparr>\<rparr>) perms"

definition active_of :: "ident \<Rightarrow> full_agent list \<Rightarrow> full_agent list" where
  "active_of owner agents =
     filter (\<lambda>a. agent_row.ag_ownerId a = owner \<and> ag_status a = RowActive \<and> fa_type a \<noteq> Device) agents"

definition stored_cnf :: "confirmation option \<Rightarrow> json option" where
  "stored_cnf cnf = map_option (\<lambda>c. JObj (map (\<lambda>(k, v). (k, JStr v)) c)) cnf"

definition create_row ::
  "(string \<Rightarrow> string) \<Rightarrow> agent_draw \<Rightarrow> create_agent_input \<Rightarrow> confirmation option \<Rightarrow> time \<Rightarrow> full_agent" where
  "create_row sha256 dw input cnf expires =
     (let token = agent_token_prefix @ dw_secret dw in
      \<lparr>agent_row.ag_id = dw_id dw, agent_row.ag_ownerId = ci_ownerId input, ag_status = RowActive,
       ag_expiresAt = Some expires, fa_tenantId = ci_tenantId input, fa_name = ci_name input,
       fa_type = ci_type input, fa_tokenHash = sha256 token, fa_tokenPrefix = agentTokenLookupPrefix token,
       fa_cnf = stored_cnf cnf,
       fa_metadata = Some (case ci_metadata input of None \<Rightarrow> JObj [] | Some m \<Rightarrow> m),
       fa_lastActiveAt = None, fa_createdAt = dw_now dw, fa_updatedAt = dw_now dw\<rparr>)"

definition create_cnf :: "create_agent_input \<Rightarrow> agent_error + confirmation option" where
  "create_cnf input =
     (case ci_cnf input of
        None \<Rightarrow> Inr None
      | Some raw \<Rightarrow> (case parseConfirmation raw of None \<Rightarrow> Inl InvalidConfirmation | Some c \<Rightarrow> Inr (Some c)))"

definition create_expiry :: "agent_config \<Rightarrow> agent_draw \<Rightarrow> create_agent_input \<Rightarrow> agent_error + time" where
  "create_expiry cf dw input =
     (case ci_expiresAt input of
        Some (Some t) \<Rightarrow> Inr t
      | _ \<Rightarrow> (case parseTokenExpiry (ag_tokenExpiry cf) (dw_later dw) of
                None \<Rightarrow> Inl (InvalidTokenExpiry (ag_tokenExpiry cf)) | Some t \<Rightarrow> Inr t))"

text \<open>
  \<open>create\<close> answers the identity (with the permissions as they were passed) and the token. This is a call that
  nobody interrupts; \<open>AgentCap\<close> has its statements one by one.
\<close>

definition create ::
  "agent_config \<Rightarrow> (string \<Rightarrow> string) \<Rightarrow> agent_draw \<Rightarrow> create_agent_input \<Rightarrow> agent_db
     \<Rightarrow> (agent_error + agent_view \<times> string) \<times> agent_db" where
  "create cf sha256 dw input db =
     (if expiry_invalid (ci_expiresAt input) then (Inl InvalidExpiresAt, db)
      else if ci_type input = Device then (Inl DeviceRefused, db)
      else if ag_maxPerUser cf \<le> length (active_of (ci_ownerId input) (at_agents db))
      then (Inl (TooManyAgents (ag_maxPerUser cf)), db)
      else (case create_cnf input of
              Inl e \<Rightarrow> (Inl e, db)
            | Inr cnf \<Rightarrow>
                (case create_expiry cf dw input of
                   Inl e \<Rightarrow> (Inl e, db)
                 | Inr expires \<Rightarrow>
                     (let row = create_row sha256 dw input cnf expires
                      in (Inr ((identity_of row (ci_permissions input) RowActive)\<lparr>av_cnf := cnf\<rparr>,
                               agent_token_prefix @ dw_secret dw),
                          db\<lparr>at_agents := at_agents db @ [row],
                             at_permissions := at_permissions db @ permission_rows (dw_id dw) (ci_permissions input)\<rparr>)))))"

definition agent_by_id :: "ident \<Rightarrow> agent_db \<Rightarrow> full_agent option" where
  "agent_by_id i db = List.find (\<lambda>a. agent_row.ag_id a = i) (at_agents db)"

text \<open>The permissions of an agent as \<open>toPermission\<close> reads them: without their relation.\<close>

definition permissions_of :: "ident \<Rightarrow> agent_db \<Rightarrow> permission list" where
  "permissions_of i db = ownPermissions (deleg_of db) i"

definition get :: "ident \<Rightarrow> agent_db \<Rightarrow> agent_view option" where
  "get i db = map_option (\<lambda>a. identity_of a (permissions_of i db) (ag_status a)) (agent_by_id i db)"

record agent_filter =
  af_userId :: "ident option"
  af_tenantId :: "ident option"
  af_status :: "row_status option"
  af_type :: "agent_type option"

definition given :: "string option \<Rightarrow> bool" where
  "given s \<longleftrightarrow> s \<noteq> None \<and> s \<noteq> Some []"

definition list_agents :: "agent_filter option \<Rightarrow> agent_db \<Rightarrow> agent_view list" where
  "list_agents flt db =
     (let keep = (\<lambda>a. (case flt of
            None \<Rightarrow> fa_type a \<noteq> Device
          | Some f \<Rightarrow>
              (given (af_userId f) \<longrightarrow> Some (agent_row.ag_ownerId a) = af_userId f)
              \<and> (given (af_tenantId f) \<longrightarrow> fa_tenantId a = af_tenantId f)
              \<and> (case af_status f of None \<Rightarrow> True | Some s \<Rightarrow> ag_status a = s)
              \<and> (case af_type f of None \<Rightarrow> fa_type a \<noteq> Device | Some t \<Rightarrow> fa_type a = t)))
      in map (\<lambda>a. identity_of a (permissions_of (agent_row.ag_id a) db) (ag_status a)) (filter keep (at_agents db)))"

definition set_agent :: "ident \<Rightarrow> (full_agent \<Rightarrow> full_agent) \<Rightarrow> agent_db \<Rightarrow> agent_db" where
  "set_agent i f db = db\<lparr>at_agents := update_where (\<lambda>a. agent_row.ag_id a = i) f (at_agents db)\<rparr>"

definition agent_change :: "full_agent \<Rightarrow> update_agent_input \<Rightarrow> time \<Rightarrow> full_agent \<Rightarrow> full_agent" where
  "agent_change existing input now a =
     a\<lparr>fa_name := (case ui_name input of None \<Rightarrow> fa_name existing | Some n \<Rightarrow> n),
       ag_expiresAt := (case ui_expiresAt input of Some (Some t) \<Rightarrow> Some t | _ \<Rightarrow> ag_expiresAt existing),
       fa_metadata := (case ui_metadata input of None \<Rightarrow> fa_metadata a | m \<Rightarrow> m),
       fa_updatedAt := now\<rparr>"

definition update_agent ::
  "ident \<Rightarrow> update_agent_input \<Rightarrow> time \<Rightarrow> agent_db \<Rightarrow> (agent_error + agent_view) \<times> agent_db" where
  "update_agent i input now db =
     (if expiry_invalid (ui_expiresAt input) then (Inl InvalidExpiresAt, db)
      else case agent_by_id i db of
             None \<Rightarrow> (Inl (AgentMissing i), db)
           | Some existing \<Rightarrow>
               (let db1 = set_agent i (agent_change existing input now) db;
                    db2 = (case ui_permissions input of
                             None \<Rightarrow> db1
                           | Some perms \<Rightarrow> db1\<lparr>at_permissions :=
                               delete_where (\<lambda>r. pr_agentId r = i) (at_permissions db1) @ permission_rows i perms\<rparr>)
                in (case get i db2 of None \<Rightarrow> Inl (AgentMissing i) | Some v \<Rightarrow> Inr v, db2)))"

text \<open>\<open>revoke\<close>: the agent first, then every link it is part of.\<close>

definition revoke :: "ident \<Rightarrow> time \<Rightarrow> agent_db \<Rightarrow> (agent_error + ident list) \<times> agent_db" where
  "revoke i now db =
     (case agent_by_id i db of
        None \<Rightarrow> (Inl (AgentMissing i), db)
      | Some existing \<Rightarrow>
          (let db1 = set_agent i (\<lambda>a. a\<lparr>ag_status := RowRevoked, fa_updatedAt := now\<rparr>) db
           in case revokeAllForAgent i None (deleg_of db1) of
                (res, dd) \<Rightarrow>
                  (let db2 = db1\<lparr>at_chains := dd_chains dd, at_delegationAudit := dd_audit dd\<rparr>
                   in case res of
                        Inl e \<Rightarrow> (Inl (CascadeFailed e), db2)
                      | Inr ids \<Rightarrow>
                          (Inr ids,
                           if ids = [] then db2
                           else db2\<lparr>at_cascades := at_cascades db2 @
                                  [\<lparr>ca_agentId = i, ca_userId = agent_row.ag_ownerId existing, ca_revoked = ids\<rparr>]\<rparr>))))"

text \<open>The \<open>cnf\<close> option of \<open>rotate\<close>: not given, \<open>null\<close>, or a new binding.\<close>

datatype rebind = KeepBinding | Unbind | BindTo json

definition rebinding :: "rebind \<Rightarrow> agent_error + confirmation option option" where
  "rebinding option_cnf =
     (case option_cnf of
        KeepBinding \<Rightarrow> Inr None
      | Unbind \<Rightarrow> Inr (Some None)
      | BindTo raw \<Rightarrow>
          (case parseConfirmation raw of None \<Rightarrow> Inl InvalidConfirmation | Some c \<Rightarrow> Inr (Some (Some c))))"

definition rotate_change ::
  "(string \<Rightarrow> string) \<Rightarrow> string \<Rightarrow> time \<Rightarrow> confirmation option option \<Rightarrow> full_agent \<Rightarrow> full_agent" where
  "rotate_change sha256 token now re a =
     a\<lparr>fa_tokenHash := sha256 token, fa_tokenPrefix := agentTokenLookupPrefix token, fa_updatedAt := now,
       fa_cnf := (case re of None \<Rightarrow> fa_cnf a | Some c \<Rightarrow> stored_cnf c)\<rparr>"

definition rotate ::
  "(string \<Rightarrow> string) \<Rightarrow> agent_draw \<Rightarrow> rebind \<Rightarrow> ident \<Rightarrow> agent_db \<Rightarrow> (agent_error + agent_view \<times> string) \<times> agent_db" where
  "rotate sha256 dw option_cnf i db =
     (case get i db of
        None \<Rightarrow> (Inl (AgentMissing i), db)
      | Some existing \<Rightarrow>
          if av_status existing \<noteq> RowActive then (Inl (RotateInactive (av_status existing)), db)
          else if av_type existing = Device then (Inl RotateDevice, db)
          else (case rebinding option_cnf of
                  Inl e \<Rightarrow> (Inl e, db)
                | Inr re \<Rightarrow>
                    (let token = agent_token_prefix @ dw_secret dw
                     in (Inr (existing\<lparr>av_cnf := (case re of None \<Rightarrow> av_cnf existing | Some c \<Rightarrow> c),
                                       av_updatedAt := dw_now dw\<rparr>, token),
                         set_agent i (rotate_change sha256 token (dw_now dw) re) db))))"

record rejected_token =
  rt_agentId :: ident
  rt_ownerId :: ident
  rt_expired :: bool

definition agent_by_hash :: "string \<Rightarrow> agent_db \<Rightarrow> full_agent option" where
  "agent_by_hash h db = List.find (\<lambda>a. fa_tokenHash a = h) (at_agents db)"

definition resolveToken ::
  "(string \<Rightarrow> string) \<Rightarrow> string \<Rightarrow> time \<Rightarrow> agent_db \<Rightarrow> (agent_view option \<times> rejected_token option) \<times> agent_db" where
  "resolveToken sha256 token now db =
     (if \<not> isAgentToken token then ((None, None), db)
      else case agent_by_hash (sha256 token) db of
             None \<Rightarrow> ((None, None), db)
           | Some a \<Rightarrow>
               (let rejected = (\<lambda>expired. Some \<lparr>rt_agentId = agent_row.ag_id a, rt_ownerId = agent_row.ag_ownerId a,
                                             rt_expired = expired\<rparr>)
                in if ag_status a \<noteq> RowActive then ((None, rejected (ag_status a = RowExpired)), db)
                   else if (case ag_expiresAt a of None \<Rightarrow> False | Some t \<Rightarrow> t < now)
                   then ((None, rejected True),
                         set_agent (agent_row.ag_id a) (\<lambda>a. a\<lparr>ag_status := RowExpired, fa_updatedAt := now\<rparr>) db)
                   else ((Some (identity_of a (permissions_of (agent_row.ag_id a) db) RowActive), None),
                         set_agent (agent_row.ag_id a) (\<lambda>a. a\<lparr>fa_lastActiveAt := Some now\<rparr>) db)))"

definition validateToken ::
  "(string \<Rightarrow> string) \<Rightarrow> string \<Rightarrow> time \<Rightarrow> agent_db \<Rightarrow> agent_view option \<times> agent_db" where
  "validateToken sha256 token now db =
     (case resolveToken sha256 token now db of ((agent, rejected), db') \<Rightarrow> (agent, db'))"

section \<open>What the operations do to the rows\<close>

text \<open>A change of rows that keeps ids, owners and types and activates nothing.\<close>

definition tame :: "(full_agent \<Rightarrow> full_agent) \<Rightarrow> bool" where
  "tame f \<longleftrightarrow> (\<forall>a. agent_row.ag_id (f a) = agent_row.ag_id a \<and> agent_row.ag_ownerId (f a) = agent_row.ag_ownerId a
      \<and> fa_type (f a) = fa_type a \<and> (ag_status (f a) = RowActive \<longrightarrow> ag_status a = RowActive))"

lemma active_of_tame:
  assumes "tame f" shows "length (active_of o' (update_where P f as)) \<le> length (active_of o' as)"
  using assms by (induction as) (auto simp: active_of_def tame_def le_SucI)

lemma create_cases:
  assumes "create cf sha256 dw input db = (r, db')"
  shows "(\<exists>e. r = Inl e \<and> db' = db) \<or>
    (\<exists>cnf expires row. row = create_row sha256 dw input cnf expires
       \<and> create_cnf input = Inr cnf \<and> create_expiry cf dw input = Inr expires \<and> ci_type input \<noteq> Device
       \<and> length (active_of (ci_ownerId input) (at_agents db)) < ag_maxPerUser cf
       \<and> r = Inr ((identity_of row (ci_permissions input) RowActive)\<lparr>av_cnf := cnf\<rparr>, agent_token_prefix @ dw_secret dw)
       \<and> db' = db\<lparr>at_agents := at_agents db @ [row],
                  at_permissions := at_permissions db @ permission_rows (dw_id dw) (ci_permissions input)\<rparr>)"
  using assms by (auto simp: create_def Let_def split: if_splits sum.splits)

lemma create_row_simps [simp]:
  "agent_row.ag_id (create_row sha256 dw input cnf e) = dw_id dw"
  "agent_row.ag_ownerId (create_row sha256 dw input cnf e) = ci_ownerId input"
  "ag_status (create_row sha256 dw input cnf e) = RowActive"
  "ag_expiresAt (create_row sha256 dw input cnf e) = Some e"
  "fa_type (create_row sha256 dw input cnf e) = ci_type input"
  "fa_tokenHash (create_row sha256 dw input cnf e) = sha256 (agent_token_prefix @ dw_secret dw)"
  "fa_cnf (create_row sha256 dw input cnf e) = stored_cnf cnf"
  by (simp_all add: create_row_def Let_def)

lemma update_agents: "at_agents (snd (update_agent i input now db)) = at_agents db \<or>
   (\<exists>existing. at_agents (snd (update_agent i input now db)) = at_agents (set_agent i (agent_change existing input now) db))"
  by (auto simp: update_agent_def Let_def split: option.splits)

lemma tame_change: "tame (agent_change existing input now)"
  by (simp add: tame_def agent_change_def)

section \<open>Revocation takes effect\<close>

lemma revoke_rows_clears:
  "unique_keys ch_id (dd_chains db) \<Longrightarrow> \<forall>r\<in>set rows. present db (ch_id r) \<Longrightarrow>
   \<exists>ids db'. revoke_rows rows by db = (Inr ids, db') \<and> only_revokes (dd_chains db) (dd_chains db')
     \<and> cascaded db db' \<and> (\<forall>d\<in>act db'. ch_id d \<notin> ch_id ` set rows)"
proof (induction rows "by" db rule: revoke_rows.induct)
  case (2 row rows by' db)
  obtain c where c: "chain_by_id db (ch_id row) = Some c" using "2.prems"(2) by (auto simp: present_def)
  show ?case
  proof (cases "map_option ch_status (chain_by_id db (ch_id row)) = Some RowExpired")
    case True
    then have "ch_status c = RowExpired" using c by simp
    then have "c \<notin> act db" by (simp add: act_def)
    then have "\<forall>d\<in>act db. ch_id d \<noteq> ch_id row" using act_unique [OF "2.prems"(1) c] by metis
    moreover obtain ids db' where "revoke_rows rows by' db = (Inr ids, db')" "only_revokes (dd_chains db) (dd_chains db')"
        "cascaded db db'" "\<forall>d\<in>act db'. ch_id d \<notin> ch_id ` set rows"
      using "2.IH"(1) [OF True "2.prems"(1)] "2.prems"(2) by auto
    moreover have "act db' \<subseteq> act db" by (rule act_mono) fact
    ultimately show ?thesis using True by fastforce
  next
    case False
    have "present db (ch_id row)" using "2.prems"(2) by simp
    then obtain ids1 db1 where l: "revokeDelegation (ch_id row) by' db = (Inr ids1, db1)"
      using revoke_returns(1) [OF _ "2.prems"(1), of "ch_id row" "revoke_fuel db" by' "ch_id row" None]
      by (auto simp: revokeDelegation_def revoke_fuel_def)
    note o1 = revoke_only_revokes(1) [OF l [unfolded revokeDelegation_def]]
    have u1: "unique_keys ch_id (dd_chains db1)" using "2.prems"(1) only_revokes_ids [OF o1] by (simp add: unique_keys_def)
    have p1: "\<forall>r\<in>set rows. present db1 (ch_id r)" using "2.prems"(2) present_kept [OF o1] by simp
    note casc1 = revoke_cascades(1) [OF l [unfolded revokeDelegation_def] "2.prems"(1)]
    obtain ids2 db2 where r: "revoke_rows rows by' db1 = (Inr ids2, db2)" and o2: "only_revokes (dd_chains db1) (dd_chains db2)"
      and casc2: "cascaded db1 db2" and gone2: "\<forall>d\<in>act db2. ch_id d \<notin> ch_id ` set rows"
      using "2.IH"(2) [OF False l [symmetric] refl u1 p1] by blast
    have sub: "act db2 \<subseteq> act db1" by (rule act_mono [OF o2])
    have "revoke_rows (row # rows) by' db = (Inr (ids1 @ ids2), db2)"
      by (simp only: revoke_rows.simps if_not_P [OF False] l) (simp add: r)
    moreover have "only_revokes (dd_chains db) (dd_chains db2)" by (rule only_revokes_trans [OF o1 o2])
    moreover have "cascaded db db2" using cascaded_trans [OF _ casc2 sub] casc1 by blast
    moreover have "\<forall>d\<in>act db2. ch_id d \<notin> ch_id ` set (row # rows)" using casc1 gone2 sub by auto
    ultimately show ?thesis by blast
  qed
qed simp

lemma revoke_all_clears:
  assumes "unique_keys ch_id (dd_chains db)"
  shows "\<exists>ids db'. revokeAllForAgent i by db = (Inr ids, db') \<and> only_revokes (dd_chains db) (dd_chains db')
     \<and> cascaded db db' \<and> (\<forall>d\<in>act db'. ch_from d \<noteq> i \<and> ch_to d \<noteq> i)"
proof -
  let ?rows = "filter (\<lambda>c. ch_status c \<in> {RowActive, RowRevoked} \<and> (ch_from c = i \<or> ch_to c = i)) (dd_chains db)"
  have "\<forall>r\<in>set ?rows. present db (ch_id r)" by (auto simp: present_iff)
  from revoke_rows_clears [OF assms this, of "by"] obtain ids db' where
    r: "revoke_rows ?rows by db = (Inr ids, db')" and o: "only_revokes (dd_chains db) (dd_chains db')"
    and c: "cascaded db db'" and g: "\<forall>d\<in>act db'. ch_id d \<notin> ch_id ` set ?rows" by blast
  have "ch_from d \<noteq> i \<and> ch_to d \<noteq> i" if "d \<in> act db'" for d
  proof -
    have "d \<in> act db" using that act_mono [OF o] by blast
    with g that show ?thesis by (auto simp: act_def)
  qed
  with r o c show ?thesis unfolding revokeAllForAgent_def by blast
qed

lemma find_update_same:
  assumes "\<And>a. agent_row.ag_id (f a) = agent_row.ag_id a"
  shows "List.find (\<lambda>a. agent_row.ag_id a = i) (update_where (\<lambda>a. agent_row.ag_id a = i) f as)
    = map_option f (List.find (\<lambda>a. agent_row.ag_id a = i) as)"
  using assms by (induction as) auto

lemma find_update_other:
  assumes "\<And>a. agent_row.ag_id (f a) = agent_row.ag_id a" and "i \<noteq> j"
  shows "List.find (\<lambda>a. agent_row.ag_id a = j) (update_where (\<lambda>a. agent_row.ag_id a = i) f as)
    = List.find (\<lambda>a. agent_row.ag_id a = j) as"
  using assms by (induction as) auto

lemma agent_by_id_set:
  "(\<And>a. agent_row.ag_id (f a) = agent_row.ag_id a) \<Longrightarrow>
   agent_by_id j (set_agent i f db) = (if i = j then map_option f (agent_by_id j db) else agent_by_id j db)"
  by (cases "i = j") (simp_all add: agent_by_id_def set_agent_def find_update_same find_update_other)

lemma agent_by_id_SomeD: "agent_by_id i db = Some a \<Longrightarrow> a \<in> set (at_agents db) \<and> agent_row.ag_id a = i"
  unfolding agent_by_id_def by (drule find_SomeD) simp

lemma agent_by_hash_SomeD: "agent_by_hash h db = Some a \<Longrightarrow> a \<in> set (at_agents db) \<and> fa_tokenHash a = h"
  unfolding agent_by_hash_def by (drule find_SomeD) simp

lemma resolveToken_SomeD:
  assumes "fst (fst (resolveToken sha256 token now db)) = Some v"
  shows "\<exists>a\<in>set (at_agents db). fa_tokenHash a = sha256 token \<and> ag_status a = RowActive
    \<and> (\<forall>t. ag_expiresAt a = Some t \<longrightarrow> now \<le> t) \<and> isAgentToken token
    \<and> v = identity_of a (permissions_of (agent_row.ag_id a) db) RowActive"
  using assms agent_by_hash_SomeD [of "sha256 token" db]
  by (auto simp: resolveToken_def Let_def split: if_splits option.splits)

lemma identity_of_simps [simp]:
  "agent_identity.ag_id (identity_of a ps st) = agent_row.ag_id a"
  "agent_identity.ag_ownerId (identity_of a ps st) = agent_row.ag_ownerId a"
  "agent_identity.ag_permissions (identity_of a ps st) = ps"
  "av_status (identity_of a ps st) = st"
  "av_expiresAt (identity_of a ps st) = ag_expiresAt a"
  "av_type (identity_of a ps st) = fa_type a"
  "av_cnf (identity_of a ps st) = readStoredConfirmation (fa_cnf a)"
  by (simp_all add: identity_of_def)

text \<open>
  C5: revoking an agent takes effect at once. For an agent that exists, \<open>revoke\<close> succeeds; afterwards the
  agent reads as revoked, no token resolves to it, no link to or from it is active, so it holds no delegated
  permission and lends none to anyone, and no link below one that was taken down is left active.
\<close>

theorem revoke_takes_effect:
  assumes "unique_keys ch_id (at_chains db)" and "agent_by_id i db = Some a"
  shows "\<exists>ids db'. revoke i now db = (Inr ids, db')
    \<and> (\<exists>v. get i db' = Some v \<and> av_status v = RowRevoked)
    \<and> (\<forall>sha256 token later v. fst (fst (resolveToken sha256 token later db')) = Some v \<longrightarrow> agent_identity.ag_id v \<noteq> i)
    \<and> (\<forall>c\<in>set (at_chains db'). ch_from c = i \<or> ch_to c = i \<longrightarrow> ch_status c \<noteq> RowActive)
    \<and> (\<forall>later mode. getDelegatedPermissions (deleg_of db') later mode i = [])
    \<and> (\<forall>later mode j l. l \<in> set (liveInboundRows (deleg_of db') later mode j) \<longrightarrow> ch_from l \<noteq> i)
    \<and> cascaded (deleg_of db) (deleg_of db')"
proof -
  define f where "f = (\<lambda>a :: full_agent. a\<lparr>ag_status := RowRevoked, fa_updatedAt := now\<rparr>)"
  define db1 where "db1 = set_agent i f db"
  have f: "agent_row.ag_id (f x) = agent_row.ag_id x" "ag_status (f x) = RowRevoked" for x by (simp_all add: f_def)
  have chains1: "at_chains db1 = at_chains db" by (simp add: db1_def set_agent_def)
  have "unique_keys ch_id (dd_chains (deleg_of db1))" using assms(1) by (simp add: deleg_of_def chains1)
  from revoke_all_clears [OF this, of i None] obtain ids dd where
    r: "revokeAllForAgent i None (deleg_of db1) = (Inr ids, dd)"
    and c: "cascaded (deleg_of db1) dd" and clear: "\<forall>d\<in>act dd. ch_from d \<noteq> i \<and> ch_to d \<noteq> i" by blast
  obtain db' where rev: "revoke i now db = (Inr ids, db')" and ag: "at_agents db' = at_agents db1"
    and ch: "at_chains db' = dd_chains dd"
    using assms(2) r by (auto simp: revoke_def Let_def f_def [symmetric] db1_def [symmetric])
  have id': "agent_by_id i db' = Some (f a)"
    using agent_by_id_set [OF f(1), of i i db] assms(2) by (simp add: agent_by_id_def ag db1_def)
  have actd: "act (deleg_of db') = act dd" "act (deleg_of db1) = act (deleg_of db)"
    by (simp_all add: act_def deleg_of_def ch chains1)
  have links: "ch_status x \<noteq> RowActive" if "x \<in> set (at_chains db')" "ch_from x = i \<or> ch_to x = i" for x
    using clear that by (auto simp: act_def ch)
  have revoked: "ag_status x = RowRevoked" if "x \<in> set (at_agents db')" "agent_row.ag_id x = i" for x
    using that f by (auto simp: ag db1_def set_agent_def set_update_where split: if_splits)
  have no_token: "agent_identity.ag_id v \<noteq> i" if "fst (fst (resolveToken sha token later db')) = Some v" for sha token later v
    using resolveToken_SomeD [OF that] revoked by auto
  have inbound: "inboundRows (deleg_of db') later i = []" for later
    using links by (auto simp: inboundRows_def anyInboundRows_def deleg_of_def filter_empty_conv)
  have none: "getDelegatedPermissions (deleg_of db') later mode i = []" for later mode
    by (simp add: getDelegatedPermissions_def liveInboundRows_def inbound)
  have lends: "ch_from l \<noteq> i" if "l \<in> set (liveInboundRows (deleg_of db') later mode j)" for later mode j l
    using that links by (auto simp: liveInboundRows_def inboundRows_def anyInboundRows_def deleg_of_def)
  have "get i db' = Some (identity_of (f a) (permissions_of i db') RowRevoked)" using id' f(2) [of a] by (simp add: get_def)
  moreover have "cascaded (deleg_of db) (deleg_of db')" using c by (simp add: cascaded_def actd)
  ultimately show ?thesis using rev no_token links none lends by auto
qed

section \<open>Tokens\<close>

lemma rotate_InrD:
  assumes "rotate sha256 dw c i db = (Inr (v, token), db')"
  shows "\<exists>a re. agent_by_id i db = Some a \<and> ag_status a = RowActive \<and> fa_type a \<noteq> Device
    \<and> token = agent_token_prefix @ dw_secret dw \<and> rebinding c = Inr re
    \<and> av_expiresAt v = ag_expiresAt a \<and> (re = None \<longrightarrow> av_cnf v = readStoredConfirmation (fa_cnf a))
    \<and> db' = set_agent i (rotate_change sha256 token (dw_now dw) re) db"
proof -
  obtain a where a: "agent_by_id i db = Some a" "ag_status a = RowActive" "fa_type a \<noteq> Device"
    using assms by (auto simp: rotate_def get_def split: option.splits if_splits)
  obtain re where re: "rebinding c = Inr re"
    using assms a by (cases "rebinding c") (auto simp: rotate_def get_def)
  have "v = (identity_of a (permissions_of i db) RowActive)
        \<lparr>av_cnf := (case re of None \<Rightarrow> av_cnf (identity_of a (permissions_of i db) RowActive) | Some c \<Rightarrow> c),
          av_updatedAt := dw_now dw\<rparr>"
    and "token = agent_token_prefix @ dw_secret dw"
    and "db' = set_agent i (rotate_change sha256 token (dw_now dw) re) db"
    using assms a re by (auto simp: rotate_def get_def Let_def)
  with a re show ?thesis by (intro exI [of _ a] exI [of _ re]) simp
qed

lemma isAgentToken_new: "isAgentToken (agent_token_prefix @ s)"
  by (simp add: isAgentToken_def agent_token_prefix_def)

lemma find_snoc: "\<forall>x\<in>set xs. \<not> P x \<Longrightarrow> P y \<Longrightarrow> List.find P (xs @ [y]) = Some y"
  by (induction xs) auto

lemma find_hash:
  assumes "a \<in> set as" and "fa_tokenHash a = h" and u: "\<And>b. b \<in> set as \<Longrightarrow> fa_tokenHash b = h \<Longrightarrow> b = a"
  shows "List.find (\<lambda>b. fa_tokenHash b = h) as = Some a"
proof -
  have "List.find (\<lambda>b. fa_tokenHash b = h) as \<noteq> None" using assms(1,2) by (auto simp: find_None_iff)
  then obtain b where b: "List.find (\<lambda>b. fa_tokenHash b = h) as = Some b" by blast
  from find_SomeD [OF b] u have "b = a" by blast
  with b show ?thesis by simp
qed

text \<open>
  Rotating replaces the token. After \<open>rotate\<close>, a token resolves to the agent only if its hash is the
  hash of the new token, so the old token is dead, and the new one resolves to it as long as no other
  agent has that hash and the agent has not expired. Other agents keep their tokens, and unless a new
  binding is given, the binding is kept.
\<close>

theorem rotate_replaces_token:
  assumes ok: "unique_keys agent_row.ag_id (at_agents db)" and r: "rotate sha256 dw c i db = (Inr (v, token), db')"
  shows "(\<forall>t later w. fst (fst (resolveToken sha256 t later db')) = Some w \<and> agent_identity.ag_id w = i \<longrightarrow> sha256 t = sha256 token)
    \<and> (\<forall>later. (\<forall>b\<in>set (at_agents db). fa_tokenHash b = sha256 token \<longrightarrow> agent_row.ag_id b = i)
         \<and> (\<forall>e. av_expiresAt v = Some e \<longrightarrow> later \<le> e) \<longrightarrow>
         (\<exists>w. fst (fst (resolveToken sha256 token later db')) = Some w \<and> agent_identity.ag_id w = i
            \<and> (c = KeepBinding \<longrightarrow> av_cnf w = av_cnf v)))
    \<and> (\<forall>j. j \<noteq> i \<longrightarrow> agent_by_id j db' = agent_by_id j db)"
proof -
  from rotate_InrD [OF r] obtain a re where a: "agent_by_id i db = Some a" "ag_status a = RowActive"
    and token: "token = agent_token_prefix @ dw_secret dw" and re: "rebinding c = Inr re"
    and v: "av_expiresAt v = ag_expiresAt a" "re = None \<longrightarrow> av_cnf v = readStoredConfirmation (fa_cnf a)"
    and db': "db' = set_agent i (rotate_change sha256 token (dw_now dw) re) db" by blast
  define f where "f = rotate_change sha256 token (dw_now dw) re"
  have f: "agent_row.ag_id (f x) = agent_row.ag_id x" "fa_tokenHash (f x) = sha256 token" "ag_status (f x) = ag_status x"
    "ag_expiresAt (f x) = ag_expiresAt x" "re = None \<Longrightarrow> fa_cnf (f x) = fa_cnf x" for x
    by (simp_all add: f_def rotate_change_def)
  have keep: "c = KeepBinding \<Longrightarrow> re = None" using re by (simp add: rebinding_def)
  have db': "db' = set_agent i f db" by (simp add: db' f_def)
  have rows: "x \<in> set (at_agents db') \<longleftrightarrow> (\<exists>y\<in>set (at_agents db). x = (if agent_row.ag_id y = i then f y else y))" for x
  proof -
    have "at_agents db' = update_where (\<lambda>a. agent_row.ag_id a = i) f (at_agents db)" by (simp add: db' set_agent_def)
    then show ?thesis by (simp only: set_update_where image_iff)
  qed
  have old: "sha256 t = sha256 token" if "fst (fst (resolveToken sha256 t later db')) = Some w" "agent_identity.ag_id w = i" for t later w
  proof -
    from resolveToken_SomeD [OF that(1)] that(2) obtain x where x: "x \<in> set (at_agents db')" "fa_tokenHash x = sha256 t"
      "agent_row.ag_id x = i" by auto
    then obtain y where "x = (if agent_row.ag_id y = i then f y else y)" using rows by blast
    with x f show ?thesis by (auto split: if_splits)
  qed
  have new: "\<exists>w. fst (fst (resolveToken sha256 token later db')) = Some w \<and> agent_identity.ag_id w = i
            \<and> (c = KeepBinding \<longrightarrow> av_cnf w = av_cnf v)"
    if uniq: "\<forall>b\<in>set (at_agents db). fa_tokenHash b = sha256 token \<longrightarrow> agent_row.ag_id b = i"
      and time: "\<forall>e. av_expiresAt v = Some e \<longrightarrow> later \<le> e" for later
  proof -
    have am: "a \<in> set (at_agents db)" "agent_row.ag_id a = i" using agent_by_id_SomeD [OF a(1)] by simp_all
    have "x = f a" if "x \<in> set (at_agents db')" "fa_tokenHash x = sha256 token" for x
    proof -
      obtain y where y: "y \<in> set (at_agents db)" "x = (if agent_row.ag_id y = i then f y else y)" using rows \<open>x \<in> _\<close> by blast
      then have "agent_row.ag_id y = i" using uniq \<open>fa_tokenHash x = _\<close> by (auto split: if_splits)
      then have "y = a" using ok y(1) am unique_keysD [of agent_row.ag_id "at_agents db" y a] by simp
      with y(2) am(2) show ?thesis by simp
    qed
    moreover have "f a \<in> set (at_agents db')" using rows am by auto
    ultimately have "agent_by_hash (sha256 token) db' = Some (f a)"
      unfolding agent_by_hash_def using f(2) [of a] find_hash by blast
    then show ?thesis
      using a(2) time v am(2) isAgentToken_new [of "dw_secret dw"] keep f
      by (auto simp: resolveToken_def Let_def token split: option.splits)
  qed
  have other: "agent_by_id j db' = agent_by_id j db" if "j \<noteq> i" for j
    using agent_by_id_set [where f = f and i = i and j = j and db = db] f(1) that by (simp add: db')
  show ?thesis using old new other by blast
qed

text \<open>
  What is created is what is read back, except for relations. After \<open>create\<close> with a fresh id, \<open>get\<close>
  answers an active agent of the given owner and type, with the given binding, and with the given
  permissions whose \<open>relation\<close> is dropped: a permission that was gated by a relation is stored ungated.
\<close>

theorem create_reads_back:
  assumes c: "create cf sha256 dw input db = (Inr (v, token), db')"
    and fresh: "dw_id dw \<notin> agent_row.ag_id ` set (at_agents db)" "\<forall>r\<in>set (at_permissions db). pr_agentId r \<noteq> dw_id dw"
  shows "\<exists>w. get (dw_id dw) db' = Some w \<and> av_status w = RowActive
    \<and> agent_identity.ag_ownerId w = ci_ownerId input \<and> av_type w = ci_type input
    \<and> agent_identity.ag_permissions v = ci_permissions input
    \<and> agent_identity.ag_permissions w = map (\<lambda>p. p\<lparr>pm_relation := None\<rparr>) (ci_permissions input)"
proof -
  from create_cases [OF c] obtain cnf expires row where row: "row = create_row sha256 dw input cnf expires"
    and v: "v = (identity_of row (ci_permissions input) RowActive)\<lparr>av_cnf := cnf\<rparr>"
    and db': "db' = db\<lparr>at_agents := at_agents db @ [row],
                  at_permissions := at_permissions db @ permission_rows (dw_id dw) (ci_permissions input)\<rparr>" by auto
  have "\<forall>a\<in>set (at_agents db). agent_row.ag_id a \<noteq> dw_id dw" using fresh(1) by (metis imageI)
  then have "agent_by_id (dw_id dw) db' = Some row"
    unfolding agent_by_id_def db' row by (simp add: find_snoc)
  moreover have "filter (\<lambda>r. pr_agentId r = dw_id dw) (at_permissions db) = []" using fresh(2) by (auto simp: filter_empty_conv)
  then have "permissions_of (dw_id dw) db' = map (\<lambda>p. p\<lparr>pm_relation := None\<rparr>) (ci_permissions input)"
    by (simp add: permissions_of_def ownPermissions_def deleg_of_def db' permission_rows_def filter_map comp_def)
  ultimately show ?thesis by (simp add: get_def row v)
qed

text \<open>
  A bound token needs every proof. The comparison \<open>timingSafeEqual\<close> is equality; a verdict is \<open>ok\<close>
  exactly when the token carries no binding or the request presents, for each member, the very
  thumbprint it is bound to. A stored binding that does not parse is not an unbound token.
\<close>

theorem confirmation_sound:
  "(timingSafeEqual s t \<longleftrightarrow> s = t)
   \<and> (confirmationVerdict bound presented = Confirmed \<longleftrightarrow>
        bound = None \<or> bound = Some [] \<or>
        (\<exists>b p. bound = Some b \<and> presented = Some p \<and> p \<noteq> [] \<and> (\<forall>(m, th)\<in>set b. map_of p m = Some th)))
   \<and> (readStoredConfirmation (Some j) = None \<longleftrightarrow> j = JNull) \<and> readStoredConfirmation (Some j) \<noteq> Some []"
proof -
  have "parseConfirmation x \<noteq> Some []" for x
  proof -
    have ne: "member_entries (kv # kvs) \<noteq> Some []" for kv kvs
      by (cases kv; cases "snd kv") (auto split: if_splits)
    have "member_entries kvs \<noteq> Some []" if "1 \<le> length kvs" for kvs
      using that ne by (cases kvs) auto
    then show ?thesis by (auto simp: parseConfirmation_def split: json.splits if_splits)
  qed
  then show ?thesis
    using confirmation_iff [of bound presented]
    by (auto simp: timingSafeEqual_iff readStoredConfirmation_def split: option.splits)
qed

section \<open>Instances\<close>

definition sample_store :: agent_db where
  "sample_store =
     \<lparr>at_agents = [create_row id \<lparr>dw_id = ''x'', dw_secret = ''s'', dw_now = 0, dw_later = 0\<rparr>
        \<lparr>ci_ownerId = ''o'', ci_tenantId = None, ci_name = ''n'', ci_type = Service, ci_permissions = [], ci_expiresAt = None,
         ci_metadata = None, ci_cnf = None\<rparr> None 1000],
      at_permissions = [], at_chains = [], at_delegationAudit = [], at_cascades = []\<rparr>"

definition gated_input :: create_agent_input where
  "gated_input =
     \<lparr>ci_ownerId = ''o'', ci_tenantId = None, ci_name = ''n'', ci_type = Service,
      ci_permissions = [\<lparr>pm_resource = ''doc'', pm_actions = [''read''], pm_constraints = None, pm_relation = Some ''viewer''\<rparr>],
      ci_expiresAt = Some (Some 1000), ci_metadata = None, ci_cnf = None\<rparr>"

definition sample_draw :: agent_draw where
  "sample_draw = \<lparr>dw_id = ''y'', dw_secret = ''t'', dw_now = 0, dw_later = 0\<rparr>"

definition sample_cap :: agent_config where
  "sample_cap = \<lparr>ag_maxPerUser = 2, ag_tokenExpiry = ''1h''\<rparr>"

lemma sample_store_ok: "unique_keys agent_row.ag_id (at_agents sample_store)"
  by (simp add: sample_store_def unique_keys_def)

lemma sample_by_id: "agent_by_id ''x'' sample_store = Some (hd (at_agents sample_store))"
  by (simp add: agent_by_id_def sample_store_def)

lemma revoke_takes_effect_witness:
  "\<exists>ids db'. revoke ''x'' 5 sample_store = (Inr ids, db') \<and> (\<exists>v. get ''x'' db' = Some v \<and> av_status v = RowRevoked)"
proof -
  have "unique_keys ch_id (at_chains sample_store)" by (simp add: sample_store_def unique_keys_def)
  from revoke_takes_effect [OF this sample_by_id, of 5] show ?thesis by blast
qed

lemma rotate_replaces_token_witness:
  "\<exists>v token db'. rotate id sample_draw KeepBinding ''x'' sample_store = (Inr (v, token), db')
     \<and> (\<exists>w. fst (fst (resolveToken id token 500 db')) = Some w \<and> agent_identity.ag_id w = ''x'')"
proof -
  have "\<exists>v token db'. rotate id sample_draw KeepBinding ''x'' sample_store = (Inr (v, token), db')"
    by (simp add: rotate_def get_def sample_by_id rebinding_def Let_def) (simp add: sample_store_def)
  then obtain v token db' where r: "rotate id sample_draw KeepBinding ''x'' sample_store = (Inr (v, token), db')" by blast
  have u: "\<forall>b\<in>set (at_agents sample_store). fa_tokenHash b = id token \<longrightarrow> agent_row.ag_id b = ''x''"
    by (simp add: sample_store_def)
  have e: "\<forall>e. av_expiresAt v = Some e \<longrightarrow> 500 \<le> e"
    using rotate_InrD [OF r] sample_by_id by (auto simp: sample_store_def)
  from rotate_replaces_token [OF sample_store_ok r] u e
  have "\<exists>w. fst (fst (resolveToken id token 500 db')) = Some w \<and> agent_identity.ag_id w = ''x''" by (elim conjE) blast
  with r show ?thesis by blast
qed

lemma create_reads_back_witness:
  "\<exists>v token db' w. create sample_cap id sample_draw gated_input sample_store = (Inr (v, token), db')
     \<and> get ''y'' db' = Some w \<and> map pm_relation (agent_identity.ag_permissions v) = [Some ''viewer'']
     \<and> map pm_relation (agent_identity.ag_permissions w) = [None]"
proof -
  have "\<exists>v token db'. create sample_cap id sample_draw gated_input sample_store = (Inr (v, token), db')"
    by (simp add: create_def expiry_invalid_def gated_input_def sample_cap_def sample_store_def active_of_def
        create_cnf_def create_expiry_def Let_def)
  then obtain v token db' where c: "create sample_cap id sample_draw gated_input sample_store = (Inr (v, token), db')" by blast
  have "dw_id sample_draw \<notin> agent_row.ag_id ` set (at_agents sample_store)"
    "\<forall>r\<in>set (at_permissions sample_store). pr_agentId r \<noteq> dw_id sample_draw"
    by (simp_all add: sample_store_def sample_draw_def)
  from create_reads_back [OF c this] c show ?thesis by (auto simp: gated_input_def sample_draw_def)
qed

end
