(* ===== verification/AuthorizePipeline.thy ===== *)
theory AuthorizePipeline
  imports AgentStore HookRunner
begin

text \<open>
  The entry point of every call: \<open>authorize/pipeline.ts\<close>. It resolves the agent, by id or by token, runs
  the hook, asks the permission engine for the agent's own permissions and, when they deny, for the delegated
  ones, and writes one audit row. What a call draws (clocks, ids, audit faults, what the hook did) is a
  record. Notifications of hooks and listeners, which cannot change a result, are not modelled.
\<close>

section \<open>Requests\<close>

record request_context =
  cx_ip :: "string option"
  cx_userAgent :: "string option"
  cx_confirmation :: "confirmation option"

record pipeline_config =
  pc_engine :: engine_config
  pc_guard :: hook_guard
  pc_requireConfirmation :: bool
  pc_matching :: resource_matching

record pipeline_db =
  pl_agents :: agent_db
  pl_engine :: engine_db

record pipeline_env =
  pv_now :: time
  pv_hook :: "hook_run option"
  pv_lineage :: time
  pv_inbound :: time
  pv_own1 :: clock
  pv_own2 :: clock
  pv_ownId :: ident
  pv_delegated :: time
  pv_del1 :: clock
  pv_del2 :: clock
  pv_delId :: ident
  pv_denialId :: ident
  pv_fault :: bool

record pipeline_options =
  po_auditParameters :: "(string \<times> json) list option"
  po_attestation :: "attestation_facts option"

definition enrich :: "request_context option \<Rightarrow> authorize_request \<Rightarrow> authorize_request" where
  "enrich context call =
     (case context of None \<Rightarrow> call
      | Some c \<Rightarrow> call\<lparr>zr_contextIp := cx_ip c, zr_userAgent := cx_userAgent c\<rparr>)"

definition refusal :: "authorize_reason \<Rightarrow> ident \<Rightarrow> decision_code \<Rightarrow> authorize_result" where
  "refusal reason auditId code = \<lparr>zs_allowed = False, zs_reason = reason, zs_auditId = auditId, zs_code = code\<rparr>"

definition arguments_or_empty :: "authorize_request \<Rightarrow> (string \<times> json) list" where
  "arguments_or_empty req = (case stripReservedAuditKeys (zr_arguments req) of Some args \<Rightarrow> args | None \<Rightarrow> [])"

definition entries :: "(string \<times> json) list option \<Rightarrow> (string \<times> json) list" where
  "entries extra = (case extra of None \<Rightarrow> [] | Some e \<Rightarrow> e)"

section \<open>After the agent is resolved\<close>

definition blockedByHook ::
  "pipeline_config \<Rightarrow> pipeline_env \<Rightarrow> agent_view \<Rightarrow> authorize_request \<Rightarrow> hook_outcome \<Rightarrow> hook_chain
     \<Rightarrow> (string \<times> json) list option \<Rightarrow> pipeline_db \<Rightarrow> authorize_result \<times> pipeline_db" where
  "blockedByHook cf env agent req outcome chain extra db =
     (let block = (\<lambda>code text res.
            (case recordDenial (pc_engine cf) (pv_fault env) (pv_denialId env)
                    (agent_identity.ag_id agent, agent_identity.ag_ownerId agent) req code
                    (Some \<lparr>dx_parameters = Some (spread (entries extra)
                              (withHookDetail (arguments_or_empty req) (hookAuditDetail (Some outcome)))),
                           dx_subjectId = hc_rootOwnerId chain, dx_actorId = Some (agent_identity.ag_id agent),
                           dx_delegationChain = (if 1 < length (hc_path chain) then Some (hc_path chain) else None),
                           dx_result = Some res, dx_reason = Some (text_of text)\<rparr>) (pl_engine db) of
               (auditId, en) \<Rightarrow> (refusal (GivenReason (text_of text)) auditId code, db\<lparr>pl_engine := en\<rparr>)))
      in case outcome of
           HookDeny code text m \<Rightarrow> block code text DeniedRes
         | HookEscalate code text m \<Rightarrow> block code text EscalatedRes
         | _ \<Rightarrow> (refusal NoReason [] NoPermission, db))"

definition audit_parameters ::
  "hook_outcome option \<Rightarrow> (string \<times> json) list option \<Rightarrow> (string \<times> json) list option" where
  "audit_parameters outcome extra =
     (let detail = hookAuditDetail outcome in
      if detail = None \<and> extra = None then None
      else Some (spread (entries extra) (case detail of None \<Rightarrow> [] | Some d \<Rightarrow> [(''theauthHook'', JObj d)])))"

definition engine_options ::
  "(string \<times> json) list option \<Rightarrow> attestation_facts option \<Rightarrow> authorize_options" where
  "engine_options params attestation =
     \<lparr>zo_deferDenialAudit = True, zo_auditParameters = params, zo_attestation = attestation\<rparr>"

text \<open>The own permissions first, the delegated ones when they deny and there are any.\<close>

definition own_then_delegated ::
  "pipeline_config \<Rightarrow> (string \<Rightarrow> 'h) \<Rightarrow> regex_engine \<Rightarrow> pipeline_env \<Rightarrow> agent_view \<Rightarrow> authorize_request
     \<Rightarrow> authorize_options \<Rightarrow> pipeline_db \<Rightarrow> authorize_result \<times> engine_db" where
  "own_then_delegated cf sha256 compile env agent req options db =
     (let identity = agent_identity.truncate agent in
      case authorize (pc_engine cf) sha256 compile (pv_fault env) (pv_own1 env) (pv_own2 env) (pv_ownId env)
             identity req options (pl_engine db) of
        (ownResult, en1) \<Rightarrow>
          if zs_allowed ownResult then (ownResult, en1)
          else (let delegatedPerms = getDelegatedPermissions (deleg_of (pl_agents db)) (pv_delegated env)
                                       (pc_matching cf) (agent_identity.ag_id agent)
                in if delegatedPerms = [] then (ownResult, en1)
                   else (case authorize (pc_engine cf) sha256 compile (pv_fault env) (pv_del1 env) (pv_del2 env)
                                (pv_delId env) (identity\<lparr>agent_identity.ag_permissions := delegatedPerms\<rparr>) req options en1 of
                           (delegatedResult, en2) \<Rightarrow>
                             (if zs_allowed delegatedResult \<or> isApprovalDenial (Some (zs_code delegatedResult))
                              then delegatedResult else ownResult, en2))))"

definition authorizeResolved ::
  "pipeline_config \<Rightarrow> (string \<Rightarrow> 'h) \<Rightarrow> regex_engine \<Rightarrow> pipeline_env \<Rightarrow> agent_view \<Rightarrow> authorize_request
     \<Rightarrow> pipeline_options \<Rightarrow> pipeline_db \<Rightarrow> (hook_failure + authorize_result) \<times> pipeline_db" where
  "authorizeResolved cf sha256 compile env agent req options db =
     (case runBeforeAuthorize (pv_hook env) (pc_guard cf) of
        Inl why \<Rightarrow> (Inl why, db)
      | Inr outcome \<Rightarrow>
          if isHookBlock outcome then
            (case blockedByHook cf env agent req (the outcome)
                    (resolveHookChain (deleg_of (pl_agents db)) (pv_lineage env) (pv_inbound env) (agent_identity.ag_id agent))
                    (po_auditParameters options) db of
               (result, db') \<Rightarrow> (Inr result, db'))
          else
            (let params = audit_parameters outcome (po_auditParameters options) in
             case own_then_delegated cf sha256 compile env agent req (engine_options params (po_attestation options)) db of
               (finalResult, en) \<Rightarrow>
                 (Inr finalResult,
                  db\<lparr>pl_engine := (if zs_allowed finalResult then en
                       else auditDenial (pc_engine cf) (pv_fault env) (agent_identity.truncate agent) req finalResult
                              params en)\<rparr>)))"

section \<open>The two entry points\<close>

definition status_text :: "row_status \<Rightarrow> string" where
  "status_text st = (case st of RowActive \<Rightarrow> ''active'' | RowRevoked \<Rightarrow> ''revoked'' | RowExpired \<Rightarrow> ''expired'')"

definition extra_denial :: "authorize_request \<Rightarrow> (string \<times> json) list option \<Rightarrow> denial_extra option" where
  "extra_denial call extra =
     map_option (\<lambda>e. \<lparr>dx_parameters = Some (spread e (arguments_or_empty call)), dx_subjectId = None,
       dx_actorId = None, dx_delegationChain = None, dx_result = None, dx_reason = None\<rparr>) extra"

definition pipeline_authorize ::
  "pipeline_config \<Rightarrow> (string \<Rightarrow> 'h) \<Rightarrow> regex_engine \<Rightarrow> pipeline_env \<Rightarrow> ident \<Rightarrow> authorize_request
     \<Rightarrow> request_context option \<Rightarrow> pipeline_options \<Rightarrow> pipeline_db \<Rightarrow> (hook_failure + authorize_result) \<times> pipeline_db" where
  "pipeline_authorize cf sha256 compile env agentId call context options db =
     (case get agentId (pl_agents db) of
        None \<Rightarrow> (Inr (refusal (GivenReason (''Agent \"'' @ agentId @ ''\" not found'')) [] AgentNotFound), db)
      | Some agent \<Rightarrow>
          (let elapsed = past_expiry (agent_view.av_expiresAt agent) (pv_now env); st = agent_view.av_status agent in
           if st \<noteq> RowActive \<or> elapsed then
             (let code = (if st = RowExpired \<or> (st = RowActive \<and> elapsed) then AgentExpired else AgentRevoked) in
              case recordDenial (pc_engine cf) (pv_fault env) (pv_denialId env)
                     (agent_identity.ag_id agent, agent_identity.ag_ownerId agent) (enrich context call) code
                     (extra_denial call (po_auditParameters options)) (pl_engine db) of
                (auditId, en) \<Rightarrow>
                  (Inr (refusal (GivenReason (''Agent \"'' @ agent_identity.ag_name agent @ ''\" is '' @
                          (if elapsed \<and> st = RowActive then ''expired'' else status_text st))) auditId code),
                   db\<lparr>pl_engine := en\<rparr>))
           else authorizeResolved cf sha256 compile env agent (enrich context call) options db))"

definition no_pipeline_options :: pipeline_options where
  "no_pipeline_options = \<lparr>po_auditParameters = None, po_attestation = None\<rparr>"

definition authorizeByToken ::
  "pipeline_config \<Rightarrow> (string \<Rightarrow> string) \<Rightarrow> regex_engine \<Rightarrow> pipeline_env \<Rightarrow> string \<Rightarrow> authorize_request
     \<Rightarrow> request_context option \<Rightarrow> pipeline_db \<Rightarrow> (hook_failure + authorize_result) \<times> pipeline_db" where
  "authorizeByToken cf sha256 compile env token call context db =
     (case resolveToken sha256 token (pv_now env) (pl_agents db) of
        ((None, rejected), agents) \<Rightarrow>
          (let db1 = db\<lparr>pl_agents := agents\<rparr> in
           case (case rejected of
                   None \<Rightarrow> ([], pl_engine db1)
                 | Some r \<Rightarrow> recordDenial (pc_engine cf) (pv_fault env) (pv_denialId env) (rt_agentId r, rt_ownerId r)
                               (enrich context call) (if rt_expired r then AgentExpired else AgentRevoked) None (pl_engine db1)) of
             (auditId, en) \<Rightarrow>
               (Inr (refusal (GivenReason ''Invalid or expired agent token'') auditId InvalidToken), db1\<lparr>pl_engine := en\<rparr>))
      | ((Some agent, rejected), agents) \<Rightarrow>
          (let db1 = db\<lparr>pl_agents := agents\<rparr>;
               unbound = (pc_requireConfirmation cf \<and> av_cnf agent = None);
               verdict = (if unbound then Required
                          else confirmationVerdict (av_cnf agent) (Option.bind context cx_confirmation))
           in if verdict \<noteq> Confirmed then
                (let code = (if verdict = Required then ConfirmationRequired else ConfirmationFailed) in
                 case recordDenial (pc_engine cf) (pv_fault env) (pv_denialId env)
                        (agent_identity.ag_id agent, agent_identity.ag_ownerId agent) (enrich context call) code None
                        (pl_engine db1) of
                   (auditId, en) \<Rightarrow>
                     (Inr (refusal (GivenReason (
                        if verdict = Required
                        then (if unbound then ''This deployment only accepts agent tokens that are bound to a key''
                              else ''This agent token is bound to a key and needs a proof of possession'')
                        else ''The proof of possession does not match the key this token is bound to'')) auditId code),
                      db1\<lparr>pl_engine := en\<rparr>))
              else authorizeResolved cf sha256 compile env agent (enrich context call) no_pipeline_options db1))"

section \<open>What an allowed call passed\<close>

text \<open>
  Every constraint of a permission holds for the call, with the approval it needs spent by it, and the
  calls recorded after it for this agent and resource in the last hour are within the hourly limit.
\<close>

definition met ::
  "(string \<Rightarrow> 'h) \<Rightarrow> regex_engine \<Rightarrow> clock \<Rightarrow> clock \<Rightarrow> agent_identity \<Rightarrow> authorize_request
     \<Rightarrow> attestation_facts option \<Rightarrow> approval_row list \<Rightarrow> engine_db \<Rightarrow> permission \<Rightarrow> bool" where
  "met sha256 compile c1 c2 agent req attestation rows db' p \<longleftrightarrow>
     (\<forall>cs. pm_constraints p = Some cs \<longrightarrow>
        args_ok compile cs (map_option JObj (zr_arguments req))
        \<and> attestation_ok cs attestation \<and> ip_ok cs (request_ip req)
        \<and> (\<forall>limit. pc_maxCallsPerHour cs = Some limit \<longrightarrow> agent_identity.ag_id agent \<noteq> [] \<longrightarrow>
             readRateUsage (en_rates db') (agent_identity.ag_id agent) (zr_resource req) (ck_now c1) \<le> limit)
        \<and> (if pc_requireApproval cs
           then window_ok cs (ck_hours c2 * 60 + ck_minutes c2)
              \<and> spent_for sha256 agent req (ck_now c2) rows (en_approvals db')
           else window_ok cs (ck_hours c1 * 60 + ck_minutes c1) \<and> en_approvals db' = rows))"

lemma engine_met:
  assumes "authorize config sha256 compile fault c1 c2 auditId agent req options db = (result, db')"
    and "zs_allowed result" and "unique_keys ap_id (en_approvals db)"
  shows "\<exists>p\<in>set (agent_identity.ag_permissions agent). grants (engine_matching config) (zr_action req) (zr_resource req) p
    \<and> met sha256 compile c1 c2 agent req (zo_attestation options) (en_approvals db) db' p"
  using engine_allowed [OF assms] unfolding met_def rate_passed_def by (fastforce split: option.splits)

lemma met_same_agent:
  "agent_identity.ag_id a = agent_identity.ag_id b \<Longrightarrow>
   met sha256 compile c1 c2 a req att rows db' p = met sha256 compile c1 c2 b req att rows db' p"
  by (simp add: met_def spent_for_def)

lemma truncate_simps [simp]:
  "agent_identity.ag_id (agent_identity.truncate a) = agent_identity.ag_id a"
  "agent_identity.ag_permissions (agent_identity.truncate a) = agent_identity.ag_permissions a"
  "agent_identity.ag_ownerId (agent_identity.truncate a) = agent_identity.ag_ownerId a"
  by (simp_all add: agent_identity.truncate_def)

lemma engine_options_attestation [simp]: "zo_attestation (engine_options params att) = att"
  by (simp add: engine_options_def)

text \<open>The decision of the pipeline, own or delegated.\<close>

definition backed ::
  "pipeline_config \<Rightarrow> (string \<Rightarrow> 'h) \<Rightarrow> regex_engine \<Rightarrow> pipeline_env \<Rightarrow> agent_view \<Rightarrow> authorize_request
     \<Rightarrow> attestation_facts option \<Rightarrow> pipeline_db \<Rightarrow> engine_db \<Rightarrow> bool" where
  "backed cf sha256 compile env agent req att db en' \<longleftrightarrow>
     (let m = engine_matching (pc_engine cf); rows = en_approvals (pl_engine db); who = agent_identity.truncate agent;
          dd = deleg_of (pl_agents db); i = agent_identity.ag_id agent in
      (\<exists>p\<in>set (agent_identity.ag_permissions agent).
         grants m (zr_action req) (zr_resource req) p
         \<and> met sha256 compile (pv_own1 env) (pv_own2 env) who req att rows en' p)
      \<or> (\<exists>link\<in>set (liveInboundRows dd (pv_delegated env) (pc_matching cf) i). \<exists>p\<in>set (ch_permissions link).
         grants m (zr_action req) (zr_resource req) p
         \<and> met sha256 compile (pv_del1 env) (pv_del2 env) who req att rows en' p
         \<and> (agentRow dd (ch_from link) \<noteq> None \<longrightarrow> standing dd (pv_delegated env) (ch_from link))))"

lemma decision_backed:
  assumes d: "own_then_delegated cf sha256 compile env agent req (engine_options params att) db = (result, en)"
    and ok: "zs_allowed result" and u: "unique_keys ap_id (en_approvals (pl_engine db))"
  shows "backed cf sha256 compile env agent req att db en"
proof -
  let ?who = "agent_identity.truncate agent" and ?dd = "deleg_of (pl_agents db)"
  let ?perms = "getDelegatedPermissions ?dd (pv_delegated env) (pc_matching cf) (agent_identity.ag_id agent)"
  obtain r1 en1 where own: "authorize (pc_engine cf) sha256 compile (pv_fault env) (pv_own1 env) (pv_own2 env) (pv_ownId env)
      ?who req (engine_options params att) (pl_engine db) = (r1, en1)" by fastforce
  show ?thesis
  proof (cases "zs_allowed r1")
    case True
    then have "en = en1" using d own by (simp add: own_then_delegated_def Let_def)
    with engine_met [OF own True u] show ?thesis unfolding backed_def Let_def by auto
  next
    case False
    let ?del = "?who\<lparr>agent_identity.ag_permissions := ?perms\<rparr>"
    obtain r2 en2 where del: "authorize (pc_engine cf) sha256 compile (pv_fault env) (pv_del1 env) (pv_del2 env) (pv_delId env)
      ?del req (engine_options params att) en1 = (r2, en2)" by fastforce
    have kept: "en_approvals en1 = en_approvals (pl_engine db)" using engine_denied [OF own False u] by simp
    have u1: "unique_keys ap_id (en_approvals en1)" using u by (simp add: kept)
    have r2: "zs_allowed r2" "en = en2" using d own del False ok
      by (auto simp: own_then_delegated_def Let_def split: if_splits)
    obtain p where p: "p \<in> set ?perms" "grants (engine_matching (pc_engine cf)) (zr_action req) (zr_resource req) p"
      "met sha256 compile (pv_del1 env) (pv_del2 env) ?del req att (en_approvals en1) en2 p"
      using engine_met [OF del r2(1) u1] by auto
    obtain link where link: "link \<in> set (liveInboundRows ?dd (pv_delegated env) (pc_matching cf) (agent_identity.ag_id agent))"
      "p \<in> set (ch_permissions link)" using p(1) by (auto simp: getDelegatedPermissions_def)
    have "met sha256 compile (pv_del1 env) (pv_del2 env) ?who req att (en_approvals (pl_engine db)) en p"
    proof -
      have "agent_identity.ag_id ?who = agent_identity.ag_id ?del" by simp
      from p(3) show ?thesis unfolding kept r2(2) by (subst met_same_agent [OF \<open>agent_identity.ag_id ?who = _\<close>])
    qed
    with link p(2) live_rows_grounded [OF link(1)] show ?thesis unfolding backed_def Let_def by blast
  qed
qed

lemma auditDenial_keeps [simp]: "en_approvals (auditDenial config fault agent req result ps db) = en_approvals db"
  by (simp add: auditDenial_def)

lemma recordDenial_keeps:
  "recordDenial config fault i target req code extra db = (a, db') \<Longrightarrow> en_approvals db' = en_approvals db \<and> en_rates db' = en_rates db"
  by (auto simp: recordDenial_def split: if_splits)

definition hook_lets_pass :: "pipeline_config \<Rightarrow> pipeline_env \<Rightarrow> bool" where
  "hook_lets_pass cf env \<longleftrightarrow>
     (\<exists>outcome. runBeforeAuthorize (pv_hook env) (pc_guard cf) = Inr outcome \<and> \<not> isHookBlock outcome)"

lemma blocked_refused: "\<not> zs_allowed (fst (blockedByHook cf env agent req outcome chain extra db))"
  by (auto simp: blockedByHook_def refusal_def Let_def split: hook_outcome.splits prod.splits)

lemma resolved_allowed:
  assumes r: "authorizeResolved cf sha256 compile env agent req options db = (Inr result, db')"
    and ok: "zs_allowed result" and u: "unique_keys ap_id (en_approvals (pl_engine db))"
  shows "hook_lets_pass cf env
    \<and> backed cf sha256 compile env agent req (po_attestation options) db (pl_engine db')"
proof -
  obtain outcome where h: "runBeforeAuthorize (pv_hook env) (pc_guard cf) = Inr outcome"
    using r by (auto simp: authorizeResolved_def split: sum.splits)
  have nb: "\<not> isHookBlock outcome"
    using r ok h blocked_refused [of cf env agent req "the outcome"]
    by (auto simp: authorizeResolved_def split: if_splits prod.splits) (metis fst_conv)
  obtain fr en where d: "own_then_delegated cf sha256 compile env agent req
      (engine_options (audit_parameters outcome (po_auditParameters options)) (po_attestation options)) db = (fr, en)" by fastforce
  have "fr = result" "pl_engine db' = en" using r h nb d ok by (auto simp: authorizeResolved_def Let_def)
  with decision_backed [OF d _ u] ok h nb show ?thesis unfolding hook_lets_pass_def by auto
qed

text \<open>
  C1: what a call passed that the pipeline allows. The agent exists, is active and has not expired; no hook
  blocked the call; and a permission of the agent, or one that a live link lends it from a delegator
  who is active himself, grants the action on the resource with all its constraints met: an approval spent
  for exactly this call where one is needed, and the calls recorded for the agent on the resource within
  the hourly limit where there is one.
\<close>

theorem pipeline_allowed:
  assumes "pipeline_authorize cf sha256 compile env agentId call context options db = (Inr result, db')"
    and "zs_allowed result" and "unique_keys ap_id (en_approvals (pl_engine db))"
  shows "\<exists>agent. get agentId (pl_agents db) = Some agent \<and> agent_view.av_status agent = RowActive
    \<and> \<not> past_expiry (agent_view.av_expiresAt agent) (pv_now env) \<and> hook_lets_pass cf env
    \<and> backed cf sha256 compile env agent (enrich context call) (po_attestation options) db (pl_engine db')"
proof -
  obtain agent where g: "get agentId (pl_agents db) = Some agent"
    using assms(1,2) by (auto simp: pipeline_authorize_def refusal_def split: option.splits)
  have live: "agent_view.av_status agent = RowActive \<and> \<not> past_expiry (agent_view.av_expiresAt agent) (pv_now env)"
    using assms(1,2) g by (auto simp: pipeline_authorize_def refusal_def Let_def split: if_splits prod.splits)
  then have "authorizeResolved cf sha256 compile env agent (enrich context call) options db = (Inr result, db')"
    using assms(1) g by (simp add: pipeline_authorize_def Let_def)
  from resolved_allowed [OF this assms(2,3)] g live show ?thesis by blast
qed

text \<open>
  C2: what a call by token passed. The token is that of an active agent that has not expired; if the
  agent's token is bound, the request proved every key it is bound to, and an unbound token passes only
  where binding is not required; and the call passed everything a call by id does.
\<close>

theorem token_call_allowed:
  assumes "authorizeByToken cf sha256 compile env token call context db = (Inr result, db')"
    and "zs_allowed result" and "unique_keys ap_id (en_approvals (pl_engine db))"
  shows "\<exists>a\<in>set (at_agents (pl_agents db)). fa_tokenHash a = sha256 token \<and> ag_status a = RowActive
    \<and> (\<forall>t. ag_expiresAt a = Some t \<longrightarrow> pv_now env \<le> t)
    \<and> (pc_requireConfirmation cf \<longrightarrow> readStoredConfirmation (fa_cnf a) \<noteq> None)
    \<and> (\<forall>b. readStoredConfirmation (fa_cnf a) = Some b \<longrightarrow>
         (\<forall>(m, t)\<in>set b. \<exists>p. Option.bind context cx_confirmation = Some p \<and> map_of p m = Some t))
    \<and> hook_lets_pass cf env
    \<and> (\<exists>agents. agents = snd (resolveToken sha256 token (pv_now env) (pl_agents db))
         \<and> backed cf sha256 compile env (identity_of a (permissions_of (agent_row.ag_id a) (pl_agents db)) RowActive)
             (enrich context call) None (db\<lparr>pl_agents := agents\<rparr>) (pl_engine db'))"
proof -
  obtain agent rejected agents where t: "resolveToken sha256 token (pv_now env) (pl_agents db) = ((Some agent, rejected), agents)"
    using assms(1,2) by (auto simp: authorizeByToken_def refusal_def Let_def split: prod.splits option.splits)
  let ?verdict = "if pc_requireConfirmation cf \<and> av_cnf agent = None then Required
      else confirmationVerdict (av_cnf agent) (Option.bind context cx_confirmation)"
  have v: "?verdict = Confirmed"
    using assms(1,2) t by (auto simp: authorizeByToken_def refusal_def Let_def split: if_splits prod.splits)
  then have resolved: "authorizeResolved cf sha256 compile env agent (enrich context call) no_pipeline_options
      (db\<lparr>pl_agents := agents\<rparr>) = (Inr result, db')"
    using assms(1) t by (simp add: authorizeByToken_def Let_def split: if_splits)
  have "unique_keys ap_id (en_approvals (pl_engine (db\<lparr>pl_agents := agents\<rparr>)))" using assms(3) by simp
  note pass = resolved_allowed [OF resolved assms(2) this]
  have "fst (fst (resolveToken sha256 token (pv_now env) (pl_agents db))) = Some agent" using t by simp
  from resolveToken_SomeD [OF this] obtain a where a: "a \<in> set (at_agents (pl_agents db))" "fa_tokenHash a = sha256 token"
    "ag_status a = RowActive" "\<forall>t. ag_expiresAt a = Some t \<longrightarrow> pv_now env \<le> t"
    "agent = identity_of a (permissions_of (agent_row.ag_id a) (pl_agents db)) RowActive" by blast
  have bound: "pc_requireConfirmation cf \<longrightarrow> readStoredConfirmation (fa_cnf a) \<noteq> None"
    and proofs: "\<forall>b. readStoredConfirmation (fa_cnf a) = Some b \<longrightarrow>
         (\<forall>(m, t)\<in>set b. \<exists>p. Option.bind context cx_confirmation = Some p \<and> map_of p m = Some t)"
    using v confirmation_iff [of "av_cnf agent" "Option.bind context cx_confirmation"]
    by (auto simp: a(5) split: if_splits)
  have "snd (resolveToken sha256 token (pv_now env) (pl_agents db)) = agents" using t by simp
  with a pass bound proofs show ?thesis
    by (intro bexI [of _ a] conjI exI [of _ agents]) (simp_all add: no_pipeline_options_def)
qed

section \<open>What a denied call leaves\<close>

lemma engine_ids:
  "authorize config sha256 compile fault c1 c2 auditId agent req options db = (result, db') \<Longrightarrow> zs_auditId result = auditId"
  by (auto simp: authorize_def Let_def split: option.splits prod.splits verdict.splits if_splits)

lemma recordDenial_row:
  assumes "recordDenial config fault i target req code extra db = (a, db')" and "ec_auditAll config" and "\<not> fault"
  shows "a = i \<and> (\<exists>row. en_audit db' = en_audit db @ [row] \<and> ea_id row = i \<and> ea_agentId row = fst target
    \<and> ea_decisionCode row = code \<and> ea_result row = (case Option.bind extra dx_result of Some r \<Rightarrow> r | None \<Rightarrow> DeniedRes))"
  using assms by (auto simp: recordDenial_def)

text \<open>The row of a call: its id, agent, code and outcome are those of the result.\<close>

definition row_of :: "ident \<Rightarrow> authorize_result \<Rightarrow> engine_audit \<Rightarrow> bool" where
  "row_of agentId result row \<longleftrightarrow>
     ea_id row = zs_auditId result \<and> ea_agentId row = agentId \<and> ea_decisionCode row = zs_code result
     \<and> (ea_result row = AllowedRes \<longleftrightarrow> zs_allowed result)"

definition one_row :: "ident \<Rightarrow> authorize_result \<Rightarrow> engine_db \<Rightarrow> engine_db \<Rightarrow> bool" where
  "one_row agentId result db db' \<longleftrightarrow> (\<exists>row. en_audit db' = en_audit db @ [row] \<and> row_of agentId result row)"

lemma engine_rows:
  assumes a: "authorize config sha256 compile False c1 c2 auditId agent req options db = (result, db')"
    and all: "ec_auditAll config" and d: "zo_deferDenialAudit options"
  shows "if zs_allowed result then one_row (agent_identity.ag_id agent) result db db' else en_audit db' = en_audit db"
proof -
  have "if zs_allowed result
     then \<exists>row. en_audit db' = en_audit db @ [row] \<and> ea_id row = auditId \<and> ea_result row = AllowedRes
            \<and> ea_decisionCode row = zs_code result \<and> ea_agentId row = agent_identity.ag_id agent
     else en_audit db' = en_audit db"
    using authorize_audit [OF a, THEN conjunct2, THEN conjunct2, THEN conjunct2] all d by (simp split: if_splits)
  then show ?thesis using engine_ids [OF a] by (auto simp: one_row_def row_of_def)
qed

lemma auditDenial_row:
  assumes "ec_auditAll config" and "\<not> zs_allowed result" and "zs_auditId result \<noteq> []"
  shows "one_row (agent_identity.ag_id agent) result db (auditDenial config False agent req result ps db)"
  using assms by (simp add: auditDenial_def writeAuditLog_def one_row_def row_of_def)

lemma decision_rows:
  assumes d: "own_then_delegated cf sha256 compile env agent req (engine_options params att) db = (result, en)"
    and all: "ec_auditAll (pc_engine cf)" "\<not> pv_fault env"
  shows "(if zs_allowed result then one_row (agent_identity.ag_id agent) result (pl_engine db) en
          else en_audit en = en_audit (pl_engine db))
    \<and> (zs_auditId result = pv_ownId env \<or> zs_auditId result = pv_delId env)"
proof -
  let ?who = "agent_identity.truncate agent" and ?dd = "deleg_of (pl_agents db)"
  let ?perms = "getDelegatedPermissions ?dd (pv_delegated env) (pc_matching cf) (agent_identity.ag_id agent)"
  let ?o = "engine_options params att"
  have deferred: "zo_deferDenialAudit ?o" by (simp add: engine_options_def)
  have nf: "pv_fault env = False" using all(2) by simp
  obtain r1 en1 where own: "authorize (pc_engine cf) sha256 compile False (pv_own1 env) (pv_own2 env) (pv_ownId env)
      ?who req ?o (pl_engine db) = (r1, en1)" by fastforce
  obtain r2 en2 where del: "authorize (pc_engine cf) sha256 compile False (pv_del1 env) (pv_del2 env) (pv_delId env)
      (?who\<lparr>agent_identity.ag_permissions := ?perms\<rparr>) req ?o en1 = (r2, en2)" by fastforce
  note rows = engine_rows [OF own all(1) deferred] engine_rows [OF del all(1) deferred]
  note ids = engine_ids [OF own] engine_ids [OF del]
  show ?thesis
    using d rows ids own del nf
    by (auto simp: own_then_delegated_def Let_def one_row_def split: if_splits)
qed

lemma blocked_row:
  assumes b: "blockedByHook cf env agent req outcome chain extra db = (result, db')" and h: "isHookBlock (Some outcome)"
    and all: "ec_auditAll (pc_engine cf)" "\<not> pv_fault env"
  shows "one_row (agent_identity.ag_id agent) result (pl_engine db) (pl_engine db')"
  using b h recordDenial_row [OF _ all]
  by (fastforce simp: blockedByHook_def isHookBlock_def Let_def refusal_def one_row_def row_of_def
      split: hook_outcome.splits prod.splits)

lemma blocked_keeps:
  "blockedByHook cf env agent req outcome chain extra db = (result, db') \<Longrightarrow>
   en_approvals (pl_engine db') = en_approvals (pl_engine db)"
  by (auto simp: blockedByHook_def Let_def dest: recordDenial_keeps split: hook_outcome.splits prod.splits)

lemma resolved_rows:
  assumes r: "authorizeResolved cf sha256 compile env agent req options db = (Inr result, db')"
    and all: "ec_auditAll (pc_engine cf)" "\<not> pv_fault env" and ids: "pv_ownId env \<noteq> []" "pv_delId env \<noteq> []"
  shows "one_row (agent_identity.ag_id agent) result (pl_engine db) (pl_engine db')"
proof -
  obtain outcome where h: "runBeforeAuthorize (pv_hook env) (pc_guard cf) = Inr outcome"
    using r by (auto simp: authorizeResolved_def split: sum.splits)
  show ?thesis
  proof (cases "isHookBlock outcome")
    case True
    then have "isHookBlock (Some (the outcome))" by (cases outcome) (simp_all add: isHookBlock_def)
    then show ?thesis using r h True blocked_row [OF _ _ all] by (auto simp: authorizeResolved_def split: prod.splits)
  next
    case False
    let ?params = "audit_parameters outcome (po_auditParameters options)"
    obtain fr en where d: "own_then_delegated cf sha256 compile env agent req
        (engine_options ?params (po_attestation options)) db = (fr, en)" by fastforce
    have fr: "fr = result" and en: "pl_engine db' = (if zs_allowed result then en
        else auditDenial (pc_engine cf) (pv_fault env) (agent_identity.truncate agent) req result ?params en)"
      using r h False d by (auto simp: authorizeResolved_def Let_def)
    note rows = decision_rows [OF d [unfolded fr] all]
    show ?thesis
    proof (cases "zs_allowed result")
      case True
      with rows en show ?thesis by simp
    next
      case False
      with rows have "en_audit en = en_audit (pl_engine db)" "zs_auditId result \<noteq> []" using ids by auto
      then show ?thesis
        using auditDenial_row [OF all(1) False, of "agent_identity.truncate agent" en req ?params] False en all(2)
        by (simp add: one_row_def)
    qed
  qed
qed

text \<open>
  C28: one call, one audit row. With auditing on and working, a call for a known agent appends exactly one
  row, whatever path it takes (inactive agent, hook, own permission, delegated permission, denial): the row
  carries the id, the agent, the code and the outcome that were returned.
\<close>

theorem one_row_per_call:
  assumes "pipeline_authorize cf sha256 compile env agentId call context options db = (Inr result, db')"
    and "get agentId (pl_agents db) \<noteq> None" and "ec_auditAll (pc_engine cf)" "\<not> pv_fault env"
    and "pv_ownId env \<noteq> []" "pv_delId env \<noteq> []"
  shows "\<exists>row. en_audit (pl_engine db') = en_audit (pl_engine db) @ [row] \<and> row_of agentId result row"
proof -
  obtain agent where g: "get agentId (pl_agents db) = Some agent" using assms(2) by blast
  then have i: "agent_identity.ag_id agent = agentId"
    using agent_by_id_SomeD [of agentId "pl_agents db"] by (auto simp: get_def)
  let ?st = "agent_view.av_status agent" and ?el = "past_expiry (agent_view.av_expiresAt agent) (pv_now env)"
  show ?thesis
  proof (cases "?st \<noteq> RowActive \<or> ?el")
    case True
    obtain a en where d: "recordDenial (pc_engine cf) (pv_fault env) (pv_denialId env)
        (agent_identity.ag_id agent, agent_identity.ag_ownerId agent) (enrich context call)
        (if ?st = RowExpired \<or> (?st = RowActive \<and> ?el) then AgentExpired else AgentRevoked)
        (extra_denial call (po_auditParameters options)) (pl_engine db) = (a, en)" by fastforce
    have res: "Option.bind (extra_denial call (po_auditParameters options)) dx_result = None"
      by (cases "po_auditParameters options") (simp_all add: extra_denial_def)
    show ?thesis
      using assms(1) g True d recordDenial_row [OF d assms(3,4)] i
      by (auto simp: pipeline_authorize_def Let_def refusal_def row_of_def res)
  next
    case False
    then have "authorizeResolved cf sha256 compile env agent (enrich context call) options db = (Inr result, db')"
      using assms(1) g by (simp add: pipeline_authorize_def Let_def)
    from resolved_rows [OF this assms(3-6)] show ?thesis by (simp add: one_row_def i)
  qed
qed

text \<open>
  C39: a denied call spends no approval, on any path, also when the delegated permissions were tried after the own ones.
\<close>

theorem denied_call_keeps_approvals:
  assumes "pipeline_authorize cf sha256 compile env agentId call context options db = (r, db')"
    and "\<forall>result. r = Inr result \<longrightarrow> \<not> zs_allowed result" and u: "unique_keys ap_id (en_approvals (pl_engine db))"
  shows "en_approvals (pl_engine db') = en_approvals (pl_engine db) \<and> pl_agents db' = pl_agents db"
proof -
  have decision: "en_approvals en = en_approvals (pl_engine db)"
    if d: "own_then_delegated cf sha256 compile env agent req o' db = (result, en)" and no: "\<not> zs_allowed result"
    for agent req o' result en
  proof -
    let ?who = "agent_identity.truncate agent"
    let ?perms = "getDelegatedPermissions (deleg_of (pl_agents db)) (pv_delegated env) (pc_matching cf) (agent_identity.ag_id agent)"
    obtain r1 en1 where own: "authorize (pc_engine cf) sha256 compile (pv_fault env) (pv_own1 env) (pv_own2 env) (pv_ownId env)
        ?who req o' (pl_engine db) = (r1, en1)" by fastforce
    have n1: "\<not> zs_allowed r1" using d own no by (auto simp: own_then_delegated_def Let_def)
    have k1: "en_approvals en1 = en_approvals (pl_engine db)" using engine_denied [OF own n1 u] by simp
    obtain r2 en2 where del: "authorize (pc_engine cf) sha256 compile (pv_fault env) (pv_del1 env) (pv_del2 env) (pv_delId env)
        (?who\<lparr>agent_identity.ag_permissions := ?perms\<rparr>) req o' en1 = (r2, en2)" by fastforce
    have u1: "unique_keys ap_id (en_approvals en1)" using u by (simp add: k1)
    show ?thesis
    proof (cases "?perms = []")
      case False
      have n2: "\<not> zs_allowed r2" using d own del no n1 False by (auto simp: own_then_delegated_def Let_def)
      show ?thesis using engine_denied [OF del n2 u1] d own del n1 False k1 by (simp add: own_then_delegated_def Let_def)
    qed (use d own n1 k1 in \<open>simp add: own_then_delegated_def Let_def\<close>)
  qed
  have resolved: "en_approvals (pl_engine db'') = en_approvals (pl_engine db) \<and> pl_agents db'' = pl_agents db"
    if "authorizeResolved cf sha256 compile env agent req o' db = (r, db'')" for agent req o' db''
  proof (cases "runBeforeAuthorize (pv_hook env) (pc_guard cf)")
    case (Inl w)
    with that show ?thesis by (simp add: authorizeResolved_def)
  next
    case (Inr outcome)
    have pl: "pl_agents (snd (blockedByHook cf env agent req oc chain extra db)) = pl_agents db" for oc chain extra
      by (auto simp: blockedByHook_def Let_def split: hook_outcome.splits prod.splits)
    show ?thesis
      using that Inr assms(2) decision blocked_keeps pl
      by (auto simp: authorizeResolved_def Let_def split: if_splits prod.splits) (metis snd_conv)+
  qed
  show ?thesis
    using assms(1) resolved recordDenial_keeps
    by (auto simp: pipeline_authorize_def Let_def split: option.splits if_splits prod.splits)
qed

section \<open>Instances\<close>

definition sample_env :: pipeline_env where
  "sample_env =
     \<lparr>pv_now = 500, pv_hook = None, pv_lineage = 500, pv_inbound = 500, pv_own1 = noon, pv_own2 = noon, pv_ownId = ''r1'',
      pv_delegated = 500, pv_del1 = noon, pv_del2 = noon, pv_delId = ''r2'', pv_denialId = ''r3'', pv_fault = False\<rparr>"

definition sample_pipeline :: pipeline_config where
  "sample_pipeline =
     \<lparr>pc_engine = \<lparr>ec_auditAll = True, ec_resourceMatching = None\<rparr>,
      pc_guard = \<lparr>hg_timeoutMs = 5, hg_onTimeout = FailDeny, hg_onError = FailDeny\<rparr>,
      pc_requireConfirmation = False, pc_matching = Colon\<rparr>"

definition limited :: permission where
  "limited =
     \<lparr>pm_resource = ''a'', pm_actions = [''write''],
      pm_constraints = Some (no_constraints\<lparr>pc_requireApproval := True, pc_maxCallsPerHour := Some 10\<rparr>), pm_relation = None\<rparr>"

definition lending_agents :: agent_db where
  "lending_agents =
     \<lparr>at_agents = at_agents sample_store,
      at_permissions = [\<lparr>pr_agentId = ''x'', pr_permission = limited\<rparr>],
      at_chains = [\<lparr>ch_id = ''c'', ch_from = ''boss'', ch_to = ''x'', ch_permissions = [limited], ch_depth = 1, ch_maxDepth = 3,
                    ch_status = RowActive, ch_expiresAt = 900, ch_createdAt = 0\<rparr>],
      at_delegationAudit = [], at_cascades = []\<rparr>"

definition sample_pipeline_db :: pipeline_db where
  "sample_pipeline_db = \<lparr>pl_agents = lending_agents, pl_engine = \<lparr>en_approvals = [], en_rates = [], en_audit = []\<rparr>\<rparr>"

definition open_db :: pipeline_db where
  "open_db = sample_pipeline_db\<lparr>pl_agents := lending_agents\<lparr>at_permissions :=
     [\<lparr>pr_agentId = ''x'', pr_permission = limited\<lparr>pm_constraints := None\<rparr>\<rparr>]\<rparr>\<rparr>"

abbreviation call_by_id :: "pipeline_db \<Rightarrow> (hook_failure + authorize_result) \<times> pipeline_db" where
  "call_by_id db \<equiv> pipeline_authorize sample_pipeline (id :: string \<Rightarrow> string) (\<lambda>_. None) sample_env ''x''
     sample_request None no_pipeline_options db"

definition is_allowed :: "(hook_failure + authorize_result) \<times> pipeline_db \<Rightarrow> bool" where
  "is_allowed r = (case fst r of Inl _ \<Rightarrow> False | Inr result \<Rightarrow> zs_allowed result)"

lemma is_allowedD: "is_allowed r \<Longrightarrow> \<exists>result db'. r = (Inr result, db') \<and> zs_allowed result"
  by (cases r) (auto simp: is_allowed_def split: sum.splits)

lemma pipeline_allowed_witness: "\<exists>agent. get ''x'' (pl_agents open_db) = Some agent \<and> agent_view.av_status agent = RowActive"
proof -
  have "is_allowed (call_by_id open_db)" by code_simp
  then obtain result db' where c: "call_by_id open_db = (Inr result, db')" "zs_allowed result" using is_allowedD by blast
  have "unique_keys ap_id (en_approvals (pl_engine open_db))"
    by (simp add: open_db_def sample_pipeline_db_def unique_keys_def)
  from pipeline_allowed [OF c this] show ?thesis by blast
qed

lemma token_call_allowed_witness:
  "\<exists>a\<in>set (at_agents (pl_agents open_db)). fa_tokenHash a = ''ta_s'' \<and> ag_status a = RowActive"
proof -
  let ?r = "authorizeByToken sample_pipeline id (\<lambda>_. None) sample_env ''ta_s'' sample_request None open_db"
  have "is_allowed ?r" by code_simp
  then obtain result db' where c: "?r = (Inr result, db')" "zs_allowed result" using is_allowedD by blast
  have "unique_keys ap_id (en_approvals (pl_engine open_db))"
    by (simp add: open_db_def sample_pipeline_db_def unique_keys_def)
  from token_call_allowed [OF c this] show ?thesis by auto
qed

lemma refused_call: "\<exists>result db'. call_by_id sample_pipeline_db = (Inr result, db') \<and> \<not> zs_allowed result"
proof -
  have "(case fst (call_by_id sample_pipeline_db) of Inl _ \<Rightarrow> False | Inr result \<Rightarrow> \<not> zs_allowed result)" by code_simp
  then show ?thesis by (cases "call_by_id sample_pipeline_db") (auto split: sum.splits)
qed

lemma one_row_per_call_witness: "length (en_audit (pl_engine (snd (call_by_id sample_pipeline_db)))) = 1"
proof -
  obtain result db' where c: "call_by_id sample_pipeline_db = (Inr result, db')" using refused_call by blast
  have "get ''x'' (pl_agents sample_pipeline_db) \<noteq> None"
    by (simp add: sample_pipeline_db_def lending_agents_def get_def agent_by_id_def sample_store_def)
  moreover have "ec_auditAll (pc_engine sample_pipeline)" "\<not> pv_fault sample_env" "pv_ownId sample_env \<noteq> []"
    "pv_delId sample_env \<noteq> []" "en_audit (pl_engine sample_pipeline_db) = []"
    by (simp_all add: sample_pipeline_def sample_env_def sample_pipeline_db_def)
  ultimately show ?thesis using one_row_per_call [OF c] c by auto
qed

lemma denied_call_keeps_approvals_witness: "en_approvals (pl_engine (snd (call_by_id sample_pipeline_db))) = []"
proof -
  obtain result db' where c: "call_by_id sample_pipeline_db = (Inr result, db')" "\<not> zs_allowed result" using refused_call by blast
  have "unique_keys ap_id (en_approvals (pl_engine sample_pipeline_db))" "en_approvals (pl_engine sample_pipeline_db) = []"
    by (simp_all add: sample_pipeline_db_def unique_keys_def)
  with denied_call_keeps_approvals [OF c(1)] c show ?thesis by simp
qed

section \<open>Where the entry points and the counters disagree\<close>

text \<open>
  One refused call counts twice. The own permission and the delegated one both carry an hourly limit and both
  need approval; the call is denied, and the counter of its agent and resource stands at two.
\<close>

theorem refused_call_counts_twice:
  "\<not> is_allowed (call_by_id sample_pipeline_db)
   \<and> readRateUsage (en_rates (pl_engine sample_pipeline_db)) ''x'' ''a'' 0 = 0
   \<and> readRateUsage (en_rates (pl_engine (snd (call_by_id sample_pipeline_db)))) ''x'' ''a'' 0 = 2"
  by (intro conjI) code_simp+

text \<open>
  The instant of expiry. An agent whose expiry is the present instant is refused by id as expired, but its
  token still resolves to it: one check is strict, the other is not.
\<close>

theorem expiry_instant_differs:
  assumes "agent_by_id i (pl_agents db) = Some a" and "agent_by_hash (sha256 token) (pl_agents db) = Some a"
    and "isAgentToken token" and "ag_status a = RowActive" and "ag_expiresAt a = Some (pv_now env)"
  shows "(\<exists>result. fst (pipeline_authorize cf sha256 compile env i call context options db) = Inr result
       \<and> zs_code result = AgentExpired \<and> \<not> zs_allowed result)
    \<and> (\<exists>v. fst (fst (resolveToken sha256 token (pv_now env) (pl_agents db))) = Some v \<and> agent_identity.ag_id v = i)"
proof -
  have i: "agent_row.ag_id a = i" using agent_by_id_SomeD [OF assms(1)] by simp
  have "past_expiry (ag_expiresAt a) (pv_now env)" by (simp add: past_expiry_def assms(5))
  then show ?thesis
    using assms i by (auto simp: pipeline_authorize_def get_def Let_def refusal_def resolveToken_def split: prod.splits)
qed

lemma expiry_instant_differs_witness:
  "\<exists>v. fst (fst (resolveToken id ''ta_s'' 1000 (pl_agents open_db))) = Some v \<and> agent_identity.ag_id v = ''x''"
proof -
  let ?a = "hd (at_agents sample_store)"
  have "agent_by_id ''x'' (pl_agents open_db) = Some ?a" "agent_by_hash (id ''ta_s'') (pl_agents open_db) = Some ?a"
    "isAgentToken ''ta_s''" "ag_status ?a = RowActive" "ag_expiresAt ?a = Some (pv_now (sample_env\<lparr>pv_now := 1000\<rparr>))"
    by (simp_all add: agent_by_id_def agent_by_hash_def open_db_def lending_agents_def sample_store_def isAgentToken_def
        agent_token_prefix_def)
  from expiry_instant_differs [of "''x''" open_db ?a id "''ta_s''", OF this] show ?thesis by simp
qed

end
