(* ===== verification/Storage.thy ===== *)
theory Storage
  imports Abac "HOL-Library.AList"
begin

text \<open>
  Secondary storage, \<open>packages/core/src/storage\<close>: the key/value contract of \<open>types.ts\<close>, the
  process-local store of \<open>memory.ts\<close>, the table store of \<open>database.ts\<close>, the name spaces of
  \<open>custom.ts\<close> and \<open>resolve.ts\<close>. An operation takes the clock and the state of the store, and
  answers or throws. The contract is a locale over what a reader can see at an instant; both stores
  and every name space of a store interpret it, so the throttles built on it are proved once.
\<close>

section \<open>Operations\<close>

datatype 'a reply = Threw | Returned 'a

type_synonym ('s, 'a) action = "'s \<Rightarrow> 'a reply \<times> 's"

text \<open>\<open>await\<close> of an action, then the code after it.\<close>

definition andThen :: "('s, 'a) action \<Rightarrow> ('a \<Rightarrow> ('s, 'b) action) \<Rightarrow> ('s, 'b) action" where
  "andThen p f s = (case p s of (Threw, s') \<Rightarrow> (Threw, s') | (Returned x, s') \<Rightarrow> f x s')"

definition answer :: "'a \<Rightarrow> ('s, 'a) action" where
  "answer x s = (Returned x, s)"

lemma andThen_Returned [simp]: "p s = (Returned x, s') \<Longrightarrow> andThen p f s = f x s'"
  by (simp add: andThen_def)

lemma andThen_Threw [simp]: "p s = (Threw, s') \<Longrightarrow> andThen p f s = (Threw, s')"
  by (simp add: andThen_def)

lemma answer_apply [simp]: "answer x s = (Returned x, s)"
  by (simp add: answer_def)

text \<open>\<open>IncrResult\<close> is the pair of the count and the instant its window ends. Times to live are seconds.\<close>

record 's storage =
  st_get :: "string \<Rightarrow> time \<Rightarrow> ('s, string option) action"
  st_set :: "string \<Rightarrow> string \<Rightarrow> int option \<Rightarrow> time \<Rightarrow> ('s, unit) action"
  st_delete :: "string \<Rightarrow> time \<Rightarrow> ('s, unit) action"
  st_incr :: "string \<Rightarrow> int \<Rightarrow> time \<Rightarrow> ('s, int \<times> time) action"
  st_list :: "(string \<Rightarrow> time \<Rightarrow> ('s, string list) action) option"

section \<open>Interleaved callers\<close>

text \<open>
  Callers that share one state, each with a program counter. A step moves one caller, at an instant
  not before the last one.
\<close>

record ('s, 'p) world =
  wd_shared :: 's
  wd_callers :: "'p list"
  wd_now :: time

inductive interleave :: "(time \<Rightarrow> 'p \<Rightarrow> 's \<Rightarrow> 'p \<times> 's) \<Rightarrow> ('s, 'p) world \<Rightarrow> ('s, 'p) world \<Rightarrow> bool"
  for step :: "time \<Rightarrow> 'p \<Rightarrow> 's \<Rightarrow> 'p \<times> 's" where
  interleaveI: "i < length (wd_callers w) \<Longrightarrow> wd_now w \<le> t \<Longrightarrow>
     step t (wd_callers w ! i) (wd_shared w) = (pc', s') \<Longrightarrow>
     interleave step w \<lparr>wd_shared = s', wd_callers = (wd_callers w)[i := pc'], wd_now = t\<rparr>"

inductive_cases interleaveE: "interleave step w v"

text \<open>A finite schedule, which says who moves and when.\<close>

fun run_schedule ::
  "(time \<Rightarrow> 'p \<Rightarrow> 's \<Rightarrow> 'p \<times> 's) \<Rightarrow> (nat \<times> time) list \<Rightarrow> ('s, 'p) world \<Rightarrow> ('s, 'p) world" where
  "run_schedule step [] w = w"
| "run_schedule step ((i, t) # sched) w =
     run_schedule step sched
       (if i < length (wd_callers w) \<and> wd_now w \<le> t then
          (case step t (wd_callers w ! i) (wd_shared w) of
             (pc', s') \<Rightarrow> \<lparr>wd_shared = s', wd_callers = (wd_callers w)[i := pc'], wd_now = t\<rparr>)
        else w)"

lemma run_schedule_reaches:
  "reaches init (interleave step) w \<Longrightarrow> reaches init (interleave step) (run_schedule step sched w)"
proof (induction sched arbitrary: w)
  case (Cons it sched)
  obtain i t where it: "it = (i, t)" by (cases it)
  show ?case
  proof (cases "i < length (wd_callers w) \<and> wd_now w \<le> t")
    case True
    obtain pc' s' where s: "step t (wd_callers w ! i) (wd_shared w) = (pc', s')"
      by (cases "step t (wd_callers w ! i) (wd_shared w)")
    have "interleave step w \<lparr>wd_shared = s', wd_callers = (wd_callers w)[i := pc'], wd_now = t\<rparr>"
      using True s by (intro interleaveI) auto
    from Cons.IH [OF reaches_step [OF Cons.prems this]] show ?thesis
      using True s by (simp add: it)
  next
    case False
    then have "run_schedule step (it # sched) w = run_schedule step sched w" by (auto simp: it)
    with Cons show ?thesis by simp
  qed
qed simp

text \<open>Callers that satisfy \<open>P\<close>, counted across an update of one of them.\<close>

lemma length_filter_update:
  "i < length xs \<Longrightarrow>
   length (filter P (xs[i := y])) + (if P (xs ! i) then 1 else 0) = length (filter P xs) + (if P y then 1 else 0)"
proof (induction xs arbitrary: i)
  case (Cons x xs)
  then show ?case by (cases i) auto
qed simp

section \<open>The contract\<close>

text \<open>
  What is stored under a key: its text, the count \<open>incr\<close> would continue, and when it expires.
\<close>

record cell =
  cl_value :: string
  cl_count :: "int option"
  cl_expires :: "time option"

definition alive :: "time \<Rightarrow> cell \<Rightarrow> cell option" where
  "alive t c = (case cl_expires c of None \<Rightarrow> Some c | Some x \<Rightarrow> if x \<le> t then None else Some c)"

definition counter_cell :: "int \<Rightarrow> time \<Rightarrow> cell" where
  "counter_cell n x = \<lparr>cl_value = int_str n, cl_count = Some n, cl_expires = Some x\<rparr>"

definition bumped :: "cell option \<Rightarrow> int \<Rightarrow> time \<Rightarrow> int \<times> time" where
  "bumped c ttl now =
     (case c of
        None \<Rightarrow> (1, now + ttl * 1000)
      | Some c \<Rightarrow>
          (case (cl_count c, cl_expires c) of
             (Some n, Some x) \<Rightarrow> (n + 1, x)
           | _ \<Rightarrow> (1, now + ttl * 1000)))"

lemma alive_SomeD: "alive t c = Some d \<Longrightarrow> d = c \<and> (\<forall>x. cl_expires c = Some x \<longrightarrow> t < x)"
  by (auto simp: alive_def split: option.splits if_splits)

lemma alive_later: "t \<le> u \<Longrightarrow> Option.bind (alive t c) (alive u) = alive u c"
  by (auto simp: alive_def split: option.splits)

lemma alive_counter [simp]:
  "alive t (counter_cell n x) = (if x \<le> t then None else Some (counter_cell n x))"
  by (simp add: alive_def counter_cell_def)

lemma bumped_simps [simp]:
  "bumped None ttl now = (1, now + ttl * 1000)"
  "bumped (Some (counter_cell n x)) ttl now = (n + 1, x)"
  by (simp_all add: bumped_def counter_cell_def)

lemma counter_value [simp]: "cl_value (counter_cell n x) = int_str n"
  by (simp add: counter_cell_def)

text \<open>
  \<open>view t s k\<close> is what a reader finds under \<open>k\<close> at \<open>t\<close>, \<open>reads\<close> the count that \<open>incr\<close> would
  continue on a text that was set.
\<close>

locale secondary_storage =
  fixes st :: "'s storage"
    and view :: "time \<Rightarrow> 's \<Rightarrow> string \<Rightarrow> cell option"
    and ok :: "'s \<Rightarrow> bool"
    and reads :: "string \<Rightarrow> time option \<Rightarrow> int option"
  assumes view_alive: "ok s \<Longrightarrow> view t s k = Some c \<Longrightarrow> alive t c = Some c"
    and view_later: "ok s \<Longrightarrow> t \<le> u \<Longrightarrow> view u s k = Option.bind (view t s k) (alive u)"
    and get_law: "ok s \<Longrightarrow> \<exists>s'. st_get st k now s = (Returned (map_option cl_value (view now s k)), s')
      \<and> ok s' \<and> (\<forall>t\<ge>now. view t s' = view t s)"
    and set_law: "ok s \<Longrightarrow> \<exists>s'. st_set st k v life now s = (Returned (), s') \<and> ok s'
      \<and> (\<forall>t\<ge>now. view t s' = (view t s)
           (k := alive t \<lparr>cl_value = v,
                          cl_count = reads v (map_option (\<lambda>n. now + n * 1000) life),
                          cl_expires = map_option (\<lambda>n. now + n * 1000) life\<rparr>))"
    and delete_law: "ok s \<Longrightarrow> \<exists>s'. st_delete st k now s = (Returned (), s') \<and> ok s'
      \<and> (\<forall>t\<ge>now. view t s' = (view t s)(k := None))"
    and incr_law: "ok s \<Longrightarrow> bumped (view now s k) ttl now = (n, x) \<Longrightarrow>
      \<exists>s'. st_incr st k ttl now s = (Returned (n, x), s') \<and> ok s'
      \<and> (\<forall>t\<ge>now. view t s' = (view t s)(k := alive t (counter_cell n x)))"
    and list_law: "ok s \<Longrightarrow> st_list st = Some ls \<Longrightarrow>
      \<exists>xs s'. ls p now s = (Returned xs, s') \<and> ok s' \<and> (\<forall>t\<ge>now. view t s' = view t s)
      \<and> set xs = {k. starts_with p k \<and> view now s k \<noteq> None}"
begin

text \<open>What is gone stays gone.\<close>

lemma view_gone: "ok s \<Longrightarrow> t \<le> u \<Longrightarrow> view t s k = None \<Longrightarrow> view u s k = None"
  using view_later [of s t u k] by simp

lemma view_stays:
  "ok s \<Longrightarrow> t \<le> u \<Longrightarrow> view t s k = Some c \<Longrightarrow> view u s k = alive u c"
  using view_later [of s t u k] by simp

end

section \<open>The memory store\<close>

record stored_entry =
  sv_value :: string
  sv_expiresAt :: "time option"

record memory =
  ms_entries :: "(string \<times> stored_entry) list"
  ms_ops :: nat

definition sweep_every :: nat where
  "sweep_every = 256"

definition is_expired :: "time \<Rightarrow> stored_entry \<Rightarrow> bool" where
  "is_expired now e \<longleftrightarrow> (case sv_expiresAt e of None \<Rightarrow> False | Some x \<Rightarrow> x \<le> now)"

definition live_entry :: "string \<Rightarrow> time \<Rightarrow> memory \<Rightarrow> stored_entry option \<times> memory" where
  "live_entry key now m =
     (case map_of (ms_entries m) key of
        None \<Rightarrow> (None, m)
      | Some e \<Rightarrow>
          if is_expired now e then (None, m\<lparr>ms_entries := AList.delete key (ms_entries m)\<rparr>)
          else (Some e, m))"

definition sweep :: "time \<Rightarrow> memory \<Rightarrow> memory" where
  "sweep now m =
     (let m' = m\<lparr>ms_ops := ms_ops m + 1\<rparr>
      in if ms_ops m' mod sweep_every \<noteq> 0 then m'
         else m'\<lparr>ms_entries := filter (\<lambda>ke. \<not> is_expired now (snd ke)) (ms_entries m')\<rparr>)"

definition memory_get :: "string \<Rightarrow> time \<Rightarrow> (memory, string option) action" where
  "memory_get key now m =
     (case live_entry key now (sweep now m) of (e, m') \<Rightarrow> (Returned (map_option sv_value e), m'))"

definition memory_set :: "string \<Rightarrow> string \<Rightarrow> int option \<Rightarrow> time \<Rightarrow> (memory, unit) action" where
  "memory_set key v ttl now m =
     (let m' = sweep now m
      in (Returned (), m'\<lparr>ms_entries := AList.update key
            \<lparr>sv_value = v, sv_expiresAt = map_option (\<lambda>n. now + n * 1000) ttl\<rparr> (ms_entries m')\<rparr>))"

definition memory_delete :: "string \<Rightarrow> time \<Rightarrow> (memory, unit) action" where
  "memory_delete key now m = (Returned (), m\<lparr>ms_entries := AList.delete key (ms_entries m)\<rparr>)"

definition memory_incr :: "string \<Rightarrow> int \<Rightarrow> time \<Rightarrow> (memory, int \<times> time) action" where
  "memory_incr key ttl now m =
     (case live_entry key now (sweep now m) of
        (existing, m') \<Rightarrow>
          (case (existing, Option.bind existing (\<lambda>e. parseInt10 (sv_value e)),
                 Option.bind existing sv_expiresAt) of
             (Some e, Some parsed, Some x) \<Rightarrow>
               (Returned (parsed + 1, x),
                m'\<lparr>ms_entries := AList.update key (e\<lparr>sv_value := int_str (parsed + 1)\<rparr>) (ms_entries m')\<rparr>)
           | _ \<Rightarrow>
               let x = now + ttl * 1000
               in (Returned (1, x),
                   m'\<lparr>ms_entries := AList.update key \<lparr>sv_value = ''1'', sv_expiresAt = Some x\<rparr>
                        (ms_entries m')\<rparr>)))"

fun list_loop :: "string \<Rightarrow> time \<Rightarrow> string list \<Rightarrow> memory \<Rightarrow> string list \<times> memory" where
  "list_loop prefix now [] m = ([], m)"
| "list_loop prefix now (key # keys) m =
     (if starts_with prefix key then
        (case live_entry key now m of
           (e, m') \<Rightarrow>
             (case list_loop prefix now keys m' of
                (out, m'') \<Rightarrow> (if e = None then out else key # out, m'')))
      else list_loop prefix now keys m)"

definition memory_list :: "string \<Rightarrow> time \<Rightarrow> (memory, string list) action" where
  "memory_list prefix now m =
     (case list_loop prefix now (map fst (ms_entries m)) m of (out, m') \<Rightarrow> (Returned out, m'))"

definition memoryStorage :: "memory storage" where
  "memoryStorage =
     \<lparr>st_get = memory_get, st_set = memory_set, st_delete = memory_delete, st_incr = memory_incr,
      st_list = Some memory_list\<rparr>"

definition empty_memory :: memory where
  "empty_memory = \<lparr>ms_entries = [], ms_ops = 0\<rparr>"

subsection \<open>It keeps the contract\<close>

definition memory_reads :: "string \<Rightarrow> time option \<Rightarrow> int option" where
  "memory_reads v x = (if x = None then None else parseInt10 v)"

definition memory_cell :: "stored_entry \<Rightarrow> cell" where
  "memory_cell e =
     \<lparr>cl_value = sv_value e, cl_count = memory_reads (sv_value e) (sv_expiresAt e),
      cl_expires = sv_expiresAt e\<rparr>"

definition memory_view :: "time \<Rightarrow> memory \<Rightarrow> string \<Rightarrow> cell option" where
  "memory_view t m k =
     Option.bind (map_of (ms_entries m) k) (\<lambda>e. alive t (memory_cell e))"

definition memory_ok :: "memory \<Rightarrow> bool" where
  "memory_ok m \<longleftrightarrow> distinct (map fst (ms_entries m))"

lemma is_expired_alive: "is_expired t e \<longleftrightarrow> alive t (memory_cell e) = None"
  by (auto simp: is_expired_def alive_def memory_cell_def split: option.splits)

lemma alive_memory_cell: "\<not> is_expired t e \<Longrightarrow> alive t (memory_cell e) = Some (memory_cell e)"
  by (auto simp: is_expired_def alive_def memory_cell_def split: option.splits)

lemma is_expired_later: "t \<le> u \<Longrightarrow> is_expired t e \<Longrightarrow> is_expired u e"
  by (auto simp: is_expired_def split: option.splits)

lemma is_digit_not_special:
  "is_digit c \<Longrightarrow> \<not> is_space c \<and> c \<noteq> CHR ''-'' \<and> c \<noteq> CHR ''+''"
  by (auto simp: is_digit_def is_space_def)

lemma takeWhile_digits: "takeWhile is_digit (nat_str n) = nat_str n"
  using nat_str_digits by (simp add: takeWhile_eq_all_conv)

lemma parseInt10_int_str [simp]: "parseInt10 (int_str n) = Some n"
proof (cases "n < 0")
  case True
  have "\<not> is_space CHR ''-''" by (simp add: is_space_def)
  with True show ?thesis
    by (simp add: parseInt10_def int_str_def Let_def takeWhile_digits)
next
  case False
  obtain c s where cs: "nat_str (nat n) = c # s" by (cases "nat_str (nat n)") auto
  then have "is_digit c" using nat_str_digits [of c "nat n"] by simp
  then have d: "\<not> is_space c" "c \<noteq> CHR ''-''" "c \<noteq> CHR ''+''" by (auto dest: is_digit_not_special)
  have t: "takeWhile is_digit (c # s) = c # s" "digits_val (c # s) = nat n"
    using takeWhile_digits [of "nat n"] cs digits_val_nat_str [of "nat n"] by simp_all
  have "dropWhile is_space (nat_str (nat n)) = c # s" using d cs by simp
  then show ?thesis
    using d t False unfolding parseInt10_def int_str_def Let_def by simp
qed

lemma memory_view_restrict:
  assumes "distinct (map fst es)" "now \<le> t"
  shows "Option.bind (map_of (filter (\<lambda>ke. \<not> is_expired now (snd ke)) es) k) (\<lambda>e. alive t (memory_cell e))
       = Option.bind (map_of es k) (\<lambda>e. alive t (memory_cell e))"
proof (cases "map_of es k")
  case None
  then have "map_of (filter (\<lambda>ke. \<not> is_expired now (snd ke)) es) k = None"
    by (auto simp: map_of_eq_None_iff)
  with None show ?thesis by simp
next
  case (Some e)
  then have "map_of (filter (\<lambda>ke. \<not> is_expired now (snd ke)) es) k
      = (if is_expired now e then None else Some e)"
    using assms(1) by (induction es) (auto simp: map_of_eq_None_iff dest!: map_of_SomeD split: if_splits)
  with Some assms(2) show ?thesis
    by (auto simp: is_expired_alive dest: is_expired_later)
qed

lemma sweep_ok: "memory_ok m \<Longrightarrow> memory_ok (sweep now m)"
  by (auto simp: memory_ok_def sweep_def Let_def distinct_map_filter)

lemma sweep_view: "memory_ok m \<Longrightarrow> now \<le> t \<Longrightarrow> memory_view t (sweep now m) = memory_view t m"
  by (rule ext) (auto simp: memory_ok_def memory_view_def sweep_def Let_def memory_view_restrict)

lemma live_entry_laws:
  assumes ok: "memory_ok m" and le: "live_entry key now m = (e, m')"
  shows "memory_ok m'" and "now \<le> t \<Longrightarrow> memory_view t m' = memory_view t m"
    and "map_option memory_cell e = memory_view now m key"
    and "e \<noteq> None \<Longrightarrow> m' = m \<and> map_of (ms_entries m) key = e"
    and "e = None \<Longrightarrow> map_of (ms_entries m') key = None"
    and "\<And>d. e = Some d \<Longrightarrow> \<not> is_expired now d"
proof -
  consider (none) "map_of (ms_entries m) key = None" "e = None" "m' = m"
    | (dead) d where "map_of (ms_entries m) key = Some d" "is_expired now d" "e = None"
        "m' = m\<lparr>ms_entries := AList.delete key (ms_entries m)\<rparr>"
    | (found) d where "map_of (ms_entries m) key = Some d" "\<not> is_expired now d" "e = Some d" "m' = m"
    using le by (auto simp: live_entry_def split: option.splits if_splits)
  note cases = this
  show "memory_ok m'" using cases ok by cases (auto simp: memory_ok_def distinct_delete)
  show "memory_view t m' = memory_view t m" if "now \<le> t"
    using cases
  proof cases
    case dead
    with that have "alive t (memory_cell d) = None" by (auto simp: is_expired_alive dest: is_expired_later)
    with dead show ?thesis by (auto simp: memory_view_def delete_conv' fun_eq_iff)
  qed auto
  show "map_option memory_cell e = memory_view now m key"
    using cases by cases (auto simp: memory_view_def is_expired_alive dest: alive_SomeD)
  show "e \<noteq> None \<Longrightarrow> m' = m \<and> map_of (ms_entries m) key = e" using cases by cases auto
  show "e = None \<Longrightarrow> map_of (ms_entries m') key = None" using cases by cases (auto simp: delete_conv')
  show "\<And>d. e = Some d \<Longrightarrow> \<not> is_expired now d" using cases by cases auto
qed

lemma memory_put:
  shows "memory_ok m \<Longrightarrow> memory_ok (m\<lparr>ms_entries := AList.update key e (ms_entries m)\<rparr>)"
    and "memory_view t (m\<lparr>ms_entries := AList.update key e (ms_entries m)\<rparr>)
       = (memory_view t m)(key := alive t (memory_cell e))"
  by (auto simp: memory_ok_def distinct_update memory_view_def update_conv' fun_eq_iff)

lemma memory_counter_cell:
  "memory_cell \<lparr>sv_value = int_str n, sv_expiresAt = Some x\<rparr> = counter_cell n x"
  by (simp add: memory_cell_def memory_reads_def counter_cell_def)

lemma memory_one: "memory_cell \<lparr>sv_value = ''1'', sv_expiresAt = Some x\<rparr> = counter_cell 1 x"
proof -
  have "int_str 1 = ''1''" by code_simp
  then show ?thesis using memory_counter_cell [of 1 x] by simp
qed

lemma memory_set_law:
  assumes "memory_ok m" and "memory_set key v ttl now m = (r, m')"
  shows "r = Returned ()" and "memory_ok m'" and "now \<le> t \<Longrightarrow> memory_view t m' = (memory_view t m)
     (key := alive t \<lparr>cl_value = v, cl_count = memory_reads v (map_option (\<lambda>n. now + n * 1000) ttl),
                     cl_expires = map_option (\<lambda>n. now + n * 1000) ttl\<rparr>)"
  using assms by (auto simp: memory_set_def Let_def memory_put sweep_ok sweep_view memory_cell_def)

lemma memory_get_law:
  assumes "memory_ok m" and "memory_get key now m = (r, m')"
  shows "r = Returned (map_option cl_value (memory_view now m key))" and "memory_ok m'"
    and "now \<le> t \<Longrightarrow> memory_view t m' = memory_view t m"
proof -
  obtain e where e: "live_entry key now (sweep now m) = (e, m')" and r: "r = Returned (map_option sv_value e)"
    using assms(2) by (auto simp: memory_get_def split: prod.splits)
  note laws = live_entry_laws [OF sweep_ok [OF assms(1)] e]
  have "map_option cl_value (map_option memory_cell e) = map_option sv_value e"
    by (cases e) (auto simp: memory_cell_def)
  with laws(3) r show "r = Returned (map_option cl_value (memory_view now m key))"
    by (simp add: sweep_view [OF assms(1)])
  show "memory_ok m'" by (rule laws(1))
  show "memory_view t m' = memory_view t m" if "now \<le> t"
    using laws(2) [OF that] sweep_view [OF assms(1) that] by simp
qed

lemma memory_incr_law:
  assumes ok: "memory_ok m" and i: "memory_incr key ttl now m = (r, m')"
    and b: "bumped (memory_view now m key) ttl now = (n, x)"
  shows "r = Returned (n, x)" and "memory_ok m'"
    and "now \<le> t \<Longrightarrow> memory_view t m' = (memory_view t m)(key := alive t (counter_cell n x))"
proof -
  obtain e m1 where le: "live_entry key now (sweep now m) = (e, m1)"
    by (cases "live_entry key now (sweep now m)")
  note laws = live_entry_laws [OF sweep_ok [OF ok] le]
  have v: "memory_view now m key = map_option memory_cell e"
    using laws(3) by (simp add: sweep_view [OF ok])
  have old: "memory_view t m1 = memory_view t m" if "now \<le> t" for t
    using laws(2) [OF that] sweep_view [OF ok that] by simp
  obtain d where d: "(r, m') = (Returned (n, x), m1\<lparr>ms_entries := AList.update key d (ms_entries m1)\<rparr>)"
    "memory_cell d = counter_cell n x"
  proof (cases "\<exists>d k y. e = Some d \<and> parseInt10 (sv_value d) = Some k \<and> sv_expiresAt d = Some y")
    case True
    then obtain d k y where e: "e = Some d" "parseInt10 (sv_value d) = Some k" "sv_expiresAt d = Some y"
      by blast
    then have "n = k + 1" "x = y"
      using b by (auto simp: v bumped_def memory_cell_def memory_reads_def)
    moreover have "memory_cell (d\<lparr>sv_value := int_str (k + 1)\<rparr>) = counter_cell (k + 1) y"
      using e by (simp add: memory_cell_def memory_reads_def counter_cell_def)
    ultimately show ?thesis
      using i e that [of "d\<lparr>sv_value := int_str (k + 1)\<rparr>"] by (simp add: memory_incr_def le)
  next
    case False
    then have "n = 1" "x = now + ttl * 1000"
      using b by (auto simp: v bumped_def memory_cell_def memory_reads_def split: option.splits if_splits)
    moreover have "memory_incr key ttl now m
        = (Returned (1, now + ttl * 1000), m1\<lparr>ms_entries := AList.update key
             \<lparr>sv_value = ''1'', sv_expiresAt = Some (now + ttl * 1000)\<rparr> (ms_entries m1)\<rparr>)"
      using False by (auto simp: memory_incr_def le Let_def split: option.splits)
    ultimately show ?thesis using i that memory_one by simp
  qed
  then show "r = Returned (n, x)" "memory_ok m'"
    "now \<le> t \<Longrightarrow> memory_view t m' = (memory_view t m)(key := alive t (counter_cell n x))"
    using laws(1) old by (simp_all add: memory_put)
qed

lemma list_loop_laws:
  "memory_ok m \<Longrightarrow> list_loop p now keys m = (out, m') \<Longrightarrow>
   memory_ok m' \<and> (\<forall>t\<ge>now. memory_view t m' = memory_view t m)
   \<and> set out = {k \<in> set keys. starts_with p k \<and> memory_view now m k \<noteq> None}"
proof (induction keys arbitrary: m out m')
  case (Cons key keys)
  show ?case
  proof (cases "starts_with p key")
    case True
    obtain e m1 where le: "live_entry key now m = (e, m1)" by (cases "live_entry key now m")
    obtain out1 where l: "list_loop p now keys m1 = (out1, m')" "out = (if e = None then out1 else key # out1)"
      using Cons.prems(2) True by (auto simp: le split: prod.splits)
    note laws = live_entry_laws [OF Cons.prems(1) le]
    have "memory_view now m key = None \<longleftrightarrow> e = None" using laws(3) by (cases e; cases "memory_view now m key") auto
    with Cons.IH [OF laws(1) l(1)] l(2) laws(2) True show ?thesis by auto
  next
    case False
    with Cons show ?thesis by auto
  qed
qed auto

interpretation mem: secondary_storage memoryStorage memory_view memory_ok memory_reads
proof (unfold_locales, goal_cases)
  case (1 s t k c)
  then show ?case by (auto simp: memory_view_def bind_eq_Some_conv dest: alive_SomeD)
next
  case (2 s t u k)
  then show ?case by (cases "map_of (ms_entries s) k") (auto simp: memory_view_def alive_later)
next
  case (3 s k now)
  then show ?case
    using memory_get_law [OF 3] by (cases "memory_get k now s") (auto simp: memoryStorage_def)
next
  case (4 s k v ttl now)
  then show ?case
    using memory_set_law [OF 4] by (cases "memory_set k v ttl now s") (auto simp: memoryStorage_def)
next
  case (5 s k now)
  then show ?case
    by (auto simp: memoryStorage_def memory_delete_def memory_ok_def distinct_delete memory_view_def
             delete_conv' fun_eq_iff)
next
  case (6 s now k ttl n x)
  then show ?case
    using memory_incr_law [OF 6(1) _ 6(2)] by (cases "memory_incr k ttl now s") (auto simp: memoryStorage_def)
next
  case (7 s ls p now)
  obtain out m' where l: "list_loop p now (map fst (ms_entries s)) s = (out, m')"
    by (cases "list_loop p now (map fst (ms_entries s)) s")
  have "memory_view now s k \<noteq> None \<Longrightarrow> k \<in> set (map fst (ms_entries s))" for k
    by (auto simp: memory_view_def bind_eq_None_conv dest!: map_of_SomeD split: option.splits)
       (metis image_eqI fst_conv)
  with 7 list_loop_laws [OF 7(1) l] l show ?case
    by (auto simp: memoryStorage_def memory_list_def)
qed

lemma empty_memory_ok [simp]: "memory_ok empty_memory"
  by (simp add: memory_ok_def empty_memory_def)

lemma empty_memory_view [simp]: "memory_view t empty_memory k = None"
  by (simp add: memory_view_def empty_memory_def)

section \<open>Name spaces\<close>

definition withPrefix :: "'s storage \<Rightarrow> string \<Rightarrow> 's storage" where
  "withPrefix st prefix =
     \<lparr>st_get = (\<lambda>key. st_get st (prefix @ key)),
      st_set = (\<lambda>key. st_set st (prefix @ key)),
      st_delete = (\<lambda>key. st_delete st (prefix @ key)),
      st_incr = (\<lambda>key. st_incr st (prefix @ key)),
      st_list = map_option
        (\<lambda>listFn p now. andThen (listFn (prefix @ p) now) (\<lambda>ks. answer (map (drop (length prefix)) ks)))
        (st_list st)\<rparr>"

lemma starts_with_common [simp]: "starts_with (p @ q) (p @ k) \<longleftrightarrow> starts_with q k"
  by (induction p) auto

lemma starts_with_appendD: "starts_with (p @ q) k \<Longrightarrow> \<exists>u. k = p @ u \<and> starts_with q u"
  by (auto simp: starts_with_iff)

text \<open>A name space of a store that keeps the contract keeps it.\<close>

locale storage_space = secondary_storage st view ok reads
  for st :: "'s storage" and view ok reads +
  fixes prefix :: string
begin

lemma scoped_list:
  assumes "ok s" and "st_list st = Some ls"
  shows "\<exists>xs s'. andThen (ls (prefix @ p) now) (\<lambda>ks. answer (map (drop (length prefix)) ks)) s = (Returned xs, s')
    \<and> ok s' \<and> (\<forall>t\<ge>now. view t s' = view t s)
    \<and> set xs = {k. starts_with p k \<and> view now s (prefix @ k) \<noteq> None}"
proof -
  obtain ks s' where l: "ls (prefix @ p) now s = (Returned ks, s')" "ok s'" "\<forall>t\<ge>now. view t s' = view t s"
    and ks: "set ks = {k. starts_with (prefix @ p) k \<and> view now s k \<noteq> None}"
    using list_law [OF assms, of "prefix @ p" now] by blast
  have "drop (length prefix) ` set ks = {k. starts_with p k \<and> view now s (prefix @ k) \<noteq> None}"
    unfolding ks by (force simp: image_iff dest!: starts_with_appendD)
  with l show ?thesis by (auto simp: andThen_def)
qed

end

sublocale storage_space \<subseteq> scoped: secondary_storage "withPrefix st prefix" "\<lambda>t s k. view t s (prefix @ k)" ok reads
proof (unfold_locales, goal_cases)
  case (1 s t k c)
  then show ?case by (rule view_alive)
next
  case (2 s t u k)
  then show ?case by (rule view_later)
next
  case (3 s k now)
  then show ?case using get_law [OF 3, of "prefix @ k" now] by (auto simp: withPrefix_def)
next
  case (4 s k v life now)
  then show ?case using set_law [OF 4, of "prefix @ k" v life now] by (auto simp: withPrefix_def fun_eq_iff)
next
  case (5 s k now)
  then show ?case using delete_law [OF 5, of "prefix @ k" now] by (auto simp: withPrefix_def fun_eq_iff)
next
  case (6 s now k ttl n x)
  then show ?case using incr_law [OF 6] by (auto simp: withPrefix_def fun_eq_iff)
next
  case (7 s ls p now)
  then obtain l where l: "st_list st = Some l"
    "ls = (\<lambda>p now. andThen (l (prefix @ p) now) (\<lambda>ks. answer (map (drop (length prefix)) ks)))"
    by (auto simp: withPrefix_def)
  from scoped_list [OF 7(1) l(1), of p now] show ?case unfolding l(2) by fastforce
qed

interpretation mem_space: storage_space memoryStorage memory_view memory_ok memory_reads prefix
  for prefix
  by unfold_locales

section \<open>One store per feature\<close>

definition secondary_storage_features :: "string list" where
  "secondary_storage_features =
     [''rateLimit'', ''deviceCodes'', ''oneTimeTokens'', ''nonces'', ''sessionsCache'', ''tokenVault'',
      ''deviceAuth'']"

datatype 's storage_option = UseMemory | UseDatabase | Instance "'s storage"

datatype 's storage_config =
    Everywhere "'s storage_option"
  | PerFeature "(string \<times> 's storage_option) list"

definition build_storage :: "'s storage \<Rightarrow> 's storage \<Rightarrow> 's storage_option option \<Rightarrow> 's storage" where
  "build_storage memory database choice =
     (case choice of
        None \<Rightarrow> memory
      | Some UseMemory \<Rightarrow> memory
      | Some UseDatabase \<Rightarrow> database
      | Some (Instance st) \<Rightarrow> st)"

definition storage_choice :: "'s storage_config option \<Rightarrow> string \<Rightarrow> 's storage_option option" where
  "storage_choice config feature =
     (case config of
        None \<Rightarrow> None
      | Some (Everywhere choice) \<Rightarrow> Some choice
      | Some (PerFeature entries) \<Rightarrow>
          (case map_of entries feature of Some choice \<Rightarrow> Some choice | None \<Rightarrow> map_of entries ''default''))"

definition feature_prefix :: "string \<Rightarrow> string" where
  "feature_prefix feature = ''theauth:'' @ feature @ '':''"

definition storage_for :: "'s storage \<Rightarrow> 's storage \<Rightarrow> 's storage_config option \<Rightarrow> string \<Rightarrow> 's storage" where
  "storage_for memory database config feature =
     withPrefix (build_storage memory database (storage_choice config feature)) (feature_prefix feature)"

definition assertSecondaryStorageConfig :: "'s storage_config option \<Rightarrow> string option" where
  "assertSecondaryStorageConfig config =
     (case config of
        Some (PerFeature entries) \<Rightarrow>
          List.find (\<lambda>key. key \<noteq> ''default'' \<and> key \<notin> set secondary_storage_features) (map fst entries)
      | _ \<Rightarrow> None)"

lemma feature_no_colon: "f \<in> set secondary_storage_features \<Longrightarrow> CHR '':'' \<notin> set f"
  by (auto simp: secondary_storage_features_def)

lemma feature_keys_disjoint:
  assumes "f \<in> set secondary_storage_features" "g \<in> set secondary_storage_features"
    and "feature_prefix f @ k = feature_prefix g @ l"
  shows "f = g \<and> k = l"
proof -
  from assms(3) have "f @ CHR '':'' # k = g @ CHR '':'' # l" by (simp add: feature_prefix_def)
  with assms(1,2) show ?thesis using append_sep_inject feature_no_colon by metis
qed

text \<open>
  Features that share one store do not see each other: whatever an operation of one feature's
  store does to the memory store, every key of another feature reads as before.
\<close>

theorem features_isolated:
  assumes "f \<in> set secondary_storage_features" "g \<in> set secondary_storage_features" "f \<noteq> g"
    and "memory_ok m" and "now \<le> t"
    and "storage_for memoryStorage memoryStorage None f = sf"
    and "m' = snd (st_set sf key v ttl now m) \<or> m' = snd (st_delete sf key now m) \<or> m' = snd (st_incr sf key n now m)"
  shows "memory_view t m' (feature_prefix g @ k) = memory_view t m (feature_prefix g @ k)"
proof -
  have sf: "sf = withPrefix memoryStorage (feature_prefix f)"
    using assms(6) by (simp add: storage_for_def storage_choice_def build_storage_def)
  have ne: "feature_prefix g @ k \<noteq> feature_prefix f @ key" for key
    using assms(1-3) feature_keys_disjoint by metis
  from assms(7) show ?thesis
  proof (elim disjE)
    assume "m' = snd (st_set sf key v ttl now m)"
    then show ?thesis
      using mem.set_law [OF assms(4), of "feature_prefix f @ key" v ttl now] assms(5) ne
      by (auto simp: sf withPrefix_def)
  next
    assume "m' = snd (st_delete sf key now m)"
    then show ?thesis
      using mem.delete_law [OF assms(4), of "feature_prefix f @ key" now] assms(5) ne
      by (auto simp: sf withPrefix_def)
  next
    assume "m' = snd (st_incr sf key n now m)"
    moreover obtain c x where "bumped (memory_view now m (feature_prefix f @ key)) n now = (c, x)"
      by (cases "bumped (memory_view now m (feature_prefix f @ key)) n now")
    ultimately show ?thesis
      using mem.incr_law [OF assms(4)] assms(5) ne by (fastforce simp: sf withPrefix_def)
  qed
qed

theorem features_isolated_witness:
  "memory_view 0 (snd (st_incr (storage_for memoryStorage memoryStorage None ''nonces'') ''k'' 60 0 empty_memory))
     (feature_prefix ''deviceAuth'' @ ''k'') = None"
  using features_isolated [of "''nonces''" "''deviceAuth''" empty_memory 0 0
      "storage_for memoryStorage memoryStorage None ''nonces''"
      "snd (st_incr (storage_for memoryStorage memoryStorage None ''nonces'') ''k'' 60 0 empty_memory)"
      "''k''" "[]" None 60 "''k''"]
  by (simp add: secondary_storage_features_def)

section \<open>Rate limit stores\<close>

definition rateLimitStore_increment :: "'s storage \<Rightarrow> string \<Rightarrow> int \<Rightarrow> time \<Rightarrow> ('s, int \<times> time) action" where
  "rateLimitStore_increment st key windowMs now =
     st_incr st key (max (- ((- windowMs) div 1000)) 1) now"

definition rateLimitStore_reset :: "'s storage \<Rightarrow> string \<Rightarrow> time \<Rightarrow> ('s, unit) action" where
  "rateLimitStore_reset st = st_delete st"

end
