(* ===== verification/DatabaseStorage.thy ===== *)
theory DatabaseStorage
  imports Storage CanonicalJson
begin

text \<open>
  Secondary storage in a table: \<open>packages/core/src/storage/database.ts\<close>. The operations are
  sequences of plain statements. Run one at a time they keep the contract of \<open>Storage\<close>. Callers of
  \<open>incr\<close> are then interleaved statement by statement: a counter that is live counts every caller and
  never under-reports, while callers that race to open a window can both be told they came first.
\<close>

section \<open>Rows and statements\<close>

record storage_row =
  sr_storageKey :: string
  sr_value :: "string option"
  sr_counter :: "int option"
  sr_expiresAt :: "time option"

definition max_incr_attempts :: nat where
  "max_incr_attempts = 4"

definition escapeLike :: "string \<Rightarrow> string" where
  "escapeLike prefix = concat (map (\<lambda>c. if c \<in> {CHR ''!'', CHR ''%'', CHR ''_''} then [CHR ''!'', c] else [c]) prefix)"

text \<open>
  \<open>LIKE ... ESCAPE '!'\<close>. How letters compare is the database's: \<open>cmp\<close> is the identity where
  \<open>LIKE\<close> is case sensitive, \<open>to_lower\<close> on SQLite and MySQL.
\<close>

fun like :: "(char \<Rightarrow> char) \<Rightarrow> string \<Rightarrow> string \<Rightarrow> bool" where
  "like cmp [] s = (s = [])"
| "like cmp [p] s =
     (if p = CHR ''%'' then True
      else (case s of [c] \<Rightarrow> p = CHR ''_'' \<or> cmp p = cmp c | _ \<Rightarrow> False))"
| "like cmp (p # q # ps) s =
     (if p = CHR ''%'' then like cmp (q # ps) s \<or> (case s of [] \<Rightarrow> False | _ # t \<Rightarrow> like cmp (p # q # ps) t)
      else (case s of
              [] \<Rightarrow> False
            | c # t \<Rightarrow>
                if p = CHR ''!'' then cmp q = cmp c \<and> like cmp ps t
                else (p = CHR ''_'' \<or> cmp p = cmp c) \<and> like cmp (q # ps) t))"

definition row_dead :: "time \<Rightarrow> storage_row \<Rightarrow> bool" where
  "row_dead now r \<longleftrightarrow> (case sr_expiresAt r of None \<Rightarrow> False | Some x \<Rightarrow> x \<le> now)"

definition readLive :: "string \<Rightarrow> time \<Rightarrow> storage_row list \<Rightarrow> storage_row option" where
  "readLive key now rows =
     (case List.find (\<lambda>r. sr_storageKey r = key) rows of
        None \<Rightarrow> None
      | Some r \<Rightarrow> if row_dead now r then None else Some r)"

text \<open>\<open>insert\<close> fails on the primary key; \<open>None\<close> is the conflict.\<close>

definition insert_row :: "storage_row \<Rightarrow> storage_row list \<Rightarrow> storage_row list option" where
  "insert_row r rows =
     (if list_ex (\<lambda>x. sr_storageKey x = sr_storageKey r) rows then None else Some (rows @ [r]))"

definition database_get :: "string \<Rightarrow> time \<Rightarrow> (storage_row list, string option) action" where
  "database_get key now rows =
     (Returned (case readLive key now rows of
                  None \<Rightarrow> None
                | Some r \<Rightarrow> (case sr_counter r of Some n \<Rightarrow> Some (int_str n) | None \<Rightarrow> sr_value r)),
      rows)"

definition database_set :: "string \<Rightarrow> string \<Rightarrow> int option \<Rightarrow> time \<Rightarrow> (storage_row list, unit) action" where
  "database_set key v ttl now rows =
     (let x = map_option (\<lambda>n. now + n * 1000) ttl;
          rows1 = delete_where (\<lambda>r. sr_storageKey r = key) rows
      in (Returned (),
          case insert_row \<lparr>sr_storageKey = key, sr_value = Some v, sr_counter = None, sr_expiresAt = x\<rparr> rows1 of
            Some rows2 \<Rightarrow> rows2
          | None \<Rightarrow> update_where (\<lambda>r. sr_storageKey r = key)
                      (\<lambda>r. r\<lparr>sr_value := Some v, sr_counter := None, sr_expiresAt := x\<rparr>) rows1))"

definition database_delete :: "string \<Rightarrow> time \<Rightarrow> (storage_row list, unit) action" where
  "database_delete key now rows = (Returned (), delete_where (\<lambda>r. sr_storageKey r = key) rows)"

definition bump_live :: "string \<Rightarrow> time \<Rightarrow> storage_row list \<Rightarrow> storage_row list" where
  "bump_live key now =
     update_where (\<lambda>r. sr_storageKey r = key \<and> sr_counter r \<noteq> None \<and> sr_expiresAt r \<noteq> None \<and> \<not> row_dead now r)
       (sr_counter_update (map_option (\<lambda>n. n + 1)))"

definition counted :: "storage_row option \<Rightarrow> (int \<times> time) option" where
  "counted live =
     Option.bind live (\<lambda>r. Option.bind (sr_counter r) (\<lambda>n. map_option (\<lambda>x. (n, x)) (sr_expiresAt r)))"

definition clear_dead :: "string \<Rightarrow> time \<Rightarrow> storage_row list \<Rightarrow> storage_row list" where
  "clear_dead key now =
     delete_where (\<lambda>r. sr_storageKey r = key \<and> (row_dead now r \<or> sr_value r \<noteq> None))"

definition fresh_counter :: "string \<Rightarrow> time \<Rightarrow> storage_row" where
  "fresh_counter key x = \<lparr>sr_storageKey = key, sr_value = None, sr_counter = Some 1, sr_expiresAt = Some x\<rparr>"

fun incr_attempts :: "nat \<Rightarrow> string \<Rightarrow> int \<Rightarrow> time \<Rightarrow> (storage_row list, int \<times> time) action" where
  "incr_attempts 0 key ttl now rows = (Threw, rows)"
| "incr_attempts (Suc n) key ttl now rows =
     (let rows1 = bump_live key now rows
      in case counted (readLive key now rows1) of
           Some cx \<Rightarrow> (Returned cx, rows1)
         | None \<Rightarrow>
             let rows2 = clear_dead key now rows1; x = now + ttl * 1000
             in case insert_row (fresh_counter key x) rows2 of
                  Some rows3 \<Rightarrow> (Returned (1, x), rows3)
                | None \<Rightarrow> incr_attempts n key ttl now rows2)"

definition database_incr :: "string \<Rightarrow> int \<Rightarrow> time \<Rightarrow> (storage_row list, int \<times> time) action" where
  "database_incr = incr_attempts max_incr_attempts"

definition database_list :: "(char \<Rightarrow> char) \<Rightarrow> string \<Rightarrow> time \<Rightarrow> (storage_row list, string list) action" where
  "database_list cmp prefix now rows =
     (let hits = filter (\<lambda>r. like cmp (escapeLike prefix @ ''%'') (sr_storageKey r)) rows
      in (Returned (map sr_storageKey (filter (\<lambda>r. \<not> row_dead now r) hits)), rows))"

definition purgeExpired :: "time \<Rightarrow> storage_row list \<Rightarrow> storage_row list" where
  "purgeExpired now = delete_where (\<lambda>r. sr_expiresAt r \<noteq> None \<and> row_dead now r)"

definition databaseStorage :: "(char \<Rightarrow> char) \<Rightarrow> storage_row list storage" where
  "databaseStorage cmp =
     \<lparr>st_get = database_get, st_set = database_set, st_delete = database_delete, st_incr = database_incr,
      st_list = Some (database_list cmp)\<rparr>"

section \<open>It keeps the contract\<close>

text \<open>A row holds a text or a counter with an end, and the key is primary.\<close>

definition row_ok :: "storage_row \<Rightarrow> bool" where
  "row_ok r \<longleftrightarrow> (case sr_counter r of
                    None \<Rightarrow> sr_value r \<noteq> None
                  | Some n \<Rightarrow> sr_value r = None \<and> sr_expiresAt r \<noteq> None)"

definition database_ok :: "storage_row list \<Rightarrow> bool" where
  "database_ok rows \<longleftrightarrow> distinct (map sr_storageKey rows) \<and> (\<forall>r\<in>set rows. row_ok r)"

definition row_cell :: "storage_row \<Rightarrow> cell" where
  "row_cell r =
     \<lparr>cl_value = (case sr_counter r of Some n \<Rightarrow> int_str n | None \<Rightarrow> the (sr_value r)),
      cl_count = sr_counter r, cl_expires = sr_expiresAt r\<rparr>"

definition row_at :: "string \<Rightarrow> storage_row list \<Rightarrow> storage_row option" where
  "row_at key rows = List.find (\<lambda>r. sr_storageKey r = key) rows"

definition database_view :: "time \<Rightarrow> storage_row list \<Rightarrow> string \<Rightarrow> cell option" where
  "database_view t rows key = Option.bind (row_at key rows) (\<lambda>r. alive t (row_cell r))"

lemma row_at_iff:
  "distinct (map sr_storageKey rows) \<Longrightarrow> row_at key rows = Some r \<longleftrightarrow> r \<in> set rows \<and> sr_storageKey r = key"
proof (induction rows)
  case (Cons x rows)
  then show ?case by (auto simp: row_at_def image_iff)
qed (simp add: row_at_def)

lemma row_at_None: "row_at key rows = None \<longleftrightarrow> (\<forall>r\<in>set rows. sr_storageKey r \<noteq> key)"
  by (auto simp: row_at_def find_None_iff)

lemma storage_row_at_SomeD: "row_at key rows = Some r \<Longrightarrow> r \<in> set rows \<and> sr_storageKey r = key"
  by (auto simp: row_at_def dest: find_SomeD)

lemma row_at_append:
  "row_at key (rows @ [r]) = (case row_at key rows of Some x \<Rightarrow> Some x | None \<Rightarrow> if sr_storageKey r = key then Some r else None)"
  by (induction rows) (auto simp: row_at_def)

lemma row_at_delete:
  "distinct (map sr_storageKey rows) \<Longrightarrow>
   row_at k (delete_where (\<lambda>r. sr_storageKey r = key \<and> P r) rows)
   = (if k = key then (case row_at key rows of Some r \<Rightarrow> if P r then None else Some r | None \<Rightarrow> None)
      else row_at k rows)"
  by (induction rows) (auto simp: row_at_def delete_where_def find_None_iff image_iff split: option.splits)

lemma row_at_update:
  "(\<And>r. sr_storageKey (f r) = sr_storageKey r) \<Longrightarrow>
   row_at k (update_where P f rows) = map_option (\<lambda>r. if P r then f r else r) (row_at k rows)"
  by (induction rows) (auto simp: row_at_def)

lemma row_dead_alive: "row_dead t r \<longleftrightarrow> alive t (row_cell r) = None"
  by (auto simp: row_dead_def alive_def row_cell_def split: option.splits)

lemma alive_row_cell: "\<not> row_dead t r \<Longrightarrow> alive t (row_cell r) = Some (row_cell r)"
  by (auto simp: row_dead_def alive_def row_cell_def split: option.splits)

lemma row_dead_later: "t \<le> u \<Longrightarrow> row_dead t r \<Longrightarrow> row_dead u r"
  by (auto simp: row_dead_def split: option.splits)

lemma readLive_cell: "map_option row_cell (readLive key now rows) = database_view now rows key"
  by (auto simp: readLive_def database_view_def row_at_def [symmetric] row_dead_alive alive_row_cell
      dest: alive_SomeD split: option.splits)

lemma delete_where_distinct: "distinct (map g rows) \<Longrightarrow> distinct (map g (delete_where P rows))"
  by (simp add: delete_where_def distinct_map_filter)

lemma row_at_delete_all:
  "distinct (map sr_storageKey rows) \<Longrightarrow>
   row_at k (delete_where (\<lambda>r. sr_storageKey r = key) rows) = (if k = key then None else row_at k rows)"
  using row_at_delete [of rows k key "\<lambda>_. True"] by (simp split: option.splits)

lemma insert_row_Some:
  "row_at (sr_storageKey r) rows = None \<Longrightarrow> insert_row r rows = Some (rows @ [r])"
  by (auto simp: insert_row_def row_at_None list_ex_iff)

lemma insert_row_ok:
  "database_ok rows \<Longrightarrow> row_at (sr_storageKey r) rows = None \<Longrightarrow> row_ok r \<Longrightarrow> database_ok (rows @ [r])"
  by (auto simp: database_ok_def row_at_None)

lemma insert_row_view:
  assumes "row_at (sr_storageKey r) rows = None"
  shows "database_view t (rows @ [r]) = (database_view t rows)(sr_storageKey r := alive t (row_cell r))"
  using assms by (auto simp: database_view_def row_at_append fun_eq_iff split: option.splits)

lemma delete_ok: "database_ok rows \<Longrightarrow> database_ok (delete_where P rows)"
  by (auto simp: database_ok_def delete_where_distinct set_delete_where)

lemma database_set_law:
  assumes "database_ok rows" and "database_set key v ttl now rows = (r, rows')"
  shows "r = Returned ()" and "database_ok rows'"
    and "database_view t rows' = (database_view t rows)
     (key := alive t \<lparr>cl_value = v, cl_count = None, cl_expires = map_option (\<lambda>n. now + n * 1000) ttl\<rparr>)"
proof -
  define x where "x = map_option (\<lambda>n. now + n * 1000) ttl"
  define row where "row = \<lparr>sr_storageKey = key, sr_value = Some v, sr_counter = None, sr_expiresAt = x\<rparr>"
  define rows1 where "rows1 = delete_where (\<lambda>r. sr_storageKey r = key) rows"
  have d: "distinct (map sr_storageKey rows)" using assms(1) by (simp add: database_ok_def)
  have k: "sr_storageKey row = key" by (simp add: row_def)
  have none: "row_at (sr_storageKey row) rows1 = None" by (simp add: rows1_def row_at_delete_all [OF d] k)
  have eq: "r = Returned () \<and> rows' = rows1 @ [row]"
    using assms(2) insert_row_Some [OF none]
    by (simp add: database_set_def Let_def row_def [symmetric] rows1_def [symmetric] x_def [symmetric])
  then show "r = Returned ()" by simp
  have "row_ok row" by (simp add: row_ok_def row_def)
  then show "database_ok rows'"
    using eq insert_row_ok [OF _ none] delete_ok [OF assms(1)] by (simp add: rows1_def)
  have "row_cell row = \<lparr>cl_value = v, cl_count = None, cl_expires = x\<rparr>"
    by (simp add: row_cell_def row_def)
  then show "database_view t rows' = (database_view t rows)
     (key := alive t \<lparr>cl_value = v, cl_count = None, cl_expires = map_option (\<lambda>n. now + n * 1000) ttl\<rparr>)"
    using eq insert_row_view [OF none, of t]
    by (auto simp: k x_def rows1_def database_view_def row_at_delete_all [OF d])
qed

lemma bump_live_at:
  "row_at k (bump_live key now rows) =
   map_option (\<lambda>r. if sr_storageKey r = key \<and> sr_counter r \<noteq> None \<and> sr_expiresAt r \<noteq> None \<and> \<not> row_dead now r
                   then sr_counter_update (map_option (\<lambda>n. n + 1)) r else r) (row_at k rows)"
  unfolding bump_live_def by (rule row_at_update) simp

lemma bump_live_other: "k \<noteq> key \<Longrightarrow> row_at k (bump_live key now rows) = row_at k rows"
  by (cases "row_at k rows") (auto simp: bump_live_at dest: storage_row_at_SomeD)

lemma bump_live_keys [simp]: "map sr_storageKey (bump_live key now rows) = map sr_storageKey rows"
  unfolding bump_live_def by (rule map_update_where) simp

lemma bump_live_ok: "database_ok rows \<Longrightarrow> database_ok (bump_live key now rows)"
  unfolding database_ok_def bump_live_keys
  by (auto simp: bump_live_def set_update_where row_ok_def split: option.splits)

lemma row_at_clear_dead:
  "database_ok rows \<Longrightarrow> row_at k (clear_dead key now rows) =
   (if k = key then (case row_at key rows of
                       Some r \<Rightarrow> if row_dead now r \<or> sr_value r \<noteq> None then None else Some r
                     | None \<Rightarrow> None)
    else row_at k rows)"
  by (auto simp: clear_dead_def row_at_delete database_ok_def split: option.splits)

lemma database_incr_law:
  assumes ok: "database_ok rows" and b: "bumped (database_view now rows key) ttl now = (n, x)"
  shows "\<exists>rows'. database_incr key ttl now rows = (Returned (n, x), rows') \<and> database_ok rows'
    \<and> (\<forall>t\<ge>now. database_view t rows' = (database_view t rows)(key := alive t (counter_cell n x)))"
proof -
  define rows1 where "rows1 = bump_live key now rows"
  have ok1: "database_ok rows1" using bump_live_ok [OF ok] by (simp add: rows1_def)
  obtain m where att: "database_incr key ttl now rows = incr_attempts (Suc m) key ttl now rows"
    by (rule that [of 3]) (simp add: database_incr_def max_incr_attempts_def)
  show ?thesis
  proof (cases "\<exists>r c. row_at key rows = Some r \<and> sr_counter r = Some c \<and> \<not> row_dead now r")
    case True
    then obtain r c where r: "row_at key rows = Some r" "sr_counter r = Some c" "\<not> row_dead now r" by blast
    then have rin: "r \<in> set rows" "sr_storageKey r = key" by (auto dest: storage_row_at_SomeD)
    with ok r(2) obtain y where y: "sr_expiresAt r = Some y" "sr_value r = None"
      by (force simp: database_ok_def row_ok_def)
    define r1 where "r1 = r\<lparr>sr_counter := Some (c + 1)\<rparr>"
    have r1: "row_at key rows1 = Some r1" "\<not> row_dead now r1"
      using r rin y by (auto simp: rows1_def bump_live_at r1_def row_dead_def)
    have "row_cell r = \<lparr>cl_value = int_str c, cl_count = Some c, cl_expires = Some y\<rparr>"
      using r y by (simp add: row_cell_def)
    then have nx: "n = c + 1" "x = y"
      using b r alive_row_cell [OF r(3)] by (simp_all add: database_view_def bumped_def)
    have "counted (readLive key now rows1) = Some (n, x)"
      using r1 y nx by (simp add: readLive_def row_at_def [symmetric] counted_def r1_def)
    then have e: "database_incr key ttl now rows = (Returned (n, x), rows1)"
      by (simp add: att Let_def rows1_def [symmetric])
    have "row_cell r1 = counter_cell n x"
      using y nx by (simp add: row_cell_def r1_def counter_cell_def)
    then have "database_view t rows1 = (database_view t rows)(key := alive t (counter_cell n x))" for t
      using r1(1) by (simp add: database_view_def fun_eq_iff rows1_def bump_live_other)
    with e ok1 show ?thesis by blast
  next
    case False
    have same: "row_at k rows1 = row_at k rows" for k
    proof (cases "k = key")
      case True
      with False show ?thesis
        by (cases "row_at key rows") (auto simp: rows1_def bump_live_at)
    next
      case other: False
      then show ?thesis by (simp add: rows1_def bump_live_other)
    qed
    define rows2 where "rows2 = clear_dead key now rows1"
    have none: "row_at (sr_storageKey (fresh_counter key y)) rows2 = None" for y
    proof -
      have "row_dead now r \<or> sr_value r \<noteq> None" if "row_at key rows = Some r" for r
        using that False ok by (force simp: database_ok_def row_ok_def dest: storage_row_at_SomeD)
      then show ?thesis
        by (auto simp: rows2_def fresh_counter_def row_at_clear_dead [OF ok1] same split: option.splits)
    qed
    have "counted (readLive key now rows1) = None"
      using False by (auto simp: readLive_def row_at_def [symmetric] same counted_def split: option.splits)
    moreover have nx: "n = 1" "x = now + ttl * 1000"
      using b False alive_row_cell
      by (auto simp: database_view_def bumped_def bind_eq_Some_conv row_cell_def dest!: alive_SomeD
          simp: row_dead_alive split: option.splits if_splits)
    ultimately have e: "database_incr key ttl now rows = (Returned (n, x), rows2 @ [fresh_counter key x])"
      using insert_row_Some [OF none]
      by (simp add: att Let_def rows1_def [symmetric] rows2_def [symmetric])
    have ok2: "database_ok (rows2 @ [fresh_counter key x])"
      using insert_row_ok [OF _ none] delete_ok [OF ok1]
      by (simp add: rows2_def clear_dead_def row_ok_def fresh_counter_def)
    have cell: "row_cell (fresh_counter key x) = counter_cell n x" "sr_storageKey (fresh_counter key x) = key"
      by (simp_all add: row_cell_def fresh_counter_def counter_cell_def nx)
    have "database_view t rows2 k = database_view t rows k" if "k \<noteq> key" for t k
      using that by (simp add: database_view_def rows2_def row_at_clear_dead [OF ok1] same)
    then have "database_view t (rows2 @ [fresh_counter key x])
        = (database_view t rows)(key := alive t (counter_cell n x))" for t
      using insert_row_view [OF none, of t x] cell by (auto simp: fun_eq_iff)
    with e ok2 show ?thesis by blast
  qed
qed

text \<open>The pattern of \<open>list\<close> matches the keys with the prefix, when letters compare exactly.\<close>

lemma like_any: "like cmp ''%'' s"
  by simp

lemma escapeLike_Cons: "escapeLike (c # p) =
  (if c = CHR ''!'' \<or> c = CHR ''%'' \<or> c = CHR ''_'' then [CHR ''!'', c] else [c]) @ escapeLike p"
  by (simp add: escapeLike_def)

lemma like_prefix: "like (\<lambda>c. c) (escapeLike p @ ''%'') s \<longleftrightarrow> starts_with p s"
proof (induction p arbitrary: s)
  case Nil
  then show ?case by (simp add: escapeLike_def)
next
  case (Cons c p)
  obtain q qs where q: "escapeLike p @ ''%'' = q # qs" by (cases "escapeLike p") auto
  show ?case
    using Cons q by (cases s) (auto simp: escapeLike_Cons simp del: append_eq_Cons_conv)
qed

interpretation tab: secondary_storage "databaseStorage (\<lambda>c. c)" database_view database_ok "\<lambda>_ _. None"
proof (unfold_locales, goal_cases)
  case (1 s t k c)
  then show ?case by (auto simp: database_view_def bind_eq_Some_conv dest: alive_SomeD)
next
  case (2 s t u k)
  then show ?case by (cases "row_at k s") (auto simp: database_view_def alive_later)
next
  case (3 s k now)
  have "(case readLive k now s of None \<Rightarrow> None
         | Some r \<Rightarrow> (case sr_counter r of Some n \<Rightarrow> Some (int_str n) | None \<Rightarrow> sr_value r))
      = map_option cl_value (map_option row_cell (readLive k now s))"
  proof (cases "readLive k now s")
    case (Some r)
    then have "r \<in> set s" by (auto simp: readLive_def split: option.splits if_splits dest: find_SomeD)
    with 3 have "row_ok r" by (simp add: database_ok_def)
    with Some show ?thesis by (auto simp: row_ok_def row_cell_def split: option.splits)
  qed simp
  with 3 show ?case by (simp add: databaseStorage_def database_get_def readLive_cell)
next
  case (4 s k v ttl now)
  then show ?case
    using database_set_law [OF 4] by (cases "database_set k v ttl now s") (auto simp: databaseStorage_def)
next
  case (5 s k now)
  then have d: "distinct (map sr_storageKey s)" by (simp add: database_ok_def)
  from 5 show ?case
    by (auto simp: databaseStorage_def database_delete_def delete_ok database_view_def
        row_at_delete_all [OF d] fun_eq_iff)
next
  case (6 s now k ttl n x)
  then show ?case using database_incr_law by (simp add: databaseStorage_def)
next
  case (7 s ls p now)
  then have d: "distinct (map sr_storageKey s)" by (simp add: database_ok_def)
  have "database_view now s k \<noteq> None \<longleftrightarrow> (\<exists>r\<in>set s. sr_storageKey r = k \<and> \<not> row_dead now r)" for k
    using d by (auto simp: database_view_def row_at_iff row_dead_alive bind_eq_Some_conv)
  with 7 show ?case
    by (auto simp: databaseStorage_def database_list_def Let_def like_prefix)
qed

section \<open>Callers of incr, statement by statement\<close>

text \<open>A caller of \<open>incr\<close>: the instant it read at the head of the loop, and its attempt.\<close>

datatype incr_pc =
    IncrUpdate nat
  | IncrRead time nat
  | IncrClear time nat
  | IncrInsert time nat
  | IncrDone int time
  | IncrThrew

fun incr_step :: "string \<Rightarrow> int \<Rightarrow> time \<Rightarrow> incr_pc \<Rightarrow> storage_row list \<Rightarrow> incr_pc \<times> storage_row list" where
  "incr_step key ttl t (IncrUpdate a) rows = (IncrRead t a, bump_live key t rows)"
| "incr_step key ttl t (IncrRead now a) rows =
     (case counted (readLive key now rows) of
        Some (n, x) \<Rightarrow> (IncrDone n x, rows)
      | None \<Rightarrow> (IncrClear now a, rows))"
| "incr_step key ttl t (IncrClear now a) rows = (IncrInsert now a, clear_dead key now rows)"
| "incr_step key ttl t (IncrInsert now a) rows =
     (let x = now + ttl * 1000
      in case insert_row (fresh_counter key x) rows of
           Some rows' \<Rightarrow> (IncrDone 1 x, rows')
         | None \<Rightarrow> (if Suc a < max_incr_attempts then IncrUpdate (Suc a) else IncrThrew, rows))"
| "incr_step key ttl t (IncrDone n x) rows = (IncrDone n x, rows)"
| "incr_step key ttl t IncrThrew rows = (IncrThrew, rows)"

definition callers_start :: "nat \<Rightarrow> storage_row list \<Rightarrow> time \<Rightarrow> (storage_row list, incr_pc) world" where
  "callers_start n rows now = \<lparr>wd_shared = rows, wd_callers = replicate n (IncrUpdate 0), wd_now = now\<rparr>"

text \<open>The callers told that their count is at most \<open>m\<close>.\<close>

definition told :: "int \<Rightarrow> incr_pc \<Rightarrow> bool" where
  "told m pc \<longleftrightarrow> (case pc of IncrDone n _ \<Rightarrow> n \<le> m | _ \<Rightarrow> False)"

definition counted_caller :: "incr_pc \<Rightarrow> bool" where
  "counted_caller pc \<longleftrightarrow> (case pc of IncrUpdate _ \<Rightarrow> False | _ \<Rightarrow> True)"

definition live_inv :: "string \<Rightarrow> int \<Rightarrow> time \<Rightarrow> (storage_row list, incr_pc) world \<Rightarrow> bool" where
  "live_inv key n x w \<longleftrightarrow> (wd_now w < x \<longrightarrow>
     (\<exists>r. row_at key (wd_shared w) = Some r \<and> sr_expiresAt r = Some x
        \<and> sr_counter r = Some (n + int (length (filter counted_caller (wd_callers w)))))
     \<and> (\<forall>pc\<in>set (wd_callers w). pc = IncrUpdate 0 \<or> (\<exists>t<x. pc = IncrRead t 0) \<or> (\<exists>c. pc = IncrDone c x))
     \<and> (\<forall>m. length (filter (told (n + int m)) (wd_callers w)) \<le> m))"

lemma told_counted: "told m pc \<Longrightarrow> counted_caller pc"
  by (auto simp: told_def counted_caller_def split: incr_pc.splits)

lemma told_fewer: "length (filter (told m) pcs) \<le> length (filter counted_caller pcs)"
proof (induction pcs)
  case (Cons pc pcs)
  then show ?case using told_counted [of m pc] by auto
qed simp

lemma live_inv_update:
  assumes inv: "live_inv key n x w" and i: "i < length (wd_callers w)" and "wd_now w \<le> t" "t < x"
    and pc: "wd_callers w ! i = IncrUpdate 0"
  shows "live_inv key n x \<lparr>wd_shared = bump_live key t (wd_shared w),
           wd_callers = (wd_callers w)[i := IncrRead t 0], wd_now = t\<rparr>"
proof -
  obtain r where r: "row_at key (wd_shared w) = Some r" "sr_expiresAt r = Some x"
      "sr_counter r = Some (n + int (length (filter counted_caller (wd_callers w))))"
    and pcs: "\<forall>pc\<in>set (wd_callers w). pc = IncrUpdate 0 \<or> (\<exists>t<x. pc = IncrRead t 0) \<or> (\<exists>c. pc = IncrDone c x)"
    and told: "\<And>m. length (filter (told (n + int m)) (wd_callers w)) \<le> m"
    using inv assms(3,4) by (auto simp: live_inv_def)
  have key: "sr_storageKey r = key" using storage_row_at_SomeD [OF r(1)] by simp
  have "length (filter counted_caller ((wd_callers w)[i := IncrRead t 0]))
      = Suc (length (filter counted_caller (wd_callers w)))"
    using length_filter_update [OF i, of counted_caller "IncrRead t 0"] pc by (simp add: counted_caller_def)
  moreover have "length (filter (told m) ((wd_callers w)[i := IncrRead t 0])) = length (filter (told m) (wd_callers w))" for m
    using length_filter_update [OF i, of "told m" "IncrRead t 0"] pc by (simp add: told_def)
  moreover have "row_at key (bump_live key t (wd_shared w)) = Some (sr_counter_update (map_option (\<lambda>n. n + 1)) r)"
    using r key assms(4) by (simp add: bump_live_at row_dead_def)
  ultimately show ?thesis
    using r told pcs assms(4) set_update_subset_insert [of "wd_callers w" i "IncrRead t 0"]
    by (auto simp: live_inv_def)
qed

lemma live_inv_read:
  assumes inv: "live_inv key n x w" and i: "i < length (wd_callers w)" and "wd_now w \<le> t" "t < x"
    and pc: "wd_callers w ! i = IncrRead now 0" and "now < x"
    and s: "incr_step key ttl t (IncrRead now 0) (wd_shared w) = (pc', rows')"
  shows "live_inv key n x \<lparr>wd_shared = rows', wd_callers = (wd_callers w)[i := pc'], wd_now = t\<rparr>"
proof -
  define U where "U = length (filter counted_caller (wd_callers w))"
  obtain r where r: "row_at key (wd_shared w) = Some r" "sr_expiresAt r = Some x" "sr_counter r = Some (n + int U)"
    and pcs: "\<forall>pc\<in>set (wd_callers w). pc = IncrUpdate 0 \<or> (\<exists>t<x. pc = IncrRead t 0) \<or> (\<exists>c. pc = IncrDone c x)"
    and told: "\<And>m. length (filter (told (n + int m)) (wd_callers w)) \<le> m"
    using inv assms(3,4) by (auto simp: live_inv_def U_def)
  have s': "pc' = IncrDone (n + int U) x" "rows' = wd_shared w"
    using s r assms(6) by (simp_all add: readLive_def row_at_def [symmetric] counted_def row_dead_def)
  have "length (filter counted_caller ((wd_callers w)[i := pc'])) = U"
    using length_filter_update [OF i, of counted_caller pc'] pc by (simp add: counted_caller_def s' U_def)
  moreover have "length (filter (told (n + int m)) ((wd_callers w)[i := pc'])) \<le> m" for m
  proof (cases "m < U")
    case True
    then show ?thesis
      using length_filter_update [OF i, of "told (n + int m)" pc'] pc told [of m] by (simp add: told_def s')
  next
    case False
    have "length (filter (told (n + int m)) ((wd_callers w)[i := pc'])) \<le> length (filter counted_caller ((wd_callers w)[i := pc']))"
      by (rule told_fewer)
    with \<open>length (filter counted_caller ((wd_callers w)[i := pc'])) = U\<close> False show ?thesis by simp
  qed
  ultimately show ?thesis
    using r pcs s' set_update_subset_insert [of "wd_callers w" i pc'] by (auto simp: live_inv_def)
qed

lemma live_inv_step:
  assumes inv: "live_inv key n x w" and "interleave (incr_step key ttl) w v"
  shows "live_inv key n x v"
proof -
  from assms(2) obtain i t pc' rows' where 1:
      "v = \<lparr>wd_shared = rows', wd_callers = (wd_callers w)[i := pc'], wd_now = t\<rparr>"
      "i < length (wd_callers w)" "wd_now w \<le> t"
      "incr_step key ttl t (wd_callers w ! i) (wd_shared w) = (pc', rows')"
    by (rule interleaveE)
  show ?thesis
  proof (cases "t < x")
    case True
    with inv 1 have "wd_callers w ! i = IncrUpdate 0 \<or> (\<exists>now<x. wd_callers w ! i = IncrRead now 0)
        \<or> (\<exists>c. wd_callers w ! i = IncrDone c x)"
      by (auto simp: live_inv_def)
    then show ?thesis
    proof (elim disjE exE conjE)
      assume "wd_callers w ! i = IncrUpdate 0"
      with live_inv_update [OF inv 1(2,3) True] 1 show ?thesis by simp
    next
      fix now
      assume "now < x" "wd_callers w ! i = IncrRead now 0"
      with live_inv_read [OF inv 1(2,3) True] 1 show ?thesis by simp
    next
      fix c
      assume c: "wd_callers w ! i = IncrDone c x"
      with 1(4) have "pc' = wd_callers w ! i" "rows' = wd_shared w" by simp_all
      with 1 True inv show ?thesis by (simp add: live_inv_def)
    qed
  qed (simp add: 1 live_inv_def)
qed

definition counter_start :: "string \<Rightarrow> int \<Rightarrow> time \<Rightarrow> (storage_row list, incr_pc) world \<Rightarrow> bool" where
  "counter_start key n x w \<longleftrightarrow>
     (\<exists>r. row_at key (wd_shared w) = Some r \<and> sr_expiresAt r = Some x \<and> sr_counter r = Some n)
     \<and> (\<forall>pc\<in>set (wd_callers w). pc = IncrUpdate 0)"

lemma counter_start_inv: "counter_start key n x w \<Longrightarrow> live_inv key n x w"
proof -
  assume start: "counter_start key n x w"
  then have "filter counted_caller (wd_callers w) = []"
    by (auto simp: counter_start_def counted_caller_def filter_empty_conv)
  moreover have "filter (told m) (wd_callers w) = []" for m
    using start by (auto simp: counter_start_def told_def filter_empty_conv)
  ultimately show ?thesis using start by (auto simp: live_inv_def counter_start_def)
qed

interpretation counter: machine "counter_start key n x" "interleave (incr_step key ttl)" "live_inv key n x"
  for key n x ttl
  by unfold_locales (auto intro: counter_start_inv live_inv_step)

text \<open>
  C30: A live counter never under-reports: however the statements of any number of callers of
  \<open>incr\<close> interleave, at most \<open>k\<close> of them are told a count of at most \<open>k\<close> above the start, so a
  limit that compares the count lets at most as many callers through as it says.
\<close>

theorem live_counter_limits:
  assumes "reaches (counter_start key n x) (interleave (incr_step key ttl)) w" and "wd_now w < x"
  shows "length (filter (told (n + int k)) (wd_callers w)) \<le> k"
  using counter.inv_reachable [OF assms(1)] assms(2) by (simp add: live_inv_def)

definition ten_rows :: "storage_row list" where
  "ten_rows = [\<lparr>sr_storageKey = ''k'', sr_value = None, sr_counter = Some 9, sr_expiresAt = Some 60000\<rparr>]"

lemma ten_start: "counter_start ''k'' 9 60000 (callers_start 2 ten_rows 0)"
  by (simp add: counter_start_def callers_start_def ten_rows_def row_at_def)

theorem live_counter_limits_witness:
  "length (filter (told (9 + int 1)) (wd_callers (run_schedule (incr_step ''k'' 60) [(0, 0), (0, 1), (1, 2), (1, 3)]
     (callers_start 2 ten_rows 0)))) \<le> 1"
proof (rule live_counter_limits [of "''k''" 9 60000 60])
  show "reaches (counter_start ''k'' 9 60000) (interleave (incr_step ''k'' 60))
      (run_schedule (incr_step ''k'' 60) [(0, 0), (0, 1), (1, 2), (1, 3)] (callers_start 2 ten_rows 0))"
    by (intro run_schedule_reaches reaches_init ten_start)
  show "wd_now (run_schedule (incr_step ''k'' 60) [(0, 0), (0, 1), (1, 2), (1, 3)] (callers_start 2 ten_rows 0)) < 60000"
    by code_simp
qed

text \<open>
  Callers that race to open a window are not counted apart. From an empty table, one caller
  finds nothing to update, the other opens the window and is told 1, and the first then reads that
  row and is told 1 as well, though it never counted itself.
\<close>

theorem two_callers_first:
  "\<exists>w. reaches (\<lambda>w. w = callers_start 2 [] 0) (interleave (incr_step ''claim'' 900)) w
     \<and> wd_callers w = [IncrDone 1 900000, IncrDone 1 900000]
     \<and> map sr_counter (wd_shared w) = [Some 1]"
proof -
  let ?w = "run_schedule (incr_step ''claim'' 900) [(1, 0), (0, 0), (0, 0), (0, 0), (0, 0), (1, 0)] (callers_start 2 [] 0)"
  have c: "wd_callers ?w = [IncrDone 1 900000, IncrDone 1 900000]" by code_simp
  have n: "map sr_counter (wd_shared ?w) = [Some 1]" by code_simp
  have r: "reaches (\<lambda>w. w = callers_start 2 [] 0) (interleave (incr_step ''claim'' 900)) ?w"
    by (intro run_schedule_reaches reaches_init) (rule refl)
  show ?thesis by (rule exI [of _ ?w], intro conjI) (rule r, rule c, rule n)
qed

text \<open>
  A threshold can be stepped over. Two callers that both move a counter from nine read it back
  afterwards, and both are told 11: neither sees the 10.
\<close>

theorem threshold_skipped:
  "\<exists>w. reaches (counter_start ''k'' 9 60000) (interleave (incr_step ''k'' 60)) w
     \<and> wd_callers w = [IncrDone 11 60000, IncrDone 11 60000]"
proof -
  let ?w = "run_schedule (incr_step ''k'' 60) [(0, 0), (1, 0), (0, 0), (1, 0)] (callers_start 2 ten_rows 0)"
  have c: "wd_callers ?w = [IncrDone 11 60000, IncrDone 11 60000]" by code_simp
  have r: "reaches (counter_start ''k'' 9 60000) (interleave (incr_step ''k'' 60)) ?w"
    by (intro run_schedule_reaches reaches_init ten_start)
  show ?thesis by (rule exI [of _ ?w], intro conjI) (rule r, rule c)
qed

end
