(* ===== verification/LoginLockout.thy ===== *)
theory LoginLockout
  imports DatabaseStorage DelegationRules "HOL-Library.Code_Target_Nat"
begin

text \<open>
  Login lockout: \<open>packages/core/src/auth/login-lockout.ts\<close> and the password step of \<open>signIn\<close> in
  \<open>auth/username.ts\<close>, over any secondary storage. Proved in the contract of \<open>Storage\<close>: how many
  guesses a sequential attacker gets, how long a lock lasts, and that a refused attempt changes
  nothing. The same handlers are then interleaved statement by statement, where the bound on a
  parallel burst fails. A call reads the clock once.
\<close>

section \<open>Settings\<close>

record lockout_config =
  lc_maxFailures :: "int option"
  lc_failureWindowSeconds :: "int option"
  lc_lockoutSeconds :: "int option"
  lc_maxLockoutSeconds :: "int option"
  lc_strikeWindowSeconds :: "int option"
  lc_graceFailures :: "int option"
  lc_baseDelaySeconds :: "int option"
  lc_maxDelaySeconds :: "int option"
  lc_failClosed :: "bool option"

record lockout_settings =
  lo_maxFailures :: int
  lo_failureWindow :: int
  lo_lockSeconds :: int
  lo_maxLockSeconds :: int
  lo_strikeWindow :: int
  lo_grace :: int
  lo_baseDelay :: int
  lo_maxDelay :: int
  lo_failClosed :: bool

text \<open>\<open>process.env\<close>; a setting that is not a positive number is an error, named by its variable.\<close>

type_synonym environment = "string \<Rightarrow> string option"

definition env_text :: "environment \<Rightarrow> string \<Rightarrow> string option" where
  "env_text environment name =
     (case environment name of None \<Rightarrow> None | Some v \<Rightarrow> if v = [] then None else Some v)"

definition positive :: "environment \<Rightarrow> int option \<Rightarrow> string \<Rightarrow> int \<Rightarrow> string + int" where
  "positive environment configured name fallback =
     (let check = (\<lambda>raw. case raw of
                           None \<Rightarrow> Inl name
                         | Some n \<Rightarrow> if n \<le> 0 then Inl name else Inr n)
      in case configured of
           Some n \<Rightarrow> check (Some n)
         | None \<Rightarrow> (case env_text environment name of None \<Rightarrow> Inr fallback | Some v \<Rightarrow> check (js_number v)))"

definition sum_bind :: "'e + 'a \<Rightarrow> ('a \<Rightarrow> 'e + 'b) \<Rightarrow> 'e + 'b" where
  "sum_bind m f = (case m of Inl e \<Rightarrow> Inl e | Inr x \<Rightarrow> f x)"

definition lockout_settings_of :: "lockout_config \<Rightarrow> environment \<Rightarrow> string + lockout_settings" where
  "lockout_settings_of config environment =
     sum_bind (positive environment (lc_maxFailures config) ''THEAUTH_LOGIN_MAX_FAILURES'' 10) (\<lambda>maxFailures.
     sum_bind (positive environment (lc_failureWindowSeconds config) ''THEAUTH_LOGIN_FAILURE_WINDOW_SECONDS'' 900)
       (\<lambda>failureWindow.
     sum_bind (positive environment (lc_lockoutSeconds config) ''THEAUTH_LOGIN_LOCKOUT_SECONDS'' 900) (\<lambda>lockSeconds.
     sum_bind (positive environment (lc_maxLockoutSeconds config) ''THEAUTH_LOGIN_MAX_LOCKOUT_SECONDS'' 3600)
       (\<lambda>maxLock.
     sum_bind (positive environment (lc_strikeWindowSeconds config) ''THEAUTH_LOGIN_STRIKE_WINDOW_SECONDS'' 86400)
       (\<lambda>strikeWindow.
     sum_bind (positive environment (lc_graceFailures config) ''THEAUTH_LOGIN_GRACE_FAILURES'' 3) (\<lambda>grace.
     sum_bind (positive environment (lc_baseDelaySeconds config) ''THEAUTH_LOGIN_BASE_DELAY_SECONDS'' 1) (\<lambda>baseDelay.
     sum_bind (positive environment (lc_maxDelaySeconds config) ''THEAUTH_LOGIN_MAX_DELAY_SECONDS'' 900) (\<lambda>maxDelay.
     Inr \<lparr>lo_maxFailures = maxFailures, lo_failureWindow = failureWindow, lo_lockSeconds = lockSeconds,
          lo_maxLockSeconds = max lockSeconds maxLock, lo_strikeWindow = strikeWindow, lo_grace = grace,
          lo_baseDelay = baseDelay, lo_maxDelay = max baseDelay maxDelay,
          lo_failClosed = (case lc_failClosed config of
             Some b \<Rightarrow> b
           | None \<Rightarrow> map_option (map to_lower) (env_text environment ''THEAUTH_LOGIN_LOCKOUT_FAIL_CLOSED'')
                       = Some ''true'')\<rparr>))))))))"

definition lockoutDisabledByEnv :: "environment \<Rightarrow> bool" where
  "lockoutDisabledByEnv environment \<longleftrightarrow>
     (case env_text environment ''THEAUTH_LOGIN_LOCKOUT_DISABLED'' of
        None \<Rightarrow> False
      | Some v \<Rightarrow> v = ''1'' \<or> map to_lower v = ''true'')"

definition settings_ok :: "lockout_settings \<Rightarrow> bool" where
  "settings_ok cfg \<longleftrightarrow>
     1 \<le> lo_maxFailures cfg \<and> 1 \<le> lo_failureWindow cfg \<and> 1 \<le> lo_lockSeconds cfg
     \<and> lo_lockSeconds cfg \<le> lo_maxLockSeconds cfg \<and> 1 \<le> lo_strikeWindow cfg \<and> 1 \<le> lo_grace cfg
     \<and> 1 \<le> lo_baseDelay cfg \<and> lo_baseDelay cfg \<le> lo_maxDelay cfg"

lemma positive_range: "positive environment c name d = Inr n \<Longrightarrow> 1 \<le> d \<Longrightarrow> 1 \<le> n"
  by (auto simp: positive_def Let_def split: option.splits if_splits)

lemma sum_bind_Inr: "sum_bind m f = Inr y \<longleftrightarrow> (\<exists>x. m = Inr x \<and> f x = Inr y)"
  by (cases m) (auto simp: sum_bind_def)

lemma lockout_settings_ok:
  assumes "lockout_settings_of config environment = Inr cfg"
  shows "settings_ok cfg"
proof -
  note range = positive_range [of environment]
  from assms obtain a b c d e f g h where
      "positive environment (lc_maxFailures config) ''THEAUTH_LOGIN_MAX_FAILURES'' 10 = Inr a"
      "positive environment (lc_failureWindowSeconds config) ''THEAUTH_LOGIN_FAILURE_WINDOW_SECONDS'' 900 = Inr b"
      "positive environment (lc_lockoutSeconds config) ''THEAUTH_LOGIN_LOCKOUT_SECONDS'' 900 = Inr c"
      "positive environment (lc_strikeWindowSeconds config) ''THEAUTH_LOGIN_STRIKE_WINDOW_SECONDS'' 86400 = Inr e"
      "positive environment (lc_graceFailures config) ''THEAUTH_LOGIN_GRACE_FAILURES'' 3 = Inr f"
      "positive environment (lc_baseDelaySeconds config) ''THEAUTH_LOGIN_BASE_DELAY_SECONDS'' 1 = Inr g"
    and cfg: "lo_maxFailures cfg = a" "lo_failureWindow cfg = b" "lo_lockSeconds cfg = c"
      "lo_maxLockSeconds cfg = max c d" "lo_strikeWindow cfg = e" "lo_grace cfg = f" "lo_baseDelay cfg = g"
      "lo_maxDelay cfg = max g h"
    unfolding lockout_settings_of_def sum_bind_Inr by (elim exE conjE) force
  then have "1 \<le> a" "1 \<le> b" "1 \<le> c" "1 \<le> e" "1 \<le> f" "1 \<le> g"
    by (auto elim: range)
  with cfg show ?thesis by (simp add: settings_ok_def)
qed

section \<open>Keys\<close>

definition max_ident_length :: nat where
  "max_ident_length = 128"

definition uri_unreserved :: "char \<Rightarrow> bool" where
  "uri_unreserved c \<longleftrightarrow>
     (let n = (of_char c :: nat)
      in 48 \<le> n \<and> n \<le> 57 \<or> 65 \<le> n \<and> n \<le> 90 \<or> 97 \<le> n \<and> n \<le> 122
         \<or> c \<in> {CHR ''-'', CHR ''_'', CHR ''.'', CHR ''!'', CHR ''~'', CHR ''*'', CHR 0x27, CHR ''('', CHR '')''})"

definition upper_hex :: "nat \<Rightarrow> char" where
  "upper_hex d = (if d < 10 then digit_char d else char_of (55 + d))"

definition percent_byte :: "nat \<Rightarrow> string" where
  "percent_byte n = [CHR ''%'', upper_hex (n div 16), upper_hex (n mod 16)]"

definition uri_char :: "char \<Rightarrow> string" where
  "uri_char c =
     (let n = (of_char c :: nat)
      in if uri_unreserved c then [c]
         else if n < 128 then percent_byte n
         else percent_byte (192 + n div 64) @ percent_byte (128 + n mod 64))"

definition encodeURIComponent :: "string \<Rightarrow> string" where
  "encodeURIComponent s = concat (map uri_char s)"

definition enc :: "string \<Rightarrow> string" where
  "enc identifier = encodeURIComponent (take max_ident_length identifier)"

definition fail_key :: "string \<Rightarrow> string" where
  "fail_key i = ''lockout:fail:'' @ enc i"

definition attempt_key :: "string \<Rightarrow> string" where
  "attempt_key i = ''lockout:attempt:'' @ enc i"

definition strike_key :: "string \<Rightarrow> string" where
  "strike_key i = ''lockout:strike:'' @ enc i"

definition lock_key :: "string \<Rightarrow> string" where
  "lock_key i = ''lockout:lock:'' @ enc i"

definition ip_fail_prefix :: "string \<Rightarrow> string" where
  "ip_fail_prefix i = ''lockout:ipfail:'' @ enc i @ '':''"

definition ip_lock_prefix :: "string \<Rightarrow> string" where
  "ip_lock_prefix i = ''lockout:iplock:'' @ enc i @ '':''"

definition ipFail_key :: "string \<Rightarrow> string \<Rightarrow> string" where
  "ipFail_key i ip = ip_fail_prefix i @ ip"

definition ipLock_key :: "string \<Rightarrow> string \<Rightarrow> string" where
  "ipLock_key i ip = ip_lock_prefix i @ ip"

lemmas key_defs = fail_key_def attempt_key_def strike_key_def lock_key_def ip_fail_prefix_def
  ip_lock_prefix_def ipFail_key_def ipLock_key_def

section \<open>The handlers\<close>

datatype lockout_scope = AccountScope | IpScope | Unavailable

record lockout_check =
  lk_locked :: bool
  lk_retryAfterSeconds :: int
  lk_reason :: "lockout_scope option"

record lockout_event =
  le_identifier :: string
  le_scope :: lockout_scope
  le_ip :: "string option"
  le_failures :: int
  le_level :: int
  le_until :: time

definition ceil_seconds :: "int \<Rightarrow> int" where
  "ceil_seconds ms = - ((- ms) div 1000)"

text \<open>\<open>if (ip)\<close>: the empty address counts as none.\<close>

definition given_ip :: "string option \<Rightarrow> string option" where
  "given_ip ip = (case ip of None \<Rightarrow> None | Some a \<Rightarrow> if a = [] then None else Some a)"

definition lockedUntil :: "'s storage \<Rightarrow> string \<Rightarrow> time \<Rightarrow> ('s, time) action" where
  "lockedUntil st key now =
     andThen (st_get st key now) (\<lambda>raw.
       answer (case raw of
                 None \<Rightarrow> 0
               | Some r \<Rightarrow> (case js_number r of Some until \<Rightarrow> until | None \<Rightarrow> 0)))"

definition unlocked :: lockout_check where
  "unlocked = \<lparr>lk_locked = False, lk_retryAfterSeconds = 0, lk_reason = None\<rparr>"

definition locked_for :: "int \<Rightarrow> lockout_scope \<Rightarrow> lockout_check" where
  "locked_for ms reason =
     \<lparr>lk_locked = True, lk_retryAfterSeconds = max 1 (ceil_seconds ms), lk_reason = Some reason\<rparr>"

definition reserve_slot :: "'s storage \<Rightarrow> lockout_settings \<Rightarrow> string \<Rightarrow> time \<Rightarrow> ('s, lockout_check) action" where
  "reserve_slot st cfg identifier now =
     andThen (st_incr st (attempt_key identifier) (lo_failureWindow cfg) now) (\<lambda>(count, expiresAt).
       answer (if lo_maxFailures cfg < count then locked_for (expiresAt - now) AccountScope else unlocked))"

definition check_body ::
  "'s storage \<Rightarrow> lockout_settings \<Rightarrow> string \<Rightarrow> string option \<Rightarrow> time \<Rightarrow> ('s, lockout_check) action" where
  "check_body st cfg identifier ip now =
     andThen (lockedUntil st (lock_key identifier) now) (\<lambda>accountUntil.
     andThen (case given_ip ip of
                None \<Rightarrow> answer 0
              | Some a \<Rightarrow> lockedUntil st (ipLock_key identifier a) now) (\<lambda>ipUntil.
       let until = max accountUntil ipUntil
       in if until \<le> now then reserve_slot st cfg identifier now
          else answer (locked_for (until - now) (if ipUntil \<le> accountUntil then AccountScope else IpScope))))"

definition check_lockout ::
  "'s storage \<Rightarrow> lockout_settings \<Rightarrow> string \<Rightarrow> string option \<Rightarrow> time \<Rightarrow> 's \<Rightarrow> lockout_check \<times> 's" where
  "check_lockout st cfg identifier ip now s =
     (case check_body st cfg identifier ip now s of
        (Returned c, s') \<Rightarrow> (c, s')
      | (Threw, s') \<Rightarrow>
          (if lo_failClosed cfg
           then \<lparr>lk_locked = True, lk_retryAfterSeconds = 30, lk_reason = Some Unavailable\<rparr>
           else unlocked, s'))"

text \<open>The lock after the \<open>level\<close>-th strike, and the delay after \<open>over\<close> misses beyond the grace.\<close>

definition lock_length :: "lockout_settings \<Rightarrow> int \<Rightarrow> int" where
  "lock_length cfg level = min (lo_lockSeconds cfg * 2 ^ nat (min (level - 1) 30)) (lo_maxLockSeconds cfg)"

definition delay_length :: "lockout_settings \<Rightarrow> int \<Rightarrow> int" where
  "delay_length cfg over = min (lo_baseDelay cfg * 2 ^ nat (min (over - 1) 30)) (lo_maxDelay cfg)"

definition account_failure ::
  "'s storage \<Rightarrow> lockout_settings \<Rightarrow> string \<Rightarrow> string option \<Rightarrow> time \<Rightarrow> ('s, lockout_event list) action" where
  "account_failure st cfg identifier ip now =
     andThen (st_incr st (fail_key identifier) (lo_failureWindow cfg) now) (\<lambda>(count, _).
       if count = lo_maxFailures cfg then
         andThen (st_incr st (strike_key identifier) (lo_strikeWindow cfg) now) (\<lambda>(strike, _).
           let seconds = lock_length cfg strike; until = now + seconds * 1000
           in andThen (st_delete st (fail_key identifier) now) (\<lambda>_.
              andThen (st_delete st (attempt_key identifier) now) (\<lambda>_.
              andThen (st_set st (lock_key identifier) (int_str until) (Some seconds) now) (\<lambda>_.
              answer [\<lparr>le_identifier = identifier, le_scope = AccountScope, le_ip = ip, le_failures = count,
                       le_level = strike, le_until = until\<rparr>]))))
       else answer [])"

definition ip_failure ::
  "'s storage \<Rightarrow> lockout_settings \<Rightarrow> string \<Rightarrow> string option \<Rightarrow> time \<Rightarrow> ('s, lockout_event list) action" where
  "ip_failure st cfg identifier ip now =
     (case given_ip ip of
        None \<Rightarrow> answer []
      | Some a \<Rightarrow>
          andThen (st_incr st (ipFail_key identifier a) (lo_failureWindow cfg) now) (\<lambda>(count, _).
            let over = count - lo_grace cfg
            in if 0 < over then
                 let seconds = delay_length cfg over; until = now + seconds * 1000
                 in andThen (st_set st (ipLock_key identifier a) (int_str until) (Some seconds) now) (\<lambda>_.
                    answer (if over = 1 then
                              [\<lparr>le_identifier = identifier, le_scope = IpScope, le_ip = ip, le_failures = count,
                                le_level = 1, le_until = until\<rparr>]
                            else []))
               else answer []))"

text \<open>What the hook hears, and the store after. A store error ends the handler and is swallowed.\<close>

definition recordFailure ::
  "'s storage \<Rightarrow> lockout_settings \<Rightarrow> string \<Rightarrow> string option \<Rightarrow> time \<Rightarrow> 's \<Rightarrow> lockout_event list \<times> 's" where
  "recordFailure st cfg identifier ip now s =
     (case account_failure st cfg identifier ip now s of
        (Threw, s') \<Rightarrow> ([], s')
      | (Returned events, s') \<Rightarrow>
          (case ip_failure st cfg identifier ip now s' of
             (Threw, s'') \<Rightarrow> (events, s'')
           | (Returned later, s'') \<Rightarrow> (events @ later, s'')))"

definition recordSuccess :: "'s storage \<Rightarrow> string \<Rightarrow> string option \<Rightarrow> time \<Rightarrow> 's \<Rightarrow> 's" where
  "recordSuccess st identifier ip now s =
     snd (andThen (st_delete st (fail_key identifier) now) (\<lambda>_.
          andThen (st_delete st (attempt_key identifier) now) (\<lambda>_.
          andThen (st_delete st (strike_key identifier) now) (\<lambda>_.
          (case given_ip ip of
             None \<Rightarrow> answer ()
           | Some a \<Rightarrow>
               andThen (st_delete st (ipFail_key identifier a) now) (\<lambda>_.
               st_delete st (ipLock_key identifier a) now))))) s)"

fun delete_keys :: "'s storage \<Rightarrow> string list \<Rightarrow> time \<Rightarrow> ('s, unit) action" where
  "delete_keys st [] now = answer ()"
| "delete_keys st (k # ks) now = andThen (st_delete st k now) (\<lambda>_. delete_keys st ks now)"

definition unlock :: "'s storage \<Rightarrow> string \<Rightarrow> time \<Rightarrow> ('s, unit) action" where
  "unlock st identifier now =
     andThen (delete_keys st [lock_key identifier, fail_key identifier, attempt_key identifier, strike_key identifier]
                now) (\<lambda>_.
       case st_list st of
         None \<Rightarrow> answer ()
       | Some ls \<Rightarrow>
           andThen (ls (ip_fail_prefix identifier) now) (\<lambda>ks.
           andThen (delete_keys st ks now) (\<lambda>_.
           andThen (ls (ip_lock_prefix identifier) now) (\<lambda>ks'. delete_keys st ks' now))))"

text \<open>The password step of \<open>signIn\<close>: \<open>valid\<close> is what \<open>verifyPassword\<close> says, False without an account.\<close>

datatype password_outcome = LockedOut int lockout_scope | Wrong | Correct

definition password_step ::
  "'s storage \<Rightarrow> lockout_settings \<Rightarrow> string \<Rightarrow> string option \<Rightarrow> bool \<Rightarrow> time \<Rightarrow> 's \<Rightarrow> password_outcome \<times> 's" where
  "password_step st cfg identifier ip valid now s =
     (case check_lockout st cfg identifier ip now s of
        (state, s') \<Rightarrow>
          if lk_locked state then
            (LockedOut (lk_retryAfterSeconds state)
               (case lk_reason state of Some r \<Rightarrow> r | None \<Rightarrow> AccountScope), s')
          else if \<not> valid then (Wrong, snd (recordFailure st cfg identifier ip now s'))
          else (Correct, recordSuccess st identifier ip now s'))"

section \<open>Keys do not meet\<close>

lemma account_keys_distinct [simp]:
  "lock_key i \<noteq> fail_key j" "lock_key i \<noteq> attempt_key j" "lock_key i \<noteq> strike_key j"
  "fail_key i \<noteq> lock_key j" "fail_key i \<noteq> attempt_key j" "fail_key i \<noteq> strike_key j"
  "attempt_key i \<noteq> lock_key j" "attempt_key i \<noteq> fail_key j" "attempt_key i \<noteq> strike_key j"
  "strike_key i \<noteq> lock_key j" "strike_key i \<noteq> fail_key j" "strike_key i \<noteq> attempt_key j"
  "lock_key i \<noteq> ipFail_key j a" "fail_key i \<noteq> ipFail_key j a" "attempt_key i \<noteq> ipFail_key j a"
  "strike_key i \<noteq> ipFail_key j a" "lock_key i \<noteq> ipLock_key j a" "fail_key i \<noteq> ipLock_key j a"
  "attempt_key i \<noteq> ipLock_key j a" "strike_key i \<noteq> ipLock_key j a"
  "ipFail_key i a \<noteq> ipLock_key j b" "ipLock_key i a \<noteq> ipFail_key j b"
  "ipFail_key i a \<noteq> lock_key j" "ipFail_key i a \<noteq> fail_key j" "ipFail_key i a \<noteq> attempt_key j"
  "ipFail_key i a \<noteq> strike_key j" "ipLock_key i a \<noteq> lock_key j" "ipLock_key i a \<noteq> fail_key j"
  "ipLock_key i a \<noteq> attempt_key j" "ipLock_key i a \<noteq> strike_key j"
  by (simp_all add: key_defs)

definition upper_val :: "char \<Rightarrow> nat" where
  "upper_val c = (if is_digit c then digit_val c else of_char c - 55)"

lemma upper_val_hex: "d < 16 \<Longrightarrow> upper_val (upper_hex d) = d"
  by (cases "d < 10") (simp add: upper_val_def upper_hex_def, auto simp: upper_val_def upper_hex_def is_digit_def)

lemma upper_hex_inject: "d < 16 \<Longrightarrow> e < 16 \<Longrightarrow> upper_hex d = upper_hex e \<longleftrightarrow> d = e"
  by (metis upper_val_hex)

lemma percent_byte_inject:
  "n < 256 \<Longrightarrow> m < 256 \<Longrightarrow> percent_byte n @ x = percent_byte m @ y \<longleftrightarrow> n = m \<and> x = y"
  by (auto simp: percent_byte_def upper_hex_inject) (metis div_mult_mod_eq)

lemma uri_unreserved_not_percent: "\<not> uri_unreserved CHR ''%''"
  by (simp add: uri_unreserved_def)

lemma uri_char_inject:
  assumes eq: "uri_char c @ x = uri_char d @ y"
  shows "c = d \<and> x = y"
proof -
  let ?n = "of_char c :: nat" and ?m = "of_char d :: nat"
  have same: "c = d" if "?n = ?m" using that by simp
  have hi: "192 + k div 64 < 256" "128 + k mod 64 < 256" if "k < 256" for k :: nat using that by auto
  show ?thesis
  proof (cases "uri_unreserved c"; cases "uri_unreserved d")
    assume u: "\<not> uri_unreserved c" "\<not> uri_unreserved d"
    show ?thesis
    proof (cases "?n < 128"; cases "?m < 128")
      assume "?n < 128" "?m < 128"
      with u eq percent_byte_inject [of ?n ?m x y] same show ?thesis by (simp add: uri_char_def Let_def)
    next
      assume "?n < 128" "\<not> ?m < 128"
      with u eq percent_byte_inject [of ?n "192 + ?m div 64" x] hi [of ?m] show ?thesis
        by (simp add: uri_char_def Let_def)
    next
      assume "\<not> ?n < 128" "?m < 128"
      with u eq percent_byte_inject [of "192 + ?n div 64" ?m _ y] hi [of ?n] show ?thesis
        by (simp add: uri_char_def Let_def)
    next
      assume "\<not> ?n < 128" "\<not> ?m < 128"
      with u eq percent_byte_inject [of "192 + ?n div 64" "192 + ?m div 64"] hi [of ?n] hi [of ?m]
        percent_byte_inject [of "128 + ?n mod 64" "128 + ?m mod 64" x y]
      have "?n div 64 = ?m div 64" "?n mod 64 = ?m mod 64" "x = y" by (simp_all add: uri_char_def Let_def)
      then show ?thesis using same by (metis div_mult_mod_eq)
    qed
  qed (use eq uri_unreserved_not_percent in \<open>auto simp: uri_char_def Let_def percent_byte_def split: if_splits\<close>)
qed

lemma uri_char_neq_Nil: "uri_char c \<noteq> []"
  by (simp add: uri_char_def percent_byte_def Let_def)

lemma encodeURIComponent_inject: "encodeURIComponent s = encodeURIComponent t \<longleftrightarrow> s = t"
proof (induction s arbitrary: t)
  case Nil
  then show ?case using uri_char_neq_Nil by (cases t) (auto simp: encodeURIComponent_def)
next
  case (Cons c s)
  show ?case
  proof (cases t)
    case Nil
    then show ?thesis using uri_char_neq_Nil by (auto simp: encodeURIComponent_def)
  next
    case t: (Cons d t')
    show ?thesis
      using Cons.IH [of t'] uri_char_inject [of c "encodeURIComponent s" d "encodeURIComponent t'"]
      by (auto simp: t encodeURIComponent_def)
  qed
qed

lemma uri_char_no_colon: "CHR '':'' \<notin> set (uri_char c)"
proof -
  have h: "upper_hex d \<noteq> CHR '':''" if "d < 16" for d
  proof -
    have "of_char (upper_hex d) \<noteq> (58 :: nat)" using that by (auto simp: upper_hex_def digit_char_def)
    moreover have "(of_char CHR '':'' :: nat) = 58" by simp
    ultimately show ?thesis by metis
  qed
  have b: "CHR '':'' \<notin> set (percent_byte n)" if "n < 256" for n
  proof -
    have "n div 16 < 16" "n mod 16 < 16" using that by (simp_all add: less_mult_imp_div_less)
    then show ?thesis using h [of "n div 16"] h [of "n mod 16"] by (auto simp: percent_byte_def)
  qed
  have "(of_char c :: nat) < 256" by simp
  moreover have "192 + k div 64 < 256" "128 + k mod 64 < 256" if "k < 256" for k :: nat using that by auto
  ultimately show ?thesis
    using b [of "of_char c"] b [of "192 + of_char c div 64"] b [of "128 + of_char c mod 64"]
    by (auto simp: uri_char_def uri_unreserved_def Let_def)
qed

lemma enc_no_colon: "CHR '':'' \<notin> set (enc i)"
  using uri_char_no_colon by (auto simp: enc_def encodeURIComponent_def)

lemma enc_inject: "enc i = enc j \<longleftrightarrow> take max_ident_length i = take max_ident_length j"
  by (simp add: enc_def encodeURIComponent_inject)

text \<open>
  The counters of two clients meet only when the client is the same: the key of an identifier
  and an address determines the address and the first 128 characters of the identifier.
\<close>

theorem ip_keys_separate:
  "ipFail_key i a = ipFail_key j b \<longleftrightarrow> take max_ident_length i = take max_ident_length j \<and> a = b"
proof
  assume "ipFail_key i a = ipFail_key j b"
  then have "enc i @ CHR '':'' # a = enc j @ CHR '':'' # b" by (simp add: key_defs)
  from append_sep_inject [OF this enc_no_colon enc_no_colon]
  show "take max_ident_length i = take max_ident_length j \<and> a = b" by (simp add: enc_inject)
qed (simp add: key_defs enc_inject [symmetric])

section \<open>What the handlers do to a store that keeps the contract\<close>

definition until_of :: "cell option \<Rightarrow> time" where
  "until_of c = (case c of
                   None \<Rightarrow> 0
                 | Some c \<Rightarrow> (case js_number (cl_value c) of Some until \<Rightarrow> until | None \<Rightarrow> 0))"

lemma js_number_int_str [simp]: "js_number (int_str n) = Some n"
proof -
  have digit: "is_digit c \<Longrightarrow> \<not> is_space c" for c using is_digit_not_special by blast
  have sp: "\<not> is_space CHR ''-''" by (simp add: is_space_def)
  have nospace: "c \<in> set (int_str n) \<Longrightarrow> \<not> is_space c" for c
    using nat_str_digits digit sp by (auto simp: int_str_def split: if_splits)
  then have "dropWhile is_space (int_str n) = int_str n" "dropWhile is_space (rev (int_str n)) = rev (int_str n)"
    using hd_in_set [of "int_str n"] hd_in_set [of "rev (int_str n)"]
    by (auto simp: dropWhile_eq_self_iff)
  moreover have "list_all is_digit (nat_str m)" for m using nat_str_digits by (auto simp: list_all_iff)
  moreover have "hd (nat_str m) \<noteq> CHR ''-''" "hd (nat_str m) \<noteq> CHR ''+''" for m
    using nat_str_digits [of "hd (nat_str m)" m] is_digit_not_special [of "hd (nat_str m)"]
    by (auto simp: hd_in_set)
  ultimately show ?thesis by (cases "n < 0") (simp_all add: js_number_def Let_def int_str_def)
qed

definition ip_keys :: "string \<Rightarrow> string set" where
  "ip_keys i = range (ipFail_key i) \<union> range (ipLock_key i)"

lemma account_keys_no_ip [simp]:
  "lock_key i \<notin> ip_keys j" "fail_key i \<notin> ip_keys j" "attempt_key i \<notin> ip_keys j" "strike_key i \<notin> ip_keys j"
  by (auto simp: ip_keys_def)

definition lock_cell :: "(string \<Rightarrow> time option \<Rightarrow> int option) \<Rightarrow> time \<Rightarrow> cell" where
  "lock_cell reads until =
     \<lparr>cl_value = int_str until, cl_count = reads (int_str until) (Some until), cl_expires = Some until\<rparr>"

lemma until_lock_cell [simp]: "until_of (Some (lock_cell r u)) = u" "until_of None = 0"
  by (simp_all add: until_of_def lock_cell_def)

lemma alive_lock_cell [simp]: "alive t (lock_cell r u) = (if u \<le> t then None else Some (lock_cell r u))"
  by (simp add: alive_def lock_cell_def)

definition ip_until ::
  "(time \<Rightarrow> 's \<Rightarrow> string \<Rightarrow> cell option) \<Rightarrow> string \<Rightarrow> string option \<Rightarrow> time \<Rightarrow> 's \<Rightarrow> time" where
  "ip_until view i ip now s = (case given_ip ip of None \<Rightarrow> 0 | Some a \<Rightarrow> until_of (view now s (ipLock_key i a)))"

context secondary_storage
begin

lemma lockedUntil_law:
  assumes "ok s"
  obtains s' where "lockedUntil st k now s = (Returned (until_of (view now s k)), s')" "ok s'"
    "\<And>t. now \<le> t \<Longrightarrow> view t s' = view t s"
  using get_law [OF assms, of k now]
  by (auto simp: lockedUntil_def until_of_def intro!: that split: option.splits)

lemma check_prefix:
  assumes "ok s"
  obtains s' where "ok s'" "\<And>t. now \<le> t \<Longrightarrow> view t s' = view t s"
    "check_body st cfg i ip now s =
      (let u = max (until_of (view now s (lock_key i))) (ip_until view i ip now s)
       in if u \<le> now then reserve_slot st cfg i now s'
          else (Returned (locked_for (u - now)
                  (if ip_until view i ip now s \<le> until_of (view now s (lock_key i)) then AccountScope else IpScope)), s'))"
proof -
  obtain s1 where s1: "lockedUntil st (lock_key i) now s = (Returned (until_of (view now s (lock_key i))), s1)"
    "ok s1" "\<And>t. now \<le> t \<Longrightarrow> view t s1 = view t s" by (rule lockedUntil_law [OF assms]) blast
  obtain s2 where s2: "(case given_ip ip of None \<Rightarrow> answer 0 | Some a \<Rightarrow> lockedUntil st (ipLock_key i a) now) s1
      = (Returned (ip_until view i ip now s), s2)" "ok s2" "\<And>t. now \<le> t \<Longrightarrow> view t s2 = view t s"
  proof (cases "given_ip ip")
    case None
    with s1 that [of s1] show ?thesis by (simp add: ip_until_def)
  next
    case (Some a)
    obtain s2 where "lockedUntil st (ipLock_key i a) now s1 = (Returned (until_of (view now s1 (ipLock_key i a))), s2)"
      "ok s2" "\<And>t. now \<le> t \<Longrightarrow> view t s2 = view t s1" by (rule lockedUntil_law [OF s1(2)]) blast
    with s1(3) Some that [of s2] show ?thesis by (simp add: ip_until_def)
  qed
  from s1 s2 that [of s2] show ?thesis by (simp add: check_body_def Let_def)
qed

text \<open>An attempt while a lock runs is refused and leaves no trace.\<close>

lemma check_locked:
  assumes "ok s" and "now < until_of (view now s (lock_key i)) \<or> now < ip_until view i ip now s"
  obtains s' ms reason where "check_lockout st cfg i ip now s = (locked_for ms reason, s')" "ok s'"
    "\<And>t. now \<le> t \<Longrightarrow> view t s' = view t s" "ms = max (until_of (view now s (lock_key i))) (ip_until view i ip now s) - now"
proof -
  obtain s' where s': "ok s'" "\<And>t. now \<le> t \<Longrightarrow> view t s' = view t s"
    and b: "check_body st cfg i ip now s =
      (let u = max (until_of (view now s (lock_key i))) (ip_until view i ip now s)
       in if u \<le> now then reserve_slot st cfg i now s'
          else (Returned (locked_for (u - now)
                  (if ip_until view i ip now s \<le> until_of (view now s (lock_key i)) then AccountScope else IpScope)), s'))"
    by (rule check_prefix [OF assms(1)]) blast
  define u where "u = max (until_of (view now s (lock_key i))) (ip_until view i ip now s)"
  from assms(2) have "\<not> u \<le> now" by (auto simp: u_def)
  then have "check_body st cfg i ip now s = (Returned (locked_for (u - now)
      (if ip_until view i ip now s \<le> until_of (view now s (lock_key i)) then AccountScope else IpScope)), s')"
    using b by (simp only: u_def [symmetric] Let_def if_False)
  then have "check_lockout st cfg i ip now s = (locked_for (u - now)
      (if ip_until view i ip now s \<le> until_of (view now s (lock_key i)) then AccountScope else IpScope), s')"
    by (simp add: check_lockout_def)
  then show ?thesis by (rule that) (use s' in \<open>auto simp: u_def\<close>)
qed

lemma check_open:
  assumes "ok s" and "until_of (view now s (lock_key i)) \<le> now" and "ip_until view i ip now s \<le> now"
    and b: "bumped (view now s (attempt_key i)) (lo_failureWindow cfg) now = (n, x)"
  obtains s' where "check_lockout st cfg i ip now s =
      (if lo_maxFailures cfg < n then locked_for (x - now) AccountScope else unlocked, s')" "ok s'"
    "\<And>t. now \<le> t \<Longrightarrow> view t s' = (view t s)(attempt_key i := alive t (counter_cell n x))"
proof -
  obtain s1 where s1: "ok s1" "\<And>t. now \<le> t \<Longrightarrow> view t s1 = view t s"
    and body: "check_body st cfg i ip now s =
      (let u = max (until_of (view now s (lock_key i))) (ip_until view i ip now s)
       in if u \<le> now then reserve_slot st cfg i now s1
          else (Returned (locked_for (u - now)
                  (if ip_until view i ip now s \<le> until_of (view now s (lock_key i)) then AccountScope else IpScope)), s1))"
    by (rule check_prefix [OF assms(1)]) blast
  have "bumped (view now s1 (attempt_key i)) (lo_failureWindow cfg) now = (n, x)" using b s1(2) by simp
  from incr_law [OF s1(1) this] obtain s2 where s2:
      "st_incr st (attempt_key i) (lo_failureWindow cfg) now s1 = (Returned (n, x), s2)" "ok s2"
      "\<forall>t\<ge>now. view t s2 = (view t s1)(attempt_key i := alive t (counter_cell n x))"
    by blast
  with body assms(2,3) s1(2) that [of s2] show ?thesis
    by (simp add: check_lockout_def Let_def reserve_slot_def)
qed

lemma ip_failure_law:
  assumes "ok s"
  obtains events s' where "ip_failure st cfg i ip now s = (Returned events, s')" "ok s'"
    "\<And>t k. now \<le> t \<Longrightarrow> k \<notin> ip_keys i \<Longrightarrow> view t s' k = view t s k"
proof (cases "given_ip ip")
  case None
  with assms that [of "[]" s] show ?thesis by (simp add: ip_failure_def)
next
  case (Some a)
  have mine: "ipFail_key i a \<in> ip_keys i" "ipLock_key i a \<in> ip_keys i" by (auto simp: ip_keys_def)
  obtain n x where "bumped (view now s (ipFail_key i a)) (lo_failureWindow cfg) now = (n, x)"
    by (cases "bumped (view now s (ipFail_key i a)) (lo_failureWindow cfg) now")
  from incr_law [OF assms this] obtain s1 where s1:
      "st_incr st (ipFail_key i a) (lo_failureWindow cfg) now s = (Returned (n, x), s1)" "ok s1"
      "\<forall>t\<ge>now. view t s1 = (view t s)(ipFail_key i a := alive t (counter_cell n x))"
    by blast
  show ?thesis
  proof (cases "0 < n - lo_grace cfg")
    case True
    let ?seconds = "delay_length cfg (n - lo_grace cfg)"
    from set_law [OF s1(2), of "ipLock_key i a" "int_str (now + ?seconds * 1000)" "Some ?seconds" now]
    obtain s2 where s2: "st_set st (ipLock_key i a) (int_str (now + ?seconds * 1000)) (Some ?seconds) now s1 = (Returned (), s2)"
      "ok s2" "\<And>t k. now \<le> t \<Longrightarrow> k \<noteq> ipLock_key i a \<Longrightarrow> view t s2 k = view t s1 k" by auto
    have "view t s2 k = view t s k" if "now \<le> t" "k \<notin> ip_keys i" for t k
    proof -
      have "k \<noteq> ipLock_key i a" "k \<noteq> ipFail_key i a" using that mine by auto
      with s2(3) [OF that(1)] s1(3) that(1) show ?thesis by simp
    qed
    with that [OF _ s2(2)] Some s1 s2(1) True show ?thesis by (simp add: ip_failure_def Let_def)
  next
    case False
    have "view t s1 k = view t s k" if "now \<le> t" "k \<notin> ip_keys i" for t k
    proof -
      have "k \<noteq> ipFail_key i a" using that mine by auto
      with s1(3) that(1) show ?thesis by simp
    qed
    with that [OF _ s1(2)] Some s1 False show ?thesis by (simp add: ip_failure_def Let_def)
  qed
qed

text \<open>A failure below or beyond the threshold only counts.\<close>

lemma recordFailure_counts:
  assumes "ok s" and b: "bumped (view now s (fail_key i)) (lo_failureWindow cfg) now = (n, x)"
    and "n \<noteq> lo_maxFailures cfg"
  obtains events s' where "recordFailure st cfg i ip now s = (events, s')" "ok s'"
    "\<And>t k. now \<le> t \<Longrightarrow> k \<notin> ip_keys i \<Longrightarrow>
       view t s' k = ((view t s)(fail_key i := alive t (counter_cell n x))) k"
proof -
  from incr_law [OF assms(1) b] obtain s1 where s1:
      "st_incr st (fail_key i) (lo_failureWindow cfg) now s = (Returned (n, x), s1)" "ok s1"
      "\<forall>t\<ge>now. view t s1 = (view t s)(fail_key i := alive t (counter_cell n x))" by blast
  obtain events s2 where s2: "ip_failure st cfg i ip now s1 = (Returned events, s2)" "ok s2"
    "\<And>t k. now \<le> t \<Longrightarrow> k \<notin> ip_keys i \<Longrightarrow> view t s2 k = view t s1 k"
    by (rule ip_failure_law [OF s1(2)]) blast
  have "recordFailure st cfg i ip now s = (events, s2)"
    using s1(1) s2(1) assms(3) by (simp add: recordFailure_def account_failure_def)
  then show ?thesis by (rule that) (use s1(3) s2(2,3) in auto)
qed

text \<open>The failure that reaches the threshold locks the account and clears its counters.\<close>

lemma recordFailure_locks:
  assumes "ok s" and b: "bumped (view now s (fail_key i)) (lo_failureWindow cfg) now = (lo_maxFailures cfg, x)"
    and level: "bumped (view now s (strike_key i)) (lo_strikeWindow cfg) now = (n, y)"
    and until: "until = now + lock_length cfg n * 1000"
  obtains events s' where "recordFailure st cfg i ip now s = (events, s')" "ok s'"
    "\<And>t k. now \<le> t \<Longrightarrow> k \<notin> ip_keys i \<Longrightarrow>
       view t s' k = ((view t s)(strike_key i := alive t (counter_cell n y), fail_key i := None,
                                 attempt_key i := None, lock_key i := alive t (lock_cell reads until))) k"
proof -
  from incr_law [OF assms(1) b] obtain s1 where s1:
      "st_incr st (fail_key i) (lo_failureWindow cfg) now s = (Returned (lo_maxFailures cfg, x), s1)" "ok s1"
      "\<forall>t\<ge>now. view t s1 = (view t s)(fail_key i := alive t (counter_cell (lo_maxFailures cfg) x))" by blast
  have "bumped (view now s1 (strike_key i)) (lo_strikeWindow cfg) now = (n, y)" using level s1(3) by simp
  from incr_law [OF s1(2) this] obtain s2 where s2:
      "st_incr st (strike_key i) (lo_strikeWindow cfg) now s1 = (Returned (n, y), s2)" "ok s2"
      "\<forall>t\<ge>now. view t s2 = (view t s1)(strike_key i := alive t (counter_cell n y))" by blast
  from delete_law [OF s2(2), of "fail_key i" now] obtain s3 where s3:
      "st_delete st (fail_key i) now s2 = (Returned (), s3)" "ok s3"
      "\<forall>t\<ge>now. view t s3 = (view t s2)(fail_key i := None)" by blast
  from delete_law [OF s3(2), of "attempt_key i" now] obtain s4 where s4:
      "st_delete st (attempt_key i) now s3 = (Returned (), s4)" "ok s4"
      "\<forall>t\<ge>now. view t s4 = (view t s3)(attempt_key i := None)" by blast
  from set_law [OF s4(2), of "lock_key i" "int_str until" "Some (lock_length cfg n)" now] obtain s5 where s5:
      "st_set st (lock_key i) (int_str until) (Some (lock_length cfg n)) now s4 = (Returned (), s5)" "ok s5"
      "\<forall>t\<ge>now. view t s5 = (view t s4)(lock_key i := alive t (lock_cell reads until))"
    by (auto simp: lock_cell_def until)
  obtain events s6 where s6: "ip_failure st cfg i ip now s5 = (Returned events, s6)" "ok s6"
    "\<And>t k. now \<le> t \<Longrightarrow> k \<notin> ip_keys i \<Longrightarrow> view t s6 k = view t s5 k"
    by (rule ip_failure_law [OF s5(2)]) blast
  define event where "event = \<lparr>le_identifier = i, le_scope = AccountScope, le_ip = ip,
    le_failures = lo_maxFailures cfg, le_level = n, le_until = until\<rparr>"
  have "account_failure st cfg i ip now s = (Returned [event], s5)"
    using s1(1) s2(1) s3(1) s4(1) s5(1) by (simp add: account_failure_def Let_def until [symmetric] event_def)
  then have "recordFailure st cfg i ip now s = (event # events, s6)"
    using s6(1) by (simp add: recordFailure_def)
  then show ?thesis
    by (rule that) (use s1(3) s2(3) s3(3) s4(3) s5(3) s6(2,3) in auto)
qed

end

section \<open>How many guesses\<close>

text \<open>Wrong passwords tried one after the other, each from an address and at an instant.\<close>

fun wrong_guesses ::
  "'s storage \<Rightarrow> lockout_settings \<Rightarrow> string \<Rightarrow> (string option \<times> time) list \<Rightarrow> 's \<Rightarrow> password_outcome list \<times> 's" where
  "wrong_guesses st cfg i [] s = ([], s)"
| "wrong_guesses st cfg i ((ip, now) # gs) s =
     (case password_step st cfg i ip False now s of
        (out, s') \<Rightarrow> (case wrong_guesses st cfg i gs s' of (outs, s'') \<Rightarrow> (out # outs, s'')))"

text \<open>How often the password was looked at.\<close>

definition looked_at :: "password_outcome list \<Rightarrow> nat" where
  "looked_at outs = length (filter (\<lambda>out. out = Wrong) outs)"

lemma lock_length_bounds:
  "settings_ok cfg \<Longrightarrow> 1 \<le> n \<Longrightarrow> lo_lockSeconds cfg \<le> lock_length cfg n \<and> lock_length cfg n \<le> lo_maxLockSeconds cfg"
  by (simp add: settings_ok_def lock_length_def)

lemma lock_length_mono: "settings_ok cfg \<Longrightarrow> 1 \<le> n \<Longrightarrow> n \<le> m \<Longrightarrow> lock_length cfg n \<le> lock_length cfg m"
  unfolding lock_length_def settings_ok_def
  by (intro min.mono mult_left_mono power_increasing nat_mono) auto

text \<open>
  The time between the starts of two generations of counters: a generation ends when its counters
  lapse or when the lock it led to does.
\<close>

definition guess_span :: "lockout_settings \<Rightarrow> int" where
  "guess_span cfg = min (lo_failureWindow cfg) (lo_lockSeconds cfg) * 1000"

definition strikes_ok :: "cell option \<Rightarrow> bool" where
  "strikes_ok c \<longleftrightarrow> (\<forall>d n. c = Some d \<longrightarrow> cl_count d = Some n \<longrightarrow> 0 \<le> n)"

text \<open>
  After \<open>k\<close> guesses of the current generation, when the next one cannot start before \<open>b\<close>: below the
  threshold both counters hold \<open>k\<close> until some instant from \<open>b\<close> on; at the threshold they are gone, and
  before \<open>b\<close> the account is locked.
\<close>

definition guess_inv ::
  "(time \<Rightarrow> 's \<Rightarrow> string \<Rightarrow> cell option) \<Rightarrow> (string \<Rightarrow> time option \<Rightarrow> int option) \<Rightarrow> lockout_settings \<Rightarrow>
   string \<Rightarrow> time \<Rightarrow> nat \<Rightarrow> time \<Rightarrow> 's \<Rightarrow> bool" where
  "guess_inv view reads cfg i b k t s \<longleftrightarrow>
     strikes_ok (view t s (strike_key i)) \<and> b \<le> t + guess_span cfg
     \<and> (if int k < lo_maxFailures cfg
        then view t s (lock_key i) = None
             \<and> (\<exists>x\<ge>b. view t s (attempt_key i) = Some (counter_cell (int k) x)
                  \<and> view t s (fail_key i) = Some (counter_cell (int k) x))
        else int k = lo_maxFailures cfg \<and> view t s (attempt_key i) = None \<and> view t s (fail_key i) = None
             \<and> (if view t s (lock_key i) = None then b \<le> t
                else \<exists>u\<ge>b. t < u \<and> view t s (lock_key i) = Some (lock_cell reads u)))"

lemma strikes_ok_bumped: "strikes_ok c \<Longrightarrow> bumped c w now = (n, x) \<Longrightarrow> 1 \<le> n"
  by (auto simp: strikes_ok_def bumped_def split: option.splits)

lemma strikes_ok_counter: "1 \<le> n \<Longrightarrow> strikes_ok (alive t (counter_cell n x))"
  by (auto simp: strikes_ok_def counter_cell_def alive_def)

lemma bumped_counter_cell [simp]: "bumped (Some (counter_cell n x)) w now = (n + 1, x)"
  by (simp add: bumped_def counter_cell_def)

lemma guess_inv_max: "guess_inv view reads cfg i b k t s \<Longrightarrow> int k \<le> lo_maxFailures cfg"
  by (auto simp: guess_inv_def split: if_splits)

lemma guess_span_bound:
  assumes "settings_ok cfg" and "1 \<le> n"
  shows "guess_span cfg \<le> lock_length cfg n * 1000" "guess_span cfg \<le> lo_failureWindow cfg * 1000"
proof -
  have "min (lo_failureWindow cfg) (lo_lockSeconds cfg) \<le> lock_length cfg n"
    using lock_length_bounds [OF assms] by linarith
  then show "guess_span cfg \<le> lock_length cfg n * 1000" by (simp add: guess_span_def)
qed (simp add: guess_span_def)

context secondary_storage
begin

text \<open>Time passes: the generation goes on, or it is over and its guesses count as spent.\<close>

lemma guess_inv_later:
  assumes "ok s" and inv: "guess_inv view reads cfg i b k t s" and "t \<le> u" and "settings_ok cfg"
  obtains k' where "k \<le> k'" "guess_inv view reads cfg i b k' u s"
proof -
  have strikes: "strikes_ok (view u s (strike_key i))"
    using inv view_gone [OF assms(1,3)] view_stays [OF assms(1,3)]
    by (cases "view t s (strike_key i)") (auto simp: guess_inv_def strikes_ok_def dest!: alive_SomeD)
  have b: "b \<le> u + guess_span cfg" using inv assms(3) by (simp add: guess_inv_def)
  have max: "int (nat (lo_maxFailures cfg)) = lo_maxFailures cfg" using assms(4) by (simp add: settings_ok_def)
  show ?thesis
  proof (cases "int k < lo_maxFailures cfg")
    case True
    then obtain x where x: "b \<le> x" "view t s (lock_key i) = None"
      "view t s (attempt_key i) = Some (counter_cell (int k) x)" "view t s (fail_key i) = Some (counter_cell (int k) x)"
      using inv by (auto simp: guess_inv_def)
    note at_u = view_gone [OF assms(1,3) x(2)] view_stays [OF assms(1,3) x(3)] view_stays [OF assms(1,3) x(4)]
    show ?thesis
    proof (cases "u < x")
      case True
      then show ?thesis using that [of k] at_u x(1) strikes b \<open>int k < _\<close> by (auto simp: guess_inv_def)
    next
      case False
      then have "guess_inv view reads cfg i b (nat (lo_maxFailures cfg)) u s"
        using at_u x(1) strikes b max by (simp add: guess_inv_def)
      with that [of "nat (lo_maxFailures cfg)"] \<open>int k < _\<close> show ?thesis by simp
    qed
  next
    case False
    then have gone: "int k = lo_maxFailures cfg" "view u s (attempt_key i) = None" "view u s (fail_key i) = None"
      using inv view_gone [OF assms(1,3)] by (auto simp: guess_inv_def)
    have lock: "if view u s (lock_key i) = None then b \<le> u
        else \<exists>x\<ge>b. u < x \<and> view u s (lock_key i) = Some (lock_cell reads x)"
    proof (cases "view t s (lock_key i)")
      case None
      then show ?thesis using view_gone [OF assms(1,3) None] inv False assms(3) by (simp add: guess_inv_def)
    next
      case (Some c)
      then obtain x where x: "b \<le> x" "c = lock_cell reads x" using inv False by (auto simp: guess_inv_def)
      show ?thesis using view_stays [OF assms(1,3) Some] x by auto
    qed
    show ?thesis by (rule that [of k]) (use gone lock strikes b False in \<open>simp_all add: guess_inv_def\<close>)
  qed
qed

text \<open>The step of a guess that finds no lock, with the counters at \<open>c\<close>.\<close>

lemma guess_step_open:
  assumes "ok s" and c: "view now s (attempt_key i) = c" "view now s (fail_key i) = c" "view now s (lock_key i) = None"
    and bump: "bumped c (lo_failureWindow cfg) now = (int k, x)" "int k \<le> lo_maxFailures cfg" "now < x" "b \<le> x"
    and b: "b \<le> now + guess_span cfg" and strikes: "strikes_ok (view now s (strike_key i))" and cfg: "settings_ok cfg"
    and ip: "ip_until view i ip now s \<le> now" and "0 \<le> now"
  obtains s' where "password_step st cfg i ip False now s = (Wrong, s')" "ok s'"
    "guess_inv view reads cfg i b k now s'"
proof -
  have slot: "bumped (view now s (attempt_key i)) (lo_failureWindow cfg) now = (int k, x)" using bump(1) c(1) by simp
  have "until_of (view now s (lock_key i)) \<le> now" using c(3) assms(13) by simp
  from check_open [OF assms(1) this ip slot] bump(2) obtain s1 where
      s1: "check_lockout st cfg i ip now s = (unlocked, s1)" "ok s1"
        "\<And>t. now \<le> t \<Longrightarrow> view t s1 = (view t s)(attempt_key i := alive t (counter_cell (int k) x))"
    by auto
  have y: "bumped (view now s1 (fail_key i)) (lo_failureWindow cfg) now = (int k, x)" using bump(1) c(2) s1(3) by simp
  have step: "password_step st cfg i ip False now s = (Wrong, snd (recordFailure st cfg i ip now s1))"
    using s1(1) by (simp add: password_step_def unlocked_def)
  show ?thesis
  proof (cases "int k = lo_maxFailures cfg")
    case False
    from recordFailure_counts [OF s1(2) y False, of ip] obtain ev s2 where
        s2: "recordFailure st cfg i ip now s1 = (ev, s2)" "ok s2"
          "\<And>t key. now \<le> t \<Longrightarrow> key \<notin> ip_keys i \<Longrightarrow>
             view t s2 key = ((view t s1)(fail_key i := alive t (counter_cell (int k) x))) key"
      by blast
    have "guess_inv view reads cfg i b k now s2"
      using c b strikes s1(3) s2(3) bump(2-4) False by (auto simp: guess_inv_def)
    with step s2 that show ?thesis by simp
  next
    case True
    obtain n z where n: "bumped (view now s1 (strike_key i)) (lo_strikeWindow cfg) now = (n, z)"
      by (cases "bumped (view now s1 (strike_key i)) (lo_strikeWindow cfg) now")
    have n1: "1 \<le> n" using strikes_ok_bumped [of "view now s1 (strike_key i)"] n strikes s1(3) by auto
    define until where "until = now + lock_length cfg n * 1000"
    have until: "b \<le> until" "now < until"
      using b guess_span_bound(1) [OF cfg n1] lock_length_bounds [OF cfg n1] cfg
      by (auto simp: until_def settings_ok_def)
    from y True have y': "bumped (view now s1 (fail_key i)) (lo_failureWindow cfg) now = (lo_maxFailures cfg, x)" by simp
    from recordFailure_locks [OF s1(2) y' n until_def, of ip] obtain ev s2 where
        s2: "recordFailure st cfg i ip now s1 = (ev, s2)" "ok s2"
          "\<And>t key. now \<le> t \<Longrightarrow> key \<notin> ip_keys i \<Longrightarrow>
             view t s2 key = ((view t s1)(strike_key i := alive t (counter_cell n z), fail_key i := None,
                                attempt_key i := None, lock_key i := alive t (lock_cell reads until))) key"
      by blast
    have "guess_inv view reads cfg i b k now s2"
      using b until True strikes_ok_counter [OF n1, of now z] s2(3) [of now]
      by (auto simp: guess_inv_def simp del: alive_counter)
    with step s2 that show ?thesis by simp
  qed
qed

lemma guess_step_shut:
  assumes "ok s" and inv: "guess_inv view reads cfg i b k now s"
    and "view now s (lock_key i) \<noteq> None \<or> now < ip_until view i ip now s"
  obtains m r s' where "password_step st cfg i ip False now s = (LockedOut m r, s')" "ok s'"
    "guess_inv view reads cfg i b k now s'"
proof -
  have "now < until_of (view now s (lock_key i)) \<or> now < ip_until view i ip now s"
    using inv assms(3) by (auto simp: guess_inv_def split: if_splits)
  from check_locked [OF assms(1) this] obtain s' ms reason where
      c: "check_lockout st cfg i ip now s = (locked_for ms reason, s')" "ok s'" "view now s' = view now s"
    by (metis order_refl)
  have "password_step st cfg i ip False now s = (LockedOut (max 1 (ceil_seconds ms)) reason, s')"
    using c(1) by (simp add: password_step_def locked_for_def)
  then show ?thesis by (rule that) (use c inv in \<open>auto simp: guess_inv_def\<close>)
qed

text \<open>
  One guess that is looked at: the next of its generation, or the first of a new one, which starts
  no earlier than \<open>b\<close> and bars the next for another span.
\<close>

lemma guess_step:
  assumes "ok s" and inv: "guess_inv view reads cfg i b k now s" and cfg: "settings_ok cfg" and "0 \<le> now"
    and open_lock: "view now s (lock_key i) = None" and ip: "ip_until view i ip now s \<le> now"
  obtains s' b' k' where "password_step st cfg i ip False now s = (Wrong, s')" "ok s'"
    "guess_inv view reads cfg i b' k' now s'"
    "b' = b \<and> k' = Suc k \<or> b \<le> now \<and> b' = now + guess_span cfg \<and> k' = 1 \<and> int k = lo_maxFailures cfg"
proof (cases "int k < lo_maxFailures cfg")
  case True
  then obtain x where x: "b \<le> x" "view now s (attempt_key i) = Some (counter_cell (int k) x)"
    "view now s (fail_key i) = Some (counter_cell (int k) x)" using inv by (auto simp: guess_inv_def)
  have "now < x" using view_stays [OF assms(1) order_refl x(2)] x(2) by (simp split: if_splits)
  with x True inv obtain s' where "password_step st cfg i ip False now s = (Wrong, s')" "ok s'"
      "guess_inv view reads cfg i b (Suc k) now s'"
    using guess_step_open [OF assms(1) x(2,3) open_lock, of cfg "Suc k" x b ip] cfg ip assms(4)
    by (auto simp: guess_inv_def)
  then show ?thesis by (rule that) simp
next
  case False
  then have i: "int k = lo_maxFailures cfg" "b \<le> now" "view now s (attempt_key i) = None" "view now s (fail_key i) = None"
    "strikes_ok (view now s (strike_key i))"
    using inv open_lock by (auto simp: guess_inv_def)
  have "1 \<le> lo_maxFailures cfg" "now < now + lo_failureWindow cfg * 1000" using cfg by (auto simp: settings_ok_def)
  with i cfg ip assms(4) obtain s' where "password_step st cfg i ip False now s = (Wrong, s')" "ok s'"
      "guess_inv view reads cfg i (now + guess_span cfg) 1 now s'"
    using guess_step_open [OF assms(1) i(3,4) open_lock, of cfg 1 "now + lo_failureWindow cfg * 1000" "now + guess_span cfg" ip]
      guess_span_bound(2) [OF cfg order_refl]
    by auto
  then show ?thesis by (rule that) (use i in simp)
qed

lemma guess_span_pos: "settings_ok cfg \<Longrightarrow> 0 < guess_span cfg"
  by (simp add: settings_ok_def guess_span_def)

lemma wrong_guesses_bound:
  assumes "ok s" and "guess_inv view reads cfg i b k t s" and cfg: "settings_ok cfg"
    and "sorted (t # map snd gs)" "\<forall>g\<in>set gs. snd g < b + int n * guess_span cfg" "0 \<le> t"
  shows "int (k + looked_at (fst (wrong_guesses st cfg i gs s))) \<le> int (Suc n) * lo_maxFailures cfg"
  using assms(1,2,4-6)
proof (induction gs arbitrary: s k t b n)
  case Nil
  have "0 \<le> int n * lo_maxFailures cfg" using cfg by (simp add: settings_ok_def)
  with guess_inv_max [OF Nil.prems(2)] show ?case by (simp add: looked_at_def distrib_right add_increasing2)
next
  case (Cons g gs)
  obtain ip now where g: "g = (ip, now)" by (cases g)
  from Cons.prems g have now: "t \<le> now" "sorted (now # map snd gs)" "now < b + int n * guess_span cfg" "0 \<le> now"
    "\<forall>g\<in>set gs. snd g < b + int n * guess_span cfg" by auto
  obtain k1 where k1: "k \<le> k1" "guess_inv view reads cfg i b k1 now s"
    by (rule guess_inv_later [OF Cons.prems(1,2) now(1) cfg])
  show ?case
  proof (cases "view now s (lock_key i) \<noteq> None \<or> now < ip_until view i ip now s")
    case True
    obtain m r s' where s': "password_step st cfg i ip False now s = (LockedOut m r, s')" "ok s'"
        "guess_inv view reads cfg i b k1 now s'"
      by (rule guess_step_shut [OF Cons.prems(1) k1(2) True])
    from Cons.IH [OF s'(2,3) now(2,5,4)] k1(1) s'(1) show ?thesis
      by (simp add: g looked_at_def case_prod_beta)
  next
    case False
    then obtain s' b' k' where s': "password_step st cfg i ip False now s = (Wrong, s')" "ok s'"
        "guess_inv view reads cfg i b' k' now s'"
        "b' = b \<and> k' = Suc k1 \<or> b \<le> now \<and> b' = now + guess_span cfg \<and> k' = 1 \<and> int k1 = lo_maxFailures cfg"
      using guess_step [OF Cons.prems(1) k1(2) cfg now(4), of ip] by (metis not_less)
    have out: "looked_at (fst (wrong_guesses st cfg i (g # gs) s)) = Suc (looked_at (fst (wrong_guesses st cfg i gs s')))"
      by (simp add: g s'(1) looked_at_def case_prod_beta)
    from s'(4) show ?thesis
    proof (elim disjE conjE)
      assume "b' = b" "k' = Suc k1"
      with Cons.IH [OF s'(2,3) now(2) _ now(4), of n] now(5) k1(1) show ?thesis unfolding out by simp
    next
      assume new: "b \<le> now" "b' = now + guess_span cfg" "k' = 1" "int k1 = lo_maxFailures cfg"
      have "n \<noteq> 0" using now(3) new(1) by (cases n) auto
      then obtain n' where n: "n = Suc n'" by (cases n) auto
      have "\<forall>g\<in>set gs. snd g < b' + int n' * guess_span cfg"
        using now(5) new(1,2) by (fastforce simp: n distrib_right)
      from Cons.IH [OF s'(2,3) now(2) this now(4)] new(3,4) k1(1) show ?thesis
        unfolding out by (simp add: n distrib_right)
    qed
  qed
qed

end

text \<open>An admin's \<open>unlock\<close>: every key of the account and of its addresses is gone.\<close>

context secondary_storage
begin

lemma delete_keys_law:
  "ok s \<Longrightarrow> \<exists>s'. delete_keys st ks now s = (Returned (), s') \<and> ok s'
     \<and> (\<forall>t\<ge>now. \<forall>k. view t s' k = (if k \<in> set ks then None else view t s k))"
proof (induction ks arbitrary: s)
  case (Cons k ks)
  from delete_law [OF Cons.prems, of k now] obtain s1 where s1:
      "st_delete st k now s = (Returned (), s1)" "ok s1" "\<forall>t\<ge>now. view t s1 = (view t s)(k := None)" by blast
  from Cons.IH [OF s1(2)] s1(1,3) show ?case by auto
qed auto

lemma listed_gone:
  assumes "ok s" and "st_list st = Some ls"
  obtains ks s1 s2 where "ls p now s = (Returned ks, s1)" "delete_keys st ks now s1 = (Returned (), s2)" "ok s2"
    "\<And>k. starts_with p k \<Longrightarrow> view now s2 k = None"
    "\<And>t k. now \<le> t \<Longrightarrow> view t s k = None \<Longrightarrow> view t s2 k = None"
proof -
  from list_law [OF assms, of p now] obtain ks s1 where l: "ls p now s = (Returned ks, s1)" "ok s1"
      "\<forall>t\<ge>now. view t s1 = view t s" "set ks = {k. starts_with p k \<and> view now s k \<noteq> None}" by blast
  from delete_keys_law [OF l(2), of ks now] obtain s2 where d: "delete_keys st ks now s1 = (Returned (), s2)" "ok s2"
      "\<forall>t\<ge>now. \<forall>k. view t s2 k = (if k \<in> set ks then None else view t s1 k)" by blast
  show ?thesis by (rule that [OF l(1) d(1,2)]) (use l(3,4) d(3) in auto)
qed

lemma unlock_opens:
  assumes "ok s" and "st_list st = Some ls" and "settings_ok cfg" and "0 \<le> now"
  shows "\<exists>s'. unlock st i now s = (Returned (), s') \<and> fst (check_lockout st cfg i ip now s') = unlocked"
proof -
  let ?account = "[lock_key i, fail_key i, attempt_key i, strike_key i]"
  from delete_keys_law [OF assms(1), of ?account now] obtain s1 where s1:
      "delete_keys st ?account now s = (Returned (), s1)" "ok s1"
      "\<forall>t\<ge>now. \<forall>k. view t s1 k = (if k \<in> set ?account then None else view t s k)" by blast
  obtain ks s2 s3 where s3: "ls (ip_fail_prefix i) now s1 = (Returned ks, s2)"
      "delete_keys st ks now s2 = (Returned (), s3)" "ok s3"
      "\<And>t k. now \<le> t \<Longrightarrow> view t s1 k = None \<Longrightarrow> view t s3 k = None"
    by (rule listed_gone [OF s1(2) assms(2)]) blast
  obtain ks' s4 s5 where s5: "ls (ip_lock_prefix i) now s3 = (Returned ks', s4)"
      "delete_keys st ks' now s4 = (Returned (), s5)" "ok s5"
      "\<And>k. starts_with (ip_lock_prefix i) k \<Longrightarrow> view now s5 k = None"
      "\<And>t k. now \<le> t \<Longrightarrow> view t s3 k = None \<Longrightarrow> view t s5 k = None"
    by (rule listed_gone [OF s3(3) assms(2)]) blast
  have u: "unlock st i now s = (Returned (), s5)"
    unfolding unlock_def
    using s1(1) assms(2) s3(1,2) s5(1,2) by (simp del: delete_keys.simps)
  have none: "view now s5 (lock_key i) = None" "view now s5 (attempt_key i) = None"
    using s1(3) s3(4) s5(5) by auto
  have "ip_until view i ip now s5 = 0"
    using s5(4) by (auto simp: ip_until_def ipLock_key_def split: option.splits)
  with none assms(4) have "until_of (view now s5 (lock_key i)) \<le> now" "ip_until view i ip now s5 \<le> now" by auto
  moreover have "bumped (view now s5 (attempt_key i)) (lo_failureWindow cfg) now = (1, now + lo_failureWindow cfg * 1000)"
    by (simp add: none)
  ultimately obtain s6 where "check_lockout st cfg i ip now s5 = (unlocked, s6)"
    using assms(3) by (auto simp: settings_ok_def elim!: check_open [OF s5(3)])
  with u show ?thesis by auto
qed

end

section \<open>On the memory store\<close>

definition no_trace :: "string \<Rightarrow> time \<Rightarrow> memory \<Rightarrow> bool" where
  "no_trace i t m \<longleftrightarrow>
     list_all (\<lambda>k. memory_view t m k = None) [lock_key i, attempt_key i, fail_key i, strike_key i]"

text \<open>
  C13: However long an attacker tries wrong passwords for an account that starts without a trace, one
  after the other and from any addresses, the password is looked at no more than \<open>maxFailures\<close> times
  per span, the span being the failure window or the first lock, whichever is shorter: within \<open>n\<close>
  spans, across any number of expired counters and lapsed locks, no more than \<open>n\<close> times \<open>maxFailures\<close>.
  The counters are those of the memory store, and no correct sign-in clears them in between. Attempts
  that overlap escape the bound (\<open>burst_exceeds\<close>).
\<close>

theorem guess_bound:
  assumes "lockout_settings_of config environment = Inr cfg"
    and "memory_ok m" and "no_trace i t m" and "0 \<le> t" and "sorted (t # map snd gs)"
    and "\<forall>g\<in>set gs. snd g < t + int n * (min (lo_failureWindow cfg) (lo_lockSeconds cfg) * 1000)"
  shows "int (looked_at (fst (wrong_guesses memoryStorage cfg i gs m))) \<le> int n * lo_maxFailures cfg"
proof -
  have cfg: "settings_ok cfg" by (rule lockout_settings_ok [OF assms(1)])
  have "guess_inv memory_view memory_reads cfg i t (nat (lo_maxFailures cfg)) t m"
    using assms(3) cfg by (auto simp: guess_inv_def guess_span_def settings_ok_def strikes_ok_def no_trace_def)
  from mem.wrong_guesses_bound [OF assms(2) this cfg assms(5) _ assms(4), of n] assms(6) cfg show ?thesis
    by (simp add: guess_span_def settings_ok_def distrib_right)
qed

definition default_config :: lockout_config where
  "default_config =
     \<lparr>lc_maxFailures = None, lc_failureWindowSeconds = None, lc_lockoutSeconds = None,
      lc_maxLockoutSeconds = None, lc_strikeWindowSeconds = None, lc_graceFailures = None,
      lc_baseDelaySeconds = None, lc_maxDelaySeconds = None, lc_failClosed = None\<rparr>"

definition default_lockout :: lockout_settings where
  "default_lockout =
     \<lparr>lo_maxFailures = 10, lo_failureWindow = 900, lo_lockSeconds = 900, lo_maxLockSeconds = 3600,
      lo_strikeWindow = 86400, lo_grace = 3, lo_baseDelay = 1, lo_maxDelay = 900, lo_failClosed = False\<rparr>"

lemma default_lockout: "lockout_settings_of default_config (\<lambda>_. None) = Inr default_lockout"
  by (simp add: lockout_settings_of_def default_config_def default_lockout_def positive_def sum_bind_def env_text_def)

lemma default_lockout_ok: "settings_ok default_lockout"
  by (rule lockout_settings_ok [OF default_lockout])

theorem guess_bound_witness:
  "int (looked_at (fst (wrong_guesses memoryStorage default_lockout ''eve''
     (map (\<lambda>n. (None, int n * 60000)) [0..<30]) empty_memory))) \<le> 20"
proof -
  have "int (looked_at (fst (wrong_guesses memoryStorage default_lockout ''eve''
     (map (\<lambda>n. (None, int n * 60000)) [0..<30]) empty_memory))) \<le> int 2 * lo_maxFailures default_lockout"
    by (rule guess_bound [OF default_lockout, where t = 0])
       (auto simp: default_lockout_def no_trace_def sorted_iff_nth_mono)
  then show ?thesis by (simp add: default_lockout_def)
qed

text \<open>
  While an account is locked every attempt is refused, the right password too, and the store
  shows nothing of it: the lock does not extend itself.
\<close>

theorem locked_attempt_inert:
  assumes "memory_ok m" and "memory_view now m (lock_key i) = Some (lock_cell memory_reads until)" and "now < until"
    and "password_step memoryStorage cfg i ip valid now m = (out, m')" and "now \<le> t"
  shows "(\<exists>seconds reason. out = LockedOut seconds reason \<and> 1 \<le> seconds) \<and> memory_view t m' = memory_view t m"
proof -
  have "now < until_of (memory_view now m (lock_key i)) \<or> now < ip_until memory_view i ip now m"
    using assms(2,3) by simp
  from mem.check_locked [OF assms(1) this] obtain s' ms reason where
      "check_lockout memoryStorage cfg i ip now m = (locked_for ms reason, s')" "\<And>t. now \<le> t \<Longrightarrow> memory_view t s' = memory_view t m"
    by metis
  with assms(4,5) show ?thesis by (auto simp: password_step_def locked_for_def)
qed

definition locked_memory :: memory where
  "locked_memory =
     \<lparr>ms_entries = [(lock_key ''eve'', \<lparr>sv_value = int_str 5000, sv_expiresAt = Some 5000\<rparr>)], ms_ops = 0\<rparr>"

lemma locked_memory_facts:
  "memory_ok locked_memory" "memory_view 0 locked_memory (lock_key ''eve'') = Some (lock_cell memory_reads 5000)"
  by (simp_all add: memory_ok_def locked_memory_def memory_view_def memory_cell_def lock_cell_def alive_def)

theorem locked_attempt_inert_witness:
  "memory_view 0 (snd (password_step memoryStorage default_lockout ''eve'' None True 0 locked_memory))
   = memory_view 0 locked_memory"
  using locked_attempt_inert [OF locked_memory_facts, of default_lockout None True
      "fst (password_step memoryStorage default_lockout ''eve'' None True 0 locked_memory)"
      "snd (password_step memoryStorage default_lockout ''eve'' None True 0 locked_memory)" 0]
  by simp

text \<open>After \<open>unlock\<close> the account is open at once, from every address.\<close>

theorem unlock_takes_effect:
  assumes "memory_ok m" and "settings_ok cfg" and "0 \<le> now"
  shows "\<exists>m'. unlock memoryStorage i now m = (Returned (), m')
    \<and> fst (check_lockout memoryStorage cfg i ip now m') = unlocked"
  by (rule mem.unlock_opens [OF assms(1) _ assms(2,3)]) (simp add: memoryStorage_def)

theorem unlock_takes_effect_witness:
  "\<exists>m'. unlock memoryStorage ''eve'' 0 locked_memory = (Returned (), m')
    \<and> fst (check_lockout memoryStorage default_lockout ''eve'' (Some ''1.2.3.4'') 0 m') = unlocked"
  by (rule unlock_takes_effect [OF locked_memory_facts(1) default_lockout_ok]) simp

text \<open>
  A store that throws: the attempt passes or is refused as \<open>failClosed\<close> says.
\<close>

lemma store_outage:
  assumes "\<And>k. \<exists>s'. st_get st k now s = (Threw, s')"
  shows "lk_locked (fst (check_lockout st cfg i ip now s)) = lo_failClosed cfg"
proof -
  obtain s' where "st_get st (lock_key i) now s = (Threw, s')" using assms by blast
  then show ?thesis by (simp add: check_lockout_def check_body_def lockedUntil_def unlocked_def)
qed

section \<open>Attempts that interleave\<close>

text \<open>An attempt with a wrong password and no address, one store operation per step.\<close>

datatype login_pc =
    LoginStart
  | LoginReserve
  | LoginVerify
  | LoginCount
  | LoginStrike time
  | LoginClearFail time int
  | LoginClearAttempt time int
  | LoginLock time int
  | LoginWrong
  | LoginRefused

definition login_step ::
  "'s storage \<Rightarrow> lockout_settings \<Rightarrow> string \<Rightarrow> time \<Rightarrow> login_pc \<Rightarrow> 's \<Rightarrow> login_pc \<times> 's" where
  "login_step st cfg i t pc s =
     (let refused = (if lo_failClosed cfg then LoginRefused else LoginVerify)
      in case pc of
           LoginStart \<Rightarrow>
             (case lockedUntil st (lock_key i) t s of
                (Returned until, s') \<Rightarrow> (if until \<le> t then LoginReserve else LoginRefused, s')
              | (Threw, s') \<Rightarrow> (refused, s'))
         | LoginReserve \<Rightarrow>
             (case st_incr st (attempt_key i) (lo_failureWindow cfg) t s of
                (Returned (count, _), s') \<Rightarrow> (if lo_maxFailures cfg < count then LoginRefused else LoginVerify, s')
              | (Threw, s') \<Rightarrow> (refused, s'))
         | LoginVerify \<Rightarrow> (LoginCount, s)
         | LoginCount \<Rightarrow>
             (case st_incr st (fail_key i) (lo_failureWindow cfg) t s of
                (Returned (count, _), s') \<Rightarrow> (if count = lo_maxFailures cfg then LoginStrike t else LoginWrong, s')
              | (Threw, s') \<Rightarrow> (LoginWrong, s'))
         | LoginStrike now \<Rightarrow>
             (case st_incr st (strike_key i) (lo_strikeWindow cfg) t s of
                (Returned (strike, _), s') \<Rightarrow> (LoginClearFail now (lock_length cfg strike), s')
              | (Threw, s') \<Rightarrow> (LoginWrong, s'))
         | LoginClearFail now seconds \<Rightarrow>
             (case st_delete st (fail_key i) t s of
                (Returned _, s') \<Rightarrow> (LoginClearAttempt now seconds, s')
              | (Threw, s') \<Rightarrow> (LoginWrong, s'))
         | LoginClearAttempt now seconds \<Rightarrow>
             (case st_delete st (attempt_key i) t s of
                (Returned _, s') \<Rightarrow> (LoginLock now seconds, s')
              | (Threw, s') \<Rightarrow> (LoginWrong, s'))
         | LoginLock now seconds \<Rightarrow>
             (case st_set st (lock_key i) (int_str (now + seconds * 1000)) (Some seconds) t s of
                (_, s') \<Rightarrow> (LoginWrong, s'))
         | LoginWrong \<Rightarrow> (LoginWrong, s)
         | LoginRefused \<Rightarrow> (LoginRefused, s))"

definition burst_start :: "nat \<Rightarrow> (memory, login_pc) world" where
  "burst_start n = \<lparr>wd_shared = empty_memory, wd_callers = replicate n LoginStart, wd_now = 0\<rparr>"

definition burst_schedule :: "(nat \<times> time) list" where
  "burst_schedule =
     map (\<lambda>i. (i, 0)) [0..<12]
     @ concat (map (\<lambda>i. [(i, 0), (i, 0), (i, 0)]) [0..<10])
     @ [(9, 0), (9, 0), (9, 0), (9, 0)]
     @ concat (map (\<lambda>i. [(i, 0), (i, 0), (i, 0)]) [10..<12])"

lemma burst_result:
  "wd_callers (run_schedule (login_step memoryStorage default_lockout ''eve'') burst_schedule (burst_start 12))
   = replicate 12 LoginWrong"
  by code_simp

text \<open>
  A parallel burst is not held to \<open>maxFailures\<close>. With the default settings twelve attempts
  that start together all have their password looked at: the tenth failure clears the reservations
  after the last two found no lock, and they reserve afresh.
\<close>

theorem burst_exceeds:
  "\<exists>w. reaches (\<lambda>w. w = burst_start 12) (interleave (login_step memoryStorage default_lockout ''eve'')) w
     \<and> lo_maxFailures default_lockout < int (length (filter (\<lambda>pc. pc = LoginWrong) (wd_callers w)))"
proof -
  let ?step = "login_step memoryStorage default_lockout ''eve''"
  let ?w = "run_schedule ?step burst_schedule (burst_start 12)"
  have r: "reaches (\<lambda>w. w = burst_start 12) (interleave ?step) ?w"
    by (intro run_schedule_reaches reaches_init) (rule refl)
  have l: "lo_maxFailures default_lockout < int (length (filter (\<lambda>pc. pc = LoginWrong) (wd_callers ?w)))"
    unfolding burst_result by (simp add: default_lockout_def)
  show ?thesis by (rule exI [of _ ?w], intro conjI) (rule r, rule l)
qed

end
