(* ===== verification/JsonText.thy ===== *)
theory JsonText
  imports CanonicalJson "HOL-Library.AList" "HOL-Library.Code_Target_Nat"
begin

text \<open>
  \<open>JSON.stringify\<close> and \<open>JSON.parse\<close>, through which records pass on their way into a store of
  strings. Characters are code units below 256 and numbers are integers, so the parser knows no
  fractions, no exponents and no escapes beyond. What is written is read back, up to the order in
  which \<open>Object.entries\<close> lists repeated keys.
\<close>

section \<open>Writing\<close>

fun stringify :: "json \<Rightarrow> string"
  and stringify_elements :: "json list \<Rightarrow> string"
  and stringify_members :: "(string \<times> json) list \<Rightarrow> string" where
  "stringify JNull = ''null''"
| "stringify (JBool b) = (if b then ''true'' else ''false'')"
| "stringify (JNum n) = int_str n"
| "stringify (JStr s) = jsonString s"
| "stringify (JArr xs) = CHR ''['' # stringify_elements xs @ '']''"
| "stringify (JObj kvs) = CHR ''{'' # stringify_members kvs @ ''}''"
| "stringify_elements [] = []"
| "stringify_elements [x] = stringify x"
| "stringify_elements (x # y # ys) = stringify x @ CHR '','' # stringify_elements (y # ys)"
| "stringify_members [] = []"
| "stringify_members [(k, v)] = jsonString k @ CHR '':'' # stringify v"
| "stringify_members ((k, v) # kv # kvs) =
     jsonString k @ CHR '':'' # stringify v @ CHR '','' # stringify_members (kv # kvs)"

section \<open>Reading\<close>

definition json_space :: "char \<Rightarrow> bool" where
  "json_space c \<longleftrightarrow> c \<in> {CHR 0x20, CHR 0x0A, CHR 0x0D, CHR 0x09}"

definition skip_space :: "string \<Rightarrow> string" where
  "skip_space s = dropWhile json_space s"

definition is_hex :: "char \<Rightarrow> bool" where
  "is_hex c \<longleftrightarrow> is_digit c \<or> c \<in> set ''abcdefABCDEF''"

definition any_hex_val :: "char \<Rightarrow> nat" where
  "any_hex_val c = (if c \<in> set ''ABCDEF'' then of_char c - 55 else hex_val c)"

definition escape_table :: "(char \<times> char) list" where
  "escape_table =
     [(CHR 0x22, CHR 0x22), (CHR 0x5C, CHR 0x5C), (CHR ''/'', CHR ''/''), (CHR ''b'', CHR 0x08),
      (CHR ''f'', CHR 0x0C), (CHR ''n'', CHR 0x0A), (CHR ''r'', CHR 0x0D), (CHR ''t'', CHR 0x09)]"

text \<open>One character of a string, and the text after it.\<close>

definition read_char :: "string \<Rightarrow> (char \<times> string) option" where
  "read_char s =
     (case s of
        [] \<Rightarrow> None
      | c # t \<Rightarrow>
          if c = CHR 0x5C then
            (case t of
               [] \<Rightarrow> None
             | e # u \<Rightarrow>
                 if e = CHR ''u'' then
                   (case u of
                      a # b # h # l # v \<Rightarrow>
                        if a = CHR ''0'' \<and> b = CHR ''0'' \<and> is_hex h \<and> is_hex l
                        then Some (char_of (16 * any_hex_val h + any_hex_val l), v) else None
                    | _ \<Rightarrow> None)
                 else map_option (\<lambda>d. (d, u)) (map_of escape_table e))
          else if c = CHR 0x22 \<or> (of_char c :: nat) < 32 then None
          else Some (c, t))"

lemma read_char_shorter: "read_char s = Some (c, t) \<Longrightarrow> length t < length s"
  by (auto simp: read_char_def split: list.splits if_splits)

text \<open>A string after its opening quote.\<close>

function parse_body :: "string \<Rightarrow> (string \<times> string) option" where
  "parse_body s =
     (case s of
        [] \<Rightarrow> None
      | c # t \<Rightarrow>
          if c = CHR 0x22 then Some ([], t)
          else (case read_char (c # t) of
                  None \<Rightarrow> None
                | Some (d, u) \<Rightarrow> map_option (\<lambda>(ds, v). (d # ds, v)) (parse_body u)))"
  by pat_completeness auto
termination
  by (relation "measure length") (auto dest: read_char_shorter)

declare parse_body.simps [simp del]

text \<open>An integer: no leading zero, and at least one digit.\<close>

definition parse_number :: "string \<Rightarrow> (json \<times> string) option" where
  "parse_number s =
     (let neg = (case s of c # _ \<Rightarrow> c = CHR ''-'' | [] \<Rightarrow> False);
          t = (if neg then tl s else s);
          ds = takeWhile is_digit t
      in if ds = [] \<or> 1 < length ds \<and> ds ! 0 = CHR ''0'' then None
         else Some (JNum (if neg then - int (digits_val ds) else int (digits_val ds)), dropWhile is_digit t))"

definition object_of :: "(string \<times> json) list \<Rightarrow> json" where
  "object_of kvs = JObj (foldl (\<lambda>m kv. AList.update (fst kv) (snd kv) m) [] kvs)"

text \<open>The recursion is bounded by fuel; twice the length of the text is enough.\<close>

fun parse_value :: "nat \<Rightarrow> string \<Rightarrow> (json \<times> string) option"
  and parse_elements :: "nat \<Rightarrow> string \<Rightarrow> (json list \<times> string) option"
  and parse_members :: "nat \<Rightarrow> string \<Rightarrow> ((string \<times> json) list \<times> string) option" where
  "parse_value 0 s = None"
| "parse_value (Suc f) s =
     (case skip_space s of
        [] \<Rightarrow> None
      | c # t \<Rightarrow>
          if c = CHR 0x22 then map_option (\<lambda>(x, r). (JStr x, r)) (parse_body t)
          else if c = CHR ''['' then
            (case skip_space t of
               [] \<Rightarrow> None
             | d # r \<Rightarrow> if d = CHR '']'' then Some (JArr [], r)
                        else map_option (\<lambda>(xs, u). (JArr xs, u)) (parse_elements f t))
          else if c = CHR ''{'' then
            (case skip_space t of
               [] \<Rightarrow> None
             | d # r \<Rightarrow> if d = CHR ''}'' then Some (JObj [], r)
                        else map_option (\<lambda>(kvs, u). (object_of kvs, u)) (parse_members f t))
          else if starts_with ''null'' (c # t) then Some (JNull, drop 4 (c # t))
          else if starts_with ''true'' (c # t) then Some (JBool True, drop 4 (c # t))
          else if starts_with ''false'' (c # t) then Some (JBool False, drop 5 (c # t))
          else parse_number (c # t))"
| "parse_elements 0 s = None"
| "parse_elements (Suc f) s =
     (case parse_value f s of
        None \<Rightarrow> None
      | Some (x, r) \<Rightarrow>
          (case skip_space r of
             [] \<Rightarrow> None
           | d # u \<Rightarrow>
               if d = CHR '','' then map_option (\<lambda>(xs, v). (x # xs, v)) (parse_elements f u)
               else if d = CHR '']'' then Some ([x], u) else None))"
| "parse_members 0 s = None"
| "parse_members (Suc f) s =
     (case skip_space s of
        [] \<Rightarrow> None
      | q # t \<Rightarrow>
          if q \<noteq> CHR 0x22 then None
          else (case parse_body t of
                  None \<Rightarrow> None
                | Some (k, r) \<Rightarrow>
                    (case skip_space r of
                       [] \<Rightarrow> None
                     | d # u \<Rightarrow>
                         if d \<noteq> CHR '':'' then None
                         else (case parse_value f u of
                                 None \<Rightarrow> None
                               | Some (v, w) \<Rightarrow>
                                   (case skip_space w of
                                      [] \<Rightarrow> None
                                    | e # x \<Rightarrow>
                                        if e = CHR '','' then map_option (\<lambda>(kvs, y). ((k, v) # kvs, y)) (parse_members f x)
                                        else if e = CHR ''}'' then Some ([(k, v)], x) else None)))))"

definition json_parse :: "string \<Rightarrow> json option" where
  "json_parse s =
     (case parse_value (2 * length s) s of
        Some (j, r) \<Rightarrow> if skip_space r = [] then Some j else None
      | None \<Rightarrow> None)"

section \<open>What is written is read back\<close>

lemma hex_digit_is_hex: "d < 16 \<Longrightarrow> is_hex (hex_digit d) \<and> any_hex_val (hex_digit d) = d"
proof -
  assume "d < 16"
  have "\<forall>d\<in>set [0..<16]. is_hex (hex_digit d) \<and> any_hex_val (hex_digit d) = d" by code_simp
  with \<open>d < 16\<close> show ?thesis by simp
qed

lemma of_char_specials: "\<not> (of_char CHR 0x22 :: nat) < 32" "\<not> (of_char CHR 0x5C :: nat) < 32"
  "(of_char CHR 0x0A :: nat) < 32" "(of_char CHR 0x0D :: nat) < 32" "(of_char CHR 0x09 :: nat) < 32"
  "(of_char CHR 0x08 :: nat) < 32" "(of_char CHR 0x0C :: nat) < 32"
  by simp_all

lemma read_escaped: "read_char (js_escape_char c @ r) = Some (c, r)"
proof (cases "(of_char c :: nat) < 32 \<and> c \<notin> {CHR 0x0A, CHR 0x0D, CHR 0x09, CHR 0x08, CHR 0x0C}")
  case True
  then have "c \<noteq> CHR 0x0A" "c \<noteq> CHR 0x0D" "c \<noteq> CHR 0x09" "c \<noteq> CHR 0x08" "c \<noteq> CHR 0x0C"
    "(of_char c :: nat) < 32" by simp_all
  moreover from this(6) have "c \<noteq> CHR 0x22" "c \<noteq> CHR 0x5C" by (metis of_char_specials)+
  ultimately have e: "js_escape_char c = CHR 0x5C # CHR ''u'' # hex4 (of_char c)"
    by (simp only: js_escape_char_def if_False if_True)
  have "(of_char c :: nat) div 16 < 16" "(of_char c :: nat) mod 16 < 16" using True by auto
  with hex_digit_is_hex have "is_hex (hex_digit (of_char c div 16))" "is_hex (hex_digit (of_char c mod 16))"
    "any_hex_val (hex_digit (of_char c div 16)) = of_char c div 16"
    "any_hex_val (hex_digit (of_char c mod 16)) = of_char c mod 16" by blast+
  then show ?thesis by (simp add: e hex4_def read_char_def)
next
  case False
  then consider "c \<in> {CHR 0x0A, CHR 0x0D, CHR 0x09, CHR 0x08, CHR 0x0C, CHR 0x22, CHR 0x5C}"
    | "\<not> (of_char c :: nat) < 32" "c \<noteq> CHR 0x22" "c \<noteq> CHR 0x5C"
    by blast
  then show ?thesis
  proof cases
    case 1
    then show ?thesis
      by (elim insertE emptyE) (simp_all add: js_escape_char_def read_char_def escape_table_def)
  next
    case 2
    then have "c \<noteq> CHR 0x0A" "c \<noteq> CHR 0x0D" "c \<noteq> CHR 0x09" "c \<noteq> CHR 0x08" "c \<noteq> CHR 0x0C"
      by (metis of_char_specials)+
    with 2 have "js_escape_char c = [c]" by (simp only: js_escape_char_def if_False)
    with 2 show ?thesis by (simp only: read_char_def append_Cons append_Nil list.case if_False simp_thms)
  qed
qed

lemma escaped_head: "js_escape_char c = a # s \<Longrightarrow> a \<noteq> CHR 0x22"
  by (auto simp: js_escape_char_def split: if_splits)

lemma parse_body_written: "parse_body (concat (map js_escape_char s) @ CHR 0x22 # r) = Some (s, r)"
proof (induction s)
  case Nil
  then show ?case by (simp add: parse_body.simps)
next
  case (Cons c s)
  obtain a t where e: "js_escape_char c = a # t" by (cases "js_escape_char c") (auto simp: js_escape_char_def split: if_splits)
  have "read_char (a # t @ concat (map js_escape_char s) @ CHR 0x22 # r)
      = Some (c, concat (map js_escape_char s) @ CHR 0x22 # r)"
    using read_escaped [of c "concat (map js_escape_char s) @ CHR 0x22 # r"] by (simp add: e)
  with Cons escaped_head [OF e] show ?case
    by (subst parse_body.simps) (simp add: e)
qed

text \<open>Values as \<open>JSON.parse\<close> makes them: no object repeats a key.\<close>

fun json_wf :: "json \<Rightarrow> bool" where
  "json_wf (JArr xs) = (\<forall>x\<in>set xs. json_wf x)"
| "json_wf (JObj kvs) = (distinct (map fst kvs) \<and> (\<forall>v\<in>snd ` set kvs. json_wf v))"
| "json_wf _ = True"

lemma update_fold_distinct:
  "distinct (map fst (m @ kvs)) \<Longrightarrow> foldl (\<lambda>m kv. AList.update (fst kv) (snd kv) m) m kvs = m @ kvs"
proof (induction kvs arbitrary: m)
  case (Cons kv kvs)
  have "AList.update (fst kv) (snd kv) m = m @ [kv]" if "fst kv \<notin> set (map fst m)" for m
    using that by (induction m) auto
  with Cons show ?case by simp
qed simp

lemma object_of_distinct: "distinct (map fst kvs) \<Longrightarrow> object_of kvs = JObj kvs"
  using update_fold_distinct [of "[]" kvs] by (simp add: object_of_def)

lemma skip_space_not: "\<not> json_space c \<Longrightarrow> skip_space (c # s) = c # s"
  by (simp add: skip_space_def)

lemma json_space_simps [simp]:
  "\<not> json_space CHR 0x22" "\<not> json_space CHR ''['' " "\<not> json_space CHR '']''" "\<not> json_space CHR ''{''"
  "\<not> json_space CHR ''}''" "\<not> json_space CHR '',''" "\<not> json_space CHR '':''" "\<not> json_space CHR ''n''"
  "\<not> json_space CHR ''t''" "\<not> json_space CHR ''f''" "\<not> json_space CHR ''-''"
  by (simp_all add: json_space_def)

lemma digit_not_json: "is_digit c \<Longrightarrow> \<not> json_space c \<and>
   c \<noteq> CHR 0x22 \<and> c \<noteq> CHR ''['' \<and> c \<noteq> CHR ''{'' \<and> c \<noteq> CHR ''n'' \<and> c \<noteq> CHR ''t'' \<and> c \<noteq> CHR ''f''
   \<and> c \<noteq> CHR '']'' \<and> c \<noteq> CHR ''}'' \<and> c \<noteq> CHR ''-''"
  by (auto simp: is_digit_def json_space_def)

text \<open>What may follow a value.\<close>

definition ends_value :: "string \<Rightarrow> bool" where
  "ends_value r \<longleftrightarrow> (case r of [] \<Rightarrow> True | c # _ \<Rightarrow> \<not> is_digit c)"

lemma ends_value_simps [simp]:
  "ends_value []" "ends_value (CHR '','' # r)" "ends_value (CHR '']'' # r)" "ends_value (CHR ''}'' # r)"
  by (simp_all add: ends_value_def is_digit_def)

lemma nat_str_no_zero: "1 < length (nat_str n) \<Longrightarrow> nat_str n ! 0 \<noteq> CHR ''0''"
proof (induction n rule: nat_str.induct)
  case (1 n)
  show ?case
  proof (cases "n < 10")
    case True
    with 1 show ?thesis by (simp add: nat_str.simps [of n])
  next
    case False
    then have eq: "nat_str n = nat_str (n div 10) @ [digit_char (n mod 10)]" by (subst nat_str.simps) simp
    show ?thesis
    proof (cases "1 < length (nat_str (n div 10))")
      case True
      with 1 False eq show ?thesis by (simp add: nth_append)
    next
      case short: False
      then have "n div 10 < 10"
        by (subst (asm) nat_str.simps) (auto split: if_splits)
      then have "nat_str (n div 10) = [digit_char (n div 10)]" by (subst nat_str.simps) simp
      moreover have "digit_char d \<noteq> CHR ''0''" if "0 < d" "d < 10" for d
        using that digit_val_char [of d] by (auto simp: digit_val_def)
      ultimately show ?thesis using False eq \<open>n div 10 < 10\<close> by simp
    qed
  qed
qed

lemma digits_then: "ends_value r \<Longrightarrow>
   takeWhile is_digit (nat_str n @ r) = nat_str n \<and> dropWhile is_digit (nat_str n @ r) = r"
proof -
  assume "ends_value r"
  moreover have "\<forall>c\<in>set (nat_str n). is_digit c" using nat_str_digits by blast
  ultimately show ?thesis
    by (cases r) (auto simp: ends_value_def takeWhile_append dropWhile_append takeWhile_eq_all_conv)
qed

lemma parse_number_written:
  assumes "ends_value r"
  shows "parse_number (int_str n @ r) = Some (JNum n, r)"
proof -
  have head: "(case nat_str m @ r of [] \<Rightarrow> False | c # _ \<Rightarrow> c = CHR ''-'') = False" for m
  proof -
    obtain c s where cs: "nat_str m = c # s" by (cases "nat_str m") auto
    then have "is_digit c" using nat_str_digits [of c m] by simp
    with cs digit_not_json show ?thesis by auto
  qed
  have zero: "\<not> (1 < length (nat_str m) \<and> nat_str m ! 0 = CHR ''0'')" for m using nat_str_no_zero by blast
  show ?thesis
    by (cases "n < 0") (simp_all add: parse_number_def int_str_def Let_def head digits_then [OF assms] zero del: One_nat_def)
qed

lemma int_str_head: "\<exists>c s. int_str n = c # s \<and> \<not> json_space c \<and> c \<noteq> CHR 0x22 \<and> c \<noteq> CHR ''['' \<and> c \<noteq> CHR ''{''
   \<and> c \<noteq> CHR ''n'' \<and> c \<noteq> CHR ''t'' \<and> c \<noteq> CHR ''f'' \<and> c \<noteq> CHR '']'' \<and> c \<noteq> CHR ''}''"
proof (cases "n < 0")
  case False
  obtain c s where cs: "nat_str (nat n) = c # s" by (cases "nat_str (nat n)") auto
  then have "is_digit c" using nat_str_digits [of c "nat n"] by simp
  with cs False digit_not_json show ?thesis by (auto simp: int_str_def)
qed (simp add: int_str_def)

lemma stringify_head: "\<exists>c s. stringify j = c # s \<and> \<not> json_space c \<and> c \<noteq> CHR '']'' \<and> c \<noteq> CHR ''}''"
proof (cases j)
  case (JNum n)
  with int_str_head [of n] show ?thesis by (simp only: stringify.simps) blast
qed (auto simp: jsonString_def)

lemma stringify_neq_Nil [simp]: "stringify j \<noteq> []"
  using stringify_head [of j] by auto

lemma parse_value_string:
  "parse_value (Suc f) (jsonString s @ r) = Some (JStr s, r)"
  by (simp add: jsonString_def skip_space_not parse_body_written)

lemma parse_members_head:
  "parse_members (Suc f) (jsonString k @ CHR '':'' # t) =
     (case parse_value f t of
        None \<Rightarrow> None
      | Some (v, w) \<Rightarrow>
          (case skip_space w of
             [] \<Rightarrow> None
           | e # x \<Rightarrow>
               if e = CHR '','' then map_option (\<lambda>(kvs, y). ((k, v) # kvs, y)) (parse_members f x)
               else if e = CHR ''}'' then Some ([(k, v)], x) else None))"
  by (simp add: jsonString_def skip_space_not parse_body_written)

lemma stringify_read:
  "json_wf j \<Longrightarrow> ends_value r \<Longrightarrow> 2 * length (stringify j) \<le> f \<Longrightarrow> parse_value f (stringify j @ r) = Some (j, r)"
  "\<forall>x\<in>set xs. json_wf x \<Longrightarrow> xs \<noteq> [] \<Longrightarrow> Suc (2 * length (stringify_elements xs)) \<le> f \<Longrightarrow>
     parse_elements f (stringify_elements xs @ CHR '']'' # r) = Some (xs, r)"
  "\<forall>v\<in>snd ` set kvs. json_wf v \<Longrightarrow> kvs \<noteq> [] \<Longrightarrow> Suc (2 * length (stringify_members kvs)) \<le> f \<Longrightarrow>
     parse_members f (stringify_members kvs @ CHR ''}'' # r) = Some (kvs, r)"
proof (induction j and xs and kvs arbitrary: r f and r f and r f rule: stringify_stringify_elements_stringify_members.induct)
  case 1
  then obtain g where "f = Suc g" by (cases f) auto
  then show ?case by (simp add: skip_space_not)
next
  case (2 b)
  then obtain g where "f = Suc g" by (cases f) (auto split: if_splits)
  then show ?case by (simp add: skip_space_not)
next
  case (3 n)
  obtain c s where cs: "int_str n = c # s" "\<not> json_space c" "c \<noteq> CHR 0x22" "c \<noteq> CHR ''[''" "c \<noteq> CHR ''{''"
     "c \<noteq> CHR ''n''" "c \<noteq> CHR ''t''" "c \<noteq> CHR ''f''" using int_str_head [of n] by blast
  from 3 cs(1) obtain g where f: "f = Suc g" by (cases f) auto
  have "parse_value f (int_str n @ r) = parse_number (int_str n @ r)"
    using cs by (simp add: f skip_space_not)
  with parse_number_written [OF 3(2)] show ?case by simp
next
  case (4 s)
  then obtain g where "f = Suc g" by (cases f) (auto simp: jsonString_def)
  then show ?case using parse_value_string by simp
next
  case (5 xs)
  then obtain g where f: "f = Suc g" by (cases f) auto
  show ?case
  proof (cases xs)
    case Nil
    then show ?thesis by (simp add: f skip_space_not)
  next
    case (Cons x ys)
    obtain c s where c: "stringify x = c # s" "\<not> json_space c" "c \<noteq> CHR '']''" using stringify_head [of x] by blast
    have "\<exists>t. stringify_elements xs = c # t" using c Cons by (cases ys) auto
    then obtain t where t: "stringify_elements xs = c # t" by blast
    have "parse_elements g (stringify_elements xs @ CHR '']'' # r) = Some (xs, r)"
      using 5 Cons by (intro "5.IH") (auto simp: f)
    with c t show ?thesis by (simp add: f skip_space_not)
  qed
next
  case (6 kvs)
  then obtain g where f: "f = Suc g" by (cases f) auto
  show ?case
  proof (cases kvs)
    case Nil
    then show ?thesis by (simp add: f skip_space_not)
  next
    case (Cons kv ys)
    have "\<exists>t. stringify_members kvs = CHR 0x22 # t" using Cons by (cases kv; cases ys) (auto simp: jsonString_def)
    then obtain t where t: "stringify_members kvs = CHR 0x22 # t" by blast
    have "parse_members g (stringify_members kvs @ CHR ''}'' # r) = Some (kvs, r)"
      using 6 Cons by (intro "6.IH") (auto simp: f)
    with t 6(2) show ?thesis by (simp add: f skip_space_not object_of_distinct)
  qed
next
  case 7
  then show ?case by simp
next
  case (8 x)
  then obtain g where f: "f = Suc g" by (cases f) auto
  have "parse_value g (stringify x @ CHR '']'' # r) = Some (x, CHR '']'' # r)"
    using 8 by (intro "8.IH") (auto simp: f)
  then show ?case by (simp add: f skip_space_not)
next
  case (9 x y ys)
  then obtain g where f: "f = Suc g" by (cases f) auto
  have "parse_value g (stringify x @ CHR '','' # stringify_elements (y # ys) @ CHR '']'' # r)
      = Some (x, CHR '','' # stringify_elements (y # ys) @ CHR '']'' # r)"
    using 9(3,5) by (intro "9.IH"(1)) (auto simp: f)
  moreover have "parse_elements g (stringify_elements (y # ys) @ CHR '']'' # r) = Some (y # ys, r)"
    using 9(3,5) by (intro "9.IH"(2)) (auto simp: f)
  ultimately show ?case by (simp add: f skip_space_not)
next
  case 10
  then show ?case by simp
next
  case (11 k v)
  then obtain g where f: "f = Suc g" by (cases f) auto
  have "parse_value g (stringify v @ CHR ''}'' # r) = Some (v, CHR ''}'' # r)"
    using 11 by (intro "11.IH") (auto simp: f)
  then show ?case by (simp add: f parse_members_head skip_space_not del: parse_members.simps)
next
  case (12 k v kv kvs)
  then obtain g where f: "f = Suc g" by (cases f) auto
  have "parse_value g (stringify v @ CHR '','' # stringify_members (kv # kvs) @ CHR ''}'' # r)
      = Some (v, CHR '','' # stringify_members (kv # kvs) @ CHR ''}'' # r)"
    using 12(3,5) by (intro "12.IH"(1)) (auto simp: f)
  moreover have "parse_members g (stringify_members (kv # kvs) @ CHR ''}'' # r) = Some (kv # kvs, r)"
    using 12(3,5) by (intro "12.IH"(2)) (auto simp: f)
  ultimately show ?case by (simp add: f parse_members_head skip_space_not del: parse_members.simps)
qed

theorem json_roundtrip: "json_wf j \<Longrightarrow> json_parse (stringify j) = Some j"
  using stringify_read(1) [of j "[]" "2 * length (stringify j)"] by (simp add: json_parse_def skip_space_def)

end
