(* ===== verification/Encoding.thy ===== *)
theory Encoding
  imports MerkleTree CanonicalJson
begin

text \<open>
  Hexadecimal text of byte strings, \<open>toHex\<close> and \<open>fromHex\<close> of \<open>crypto/web-crypto.ts\<close>, and digests as
  hexadecimal text. A character that is no hexadecimal digit is an error, \<open>None\<close>.
\<close>

definition toHex :: "bytes \<Rightarrow> string" where
  "toHex bs = concat (map (\<lambda>b. [hex_digit (unat (drop_bit 4 b)), hex_digit (unat (b AND 0x0F))]) bs)"

text \<open>\<open>parseInt(c, 16)\<close> of one character.\<close>

definition hex_value :: "char \<Rightarrow> nat option" where
  "hex_value c =
     (let n = (of_char c :: nat)
      in if 48 \<le> n \<and> n \<le> 57 then Some (n - 48)
         else if 65 \<le> n \<and> n \<le> 70 then Some (n - 55)
         else if 97 \<le> n \<and> n \<le> 102 then Some (n - 87)
         else None)"

fun fromHex :: "string \<Rightarrow> bytes option" where
  "fromHex [] = Some []"
| "fromHex [c] = None"
| "fromHex (h # l # s) =
     (case (hex_value h, hex_value l) of
        (Some a, Some b) \<Rightarrow> map_option (\<lambda>bs. (push_bit 4 (of_nat a) OR of_nat b) # bs) (fromHex s)
      | _ \<Rightarrow> None)"

lemma hex_value_digit: "d < 16 \<Longrightarrow> hex_value (hex_digit d) = Some d"
  by (cases "d < 10") (auto simp: hex_value_def hex_digit_def digit_char_def Let_def)

lemma nibbles: "push_bit 4 (drop_bit 4 b) OR (b AND 0x0F) = (b :: 8 word)"
proof -
  have "push_bit 4 (drop_bit 4 b) OR take_bit 4 b = b" by (rule bit_eqI) (auto simp: bit_simps)
  moreover have "take_bit 4 b = b AND 0x0F" by (simp add: take_bit_eq_mask mask_eq_exp_minus_1)
  ultimately show ?thesis by simp
qed

lemma nibble_bounds: "unat (drop_bit 4 (b :: 8 word)) < 16" "unat (b AND 0x0F) < 16"
proof -
  have "unat b < 256" using unsigned_less [of b] by simp
  then have "drop_bit 4 (unat b) < 16" by (simp add: drop_bit_eq_div less_mult_imp_div_less)
  then show "unat (drop_bit 4 b) < 16" by (simp only: unat_drop_bit_eq)
  have "b AND 0x0F = take_bit 4 b" by (simp add: take_bit_eq_mask mask_eq_exp_minus_1)
  then show "unat (b AND 0x0F) < 16" by (simp only: unsigned_take_bit_eq) (simp add: take_bit_eq_mod)
qed

text \<open>Bytes survive their hexadecimal text.\<close>

theorem hex_roundtrip: "fromHex (toHex bs) = Some bs"
proof (induction bs)
  case (Cons b bs)
  have "push_bit 4 (of_nat (unat (drop_bit 4 b))) OR of_nat (unat (b AND 0x0F)) = b" by (simp add: nibbles)
  with Cons show ?case
    by (simp add: toHex_def hex_value_digit nibble_bounds)
qed (simp add: toHex_def)

lemma toHex_inject: "toHex a = toHex b \<longleftrightarrow> a = b"
  by (metis hex_roundtrip option.inject)

text \<open>\<open>sha256(text)\<close>, with the digest as argument.\<close>

definition sha256 :: "(string \<Rightarrow> bytes) \<Rightarrow> string \<Rightarrow> string" where
  "sha256 digest text = toHex (digest text)"

end
