(* ===== verification/Otp.thy ===== *)
theory Otp
  imports LoginLockout JsonText Encoding AuthContext
begin

text \<open>
  One-time passwords, \<open>packages/core/src/auth/otp.ts\<close>, over any secondary storage. SHA-256 and HMAC
  are arguments, random bytes and the answer of the sender are inputs. A record passes through JSON.
  Calls that run one after the other are proved to lock a code after its attempts; the
  read-modify-write of \<open>verify\<close> is then interleaved, where a burst is not held to them.
\<close>

section \<open>Codes\<close>

text \<open>Digits from the random bytes below 250, in order, until there are enough.\<close>

definition generateOtpCode :: "nat \<Rightarrow> nat list \<Rightarrow> string" where
  "generateOtpCode len supply = take len (map (\<lambda>b. digit_char (b mod 10)) (filter (\<lambda>b. b < 250) supply))"

text \<open>No digit is likelier than another: each comes from 25 of the accepted bytes.\<close>

lemma otp_digit_uniform: "d < 10 \<Longrightarrow> card {b :: nat. b < 250 \<and> b mod 10 = d} = 25"
proof -
  assume "d < 10"
  have "{b :: nat. b < 250 \<and> b mod 10 = d} = (\<lambda>k. 10 * k + d) ` {..<25}"
  proof (intro set_eqI iffI)
    fix b assume "b \<in> {b :: nat. b < 250 \<and> b mod 10 = d}"
    then have "b = 10 * (b div 10) + d" "b div 10 < 25" by auto
    then show "b \<in> (\<lambda>k. 10 * k + d) ` {..<25}" by blast
  qed (use \<open>d < 10\<close> in auto)
  then show ?thesis by (simp add: card_image inj_on_def)
qed

lemma generateOtpCode_digits: "c \<in> set (generateOtpCode len supply) \<Longrightarrow> is_digit c"
  by (auto simp: generateOtpCode_def dest!: in_set_takeD)

record otp_config =
  oc_codeLength :: "int option"
  oc_expiresIn :: "int option"
  oc_maxAttempts :: "int option"
  oc_lockoutSeconds :: "int option"
  oc_resendCooldownSeconds :: "int option"
  oc_secret :: "string option"

record otp_settings =
  os_length :: int
  os_expiresIn :: int
  os_maxAttempts :: int
  os_lockoutSeconds :: int
  os_cooldown :: int

definition otp_settings_of :: "otp_config \<Rightarrow> otp_settings" where
  "otp_settings_of config =
     (let or = (\<lambda>x d. case x of Some n \<Rightarrow> n | None \<Rightarrow> d)
      in \<lparr>os_length = min 10 (max 4 (or (oc_codeLength config) 6)),
          os_expiresIn = or (oc_expiresIn config) 300,
          os_maxAttempts = or (oc_maxAttempts config) 5,
          os_lockoutSeconds = or (oc_lockoutSeconds config) 900,
          os_cooldown = or (oc_resendCooldownSeconds config) 60\<rparr>)"

section \<open>Records\<close>

record stored_code =
  co_hash :: string
  co_expiresAt :: time
  co_attempts :: int
  co_sentAt :: time

definition code_json :: "stored_code \<Rightarrow> json" where
  "code_json r =
     JObj [(''hash'', JStr (co_hash r)), (''expiresAt'', JNum (co_expiresAt r)),
           (''attempts'', JNum (co_attempts r)), (''sentAt'', JNum (co_sentAt r))]"

text \<open>\<open>JSON.parse(raw) as StoredCode\<close>, on the texts the service writes.\<close>

definition code_of_json :: "json \<Rightarrow> stored_code option" where
  "code_of_json j =
     (case j of
        JObj kvs \<Rightarrow>
          (case (map_of kvs ''hash'', map_of kvs ''expiresAt'', map_of kvs ''attempts'', map_of kvs ''sentAt'') of
             (Some (JStr h), Some (JNum e), Some (JNum a), Some (JNum s)) \<Rightarrow>
               Some \<lparr>co_hash = h, co_expiresAt = e, co_attempts = a, co_sentAt = s\<rparr>
           | _ \<Rightarrow> None)
      | _ \<Rightarrow> None)"

definition code_of_text :: "string \<Rightarrow> stored_code option" where
  "code_of_text raw = Option.bind (json_parse raw) code_of_json"

lemma code_roundtrip [simp]: "code_of_text (stringify (code_json r)) = Some r"
proof -
  have "json_parse (stringify (code_json r)) = Some (code_json r)"
    by (rule json_roundtrip) (simp add: code_json_def)
  then show ?thesis by (simp add: code_of_text_def code_json_def code_of_json_def)
qed

section \<open>The service\<close>

text \<open>The two hashes; the secret selects the keyed one when it is not empty.\<close>

record otp_hashes =
  oh_digest :: "string \<Rightarrow> bytes"
  oh_hmac :: "string \<Rightarrow> string \<Rightarrow> bytes"

definition newline :: char where
  "newline = CHR 0x0A"

definition otp_subject :: "string \<Rightarrow> string \<Rightarrow> string" where
  "otp_subject purpose identifier = purpose @ newline # map to_lower (trim identifier)"

definition otp_code_key :: "otp_hashes \<Rightarrow> string \<Rightarrow> string \<Rightarrow> string" where
  "otp_code_key h purpose identifier = ''otp:code:'' @ sha256 (oh_digest h) (otp_subject purpose identifier)"

definition otp_lock_key :: "otp_hashes \<Rightarrow> string \<Rightarrow> string \<Rightarrow> string" where
  "otp_lock_key h purpose identifier = ''otp:lock:'' @ sha256 (oh_digest h) (otp_subject purpose identifier)"

definition hashCode :: "otp_hashes \<Rightarrow> string option \<Rightarrow> string \<Rightarrow> string \<Rightarrow> string \<Rightarrow> string" where
  "hashCode h secret purpose identifier code =
     (let material = otp_subject purpose identifier @ newline # code
      in case secret of
           Some key \<Rightarrow> if key = [] then sha256 (oh_digest h) material else toHex (oh_hmac h key material)
         | None \<Rightarrow> sha256 (oh_digest h) material)"

datatype otp_error =
    OtpChannelUnavailable
  | OtpLocked int
  | OtpCooldown int
  | OtpSendFailed
  | OtpInvalid

definition lockRemaining :: "'s storage \<Rightarrow> string \<Rightarrow> time \<Rightarrow> ('s, int) action" where
  "lockRemaining st lockKey now =
     andThen (st_get st lockKey now) (\<lambda>raw.
       answer (case raw of
                 None \<Rightarrow> 0
               | Some r \<Rightarrow> (case js_number r of Some until \<Rightarrow> max 0 (ceil_seconds (until - now)) | None \<Rightarrow> 0)))"

definition read_code :: "'s storage \<Rightarrow> string \<Rightarrow> time \<Rightarrow> ('s, stored_code option) action" where
  "read_code st key now = andThen (st_get st key now) (\<lambda>raw. answer (Option.bind raw code_of_text))"

text \<open>
  \<open>send\<close>: \<open>channel\<close> says whether a sender is configured, \<open>code\<close> is the code that was drawn, and
  \<open>delivered\<close> whether the sender resolves.
\<close>

definition otp_send ::
  "'s storage \<Rightarrow> otp_hashes \<Rightarrow> string option \<Rightarrow> otp_settings \<Rightarrow> bool \<Rightarrow> string \<Rightarrow> string \<Rightarrow> string \<Rightarrow> bool \<Rightarrow> time \<Rightarrow>
   ('s, otp_error + time) action" where
  "otp_send st h secret cfg channel purpose identifier code delivered now =
     (if \<not> channel then answer (Inl OtpChannelUnavailable)
      else
        andThen (lockRemaining st (otp_lock_key h purpose identifier) now) (\<lambda>locked.
        if 0 < locked then answer (Inl (OtpLocked locked))
        else
          andThen (read_code st (otp_code_key h purpose identifier) now) (\<lambda>existing.
          let wait = (case existing of
                        Some r \<Rightarrow> if 0 < os_cooldown cfg then ceil_seconds (co_sentAt r + os_cooldown cfg * 1000 - now) else 0
                      | None \<Rightarrow> 0)
          in if 0 < wait then answer (Inl (OtpCooldown wait))
             else
               let record = \<lparr>co_hash = hashCode h secret purpose identifier code,
                             co_expiresAt = now + os_expiresIn cfg * 1000, co_attempts = 0, co_sentAt = now\<rparr>
               in andThen (st_set st (otp_code_key h purpose identifier) (stringify (code_json record))
                             (Some (os_expiresIn cfg)) now) (\<lambda>_.
                  if delivered then answer (Inr (co_expiresAt record))
                  else andThen (st_delete st (otp_code_key h purpose identifier) now) (\<lambda>_.
                       answer (Inl OtpSendFailed))))))"

text \<open>The comparison: a stored hash that is no hexadecimal text is an exception.\<close>

definition same_hash :: "string \<Rightarrow> string \<Rightarrow> bool reply" where
  "same_hash stored given =
     (case (fromHex stored, fromHex given) of
        (Some a, Some b) \<Rightarrow> Returned (constantTimeEqual a b)
      | _ \<Rightarrow> Threw)"

definition otp_miss ::
  "'s storage \<Rightarrow> otp_hashes \<Rightarrow> otp_settings \<Rightarrow> string \<Rightarrow> string \<Rightarrow> stored_code \<Rightarrow> time \<Rightarrow> ('s, otp_error + unit) action" where
  "otp_miss st h cfg purpose identifier record now =
     (let attempts = co_attempts record + 1
      in if os_maxAttempts cfg \<le> attempts then
           andThen (st_delete st (otp_code_key h purpose identifier) now) (\<lambda>_.
           andThen (st_set st (otp_lock_key h purpose identifier) (int_str (now + os_lockoutSeconds cfg * 1000))
                      (Some (os_lockoutSeconds cfg)) now) (\<lambda>_.
           answer (Inl (OtpLocked (os_lockoutSeconds cfg)))))
         else
           andThen (st_set st (otp_code_key h purpose identifier)
                      (stringify (code_json (record\<lparr>co_attempts := attempts\<rparr>)))
                      (Some (max 1 (ceil_seconds (co_expiresAt record - now)))) now) (\<lambda>_.
           answer (Inl OtpInvalid)))"

definition otp_verify ::
  "'s storage \<Rightarrow> otp_hashes \<Rightarrow> string option \<Rightarrow> otp_settings \<Rightarrow> string \<Rightarrow> string \<Rightarrow> string \<Rightarrow> time \<Rightarrow>
   ('s, otp_error + unit) action" where
  "otp_verify st h secret cfg purpose identifier code now =
     andThen (lockRemaining st (otp_lock_key h purpose identifier) now) (\<lambda>locked.
     if 0 < locked then answer (Inl (OtpLocked locked))
     else
       andThen (read_code st (otp_code_key h purpose identifier) now) (\<lambda>found.
       case found of
         None \<Rightarrow> answer (Inl OtpInvalid)
       | Some record \<Rightarrow>
           if co_expiresAt record \<le> now then answer (Inl OtpInvalid)
           else (case same_hash (co_hash record) (hashCode h secret purpose identifier (trim code)) of
                   Threw \<Rightarrow> (\<lambda>s. (Threw, s))
                 | Returned same \<Rightarrow>
                     if \<not> same then otp_miss st h cfg purpose identifier record now
                     else andThen (st_delete st (otp_code_key h purpose identifier) now) (\<lambda>_. answer (Inr ())))))"

lemma hashCode_hex: "\<exists>bs. hashCode h secret purpose identifier code = toHex bs"
  by (auto simp: hashCode_def sha256_def Let_def split: option.splits)

lemma same_hash_codes:
  "same_hash (hashCode h sec p i c) (hashCode h sec p i d) = Returned (hashCode h sec p i c = hashCode h sec p i d)"
proof -
  obtain a b where "hashCode h sec p i c = toHex a" "hashCode h sec p i d = toHex b" using hashCode_hex by metis
  then show ?thesis by (simp add: same_hash_def hex_roundtrip toHex_inject)
qed

lemma otp_keys_distinct [simp]:
  "otp_code_key h p i \<noteq> otp_lock_key h q j" "otp_lock_key h q j \<noteq> otp_code_key h p i"
  by (simp_all add: otp_code_key_def otp_lock_key_def)

section \<open>One call after the other\<close>

definition lock_left :: "cell option \<Rightarrow> time \<Rightarrow> int" where
  "lock_left c now =
     (case Option.bind c (\<lambda>c. js_number (cl_value c)) of
        None \<Rightarrow> 0
      | Some until \<Rightarrow> max 0 (ceil_seconds (until - now)))"

definition code_at :: "cell option \<Rightarrow> stored_code option" where
  "code_at c = Option.bind c (\<lambda>c. code_of_text (cl_value c))"

text \<open>A code that can be guessed, and one that cannot.\<close>

definition otp_live ::
  "(time \<Rightarrow> 's \<Rightarrow> string \<Rightarrow> cell option) \<Rightarrow> otp_hashes \<Rightarrow> string \<Rightarrow> string \<Rightarrow> stored_code \<Rightarrow> time \<Rightarrow> 's \<Rightarrow> bool" where
  "otp_live view h p i r t s \<longleftrightarrow>
     t < co_expiresAt r \<and> lock_left (view t s (otp_lock_key h p i)) t = 0
     \<and> (\<exists>c x. view t s (otp_code_key h p i) = Some c \<and> cl_value c = stringify (code_json r)
            \<and> cl_expires c = Some x \<and> co_expiresAt r \<le> x)"

definition otp_dead ::
  "(time \<Rightarrow> 's \<Rightarrow> string \<Rightarrow> cell option) \<Rightarrow> otp_hashes \<Rightarrow> string \<Rightarrow> string \<Rightarrow> time \<Rightarrow> 's \<Rightarrow> bool" where
  "otp_dead view h p i t s \<longleftrightarrow>
     (\<forall>r. code_at (view t s (otp_code_key h p i)) = Some r \<longrightarrow> co_expiresAt r \<le> t)"

lemma ceil_seconds_ge: "ms \<le> ceil_seconds ms * 1000"
proof -
  have "(- ms) div 1000 * 1000 \<le> - ms" by simp
  then show ?thesis by (simp add: ceil_seconds_def)
qed

text \<open>A code that is gone, with its lock set until an instant.\<close>

definition otp_shut ::
  "(time \<Rightarrow> 's \<Rightarrow> string \<Rightarrow> cell option) \<Rightarrow> (string \<Rightarrow> time option \<Rightarrow> int option) \<Rightarrow> otp_hashes \<Rightarrow> string \<Rightarrow> string
     \<Rightarrow> time \<Rightarrow> time \<Rightarrow> 's \<Rightarrow> bool" where
  "otp_shut view reads h p i until t s \<longleftrightarrow>
     view t s (otp_code_key h p i) = None
     \<and> (t < until \<longrightarrow> view t s (otp_lock_key h p i) = Some (lock_cell reads until))"

lemma otp_shut_dead: "otp_shut view reads h p i until t s \<Longrightarrow> otp_dead view h p i t s"
  by (simp add: otp_shut_def otp_dead_def code_at_def)

lemma lock_left_cell: "now < until \<Longrightarrow> lock_left (Some (lock_cell reads until)) now = ceil_seconds (until - now)
    \<and> 0 < ceil_seconds (until - now)"
proof -
  assume "now < until"
  then have "0 < ceil_seconds (until - now) * 1000" using ceil_seconds_ge [of "until - now"] by simp
  then show ?thesis by (simp add: lock_left_def lock_cell_def)
qed

lemma ceil_seconds_mono: "a \<le> b \<Longrightarrow> ceil_seconds a \<le> ceil_seconds b"
  by (simp add: ceil_seconds_def zdiv_mono1)

lemma lock_left_later: "t \<le> u \<Longrightarrow> lock_left c t = 0 \<Longrightarrow> lock_left c u = 0"
proof -
  assume "t \<le> u" "lock_left c t = 0"
  have le: "ceil_seconds (until - u) \<le> ceil_seconds (until - t)" for until
    using \<open>t \<le> u\<close> by (intro ceil_seconds_mono) simp
  show ?thesis
  proof (cases "Option.bind c (\<lambda>c. js_number (cl_value c))")
    case (Some until)
    with \<open>lock_left c t = 0\<close> le [of until] show ?thesis by (simp add: lock_left_def)
  qed (simp add: lock_left_def)
qed

lemma code_at_live:
  "otp_live view h p i r t s \<Longrightarrow> code_at (view t s (otp_code_key h p i)) = Some r"
  by (auto simp: otp_live_def code_at_def)

context secondary_storage
begin

lemma lockRemaining_law:
  assumes "ok s"
  obtains s' where "lockRemaining st k now s = (Returned (lock_left (view now s k) now), s')" "ok s'"
    "\<And>t. now \<le> t \<Longrightarrow> view t s' = view t s"
  using get_law [OF assms, of k now]
  by (auto simp: lockRemaining_def lock_left_def intro!: that split: option.splits bind_splits)

lemma read_code_law:
  assumes "ok s"
  obtains s' where "read_code st k now s = (Returned (code_at (view now s k)), s')" "ok s'"
    "\<And>t. now \<le> t \<Longrightarrow> view t s' = view t s"
  using get_law [OF assms, of k now]
  by (auto simp: read_code_def code_at_def intro!: that split: option.splits bind_splits)

lemma otp_live_later:
  assumes "ok s" and live: "otp_live view h p i r t s" and "t \<le> u"
  shows "if u < co_expiresAt r then otp_live view h p i r u s else otp_dead view h p i u s"
proof -
  obtain c x where c: "view t s (otp_code_key h p i) = Some c" "cl_value c = stringify (code_json r)"
      "cl_expires c = Some x" "co_expiresAt r \<le> x" and l: "lock_left (view t s (otp_lock_key h p i)) t = 0"
    using live by (auto simp: otp_live_def)
  have code: "view u s (otp_code_key h p i) = alive u c" by (rule view_stays [OF assms(1,3) c(1)])
  have lock: "lock_left (view u s (otp_lock_key h p i)) u = 0"
  proof (cases "view t s (otp_lock_key h p i)")
    case None
    then show ?thesis using view_gone [OF assms(1,3)] by (simp add: lock_left_def)
  next
    case (Some d)
    have "lock_left (Some d) u = 0" using l Some assms(3) lock_left_later by metis
    moreover have "view u s (otp_lock_key h p i) = alive u d" by (rule view_stays [OF assms(1,3) Some])
    ultimately show ?thesis by (cases "alive u d") (auto simp: lock_left_def dest: alive_SomeD)
  qed
  show ?thesis
  proof (cases "u < co_expiresAt r")
    case True
    then have "alive u c = Some c" using c by (simp add: alive_def)
    with True code c lock show ?thesis by (auto simp: otp_live_def)
  next
    case False
    have "d = r" if "code_at (alive u c) = Some d" for d
      using that c(2) by (cases "alive u c") (auto simp: code_at_def dest!: alive_SomeD)
    with False code show ?thesis by (auto simp: otp_dead_def)
  qed
qed

lemma otp_dead_later:
  assumes "ok s" "otp_dead view h p i t s" "t \<le> u"
  shows "otp_dead view h p i u s"
proof (cases "view t s (otp_code_key h p i)")
  case None
  then show ?thesis using view_gone [OF assms(1,3)] by (simp add: otp_dead_def code_at_def)
next
  case (Some c)
  with view_stays [OF assms(1,3) Some] assms(2,3) show ?thesis
    by (cases "alive u c") (auto simp: otp_dead_def code_at_def dest: alive_SomeD)
qed

lemma verify_dead:
  assumes "ok s" and dead: "otp_dead view h p i now s"
  obtains e s' where "otp_verify st h secret cfg p i code now s = (Returned (Inl e), s')" "ok s'"
    "otp_dead view h p i now s'"
proof -
  obtain s1 where s1: "lockRemaining st (otp_lock_key h p i) now s = (Returned (lock_left (view now s (otp_lock_key h p i)) now), s1)"
      "ok s1" "\<And>t. now \<le> t \<Longrightarrow> view t s1 = view t s" by (rule lockRemaining_law [OF assms(1)]) blast
  obtain s2 where s2: "read_code st (otp_code_key h p i) now s1 = (Returned (code_at (view now s1 (otp_code_key h p i))), s2)"
      "ok s2" "\<And>t. now \<le> t \<Longrightarrow> view t s2 = view t s1" by (rule read_code_law [OF s1(2)]) blast
  have d: "otp_dead view h p i now s1" "otp_dead view h p i now s2"
    using dead s1(3) s2(3) by (simp_all add: otp_dead_def)
  show ?thesis
  proof (cases "0 < lock_left (view now s (otp_lock_key h p i)) now")
    case True
    then show ?thesis using that [OF _ s1(2) d(1)] s1(1) by (simp add: otp_verify_def)
  next
    case False
    have "\<exists>e. otp_verify st h secret cfg p i code now s = (Returned (Inl e), s2)"
      using False s1(1,3) s2(1) dead
      by (cases "code_at (view now s (otp_code_key h p i))") (auto simp: otp_verify_def otp_dead_def)
    then show ?thesis using that [OF _ s2(2) d(2)] by blast
  qed
qed

lemma otp_shut_later:
  assumes "ok s" and shut: "otp_shut view reads h p i until t s" and "t \<le> u"
  shows "otp_shut view reads h p i until u s"
  using shut view_gone [OF assms(1,3)] view_stays [OF assms(1,3)] assms(3) by (auto simp: otp_shut_def)

lemma verify_shut:
  assumes "ok s" and shut: "otp_shut view reads h p i until now s"
  obtains e s' where "otp_verify st h secret cfg p i code now s = (Returned (Inl e), s')" "ok s'"
    "otp_shut view reads h p i until now s'" "now < until \<longrightarrow> e = OtpLocked (ceil_seconds (until - now))"
proof -
  obtain s1 where s1: "lockRemaining st (otp_lock_key h p i) now s = (Returned (lock_left (view now s (otp_lock_key h p i)) now), s1)"
      "ok s1" "\<And>t. now \<le> t \<Longrightarrow> view t s1 = view t s" by (rule lockRemaining_law [OF assms(1)]) blast
  obtain s2 where s2: "read_code st (otp_code_key h p i) now s1 = (Returned (code_at (view now s1 (otp_code_key h p i))), s2)"
      "ok s2" "\<And>t. now \<le> t \<Longrightarrow> view t s2 = view t s1" by (rule read_code_law [OF s1(2)]) blast
  have d: "otp_shut view reads h p i until now s1" "otp_shut view reads h p i until now s2"
    using shut s1(3) s2(3) by (simp_all add: otp_shut_def)
  have left: "lock_left (view now s (otp_lock_key h p i)) now = ceil_seconds (until - now)" "0 < ceil_seconds (until - now)"
    if "now < until"
    using that shut lock_left_cell [OF that, of reads] by (simp_all add: otp_shut_def)
  show ?thesis
  proof (cases "0 < lock_left (view now s (otp_lock_key h p i)) now")
    case True
    show ?thesis by (rule that [OF _ s1(2) d(1)]) (use True s1(1) left in \<open>auto simp: otp_verify_def\<close>)
  next
    case False
    have "otp_verify st h secret cfg p i code now s = (Returned (Inl OtpInvalid), s2)"
      using False s1(1,3) s2(1) shut by (simp add: otp_verify_def otp_shut_def code_at_def)
    then show ?thesis by (rule that [OF _ s2(2) d(2)]) (use False left in auto)
  qed
qed

lemma send_shut:
  assumes "ok s" and shut: "otp_shut view reads h p i until now s" and "now < until"
  shows "fst (otp_send st h secret cfg True p i code delivered now s) = Returned (Inl (OtpLocked (ceil_seconds (until - now))))"
proof -
  obtain s1 where s1: "lockRemaining st (otp_lock_key h p i) now s = (Returned (lock_left (view now s (otp_lock_key h p i)) now), s1)"
    by (rule lockRemaining_law [OF assms(1)]) blast
  with shut assms(3) lock_left_cell [OF assms(3), of reads] show ?thesis by (simp add: otp_send_def otp_shut_def)
qed

text \<open>How \<open>verify\<close> goes on a live code.\<close>

lemma verify_live:
  assumes "ok s" and live: "otp_live view h p i r now s" and hash: "co_hash r = hashCode h secret p i code0"
  obtains s' where "ok s'" "\<And>t. now \<le> t \<Longrightarrow> view t s' = view t s"
    "otp_verify st h secret cfg p i code now s =
       (if hashCode h secret p i (trim code) \<noteq> co_hash r then otp_miss st h cfg p i r now s'
        else andThen (st_delete st (otp_code_key h p i) now) (\<lambda>_. answer (Inr ())) s')"
proof -
  obtain s1 where s1: "lockRemaining st (otp_lock_key h p i) now s = (Returned (lock_left (view now s (otp_lock_key h p i)) now), s1)"
      "ok s1" "\<And>t. now \<le> t \<Longrightarrow> view t s1 = view t s" by (rule lockRemaining_law [OF assms(1)]) blast
  obtain s2 where s2: "read_code st (otp_code_key h p i) now s1 = (Returned (code_at (view now s1 (otp_code_key h p i))), s2)"
      "ok s2" "\<And>t. now \<le> t \<Longrightarrow> view t s2 = view t s1" by (rule read_code_law [OF s1(2)]) blast
  have "lock_left (view now s (otp_lock_key h p i)) now = 0" "now < co_expiresAt r"
    using live by (simp_all add: otp_live_def)
  moreover have "code_at (view now s1 (otp_code_key h p i)) = Some r" using code_at_live [OF live] s1(3) by simp
  ultimately have "otp_verify st h secret cfg p i code now s =
       (if hashCode h secret p i (trim code) \<noteq> co_hash r then otp_miss st h cfg p i r now s2
        else andThen (st_delete st (otp_code_key h p i) now) (\<lambda>_. answer (Inr ())) s2)"
    using s1(1) s2(1) by (auto simp: otp_verify_def hash same_hash_codes)
  with that [OF s2(2)] s1(3) s2(3) show ?thesis by simp
qed

lemma verify_wrong:
  assumes "ok s" and live: "otp_live view h p i r now s" and hash: "co_hash r = hashCode h secret p i code0"
    and wrong: "hashCode h secret p i (trim code) \<noteq> co_hash r"
  obtains e s' where "otp_verify st h secret cfg p i code now s = (Returned (Inl e), s')" "ok s'"
    "if os_maxAttempts cfg \<le> co_attempts r + 1
     then otp_shut view reads h p i (now + os_lockoutSeconds cfg * 1000) now s'
     else otp_live view h p i (r\<lparr>co_attempts := co_attempts r + 1\<rparr>) now s'"
proof -
  obtain s1 where s1: "ok s1" "\<And>t. now \<le> t \<Longrightarrow> view t s1 = view t s"
    and v: "otp_verify st h secret cfg p i code now s =
       (if hashCode h secret p i (trim code) \<noteq> co_hash r then otp_miss st h cfg p i r now s1
        else andThen (st_delete st (otp_code_key h p i) now) (\<lambda>_. answer (Inr ())) s1)"
    by (rule verify_live [OF assms(1) live hash]) blast
  show ?thesis
  proof (cases "os_maxAttempts cfg \<le> co_attempts r + 1")
    case True
    from delete_law [OF s1(1), of "otp_code_key h p i" now] obtain s2 where s2:
        "st_delete st (otp_code_key h p i) now s1 = (Returned (), s2)" "ok s2"
        "\<forall>t\<ge>now. view t s2 = (view t s1)(otp_code_key h p i := None)" by blast
    from set_law [OF s2(2), of "otp_lock_key h p i" "int_str (now + os_lockoutSeconds cfg * 1000)"
        "Some (os_lockoutSeconds cfg)" now] obtain s3 where s3:
        "st_set st (otp_lock_key h p i) (int_str (now + os_lockoutSeconds cfg * 1000)) (Some (os_lockoutSeconds cfg)) now s2
         = (Returned (), s3)" "ok s3" "view now s3 (otp_code_key h p i) = view now s2 (otp_code_key h p i)"
        "view now s3 (otp_lock_key h p i) = alive now (lock_cell reads (now + os_lockoutSeconds cfg * 1000))"
      by (auto simp: lock_cell_def)
    have "otp_shut view reads h p i (now + os_lockoutSeconds cfg * 1000) now s3"
      using s3(3,4) s2(3) by (simp add: otp_shut_def)
    with that [OF _ s3(2)] v wrong True s2(1) s3(1) show ?thesis by (simp add: otp_miss_def)
  next
    case False
    let ?r = "r\<lparr>co_attempts := co_attempts r + 1\<rparr>" and ?ttl = "max 1 (ceil_seconds (co_expiresAt r - now))"
    from set_law [OF s1(1), of "otp_code_key h p i" "stringify (code_json ?r)" "Some ?ttl" now] obtain s2 c where s2:
        "st_set st (otp_code_key h p i) (stringify (code_json ?r)) (Some ?ttl) now s1 = (Returned (), s2)" "ok s2"
        "view now s2 = (view now s1)(otp_code_key h p i := alive now c)"
        "cl_value c = stringify (code_json ?r)" "cl_expires c = Some (now + ?ttl * 1000)"
      by fastforce
    have "co_expiresAt r - now \<le> ceil_seconds (co_expiresAt r - now) * 1000" by (rule ceil_seconds_ge)
    then have e: "co_expiresAt r \<le> now + ?ttl * 1000" "now < now + ?ttl * 1000" by auto
    then have "alive now c = Some c" using s2(5) by (simp add: alive_def)
    then have "otp_live view h p i ?r now s2"
      using live s2(3-5) s1(2) e by (auto simp: otp_live_def)
    with that [OF _ s2(2)] v wrong False s2(1) show ?thesis by (simp add: otp_miss_def Let_def)
  qed
qed

lemma verify_right:
  assumes "ok s" and live: "otp_live view h p i r now s" and "co_hash r = hashCode h secret p i (trim code)"
  obtains s' where "otp_verify st h secret cfg p i code now s = (Returned (Inr ()), s')" "ok s'"
    "otp_dead view h p i now s'"
proof -
  obtain s1 where s1: "ok s1" "\<And>t. now \<le> t \<Longrightarrow> view t s1 = view t s"
    and v: "otp_verify st h secret cfg p i code now s =
       (if hashCode h secret p i (trim code) \<noteq> co_hash r then otp_miss st h cfg p i r now s1
        else andThen (st_delete st (otp_code_key h p i) now) (\<lambda>_. answer (Inr ())) s1)"
    by (rule verify_live [OF assms(1) live assms(3)]) blast
  from delete_law [OF s1(1), of "otp_code_key h p i" now] obtain s2 where s2:
      "st_delete st (otp_code_key h p i) now s1 = (Returned (), s2)" "ok s2"
      "\<forall>t\<ge>now. view t s2 = (view t s1)(otp_code_key h p i := None)" by blast
  have "otp_dead view h p i now s2" using s2(3) by (simp add: otp_dead_def code_at_def)
  with that [OF _ s2(2)] v assms(3) s2(1) show ?thesis by simp
qed

text \<open>A delivered code is live.\<close>

lemma send_live:
  assumes "ok s" and sent: "otp_send st h secret cfg channel p i code True now s = (Returned (Inr e), s')"
    and "0 < os_expiresIn cfg"
  shows "ok s' \<and> otp_live view h p i \<lparr>co_hash = hashCode h secret p i code, co_expiresAt = e, co_attempts = 0,
                                       co_sentAt = now\<rparr> now s'"
proof -
  let ?r = "\<lparr>co_hash = hashCode h secret p i code, co_expiresAt = now + os_expiresIn cfg * 1000,
             co_attempts = 0, co_sentAt = now\<rparr>"
  obtain s1 where s1: "lockRemaining st (otp_lock_key h p i) now s = (Returned (lock_left (view now s (otp_lock_key h p i)) now), s1)"
      "ok s1" "\<And>t. now \<le> t \<Longrightarrow> view t s1 = view t s" by (rule lockRemaining_law [OF assms(1)]) blast
  obtain s2 where s2: "read_code st (otp_code_key h p i) now s1 = (Returned (code_at (view now s1 (otp_code_key h p i))), s2)"
      "ok s2" "\<And>t. now \<le> t \<Longrightarrow> view t s2 = view t s1" by (rule read_code_law [OF s1(2)]) blast
  from set_law [OF s2(2), of "otp_code_key h p i" "stringify (code_json ?r)" "Some (os_expiresIn cfg)" now]
  obtain s3 c where s3: "st_set st (otp_code_key h p i) (stringify (code_json ?r)) (Some (os_expiresIn cfg)) now s2
        = (Returned (), s3)" "ok s3" "view now s3 = (view now s2)(otp_code_key h p i := alive now c)"
        "cl_value c = stringify (code_json ?r)" "cl_expires c = Some (now + os_expiresIn cfg * 1000)"
    by fastforce
  have ch: "channel" using sent by (auto simp: otp_send_def split: if_splits)
  have un: "\<not> 0 < lock_left (view now s (otp_lock_key h p i)) now"
    using sent ch s1(1) by (auto simp: otp_send_def split: if_splits)
  then have lock: "lock_left (view now s (otp_lock_key h p i)) now = 0"
    by (auto simp: lock_left_def split: option.splits)
  have eq: "e = now + os_expiresIn cfg * 1000 \<and> s' = s3"
    using sent ch un s1(1) s2(1) s3(1) by (auto simp: otp_send_def Let_def split: if_splits)
  have "alive now c = Some c" using s3(5) assms(3) by (simp add: alive_def)
  with eq s3(2-5) s2(3) s1(3) lock assms(3) show ?thesis by (auto simp: otp_live_def)
qed

end

text \<open>Codes tried one after the other.\<close>

fun try_codes ::
  "'s storage \<Rightarrow> otp_hashes \<Rightarrow> string option \<Rightarrow> otp_settings \<Rightarrow> string \<Rightarrow> string \<Rightarrow> (string \<times> time) list \<Rightarrow> 's \<Rightarrow> 's" where
  "try_codes st h secret cfg p i [] s = s"
| "try_codes st h secret cfg p i ((code, now) # gs) s =
     try_codes st h secret cfg p i gs (snd (otp_verify st h secret cfg p i code now s))"

context secondary_storage
begin

lemma try_codes_dead:
  "ok s \<Longrightarrow> otp_dead view h p i t s \<Longrightarrow> sorted (t # map snd gs) \<Longrightarrow> \<forall>g\<in>set gs. snd g \<le> u \<Longrightarrow> t \<le> u \<Longrightarrow>
   ok (try_codes st h secret cfg p i gs s) \<and> otp_dead view h p i u (try_codes st h secret cfg p i gs s)"
proof (induction gs arbitrary: s t)
  case Nil
  then show ?case by (auto intro: otp_dead_later)
next
  case (Cons g gs)
  obtain code now where g: "g = (code, now)" by (cases g)
  have "otp_dead view h p i now s" using Cons.prems g by (auto intro: otp_dead_later)
  from verify_dead [OF Cons.prems(1) this] obtain e s' where
      "otp_verify st h secret cfg p i code now s = (Returned (Inl e), s')" "ok s'" "otp_dead view h p i now s'" by metis
  with Cons.IH [of s' now] Cons.prems g show ?case by simp
qed

lemma try_codes_shut:
  "ok s \<Longrightarrow> otp_shut view reads h p i until t s \<Longrightarrow> sorted (t # map snd gs) \<Longrightarrow> \<forall>g\<in>set gs. snd g \<le> u \<Longrightarrow> t \<le> u \<Longrightarrow>
   ok (try_codes st h secret cfg p i gs s) \<and> otp_shut view reads h p i until u (try_codes st h secret cfg p i gs s)"
proof (induction gs arbitrary: s t)
  case Nil
  then show ?case by (auto intro: otp_shut_later)
next
  case (Cons g gs)
  obtain code now where g: "g = (code, now)" by (cases g)
  have "otp_shut view reads h p i until now s" using Cons.prems g by (auto intro: otp_shut_later)
  from verify_shut [OF Cons.prems(1) this] obtain e s' where
      "otp_verify st h secret cfg p i code now s = (Returned (Inl e), s')" "ok s'" "otp_shut view reads h p i until now s'"
    by metis
  with Cons.IH [of s' now] Cons.prems g show ?case by simp
qed

text \<open>
  The wrong code that is the last allowed one, when it comes before the code expires, removes the code
  and sets the lock; later tries change neither.
\<close>

lemma try_codes_locks:
  "ok s \<Longrightarrow> otp_live view h p i r t s \<Longrightarrow> co_hash r = hashCode h secret p i code0 \<Longrightarrow>
   \<forall>g\<in>set gs. hashCode h secret p i (trim (fst g)) \<noteq> co_hash r \<and> snd g \<le> u \<Longrightarrow> sorted (t # map snd gs) \<Longrightarrow> t \<le> u \<Longrightarrow>
   n < length gs \<Longrightarrow> os_maxAttempts cfg = co_attempts r + 1 + int n \<Longrightarrow>
   ok (try_codes st h secret cfg p i gs s) \<and> otp_dead view h p i u (try_codes st h secret cfg p i gs s)
   \<and> (snd (gs ! n) < co_expiresAt r \<longrightarrow>
        otp_shut view reads h p i (snd (gs ! n) + os_lockoutSeconds cfg * 1000) u (try_codes st h secret cfg p i gs s))"
proof (induction gs arbitrary: s t r n)
  case Nil
  then show ?case by simp
next
  case (Cons g gs)
  obtain code now where g: "g = (code, now)" by (cases g)
  have now: "t \<le> now" "now \<le> u" "sorted (now # map snd gs)" using Cons.prems g by auto
  show ?case
  proof (cases "now < co_expiresAt r")
    case False
    have "now \<le> snd ((g # gs) ! n)" using now(3) Cons.prems(7) g by (cases n) auto
    moreover from False otp_live_later [OF Cons.prems(1,2) now(1)] have "otp_dead view h p i now s" by simp
    from try_codes_dead [OF Cons.prems(1) this, of "g # gs" u] Cons.prems now g
    have "ok (try_codes st h secret cfg p i (g # gs) s) \<and> otp_dead view h p i u (try_codes st h secret cfg p i (g # gs) s)" by simp
    ultimately show ?thesis using False by simp
  next
    case True
    with otp_live_later [OF Cons.prems(1,2) now(1)] have live: "otp_live view h p i r now s" by simp
    have "hashCode h secret p i (trim code) \<noteq> co_hash r" using Cons.prems(4) g by simp
    from verify_wrong [OF Cons.prems(1) live Cons.prems(3) this] obtain e s' where
        s': "otp_verify st h secret cfg p i code now s = (Returned (Inl e), s')" "ok s'"
          "if os_maxAttempts cfg \<le> co_attempts r + 1
           then otp_shut view reads h p i (now + os_lockoutSeconds cfg * 1000) now s'
           else otp_live view h p i (r\<lparr>co_attempts := co_attempts r + 1\<rparr>) now s'" by metis
    show ?thesis
    proof (cases n)
      case 0
      with s' Cons.prems(8) have "otp_shut view reads h p i (now + os_lockoutSeconds cfg * 1000) now s'" by simp
      from try_codes_shut [OF s'(2) this now(3), of u secret cfg] Cons.prems(4) now(2)
      have "ok (try_codes st h secret cfg p i gs s')
          \<and> otp_shut view reads h p i (now + os_lockoutSeconds cfg * 1000) u (try_codes st h secret cfg p i gs s')" by simp
      then show ?thesis by (auto simp: g 0 s'(1) intro: otp_shut_dead)
    next
      case (Suc m)
      with s' Cons.prems(8) have "otp_live view h p i (r\<lparr>co_attempts := co_attempts r + 1\<rparr>) now s'" by simp
      from Cons.IH [OF s'(2) this, of m] Cons.prems(3,4,7,8) now Suc s'(1) show ?thesis by (simp add: g)
    qed
  qed
qed

end

section \<open>On the memory store\<close>

text \<open>
  C32: A code that was sent locks: once as many wrong codes as \<open>maxAttempts\<close> were tried one after
  the other, no code is accepted any more, the right one included, until a new one is sent. When the
  last allowed wrong code came before the code expired, the stored code is gone and the lock is set: for
  \<open>lockoutSeconds\<close> from that wrong code on, whatever else was tried, \<open>verify\<close> and \<open>send\<close> answer
  \<open>OTP_LOCKED\<close> with the seconds that remain.
\<close>

theorem otp_attempts_end:
  assumes "memory_ok m" and "0 < os_expiresIn cfg" and "0 < os_maxAttempts cfg"
    and "otp_send memoryStorage h secret cfg channel p i code True t m = (Returned (Inr e), m1)"
    and "\<forall>g\<in>set gs. hashCode h secret p i (trim (fst g)) \<noteq> hashCode h secret p i code"
    and "os_maxAttempts cfg \<le> int (length gs)" and "sorted (t # map snd gs @ [now])"
    and "m2 = try_codes memoryStorage h secret cfg p i gs m1"
    and "last_allowed = snd (gs ! (nat (os_maxAttempts cfg) - 1))"
    and "until = last_allowed + os_lockoutSeconds cfg * 1000"
  shows "(\<exists>err. fst (otp_verify memoryStorage h secret cfg p i any now m2) = Returned (Inl err))
    \<and> (last_allowed < e \<longrightarrow> memory_view now m2 (otp_code_key h p i) = None
         \<and> (now < until \<longrightarrow>
              fst (otp_verify memoryStorage h secret cfg p i any now m2)
                = Returned (Inl (OtpLocked (ceil_seconds (until - now))))
              \<and> fst (otp_send memoryStorage h secret cfg True p i fresh delivered now m2)
                = Returned (Inl (OtpLocked (ceil_seconds (until - now))))))"
proof -
  let ?r = "\<lparr>co_hash = hashCode h secret p i code, co_expiresAt = e, co_attempts = 0, co_sentAt = t\<rparr>"
  let ?n = "nat (os_maxAttempts cfg) - 1"
  have m1: "memory_ok m1" "otp_live memory_view h p i ?r t m1"
    using mem.send_live [OF assms(1,4,2)] by blast+
  have le: "t \<le> now" "\<forall>g\<in>set gs. snd g \<le> now" "sorted (t # map snd gs)"
    using assms(7) by (auto simp: sorted_append)
  have n: "?n < length gs" "os_maxAttempts cfg = co_attempts ?r + 1 + int ?n" using assms(3,6) by auto
  have "memory_ok m2 \<and> otp_dead memory_view h p i now m2
      \<and> (last_allowed < e \<longrightarrow> otp_shut memory_view memory_reads h p i until now m2)"
    using mem.try_codes_locks [OF m1 _ _ le(3,1) n, of secret code] assms(5) le(2)
    by (simp add: assms(8-10))
  then have m2: "memory_ok m2" "otp_dead memory_view h p i now m2"
    and shut: "last_allowed < e \<Longrightarrow> otp_shut memory_view memory_reads h p i until now m2" by auto
  have "\<exists>err. fst (otp_verify memoryStorage h secret cfg p i any now m2) = Returned (Inl err)"
    by (metis mem.verify_dead [OF m2] fst_conv)
  moreover have "memory_view now m2 (otp_code_key h p i) = None" if "last_allowed < e"
    using shut [OF that] by (simp add: otp_shut_def)
  moreover have "fst (otp_verify memoryStorage h secret cfg p i any now m2) = Returned (Inl (OtpLocked (ceil_seconds (until - now))))"
    if "last_allowed < e" "now < until"
    by (metis mem.verify_shut [OF m2(1) shut [OF that(1)]] that(2) fst_conv)
  ultimately show ?thesis using mem.send_shut [OF m2(1) shut] by blast
qed

text \<open>
  A code that was sent is accepted before it expires, and only once: after it was accepted every
  code is refused until a new one is sent.
\<close>

theorem otp_accepted_once:
  assumes "memory_ok m" and "0 < os_expiresIn cfg"
    and "otp_send memoryStorage h secret cfg channel p i code True t m = (Returned (Inr e), m1)"
    and "trim given = code" and "t \<le> now" and "now < e" and "now \<le> later"
  shows "\<exists>m2 err. otp_verify memoryStorage h secret cfg p i given now m1 = (Returned (Inr ()), m2)
    \<and> fst (otp_verify memoryStorage h secret cfg p i any later m2) = Returned (Inl err)"
proof -
  let ?r = "\<lparr>co_hash = hashCode h secret p i code, co_expiresAt = e, co_attempts = 0, co_sentAt = t\<rparr>"
  have m1: "memory_ok m1" "otp_live memory_view h p i ?r t m1"
    using mem.send_live [OF assms(1,3,2)] by blast+
  have live: "otp_live memory_view h p i ?r now m1" using mem.otp_live_later [OF m1 assms(5)] assms(6) by simp
  have "co_hash ?r = hashCode h secret p i (trim given)" using assms(4) by simp
  from mem.verify_right [OF m1(1) live this] obtain m2 where
      m2: "otp_verify memoryStorage h secret cfg p i given now m1 = (Returned (Inr ()), m2)" "memory_ok m2"
        "otp_dead memory_view h p i now m2" by metis
  have "otp_dead memory_view h p i later m2" by (rule mem.otp_dead_later [OF m2(2,3) assms(7)])
  from mem.verify_dead [OF m2(2) this] obtain err m3 where
      "otp_verify memoryStorage h secret cfg p i any later m2 = (Returned (Inl err), m3)" by metis
  with m2(1) show ?thesis by simp
qed

text \<open>For examples: the last character stands for the digest.\<close>

definition last_byte :: "string \<Rightarrow> bytes" where
  "last_byte text = map (\<lambda>c. of_nat (of_char c)) (drop (length text - 1) text)"

definition plain_otp_hashes :: otp_hashes where
  "plain_otp_hashes = \<lparr>oh_digest = last_byte, oh_hmac = (\<lambda>k. last_byte)\<rparr>"

definition default_otp :: otp_settings where
  "default_otp = otp_settings_of \<lparr>oc_codeLength = None, oc_expiresIn = None, oc_maxAttempts = None,
     oc_lockoutSeconds = None, oc_resendCooldownSeconds = None, oc_secret = None\<rparr>"

lemma default_otp_eq: "default_otp = \<lparr>os_length = 6, os_expiresIn = 300, os_maxAttempts = 5,
     os_lockoutSeconds = 900, os_cooldown = 60\<rparr>"
  by (simp add: default_otp_def otp_settings_of_def Let_def)

definition sent_memory :: memory where
  "sent_memory = snd (otp_send memoryStorage plain_otp_hashes None default_otp True ''sign-in'' ''a@b.c'' ''123456'' True 0
     empty_memory)"

lemma sent_ok: "otp_send memoryStorage plain_otp_hashes None default_otp True ''sign-in'' ''a@b.c'' ''123456'' True 0
     empty_memory = (Returned (Inr 300000), sent_memory)"
  unfolding sent_memory_def
  by (simp add: otp_send_def lockRemaining_def read_code_def memoryStorage_def memory_get_def andThen_def live_entry_def
      sweep_def sweep_every_def empty_memory_def memory_set_def Let_def default_otp_eq)

lemma plain_hash_differs: "hashCode plain_otp_hashes None ''sign-in'' ''a@b.c'' (trim ''000000'')
     \<noteq> hashCode plain_otp_hashes None ''sign-in'' ''a@b.c'' ''123456''"
  by code_simp

definition five_wrong :: "(string \<times> time) list" where
  "five_wrong = [(''000000'', 1), (''000000'', 2), (''000000'', 3), (''000000'', 4), (''000000'', 5)]"

theorem otp_attempts_end_witness:
  "fst (otp_verify memoryStorage plain_otp_hashes None default_otp ''sign-in'' ''a@b.c'' ''123456'' 9
     (try_codes memoryStorage plain_otp_hashes None default_otp ''sign-in'' ''a@b.c'' five_wrong sent_memory))
   = Returned (Inl (OtpLocked 900))"
proof -
  have last: "(900005 :: int) = 5 + os_lockoutSeconds default_otp * 1000" by (simp add: default_otp_eq)
  have "ceil_seconds (900005 - 9) = 900" by (simp add: ceil_seconds_def)
  moreover have "5 = snd (five_wrong ! (nat (os_maxAttempts default_otp) - 1))" by (simp add: default_otp_eq five_wrong_def)
  moreover have "sorted (0 # map snd five_wrong @ [9])" "os_maxAttempts default_otp \<le> int (length five_wrong)"
    "\<forall>g\<in>set five_wrong. hashCode plain_otp_hashes None ''sign-in'' ''a@b.c'' (trim (fst g))
       \<noteq> hashCode plain_otp_hashes None ''sign-in'' ''a@b.c'' ''123456''"
    using plain_hash_differs by (simp_all add: five_wrong_def default_otp_eq)
  moreover have "0 < os_expiresIn default_otp" "0 < os_maxAttempts default_otp" by (simp_all add: default_otp_eq)
  ultimately show ?thesis
    using otp_attempts_end [OF empty_memory_ok _ _ sent_ok _ _ _ refl _ last, of five_wrong 9] by simp
qed

theorem otp_accepted_once_witness:
  "\<exists>m2 err. otp_verify memoryStorage plain_otp_hashes None default_otp ''sign-in'' ''a@b.c'' ''123456'' 5 sent_memory
      = (Returned (Inr ()), m2)
    \<and> fst (otp_verify memoryStorage plain_otp_hashes None default_otp ''sign-in'' ''a@b.c'' ''123456'' 6 m2)
      = Returned (Inl err)"
  by (rule otp_accepted_once [OF empty_memory_ok _ sent_ok])
     (auto simp: default_otp_eq trim_def is_space_def)

text \<open>A resend starts the attempts over, so guesses between two sends are not added up.\<close>

lemma resend_resets_attempts:
  assumes "memory_ok m" and "0 < os_expiresIn cfg"
    and "otp_send memoryStorage h secret cfg channel p i code True t m = (Returned (Inr e), m1)"
  shows "\<exists>r. code_at (memory_view t m1 (otp_code_key h p i)) = Some r \<and> co_attempts r = 0"
  using mem.send_live [OF assms(1,3,2)] code_at_live by fastforce

section \<open>Calls of verify that interleave\<close>

text \<open>A call of \<open>verify\<close>, one store operation per step; the comparison belongs to the step after the read.\<close>

datatype otp_pc =
    OtpStart
  | OtpRead
  | OtpMissed stored_code
  | OtpLocking
  | OtpMatched
  | OtpWrong
  | OtpRefused
  | OtpAccepted

definition otp_step ::
  "'s storage \<Rightarrow> otp_hashes \<Rightarrow> string option \<Rightarrow> otp_settings \<Rightarrow> string \<Rightarrow> string \<Rightarrow> string \<Rightarrow> time \<Rightarrow> otp_pc \<Rightarrow> 's \<Rightarrow> otp_pc \<times> 's" where
  "otp_step st h secret cfg p i code t pc s =
     (case pc of
        OtpStart \<Rightarrow>
          (case lockRemaining st (otp_lock_key h p i) t s of
             (Returned locked, s') \<Rightarrow> (if 0 < locked then OtpRefused else OtpRead, s')
           | (Threw, s') \<Rightarrow> (OtpRefused, s'))
      | OtpRead \<Rightarrow>
          (case read_code st (otp_code_key h p i) t s of
             (Returned (Some r), s') \<Rightarrow>
               (if co_expiresAt r \<le> t then OtpRefused
                else (case same_hash (co_hash r) (hashCode h secret p i (trim code)) of
                        Returned True \<Rightarrow> OtpMatched
                      | Returned False \<Rightarrow> OtpMissed r
                      | Threw \<Rightarrow> OtpRefused), s')
           | (_, s') \<Rightarrow> (OtpRefused, s'))
      | OtpMissed r \<Rightarrow>
          (if os_maxAttempts cfg \<le> co_attempts r + 1 then
             (case st_delete st (otp_code_key h p i) t s of
                (Returned _, s') \<Rightarrow> (OtpLocking, s')
              | (Threw, s') \<Rightarrow> (OtpRefused, s'))
           else (OtpWrong,
                 snd (st_set st (otp_code_key h p i) (stringify (code_json (r\<lparr>co_attempts := co_attempts r + 1\<rparr>)))
                        (Some (max 1 (ceil_seconds (co_expiresAt r - t)))) t s)))
      | OtpLocking \<Rightarrow>
          (OtpWrong, snd (st_set st (otp_lock_key h p i) (int_str (t + os_lockoutSeconds cfg * 1000))
                            (Some (os_lockoutSeconds cfg)) t s))
      | OtpMatched \<Rightarrow>
          (case st_delete st (otp_code_key h p i) t s of
             (Returned _, s') \<Rightarrow> (OtpAccepted, s')
           | (Threw, s') \<Rightarrow> (OtpRefused, s'))
      | _ \<Rightarrow> (pc, s))"

definition otp_start :: "nat \<Rightarrow> (memory, otp_pc) world" where
  "otp_start n = \<lparr>wd_shared = sent_memory, wd_callers = replicate n OtpStart, wd_now = 0\<rparr>"

abbreviation otp_demo :: "string \<Rightarrow> time \<Rightarrow> otp_pc \<Rightarrow> memory \<Rightarrow> otp_pc \<times> memory" where
  "otp_demo \<equiv> otp_step memoryStorage plain_otp_hashes None default_otp ''sign-in'' ''a@b.c''"

definition otp_burst :: "(nat \<times> time) list" where
  "otp_burst = concat (map (\<lambda>i. [(i, 1), (i, 1)]) [0..<6]) @ map (\<lambda>i. (i, 2)) [0..<6]"

definition otp_pair :: "(nat \<times> time) list" where
  "otp_pair = [(0, 1), (0, 1), (1, 1), (1, 1), (0, 2), (1, 2)]"

lemma otp_burst_result:
  "wd_callers (run_schedule (otp_demo ''000000'') otp_burst (otp_start 6)) = replicate 6 OtpWrong"
  by code_simp

lemma otp_pair_result:
  "wd_callers (run_schedule (otp_demo ''123456'') otp_pair (otp_start 2)) = [OtpAccepted, OtpAccepted]"
  by code_simp

text \<open>
  Simultaneous calls of \<open>verify\<close> are bounded neither way. With five attempts allowed, six wrong
  codes that are checked together are all compared and none is told that it is locked; and two calls with
  the right code are both accepted.
\<close>

theorem otp_burst_unbounded:
  "(\<exists>w. reaches (\<lambda>w. w = otp_start 6) (interleave (otp_demo ''000000'')) w
      \<and> wd_callers w = replicate 6 OtpWrong \<and> os_maxAttempts default_otp < 6)
   \<and> (\<exists>w. reaches (\<lambda>w. w = otp_start 2) (interleave (otp_demo ''123456'')) w
      \<and> wd_callers w = [OtpAccepted, OtpAccepted])"
proof (intro conjI)
  let ?w = "run_schedule (otp_demo ''000000'') otp_burst (otp_start 6)"
  have r: "reaches (\<lambda>w. w = otp_start 6) (interleave (otp_demo ''000000'')) ?w"
    by (intro run_schedule_reaches reaches_init) (rule refl)
  have l: "os_maxAttempts default_otp < 6" by (simp add: default_otp_eq)
  show "\<exists>w. reaches (\<lambda>w. w = otp_start 6) (interleave (otp_demo ''000000'')) w
      \<and> wd_callers w = replicate 6 OtpWrong \<and> os_maxAttempts default_otp < 6"
    by (rule exI [of _ ?w], intro conjI) (rule r, rule otp_burst_result, rule l)
next
  let ?w = "run_schedule (otp_demo ''123456'') otp_pair (otp_start 2)"
  have r: "reaches (\<lambda>w. w = otp_start 2) (interleave (otp_demo ''123456'')) ?w"
    by (intro run_schedule_reaches reaches_init) (rule refl)
  show "\<exists>w. reaches (\<lambda>w. w = otp_start 2) (interleave (otp_demo ''123456'')) w
      \<and> wd_callers w = [OtpAccepted, OtpAccepted]"
    by (rule exI [of _ ?w], intro conjI) (rule r, rule otp_pair_result)
qed

end
