(* ===== verification/DeviceGrant.thy ===== *)
theory DeviceGrant
  imports Otp
begin

text \<open>
  The device authorization grant of RFC 8628, \<open>packages/core/src/auth/device-auth.ts\<close>, over any
  secondary storage: requesting codes, approving and denying them by user code, and polling for the
  token. Requests are reduced to the parts the handlers read. Handlers that interleave statement by
  statement are proved to issue one token per grant and only to a user who approved it; a poll that
  races with an answer can undo the answer.
\<close>

section \<open>Codes\<close>

definition user_code_alphabet :: string where
  "user_code_alphabet = ''BCDFGHJKLMNPQRSTVWXZ''"

definition code_bytes_limit :: nat where
  "code_bytes_limit = 256 - 256 mod length user_code_alphabet"

definition user_code_chars :: "nat \<Rightarrow> nat list \<Rightarrow> string" where
  "user_code_chars n supply =
     take n (map (\<lambda>b. user_code_alphabet ! (b mod length user_code_alphabet))
       (filter (\<lambda>b. b < code_bytes_limit) supply))"

definition generateUserCode :: "nat \<Rightarrow> nat list \<Rightarrow> string" where
  "generateUserCode segmentLength supply =
     (let chars = user_code_chars (segmentLength * 2) supply
      in take segmentLength chars @ CHR ''-'' # drop segmentLength chars)"

definition to_upper :: "char \<Rightarrow> char" where
  "to_upper c =
     (let n = (of_char c :: nat) in if 97 \<le> n \<and> n \<le> 122 then char_of (n - 32) else c)"

definition normaliseUserCode :: "string \<Rightarrow> string" where
  "normaliseUserCode raw = filter (\<lambda>c. \<not> is_space c \<and> c \<noteq> CHR ''-'') (map to_upper (trim raw))"

section \<open>Grants\<close>

datatype grant_state = GrantPending | GrantAuthorized | GrantDenied

record stored_grant =
  sg_state :: grant_state
  sg_userCodeHash :: string
  sg_expiresAt :: time
  sg_interval :: int
  sg_userId :: "ident option"
  sg_clientId :: "string option"
  sg_scope :: "string option"

definition state_text :: "grant_state \<Rightarrow> string" where
  "state_text st =
     (case st of GrantPending \<Rightarrow> ''pending'' | GrantAuthorized \<Rightarrow> ''authorized'' | GrantDenied \<Rightarrow> ''denied'')"

definition optional_member :: "string \<Rightarrow> string option \<Rightarrow> (string \<times> json) list" where
  "optional_member name v = (case v of None \<Rightarrow> [] | Some x \<Rightarrow> [(name, JStr x)])"

definition grant_json :: "stored_grant \<Rightarrow> json" where
  "grant_json g =
     JObj ([(''state'', JStr (state_text (sg_state g))), (''userCodeHash'', JStr (sg_userCodeHash g)),
            (''expiresAt'', JNum (sg_expiresAt g)), (''interval'', JNum (sg_interval g))]
           @ optional_member ''clientId'' (sg_clientId g) @ optional_member ''scope'' (sg_scope g)
           @ optional_member ''userId'' (sg_userId g))"

definition text_member :: "(string \<times> json) list \<Rightarrow> string \<Rightarrow> string option" where
  "text_member kvs name = (case map_of kvs name of Some (JStr x) \<Rightarrow> Some x | _ \<Rightarrow> None)"

text \<open>\<open>JSON.parse(raw) as StoredGrant\<close>, on the texts the module writes.\<close>

definition grant_of_json :: "json \<Rightarrow> stored_grant option" where
  "grant_of_json j =
     (case j of
        JObj kvs \<Rightarrow>
          (case (map_of [(''pending'', GrantPending), (''authorized'', GrantAuthorized), (''denied'', GrantDenied)]
                   (case text_member kvs ''state'' of Some x \<Rightarrow> x | None \<Rightarrow> []),
                 text_member kvs ''userCodeHash'', map_of kvs ''expiresAt'', map_of kvs ''interval'') of
             (Some state, Some u, Some (JNum e), Some (JNum i)) \<Rightarrow>
               Some \<lparr>sg_state = state, sg_userCodeHash = u, sg_expiresAt = e, sg_interval = i,
                     sg_userId = text_member kvs ''userId'', sg_clientId = text_member kvs ''clientId'',
                     sg_scope = text_member kvs ''scope''\<rparr>
           | _ \<Rightarrow> None)
      | _ \<Rightarrow> None)"

definition grant_of_text :: "string \<Rightarrow> stored_grant option" where
  "grant_of_text raw = Option.bind (json_parse raw) grant_of_json"

text \<open>A grant is read back from the store as it was saved.\<close>

theorem grant_roundtrip: "grant_of_text (stringify (grant_json g)) = Some g"
proof -
  have "json_parse (stringify (grant_json g)) = Some (grant_json g)"
    by (rule json_roundtrip) (auto simp: grant_json_def optional_member_def split: option.splits)
  moreover have "grant_of_json (grant_json g) = Some g"
    by (cases g; cases "sg_state g"; cases "sg_clientId g"; cases "sg_scope g"; cases "sg_userId g")
       (simp_all add: grant_json_def grant_of_json_def optional_member_def text_member_def state_text_def)
  ultimately show ?thesis by (simp add: grant_of_text_def)
qed

section \<open>The module\<close>

record device_config =
  dv_codeExpirySeconds :: int
  dv_baseInterval :: int
  dv_attemptLimit :: int
  dv_attemptWindow :: int
  dv_allowedOrigins :: "string list"

definition device_key :: "string \<Rightarrow> string" where
  "device_key hash = ''device:'' @ hash"

definition user_key :: "string \<Rightarrow> string" where
  "user_key hash = ''user:'' @ hash"

definition attempts_key :: "ident \<Rightarrow> string" where
  "attempts_key actor = ''attempts:'' @ actor"

definition poll_key :: "string \<Rightarrow> string" where
  "poll_key hash = ''poll:'' @ hash"

definition claim_key :: "string \<Rightarrow> string" where
  "claim_key hash = ''claim:'' @ hash"

datatype device_error = InvalidUserCode | AlreadyHandled grant_state | TooManyAttempts

definition fresh_grant :: "time \<Rightarrow> string option \<Rightarrow> stored_grant option" where
  "fresh_grant now raw =
     (case Option.bind raw (\<lambda>r. if r = [] then None else grant_of_text r) of
        None \<Rightarrow> None
      | Some g \<Rightarrow> if now < sg_expiresAt g then Some g else None)"

definition load :: "'s storage \<Rightarrow> string \<Rightarrow> time \<Rightarrow> ('s, stored_grant option) action" where
  "load st deviceHash now = andThen (st_get st (device_key deviceHash) now) (\<lambda>raw. answer (fresh_grant now raw))"

definition save :: "'s storage \<Rightarrow> string \<Rightarrow> stored_grant \<Rightarrow> time \<Rightarrow> ('s, unit) action" where
  "save st deviceHash g now =
     st_set st (device_key deviceHash) (stringify (grant_json g)) (Some (max (ceil_seconds (sg_expiresAt g - now)) 1)) now"

definition destroy :: "'s storage \<Rightarrow> string \<Rightarrow> stored_grant \<Rightarrow> time \<Rightarrow> ('s, unit) action" where
  "destroy st deviceHash g now =
     andThen (st_delete st (device_key deviceHash) now) (\<lambda>_. st_delete st (user_key (sg_userCodeHash g)) now)"

text \<open>\<open>Number.parseInt(raw ?? "0", 10) >= limit\<close>; a text without digits is not.\<close>

definition attempts_used_up :: "device_config \<Rightarrow> string option \<Rightarrow> bool" where
  "attempts_used_up cfg raw \<longleftrightarrow>
     (case parseInt10 (case raw of Some r \<Rightarrow> r | None \<Rightarrow> ''0'') of
        Some used \<Rightarrow> dv_attemptLimit cfg \<le> used
      | None \<Rightarrow> False)"

definition lookupByUserCode ::
  "'s storage \<Rightarrow> device_config \<Rightarrow> (string \<Rightarrow> string) \<Rightarrow> string \<Rightarrow> ident \<Rightarrow> time \<Rightarrow>
   ('s, device_error + (string \<times> stored_grant)) action" where
  "lookupByUserCode st cfg sha userCode actorId now =
     andThen (st_get st (attempts_key actorId) now) (\<lambda>raw.
     if attempts_used_up cfg raw then answer (Inl TooManyAttempts)
     else
       andThen (st_get st (user_key (sha (normaliseUserCode userCode))) now) (\<lambda>found.
       andThen (case found of
                  None \<Rightarrow> answer None
                | Some d \<Rightarrow> if d = [] then answer None else load st d now) (\<lambda>grant.
       case (found, grant) of
         (Some d, Some g) \<Rightarrow> answer (Inr (d, g))
       | _ \<Rightarrow> andThen (st_incr st (attempts_key actorId) (dv_attemptWindow cfg) now) (\<lambda>_.
                answer (Inl InvalidUserCode)))))"

record device_request =
  dr_clientId :: "string option"
  dr_scope :: "string option"

text \<open>The device code and the user code are drawn; both are stored by their hash.\<close>

definition requestCode ::
  "'s storage \<Rightarrow> device_config \<Rightarrow> (string \<Rightarrow> string) \<Rightarrow> string \<Rightarrow> string \<Rightarrow> device_request \<Rightarrow> time \<Rightarrow> ('s, unit) action" where
  "requestCode st cfg sha deviceCode userCode request now =
     (let deviceHash = sha deviceCode; userCodeHash = sha (normaliseUserCode userCode)
      in andThen (save st deviceHash
                    \<lparr>sg_state = GrantPending, sg_userCodeHash = userCodeHash,
                     sg_expiresAt = now + dv_codeExpirySeconds cfg * 1000, sg_interval = dv_baseInterval cfg,
                     sg_userId = None, sg_clientId = dr_clientId request, sg_scope = dr_scope request\<rparr> now) (\<lambda>_.
         st_set st (user_key userCodeHash) deviceHash (Some (dv_codeExpirySeconds cfg)) now))"

datatype device_status = StatusExpired | StatusAuthorized ident | StatusDenied | StatusPending

text \<open>\<open>grant.state === "authorized" && grant.userId\<close>: the empty id counts as none.\<close>

definition approved_user :: "stored_grant \<Rightarrow> ident option" where
  "approved_user g = (case sg_userId g of Some u \<Rightarrow> if u = [] then None else Some u | None \<Rightarrow> None)"

definition checkAuthorization :: "'s storage \<Rightarrow> (string \<Rightarrow> string) \<Rightarrow> string \<Rightarrow> time \<Rightarrow> ('s, device_status) action" where
  "checkAuthorization st sha deviceCode now =
     andThen (load st (sha deviceCode) now) (\<lambda>grant.
     answer (case grant of
               None \<Rightarrow> StatusExpired
             | Some g \<Rightarrow>
                 (case (sg_state g, approved_user g) of
                    (GrantAuthorized, Some u) \<Rightarrow> StatusAuthorized u
                  | _ \<Rightarrow> if sg_state g = GrantDenied then StatusDenied else StatusPending)))"

definition resolve_grant ::
  "'s storage \<Rightarrow> device_config \<Rightarrow> (string \<Rightarrow> string) \<Rightarrow> string \<Rightarrow> ident \<Rightarrow> grant_state \<Rightarrow> ident option \<Rightarrow> time \<Rightarrow>
   ('s, device_error + stored_grant) action" where
  "resolve_grant st cfg sha userCode actorId verdict userId now =
     andThen (lookupByUserCode st cfg sha userCode actorId now) (\<lambda>found.
     case found of
       Inl e \<Rightarrow> answer (Inl e)
     | Inr (d, g) \<Rightarrow>
         if sg_state g \<noteq> GrantPending then answer (Inl (AlreadyHandled (sg_state g)))
         else let g' = g\<lparr>sg_state := verdict, sg_userId := userId\<rparr>
              in andThen (save st d g' now) (\<lambda>_. answer (Inr g')))"

definition authorize_device ::
  "'s storage \<Rightarrow> device_config \<Rightarrow> (string \<Rightarrow> string) \<Rightarrow> string \<Rightarrow> ident \<Rightarrow> time \<Rightarrow> ('s, device_error + stored_grant) action" where
  "authorize_device st cfg sha userCode userId now =
     resolve_grant st cfg sha userCode userId GrantAuthorized (Some userId) now"

definition deny_device ::
  "'s storage \<Rightarrow> device_config \<Rightarrow> (string \<Rightarrow> string) \<Rightarrow> string \<Rightarrow> ident option \<Rightarrow> time \<Rightarrow> ('s, device_error + stored_grant) action" where
  "deny_device st cfg sha userCode actorId now =
     resolve_grant st cfg sha userCode (case actorId of Some a \<Rightarrow> a | None \<Rightarrow> ''anonymous'') GrantDenied None now"

section \<open>The endpoints\<close>

record device_token =
  dt_accessToken :: string
  dt_tokenType :: "string option"
  dt_expiresIn :: "int option"
  dt_refreshToken :: "string option"

datatype issue_result = Minted device_token | Gated | IssueThrew

type_synonym issue_token = "ident \<Rightarrow> string option \<Rightarrow> string option \<Rightarrow> issue_result"

text \<open>What an endpoint answers; \<open>OauthError\<close> holds the error, the status and the new interval.\<close>

datatype device_response =
    OauthError string int "int option"
  | CodeIssued string string int int
  | Approved
  | Refused
  | Token ident "device_token option" "string option"
  | GateChallenge
  | EndpointThrew

definition str_field :: "(string \<times> json) list \<Rightarrow> string \<Rightarrow> nat \<Rightarrow> string option" where
  "str_field body name len =
     (case text_member body name of
        None \<Rightarrow> None
      | Some x \<Rightarrow> if x = [] then None else Some (take len x))"

definition device_code_grant_type :: string where
  "device_code_grant_type = ''urn:ietf:params:oauth:grant-type:device_code''"

definition slow_down_step :: int where
  "slow_down_step = 5"

definition handleCode ::
  "'s storage \<Rightarrow> device_config \<Rightarrow> (string \<Rightarrow> string) \<Rightarrow> string \<Rightarrow> string \<Rightarrow> (string \<times> json) list \<Rightarrow> time \<Rightarrow>
   ('s, device_response) action" where
  "handleCode st cfg sha deviceCode userCode body now =
     andThen (requestCode st cfg sha deviceCode userCode
                \<lparr>dr_clientId = str_field body ''client_id'' 256, dr_scope = str_field body ''scope'' 512\<rparr> now) (\<lambda>_.
     answer (CodeIssued deviceCode userCode (dv_codeExpirySeconds cfg) (dv_baseInterval cfg)))"

definition issue_response :: "issue_token option \<Rightarrow> ident \<Rightarrow> stored_grant \<Rightarrow> device_response" where
  "issue_response issue userId g =
     (case issue of
        None \<Rightarrow> Token userId None None
      | Some f \<Rightarrow>
          (case f userId (sg_clientId g) (sg_scope g) of
             Minted token \<Rightarrow> Token userId (Some token)
               (case sg_scope g of Some sc \<Rightarrow> if sc = [] then None else Some sc | None \<Rightarrow> None)
           | Gated \<Rightarrow> GateChallenge
           | IssueThrew \<Rightarrow> EndpointThrew))"

text \<open>The part of the token endpoint after the grant was loaded.\<close>

definition poll_grant ::
  "'s storage \<Rightarrow> device_config \<Rightarrow> issue_token option \<Rightarrow> string \<Rightarrow> stored_grant \<Rightarrow> time \<Rightarrow> ('s, device_response) action" where
  "poll_grant st cfg issue d g now =
     andThen (st_incr st (poll_key d) (max (sg_interval g - 1) 1) now) (\<lambda>(count, _).
     if 1 < count then
       (let g' = g\<lparr>sg_interval := sg_interval g + slow_down_step\<rparr>
        in andThen (save st d g' now) (\<lambda>_. answer (OauthError ''slow_down'' 400 (Some (sg_interval g')))))
     else if sg_state g = GrantPending then answer (OauthError ''authorization_pending'' 400 None)
     else if sg_state g = GrantDenied then
       andThen (destroy st d g now) (\<lambda>_. answer (OauthError ''access_denied'' 400 None))
     else
       andThen (st_incr st (claim_key d) (dv_codeExpirySeconds cfg) now) (\<lambda>(claims, _).
       case approved_user g of
         Some userId \<Rightarrow>
           if 1 < claims then answer (OauthError ''expired_token'' 400 None)
           else andThen (destroy st d g now) (\<lambda>_. answer (issue_response issue userId g))
       | None \<Rightarrow> answer (OauthError ''expired_token'' 400 None)))"

definition token_body ::
  "'s storage \<Rightarrow> device_config \<Rightarrow> (string \<Rightarrow> string) \<Rightarrow> issue_token option \<Rightarrow> (string \<times> json) list \<Rightarrow> time \<Rightarrow>
   ('s, device_response) action" where
  "token_body st cfg sha issue body now =
     (case str_field body ''device_code'' 512 of
        None \<Rightarrow> answer (OauthError ''invalid_request'' 400 None)
      | Some deviceCode \<Rightarrow>
          andThen (load st (sha deviceCode) now) (\<lambda>grant.
          case grant of
            None \<Rightarrow> answer (OauthError ''expired_token'' 400 None)
          | Some g \<Rightarrow> poll_grant st cfg issue (sha deviceCode) g now))"

definition handleToken ::
  "'s storage \<Rightarrow> device_config \<Rightarrow> (string \<Rightarrow> string) \<Rightarrow> issue_token option \<Rightarrow> (string \<times> json) list \<Rightarrow> time \<Rightarrow>
   ('s, device_response) action" where
  "handleToken st cfg sha issue body now =
     (case str_field body ''grant_type'' 256 of
        Some t \<Rightarrow>
          if t \<noteq> device_code_grant_type then answer (OauthError ''unsupported_grant_type'' 400 None)
          else token_body st cfg sha issue body now
      | None \<Rightarrow> token_body st cfg sha issue body now)"

text \<open>
  A request to approve: the origin the browser sent, the content type, and the signed-in user, as
  \<open>opts.user\<close> or \<open>resolveUser\<close> gives it.
\<close>

record authorize_request =
  ar_origin :: "string option"
  ar_contentType :: string
  ar_user :: "ident option"
  ar_body :: "(string \<times> json) list"

fun includes_text :: "string \<Rightarrow> string \<Rightarrow> bool" where
  "includes_text p [] = (p = [])"
| "includes_text p (c # s) = (starts_with p (c # s) \<or> includes_text p s)"

definition answer_for :: "device_response \<Rightarrow> device_error + stored_grant \<Rightarrow> device_response" where
  "answer_for done out =
     (case out of
        Inr _ \<Rightarrow> done
      | Inl TooManyAttempts \<Rightarrow> OauthError ''invalid_request'' 429 None
      | Inl _ \<Rightarrow> OauthError ''invalid_request'' 400 None)"

definition handleAuthorize ::
  "'s storage \<Rightarrow> device_config \<Rightarrow> (string \<Rightarrow> string) \<Rightarrow> authorize_request \<Rightarrow> time \<Rightarrow> ('s, device_response) action" where
  "handleAuthorize st cfg sha request now =
     (if (case ar_origin request of Some x \<Rightarrow> x \<noteq> [] \<and> x \<notin> set (dv_allowedOrigins cfg) | None \<Rightarrow> False)
      then answer (OauthError ''access_denied'' 403 None)
      else if \<not> includes_text ''application/json'' (ar_contentType request)
      then answer (OauthError ''invalid_request'' 400 None)
      else (case ar_user request of
              None \<Rightarrow> answer (OauthError ''login_required'' 401 None)
            | Some user \<Rightarrow>
                (case str_field (ar_body request) ''user_code'' 64 of
                   None \<Rightarrow> answer (OauthError ''invalid_request'' 400 None)
                 | Some userCode \<Rightarrow>
                     let verb = (case str_field (ar_body request) ''action'' 256 of Some a \<Rightarrow> a | None \<Rightarrow> ''approve'')
                     in if verb \<noteq> ''approve'' \<and> verb \<noteq> ''deny'' then answer (OauthError ''invalid_request'' 400 None)
                        else (\<lambda>s.
                          case (if verb = ''deny'' then deny_device st cfg sha userCode (Some user) now
                                else authorize_device st cfg sha userCode user now) s of
                            (Threw, s') \<Rightarrow> (Returned (OauthError ''server_error'' 500 None), s')
                          | (Returned out, s') \<Rightarrow>
                              (Returned (answer_for (if verb = ''deny'' then Refused else Approved) out), s')))))"

section \<open>Handlers that interleave\<close>

text \<open>
  A caller is a poll for a device hash, or an answer to a user code hash by an actor, with the verdict
  and the user it would store. One store operation per step. A claim keeps the instant it was won.
\<close>

datatype device_pc =
    PollStart string
  | PollCount string stored_grant
  | PollSlow string stored_grant
  | PollClaim string stored_grant
  | PollClear string stored_grant "(ident \<times> time) option"
  | PollClearUser string stored_grant "(ident \<times> time) option"
  | PollToken string ident time
  | AnswerStart string ident grant_state "ident option"
  | AnswerUser string ident grant_state "ident option"
  | AnswerLoad string ident grant_state "ident option"
  | AnswerMiss ident
  | AnswerSave string stored_grant
  | AnswerDone string stored_grant
  | DeviceStop

fun device_step :: "'s storage \<Rightarrow> device_config \<Rightarrow> time \<Rightarrow> device_pc \<Rightarrow> 's \<Rightarrow> device_pc \<times> 's" where
  "device_step st cfg t (PollStart d) s =
     (case load st d t s of
        (Returned (Some g), s') \<Rightarrow> (PollCount d g, s')
      | (_, s') \<Rightarrow> (DeviceStop, s'))"
| "device_step st cfg t (PollCount d g) s =
     (case st_incr st (poll_key d) (max (sg_interval g - 1) 1) t s of
        (Returned (n, _), s') \<Rightarrow>
          (if 1 < n then PollSlow d (g\<lparr>sg_interval := sg_interval g + slow_down_step\<rparr>)
           else if sg_state g = GrantPending then DeviceStop
           else if sg_state g = GrantDenied then PollClear d g None
           else PollClaim d g, s')
      | (Threw, s') \<Rightarrow> (DeviceStop, s'))"
| "device_step st cfg t (PollSlow d g) s = (DeviceStop, snd (save st d g t s))"
| "device_step st cfg t (PollClaim d g) s =
     (case st_incr st (claim_key d) (dv_codeExpirySeconds cfg) t s of
        (Returned (n, _), s') \<Rightarrow>
          (case approved_user g of
             Some u \<Rightarrow> if 1 < n then DeviceStop else PollClear d g (Some (u, t))
           | None \<Rightarrow> DeviceStop, s')
      | (Threw, s') \<Rightarrow> (DeviceStop, s'))"
| "device_step st cfg t (PollClear d g won) s =
     (case st_delete st (device_key d) t s of
        (Returned _, s') \<Rightarrow> (PollClearUser d g won, s')
      | (Threw, s') \<Rightarrow> (DeviceStop, s'))"
| "device_step st cfg t (PollClearUser d g won) s =
     (case st_delete st (user_key (sg_userCodeHash g)) t s of
        (Returned _, s') \<Rightarrow> (case won of Some (u, c) \<Rightarrow> PollToken d u c | None \<Rightarrow> DeviceStop, s')
      | (Threw, s') \<Rightarrow> (DeviceStop, s'))"
| "device_step st cfg t (PollToken d u c) s = (PollToken d u c, s)"
| "device_step st cfg t (AnswerStart h actor v uid) s =
     (case st_get st (attempts_key actor) t s of
        (Returned raw, s') \<Rightarrow> (if attempts_used_up cfg raw then DeviceStop else AnswerUser h actor v uid, s')
      | (Threw, s') \<Rightarrow> (DeviceStop, s'))"
| "device_step st cfg t (AnswerUser h actor v uid) s =
     (case st_get st (user_key h) t s of
        (Returned (Some d), s') \<Rightarrow> (if d = [] then AnswerMiss actor else AnswerLoad d actor v uid, s')
      | (Returned None, s') \<Rightarrow> (AnswerMiss actor, s')
      | (Threw, s') \<Rightarrow> (DeviceStop, s'))"
| "device_step st cfg t (AnswerLoad d actor v uid) s =
     (case load st d t s of
        (Returned (Some g), s') \<Rightarrow>
          (if sg_state g \<noteq> GrantPending then DeviceStop else AnswerSave d (g\<lparr>sg_state := v, sg_userId := uid\<rparr>), s')
      | (Returned None, s') \<Rightarrow> (AnswerMiss actor, s')
      | (Threw, s') \<Rightarrow> (DeviceStop, s'))"
| "device_step st cfg t (AnswerMiss actor) s =
     (DeviceStop, snd (st_incr st (attempts_key actor) (dv_attemptWindow cfg) t s))"
| "device_step st cfg t (AnswerSave d g) s = (AnswerDone d g, snd (save st d g t s))"
| "device_step st cfg t (AnswerDone d g) s = (AnswerDone d g, s)"
| "device_step st cfg t DeviceStop s = (DeviceStop, s)"

lemma device_keys_distinct [simp]:
  "claim_key d \<noteq> device_key e" "claim_key d \<noteq> user_key e" "claim_key d \<noteq> poll_key e" "claim_key d \<noteq> attempts_key e"
  "device_key d \<noteq> claim_key e" "device_key d \<noteq> user_key e" "device_key d \<noteq> poll_key e" "device_key d \<noteq> attempts_key e"
  by (simp_all add: claim_key_def device_key_def user_key_def poll_key_def attempts_key_def)

lemma device_keys_inject [simp]: "claim_key d = claim_key e \<longleftrightarrow> d = e" "device_key d = device_key e \<longleftrightarrow> d = e"
  by (simp_all add: claim_key_def device_key_def)

text \<open>The grant a reader finds under a device hash.\<close>

definition grant_at :: "cell option \<Rightarrow> stored_grant option" where
  "grant_at c = Option.bind c (\<lambda>c. grant_of_text (cl_value c))"

lemma fresh_grant_at: "fresh_grant t (map_option cl_value c) = Some g \<Longrightarrow> grant_at c = Some g"
  by (cases c) (auto simp: fresh_grant_def grant_at_def split: option.splits if_splits)

lemma grant_at_alive: "grant_at (alive u c) = Some g' \<Longrightarrow> grant_at (Some c) = Some g \<Longrightarrow> g' = g"
  by (cases "alive u c") (auto simp: grant_at_def dest: alive_SomeD)

context secondary_storage
begin

lemma get_effect:
  "ok s \<Longrightarrow> st_get st k t s = (r, s') \<Longrightarrow>
   r = Returned (map_option cl_value (view t s k)) \<and> ok s' \<and> (\<forall>u\<ge>t. view u s' = view u s)"
  using get_law [of s k t] by auto

lemma load_effect:
  "ok s \<Longrightarrow> load st d t s = (r, s') \<Longrightarrow>
   r = Returned (fresh_grant t (map_option cl_value (view t s (device_key d)))) \<and> ok s' \<and> (\<forall>u\<ge>t. view u s' = view u s)"
  using get_law [of s "device_key d" t] by (auto simp: load_def)

lemma delete_effect:
  "ok s \<Longrightarrow> st_delete st k t s = (r, s') \<Longrightarrow>
   r = Returned () \<and> ok s' \<and> (\<forall>u\<ge>t. view u s' = (view u s)(k := None))"
  using delete_law [of s k t] by auto

lemma incr_effect:
  "ok s \<Longrightarrow> st_incr st k ttl t s = (r, s') \<Longrightarrow>
   \<exists>n x. r = Returned (n, x) \<and> bumped (view t s k) ttl t = (n, x) \<and> ok s'
     \<and> (\<forall>u\<ge>t. view u s' = (view u s)(k := alive u (counter_cell n x)))"
proof -
  assume a: "ok s" "st_incr st k ttl t s = (r, s')"
  obtain n x where b: "bumped (view t s k) ttl t = (n, x)" by (cases "bumped (view t s k) ttl t")
  from incr_law [OF a(1) b] a(2) b show ?thesis by auto
qed

lemma save_effect:
  assumes "ok s" and "save st d g t s = (r, s')"
  shows "ok s' \<and> (\<exists>c. grant_at (Some c) = Some g \<and> (\<forall>u\<ge>t. view u s' = (view u s)(device_key d := alive u c)))"
proof -
  let ?ttl = "Some (max (ceil_seconds (sg_expiresAt g - t)) 1)"
  let ?c = "\<lparr>cl_value = stringify (grant_json g),
    cl_count = reads (stringify (grant_json g)) (map_option (\<lambda>n. t + n * 1000) ?ttl),
    cl_expires = map_option (\<lambda>n. t + n * 1000) ?ttl\<rparr>"
  have "ok s' \<and> (\<forall>u\<ge>t. view u s' = (view u s)(device_key d := alive u ?c))"
    using set_law [OF assms(1), of "device_key d" "stringify (grant_json g)" ?ttl t] assms(2)
    unfolding save_def by (metis prod.inject)
  moreover have "grant_at (Some ?c) = Some g" by (simp add: grant_at_def grant_roundtrip)
  ultimately show ?thesis by blast
qed

end

text \<open>The claim a caller has won on a device hash, the grant it holds, and the approvals given.\<close>

fun claimed :: "string \<Rightarrow> device_pc \<Rightarrow> (ident \<times> time) option" where
  "claimed d (PollClear e g won) = (if e = d then won else None)"
| "claimed d (PollClearUser e g won) = (if e = d then won else None)"
| "claimed d (PollToken e u c) = (if e = d then Some (u, c) else None)"
| "claimed d _ = None"

fun holds :: "string \<Rightarrow> device_pc \<Rightarrow> stored_grant option" where
  "holds d (PollCount e g) = (if e = d then Some g else None)"
| "holds d (PollSlow e g) = (if e = d then Some g else None)"
| "holds d (PollClaim e g) = (if e = d then Some g else None)"
| "holds d _ = None"

definition approved_by :: "string \<Rightarrow> device_pc list \<Rightarrow> ident \<Rightarrow> bool" where
  "approved_by d pcs u \<longleftrightarrow>
     (\<exists>g. AnswerDone d g \<in> set pcs \<and> sg_state g = GrantAuthorized \<and> sg_userId g = Some u)"

definition grant_ok :: "string \<Rightarrow> device_pc list \<Rightarrow> stored_grant \<Rightarrow> bool" where
  "grant_ok d pcs g \<longleftrightarrow> sg_state g = GrantAuthorized \<longrightarrow> (\<forall>u. sg_userId g = Some u \<longrightarrow> approved_by d pcs u)"

definition claim_ok :: "cell option \<Rightarrow> bool" where
  "claim_ok c \<longleftrightarrow> (\<forall>d. c = Some d \<longrightarrow> (\<exists>n x. 1 \<le> n \<and> d = counter_cell n x))"

definition claim_held :: "int \<Rightarrow> cell option \<Rightarrow> time \<Rightarrow> time \<Rightarrow> bool" where
  "claim_held span c now won \<longleftrightarrow>
     won \<le> now \<and> (now < won + span \<longrightarrow> (\<exists>n x. 1 \<le> n \<and> won + span \<le> x \<and> c = Some (counter_cell n x)))"

definition span_of :: "device_config \<Rightarrow> int" where
  "span_of cfg = dv_codeExpirySeconds cfg * 1000"

context secondary_storage
begin

lemma claim_effect:
  assumes "ok s" and "device_step st cfg t pc s = (pc', s')"
  shows "ok s' \<and>
    ((\<exists>g n x. pc = PollClaim d g \<and> bumped (view t s (claim_key d)) (dv_codeExpirySeconds cfg) t = (n, x)
        \<and> view t s' (claim_key d) = alive t (counter_cell n x)
        \<and> claimed d pc' = (if 1 < n then None else map_option (\<lambda>u. (u, t)) (approved_user g)))
     \<or> view t s' (claim_key d) = view t s (claim_key d) \<and> claimed d pc' = claimed d pc)"
proof (cases pc)
  case (PollStart e)
  obtain r s1 where l: "load st e t s = (r, s1)" by (cases "load st e t s")
  with load_effect [OF assms(1) l] assms(2) PollStart show ?thesis by (auto split: reply.splits option.splits)
next
  case (PollCount e g)
  obtain r s1 where l: "st_incr st (poll_key e) (max (sg_interval g - 1) 1) t s = (r, s1)"
    by (cases "st_incr st (poll_key e) (max (sg_interval g - 1) 1) t s")
  with incr_effect [OF assms(1) l] assms(2) PollCount show ?thesis by (auto split: if_splits)
next
  case (PollSlow e g)
  obtain r s1 where l: "save st e g t s = (r, s1)" by (cases "save st e g t s")
  with save_effect [OF assms(1) l] assms(2) PollSlow show ?thesis by auto
next
  case (PollClaim e g)
  obtain r s1 where l: "st_incr st (claim_key e) (dv_codeExpirySeconds cfg) t s = (r, s1)"
    by (cases "st_incr st (claim_key e) (dv_codeExpirySeconds cfg) t s")
  from incr_effect [OF assms(1) l] obtain n x where i: "r = Returned (n, x)"
      "bumped (view t s (claim_key e)) (dv_codeExpirySeconds cfg) t = (n, x)" "ok s1"
      "view t s1 = (view t s)(claim_key e := alive t (counter_cell n x))" by blast
  have s': "s' = s1" "claimed d pc' = (if e = d \<and> \<not> 1 < n then map_option (\<lambda>u. (u, t)) (approved_user g) else None)"
    using assms(2) l i(1) PollClaim by (auto split: option.splits if_splits)
  show ?thesis
  proof (cases "e = d")
    case True
    with i s' PollClaim show ?thesis by (intro conjI disjI1 exI [of _ g] exI [of _ n] exI [of _ x]) simp_all
  next
    case False
    with i s' PollClaim show ?thesis by simp
  qed
next
  case (PollClear e g won)
  obtain r s1 where l: "st_delete st (device_key e) t s = (r, s1)" by (cases "st_delete st (device_key e) t s")
  with delete_effect [OF assms(1) l] assms(2) PollClear show ?thesis by auto
next
  case (PollClearUser e g won)
  obtain r s1 where l: "st_delete st (user_key (sg_userCodeHash g)) t s = (r, s1)"
    by (cases "st_delete st (user_key (sg_userCodeHash g)) t s")
  with delete_effect [OF assms(1) l] assms(2) PollClearUser show ?thesis by (auto split: option.splits)
next
  case (AnswerStart h actor v uid)
  obtain r s1 where l: "st_get st (attempts_key actor) t s = (r, s1)" by (cases "st_get st (attempts_key actor) t s")
  with get_effect [OF assms(1) l] assms(2) AnswerStart show ?thesis by (auto split: if_splits)
next
  case (AnswerUser h actor v uid)
  obtain r s1 where l: "st_get st (user_key h) t s = (r, s1)" by (cases "st_get st (user_key h) t s")
  with get_effect [OF assms(1) l] assms(2) AnswerUser show ?thesis by (auto split: option.splits if_splits)
next
  case (AnswerLoad e actor v uid)
  obtain r s1 where l: "load st e t s = (r, s1)" by (cases "load st e t s")
  with load_effect [OF assms(1) l] assms(2) AnswerLoad show ?thesis by (auto split: option.splits if_splits)
next
  case (AnswerMiss actor)
  obtain r s1 where l: "st_incr st (attempts_key actor) (dv_attemptWindow cfg) t s = (r, s1)"
    by (cases "st_incr st (attempts_key actor) (dv_attemptWindow cfg) t s")
  with incr_effect [OF assms(1) l] assms(2) AnswerMiss show ?thesis by auto
next
  case (AnswerSave e g)
  obtain r s1 where l: "save st e g t s = (r, s1)" by (cases "save st e g t s")
  with save_effect [OF assms(1) l] assms(2) AnswerSave show ?thesis by auto
qed (use assms in auto)

lemma grant_effect:
  assumes "ok s" and "device_step st cfg t pc s = (pc', s')"
  shows "(\<forall>g. grant_at (view t s' (device_key d)) = Some g \<longrightarrow>
      grant_at (view t s (device_key d)) = Some g \<or> pc = PollSlow d g \<or> pc = AnswerSave d g \<and> pc' = AnswerDone d g)
    \<and> (\<forall>g. holds d pc' = Some g \<longrightarrow>
      grant_at (view t s (device_key d)) = Some g
      \<or> (\<exists>g0. holds d pc = Some g0 \<and> sg_state g = sg_state g0 \<and> sg_userId g = sg_userId g0))
    \<and> (\<forall>g. pc' = PollClaim d g \<longrightarrow> sg_state g = GrantAuthorized \<or> pc = PollClaim d g)
    \<and> (\<forall>g. pc = AnswerDone d g \<longrightarrow> pc' = AnswerDone d g)"
proof (cases pc)
  case (PollStart e)
  obtain r s1 where l: "load st e t s = (r, s1)" by (cases "load st e t s")
  with load_effect [OF assms(1) l] assms(2) PollStart show ?thesis
    by (auto split: reply.splits option.splits if_splits dest: fresh_grant_at)
next
  case (PollCount e g)
  obtain r s1 where l: "st_incr st (poll_key e) (max (sg_interval g - 1) 1) t s = (r, s1)"
    by (cases "st_incr st (poll_key e) (max (sg_interval g - 1) 1) t s")
  with incr_effect [OF assms(1) l] assms(2) PollCount show ?thesis
    by (cases "sg_state g") (auto split: if_splits)
next
  case (PollSlow e g)
  obtain r s1 where l: "save st e g t s = (r, s1)" by (cases "save st e g t s")
  with save_effect [OF assms(1) l] assms(2) PollSlow show ?thesis
    by (cases "e = d") (auto dest: grant_at_alive)
next
  case (PollClaim e g)
  obtain r s1 where l: "st_incr st (claim_key e) (dv_codeExpirySeconds cfg) t s = (r, s1)"
    by (cases "st_incr st (claim_key e) (dv_codeExpirySeconds cfg) t s")
  with incr_effect [OF assms(1) l] assms(2) PollClaim show ?thesis by (auto split: if_splits option.splits)
next
  case (PollClear e g won)
  obtain r s1 where l: "st_delete st (device_key e) t s = (r, s1)" by (cases "st_delete st (device_key e) t s")
  with delete_effect [OF assms(1) l] assms(2) PollClear show ?thesis
    by (cases "e = d") (auto simp: grant_at_def)
next
  case (PollClearUser e g won)
  obtain r s1 where l: "st_delete st (user_key (sg_userCodeHash g)) t s = (r, s1)"
    by (cases "st_delete st (user_key (sg_userCodeHash g)) t s")
  with delete_effect [OF assms(1) l] assms(2) PollClearUser show ?thesis by (auto split: option.splits)
next
  case (AnswerStart h actor v uid)
  obtain r s1 where l: "st_get st (attempts_key actor) t s = (r, s1)" by (cases "st_get st (attempts_key actor) t s")
  with get_effect [OF assms(1) l] assms(2) AnswerStart show ?thesis by (auto split: if_splits)
next
  case (AnswerUser h actor v uid)
  obtain r s1 where l: "st_get st (user_key h) t s = (r, s1)" by (cases "st_get st (user_key h) t s")
  with get_effect [OF assms(1) l] assms(2) AnswerUser show ?thesis by (auto split: option.splits if_splits)
next
  case (AnswerLoad e actor v uid)
  obtain r s1 where l: "load st e t s = (r, s1)" by (cases "load st e t s")
  with load_effect [OF assms(1) l] assms(2) AnswerLoad show ?thesis by (auto split: option.splits if_splits)
next
  case (AnswerMiss actor)
  obtain r s1 where l: "st_incr st (attempts_key actor) (dv_attemptWindow cfg) t s = (r, s1)"
    by (cases "st_incr st (attempts_key actor) (dv_attemptWindow cfg) t s")
  with incr_effect [OF assms(1) l] assms(2) AnswerMiss show ?thesis by auto
next
  case (AnswerSave e g)
  obtain r s1 where l: "save st e g t s = (r, s1)" by (cases "save st e g t s")
  with save_effect [OF assms(1) l] assms(2) AnswerSave show ?thesis
    by (cases "e = d") (auto dest: grant_at_alive)
qed (use assms in auto)

end

text \<open>
  The invariant: claims of one grant are a lifetime apart, each is backed by its counter, and what
  is stored, held or claimed for a user was approved by that user.
\<close>

definition device_inv ::
  "(time \<Rightarrow> 's \<Rightarrow> string \<Rightarrow> cell option) \<Rightarrow> ('s \<Rightarrow> bool) \<Rightarrow> device_config \<Rightarrow> string \<Rightarrow> ('s, device_pc) world \<Rightarrow> bool" where
  "device_inv view ok cfg d w \<longleftrightarrow>
     (let s = wd_shared w; pcs = wd_callers w; now = wd_now w
      in ok s \<and> claim_ok (view now s (claim_key d))
         \<and> (\<forall>pc\<in>set pcs. \<forall>u c. claimed d pc = Some (u, c) \<longrightarrow>
              claim_held (span_of cfg) (view now s (claim_key d)) now c \<and> approved_by d pcs u)
         \<and> (\<forall>i j u c v e. i < length pcs \<longrightarrow> j < length pcs \<longrightarrow> i \<noteq> j \<longrightarrow> claimed d (pcs ! i) = Some (u, c) \<longrightarrow>
              claimed d (pcs ! j) = Some (v, e) \<longrightarrow> span_of cfg \<le> \<bar>c - e\<bar>)
         \<and> (\<forall>g. grant_at (view now s (device_key d)) = Some g \<longrightarrow> grant_ok d pcs g)
         \<and> (\<forall>pc\<in>set pcs. \<forall>g. holds d pc = Some g \<longrightarrow> grant_ok d pcs g)
         \<and> (\<forall>g. PollClaim d g \<in> set pcs \<longrightarrow> sg_state g = GrantAuthorized))"

fun starting :: "device_pc \<Rightarrow> bool" where
  "starting (PollStart d) = True"
| "starting (AnswerStart h actor v uid) = True"
| "starting _ = False"

text \<open>Callers that have not begun, and a grant that waits for its answer.\<close>

definition device_start ::
  "(time \<Rightarrow> 's \<Rightarrow> string \<Rightarrow> cell option) \<Rightarrow> ('s \<Rightarrow> bool) \<Rightarrow> string \<Rightarrow> ('s, device_pc) world \<Rightarrow> bool" where
  "device_start view ok d w \<longleftrightarrow>
     ok (wd_shared w) \<and> list_all starting (wd_callers w)
     \<and> view (wd_now w) (wd_shared w) (claim_key d) = None
     \<and> (\<forall>g. grant_at (view (wd_now w) (wd_shared w) (device_key d)) = Some g \<longrightarrow> sg_state g = GrantPending)"


context secondary_storage
begin

lemma device_inv_later:
  assumes inv: "device_inv view ok cfg d w" and "wd_now w \<le> t"
  shows "device_inv view ok cfg d (w\<lparr>wd_now := t\<rparr>)"
proof -
  let ?s = "wd_shared w" and ?now = "wd_now w"
  have ok: "ok ?s" using inv by (simp add: device_inv_def Let_def)
  have later: "view t ?s k = Option.bind (view ?now ?s k) (alive t)" for k by (rule view_later [OF ok assms(2)])
  have claim: "claim_ok (view t ?s (claim_key d))" if "claim_ok (view ?now ?s (claim_key d))"
    using that unfolding later claim_ok_def by (auto simp: bind_eq_Some_conv dest!: alive_SomeD)
  have held: "claim_held (span_of cfg) (view t ?s (claim_key d)) t c"
    if "claim_held (span_of cfg) (view ?now ?s (claim_key d)) ?now c" for c
    using that assms(2) unfolding later claim_held_def by force
  have grant: "grant_at (view ?now ?s (device_key d)) = Some g" if "grant_at (view t ?s (device_key d)) = Some g" for g
    using that unfolding later by (auto simp: grant_at_def bind_eq_Some_conv dest!: alive_SomeD)
  from inv show ?thesis
    unfolding device_inv_def Let_def by (auto intro: claim held grant)
qed

lemma approved_by_step:
  assumes "i < length pcs" and "\<forall>g. pcs ! i = AnswerDone d g \<longrightarrow> pc' = AnswerDone d g" and "approved_by d pcs u"
  shows "approved_by d (pcs[i := pc']) u"
proof -
  obtain g where g: "AnswerDone d g \<in> set pcs" "sg_state g = GrantAuthorized" "sg_userId g = Some u"
    using assms(3) by (auto simp: approved_by_def)
  then obtain k where k: "k < length pcs" "pcs ! k = AnswerDone d g" by (auto simp: in_set_conv_nth)
  have "pcs[i := pc'] ! k = AnswerDone d g" using k assms(1,2) by (cases "k = i") auto
  then have "AnswerDone d g \<in> set (pcs[i := pc'])" using k(1) by (metis length_list_update nth_mem)
  with g show ?thesis by (auto simp: approved_by_def)
qed

lemma device_inv_step_now:
  assumes inv: "device_inv view ok cfg d w" and i: "i < length (wd_callers w)"
    and step: "device_step st cfg (wd_now w) (wd_callers w ! i) (wd_shared w) = (pc', s')"
  shows "device_inv view ok cfg d \<lparr>wd_shared = s', wd_callers = (wd_callers w)[i := pc'], wd_now = wd_now w\<rparr>"
proof -
  let ?pcs = "wd_callers w" and ?s = "wd_shared w" and ?t = "wd_now w"
  let ?pc = "?pcs ! i" and ?pcs' = "?pcs[i := pc']"
  have ok: "ok ?s" and claim: "claim_ok (view ?t ?s (claim_key d))"
    and held: "\<And>pc u c. pc \<in> set ?pcs \<Longrightarrow> claimed d pc = Some (u, c) \<Longrightarrow>
        claim_held (span_of cfg) (view ?t ?s (claim_key d)) ?t c \<and> approved_by d ?pcs u"
    and apart: "\<And>i j u c v e. i < length ?pcs \<Longrightarrow> j < length ?pcs \<Longrightarrow> i \<noteq> j \<Longrightarrow> claimed d (?pcs ! i) = Some (u, c) \<Longrightarrow>
              claimed d (?pcs ! j) = Some (v, e) \<Longrightarrow> span_of cfg \<le> \<bar>c - e\<bar>"
    and grants: "\<And>g. grant_at (view ?t ?s (device_key d)) = Some g \<Longrightarrow> grant_ok d ?pcs g"
    and holding: "\<And>pc g. pc \<in> set ?pcs \<Longrightarrow> holds d pc = Some g \<Longrightarrow> grant_ok d ?pcs g"
    and claiming: "\<And>g. PollClaim d g \<in> set ?pcs \<Longrightarrow> sg_state g = GrantAuthorized"
    using inv by (auto simp: device_inv_def Let_def)
  have pc: "?pc \<in> set ?pcs" using i by simp
  note G = grant_effect [OF ok step, of d]
  have mono: "approved_by d ?pcs' u" if "approved_by d ?pcs u" for u
    by (rule approved_by_step [OF i _ that]) (use G in blast)
  then have okmono: "grant_ok d ?pcs' g" if "grant_ok d ?pcs g" for g using that by (auto simp: grant_ok_def)
  have same: "grant_ok d ?pcs' g" if "grant_ok d ?pcs' g0" "sg_state g = sg_state g0" "sg_userId g = sg_userId g0" for g g0
    using that by (simp add: grant_ok_def)
  have old: "pc \<in> set ?pcs" if "pc \<in> set ?pcs'" "pc \<noteq> pc'" for pc
    using that set_update_subset_insert [of ?pcs i pc'] by blast
  have new: "pc' \<in> set ?pcs'" using i by (rule set_update_memI)
  have grants': "grant_ok d ?pcs' g" if "grant_at (view ?t s' (device_key d)) = Some g" for g
  proof -
    from G that consider "grant_at (view ?t ?s (device_key d)) = Some g" | "?pc = PollSlow d g" | "pc' = AnswerDone d g"
      by blast
    then show ?thesis
    proof cases
      case 1
      then show ?thesis using grants okmono by blast
    next
      case 2
      then have "grant_ok d ?pcs g" using holding [OF pc] by simp
      then show ?thesis by (rule okmono)
    next
      case 3
      with new show ?thesis by (auto simp: grant_ok_def approved_by_def)
    qed
  qed
  have holding': "grant_ok d ?pcs' g" if "pc \<in> set ?pcs'" "holds d pc = Some g" for pc g
  proof (cases "pc = pc'")
    case True
    with G that(2) consider "grant_at (view ?t ?s (device_key d)) = Some g"
      | g0 where "holds d ?pc = Some g0" "sg_state g = sg_state g0" "sg_userId g = sg_userId g0" by blast
    then show ?thesis using grants holding [OF pc] okmono same by cases blast+
  next
    case False
    with that old holding okmono show ?thesis by blast
  qed
  have claiming': "sg_state g = GrantAuthorized" if "PollClaim d g \<in> set ?pcs'" for g
    using that G old claiming pc by (cases "pc' = PollClaim d g") metis+
  have goal: "ok s' \<and> claim_ok (view ?t s' (claim_key d))
      \<and> (\<forall>pc\<in>set ?pcs'. \<forall>u c. claimed d pc = Some (u, c) \<longrightarrow>
            claim_held (span_of cfg) (view ?t s' (claim_key d)) ?t c \<and> approved_by d ?pcs' u)
      \<and> (\<forall>j k u c v e. j < length ?pcs \<longrightarrow> k < length ?pcs \<longrightarrow> j \<noteq> k \<longrightarrow> claimed d (?pcs' ! j) = Some (u, c) \<longrightarrow>
            claimed d (?pcs' ! k) = Some (v, e) \<longrightarrow> span_of cfg \<le> \<bar>c - e\<bar>)"
    using claim_effect [OF ok step, of d]
  proof (elim conjE disjE exE)
    fix g n x
    assume ok': "ok s'" and p: "?pc = PollClaim d g"
      and b: "bumped (view ?t ?s (claim_key d)) (dv_codeExpirySeconds cfg) ?t = (n, x)"
      and v: "view ?t s' (claim_key d) = alive ?t (counter_cell n x)"
      and c': "claimed d pc' = (if 1 < n then None else map_option (\<lambda>u. (u, ?t)) (approved_user g))"
    have n: "1 \<le> n" and first: "\<not> 1 < n \<Longrightarrow> view ?t ?s (claim_key d) = None \<and> x = ?t + span_of cfg"
      using b claim by (cases "view ?t ?s (claim_key d)"; auto simp: claim_ok_def span_of_def)+
    have keep: "claim_held (span_of cfg) (view ?t s' (claim_key d)) ?t c"
      if h: "claim_held (span_of cfg) (view ?t ?s (claim_key d)) ?t c" for c
    proof (cases "?t < c + span_of cfg")
      case True
      with h obtain m y where "1 \<le> m" "c + span_of cfg \<le> y" "view ?t ?s (claim_key d) = Some (counter_cell m y)"
        by (auto simp: claim_held_def)
      with b have "x = y" by simp
      with True \<open>c + span_of cfg \<le> y\<close> v have "view ?t s' (claim_key d) = Some (counter_cell n x)" by simp
      with h n \<open>x = y\<close> \<open>c + span_of cfg \<le> y\<close> show ?thesis by (auto simp: claim_held_def)
    qed (use h in \<open>auto simp: claim_held_def\<close>)
    have notheld: "c + span_of cfg \<le> ?t" if "\<not> 1 < n" "claim_held (span_of cfg) (view ?t ?s (claim_key d)) ?t c" for c
      using that first by (force simp: claim_held_def)
    have mine: "claim_held (span_of cfg) (view ?t s' (claim_key d)) ?t c \<and> approved_by d ?pcs' u"
      if "claimed d pc' = Some (u, c)" for u c
    proof -
      have u: "\<not> 1 < n" "approved_user g = Some u" "c = ?t" using that c' by (auto split: if_splits)
      have "grant_ok d ?pcs g" using holding [OF pc] p by simp
      moreover have "sg_state g = GrantAuthorized" using claiming p pc by metis
      ultimately have "approved_by d ?pcs u"
        using u(2) by (auto simp: grant_ok_def approved_user_def split: option.splits if_splits)
      moreover have "claim_held (span_of cfg) (view ?t s' (claim_key d)) ?t ?t"
        using first [OF u(1)] v n u(1) by (auto simp: claim_held_def)
      ultimately show ?thesis using mono u(3) by blast
    qed
    have gap: "span_of cfg \<le> \<bar>c - e\<bar> \<and> span_of cfg \<le> \<bar>e - c\<bar>"
      if "claimed d pc' = Some (u, c)" "pc \<in> set ?pcs" "claimed d pc = Some (v, e)" for u c v e pc
    proof -
      have "\<not> 1 < n" "c = ?t" using that(1) c' by (auto split: if_splits)
      with notheld held [OF that(2,3)] show ?thesis by force
    qed
    have "claim_ok (view ?t s' (claim_key d))" using v n by (auto simp: claim_ok_def)
    moreover have "claim_held (span_of cfg) (view ?t s' (claim_key d)) ?t c \<and> approved_by d ?pcs' u"
      if "pc \<in> set ?pcs'" "claimed d pc = Some (u, c)" for pc u c
      using that old held keep mono mine by (cases "pc = pc'") blast+
    moreover have "span_of cfg \<le> \<bar>c - e\<bar>"
      if "j < length ?pcs" "k < length ?pcs" "j \<noteq> k" "claimed d (?pcs' ! j) = Some (u, c)"
        "claimed d (?pcs' ! k) = Some (v, e)" for j k u c v e
    proof -
      consider "j = i" | "k = i" | "j \<noteq> i" "k \<noteq> i" by blast
      then show ?thesis
      proof cases
        case 1
        with that gap [of u c "?pcs ! k" v e] i show ?thesis by simp
      next
        case 2
        with that gap [of v e "?pcs ! j" u c] i show ?thesis by simp
      next
        case 3
        with that apart [of j k u c v e] show ?thesis by simp
      qed
    qed
    ultimately show ?thesis using ok' by blast
  next
    assume ok': "ok s'" and v: "view ?t s' (claim_key d) = view ?t ?s (claim_key d)"
      and c': "claimed d pc' = claimed d ?pc"
    have at: "claimed d (?pcs' ! j) = claimed d (?pcs ! j)" if "j < length ?pcs" for j
      using c' i that by (cases "j = i") auto
    have "claim_held (span_of cfg) (view ?t s' (claim_key d)) ?t c \<and> approved_by d ?pcs' u"
      if "pc \<in> set ?pcs'" "claimed d pc = Some (u, c)" for pc u c
      using that old held [of pc u c] held [OF pc, of u c] mono c' v by (cases "pc = pc'") auto
    with ok' v claim at apart show ?thesis by auto
  qed
  show ?thesis
    unfolding device_inv_def Let_def
    using goal grants' holding' claiming' by simp
qed

lemma device_inv_kept:
  assumes "device_inv view ok cfg d w" and "interleave (device_step st cfg) w v"
  shows "device_inv view ok cfg d v"
proof -
  from assms(2) obtain i t pc' s' where s: "v = \<lparr>wd_shared = s', wd_callers = (wd_callers w)[i := pc'], wd_now = t\<rparr>"
      "i < length (wd_callers w)" "wd_now w \<le> t"
      "device_step st cfg t (wd_callers w ! i) (wd_shared w) = (pc', s')"
    by (rule interleaveE)
  from device_inv_step_now [OF device_inv_later [OF assms(1) s(3)], of i pc' s'] s show ?thesis by simp
qed

end



section \<open>Runs\<close>

definition demo_config :: device_config where
  "demo_config = \<lparr>dv_codeExpirySeconds = 900, dv_baseInterval = 5, dv_attemptLimit = 5, dv_attemptWindow = 900,
     dv_allowedOrigins = []\<rparr>"

text \<open>For examples codes stand for their own hash.\<close>

definition demo_memory :: memory where
  "demo_memory =
     snd (requestCode memoryStorage demo_config (\<lambda>x. x) ''D'' ''BCDF-GHJK'' \<lparr>dr_clientId = None, dr_scope = None\<rparr> 0 empty_memory)"

definition demo_world :: "device_pc list \<Rightarrow> (memory, device_pc) world" where
  "demo_world pcs = \<lparr>wd_shared = demo_memory, wd_callers = pcs, wd_now = 0\<rparr>"

definition demo_grant :: stored_grant where
  "demo_grant = \<lparr>sg_state = GrantPending, sg_userCodeHash = ''BCDFGHJK'', sg_expiresAt = 900000, sg_interval = 5,
     sg_userId = None, sg_clientId = None, sg_scope = None\<rparr>"

lemma demo_user_code: "normaliseUserCode ''BCDF-GHJK'' = ''BCDFGHJK''"
  by code_simp

lemma demo_memory_view:
  "memory_ok demo_memory" "memory_view 0 demo_memory (claim_key ''D'') = None"
  "grant_at (memory_view 0 demo_memory (device_key ''D'')) = Some demo_grant"
  by code_simp+

lemma demo_start: "list_all starting pcs \<Longrightarrow> device_start memory_view memory_ok ''D'' (demo_world pcs)"
  using demo_memory_view by (simp add: device_start_def demo_world_def demo_grant_def)





definition race_callers :: "grant_state \<Rightarrow> ident option \<Rightarrow> device_pc list" where
  "race_callers v uid = [PollStart ''D'', PollStart ''D'', AnswerStart ''BCDFGHJK'' ''ann'' v uid]"

definition race_run :: "(nat \<times> time) list" where
  "race_run = [(0, 1), (0, 1), (1, 2), (2, 2), (2, 2), (2, 2), (2, 2), (1, 2), (1, 2)]"

definition race_end :: "grant_state \<Rightarrow> ident option \<Rightarrow> (memory, device_pc) world" where
  "race_end v uid =
     run_schedule (device_step memoryStorage demo_config) race_run (demo_world (race_callers v uid))"

definition answer_undone :: "(memory, device_pc) world \<Rightarrow> grant_state \<Rightarrow> bool" where
  "answer_undone w v \<longleftrightarrow>
     (case wd_callers w ! 2 of AnswerDone d g \<Rightarrow> d = ''D'' \<and> sg_state g = v | _ \<Rightarrow> False)
     \<and> map_option sg_state (grant_at (memory_view (wd_now w) (wd_shared w) (device_key ''D''))) = Some GrantPending"

lemma race_results:
  "answer_undone (race_end GrantDenied None) GrantDenied"
  "answer_undone (race_end GrantAuthorized (Some ''ann'')) GrantAuthorized"
  by code_simp+

lemma device_race_reaches:
  "reaches (device_start memory_view memory_ok ''D'') (interleave (device_step memoryStorage demo_config)) (race_end v uid)"
  unfolding race_end_def by (intro run_schedule_reaches reaches_init demo_start) (simp add: race_callers_def)

text \<open>
  A poll that comes too fast can undo an answer. It loads the grant, the user denies (or
  approves) it, and the poll then saves its old copy with a longer interval: the answer was
  confirmed, and the grant is pending again.
\<close>

theorem fast_poll_undoes_answer:
  "(\<exists>w. reaches (device_start memory_view memory_ok ''D'') (interleave (device_step memoryStorage demo_config)) w
      \<and> answer_undone w GrantDenied)
   \<and> (\<exists>w. reaches (device_start memory_view memory_ok ''D'') (interleave (device_step memoryStorage demo_config)) w
      \<and> answer_undone w GrantAuthorized)"
  by (intro conjI exI) (rule device_race_reaches, rule race_results(1), rule device_race_reaches, rule race_results(2))

section \<open>User codes\<close>

lemma to_upper_id: "\<not> (97 \<le> (of_char c :: nat) \<and> (of_char c :: nat) \<le> 122) \<Longrightarrow> to_upper c = c"
  by (auto simp: to_upper_def Let_def)

lemma alphabet_upper: "c \<in> set user_code_alphabet \<Longrightarrow> to_upper c = c \<and> \<not> is_space c \<and> c \<noteq> CHR ''-'' \<and> to_upper (to_lower c) = c"
proof -
  assume "c \<in> set user_code_alphabet"
  moreover have "\<forall>c\<in>set user_code_alphabet. to_upper c = c \<and> \<not> is_space c \<and> c \<noteq> CHR ''-'' \<and> to_upper (to_lower c) = c"
    by code_simp
  ultimately show ?thesis by blast
qed

lemma alphabet_letter: "user_code_alphabet ! (b mod length user_code_alphabet) \<in> set user_code_alphabet"
  by (rule nth_mem) (rule mod_less_divisor, simp add: user_code_alphabet_def)

lemma user_code_chars_alphabet: "c \<in> set (user_code_chars n supply) \<Longrightarrow> c \<in> set user_code_alphabet"
  using alphabet_letter by (auto simp: user_code_chars_def dest!: in_set_takeD)

lemma trim_filter: "filter (\<lambda>c. \<not> is_space c \<and> Q c) (map f (trim s)) = filter (\<lambda>c. \<not> is_space c \<and> Q c) (map f s)"
  if "\<And>c. is_space c \<Longrightarrow> is_space (f c)"
proof -
  let ?P = "\<lambda>c. \<not> is_space c \<and> Q c"
  have d: "filter ?P (map f (dropWhile is_space t)) = filter ?P (map f t)" for t
    using that by (induction t) auto
  have "filter ?P (map f (rev (dropWhile is_space (rev t)))) = rev (filter ?P (map f (dropWhile is_space (rev t))))" for t
    by (simp add: rev_map rev_filter)
  also have "rev (filter ?P (map f (dropWhile is_space (rev t)))) = filter ?P (map f t)" for t
    by (simp add: d rev_map rev_filter)
  finally show ?thesis by (simp add: trim_def d)
qed

text \<open>Typing a user code in lower case, with blanks around and without the dash, is all the same.\<close>

lemma normalise_generated:
  "normaliseUserCode (generateUserCode n supply) = user_code_chars (n * 2) supply"
  "normaliseUserCode (map to_lower (user_code_chars (n * 2) supply)) = user_code_chars (n * 2) supply"
proof -
  let ?cs = "user_code_chars (n * 2) supply"
  have sp: "is_space c \<Longrightarrow> is_space (to_upper c)" for c
    by (subst to_upper_id) (auto simp: is_space_def Let_def)
  have norm: "normaliseUserCode s = filter (\<lambda>c. \<not> is_space c \<and> c \<noteq> CHR ''-'') (map to_upper s)" for s
    unfolding normaliseUserCode_def by (rule trim_filter) (rule sp)
  have up: "map to_upper cs = cs" and keep: "filter (\<lambda>c. \<not> is_space c \<and> c \<noteq> CHR ''-'') cs = cs"
    and low: "map to_upper (map to_lower cs) = cs" if "set cs \<subseteq> set user_code_alphabet" for cs
    using that alphabet_upper by (auto simp: filter_id_conv intro!: map_idI)
  have cs: "set ?cs \<subseteq> set user_code_alphabet" using user_code_chars_alphabet by blast
  then have parts: "set (take n ?cs) \<subseteq> set user_code_alphabet" "set (drop n ?cs) \<subseteq> set user_code_alphabet"
    by (auto dest: in_set_takeD in_set_dropD)
  have dash: "to_upper CHR ''-'' = CHR ''-''" by code_simp
  show "normaliseUserCode (generateUserCode n supply) = ?cs"
    by (simp add: norm generateUserCode_def Let_def dash up [OF parts(1)] up [OF parts(2)] keep [OF parts(1)] keep [OF parts(2)])
  show "normaliseUserCode (map to_lower ?cs) = ?cs"
    by (simp only: norm low [OF cs] keep [OF cs])
qed

section \<open>One poll\<close>

definition poll_verdict :: "issue_token option \<Rightarrow> stored_grant \<Rightarrow> device_response" where
  "poll_verdict issue g =
     (case sg_state g of
        GrantPending \<Rightarrow> OauthError ''authorization_pending'' 400 None
      | GrantDenied \<Rightarrow> OauthError ''access_denied'' 400 None
      | GrantAuthorized \<Rightarrow>
          (case approved_user g of
             Some u \<Rightarrow> issue_response issue u g
           | None \<Rightarrow> OauthError ''expired_token'' 400 None))"

context secondary_storage
begin

lemma destroy_effect:
  assumes "ok s"
  obtains s' where "destroy st d g t s = (Returned (), s')" "ok s'" "\<forall>u\<ge>t. view u s' (device_key d) = None"
proof -
  obtain r1 s1 where 1: "st_delete st (device_key d) t s = (r1, s1)" by (cases "st_delete st (device_key d) t s")
  obtain r2 s2 where 2: "st_delete st (user_key (sg_userCodeHash g)) t s1 = (r2, s2)"
    by (cases "st_delete st (user_key (sg_userCodeHash g)) t s1")
  note e1 = delete_effect [OF assms 1]
  from e1 have "ok s1" by blast
  note e2 = delete_effect [OF this 2]
  show ?thesis by (rule that [of s2]) (use 1 2 e1 e2 in \<open>auto simp: destroy_def\<close>)
qed

lemma poll_first:
  assumes "ok s" and "view now s (poll_key d) = None" and "view now s (claim_key d) = None"
  obtains s' where "poll_grant st cfg issue d g now s = (Returned (poll_verdict issue g), s')" "ok s'"
    "sg_state g = GrantDenied \<or> sg_state g = GrantAuthorized \<and> approved_user g \<noteq> None \<Longrightarrow>
       \<forall>u\<ge>now. view u s' (device_key d) = None"
proof -
  obtain r s1 where i: "st_incr st (poll_key d) (max (sg_interval g - 1) 1) now s = (r, s1)"
    by (cases "st_incr st (poll_key d) (max (sg_interval g - 1) 1) now s")
  obtain x where s1: "r = Returned (1, x)" "ok s1" "\<forall>u\<ge>now. view u s1 = (view u s)(poll_key d := alive u (counter_cell 1 x))"
    using incr_effect [OF assms(1) i] assms(2) by auto
  obtain s2 where s2: "destroy st d g now s1 = (Returned (), s2)" "ok s2" "\<forall>u\<ge>now. view u s2 (device_key d) = None"
    by (rule destroy_effect [OF s1(2)])
  obtain q s3 where c: "st_incr st (claim_key d) (dv_codeExpirySeconds cfg) now s1 = (q, s3)"
    by (cases "st_incr st (claim_key d) (dv_codeExpirySeconds cfg) now s1")
  obtain y where s3: "q = Returned (1, y)" "ok s3"
    using incr_effect [OF s1(2) c] s1(3) assms(3) by auto
  obtain s4 where s4: "destroy st d g now s3 = (Returned (), s4)" "ok s4" "\<forall>u\<ge>now. view u s4 (device_key d) = None"
    by (rule destroy_effect [OF s3(2)])
  show ?thesis
  proof (cases "sg_state g")
    case GrantPending
    with i s1 that [of s1] show ?thesis by (simp add: poll_grant_def poll_verdict_def)
  next
    case GrantDenied
    with i s1 s2 that [of s2] show ?thesis by (simp add: poll_grant_def poll_verdict_def)
  next
    case GrantAuthorized
    show ?thesis
    proof (cases "approved_user g")
      case None
      with GrantAuthorized i s1 c s3 that [of s3] show ?thesis by (simp add: poll_grant_def poll_verdict_def)
    next
      case (Some u)
      with GrantAuthorized i s1 c s3 s4 that [of s4] show ?thesis by (simp add: poll_grant_def poll_verdict_def)
    qed
  qed
qed

end

text \<open>
  The first poll in its interval gets what the user answered, and an answered grant is gone with
  it: the next poll finds none.
\<close>

theorem poll_gets_answer:
  assumes "memory_ok m" and "str_field body ''grant_type'' 256 = None" and "str_field body ''device_code'' 512 = Some code"
    and "fresh_grant now (map_option cl_value (memory_view now m (device_key (sha code)))) = Some g"
    and "memory_view now m (poll_key (sha code)) = None" and "memory_view now m (claim_key (sha code)) = None"
  shows "\<exists>m'. handleToken memoryStorage cfg sha issue body now m = (Returned (poll_verdict issue g), m')
    \<and> (sg_state g = GrantDenied \<or> sg_state g = GrantAuthorized \<and> approved_user g \<noteq> None \<longrightarrow>
         now \<le> later \<longrightarrow>
         fst (handleToken memoryStorage cfg sha issue body later m') = Returned (OauthError ''expired_token'' 400 None))"
proof -
  let ?d = "sha code"
  obtain r m1 where l: "load memoryStorage ?d now m = (r, m1)" by (cases "load memoryStorage ?d now m")
  note e1 = mem.load_effect [OF assms(1) l]
  have none: "memory_view now m1 (poll_key ?d) = None" "memory_view now m1 (claim_key ?d) = None"
    using e1 assms(5,6) by auto
  have "memory_ok m1" using e1 by blast
  from mem.poll_first [OF this none] obtain m2 where m2:
      "poll_grant memoryStorage cfg issue ?d g now m1 = (Returned (poll_verdict issue g), m2)" "memory_ok m2"
      "sg_state g = GrantDenied \<or> sg_state g = GrantAuthorized \<and> approved_user g \<noteq> None \<Longrightarrow>
       \<forall>u\<ge>now. memory_view u m2 (device_key ?d) = None" by metis
  have body: "handleToken memoryStorage cfg sha issue body t = token_body memoryStorage cfg sha issue body t" for t
    by (simp add: handleToken_def assms(2) fun_eq_iff)
  have first: "handleToken memoryStorage cfg sha issue body now m = (Returned (poll_verdict issue g), m2)"
    using l e1 m2(1) assms(4) by (simp add: body token_body_def assms(3))
  have "fst (handleToken memoryStorage cfg sha issue body later m2) = Returned (OauthError ''expired_token'' 400 None)"
    if "\<forall>u\<ge>now. memory_view u m2 (device_key ?d) = None" "now \<le> later"
  proof -
    obtain q m3 where l3: "load memoryStorage ?d later m2 = (q, m3)" by (cases "load memoryStorage ?d later m2")
    from mem.load_effect [OF m2(2) l3] that l3 show ?thesis
      by (simp add: body token_body_def assms(3) fresh_grant_def)
  qed
  with first m2(3) show ?thesis by auto
qed

definition demo_body :: "(string \<times> json) list" where
  "demo_body = [(''device_code'', JStr ''D'')]"

theorem poll_gets_answer_witness:
  "\<exists>m'. handleToken memoryStorage demo_config (\<lambda>x. x) None demo_body 1 demo_memory
     = (Returned (OauthError ''authorization_pending'' 400 None), m')"
proof -
  have f: "fresh_grant 1 (map_option cl_value (memory_view 1 demo_memory (device_key ''D''))) = Some demo_grant"
    and p: "memory_view 1 demo_memory (poll_key ''D'') = None" and c: "memory_view 1 demo_memory (claim_key ''D'') = None"
    by code_simp+
  have b: "str_field demo_body ''grant_type'' 256 = None" "str_field demo_body ''device_code'' 512 = Some ''D''"
    by code_simp+
  have "poll_verdict None demo_grant = OauthError ''authorization_pending'' 400 None"
    by (simp add: poll_verdict_def demo_grant_def)
  with poll_gets_answer [OF demo_memory_view(1) b, where sha = "\<lambda>x. x" and cfg = demo_config and issue = None,
      OF f p c, of 1]
  show ?thesis by (elim exE conjE) (rule exI, simp)
qed

section \<open>Approving\<close>

text \<open>
  The endpoint approves only for a signed-in user, from an allowed origin or none, with a JSON
  body: a form posted across sites approves nothing.
\<close>

theorem approval_needs_session:
  assumes "fst (handleAuthorize st cfg sha request now s) = Returned Approved"
  shows "ar_user request \<noteq> None \<and> includes_text ''application/json'' (ar_contentType request)
    \<and> (\<forall>x. ar_origin request = Some x \<and> x \<noteq> [] \<longrightarrow> x \<in> set (dv_allowedOrigins cfg))"
  using assms by (auto simp: handleAuthorize_def split: if_splits option.splits)

definition demo_request :: authorize_request where
  "demo_request = \<lparr>ar_origin = None, ar_contentType = ''application/json'', ar_user = Some ''ann'',
     ar_body = [(''user_code'', JStr ''bcdf ghjk'')]\<rparr>"

theorem approval_needs_session_witness:
  "ar_user demo_request \<noteq> None"
proof -
  have "fst (handleAuthorize memoryStorage demo_config (\<lambda>x. x) demo_request 1 demo_memory) = Returned Approved"
    by code_simp
  from approval_needs_session [OF this] show ?thesis by blast
qed

end
