(* ===== verification/Budget.thy ===== *)
theory Budget
  imports Prelude
begin

text \<open>
  Budget policies, \<open>packages/core/src/policies/budget.ts\<close>: the table of policies, the check of an
  agent, the recording of usage and the daily and monthly resets. Costs are integers. The read and the
  write of a row of usage are one step, so calls are recorded one after the other. Without a
  \<open>warn\<close> policy in the way a daily limit of calls holds; a \<open>warn\<close> policy, the scope of a policy and a
  disabled policy do not behave as their comments say, which is proved on tables.
\<close>

section \<open>Policies\<close>

record budget_limits =
  bl_maxTokensCostPerDay :: "int option"
  bl_maxTokensCostPerMonth :: "int option"
  bl_maxCallsPerDay :: "int option"
  bl_maxCallsPerMonth :: "int option"

record budget_usage =
  bu_tokensCostToday :: int
  bu_tokensCostThisMonth :: int
  bu_callsToday :: int
  bu_callsThisMonth :: int
  bu_lastUpdated :: time

datatype budget_action = WarnOnly | Throttle | BlockCalls | RevokeAgent

datatype budget_status = BudgetActive | BudgetTriggered | BudgetDisabled

record budget_policy =
  bp_id :: ident
  bp_agentId :: "ident option"
  bp_userId :: "ident option"
  bp_tenantId :: "ident option"
  bp_limits :: budget_limits
  bp_currentUsage :: budget_usage
  bp_action :: budget_action
  bp_status :: budget_status
  bp_createdAt :: time

definition emptyUsage :: "time \<Rightarrow> budget_usage" where
  "emptyUsage now =
     \<lparr>bu_tokensCostToday = 0, bu_tokensCostThisMonth = 0, bu_callsToday = 0, bu_callsThisMonth = 0,
      bu_lastUpdated = now\<rparr>"

definition over_limit :: "int option \<Rightarrow> int \<Rightarrow> bool" where
  "over_limit limit used \<longleftrightarrow> (case limit of None \<Rightarrow> False | Some n \<Rightarrow> n \<le> used)"

definition isExceeded :: "budget_limits \<Rightarrow> budget_usage \<Rightarrow> bool" where
  "isExceeded limits usage \<longleftrightarrow>
     over_limit (bl_maxCallsPerDay limits) (bu_callsToday usage)
     \<or> over_limit (bl_maxCallsPerMonth limits) (bu_callsThisMonth usage)
     \<or> over_limit (bl_maxTokensCostPerDay limits) (bu_tokensCostToday usage)
     \<or> over_limit (bl_maxTokensCostPerMonth limits) (bu_tokensCostThisMonth usage)"

section \<open>Keeping policies\<close>

record create_policy_input =
  cp_agentId :: "ident option"
  cp_userId :: "ident option"
  cp_tenantId :: "ident option"
  cp_limits :: budget_limits
  cp_action :: budget_action

definition new_policy :: "ident \<Rightarrow> time \<Rightarrow> create_policy_input \<Rightarrow> budget_policy" where
  "new_policy i now input =
     \<lparr>bp_id = i, bp_agentId = cp_agentId input, bp_userId = cp_userId input, bp_tenantId = cp_tenantId input,
      bp_limits = cp_limits input, bp_currentUsage = emptyUsage now, bp_action = cp_action input,
      bp_status = BudgetActive, bp_createdAt = now\<rparr>"

definition create_policy ::
  "ident \<Rightarrow> time \<Rightarrow> create_policy_input \<Rightarrow> budget_policy list \<Rightarrow> budget_policy \<times> budget_policy list" where
  "create_policy i now input rows = (new_policy i now input, rows @ [new_policy i now input])"

definition get_policy :: "ident \<Rightarrow> budget_policy list \<Rightarrow> budget_policy option" where
  "get_policy i rows = List.find (\<lambda>r. bp_id r = i) rows"

record policy_filters =
  pf_agentId :: "ident option"
  pf_userId :: "ident option"
  pf_tenantId :: "ident option"

text \<open>\<open>or(eq(column, value), isNull(column))\<close>, when the filter is given.\<close>

definition matches_or_null :: "ident option \<Rightarrow> ident option \<Rightarrow> bool" where
  "matches_or_null wanted column \<longleftrightarrow> (wanted = None \<or> column = wanted \<or> column = None)"

definition list_policies :: "policy_filters option \<Rightarrow> budget_policy list \<Rightarrow> budget_policy list" where
  "list_policies filters rows =
     (case filters of
        None \<Rightarrow> rows
      | Some f \<Rightarrow>
          filter (\<lambda>r. matches_or_null (pf_agentId f) (bp_agentId r) \<and> matches_or_null (pf_userId f) (bp_userId r)
                    \<and> matches_or_null (pf_tenantId f) (bp_tenantId r)) rows)"

record policy_updates =
  pu_limits :: "budget_limits option"
  pu_currentUsage :: "budget_usage option"
  pu_action :: "budget_action option"
  pu_status :: "budget_status option"

definition or_else :: "'a option \<Rightarrow> 'a \<Rightarrow> 'a" where
  "or_else x d = (case x of Some y \<Rightarrow> y | None \<Rightarrow> d)"

datatype policy_error_kind = PolicyNotFound | PolicyDisappeared

definition update_policy ::
  "ident \<Rightarrow> policy_updates \<Rightarrow> budget_policy list \<Rightarrow> (policy_error_kind + budget_policy) \<times> budget_policy list" where
  "update_policy i u rows =
     (case get_policy i rows of
        None \<Rightarrow> (Inl PolicyNotFound, rows)
      | Some existing \<Rightarrow>
          let rows' = update_where (\<lambda>r. bp_id r = i)
                (\<lambda>r. r\<lparr>bp_limits := or_else (pu_limits u) (bp_limits existing),
                      bp_currentUsage := or_else (pu_currentUsage u) (bp_currentUsage existing),
                      bp_action := or_else (pu_action u) (bp_action existing),
                      bp_status := or_else (pu_status u) (bp_status existing)\<rparr>) rows
          in (case get_policy i rows' of None \<Rightarrow> Inl PolicyDisappeared | Some p \<Rightarrow> Inr p, rows'))"

definition remove_policy :: "ident \<Rightarrow> budget_policy list \<Rightarrow> (policy_error_kind + unit) \<times> budget_policy list" where
  "remove_policy i rows =
     (case get_policy i rows of
        None \<Rightarrow> (Inl PolicyNotFound, rows)
      | Some _ \<Rightarrow> (Inr (), delete_where (\<lambda>r. bp_id r = i) rows))"

section \<open>Checking and recording\<close>

text \<open>The condition of both queries: not disabled, and for this agent or for all.\<close>

definition applies_to :: "ident \<Rightarrow> budget_policy \<Rightarrow> bool" where
  "applies_to agentId r \<longleftrightarrow> bp_status r \<noteq> BudgetDisabled \<and> (bp_agentId r = Some agentId \<or> bp_agentId r = None)"

record budget_check =
  bc_allowed :: bool
  bc_policy :: "budget_policy option"

definition with_cost :: "int option \<Rightarrow> budget_usage \<Rightarrow> budget_usage" where
  "with_cost cost usage =
     (case cost of
        None \<Rightarrow> usage
      | Some c \<Rightarrow> usage\<lparr>bu_tokensCostToday := bu_tokensCostToday usage + c,
                       bu_tokensCostThisMonth := bu_tokensCostThisMonth usage + c\<rparr>)"

fun check_loop :: "int option \<Rightarrow> budget_policy list \<Rightarrow> budget_check" where
  "check_loop cost [] = \<lparr>bc_allowed = True, bc_policy = None\<rparr>"
| "check_loop cost (p # ps) =
     (if isExceeded (bp_limits p) (with_cost cost (bp_currentUsage p))
      then \<lparr>bc_allowed = (bp_action p = WarnOnly), bc_policy = Some p\<rparr>
      else check_loop cost ps)"

definition checkBudget :: "ident \<Rightarrow> int option \<Rightarrow> budget_policy list \<Rightarrow> budget_check" where
  "checkBudget agentId cost rows = check_loop cost (filter (applies_to agentId) rows)"

definition used_once :: "int option \<Rightarrow> time \<Rightarrow> budget_usage \<Rightarrow> budget_usage" where
  "used_once cost now usage =
     \<lparr>bu_tokensCostToday = bu_tokensCostToday usage + or_else cost 0,
      bu_tokensCostThisMonth = bu_tokensCostThisMonth usage + or_else cost 0,
      bu_callsToday = bu_callsToday usage + 1, bu_callsThisMonth = bu_callsThisMonth usage + 1,
      bu_lastUpdated = now\<rparr>"

definition recorded :: "int option \<Rightarrow> time \<Rightarrow> budget_policy \<Rightarrow> budget_policy" where
  "recorded cost now p =
     (let usage = used_once cost now (bp_currentUsage p)
      in p\<lparr>bp_currentUsage := usage,
          bp_status := (if isExceeded (bp_limits p) usage then BudgetTriggered else bp_status p)\<rparr>)"

text \<open>\<open>UPDATE ... SET currentUsage, status WHERE id\<close>, from the row that was read.\<close>

definition write_back :: "budget_policy \<Rightarrow> budget_policy list \<Rightarrow> budget_policy list" where
  "write_back p = update_where (\<lambda>r. bp_id r = bp_id p)
     (\<lambda>r. r\<lparr>bp_currentUsage := bp_currentUsage p, bp_status := bp_status p\<rparr>)"

definition recordUsage :: "ident \<Rightarrow> int option \<Rightarrow> time \<Rightarrow> budget_policy list \<Rightarrow> budget_policy list" where
  "recordUsage agentId cost now rows =
     foldl (\<lambda>table row. write_back (recorded cost now row) table) rows (filter (applies_to agentId) rows)"

definition status_after :: "budget_policy \<Rightarrow> budget_usage \<Rightarrow> budget_status" where
  "status_after p usage =
     (if isExceeded (bp_limits p) usage then BudgetTriggered
      else if bp_status p = BudgetTriggered then BudgetActive else bp_status p)"

definition day_reset :: "time \<Rightarrow> budget_policy \<Rightarrow> budget_policy" where
  "day_reset now p =
     (let usage = (bp_currentUsage p)\<lparr>bu_tokensCostToday := 0, bu_callsToday := 0, bu_lastUpdated := now\<rparr>
      in p\<lparr>bp_currentUsage := usage, bp_status := status_after p usage\<rparr>)"

definition month_reset :: "time \<Rightarrow> budget_policy \<Rightarrow> budget_policy" where
  "month_reset now p =
     (let usage = (bp_currentUsage p)\<lparr>bu_tokensCostThisMonth := 0, bu_callsThisMonth := 0, bu_lastUpdated := now\<rparr>
      in p\<lparr>bp_currentUsage := usage, bp_status := status_after p usage\<rparr>)"

definition resetDaily :: "time \<Rightarrow> budget_policy list \<Rightarrow> nat \<times> budget_policy list" where
  "resetDaily now rows = (length rows, foldl (\<lambda>table row. write_back (day_reset now row) table) rows rows)"

definition resetMonthly :: "time \<Rightarrow> budget_policy list \<Rightarrow> nat \<times> budget_policy list" where
  "resetMonthly now rows = (length rows, foldl (\<lambda>table row. write_back (month_reset now row) table) rows rows)"

section \<open>The loops are one update\<close>

text \<open>Writing back changed copies of the rows that satisfy \<open>P\<close>, one by one, when ids are unique.\<close>

lemma write_back_loop:
  assumes "distinct (map bp_id rows)"
    and f: "\<And>p. f p = p\<lparr>bp_currentUsage := bp_currentUsage (f p), bp_status := bp_status (f p)\<rparr>"
  shows "foldl (\<lambda>table row. write_back (f row) table) rows (filter P rows) = update_where P f rows"
proof -
  have id: "bp_id (f p) = bp_id p" for p by (subst f) simp
  have "foldl (\<lambda>table row. write_back (f row) table) (update_where P f front @ more) (filter P more)
      = update_where P f (front @ more)" if "distinct (map bp_id (front @ more))" for front more
    using that
  proof (induction more arbitrary: "front")
    case (Cons p ps)
    have other: "write_back (f p) table = table" if "bp_id p \<notin> set (map bp_id table)" for table
      using that by (induction table) (auto simp: write_back_def id)
    have m: "map bp_id (update_where P f front) = map bp_id front" by (rule map_update_where) (rule id)
    have "write_back (f p) (update_where P f front @ p # ps)
        = write_back (f p) (update_where P f front) @ write_back (f p) [p] @ write_back (f p) ps"
      by (simp add: write_back_def update_where_def)
    also have "write_back (f p) (update_where P f front) = update_where P f front"
      by (rule other) (use Cons.prems m in \<open>auto simp: m\<close>)
    also have "write_back (f p) ps = ps" by (rule other) (use Cons.prems in auto)
    also have "write_back (f p) [p] = [f p]" using f [of p] by (simp add: write_back_def id)
    finally have w: "write_back (f p) (update_where P f front @ p # ps) = update_where P f front @ f p # ps" by simp
    show ?case
    proof (cases "P p")
      case True
      with Cons.IH [of "front @ [p]"] Cons.prems w show ?thesis by (simp add: update_where_def)
    next
      case False
      with Cons.IH [of "front @ [p]"] Cons.prems show ?thesis by (simp add: update_where_def)
    qed
  qed (simp add: update_where_def)
  from this [of "[]" rows] assms(1) show ?thesis by simp
qed

lemma recordUsage_eq:
  "distinct (map bp_id rows) \<Longrightarrow> recordUsage agentId cost now rows = update_where (applies_to agentId) (recorded cost now) rows"
  unfolding recordUsage_def by (rule write_back_loop) (simp_all add: recorded_def Let_def)

lemma reset_eq:
  assumes "distinct (map bp_id rows)"
  shows "snd (resetDaily now rows) = map (day_reset now) rows" "snd (resetMonthly now rows) = map (month_reset now) rows"
  using write_back_loop [OF assms, of "day_reset now" "\<lambda>_. True"]
    write_back_loop [OF assms, of "month_reset now" "\<lambda>_. True"]
  by (simp_all add: resetDaily_def resetMonthly_def day_reset_def month_reset_def Let_def update_where_def)

section \<open>What a budget holds\<close>

lemma check_loop_allowed:
  "\<forall>p\<in>set ps. bp_action p \<noteq> WarnOnly \<Longrightarrow>
   bc_allowed (check_loop cost ps) \<longleftrightarrow> (\<forall>p\<in>set ps. \<not> isExceeded (bp_limits p) (with_cost cost (bp_currentUsage p)))"
  by (induction ps) auto

text \<open>Calls one after the other: each is checked, and recorded when it is allowed. Their number is returned.\<close>

fun spend_calls :: "ident \<Rightarrow> (int option \<times> time) list \<Rightarrow> budget_policy list \<Rightarrow> nat" where
  "spend_calls agentId [] rows = 0"
| "spend_calls agentId ((cost, now) # calls) rows =
     (if bc_allowed (checkBudget agentId cost rows)
      then Suc (spend_calls agentId calls (recordUsage agentId cost now rows))
      else spend_calls agentId calls rows)"

definition no_warn :: "ident \<Rightarrow> budget_policy list \<Rightarrow> bool" where
  "no_warn agentId rows \<longleftrightarrow> list_all (\<lambda>q. applies_to agentId q \<longrightarrow> bp_action q \<noteq> WarnOnly) rows"

lemma recorded_simps [simp]:
  "bp_id (recorded cost now p) = bp_id p" "bp_action (recorded cost now p) = bp_action p"
  "bp_limits (recorded cost now p) = bp_limits p"
  "bu_callsToday (bp_currentUsage (recorded cost now p)) = bu_callsToday (bp_currentUsage p) + 1"
  by (simp_all add: recorded_def used_once_def Let_def)

lemma recorded_applies [simp]: "applies_to a p \<Longrightarrow> applies_to b (recorded cost now p) = applies_to b p"
  by (auto simp: applies_to_def recorded_def Let_def)

lemma recordUsage_no_warn:
  "distinct (map bp_id rows) \<Longrightarrow> no_warn agentId rows \<Longrightarrow> no_warn agentId (recordUsage agentId cost now rows)"
  by (auto simp: recordUsage_eq no_warn_def list_all_iff set_update_where)

lemma recordUsage_ids: "distinct (map bp_id rows) \<Longrightarrow> map bp_id (recordUsage agentId cost now rows) = map bp_id rows"
  unfolding recordUsage_eq by (rule map_update_where) simp

lemma spend_calls_bound:
  "distinct (map bp_id rows) \<Longrightarrow> no_warn agentId rows \<Longrightarrow> p \<in> set rows \<Longrightarrow> applies_to agentId p \<Longrightarrow>
   bl_maxCallsPerDay (bp_limits p) = Some n \<Longrightarrow>
   int (spend_calls agentId calls rows) \<le> max 0 (n - bu_callsToday (bp_currentUsage p))"
proof (induction calls arbitrary: rows p)
  case (Cons call calls)
  obtain cost now where call: "call = (cost, now)" by (cases call)
  show ?case
  proof (cases "bc_allowed (checkBudget agentId cost rows)")
    case True
    have "\<forall>q\<in>set (filter (applies_to agentId) rows). bp_action q \<noteq> WarnOnly"
      using Cons.prems(2) by (auto simp: no_warn_def list_all_iff)
    from check_loop_allowed [OF this] True Cons.prems(3,4)
    have "\<not> isExceeded (bp_limits p) (with_cost cost (bp_currentUsage p))"
      by (auto simp: checkBudget_def)
    then have below: "bu_callsToday (bp_currentUsage p) < n"
      using Cons.prems(5) by (auto simp: isExceeded_def over_limit_def with_cost_def split: option.splits)
    let ?rows = "recordUsage agentId cost now rows" and ?p = "recorded cost now p"
    have "?p \<in> set ?rows"
      unfolding recordUsage_eq [OF Cons.prems(1)] set_update_where
      by (rule image_eqI [of _ _ p]) (use Cons.prems(3,4) in simp_all)
    moreover have "distinct (map bp_id ?rows)" "no_warn agentId ?rows"
      using Cons.prems(1,2) by (simp_all add: recordUsage_ids recordUsage_no_warn)
    ultimately have "int (spend_calls agentId calls ?rows) \<le> max 0 (n - bu_callsToday (bp_currentUsage ?p))"
      using Cons.IH [of ?rows ?p] Cons.prems(4,5) by simp
    with True below show ?thesis by (simp add: call)
  next
    case False
    with Cons show ?thesis by (simp add: call)
  qed
qed simp

text \<open>
  C33: A daily limit of calls holds: when no policy of the agent only warns, calls that are checked and
  recorded one after the other are allowed no more often than the limit has left.
\<close>

theorem daily_call_limit:
  assumes "distinct (map bp_id rows)" and "no_warn agentId rows" and "p \<in> set rows" and "applies_to agentId p"
    and "bl_maxCallsPerDay (bp_limits p) = Some n" and "bu_callsToday (bp_currentUsage p) \<le> n"
  shows "int (spend_calls agentId calls rows) \<le> n - bu_callsToday (bp_currentUsage p)"
  using spend_calls_bound [OF assms(1-5), of calls] assms(6) by simp

definition two_calls :: "budget_limits" where
  "two_calls = \<lparr>bl_maxTokensCostPerDay = None, bl_maxTokensCostPerMonth = None, bl_maxCallsPerDay = Some 2,
     bl_maxCallsPerMonth = None\<rparr>"

definition sample_policy :: "ident \<Rightarrow> budget_action \<Rightarrow> budget_policy" where
  "sample_policy i act =
     new_policy i 0 \<lparr>cp_agentId = Some ''bot'', cp_userId = None, cp_tenantId = None, cp_limits = two_calls, cp_action = act\<rparr>"

theorem daily_call_limit_witness:
  "int (spend_calls ''bot'' [(None, 1), (None, 2), (None, 3)] [sample_policy ''pol_1'' BlockCalls]) \<le> 2"
  using daily_call_limit [of "[sample_policy ''pol_1'' BlockCalls]" "''bot''" "sample_policy ''pol_1'' BlockCalls" 2
      "[(None, 1), (None, 2), (None, 3)]"]
  by (simp add: no_warn_def applies_to_def sample_policy_def new_policy_def two_calls_def emptyUsage_def)

text \<open>
  An exceeded policy that only warns hides every policy behind it: the check stops there and
  allows the call, whatever the rows after it block.
\<close>

theorem warn_hides_block:
  assumes "list_all (\<lambda>r. applies_to agentId r \<longrightarrow> \<not> isExceeded (bp_limits r) (with_cost cost (bp_currentUsage r))) before"
    and "applies_to agentId w" and "bp_action w = WarnOnly"
    and "isExceeded (bp_limits w) (with_cost cost (bp_currentUsage w))"
  shows "bc_allowed (checkBudget agentId cost (before @ w # rows))"
  using assms by (induction before) (auto simp: checkBudget_def)

theorem warn_hides_block_witness:
  "let w = (sample_policy ''pol_1'' WarnOnly)\<lparr>bp_currentUsage := (emptyUsage 0)\<lparr>bu_callsToday := 2\<rparr>\<rparr>;
       b = (sample_policy ''pol_2'' BlockCalls)\<lparr>bp_currentUsage := (emptyUsage 0)\<lparr>bu_callsToday := 2\<rparr>\<rparr>
   in bc_allowed (checkBudget ''bot'' None [w, b]) \<and> \<not> bc_allowed (checkBudget ''bot'' None [b, w])"
proof -
  let ?w = "(sample_policy ''pol_1'' WarnOnly)\<lparr>bp_currentUsage := (emptyUsage 0)\<lparr>bu_callsToday := 2\<rparr>\<rparr>"
  let ?b = "(sample_policy ''pol_2'' BlockCalls)\<lparr>bp_currentUsage := (emptyUsage 0)\<lparr>bu_callsToday := 2\<rparr>\<rparr>"
  note defs = applies_to_def sample_policy_def new_policy_def two_calls_def emptyUsage_def isExceeded_def over_limit_def
    with_cost_def
  have "bc_allowed (checkBudget ''bot'' None [?w, ?b])"
    using warn_hides_block [of "''bot''" None "[]" ?w "[?b]"] by (simp add: defs)
  moreover have "\<not> bc_allowed (checkBudget ''bot'' None [?b, ?w])" by (simp add: checkBudget_def defs)
  ultimately show ?thesis by (simp add: Let_def)
qed

text \<open>
  The user and the tenant of a policy play no part in the check: changing them changes no answer,
  so a policy of one user binds the agents of all.
\<close>

theorem scope_plays_no_part:
  "bc_allowed (checkBudget agentId cost (map (\<lambda>r. r\<lparr>bp_userId := u r, bp_tenantId := t r\<rparr>) rows))
   = bc_allowed (checkBudget agentId cost rows)"
proof -
  let ?f = "\<lambda>r. r\<lparr>bp_userId := u r, bp_tenantId := t r\<rparr>"
  have "bc_allowed (check_loop cost (map ?f ps)) = bc_allowed (check_loop cost ps)" for ps
    by (induction ps) simp_all
  moreover have "filter (applies_to agentId) (map ?f rows) = map ?f (filter (applies_to agentId) rows)"
    by (induction rows) (simp_all add: applies_to_def)
  ultimately show ?thesis by (simp add: checkBudget_def)
qed

text \<open>
  A disabled policy comes back by itself: a daily reset sets it to triggered when its month is used up,
  and from then on it is checked and counted again.
\<close>

theorem reset_enables_disabled:
  assumes "distinct (map bp_id rows)" and "p \<in> set rows" and "bp_status p = BudgetDisabled"
    and "over_limit (bl_maxCallsPerMonth (bp_limits p)) (bu_callsThisMonth (bp_currentUsage p))"
    and "bp_agentId p = Some agentId \<or> bp_agentId p = None"
  shows "\<not> applies_to agentId p \<and> (\<exists>q\<in>set (snd (resetDaily now rows)). bp_id q = bp_id p \<and> applies_to agentId q)"
proof -
  have "bp_id (day_reset now p) = bp_id p \<and> applies_to agentId (day_reset now p)"
    using assms(4,5) by (auto simp: day_reset_def status_after_def isExceeded_def applies_to_def Let_def)
  moreover have "day_reset now p \<in> set (snd (resetDaily now rows))" using assms(1,2) by (simp add: reset_eq)
  ultimately show ?thesis using assms(3) by (auto simp: applies_to_def)
qed

definition spent_policy :: budget_policy where
  "spent_policy = (sample_policy ''pol_1'' BlockCalls)\<lparr>bp_status := BudgetDisabled,
     bp_limits := two_calls\<lparr>bl_maxCallsPerDay := None, bl_maxCallsPerMonth := Some 2\<rparr>,
     bp_currentUsage := (emptyUsage 0)\<lparr>bu_callsThisMonth := 2\<rparr>\<rparr>"

theorem reset_enables_disabled_witness:
  "\<exists>q\<in>set (snd (resetDaily 1 [spent_policy])). bp_id q = ''pol_1'' \<and> applies_to ''bot'' q"
  using reset_enables_disabled [of "[spent_policy]" spent_policy "''bot''" 1]
  by (simp add: spent_policy_def sample_policy_def new_policy_def over_limit_def)

text \<open>What is created is found, and an update changes the named fields only.\<close>

lemma create_policy_found:
  "i \<notin> set (map bp_id rows) \<Longrightarrow> get_policy i (snd (create_policy i now input rows)) = Some (fst (create_policy i now input rows))"
  by (induction rows) (auto simp: get_policy_def create_policy_def new_policy_def)

lemma removed_policy_gone: "fst (remove_policy i rows) = Inr () \<Longrightarrow> get_policy i (snd (remove_policy i rows)) = None"
  by (auto simp: remove_policy_def get_policy_def find_None_iff set_delete_where split: option.splits)

lemma update_policy_kept:
  assumes "update_policy i u rows = (Inr p, rows')"
  shows "get_policy i rows' = Some p \<and> (\<exists>old. get_policy i rows = Some old \<and> bp_agentId p = bp_agentId old
    \<and> bp_limits p = or_else (pu_limits u) (bp_limits old) \<and> bp_status p = or_else (pu_status u) (bp_status old))"
proof -
  obtain old where old: "get_policy i rows = Some old" using assms by (cases "get_policy i rows") (auto simp: update_policy_def)
  let ?f = "\<lambda>r. r\<lparr>bp_limits := or_else (pu_limits u) (bp_limits old),
    bp_currentUsage := or_else (pu_currentUsage u) (bp_currentUsage old),
    bp_action := or_else (pu_action u) (bp_action old), bp_status := or_else (pu_status u) (bp_status old)\<rparr>"
  have "List.find (\<lambda>r. bp_id r = i) (update_where (\<lambda>r. bp_id r = i) ?f rows)
      = map_option ?f (List.find (\<lambda>r. bp_id r = i) rows)"
    by (induction rows) auto
  with assms old show ?thesis by (auto simp: update_policy_def get_policy_def Let_def)
qed

end
