(* ===== verification/Base32.thy ===== *)
theory Base32
  imports MerkleTree
begin

unbundle bit_operations_syntax

text \<open>
  Base 32 text of byte strings, \<open>base32Encode\<close> and \<open>base32Decode\<close> of \<open>packages/core/src/auth/totp.ts\<close>.
  The accumulator of both loops is a JavaScript number that \<open><<\<close> and \<open>|\<close> cut to 32 bits, a
  \<open>32 word\<close> here: its upper bits overflow on every longer input, and are never read.
\<close>

section \<open>The two loops\<close>

definition base32_alphabet :: string where
  "base32_alphabet = ''ABCDEFGHIJKLMNOPQRSTUVWXYZ234567''"

definition base32_char :: "32 word \<Rightarrow> char" where
  "base32_char w = base32_alphabet ! unat (w AND 31)"

text \<open>The inner loop: characters while five bits are held, and the number of bits left.\<close>

fun base32_drain :: "nat \<Rightarrow> 32 word \<Rightarrow> string \<times> nat" where
  "base32_drain bits v =
     (if 5 \<le> bits then
        (case base32_drain (bits - 5) v of (s, k) \<Rightarrow> (base32_char (drop_bit (bits - 5) v) # s, k))
      else ([], bits))"

declare base32_drain.simps [simp del]

fun base32_encode_loop :: "bytes \<Rightarrow> nat \<Rightarrow> 32 word \<Rightarrow> string" where
  "base32_encode_loop [] bits v = (if 0 < bits then [base32_char (push_bit (5 - bits) v)] else [])"
| "base32_encode_loop (b # bs) bits v =
     (let v' = push_bit 8 v OR ucast b
      in case base32_drain (bits + 8) v' of (s, k) \<Rightarrow> s @ base32_encode_loop bs k v')"

definition base32Encode :: "bytes \<Rightarrow> string" where
  "base32Encode bs = base32_encode_loop bs 0 0"

text \<open>
  \<open>toUpperCase\<close> of a character; the sharp s becomes two letters. The two characters whose upper case is
  not below 256 are left as they are.
\<close>

definition upper_text :: "char \<Rightarrow> string" where
  "upper_text c =
     (let n = (of_char c :: nat)
      in if (97 \<le> n \<and> n \<le> 122) \<or> (224 \<le> n \<and> n \<le> 254 \<and> n \<noteq> 247) then [char_of (n - 32)]
         else if n = 223 then ''SS'' else [c])"

text \<open>\<open>BASE32_ALPHABET.indexOf(ch)\<close>; a character outside it throws, \<open>None\<close>.\<close>

definition base32_index :: "char \<Rightarrow> nat option" where
  "base32_index c = find_index (\<lambda>x. x = c) base32_alphabet"

fun base32_decode_loop :: "string \<Rightarrow> nat \<Rightarrow> 32 word \<Rightarrow> bytes option" where
  "base32_decode_loop [] bits v = Some []"
| "base32_decode_loop (c # s) bits v =
     (case base32_index c of
        None \<Rightarrow> None
      | Some i \<Rightarrow>
          let v' = push_bit 5 v OR of_nat i
          in if 8 \<le> bits + 5
             then map_option (\<lambda>bs. ucast (drop_bit (bits - 3) v' AND 255) # bs) (base32_decode_loop s (bits - 3) v')
             else base32_decode_loop s (bits + 5) v')"

text \<open>\<open>replace(/=+$/, "")\<close>\<close>

definition strip_padding :: "string \<Rightarrow> string" where
  "strip_padding s = rev (dropWhile (\<lambda>c. c = CHR ''='') (rev s))"

definition base32Decode :: "string \<Rightarrow> bytes option" where
  "base32Decode s = base32_decode_loop (strip_padding (concat (map upper_text s))) 0 0"

section \<open>The bits that count\<close>

text \<open>The low \<open>n\<close> bits of a word, the highest first.\<close>

definition bits_of :: "nat \<Rightarrow> 'a::len word \<Rightarrow> bool list" where
  "bits_of n w = map (\<lambda>i. bit w (n - Suc i)) [0..<n]"

lemma length_bits_of [simp]: "length (bits_of n w) = n"
  by (simp add: bits_of_def)

lemma bits_of_0 [simp]: "bits_of 0 w = []"
  by (simp add: bits_of_def)

lemma nth_bits_of [simp]: "i < n \<Longrightarrow> bits_of n w ! i = bit w (n - Suc i)"
  by (simp add: bits_of_def)

lemma bits_of_byte:
  "n + 8 \<le> 32 \<Longrightarrow> bits_of (n + 8) (push_bit 8 v OR ucast (b :: 8 word)) = bits_of n (v :: 32 word) @ bits_of 8 b"
  by (rule nth_equalityI) (auto simp: nth_append bit_simps dest: bit_imp_le_length)

lemma bits_of_five:
  "n + 5 \<le> 32 \<Longrightarrow> bits_of (n + 5) (v :: 32 word) = bits_of 5 (drop_bit n v AND 31) @ bits_of n v"
proof (rule nth_equalityI, goal_cases)
  case (2 i)
  have "drop_bit n v AND 31 = take_bit 5 (drop_bit n v)" by (simp add: take_bit_eq_mask mask_eq_exp_minus_1)
  with 2 show ?case by (auto simp: nth_append bit_simps ac_simps)
qed simp

lemma bits_of_last:
  "0 < n \<Longrightarrow> n \<le> 5 \<Longrightarrow> bits_of 5 (push_bit (5 - n) v AND 31) = bits_of n (v :: 32 word) @ replicate (5 - n) False"
proof (rule nth_equalityI, goal_cases)
  case (2 i)
  have "push_bit (5 - n) v AND 31 = take_bit 5 (push_bit (5 - n) v)" by (simp add: take_bit_eq_mask mask_eq_exp_minus_1)
  with 2 show ?case by (auto simp: nth_append bit_simps ac_simps)
qed simp

lemma bits_of_char:
  assumes "n + 5 \<le> 32" and "w = take_bit 5 w"
  shows "bits_of (n + 5) (push_bit 5 v OR w) = bits_of n (v :: 32 word) @ bits_of 5 w"
proof (rule nth_equalityI, goal_cases)
  case (2 i)
  have "\<not> bit w j" if "5 \<le> j" for j using assms(2) that by (metis bit_take_bit_iff not_less)
  with 2 assms(1) show ?case by (auto simp: nth_append bit_simps ac_simps)
qed simp

lemma bits_of_out:
  "n + 8 \<le> 32 \<Longrightarrow>
   bits_of (n + 8) (v :: 32 word) = bits_of 8 (ucast (drop_bit n v AND 255) :: 8 word) @ bits_of n v"
proof (rule nth_equalityI, goal_cases)
  case (2 i)
  have "drop_bit n v AND 255 = take_bit 8 (drop_bit n v)" by (simp add: take_bit_eq_mask mask_eq_exp_minus_1)
  with 2 show ?case by (auto simp: nth_append bit_simps ac_simps)
qed simp

lemma bits_of_byte_inject: "bits_of 8 a = bits_of 8 b \<longleftrightarrow> a = (b :: 8 word)"
proof
  assume eq: "bits_of 8 a = bits_of 8 b"
  show "a = b"
  proof (rule bit_word_eqI)
    fix j assume "j < LENGTH(8)"
    then have "j < 8" by simp
    with nth_bits_of [of "7 - j" 8 a] nth_bits_of [of "7 - j" 8 b] eq show "bit a j = bit b j"
      by (simp add: Suc_diff_Suc)
  qed
qed simp

section \<open>Decoding what was encoded\<close>

abbreviation five :: "32 word \<Rightarrow> bool list" where
  "five w \<equiv> bits_of 5 (w AND 31)"

lemma alphabet_index: "i < 32 \<Longrightarrow> base32_index (base32_alphabet ! i) = Some i"
proof -
  have "list_all (\<lambda>i. base32_index (base32_alphabet ! i) = Some i) [0..<32]" by code_simp
  then show "i < 32 \<Longrightarrow> base32_index (base32_alphabet ! i) = Some i" by (simp add: list_all_iff)
qed

lemma base32_alphabet_upper: "i < 32 \<Longrightarrow> upper_text (base32_alphabet ! i) = [base32_alphabet ! i] \<and> base32_alphabet ! i \<noteq> CHR ''=''"
proof -
  have "list_all (\<lambda>i. upper_text (base32_alphabet ! i) = [base32_alphabet ! i] \<and> base32_alphabet ! i \<noteq> CHR ''='') [0..<32]"
    by code_simp
  then show "i < 32 \<Longrightarrow> upper_text (base32_alphabet ! i) = [base32_alphabet ! i] \<and> base32_alphabet ! i \<noteq> CHR ''=''"
    by (simp add: list_all_iff)
qed

lemma low_five: "unat (w AND 31 :: 32 word) < 32" "w AND 31 = take_bit 5 (w AND 31 :: 32 word)"
proof -
  have m: "w AND 31 = take_bit 5 w" by (simp add: take_bit_eq_mask mask_eq_exp_minus_1)
  show "unat (w AND 31) < 32" unfolding m by (simp only: unsigned_take_bit_eq) (simp add: take_bit_eq_mod)
  show "w AND 31 = take_bit 5 (w AND 31)" unfolding m by simp
qed

lemma base32_char_index [simp]: "base32_index (base32_char w) = Some (unat (w AND 31))"
  by (simp add: base32_char_def alphabet_index low_five(1))

lemma base32_char_upper [simp]: "upper_text (base32_char w) = [base32_char w]" "base32_char w \<noteq> CHR ''=''"
  using base32_alphabet_upper [OF low_five(1) [of w]] by (simp_all add: base32_char_def)

lemma base32_drain_bits:
  "base32_drain n v = (s, k) \<Longrightarrow> n \<le> 32 \<Longrightarrow>
   k < 5 \<and> (\<exists>ws. s = map base32_char ws \<and> concat (map five ws) @ bits_of k v = bits_of n v)"
proof (induction n v arbitrary: s rule: base32_drain.induct)
  case (1 n v)
  show ?case
  proof (cases "5 \<le> n")
    case True
    obtain s' where s': "base32_drain (n - 5) v = (s', k)" "s = base32_char (drop_bit (n - 5) v) # s'"
      using "1.prems"(1) True by (subst (asm) base32_drain.simps) (auto split: prod.splits)
    have "n - 5 \<le> 32" using "1.prems"(2) by simp
    from "1.IH" [OF True s'(1) this] obtain ws where
      ws: "k < 5" "s' = map base32_char ws" "concat (map five ws) @ bits_of k v = bits_of (n - 5) v" by auto
    have "bits_of n v = five (drop_bit (n - 5) v) @ bits_of (n - 5) v"
      using bits_of_five [of "n - 5" v] True "1.prems"(2) by simp
    with ws s'(2) show ?thesis by (intro conjI exI [of _ "drop_bit (n - 5) v # ws"]) simp_all
  next
    case False
    with "1.prems"(1) have "s = []" "k = n" by (subst (asm) base32_drain.simps, simp)+
    with False show ?thesis by simp
  qed
qed

lemma base32_encode_bits:
  "n < 5 \<Longrightarrow> \<exists>ws p. base32_encode_loop bs n v = map base32_char ws \<and> p < 5
     \<and> concat (map five ws) = bits_of n v @ concat (map (bits_of 8) bs) @ replicate p False"
proof (induction bs arbitrary: n v)
  case Nil
  show ?case
  proof (cases "0 < n")
    case True
    with Nil show ?thesis
      by (intro exI [of _ "[push_bit (5 - n) v]"] exI [of _ "5 - n"]) (simp add: bits_of_last)
  next
    case False
    then show ?thesis by (intro exI [of _ "[]"] exI [of _ 0]) simp
  qed
next
  case (Cons b bs)
  let ?v = "push_bit 8 v OR ucast b"
  obtain s k where s: "base32_drain (n + 8) ?v = (s, k)" by (cases "base32_drain (n + 8) ?v")
  from base32_drain_bits [OF s] Cons.prems obtain ws where
    ws: "k < 5" "s = map base32_char ws" "concat (map five ws) @ bits_of k ?v = bits_of (n + 8) ?v" by auto
  from Cons.IH [OF ws(1), of ?v] obtain us p where
    us: "base32_encode_loop bs k ?v = map base32_char us" "p < 5"
      "concat (map five us) = bits_of k ?v @ concat (map (bits_of 8) bs) @ replicate p False" by blast
  have "concat (map five (ws @ us)) = bits_of (n + 8) ?v @ concat (map (bits_of 8) bs) @ replicate p False"
    using ws(3) us(3) by (metis append.assoc concat_append map_append)
  also have "bits_of (n + 8) ?v = bits_of n v @ bits_of 8 b" using Cons.prems by (intro bits_of_byte) simp
  finally show ?case
    using s ws(2) us(1,2) by (intro exI [of _ "ws @ us"] exI [of _ p]) (simp add: Let_def)
qed

lemma base32_decode_bits:
  "n < 8 \<Longrightarrow> \<exists>out more. base32_decode_loop (map base32_char ws) n v = Some out \<and> length more < 8
     \<and> bits_of n v @ concat (map five ws) = concat (map (bits_of 8) out) @ more"
proof (induction ws arbitrary: n v)
  case Nil
  then show ?case by (intro exI [of _ "[]"] exI [of _ "bits_of n v"]) simp
next
  case (Cons w ws)
  let ?v = "push_bit 5 v OR (w AND 31)"
  have join: "bits_of (n + 5) ?v = bits_of n v @ five w"
    by (rule bits_of_char [OF _ low_five(2)]) (use Cons.prems in simp)
  show ?case
  proof (cases "8 \<le> n + 5")
    case True
    with Cons.prems have "n - 3 < 8" by simp
    from Cons.IH [OF this, of ?v] obtain out more where
      out: "base32_decode_loop (map base32_char ws) (n - 3) ?v = Some out" "length more < 8"
        "bits_of (n - 3) ?v @ concat (map five ws) = concat (map (bits_of 8) out) @ more" by blast
    have e: "n - 3 + 8 = n + 5" using True by simp
    let ?b = "ucast (drop_bit (n - 3) ?v AND 255) :: 8 word"
    have "bits_of (n + 5) ?v = bits_of 8 ?b @ bits_of (n - 3) ?v"
      unfolding e [symmetric] by (rule bits_of_out) (use Cons.prems in simp)
    then have "bits_of n v @ five w = bits_of 8 ?b @ bits_of (n - 3) ?v" by (simp only: join)
    then have "bits_of n v @ concat (map five (w # ws)) = bits_of 8 ?b @ bits_of (n - 3) ?v @ concat (map five ws)"
      by (simp only: append.assoc [symmetric] list.map concat.simps)
    also have "\<dots> = concat (map (bits_of 8) (?b # out)) @ more" using out(3) by simp
    finally show ?thesis using True out(1,2) by (intro exI [of _ "?b # out"] exI [of _ more]) (simp add: Let_def)
  next
    case False
    then have "n + 5 < 8" by simp
    from Cons.IH [OF this, of ?v] obtain out more where
      out: "base32_decode_loop (map base32_char ws) (n + 5) ?v = Some out" "length more < 8"
        "bits_of (n + 5) ?v @ concat (map five ws) = concat (map (bits_of 8) out) @ more" by blast
    then show ?thesis using False join by (intro exI [of _ out] exI [of _ more]) (simp add: Let_def)
  qed
qed

lemma length_concat_bytes: "length (concat (map (bits_of 8) (bs :: bytes))) = 8 * length bs"
  by (induction bs) simp_all

lemma concat_bytes_inject:
  "length as = length bs \<Longrightarrow> concat (map (bits_of 8) as) = concat (map (bits_of 8) bs) \<Longrightarrow> as = (bs :: bytes)"
  by (induction as bs rule: list_induct2) (simp_all add: bits_of_byte_inject)

lemma base32_decode_encoded: "base32Decode (base32Encode bs) = Some bs"
proof -
  from base32_encode_bits [of 0 bs 0] obtain ws p where
    ws: "base32Encode bs = map base32_char ws" "p < 5"
      "concat (map five ws) = concat (map (bits_of 8) bs) @ replicate p False"
    by (auto simp: base32Encode_def)
  from base32_decode_bits [of 0 ws 0] obtain out more where
    out: "base32_decode_loop (map base32_char ws) 0 0 = Some out" "length more < 8"
      "concat (map five ws) = concat (map (bits_of 8) out) @ more" by auto
  from ws(3) out(3) have eq: "concat (map (bits_of 8) bs) @ replicate p False = concat (map (bits_of 8) out) @ more"
    by simp
  then have "8 * length bs + p = 8 * length out + length more"
    by (metis length_append length_concat_bytes length_replicate)
  with ws(2) out(2) have "length bs = length out" by presburger
  with eq have "bs = out" by (intro concat_bytes_inject) (simp_all add: append_eq_append_conv length_concat_bytes)
  moreover have "strip_padding (map base32_char ws) = map base32_char ws"
    by (cases ws rule: rev_cases) (simp_all add: strip_padding_def)
  moreover have "concat (map upper_text (map base32_char ws)) = map base32_char ws" by (induction ws) simp_all
  ultimately show ?thesis using out(1) ws(1) by (simp add: base32Decode_def)
qed

text \<open>
  C31: A secret survives its base 32 text: decoding what was encoded gives the bytes back, for inputs of
  any length, although the 32 bit accumulator of both loops overflows.
\<close>

theorem base32_roundtrip: "base32Decode (base32Encode bs) = Some bs"
  by (rule base32_decode_encoded)

end
