(* ===== verification/Totp.thy ===== *)
theory Totp
  imports Base32 Otp
begin

unbundle bit_operations_syntax

text \<open>
  Two-factor codes from an authenticator, \<open>packages/core/src/auth/totp.ts\<close>: the code of a period, its
  check with a window for clock drift, and the module over the table of records. HMAC-SHA1, SHA-256
  and random bytes are arguments; text that only leaves the module, the \<open>otpauth\<close> address, is left out.
  The table is then given to callers that interleave, who spend one backup code twice.
\<close>

section \<open>Codes\<close>

text \<open>Big-endian bytes of the counter: \<open>remaining & 0xff\<close>, then \<open>Math.floor(remaining / 256)\<close>.\<close>

fun counter_loop :: "nat \<Rightarrow> int \<Rightarrow> bytes \<Rightarrow> bytes" where
  "counter_loop 0 remaining acc = acc"
| "counter_loop (Suc n) remaining acc = counter_loop n (remaining div 256) (word_of_int remaining # acc)"

definition counter_buffer :: "int \<Rightarrow> bytes" where
  "counter_buffer counter = counter_loop 8 counter []"

text \<open>\<open>digest[i] ?? 0\<close>\<close>

definition byte_at :: "bytes \<Rightarrow> nat \<Rightarrow> 32 word" where
  "byte_at d i = (if i < length d then ucast (d ! i) else 0)"

definition truncate_digest :: "bytes \<Rightarrow> 32 word" where
  "truncate_digest d =
     (let offset = unat (byte_at d 19 AND 0xf)
      in push_bit 24 (byte_at d offset AND 0x7f) OR push_bit 16 (byte_at d (offset + 1) AND 0xff)
         OR push_bit 8 (byte_at d (offset + 2) AND 0xff) OR (byte_at d (offset + 3) AND 0xff))"

definition pad_start :: "nat \<Rightarrow> string \<Rightarrow> string" where
  "pad_start n s = replicate (n - length s) (CHR ''0'') @ s"

definition generateTotp :: "(bytes \<Rightarrow> bytes \<Rightarrow> bytes) \<Rightarrow> bytes \<Rightarrow> int \<Rightarrow> int \<Rightarrow> string" where
  "generateTotp hmac secret seconds period =
     pad_start 6 (nat_str (unat (truncate_digest (hmac secret (counter_buffer (seconds div period)))) mod 1000000))"

text \<open>The loop from \<open>-window\<close> to \<open>window\<close>; \<open>now\<close> is \<open>Math.floor(Date.now() / 1000)\<close>.\<close>

fun verify_loop :: "(bytes \<Rightarrow> bytes \<Rightarrow> bytes) \<Rightarrow> bytes \<Rightarrow> string \<Rightarrow> int \<Rightarrow> int \<Rightarrow> int list \<Rightarrow> bool" where
  "verify_loop hmac secret code period now [] = False"
| "verify_loop hmac secret code period now (delta # ds) =
     (if generateTotp hmac secret (now + delta * period) period = code then True
      else verify_loop hmac secret code period now ds)"

definition verifyTotp :: "(bytes \<Rightarrow> bytes \<Rightarrow> bytes) \<Rightarrow> bytes \<Rightarrow> string \<Rightarrow> int \<Rightarrow> int \<Rightarrow> time \<Rightarrow> bool" where
  "verifyTotp hmac secret code period window now =
     verify_loop hmac secret code period (now div 1000) [- window..window]"

definition generateSecret :: "bytes \<Rightarrow> string" where
  "generateSecret random = base32Encode (take 20 random)"

definition backup_code_chars :: string where
  "backup_code_chars = ''ABCDEFGHJKLMNPQRSTUVWXYZ23456789''"

definition generateBackupCode :: "bytes \<Rightarrow> string" where
  "generateBackupCode random = map (\<lambda>b. backup_code_chars ! (unat b mod length backup_code_chars)) (take 8 random)"

section \<open>The module\<close>

record backup_code =
  bk_hash :: string
  bk_used :: bool

record totp_record =
  to_userId :: ident
  to_secret :: string
  to_enabled :: bool
  to_backupCodes :: "backup_code list"
  to_createdAt :: time
  to_updatedAt :: time

record totp_env =
  te_hmac :: "bytes \<Rightarrow> bytes \<Rightarrow> bytes"
  te_digest :: "string \<Rightarrow> bytes"
  te_period :: int
  te_window :: int

definition hashBackupCode :: "totp_env \<Rightarrow> string \<Rightarrow> string" where
  "hashBackupCode env code = sha256 (te_digest env) code"

definition generateBackupCodes :: "totp_env \<Rightarrow> bytes list \<Rightarrow> string list \<times> backup_code list" where
  "generateBackupCodes env randoms =
     (let plain = map generateBackupCode randoms
      in (plain, map (\<lambda>c. \<lparr>bk_hash = hashBackupCode env c, bk_used = False\<rparr>) plain))"

definition record_of :: "ident \<Rightarrow> totp_record list \<Rightarrow> totp_record option" where
  "record_of userId rows = List.find (\<lambda>r. to_userId r = userId) rows"

definition for_user :: "ident \<Rightarrow> (totp_record \<Rightarrow> totp_record) \<Rightarrow> totp_record list \<Rightarrow> totp_record list" where
  "for_user userId f = update_where (\<lambda>r. to_userId r = userId) f"

definition setup_totp ::
  "totp_env \<Rightarrow> ident \<Rightarrow> bytes \<Rightarrow> bytes list \<Rightarrow> time \<Rightarrow> totp_record list \<Rightarrow> (string \<times> string list) \<times> totp_record list" where
  "setup_totp env userId random randoms now rows =
     (let secret = generateSecret random; codes = generateBackupCodes env randoms
      in ((secret, fst codes),
          if record_of userId rows \<noteq> None then
            for_user userId (\<lambda>r. r\<lparr>to_secret := secret, to_enabled := False, to_backupCodes := snd codes,
                                to_updatedAt := now\<rparr>) rows
          else rows @ [\<lparr>to_userId = userId, to_secret = secret, to_enabled = False, to_backupCodes = snd codes,
                        to_createdAt = now, to_updatedAt = now\<rparr>]))"

text \<open>A secret that does not decode throws, \<open>Threw\<close>.\<close>

definition enable_totp :: "totp_env \<Rightarrow> ident \<Rightarrow> string \<Rightarrow> time \<Rightarrow> totp_record list \<Rightarrow> bool reply \<times> totp_record list" where
  "enable_totp env userId code now rows =
     (case record_of userId rows of
        None \<Rightarrow> (Returned False, rows)
      | Some r \<Rightarrow>
          (case base32Decode (to_secret r) of
             None \<Rightarrow> (Threw, rows)
           | Some secret \<Rightarrow>
               if \<not> verifyTotp (te_hmac env) secret code (te_period env) (te_window env) now then (Returned False, rows)
               else (Returned True, for_user userId (\<lambda>x. x\<lparr>to_enabled := True, to_updatedAt := now\<rparr>) rows)))"

datatype totp_result = NotValid | ValidCode | ValidBackup

text \<open>What \<open>verify\<close> concludes from the record it read, with the codes it writes back.\<close>

definition totp_verdict :: "totp_env \<Rightarrow> string \<Rightarrow> time \<Rightarrow> totp_record option \<Rightarrow> (totp_result \<times> backup_code list option) reply" where
  "totp_verdict env code now found =
     (case found of
        None \<Rightarrow> Returned (NotValid, None)
      | Some r \<Rightarrow>
          if \<not> to_enabled r then Returned (NotValid, None)
          else (case base32Decode (to_secret r) of
                  None \<Rightarrow> Threw
                | Some secret \<Rightarrow>
                    if verifyTotp (te_hmac env) secret code (te_period env) (te_window env) now
                    then Returned (ValidCode, None)
                    else let codeHash = hashBackupCode env (concat (map upper_text code))
                         in (case find_index (\<lambda>b. bk_hash b = codeHash \<and> \<not> bk_used b) (to_backupCodes r) of
                               None \<Rightarrow> Returned (NotValid, None)
                             | Some i \<Rightarrow>
                                 Returned (ValidBackup,
                                   Some ((to_backupCodes r)[i := (to_backupCodes r ! i)\<lparr>bk_used := True\<rparr>])))))"

definition write_codes :: "ident \<Rightarrow> backup_code list \<Rightarrow> time \<Rightarrow> totp_record list \<Rightarrow> totp_record list" where
  "write_codes userId codes now = for_user userId (\<lambda>x. x\<lparr>to_backupCodes := codes, to_updatedAt := now\<rparr>)"

definition verify_totp :: "totp_env \<Rightarrow> ident \<Rightarrow> string \<Rightarrow> time \<Rightarrow> totp_record list \<Rightarrow> totp_result reply \<times> totp_record list" where
  "verify_totp env userId code now rows =
     (case totp_verdict env code now (record_of userId rows) of
        Threw \<Rightarrow> (Threw, rows)
      | Returned (result, None) \<Rightarrow> (Returned result, rows)
      | Returned (result, Some codes) \<Rightarrow> (Returned result, write_codes userId codes now rows))"

definition disable_totp :: "totp_env \<Rightarrow> ident \<Rightarrow> string \<Rightarrow> time \<Rightarrow> totp_record list \<Rightarrow> bool reply \<times> totp_record list" where
  "disable_totp env userId code now rows =
     (case verify_totp env userId code now rows of
        (Threw, rows') \<Rightarrow> (Threw, rows')
      | (Returned result, rows') \<Rightarrow>
          if result = NotValid then (Returned False, rows')
          else (Returned True, delete_where (\<lambda>r. to_userId r = userId) rows'))"

definition isEnabled :: "ident \<Rightarrow> totp_record list \<Rightarrow> bool" where
  "isEnabled userId rows = (case record_of userId rows of Some r \<Rightarrow> to_enabled r | None \<Rightarrow> False)"

text \<open>An invalid code is thrown as well.\<close>

definition regenerateBackupCodes ::
  "totp_env \<Rightarrow> ident \<Rightarrow> string \<Rightarrow> bytes list \<Rightarrow> time \<Rightarrow> totp_record list \<Rightarrow> string list reply \<times> totp_record list" where
  "regenerateBackupCodes env userId code randoms now rows =
     (case verify_totp env userId code now rows of
        (Threw, rows') \<Rightarrow> (Threw, rows')
      | (Returned result, rows') \<Rightarrow>
          if result = NotValid then (Threw, rows')
          else let codes = generateBackupCodes env randoms
               in (Returned (fst codes), write_codes userId (snd codes) now rows'))"

section \<open>What a code is\<close>

text \<open>The number that big-endian bytes stand for.\<close>

fun be_value :: "bytes \<Rightarrow> int" where
  "be_value [] = 0"
| "be_value (b # bs) = uint b * 256 ^ length bs + be_value bs"

lemma counter_loop_value:
  "length (counter_loop n c acc) = n + length acc
   \<and> be_value (counter_loop n c acc) = (c mod 256 ^ n) * 256 ^ length acc + be_value acc"
proof (induction n arbitrary: c acc)
  case (Suc n)
  have u: "uint (word_of_int c :: 8 word) = c mod 256" by (simp add: uint_word_of_int)
  have m: "c mod 256 ^ Suc n = c mod 256 + 256 * (c div 256 mod 256 ^ n)"
    unfolding power_Suc by (subst zmod_zmult2_eq) (rule zero_le_power, simp, rule add.commute)
  have "be_value (counter_loop (Suc n) c acc)
      = (c div 256 mod 256 ^ n) * 256 ^ Suc (length acc) + (c mod 256) * 256 ^ length acc + be_value acc"
    using Suc [of "c div 256" "word_of_int c # acc"] by (simp only: counter_loop.simps be_value.simps u list.size) simp
  moreover have "length (counter_loop (Suc n) c acc) = Suc n + length acc"
    using Suc [of "c div 256" "word_of_int c # acc"] by simp
  ultimately show ?case using m by (simp only: power_Suc distrib_left distrib_right ac_simps simp_thms)
qed simp

text \<open>The counter of a period survives its eight bytes, so other periods sign other bytes.\<close>

lemma counter_buffer_value: "length (counter_buffer c) = 8 \<and> be_value (counter_buffer c) = c mod 2 ^ 64"
  using counter_loop_value [of 8 c "[]"] by (simp add: counter_buffer_def)

lemma counter_buffer_inject:
  assumes "0 \<le> c" "c < 2 ^ 64" "0 \<le> d" "d < 2 ^ 64" "counter_buffer c = counter_buffer d"
  shows "c = d"
proof -
  have "c mod 2 ^ 64 = d mod 2 ^ 64" using counter_buffer_value [of c] counter_buffer_value [of d] assms(5) by argo
  with assms(1-4) show ?thesis by (simp only: mod_pos_pos_trivial)
qed

lemma pad_start_digits:
  assumes "n < 10 ^ k" "0 < k"
  shows "length (pad_start k (nat_str n)) = k \<and> list_all is_digit (pad_start k (nat_str n))"
proof -
  have "length (nat_str n) \<le> k" using assms
  proof (induction n arbitrary: k rule: nat_str.induct)
    case (1 n)
    show ?case
    proof (cases "n < 10")
      case True
      with "1.prems"(2) show ?thesis by (subst nat_str.simps) simp
    next
      case False
      with "1.prems"(1) have "k \<noteq> 1" by auto
      with "1.prems"(2) obtain j where j: "k = Suc j" "0 < j" by (cases k) auto
      with "1.prems"(1) have "n div 10 < 10 ^ j" by (simp add: less_mult_imp_div_less mult.commute)
      from "1.IH" [OF False this j(2)] False j(1) show ?thesis by (subst nat_str.simps) simp
    qed
  qed
  then show ?thesis by (auto simp: pad_start_def list_all_iff is_digit_def dest!: nat_str_digits)
qed

lemma totp_six_digits:
  "length (generateTotp hmac secret seconds period) = 6 \<and> list_all is_digit (generateTotp hmac secret seconds period)"
  unfolding generateTotp_def by (rule pad_start_digits) simp_all

lemma verify_loop_iff:
  "verify_loop hmac secret code period now ds \<longleftrightarrow>
     (\<exists>d\<in>set ds. generateTotp hmac secret (now + d * period) period = code)"
  by (induction ds) auto

lemma verifyTotp_iff:
  assumes "0 < period"
  shows "verifyTotp hmac secret code period window now \<longleftrightarrow>
    (\<exists>d. \<bar>d\<bar> \<le> window \<and> generateTotp hmac secret ((now div 1000 div period + d) * period) period = code)"
proof -
  have "generateTotp hmac secret (now div 1000 + d * period) period
      = generateTotp hmac secret ((now div 1000 div period + d) * period) period" for d
    using assms by (simp add: generateTotp_def add.commute)
  then show ?thesis
    unfolding verifyTotp_def verify_loop_iff Bex_def by (intro arg_cong [of _ _ Ex] ext) auto
qed

section \<open>The module at work\<close>

lemma record_of_for_user:
  "(\<And>r. to_userId (f r) = to_userId r) \<Longrightarrow> record_of u (for_user u f rows) = map_option f (record_of u rows)"
  by (induction rows) (auto simp: record_of_def for_user_def)

lemma record_of_append: "record_of u rows = None \<Longrightarrow> record_of u (rows @ [r]) = (if to_userId r = u then Some r else None)"
  by (induction rows) (auto simp: record_of_def split: if_splits)

lemma record_of_setup:
  "\<exists>r. record_of u (snd (setup_totp env u random randoms now rows)) = Some r
     \<and> to_secret r = generateSecret random \<and> \<not> to_enabled r
     \<and> to_backupCodes r = snd (generateBackupCodes env randoms)"
  by (cases "record_of u rows") (auto simp: setup_totp_def Let_def record_of_for_user record_of_append)

lemma verifyTotp_own:
  assumes "0 < period" "\<bar>d\<bar> \<le> window"
  shows "verifyTotp hmac secret (generateTotp hmac secret (now div 1000 + d * period) period) period window now"
  unfolding verifyTotp_def verify_loop_iff by (rule bexI [of _ d]) (use assms(2) in auto)

text \<open>
  An enrolled authenticator works: after \<open>setup\<close>, the code of the moment enables the second factor,
  and from then on every code of a clock that drifts by at most the window is accepted.
\<close>

theorem enrolled_codes_accepted:
  assumes "0 < te_period env" and "\<bar>d\<bar> \<le> te_window env"
    and "rows1 = snd (setup_totp env u random randoms t0 rows)"
    and "code = generateTotp (te_hmac env) (take 20 random) (t1 div 1000) (te_period env)"
    and "code' = generateTotp (te_hmac env) (take 20 random) (t2 div 1000 + d * te_period env) (te_period env)"
  shows "\<exists>rows2. enable_totp env u code t1 rows1 = (Returned True, rows2) \<and> isEnabled u rows2
    \<and> verify_totp env u code' t2 rows2 = (Returned ValidCode, rows2)"
proof -
  obtain r where r: "record_of u rows1 = Some r" "base32Decode (to_secret r) = Some (take 20 random)"
    using record_of_setup [of u env random randoms t0 rows] assms(3)
    by (auto simp: generateSecret_def base32_decode_encoded)
  have "0 \<le> te_window env" using assms(2) by simp
  with assms(1,4) verifyTotp_own [of "te_period env" 0 "te_window env" "te_hmac env" "take 20 random" t1]
  have "verifyTotp (te_hmac env) (take 20 random) code (te_period env) (te_window env) t1" by simp
  moreover have "verifyTotp (te_hmac env) (take 20 random) code' (te_period env) (te_window env) t2"
    using assms(1,2,5) verifyTotp_own by simp
  ultimately show ?thesis using r
    by (simp add: enable_totp_def isEnabled_def verify_totp_def totp_verdict_def record_of_for_user)
qed

definition plain_totp :: totp_env where
  "plain_totp = \<lparr>te_hmac = (\<lambda>key text. rev text), te_digest = map of_char,
     te_period = 30, te_window = 1\<rparr>"

theorem enrolled_codes_accepted_witness:
  "let rows1 = snd (setup_totp plain_totp ''u1'' [1, 2, 3] [[1, 2, 3, 4, 5, 6, 7, 8]] 0 []);
       code = generateTotp (te_hmac plain_totp) (take 20 [1, 2, 3]) (90000 div 1000) 30
   in \<exists>rows2. enable_totp plain_totp ''u1'' code 90000 rows1 = (Returned True, rows2) \<and> isEnabled ''u1'' rows2
     \<and> verify_totp plain_totp ''u1'' code 100000 rows2 = (Returned ValidCode, rows2)"
  using enrolled_codes_accepted [of plain_totp 0 _ "''u1''" "[1, 2, 3]" "[[1, 2, 3, 4, 5, 6, 7, 8]]" 0 "[]" _ 90000 _ 90000]
    enrolled_codes_accepted [of plain_totp 0 _ "''u1''" "[1, 2, 3]" "[[1, 2, 3, 4, 5, 6, 7, 8]]" 0 "[]" _ 90000 _ 100000]
  by (simp add: Let_def plain_totp_def generateTotp_def)

section \<open>Backup codes\<close>

text \<open>Calls of \<open>verify\<close> by one user, one after the other, and their answers.\<close>

fun verify_calls :: "totp_env \<Rightarrow> ident \<Rightarrow> (string \<times> time) list \<Rightarrow> totp_record list \<Rightarrow> totp_result reply list" where
  "verify_calls env u [] rows = []"
| "verify_calls env u ((code, now) # calls) rows =
     (case verify_totp env u code now rows of (out, rows') \<Rightarrow> out # verify_calls env u calls rows')"

definition unused_codes :: "ident \<Rightarrow> totp_record list \<Rightarrow> nat" where
  "unused_codes u rows =
     (case record_of u rows of None \<Rightarrow> 0 | Some r \<Rightarrow> length (filter (\<lambda>b. \<not> bk_used b) (to_backupCodes r)))"

lemma verify_totp_spends:
  assumes "verify_totp env u code now rows = (out, rows')"
  shows "unused_codes u rows' + (if out = Returned ValidBackup then 1 else 0) = unused_codes u rows"
proof -
  consider "rows' = rows" "out \<noteq> Returned ValidBackup"
    | r i where "record_of u rows = Some r" "out = Returned ValidBackup"
        "i < length (to_backupCodes r)" "\<not> bk_used (to_backupCodes r ! i)"
        "rows' = write_codes u ((to_backupCodes r)[i := (to_backupCodes r ! i)\<lparr>bk_used := True\<rparr>]) now rows"
    using assms
    by (auto simp: verify_totp_def totp_verdict_def Let_def find_index_Some_iff
        split: option.splits if_splits reply.splits)
  then show ?thesis
  proof cases
    case 2
    then show ?thesis
      using length_filter_update [of i "to_backupCodes r" "\<lambda>b. \<not> bk_used b" "(to_backupCodes r ! i)\<lparr>bk_used := True\<rparr>"]
      by (simp add: unused_codes_def write_codes_def record_of_for_user)
  qed simp
qed

text \<open>
  Backup codes are spent: over calls one after the other, no more of them are accepted than the user
  has unused codes.
\<close>

theorem backup_codes_spent:
  "length (filter (\<lambda>out. out = Returned ValidBackup) (verify_calls env u calls rows)) \<le> unused_codes u rows"
proof (induction calls arbitrary: rows)
  case (Cons call calls)
  obtain code now where call: "call = (code, now)" by (cases call)
  obtain out rows' where v: "verify_totp env u code now rows = (out, rows')" by (cases "verify_totp env u code now rows")
  from Cons [of rows'] verify_totp_spends [OF v] show ?case by (simp add: call v split: if_splits)
qed simp

text \<open>A call of \<open>verify\<close> as it interleaves: the read with what follows from it, then the write.\<close>

datatype totp_pc =
    TotpStart string
  | TotpWrite "backup_code list"
  | TotpDone totp_result
  | TotpThrew

definition totp_step :: "totp_env \<Rightarrow> ident \<Rightarrow> time \<Rightarrow> totp_pc \<Rightarrow> totp_record list \<Rightarrow> totp_pc \<times> totp_record list" where
  "totp_step env u t pc rows =
     (case pc of
        TotpStart code \<Rightarrow>
          (case totp_verdict env code t (record_of u rows) of
             Threw \<Rightarrow> TotpThrew
           | Returned (result, None) \<Rightarrow> TotpDone result
           | Returned (_, Some codes) \<Rightarrow> TotpWrite codes, rows)
      | TotpWrite codes \<Rightarrow> (TotpDone ValidBackup, write_codes u codes t rows)
      | _ \<Rightarrow> (pc, rows))"

definition enrolled_rows :: "totp_record list" where
  "enrolled_rows =
     [\<lparr>to_userId = ''u1'', to_secret = base32Encode [1, 2, 3], to_enabled = True,
       to_backupCodes = [\<lparr>bk_hash = hashBackupCode plain_totp ''ABCDEFGH'', bk_used = False\<rparr>],
       to_createdAt = 0, to_updatedAt = 0\<rparr>]"

lemma backup_race_result:
  "wd_callers (run_schedule (totp_step plain_totp ''u1'') [(0, 1000), (1, 1000), (0, 1000), (1, 1000)]
     \<lparr>wd_shared = enrolled_rows, wd_callers = [TotpStart ''ABCDEFGH'', TotpStart ''ABCDEFGH''], wd_now = 0\<rparr>)
   = [TotpDone ValidBackup, TotpDone ValidBackup]"
  by code_simp

text \<open>
  A backup code is accepted twice when two calls interleave: both read the record before either
  marks the code as used, although the user has one unused code.
\<close>

theorem backup_code_accepted_twice:
  "unused_codes ''u1'' enrolled_rows = 1
   \<and> (\<exists>w. reaches (\<lambda>w. w = \<lparr>wd_shared = enrolled_rows,
             wd_callers = [TotpStart ''ABCDEFGH'', TotpStart ''ABCDEFGH''], wd_now = 0\<rparr>)
           (interleave (totp_step plain_totp ''u1'')) w
       \<and> wd_callers w = [TotpDone ValidBackup, TotpDone ValidBackup])"
  by (intro conjI exI, simp add: unused_codes_def record_of_def enrolled_rows_def,
      rule run_schedule_reaches [OF reaches_init], rule refl, rule backup_race_result)

section \<open>Keeping the second factor\<close>

text \<open>
  A second factor that is on stays on against a caller without a code: \<open>verify\<close>, \<open>disable\<close> and
  \<open>regenerateBackupCodes\<close> with a code that is not valid change no row, and \<open>enable\<close> turns none off.
\<close>

theorem second_factor_kept:
  assumes "totp_verdict env code now (record_of u rows) = Returned (NotValid, None)"
  shows "verify_totp env u code now rows = (Returned NotValid, rows)
    \<and> disable_totp env u code now rows = (Returned False, rows)
    \<and> regenerateBackupCodes env u code randoms now rows = (Threw, rows)
    \<and> (isEnabled v rows \<longrightarrow> isEnabled v (snd (enable_totp env u code now rows)))"
proof -
  have "isEnabled v rows \<Longrightarrow> isEnabled v (for_user u (\<lambda>x. x\<lparr>to_enabled := True, to_updatedAt := now\<rparr>) rows)"
    by (induction rows) (auto simp: isEnabled_def record_of_def for_user_def split: if_splits)
  then have "isEnabled v rows \<longrightarrow> isEnabled v (snd (enable_totp env u code now rows))"
    by (auto simp: enable_totp_def split: option.splits)
  with assms show ?thesis by (simp add: verify_totp_def disable_totp_def regenerateBackupCodes_def)
qed

theorem second_factor_kept_witness:
  "disable_totp plain_totp ''u1'' ''123456'' 1000 enrolled_rows = (Returned False, enrolled_rows)"
proof -
  have "totp_verdict plain_totp ''123456'' 1000 (record_of ''u1'' enrolled_rows) = Returned (NotValid, None)" by code_simp
  from second_factor_kept [OF this, of "[]"] show ?thesis by blast
qed

text \<open>
  Without asking for a code, \<open>setup\<close> turns a second factor off that is on: afterwards the old secret is
  gone, and every code is refused until \<open>enable\<close> accepts one of the new secret.
\<close>

theorem setup_turns_off:
  "\<not> isEnabled u (snd (setup_totp env u random randoms now rows))
   \<and> verify_totp env u code t (snd (setup_totp env u random randoms now rows))
     = (Returned NotValid, snd (setup_totp env u random randoms now rows))"
  using record_of_setup [of u env random randoms now rows]
  by (auto simp: isEnabled_def verify_totp_def totp_verdict_def)

text \<open>
  A code is accepted again: a call that accepts the code of a period leaves no trace of it, so the
  same code is accepted by the next call within the window.
\<close>

theorem code_accepted_again:
  assumes "verify_totp env u code now rows = (Returned ValidCode, rows')"
  shows "rows' = rows \<and> verify_totp env u code now rows' = (Returned ValidCode, rows')"
proof -
  have "rows' = rows"
    using assms by (auto simp: verify_totp_def totp_verdict_def Let_def split: option.splits if_splits reply.splits)
  with assms show ?thesis by simp
qed

lemma demo_code_valid:
  "verify_totp plain_totp ''u1'' (generateTotp (te_hmac plain_totp) [1, 2, 3] 1 30) 1000 enrolled_rows
   = (Returned ValidCode, enrolled_rows)"
  by code_simp

theorem code_accepted_again_witness:
  "verify_totp plain_totp ''u1'' (generateTotp (te_hmac plain_totp) [1, 2, 3] 1 30) 1000 enrolled_rows
   = (Returned ValidCode, enrolled_rows)"
  using code_accepted_again [OF demo_code_valid] by blast

section \<open>The endpoints\<close>

datatype totp_answer =
    TotpNotHandled
  | TotpAuthRequired
  | TotpCodeRequired
  | TotpSetup string "string list"
  | TotpEnabled bool
  | TotpVerified totp_result "string option"
  | TotpDisabled bool
  | TotpCodes "string list"
  | TotpBadRequest
  | TotpFailed

record totp_request =
  tq_method :: string
  tq_path :: string
  tq_user :: "ident option"
  tq_code :: "string option"

text \<open>
  \<open>handleRequest\<close>, with the user \<open>requestUserId\<close> resolved. A valid code on the verify route is recorded
  as a step up, here the method that is recorded. An error that is not caught is \<open>TotpFailed\<close>.
\<close>

definition with_code :: "string option \<Rightarrow> (string \<Rightarrow> 'r \<Rightarrow> totp_answer \<times> 'r) \<Rightarrow> 'r \<Rightarrow> totp_answer \<times> 'r" where
  "with_code code act rows =
     (case code of
        None \<Rightarrow> (TotpCodeRequired, rows)
      | Some c \<Rightarrow> if c = [] then (TotpCodeRequired, rows) else act c rows)"

definition answered :: "('a \<Rightarrow> totp_answer) \<Rightarrow> totp_answer \<Rightarrow> 'a reply \<times> 'r \<Rightarrow> totp_answer \<times> 'r" where
  "answered f err out = (case out of (Returned a, rows) \<Rightarrow> (f a, rows) | (Threw, rows) \<Rightarrow> (err, rows))"

definition verify_answer :: "totp_result \<Rightarrow> totp_answer" where
  "verify_answer r =
     TotpVerified r (case r of NotValid \<Rightarrow> None | ValidCode \<Rightarrow> Some ''totp'' | ValidBackup \<Rightarrow> Some ''otp'')"

definition totp_route ::
  "totp_env \<Rightarrow> string \<Rightarrow> ident \<Rightarrow> string option \<Rightarrow> bytes \<Rightarrow> bytes list \<Rightarrow> time \<Rightarrow> totp_record list \<Rightarrow> totp_answer \<times> totp_record list" where
  "totp_route env path u code random randoms now rows =
     (if path = ''/auth/2fa/setup'' then
        (case setup_totp env u random randoms now rows of ((secret, plain), rows') \<Rightarrow> (TotpSetup secret plain, rows'))
      else if path = ''/auth/2fa/enable'' then
        with_code code (\<lambda>c rows. answered TotpEnabled TotpFailed (enable_totp env u c now rows)) rows
      else if path = ''/auth/2fa/verify'' then
        with_code code (\<lambda>c rows. answered verify_answer TotpFailed (verify_totp env u c now rows)) rows
      else if path = ''/auth/2fa/disable'' then
        with_code code (\<lambda>c rows. answered TotpDisabled TotpFailed (disable_totp env u c now rows)) rows
      else
        with_code code (\<lambda>c rows. answered TotpCodes TotpBadRequest (regenerateBackupCodes env u c randoms now rows)) rows)"

definition to_upper_ascii :: "char \<Rightarrow> char" where
  "to_upper_ascii c =
     (if 97 \<le> (of_char c :: nat) \<and> (of_char c :: nat) \<le> 122 then char_of ((of_char c :: nat) - 32) else c)"

definition totp_paths :: "string list" where
  "totp_paths = [''/auth/2fa/setup'', ''/auth/2fa/enable'', ''/auth/2fa/verify'', ''/auth/2fa/disable'', ''/auth/2fa/backup-codes'']"

definition handle_totp ::
  "totp_env \<Rightarrow> totp_request \<Rightarrow> bytes \<Rightarrow> bytes list \<Rightarrow> time \<Rightarrow> totp_record list \<Rightarrow> totp_answer \<times> totp_record list" where
  "handle_totp env request random randoms now rows =
     (if map to_upper_ascii (tq_method request) \<noteq> ''POST'' \<or> tq_path request \<notin> set totp_paths then (TotpNotHandled, rows)
      else (case tq_user request of
              None \<Rightarrow> (TotpAuthRequired, rows)
            | Some u \<Rightarrow> if u = [] then (TotpAuthRequired, rows)
                        else totp_route env (tq_path request) u (tq_code request) random randoms now rows))"

lemma others_for_user: "u \<noteq> v \<Longrightarrow> (\<And>r. to_userId (f r) = to_userId r) \<Longrightarrow> record_of v (for_user u f rows) = record_of v rows"
  by (induction rows) (auto simp: record_of_def for_user_def)

lemma others_append: "to_userId r \<noteq> v \<Longrightarrow> record_of v (rows @ [r]) = record_of v rows"
  by (induction rows) (auto simp: record_of_def)

lemma others_delete: "u \<noteq> v \<Longrightarrow> record_of v (delete_where (\<lambda>r. to_userId r = u) rows) = record_of v rows"
  by (induction rows) (auto simp: record_of_def delete_where_def)

lemma verify_totp_others: "u \<noteq> v \<Longrightarrow> record_of v (snd (verify_totp env u code now rows)) = record_of v rows"
  by (auto simp: verify_totp_def write_codes_def others_for_user split: reply.splits prod.splits option.splits)

lemma totp_others:
  assumes "u \<noteq> v"
  shows "record_of v (snd (setup_totp env u random randoms now rows)) = record_of v rows"
    and "record_of v (snd (enable_totp env u code now rows)) = record_of v rows"
    and "record_of v (snd (disable_totp env u code now rows)) = record_of v rows"
    and "record_of v (snd (regenerateBackupCodes env u code randoms now rows)) = record_of v rows"
proof -
  show "record_of v (snd (setup_totp env u random randoms now rows)) = record_of v rows"
    using assms by (auto simp: setup_totp_def Let_def others_for_user others_append)
  show "record_of v (snd (enable_totp env u code now rows)) = record_of v rows"
    using assms by (auto simp: enable_totp_def others_for_user split: option.splits)
  obtain out rows' where "verify_totp env u code now rows = (out, rows')" by (cases "verify_totp env u code now rows")
  with verify_totp_others [OF assms, of env code now rows]
  show "record_of v (snd (disable_totp env u code now rows)) = record_of v rows"
    and "record_of v (snd (regenerateBackupCodes env u code randoms now rows)) = record_of v rows"
    using assms by (auto simp: disable_totp_def regenerateBackupCodes_def write_codes_def Let_def others_for_user
        others_delete split: reply.splits)
qed

lemma snd_answered [simp]: "snd (answered f err out) = snd out"
  by (simp add: answered_def split: prod.splits reply.splits)

lemma with_code_others:
  "(\<And>c. record_of v (snd (act c rows)) = record_of v rows) \<Longrightarrow> record_of v (snd (with_code code act rows)) = record_of v rows"
  by (simp add: with_code_def split: option.split)

lemma totp_route_others:
  "u \<noteq> v \<Longrightarrow> record_of v (snd (totp_route env path u code random randoms now rows)) = record_of v rows"
proof -
  assume ne: "u \<noteq> v"
  note keep = with_code_others [where v = v] snd_answered totp_others [OF ne] verify_totp_others [OF ne]
  have "record_of v (snd (case setup_totp env u random randoms now rows of ((secret, plain), rows') \<Rightarrow> (TotpSetup secret plain, rows')))
      = record_of v rows"
    using totp_others(1) [OF ne, of env random randoms now rows] by (simp add: case_prod_unfold)
  then show "record_of v (snd (totp_route env path u code random randoms now rows)) = record_of v rows"
    unfolding totp_route_def by (simp only: keep split: if_split) simp
qed

text \<open>
  The endpoints act on the signed-in user only: without a user nothing changes, and the record of
  every other user stays as it was, whatever the path and the body.
\<close>

theorem endpoints_own_record:
  "record_of v (snd (handle_totp env request random randoms now rows)) = record_of v rows \<or> tq_user request = Some v"
  using totp_route_others by (auto simp: handle_totp_def split: option.splits)

lemma answered_cases: "fst (answered f err out) = a \<Longrightarrow> (\<exists>x. fst out = Returned x \<and> f x = a) \<or> a = err"
  by (cases out; cases "fst out") (auto simp: answered_def)

lemma with_code_cases:
  "fst (with_code code act rows) = TotpVerified result m \<Longrightarrow>
   \<exists>c. code = Some c \<and> fst (act c rows) = TotpVerified result m"
  by (auto simp: with_code_def split: option.splits if_splits)

lemma answered_no:
  "(\<And>x. f x \<noteq> TotpVerified result (Some m)) \<Longrightarrow> err \<noteq> TotpVerified result (Some m) \<Longrightarrow>
   fst (with_code code (\<lambda>c rows. answered f err (act c rows)) rows) \<noteq> TotpVerified result (Some m)"
  by (auto dest!: with_code_cases answered_cases)

lemma totp_route_verified:
  assumes "fst (totp_route env path u code random randoms now rows) = TotpVerified result (Some m)"
  shows "\<exists>c. code = Some c \<and> fst (verify_totp env u c now rows) = Returned result \<and> result \<noteq> NotValid
    \<and> m = (if result = ValidCode then ''totp'' else ''otp'')"
proof -
  have "path = ''/auth/2fa/verify''"
    using assms answered_no [of TotpEnabled result m TotpFailed code "\<lambda>c rows. enable_totp env u c now rows" rows]
      answered_no [of TotpDisabled result m TotpFailed code "\<lambda>c rows. disable_totp env u c now rows" rows]
      answered_no [of TotpCodes result m TotpBadRequest code "\<lambda>c rows. regenerateBackupCodes env u c randoms now rows" rows]
    by (simp add: totp_route_def case_prod_unfold split: if_splits)
  with assms have "fst (with_code code (\<lambda>c rows. answered verify_answer TotpFailed (verify_totp env u c now rows)) rows)
      = TotpVerified result (Some m)" by (simp add: totp_route_def)
  from with_code_cases [OF this] obtain c where
    c: "code = Some c" "fst (answered verify_answer TotpFailed (verify_totp env u c now rows)) = TotpVerified result (Some m)"
    by blast
  from answered_cases [OF c(2)] obtain x where
    "fst (verify_totp env u c now rows) = Returned x" "verify_answer x = TotpVerified result (Some m)" by auto
  with c(1) show ?thesis by (auto simp: verify_answer_def split: totp_result.splits)
qed

text \<open>
  C37: A step up is recorded only for a proven code: the method on the session is \<open>totp\<close> after a code of
  the authenticator within the window, and \<open>otp\<close> after a backup code that was unused.
\<close>

theorem step_up_proven:
  assumes "fst (handle_totp env request random randoms now rows) = TotpVerified result (Some m)"
  shows "\<exists>u r code secret. tq_user request = Some u \<and> record_of u rows = Some r \<and> to_enabled r
    \<and> tq_code request = Some code \<and> base32Decode (to_secret r) = Some secret
    \<and> (m = ''totp'' \<and> verifyTotp (te_hmac env) secret code (te_period env) (te_window env) now
       \<or> m = ''otp'' \<and> (\<exists>b\<in>set (to_backupCodes r). \<not> bk_used b \<and> bk_hash b = hashBackupCode env (concat (map upper_text code))))"
proof -
  obtain u where u: "tq_user request = Some u"
      "fst (totp_route env (tq_path request) u (tq_code request) random randoms now rows) = TotpVerified result (Some m)"
    using assms by (auto simp: handle_totp_def split: if_splits option.splits)
  from totp_route_verified [OF this(2)] obtain code where
    out: "tq_code request = Some code" "fst (verify_totp env u code now rows) = Returned result" "result \<noteq> NotValid"
      "m = (if result = ValidCode then ''totp'' else ''otp'')" by blast
  obtain r secret where r: "record_of u rows = Some r" "to_enabled r" "base32Decode (to_secret r) = Some secret"
    using out(2,3) by (auto simp: verify_totp_def totp_verdict_def split: option.splits if_splits)
  show ?thesis
  proof (cases "verifyTotp (te_hmac env) secret code (te_period env) (te_window env) now")
    case True
    with out(2) r have "result = ValidCode" by (simp add: verify_totp_def totp_verdict_def)
    with True out(1,4) u(1) r show ?thesis by auto
  next
    case False
    with out(2,3) r obtain i where
      i: "find_index (\<lambda>b. bk_hash b = hashBackupCode env (concat (map upper_text code)) \<and> \<not> bk_used b) (to_backupCodes r) = Some i"
        "result = ValidBackup"
      by (auto simp: verify_totp_def totp_verdict_def Let_def split: option.splits)
    then have "\<exists>b\<in>set (to_backupCodes r). \<not> bk_used b \<and> bk_hash b = hashBackupCode env (concat (map upper_text code))"
      by (auto simp: find_index_Some_iff)
    with i(2) out(1,4) u(1) r show ?thesis by auto
  qed
qed

theorem step_up_proven_witness:
  "\<exists>u r. record_of u enrolled_rows = Some r \<and> to_enabled r"
proof -
  let ?code = "generateTotp (te_hmac plain_totp) [1, 2, 3] 1 30"
  let ?request = "\<lparr>tq_method = ''POST'', tq_path = ''/auth/2fa/verify'', tq_user = Some ''u1'', tq_code = Some ?code\<rparr>"
  have "?code \<noteq> []" using totp_six_digits [of "te_hmac plain_totp" "[1, 2, 3]" 1 30] by auto
  then have "fst (handle_totp plain_totp ?request [] [] 1000 enrolled_rows) = TotpVerified ValidCode (Some ''totp'')"
    using demo_code_valid
    by (simp add: handle_totp_def totp_paths_def totp_route_def with_code_def answered_def verify_answer_def to_upper_ascii_def)
  from step_up_proven [OF this] show ?thesis by auto
qed

end
