(* ===== verification/GrantMatcher.thy ===== *)
theory GrantMatcher
  imports DelegationRules
begin

text \<open>
  Single-action grants and their lookup, \<open>packages/core/src/policy-shrink/permissions.ts\<close>. The matcher puts
  patterns into buckets by their first segment and remembers answers; it is proved equal to the linear
  scan of the engine in both matching modes. Two permissions have one \<open>atomKey\<close> when they are equal, so
  the key of a permission is the permission itself here.
\<close>

section \<open>Rows\<close>

datatype decision_result = AllowedResult | DeniedResult | RateLimitedResult | EscalatedResult

record decision_row =
  dr_id :: ident
  dr_action :: string
  dr_resource :: string
  dr_result :: decision_result
  dr_reason :: "string option"
  dr_timestamp :: time
  dr_delegationChain :: "ident list option"
  dr_event :: "string option"

datatype row_class = InternalRow | AllowRow | DenyNoGrant | DenyOther

definition internal_actions :: "string list" where
  "internal_actions = [''agent.cascade.revoked'', ''delegation.create'', ''approval.request'']"

definition internal_events :: "string list" where
  "internal_events = [''delegation.create'', ''delegation.revoke'']"

definition classifyRow :: "decision_row \<Rightarrow> row_class" where
  "classifyRow row =
     (if starts_with ''audit.'' (dr_action row) \<or> dr_action row \<in> set internal_actions
         \<or> (case dr_event row of Some e \<Rightarrow> e \<in> set internal_events | None \<Rightarrow> False)
      then InternalRow
      else if dr_result row = AllowedResult then AllowRow
      else if dr_result row = DeniedResult
        \<and> (case dr_reason row of
             None \<Rightarrow> False
           | Some r \<Rightarrow> starts_with ''No permission grants'' r \<or> r = ''POLICY_NO_MATCHING_PERMISSION'')
      then DenyNoGrant
      else DenyOther)"

section \<open>Single actions\<close>

text \<open>What two permissions share when only their resource and actions differ; an empty relation is dropped.\<close>

type_synonym extras = "permission_constraints option \<times> string option"

definition kept_relation :: "string option \<Rightarrow> string option" where
  "kept_relation rel = (case rel of Some r \<Rightarrow> if r = [] then None else Some r | None \<Rightarrow> None)"

definition extrasKey :: "permission \<Rightarrow> extras" where
  "extrasKey p = (pm_constraints p, pm_relation p)"

definition withExtras :: "string \<Rightarrow> string list \<Rightarrow> permission \<Rightarrow> permission" where
  "withExtras resource actions p =
     \<lparr>pm_resource = resource, pm_actions = actions, pm_constraints = pm_constraints p,
      pm_relation = kept_relation (pm_relation p)\<rparr>"

definition splitPermission :: "permission \<Rightarrow> permission list" where
  "splitPermission p = map (\<lambda>a. withExtras (pm_resource p) [a] p) (uniq (pm_actions p))"

text \<open>
  \<open>add_actions\<close> appends the actions that are not there yet. \<open>merge_into\<close> finds the entry the map holds for the
  resource and extras of an atom: the map records the atom's own extras, so it is kept beside the list.
\<close>

definition add_actions :: "string list \<Rightarrow> permission \<Rightarrow> permission" where
  "add_actions acts p = foldl (\<lambda>q act. if act \<in> set (pm_actions q) then q else q\<lparr>pm_actions := pm_actions q @ [act]\<rparr>) p acts"

fun merge_into :: "permission \<Rightarrow> ((string \<times> extras) \<times> permission) list \<Rightarrow> ((string \<times> extras) \<times> permission) list" where
  "merge_into a [] = [((pm_resource a, extrasKey a), withExtras (pm_resource a) (pm_actions a) a)]"
| "merge_into a ((key, p) # rest) =
     (if key = (pm_resource a, extrasKey a) then (key, add_actions (pm_actions a) p) # rest
      else (key, p) # merge_into a rest)"

definition compactPermissions :: "permission list \<Rightarrow> permission list" where
  "compactPermissions atoms = map snd (foldl (\<lambda>out a. merge_into a out) [] atoms)"

definition covers :: "permission \<Rightarrow> permission \<Rightarrow> resource_matching \<Rightarrow> bool" where
  "covers outer inner mode \<longleftrightarrow>
     matchResource (pm_resource outer) (pm_resource inner) mode \<and> list_all (matchAction (pm_actions outer)) (pm_actions inner)"

definition wholeOr :: "int option \<Rightarrow> int \<Rightarrow> int \<Rightarrow> int" where
  "wholeOr v fallback least = (case v of Some n \<Rightarrow> max least n | None \<Rightarrow> fallback)"

section \<open>The matcher\<close>

definition firstSegment :: "string \<Rightarrow> string" where
  "firstSegment resource = (case indexOf CHR '':'' resource 0 of None \<Rightarrow> resource | Some i \<Rightarrow> take i resource)"

text \<open>The bucket of a pattern; \<open>None\<close> is the shared list.\<close>

definition bucket_of :: "resource_matching \<Rightarrow> string \<Rightarrow> string option" where
  "bucket_of mode pattern =
     (if pattern = ''*'' \<or> starts_with ''*:'' pattern then None
      else let seg = firstSegment pattern
           in if seg = ''*'' \<or> (mode = Path \<and> CHR ''*'' \<in> set seg) then None else Some seg)"

definition bucket_list :: "permission list \<Rightarrow> resource_matching \<Rightarrow> string option \<Rightarrow> nat list" where
  "bucket_list permissions mode seg = filter (\<lambda>i. bucket_of mode (pm_resource (permissions ! i)) = seg) [0..<length permissions]"

fun firstIn :: "permission list \<Rightarrow> resource_matching \<Rightarrow> string \<Rightarrow> string \<Rightarrow> nat \<Rightarrow> nat list \<Rightarrow> nat option" where
  "firstIn permissions mode action resource below [] = None"
| "firstIn permissions mode action resource below (i # is) =
     (if below \<le> i then None
      else if grants mode action resource (permissions ! i) then Some i
      else firstIn permissions mode action resource below is)"

definition match_grant :: "permission list \<Rightarrow> resource_matching \<Rightarrow> string \<Rightarrow> string \<Rightarrow> (permission \<times> nat) option" where
  "match_grant permissions mode action resource =
     (let fromBucket = firstIn permissions mode action resource (length permissions)
            (bucket_list permissions mode (Some (firstSegment resource)));
          fromOpen = firstIn permissions mode action resource
            (case fromBucket of None \<Rightarrow> length permissions | Some b \<Rightarrow> b) (bucket_list permissions mode None);
          index = (case fromOpen of None \<Rightarrow> fromBucket | Some i \<Rightarrow> Some i)
      in map_option (\<lambda>i. (permissions ! i, i)) index)"

definition match_memo_max :: nat where
  "match_memo_max = 10000"

type_synonym match_memo = "((string \<times> string) \<times> (permission \<times> nat) option) list"

definition createGrantMatcher ::
  "permission list \<Rightarrow> resource_matching \<Rightarrow> string \<Rightarrow> string \<Rightarrow> match_memo \<Rightarrow> (permission \<times> nat) option \<times> match_memo" where
  "createGrantMatcher permissions mode action resource memo =
     (case map_of memo (action, resource) of
        Some cached \<Rightarrow> (cached, memo)
      | None \<Rightarrow>
          let result = match_grant permissions mode action resource;
              room = (if match_memo_max \<le> length memo then [] else memo)
          in (result, room @ [((action, resource), result)]))"

section \<open>The matcher is the scan\<close>

lemma length_filter_mono: "(\<And>x. x \<in> set xs \<Longrightarrow> P x \<Longrightarrow> Q x) \<Longrightarrow> length (filter P xs) \<le> length (filter Q xs)"
  by (induction xs) force+

lemma firstSegment_takeWhile: "firstSegment r = takeWhile (\<lambda>c. c \<noteq> CHR '':'') r"
  by (simp add: firstSegment_def indexOf_takeWhile Let_def takeWhile_eq_take [symmetric]) (metis takeWhile_eq_take take_all not_less)

lemma firstSegment_hd: "firstSegment r = hd (split_on CHR '':'' r)"
  by (simp add: firstSegment_takeWhile split_on_unfold [of _ r])

lemma segment_accepts_literal: "CHR ''*'' \<notin> set p \<Longrightarrow> segment_accepts p r \<longleftrightarrow> p = r"
proof -
  assume no: "CHR ''*'' \<notin> set p"
  have "path_match ps rs \<longleftrightarrow> ps = rs" if "\<forall>q\<in>set ps. CHR ''*'' \<notin> set q" for ps rs
    using that by (induction ps rs rule: path_match.induct) auto
  moreover have "CHR ''*'' \<notin> set q" if "q \<in> set (split_on CHR ''/'' p)" for q
    using no that by (induction p arbitrary: q) (auto split: if_splits list.splits)
  ultimately have "path_match (split_on CHR ''/'' p) (split_on CHR ''/'' r) \<longleftrightarrow> p = r"
    by (simp add: split_on_inject)
  then show "segment_accepts p r \<longleftrightarrow> p = r" by (auto simp: segment_accepts_def)
qed

text \<open>A pattern in a bucket selects resources of that first segment only.\<close>

lemma bucket_first:
  assumes "bucket_of mode p = Some seg" and "matchResource p r mode"
  shows "firstSegment r = seg"
proof -
  obtain ps where ps: "split_on CHR '':'' p = seg # ps"
    using assms(1) by (cases "split_on CHR '':'' p") (auto simp: bucket_of_def firstSegment_hd Let_def split: if_splits)
  have seg: "seg \<noteq> ''*''" "mode = Path \<Longrightarrow> CHR ''*'' \<notin> set seg"
    using assms(1) by (auto simp: bucket_of_def Let_def split: if_splits)
  show ?thesis
  proof (cases mode)
    case Colon
    with assms(2) ps seg(1) show ?thesis
      by (cases "split_on CHR '':'' r") (auto simp: matchResource_def colon_seg_match firstSegment_hd)
  next
    case Path
    then have "\<not> free_part seg" using seg by (auto simp: free_part_def)
    with Path assms(2) ps segment_accepts_literal [OF seg(2) [OF Path]] show ?thesis
      by (cases "split_on CHR '':'' r") (auto simp: matchResource_def matchPathResource_iff firstSegment_hd)
  qed
qed

lemma firstIn_Some:
  "sorted_wrt (<) is \<Longrightarrow> firstIn ps mode action resource below is = Some i \<longleftrightarrow>
     i \<in> set is \<and> i < below \<and> grants mode action resource (ps ! i)
     \<and> (\<forall>j\<in>set is. j < i \<longrightarrow> \<not> grants mode action resource (ps ! j))"
  by (induction "is") auto

lemma firstIn_None:
  "sorted_wrt (<) is \<Longrightarrow> firstIn ps mode action resource below is = None \<longleftrightarrow>
     (\<forall>j\<in>set is. j < below \<longrightarrow> \<not> grants mode action resource (ps ! j))"
  by (induction "is") auto

lemma bucket_list_sorted: "sorted_wrt (<) (bucket_list ps mode seg)"
  by (simp add: bucket_list_def sorted_wrt_filter)

lemma set_bucket_list: "set (bucket_list ps mode seg) = {i. i < length ps \<and> bucket_of mode (pm_resource (ps ! i)) = seg}"
  by (auto simp: bucket_list_def)

lemma match_grant_scan: "match_grant ps mode action resource = findMatchingPermission ps action resource mode"
proof -
  let ?g = "\<lambda>i. grants mode action resource (ps ! i)"
  let ?b = "firstIn ps mode action resource (length ps) (bucket_list ps mode (Some (firstSegment resource)))"
  let ?o = "firstIn ps mode action resource (case ?b of None \<Rightarrow> length ps | Some b \<Rightarrow> b) (bucket_list ps mode None)"
  note S = firstIn_Some [OF bucket_list_sorted] and N = firstIn_None [OF bucket_list_sorted]
  have place: "bucket_of mode (pm_resource (ps ! i)) \<in> {None, Some (firstSegment resource)}" if "?g i" for i
    using bucket_first [of mode "pm_resource (ps ! i)"] that
    by (cases "bucket_of mode (pm_resource (ps ! i))") (auto simp: grants_def)
  have "(case ?o of None \<Rightarrow> ?b | Some i \<Rightarrow> Some i) = find_index (grants mode action resource) ps"
  proof (cases "?o")
    case (Some i)
    then have i: "i < length ps" "?g i" "bucket_of mode (pm_resource (ps ! i)) = None"
      and lt: "i < (case ?b of None \<Rightarrow> length ps | Some b \<Rightarrow> b)"
      and first: "\<And>j. j < i \<Longrightarrow> bucket_of mode (pm_resource (ps ! j)) = None \<Longrightarrow> \<not> ?g j"
      by (auto simp: S set_bucket_list)
    have "\<not> ?g j" if "j < i" for j
    proof
      assume g: "?g j"
      with first that place have j: "bucket_of mode (pm_resource (ps ! j)) = Some (firstSegment resource)" by blast
      show False
      proof (cases ?b)
        case None
        with j g that i(1) show False by (auto simp: N set_bucket_list)
      next
        case (Some b)
        with lt that have "j < b" by simp
        with Some j g that i(1) show False by (auto simp: S set_bucket_list)
      qed
    qed
    with i have "find_index (grants mode action resource) ps = Some i" by (simp add: find_index_Some_iff)
    with Some show ?thesis by simp
  next
    case None
    then have none: "\<And>j. j < (case ?b of None \<Rightarrow> length ps | Some b \<Rightarrow> b) \<Longrightarrow> j < length ps \<Longrightarrow>
        bucket_of mode (pm_resource (ps ! j)) = None \<Longrightarrow> \<not> ?g j" by (auto simp: N set_bucket_list)
    show ?thesis
    proof (cases ?b)
      case B: None
      have "\<And>j. j < length ps \<Longrightarrow> bucket_of mode (pm_resource (ps ! j)) = None \<Longrightarrow> \<not> ?g j"
        using none by (simp add: B)
      moreover have "\<And>j. j < length ps \<Longrightarrow>
          bucket_of mode (pm_resource (ps ! j)) = Some (firstSegment resource) \<Longrightarrow> \<not> ?g j"
        using B by (simp add: N set_bucket_list)
      ultimately have "\<not> ?g j" if "j < length ps" for j using place [of j] that by blast
      then have "find_index (grants mode action resource) ps = None" by (auto simp: find_index_None_iff in_set_conv_nth)
      with None B show ?thesis by simp
    next
      case B: (Some b)
      then have b: "b < length ps" "?g b" and first: "\<And>j. j < b \<Longrightarrow>
          bucket_of mode (pm_resource (ps ! j)) = Some (firstSegment resource) \<Longrightarrow> \<not> ?g j"
        by (auto simp: S set_bucket_list)
      have "\<And>j. j < b \<Longrightarrow> bucket_of mode (pm_resource (ps ! j)) = None \<Longrightarrow> \<not> ?g j"
        using none b(1) by (simp add: B)
      with first place have "\<not> ?g j" if "j < b" for j using that by blast
      with b have "find_index (grants mode action resource) ps = Some b" by (simp add: find_index_Some_iff)
      with None B show ?thesis by simp
    qed
  qed
  then show ?thesis by (simp add: match_grant_def findMatchingPermission_def Let_def split: option.splits)
qed

text \<open>Calls of one matcher, which share its memory.\<close>

fun matcher_calls ::
  "permission list \<Rightarrow> resource_matching \<Rightarrow> (string \<times> string) list \<Rightarrow> match_memo \<Rightarrow> (permission \<times> nat) option list" where
  "matcher_calls ps mode [] memo = []"
| "matcher_calls ps mode ((action, resource) # calls) memo =
     (case createGrantMatcher ps mode action resource memo of
        (result, memo') \<Rightarrow> result # matcher_calls ps mode calls memo')"

definition memo_ok :: "permission list \<Rightarrow> resource_matching \<Rightarrow> match_memo \<Rightarrow> bool" where
  "memo_ok ps mode memo \<longleftrightarrow>
     length memo \<le> match_memo_max \<and> list_all (\<lambda>((action, resource), x). x = match_grant ps mode action resource) memo"

lemma createGrantMatcher_ok:
  assumes "memo_ok ps mode memo"
  shows "fst (createGrantMatcher ps mode action resource memo) = match_grant ps mode action resource
    \<and> memo_ok ps mode (snd (createGrantMatcher ps mode action resource memo))"
proof (cases "map_of memo (action, resource)")
  case None
  with assms show ?thesis by (auto simp: createGrantMatcher_def memo_ok_def Let_def match_memo_max_def)
next
  case (Some x)
  then have "((action, resource), x) \<in> set memo" by (rule map_of_SomeD)
  with assms Some show ?thesis by (auto simp: createGrantMatcher_def memo_ok_def list_all_iff)
qed

text \<open>
  C19: The matcher is the scan: with its buckets, its shared list and its memory, which is cleared when
  it is full, every call of a matcher answers what the engine's scan of all permissions answers.
\<close>

theorem matcher_is_scan:
  "matcher_calls ps mode calls [] =
   map (\<lambda>(action, resource). findMatchingPermission ps action resource mode) calls"
proof -
  have "matcher_calls ps mode calls memo = map (\<lambda>(action, resource). findMatchingPermission ps action resource mode) calls"
    if "memo_ok ps mode memo" for memo
    using that
  proof (induction calls arbitrary: memo)
    case (Cons call calls)
    obtain action resource where call: "call = (action, resource)" by (cases call)
    from createGrantMatcher_ok [OF Cons.prems, of action resource]
    obtain memo' where m: "createGrantMatcher ps mode action resource memo = (match_grant ps mode action resource, memo')"
      "memo_ok ps mode memo'" by (cases "createGrantMatcher ps mode action resource memo") auto
    from Cons.IH [OF m(2)] m(1) show ?case by (simp add: call match_grant_scan)
  qed simp
  moreover have "memo_ok ps mode []" by (simp add: memo_ok_def)
  ultimately show ?thesis by blast
qed

end
