(* ===== verification/PolicyShrink.thy ===== *)
theory PolicyShrink
  imports GrantMatcher DelegationStore
begin

text \<open>
  Shrinking a policy to what was used, \<open>packages/core/src/policy-shrink/\<close> (\<open>usage.ts\<close>, \<open>shrink.ts\<close>,
  \<open>verify.ts\<close>, \<open>rows.ts\<close>): the analysis of recorded decisions, the smaller set it suggests, the replay
  of the decisions against a set, and the pages in which rows are read. Lists that are only
  sorted for output are left in the order they were found.
\<close>

section \<open>Usage\<close>

record grant =
  gr_permission :: permission
  gr_chainId :: "ident option"

text \<open>\<open>push\<close> of \<open>loadGrants\<close>: the atoms of a permission that were not seen yet. A grant is delegated when it has a chain.\<close>

definition push_grant :: "ident option \<Rightarrow> grant list \<Rightarrow> permission \<Rightarrow> grant list" where
  "push_grant source grants_so_far p =
     foldl (\<lambda>gs atom. if atom \<in> set (map gr_permission gs) then gs else gs @ [\<lparr>gr_permission = atom, gr_chainId = source\<rparr>])
       grants_so_far (splitPermission p)"

definition loadGrants :: "permission list \<Rightarrow> chain_row list \<Rightarrow> time \<Rightarrow> grant list" where
  "loadGrants own links now =
     foldl (\<lambda>gs c. if ch_expiresAt c \<le> now then gs else foldl (push_grant (Some (ch_id c))) gs (ch_permissions c))
       (foldl (push_grant None) [] own) links"

record use_state =
  us_count :: nat
  us_first :: time
  us_last :: time
  us_chains :: "ident list"

record usage_evidence =
  ev_rowsScanned :: nat
  ev_allowedRows :: nat
  ev_noGrantDenials :: nat
  ev_otherDenials :: nat
  ev_internalRows :: nat
  ev_uncoveredAllows :: nat

record usage_acc =
  ua_used :: "nat \<Rightarrow> use_state option"
  ua_attempted :: "nat set"
  ua_denied :: "(string \<times> string) list"
  ua_uncovered :: "((string \<times> string) \<times> nat) list"
  ua_evidence :: usage_evidence

definition chains_per_grant_cap :: nat where
  "chains_per_grant_cap = 1000"

definition distinct_cap :: nat where
  "distinct_cap = 5000"

definition empty_usage :: usage_acc where
  "empty_usage =
     \<lparr>ua_used = (\<lambda>_. None), ua_attempted = {}, ua_denied = [], ua_uncovered = [],
      ua_evidence = \<lparr>ev_rowsScanned = 0, ev_allowedRows = 0, ev_noGrantDenials = 0, ev_otherDenials = 0,
        ev_internalRows = 0, ev_uncoveredAllows = 0\<rparr>\<rparr>"

text \<open>A set that keeps the order of insertion.\<close>

definition insert_new :: "'a \<Rightarrow> 'a list \<Rightarrow> 'a list" where
  "insert_new x xs = (if x \<in> set xs then xs else xs @ [x])"

definition note_denied :: "string \<times> string \<Rightarrow> (string \<times> string) list \<Rightarrow> (string \<times> string) list" where
  "note_denied pair denied = (if pair \<notin> set denied \<and> length denied < distinct_cap then denied @ [pair] else denied)"

definition note_uncovered :: "string \<times> string \<Rightarrow> ((string \<times> string) \<times> nat) list \<Rightarrow> ((string \<times> string) \<times> nat) list" where
  "note_uncovered pair uncovered =
     (if pair \<in> set (map fst uncovered) then map (\<lambda>(k, n). if k = pair then (k, Suc n) else (k, n)) uncovered
      else if length uncovered < distinct_cap then uncovered @ [(pair, 1)] else uncovered)"

definition note_chain :: "ident \<Rightarrow> ident list \<Rightarrow> ident list" where
  "note_chain c cs = (if length cs < chains_per_grant_cap then insert_new c cs else cs)"

definition note_use :: "decision_row \<Rightarrow> ident option \<Rightarrow> use_state option \<Rightarrow> use_state" where
  "note_use row chainId found =
     (let s = (case found of
                 Some s \<Rightarrow> s
               | None \<Rightarrow> \<lparr>us_count = 0, us_first = dr_timestamp row, us_last = dr_timestamp row, us_chains = []\<rparr>);
          own = (case chainId of Some c \<Rightarrow> if c = [] then us_chains s else note_chain c (us_chains s) | None \<Rightarrow> us_chains s);
          ids = (case dr_delegationChain row of Some ids \<Rightarrow> ids | None \<Rightarrow> [])
      in \<lparr>us_count = us_count s + 1, us_first = min (us_first s) (dr_timestamp row), us_last = max (us_last s) (dr_timestamp row),
          us_chains = (if chainId = None then own else foldl (\<lambda>cs i. note_chain i cs) own ids)\<rparr>)"

definition usage_add :: "grant list \<Rightarrow> resource_matching \<Rightarrow> usage_acc \<Rightarrow> decision_row \<Rightarrow> usage_acc" where
  "usage_add gs mode a row =
     (let ev = (ua_evidence a)\<lparr>ev_rowsScanned := ev_rowsScanned (ua_evidence a) + 1\<rparr>;
          hit = match_grant (map gr_permission gs) mode (dr_action row) (dr_resource row)
      in case classifyRow row of
           InternalRow \<Rightarrow> a\<lparr>ua_evidence := ev\<lparr>ev_internalRows := ev_internalRows ev + 1\<rparr>\<rparr>
         | DenyNoGrant \<Rightarrow>
             a\<lparr>ua_evidence := ev\<lparr>ev_noGrantDenials := ev_noGrantDenials ev + 1\<rparr>,
               ua_denied := note_denied (dr_action row, dr_resource row) (ua_denied a)\<rparr>
         | DenyOther \<Rightarrow>
             a\<lparr>ua_evidence := ev\<lparr>ev_otherDenials := ev_otherDenials ev + 1\<rparr>,
               ua_attempted := (case hit of Some (_, i) \<Rightarrow> insert i (ua_attempted a) | None \<Rightarrow> ua_attempted a)\<rparr>
         | AllowRow \<Rightarrow>
             (let ev' = ev\<lparr>ev_allowedRows := ev_allowedRows ev + 1\<rparr>
              in case hit of
                   None \<Rightarrow>
                     a\<lparr>ua_evidence := ev'\<lparr>ev_uncoveredAllows := ev_uncoveredAllows ev' + 1\<rparr>,
                       ua_uncovered := note_uncovered (dr_action row, dr_resource row) (ua_uncovered a)\<rparr>
                 | Some (_, i) \<Rightarrow>
                     a\<lparr>ua_evidence := ev',
                       ua_used := (ua_used a)(i := Some (note_use row (gr_chainId (gs ! i)) (ua_used a i)))\<rparr>))"

record usage_analysis =
  an_granted :: "permission list"
  an_grants :: "grant list"
  an_used :: "(permission \<times> use_state) list"
  an_unused :: "permission list"
  an_attemptedOnly :: "permission list"
  an_deniedNoGrant :: "(string \<times> string) list"
  an_uncovered :: "((string \<times> string) \<times> nat) list"
  an_evidence :: usage_evidence

definition usage_finish :: "grant list \<Rightarrow> usage_acc \<Rightarrow> usage_analysis" where
  "usage_finish gs a =
     (let is = [0..<length gs]; atom = (\<lambda>i. gr_permission (gs ! i))
      in \<lparr>an_granted = map gr_permission gs, an_grants = gs,
          an_used = concat (map (\<lambda>i. case ua_used a i of Some s \<Rightarrow> [(atom i, s)] | None \<Rightarrow> []) is),
          an_unused = map atom (filter (\<lambda>i. ua_used a i = None \<and> i \<notin> ua_attempted a) is),
          an_attemptedOnly = map atom (filter (\<lambda>i. ua_used a i = None \<and> i \<in> ua_attempted a) is),
          an_deniedNoGrant = ua_denied a, an_uncovered = ua_uncovered a, an_evidence = ua_evidence a\<rparr>)"

definition analyzeUsage :: "grant list \<Rightarrow> resource_matching \<Rightarrow> decision_row list \<Rightarrow> usage_analysis" where
  "analyzeUsage gs mode rows = usage_finish gs (foldl (usage_add gs mode) empty_usage rows)"

section \<open>The suggestion\<close>

record shrink_options =
  so_matching :: resource_matching
  so_minObservations :: "int option"
  so_generalize :: bool
  so_generalizeMin :: "int option"

text \<open>\<open>parentOf\<close>: what stands before the last colon, when it is not empty.\<close>

definition parentOf :: "string \<Rightarrow> string option" where
  "parentOf resource =
     (if CHR ''*'' \<in> set resource then None
      else let segs = split_on CHR '':'' resource; parent = join_on CHR '':'' (butlast segs)
           in if length segs < 2 \<or> parent = [] then None else Some parent)"

record shrink_group =
  sg_parent :: string
  sg_action :: string
  sg_extras :: permission
  sg_indexes :: "nat list"
  sg_distinct :: "permission list"

definition group_key :: "shrink_group \<Rightarrow> string \<times> string \<times> extras" where
  "group_key g = (sg_parent g, sg_action g, extrasKey (sg_extras g))"

fun add_to_shrink_group :: "string \<Rightarrow> string \<Rightarrow> permission \<Rightarrow> nat \<Rightarrow> shrink_group list \<Rightarrow> shrink_group list" where
  "add_to_shrink_group parent action atom index [] =
     [\<lparr>sg_parent = parent, sg_action = action, sg_extras = atom, sg_indexes = [index], sg_distinct = [atom]\<rparr>]"
| "add_to_shrink_group parent action atom index (g # gs) =
     (if group_key g = (parent, action, extrasKey atom)
      then g\<lparr>sg_indexes := sg_indexes g @ [index], sg_distinct := insert_new atom (sg_distinct g)\<rparr> # gs
      else g # add_to_shrink_group parent action atom index gs)"

definition group_atom :: "permission list \<Rightarrow> permission list \<Rightarrow> shrink_group list \<Rightarrow> nat \<Rightarrow> shrink_group list" where
  "group_atom observed kept groups index =
     (let atom = kept ! index
      in if atom \<notin> set observed then groups
         else (case (parentOf (pm_resource atom), pm_actions atom) of
                 (Some parent, action # _) \<Rightarrow> add_to_shrink_group parent action atom index groups
               | _ \<Rightarrow> groups))"

definition group_target :: "shrink_group \<Rightarrow> permission" where
  "group_target g = withExtras (sg_parent g @ '':*'') [sg_action g] (sg_extras g)"

definition merge_allowed :: "usage_analysis \<Rightarrow> shrink_options \<Rightarrow> shrink_group \<Rightarrow> bool" where
  "merge_allowed analysis opts g \<longleftrightarrow>
     wholeOr (so_generalizeMin opts) 3 2 \<le> int (length (sg_distinct g))
     \<and> list_ex (\<lambda>granted. covers granted (group_target g) (so_matching opts)) (an_granted analysis)
     \<and> \<not> list_ex (\<lambda>(action, resource). action = sg_action g
            \<and> matchResource (pm_resource (group_target g)) resource (so_matching opts)) (an_deniedNoGrant analysis)"

record shrink_suggestion =
  ss_keep :: "permission list"
  ss_remove :: "permission list"
  ss_rewrites :: "(permission list \<times> permission) list"

text \<open>The count a \<open>Map\<close> holds when the entries are set in order.\<close>

definition used_count :: "usage_analysis \<Rightarrow> permission \<Rightarrow> nat" where
  "used_count analysis atom =
     (case map_of (rev (an_used analysis)) atom of Some s \<Rightarrow> us_count s | None \<Rightarrow> 0)"

definition observed_enough :: "usage_analysis \<Rightarrow> shrink_options \<Rightarrow> permission \<Rightarrow> bool" where
  "observed_enough analysis opts atom \<longleftrightarrow> wholeOr (so_minObservations opts) 1 1 \<le> int (used_count analysis atom)"

definition replacements :: "permission list \<Rightarrow> shrink_group list \<Rightarrow> permission list" where
  "replacements kept merged =
     concat (map (\<lambda>i. if i \<in> set (concat (map (tl \<circ> sg_indexes) merged)) then []
                       else (case List.find (\<lambda>g. hd (sg_indexes g) = i) merged of
                               Some g \<Rightarrow> [group_target g]
                             | None \<Rightarrow> [kept ! i])) [0..<length kept])"

definition suggestShrink :: "usage_analysis \<Rightarrow> shrink_options \<Rightarrow> shrink_suggestion" where
  "suggestShrink analysis opts =
     (let keeps = (\<lambda>atom. observed_enough analysis opts atom \<or> atom \<in> set (an_attemptedOnly analysis));
          kept = filter keeps (an_granted analysis);
          removed = filter (\<lambda>atom. \<not> keeps atom) (an_granted analysis);
          observed = filter (observed_enough analysis opts) (an_granted analysis);
          merged = (if so_generalize opts
                    then filter (merge_allowed analysis opts) (foldl (group_atom observed kept) [] [0..<length kept])
                    else [])
      in \<lparr>ss_keep = compactPermissions (replacements kept merged), ss_remove = compactPermissions removed,
          ss_rewrites = map (\<lambda>g. (map ((!) kept) (sg_indexes g), group_target g)) merged\<rparr>)"

section \<open>The replay\<close>

record blast_report =
  br_replayedAllows :: nat
  br_stillAllowed :: nat
  br_newlyDeniedCount :: nat
  br_newlyDenied :: "decision_row list"
  br_wouldAlsoAllowCount :: nat
  br_wouldAlsoAllow :: "decision_row list"
  br_ignoredRows :: nat
  br_perPermission :: "(permission \<times> nat) list"
  br_truncated :: bool

definition empty_report :: "permission list \<Rightarrow> blast_report" where
  "empty_report proposed =
     \<lparr>br_replayedAllows = 0, br_stillAllowed = 0, br_newlyDeniedCount = 0, br_newlyDenied = [], br_wouldAlsoAllowCount = 0,
      br_wouldAlsoAllow = [], br_ignoredRows = 0, br_perPermission = map (\<lambda>p. (p, 0)) proposed, br_truncated = False\<rparr>"

definition replay_add :: "permission list \<Rightarrow> resource_matching \<Rightarrow> int \<Rightarrow> blast_report \<Rightarrow> decision_row \<Rightarrow> blast_report" where
  "replay_add proposed mode maxExamples r row =
     (let hit = match_grant proposed mode (dr_action row) (dr_resource row)
      in case classifyRow row of
           InternalRow \<Rightarrow> r\<lparr>br_ignoredRows := br_ignoredRows r + 1\<rparr>
         | DenyOther \<Rightarrow> r\<lparr>br_ignoredRows := br_ignoredRows r + 1\<rparr>
         | AllowRow \<Rightarrow>
             (let r' = r\<lparr>br_replayedAllows := br_replayedAllows r + 1\<rparr>
              in case hit of
                   Some (_, i) \<Rightarrow>
                     r'\<lparr>br_stillAllowed := br_stillAllowed r' + 1,
                        br_perPermission := (br_perPermission r')[i := (case br_perPermission r' ! i of (p, n) \<Rightarrow> (p, n + 1))]\<rparr>
                 | None \<Rightarrow>
                     (let r'' = r'\<lparr>br_newlyDeniedCount := br_newlyDeniedCount r' + 1\<rparr>
                      in if int (length (br_newlyDenied r'')) < maxExamples
                         then r''\<lparr>br_newlyDenied := br_newlyDenied r'' @ [row]\<rparr> else r''\<lparr>br_truncated := True\<rparr>))
         | DenyNoGrant \<Rightarrow>
             (case hit of
                None \<Rightarrow> r
              | Some _ \<Rightarrow>
                  (let r' = r\<lparr>br_wouldAlsoAllowCount := br_wouldAlsoAllowCount r + 1\<rparr>
                   in if int (length (br_wouldAlsoAllow r')) < maxExamples
                      then r'\<lparr>br_wouldAlsoAllow := br_wouldAlsoAllow r' @ [row]\<rparr> else r'\<lparr>br_truncated := True\<rparr>)))"

definition verifyShrink :: "decision_row list \<Rightarrow> permission list \<Rightarrow> resource_matching \<Rightarrow> int option \<Rightarrow> blast_report" where
  "verifyShrink rows proposed mode maxExamples =
     foldl (replay_add proposed mode (wholeOr maxExamples 1000 0)) (empty_report proposed) rows"

section \<open>What permissions grant together\<close>

text \<open>The pairs of resource pattern and action that permissions hold.\<close>

definition atom_pairs :: "permission list \<Rightarrow> (string \<times> string) set" where
  "atom_pairs ps = {(pm_resource p, a) | p a. p \<in> set ps \<and> a \<in> set (pm_actions p)}"

definition allows :: "resource_matching \<Rightarrow> permission list \<Rightarrow> string \<Rightarrow> string \<Rightarrow> bool" where
  "allows mode ps action resource \<longleftrightarrow> (\<exists>p\<in>set ps. grants mode action resource p)"

lemma match_grant_allows: "match_grant ps mode action resource = None \<longleftrightarrow> \<not> allows mode ps action resource"
  by (simp add: match_grant_scan findMatchingPermission_None_iff allows_def)

lemma find_allows: "findMatchingPermission ps action resource mode = None \<longleftrightarrow> \<not> allows mode ps action resource"
  by (simp add: findMatchingPermission_None_iff allows_def)

lemma allows_pairs:
  "allows mode ps action resource \<longleftrightarrow>
     (\<exists>(r, a)\<in>atom_pairs ps. matchResource r resource mode \<and> (a = action \<or> a = ''*''))"
  by (fastforce simp: allows_def grants_def matchAction_def atom_pairs_def)

lemma add_actions_simps [simp]:
  "pm_resource (add_actions acts p) = pm_resource p" "set (pm_actions (add_actions acts p)) = set (pm_actions p) \<union> set acts"
  unfolding add_actions_def by (induction acts arbitrary: p) auto

lemma atom_pairs_simps [simp]:
  "atom_pairs [] = {}" "atom_pairs (p # ps) = Pair (pm_resource p) ` set (pm_actions p) \<union> atom_pairs ps"
  by (auto simp: atom_pairs_def)

lemma merge_into_pairs:
  assumes "\<forall>(key, p)\<in>set out. fst key = pm_resource p"
  shows "atom_pairs (map snd (merge_into a out)) = atom_pairs [a] \<union> atom_pairs (map snd out)
    \<and> (\<forall>(key, p)\<in>set (merge_into a out). fst key = pm_resource p)"
  using assms
proof (induction a out rule: merge_into.induct)
  case (2 a key p rest)
  show ?case
  proof (cases "key = (pm_resource a, extrasKey a)")
    case True
    with 2 show ?thesis by (auto simp: image_Un)
  next
    case False
    with 2 show ?thesis by auto
  qed
qed (simp add: withExtras_def)

lemma compact_pairs: "atom_pairs (compactPermissions atoms) = atom_pairs atoms"
proof -
  have "atom_pairs (map snd (foldl (\<lambda>out a. merge_into a out) out atoms)) = atom_pairs (map snd out) \<union> atom_pairs atoms"
    if "\<forall>(key, p)\<in>set out. fst key = pm_resource p" for out
    using that
  proof (induction atoms arbitrary: out)
    case (Cons a atoms)
    from Cons.IH [of "merge_into a out"] merge_into_pairs [OF Cons.prems, of a]
    show ?case by auto
  qed simp
  from this [of "[]"] show ?thesis by (simp add: compactPermissions_def)
qed

lemma compact_allows [simp]: "allows mode (compactPermissions atoms) action resource = allows mode atoms action resource"
  by (simp add: allows_pairs compact_pairs)

section \<open>Wildcards over literal resources\<close>

lemma match_literal: "CHR ''*'' \<notin> set p \<Longrightarrow> matchResource p r mode \<longleftrightarrow> p = r"
proof -
  assume "CHR ''*'' \<notin> set p"
  then have no: "CHR ''*'' \<notin> set q" if "q \<in> set (split_on CHR '':'' p)" for q
    using that by (induction p arbitrary: q) (auto split: if_splits list.splits)
  have "seg_match ps rs \<longleftrightarrow> ps = rs" if "\<forall>q\<in>set ps. CHR ''*'' \<notin> set q" for ps rs
    using that by (induction ps rs rule: seg_match.induct) (auto split: list.splits)
  moreover have "path_accepts ps rs \<longleftrightarrow> ps = rs" if "\<forall>q\<in>set ps. CHR ''*'' \<notin> set q" for ps rs
    using that by (induction ps rs rule: path_accepts.induct) (auto simp: free_part_def segment_accepts_literal split: list.splits)
  moreover have "p \<noteq> ''*''" using \<open>CHR ''*'' \<notin> set p\<close> by auto
  ultimately show ?thesis
    using no by (cases mode) (simp_all add: matchResource_def colon_seg_match matchPathResource_iff split_on_inject)
qed

lemma match_below: "CHR ''*'' \<notin> set p \<Longrightarrow> matchResource (p @ '':*'') (p @ CHR '':'' # x) mode"
proof -
  assume "CHR ''*'' \<notin> set p"
  then have no: "CHR ''*'' \<notin> set q" if "q \<in> set (split_on CHR '':'' p)" for q
    using that by (induction p arbitrary: q) (auto split: if_splits list.splits)
  have s: "split_on CHR '':'' (p @ '':*'') = split_on CHR '':'' p @ [''*'']"
    using split_on_append_sep [of "CHR '':''" p "''*''"] by simp
  have "seg_match (ps @ [''*'']) (ps @ rs)" for ps rs by (induction ps) auto
  moreover have "path_accepts (ps @ [''*'']) (ps @ rs)" if "\<forall>q\<in>set ps. CHR ''*'' \<notin> set q" for ps rs
    using that by (induction ps) (auto simp: free_part_def segment_accepts_def)
  ultimately show ?thesis
    using no by (cases mode) (simp_all add: matchResource_def colon_seg_match matchPathResource_iff s split_on_append_sep)
qed

lemma parentOf_SomeD:
  assumes "parentOf r = Some parent"
  shows "CHR ''*'' \<notin> set r \<and> (\<exists>x. r = parent @ CHR '':'' # x)"
proof -
  have r: "CHR ''*'' \<notin> set r" "2 \<le> length (split_on CHR '':'' r)" "parent = join_on CHR '':'' (butlast (split_on CHR '':'' r))"
    using assms by (auto simp: parentOf_def Let_def split: if_splits)
  have j: "join_on c (ss @ [x]) = join_on c ss @ c # x" if "ss \<noteq> []" for c ss and x :: string
    using that by (induction c ss rule: join_on.induct) auto
  have "r = join_on CHR '':'' (butlast (split_on CHR '':'' r) @ [last (split_on CHR '':'' r)])"
    by simp
  moreover have "butlast (split_on CHR '':'' r) \<noteq> []" using r(2) by (cases "split_on CHR '':'' r"; cases "tl (split_on CHR '':'' r)") auto
  ultimately show ?thesis using r j by metis
qed

lemma target_below: "parentOf r = Some parent \<Longrightarrow> matchResource r x mode \<Longrightarrow> matchResource (parent @ '':*'') x mode"
  using parentOf_SomeD [of r parent] match_literal [of r x mode] match_below [of parent _ mode] by force

section \<open>Groups\<close>

definition member_ok :: "permission list \<Rightarrow> shrink_group \<Rightarrow> nat \<Rightarrow> bool" where
  "member_ok kept g i \<longleftrightarrow> parentOf (pm_resource (kept ! i)) = Some (sg_parent g)
     \<and> (\<exists>rest. pm_actions (kept ! i) = sg_action g # rest)"

definition groups_ok :: "permission list \<Rightarrow> nat \<Rightarrow> shrink_group list \<Rightarrow> bool" where
  "groups_ok kept n groups \<longleftrightarrow> distinct (concat (map sg_indexes groups))
     \<and> (\<forall>g\<in>set groups. sg_indexes g \<noteq> [] \<and> (\<forall>i\<in>set (sg_indexes g). i < n \<and> member_ok kept g i))"

lemma groups_ok_mono: "groups_ok kept n groups \<Longrightarrow> n \<le> m \<Longrightarrow> groups_ok kept m groups"
  by (fastforce simp: groups_ok_def)

lemma add_to_group_indexes:
  "set (concat (map sg_indexes (add_to_shrink_group parent action atom n groups))) = insert n (set (concat (map sg_indexes groups)))"
  by (induction groups) auto

lemma add_to_group_ok:
  assumes "groups_ok kept n groups" and "parentOf (pm_resource (kept ! n)) = Some parent" and "pm_actions (kept ! n) = action # rest"
  shows "groups_ok kept (Suc n) (add_to_shrink_group parent action atom n groups)"
  using assms(1)
proof (induction groups)
  case (Cons g gs)
  have fresh: "n \<notin> set (concat (map sg_indexes (g # gs)))" using Cons.prems by (fastforce simp: groups_ok_def)
  show ?case
  proof (cases "group_key g = (parent, action, extrasKey atom)")
    case True
    with Cons.prems fresh assms(2,3) show ?thesis
      by (fastforce simp: groups_ok_def member_ok_def group_key_def)
  next
    case False
    have "groups_ok kept n gs" using Cons.prems by (auto simp: groups_ok_def)
    with Cons.IH have ih: "groups_ok kept (Suc n) (add_to_shrink_group parent action atom n gs)" by blast
    moreover have "set (sg_indexes g) \<inter> set (concat (map sg_indexes (add_to_shrink_group parent action atom n gs))) = {}"
      unfolding add_to_group_indexes using fresh Cons.prems by (auto simp: groups_ok_def)
    moreover have "groups_ok kept (Suc n) [g]" using Cons.prems by (fastforce simp: groups_ok_def)
    ultimately show ?thesis using False by (auto simp: groups_ok_def)
  qed
qed (use assms in \<open>auto simp: groups_ok_def member_ok_def\<close>)

lemma groups_built: "groups_ok kept n (foldl (group_atom observed kept) [] [0..<n])"
proof (induction n)
  case (Suc n)
  let ?groups = "foldl (group_atom observed kept) [] [0..<n]"
  have "groups_ok kept (Suc n) ?groups" using groups_ok_mono [OF Suc] by simp
  moreover have "groups_ok kept (Suc n) (add_to_shrink_group parent action (kept ! n) n ?groups)"
    if "parentOf (pm_resource (kept ! n)) = Some parent" "pm_actions (kept ! n) = action # rest" for parent action rest
    using add_to_group_ok [OF Suc that] .
  ultimately have "groups_ok kept (Suc n) (group_atom observed kept ?groups n)"
    unfolding group_atom_def Let_def by (simp split: option.split list.split)
  then show ?case by simp
qed (simp add: groups_ok_def)

lemma groups_ok_filter: "groups_ok kept n groups \<Longrightarrow> groups_ok kept n (filter P groups)"
proof -
  have "distinct (concat (map f xs)) \<Longrightarrow> distinct (concat (map f (filter P xs)))" for f :: "'a \<Rightarrow> nat list" and P xs
    by (induction xs) auto
  then show "groups_ok kept n groups \<Longrightarrow> groups_ok kept n (filter P groups)" by (auto simp: groups_ok_def)
qed

text \<open>Two groups that share an index have the same indexes.\<close>

lemma groups_share:
  assumes "groups_ok kept n groups" "g \<in> set groups" "h \<in> set groups" "i \<in> set (sg_indexes g)" "i \<in> set (sg_indexes h)"
  shows "sg_indexes g = sg_indexes h"
  using assms by (auto simp: groups_ok_def distinct_concat_iff)

lemma target_grants:
  assumes "member_ok kept g i" "length (pm_actions (kept ! i)) = 1" "grants mode action resource (kept ! i)"
  shows "grants mode action resource (group_target g)"
proof -
  have "pm_actions (kept ! i) = [sg_action g]" using assms(1,2) by (auto simp: member_ok_def)
  with assms(1,3) show ?thesis
    using target_below [of "pm_resource (kept ! i)" "sg_parent g" resource mode]
    by (auto simp: grants_def group_target_def withExtras_def member_ok_def)
qed

lemma replacements_keep:
  assumes ok: "groups_ok kept (length kept) merged" and i: "i < length kept" and one: "length (pm_actions (kept ! i)) = 1"
    and g: "grants mode action resource (kept ! i)"
  shows "allows mode (replacements kept merged) action resource"
proof -
  let ?late = "set (concat (map (tl \<circ> sg_indexes) merged))"
  have at_head: "\<exists>g'. List.find (\<lambda>g'. hd (sg_indexes g') = hd (sg_indexes g)) merged = Some g' \<and> i \<in> set (sg_indexes g')
      \<and> hd (sg_indexes g) \<notin> ?late \<and> hd (sg_indexes g) < length kept"
    if m: "g \<in> set merged" "i \<in> set (sg_indexes g)" for g
  proof -
    have ne: "sg_indexes h \<noteq> []" if "h \<in> set merged" for h using ok that by (simp add: groups_ok_def)
    obtain g' where g': "List.find (\<lambda>g'. hd (sg_indexes g') = hd (sg_indexes g)) merged = Some g'"
      using m(1) by (cases "List.find (\<lambda>g'. hd (sg_indexes g') = hd (sg_indexes g)) merged") (auto simp: find_None_iff)
    have same: "g' \<in> set merged" "hd (sg_indexes g') = hd (sg_indexes g)" using find_SomeD [OF g'] by auto
    have "sg_indexes g' = sg_indexes g"
      using groups_share [OF ok same(1) m(1)] same(2) ne [OF same(1)] ne [OF m(1)] by (metis hd_in_set)
    moreover have "hd (sg_indexes g) \<notin> ?late"
    proof
      assume "hd (sg_indexes g) \<in> ?late"
      then obtain h where h: "h \<in> set merged" "hd (sg_indexes g) \<in> set (tl (sg_indexes h))" by auto
      have "sg_indexes h = sg_indexes g"
        using groups_share [OF ok h(1) m(1)] h(2) ne [OF h(1)] ne [OF m(1)] by (metis hd_in_set list.set_sel(2))
      with h(2) have "hd (sg_indexes g) \<in> set (tl (sg_indexes g))" by simp
      moreover have "distinct (sg_indexes g)" using ok m(1) by (auto simp: groups_ok_def distinct_concat_iff)
      ultimately show False using ne [OF m(1)] by (cases "sg_indexes g") auto
    qed
    moreover have "hd (sg_indexes g) < length kept" using ok m(1) ne [OF m(1)] by (auto simp: groups_ok_def)
    ultimately show ?thesis using g' m(2) by (intro exI [of _ g'] conjI) simp_all
  qed
  have "\<exists>q\<in>set (replacements kept merged). grants mode action resource q"
  proof (cases "\<exists>g\<in>set merged. i \<in> set (sg_indexes g)")
    case True
    then obtain g where "g \<in> set merged" "i \<in> set (sg_indexes g)" by blast
    from at_head [OF this] obtain g' where
      g': "List.find (\<lambda>g'. hd (sg_indexes g') = hd (sg_indexes g)) merged = Some g'" "i \<in> set (sg_indexes g')"
        "hd (sg_indexes g) \<notin> ?late" "hd (sg_indexes g) < length kept" by blast
    have "g' \<in> set merged" using find_SomeD [OF g'(1)] by blast
    with ok g'(2) have "member_ok kept g' i" by (simp add: groups_ok_def)
    from target_grants [OF this one g] have "grants mode action resource (group_target g')" .
    moreover have "group_target g' \<in> set (replacements kept merged)"
      using g'(1,3,4) by (force simp: replacements_def)
    ultimately show ?thesis by blast
  next
    case False
    have tail: "x \<in> set xs" if "x \<in> set (tl xs)" for x :: nat and xs using that by (cases xs) auto
    with False have "i \<notin> ?late" by auto
    moreover have "List.find (\<lambda>g. hd (sg_indexes g) = i) merged = None"
      using False ok by (auto simp: find_None_iff groups_ok_def)
    ultimately have "kept ! i \<in> set (replacements kept merged)" using i by (force simp: replacements_def)
    with g show ?thesis by blast
  qed
  then show ?thesis by (simp add: allows_def)
qed

section \<open>What the analysis saw\<close>

text \<open>How many recorded calls were allowed by the grant at an index.\<close>

definition used_times :: "grant list \<Rightarrow> resource_matching \<Rightarrow> decision_row list \<Rightarrow> nat \<Rightarrow> nat" where
  "used_times gs mode rows i =
     length (filter (\<lambda>row. classifyRow row = AllowRow
       \<and> (\<exists>p. match_grant (map gr_permission gs) mode (dr_action row) (dr_resource row) = Some (p, i))) rows)"

lemma used_times_Cons:
  "used_times gs mode (row # rows) i =
     (if classifyRow row = AllowRow
         \<and> (\<exists>p. match_grant (map gr_permission gs) mode (dr_action row) (dr_resource row) = Some (p, i))
      then Suc (used_times gs mode rows i) else used_times gs mode rows i)"
  by (simp add: used_times_def)

definition count_of :: "use_state option \<Rightarrow> nat" where
  "count_of found = (case found of Some s \<Rightarrow> us_count s | None \<Rightarrow> 0)"

lemma count_of_note_use [simp]: "us_count (note_use row c found) = Suc (count_of found)"
  by (simp add: note_use_def count_of_def Let_def split: option.splits)

lemma usage_count:
  "count_of (ua_used (foldl (usage_add gs mode) a rows) i) = count_of (ua_used a i) + used_times gs mode rows i"
proof (induction rows arbitrary: a)
  case (Cons row rows)
  have "count_of (ua_used (usage_add gs mode a row) i) = count_of (ua_used a i)
      + (if classifyRow row = AllowRow
            \<and> (\<exists>p. match_grant (map gr_permission gs) mode (dr_action row) (dr_resource row) = Some (p, i)) then 1 else 0)"
    by (cases "classifyRow row"; cases "match_grant (map gr_permission gs) mode (dr_action row) (dr_resource row)")
      (auto simp: usage_add_def Let_def count_of_def [of "Some _"])
  with Cons.IH [of "usage_add gs mode a row"] show ?case by (simp add: used_times_Cons)
qed (simp add: used_times_def)

lemma usage_uncovered:
  "ev_uncoveredAllows (ua_evidence (foldl (usage_add gs mode) a rows)) = ev_uncoveredAllows (ua_evidence a)
   + length (filter (\<lambda>row. classifyRow row = AllowRow
       \<and> match_grant (map gr_permission gs) mode (dr_action row) (dr_resource row) = None) rows)"
proof (induction rows arbitrary: a)
  case (Cons row rows)
  from Cons [of "usage_add gs mode a row"] show ?case
    by (cases "classifyRow row"; cases "match_grant (map gr_permission gs) mode (dr_action row) (dr_resource row)")
      (auto simp: usage_add_def Let_def)
qed simp

lemma replay_newly_denied:
  "br_newlyDeniedCount (foldl (replay_add ps mode n) r rows) = br_newlyDeniedCount r
   + length (filter (\<lambda>row. classifyRow row = AllowRow \<and> match_grant ps mode (dr_action row) (dr_resource row) = None) rows)"
proof (induction rows arbitrary: r)
  case (Cons row rows)
  from Cons [of "replay_add ps mode n r row"] show ?case
    by (cases "classifyRow row"; cases "match_grant ps mode (dr_action row) (dr_resource row)")
      (auto simp: replay_add_def Let_def)
qed simp

text \<open>Replayed examples of newly denied calls are recorded calls that nothing of the proposed set matches.\<close>

lemma replay_denied_rows:
  "row \<in> set (br_newlyDenied (foldl (replay_add ps mode n) r rows)) \<Longrightarrow>
   row \<in> set (br_newlyDenied r) \<or> match_grant ps mode (dr_action row) (dr_resource row) = None"
proof (induction rows arbitrary: r)
  case (Cons x rows)
  from Cons.IH [of "replay_add ps mode n r x"] Cons.prems show ?case
    by (cases "classifyRow x"; cases "match_grant ps mode (dr_action x) (dr_resource x)")
      (auto simp: replay_add_def Let_def split: if_splits)
qed simp

text \<open>Atoms of grants are pushed once, so the grant at an index is the only one with its permission.\<close>

lemma push_distinct: "distinct (map gr_permission gs) \<Longrightarrow> distinct (map gr_permission (push_grant source gs p))"
proof -
  have "distinct (map gr_permission (foldl (\<lambda>gs atom. if atom \<in> set (map gr_permission gs) then gs
      else gs @ [\<lparr>gr_permission = atom, gr_chainId = source\<rparr>]) gs atoms))"
    if "distinct (map gr_permission gs)" for atoms gs
    using that by (induction atoms arbitrary: gs) auto
  then show "distinct (map gr_permission gs) \<Longrightarrow> ?thesis" by (simp only: push_grant_def)
qed

lemma push_all_distinct:
  "distinct (map gr_permission gs) \<Longrightarrow> distinct (map gr_permission (foldl (push_grant source) gs ps))"
  by (induction ps arbitrary: gs) (auto intro: push_distinct)

lemma loadGrants_distinct: "distinct (map gr_permission (loadGrants own links now))"
proof -
  have "distinct (map gr_permission (foldl (\<lambda>gs c. if ch_expiresAt c \<le> now then gs
      else foldl (push_grant (Some (ch_id c))) gs (ch_permissions c)) gs links))"
    if "distinct (map gr_permission gs)" for gs
    using that by (induction links arbitrary: gs) (auto intro: push_all_distinct)
  moreover have "distinct (map gr_permission (foldl (push_grant None) [] own))" by (rule push_all_distinct) simp
  ultimately show ?thesis by (simp add: loadGrants_def)
qed

lemma used_observed:
  assumes an: "an = analyzeUsage gs mode rows" and gs: "distinct (map gr_permission gs)"
    and hit: "match_grant (map gr_permission gs) mode action resource = Some (p, i)"
    and enough: "wholeOr (so_minObservations opts) 1 1 \<le> int (used_times gs mode rows i)"
  shows "observed_enough an opts p \<and> p \<in> set (an_granted an) \<and> grants mode action resource p"
proof -
  let ?a = "foldl (usage_add gs mode) empty_usage rows"
  have count: "count_of (ua_used ?a i) = used_times gs mode rows i"
    using usage_count [of gs mode empty_usage rows i] by (simp add: empty_usage_def count_of_def)
  have "1 \<le> wholeOr (so_minObservations opts) 1 1" by (auto simp: wholeOr_def split: option.splits)
  with count enough obtain s where s: "ua_used ?a i = Some s" "us_count s = used_times gs mode rows i"
    by (auto simp: count_of_def split: option.splits)
  have i: "i < length gs" "p = gr_permission (gs ! i)" "grants mode action resource p"
    using hit by (auto simp: match_grant_scan dest!: findMatchingPermission_SomeD)
  have used: "an_used an = concat (map (\<lambda>i. case ua_used ?a i of Some s \<Rightarrow> [(gr_permission (gs ! i), s)] | None \<Rightarrow> []) [0..<length gs])"
    by (simp add: an analyzeUsage_def usage_finish_def Let_def)
  have "(p, s) \<in> set (an_used an)" unfolding used using i s by (force split: option.splits)
  then obtain t where t: "map_of (rev (an_used an)) p = Some t"
    by (cases "map_of (rev (an_used an)) p") (auto simp: map_of_eq_None_iff image_iff)
  then have "(p, t) \<in> set (an_used an)" by (auto dest: map_of_SomeD)
  then obtain j where j: "j < length gs" "gr_permission (gs ! j) = p" "ua_used ?a j = Some t"
    unfolding used by (auto split: option.splits)
  have "j = i" using gs i(1,2) j(1,2) nth_eq_iff_index_eq [of "map gr_permission gs" j i] by simp
  with j(3) s t i enough show ?thesis
    by (simp add: observed_enough_def used_count_def an analyzeUsage_def usage_finish_def Let_def)
qed

section \<open>A shrink keeps what was used\<close>

definition single_actions :: "permission list \<Rightarrow> bool" where
  "single_actions ps \<longleftrightarrow> list_all (\<lambda>p. length (pm_actions p) = 1) ps"

lemma push_single: "single_actions (map gr_permission gs) \<Longrightarrow> single_actions (map gr_permission (push_grant source gs p))"
proof -
  have "single_actions (map gr_permission (foldl (\<lambda>gs atom. if atom \<in> set (map gr_permission gs) then gs
      else gs @ [\<lparr>gr_permission = atom, gr_chainId = source\<rparr>]) gs atoms))"
    if "single_actions atoms" "single_actions (map gr_permission gs)" for atoms gs
    using that by (induction atoms arbitrary: gs) (auto simp: single_actions_def)
  moreover have "single_actions (splitPermission p)" by (simp add: single_actions_def splitPermission_def withExtras_def list_all_iff)
  ultimately show "single_actions (map gr_permission gs) \<Longrightarrow> ?thesis" by (simp only: push_grant_def)
qed

lemma push_all_single:
  "single_actions (map gr_permission gs) \<Longrightarrow> single_actions (map gr_permission (foldl (push_grant source) gs ps))"
  by (induction ps arbitrary: gs) (auto intro: push_single)

lemma loadGrants_single: "single_actions (map gr_permission (loadGrants own links now))"
proof -
  have "single_actions (map gr_permission (foldl (\<lambda>gs c. if ch_expiresAt c \<le> now then gs
      else foldl (push_grant (Some (ch_id c))) gs (ch_permissions c)) gs links))"
    if "single_actions (map gr_permission gs)" for gs
    using that by (induction links arbitrary: gs) (auto intro: push_all_single)
  moreover have "single_actions (map gr_permission (foldl (push_grant None) [] own))"
    by (rule push_all_single) (simp add: single_actions_def)
  ultimately show ?thesis by (simp add: loadGrants_def)
qed

lemma shrink_keeps_hit:
  assumes single: "single_actions (an_granted an)" and p: "p \<in> set (an_granted an)"
    and used: "observed_enough an opts p \<or> p \<in> set (an_attemptedOnly an)" and g: "grants mode action resource p"
  shows "allows mode (ss_keep (suggestShrink an opts)) action resource"
proof -
  let ?keeps = "\<lambda>atom. observed_enough an opts atom \<or> atom \<in> set (an_attemptedOnly an)"
  let ?kept = "filter ?keeps (an_granted an)"
  let ?observed = "filter (observed_enough an opts) (an_granted an)"
  let ?merged = "if so_generalize opts
    then filter (merge_allowed an opts) (foldl (group_atom ?observed ?kept) [] [0..<length ?kept]) else []"
  obtain i where i: "i < length ?kept" "?kept ! i = p" using p used by (metis (mono_tags, lifting) in_set_conv_nth mem_Collect_eq set_filter)
  have "groups_ok ?kept (length ?kept) ?merged"
    using groups_ok_filter [OF groups_built] by (auto simp: groups_ok_def [of _ _ "[]"])
  from replacements_keep [OF this i(1), of mode action resource] i(2) single p g
  have "allows mode (replacements ?kept ?merged) action resource" by (simp add: single_actions_def list_all_iff)
  then show ?thesis by (simp add: suggestShrink_def Let_def)
qed

lemma shrink_keeps_used:
  assumes "an = analyzeUsage (loadGrants own links now) (so_matching opts) rows"
    and "match_grant (map gr_permission (loadGrants own links now)) (so_matching opts) action resource = Some (p, i)"
    and "wholeOr (so_minObservations opts) 1 1 \<le> int (used_times (loadGrants own links now) (so_matching opts) rows i)"
  shows "match_grant (ss_keep (suggestShrink an opts)) (so_matching opts) action resource \<noteq> None"
proof -
  have "an_granted an = map gr_permission (loadGrants own links now)"
    by (simp add: assms(1) analyzeUsage_def usage_finish_def Let_def)
  with used_observed [OF assms(1) loadGrants_distinct assms(2,3)] shrink_keeps_hit [of an p opts]
  show ?thesis by (simp add: loadGrants_single match_grant_allows)
qed

text \<open>
  C17: A suggestion denies no call that a grant of today allowed often enough: take a recorded allowed call
  whose first matching grant allowed at least \<open>minObservations\<close> recorded calls (one when the option is
  left out, so that the call itself is enough). What the shrink keeps, with or without merging and in
  both matching modes, still matches that call, and the replay does not list it as newly denied. A
  higher minimum does drop grants that were used less often.
\<close>

theorem shrink_keeps_calls:
  assumes "an = analyzeUsage (loadGrants own links now) (so_matching opts) rows"
    and "row \<in> set rows" and "classifyRow row = AllowRow"
    and "match_grant (map gr_permission (loadGrants own links now)) (so_matching opts)
           (dr_action row) (dr_resource row) = Some (p, i)"
    and "so_minObservations opts = None
         \<or> wholeOr (so_minObservations opts) 1 1 \<le> int (used_times (loadGrants own links now) (so_matching opts) rows i)"
  shows "match_grant (ss_keep (suggestShrink an opts)) (so_matching opts) (dr_action row) (dr_resource row) \<noteq> None
    \<and> row \<notin> set (br_newlyDenied (verifyShrink rows (ss_keep (suggestShrink an opts)) (so_matching opts) maxExamples))"
proof -
  have "0 < used_times (loadGrants own links now) (so_matching opts) rows i"
    using assms(2-4) by (auto simp: used_times_def filter_empty_conv)
  then have "wholeOr (so_minObservations opts) 1 1 \<le> int (used_times (loadGrants own links now) (so_matching opts) rows i)"
    using assms(5) by (auto simp: wholeOr_def)
  from shrink_keeps_used [OF assms(1,4) this] show ?thesis
    by (auto simp: verifyShrink_def empty_report_def dest: replay_denied_rows)
qed

text \<open>With the default minimum the replay denies no more calls than were allowed without any grant of today.\<close>

lemma shrink_replay_count:
  assumes "an = analyzeUsage (loadGrants own links now) (so_matching opts) rows" and "so_minObservations opts = None"
  shows "br_newlyDeniedCount (verifyShrink rows (ss_keep (suggestShrink an opts)) (so_matching opts) maxExamples)
    \<le> ev_uncoveredAllows (an_evidence an)"
proof -
  let ?gs = "loadGrants own links now" and ?mode = "so_matching opts" and ?keep = "ss_keep (suggestShrink an opts)"
  have "match_grant (map gr_permission ?gs) ?mode (dr_action row) (dr_resource row) = None"
    if "row \<in> set rows" "classifyRow row = AllowRow" "match_grant ?keep ?mode (dr_action row) (dr_resource row) = None" for row
  proof (rule ccontr)
    assume "match_grant (map gr_permission ?gs) ?mode (dr_action row) (dr_resource row) \<noteq> None"
    then obtain p i where hit: "match_grant (map gr_permission ?gs) ?mode (dr_action row) (dr_resource row) = Some (p, i)" by auto
    have "0 < used_times ?gs ?mode rows i" using that(1,2) hit by (auto simp: used_times_def filter_empty_conv)
    with shrink_keeps_used [OF assms(1) hit] assms(2) that(3) show False by (simp add: wholeOr_def)
  qed
  then have "length (filter (\<lambda>row. classifyRow row = AllowRow \<and> match_grant ?keep ?mode (dr_action row) (dr_resource row) = None) rows)
      \<le> length (filter (\<lambda>row. classifyRow row = AllowRow
          \<and> match_grant (map gr_permission ?gs) ?mode (dr_action row) (dr_resource row) = None) rows)"
    by (intro length_filter_mono) auto
  moreover have "br_newlyDeniedCount (verifyShrink rows ?keep ?mode maxExamples)
      = length (filter (\<lambda>row. classifyRow row = AllowRow \<and> match_grant ?keep ?mode (dr_action row) (dr_resource row) = None) rows)"
    unfolding verifyShrink_def replay_newly_denied by (simp add: empty_report_def)
  moreover have "ev_uncoveredAllows (an_evidence an) = length (filter (\<lambda>row. classifyRow row = AllowRow
      \<and> match_grant (map gr_permission ?gs) ?mode (dr_action row) (dr_resource row) = None) rows)"
    unfolding assms(1) analyzeUsage_def usage_finish_def Let_def by (simp add: usage_uncovered) (simp add: empty_usage_def)
  ultimately show ?thesis by simp
qed

section \<open>A shrink stays within what is granted\<close>

lemma covers_allows:
  assumes "covers p q Colon" and "grants Colon action resource q"
  shows "grants Colon action resource p"
proof -
  have "matchColonResource (pm_resource p) resource"
    using assms colon.accepts_trans by (auto simp: covers_def grants_def matchResource_def)
  with assms show ?thesis by (auto simp: covers_def grants_def matchAction_def list_all_iff matchResource_def)
qed

lemma replacements_from:
  "q \<in> set (replacements kept merged) \<Longrightarrow> q \<in> set kept \<or> (\<exists>g\<in>set merged. q = group_target g)"
proof -
  assume "q \<in> set (replacements kept merged)"
  then obtain i where i: "i < length kept"
      "q \<in> set (case List.find (\<lambda>g. hd (sg_indexes g) = i) merged of Some g \<Rightarrow> [group_target g] | None \<Rightarrow> [kept ! i])"
    by (auto simp: replacements_def split: if_splits)
  show ?thesis
  proof (cases "List.find (\<lambda>g. hd (sg_indexes g) = i) merged")
    case (Some g)
    with i(2) find_SomeD [OF Some] show ?thesis by auto
  qed (use i in simp)
qed

text \<open>
  A suggestion grants no new resource or action: in colon mode whatever the kept set allows, with or
  without merging, some grant of today allows.
\<close>

theorem shrink_within_grants:
  assumes "findMatchingPermission (ss_keep (suggestShrink an opts)) action resource (so_matching opts) \<noteq> None"
    and "so_matching opts = Colon"
  shows "findMatchingPermission (an_granted an) action resource (so_matching opts) \<noteq> None"
proof -
  let ?keeps = "\<lambda>atom. observed_enough an opts atom \<or> atom \<in> set (an_attemptedOnly an)"
  let ?kept = "filter ?keeps (an_granted an)"
  let ?observed = "filter (observed_enough an opts) (an_granted an)"
  let ?merged = "if so_generalize opts
    then filter (merge_allowed an opts) (foldl (group_atom ?observed ?kept) [] [0..<length ?kept]) else []"
  have "allows Colon (replacements ?kept ?merged) action resource"
    using assms by (simp add: find_allows suggestShrink_def Let_def)
  then obtain q where q: "q \<in> set (replacements ?kept ?merged)" "grants Colon action resource q" by (auto simp: allows_def)
  consider "q \<in> set ?kept" | g where "g \<in> set ?merged" "q = group_target g"
    using replacements_from [OF q(1)] by blast
  then have "\<exists>p\<in>set (an_granted an). grants Colon action resource p"
  proof cases
    case 1
    with q(2) show ?thesis by auto
  next
    case 2
    then have "merge_allowed an opts g" by (auto split: if_splits)
    then obtain p where "p \<in> set (an_granted an)" "covers p q Colon"
      using 2(2) assms(2) by (auto simp: merge_allowed_def list_ex_iff)
    with q(2) covers_allows show ?thesis by blast
  qed
  then show ?thesis by (simp add: find_allows allows_def assms(2))
qed

definition used_row :: "ident \<Rightarrow> string \<Rightarrow> string \<Rightarrow> decision_row" where
  "used_row i action resource =
     \<lparr>dr_id = i, dr_action = action, dr_resource = resource, dr_result = AllowedResult, dr_reason = None, dr_timestamp = 0,
      dr_delegationChain = None, dr_event = None\<rparr>"

definition merging :: "resource_matching \<Rightarrow> shrink_options" where
  "merging mode = \<lparr>so_matching = mode, so_minObservations = None, so_generalize = True, so_generalizeMin = None\<rparr>"

definition three_reads :: "decision_row list" where
  "three_reads = [used_row ''r1'' ''read'' ''p:a'', used_row ''r2'' ''read'' ''p:b'', used_row ''r3'' ''read'' ''p:c'']"

definition approved_wildcard :: permission where
  "approved_wildcard =
     \<lparr>pm_resource = ''p:*'', pm_actions = [''read''], pm_constraints = Some (no_constraints\<lparr>pc_requireApproval := True\<rparr>),
      pm_relation = None\<rparr>"

definition literal_grants :: "permission list" where
  "literal_grants = [perm ''p:a'' [''read''], perm ''p:b'' [''read''], perm ''p:c'' [''read'']]"

lemma merged_suggestion:
  "ss_keep (suggestShrink (analyzeUsage (loadGrants (literal_grants @ [approved_wildcard]) [] 0) Colon three_reads) (merging Colon))
   = [perm ''p:*'' [''read'']]"
  by code_simp

theorem shrink_within_grants_witness:
  "findMatchingPermission (an_granted (analyzeUsage (loadGrants (literal_grants @ [approved_wildcard]) [] 0) Colon three_reads))
     ''read'' ''p:d'' Colon \<noteq> None"
proof -
  have "findMatchingPermission [perm ''p:*'' [''read'']] ''read'' ''p:d'' Colon \<noteq> None" by code_simp
  then show ?thesis
    using shrink_within_grants [of "analyzeUsage (loadGrants (literal_grants @ [approved_wildcard]) [] 0) Colon three_reads"
        "merging Colon" "''read''" "''p:d''"]
    unfolding merged_suggestion by (simp add: merging_def)
qed

text \<open>
  Three grants, each used once, merge into a wildcard that keeps each call; with a minimum of two
  observations they are dropped.
\<close>

theorem shrink_keeps_calls_witness:
  "match_grant (ss_keep (suggestShrink (analyzeUsage (loadGrants (literal_grants @ [approved_wildcard]) [] 0) Colon three_reads)
      (merging Colon))) Colon ''read'' ''p:b'' \<noteq> None"
proof -
  have "match_grant (map gr_permission (loadGrants (literal_grants @ [approved_wildcard]) [] 0)) Colon ''read'' ''p:b''
      = Some (perm ''p:b'' [''read''], 1)" by code_simp
  moreover have "used_row ''r2'' ''read'' ''p:b'' \<in> set three_reads" by (simp add: three_reads_def)
  moreover have "classifyRow (used_row ''r2'' ''read'' ''p:b'') = AllowRow" by code_simp
  moreover have "so_matching (merging Colon) = Colon" "so_minObservations (merging Colon) = None"
    "dr_action (used_row ''r2'' ''read'' ''p:b'') = ''read''" "dr_resource (used_row ''r2'' ''read'' ''p:b'') = ''p:b''"
    by (simp_all add: merging_def used_row_def)
  ultimately show ?thesis
    using shrink_keeps_calls [OF refl, of "used_row ''r2'' ''read'' ''p:b''" three_reads
        "literal_grants @ [approved_wildcard]" "[]" 0 "merging Colon" "perm ''p:b'' [''read'']" 1]
    by metis
qed

lemma shrink_drops_rare:
  "ss_keep (suggestShrink (analyzeUsage (loadGrants literal_grants [] 0) Colon three_reads)
     ((merging Colon)\<lparr>so_minObservations := Some 2\<rparr>)) = []"
  by code_simp

text \<open>
  A merge drops a constraint: three literal grants in use merge into a wildcard because a grant that
  demands an approval covers it, and the wildcard of the suggestion demands none.
\<close>

theorem merge_drops_approval:
  "let an = analyzeUsage (loadGrants (literal_grants @ [approved_wildcard]) [] 0) Colon three_reads
   in findMatchingPermission (an_granted an) ''read'' ''p:d'' Colon = Some (approved_wildcard, 3)
      \<and> (\<exists>p. findMatchingPermission (ss_keep (suggestShrink an (merging Colon))) ''read'' ''p:d'' Colon = Some (p, 0)
             \<and> pm_constraints p = None)"
  unfolding Let_def merged_suggestion
  by (intro conjI exI [of _ "perm ''p:*'' [''read'']"]) code_simp+

text \<open>
  In path mode a merge grants a resource that no grant of today selects: \<open>x:*:*\<close> is taken to cover the
  wildcard \<open>x:*\<close>, which also selects an empty segment that \<open>x:*:*\<close> refuses.
\<close>

theorem path_merge_widens:
  "let an = analyzeUsage (loadGrants [perm ''x:a'' [''read''], perm ''x:b'' [''read''], perm ''x:c'' [''read''],
                perm ''x:*:*'' [''read'']] [] 0) Path
              [used_row ''r1'' ''read'' ''x:a'', used_row ''r2'' ''read'' ''x:b'', used_row ''r3'' ''read'' ''x:c'']
   in findMatchingPermission (an_granted an) ''read'' ''x::secret'' Path = None
      \<and> findMatchingPermission (ss_keep (suggestShrink an (merging Path))) ''read'' ''x::secret'' Path
        = Some (perm ''x:*'' [''read''], 0)"
  by code_simp

definition night_only :: permission where
  "night_only =
     \<lparr>pm_resource = ''p:a'', pm_actions = [''read''],
      pm_constraints = Some (no_constraints\<lparr>pc_timeWindow := Some \<lparr>tw_start = ''22:00'', tw_end = ''23:00''\<rparr>\<rparr>),
      pm_relation = None\<rparr>"

definition lending_chain :: chain_row where
  "lending_chain =
     \<lparr>ch_id = ''c1'', ch_from = ''boss'', ch_to = ''bot'', ch_permissions = [perm ''p:a'' [''read'']], ch_depth = 1, ch_maxDepth = 3,
      ch_status = RowActive, ch_expiresAt = 100, ch_createdAt = 0\<rparr>"

text \<open>
  A delegated grant in use is reported as unused: a call that the agent's own constrained permission
  refused and the delegation allowed, with the delegation on its row, is attributed to the own
  permission, and the suggestion removes the delegated one.
\<close>

theorem delegated_use_misread:
  "let an = analyzeUsage (loadGrants [night_only] [lending_chain] 0) Colon
              [(used_row ''r1'' ''read'' ''p:a'')\<lparr>dr_delegationChain := Some [''c1'']\<rparr>];
       s = suggestShrink an ((merging Colon)\<lparr>so_generalize := False\<rparr>)
   in an_unused an = [perm ''p:a'' [''read'']] \<and> ss_keep s = [night_only] \<and> ss_remove s = [perm ''p:a'' [''read'']]"
  by code_simp

end
