(* ===== verification/DecisionRows.thy ===== *)
theory DecisionRows
  imports GrantMatcher "HOL-Library.Product_Lexorder" "HOL-Library.List_Lexorder" "HOL-Library.Char_ord"
begin

text \<open>
  Reading the recorded decisions of an agent page by page, \<open>packages/core/src/policy-shrink/rows.ts\<close>. A page
  continues after the timestamp and id of the last row, so rows with one timestamp are neither
  skipped nor repeated. Ids are compared as strings; the rows do not change while they are read.
\<close>

record read_options =
  ro_since :: "time option"
  ro_until :: "time option"
  ro_pageSize :: "int option"

definition row_key :: "decision_row \<Rightarrow> time \<times> ident" where
  "row_key row = (dr_timestamp row, dr_id row)"

definition in_read_window :: "read_options \<Rightarrow> decision_row \<Rightarrow> bool" where
  "in_read_window opts row \<longleftrightarrow>
     (case ro_since opts of Some s \<Rightarrow> s \<le> dr_timestamp row | None \<Rightarrow> True)
     \<and> (case ro_until opts of Some u \<Rightarrow> dr_timestamp row \<le> u | None \<Rightarrow> True)"

definition after_cursor :: "(time \<times> ident) option \<Rightarrow> decision_row \<Rightarrow> bool" where
  "after_cursor cursor row \<longleftrightarrow>
     (case cursor of
        None \<Rightarrow> True
      | Some (at, i) \<Rightarrow> at < dr_timestamp row \<or> (dr_timestamp row = at \<and> i < dr_id row))"

text \<open>One query; the audit log pairs a row with its agent.\<close>

definition page_query ::
  "(ident \<times> decision_row) list \<Rightarrow> ident \<Rightarrow> read_options \<Rightarrow> (time \<times> ident) option \<Rightarrow> decision_row list" where
  "page_query log agentId opts cursor =
     take (nat (wholeOr (ro_pageSize opts) 1000 1))
       (sort_key row_key
          (filter (\<lambda>row. in_read_window opts row \<and> after_cursor cursor row)
             (map snd (filter (\<lambda>(a, _). a = agentId) log))))"

lemma after_cursor_key: "after_cursor (Some k) row \<longleftrightarrow> k < row_key row"
  by (cases k) (auto simp: after_cursor_def row_key_def less_prod_simp)

lemma after_cursor_fun: "after_cursor (Some k) = (\<lambda>row. k < row_key row)"
  by (rule ext) (rule after_cursor_key)

lemma page_after: "row \<in> set (page_query log agentId opts cursor) \<Longrightarrow> after_cursor cursor row"
  by (auto simp: page_query_def dest!: in_set_takeD)

lemma page_log: "row \<in> set (page_query log agentId opts cursor) \<Longrightarrow> row \<in> set (map snd log)"
  by (auto simp: page_query_def dest!: in_set_takeD)

function readDecisionRows ::
  "(ident \<times> decision_row) list \<Rightarrow> ident \<Rightarrow> read_options \<Rightarrow> (time \<times> ident) option \<Rightarrow> decision_row list list" where
  "readDecisionRows log agentId opts cursor =
     (let page = page_query log agentId opts cursor
      in if page = [] then []
         else page # (if int (length page) < wholeOr (ro_pageSize opts) 1000 1 then []
                      else readDecisionRows log agentId opts (Some (row_key (last page)))))"
  by pat_completeness auto
termination
proof (relation "measure (\<lambda>(log, agentId, opts, cursor). length (filter (after_cursor cursor) (map snd log)))", simp, goal_cases)
  case (1 log agentId opts cursor page)
  then have "last page \<in> set page" by simp
  then have l: "after_cursor cursor (last page)" "last page \<in> set (map snd log)"
    using page_after page_log 1(1) by blast+
  have less: "after_cursor cursor row" if "after_cursor (Some (row_key (last page))) row" for row
    using l(1) that by (cases cursor) (auto simp: after_cursor_key after_cursor_def [of None])
  have "length (filter P xs) < length (filter Q xs)"
    if "\<And>x. P x \<Longrightarrow> Q x" "y \<in> set xs" "Q y" "\<not> P y" for P Q :: "decision_row \<Rightarrow> bool" and xs y
    using that by (induction xs) (auto intro: le_imp_less_Suc length_filter_mono)
  from this [of "after_cursor (Some (row_key (last page)))" "after_cursor cursor", OF less l(2) l(1)]
  show ?case by (simp add: after_cursor_key)
qed

declare readDecisionRows.simps [simp del]

lemma sorted_tail:
  assumes "sorted_wrt (\<lambda>a b. row_key a < row_key b) (xs @ ys)" and "xs \<noteq> []"
  shows "filter (\<lambda>r. row_key (last xs) < row_key r) (xs @ ys) = ys"
proof -
  have "filter (\<lambda>r. row_key (last xs) < row_key r) xs = []"
    using assms by (cases xs rule: rev_cases) (auto simp: filter_empty_conv sorted_wrt_append dest: less_asym)
  moreover have "filter (\<lambda>r. row_key (last xs) < row_key r) ys = ys"
    using assms by (auto simp: filter_id_conv sorted_wrt_append)
  ultimately show ?thesis by simp
qed

text \<open>
  The pages are the log: whatever the size of a page, the pages put together are the rows of the
  agent in the window, oldest first, each exactly once, when no two rows of the agent share
  timestamp and id.
\<close>

theorem pages_are_the_log:
  assumes "distinct (map row_key (map snd (filter (\<lambda>(a, _). a = agentId) log)))"
  shows "concat (readDecisionRows log agentId opts None)
    = sort_key row_key (filter (in_read_window opts) (map snd (filter (\<lambda>(a, _). a = agentId) log)))"
proof -
  let ?mine = "map snd (filter (\<lambda>(a, _). a = agentId) log)"
  let ?all = "sort_key row_key (filter (in_read_window opts) ?mine)"
  let ?n = "nat (wholeOr (ro_pageSize opts) 1000 1)"
  have n: "0 < ?n" "int ?n = wholeOr (ro_pageSize opts) 1000 1" by (auto simp: wholeOr_def split: option.split)
  have "distinct (map row_key ?all)"
    using distinct_map_filter [OF assms, of "in_read_window opts"] unfolding distinct_map set_sort distinct_sort .
  then have strict: "sorted_wrt (\<lambda>a b. row_key a < row_key b) ?all"
    using sorted_sort_key [of row_key "filter (in_read_window opts) ?mine"]
    by (simp add: strict_sorted_iff flip: sorted_wrt_map)
  have query: "page_query log agentId opts cursor = take ?n (filter (after_cursor cursor) ?all)" for cursor
    by (simp add: page_query_def filter_sort conj_commute)
  have "concat (readDecisionRows log agentId opts cursor) = ys"
    if "?all = xs @ ys" "filter (after_cursor cursor) ?all = ys" for cursor xs ys
    using that
  proof (induction "length ys" arbitrary: cursor xs ys rule: less_induct)
    case less
    have page: "page_query log agentId opts cursor = take ?n ys" by (simp add: query less.prems(2))
    show ?case
    proof (cases "ys = []")
      case True
      with page show ?thesis by (subst readDecisionRows.simps) simp
    next
      case False
      let ?page = "take ?n ys"
      have ne: "?page \<noteq> []" using False n(1) by simp
      show ?thesis
      proof (cases "length ?page < ?n")
        case True
        then have "?page = ys" by simp
        moreover have "int (length ys) < wholeOr (ro_pageSize opts) 1000 1" using True calculation n(2) by (metis of_nat_less_iff)
        ultimately show ?thesis using ne page by (subst readDecisionRows.simps) (simp add: Let_def)
      next
        case False
        have split: "?all = (xs @ ?page) @ drop ?n ys" using less.prems(1) by simp
        have "filter (after_cursor (Some (row_key (last ?page)))) ?all = drop ?n ys"
          unfolding after_cursor_fun using sorted_tail [of "xs @ ?page" "drop ?n ys"] strict split ne by simp
        moreover have "length (drop ?n ys) < length ys" using ne n(1) by (cases ys) auto
        ultimately have "concat (readDecisionRows log agentId opts (Some (row_key (last ?page)))) = drop ?n ys"
          using less.hyps split by blast
        with False ne page n(2) show ?thesis by (subst readDecisionRows.simps) (simp add: Let_def)
      qed
    qed
  qed
  from this [of "[]" ?all None] show ?thesis by (simp add: after_cursor_def)
qed

definition log_sample :: "(ident \<times> decision_row) list" where
  "log_sample =
     map (\<lambda>(a, i, t). (a, \<lparr>dr_id = i, dr_action = ''read'', dr_resource = ''p:a'', dr_result = AllowedResult, dr_reason = None,
            dr_timestamp = t, dr_delegationChain = None, dr_event = None\<rparr>))
       [(''bot'', ''r2'', 5), (''bot'', ''r1'', 5), (''other'', ''r3'', 5), (''bot'', ''r4'', 4)]"

theorem pages_are_the_log_witness:
  "length (concat (readDecisionRows log_sample ''bot'' \<lparr>ro_since = None, ro_until = None, ro_pageSize = Some 2\<rparr> None)) = 3"
proof -
  have "distinct (map row_key (map snd (filter (\<lambda>(a, _). a = ''bot'') log_sample)))"
    by (simp add: log_sample_def row_key_def)
  from pages_are_the_log [OF this, of "\<lparr>ro_since = None, ro_until = None, ro_pageSize = Some 2\<rparr>"]
  have "length (concat (readDecisionRows log_sample ''bot'' \<lparr>ro_since = None, ro_until = None, ro_pageSize = Some 2\<rparr> None))
      = length (filter (in_read_window \<lparr>ro_since = None, ro_until = None, ro_pageSize = Some 2\<rparr>)
          (map snd (filter (\<lambda>(a, _). a = ''bot'') log_sample)))" by (simp only: length_sort)
  also have "\<dots> = 3" by (simp add: log_sample_def in_read_window_def)
  finally show ?thesis .
qed

end
