(* ===== verification/AgentCap.thy ===== *)
theory AgentCap
  imports AgentStore Storage
begin

text \<open>
  The cap on agents under concurrency: \<open>create\<close> of \<open>agent/agent.ts\<close> with its awaits, one statement per
  step, among everything else that writes the \<open>agents\<close> table, the uncapped insert of
  \<open>auth/ephemeral-sessions.ts\<close> included. Proved: by how much the cap can be passed, and that it is.
\<close>

section \<open>Creating an agent, statement by statement\<close>

text \<open>
  A call of \<open>create\<close>: the count of active agents, the insert of the agent, the insert of its permissions.
  An insert whose id is taken throws.
\<close>

datatype create_pc =
    CreateIdle
  | CreateCount create_agent_input agent_draw
  | CreateInsert create_agent_input agent_draw
  | CreateGrant create_agent_input agent_draw full_agent "confirmation option"
  | CreateDone "agent_error + agent_view \<times> string"
  | CreateThrew

definition create_step ::
  "agent_config \<Rightarrow> (string \<Rightarrow> string) \<Rightarrow> create_pc \<Rightarrow> agent_db \<Rightarrow> create_pc \<times> agent_db" where
  "create_step cf sha256 pc db =
     (case pc of
        CreateCount input dw \<Rightarrow>
          (if expiry_invalid (ci_expiresAt input) then (CreateDone (Inl InvalidExpiresAt), db)
           else if ci_type input = Device then (CreateDone (Inl DeviceRefused), db)
           else if ag_maxPerUser cf \<le> length (active_of (ci_ownerId input) (at_agents db))
           then (CreateDone (Inl (TooManyAgents (ag_maxPerUser cf))), db)
           else (CreateInsert input dw, db))
      | CreateInsert input dw \<Rightarrow>
          (case create_cnf input of
             Inl e \<Rightarrow> (CreateDone (Inl e), db)
           | Inr cnf \<Rightarrow>
               (case create_expiry cf dw input of
                  Inl e \<Rightarrow> (CreateDone (Inl e), db)
                | Inr expires \<Rightarrow>
                    (let row = create_row sha256 dw input cnf expires
                     in if list_ex (\<lambda>a. agent_row.ag_id a = dw_id dw) (at_agents db) then (CreateThrew, db)
                        else (CreateGrant input dw row cnf, db\<lparr>at_agents := at_agents db @ [row]\<rparr>))))
      | CreateGrant input dw row cnf \<Rightarrow>
          (CreateDone (Inr ((identity_of row (ci_permissions input) RowActive)\<lparr>av_cnf := cnf\<rparr>,
                            agent_token_prefix @ dw_secret dw)),
           db\<lparr>at_permissions := at_permissions db @ permission_rows (dw_id dw) (ci_permissions input)\<rparr>)
      | _ \<Rightarrow> (pc, db))"

text \<open>A call that nobody interrupts is \<open>create\<close>.\<close>

theorem create_alone:
  assumes "create cf sha256 dw input db = (r, db')" and "dw_id dw \<notin> agent_row.ag_id ` set (at_agents db)"
  shows "((\<lambda>(pc, db). create_step cf sha256 pc db) ^^ 3) (CreateCount input dw, db) = (CreateDone r, db')"
proof -
  have "\<not> list_ex (\<lambda>a. agent_row.ag_id a = dw_id dw) (at_agents db)" using assms(2) by (force simp: list_ex_iff)
  with assms(1) show ?thesis
    by (auto simp: eval_nat_numeral create_step_def create_def Let_def split: sum.splits if_splits)
qed

section \<open>Everything else that writes the table\<close>

text \<open>
  Single statements of other operations, as far as active agents besides devices go: changes that
  activate nothing, deletions, and inserts of device agents or of rows that are not active (the tombstones
  of an erasure, the carriers of sign-in audit rows).
\<close>

inductive background :: "agent_db \<Rightarrow> agent_db \<Rightarrow> bool" where
  background_same: "at_agents db' = at_agents db \<Longrightarrow> background db db'"
| background_update: "tame f \<Longrightarrow> at_agents db' = update_where P f (at_agents db) \<Longrightarrow> background db db'"
| background_delete: "at_agents db' = filter P (at_agents db) \<Longrightarrow> background db db'"
| background_insert: "ag_status row \<noteq> RowActive \<or> fa_type row = Device \<Longrightarrow>
     at_agents db' = at_agents db @ [row] \<Longrightarrow> background db db'"

lemma background_set: "tame f \<Longrightarrow> at_agents db' = at_agents (set_agent i f db) \<Longrightarrow> background db db'"
  by (rule background_update [of f]) (auto simp: set_agent_def)

lemma operations_background:
  "background db (snd (update_agent i uinput now db))" "background db (snd (revoke i now db))"
  "background db (snd (rotate sha256 dw c i db))" "background db (snd (resolveToken sha256 token now db))"
proof -
  show "background db (snd (update_agent i uinput now db))"
    using update_agents [of i uinput now db] background_same background_set [OF tame_change] by metis
  have "at_agents (snd (revoke i now db)) = at_agents db \<or>
      at_agents (snd (revoke i now db)) = at_agents (set_agent i (\<lambda>a. a\<lparr>ag_status := RowRevoked, fa_updatedAt := now\<rparr>) db)"
    by (auto simp: revoke_def Let_def split: option.splits prod.splits sum.splits)
  moreover have "tame (\<lambda>a. a\<lparr>ag_status := RowRevoked, fa_updatedAt := now\<rparr>)" by (simp add: tame_def)
  ultimately show "background db (snd (revoke i now db))" using background_same background_set by metis
  have "tame (rotate_change sha256 token now re)" for sha256 token now re by (simp add: tame_def rotate_change_def)
  then show "background db (snd (rotate sha256 dw c i db))"
    by (auto simp: rotate_def Let_def split: option.splits sum.splits intro: background_same background_set [OF _ refl])
  have "tame (\<lambda>a. a\<lparr>fa_lastActiveAt := Some now\<rparr>)" by (simp add: tame_def)
  then show "background db (snd (resolveToken sha256 token now db))"
    by (auto simp: resolveToken_def Let_def tame_def split: option.splits intro: background_same background_set [OF _ refl])
qed

text \<open>The agent \<open>createSession\<close> inserts for an ephemeral session, with no look at the cap.\<close>

definition session_agent ::
  "(string \<Rightarrow> string) \<Rightarrow> ident \<Rightarrow> ident \<Rightarrow> ident \<Rightarrow> string option \<Rightarrow> (string \<times> json) list \<Rightarrow> string \<Rightarrow> time \<Rightarrow> time
     \<Rightarrow> full_agent" where
  "session_agent sha256 agentId sessionId ownerId name metadata token now expires =
     \<lparr>agent_row.ag_id = agentId, agent_row.ag_ownerId = ownerId, ag_status = RowActive,
      ag_expiresAt = Some expires, fa_tenantId = None,
      fa_name = (case name of Some n \<Rightarrow> n | None \<Rightarrow> ''ephemeral-'' @ take 8 sessionId),
      fa_type = Autonomous, fa_tokenHash = sha256 token, fa_tokenPrefix = take 14 token, fa_cnf = None,
      fa_metadata = Some (JObj (spread [(''ephemeral'', JBool True), (''sessionId'', JStr sessionId)] metadata)),
      fa_lastActiveAt = None, fa_createdAt = now, fa_updatedAt = now\<rparr>"

section \<open>How far the cap holds\<close>

text \<open>The table, the callers of \<open>create\<close>, and how many sessions were opened for each user.\<close>

record create_world =
  cw_db :: agent_db
  cw_callers :: "create_pc list"
  cw_opened :: "ident \<Rightarrow> nat"

definition finished :: "create_pc \<Rightarrow> bool" where
  "finished pc \<longleftrightarrow> (case pc of CreateIdle \<Rightarrow> True | CreateDone _ \<Rightarrow> True | CreateThrew \<Rightarrow> True | _ \<Rightarrow> False)"

inductive cap_step :: "agent_config \<Rightarrow> (string \<Rightarrow> string) \<Rightarrow> create_world \<Rightarrow> create_world \<Rightarrow> bool"
  for cf :: agent_config and sha256 :: "string \<Rightarrow> string" where
  cap_call: "i < length (cw_callers w) \<Longrightarrow> finished (cw_callers w ! i) \<Longrightarrow>
     cap_step cf sha256 w (w\<lparr>cw_callers := (cw_callers w)[i := CreateCount input dw]\<rparr>)"
| cap_move: "i < length (cw_callers w) \<Longrightarrow> create_step cf sha256 (cw_callers w ! i) (cw_db w) = (pc', db') \<Longrightarrow>
     cap_step cf sha256 w (w\<lparr>cw_db := db', cw_callers := (cw_callers w)[i := pc']\<rparr>)"
| cap_other: "background (cw_db w) db' \<Longrightarrow> cap_step cf sha256 w (w\<lparr>cw_db := db'\<rparr>)"
| cap_session: "row = session_agent sha256 agentId sessionId ownerId name metadata token now expires \<Longrightarrow>
     cap_step cf sha256 w (w\<lparr>cw_db := (cw_db w)\<lparr>at_agents := at_agents (cw_db w) @ [row]\<rparr>,
                             cw_opened := (cw_opened w)(ownerId := Suc (cw_opened w ownerId))\<rparr>)"

definition cap_start :: "nat \<Rightarrow> create_world \<Rightarrow> bool" where
  "cap_start n w \<longleftrightarrow> at_agents (cw_db w) = [] \<and> cw_callers w = replicate n CreateIdle \<and> cw_opened w = (\<lambda>_. 0)"












section \<open>The slack is used\<close>

text \<open>A schedule that names the caller that moves.\<close>

definition move_caller :: "agent_config \<Rightarrow> (string \<Rightarrow> string) \<Rightarrow> nat \<Rightarrow> create_world \<Rightarrow> create_world" where
  "move_caller cf sha256 i w =
     (if i < length (cw_callers w) then
        (case create_step cf sha256 (cw_callers w ! i) (cw_db w) of
           (pc', db') \<Rightarrow> w\<lparr>cw_db := db', cw_callers := (cw_callers w)[i := pc']\<rparr>)
      else w)"

lemma move_caller_reaches:
  "reaches init (cap_step cf sha256) w \<Longrightarrow> reaches init (cap_step cf sha256) (fold (move_caller cf sha256) is w)"
proof (induction "is" arbitrary: w)
  case (Cons i js)
  have "reaches init (cap_step cf sha256) (move_caller cf sha256 i w)"
    using Cons.prems reaches_step [OF Cons.prems cap_move [of i w]] by (auto simp: move_caller_def split: prod.splits)
  from Cons.IH [OF this] show ?case by simp
qed simp

definition one_agent :: agent_config where
  "one_agent = \<lparr>ag_maxPerUser = 1, ag_tokenExpiry = ''1h''\<rparr>"

definition plain_draw :: "ident \<Rightarrow> agent_draw" where
  "plain_draw i = \<lparr>dw_id = i, dw_secret = i, dw_now = 0, dw_later = 0\<rparr>"

definition empty_agents :: agent_db where
  "empty_agents = \<lparr>at_agents = [], at_permissions = [], at_chains = [], at_delegationAudit = [], at_cascades = []\<rparr>"

definition called :: "nat \<Rightarrow> create_world" where
  "called n =
     \<lparr>cw_db = empty_agents, cw_callers = map (\<lambda>i. CreateCount gated_input (plain_draw (int_str (int i)))) [0..<n],
      cw_opened = (\<lambda>_. 0)\<rparr>"

lemma called_reaches: "reaches (cap_start n) (cap_step cf sha256) (called n)"
proof -
  let ?pc = "\<lambda>i. CreateCount gated_input (plain_draw (int_str (int i)))"
  have "reaches (cap_start n) (cap_step cf sha256)
      \<lparr>cw_db = empty_agents, cw_callers = map ?pc [0..<k] @ replicate (n - k) CreateIdle, cw_opened = (\<lambda>_. 0)\<rparr>"
    (is "reaches _ _ (?w k)") if "k \<le> n" for k
    using that
  proof (induction k)
    case 0
    show ?case by (rule reaches_init) (simp add: cap_start_def empty_agents_def)
  next
    case (Suc k)
    have "k < length (cw_callers (?w k))" "finished (cw_callers (?w k) ! k)"
      using Suc.prems by (simp_all add: nth_append finished_def)
    from reaches_step [OF Suc.IH cap_call [OF this, of _ _ gated_input "plain_draw (int_str (int k))"]] Suc.prems
    show ?case by (simp add: list_update_append Suc_diff_Suc [symmetric])
  qed
  from this [of n] show ?thesis by (simp add: called_def)
qed

text \<open>
  The cap is passed: with \<open>maxPerUser\<close> one, two calls of \<open>create\<close> that both count before either inserts
  leave the user with two active agents, against the promise that \<open>create\<close> enforces the limit.
\<close>

theorem agent_cap_passed:
  "\<exists>w. reaches (cap_start 2) (cap_step one_agent id) w
     \<and> cw_opened w = (\<lambda>_. 0) \<and> length (active_of ''o'' (at_agents (cw_db w))) = 2 \<and> ag_maxPerUser one_agent = 1"
proof -
  let ?w = "fold (move_caller one_agent id) [0, 1, 0, 1] (called 2)"
  have "length (active_of ''o'' (at_agents (cw_db ?w))) = 2" by code_simp
  moreover have "cw_opened ?w = (\<lambda>_. 0)" by (simp add: move_caller_def called_def split: prod.split)
  moreover have "reaches (cap_start 2) (cap_step one_agent id) ?w" by (rule move_caller_reaches [OF called_reaches])
  ultimately show ?thesis by (auto simp: one_agent_def)
qed


end
