(* ===== verification/Spec2Isabelle.thy ===== *)
theory Spec2Isabelle
  imports PolicyEngine TokenFamily MerkleTree AuditVerify AuthorizePipeline DeviceGrant Budget Totp PolicyShrink DecisionRows AgentCap
begin

text \<open>
  TheAuth is an authorization system for agents: people own agents, agents hold permissions or
  receive them by delegation, and every call of a tool is decided by an engine that reads those
  permissions, their constraints and, where a constraint demands it, a human approval. This
  development models that core (\<open>packages/core/src\<close>) and proves what makes it correct.

  Parts and theories:

  \<^item> \<open>Prelude\<close>: strings, arrays and tables as the TypeScript code uses them, and two interfaces as
    locales, \<open>machine\<close> (a step relation with an invariant) and \<open>single_use\<close> (a conditional update
    that names one winner).
  \<^item> \<open>ResourceMatch\<close> (\<open>policy/resource-match.ts\<close>): the colon and path matchers and the overlap
    test. The optimised matchers equal their reference definitions.
  \<^item> \<open>DecisionCodes\<close> (\<open>permission/codes.ts\<close>) and \<open>Attestation\<close>
    (\<open>policy/attestation-constraint.ts\<close>): the closed set of codes; hardware facts, rules and the
    narrowing of rules.
  \<^item> \<open>Abac\<close> (\<open>policy/abac.ts\<close>): permissions and their constraints, evaluated in the order of the
    code, with the hourly limit that counts calls in the rate table.
  \<^item> \<open>SingleUse\<close> (\<open>db/store/single-use.ts\<close>): the conditional statements of the database. Every
    store that claims a token interprets \<open>single_use\<close>, so a token is won once over any sequence
    of calls.
  \<^item> \<open>DelegationRules\<close> and \<open>DelegationStore\<close> (\<open>delegation/\<close>): when permissions are a subset,
    how constraints are inherited and narrowed; creating, listing and revoking links over the tables.
  \<^item> \<open>AuthContext\<close> (\<open>session/auth-context.ts\<close>): how a session proves who the user is, and when
    that meets a step-up requirement.
  \<^item> \<open>CanonicalJson\<close> (\<open>approval/canonical.ts\<close>, \<open>audit/reserved.ts\<close>, \<open>canonicalJson\<close> of
    \<open>audit/chain.ts\<close>): the text whose hash binds an approval to a call, and an audit row to its chain. The
    two writers differ in how a character is escaped, which is a locale with both as instances.
  \<^item> \<open>ApprovalSpend\<close>, \<open>ApprovalQuorum\<close> and \<open>ApprovalModule\<close> (\<open>approval/\<close>): spending an
    approval, votes of several approvers, and the module that requests, decides, lists and expires.
  \<^item> \<open>PermissionEngine\<close> (\<open>permission/engine.ts\<close>): the decision itself, which composes \<open>Abac\<close>,
    \<open>SingleUse\<close> and \<open>ApprovalSpend\<close>, and its audit rows.

  \<^item> \<open>Rebac\<close> (\<open>auth/rebac.ts\<close>, \<open>policy/rebac-bridge.ts\<close>): relations between subjects and a
    hierarchy of resources; the walk that decides a check, the listings, and the store operations
    that keep the hierarchy a forest.

  \<^item> \<open>RoleResolver\<close> (\<open>policy/rbac.ts\<close>) and \<open>HookRunner\<close> (\<open>hooks/run.ts\<close>, \<open>hooks/safety.ts\<close>,
    \<open>authorize/hook-outcome.ts\<close>): permissions from roles; what the host's hook may decide.
  \<^item> \<open>PolicyDecision\<close> (\<open>policy/decision.ts\<close>, \<open>combiner.ts\<close>, \<open>risk.ts\<close>, \<open>taint.ts\<close>) and
    \<open>PolicyCache\<close> (\<open>policy/cache.ts\<close>): verdicts and what turns an allow into a question; the cache
    of decisions, a refinement of a map that forgets nothing.
  \<^item> \<open>PolicyEngine\<close> (\<open>policy/engine.ts\<close>, \<open>engine-support.ts\<close>, \<open>hook-gate.ts\<close>): \<open>evaluate\<close>, which
    composes all of the above over direct, delegated and role permissions.
  \<^item> \<open>AgentStore\<close> (\<open>agent/agent.ts\<close>, \<open>confirmation.ts\<close>, \<open>token-format.ts\<close>): agents, their tokens, the keys a
    token may be bound to, and what revoking an agent takes down. \<open>AgentCap\<close> runs \<open>create\<close> statement by statement
    among everything else that writes the table of agents (the insert of \<open>auth/ephemeral-sessions.ts\<close>
    included) and says how far the cap on agents holds.
  \<^item> \<open>AuthorizePipeline\<close> (\<open>authorize/pipeline.ts\<close>): the entry point, by agent id or by token, which composes
    \<open>AgentStore\<close>, \<open>HookRunner\<close>, \<open>PermissionEngine\<close> and \<open>DelegationStore\<close> into one call with one audit row.
  \<^item> \<open>TokenFamily\<close> (\<open>session/token-family.ts\<close>, \<open>session/refresh.ts\<close>): refresh tokens, their
    families and the detection of reuse, with callers that interleave statement by statement.
  \<^item> \<open>AuditChain\<close> (\<open>audit/chain.ts\<close>, \<open>integrity.ts\<close>, \<open>pseudonym.ts\<close>, \<open>pseudonym-rotation.ts\<close>) and
    \<open>AuditVerify\<close> (\<open>audit/verify.ts\<close>, \<open>verify-anchors.ts\<close>): the hash chain of each agent, the writers that
    race for its head, and the verifier, which accepts what they write and nothing else.
  \<^item> \<open>MerkleTree\<close> (\<open>audit/checkpoint-merkle.ts\<close>): the tree over the rows of a checkpoint, equal to the
    tree of RFC 6962, with inclusion and consistency proofs that are complete and sound.

  \<^item> \<open>Storage\<close> (\<open>storage/types.ts\<close>, \<open>memory.ts\<close>, \<open>custom.ts\<close>, \<open>resolve.ts\<close>, \<open>rate-limit-store.ts\<close>) and
    \<open>DatabaseStorage\<close> (\<open>storage/database.ts\<close>): the key and value store of short-lived state. Its contract is
    the locale \<open>secondary_storage\<close>, which the map in memory, the table and every prefixed space interpret.
  \<^item> \<open>LoginLockout\<close> (\<open>auth/login-lockout.ts\<close> and the password step of \<open>auth/username.ts\<close>), \<open>Otp\<close>
    (\<open>auth/otp.ts\<close>) and \<open>DeviceGrant\<close> (\<open>auth/device-auth.ts\<close>): clients of that contract. What they promise to
    one caller after the other is proved from its laws alone; what happens when calls interleave, statement
    by statement, is proved or refuted on the store in memory.
  \<^item> \<open>Base32\<close> and \<open>Totp\<close> (\<open>auth/totp.ts\<close>): authenticator codes, with the 32 bit accumulator of base 32,
    backup codes and the endpoints; verification calls interleave there too.
  \<^item> \<open>JsonText\<close> (\<open>JSON.stringify\<close> and \<open>JSON.parse\<close>) and \<open>Encoding\<close> (\<open>crypto/web-crypto.ts\<close>): the texts in which
    those clients keep their records and hashes.
  \<^item> \<open>Budget\<close> (\<open>policies/budget.ts\<close>): limits on the calls and the costs of agents.
  \<^item> \<open>GrantMatcher\<close>, \<open>PolicyShrink\<close> and \<open>DecisionRows\<close> (\<open>policy-shrink/\<close>): what recorded decisions say about
    the grants of an agent, and the smaller set they suggest. The bucketed matcher equals the scan of
    \<open>Abac\<close>, the suggestion denies no call of a grant that was used as often as the minimum says, and pages put
    together are the log.

  How code becomes definitions. A function of the source is a definition of the same name; an
  interface is a record, a union a datatype, \<open>undefined\<close> and \<open>null\<close> are \<open>None\<close>, a thrown error
  or a denial is the left side of a sum. A table is the list of its rows, a query a filter, and a
  conditional update reports whether it changed a row. A call that awaits between its read and its
  write takes the table at each point (\<open>consumeApproval\<close>, \<open>resolve\<close>, \<open>delegate\<close>), or is a program
  with a counter whose statements interleave with those of other callers (\<open>castApproval\<close> in
  \<open>ApprovalQuorum\<close>, \<open>create\<close> in \<open>AgentCap\<close>). Clocks and fresh ids are arguments. Where a theory runs the
  statements of a call in one step, it says what the call does when nobody interrupts it, and its
  theorems are about such calls: \<open>create\<close>, \<open>update\<close>, \<open>rotate\<close> and \<open>revoke\<close> of \<open>AgentStore\<close>, the checks of \<open>LoginLockout\<close> and
  \<open>Otp\<close> outside their last sections, \<open>verify\<close> of \<open>Totp\<close> outside its own, and the read and write of a
  row of usage in \<open>Budget\<close>.

  What the lemmas show. Safety: an allowed call is granted and satisfies its constraints, a
  delegation grants nothing its delegator did not hold, revoking a link takes down everything below
  it, an approval is spent once, for the call that was approved, by people who proved who they are.
  Functional behaviour: each matcher, check and store operation is characterised, errors included.
  Some properties of the code fail, and the counterexamples are proved as well: the narrowing of
  pattern lists and of time windows, the inheritance of constraints, path subsets, liveness per
  agent, rate keys that collide, a counted vote that is withdrawn, the
  listing of subjects beyond the depth of a check, a resource with an empty id, a cached answer
  that carries the roles of another user, an approval that skips the address list, role grants
  lost to a colliding fingerprint, a relation gate dropped by delegation and another when an agent is
  created, a refused call that counts twice, and two readings of the instant of expiry; two callers that
  are both told they are the first of a counter, a threshold that both of two callers skip, parallel
  attempts at a password or at a code that exceed their limits, calls of \<open>create\<close> that pass the cap on agents,
  an access token that outlives the absolute timeout of its session, a device that polls too fast and so undoes
  the answer of its user, a warning that hides the blocking policies behind it, a disabled budget that
  a reset enables, a backup code that two calls spend, a second factor that \<open>setup\<close> turns off, and a merge
  of grants that drops a constraint.

  Bounds and fuel. \<open>revokeLink\<close> runs with fuel of twice the number of active links plus two,
  which is enough because every step down deactivates a link. Deleting a resource and listing
  subjects run with fuel of the number of resources plus one, since every step goes to another
  resource of the forest. The walk up a delegation is
  bounded by the constant 16 of the code, nested arguments by its constant 32. \<open>castApproval\<close>
  makes at most six statements, \<open>consumeToken\<close> five, and an append tries thirty times and an
  increment of the database four, as in the code. The parser of JSON has fuel of twice the length of its text, which
  its round trip shows to be enough for what is written. The
  Merkle recursions that split a range are partial functions, proved to return. All other recursions are structural or have a measure.

  Parameters. The regular expression engine, SHA-256, HMAC, the signer of access tokens, the check of a password, the sender of a code, random bytes and generated ids are arguments. Claims about
  hashes are stated up to a collision.

  Not modelled. Numbers are integers and characters are code units below 256, so non-integer
  numbers, surrogates and the escapes for them do not arise (nor does the rounding down of a fractional
  setting by \<open>positive\<close> or \<open>wholeOr\<close>); dates are milliseconds. The clock that keeps the times of audit rows
  increasing is one for all writers, where \<open>chain.ts\<close> has one per process. Tamper evidence is about the
  fields of \<open>same_content\<close>, which leaves out the pseudonyms that version 2 also hashes. Texts of
  messages are constructors. Webhook delivery, listeners, the push of revoked ids, durations and
  the captured provenance of audit rows are output only. The database is its conditional
  statements, each atomic. Sign-in methods, session cookies, the signing of checkpoints, the erasure
  of audit rows, the OAuth and OpenID endpoints, device formats, credentials, storage drivers, user interfaces and the other packages are not part
  of this development; \<open>PROJECT.json\<close> lists them.
\<close>

end
